(* ===== verification/Prelude.thy ===== *)
theory Prelude
  imports Main "HOL-Library.Word" "HOL-Library.Multiset"
begin

text \<open>
  Shared vocabulary of the development: how a C call can go wrong, 64-bit \<open>size_t\<close>
  arithmetic, byte buffers as \<open>memcpy\<close> sees them, the contract of a C comparison
  callback (locale \<open>cmp_order\<close>) and the contract "this data structure implements that
  abstract one" (locale \<open>data_refinement\<close>), whose consequence for whole sequences of calls
  is proved once here and used by every container.
\<close>

section \<open>Outcomes of a C call\<close>

text \<open>
  A call either returns or stops: \<open>Assert_failed\<close> is an \<open>assert\<close> that aborts the program,
  \<open>Bad_access\<close> is a read or write through a pointer that is NULL, dangling or outside
  its object, \<open>Bad_free\<close> is a \<open>free\<close> of something that is not allocated, \<open>Int_overflow\<close> is a
  signed computation that leaves the range of its type, which C leaves undefined, and \<open>Div_by_zero\<close> a
  division by zero. A loop over a
  linked structure that the caller may have closed into a cycle carries a step budget;
  \<open>Out_of_fuel\<close> says that the budget was spent, and the lemmas say which budget is enough.
\<close>

datatype fault = Assert_failed | Bad_access | Bad_free | Int_overflow | Div_by_zero | Out_of_fuel

type_synonym 'a result = "fault + 'a"

definition bindE :: "'a result \<Rightarrow> ('a \<Rightarrow> 'b result) \<Rightarrow> 'b result" where
  "bindE m f = (case m of Inl e \<Rightarrow> Inl e | Inr x \<Rightarrow> f x)"

definition assertE :: "bool \<Rightarrow> unit result" where
  "assertE b = (if b then Inr () else Inl Assert_failed)"

definition fetch :: "'a option \<Rightarrow> 'a result" where
  "fetch x = (case x of None \<Rightarrow> Inl Bad_access | Some v \<Rightarrow> Inr v)"

section \<open>Machine values\<close>

type_synonym byte = "8 word"
type_synonym ptr = "64 word"

abbreviation (input) NULL :: ptr where
  "NULL \<equiv> 0"

text \<open>\<open>size_t\<close> values are natural numbers below \<open>2 ^ 64\<close>; the operations wrap.\<close>

definition szadd :: "nat \<Rightarrow> nat \<Rightarrow> nat" where
  "szadd a b = (a + b) mod 2 ^ 64"

definition szmul :: "nat \<Rightarrow> nat \<Rightarrow> nat" where
  "szmul a b = (a * b) mod 2 ^ 64"

definition szsub :: "nat \<Rightarrow> nat \<Rightarrow> nat" where
  "szsub a b = (if b \<le> a then a - b else 2 ^ 64 + a - b)"

text \<open>An \<open>int\<close> computation that must stay in the width of a 32-bit \<open>int\<close>.\<close>

definition int32 :: "int \<Rightarrow> int result" where
  "int32 v = (if - (2 ^ 31) \<le> v \<and> v < 2 ^ 31 then Inr v else Inl Int_overflow)"

section \<open>Byte buffers\<close>

text \<open>
  A block of memory is the list of its bytes. Reading or writing outside it is
  \<open>Bad_access\<close>; \<open>realloc\<close> keeps the common prefix and leaves the rest unspecified, which is
  why the new bytes are an argument.
\<close>

definition read_bytes :: "byte list \<Rightarrow> nat \<Rightarrow> nat \<Rightarrow> byte list result" where
  "read_bytes buf off n =
     (if off + n \<le> length buf then Inr (take n (drop off buf)) else Inl Bad_access)"

definition write_bytes :: "byte list \<Rightarrow> nat \<Rightarrow> byte list \<Rightarrow> byte list result" where
  "write_bytes buf off bs =
     (if off + length bs \<le> length buf
      then Inr (take off buf @ bs @ drop (off + length bs) buf) else Inl Bad_access)"

text \<open>What \<open>realloc\<close> answers: a block of \<open>n\<close> bytes, the tail filled with \<open>junk\<close>.\<close>

definition resize :: "byte list \<Rightarrow> (nat \<Rightarrow> byte) \<Rightarrow> nat \<Rightarrow> byte list" where
  "resize buf junk n = take n buf @ map junk [length buf..<n]"

definition fresh_block :: "(nat \<Rightarrow> byte) \<Rightarrow> nat \<Rightarrow> byte list" where
  "fresh_block junk n = map junk [0..<n]"

text \<open>
  The allocator is not part of the program: what it answers to a request is an argument of
  the operation that makes it, \<open>None\<close> for NULL, else what the new bytes happen to hold.
\<close>

type_synonym alloc = "(nat \<Rightarrow> byte) option"

definition malloc_block :: "alloc \<Rightarrow> nat \<Rightarrow> byte list option" where
  "malloc_block a n = map_option (\<lambda>junk. fresh_block junk n) a"

definition realloc_block :: "alloc \<Rightarrow> byte list \<Rightarrow> nat \<Rightarrow> byte list option" where
  "realloc_block a buf n = map_option (\<lambda>junk. resize buf junk n) a"

text \<open>Element \<open>i\<close> of an array whose elements are \<open>es\<close> bytes wide.\<close>

definition chunk :: "nat \<Rightarrow> byte list \<Rightarrow> nat \<Rightarrow> byte list" where
  "chunk es buf i = take es (drop (i * es) buf)"

definition chunks :: "nat \<Rightarrow> byte list \<Rightarrow> nat \<Rightarrow> byte list list" where
  "chunks es buf n = map (chunk es buf) [0..<n]"

section \<open>Runs of calls\<close>

text \<open>A client's sequence of calls, on the code and on the specification.\<close>

fun run_calls :: "('op \<Rightarrow> 's \<Rightarrow> ('s \<times> 'out) result) \<Rightarrow> 'op list \<Rightarrow> 's \<Rightarrow> ('s \<times> 'out list) result" where
  "run_calls step [] s = Inr (s, [])"
| "run_calls step (c # cs) s =
     bindE (step c s) (\<lambda>(s', out).
     bindE (run_calls step cs s') (\<lambda>(s'', outs). Inr (s'', out # outs)))"

fun run_spec :: "('op \<Rightarrow> 'a \<Rightarrow> 'a \<times> 'out) \<Rightarrow> 'op list \<Rightarrow> 'a \<Rightarrow> 'a \<times> 'out list" where
  "run_spec step [] a = (a, [])"
| "run_spec step (c # cs) a =
     (let (a', out) = step c a; (a'', outs) = run_spec step cs a' in (a'', out # outs))"

fun run_legal :: "('op \<Rightarrow> 'a \<Rightarrow> bool) \<Rightarrow> ('op \<Rightarrow> 'a \<Rightarrow> 'a \<times> 'out) \<Rightarrow> 'op list \<Rightarrow> 'a \<Rightarrow> bool" where
  "run_legal pre step [] a = True"
| "run_legal pre step (c # cs) a = (pre c a \<and> run_legal pre step cs (fst (step c a)))"

text \<open>The same for calls whose preconditions also speak about the concrete state.\<close>

fun run_ok :: "('op \<Rightarrow> 's \<Rightarrow> 'a \<Rightarrow> bool) \<Rightarrow> ('op \<Rightarrow> 's \<Rightarrow> ('s \<times> 'out) result) \<Rightarrow>
    ('op \<Rightarrow> 'a \<Rightarrow> 'a \<times> 'out) \<Rightarrow> 'op list \<Rightarrow> 's \<Rightarrow> 'a \<Rightarrow> bool" where
  "run_ok ok cstep astep [] s a = True"
| "run_ok ok cstep astep (c # cs) s a =
     (ok c s a \<and> (case cstep c s of Inl e \<Rightarrow> True
                   | Inr r \<Rightarrow> run_ok ok cstep astep cs (fst r) (fst (astep c a))))"

section \<open>Lemmas\<close>

lemma sum_list_map_update:
  fixes f :: "'a \<Rightarrow> nat"
  assumes "t < length xs"
  shows "sum_list (map f (xs[t := x])) + f (xs ! t) = sum_list (map f xs) + f x"
proof -
  have "f (xs ! t) \<le> sum_list (map f xs)" using assms by (intro member_le_sum_list) auto
  then show ?thesis using assms by (simp add: map_update sum_list_update)
qed

named_theorems result_simps \<open>how the outcome combinators compute\<close>

lemma bindE_simps [simp, result_simps]:
  "bindE (Inl e) f = Inl e" "bindE (Inr x) f = f x"
  by (simp_all add: bindE_def)

lemma bindE_cong [fundef_cong]:
  "m = m' \<Longrightarrow> (\<And>x. m' = Inr x \<Longrightarrow> f x = g x) \<Longrightarrow> bindE m f = bindE m' g"
  by (cases m') auto

lemma bindE_Inr_iff: "bindE m f = Inr y \<longleftrightarrow> (\<exists>x. m = Inr x \<and> f x = Inr y)"
  by (cases m) auto

lemma bindE_assoc: "bindE (bindE m f) g = bindE m (\<lambda>x. bindE (f x) g)"
  by (cases m) auto

lemma assertE_simps [simp, result_simps]:
  "assertE True = Inr ()" "assertE False = Inl Assert_failed"
  by (simp_all add: assertE_def)

lemma assertE_Inr_iff [simp]: "assertE b = Inr u \<longleftrightarrow> b"
  by (simp add: assertE_def)

lemma fetch_simps [simp, result_simps]:
  "fetch None = Inl Bad_access" "fetch (Some v) = Inr v"
  by (simp_all add: fetch_def)

lemma fetch_Inr_iff [simp]: "fetch x = Inr v \<longleftrightarrow> x = Some v"
  by (cases x) auto

lemma szadd_small [simp]: "a + b < 2 ^ 64 \<Longrightarrow> szadd a b = a + b"
  by (simp add: szadd_def)

lemma szmul_small [simp]: "a * b < 2 ^ 64 \<Longrightarrow> szmul a b = a * b"
  by (simp add: szmul_def)

lemma szsub_le [simp]: "b \<le> a \<Longrightarrow> szsub a b = a - b"
  by (simp add: szsub_def)

lemma read_bytes_ok: "off + n \<le> length buf \<Longrightarrow> read_bytes buf off n = Inr (take n (drop off buf))"
  by (simp add: read_bytes_def)

lemma write_bytes_ok:
  "off + length bs \<le> length buf \<Longrightarrow>
   write_bytes buf off bs = Inr (take off buf @ bs @ drop (off + length bs) buf)"
  by (simp add: write_bytes_def)

lemma write_bytes_length: "write_bytes buf off bs = Inr buf' \<Longrightarrow> length buf' = length buf"
  by (auto simp: write_bytes_def split: if_splits)

lemma write_bytes_nth:
  assumes "write_bytes buf off bs = Inr buf'" "p < length buf"
  shows "buf' ! p = (if off \<le> p \<and> p < off + length bs then bs ! (p - off) else buf ! p)"
  using assms by (auto simp: write_bytes_def nth_append min_def split: if_splits)

lemma length_resize [simp]: "length (resize buf junk n) = n"
  by (simp add: resize_def)

lemma length_fresh_block [simp]: "length (fresh_block junk n) = n"
  by (simp add: fresh_block_def)

lemma take_resize: "k \<le> n \<Longrightarrow> k \<le> length buf \<Longrightarrow> take k (resize buf junk n) = take k buf"
  by (simp add: resize_def)

lemma chunk_bound: "i < n \<Longrightarrow> i * es + es \<le> n * (es :: nat)"
proof -
  assume "i < n"
  then have "Suc i * es \<le> n * es" by (intro mult_le_mono1) simp
  then show ?thesis by (simp add: algebra_simps)
qed

lemma chunk_prefix:
  assumes "take (n * es) buf = take (n * es) buf'" "i < n"
  shows "chunk es buf i = chunk es buf' i"
proof -
  have cut: "chunk es b i = take es (drop (i * es) (take (n * es) b))" for b
    using chunk_bound [OF assms(2), of es]
    by (simp add: chunk_def take_drop min_def add.commute)
  show ?thesis using assms(1) by (simp only: cut)
qed

lemma chunks_prefix:
  "take (n * es) buf = take (n * es) buf' \<Longrightarrow> k \<le> n \<Longrightarrow> chunks es buf k = chunks es buf' k"
  by (auto simp: chunks_def intro: chunk_prefix)

lemma length_chunks [simp]: "length (chunks es buf n) = n"
  by (simp add: chunks_def)

lemma chunks_eq_Nil [simp]: "chunks es buf n = [] \<longleftrightarrow> n = 0"
  by (simp add: chunks_def)

lemma nth_chunks [simp]: "i < n \<Longrightarrow> chunks es buf n ! i = chunk es buf i"
  by (simp add: chunks_def)

lemma chunks_Suc: "chunks es buf (Suc n) = chunks es buf n @ [chunk es buf n]"
  by (simp add: chunks_def)

lemma take_chunks: "k \<le> n \<Longrightarrow> take k (chunks es buf n) = chunks es buf k"
  by (simp add: chunks_def take_map)

lemma butlast_chunks: "butlast (chunks es buf n) = chunks es buf (n - 1)"
  by (simp add: butlast_conv_take take_chunks)

text \<open>Writing element \<open>i\<close> changes element \<open>i\<close> and no other.\<close>

lemma chunk_write_same:
  assumes "length bs = es" "i * es + es \<le> length buf"
  shows "chunk es (take (i * es) buf @ bs @ drop (i * es + es) buf) i = bs"
  using assms by (simp add: chunk_def)

lemma chunk_write_other:
  assumes "length bs = es" "i * es + es \<le> length buf" "j \<noteq> i"
  shows "chunk es (take (i * es) buf @ bs @ drop (i * es + es) buf) j = chunk es buf j"
proof (cases "j < i")
  case True
  then have "j * es + es \<le> i * es" by (rule chunk_bound)
  with assms show ?thesis by (simp add: chunk_def take_drop min_def)
next
  case False
  with assms(3) have "i < j" by simp
  then have far: "i * es + es \<le> j * es" by (rule chunk_bound)
  then have le: "i * es \<le> j * es" by linarith
  have "length (take (i * es) buf) \<le> i * es" by simp
  from this le have "length (take (i * es) buf) \<le> j * es" by (rule le_trans)
  then have "drop (j * es) (take (i * es) buf) = []" by (rule drop_all)
  with assms far le show ?thesis by (simp add: chunk_def del: mult_le_cancel2)
qed

lemma chunks_write:
  assumes "length bs = es" "i * es + es \<le> length buf"
  shows "chunks es (take (i * es) buf @ bs @ drop (i * es + es) buf) n = (chunks es buf n)[i := bs]"
proof (rule nth_equalityI)
  fix j
  assume "j < length (chunks es (take (i * es) buf @ bs @ drop (i * es + es) buf) n)"
  then have j: "j < n" by simp
  show "chunks es (take (i * es) buf @ bs @ drop (i * es + es) buf) n ! j = (chunks es buf n)[i := bs] ! j"
    using j chunk_write_same [OF assms] chunk_write_other [OF assms, of j]
    by (cases "j = i") simp_all
qed simp

text \<open>Preconditions that hold in every concrete state need only the abstract run.\<close>

lemma run_ok_abstract: "run_legal (\<lambda>c a. \<forall>s. ok c s a) astep cs a \<Longrightarrow> run_ok ok cstep astep cs s a"
  by (induction cs arbitrary: s a) (auto split: sum.splits)

section \<open>Linked nodes\<close>

text \<open>
  The nodes of a linked list, in order, with their data; the address of the first one, or of
  what follows the list.
\<close>

definition first_of :: "(ptr \<times> ptr) list \<Rightarrow> ptr \<Rightarrow> ptr" where
  "first_of xs z = (case xs of [] \<Rightarrow> z | (a, d) # _ \<Rightarrow> a)"

text \<open>What a \<open>ForEach\<close> computes: the action on the data in order, until it answers non-zero.\<close>

fun each_spec :: "(ptr \<Rightarrow> 's \<Rightarrow> 's \<times> int) \<Rightarrow> ptr list \<Rightarrow> 's \<Rightarrow> 's \<times> int" where
  "each_spec f [] s = (s, 0)"
| "each_spec f (d # ds) s = (let (s', rc) = f d s in if rc = 0 then each_spec f ds s' else (s', rc))"

lemma first_of_simps [simp]: "first_of [] z = z" "first_of ((a, d) # xs) z = a"
  by (simp_all add: first_of_def)

lemma first_of_append [simp]: "first_of (xs @ ys) z = first_of xs (first_of ys z)"
  by (cases xs) (auto simp: first_of_def)

lemma each_spec_append:
  "each_spec f (xs @ ys) s = (case each_spec f xs s of (s', rc) \<Rightarrow> if rc = 0 then each_spec f ys s' else (s', rc))"
  by (induction xs arbitrary: s) (auto simp: Let_def split: prod.splits)

section \<open>Interfaces\<close>

text \<open>
  The contract every container puts on its comparison callback: the sign of \<open>cmp x y\<close>
  orders the data as a total preorder.
\<close>

locale cmp_order =
  fixes cmp :: "'a \<Rightarrow> 'a \<Rightarrow> int"
  assumes cmp_swap: "0 < cmp x y \<longleftrightarrow> cmp y x < 0"
    and cmp_trans: "cmp x y \<le> 0 \<Longrightarrow> cmp y z \<le> 0 \<Longrightarrow> cmp x z \<le> 0"
begin

lemma cmp_refl: "cmp x x = 0"
  using cmp_swap [of x x] by linarith

lemma cmp_total: "cmp x y \<le> 0 \<or> cmp y x \<le> 0"
  using cmp_swap [of x y] by linarith

lemma cmp_not_gt: "\<not> 0 < cmp x y \<longleftrightarrow> cmp x y \<le> 0"
  by linarith

lemma cmp_gt_le: "0 < cmp x y \<Longrightarrow> cmp y x \<le> 0"
  using cmp_swap [of x y] by linarith

lemma cmp_eq_sym: "cmp x y = 0 \<longleftrightarrow> cmp y x = 0"
  using cmp_swap [of x y] cmp_swap [of y x] by linarith

lemma cmp_le_swap: "cmp x y \<le> 0 \<longleftrightarrow> 0 \<le> cmp y x"
  using cmp_swap [of x y] by linarith

lemma cmp_less_trans:
  assumes "cmp x y < 0" "cmp y z \<le> 0"
  shows "cmp x z < 0"
proof (rule ccontr)
  assume "\<not> cmp x z < 0"
  then have "cmp z x \<le> 0" using cmp_le_swap [of z x] by simp
  with assms(2) have "cmp y x \<le> 0" by (rule cmp_trans)
  with assms(1) cmp_swap [of y x] show False by linarith
qed

lemma cmp_le_less_trans:
  assumes "cmp x y \<le> 0" "cmp y z < 0"
  shows "cmp x z < 0"
proof (rule ccontr)
  assume "\<not> cmp x z < 0"
  then have "cmp z x \<le> 0" using cmp_le_swap [of z x] by simp
  from this assms(1) have "cmp z y \<le> 0" by (rule cmp_trans)
  with assms(2) cmp_swap [of z y] show False by linarith
qed

end

text \<open>
  The contract of a structure in a store, where a relation \<open>R\<close> ties the concrete state to the
  abstract one and a call may also need something of the concrete state (a fresh address).
\<close>

locale rel_refinement =
  fixes R :: "'s \<Rightarrow> 'a \<Rightarrow> bool"
    and cstep :: "'op \<Rightarrow> 's \<Rightarrow> ('s \<times> 'out) result"
    and astep :: "'op \<Rightarrow> 'a \<Rightarrow> 'a \<times> 'out"
    and ok :: "'op \<Rightarrow> 's \<Rightarrow> 'a \<Rightarrow> bool"
  assumes sim_rel: "R s a \<Longrightarrow> ok c s a \<Longrightarrow>
    \<exists>s'. cstep c s = Inr (s', snd (astep c a)) \<and> R s' (fst (astep c a))"
begin

lemma run_simulates:
  "R s a \<Longrightarrow> run_ok ok cstep astep cs s a \<Longrightarrow>
   \<exists>s'. run_calls cstep cs s = Inr (s', snd (run_spec astep cs a)) \<and> R s' (fst (run_spec astep cs a))"
proof (induction cs arbitrary: s a)
  case Nil
  then show ?case by simp
next
  case (Cons c cs)
  from Cons.prems have "ok c s a" by simp
  with Cons.prems(1) obtain s1 where
    step: "cstep c s = Inr (s1, snd (astep c a))" "R s1 (fst (astep c a))"
    using sim_rel by blast
  with Cons.prems(2) have "run_ok ok cstep astep cs s1 (fst (astep c a))" by simp
  with Cons.IH [OF step(2)] step(1) show ?case by (auto simp: case_prod_unfold Let_def)
qed

end

text \<open>
  The contract of a container: the code's calls (\<open>cstep\<close>, partial) follow the calls of an
  abstract machine (\<open>astep\<close>) through the abstraction \<open>abs\<close>, from every well-formed
  state and for every call its documentation allows (\<open>pre\<close>).
\<close>

locale data_refinement =
  fixes wf :: "'s \<Rightarrow> bool"
    and abs :: "'s \<Rightarrow> 'a"
    and cstep :: "'op \<Rightarrow> 's \<Rightarrow> ('s \<times> 'out) result"
    and astep :: "'op \<Rightarrow> 'a \<Rightarrow> 'a \<times> 'out"
    and pre :: "'op \<Rightarrow> 'a \<Rightarrow> bool"
  assumes sim: "wf s \<Longrightarrow> pre c (abs s) \<Longrightarrow>
    \<exists>s' out. cstep c s = Inr (s', out) \<and> wf s' \<and> astep c (abs s) = (abs s', out)"
begin

sublocale rel_refinement "\<lambda>s a. wf s \<and> a = abs s" cstep astep "\<lambda>c s a. pre c a"
  using sim by unfold_locales fastforce

lemma run_legal_ok: "wf s \<Longrightarrow> run_legal pre astep cs (abs s) \<Longrightarrow>
   run_ok (\<lambda>c s a. pre c a) cstep astep cs s (abs s)"
proof (induction cs arbitrary: s)
  case (Cons c cs)
  with sim [of s c] obtain s' out where "cstep c s = Inr (s', out)" "wf s'" "astep c (abs s) = (abs s', out)"
    by auto
  with Cons show ?case by simp
qed simp

lemma run_refines:
  "wf s \<Longrightarrow> run_legal pre astep cs (abs s) \<Longrightarrow>
   \<exists>s' outs. run_calls cstep cs s = Inr (s', outs) \<and> wf s' \<and>
     run_spec astep cs (abs s) = (abs s', outs)"
  using run_simulates [of s "abs s" cs] run_legal_ok [of s cs] by (metis prod.collapse)

lemma run_no_fault:
  "wf s \<Longrightarrow> run_legal pre astep cs (abs s) \<Longrightarrow> run_calls cstep cs s \<noteq> Inl e"
  using run_refines [of s cs] by auto

end

text \<open>
  The contract of a structure that lives in a store it shares with others: it depends only on
  the addresses it owns (\<open>foot\<close>). A family of such structures with disjoint footprints
  survives an operation on one of its members that touches that member and fresh addresses.
\<close>

locale framed =
  fixes rep :: "'m \<Rightarrow> 'r \<Rightarrow> bool"
    and foot :: "'r \<Rightarrow> 'p set"
    and agree :: "'m \<Rightarrow> 'm \<Rightarrow> 'p set \<Rightarrow> bool"
    and live :: "'m \<Rightarrow> 'p set"
  assumes rep_agree: "rep m r \<Longrightarrow> agree m m' (foot r) \<Longrightarrow> rep m' r"
    and agree_mono: "agree m m' A \<Longrightarrow> B \<subseteq> A \<Longrightarrow> agree m m' B"
    and rep_live: "rep m r \<Longrightarrow> foot r \<subseteq> live m"
begin

definition family :: "'m \<Rightarrow> 'r list \<Rightarrow> bool" where
  "family m rs \<longleftrightarrow> (\<forall>i < length rs. rep m (rs ! i)) \<and>
     (\<forall>i < length rs. \<forall>j < length rs. i \<noteq> j \<longrightarrow> foot (rs ! i) \<inter> foot (rs ! j) = {})"

lemma family_other:
  assumes "family m rs" "i < length rs" "j < length rs" "j \<noteq> i" "new \<inter> live m = {}"
    "agree m m' (- (foot (rs ! i) \<union> new))"
  shows "rep m' (rs ! j) \<and> foot (rs ! j) \<inter> (foot (rs ! i) \<union> new) = {}"
proof -
  have "rep m (rs ! j)" "foot (rs ! j) \<inter> foot (rs ! i) = {}" using assms(1-4) by (auto simp: family_def)
  moreover have "foot (rs ! j) \<inter> new = {}" using rep_live [OF calculation(1)] assms(5) by auto
  ultimately show ?thesis
    using rep_agree agree_mono [OF assms(6), of "foot (rs ! j)"] by blast
qed

lemma family_update:
  assumes fam: "family m rs" and i: "i < length rs" and r: "rep m' r" "foot r \<subseteq> foot (rs ! i) \<union> new"
    and fresh: "new \<inter> live m = {}" and ag: "agree m m' (- (foot (rs ! i) \<union> new))"
  shows "family m' (rs[i := r])"
proof -
  have "rep m' (rs[i := r] ! j)" if "j < length rs" for j
    using family_other [OF fam i that _ fresh ag] r(1) that by (cases "j = i") auto
  moreover have "foot (rs[i := r] ! j) \<inter> foot (rs[i := r] ! k) = {}"
    if "j < length rs" "k < length rs" "j \<noteq> k" for j k
    using that family_other [OF fam i that(1) _ fresh ag] family_other [OF fam i that(2) _ fresh ag] r(2) fam
    by (cases "j = i"; cases "k = i") (fastforce simp: family_def)+
  ultimately show ?thesis by (simp add: family_def)
qed

end

end
