(* ===== verification/Vector.thy ===== *)
theory Vector
  imports Prelude
begin

text \<open>
  The dynamic array of \<open>ds/src/vector.c\<close>: a byte buffer with a capacity counted in elements
  of \<open>element_size\<close> bytes, doubling when full and halving when a quarter full. The
  abstraction is the list of its elements; \<open>vector_refines\<close> interprets the container
  contract for it.
\<close>

section \<open>Definitions\<close>

abbreviation (input) DEFAULT_CAPACITY :: nat where
  "DEFAULT_CAPACITY \<equiv> 8"

abbreviation (input) GROWTH_FACTOR :: nat where
  "GROWTH_FACTOR \<equiv> 2"

abbreviation (input) SHRINK_THRESHOLD_DIVISOR :: nat where
  "SHRINK_THRESHOLD_DIVISOR \<equiv> 4"

record vector_t =
  v_size :: nat
  v_capacity :: nat
  v_element_size :: nat
  v_buffer :: "byte list"

text \<open>\<open>struct_ok\<close> and \<open>a\<close> are the answers of the two \<open>malloc\<close> calls.\<close>

definition VectorCreate :: "bool \<Rightarrow> alloc \<Rightarrow> nat \<Rightarrow> nat \<Rightarrow> vector_t option" where
  "VectorCreate struct_ok a init_capacity0 element_size =
     (let init_capacity = (if init_capacity0 < DEFAULT_CAPACITY then DEFAULT_CAPACITY else init_capacity0)
      in if \<not> struct_ok then None
         else case malloc_block a (szmul init_capacity element_size) of
                None \<Rightarrow> None
              | Some buf \<Rightarrow> Some \<lparr>v_size = 0, v_capacity = init_capacity,
                                 v_element_size = element_size, v_buffer = buf\<rparr>)"

text \<open>A destroyed vector is \<open>None\<close>: its struct and its buffer are freed.\<close>

definition VectorDestroy :: "vector_t \<Rightarrow> vector_t option" where
  "VectorDestroy vector = None"

definition VectorReserve :: "alloc \<Rightarrow> vector_t \<Rightarrow> nat \<Rightarrow> vector_t option \<times> int" where
  "VectorReserve a vector new_capacity0 =
     (let new_capacity = (if new_capacity0 < DEFAULT_CAPACITY then DEFAULT_CAPACITY else new_capacity0)
      in case realloc_block a (v_buffer vector) (szmul new_capacity (v_element_size vector)) of
           None \<Rightarrow> (VectorDestroy vector, -1)
         | Some new_buffer \<Rightarrow>
             (Some (vector\<lparr>v_buffer := new_buffer, v_capacity := new_capacity\<rparr>), 0))"

text \<open>The tail of \<open>VectorPushBack\<close>: the copy and the new size.\<close>

definition VectorPushBack_store :: "vector_t \<Rightarrow> byte list \<Rightarrow> (vector_t option \<times> int) result" where
  "VectorPushBack_store vector element =
     bindE (read_bytes element 0 (v_element_size vector)) (\<lambda>bs.
     bindE (write_bytes (v_buffer vector) (szmul (v_size vector) (v_element_size vector)) bs) (\<lambda>buf.
     Inr (Some (vector\<lparr>v_buffer := buf, v_size := v_size vector + 1\<rparr>), 0)))"

definition VectorPushBack :: "alloc \<Rightarrow> vector_t \<Rightarrow> byte list \<Rightarrow> (vector_t option \<times> int) result" where
  "VectorPushBack a vector element =
     (if v_size vector = v_capacity vector
      then let vector1 = vector\<lparr>v_capacity := szmul (v_capacity vector) GROWTH_FACTOR\<rparr>
           in case VectorReserve a vector1 (v_capacity vector1) of
                (None, status) \<Rightarrow> Inr (None, -1)
              | (Some vector2, status) \<Rightarrow>
                  if status \<noteq> 0 then Inr (Some vector2, -1) else VectorPushBack_store vector2 element
      else VectorPushBack_store vector element)"

definition VectorPopBack :: "alloc \<Rightarrow> vector_t \<Rightarrow> vector_t result" where
  "VectorPopBack a vector =
     bindE (assertE (0 < v_size vector)) (\<lambda>_.
     if v_capacity vector div SHRINK_THRESHOLD_DIVISOR = v_size vector
     then let vector1 = vector\<lparr>v_capacity := v_capacity vector div GROWTH_FACTOR\<rparr>
          in case VectorReserve a vector1 (v_capacity vector1) of
               (None, status) \<Rightarrow> Inl Bad_access
             | (Some vector2, status) \<Rightarrow> Inr (vector2\<lparr>v_size := v_size vector2 - 1\<rparr>)
     else Inr (vector\<lparr>v_size := v_size vector - 1\<rparr>))"

text \<open>The pointer it returns is the offset of the element in the buffer.\<close>

definition VectorGetAccessToElement :: "vector_t \<Rightarrow> nat \<Rightarrow> nat" where
  "VectorGetAccessToElement vector index = szmul index (v_element_size vector)"

definition VectorSize :: "vector_t \<Rightarrow> nat" where
  "VectorSize vector = v_size vector"

definition VectorCapacity :: "vector_t \<Rightarrow> nat" where
  "VectorCapacity vector = v_capacity vector"

definition VectorShrink :: "alloc \<Rightarrow> vector_t \<Rightarrow> vector_t option" where
  "VectorShrink a vector = fst (VectorReserve a vector (v_size vector))"

section \<open>Specification\<close>

definition vector_wf :: "vector_t \<Rightarrow> bool" where
  "vector_wf v \<longleftrightarrow> 0 < v_element_size v \<and> 8 \<le> v_capacity v \<and> v_size v \<le> v_capacity v \<and>
     length (v_buffer v) = v_capacity v * v_element_size v \<and>
     v_capacity v * v_element_size v < 2 ^ 64"

definition vector_elems :: "vector_t \<Rightarrow> byte list list" where
  "vector_elems v = chunks (v_element_size v) (v_buffer v) (v_size v)"

text \<open>The abstract vector: element width, capacity, elements.\<close>

type_synonym vector_abs = "nat \<times> nat \<times> byte list list"

definition vector_abs :: "vector_t \<Rightarrow> vector_abs" where
  "vector_abs v = (v_element_size v, v_capacity v, vector_elems v)"

datatype vector_call =
    V_Push alloc "byte list" | V_Pop alloc | V_Reserve alloc nat | V_Shrink alloc
  | V_Get nat | V_Set nat "byte list" | V_Size | V_Capacity

datatype vector_out = V_Status int | V_Nat nat | V_Bytes "byte list" | V_Done

text \<open>One call of the code; a vector that a failed \<open>realloc\<close> destroyed cannot be used again.\<close>

fun vector_step :: "vector_call \<Rightarrow> vector_t \<Rightarrow> (vector_t \<times> vector_out) result" where
  "vector_step (V_Push a e) v =
     bindE (VectorPushBack a v e) (\<lambda>(v', st). bindE (fetch v') (\<lambda>w. Inr (w, V_Status st)))"
| "vector_step (V_Pop a) v = bindE (VectorPopBack a v) (\<lambda>w. Inr (w, V_Done))"
| "vector_step (V_Reserve a n) v =
     (case VectorReserve a v n of (v', st) \<Rightarrow> bindE (fetch v') (\<lambda>w. Inr (w, V_Status st)))"
| "vector_step (V_Shrink a) v = bindE (fetch (VectorShrink a v)) (\<lambda>w. Inr (w, V_Done))"
| "vector_step (V_Get i) v =
     bindE (read_bytes (v_buffer v) (VectorGetAccessToElement v i) (v_element_size v))
       (\<lambda>bs. Inr (v, V_Bytes bs))"
| "vector_step (V_Set i e) v =
     bindE (write_bytes (v_buffer v) (VectorGetAccessToElement v i) e)
       (\<lambda>buf. Inr (v\<lparr>v_buffer := buf\<rparr>, V_Done))"
| "vector_step V_Size v = Inr (v, V_Nat (VectorSize v))"
| "vector_step V_Capacity v = Inr (v, V_Nat (VectorCapacity v))"

fun vector_spec :: "vector_call \<Rightarrow> vector_abs \<Rightarrow> vector_abs \<times> vector_out" where
  "vector_spec (V_Push a e) (es, cap, xs) =
     ((es, (if length xs = cap then 2 * cap else cap), xs @ [take es e]), V_Status 0)"
| "vector_spec (V_Pop a) (es, cap, xs) =
     ((es, (if cap div 4 = length xs then max 8 (cap div 2) else cap), butlast xs), V_Done)"
| "vector_spec (V_Reserve a n) (es, cap, xs) = ((es, max 8 n, xs), V_Status 0)"
| "vector_spec (V_Shrink a) (es, cap, xs) = ((es, max 8 (length xs), xs), V_Done)"
| "vector_spec (V_Get i) (es, cap, xs) = ((es, cap, xs), V_Bytes (xs ! i))"
| "vector_spec (V_Set i e) (es, cap, xs) = ((es, cap, xs[i := e]), V_Done)"
| "vector_spec V_Size (es, cap, xs) = ((es, cap, xs), V_Nat (length xs))"
| "vector_spec V_Capacity (es, cap, xs) = ((es, cap, xs), V_Nat cap)"

fun vector_pre :: "vector_call \<Rightarrow> vector_abs \<Rightarrow> bool" where
  "vector_pre (V_Push a e) (es, cap, xs) =
     (es \<le> length e \<and> (length xs = cap \<longrightarrow> a \<noteq> None \<and> 2 * cap * es < 2 ^ 64))"
| "vector_pre (V_Pop a) (es, cap, xs) = (xs \<noteq> [] \<and> (cap div 4 = length xs \<longrightarrow> a \<noteq> None))"
| "vector_pre (V_Reserve a n) (es, cap, xs) = (a \<noteq> None \<and> length xs \<le> n \<and> max 8 n * es < 2 ^ 64)"
| "vector_pre (V_Shrink a) (es, cap, xs) = (a \<noteq> None)"
| "vector_pre (V_Get i) (es, cap, xs) = (i < length xs)"
| "vector_pre (V_Set i e) (es, cap, xs) = (i < length xs \<and> length e = es)"
| "vector_pre V_Size (es, cap, xs) = True"
| "vector_pre V_Capacity (es, cap, xs) = True"

section \<open>Correctness\<close>

lemma VectorReserve_ok:
  assumes "vector_wf v" "v_size v \<le> max 8 n" "max 8 n * v_element_size v < 2 ^ 64"
  shows "\<exists>v'. VectorReserve (Some junk) (v\<lparr>v_capacity := c\<rparr>) n = (Some v', 0) \<and> vector_wf v' \<and>
    vector_abs v' = (v_element_size v, max 8 n, vector_elems v) \<and> v_size v' = v_size v"
proof -
  let ?buf = "resize (v_buffer v) junk (max 8 n * v_element_size v)"
  let ?v' = "v\<lparr>v_capacity := max 8 n, v_buffer := ?buf\<rparr>"
  have cap: "(if n < 8 then 8 else n) = max 8 n" by simp
  have le: "v_size v * v_element_size v \<le> max 8 n * v_element_size v"
    "v_size v * v_element_size v \<le> length (v_buffer v)"
    using assms(1,2) by (auto simp: vector_wf_def)
  have "take (v_size v * v_element_size v) ?buf = take (v_size v * v_element_size v) (v_buffer v)"
    using le by (rule take_resize)
  then have same: "chunks (v_element_size v) ?buf (v_size v) = vector_elems v"
    unfolding vector_elems_def by (rule chunks_prefix) simp
  have "VectorReserve (Some junk) (v\<lparr>v_capacity := c\<rparr>) n = (Some ?v', 0)"
    using assms(3) unfolding VectorReserve_def cap Let_def by (simp add: realloc_block_def)
  moreover have "vector_wf ?v'" using assms by (simp add: vector_wf_def)
  moreover have "vector_abs ?v' = (v_element_size v, max 8 n, vector_elems v)"
    using same by (simp add: vector_abs_def vector_elems_def)
  ultimately show ?thesis by simp
qed

lemma VectorPushBack_store_ok:
  assumes "vector_wf v" "v_size v < v_capacity v" "v_element_size v \<le> length e"
  shows "\<exists>v'. VectorPushBack_store v e = Inr (Some v', 0) \<and> vector_wf v' \<and>
    vector_abs v' = (v_element_size v, v_capacity v, vector_elems v @ [take (v_element_size v) e])"
proof -
  let ?es = "v_element_size v" and ?n = "v_size v" and ?buf = "v_buffer v"
  let ?bs = "take ?es e"
  let ?new = "take (?n * ?es) ?buf @ ?bs @ drop (?n * ?es + ?es) ?buf"
  have room: "?n * ?es + ?es \<le> v_capacity v * ?es" using assms(2) by (rule chunk_bound)
  with assms(1) have len: "?n * ?es + ?es \<le> length ?buf" and small: "?n * ?es < 2 ^ 64"
    by (auto simp: vector_wf_def)
  have bs: "length ?bs = ?es" using assms(3) by simp
  have "VectorPushBack_store v e = Inr (Some (v\<lparr>v_buffer := ?new, v_size := Suc ?n\<rparr>), 0)"
    using assms(3) len small
    by (simp add: VectorPushBack_store_def read_bytes_ok write_bytes_ok min_absorb2)
  moreover have "vector_wf (v\<lparr>v_buffer := ?new, v_size := Suc ?n\<rparr>)"
    using assms len by (auto simp: vector_wf_def)
  moreover have "chunks ?es ?new (Suc ?n) = (chunks ?es ?buf (Suc ?n))[?n := ?bs]"
    by (rule chunks_write [OF bs len])
  then have "chunks ?es ?new (Suc ?n) = vector_elems v @ [?bs]"
    by (simp add: chunks_Suc [of ?es ?buf] list_update_append vector_elems_def)
  ultimately show ?thesis by (simp add: vector_abs_def vector_elems_def)
qed

lemma vector_get_ok:
  assumes "vector_wf v" "i < v_size v"
  shows "read_bytes (v_buffer v) (VectorGetAccessToElement v i) (v_element_size v) = Inr (vector_elems v ! i)"
proof -
  have "i * v_element_size v + v_element_size v \<le> v_capacity v * v_element_size v"
    using assms by (intro chunk_bound) (auto simp: vector_wf_def)
  with assms show ?thesis
    by (simp add: VectorGetAccessToElement_def vector_wf_def read_bytes_ok vector_elems_def chunk_def)
qed

lemma vector_set_ok:
  assumes "vector_wf v" "i < v_size v" "length e = v_element_size v"
  shows "\<exists>v'. bindE (write_bytes (v_buffer v) (VectorGetAccessToElement v i) e)
      (\<lambda>buf. Inr (v\<lparr>v_buffer := buf\<rparr>)) = Inr v' \<and> vector_wf v' \<and>
    vector_elems v' = (vector_elems v)[i := e] \<and>
    v_size v' = v_size v \<and> v_capacity v' = v_capacity v \<and> v_element_size v' = v_element_size v"
proof -
  have len: "i * v_element_size v + v_element_size v \<le> v_capacity v * v_element_size v"
    using assms by (intro chunk_bound) (auto simp: vector_wf_def)
  then have "i * v_element_size v + v_element_size v \<le> length (v_buffer v)"
    using assms(1) by (simp add: vector_wf_def)
  from chunks_write [OF assms(3) this] assms len show ?thesis
    by (auto simp: VectorGetAccessToElement_def vector_wf_def write_bytes_ok vector_elems_def)
qed

lemma VectorPopBack_ok:
  assumes "vector_wf v" "0 < v_size v" "v_capacity v div 4 = v_size v \<longrightarrow> a \<noteq> None"
  shows "\<exists>v'. VectorPopBack a v = Inr v' \<and> vector_wf v' \<and>
    vector_abs v' = fst (vector_spec (V_Pop a) (vector_abs v))"
proof -
  have drop_last: "vector_wf w \<Longrightarrow> 0 < v_size w \<Longrightarrow>
    vector_wf (w\<lparr>v_size := v_size w - 1\<rparr>) \<and>
    vector_abs (w\<lparr>v_size := v_size w - 1\<rparr>) = (v_element_size w, v_capacity w, butlast (vector_elems w))"
    for w by (auto simp: vector_wf_def vector_abs_def vector_elems_def butlast_chunks)
  show ?thesis
  proof (cases "v_capacity v div 4 = v_size v")
    case True
    with assms(3) obtain junk where a: "a = Some junk" by auto
    have small: "v_size v \<le> max 8 (v_capacity v div 2)" "max 8 (v_capacity v div 2) \<le> v_capacity v"
      using True assms(1) by (auto simp: vector_wf_def)
    then have "max 8 (v_capacity v div 2) * v_element_size v < 2 ^ 64"
      using assms(1) mult_le_mono1 [OF small(2), of "v_element_size v"]
      unfolding vector_wf_def by linarith
    with VectorReserve_ok [OF assms(1) small(1), of junk "v_capacity v div 2"] obtain w where
      w: "VectorReserve (Some junk) (v\<lparr>v_capacity := v_capacity v div 2\<rparr>) (v_capacity v div 2) = (Some w, 0)"
      "vector_wf w" "vector_abs w = (v_element_size v, max 8 (v_capacity v div 2), vector_elems v)"
      "v_size w = v_size v" by blast
    with True assms(2) a drop_last [of w] show ?thesis
      by (auto simp: VectorPopBack_def vector_abs_def vector_elems_def)
  next
    case False
    with assms drop_last [of v] show ?thesis
      by (auto simp: VectorPopBack_def vector_abs_def vector_elems_def)
  qed
qed

lemma VectorPushBack_ok:
  assumes "vector_wf v" "vector_pre (V_Push a e) (vector_abs v)"
  shows "\<exists>v'. VectorPushBack a v e = Inr (Some v', 0) \<and> vector_wf v' \<and>
    vector_abs v' = fst (vector_spec (V_Push a e) (vector_abs v))"
proof (cases "v_size v = v_capacity v")
  case True
  with assms(2) obtain junk where a: "a = Some junk" and e: "v_element_size v \<le> length e"
    and small: "2 * v_capacity v * v_element_size v < 2 ^ 64"
    by (auto simp: vector_abs_def vector_elems_def)
  have "2 * v_capacity v * 1 \<le> 2 * v_capacity v * v_element_size v"
    using assms(1) by (intro mult_le_mono2) (simp add: vector_wf_def Suc_le_eq)
  with small have "v_capacity v * 2 < 2 ^ 64" by linarith
  then have cap: "szmul (v_capacity v) 2 = v_capacity v * 2" by (rule szmul_small)
  have eight: "8 \<le> v_capacity v" using assms(1) by (simp add: vector_wf_def)
  with VectorReserve_ok [OF assms(1), of "v_capacity v * 2" junk] True small obtain w where
    w: "VectorReserve (Some junk) (v\<lparr>v_capacity := v_capacity v * 2\<rparr>) (v_capacity v * 2) = (Some w, 0)"
    "vector_wf w" "vector_abs w = (v_element_size v, v_capacity v * 2, vector_elems v)" "v_size w = v_size v"
    by (auto simp: mult.commute)
  then have "v_size w < v_capacity w" "v_element_size w \<le> length e"
    using True eight e by (auto simp: vector_abs_def)
  from VectorPushBack_store_ok [OF w(2) this] w(1,3) True a show ?thesis
    by (auto simp: VectorPushBack_def cap vector_abs_def vector_elems_def mult.commute)
next
  case False
  with assms have "v_size v < v_capacity v" "v_element_size v \<le> length e"
    by (auto simp: vector_wf_def vector_abs_def)
  from VectorPushBack_store_ok [OF assms(1) this] False show ?thesis
    by (auto simp: VectorPushBack_def vector_abs_def vector_elems_def)
qed

text \<open>The vector implements the abstract vector, call by call.\<close>

interpretation vector_refines: data_refinement vector_wf vector_abs vector_step vector_spec vector_pre
proof
  fix v c
  assume wf: "vector_wf v" and pre: "vector_pre c (vector_abs v)"
  show "\<exists>v' out. vector_step c v = Inr (v', out) \<and> vector_wf v' \<and>
    vector_spec c (vector_abs v) = (vector_abs v', out)"
  proof (cases c)
    case (V_Push a e)
    with VectorPushBack_ok [OF wf, of a e] pre obtain v' where
      v': "VectorPushBack a v e = Inr (Some v', 0)" "vector_wf v'"
      "vector_abs v' = fst (vector_spec (V_Push a e) (vector_abs v))" by blast
    then show ?thesis unfolding V_Push by (simp add: vector_abs_def)
  next
    case (V_Pop a)
    with pre have "0 < v_size v" "v_capacity v div 4 = v_size v \<longrightarrow> a \<noteq> None"
      by (auto simp: vector_abs_def vector_elems_def)
    from VectorPopBack_ok [OF wf this] obtain v' where
      v': "VectorPopBack a v = Inr v'" "vector_wf v'"
      "vector_abs v' = fst (vector_spec (V_Pop a) (vector_abs v))" by blast
    then show ?thesis unfolding V_Pop by (simp add: vector_abs_def)
  next
    case (V_Reserve a n)
    with pre obtain junk where "a = Some junk" "v_size v \<le> max 8 n" "max 8 n * v_element_size v < 2 ^ 64"
      by (auto simp: vector_abs_def vector_elems_def)
    with V_Reserve VectorReserve_ok [OF wf, of n junk "v_capacity v"] show ?thesis
      by (auto simp: vector_abs_def)
  next
    case (V_Shrink a)
    with pre obtain junk where a: "a = Some junk" by (auto simp: vector_abs_def)
    have "max 8 (v_size v) \<le> v_capacity v" using wf by (simp add: vector_wf_def)
    then have "max 8 (v_size v) * v_element_size v < 2 ^ 64"
      using wf mult_le_mono1 [of "max 8 (v_size v)" "v_capacity v" "v_element_size v"]
      unfolding vector_wf_def by linarith
    with V_Shrink a VectorReserve_ok [OF wf, of "v_size v" junk "v_capacity v"] show ?thesis
      by (auto simp: vector_abs_def VectorShrink_def vector_elems_def)
  next
    case (V_Get i)
    with vector_get_ok [OF wf, of i] wf pre show ?thesis
      by (simp add: vector_abs_def vector_elems_def)
  next
    case (V_Set i e)
    with vector_set_ok [OF wf, of i e] pre show ?thesis
      by (auto simp: vector_abs_def vector_elems_def bindE_Inr_iff)
  next
    case V_Size
    with wf show ?thesis by (simp add: vector_abs_def vector_elems_def VectorSize_def)
  next
    case V_Capacity
    with wf show ?thesis by (simp add: vector_abs_def VectorCapacity_def)
  qed
qed

lemma VectorCreate_ok:
  assumes "0 < es" "max 8 n * es < 2 ^ 64"
  shows "\<exists>v. VectorCreate True (Some junk) n es = Some v \<and> vector_wf v \<and> vector_abs v = (es, max 8 n, [])"
proof -
  have cap: "(if n < 8 then 8 else n) = max 8 n" by simp
  show ?thesis
    using assms unfolding VectorCreate_def cap Let_def
    by (simp add: malloc_block_def vector_wf_def vector_abs_def vector_elems_def chunks_def)
qed

text \<open>
  Reserving less than the size leaves a vector whose next push writes behind its buffer, and
  a shrinking pop whose \<open>realloc\<close> fails updates a vector that is already freed.
\<close>

lemma VectorReserve_below_size:
  assumes wf: "vector_wf v" and "max 8 n < v_size v" "v_element_size v \<le> length e"
  shows "\<exists>v'. VectorReserve (Some junk) v n = (Some v', 0) \<and> v_capacity v' < v_size v' \<and>
    VectorPushBack a v' e = Inl Bad_access"
proof -
  have cap: "(if n < 8 then 8 else n) = max 8 n" by simp
  have le: "max 8 n * v_element_size v \<le> v_size v * v_element_size v" using assms(2) by simp
  have bound: "v_size v * v_element_size v \<le> v_capacity v * v_element_size v" "v_capacity v * v_element_size v < 2 ^ 64"
    using wf by (auto simp: vector_wf_def)
  have pos: "0 < v_element_size v" using wf by (simp add: vector_wf_def)
  let ?v' = "v\<lparr>v_buffer := resize (v_buffer v) junk (max 8 n * v_element_size v), v_capacity := max 8 n\<rparr>"
  have small: "max 8 n * v_element_size v < 2 ^ 64" "v_size v * v_element_size v < 2 ^ 64"
    using le bound by linarith+
  have "VectorReserve (Some junk) v n = (Some ?v', 0)"
    unfolding VectorReserve_def cap Let_def using small(1) by (simp add: realloc_block_def)
  moreover have "v_size v \<noteq> max 8 n" "\<not> v_size v * v_element_size v + v_element_size v \<le> max 8 n * v_element_size v"
    using assms(2) le pos by linarith+
  then have "VectorPushBack a ?v' e = Inl Bad_access"
    using assms(3) small(2)
    by (simp add: VectorPushBack_def VectorPushBack_store_def read_bytes_ok write_bytes_def)
  ultimately show ?thesis using assms(2) by simp
qed

lemma VectorPopBack_realloc_fails:
  "0 < v_size v \<Longrightarrow> v_capacity v div 4 = v_size v \<Longrightarrow> VectorPopBack None v = Inl Bad_access"
  by (simp add: VectorPopBack_def VectorReserve_def realloc_block_def VectorDestroy_def)

end
