(* ===== verification/Memory_Words.thy ===== *)
theory Memory_Words
  imports Prelude
begin

text \<open>
  Eight-byte values in byte buffers: pointers and \<open>size_t\<close> numbers, stored least significant byte
  first, with the round trip and what a store leaves unchanged.
\<close>

unbundle bit_operations_syntax

section \<open>Pointers in memory\<close>

text \<open>A pointer is stored as eight bytes, least significant first.\<close>

fun bytes_of :: "nat \<Rightarrow> ptr \<Rightarrow> byte list" where
  "bytes_of 0 p = []"
| "bytes_of (Suc n) p = ucast p # bytes_of n (drop_bit 8 p)"

fun ptr_of_bytes :: "byte list \<Rightarrow> ptr" where
  "ptr_of_bytes [] = 0"
| "ptr_of_bytes (b # bs) = ucast b + 256 * ptr_of_bytes bs"

lemma length_bytes_of [simp]: "length (bytes_of n p) = n"
  by (induction n arbitrary: p) simp_all

lemma split_low_byte: "take_bit (8 + n) (p :: ptr) = take_bit 8 p + 256 * take_bit n (drop_bit 8 p)"
proof -
  let ?q = "take_bit n (drop_bit 8 p)"
  have "256 * ?q = push_bit 8 ?q" by (simp add: push_bit_eq_mult)
  moreover have "take_bit 8 p + push_bit 8 ?q = take_bit 8 p OR push_bit 8 ?q"
    by (rule disjunctive_add_eq_or) (auto simp: bit_eq_iff bit_simps)
  moreover have "take_bit (8 + n) p = take_bit 8 p OR push_bit 8 ?q"
    by (rule bit_word_eqI) (auto simp: bit_take_bit_iff bit_or_iff bit_push_bit_iff bit_drop_bit_eq)
  ultimately show ?thesis by simp
qed

lemma ptr_of_bytes_take: "ptr_of_bytes (bytes_of n p) = take_bit (8 * n) p"
proof (induction n arbitrary: p)
  case (Suc n)
  have "(ucast (ucast p :: byte) :: ptr) = take_bit 8 p"
    by (rule bit_word_eqI) (auto simp: bit_simps)
  with Suc split_low_byte [of "8 * n" p] show ?case by simp
qed simp

lemma ptr_of_bytes_of: "ptr_of_bytes (bytes_of 8 p) = p"
  using ptr_of_bytes_take [of 8 p] by (simp del: bytes_of.simps add: take_bit_word_eq_self)

section \<open>Numbers in a buffer\<close>

definition load_word :: "byte list \<Rightarrow> nat \<Rightarrow> nat result" where
  "load_word buf off = bindE (read_bytes buf off 8) (\<lambda>bs. Inr (unat (ptr_of_bytes bs)))"

definition store_word :: "byte list \<Rightarrow> nat \<Rightarrow> nat \<Rightarrow> byte list result" where
  "store_word buf off v = write_bytes buf off (bytes_of 8 (of_nat v))"

lemma store_word_ok:
  assumes "off + 8 \<le> length buf" "v < 2 ^ 64"
  shows "\<exists>buf'. store_word buf off v = Inr buf' \<and> length buf' = length buf \<and> load_word buf' off = Inr v \<and>
    (\<forall>p < length buf. p < off \<or> off + 8 \<le> p \<longrightarrow> buf' ! p = buf ! p)"
proof -
  let ?bs = "bytes_of 8 (of_nat v)" and ?b = "take off buf @ bytes_of 8 (of_nat v) @ drop (off + 8) buf"
  have w: "store_word buf off v = Inr ?b" using assms(1) by (simp add: store_word_def write_bytes_ok del: bytes_of.simps)
  have len: "length ?b = length buf" using assms(1) by simp
  have "read_bytes ?b off 8 = Inr ?bs" using assms(1) by (simp add: read_bytes_def del: bytes_of.simps)
  then have "load_word ?b off = Inr v"
    using assms(2) by (simp add: load_word_def ptr_of_bytes_of unat_of_nat take_bit_nat_eq_self del: bytes_of.simps)
  moreover have "?b ! p = buf ! p" if "p < length buf" "p < off \<or> off + 8 \<le> p" for p
    using that assms(1) by (auto simp: nth_append simp del: bytes_of.simps)
  ultimately show ?thesis using w len by blast
qed

lemma load_word_same:
  assumes "length buf' = length buf" "\<And>p. off \<le> p \<Longrightarrow> p < off + 8 \<Longrightarrow> p < length buf \<Longrightarrow> buf' ! p = buf ! p"
  shows "load_word buf' off = load_word buf off"
proof -
  have "take 8 (drop off buf') = take 8 (drop off buf)" if "off + 8 \<le> length buf"
    using that assms by (intro nth_equalityI) auto
  then show ?thesis using assms(1) by (simp add: load_word_def read_bytes_def)
qed

lemma unat_ptr_less: "unat (w :: ptr) < 2 ^ 64"
  using unsigned_less [of w] by simp

lemma load_word_Inr: "load_word buf off = Inr v \<Longrightarrow> off + 8 \<le> length buf \<and> v < 2 ^ 64"
  using unat_ptr_less by (auto simp: load_word_def read_bytes_def bindE_Inr_iff split: if_splits)

section \<open>Alignment\<close>

abbreviation (input) WORD_SIZE :: nat where "WORD_SIZE \<equiv> 8"

text \<open>Clearing the low three bits is rounding down to a multiple of the word size.\<close>

definition ALIGN_UP :: "nat \<Rightarrow> nat" where
  "ALIGN_UP x = szadd x (WORD_SIZE - 1) div WORD_SIZE * WORD_SIZE"

lemma ALIGN_UP_ok:
  assumes "0 < x" "x + 7 < 2 ^ 64"
  shows "x \<le> ALIGN_UP x \<and> ALIGN_UP x < x + 8 \<and> 8 dvd ALIGN_UP x \<and> 8 \<le> ALIGN_UP x"
proof -
  have "szadd x 7 = x + 7" using assms(2) by simp
  then have eq: "ALIGN_UP x = (x + 7) div 8 * 8" by (simp add: ALIGN_UP_def)
  have "(x + 7) mod 8 < 8" by simp
  moreover have "(x + 7) div 8 * 8 + (x + 7) mod 8 = x + 7" by simp
  moreover have "1 \<le> (x + 7) div 8" using assms(1) by (simp add: div_greater_zero_iff Suc_le_eq)
  ultimately show ?thesis unfolding eq using assms(1) by auto
qed

end
