(* ===== verification/Heap_PQ.thy ===== *)
theory Heap_PQ
  imports Vector Memory_Words
begin

text \<open>
  The binary heap of \<open>ds/src/heap.c\<close>, stored as an array of pointers in a vector, and the
  priority queue of \<open>ds/src/pq.c\<close> built on it. The definitions read and write the vector's
  bytes; the lemmas show that they compute the usual sift operations on the list of pointers
  and that every operation keeps the heap order and the expected multiset of elements.
\<close>

unbundle bit_operations_syntax

section \<open>Heap\<close>

text \<open>A vector that a failed \<open>realloc\<close> destroyed is \<open>None\<close>: using it again is a bad access.\<close>

record heap_t =
  hp_compare :: "ptr \<Rightarrow> ptr \<Rightarrow> int"
  hp_vector :: "vector_t option"

text \<open>
  Indices are below the size, and the size times eight fits into a \<open>size_t\<close>, so the child
  indices do not wrap.
\<close>

definition LEFT :: "nat \<Rightarrow> nat" where
  "LEFT i = i * 2 + 1"

definition RIGHT :: "nat \<Rightarrow> nat" where
  "RIGHT i = i * 2 + 2"

definition PARENT :: "nat \<Rightarrow> nat" where
  "PARENT i = (i - 1) div 2"

abbreviation (input) DEF_CAPACITY :: nat where
  "DEF_CAPACITY \<equiv> 128"

definition HeapCreate :: "bool \<Rightarrow> bool \<Rightarrow> alloc \<Rightarrow> (ptr \<Rightarrow> ptr \<Rightarrow> int) \<Rightarrow> heap_t option" where
  "HeapCreate heap_ok struct_ok a func =
     (if \<not> heap_ok then None
      else case VectorCreate struct_ok a DEF_CAPACITY 8 of
             None \<Rightarrow> None
           | Some v \<Rightarrow> Some \<lparr>hp_compare = func, hp_vector = Some v\<rparr>)"

definition HeapDestroy :: "heap_t \<Rightarrow> heap_t option result" where
  "HeapDestroy heap = bindE (fetch (hp_vector heap)) (\<lambda>v. case VectorDestroy v of None \<Rightarrow> Inr None | Some _ \<Rightarrow> Inl Bad_free)"

definition HeapSize :: "heap_t \<Rightarrow> nat result" where
  "HeapSize heap = bindE (fetch (hp_vector heap)) (\<lambda>v. Inr (VectorSize v))"

definition HeapIsEmpty :: "heap_t \<Rightarrow> bool result" where
  "HeapIsEmpty heap = bindE (fetch (hp_vector heap)) (\<lambda>v. Inr (0 = VectorSize v))"

definition GetElem :: "heap_t \<Rightarrow> nat \<Rightarrow> ptr result" where
  "GetElem heap idx =
     bindE (fetch (hp_vector heap)) (\<lambda>v.
     bindE (read_bytes (v_buffer v) (VectorGetAccessToElement v idx) 8) (\<lambda>bs. Inr (ptr_of_bytes bs)))"

definition SetElem :: "heap_t \<Rightarrow> nat \<Rightarrow> ptr \<Rightarrow> heap_t result" where
  "SetElem heap idx data =
     bindE (fetch (hp_vector heap)) (\<lambda>v.
     bindE (write_bytes (v_buffer v) (VectorGetAccessToElement v idx) (bytes_of 8 data)) (\<lambda>buf.
     Inr (heap\<lparr>hp_vector := Some (v\<lparr>v_buffer := buf\<rparr>)\<rparr>)))"

definition SwapElem :: "heap_t \<Rightarrow> nat \<Rightarrow> nat \<Rightarrow> heap_t result" where
  "SwapElem heap i j =
     bindE (GetElem heap i) (\<lambda>temp.
     bindE (GetElem heap j) (\<lambda>ej.
     bindE (SetElem heap i ej) (\<lambda>heap1. SetElem heap1 j temp)))"

fun HeapifyUp :: "heap_t \<Rightarrow> nat \<Rightarrow> heap_t result" where
  "HeapifyUp heap idx =
     (if idx > 0
      then let parent_idx = (idx - 1) div 2
           in bindE (GetElem heap idx) (\<lambda>curr_val.
              bindE (GetElem heap parent_idx) (\<lambda>parent_val.
              if hp_compare heap curr_val parent_val > 0
              then bindE (SwapElem heap idx parent_idx) (\<lambda>heap'. HeapifyUp heap' parent_idx)
              else Inr heap))
      else Inr heap)"

declare HeapifyUp.simps [simp del]

definition LargerChild :: "heap_t \<Rightarrow> nat \<Rightarrow> nat \<Rightarrow> nat result" where
  "LargerChild heap parent_idx sz =
     (let left_child_idx = LEFT parent_idx; right_child_idx = RIGHT parent_idx
      in if left_child_idx \<ge> sz then Inr parent_idx
         else if right_child_idx \<ge> sz then Inr left_child_idx
         else bindE (GetElem heap right_child_idx) (\<lambda>r.
              bindE (GetElem heap left_child_idx) (\<lambda>l.
              if hp_compare heap r l > 0 then Inr right_child_idx else Inr left_child_idx)))"

lemma LargerChild_bounds:
  "LEFT i < n \<Longrightarrow> LargerChild h i n = Inr c \<Longrightarrow> i < c \<and> c < n"
  by (auto simp: LargerChild_def LEFT_def RIGHT_def bindE_Inr_iff Let_def split: if_splits)

function HeapifyDown_loop :: "heap_t \<Rightarrow> nat \<Rightarrow> nat \<Rightarrow> heap_t result" where
  "HeapifyDown_loop heap sz idx =
     (if LEFT idx < sz
      then bindE (LargerChild heap idx sz) (\<lambda>larger_child.
           bindE (GetElem heap larger_child) (\<lambda>c.
           bindE (GetElem heap idx) (\<lambda>p.
           if hp_compare heap c p > 0
           then bindE (SwapElem heap idx larger_child) (\<lambda>heap'. HeapifyDown_loop heap' sz larger_child)
           else Inr heap)))
      else Inr heap)"
  by pat_completeness auto
termination
  by (relation "measure (\<lambda>(heap, sz, idx). sz - idx)") (auto dest: LargerChild_bounds)

declare HeapifyDown_loop.simps [simp del]

definition HeapifyDown :: "heap_t \<Rightarrow> nat \<Rightarrow> heap_t result" where
  "HeapifyDown heap idx = bindE (HeapSize heap) (\<lambda>sz. HeapifyDown_loop heap sz idx)"

definition HeapPeek :: "heap_t \<Rightarrow> ptr result" where
  "HeapPeek heap =
     bindE (HeapIsEmpty heap) (\<lambda>empty. bindE (assertE (\<not> empty)) (\<lambda>_. GetElem heap 0))"

definition HeapPush :: "alloc \<Rightarrow> heap_t \<Rightarrow> ptr \<Rightarrow> (heap_t \<times> int) result" where
  "HeapPush a heap data =
     bindE (fetch (hp_vector heap)) (\<lambda>v.
     bindE (VectorPushBack a v (bytes_of 8 data)) (\<lambda>(v', status).
     let heap1 = heap\<lparr>hp_vector := v'\<rparr>
     in if status \<noteq> 0 then Inr (heap1, status)
        else bindE (fetch v') (\<lambda>w.
             bindE (HeapifyUp heap1 (VectorSize w - 1)) (\<lambda>heap2. Inr (heap2, status)))))"

text \<open>\<open>VectorPopBack(heap->vector)\<close>.\<close>

definition heap_pop_back :: "alloc \<Rightarrow> heap_t \<Rightarrow> heap_t result" where
  "heap_pop_back a heap =
     bindE (fetch (hp_vector heap)) (\<lambda>v.
     bindE (VectorPopBack a v) (\<lambda>v'. Inr (heap\<lparr>hp_vector := Some v'\<rparr>)))"

definition HeapPop :: "alloc \<Rightarrow> heap_t \<Rightarrow> heap_t result" where
  "HeapPop a heap =
     bindE (HeapIsEmpty heap) (\<lambda>empty.
     bindE (assertE (\<not> empty)) (\<lambda>_.
     bindE (HeapSize heap) (\<lambda>n.
     bindE (SwapElem heap 0 (n - 1)) (\<lambda>heap1.
     bindE (heap_pop_back a heap1) (\<lambda>heap2.
     bindE (HeapIsEmpty heap2) (\<lambda>empty2.
     if \<not> empty2 then HeapifyDown heap2 0 else Inr heap2))))))"

text \<open>The body of the \<open>if\<close> of \<open>HeapRemove\<close>: the element \<open>i\<close> is taken out.\<close>

definition HeapRemove_at :: "alloc \<Rightarrow> heap_t \<Rightarrow> nat \<Rightarrow> (heap_t \<times> ptr) result" where
  "HeapRemove_at a heap i =
     bindE (HeapSize heap) (\<lambda>n.
     let last = n - 1
     in bindE (GetElem heap i) (\<lambda>removed.
        if i = last
        then bindE (heap_pop_back a heap) (\<lambda>heap1. Inr (heap1, removed))
        else bindE (SwapElem heap i last) (\<lambda>heap1.
             bindE (heap_pop_back a heap1) (\<lambda>heap2.
             bindE (if i > 0
                    then bindE (GetElem heap2 i) (\<lambda>e. bindE (GetElem heap2 (PARENT i)) (\<lambda>p.
                         Inr (hp_compare heap2 e p > 0)))
                    else Inr False) (\<lambda>up.
             bindE (if up then HeapifyUp heap2 i else HeapifyDown heap2 i) (\<lambda>heap3.
             Inr (heap3, removed)))))))"

fun HeapRemove_loop :: "alloc \<Rightarrow> heap_t \<Rightarrow> ptr \<Rightarrow> (ptr \<Rightarrow> ptr \<Rightarrow> int) \<Rightarrow> nat list \<Rightarrow> (heap_t \<times> ptr) result" where
  "HeapRemove_loop a heap data is_match [] = Inr (heap, NULL)"
| "HeapRemove_loop a heap data is_match (i # is) =
     bindE (GetElem heap i) (\<lambda>e.
     if is_match e data = 0 then HeapRemove_at a heap i
     else HeapRemove_loop a heap data is_match is)"

definition HeapRemove :: "alloc \<Rightarrow> heap_t \<Rightarrow> ptr \<Rightarrow> (ptr \<Rightarrow> ptr \<Rightarrow> int) \<Rightarrow> (heap_t \<times> ptr) result" where
  "HeapRemove a heap data is_match =
     bindE (HeapIsEmpty heap) (\<lambda>empty.
     if empty then Inr (heap, NULL)
     else bindE (HeapSize heap) (\<lambda>n. HeapRemove_loop a heap data is_match [0..<n]))"

section \<open>Priority queue\<close>

record pq_t =
  pq_heap :: heap_t

definition PQCreate :: "bool \<Rightarrow> bool \<Rightarrow> bool \<Rightarrow> alloc \<Rightarrow> (ptr \<Rightarrow> ptr \<Rightarrow> int) \<Rightarrow> pq_t option" where
  "PQCreate pq_ok heap_ok struct_ok a cmp =
     (if \<not> pq_ok then None
      else case HeapCreate heap_ok struct_ok a cmp of None \<Rightarrow> None | Some h \<Rightarrow> Some \<lparr>pq_heap = h\<rparr>)"

definition PQDestroy :: "pq_t \<Rightarrow> pq_t option result" where
  "PQDestroy pq = bindE (HeapDestroy (pq_heap pq)) (\<lambda>_. Inr None)"

definition PQEnqueue :: "alloc \<Rightarrow> pq_t \<Rightarrow> ptr \<Rightarrow> (pq_t \<times> int) result" where
  "PQEnqueue a pq data = bindE (HeapPush a (pq_heap pq) data) (\<lambda>(h, st). Inr (pq\<lparr>pq_heap := h\<rparr>, st))"

definition PQIsEmpty :: "pq_t \<Rightarrow> bool result" where
  "PQIsEmpty pq = HeapIsEmpty (pq_heap pq)"

definition PQDequeue :: "alloc \<Rightarrow> pq_t \<Rightarrow> (pq_t \<times> ptr) result" where
  "PQDequeue a pq =
     bindE (PQIsEmpty pq) (\<lambda>empty.
     bindE (assertE (\<not> empty)) (\<lambda>_.
     bindE (HeapPeek (pq_heap pq)) (\<lambda>data.
     bindE (HeapPop a (pq_heap pq)) (\<lambda>h. Inr (pq\<lparr>pq_heap := h\<rparr>, data)))))"

definition PQPeek :: "pq_t \<Rightarrow> ptr result" where
  "PQPeek pq = HeapPeek (pq_heap pq)"

definition PQSize :: "pq_t \<Rightarrow> nat result" where
  "PQSize pq = HeapSize (pq_heap pq)"

text \<open>The loop carries a budget; \<open>a n\<close> is what \<open>realloc\<close> answers in the round with budget \<open>n\<close>.\<close>

fun PQClear :: "nat \<Rightarrow> (nat \<Rightarrow> alloc) \<Rightarrow> pq_t \<Rightarrow> pq_t result" where
  "PQClear 0 a pq = Inl Out_of_fuel"
| "PQClear (Suc fuel) a pq =
     bindE (PQIsEmpty pq) (\<lambda>empty.
     if \<not> empty then bindE (PQDequeue (a fuel) pq) (\<lambda>(pq', _). PQClear fuel a pq') else Inr pq)"

definition PQErase :: "alloc \<Rightarrow> pq_t \<Rightarrow> (ptr \<Rightarrow> ptr \<Rightarrow> int) \<Rightarrow> ptr \<Rightarrow> (pq_t \<times> ptr) result" where
  "PQErase a pq is_match_func param =
     bindE (HeapRemove a (pq_heap pq) param is_match_func) (\<lambda>(h, r). Inr (pq\<lparr>pq_heap := h\<rparr>, r))"


section \<open>Heaps as lists\<close>

text \<open>The same operations on the list of the stored pointers.\<close>

definition exchange :: "'a list \<Rightarrow> nat \<Rightarrow> nat \<Rightarrow> 'a list" where
  "exchange xs i j = xs[i := xs ! j, j := xs ! i]"

definition heap_prop :: "('a \<Rightarrow> 'a \<Rightarrow> int) \<Rightarrow> 'a list \<Rightarrow> bool" where
  "heap_prop cmp xs \<longleftrightarrow> (\<forall>k < length xs. 0 < k \<longrightarrow> cmp (xs ! k) (xs ! PARENT k) \<le> 0)"

fun sift_up :: "('a \<Rightarrow> 'a \<Rightarrow> int) \<Rightarrow> 'a list \<Rightarrow> nat \<Rightarrow> 'a list" where
  "sift_up cmp xs i =
     (if i > 0 \<and> cmp (xs ! i) (xs ! ((i - 1) div 2)) > 0
      then sift_up cmp (exchange xs i ((i - 1) div 2)) ((i - 1) div 2) else xs)"

definition larger_child :: "('a \<Rightarrow> 'a \<Rightarrow> int) \<Rightarrow> 'a list \<Rightarrow> nat \<Rightarrow> nat" where
  "larger_child cmp xs i =
     (if RIGHT i < length xs \<and> cmp (xs ! RIGHT i) (xs ! LEFT i) > 0 then RIGHT i else LEFT i)"

function sift_down :: "('a \<Rightarrow> 'a \<Rightarrow> int) \<Rightarrow> 'a list \<Rightarrow> nat \<Rightarrow> 'a list" where
  "sift_down cmp xs i =
     (if LEFT i < length xs \<and> cmp (xs ! larger_child cmp xs i) (xs ! i) > 0
      then sift_down cmp (exchange xs i (larger_child cmp xs i)) (larger_child cmp xs i) else xs)"
  by pat_completeness auto
termination
  by (relation "measure (\<lambda>(cmp, xs, i). length xs - i)")
    (auto simp: larger_child_def exchange_def LEFT_def RIGHT_def)

declare sift_up.simps [simp del] sift_down.simps [simp del]

lemma exchange_length [simp]: "length (exchange xs i j) = length xs"
  by (simp add: exchange_def)

lemma exchange_nth:
  assumes "i < length xs" "j < length xs"
  shows "exchange xs i j ! k = (if k = i then xs ! j else if k = j then xs ! i else xs ! k)"
  unfolding exchange_def using assms by (simp add: nth_list_update)

lemma mset_swap_eq: "i < length xs \<Longrightarrow> j < length xs \<Longrightarrow> mset (exchange xs i j) = mset xs"
  by (simp add: exchange_def mset_swap)

lemma mset_sift_up: "i < length xs \<Longrightarrow> mset (sift_up cmp xs i) = mset xs \<and> length (sift_up cmp xs i) = length xs"
proof (induction cmp xs i rule: sift_up.induct)
  case (1 cmp xs i)
  show ?case
  proof (cases "i > 0 \<and> cmp (xs ! i) (xs ! ((i - 1) div 2)) > 0")
    case True
    then have p: "(i - 1) div 2 < length (exchange xs i ((i - 1) div 2))" using "1.prems" by auto
    with 1 True show ?thesis by (simp add: sift_up.simps [of cmp xs i] mset_swap_eq)
  qed (auto simp: sift_up.simps [of cmp xs i])
qed

lemma larger_child_bounds: "LEFT i < length xs \<Longrightarrow> larger_child cmp xs i < length xs \<and> PARENT (larger_child cmp xs i) = i \<and> i < larger_child cmp xs i"
  by (auto simp: larger_child_def LEFT_def RIGHT_def PARENT_def)

lemma mset_sift_down: "mset (sift_down cmp xs i) = mset xs \<and> length (sift_down cmp xs i) = length xs"
proof (induction cmp xs i rule: sift_down.induct)
  case (1 cmp xs i)
  show ?case
  proof (cases "LEFT i < length xs \<and> cmp (xs ! larger_child cmp xs i) (xs ! i) > 0")
    case True
    with larger_child_bounds [of i xs cmp] have "larger_child cmp xs i < length xs" "i < length xs" by auto
    with 1 True show ?thesis by (simp add: sift_down.simps [of cmp xs i] mset_swap_eq)
  qed (auto simp: sift_down.simps [of cmp xs i])
qed

lemma PARENT_less: "0 < k \<Longrightarrow> PARENT k < k"
  by (auto simp: PARENT_def)

lemma PARENT_child: "PARENT k = i \<Longrightarrow> 0 < k \<Longrightarrow> k = LEFT i \<or> k = RIGHT i"
  by (auto simp: PARENT_def LEFT_def RIGHT_def)

text \<open>The order is only broken between \<open>i\<close> and its parent, or between \<open>i\<close> and its children.\<close>

definition up_inv :: "('a \<Rightarrow> 'a \<Rightarrow> int) \<Rightarrow> 'a list \<Rightarrow> nat \<Rightarrow> bool" where
  "up_inv cmp xs i \<longleftrightarrow> i < length xs \<and>
     (\<forall>k < length xs. 0 < k \<longrightarrow> k \<noteq> i \<longrightarrow> cmp (xs ! k) (xs ! PARENT k) \<le> 0) \<and>
     (\<forall>k < length xs. 0 < k \<longrightarrow> 0 < i \<longrightarrow> PARENT k = i \<longrightarrow> cmp (xs ! k) (xs ! PARENT i) \<le> 0)"

definition down_inv :: "('a \<Rightarrow> 'a \<Rightarrow> int) \<Rightarrow> 'a list \<Rightarrow> nat \<Rightarrow> bool" where
  "down_inv cmp xs i \<longleftrightarrow> i < length xs \<and>
     (\<forall>k < length xs. 0 < k \<longrightarrow> PARENT k \<noteq> i \<longrightarrow> cmp (xs ! k) (xs ! PARENT k) \<le> 0) \<and>
     (\<forall>k < length xs. 0 < k \<longrightarrow> 0 < i \<longrightarrow> PARENT k = i \<longrightarrow> cmp (xs ! k) (xs ! PARENT i) \<le> 0)"

context cmp_order
begin

lemma sift_up_step:
  assumes inv: "up_inv cmp xs i" and i: "0 < i" and gt: "cmp (xs ! i) (xs ! PARENT i) > 0"
  shows "up_inv cmp (exchange xs i (PARENT i)) (PARENT i)"
proof -
  let ?p = "PARENT i" and ?ys = "exchange xs i (PARENT i)"
  have len: "i < length xs" "?p < length xs" "?p < i"
    using inv i PARENT_less [OF i] by (auto simp: up_inv_def)
  note nth = exchange_nth [OF len(1,2)]
  have le: "cmp (xs ! k) (xs ! PARENT k) \<le> 0" if "k < length xs" "0 < k" "k \<noteq> i" for k
    using inv that by (simp add: up_inv_def)
  have grand: "cmp (xs ! k) (xs ! ?p) \<le> 0" if "k < length xs" "0 < k" "PARENT k = i" for k
    using inv that i by (simp add: up_inv_def)
  have pi: "cmp (xs ! ?p) (xs ! i) \<le> 0" using gt by (rule cmp_gt_le)
  have "cmp (?ys ! k) (?ys ! PARENT k) \<le> 0" if k: "k < length xs" "0 < k" "k \<noteq> ?p" for k
  proof (cases "k = i")
    case True
    with pi len show ?thesis by (simp add: nth)
  next
    case False
    then show ?thesis
      using grand [OF k(1,2)] le [OF k(1,2) False] pi k cmp_trans [of "xs ! k" "xs ! ?p" "xs ! i"] by (auto simp: nth)
  qed
  moreover have "cmp (?ys ! k) (?ys ! PARENT ?p) \<le> 0" if k: "k < length xs" "0 < k" "0 < ?p" "PARENT k = ?p" for k
  proof -
    have far: "PARENT ?p < ?p" using k(3) by (rule PARENT_less)
    have top: "cmp (xs ! ?p) (xs ! PARENT ?p) \<le> 0" using le [of ?p] len k(3) by simp
    have kp: "k \<noteq> ?p" using PARENT_less [OF k(2)] k(4) by auto
    then show ?thesis
      using top le [OF k(1,2)] k(4) far len cmp_trans [of "xs ! k" "xs ! ?p" "xs ! PARENT ?p"]
      by (cases "k = i") (auto simp: nth)
  qed
  ultimately show ?thesis using len by (simp add: up_inv_def)
qed

lemma sift_up_heap: "up_inv cmp xs i \<Longrightarrow> heap_prop cmp (sift_up cmp xs i)"
proof (induction i arbitrary: xs rule: less_induct)
  case (less i)
  show ?case
  proof (cases "i > 0 \<and> cmp (xs ! i) (xs ! PARENT i) > 0")
    case True
    with sift_up_step [OF less.prems] have "up_inv cmp (exchange xs i (PARENT i)) (PARENT i)" by blast
    with less.IH [OF PARENT_less] True show ?thesis by (simp add: sift_up.simps [of cmp xs i] PARENT_def)
  next
    case False
    then have "sift_up cmp xs i = xs" by (auto simp: sift_up.simps [of cmp xs i] PARENT_def)
    with False less.prems show ?thesis by (auto simp: heap_prop_def up_inv_def not_less)
  qed
qed

lemma larger_child_max:
  assumes "k < length xs" "0 < k" "PARENT k = i"
  shows "cmp (xs ! k) (xs ! larger_child cmp xs i) \<le> 0"
  using PARENT_child [OF assms(3,2)] assms(1) cmp_refl cmp_gt_le
  by (auto simp: larger_child_def LEFT_def RIGHT_def not_less)

lemma sift_down_step:
  assumes inv: "down_inv cmp xs i" and L: "LEFT i < length xs"
    and gt: "cmp (xs ! larger_child cmp xs i) (xs ! i) > 0"
  shows "down_inv cmp (exchange xs i (larger_child cmp xs i)) (larger_child cmp xs i)"
proof -
  let ?c = "larger_child cmp xs i"
  let ?ys = "exchange xs i ?c"
  have len: "i < length xs" "?c < length xs" "PARENT ?c = i" "i < ?c"
    using larger_child_bounds [OF L, of cmp] by auto
  note nth = exchange_nth [OF len(1,2)]
  have le: "cmp (xs ! k) (xs ! PARENT k) \<le> 0" if "k < length xs" "0 < k" "PARENT k \<noteq> i" for k
    using inv that by (simp add: down_inv_def)
  have ic: "cmp (xs ! i) (xs ! ?c) \<le> 0" using gt by (rule cmp_gt_le)
  have "cmp (?ys ! k) (?ys ! PARENT k) \<le> 0" if k: "k < length xs" "0 < k" "PARENT k \<noteq> ?c" for k
  proof (cases "PARENT k = i")
    case True
    then have "k \<noteq> i" using PARENT_less [OF k(2)] by auto
    with True show ?thesis using ic larger_child_max [OF k(1,2) True] by (auto simp: nth)
  next
    case False
    then have "k \<noteq> ?c" using len by auto
    moreover have "k = i \<Longrightarrow> cmp (xs ! ?c) (xs ! PARENT i) \<le> 0"
      using inv len k by (simp add: down_inv_def)
    ultimately show ?thesis using False le [OF k(1,2) False] k(3) by (auto simp: nth)
  qed
  moreover have "cmp (?ys ! k) (?ys ! PARENT ?c) \<le> 0" if k: "k < length xs" "0 < k" "PARENT k = ?c" for k
  proof -
    have "k \<noteq> i" "k \<noteq> ?c" using PARENT_less [OF k(2)] k(3) len by auto
    then show ?thesis using le [OF k(1,2)] k(3) len by (auto simp: nth)
  qed
  ultimately show ?thesis using len by (simp add: down_inv_def)
qed

lemma sift_down_heap: "down_inv cmp xs i \<Longrightarrow> heap_prop cmp (sift_down cmp xs i)"
proof (induction "length xs - i" arbitrary: xs i rule: less_induct)
  case (less xs i)
  show ?case
  proof (cases "LEFT i < length xs \<and> cmp (xs ! larger_child cmp xs i) (xs ! i) > 0")
    case True
    with larger_child_bounds [of i xs cmp]
    have "length (exchange xs i (larger_child cmp xs i)) - larger_child cmp xs i < length xs - i" by auto
    from less.hyps [OF this sift_down_step [OF less.prems]] True show ?thesis
      by (simp add: sift_down.simps [of cmp xs i])
  next
    case False
    then have eq: "sift_down cmp xs i = xs" by (auto simp: sift_down.simps [of cmp xs i])
    have "cmp (xs ! k) (xs ! PARENT k) \<le> 0" if k: "k < length xs" "0 < k" for k
    proof (cases "PARENT k = i")
      case True
      then have "LEFT i < length xs" using PARENT_child [OF True k(2)] k(1) by (auto simp: LEFT_def RIGHT_def)
      with False have "cmp (xs ! larger_child cmp xs i) (xs ! i) \<le> 0" by simp
      with True show ?thesis using larger_child_max [OF k True] cmp_trans by blast
    qed (use less.prems k in \<open>simp add: down_inv_def\<close>)
    with eq show ?thesis by (simp add: heap_prop_def)
  qed
qed

lemma heap_replace:
  assumes heap: "heap_prop cmp zs" and i: "i < length zs"
  shows "0 < i \<and> cmp x (zs ! PARENT i) > 0 \<Longrightarrow> up_inv cmp (zs[i := x]) i"
    and "\<not> (0 < i \<and> cmp x (zs ! PARENT i) > 0) \<Longrightarrow> down_inv cmp (zs[i := x]) i"
proof -
  have le: "cmp (zs ! k) (zs ! PARENT k) \<le> 0" if "k < length zs" "0 < k" for k
    using heap that by (simp add: heap_prop_def)
  have grand: "cmp (zs ! k) (zs ! PARENT i) \<le> 0" if "k < length zs" "0 < k" "0 < i" "PARENT k = i" for k
    using le [OF that(1,2)] le [OF i that(3)] that(4) cmp_trans by blast
  have pk: "PARENT k \<noteq> k" if "0 < k" for k using PARENT_less [OF that] by simp
  have nth: "zs[i := x] ! k = (if k = i then x else zs ! k)" for k using i by simp
  show "up_inv cmp (zs[i := x]) i" if "0 < i \<and> cmp x (zs ! PARENT i) > 0"
  proof -
    have px: "cmp (zs ! PARENT i) x \<le> 0" using that cmp_gt_le by blast
    have "cmp (zs[i := x] ! k) (zs[i := x] ! PARENT k) \<le> 0" if k: "k < length zs" "0 < k" "k \<noteq> i" for k
      using le [OF k(1,2)] grand [OF k(1,2)] cmp_trans [OF _ px, of "zs ! k"] that \<open>0 < i \<and> _\<close> k
      by (auto simp: nth)
    moreover have "cmp (zs[i := x] ! k) (zs[i := x] ! PARENT i) \<le> 0" if k: "k < length zs" "0 < k" "PARENT k = i" for k
      using grand [OF k(1,2) _ k(3)] \<open>0 < i \<and> _\<close> k pk [of i] pk [of k] by (auto simp: nth)
    ultimately show ?thesis using i by (simp add: up_inv_def)
  qed
  show "down_inv cmp (zs[i := x]) i" if "\<not> (0 < i \<and> cmp x (zs ! PARENT i) > 0)"
  proof -
    have "cmp (zs[i := x] ! k) (zs[i := x] ! PARENT k) \<le> 0" if k: "k < length zs" "0 < k" "PARENT k \<noteq> i" for k
      using le [OF k(1,2)] \<open>\<not> (0 < i \<and> _)\<close> k by (auto simp: nth not_less)
    moreover have "cmp (zs[i := x] ! k) (zs[i := x] ! PARENT i) \<le> 0" if k: "k < length zs" "0 < k" "0 < i" "PARENT k = i" for k
      using grand [OF k(1,2,3,4)] k pk [of i] pk [of k] by (auto simp: nth)
    ultimately show ?thesis using i by (simp add: down_inv_def)
  qed
qed

lemma heap_append:
  assumes heap: "heap_prop cmp xs"
  shows "up_inv cmp (xs @ [x]) (length xs)"
proof -
  have p: "PARENT k < length xs" if "0 < k" "k \<le> length xs" for k
    using PARENT_less [OF that(1)] that(2) by simp
  have "cmp ((xs @ [x]) ! k) ((xs @ [x]) ! PARENT k) \<le> 0" if "k < length xs" "0 < k" for k
    using heap that p [of k] by (simp add: heap_prop_def nth_append)
  moreover have "PARENT k \<noteq> length xs" if "0 < k" "k < Suc (length xs)" for k using p [of k] that by simp
  ultimately show ?thesis by (auto simp: up_inv_def less_Suc_eq)
qed

lemma heap_take: "heap_prop cmp xs \<Longrightarrow> heap_prop cmp (butlast xs)"
  by (auto simp: heap_prop_def nth_butlast PARENT_def)

lemma heap_max: "heap_prop cmp xs \<Longrightarrow> k < length xs \<Longrightarrow> cmp (xs ! k) (xs ! 0) \<le> 0"
proof (induction k rule: less_induct)
  case (less k)
  show ?case
  proof (cases "k = 0")
    case False
    then have "PARENT k < k" "cmp (xs ! k) (xs ! PARENT k) \<le> 0"
      using PARENT_less less.prems by (auto simp: heap_prop_def)
    with less show ?thesis using cmp_trans by (meson order_less_trans)
  qed (simp add: cmp_refl)
qed

end


section \<open>The code computes the list operations\<close>

definition heap_elems :: "heap_t \<Rightarrow> ptr list" where
  "heap_elems h = (case hp_vector h of None \<Rightarrow> [] | Some v \<Rightarrow> map ptr_of_bytes (vector_elems v))"

definition heap_wf :: "heap_t \<Rightarrow> bool" where
  "heap_wf h \<longleftrightarrow> (\<exists>v. hp_vector h = Some v \<and> vector_wf v \<and> v_element_size v = 8)"

lemma heap_wf_parts:
  assumes "heap_wf h"
  obtains v where "hp_vector h = Some v" "vector_wf v" "v_element_size v = 8"
    "heap_elems h = map ptr_of_bytes (vector_elems v)" "length (heap_elems h) = v_size v"
  using assms by (auto simp: heap_wf_def heap_elems_def vector_elems_def)

lemma HeapSize_eq: "heap_wf h \<Longrightarrow> HeapSize h = Inr (length (heap_elems h))"
  by (erule heap_wf_parts) (simp add: HeapSize_def VectorSize_def)

lemma HeapIsEmpty_eq: "heap_wf h \<Longrightarrow> HeapIsEmpty h = Inr (heap_elems h = [])"
  by (erule heap_wf_parts) (auto simp: HeapIsEmpty_def VectorSize_def)

lemma GetElem_eq:
  assumes "heap_wf h" "i < length (heap_elems h)"
  shows "GetElem h i = Inr (heap_elems h ! i)"
proof -
  from assms(1) obtain v where v: "hp_vector h = Some v" "vector_wf v" "v_element_size v = 8"
    "heap_elems h = map ptr_of_bytes (vector_elems v)" "length (heap_elems h) = v_size v" by (rule heap_wf_parts)
  with vector_get_ok [OF v(2), of i] assms(2) show ?thesis by (simp add: GetElem_def vector_elems_def)
qed

lemma SetElem_eq:
  assumes "heap_wf h" "i < length (heap_elems h)"
  shows "\<exists>h'. SetElem h i p = Inr h' \<and> heap_wf h' \<and> heap_elems h' = (heap_elems h)[i := p] \<and>
    hp_compare h' = hp_compare h"
proof -
  from assms(1) obtain v where v: "hp_vector h = Some v" "vector_wf v" "v_element_size v = 8"
    "heap_elems h = map ptr_of_bytes (vector_elems v)" "length (heap_elems h) = v_size v" by (rule heap_wf_parts)
  from vector_set_ok [OF v(2), of i "bytes_of 8 p"] assms(2) v(3,5) obtain w where
    w: "bindE (write_bytes (v_buffer v) (VectorGetAccessToElement v i) (bytes_of 8 p))
      (\<lambda>buf. Inr (v\<lparr>v_buffer := buf\<rparr>)) = Inr w" "vector_wf w" "vector_elems w = (vector_elems v)[i := bytes_of 8 p]"
    "v_element_size w = 8" by auto
  have "SetElem h i p = bindE (bindE (write_bytes (v_buffer v) (VectorGetAccessToElement v i) (bytes_of 8 p))
      (\<lambda>buf. Inr (v\<lparr>v_buffer := buf\<rparr>))) (\<lambda>w. Inr (h\<lparr>hp_vector := Some w\<rparr>))"
    using v(1) by (simp add: SetElem_def bindE_assoc)
  with w v(4) show ?thesis by (simp add: heap_wf_def heap_elems_def map_update ptr_of_bytes_of)
qed

lemma SwapElem_eq:
  assumes "heap_wf h" "i < length (heap_elems h)" "j < length (heap_elems h)"
  shows "\<exists>h'. SwapElem h i j = Inr h' \<and> heap_wf h' \<and> heap_elems h' = exchange (heap_elems h) i j \<and>
    hp_compare h' = hp_compare h"
proof -
  from SetElem_eq [OF assms(1,2)] obtain h1 where h1: "SetElem h i (heap_elems h ! j) = Inr h1" "heap_wf h1"
    "heap_elems h1 = (heap_elems h)[i := heap_elems h ! j]" "hp_compare h1 = hp_compare h" by blast
  from SetElem_eq [OF h1(2), of j "heap_elems h ! i"] assms(3) h1(3,4) obtain h2 where
    "SetElem h1 j (heap_elems h ! i) = Inr h2" "heap_wf h2"
    "heap_elems h2 = exchange (heap_elems h) i j" "hp_compare h2 = hp_compare h" by (auto simp: exchange_def)
  with h1(1) show ?thesis using assms by (simp add: SwapElem_def GetElem_eq)
qed

lemma HeapifyUp_eq:
  assumes "heap_wf h" "i < length (heap_elems h)"
  shows "\<exists>h'. HeapifyUp h i = Inr h' \<and> heap_wf h' \<and> heap_elems h' = sift_up (hp_compare h) (heap_elems h) i \<and>
    hp_compare h' = hp_compare h"
  using assms
proof (induction i arbitrary: h rule: less_induct)
  case (less i)
  let ?p = "(i - 1) div 2" and ?xs = "heap_elems h"
  show ?case
  proof (cases "0 < i \<and> hp_compare h (?xs ! i) (?xs ! ?p) > 0")
    case True
    then have p: "?p < i" "?p < length ?xs" using less.prems by auto
    from SwapElem_eq [OF less.prems p(2)] obtain h1 where
      h1: "SwapElem h i ?p = Inr h1" "heap_wf h1" "heap_elems h1 = exchange ?xs i ?p" "hp_compare h1 = hp_compare h" by blast
    from less.IH [OF p(1) h1(2)] h1(3,4) p obtain h2 where
      "HeapifyUp h1 ?p = Inr h2" "heap_wf h2" "heap_elems h2 = sift_up (hp_compare h) (exchange ?xs i ?p) ?p"
      "hp_compare h2 = hp_compare h" by auto
    with True h1(1) less.prems p show ?thesis
      by (simp add: HeapifyUp.simps [of h i] sift_up.simps [of "hp_compare h" ?xs i] GetElem_eq Let_def)
  next
    case False
    with less.prems show ?thesis
      by (auto simp: HeapifyUp.simps [of h i] sift_up.simps [of "hp_compare h" ?xs i] GetElem_eq Let_def)
  qed
qed

lemma LargerChild_eq:
  assumes "heap_wf h" "LEFT i < length (heap_elems h)"
  shows "LargerChild h i (length (heap_elems h)) = Inr (larger_child (hp_compare h) (heap_elems h) i)"
  using assms by (auto simp: LargerChild_def larger_child_def GetElem_eq Let_def)

lemma HeapifyDown_loop_eq:
  assumes "heap_wf h" "n = length (heap_elems h)"
  shows "\<exists>h'. HeapifyDown_loop h n i = Inr h' \<and> heap_wf h' \<and>
    heap_elems h' = sift_down (hp_compare h) (heap_elems h) i \<and> hp_compare h' = hp_compare h"
  using assms
proof (induction "n - i" arbitrary: h i rule: less_induct)
  case less
  let ?xs = "heap_elems h" and ?cmp = "hp_compare h"
  let ?c = "larger_child ?cmp ?xs i"
  show ?case
  proof (cases "LEFT i < n \<and> ?cmp (?xs ! ?c) (?xs ! i) > 0")
    case True
    with larger_child_bounds [of i ?xs ?cmp] less.prems have c: "i < length ?xs" "?c < length ?xs" "i < ?c" by auto
    from SwapElem_eq [OF less.prems(1) c(1,2)] obtain h1 where
      h1: "SwapElem h i ?c = Inr h1" "heap_wf h1" "heap_elems h1 = exchange ?xs i ?c" "hp_compare h1 = ?cmp" by blast
    have "n - ?c < n - i" "n = length (heap_elems h1)" using c less.prems h1(3) by auto
    from less.hyps [OF this(1) h1(2) this(2)] h1(3,4) obtain h2 where
      "HeapifyDown_loop h1 n ?c = Inr h2" "heap_wf h2" "heap_elems h2 = sift_down ?cmp (exchange ?xs i ?c) ?c"
      "hp_compare h2 = ?cmp" by auto
    with True h1(1) less.prems c show ?thesis
      by (simp add: HeapifyDown_loop.simps [of h] sift_down.simps [of ?cmp ?xs i] GetElem_eq LargerChild_eq)
  next
    case False
    show ?thesis
    proof (cases "LEFT i < n")
      case True
      with larger_child_bounds [of i ?xs ?cmp] less.prems have "i < length ?xs" "?c < length ?xs" by auto
      with True False less.prems show ?thesis
        by (auto simp: HeapifyDown_loop.simps [of h] sift_down.simps [of ?cmp ?xs i] GetElem_eq LargerChild_eq)
    next
      case False
      with less.prems show ?thesis
        by (auto simp: HeapifyDown_loop.simps [of h] sift_down.simps [of ?cmp ?xs i])
    qed
  qed
qed

lemma HeapifyDown_eq:
  "heap_wf h \<Longrightarrow> \<exists>h'. HeapifyDown h i = Inr h' \<and> heap_wf h' \<and>
    heap_elems h' = sift_down (hp_compare h) (heap_elems h) i \<and> hp_compare h' = hp_compare h"
  using HeapifyDown_loop_eq [of h _ i] by (simp add: HeapifyDown_def HeapSize_eq)


section \<open>Heap operations\<close>

definition heap_inv :: "heap_t \<Rightarrow> bool" where
  "heap_inv h \<longleftrightarrow> heap_wf h \<and> heap_prop (hp_compare h) (heap_elems h)"

definition heap_capacity :: "heap_t \<Rightarrow> nat" where
  "heap_capacity h = (case hp_vector h of None \<Rightarrow> 0 | Some v \<Rightarrow> v_capacity v)"

lemma heap_pop_back_eq:
  assumes "heap_wf h" "heap_elems h \<noteq> []"
  shows "\<exists>h'. heap_pop_back (Some junk) h = Inr h' \<and> heap_wf h' \<and> heap_elems h' = butlast (heap_elems h) \<and>
    hp_compare h' = hp_compare h"
proof -
  from assms(1) obtain v where v: "hp_vector h = Some v" "vector_wf v" "v_element_size v = 8"
    "heap_elems h = map ptr_of_bytes (vector_elems v)" "length (heap_elems h) = v_size v" by (rule heap_wf_parts)
  have "0 < v_size v" using assms(2) v(5) by (metis length_greater_0_conv)
  with VectorPopBack_ok [OF v(2), of "Some junk"] obtain w where
    "VectorPopBack (Some junk) v = Inr w" "vector_wf w" "vector_abs w = fst (vector_spec (V_Pop (Some junk)) (vector_abs v))"
    by auto
  with v show ?thesis by (simp add: heap_pop_back_def heap_wf_def heap_elems_def vector_abs_def map_butlast)
qed

lemma HeapPush_ok:
  assumes inv: "heap_inv h" and ord: "cmp_order (hp_compare h)"
    and room: "length (heap_elems h) = heap_capacity h \<longrightarrow> a \<noteq> None \<and> 16 * heap_capacity h < 2 ^ 64"
  shows "\<exists>h'. HeapPush a h p = Inr (h', 0) \<and> heap_inv h' \<and> hp_compare h' = hp_compare h \<and>
    mset (heap_elems h') = add_mset p (mset (heap_elems h))"
proof -
  from inv obtain v where v: "hp_vector h = Some v" "vector_wf v" "v_element_size v = 8"
    "heap_elems h = map ptr_of_bytes (vector_elems v)" "length (heap_elems h) = v_size v"
    by (auto simp: heap_inv_def elim: heap_wf_parts)
  have "vector_pre (V_Push a (bytes_of 8 p)) (vector_abs v)"
    using room v(1,3,4,5) by (auto simp: vector_abs_def heap_capacity_def simp del: bytes_of.simps)
  from VectorPushBack_ok [OF v(2) this] v(3) obtain w where w: "VectorPushBack a v (bytes_of 8 p) = Inr (Some w, 0)"
    "vector_wf w" "v_element_size w = 8" "vector_elems w = vector_elems v @ [bytes_of 8 p]"
    by (auto simp: vector_abs_def simp del: bytes_of.simps)
  let ?h1 = "h\<lparr>hp_vector := Some w\<rparr>"
  have h1: "heap_wf ?h1" "heap_elems ?h1 = heap_elems h @ [p]"
    using w v(4) by (simp_all add: heap_wf_def heap_elems_def ptr_of_bytes_of del: bytes_of.simps)
  have size: "VectorSize w - 1 = length (heap_elems h)"
    using arg_cong [OF w(4), of length] v(4) by (simp add: VectorSize_def vector_elems_def del: bytes_of.simps)
  from HeapifyUp_eq [OF h1(1), of "length (heap_elems h)"] h1(2) obtain h2 where
    h2: "HeapifyUp ?h1 (length (heap_elems h)) = Inr h2" "heap_wf h2"
    "heap_elems h2 = sift_up (hp_compare h) (heap_elems h @ [p]) (length (heap_elems h))" "hp_compare h2 = hp_compare h"
    by auto
  have "heap_inv h2"
    using cmp_order.sift_up_heap [OF ord cmp_order.heap_append [OF ord]] inv h2 by (simp add: heap_inv_def)
  moreover have "mset (heap_elems h2) = add_mset p (mset (heap_elems h))"
    unfolding h2(3) using mset_sift_up [of "length (heap_elems h)" "heap_elems h @ [p]" "hp_compare h"] by simp
  ultimately show ?thesis
    using v(1) w(1) h2 size by (simp add: HeapPush_def del: bytes_of.simps)
qed

text \<open>Taking out position \<open>i\<close>: the last element moves there and is sifted up or down.\<close>

lemma butlast_swap_last:
  "i < length xs - 1 \<Longrightarrow> butlast (exchange xs i (length xs - 1)) = (butlast xs)[i := last xs]"
  by (cases "xs = []") (auto intro!: nth_equalityI simp: nth_butlast exchange_nth nth_list_update last_conv_nth)

lemma mset_take_out:
  assumes "i < length xs - 1"
  shows "add_mset (xs ! i) (mset ((butlast xs)[i := last xs])) = mset xs"
proof -
  have ne: "xs \<noteq> []" using assms by auto
  have "xs ! i \<in># mset (butlast xs)" using assms by (metis in_set_conv_nth length_butlast nth_butlast set_mset_mset)
  then have "add_mset (xs ! i) (mset ((butlast xs)[i := last xs])) = add_mset (last xs) (mset (butlast xs))"
    using assms by (simp add: mset_update nth_butlast)
  also have "\<dots> = mset (butlast xs @ [last xs])" by simp
  finally show ?thesis using ne by simp
qed

lemma heap_take_out:
  assumes inv: "heap_inv h" and ord: "cmp_order (hp_compare h)" and i: "i < length (heap_elems h) - 1"
    and elems: "heap_elems h2 = (butlast (heap_elems h))[i := last (heap_elems h)]"
    and h2: "heap_wf h2" "hp_compare h2 = hp_compare h"
    and up: "up = (0 < i \<and> hp_compare h (heap_elems h2 ! i) (heap_elems h2 ! PARENT i) > 0)"
  shows "\<exists>h'. (if up then HeapifyUp h2 i else HeapifyDown h2 i) = Inr h' \<and> heap_inv h' \<and>
    hp_compare h' = hp_compare h \<and> mset (heap_elems h) = add_mset (heap_elems h ! i) (mset (heap_elems h'))"
proof -
  let ?zs = "butlast (heap_elems h)" and ?x = "last (heap_elems h)"
  have zs: "heap_prop (hp_compare h) ?zs" "i < length ?zs"
    using inv i cmp_order.heap_take [OF ord] by (auto simp: heap_inv_def)
  have pi: "0 < i \<Longrightarrow> PARENT i \<noteq> i \<and> PARENT i < length ?zs" using PARENT_less [of i] zs(2) by auto
  have up': "up \<longleftrightarrow> 0 < i \<and> hp_compare h ?x (?zs ! PARENT i) > 0"
    using up zs(2) pi by (auto simp: elems)
  have ms: "add_mset (heap_elems h ! i) (mset (heap_elems h2)) = mset (heap_elems h)"
    unfolding elems by (rule mset_take_out [OF i])
  show ?thesis
  proof (cases up)
    case True
    from HeapifyUp_eq [OF h2(1), of i] zs(2) obtain h' where h': "HeapifyUp h2 i = Inr h'" "heap_wf h'"
      "heap_elems h' = sift_up (hp_compare h) (heap_elems h2) i" "hp_compare h' = hp_compare h"
      unfolding h2(2) elems by auto
    moreover have "heap_prop (hp_compare h) (heap_elems h')"
      using cmp_order.sift_up_heap [OF ord cmp_order.heap_replace(1) [OF ord zs]] True up'
      unfolding h'(3) elems by blast
    moreover have "mset (heap_elems h') = mset (heap_elems h2)"
      unfolding h'(3) using mset_sift_up [of i "heap_elems h2"] zs(2) elems by simp
    ultimately show ?thesis using True ms by (simp add: heap_inv_def)
  next
    case False
    from HeapifyDown_eq [OF h2(1), of i] obtain h' where h': "HeapifyDown h2 i = Inr h'" "heap_wf h'"
      "heap_elems h' = sift_down (hp_compare h) (heap_elems h2) i" "hp_compare h' = hp_compare h"
      unfolding h2(2) by auto
    moreover have "heap_prop (hp_compare h) (heap_elems h')"
      using cmp_order.sift_down_heap [OF ord cmp_order.heap_replace(2) [OF ord zs]] False up'
      unfolding h'(3) elems by blast
    moreover have "mset (heap_elems h') = mset (heap_elems h2)"
      unfolding h'(3) using mset_sift_down by blast
    ultimately show ?thesis using False ms by (simp add: heap_inv_def)
  qed
qed

lemma heap_swap_pop:
  assumes "heap_wf h" "i < length (heap_elems h) - 1"
  shows "\<exists>h1 h2. SwapElem h i (length (heap_elems h) - 1) = Inr h1 \<and> heap_pop_back (Some junk) h1 = Inr h2 \<and>
    heap_wf h2 \<and> heap_elems h2 = (butlast (heap_elems h))[i := last (heap_elems h)] \<and> hp_compare h2 = hp_compare h"
proof -
  have "i < length (heap_elems h)" "length (heap_elems h) - 1 < length (heap_elems h)" using assms(2) by linarith+
  from SwapElem_eq [OF assms(1) this] obtain h1 where
    h1: "SwapElem h i (length (heap_elems h) - 1) = Inr h1" "heap_wf h1"
    "heap_elems h1 = exchange (heap_elems h) i (length (heap_elems h) - 1)" "hp_compare h1 = hp_compare h" by blast
  have "heap_elems h1 \<noteq> []" using h1(3) assms(2) by (metis length_0_conv exchange_length less_nat_zero_code zero_diff)
  from heap_pop_back_eq [OF h1(2) this] h1 butlast_swap_last [OF assms(2)] show ?thesis by auto
qed

lemma HeapRemove_at_ok:
  assumes inv: "heap_inv h" and ord: "cmp_order (hp_compare h)" and i: "i < length (heap_elems h)"
  shows "\<exists>h'. HeapRemove_at (Some junk) h i = Inr (h', heap_elems h ! i) \<and> heap_inv h' \<and>
    hp_compare h' = hp_compare h \<and> mset (heap_elems h) = add_mset (heap_elems h ! i) (mset (heap_elems h'))"
proof -
  have wf: "heap_wf h" and ne: "heap_elems h \<noteq> []" using inv i by (auto simp: heap_inv_def)
  let ?n = "length (heap_elems h)"
  show ?thesis
  proof (cases "i = ?n - 1")
    case True
    from heap_pop_back_eq [OF wf ne] obtain h' where h': "heap_pop_back (Some junk) h = Inr h'" "heap_wf h'"
      "heap_elems h' = butlast (heap_elems h)" "hp_compare h' = hp_compare h" by blast
    moreover have "heap_inv h'" using h' inv cmp_order.heap_take [OF ord] by (simp add: heap_inv_def)
    moreover have "mset (heap_elems h) = add_mset (last (heap_elems h)) (mset (butlast (heap_elems h)))"
      using ne by (metis append_butlast_last_id mset.simps mset_append union_mset_add_mset_right add.right_neutral)
    ultimately show ?thesis
      using True i ne by (simp add: HeapRemove_at_def HeapSize_eq [OF wf] GetElem_eq [OF wf] last_conv_nth)
  next
    case False
    with i have i': "i < ?n - 1" by simp
    from heap_swap_pop [OF wf i', of junk] obtain h1 h2 where
      h: "SwapElem h i (?n - 1) = Inr h1" "heap_pop_back (Some junk) h1 = Inr h2" "heap_wf h2"
      "heap_elems h2 = (butlast (heap_elems h))[i := last (heap_elems h)]" "hp_compare h2 = hp_compare h" by blast
    define up where "up = (0 < i \<and> hp_compare h (heap_elems h2 ! i) (heap_elems h2 ! PARENT i) > 0)"
    from heap_take_out [OF inv ord i' h(4,3,5) up_def] obtain h' where
      h': "(if up then HeapifyUp h2 i else HeapifyDown h2 i) = Inr h'" "heap_inv h'" "hp_compare h' = hp_compare h"
      "mset (heap_elems h) = add_mset (heap_elems h ! i) (mset (heap_elems h'))" by blast
    have len: "i < length (heap_elems h2)" using h(4) i' by simp
    have "(if i > 0 then bindE (GetElem h2 i) (\<lambda>e. bindE (GetElem h2 (PARENT i)) (\<lambda>p. Inr (hp_compare h2 e p > 0)))
        else Inr False) = Inr up"
      using len PARENT_less [of i] h(3,5) by (auto simp: up_def GetElem_eq)
    with h h' False i show ?thesis
      by (simp add: HeapRemove_at_def HeapSize_eq [OF wf] GetElem_eq [OF wf])
  qed
qed

lemma HeapRemove_loop_eq:
  assumes "heap_wf h" "\<forall>i \<in> set is. i < length (heap_elems h)"
  shows "HeapRemove_loop a h data mt is =
    (case find (\<lambda>i. mt (heap_elems h ! i) data = 0) is of None \<Rightarrow> Inr (h, NULL) | Some i \<Rightarrow> HeapRemove_at a h i)"
  using assms(2) by (induction "is") (simp_all add: GetElem_eq [OF assms(1)])

lemma HeapRemove_ok:
  assumes inv: "heap_inv h" and ord: "cmp_order (hp_compare h)"
  shows "(\<forall>e \<in> set (heap_elems h). mt e data \<noteq> 0) \<and> HeapRemove (Some junk) h data mt = Inr (h, NULL) \<or>
    (\<exists>h' e. HeapRemove (Some junk) h data mt = Inr (h', e) \<and> mt e data = 0 \<and> heap_inv h' \<and>
      hp_compare h' = hp_compare h \<and> mset (heap_elems h) = add_mset e (mset (heap_elems h')))"
proof -
  have wf: "heap_wf h" using inv by (simp add: heap_inv_def)
  let ?P = "\<lambda>i. mt (heap_elems h ! i) data = 0"
  have run: "HeapRemove (Some junk) h data mt = (case find ?P [0..<length (heap_elems h)] of
      None \<Rightarrow> Inr (h, NULL) | Some i \<Rightarrow> HeapRemove_at (Some junk) h i)"
    using HeapRemove_loop_eq [OF wf, of "[0..<length (heap_elems h)]"]
    by (simp add: HeapRemove_def HeapIsEmpty_eq [OF wf] HeapSize_eq [OF wf])
  show ?thesis
  proof (cases "find ?P [0..<length (heap_elems h)]")
    case None
    then have "\<forall>e \<in> set (heap_elems h). mt e data \<noteq> 0" by (auto simp: find_None_iff in_set_conv_nth)
    with None run show ?thesis by simp
  next
    case (Some i)
    then have "i < length (heap_elems h)" "?P i" by (auto simp: find_Some_iff)
    with HeapRemove_at_ok [OF inv ord, of i junk] Some run show ?thesis by auto
  qed
qed

lemma HeapPop_ok:
  assumes inv: "heap_inv h" and ord: "cmp_order (hp_compare h)" and ne: "heap_elems h \<noteq> []"
  shows "\<exists>h'. HeapPop (Some junk) h = Inr h' \<and> heap_inv h' \<and>
    hp_compare h' = hp_compare h \<and> mset (heap_elems h) = add_mset (heap_elems h ! 0) (mset (heap_elems h'))"
proof (cases "length (heap_elems h) = 1")
  case True
  have wf: "heap_wf h" using inv by (simp add: heap_inv_def)
  from True obtain e where e: "heap_elems h = [e]" by (auto simp: length_Suc_conv)
  from SwapElem_eq [OF wf, of 0 0] e obtain h1 where
    h1: "SwapElem h 0 0 = Inr h1" "heap_wf h1" "heap_elems h1 = [e]" "hp_compare h1 = hp_compare h"
    by (auto simp: exchange_def)
  from heap_pop_back_eq [OF h1(2), of junk] h1(3,4) obtain h2 where
    "heap_pop_back (Some junk) h1 = Inr h2" "heap_wf h2" "heap_elems h2 = []" "hp_compare h2 = hp_compare h" by auto
  with h1(1) e show ?thesis
    by (simp add: HeapPop_def HeapIsEmpty_eq [OF wf] HeapSize_eq [OF wf] HeapIsEmpty_eq heap_inv_def heap_prop_def)
next
  case False
  have wf: "heap_wf h" using inv by (simp add: heap_inv_def)
  have i: "0 < length (heap_elems h) - 1" using False ne by (cases "heap_elems h") auto
  from heap_swap_pop [OF wf i, of junk] obtain h1 h2 where
    h: "SwapElem h 0 (length (heap_elems h) - 1) = Inr h1" "heap_pop_back (Some junk) h1 = Inr h2" "heap_wf h2"
    "heap_elems h2 = (butlast (heap_elems h))[0 := last (heap_elems h)]" "hp_compare h2 = hp_compare h" by blast
  from heap_take_out [OF inv ord i h(4,3,5), of False] obtain h' where
    "HeapifyDown h2 0 = Inr h'" "heap_inv h'" "hp_compare h' = hp_compare h"
    "mset (heap_elems h) = add_mset (heap_elems h ! 0) (mset (heap_elems h'))" by auto
  moreover have "heap_elems h2 \<noteq> []" using h(4) i by (metis length_butlast length_greater_0_conv length_list_update)
  ultimately show ?thesis using h ne
    by (simp add: HeapPop_def HeapIsEmpty_eq [OF wf] HeapSize_eq [OF wf] HeapIsEmpty_eq [OF h(3)])
qed

lemma HeapPeek_ok:
  assumes inv: "heap_inv h" and ord: "cmp_order (hp_compare h)" and ne: "heap_elems h \<noteq> []"
  shows "HeapPeek h = Inr (heap_elems h ! 0) \<and>
    (\<forall>e \<in> set (heap_elems h). hp_compare h e (heap_elems h ! 0) \<le> 0)"
proof -
  have wf: "heap_wf h" using inv by (simp add: heap_inv_def)
  have "hp_compare h e (heap_elems h ! 0) \<le> 0" if "e \<in> set (heap_elems h)" for e
    using that cmp_order.heap_max [OF ord] inv by (auto simp: in_set_conv_nth heap_inv_def)
  with ne show ?thesis by (simp add: HeapPeek_def HeapIsEmpty_eq [OF wf] GetElem_eq [OF wf])
qed


section \<open>Priority queue operations\<close>

text \<open>The queue's data, and when it is in order.\<close>

definition pq_data :: "pq_t \<Rightarrow> ptr multiset" where
  "pq_data pq = mset (heap_elems (pq_heap pq))"

definition pq_inv :: "pq_t \<Rightarrow> bool" where
  "pq_inv pq \<longleftrightarrow> heap_inv (pq_heap pq) \<and> cmp_order (hp_compare (pq_heap pq))"

abbreviation (input) pq_compare :: "pq_t \<Rightarrow> ptr \<Rightarrow> ptr \<Rightarrow> int" where
  "pq_compare pq \<equiv> hp_compare (pq_heap pq)"

lemma PQEnqueue_ok:
  assumes "pq_inv pq"
    "size (pq_data pq) = heap_capacity (pq_heap pq) \<longrightarrow> a \<noteq> None \<and> 16 * heap_capacity (pq_heap pq) < 2 ^ 64"
  shows "\<exists>pq'. PQEnqueue a pq p = Inr (pq', 0) \<and> pq_inv pq' \<and> pq_compare pq' = pq_compare pq \<and>
    pq_data pq' = add_mset p (pq_data pq)"
  using HeapPush_ok [of "pq_heap pq" a p] assms by (auto simp: PQEnqueue_def pq_inv_def pq_data_def)

lemma PQIsEmpty_ok: "pq_inv pq \<Longrightarrow> PQIsEmpty pq = Inr (pq_data pq = {#})"
  by (simp add: PQIsEmpty_def pq_inv_def heap_inv_def HeapIsEmpty_eq pq_data_def)

lemma PQSize_ok: "pq_inv pq \<Longrightarrow> PQSize pq = Inr (size (pq_data pq))"
  by (simp add: PQSize_def pq_inv_def heap_inv_def HeapSize_eq pq_data_def)

lemma PQDequeue_ok:
  assumes "pq_inv pq" "pq_data pq \<noteq> {#}"
  shows "\<exists>pq' p. PQDequeue (Some junk) pq = Inr (pq', p) \<and> PQPeek pq = Inr p \<and> pq_inv pq' \<and>
    pq_compare pq' = pq_compare pq \<and> pq_data pq = add_mset p (pq_data pq') \<and>
    (\<forall>e \<in># pq_data pq. pq_compare pq e p \<le> 0)"
proof -
  let ?h = "pq_heap pq"
  have inv: "heap_inv ?h" "cmp_order (hp_compare ?h)" "heap_elems ?h \<noteq> []"
    using assms by (auto simp: pq_inv_def pq_data_def)
  from HeapPop_ok [OF inv, of junk] obtain h where
    h: "HeapPop (Some junk) ?h = Inr h" "heap_inv h" "hp_compare h = hp_compare ?h"
    "mset (heap_elems ?h) = add_mset (heap_elems ?h ! 0) (mset (heap_elems h))" by blast
  have "PQDequeue (Some junk) pq = Inr (pq\<lparr>pq_heap := h\<rparr>, heap_elems ?h ! 0)"
    using h(1) HeapPeek_ok [OF inv] PQIsEmpty_ok [OF assms(1)] assms(2) by (simp add: PQDequeue_def)
  moreover have "\<forall>e \<in># pq_data pq. pq_compare pq e (heap_elems ?h ! 0) \<le> 0"
    using HeapPeek_ok [OF inv] by (simp add: pq_data_def)
  moreover have "PQPeek pq = Inr (heap_elems ?h ! 0)" using HeapPeek_ok [OF inv] by (simp add: PQPeek_def)
  moreover have "pq_data pq = add_mset (heap_elems ?h ! 0) (pq_data (pq\<lparr>pq_heap := h\<rparr>))"
    using h(4) by (simp add: pq_data_def)
  ultimately show ?thesis using h(2,3) inv(2)
    by (intro exI [of _ "pq\<lparr>pq_heap := h\<rparr>"] exI [of _ "heap_elems ?h ! 0"]) (simp add: pq_inv_def)
qed

lemma PQErase_ok:
  assumes "pq_inv pq"
  shows "(\<forall>e \<in># pq_data pq. mt e param \<noteq> 0) \<and> PQErase (Some junk) pq mt param = Inr (pq, NULL) \<or>
    (\<exists>pq' e. PQErase (Some junk) pq mt param = Inr (pq', e) \<and> mt e param = 0 \<and> pq_inv pq' \<and>
      pq_compare pq' = pq_compare pq \<and> pq_data pq = add_mset e (pq_data pq'))"
  using HeapRemove_ok [of "pq_heap pq" mt param junk] assms
  by (auto simp: PQErase_def pq_inv_def pq_data_def)

text \<open>A client that takes everything out, in the order the queue gives it.\<close>

fun pq_drain :: "nat \<Rightarrow> alloc \<Rightarrow> pq_t \<Rightarrow> (pq_t \<times> ptr list) result" where
  "pq_drain 0 a pq = Inr (pq, [])"
| "pq_drain (Suc n) a pq =
     bindE (PQDequeue a pq) (\<lambda>(pq1, p). bindE (pq_drain n a pq1) (\<lambda>(pq2, ps). Inr (pq2, p # ps)))"

lemma pq_drain_ok:
  "pq_inv pq \<Longrightarrow> \<exists>pq' ps. pq_drain (size (pq_data pq)) (Some junk) pq = Inr (pq', ps) \<and> pq_inv pq' \<and>
     pq_data pq' = {#} \<and> mset ps = pq_data pq \<and> sorted_wrt (\<lambda>x y. pq_compare pq y x \<le> 0) ps"
proof (induction "size (pq_data pq)" arbitrary: pq)
  case 0
  then show ?case by simp
next
  case (Suc n)
  then have "pq_data pq \<noteq> {#}" by auto
  from PQDequeue_ok [OF Suc.prems this, of junk] obtain pq1 p where
    p: "PQDequeue (Some junk) pq = Inr (pq1, p)" "pq_inv pq1" "pq_compare pq1 = pq_compare pq"
    "pq_data pq = add_mset p (pq_data pq1)" "\<forall>e \<in># pq_data pq. pq_compare pq e p \<le> 0" by blast
  have n: "n = size (pq_data pq1)" using Suc.hyps(2) p(4) by simp
  from Suc.hyps(1) [OF this p(2)] obtain pq2 ps where
    ps: "pq_drain n (Some junk) pq1 = Inr (pq2, ps)" "pq_inv pq2" "pq_data pq2 = {#}" "mset ps = pq_data pq1"
    "sorted_wrt (\<lambda>x y. pq_compare pq y x \<le> 0) ps" unfolding n p(3) by blast
  have "pq_compare pq x p \<le> 0" if "x \<in> set ps" for x using that p(4,5) ps(4) by (metis insert_iff set_mset_add_mset_insert set_mset_mset)
  with p ps Suc.hyps(2) [symmetric] show ?case by simp
qed

lemma PQClear_ok:
  "pq_inv pq \<Longrightarrow> size (pq_data pq) < fuel \<Longrightarrow> \<forall>n. a n \<noteq> None \<Longrightarrow>
   \<exists>pq'. PQClear fuel a pq = Inr pq' \<and> pq_inv pq' \<and> pq_data pq' = {#}"
proof (induction fuel arbitrary: pq)
  case (Suc fuel)
  obtain junk where a: "a fuel = Some junk" using Suc.prems(3) by blast
  show ?case
  proof (cases "pq_data pq = {#}")
    case True
    with Suc.prems show ?thesis by (simp add: PQIsEmpty_ok)
  next
    case False
    from PQDequeue_ok [OF Suc.prems(1) False, of junk] obtain pq1 p where
      "PQDequeue (Some junk) pq = Inr (pq1, p)" "pq_inv pq1" "pq_data pq = add_mset p (pq_data pq1)" by blast
    with Suc False a show ?thesis by (simp add: PQIsEmpty_ok)
  qed
qed simp

text \<open>A failed growth of the array frees it, and the heap still points to it.\<close>

lemma HeapPush_no_memory:
  assumes "heap_wf h" "length (heap_elems h) = heap_capacity h"
  shows "\<exists>h'. HeapPush None h p = Inr (h', -1) \<and> HeapSize h' = Inl Bad_access"
proof -
  from assms(1) obtain v where v: "hp_vector h = Some v" "length (heap_elems h) = v_size v" by (auto elim: heap_wf_parts)
  with assms(2) show ?thesis
    by (simp add: HeapPush_def VectorPushBack_def VectorReserve_def realloc_block_def VectorDestroy_def
        heap_capacity_def HeapSize_def del: bytes_of.simps)
qed

lemma PQCreate_ok:
  assumes "cmp_order cmp"
  shows "\<exists>pq. PQCreate True True True (Some junk) cmp = Some pq \<and> pq_inv pq \<and> pq_data pq = {#} \<and> pq_compare pq = cmp"
proof -
  from VectorCreate_ok [of 8 128 junk] obtain v where
    "VectorCreate True (Some junk) 128 8 = Some v" "vector_wf v" "v_element_size v = 8" "vector_elems v = []"
    by (auto simp: vector_abs_def)
  with assms show ?thesis
    by (simp add: PQCreate_def HeapCreate_def pq_inv_def pq_data_def heap_inv_def heap_wf_def heap_elems_def heap_prop_def)
qed


section \<open>Capacity\<close>

lemma SetElem_capacity: "SetElem h i p = Inr h' \<Longrightarrow> heap_capacity h' = heap_capacity h"
  by (auto simp: SetElem_def bindE_Inr_iff heap_capacity_def)

lemma SwapElem_capacity: "SwapElem h i j = Inr h' \<Longrightarrow> heap_capacity h' = heap_capacity h"
  by (auto simp: SwapElem_def bindE_Inr_iff dest!: SetElem_capacity)

lemma HeapifyUp_capacity: "HeapifyUp h i = Inr h' \<Longrightarrow> heap_capacity h' = heap_capacity h"
proof (induction i arbitrary: h rule: less_induct)
  case (less i)
  have "(i - 1) div 2 < i" if "0 < i" using that by auto
  with less.prems less.IH SwapElem_capacity show ?case
    by (subst (asm) HeapifyUp.simps) (fastforce simp: Let_def bindE_Inr_iff split: if_splits)
qed

lemma HeapifyDown_capacity: "HeapifyDown h i = Inr h' \<Longrightarrow> heap_capacity h' = heap_capacity h"
proof -
  have "HeapifyDown_loop h n i = Inr h' \<Longrightarrow> heap_capacity h' = heap_capacity h" for n h i
  proof (induction "n - i" arbitrary: h i rule: less_induct)
    case less
    show ?case
    proof (cases "LEFT i < n")
      case True
      have "n - c < n - i" if "LargerChild h i n = Inr c" for c using LargerChild_bounds [OF True that] by linarith
      with True less.prems less.hyps SwapElem_capacity show ?thesis
        by (subst (asm) HeapifyDown_loop.simps) (fastforce simp: bindE_Inr_iff split: if_splits)
    qed (use less.prems in \<open>simp add: HeapifyDown_loop.simps [of h]\<close>)
  qed
  moreover assume "HeapifyDown h i = Inr h'"
  ultimately show ?thesis by (auto simp: HeapifyDown_def bindE_Inr_iff)
qed

lemma heap_pop_back_room:
  assumes "heap_wf h" "heap_pop_back a h = Inr h'"
  shows "length (heap_elems h') < heap_capacity h'"
proof -
  from assms(1) obtain v where v: "hp_vector h = Some v" "vector_wf v" by (auto simp: heap_wf_def)
  with assms(2) obtain w where w: "VectorPopBack a v = Inr w" "h' = h\<lparr>hp_vector := Some w\<rparr>"
    by (auto simp: heap_pop_back_def bindE_Inr_iff)
  have "v_size w < v_capacity w"
    using w(1) v(2)
    by (cases a) (auto simp: VectorPopBack_def VectorReserve_def realloc_block_def VectorDestroy_def vector_wf_def
        bindE_Inr_iff Let_def split: if_splits)
  with w(2) show ?thesis by (simp add: heap_elems_def heap_capacity_def vector_elems_def)
qed

text \<open>After a pop there is room for one more element, whatever the allocator says.\<close>

lemma HeapPop_room:
  assumes inv: "heap_inv h" and ord: "cmp_order (hp_compare h)" and ne: "heap_elems h \<noteq> []"
    and pop: "HeapPop (Some junk) h = Inr h'"
  shows "length (heap_elems h') < heap_capacity h'"
proof -
  have wf: "heap_wf h" using inv by (simp add: heap_inv_def)
  from SwapElem_eq [OF wf, of 0 "length (heap_elems h) - 1"] ne obtain h1 where
    h1: "SwapElem h 0 (length (heap_elems h) - 1) = Inr h1" "heap_wf h1" "length (heap_elems h1) = length (heap_elems h)"
    by auto
  with heap_pop_back_eq [OF h1(2), of junk] ne obtain h2 where
    h2: "heap_pop_back (Some junk) h1 = Inr h2" "heap_wf h2" "heap_elems h2 = butlast (heap_elems h1)" by fastforce
  have "(if heap_elems h2 \<noteq> [] then HeapifyDown h2 0 else Inr h2) = Inr h'"
    using pop h1(1) h2 ne by (simp add: HeapPop_def HeapIsEmpty_eq [OF wf] HeapSize_eq [OF wf] HeapIsEmpty_eq [OF h2(2)])
  then have "heap_capacity h' = heap_capacity h2" "length (heap_elems h') = length (heap_elems h2)"
    using HeapifyDown_capacity [of h2 0 h'] HeapifyDown_eq [OF h2(2), of 0] mset_sift_down [of "hp_compare h2" "heap_elems h2" 0]
    by (auto split: if_splits)
  with heap_pop_back_room [OF h1(2) h2(1)] show ?thesis by simp
qed

end
