(* ===== verification/Sched.thy ===== *)
theory Sched
  imports Heap_PQ
begin

text \<open>
  The task scheduler of \<open>projects/sched\<close>: unique identifiers (\<open>ds/src/uid.c\<close>), tasks
  (\<open>task.c\<close>) and the scheduler (\<open>sched.c\<close>), whose queue is the heap of \<open>heap.c\<close> with the
  earliest task on top. The clock, the process id, the network interfaces, \<open>sleep\<close> and the
  tasks' own functions are arguments.
\<close>

section \<open>Unique identifiers\<close>

record ilrd_uid_t =
  u_counter :: nat
  u_timestamp :: int
  u_pid :: int
  u_ip :: string

definition UIDbadUID :: ilrd_uid_t where
  "UIDbadUID = \<lparr>u_counter = 0, u_timestamp = 0, u_pid = 0, u_ip = []\<rparr>"

abbreviation (input) IP_LEN :: nat where
  "IP_LEN \<equiv> 16"

text \<open>
  An entry of the list \<open>getifaddrs\<close> fills: no address, or whether its family is \<open>AF_INET\<close> and
  what \<open>inet_ntop\<close> makes of it. Strings are C strings without their terminator.
\<close>

type_synonym ifaddr = "(bool \<times> string option) option"

fun GetIPAddress_loop :: "ifaddr list \<Rightarrow> string option" where
  "GetIPAddress_loop [] = None"
| "GetIPAddress_loop (ifa # rest) =
     (case ifa of
        None \<Rightarrow> GetIPAddress_loop rest
      | Some (inet, addr_str) \<Rightarrow>
          if inet
          then (case addr_str of
                  None \<Rightarrow> GetIPAddress_loop rest
                | Some s \<Rightarrow> if s \<noteq> ''127.0.0.1'' then Some (take (IP_LEN - 1) s) else GetIPAddress_loop rest)
          else GetIPAddress_loop rest)"

text \<open>\<open>None\<close> is the return value -1; otherwise the string copied to \<open>dest\<close>.\<close>

definition GetIPAddress :: "ifaddr list option \<Rightarrow> string option" where
  "GetIPAddress ifaddrs = (case ifaddrs of None \<Rightarrow> None | Some l \<Rightarrow> GetIPAddress_loop l)"

text \<open>The static counter is threaded through; the mutex makes the calls sequential.\<close>

definition UIDCreate :: "nat \<Rightarrow> int \<Rightarrow> int \<Rightarrow> ifaddr list option \<Rightarrow> nat \<times> ilrd_uid_t" where
  "UIDCreate counter now pid ifaddrs =
     (let counter' = szadd counter 1
      in case GetIPAddress ifaddrs of
           None \<Rightarrow> (counter', UIDbadUID)
         | Some ip \<Rightarrow> (counter', \<lparr>u_counter = counter', u_timestamp = now, u_pid = pid, u_ip = ip\<rparr>))"

definition UIDIsSame :: "ilrd_uid_t \<Rightarrow> ilrd_uid_t \<Rightarrow> int" where
  "UIDIsSame uid1 uid2 =
     (if u_counter uid1 = u_counter uid2 \<and> u_timestamp uid1 = u_timestamp uid2 \<and> u_pid uid1 = u_pid uid2 \<and>
         take IP_LEN (u_ip uid1) = take IP_LEN (u_ip uid2) then 1 else 0)"

section \<open>Tasks\<close>

text \<open>Function pointers are addresses; what a function does is an argument of \<open>TaskRun\<close>.\<close>

record task_t =
  t_uid :: ilrd_uid_t
  t_time :: int
  t_op :: ptr
  t_op_param :: ptr
  t_cleanup :: ptr
  t_cleanup_param :: ptr

text \<open>The conversion of a \<open>size_t\<close> to \<open>time_t\<close>, a signed 64-bit integer.\<close>

definition to_time :: "nat \<Rightarrow> int" where
  "to_time n = (if n < 2 ^ 63 then int n else int n - 2 ^ 64)"

definition TaskCreate :: "bool \<Rightarrow> nat \<Rightarrow> int \<Rightarrow> int \<Rightarrow> ifaddr list option \<Rightarrow> ptr \<Rightarrow> ptr \<Rightarrow> nat \<Rightarrow> ptr \<Rightarrow> ptr \<Rightarrow>
    (nat \<times> task_t option) result" where
  "TaskCreate ok counter now pid ifaddrs op_func op_param interval_in_sec cleanup_func cleanup_param =
     bindE (assertE (op_func \<noteq> NULL)) (\<lambda>_.
     bindE (assertE (cleanup_func \<noteq> NULL)) (\<lambda>_.
     if \<not> ok then Inr (counter, None)
     else let (counter', uid) = UIDCreate counter now pid ifaddrs
          in if UIDIsSame uid UIDbadUID \<noteq> 0 then Inr (counter', None)
             else Inr (counter', Some \<lparr>t_uid = uid, t_time = now + to_time interval_in_sec, t_op = op_func,
                    t_op_param = op_param, t_cleanup = cleanup_func, t_cleanup_param = cleanup_param\<rparr>)))"

definition TaskUID :: "task_t \<Rightarrow> ilrd_uid_t" where
  "TaskUID task = t_uid task"

definition TaskGetTimeToRun :: "int \<Rightarrow> task_t \<Rightarrow> nat" where
  "TaskGetTimeToRun now task = (let delta = t_time task - now in nat (max delta 0))"

definition TaskIsMatch :: "task_t \<Rightarrow> ilrd_uid_t \<Rightarrow> int" where
  "TaskIsMatch task uid = UIDIsSame (t_uid task) uid"

definition TaskCmp :: "task_t \<Rightarrow> task_t \<Rightarrow> int" where
  "TaskCmp task1 task2 =
     (let t1 = t_time task1; t2 = t_time task2 in if t1 < t2 then -1 else if t1 > t2 then 1 else 0)"

section \<open>Scheduler\<close>

datatype run_status_e = SUCCESS | PAUSED | FAILED_TASKS_EMPTY_SCHED | FAILED_TASKS_NON_EMPTY_SCHED | FAILED_ALLOC

text \<open>
  The scheduler with the memory of its tasks, the uid counter and the clock. \<open>sc_cleaned\<close> records
  the calls of cleanup functions, \<open>sc_ran\<close> the runs: task, time it was due, time it started.
\<close>

record sched_t =
  sc_heap :: heap_t
  sc_stop_flag :: bool
  sc_tasks :: "ptr \<Rightarrow> task_t option"
  sc_counter :: nat
  sc_now :: int
  sc_cleaned :: "(ptr \<times> ptr) list"
  sc_ran :: "(ptr \<times> int \<times> int) list"

text \<open>A pointer that is not a task has no time; the callbacks only see the scheduler's tasks.\<close>

definition task_at :: "(ptr \<Rightarrow> task_t option) \<Rightarrow> ptr \<Rightarrow> task_t" where
  "task_at tasks p = (case tasks p of
       Some t \<Rightarrow> t
     | None \<Rightarrow> \<lparr>t_uid = UIDbadUID, t_time = 0, t_op = NULL, t_op_param = NULL, t_cleanup = NULL, t_cleanup_param = NULL\<rparr>)"

definition WrapperTaskCmp :: "(ptr \<Rightarrow> task_t option) \<Rightarrow> ptr \<Rightarrow> ptr \<Rightarrow> int" where
  "WrapperTaskCmp tasks task1 task2 = TaskCmp (task_at tasks task2) (task_at tasks task1)"

text \<open>\<open>param\<close> points to the uid; the address is not used otherwise.\<close>

definition WrapperTaskIsMatch :: "(ptr \<Rightarrow> task_t option) \<Rightarrow> ilrd_uid_t \<Rightarrow> ptr \<Rightarrow> ptr \<Rightarrow> int" where
  "WrapperTaskIsMatch tasks uid data param = TaskIsMatch (task_at tasks data) uid"

text \<open>The heap compares through the tasks' memory.\<close>

definition sched_heap :: "sched_t \<Rightarrow> heap_t" where
  "sched_heap s = (sc_heap s)\<lparr>hp_compare := WrapperTaskCmp (sc_tasks s)\<rparr>"

definition load_task :: "sched_t \<Rightarrow> ptr \<Rightarrow> task_t result" where
  "load_task s p = bindE (assertE (p \<noteq> NULL)) (\<lambda>_. fetch (sc_tasks s p))"

definition TaskCleanUp :: "sched_t \<Rightarrow> ptr \<Rightarrow> sched_t result" where
  "TaskCleanUp s task =
     bindE (load_task s task) (\<lambda>t. Inr (s\<lparr>sc_cleaned := sc_cleaned s @ [(t_cleanup t, t_cleanup_param t)]\<rparr>))"

definition TaskDestroy :: "sched_t \<Rightarrow> ptr \<Rightarrow> sched_t result" where
  "TaskDestroy s task =
     bindE (TaskCleanUp s task) (\<lambda>s1. Inr (s1\<lparr>sc_tasks := (sc_tasks s1)(task := None)\<rparr>))"

definition TaskSetTimeToRun :: "sched_t \<Rightarrow> ptr \<Rightarrow> nat \<Rightarrow> sched_t result" where
  "TaskSetTimeToRun s task interval_in_sec =
     bindE (load_task s task) (\<lambda>t.
     Inr (s\<lparr>sc_tasks := (sc_tasks s)(task \<mapsto> t\<lparr>t_time := sc_now s + to_time interval_in_sec\<rparr>)\<rparr>))"

definition SchedCreate :: "bool \<Rightarrow> bool \<Rightarrow> bool \<Rightarrow> alloc \<Rightarrow> nat \<Rightarrow> int \<Rightarrow> sched_t option" where
  "SchedCreate ok heap_ok struct_ok a counter now =
     (if \<not> ok then None
      else case HeapCreate heap_ok struct_ok a (WrapperTaskCmp (\<lambda>_. None)) of
             None \<Rightarrow> None
           | Some h \<Rightarrow> Some \<lparr>sc_heap = h, sc_stop_flag = False, sc_tasks = (\<lambda>_. None), sc_counter = counter,
                            sc_now = now, sc_cleaned = [], sc_ran = []\<rparr>)"

definition SchedStop :: "sched_t \<Rightarrow> sched_t" where
  "SchedStop sch = sch\<lparr>sc_stop_flag := True\<rparr>"

definition SchedIsEmpty :: "sched_t \<Rightarrow> bool result" where
  "SchedIsEmpty sch = HeapIsEmpty (sched_heap sch)"

definition SchedSize :: "sched_t \<Rightarrow> nat result" where
  "SchedSize sch = HeapSize (sched_heap sch)"

text \<open>\<open>ap\<close> is where \<open>malloc\<close> puts the task, \<open>a\<close> what the heap's \<open>realloc\<close> answers.\<close>

definition SchedAdd :: "ptr option \<Rightarrow> alloc \<Rightarrow> int \<Rightarrow> ifaddr list option \<Rightarrow> sched_t \<Rightarrow> ptr \<Rightarrow> ptr \<Rightarrow> nat \<Rightarrow> ptr \<Rightarrow> ptr \<Rightarrow>
    (sched_t \<times> ilrd_uid_t) result" where
  "SchedAdd ap a pid ifaddrs sch op_func param time_exe cleanup_func cleanup_param =
     bindE (assertE (op_func \<noteq> NULL)) (\<lambda>_.
     bindE (assertE (cleanup_func \<noteq> NULL)) (\<lambda>_.
     bindE (TaskCreate (ap \<noteq> None) (sc_counter sch) (sc_now sch) pid ifaddrs op_func param time_exe cleanup_func cleanup_param)
       (\<lambda>(counter', new_task).
     let sch1 = sch\<lparr>sc_counter := counter'\<rparr>
     in case (ap, new_task) of
          (Some p, Some t) \<Rightarrow>
            let sch2 = sch1\<lparr>sc_tasks := (sc_tasks sch1)(p \<mapsto> t)\<rparr>
            in bindE (HeapPush a (sched_heap sch2) p) (\<lambda>(h, status).
               let sch3 = sch2\<lparr>sc_heap := h\<rparr>
               in if status \<noteq> 0 then bindE (TaskDestroy sch3 p) (\<lambda>sch4. Inr (sch4, UIDbadUID))
                  else Inr (sch3, TaskUID t))
        | _ \<Rightarrow> Inr (sch1, UIDbadUID))))"

definition SchedRemove :: "alloc \<Rightarrow> sched_t \<Rightarrow> ilrd_uid_t \<Rightarrow> (sched_t \<times> int) result" where
  "SchedRemove a sch uid =
     bindE (HeapRemove a (sched_heap sch) NULL (WrapperTaskIsMatch (sc_tasks sch) uid)) (\<lambda>(h, task_to_remove).
     let sch1 = sch\<lparr>sc_heap := h\<rparr>
     in if task_to_remove = NULL then Inr (sch1, 1)
        else bindE (TaskDestroy sch1 task_to_remove) (\<lambda>sch2. Inr (sch2, 0)))"

fun SchedClear :: "nat \<Rightarrow> alloc \<Rightarrow> sched_t \<Rightarrow> sched_t result" where
  "SchedClear 0 a sch = Inl Out_of_fuel"
| "SchedClear (Suc fuel) a sch =
     bindE (HeapIsEmpty (sched_heap sch)) (\<lambda>empty.
     if \<not> empty
     then bindE (HeapPeek (sched_heap sch)) (\<lambda>task.
          bindE (HeapPop a (sched_heap sch)) (\<lambda>h.
          bindE (TaskDestroy (sch\<lparr>sc_heap := h\<rparr>) task) (SchedClear fuel a)))
     else Inr sch)"

definition SchedDestroy :: "nat \<Rightarrow> alloc \<Rightarrow> sched_t \<Rightarrow> sched_t result" where
  "SchedDestroy fuel a sch =
     bindE (SchedClear fuel a sch) (\<lambda>sch1. bindE (HeapDestroy (sched_heap sch1)) (\<lambda>_. Inr sch1))"

text \<open>
  What the outside does during a run: \<open>sleep\<close> takes the clock and the seconds and answers the new
  clock and the seconds not slept (its argument is an \<open>unsigned int\<close>); a task's function takes the clock and answers the new clock,
  its result and whether it called \<open>SchedStop\<close>.
\<close>

record run_env =
  re_sleep :: "int \<Rightarrow> nat \<Rightarrow> int \<times> nat"
  re_op :: "ptr \<Rightarrow> ptr \<Rightarrow> int \<Rightarrow> int \<times> int \<times> bool"

fun sleep_loop :: "nat \<Rightarrow> run_env \<Rightarrow> int \<Rightarrow> nat \<Rightarrow> int result" where
  "sleep_loop 0 env now to_sleep = Inl Out_of_fuel"
| "sleep_loop (Suc fuel) env now to_sleep =
     (if 0 \<noteq> to_sleep then let (now', rest) = re_sleep env now (to_sleep mod 2 ^ 32) in sleep_loop fuel env now' rest else Inr now)"

definition TaskRun :: "run_env \<Rightarrow> task_t \<Rightarrow> int \<Rightarrow> int \<times> int \<times> bool" where
  "TaskRun env task now = re_op env (t_op task) (t_op_param task) now"

datatype round_end = Task_failed | Task_done | Task_again | Task_lost

text \<open>One round of the loop of \<open>SchedRun\<close>; \<open>Task_lost\<close> is the early return with \<open>FAILED_ALLOC\<close>.\<close>

definition SchedRun_body :: "nat \<Rightarrow> run_env \<Rightarrow> alloc \<Rightarrow> alloc \<Rightarrow> sched_t \<Rightarrow> (sched_t \<times> round_end) result" where
  "SchedRun_body fuel env apop apush sch =
     bindE (HeapPeek (sched_heap sch)) (\<lambda>task.
     bindE (HeapPop apop (sched_heap sch)) (\<lambda>h.
     let sch1 = sch\<lparr>sc_heap := h\<rparr>
     in bindE (load_task sch1 task) (\<lambda>t.
        bindE (sleep_loop fuel env (sc_now sch1) (TaskGetTimeToRun (sc_now sch1) t)) (\<lambda>now1.
        let (now2, result, stop) = TaskRun env t now1;
            sch2 = sch1\<lparr>sc_now := now2, sc_stop_flag := sc_stop_flag sch1 \<or> stop,
                        sc_ran := sc_ran sch1 @ [(task, t_time t, now1)]\<rparr>
        in if result < 0 then bindE (TaskDestroy sch2 task) (\<lambda>sch3. Inr (sch3, Task_failed))
           else if 0 = result then bindE (TaskDestroy sch2 task) (\<lambda>sch3. Inr (sch3, Task_done))
           else bindE (TaskSetTimeToRun sch2 task (nat result)) (\<lambda>sch3.
                bindE (HeapPush apush (sched_heap sch3) task) (\<lambda>(h', status).
                let sch4 = sch3\<lparr>sc_heap := h'\<rparr>
                in if status \<noteq> 0 then bindE (TaskDestroy sch4 task) (\<lambda>sch5. Inr (sch5, Task_lost))
                   else Inr (sch4, Task_again)))))))"

definition ComputeExitStatus :: "sched_t \<Rightarrow> bool \<Rightarrow> run_status_e result" where
  "ComputeExitStatus sch had_fail =
     bindE (HeapIsEmpty (sched_heap sch)) (\<lambda>empty.
     if had_fail then Inr (if empty then FAILED_TASKS_EMPTY_SCHED else FAILED_TASKS_NON_EMPTY_SCHED)
     else Inr (if empty then SUCCESS else PAUSED))"

fun SchedRun_loop :: "nat \<Rightarrow> run_env \<Rightarrow> alloc \<Rightarrow> alloc \<Rightarrow> sched_t \<Rightarrow> bool \<Rightarrow> (sched_t \<times> run_status_e) result" where
  "SchedRun_loop 0 env apop apush sch had_fail = Inl Out_of_fuel"
| "SchedRun_loop (Suc fuel) env apop apush sch had_fail =
     bindE (if sc_stop_flag sch then Inr True else HeapIsEmpty (sched_heap sch)) (\<lambda>leave.
     if leave then bindE (ComputeExitStatus sch had_fail) (\<lambda>st. Inr (sch, st))
     else bindE (SchedRun_body fuel env apop apush sch) (\<lambda>(sch', how).
          case how of
            Task_failed \<Rightarrow> SchedRun_loop fuel env apop apush sch' True
          | Task_lost \<Rightarrow> Inr (sch', FAILED_ALLOC)
          | _ \<Rightarrow> SchedRun_loop fuel env apop apush sch' had_fail))"

definition SchedRun :: "nat \<Rightarrow> run_env \<Rightarrow> alloc \<Rightarrow> alloc \<Rightarrow> sched_t \<Rightarrow> (sched_t \<times> run_status_e) result" where
  "SchedRun fuel env apop apush sch = SchedRun_loop fuel env apop apush (sch\<lparr>sc_stop_flag := False\<rparr>) False"

section \<open>Identifiers are unique\<close>

lemma GetIPAddress_loop_short: "GetIPAddress_loop l = Some ip \<Longrightarrow> length ip \<le> 15"
  by (induction l) (auto split: option.splits if_splits prod.splits)

lemma UIDIsSame_iff: "UIDIsSame u v \<noteq> 0 \<longleftrightarrow> u_counter u = u_counter v \<and> u_timestamp u = u_timestamp v \<and>
    u_pid u = u_pid v \<and> take 16 (u_ip u) = take 16 (u_ip v)"
  by (simp add: UIDIsSame_def)

text \<open>\<open>n\<close> identifiers in a row, with what the outside answers each time.\<close>

fun uid_run :: "nat \<Rightarrow> (int \<times> int \<times> ifaddr list option) list \<Rightarrow> ilrd_uid_t list" where
  "uid_run counter [] = []"
| "uid_run counter ((now, pid, ifs) # es) = (let (c', u) = UIDCreate counter now pid ifs in u # uid_run c' es)"

lemma uid_run_counter:
  "counter + length es < 2 ^ 64 \<Longrightarrow> u \<in> set (uid_run counter es) \<Longrightarrow> UIDIsSame u UIDbadUID = 0 \<Longrightarrow>
   counter < u_counter u \<and> u_counter u \<le> counter + length es"
proof (induction es arbitrary: counter)
  case (Cons e es)
  obtain now pid ifs where e: "e = (now, pid, ifs)" by (cases e)
  have sz: "szadd counter 1 = counter + 1" using Cons.prems(1) by simp
  show ?case
  proof (cases "u \<in> set (uid_run (counter + 1) es)")
    case True
    with Cons.IH [of "counter + 1"] Cons.prems show ?thesis by auto
  next
    case False
    with Cons.prems(2) e sz have "u = snd (UIDCreate counter now pid ifs)" by (auto simp: UIDCreate_def Let_def split: option.splits)
    with Cons.prems(3) sz show ?thesis
      by (auto simp: UIDCreate_def Let_def UIDIsSame_def UIDbadUID_def split: option.splits)
  qed
qed simp

lemma uid_run_distinct:
  "counter + length es < 2 ^ 64 \<Longrightarrow>
   sorted_wrt (\<lambda>u v. UIDIsSame u UIDbadUID = 0 \<longrightarrow> UIDIsSame v UIDbadUID = 0 \<longrightarrow> UIDIsSame u v = 0) (uid_run counter es)"
proof (induction es arbitrary: counter)
  case (Cons e es)
  obtain now pid ifs where e: "e = (now, pid, ifs)" by (cases e)
  have sz: "szadd counter 1 = counter + 1" using Cons.prems by simp
  have "UIDIsSame (snd (UIDCreate counter now pid ifs)) v = 0"
    if v: "v \<in> set (uid_run (counter + 1) es)" "UIDIsSame v UIDbadUID = 0"
      "UIDIsSame (snd (UIDCreate counter now pid ifs)) UIDbadUID = 0" for v
    using uid_run_counter [of "counter + 1" es v] v Cons.prems sz
    by (auto simp: UIDCreate_def Let_def UIDIsSame_def split: option.splits)
  with Cons e sz show ?case by (auto simp: UIDCreate_def Let_def split: option.splits)
qed simp


section \<open>The scheduler's queue\<close>

interpretation task_order: cmp_order "WrapperTaskCmp tasks" for tasks
  by unfold_locales (auto simp: WrapperTaskCmp_def TaskCmp_def Let_def split: if_splits)

definition sched_inv :: "sched_t \<Rightarrow> bool" where
  "sched_inv s \<longleftrightarrow> heap_inv (sched_heap s) \<and> distinct (heap_elems (sc_heap s)) \<and>
     set (heap_elems (sc_heap s)) = dom (sc_tasks s) \<and> NULL \<notin> dom (sc_tasks s)"

lemma heap_elems_sched [simp]: "heap_elems (sched_heap s) = heap_elems (sc_heap s)"
  by (simp add: heap_elems_def sched_heap_def)

lemma heap_capacity_sched [simp]: "heap_capacity (sched_heap s) = heap_capacity (sc_heap s)"
  by (simp add: heap_capacity_def sched_heap_def)

lemma sched_heap_compare [simp]: "hp_compare (sched_heap s) = WrapperTaskCmp (sc_tasks s)"
  by (simp add: sched_heap_def)

lemma heap_inv_compare:
  assumes "heap_inv h" "\<And>x y. x \<in> set (heap_elems h) \<Longrightarrow> y \<in> set (heap_elems h) \<Longrightarrow> c x y = hp_compare h x y"
  shows "heap_inv (h\<lparr>hp_compare := c\<rparr>)"
proof -
  have "c (heap_elems h ! k) (heap_elems h ! PARENT k) = hp_compare h (heap_elems h ! k) (heap_elems h ! PARENT k)"
    if "k < length (heap_elems h)" "0 < k" for k
    using that PARENT_less [of k] by (intro assms(2)) auto
  moreover have "heap_elems (h\<lparr>hp_compare := c\<rparr>) = heap_elems h" by (simp add: heap_elems_def)
  ultimately show ?thesis using assms(1) by (auto simp: heap_inv_def heap_wf_def heap_prop_def)
qed

lemma WrapperTaskCmp_cong: "m x = m' x \<Longrightarrow> m y = m' y \<Longrightarrow> WrapperTaskCmp m x y = WrapperTaskCmp m' x y"
  by (simp add: WrapperTaskCmp_def task_at_def)

lemma sched_heap_retask:
  assumes "heap_inv h" "hp_compare h = WrapperTaskCmp m" "\<And>x. x \<in> set (heap_elems h) \<Longrightarrow> m' x = m x"
  shows "heap_inv (h\<lparr>hp_compare := WrapperTaskCmp m'\<rparr>)"
  using assms(1)
proof (rule heap_inv_compare)
  fix x y
  assume "x \<in> set (heap_elems h)" "y \<in> set (heap_elems h)"
  then show "WrapperTaskCmp m' x y = hp_compare h x y"
    using assms(2,3) by (simp add: WrapperTaskCmp_cong [of m' _ m])
qed

lemma mset_add_parts:
  assumes "mset xs = add_mset p (mset ys)"
  shows "set xs = insert p (set ys)" "distinct xs \<longleftrightarrow> p \<notin> set ys \<and> distinct ys"
proof -
  have eq: "mset xs = mset (p # ys)" using assms by simp
  show "set xs = insert p (set ys)" using mset_eq_setD [OF eq] by simp
  show "distinct xs \<longleftrightarrow> p \<notin> set ys \<and> distinct ys" using mset_eq_imp_distinct_iff [OF eq] by simp
qed

text \<open>A task is taken from the queue; its memory may be changed or freed before it comes back.\<close>

lemma sched_pop:
  assumes inv: "sched_inv s" and ne: "dom (sc_tasks s) \<noteq> {}"
  shows "\<exists>task t h. HeapPeek (sched_heap s) = Inr task \<and> HeapPop (Some junk) (sched_heap s) = Inr h \<and>
    sc_tasks s task = Some t \<and> task \<noteq> NULL \<and> heap_inv h \<and> hp_compare h = WrapperTaskCmp (sc_tasks s) \<and>
    distinct (heap_elems h) \<and> set (heap_elems h) = dom (sc_tasks s) - {task} \<and>
    length (heap_elems h) < heap_capacity h \<and>
    mset (heap_elems (sc_heap s)) = add_mset task (mset (heap_elems h)) \<and>
    (\<forall>q u. sc_tasks s q = Some u \<longrightarrow> t_time t \<le> t_time u)"
proof -
  let ?h = "sched_heap s"
  have hi: "heap_inv ?h" and ord: "cmp_order (hp_compare ?h)" and ne': "heap_elems ?h \<noteq> []"
    using inv ne by (auto simp: sched_inv_def task_order.cmp_order_axioms simp del: dom_eq_empty_conv)
  obtain h where h: "HeapPop (Some junk) ?h = Inr h" "heap_inv h" "hp_compare h = hp_compare ?h"
    "mset (heap_elems ?h) = add_mset (heap_elems ?h ! 0) (mset (heap_elems h))"
    using HeapPop_ok [OF hi ord ne'] by blast
  let ?p = "heap_elems ?h ! 0"
  have p: "?p \<in> set (heap_elems ?h)" using ne' by simp
  then have "?p \<in> dom (sc_tasks s)" "NULL \<notin> dom (sc_tasks s)" using inv by (simp_all add: sched_inv_def)
  then obtain t where t: "sc_tasks s ?p = Some t" "?p \<noteq> NULL" by (metis domD)
  note parts = mset_add_parts [OF h(4)]
  have first: "t_time t \<le> t_time u" if "sc_tasks s q = Some u" for q u
  proof -
    have "q \<in> set (heap_elems ?h)" using inv that by (auto simp: sched_inv_def)
    then have "WrapperTaskCmp (sc_tasks s) q ?p \<le> 0" using HeapPeek_ok [OF hi ord ne'] by simp
    with t that show ?thesis by (auto simp: WrapperTaskCmp_def TaskCmp_def task_at_def Let_def split: if_splits)
  qed
  show ?thesis
    using HeapPeek_ok [OF hi ord ne'] h t first parts HeapPop_room [OF hi ord ne' h(1)] inv
    by (intro exI [of _ ?p] exI [of _ t] exI [of _ h]) (auto simp: sched_inv_def)
qed

lemma load_task_ok: "sc_tasks s p = Some t \<Longrightarrow> p \<noteq> NULL \<Longrightarrow> load_task s p = Inr t"
  by (simp add: load_task_def)

lemma TaskDestroy_ok:
  "sc_tasks s p = Some t \<Longrightarrow> p \<noteq> NULL \<Longrightarrow>
   TaskDestroy s p = Inr (s\<lparr>sc_cleaned := sc_cleaned s @ [(t_cleanup t, t_cleanup_param t)], sc_tasks := (sc_tasks s)(p := None)\<rparr>)"
  by (simp add: TaskDestroy_def TaskCleanUp_def load_task_ok)

lemma sched_inv_drop:
  assumes "heap_inv h" "hp_compare h = WrapperTaskCmp m" "distinct (heap_elems h)" "set (heap_elems h) = dom m - {p}"
    "NULL \<notin> dom m" "sc_heap s = h" "sc_tasks s = m(p := None)"
  shows "sched_inv s"
proof -
  have "heap_inv (h\<lparr>hp_compare := WrapperTaskCmp (m(p := None))\<rparr>)"
    using assms(4) by (intro sched_heap_retask [OF assms(1,2)]) auto
  with assms show ?thesis by (auto simp: sched_inv_def sched_heap_def)
qed

lemma sched_push:
  assumes "heap_inv h" "hp_compare h = WrapperTaskCmp m" "distinct (heap_elems h)" "set (heap_elems h) = dom m - {p}"
    "NULL \<notin> dom m" "p \<noteq> NULL" "sc_heap s = h" "sc_tasks s = m(p \<mapsto> t)"
    "length (heap_elems h) = heap_capacity h \<longrightarrow> a \<noteq> None \<and> 16 * heap_capacity h < 2 ^ 64"
  shows "\<exists>h'. HeapPush a (sched_heap s) p = Inr (h', 0) \<and> sched_inv (s\<lparr>sc_heap := h'\<rparr>)"
proof -
  have hi: "heap_inv (sched_heap s)"
    using sched_heap_retask [OF assms(1,2), of "m(p \<mapsto> t)"] assms(4,7,8) by (auto simp: sched_heap_def)
  then obtain h' where h': "HeapPush a (sched_heap s) p = Inr (h', 0)" "heap_inv h'"
    "hp_compare h' = hp_compare (sched_heap s)" "mset (heap_elems h') = add_mset p (mset (heap_elems (sched_heap s)))"
    using HeapPush_ok [OF hi, of a p] assms(7,9) task_order.cmp_order_axioms by auto
  have "sched_heap (s\<lparr>sc_heap := h'\<rparr>) = h'" using h'(3) by (simp add: sched_heap_def)
  with h' mset_add_parts [OF h'(4)] assms show ?thesis by (auto simp: sched_inv_def)
qed

lemma SchedSize_ok: "sched_inv s \<Longrightarrow> SchedSize s = Inr (card (dom (sc_tasks s)))"
  by (auto simp: SchedSize_def sched_inv_def heap_inv_def HeapSize_eq distinct_card [symmetric])

lemma SchedIsEmpty_ok: "sched_inv s \<Longrightarrow> HeapIsEmpty (sched_heap s) = Inr (dom (sc_tasks s) = {})"
  by (auto simp: sched_inv_def heap_inv_def HeapIsEmpty_eq set_empty [symmetric] simp del: set_empty)

lemma SchedCreate_ok:
  "\<exists>s. SchedCreate True True True (Some junk) counter now = Some s \<and> sched_inv s \<and> sc_tasks s = Map.empty \<and>
     sc_counter s = counter \<and> sc_now s = now \<and> sc_cleaned s = [] \<and> \<not> sc_stop_flag s"
proof -
  from VectorCreate_ok [of 8 128 junk] obtain v where
    "VectorCreate True (Some junk) 128 8 = Some v" "vector_wf v" "v_element_size v = 8" "vector_elems v = []"
    by (auto simp: vector_abs_def)
  then show ?thesis
    by (simp add: SchedCreate_def HeapCreate_def sched_inv_def sched_heap_def heap_inv_def heap_wf_def
        heap_elems_def heap_prop_def)
qed

text \<open>A task is added under a fresh address, due at the current time plus its delay.\<close>

lemma SchedAdd_ok:
  assumes inv: "sched_inv s" and fns: "op \<noteq> NULL" "cl \<noteq> NULL" and ip: "GetIPAddress ifs = Some ip"
    and cnt: "sc_counter s + 1 < 2 ^ 64" and p: "sc_tasks s p = None" "p \<noteq> NULL"
    and room: "card (dom (sc_tasks s)) = heap_capacity (sc_heap s) \<longrightarrow> a \<noteq> None \<and> 16 * heap_capacity (sc_heap s) < 2 ^ 64"
  shows "\<exists>s' uid t. SchedAdd (Some p) a pid ifs s op prm delay cl clp = Inr (s', uid) \<and> sched_inv s' \<and>
    sc_tasks s' = (sc_tasks s)(p \<mapsto> t) \<and> t_uid t = uid \<and> UIDIsSame uid UIDbadUID = 0 \<and>
    u_counter uid = sc_counter s + 1 \<and> sc_counter s' = sc_counter s + 1 \<and>
    t_time t = sc_now s + to_time delay \<and> t_op t = op \<and> t_op_param t = prm \<and> t_cleanup t = cl \<and> t_cleanup_param t = clp \<and>
    sc_cleaned s' = sc_cleaned s \<and> sc_now s' = sc_now s"
proof -
  define uid where "uid = \<lparr>u_counter = sc_counter s + 1, u_timestamp = sc_now s, u_pid = pid, u_ip = ip\<rparr>"
  define t where "t = \<lparr>t_uid = uid, t_time = sc_now s + to_time delay, t_op = op, t_op_param = prm, t_cleanup = cl, t_cleanup_param = clp\<rparr>"
  have bad: "UIDIsSame uid UIDbadUID = 0" by (simp add: uid_def UIDIsSame_def UIDbadUID_def)
  have tc: "TaskCreate True (sc_counter s) (sc_now s) pid ifs op prm delay cl clp = Inr (sc_counter s + 1, Some t)"
    using fns ip cnt bad by (simp add: TaskCreate_def UIDCreate_def Let_def uid_def t_def)
  let ?s1 = "s\<lparr>sc_counter := sc_counter s + 1, sc_tasks := (sc_tasks s)(p \<mapsto> t)\<rparr>"
  have len: "length (heap_elems (sc_heap s)) = card (dom (sc_tasks s))"
    using inv distinct_card by (fastforce simp: sched_inv_def)
  have "\<exists>h'. HeapPush a (sched_heap ?s1) p = Inr (h', 0) \<and> sched_inv (?s1\<lparr>sc_heap := h'\<rparr>)"
  proof (cases "hp_vector (sc_heap s)")
    case None
    then show ?thesis using inv by (simp add: sched_inv_def heap_inv_def heap_wf_def sched_heap_def)
  next
    case (Some v)
    have "\<exists>h'. HeapPush a (sched_heap (?s1\<lparr>sc_heap := sched_heap s\<rparr>)) p = Inr (h', 0) \<and>
        sched_inv (?s1\<lparr>sc_heap := sched_heap s, sc_heap := h'\<rparr>)"
      using inv p room len
      by (intro sched_push [of "sched_heap s" "sc_tasks s" p _ t]) (auto simp: sched_inv_def)
    then show ?thesis by (simp add: sched_heap_def)
  qed
  then obtain h' where h': "HeapPush a (sched_heap ?s1) p = Inr (h', 0)" "sched_inv (?s1\<lparr>sc_heap := h'\<rparr>)" by blast
  let ?s2 = "?s1\<lparr>sc_heap := h'\<rparr>"
  have "SchedAdd (Some p) a pid ifs s op prm delay cl clp = Inr (?s2, uid)"
    using fns tc h'(1) by (simp add: SchedAdd_def TaskUID_def t_def)
  with h'(2) bad show ?thesis
    by (intro exI [of _ ?s2] exI [of _ uid] exI [of _ t]) (simp add: t_def uid_def)
qed

text \<open>Clearing runs every task's cleanup function exactly once and leaves no task.\<close>

definition cleanup_call :: "sched_t \<Rightarrow> ptr \<Rightarrow> ptr \<times> ptr" where
  "cleanup_call s p = (t_cleanup (task_at (sc_tasks s) p), t_cleanup_param (task_at (sc_tasks s) p))"

lemma SchedClear_ok:
  "sched_inv s \<Longrightarrow> card (dom (sc_tasks s)) < fuel \<Longrightarrow>
   \<exists>s'. SchedClear fuel (Some junk) s = Inr s' \<and> sched_inv s' \<and> sc_tasks s' = Map.empty \<and>
     mset (sc_cleaned s') = mset (sc_cleaned s) + image_mset (cleanup_call s) (mset_set (dom (sc_tasks s)))"
proof (induction fuel arbitrary: s)
  case (Suc fuel)
  have fin: "finite (dom (sc_tasks s))" using Suc.prems(1) by (metis sched_inv_def List.finite_set)
  show ?case
  proof (cases "dom (sc_tasks s) = {}")
    case True
    with Suc.prems show ?thesis by (simp add: SchedIsEmpty_ok)
  next
    case False
    obtain p t h where pop: "HeapPeek (sched_heap s) = Inr p" "HeapPop (Some junk) (sched_heap s) = Inr h"
      "sc_tasks s p = Some t" "p \<noteq> NULL" "heap_inv h" "hp_compare h = WrapperTaskCmp (sc_tasks s)"
      "distinct (heap_elems h)" "set (heap_elems h) = dom (sc_tasks s) - {p}"
      using sched_pop [OF Suc.prems(1) False] by blast
    let ?s1 = "s\<lparr>sc_heap := h, sc_cleaned := sc_cleaned s @ [(t_cleanup t, t_cleanup_param t)], sc_tasks := (sc_tasks s)(p := None)\<rparr>"
    have d: "TaskDestroy (s\<lparr>sc_heap := h\<rparr>) p = Inr ?s1" using pop by (simp add: TaskDestroy_ok)
    have inv1: "sched_inv ?s1"
      using pop Suc.prems(1) by (intro sched_inv_drop [of h "sc_tasks s" p]) (auto simp: sched_inv_def)
    have dom1: "dom (sc_tasks ?s1) = dom (sc_tasks s) - {p}" by auto
    have pin: "p \<in> dom (sc_tasks s)" using pop(3) by blast
    have "card (dom (sc_tasks ?s1)) < fuel" using Suc.prems(2) card_Diff1_less [OF fin pin] unfolding dom1 by linarith
    from Suc.IH [OF inv1 this] obtain s' where s': "SchedClear fuel (Some junk) ?s1 = Inr s'" "sched_inv s'"
      "sc_tasks s' = Map.empty" "mset (sc_cleaned s') = mset (sc_cleaned ?s1) + image_mset (cleanup_call ?s1) (mset_set (dom (sc_tasks ?s1)))"
      by blast
    have "image_mset (cleanup_call ?s1) (mset_set (dom (sc_tasks s) - {p})) = image_mset (cleanup_call s) (mset_set (dom (sc_tasks s) - {p}))"
      using fin by (intro image_mset_cong) (auto simp: cleanup_call_def task_at_def)
    moreover have "mset_set (dom (sc_tasks s)) = add_mset p (mset_set (dom (sc_tasks s) - {p}))"
      using mset_set.remove [OF fin pin] by simp
    ultimately have "mset (sc_cleaned s') = mset (sc_cleaned s) + image_mset (cleanup_call s) (mset_set (dom (sc_tasks s)))"
      using s'(4) dom1 pop(3) by (simp add: cleanup_call_def task_at_def)
    with s' pop(1,2) d False Suc.prems(1) show ?thesis by (simp add: SchedIsEmpty_ok)
  qed
qed simp

text \<open>\<open>HeapRemove\<close> takes out an element on which the callback answers 0, and the wrapper answers 1
  on the wanted task: the task that goes is one with another identifier.\<close>

lemma SchedRemove_wrong:
  assumes inv: "sched_inv s"
  shows "(\<forall>p t. sc_tasks s p = Some t \<longrightarrow> UIDIsSame (t_uid t) uid \<noteq> 0) \<and> SchedRemove (Some junk) s uid = Inr (s\<lparr>sc_heap := sched_heap s\<rparr>, 1) \<or>
    (\<exists>p t s'. sc_tasks s p = Some t \<and> UIDIsSame (t_uid t) uid = 0 \<and> SchedRemove (Some junk) s uid = Inr (s', 0) \<and>
      sc_tasks s' = (sc_tasks s)(p := None) \<and> sched_inv s')"
proof -
  let ?mt = "WrapperTaskIsMatch (sc_tasks s) uid"
  have hi: "heap_inv (sched_heap s)" and ord: "cmp_order (hp_compare (sched_heap s))"
    using inv by (auto simp: sched_inv_def task_order.cmp_order_axioms)
  have mt: "?mt p NULL = UIDIsSame (t_uid t) uid" if "sc_tasks s p = Some t" for p t
    using that by (simp add: WrapperTaskIsMatch_def TaskIsMatch_def task_at_def)
  from HeapRemove_ok [OF hi ord, of ?mt NULL junk] show ?thesis
  proof (elim disjE conjE exE)
    assume all: "\<forall>e\<in>set (heap_elems (sched_heap s)). ?mt e NULL \<noteq> 0"
      and r: "HeapRemove (Some junk) (sched_heap s) NULL ?mt = Inr (sched_heap s, NULL)"
    have "UIDIsSame (t_uid t) uid \<noteq> 0" if "sc_tasks s p = Some t" for p t
      using all mt [OF that] that inv by (auto simp: sched_inv_def)
    with r show ?thesis by (auto simp: SchedRemove_def)
  next
    fix h' e
    assume r: "HeapRemove (Some junk) (sched_heap s) NULL ?mt = Inr (h', e)" "?mt e NULL = 0" "heap_inv h'"
      "hp_compare h' = hp_compare (sched_heap s)" "mset (heap_elems (sched_heap s)) = add_mset e (mset (heap_elems h'))"
    note parts = mset_add_parts [OF r(5)]
    then have "e \<in> dom (sc_tasks s)" using inv by (auto simp: sched_inv_def)
    then obtain t where t: "sc_tasks s e = Some t" "e \<noteq> NULL" using inv by (auto simp: sched_inv_def)
    let ?s' = "s\<lparr>sc_heap := h', sc_cleaned := sc_cleaned s @ [(t_cleanup t, t_cleanup_param t)], sc_tasks := (sc_tasks s)(e := None)\<rparr>"
    have "SchedRemove (Some junk) s uid = Inr (?s', 0)" using r(1) t by (simp add: SchedRemove_def TaskDestroy_ok)
    moreover have "sched_inv ?s'"
      using r parts inv by (intro sched_inv_drop [of h' "sc_tasks s" e]) (auto simp: sched_inv_def)
    ultimately show ?thesis using t r(2) mt [OF t(1)] by (intro disjI2 exI [of _ e] exI [of _ t] exI [of _ ?s']) simp
  qed
qed


section \<open>Running\<close>

text \<open>
  What the manual pages promise of the outside: the clock does not go back, \<open>sleep\<close> answers at
  most what was asked and at least what is missing, a task's function asks for a delay below
  \<open>2 ^ 32\<close> seconds.
\<close>

definition env_ok :: "run_env \<Rightarrow> bool" where
  "env_ok env \<longleftrightarrow>
     (\<forall>now n. now \<le> fst (re_sleep env now n) \<and> now + int n \<le> fst (re_sleep env now n) + int (snd (re_sleep env now n)) \<and>
        snd (re_sleep env now n) \<le> n) \<and>
     (\<forall>f p now. now \<le> fst (re_op env f p now) \<and> fst (snd (re_op env f p now)) < 2 ^ 32)"

text \<open>No task is due so far ahead that \<open>sleep\<close> would not get the number of seconds.\<close>

definition near_future :: "sched_t \<Rightarrow> bool" where
  "near_future s \<longleftrightarrow> (\<forall>p t. sc_tasks s p = Some t \<longrightarrow> t_time t < sc_now s + 2 ^ 32)"

lemma sleep_loop_wakes:
  "env_ok env \<Longrightarrow> n < 2 ^ 32 \<Longrightarrow> sleep_loop fuel env now n = Inr now' \<Longrightarrow> now + int n \<le> now' \<and> now \<le> now'"
proof (induction fuel arbitrary: now n)
  case (Suc fuel)
  obtain now1 r where slp: "re_sleep env now n = (now1, r)" by (cases "re_sleep env now n")
  with Suc.prems(1) have b: "now \<le> now1" "now + int n \<le> now1 + int r" "r \<le> n"
    unfolding env_ok_def by (metis fst_conv snd_conv)+
  show ?case
  proof (cases "n = 0")
    case True
    with Suc.prems show ?thesis by simp
  next
    case False
    with Suc.prems slp have "sleep_loop fuel env now1 r = Inr now'" by simp
    with Suc.IH [OF Suc.prems(1), of r now1] b Suc.prems(2) have "now1 + int r \<le> now' \<and> now1 \<le> now'" by simp
    with b show ?thesis by linarith
  qed
qed simp

lemma sleep_loop_fault: "sleep_loop fuel env now n = Inl e \<Longrightarrow> e = Out_of_fuel"
  by (induction fuel arbitrary: now n) (auto split: if_splits prod.splits)

text \<open>
  One round: the task with the earliest time runs, not before that time; it is dropped and cleaned
  up, or due again later. The push never needs memory, since the pop left room.
\<close>

lemma SchedRun_body_ok:
  assumes inv: "sched_inv s" and ne: "dom (sc_tasks s) \<noteq> {}" and env: "env_ok env" and near: "near_future s"
  shows "SchedRun_body fuel env (Some junk) apush s = Inl Out_of_fuel \<and>
      (\<exists>p t. sc_tasks s p = Some t \<and> sleep_loop fuel env (sc_now s) (TaskGetTimeToRun (sc_now s) t) = Inl Out_of_fuel) \<or>
    (\<exists>s' how p t start. SchedRun_body fuel env (Some junk) apush s = Inr (s', how) \<and> how \<noteq> Task_lost \<and>
      sched_inv s' \<and> near_future s' \<and> sc_tasks s p = Some t \<and> (\<forall>q u. sc_tasks s q = Some u \<longrightarrow> t_time t \<le> t_time u) \<and>
      sc_ran s' = sc_ran s @ [(p, t_time t, start)] \<and> t_time t \<le> start \<and> sc_now s \<le> sc_now s' \<and>
      (\<forall>q. q \<noteq> p \<longrightarrow> sc_tasks s' q = sc_tasks s q) \<and>
      (if how = Task_again then (\<exists>t'. sc_tasks s' p = Some t' \<and> t_time t \<le> t_time t' \<and> t_uid t' = t_uid t) \<and> sc_cleaned s' = sc_cleaned s \<and>
          0 < fst (snd (re_op env (t_op t) (t_op_param t) start))
       else sc_tasks s' p = None \<and> sc_cleaned s' = sc_cleaned s @ [cleanup_call s p]))"
proof -
  obtain p t h where pop: "HeapPeek (sched_heap s) = Inr p" "HeapPop (Some junk) (sched_heap s) = Inr h"
    "sc_tasks s p = Some t" "p \<noteq> NULL" "heap_inv h" "hp_compare h = WrapperTaskCmp (sc_tasks s)"
    "distinct (heap_elems h)" "set (heap_elems h) = dom (sc_tasks s) - {p}" "length (heap_elems h) < heap_capacity h"
    "\<forall>q u. sc_tasks s q = Some u \<longrightarrow> t_time t \<le> t_time u"
    using sched_pop [OF inv ne] by blast
  have null: "NULL \<notin> dom (sc_tasks s)" using inv by (simp add: sched_inv_def)
  let ?n = "TaskGetTimeToRun (sc_now s) t"
  have n: "?n < 2 ^ 32" "t_time t \<le> sc_now s + int ?n"
    using near pop(3) by (force simp: near_future_def TaskGetTimeToRun_def Let_def)+
  show ?thesis
  proof (cases "sleep_loop fuel env (sc_now s) ?n")
    case (Inl e)
    then have "SchedRun_body fuel env (Some junk) apush s = Inl Out_of_fuel"
      using pop sleep_loop_fault [OF Inl] by (simp add: SchedRun_body_def load_task_def Let_def)
    with pop(3) Inl sleep_loop_fault [OF Inl] show ?thesis by blast
  next
    case (Inr now1)
    have wake: "sc_now s \<le> now1" "t_time t \<le> now1" using sleep_loop_wakes [OF env n(1) Inr] n(2) by linarith+
    obtain now2 res stop where run: "re_op env (t_op t) (t_op_param t) now1 = (now2, res, stop)"
      by (cases "re_op env (t_op t) (t_op_param t) now1")
    have clock: "now1 \<le> now2" "res < 2 ^ 32" using env run unfolding env_ok_def by (metis fst_conv snd_conv)+
    let ?s2 = "s\<lparr>sc_heap := h, sc_now := now2, sc_stop_flag := sc_stop_flag s \<or> stop,
                  sc_ran := sc_ran s @ [(p, t_time t, now1)]\<rparr>"
    let ?gone = "?s2\<lparr>sc_cleaned := sc_cleaned s @ [(t_cleanup t, t_cleanup_param t)], sc_tasks := (sc_tasks s)(p := None)\<rparr>"
    have near': "near_future s'" if "sc_now s' = now2" "\<And>q u. q \<noteq> p \<Longrightarrow> sc_tasks s' q = Some u \<Longrightarrow> sc_tasks s q = Some u"
      "\<And>u. sc_tasks s' p = Some u \<Longrightarrow> t_time u < now2 + 2 ^ 32" for s'
      unfolding near_future_def
    proof (intro allI impI)
      fix q u
      assume q: "sc_tasks s' q = Some u"
      show "t_time u < sc_now s' + 2 ^ 32"
      proof (cases "q = p")
        case False
        then have "t_time u < sc_now s + 2 ^ 32" using near that(2) [OF False q] by (simp add: near_future_def)
        then show ?thesis using that(1) wake(1) clock(1) by linarith
      qed (use q that in simp)
    qed
    show ?thesis
    proof (cases "res \<le> 0")
      case True
      define how where "how = (if res < 0 then Task_failed else Task_done)"
      have "SchedRun_body fuel env (Some junk) apush s = Inr (?gone, how)"
        using pop Inr run True by (auto simp: SchedRun_body_def load_task_def TaskRun_def TaskDestroy_ok how_def Let_def)
      moreover have "sched_inv ?gone" by (rule sched_inv_drop [OF pop(5-8) null]) simp_all
      moreover have "near_future ?gone" by (rule near') auto
      ultimately show ?thesis
        using pop wake clock
        by (intro disjI2 exI [of _ ?gone] exI [of _ how] exI [of _ p] exI [of _ t] exI [of _ now1])
          (auto simp: how_def cleanup_call_def task_at_def)
    next
      case False
      let ?t' = "t\<lparr>t_time := now2 + res\<rparr>"
      let ?s3 = "?s2\<lparr>sc_tasks := (sc_tasks s)(p \<mapsto> ?t')\<rparr>"
      have set: "TaskSetTimeToRun ?s2 p (nat res) = Inr ?s3"
        using pop(3,4) False clock(2) by (simp add: TaskSetTimeToRun_def load_task_def to_time_def)
      obtain h' where h': "HeapPush apush (sched_heap ?s3) p = Inr (h', 0)" "sched_inv (?s3\<lparr>sc_heap := h'\<rparr>)"
        using sched_push [OF pop(5-8) null pop(4), of ?s3 ?t' apush] pop(9) by auto
      let ?s4 = "?s3\<lparr>sc_heap := h'\<rparr>"
      have "SchedRun_body fuel env (Some junk) apush s = Inr (?s4, Task_again)"
        using pop Inr run False set h'(1) by (simp add: SchedRun_body_def load_task_def TaskRun_def Let_def)
      moreover have "near_future ?s4" using clock by (intro near') auto
      ultimately show ?thesis
        using pop wake clock h'(2) False run
        by (intro disjI2 exI [of _ ?s4] exI [of _ Task_again] exI [of _ p] exI [of _ t] exI [of _ now1]) auto
    qed
  qed
qed

text \<open>What a whole run does, whatever the tasks do and however the heap's \<open>realloc\<close> answers a push.\<close>

definition due :: "ptr \<times> int \<times> int \<Rightarrow> int" where
  "due r = fst (snd r)"

definition started :: "ptr \<times> int \<times> int \<Rightarrow> int" where
  "started r = snd (snd r)"

definition status_fits :: "sched_t \<Rightarrow> run_status_e \<Rightarrow> bool" where
  "status_fits s st \<longleftrightarrow>
     (case st of SUCCESS \<Rightarrow> sc_tasks s = Map.empty
      | PAUSED \<Rightarrow> sc_tasks s \<noteq> Map.empty \<and> sc_stop_flag s
      | FAILED_TASKS_EMPTY_SCHED \<Rightarrow> sc_tasks s = Map.empty
      | FAILED_TASKS_NON_EMPTY_SCHED \<Rightarrow> sc_tasks s \<noteq> Map.empty \<and> sc_stop_flag s
      | FAILED_ALLOC \<Rightarrow> False)"

lemma ComputeExitStatus_ok:
  "sched_inv s \<Longrightarrow> ComputeExitStatus s f =
     Inr (if f then if sc_tasks s = Map.empty then FAILED_TASKS_EMPTY_SCHED else FAILED_TASKS_NON_EMPTY_SCHED
          else if sc_tasks s = Map.empty then SUCCESS else PAUSED)"
  by (simp add: ComputeExitStatus_def SchedIsEmpty_ok)

lemma SchedRun_loop_ok:
  "sched_inv s \<Longrightarrow> env_ok env \<Longrightarrow> near_future s \<Longrightarrow> (\<And>q u. sc_tasks s q = Some u \<Longrightarrow> low \<le> t_time u) \<Longrightarrow>
   SchedRun_loop fuel env (Some junk) apush s f = Inl Out_of_fuel \<or>
   (\<exists>s' st log. SchedRun_loop fuel env (Some junk) apush s f = Inr (s', st) \<and> sched_inv s' \<and> status_fits s' st \<and>
     sc_ran s' = sc_ran s @ log \<and> sorted (map due log) \<and> (\<forall>r \<in> set log. low \<le> due r \<and> due r \<le> started r))"
proof (induction fuel arbitrary: s f low)
  case (Suc fuel)
  show ?case
  proof (cases "sc_stop_flag s \<or> dom (sc_tasks s) = {}")
    case True
    define st where "st = (if f then if sc_tasks s = Map.empty then FAILED_TASKS_EMPTY_SCHED else FAILED_TASKS_NON_EMPTY_SCHED
          else if sc_tasks s = Map.empty then SUCCESS else PAUSED)"
    have "SchedRun_loop (Suc fuel) env (Some junk) apush s f = Inr (s, st)"
      using True Suc.prems(1) by (auto simp: SchedIsEmpty_ok ComputeExitStatus_ok st_def)
    moreover have "status_fits s st" using True by (auto simp: st_def status_fits_def)
    ultimately show ?thesis using Suc.prems(1) by auto
  next
    case False
    then have ne: "dom (sc_tasks s) \<noteq> {}" by simp
    have unfold: "SchedRun_loop (Suc fuel) env (Some junk) apush s f =
        bindE (SchedRun_body fuel env (Some junk) apush s) (\<lambda>(s', how). case how of
            Task_failed \<Rightarrow> SchedRun_loop fuel env (Some junk) apush s' True
          | Task_lost \<Rightarrow> Inr (s', FAILED_ALLOC)
          | _ \<Rightarrow> SchedRun_loop fuel env (Some junk) apush s' f)"
      using False Suc.prems(1) by (simp add: SchedIsEmpty_ok del: dom_eq_empty_conv)
    from SchedRun_body_ok [OF Suc.prems(1) ne Suc.prems(2,3), of fuel junk apush] show ?thesis
    proof (elim disjE exE conjE)
      fix s1 how p t start
      assume b: "SchedRun_body fuel env (Some junk) apush s = Inr (s1, how)" "how \<noteq> Task_lost" "sched_inv s1" "near_future s1"
        "sc_tasks s p = Some t" "\<forall>q u. sc_tasks s q = Some u \<longrightarrow> t_time t \<le> t_time u"
        "sc_ran s1 = sc_ran s @ [(p, t_time t, start)]" "t_time t \<le> start"
        "\<forall>q. q \<noteq> p \<longrightarrow> sc_tasks s1 q = sc_tasks s q"
        "if how = Task_again then (\<exists>t'. sc_tasks s1 p = Some t' \<and> t_time t \<le> t_time t' \<and> t_uid t' = t_uid t) \<and> sc_cleaned s1 = sc_cleaned s \<and>
            0 < fst (snd (re_op env (t_op t) (t_op_param t) start))
         else sc_tasks s1 p = None \<and> sc_cleaned s1 = sc_cleaned s @ [cleanup_call s p]"
      have low1: "t_time t \<le> t_time u" if "sc_tasks s1 q = Some u" for q u
        using that b(6,9,10) by (cases "q = p") (auto split: if_splits)
      define f' where "f' = (if how = Task_failed then True else f)"
      have go: "SchedRun_loop (Suc fuel) env (Some junk) apush s f = SchedRun_loop fuel env (Some junk) apush s1 f'"
        unfolding unfold f'_def using b(1,2) by (auto split: round_end.splits)
      have lowt: "low \<le> t_time t" by (rule Suc.prems(4) [OF b(5)])
      have "SchedRun_loop fuel env (Some junk) apush s1 f' = Inl Out_of_fuel \<or>
        (\<exists>s' st log. SchedRun_loop fuel env (Some junk) apush s1 f' = Inr (s', st) \<and> sched_inv s' \<and> status_fits s' st \<and>
         sc_ran s' = sc_ran s1 @ log \<and> sorted (map due log) \<and> (\<forall>r \<in> set log. t_time t \<le> due r \<and> due r \<le> started r))"
        using Suc.IH [OF b(3) Suc.prems(2) b(4) low1] .
      then show ?thesis
      proof (elim disjE exE conjE)
        fix s' st log
        assume l: "SchedRun_loop fuel env (Some junk) apush s1 f' = Inr (s', st)" "sched_inv s'" "status_fits s' st"
          "sc_ran s' = sc_ran s1 @ log" "sorted (map due log)" "\<forall>r \<in> set log. t_time t \<le> due r \<and> due r \<le> started r"
        let ?log = "(p, t_time t, start) # log"
        have "sorted (map due ?log)" using l(5,6) by (auto simp: due_def)
        moreover have "\<forall>r \<in> set ?log. low \<le> due r \<and> due r \<le> started r"
          using l(6) lowt b(8) by (auto simp: due_def started_def)
        ultimately show ?thesis using go l b(7) by (intro disjI2 exI [of _ s'] exI [of _ st] exI [of _ ?log]) simp
      qed (use go in simp)
    qed (use unfold in simp)
  qed
qed simp

lemma SchedRun_ok:
  assumes "sched_inv s" "env_ok env" "near_future s"
  shows "SchedRun fuel env (Some junk) apush s = Inl Out_of_fuel \<or>
   (\<exists>s' st log. SchedRun fuel env (Some junk) apush s = Inr (s', st) \<and> sched_inv s' \<and> status_fits s' st \<and>
     sc_ran s' = sc_ran s @ log \<and> sorted (map due log) \<and> (\<forall>r \<in> set log. due r \<le> started r))"
proof -
  have fin: "finite (dom (sc_tasks s))" using assms(1) by (metis sched_inv_def List.finite_set)
  define low where "low = Min ((\<lambda>p. t_time (task_at (sc_tasks s) p)) ` dom (sc_tasks s))"
  have low: "low \<le> t_time u" if "sc_tasks s q = Some u" for q u
  proof -
    have "t_time u \<in> (\<lambda>p. t_time (task_at (sc_tasks s) p)) ` dom (sc_tasks s)"
      using that by (intro image_eqI [of _ _ q]) (auto simp: task_at_def)
    then show ?thesis unfolding low_def using fin by (intro Min_le) auto
  qed
  let ?s = "s\<lparr>sc_stop_flag := False\<rparr>"
  have "sched_inv ?s" "near_future ?s" using assms by (simp_all add: sched_inv_def sched_heap_def near_future_def)
  from SchedRun_loop_ok [of ?s env low fuel junk apush False, OF this(1) assms(2) this(2)] low show ?thesis
    unfolding SchedRun_def by fastforce
qed


text \<open>
  Tasks that do not ask to run again: the run returns. A round costs one unit of fuel, a sleep at
  most the seconds to wait, which are below \<open>2 ^ 32\<close>.
\<close>

definition sleep_progress :: "run_env \<Rightarrow> bool" where
  "sleep_progress env \<longleftrightarrow> (\<forall>now n. 0 < n \<longrightarrow> snd (re_sleep env now n) < n)"

definition one_shot :: "run_env \<Rightarrow> bool" where
  "one_shot env \<longleftrightarrow> (\<forall>f p now. fst (snd (re_op env f p now)) \<le> 0)"

lemma sleep_loop_returns:
  "sleep_progress env \<Longrightarrow> n < 2 ^ 32 \<Longrightarrow> n < fuel \<Longrightarrow> \<exists>now'. sleep_loop fuel env now n = Inr now'"
proof (induction fuel arbitrary: now n)
  case (Suc fuel)
  show ?case
  proof (cases "n = 0")
    case False
    obtain now1 r where slp: "re_sleep env now n = (now1, r)" by (cases "re_sleep env now n")
    with Suc.prems(1) False have r: "r < n" unfolding sleep_progress_def by (metis snd_conv not_gr_zero)
    with Suc.IH [OF Suc.prems(1), of r now1] Suc.prems slp False show ?thesis by simp
  qed simp
qed simp

lemma SchedRun_loop_returns:
  "sched_inv s \<Longrightarrow> env_ok env \<Longrightarrow> near_future s \<Longrightarrow> sleep_progress env \<Longrightarrow> one_shot env \<Longrightarrow>
   card (dom (sc_tasks s)) + 2 ^ 32 < fuel \<Longrightarrow>
   \<exists>s' st. SchedRun_loop fuel env (Some junk) apush s f = Inr (s', st)"
proof (induction fuel arbitrary: s f)
  case (Suc fuel)
  show ?case
  proof (cases "sc_stop_flag s \<or> dom (sc_tasks s) = {}")
    case True
    with Suc.prems(1) show ?thesis by (auto simp: SchedIsEmpty_ok ComputeExitStatus_ok)
  next
    case False
    then have ne: "dom (sc_tasks s) \<noteq> {}" by simp
    have fin: "finite (dom (sc_tasks s))" using Suc.prems(1) by (metis sched_inv_def List.finite_set)
    have "0 < card (dom (sc_tasks s))" using fin ne card_gt_0_iff by blast
    with Suc.prems(6) have room: "2 ^ 32 < fuel" by linarith
    have wakes: "sleep_loop fuel env (sc_now s) (TaskGetTimeToRun (sc_now s) t) \<noteq> Inl Out_of_fuel"
      if "sc_tasks s p = Some t" for p t
    proof -
      have "t_time t < sc_now s + 2 ^ 32" using that Suc.prems(3) by (simp add: near_future_def)
      then have "TaskGetTimeToRun (sc_now s) t < 2 ^ 32" by (simp add: TaskGetTimeToRun_def Let_def)
      with sleep_loop_returns [OF Suc.prems(4) this, of fuel "sc_now s"] room show ?thesis by auto
    qed
    obtain s1 how p t where b: "SchedRun_body fuel env (Some junk) apush s = Inr (s1, how)" "how \<noteq> Task_lost"
      "sched_inv s1" "near_future s1" "sc_tasks s p = Some t" "\<forall>q. q \<noteq> p \<longrightarrow> sc_tasks s1 q = sc_tasks s q"
      "if how = Task_again then \<exists>now. 0 < fst (snd (re_op env (t_op t) (t_op_param t) now)) else sc_tasks s1 p = None"
      using SchedRun_body_ok [OF Suc.prems(1) ne Suc.prems(2,3), of fuel junk apush] wakes
      by (elim disjE conjE exE) (blast, rule that, assumption+, auto split: if_splits)
    have "sc_tasks s1 p = None" using b(7) Suc.prems(5) unfolding one_shot_def by (metis linorder_not_less)
    then have "dom (sc_tasks s1) = dom (sc_tasks s) - {p}" using b(6) by (auto simp: dom_def) (metis option.distinct(1))+
    then have "card (dom (sc_tasks s1)) + 2 ^ 32 < fuel"
      using card_Diff1_less [OF fin, of p] b(5) Suc.prems(6) by fastforce
    from Suc.IH [OF b(3) Suc.prems(2) b(4) Suc.prems(4,5) this] have rest: "\<exists>s' st. SchedRun_loop fuel env (Some junk) apush s1 f' = Inr (s', st)" for f' .
    show ?thesis
      using False Suc.prems(1) b(1,2) rest by (cases how) (simp_all add: SchedIsEmpty_ok del: dom_eq_empty_conv)
  qed
qed simp

lemma SchedRun_returns:
  assumes "sched_inv s" "env_ok env" "near_future s" "sleep_progress env" "one_shot env"
    "card (dom (sc_tasks s)) + 2 ^ 32 < fuel"
  shows "\<exists>s' st. SchedRun fuel env (Some junk) apush s = Inr (s', st)"
  unfolding SchedRun_def using assms
  by (intro SchedRun_loop_returns) (simp_all add: sched_inv_def sched_heap_def near_future_def)

end
