(* ===== verification/Arrays.thy ===== *)
theory Arrays
  imports Prelude
begin

text \<open>
  Arrays of \<open>int\<close> as the sorting code uses them: reads and writes by index, out of bounds being a
  bad access, and the vocabulary of the correctness statements (windows, sorted ranges,
  rearrangements of a window).
\<close>

definition aget :: "'a list \<Rightarrow> nat \<Rightarrow> 'a result" where
  "aget xs i = (if i < length xs then Inr (xs ! i) else Inl Bad_access)"

definition aset :: "'a list \<Rightarrow> nat \<Rightarrow> 'a \<Rightarrow> 'a list result" where
  "aset xs i v = (if i < length xs then Inr (xs[i := v]) else Inl Bad_access)"

lemma aget_ok [simp]: "i < length xs \<Longrightarrow> aget xs i = Inr (xs ! i)"
  by (simp add: aget_def)

lemma aset_ok [simp]: "i < length xs \<Longrightarrow> aset xs i v = Inr (xs[i := v])"
  by (simp add: aset_def)

lemma aget_Inr_iff: "aget xs i = Inr v \<longleftrightarrow> i < length xs \<and> v = xs ! i"
  by (auto simp: aget_def)

lemma aset_Inr_iff: "aset xs i v = Inr ys \<longleftrightarrow> i < length xs \<and> ys = xs[i := v]"
  by (auto simp: aset_def)

text \<open>The elements from \<open>lo\<close> up to but not including \<open>hi\<close>.\<close>

definition slice :: "'a list \<Rightarrow> nat \<Rightarrow> nat \<Rightarrow> 'a list" where
  "slice xs lo hi = take (hi - lo) (drop lo xs)"

definition sorted_in :: "nat \<Rightarrow> nat \<Rightarrow> 'a::linorder list \<Rightarrow> bool" where
  "sorted_in lo hi xs \<longleftrightarrow> (\<forall>i j. lo \<le> i \<longrightarrow> i < j \<longrightarrow> j < hi \<longrightarrow> xs ! i \<le> xs ! j)"

text \<open>\<open>ys\<close> is \<open>xs\<close> with the elements of the window rearranged.\<close>

definition perm_within :: "nat \<Rightarrow> nat \<Rightarrow> 'a list \<Rightarrow> 'a list \<Rightarrow> bool" where
  "perm_within lo hi xs ys \<longleftrightarrow> length ys = length xs \<and> mset ys = mset xs \<and>
     (\<forall>k < length xs. k < lo \<or> hi \<le> k \<longrightarrow> ys ! k = xs ! k)"

lemma length_slice [simp]: "hi \<le> length xs \<Longrightarrow> length (slice xs lo hi) = hi - lo"
  by (simp add: slice_def)

lemma nth_slice: "lo + k < hi \<Longrightarrow> hi \<le> length xs \<Longrightarrow> slice xs lo hi ! k = xs ! (lo + k)"
  by (simp add: slice_def)

lemma slice_empty [simp]: "hi \<le> lo \<Longrightarrow> slice xs lo hi = []"
  by (simp add: slice_def)

lemma slice_Cons: "lo < hi \<Longrightarrow> hi \<le> length xs \<Longrightarrow> slice xs lo hi = xs ! lo # slice xs (Suc lo) hi"
  by (simp add: slice_def Cons_nth_drop_Suc [symmetric] Suc_diff_Suc [symmetric])

lemma slice_append: "lo \<le> m \<Longrightarrow> m \<le> hi \<Longrightarrow> slice xs lo m @ slice xs m hi = slice xs lo hi"
proof -
  assume "lo \<le> m" "m \<le> hi"
  then have "hi - lo = (m - lo) + (hi - m)" "drop (m - lo) (drop lo xs) = drop m xs" by simp_all
  then show ?thesis unfolding slice_def using take_add [of "m - lo" "hi - m" "drop lo xs"] by simp
qed

lemma slice_0: "slice xs 0 n = take n xs"
  by (simp add: slice_def)

lemma split3: "lo \<le> hi \<Longrightarrow> hi \<le> length xs \<Longrightarrow> take lo xs @ slice xs lo hi @ drop hi xs = xs"
proof -
  assume "lo \<le> hi" "hi \<le> length xs"
  then have "slice xs lo hi @ drop hi xs = drop lo xs"
    unfolding slice_def using append_take_drop_id [of "hi - lo" "drop lo xs"] by simp
  then show ?thesis by simp
qed

lemma sorted_in_slice: "hi \<le> length xs \<Longrightarrow> sorted (slice xs lo hi) \<longleftrightarrow> sorted_in lo hi xs"
proof -
  assume hi: "hi \<le> length xs"
  show ?thesis
  proof
    assume s: "sorted (slice xs lo hi)"
    show "sorted_in lo hi xs"
      unfolding sorted_in_def
    proof (intro allI impI)
      fix i j
      assume "lo \<le> i" "i < j" "j < hi"
      then show "xs ! i \<le> xs ! j"
        using sorted_nth_mono [OF s, of "i - lo" "j - lo"] hi by (simp add: nth_slice)
    qed
  next
    assume s: "sorted_in lo hi xs"
    then show "sorted (slice xs lo hi)"
      using hi by (auto simp: sorted_iff_nth_mono_less nth_slice sorted_in_def)
  qed
qed

lemma sorted_in_mono: "sorted_in lo hi xs \<Longrightarrow> lo \<le> lo' \<Longrightarrow> hi' \<le> hi \<Longrightarrow> sorted_in lo' hi' xs"
  by (auto simp: sorted_in_def)

lemma sorted_in_small [simp]: "hi \<le> Suc lo \<Longrightarrow> sorted_in lo hi xs"
  by (auto simp: sorted_in_def)

lemma sorted_in_adjacent:
  assumes "\<And>k. lo \<le> k \<Longrightarrow> Suc k < hi \<Longrightarrow> xs ! k \<le> xs ! Suc k"
  shows "sorted_in lo hi xs"
proof -
  have "j < hi \<Longrightarrow> lo \<le> i \<Longrightarrow> i < j \<Longrightarrow> xs ! i \<le> xs ! j" for i j
  proof (induction j)
    case (Suc j)
    with assms [of j] show ?case by (cases "i = j") fastforce+
  qed simp
  then show ?thesis by (auto simp: sorted_in_def)
qed

lemma perm_within_refl [simp]: "perm_within lo hi xs xs"
  by (simp add: perm_within_def)

lemma perm_within_trans: "perm_within lo hi xs ys \<Longrightarrow> perm_within lo hi ys zs \<Longrightarrow> perm_within lo hi xs zs"
  by (simp add: perm_within_def)

lemma perm_within_mono: "perm_within lo hi xs ys \<Longrightarrow> lo' \<le> lo \<Longrightarrow> hi \<le> hi' \<Longrightarrow> perm_within lo' hi' xs ys"
  by (auto simp: perm_within_def)

lemma perm_within_length: "perm_within lo hi xs ys \<Longrightarrow> length ys = length xs"
  by (simp add: perm_within_def)

lemma perm_within_outside:
  "perm_within lo hi xs ys \<Longrightarrow> k < length xs \<Longrightarrow> k < lo \<or> hi \<le> k \<Longrightarrow> ys ! k = xs ! k"
  by (auto simp: perm_within_def)

lemma perm_within_swap:
  "i < length xs \<Longrightarrow> j < length xs \<Longrightarrow> lo \<le> i \<Longrightarrow> i < hi \<Longrightarrow> lo \<le> j \<Longrightarrow> j < hi \<Longrightarrow>
   perm_within lo hi xs (xs[i := xs ! j, j := xs ! i])"
  by (auto simp: perm_within_def mset_swap nth_list_update)

lemma perm_within_parts:
  assumes "perm_within lo hi xs ys" "lo \<le> hi" "hi \<le> length xs"
  shows "take lo ys = take lo xs" "drop hi ys = drop hi xs" "mset (slice ys lo hi) = mset (slice xs lo hi)"
proof -
  have len: "length ys = length xs" using assms(1) by (rule perm_within_length)
  show t: "take lo ys = take lo xs"
    using assms by (intro nth_equalityI) (auto simp: perm_within_def)
  show d: "drop hi ys = drop hi xs"
    using assms by (intro nth_equalityI) (auto simp: perm_within_def)
  have "mset (take lo ys @ slice ys lo hi @ drop hi ys) = mset (take lo xs @ slice xs lo hi @ drop hi xs)"
    using assms by (simp only: split3 len perm_within_def)
  then show "mset (slice ys lo hi) = mset (slice xs lo hi)" unfolding t d mset_append by simp
qed

text \<open>A bound on the elements of a window survives a rearrangement of the window.\<close>

lemma perm_within_all:
  assumes "perm_within lo hi xs ys" "hi \<le> length xs" "lo \<le> k" "k < hi" "\<And>m. lo \<le> m \<Longrightarrow> m < hi \<Longrightarrow> P (xs ! m)"
  shows "P (ys ! k)"
proof -
  have "lo \<le> hi" using assms(3,4) by simp
  from perm_within_parts [OF assms(1) this assms(2)] have eq: "set (slice ys lo hi) = set (slice xs lo hi)"
    by (metis mset_eq_setD)
  have len: "length ys = length xs" using assms(1) by (rule perm_within_length)
  have "ys ! k = slice ys lo hi ! (k - lo)" using assms(2-4) len by (simp add: nth_slice)
  then have "ys ! k \<in> set (slice ys lo hi)" using assms(2-4) len by simp
  then have "ys ! k \<in> set (slice xs lo hi)" by (simp only: eq)
  then obtain m where "m < length (slice xs lo hi)" "ys ! k = slice xs lo hi ! m" by (auto simp: in_set_conv_nth)
  then show ?thesis using assms(2) assms(5) [of "lo + m"] by (simp add: nth_slice)
qed

lemma sorted_window_unique:
  assumes "perm_within lo hi xs ys" "sorted_in lo hi ys" "lo \<le> hi" "hi \<le> length xs"
  shows "ys = take lo xs @ sort (slice xs lo hi) @ drop hi xs"
proof -
  have len: "length ys = length xs" using assms(1) by (rule perm_within_length)
  have "sorted (slice ys lo hi)" using assms len by (simp add: sorted_in_slice)
  with perm_within_parts [OF assms(1,3,4)] have "sort (slice xs lo hi) = slice ys lo hi"
    by (metis properties_for_sort)
  with split3 [of lo hi ys] perm_within_parts [OF assms(1,3,4)] assms(3,4) len show ?thesis by simp
qed

lemma sorts_prefix:
  "perm_within 0 n xs ys \<Longrightarrow> sorted_in 0 n ys \<Longrightarrow> n \<le> length xs \<Longrightarrow> ys = sort (take n xs) @ drop n xs"
  using sorted_window_unique [of 0 n xs ys] by (simp add: slice_0)

end
