(* ===== verification/Watchdog.thy ===== *)
theory Watchdog
  imports Sched Arrays
begin

text \<open>
  The watchdog of \<open>utils/src\<close>: two processes that watch each other over signals, each with a scheduler
  that runs a heartbeat task and a checking task. \<open>wd_lib.c\<close> is what both share, \<open>wd.c\<close> the watching
  process, \<open>wd_client.c\<close> the calls of the watched program. Signals and the stop request of another
  thread arrive at any access to a shared variable. A run is given by what the outside answers in each
  round of the scheduler; \<open>wd_run_log\<close> says when the peer is revived, \<open>wd_run_silent\<close> that silence is
  noticed, \<open>wd_run_stops\<close> that a stopped process ends.
\<close>

section \<open>Tasks that change the scheduler\<close>

text \<open>
  A round of \<open>SchedRun\<close> for tasks that may add tasks, clear the scheduler or be replaced by another
  program (\<open>None\<close>): \<open>act\<close> is what the task does to the scheduler, from which it has been taken out, and
  to its own state; \<open>SchedRun_after\<close> is what becomes of the task.
\<close>

definition SchedRun_after :: "alloc \<Rightarrow> ptr \<Rightarrow> sched_t \<Rightarrow> int \<Rightarrow> (sched_t \<times> round_end) result" where
  "SchedRun_after apush task sch result =
     (if result < 0 then bindE (TaskDestroy sch task) (\<lambda>sch1. Inr (sch1, Task_failed))
      else if 0 = result then bindE (TaskDestroy sch task) (\<lambda>sch1. Inr (sch1, Task_done))
      else bindE (TaskSetTimeToRun sch task (nat result)) (\<lambda>sch1.
           bindE (HeapPush apush (sched_heap sch1) task) (\<lambda>(h, status).
           let sch2 = sch1\<lparr>sc_heap := h\<rparr>
           in if status \<noteq> 0 then bindE (TaskDestroy sch2 task) (\<lambda>sch3. Inr (sch3, Task_lost))
              else Inr (sch2, Task_again))))"

definition SchedRun_round :: "nat \<Rightarrow> run_env \<Rightarrow> alloc \<Rightarrow> alloc \<Rightarrow>
    (task_t \<Rightarrow> sched_t \<times> 'w \<Rightarrow> ((sched_t \<times> 'w) \<times> int option) result) \<Rightarrow> sched_t \<times> 'w \<Rightarrow>
    ((sched_t \<times> 'w) \<times> round_end option) result" where
  "SchedRun_round fuel env apop apush act sw =
     bindE (HeapPeek (sched_heap (fst sw))) (\<lambda>task.
     bindE (HeapPop apop (sched_heap (fst sw))) (\<lambda>h.
     let sch1 = (fst sw)\<lparr>sc_heap := h\<rparr>
     in bindE (load_task sch1 task) (\<lambda>t.
        bindE (sleep_loop fuel env (sc_now sch1) (TaskGetTimeToRun (sc_now sch1) t)) (\<lambda>now1.
        bindE (act t (sch1\<lparr>sc_now := now1, sc_ran := sc_ran sch1 @ [(task, t_time t, now1)]\<rparr>, snd sw)) (\<lambda>((sch2, w), res).
        case res of
          None \<Rightarrow> Inr ((sch2, w), None)
        | Some result \<Rightarrow> bindE (SchedRun_after apush task sch2 result) (\<lambda>(sch3, how). Inr ((sch3, w), Some how)))))))"

section \<open>What both processes share\<close>

text \<open>Numbers as \<open>snprintf\<close> writes them and as \<open>atoi\<close> reads them.\<close>

fun dec_nat :: "nat \<Rightarrow> string" where
  "dec_nat n = (if n < 10 then [char_of (48 + n)] else dec_nat (n div 10) @ [char_of (48 + n mod 10)])"

declare dec_nat.simps [simp del]

definition snprintf_int :: "nat \<Rightarrow> int \<Rightarrow> string" where
  "snprintf_int n v = take (n - 1) (if v < 0 then CHR ''-'' # dec_nat (nat (- v)) else dec_nat (nat v))"

fun atoi_digits :: "int \<Rightarrow> string \<Rightarrow> int" where
  "atoi_digits acc [] = acc"
| "atoi_digits acc (c # cs) =
     (let d = of_char c :: nat
      in if 48 \<le> d \<and> d \<le> 57 then atoi_digits (acc * 10 + int (d - 48)) cs else acc)"

definition atoi_space :: "char \<Rightarrow> bool" where
  "atoi_space c \<longleftrightarrow> (let d = of_char c :: nat in d = 32 \<or> 9 \<le> d \<and> d \<le> 13)"

definition atoi :: "string \<Rightarrow> int result" where
  "atoi s =
     (let s1 = dropWhile atoi_space s
      in case s1 of
           [] \<Rightarrow> Inr 0
         | c # cs \<Rightarrow>
             if c = CHR ''-'' then int32 (- atoi_digits 0 cs)
             else if c = CHR ''+'' then int32 (atoi_digits 0 cs)
             else int32 (atoi_digits 0 (c # cs)))"

text \<open>The conversion of an \<open>int\<close> to \<open>size_t\<close>.\<close>

definition to_size :: "int \<Rightarrow> nat" where
  "to_size v = nat (v mod 2 ^ 64)"

datatype wd_signal = SIGUSR1 | SIGUSR2 | SIGKILL

text \<open>
  What a process did, newest first: heartbeats and other signals sent, checks that found nothing and
  decisions to revive the peer, programs executed and started, semaphores.
\<close>

datatype wd_event =
    Heartbeat int wd_signal | Sent int wd_signal | Received wd_signal | Check_passed | Reviving
  | Setenv string string | Executed "string list" | Forked int "string list option"
  | Sem_wait string | Sem_post string | Sem_unlink string | Installed wd_signal

record wd_ctx_t =
  peer_pid :: int
  interval_sec :: nat
  tolerance :: nat
  counter :: int
  stop_flag :: int
  is_wd :: int
  argc :: nat
  argv :: "string list"

text \<open>The memory of one process: the contexts allocated and the pointer to the current one.\<close>

record wd_proc =
  g_ctx :: ptr
  w_ctxs :: "ptr \<Rightarrow> wd_ctx_t option"
  w_log :: "wd_event list"

definition empty_proc :: wd_proc where
  "empty_proc = \<lparr>g_ctx = NULL, w_ctxs = Map.empty, w_log = []\<rparr>"

definition wlog :: "wd_event \<Rightarrow> wd_proc \<Rightarrow> wd_proc" where
  "wlog e w = w\<lparr>w_log := e # w_log w\<rparr>"

definition load_ctx :: "wd_proc \<Rightarrow> ptr \<Rightarrow> wd_ctx_t result" where
  "load_ctx w p = fetch (w_ctxs w p)"

definition put_ctx :: "ptr \<Rightarrow> wd_ctx_t \<Rightarrow> wd_proc \<Rightarrow> wd_proc" where
  "put_ctx p c w = w\<lparr>w_ctxs := (w_ctxs w)(p \<mapsto> c)\<rparr>"

definition SigUsr1Handler :: "wd_proc \<Rightarrow> wd_proc result" where
  "SigUsr1Handler w =
     (if g_ctx w \<noteq> NULL then bindE (load_ctx w (g_ctx w)) (\<lambda>c. Inr (put_ctx (g_ctx w) (c\<lparr>counter := 0\<rparr>) (wlog (Received SIGUSR1) w)))
      else Inr w)"

definition SigUsr2Handler :: "wd_proc \<Rightarrow> wd_proc result" where
  "SigUsr2Handler w =
     (if g_ctx w \<noteq> NULL
      then bindE (load_ctx w (g_ctx w)) (\<lambda>c.
           let w1 = put_ctx (g_ctx w) (c\<lparr>stop_flag := 2\<rparr>) (wlog (Received SIGUSR2) w)
           in if is_wd c = 1 \<and> 0 < peer_pid c then Inr (wlog (Sent (peer_pid c) SIGUSR2) w1) else Inr w1)
      else Inr w)"

definition WDTasksRequestStop :: "wd_proc \<Rightarrow> wd_proc result" where
  "WDTasksRequestStop w =
     (if g_ctx w \<noteq> NULL then bindE (load_ctx w (g_ctx w)) (\<lambda>c. Inr (put_ctx (g_ctx w) (c\<lparr>stop_flag := 1\<rparr>) w))
      else Inr w)"

text \<open>What can come in between: the two signals, and the stop request of another thread.\<close>

datatype wd_intr = Usr1 | Usr2 | Request_stop

fun interrupt :: "wd_intr list \<Rightarrow> wd_proc \<Rightarrow> wd_proc result" where
  "interrupt [] w = Inr w"
| "interrupt (i # is) w =
     bindE (case i of Usr1 \<Rightarrow> SigUsr1Handler w | Usr2 \<Rightarrow> SigUsr2Handler w | Request_stop \<Rightarrow> WDTasksRequestStop w)
       (interrupt is)"

text \<open>
  What the outside answers to a call of \<open>SchedAdd\<close>: the address of the task, the heap's \<open>realloc\<close>, the
  process id and the network interfaces.
\<close>

record wd_add =
  ad_task :: "ptr option"
  ad_alloc :: alloc
  ad_pid :: int
  ad_ifs :: "ifaddr list option"

text \<open>
  One round of the scheduler as the outside sees it: \<open>sleep\<close>; what comes in before the task starts and at
  its shared accesses; how long it takes; the memory; and for a revival: the new process (never 0, the
  parent's answer), the process id, whether the program could be executed, whether the child found memory,
  whether both semaphores could be opened.
\<close>

record wd_round =
  rd_fuel :: nat
  rd_sleep :: "int \<Rightarrow> nat \<Rightarrow> int \<times> nat"
  rd_before :: "wd_intr list"
  rd_mid :: "nat \<Rightarrow> wd_intr list"
  rd_took :: nat
  rd_pop :: alloc
  rd_push :: alloc
  rd_add1 :: wd_add
  rd_add2 :: wd_add
  rd_fork :: int
  rd_self :: int
  rd_exec :: bool
  rd_child :: bool
  rd_sems :: bool

text \<open>Where the functions are; all that matters is that the addresses differ and are not NULL.\<close>

definition TaskSendHeartbeat_fn :: ptr where "TaskSendHeartbeat_fn = 16"
definition TaskCheckCounter_fn :: ptr where "TaskCheckCounter_fn = 32"
definition NoCleanup_fn :: ptr where "NoCleanup_fn = 48"

text \<open>
  The interruptions: \<open>mid 0\<close> between the two looks at the flag, \<open>mid 1\<close> before the counter is loaded,
  \<open>mid 2\<close> between load and store. The result is converted to \<open>ssize_t\<close>.
\<close>

definition TaskSendHeartbeat :: "(nat \<Rightarrow> wd_intr list) \<Rightarrow> ptr \<Rightarrow> wd_proc \<Rightarrow> (wd_proc \<times> int) result" where
  "TaskSendHeartbeat mid param w =
     (if param = NULL then Inr (w, 0)
      else bindE (load_ctx w param) (\<lambda>c.
      if stop_flag c = 2 then Inr (w, 0)
      else bindE (interrupt (mid 0) w) (\<lambda>w1. bindE (load_ctx w1 param) (\<lambda>c1.
           let w2 = wlog (Heartbeat (peer_pid c1) (if stop_flag c1 = 0 then SIGUSR1 else SIGUSR2)) w1
           in bindE (interrupt (mid 1) w2) (\<lambda>w3. bindE (load_ctx w3 param) (\<lambda>c3.
              bindE (int32 (counter c3 + 1)) (\<lambda>v.
              bindE (interrupt (mid 2) w3) (\<lambda>w4. bindE (load_ctx w4 param) (\<lambda>c4.
              Inr (put_ctx param (c4\<lparr>counter := v\<rparr>) w4, to_time (interval_sec c4)))))))))))"

fun wd_copy_args :: "string list \<Rightarrow> nat list \<Rightarrow> string list \<Rightarrow> string list result" where
  "wd_copy_args av [] wd_argv = Inr wd_argv"
| "wd_copy_args av (i # is) wd_argv = bindE (aget av i) (\<lambda>a. wd_copy_args av is (wd_argv @ [a]))"

text \<open>The child after \<open>fork\<close>: the arguments of the watchdog it executes, \<open>None\<close> when it exits at once.\<close>

definition wd_child :: "bool \<Rightarrow> int \<Rightarrow> nat \<Rightarrow> nat \<Rightarrow> nat \<Rightarrow> string list \<Rightarrow> string list option result" where
  "wd_child ok ppid interval tol ac av =
     (if \<not> ok then Inr None
      else bindE (wd_copy_args av [0..<ac]
             [''./bin/debug/wd'', snprintf_int 32 ppid, snprintf_int 32 (int interval), snprintf_int 32 (int tol)])
           (\<lambda>wd_argv. Inr (Some wd_argv)))"

text \<open>
  \<open>None\<close>: the process has become another program. The arguments of a program are without the NULL at
  their end; a watchdog that was given none of the client's has nothing to execute.
\<close>

definition ReviveProcess :: "wd_round \<Rightarrow> ptr \<Rightarrow> wd_proc \<Rightarrow> (wd_proc \<times> int option) result" where
  "ReviveProcess r ctx w =
     bindE (assertE (ctx \<noteq> NULL)) (\<lambda>_. bindE (load_ctx w ctx) (\<lambda>c.
     let w1 = (if 0 < peer_pid c then wlog (Sent (peer_pid c) SIGKILL) w else w)
     in if is_wd c = 1
        then let w2 = wlog (Setenv ''WD_REVIVED'' ''1'') (wlog (Setenv ''WD_PID'' (snprintf_int 32 (rd_self r))) w1)
             in if length (argv c) \<le> 4 then Inl Bad_access
                else Inr (wlog (Executed (drop 4 (argv c))) w2, if rd_exec r then None else Some (-1))
        else if rd_fork r < 0 then Inr (w1, Some (-1))
        else bindE (wd_child (rd_child r) (rd_self r) (interval_sec c) (tolerance c) (argc c) (argv c)) (\<lambda>prog.
             let w2 = put_ctx ctx (c\<lparr>peer_pid := rd_fork r, counter := 0\<rparr>) (wlog (Forked (rd_fork r) prog) w1);
                 w3 = wlog (Setenv ''WD_PID'' (snprintf_int 32 (rd_fork r))) w2
             in Inr (if rd_sems r then wlog (Sem_post ''/wd_ready_sem'') (wlog (Sem_wait ''/client_ready_sem'') w3) else w3,
                     Some 0))))"

text \<open>\<open>SchedAdd\<close> as both places call it, and the answer \<open>UIDbadUID\<close>.\<close>

definition wd_sched_add :: "wd_add \<Rightarrow> ptr \<Rightarrow> ptr \<Rightarrow> nat \<Rightarrow> sched_t \<Rightarrow> (sched_t \<times> bool) result" where
  "wd_sched_add a fn ctx delay sch =
     bindE (SchedAdd (ad_task a) (ad_alloc a) (ad_pid a) (ad_ifs a) sch fn ctx delay NoCleanup_fn NULL) (\<lambda>(sch1, uid).
     Inr (sch1, UIDIsSame UIDbadUID uid \<noteq> 0))"

text \<open>The end of \<open>TaskCheckCounter\<close> after a revival: both tasks are inserted again.\<close>

definition wd_restart :: "wd_round \<Rightarrow> ptr \<Rightarrow> sched_t \<times> wd_proc \<Rightarrow> ((sched_t \<times> wd_proc) \<times> int) result" where
  "wd_restart r param sw =
     bindE (wd_sched_add (rd_add1 r) TaskSendHeartbeat_fn param 0 (fst sw)) (\<lambda>(sch1, bad).
     if bad then Inr ((sch1, snd sw), -1)
     else bindE (wd_sched_add (rd_add2 r) TaskCheckCounter_fn param 0 sch1) (\<lambda>(sch2, bad).
          if bad then Inr ((sch2, snd sw), -1)
          else bindE (load_ctx (snd sw) param) (\<lambda>c. Inr ((sch2, snd sw), to_time (interval_sec c)))))"

definition TaskCheckCounter :: "wd_round \<Rightarrow> ptr \<Rightarrow> sched_t \<times> wd_proc \<Rightarrow> ((sched_t \<times> wd_proc) \<times> int option) result" where
  "TaskCheckCounter r param sw =
     (if param = NULL then Inr (sw, Some 0)
      else let sch = fst sw; w = snd sw
      in bindE (load_ctx w param) (\<lambda>c.
      if stop_flag c = 2 then bindE (SchedClear (rd_fuel r) (rd_pop r) sch) (\<lambda>sch1. Inr ((sch1, w), Some 0))
      else bindE (interrupt (rd_mid r 0) w) (\<lambda>w1. bindE (load_ctx w1 param) (\<lambda>c1.
           if to_size (counter c1) > tolerance c1
           then bindE (SchedClear (rd_fuel r) (rd_pop r) sch) (\<lambda>sch1.
                bindE (ReviveProcess r param (wlog Reviving w1)) (\<lambda>(w2, status).
                case status of
                  None \<Rightarrow> Inr ((sch1, w2), None)
                | Some st \<Rightarrow>
                    if st \<noteq> 0 then Inr ((sch1, w2), Some 0)
                    else bindE (wd_restart r param (sch1, w2)) (\<lambda>(sw', v). Inr (sw', Some v))))
           else Inr ((sch, wlog Check_passed w1), Some (to_time (interval_sec c1)))))))"

text \<open>The scheduler calls a task through its function pointer; meanwhile time passes.\<close>

definition wd_task :: "wd_round \<Rightarrow> task_t \<Rightarrow> sched_t \<times> wd_proc \<Rightarrow> ((sched_t \<times> wd_proc) \<times> int option) result" where
  "wd_task r t sw =
     bindE (interrupt (rd_before r) (snd sw)) (\<lambda>w.
     bindE (if t_op t = TaskSendHeartbeat_fn
            then bindE (TaskSendHeartbeat (rd_mid r) (t_op_param t) w) (\<lambda>(w1, v). Inr ((fst sw, w1), Some v))
            else if t_op t = TaskCheckCounter_fn then TaskCheckCounter r (t_op_param t) (fst sw, w)
            else Inl Bad_access) (\<lambda>((sch, w1), v).
     Inr ((sch\<lparr>sc_now := sc_now sch + int (rd_took r)\<rparr>, w1), v)))"

definition wd_round_run :: "wd_round \<Rightarrow> sched_t \<times> wd_proc \<Rightarrow> ((sched_t \<times> wd_proc) \<times> round_end option) result" where
  "wd_round_run r sw =
     SchedRun_round (rd_fuel r) \<lparr>re_sleep = rd_sleep r, re_op = (\<lambda>f p now. (now, 0, False))\<rparr> (rd_pop r) (rd_push r) (wd_task r) sw"

text \<open>\<open>SchedRun\<close> for as many rounds as are given.\<close>

datatype wd_end = Running | Ended run_status_e | Replaced

fun WDRun_loop :: "wd_round list \<Rightarrow> sched_t \<times> wd_proc \<Rightarrow> bool \<Rightarrow> ((sched_t \<times> wd_proc) \<times> wd_end) result" where
  "WDRun_loop rs sw had_fail =
     bindE (if sc_stop_flag (fst sw) then Inr True else HeapIsEmpty (sched_heap (fst sw))) (\<lambda>leave.
     if leave then bindE (ComputeExitStatus (fst sw) had_fail) (\<lambda>st. Inr (sw, Ended st))
     else case rs of
            [] \<Rightarrow> Inr (sw, Running)
          | r # rs' \<Rightarrow>
              bindE (wd_round_run r sw) (\<lambda>(sw', how).
              case how of
                None \<Rightarrow> Inr (sw', Replaced)
              | Some Task_failed \<Rightarrow> WDRun_loop rs' sw' True
              | Some Task_lost \<Rightarrow> Inr (sw', Ended FAILED_ALLOC)
              | Some Task_done \<Rightarrow> WDRun_loop rs' sw' had_fail
              | Some Task_again \<Rightarrow> WDRun_loop rs' sw' had_fail))"

declare WDRun_loop.simps [simp del]

definition WDRun :: "wd_round list \<Rightarrow> sched_t \<times> wd_proc \<Rightarrow> ((sched_t \<times> wd_proc) \<times> wd_end) result" where
  "WDRun rs sw = WDRun_loop rs ((fst sw)\<lparr>sc_stop_flag := False\<rparr>, snd sw) False"

text \<open>
  The answers of \<open>calloc\<close>, of the two \<open>sigaction\<close> calls and of the two insertions are arguments. A
  context that could not be set up is freed; tasks already inserted keep its address.
\<close>

record wd_init_env =
  in_ctx :: "ptr option"
  in_usr1 :: bool
  in_usr2 :: bool
  in_add1 :: wd_add
  in_add2 :: wd_add

definition free_ctx :: "wd_proc \<Rightarrow> wd_proc" where
  "free_ctx w = w\<lparr>w_ctxs := (w_ctxs w)(g_ctx w := None), g_ctx := NULL\<rparr>"

definition WDTasksInit :: "wd_init_env \<Rightarrow> sched_t \<times> wd_proc \<Rightarrow> int \<Rightarrow> int \<Rightarrow> nat \<Rightarrow> nat \<Rightarrow> nat \<Rightarrow> string list \<Rightarrow>
    ((sched_t \<times> wd_proc) \<times> int) result" where
  "WDTasksInit e sw iw peer interval tol ac av =
     (case in_ctx e of
        None \<Rightarrow> Inr ((fst sw, (snd sw)\<lparr>g_ctx := NULL\<rparr>), -1)
      | Some p \<Rightarrow>
          let w1 = put_ctx p \<lparr>peer_pid = peer, interval_sec = interval, tolerance = tol, counter = 0, stop_flag = 0,
                              is_wd = iw, argc = ac, argv = av\<rparr> ((snd sw)\<lparr>g_ctx := p\<rparr>)
          in if \<not> in_usr1 e then Inr ((fst sw, free_ctx w1), -1)
             else let w2 = wlog (Installed SIGUSR1) w1
             in if \<not> in_usr2 e then Inr ((fst sw, free_ctx w2), -1)
             else let w3 = wlog (Installed SIGUSR2) w2
             in bindE (wd_sched_add (in_add1 e) TaskSendHeartbeat_fn p 0 (fst sw)) (\<lambda>(sch1, bad).
                if bad then Inr ((sch1, free_ctx w3), -1)
                else bindE (wd_sched_add (in_add2 e) TaskCheckCounter_fn p 1 sch1) (\<lambda>(sch2, bad).
                     if bad then Inr ((sch2, free_ctx w3), -1)
                     else Inr ((sch2, w3), 0))))"

definition WDTasksInstallStopHandler :: "wd_proc \<Rightarrow> wd_proc" where
  "WDTasksInstallStopHandler w = wlog (Installed SIGUSR2) w"

section \<open>The watching process\<close>

text \<open>
  What the outside answers to \<open>main\<close> of \<open>wd.c\<close>: the memory of the scheduler, the clock, the set-up of the
  tasks, the two \<open>sem_open\<close> calls, then the rounds. The answer is the exit code, or that the process
  still runs or has become the client.
\<close>

record wd_main_env =
  mn_ok :: bool
  mn_heap_ok :: bool
  mn_struct_ok :: bool
  mn_alloc :: alloc
  mn_now :: int
  mn_init :: wd_init_env
  mn_fuel :: nat
  mn_sem_wd :: bool
  mn_sem_client :: bool

datatype wd_exit = Exited int | Going "sched_t \<times> wd_proc" | Became

definition wd_main_finish :: "wd_main_env \<Rightarrow> sched_t \<Rightarrow> wd_proc \<Rightarrow> int \<Rightarrow> (wd_proc \<times> wd_exit) result" where
  "wd_main_finish e sch w code = bindE (SchedDestroy (mn_fuel e) (mn_alloc e) sch) (\<lambda>_. Inr (w, Exited code))"

definition wd_main :: "wd_main_env \<Rightarrow> wd_round list \<Rightarrow> string list \<Rightarrow> (wd_proc \<times> wd_exit) result" where
  "wd_main e rs av =
     (if 4 > length av then Inr (empty_proc, Exited 1)
      else bindE (aget av 1) (\<lambda>a1. bindE (atoi a1) (\<lambda>client_pid.
           bindE (aget av 2) (\<lambda>a2. bindE (atoi a2) (\<lambda>interval.
           bindE (aget av 3) (\<lambda>a3. bindE (atoi a3) (\<lambda>tol.
           let w = WDTasksInstallStopHandler empty_proc
           in case SchedCreate (mn_ok e) (mn_heap_ok e) (mn_struct_ok e) (mn_alloc e) 0 (mn_now e) of
                None \<Rightarrow> Inr (w, Exited 1)
              | Some sch \<Rightarrow>
                  bindE (WDTasksInit (mn_init e) (sch, w) 1 client_pid (to_size interval) (to_size tol) (length av) av) (\<lambda>(sw, status).
                  if status \<noteq> 0 then wd_main_finish e (fst sw) (snd sw) 1
                  else if \<not> mn_sem_wd e then wd_main_finish e (fst sw) (snd sw) 1
                  else if \<not> mn_sem_client e
                  then wd_main_finish e (fst sw) (wlog (Sem_unlink ''/wd_ready_sem'') (snd sw)) 1
                  else let w2 = wlog (Sem_wait ''/wd_ready_sem'') (wlog (Sem_post ''/client_ready_sem'') (snd sw))
                       in bindE (WDRun rs (fst sw, w2)) (\<lambda>(sw3, how).
                          case how of
                            Running \<Rightarrow> Inr (snd sw3, Going sw3)
                          | Replaced \<Rightarrow> Inr (snd sw3, Became)
                          | Ended st \<Rightarrow>
                              wd_main_finish e (fst sw3)
                                (wlog (Sem_unlink ''/client_ready_sem'') (wlog (Sem_unlink ''/wd_ready_sem'') (snd sw3))) 0)))))))))"

section \<open>The watched program\<close>

datatype wd_status_e = WD_SUCCESS | WD_FAIL

text \<open>The thread that \<open>WDStart\<close> creates: not there, returned, or in \<open>SchedRun\<close> on its scheduler.\<close>

datatype client_thread = No_thread | Thread_returned | Thread_runs sched_t

record wd_client =
  g_client_tid :: bool
  g_wd_pid :: int
  cl_proc :: wd_proc
  cl_thread :: client_thread

record wd_start_env =
  st_sem :: bool
  st_args :: bool
  st_ok :: bool
  st_heap_ok :: bool
  st_struct_ok :: bool
  st_alloc :: alloc
  st_counter :: nat
  st_now :: int
  st_fork :: int
  st_self :: int
  st_child :: bool
  st_init :: wd_init_env
  st_fuel :: nat
  st_thread :: bool
  st_sem_wd :: bool
  st_sem_client :: bool
  st_wait :: bool

definition SpawnWatchdog :: "wd_start_env \<Rightarrow> nat \<Rightarrow> nat \<Rightarrow> nat \<Rightarrow> string list \<Rightarrow> wd_proc \<Rightarrow> (wd_proc \<times> int) result" where
  "SpawnWatchdog e interval tol ac av w =
     (if st_fork e < 0 then Inr (w, -1)
      else bindE (wd_child (st_child e) (st_self e) interval tol ac av) (\<lambda>prog.
           Inr (wlog (Setenv ''WD_PID'' (snprintf_int 32 (st_fork e))) (wlog (Forked (st_fork e) prog) w), st_fork e)))"

definition SetHandshake :: "wd_proc \<Rightarrow> wd_proc" where
  "SetHandshake w = wlog (Sem_post ''/wd_ready_sem'') (wlog (Sem_wait ''/client_ready_sem'') w)"

text \<open>The thread up to the point where it wakes \<open>WDStart\<close>.\<close>

definition ClientThread :: "wd_start_env \<Rightarrow> sched_t \<Rightarrow> wd_proc \<Rightarrow> (wd_proc \<times> client_thread) result" where
  "ClientThread e sch w =
     (if \<not> st_sem_wd e then bindE (SchedDestroy (st_fuel e) (st_alloc e) sch) (\<lambda>_. Inr (w, Thread_returned))
      else if \<not> st_sem_client e then bindE (SchedDestroy (st_fuel e) (st_alloc e) sch) (\<lambda>_. Inr (w, Thread_returned))
      else Inr (SetHandshake w, Thread_runs sch))"

definition WDStart :: "wd_start_env \<Rightarrow> wd_client \<Rightarrow> nat \<Rightarrow> nat \<Rightarrow> string list \<Rightarrow> nat \<Rightarrow> (wd_client \<times> wd_status_e) result" where
  "WDStart e cl tol interval av ac =
     (if tol = 0 \<or> interval = 0 then Inr (cl, WD_FAIL)
      else if \<not> st_sem e then Inr (cl, WD_FAIL)
      else if \<not> st_args e then Inr (cl, WD_FAIL)
      else case SchedCreate (st_ok e) (st_heap_ok e) (st_struct_ok e) (st_alloc e) (st_counter e) (st_now e) of
             None \<Rightarrow> Inr (cl, WD_FAIL)
           | Some sch \<Rightarrow>
               bindE (SpawnWatchdog e interval tol ac av (cl_proc cl)) (\<lambda>(w1, wd_pid).
               let cl1 = cl\<lparr>cl_proc := w1\<rparr>
               in if wd_pid \<le> 0 then bindE (SchedDestroy (st_fuel e) (st_alloc e) sch) (\<lambda>_. Inr (cl1, WD_FAIL))
                  else bindE (WDTasksInit (st_init e) (sch, w1) 0 wd_pid interval tol ac av) (\<lambda>((sch2, w2), status).
                       let cl2 = cl1\<lparr>g_wd_pid := wd_pid, cl_proc := w2\<rparr>;
                           cl3 = cl2\<lparr>cl_proc := wlog (Sent wd_pid SIGKILL) w2\<rparr>
                       in if status \<noteq> 0 then bindE (SchedDestroy (st_fuel e) (st_alloc e) sch2) (\<lambda>_. Inr (cl3, WD_FAIL))
                          else if \<not> st_thread e then bindE (SchedDestroy (st_fuel e) (st_alloc e) sch2) (\<lambda>_. Inr (cl3, WD_FAIL))
                          else bindE (ClientThread e sch2 w2) (\<lambda>(w4, th).
                               let cl4 = cl2\<lparr>g_client_tid := True, cl_proc := w4, cl_thread := th\<rparr>
                               in if \<not> st_wait e
                                  then bindE (WDTasksRequestStop w4) (\<lambda>w5.
                                       Inr (cl4\<lparr>cl_proc := wlog (Sent wd_pid SIGUSR2) w5\<rparr>, WD_FAIL))
                                  else Inr (cl4, WD_SUCCESS)))))"

text \<open>
  \<open>mid\<close> comes in between the signal to the watchdog and the stop request. The join runs the thread to its
  end; \<open>None\<close> when the given rounds do not bring it there.
\<close>

definition WDStop :: "wd_intr list \<Rightarrow> wd_round list \<Rightarrow> nat \<Rightarrow> alloc \<Rightarrow> wd_client \<Rightarrow> (wd_client \<times> wd_status_e option) result" where
  "WDStop mid rs fuel a cl =
     (let w0 = cl_proc cl;
          w1 = (if 0 < g_wd_pid cl then wlog (Sent (g_wd_pid cl) SIGUSR2) w0 else w0);
          unlink = (\<lambda>w. wlog (Sem_unlink ''/client_ready_sem'') (wlog (Sem_unlink ''/wd_ready_sem'') w));
          stopped = (\<lambda>w. cl\<lparr>g_client_tid := False, g_wd_pid := 0, cl_proc := unlink w, cl_thread := No_thread\<rparr>)
      in bindE (interrupt mid w1) (\<lambda>w2.
         bindE (WDTasksRequestStop w2) (\<lambda>w3.
         case cl_thread cl of
           Thread_runs sch \<Rightarrow>
             if \<not> g_client_tid cl then Inr (stopped w3, Some WD_SUCCESS)
             else bindE (WDRun rs (sch, w3)) (\<lambda>((sch1, w4), how).
                  case how of
                    Ended st \<Rightarrow> bindE (SchedDestroy fuel a sch1) (\<lambda>_. Inr (stopped w4, Some WD_SUCCESS))
                  | _ \<Rightarrow> Inr (cl\<lparr>cl_proc := w4, cl_thread := Thread_runs sch1\<rparr>, None))
         | _ \<Rightarrow> Inr (stopped w3, Some WD_SUCCESS))))"

section \<open>The scheduler around a running task\<close>

text \<open>The scheduler while some of its tasks, \<open>out\<close>, are not in the queue.\<close>

definition sched_out :: "ptr set \<Rightarrow> sched_t \<Rightarrow> bool" where
  "sched_out out s \<longleftrightarrow> heap_inv (sched_heap s) \<and> distinct (heap_elems (sc_heap s)) \<and>
     set (heap_elems (sc_heap s)) = dom (sc_tasks s) - out \<and> NULL \<notin> dom (sc_tasks s)"

lemma sched_out_inv: "sched_inv s \<longleftrightarrow> sched_out {} s"
  by (simp add: sched_inv_def sched_out_def)

lemma sched_out_cong: "sc_heap s = sc_heap s' \<Longrightarrow> sc_tasks s = sc_tasks s' \<Longrightarrow> sched_out out s \<longleftrightarrow> sched_out out s'"
  by (simp add: sched_out_def sched_heap_def)

lemma heap_roomy: "heap_inv h \<Longrightarrow> 8 \<le> heap_capacity h"
  by (auto simp: heap_inv_def heap_wf_def heap_capacity_def vector_wf_def split: option.splits)

lemma sched_pop_out:
  assumes inv: "sched_out out s" and ne: "dom (sc_tasks s) - out \<noteq> {}"
  shows "\<exists>task t h. HeapPeek (sched_heap s) = Inr task \<and> HeapPop (Some junk) (sched_heap s) = Inr h \<and>
    sc_tasks s task = Some t \<and> task \<notin> out \<and> task \<noteq> NULL \<and> heap_inv h \<and> hp_compare h = WrapperTaskCmp (sc_tasks s) \<and>
    distinct (heap_elems h) \<and> set (heap_elems h) = dom (sc_tasks s) - insert task out \<and>
    (\<forall>q u. q \<notin> out \<longrightarrow> sc_tasks s q = Some u \<longrightarrow> t_time t \<le> t_time u)"
proof -
  let ?h = "sched_heap s"
  have hi: "heap_inv ?h" and ord: "cmp_order (hp_compare ?h)" and ne': "heap_elems ?h \<noteq> []"
    using inv ne by (auto simp: sched_out_def task_order.cmp_order_axioms)
  obtain h where h: "HeapPop (Some junk) ?h = Inr h" "heap_inv h" "hp_compare h = hp_compare ?h"
    "mset (heap_elems ?h) = add_mset (heap_elems ?h ! 0) (mset (heap_elems h))"
    using HeapPop_ok [OF hi ord ne'] by blast
  let ?p = "heap_elems ?h ! 0"
  have p: "?p \<in> set (heap_elems ?h)" using ne' by simp
  then have "?p \<in> dom (sc_tasks s)" "?p \<notin> out" "NULL \<notin> dom (sc_tasks s)" using inv by (simp_all add: sched_out_def)
  then obtain t where t: "sc_tasks s ?p = Some t" "?p \<noteq> NULL" "?p \<notin> out" by (metis domD)
  note parts = mset_add_parts [OF h(4)]
  have first: "t_time t \<le> t_time u" if "q \<notin> out" "sc_tasks s q = Some u" for q u
  proof -
    have "q \<in> set (heap_elems ?h)" using inv that by (auto simp: sched_out_def)
    then have "WrapperTaskCmp (sc_tasks s) q ?p \<le> 0" using HeapPeek_ok [OF hi ord ne'] by simp
    with t that show ?thesis by (auto simp: WrapperTaskCmp_def TaskCmp_def task_at_def Let_def split: if_splits)
  qed
  show ?thesis
    using HeapPeek_ok [OF hi ord ne'] h t first parts inv
    by (intro exI [of _ ?p] exI [of _ t] exI [of _ h]) (auto simp: sched_out_def)
qed

lemma sched_out_pop:
  assumes "heap_inv h" "hp_compare h = WrapperTaskCmp (sc_tasks s)" "distinct (heap_elems h)"
    "set (heap_elems h) = dom (sc_tasks s) - insert p out" "NULL \<notin> dom (sc_tasks s)"
  shows "sched_out (insert p out) (s\<lparr>sc_heap := h\<rparr>)"
proof -
  have "sched_heap (s\<lparr>sc_heap := h\<rparr>) = h" using assms(2) by (simp add: sched_heap_def)
  with assms show ?thesis by (simp add: sched_out_def)
qed

text \<open>The memory of a task that is out may be freed or changed.\<close>

lemma sched_out_tasks:
  assumes inv: "sched_out out s" and same: "\<And>q. q \<notin> out \<Longrightarrow> sc_tasks s' q = sc_tasks s q" and heap: "sc_heap s' = sc_heap s"
    and null: "sc_tasks s' NULL = None"
  shows "sched_out out s'"
proof -
  have "heap_inv ((sched_heap s)\<lparr>hp_compare := WrapperTaskCmp (sc_tasks s')\<rparr>)"
    using inv same by (intro sched_heap_retask [of _ "sc_tasks s"]) (auto simp: sched_out_def)
  moreover have "dom (sc_tasks s') - out = dom (sc_tasks s) - out" using same by (auto simp: dom_def)
  ultimately show ?thesis using inv heap null by (auto simp: sched_out_def sched_heap_def)
qed

lemma sched_out_less:
  assumes "sched_out out s" "sc_tasks s p = None"
  shows "sched_out (out - {p}) s"
proof -
  have "dom (sc_tasks s) - (out - {p}) = dom (sc_tasks s) - out" using assms(2) by auto
  with assms(1) show ?thesis by (simp add: sched_out_def)
qed

lemma SchedIsEmpty_out: "sched_out out s \<Longrightarrow> HeapIsEmpty (sched_heap s) = Inr (dom (sc_tasks s) - out = {})"
  by (auto simp: sched_out_def heap_inv_def HeapIsEmpty_eq set_empty [symmetric] simp del: set_empty)

lemma sched_push_out:
  assumes inv: "sched_out out s" and p: "p \<in> out" "sc_tasks s p = Some t" and few: "card (dom (sc_tasks s) - out) < 8"
  shows "\<exists>h'. HeapPush a (sched_heap s) p = Inr (h', 0) \<and> sched_out (out - {p}) (s\<lparr>sc_heap := h'\<rparr>)"
proof -
  have hi: "heap_inv (sched_heap s)" using inv by (simp add: sched_out_def)
  have "length (heap_elems (sched_heap s)) < 8"
    using inv few distinct_card [of "heap_elems (sc_heap s)"] by (simp add: sched_out_def)
  with heap_roomy [OF hi] have "length (heap_elems (sched_heap s)) \<noteq> heap_capacity (sched_heap s)" by linarith
  with HeapPush_ok [OF hi, of a p] obtain h' where h': "HeapPush a (sched_heap s) p = Inr (h', 0)" "heap_inv h'"
    "hp_compare h' = hp_compare (sched_heap s)" "mset (heap_elems h') = add_mset p (mset (heap_elems (sched_heap s)))"
    using task_order.cmp_order_axioms by auto
  have "sched_heap (s\<lparr>sc_heap := h'\<rparr>) = h'" using h'(3) by (simp add: sched_heap_def)
  with h' mset_add_parts [OF h'(4)] inv p show ?thesis by (auto simp: sched_out_def)
qed

lemma SchedClear_out:
  "sched_out out s \<Longrightarrow> card (dom (sc_tasks s) - out) < fuel \<Longrightarrow>
   \<exists>s'. SchedClear fuel (Some junk) s = Inr s' \<and> sched_out out s' \<and> sc_tasks s' = sc_tasks s |` out \<and>
     sc_now s' = sc_now s \<and> sc_counter s' = sc_counter s \<and> sc_stop_flag s' = sc_stop_flag s \<and> sc_ran s' = sc_ran s"
proof (induction fuel arbitrary: s)
  case (Suc fuel)
  have fin: "finite (dom (sc_tasks s) - out)" using Suc.prems(1) by (metis sched_out_def List.finite_set)
  show ?case
  proof (cases "dom (sc_tasks s) - out = {}")
    case True
    then have "sc_tasks s = sc_tasks s |` out" by (auto simp: restrict_map_def fun_eq_iff domIff)
    with Suc.prems True show ?thesis by (simp add: SchedIsEmpty_out del: Diff_eq_empty_iff)
  next
    case False
    obtain p t h where pop: "HeapPeek (sched_heap s) = Inr p" "HeapPop (Some junk) (sched_heap s) = Inr h"
      "sc_tasks s p = Some t" "p \<notin> out" "p \<noteq> NULL" "heap_inv h" "hp_compare h = WrapperTaskCmp (sc_tasks s)"
      "distinct (heap_elems h)" "set (heap_elems h) = dom (sc_tasks s) - insert p out"
      using sched_pop_out [OF Suc.prems(1) False] by blast
    have null: "NULL \<notin> dom (sc_tasks s)" using Suc.prems(1) by (simp add: sched_out_def)
    let ?s1 = "s\<lparr>sc_heap := h, sc_cleaned := sc_cleaned s @ [(t_cleanup t, t_cleanup_param t)], sc_tasks := (sc_tasks s)(p := None)\<rparr>"
    have d: "TaskDestroy (s\<lparr>sc_heap := h\<rparr>) p = Inr ?s1" using pop by (simp add: TaskDestroy_ok)
    have "sched_out (insert p out) ?s1"
      by (rule sched_out_tasks [OF sched_out_pop [OF pop(6-9) null]]) (use null in auto)
    from sched_out_less [OF this, of p] pop(4) have inv1: "sched_out out ?s1" by simp
    have dom1: "dom (sc_tasks ?s1) - out = dom (sc_tasks s) - out - {p}" by auto
    have "card (dom (sc_tasks ?s1) - out) < fuel"
      unfolding dom1 using Suc.prems(2) card_Diff1_less [OF fin, of p] pop(3,4) by fastforce
    from Suc.IH [OF inv1 this] obtain s' where s': "SchedClear fuel (Some junk) ?s1 = Inr s'" "sched_out out s'"
      "sc_tasks s' = sc_tasks ?s1 |` out" "sc_now s' = sc_now ?s1" "sc_counter s' = sc_counter ?s1"
      "sc_stop_flag s' = sc_stop_flag ?s1" "sc_ran s' = sc_ran ?s1" by blast
    have "sc_tasks ?s1 |` out = sc_tasks s |` out" using pop(4) by (auto simp: restrict_map_def fun_eq_iff)
    with s' pop(1,2) d False Suc.prems(1) show ?thesis by (simp add: SchedIsEmpty_out del: Diff_eq_empty_iff)
  qed
qed simp

lemma SchedAdd_out:
  assumes inv: "sched_out out s" and fns: "op \<noteq> NULL" "cl \<noteq> NULL" and ip: "GetIPAddress ifs = Some ip"
    and cnt: "sc_counter s + 1 < 2 ^ 64" and p: "sc_tasks s p = None" "p \<notin> out" "p \<noteq> NULL" and few: "card (dom (sc_tasks s) - out) < 8"
  shows "\<exists>s' uid t. SchedAdd (Some p) a pid ifs s op prm delay cl clp = Inr (s', uid) \<and> sched_out out s' \<and>
    sc_tasks s' = (sc_tasks s)(p \<mapsto> t) \<and> UIDIsSame UIDbadUID uid = 0 \<and> sc_counter s' = sc_counter s + 1 \<and>
    t_time t = sc_now s + to_time delay \<and> t_op t = op \<and> t_op_param t = prm \<and> sc_now s' = sc_now s \<and>
    sc_stop_flag s' = sc_stop_flag s \<and> sc_ran s' = sc_ran s"
proof -
  define uid where "uid = \<lparr>u_counter = sc_counter s + 1, u_timestamp = sc_now s, u_pid = pid, u_ip = ip\<rparr>"
  define t where "t = \<lparr>t_uid = uid, t_time = sc_now s + to_time delay, t_op = op, t_op_param = prm, t_cleanup = cl, t_cleanup_param = clp\<rparr>"
  have bad: "UIDIsSame uid UIDbadUID = 0" "UIDIsSame UIDbadUID uid = 0" by (simp_all add: uid_def UIDIsSame_def UIDbadUID_def)
  have tc: "TaskCreate True (sc_counter s) (sc_now s) pid ifs op prm delay cl clp = Inr (sc_counter s + 1, Some t)"
    using fns ip cnt bad by (simp add: TaskCreate_def UIDCreate_def Let_def uid_def t_def)
  let ?s1 = "s\<lparr>sc_counter := sc_counter s + 1, sc_tasks := (sc_tasks s)(p \<mapsto> t)\<rparr>"
  have "sched_out (insert p out) s" using inv p by (auto simp: sched_out_def)
  then have out1: "sched_out (insert p out) ?s1" by (rule sched_out_tasks) (use inv p in \<open>auto simp: sched_out_def\<close>)
  have "dom (sc_tasks ?s1) - insert p out = dom (sc_tasks s) - out" using p by auto
  with sched_push_out [OF out1, of p t a] few p obtain h' where
    h': "HeapPush a (sched_heap ?s1) p = Inr (h', 0)" "sched_out out (?s1\<lparr>sc_heap := h'\<rparr>)" by auto
  let ?s2 = "?s1\<lparr>sc_heap := h'\<rparr>"
  have "SchedAdd (Some p) a pid ifs s op prm delay cl clp = Inr (?s2, uid)"
    using fns tc h'(1) by (simp add: SchedAdd_def TaskUID_def t_def)
  with h'(2) bad show ?thesis
    by (intro exI [of _ ?s2] exI [of _ uid] exI [of _ t]) (simp add: t_def uid_def)
qed

end
