(* ===== verification/Watchdog_Counts.thy ===== *)
theory Watchdog_Counts
  imports Watchdog
begin

text \<open>
  The counter of a watching process: whatever the outside does, it is the number of heartbeats sent since
  the peer was last heard of, and the checking task revives the peer exactly when that number is above
  the tolerance (\<open>wd_run_log\<close>). Rounds of tasks that leave the scheduler alone are those of \<open>Sched\<close>.
\<close>

text \<open>Tasks that leave the scheduler alone: the round is that of \<open>Sched\<close>.\<close>

lemma SchedRun_round_plain:
  "SchedRun_round fuel env apop apush
     (\<lambda>t (sch, w). let (now, res, stop) = TaskRun env t (sc_now sch)
       in Inr ((sch\<lparr>sc_now := now, sc_stop_flag := sc_stop_flag sch \<or> stop\<rparr>, w), Some res)) (s, w) =
   bindE (SchedRun_body fuel env apop apush s) (\<lambda>(s', how). Inr ((s', w), Some how))"
proof (cases "HeapPeek (sched_heap s)")
  case peek: (Inr task)
  show ?thesis
  proof (cases "HeapPop apop (sched_heap s)")
    case pop: (Inr h)
    show ?thesis
    proof (cases "load_task (s\<lparr>sc_heap := h\<rparr>) task")
      case load: (Inr t)
      show ?thesis
      proof (cases "sleep_loop fuel env (sc_now s) (TaskGetTimeToRun (sc_now s) t)")
        case sleep: (Inr now1)
        obtain now2 res stop where "TaskRun env t now1 = (now2, res, stop)" by (cases "TaskRun env t now1")
        moreover define s2 where "s2 = s\<lparr>sc_heap := h, sc_now := now2, sc_stop_flag := sc_stop_flag s \<or> stop,
            sc_ran := sc_ran s @ [(task, t_time t, now1)]\<rparr>"
        moreover have "s\<lparr>sc_heap := h, sc_ran := sc_ran s @ [(task, t_time t, now1)], sc_now := now2,
            sc_stop_flag := sc_stop_flag s \<or> stop\<rparr> = s2" by (simp add: s2_def)
        ultimately show ?thesis using peek pop load sleep
          by (simp add: SchedRun_round_def SchedRun_after_def SchedRun_body_def Let_def bindE_assoc split_def s2_def [symmetric] if_distrib [of "\<lambda>m. bindE m _"] cong: if_cong)
      qed (use peek pop load in \<open>simp add: SchedRun_round_def SchedRun_body_def Let_def\<close>)
    qed (use peek pop in \<open>simp add: SchedRun_round_def SchedRun_body_def Let_def\<close>)
  qed (use peek in \<open>simp add: SchedRun_round_def SchedRun_body_def\<close>)
qed (simp add: SchedRun_round_def SchedRun_body_def)

section \<open>When the peer is revived\<close>

text \<open>The heartbeats sent since the peer was last heard of, or since it was started again.\<close>

fun unanswered :: "wd_event list \<Rightarrow> nat" where
  "unanswered [] = 0"
| "unanswered (Heartbeat pid sig # es) = Suc (unanswered es)"
| "unanswered (Received SIGUSR1 # es) = 0"
| "unanswered (Forked pid prog # es) = 0"
| "unanswered (e # es) = unanswered es"

text \<open>Every check decided by what was unanswered when it ran.\<close>

fun honest :: "nat \<Rightarrow> wd_event list \<Rightarrow> bool" where
  "honest tol [] = True"
| "honest tol (Reviving # es) = (tol < unanswered es \<and> honest tol es)"
| "honest tol (Check_passed # es) = (unanswered es \<le> tol \<and> honest tol es)"
| "honest tol (e # es) = honest tol es"

definition wd_counts :: "ptr \<Rightarrow> nat \<Rightarrow> wd_proc \<Rightarrow> bool" where
  "wd_counts p tol w \<longleftrightarrow> p \<noteq> NULL \<and> g_ctx w = p \<and> honest tol (w_log w) \<and>
     (\<exists>c. w_ctxs w p = Some c \<and> tolerance c = tol \<and> counter c = int (unanswered (w_log w)) \<and> counter c < 2 ^ 31)"

definition tasks_for :: "ptr \<Rightarrow> sched_t \<Rightarrow> bool" where
  "tasks_for p sch \<longleftrightarrow> (\<forall>q t. sc_tasks sch q = Some t \<longrightarrow> t_op_param t = p)"

text \<open>The peer's heartbeat does not arrive between the sending of a heartbeat and its counting.\<close>

definition calm :: "wd_round \<Rightarrow> bool" where
  "calm r \<longleftrightarrow> Usr1 \<notin> set (rd_mid r 1) \<and> Usr1 \<notin> set (rd_mid r 2)"

lemmas wd_simps = wlog_def put_ctx_def load_ctx_def fetch_def bindE_Inr_iff

lemma interrupt_counts:
  "interrupt is w = Inr w' \<Longrightarrow> wd_counts p tol w \<Longrightarrow> wd_counts p tol w'"
proof (induction "is" arbitrary: w)
  case (Cons i "is")
  from Cons.prems(1) obtain w1 where w1: "interrupt [i] w = Inr w1" "interrupt is w1 = Inr w'"
    by (auto simp: bindE_Inr_iff)
  have "wd_counts p tol w1"
    using w1(1) Cons.prems(2)
    by (cases i) (auto simp: SigUsr1Handler_def SigUsr2Handler_def WDTasksRequestStop_def wd_counts_def wd_simps Let_def split: if_splits)
  with Cons.IH w1(2) show ?case by blast
qed simp

text \<open>Without the peer's signal the counter and what is unanswered stay.\<close>

lemma interrupt_quiet:
  "interrupt is w = Inr w' \<Longrightarrow> Usr1 \<notin> set is \<Longrightarrow> w_ctxs w p = Some c \<Longrightarrow> g_ctx w = p \<Longrightarrow>
   \<exists>c'. w_ctxs w' p = Some c' \<and> counter c' = counter c \<and> tolerance c' = tolerance c \<and>
     unanswered (w_log w') = unanswered (w_log w) \<and> honest tol (w_log w') = honest tol (w_log w) \<and> g_ctx w' = p"
proof (induction "is" arbitrary: w c)
  case (Cons i "is")
  from Cons.prems(1) obtain w1 where w1: "interrupt [i] w = Inr w1" "interrupt is w1 = Inr w'"
    by (auto simp: bindE_Inr_iff)
  have "\<exists>c1. w_ctxs w1 p = Some c1 \<and> counter c1 = counter c \<and> tolerance c1 = tolerance c \<and>
      unanswered (w_log w1) = unanswered (w_log w) \<and> honest tol (w_log w1) = honest tol (w_log w) \<and> g_ctx w1 = p"
    using w1(1) Cons.prems(2-)
    by (cases i) (auto simp: SigUsr1Handler_def SigUsr2Handler_def WDTasksRequestStop_def wd_simps Let_def split: if_splits)
  with Cons.IH [OF w1(2)] Cons.prems(2) show ?case by fastforce
qed auto

lemma TaskSendHeartbeat_counts:
  assumes "TaskSendHeartbeat mid p w = Inr (w', v)" "wd_counts p tol w" "Usr1 \<notin> set (mid 1)" "Usr1 \<notin> set (mid 2)"
  shows "wd_counts p tol w'"
proof -
  obtain c where c: "p \<noteq> NULL" "g_ctx w = p" "w_ctxs w p = Some c" using assms(2) by (auto simp: wd_counts_def)
  show ?thesis
  proof (cases "stop_flag c = 2")
    case True
    with assms(1,2) c show ?thesis by (simp add: TaskSendHeartbeat_def wd_simps)
  next
    case False
    with assms(1) c obtain w1 c1 w3 c3 v' w4 c4 where s:
      "interrupt (mid 0) w = Inr w1" "w_ctxs w1 p = Some c1"
      "interrupt (mid 1) (wlog (Heartbeat (peer_pid c1) (if stop_flag c1 = 0 then SIGUSR1 else SIGUSR2)) w1) = Inr w3"
      "w_ctxs w3 p = Some c3" "int32 (counter c3 + 1) = Inr v'" "interrupt (mid 2) w3 = Inr w4" "w_ctxs w4 p = Some c4"
      "w' = put_ctx p (c4\<lparr>counter := v'\<rparr>) w4"
      by (auto simp: TaskSendHeartbeat_def Let_def bindE_Inr_iff load_ctx_def fetch_def split: option.splits)
    let ?w2 = "wlog (Heartbeat (peer_pid c1) (if stop_flag c1 = 0 then SIGUSR1 else SIGUSR2)) w1"
    have 1: "wd_counts p tol w1" by (rule interrupt_counts [OF s(1) assms(2)])
    then have 2: "unanswered (w_log ?w2) = Suc (unanswered (w_log w1))" "honest tol (w_log ?w2)" "w_ctxs ?w2 p = Some c1" "g_ctx ?w2 = p"
      "counter c1 = int (unanswered (w_log w1))" "tolerance c1 = tol"
      using s(2) by (auto simp: wd_counts_def wlog_def)
    from interrupt_quiet [OF s(3) assms(3) 2(3,4), of tol] 2 s(4) have
      3: "counter c3 = counter c1" "tolerance c3 = tol" "unanswered (w_log w3) = Suc (unanswered (w_log w1))" "honest tol (w_log w3)" "g_ctx w3 = p"
      by auto
    from interrupt_quiet [OF s(6) assms(4) s(4) 3(5), of tol] 3 s(7) have
      "tolerance c4 = tol" "unanswered (w_log w4) = Suc (unanswered (w_log w1))" "honest tol (w_log w4)" "g_ctx w4 = p" by auto
    moreover have "v' = counter c1 + 1" "v' < 2 ^ 31" using s(5) 3(1) by (auto simp: int32_def split: if_splits)
    ultimately show ?thesis using 2(5) c(1) s(8) by (simp add: wd_counts_def put_ctx_def)
  qed
qed

lemma ReviveProcess_counts:
  assumes "ReviveProcess r p w = Inr (w', res)" "wd_counts p tol w"
  shows "wd_counts p tol w'"
  using assms
  by (auto simp: ReviveProcess_def wd_counts_def wd_simps Let_def split: if_splits)

lemma SchedAdd_tasks_for:
  assumes "SchedAdd ap a pid ifs sch op p delay cl clp = Inr (sch', uid)" "tasks_for p sch"
  shows "tasks_for p sch'"
proof -
  have destroy: "tasks_for p s'" if "TaskDestroy s q = Inr s'" "tasks_for p s" for s s' q
    using that by (auto simp: TaskDestroy_def TaskCleanUp_def bindE_Inr_iff tasks_for_def split: if_splits)
  from assms(1) obtain counter' new_task where tc:
    "TaskCreate (ap \<noteq> None) (sc_counter sch) (sc_now sch) pid ifs op p delay cl clp = Inr (counter', new_task)"
    by (auto simp: SchedAdd_def bindE_Inr_iff)
  show ?thesis
  proof (cases "ap = None \<or> new_task = None")
    case True
    then have "sch' = sch\<lparr>sc_counter := counter'\<rparr>"
      using assms(1) tc by (auto simp: SchedAdd_def bindE_Inr_iff Let_def split: option.splits)
    with assms(2) show ?thesis by (simp add: tasks_for_def)
  next
    case False
    then obtain q t where qt: "ap = Some q" "new_task = Some t" by auto
    then have "t_op_param t = p" using tc by (auto simp: TaskCreate_def bindE_Inr_iff Let_def split: if_splits prod.splits)
    then have fits: "tasks_for p (sch\<lparr>sc_counter := counter', sc_tasks := (sc_tasks sch)(q \<mapsto> t), sc_heap := h\<rparr>)" for h
      using assms(2) by (simp add: tasks_for_def)
    from assms(1) tc qt obtain h and status :: int where
      "(if status \<noteq> 0 then bindE (TaskDestroy (sch\<lparr>sc_counter := counter', sc_tasks := (sc_tasks sch)(q \<mapsto> t), sc_heap := h\<rparr>) q)
          (\<lambda>sch4. Inr (sch4, UIDbadUID))
        else Inr (sch\<lparr>sc_counter := counter', sc_tasks := (sc_tasks sch)(q \<mapsto> t), sc_heap := h\<rparr>, TaskUID t)) = Inr (sch', uid)"
      by (auto simp: SchedAdd_def bindE_Inr_iff Let_def)
    with fits destroy show ?thesis by (auto simp: bindE_Inr_iff split: if_splits)
  qed
qed

lemma wd_sched_add_tasks_for: "wd_sched_add a fn p delay sch = Inr (sch', bad) \<Longrightarrow> tasks_for p sch \<Longrightarrow> tasks_for p sch'"
  by (auto simp: wd_sched_add_def bindE_Inr_iff dest: SchedAdd_tasks_for)

lemma wd_restart_tasks_for: "wd_restart r p sw = Inr ((sch', w'), v) \<Longrightarrow> tasks_for p (fst sw) \<Longrightarrow> tasks_for p sch'"
  by (auto simp: wd_restart_def bindE_Inr_iff split: if_splits dest!: wd_sched_add_tasks_for)

lemma wd_restart_proc: "wd_restart r p sw = Inr ((sch', w'), v) \<Longrightarrow> w' = snd sw"
  by (auto simp: wd_restart_def bindE_Inr_iff split: if_splits)

lemma TaskDestroy_tasks_for: "TaskDestroy s q = Inr s' \<Longrightarrow> tasks_for p s \<Longrightarrow> tasks_for p s'"
  by (auto simp: TaskDestroy_def TaskCleanUp_def bindE_Inr_iff tasks_for_def split: if_splits)

lemma SchedClear_tasks_for: "SchedClear fuel a s = Inr s' \<Longrightarrow> tasks_for p s \<Longrightarrow> tasks_for p s'"
proof (induction fuel arbitrary: s)
  case (Suc fuel)
  show ?case
  proof (cases "HeapIsEmpty (sched_heap s) = Inr True")
    case False
    with Suc.prems(1) obtain task h s1 where s1: "TaskDestroy (s\<lparr>sc_heap := h\<rparr>) task = Inr s1" "SchedClear fuel a s1 = Inr s'"
      by (auto simp: bindE_Inr_iff split: if_splits)
    have "tasks_for p (s\<lparr>sc_heap := h\<rparr>)" using Suc.prems(2) by (simp add: tasks_for_def)
    from Suc.IH [OF s1(2) TaskDestroy_tasks_for [OF s1(1) this]] show ?thesis .
  qed (use Suc.prems in simp)
qed simp

lemma TaskSetTimeToRun_tasks_for: "TaskSetTimeToRun s q n = Inr s' \<Longrightarrow> tasks_for p s \<Longrightarrow> tasks_for p s'"
  by (auto simp: TaskSetTimeToRun_def load_task_def fetch_def bindE_Inr_iff tasks_for_def split: option.splits if_splits)

lemma TaskCheckCounter_counts:
  assumes "TaskCheckCounter r p (sch, w) = Inr ((sch', w'), v)" "wd_counts p tol w" "tasks_for p sch"
  shows "wd_counts p tol w' \<and> tasks_for p sch'"
proof -
  obtain c where c: "p \<noteq> NULL" "w_ctxs w p = Some c" using assms(2) by (auto simp: wd_counts_def)
  show ?thesis
  proof (cases "stop_flag c = 2")
    case True
    with assms c show ?thesis
      by (auto simp: TaskCheckCounter_def load_ctx_def bindE_Inr_iff dest: SchedClear_tasks_for)
  next
    case False
    with assms(1) c obtain w1 c1 where s: "interrupt (rd_mid r 0) w = Inr w1" "w_ctxs w1 p = Some c1"
      by (auto simp: TaskCheckCounter_def load_ctx_def fetch_def bindE_Inr_iff split: option.splits)
    have 1: "wd_counts p tol w1" by (rule interrupt_counts [OF s(1) assms(2)])
    then have n: "to_size (counter c1) = unanswered (w_log w1)" "tolerance c1 = tol"
      using s(2) by (auto simp: wd_counts_def to_size_def)
    show ?thesis
    proof (cases "to_size (counter c1) > tolerance c1")
      case True
      have 2: "wd_counts p tol (wlog Reviving w1)" using 1 True n by (auto simp: wd_counts_def wlog_def)
      from assms(1) c s False True obtain sch1 w2 status where r: "SchedClear (rd_fuel r) (rd_pop r) sch = Inr sch1"
        "ReviveProcess r p (wlog Reviving w1) = Inr (w2, status)"
        "sch' = sch1 \<and> w' = w2 \<or> (\<exists>v. wd_restart r p (sch1, w2) = Inr ((sch', w'), v))"
        by (auto simp: TaskCheckCounter_def load_ctx_def bindE_Inr_iff split: option.splits if_splits)
      have "tasks_for p sch1" by (rule SchedClear_tasks_for [OF r(1) assms(3)])
      with r(3) have "tasks_for p sch' \<and> w' = w2" using wd_restart_tasks_for wd_restart_proc by fastforce
      with ReviveProcess_counts [OF r(2) 2] show ?thesis by simp
    next
      case False': False
      with assms c s False 1 n show ?thesis
        by (auto simp: TaskCheckCounter_def load_ctx_def wd_counts_def wlog_def)
    qed
  qed
qed

lemma wd_task_counts:
  assumes "wd_task r t (sch, w) = Inr ((sch', w'), v)" "wd_counts p tol w" "tasks_for p sch" "t_op_param t = p" "calm r"
  shows "wd_counts p tol w' \<and> tasks_for p sch'"
  using assms
  by (auto simp: wd_task_def bindE_Inr_iff calm_def tasks_for_def split: if_splits
      dest!: interrupt_counts TaskSendHeartbeat_counts)
    (auto simp: tasks_for_def dest!: TaskCheckCounter_counts)

lemma SchedRun_after_tasks_for:
  assumes "SchedRun_after a task s result = Inr (s', how)" "tasks_for p s"
  shows "tasks_for p s'"
proof -
  have heap: "tasks_for p (s1\<lparr>sc_heap := h\<rparr>) \<longleftrightarrow> tasks_for p s1" for s1 h by (simp add: tasks_for_def)
  show ?thesis
    using assms heap by (auto simp: SchedRun_after_def bindE_Inr_iff Let_def split: if_splits
        dest: TaskDestroy_tasks_for TaskSetTimeToRun_tasks_for)
qed

lemma wd_round_counts:
  assumes "wd_round_run r (sch, w) = Inr ((sch', w'), how)" "wd_counts p tol w" "tasks_for p sch" "calm r"
  shows "wd_counts p tol w' \<and> tasks_for p sch'"
proof -
  from assms(1) obtain task h t now1 sch2 res where start: "load_task (sch\<lparr>sc_heap := h\<rparr>) task = Inr t"
    "wd_task r t (sch\<lparr>sc_heap := h, sc_now := now1, sc_ran := sc_ran sch @ [(task, t_time t, now1)]\<rparr>, w) = Inr ((sch2, w'), res)"
    "sch' = sch2 \<or> (\<exists>result how. SchedRun_after (rd_push r) task sch2 result = Inr (sch', how))"
    unfolding wd_round_run_def SchedRun_round_def Let_def bindE_Inr_iff
    by (auto simp: bindE_Inr_iff split: option.splits) blast+
  let ?s = "sch\<lparr>sc_heap := h, sc_now := now1, sc_ran := sc_ran sch @ [(task, t_time t, now1)]\<rparr>"
  have "t_op_param t = p" using start(1) assms(3) by (auto simp: load_task_def fetch_def bindE_Inr_iff tasks_for_def split: option.splits)
  moreover have "tasks_for p ?s" using assms(3) by (simp add: tasks_for_def)
  ultimately have 2: "wd_counts p tol w'" "tasks_for p sch2" using wd_task_counts [OF start(2) assms(2) _ _ assms(4)] by auto
  with start(3) SchedRun_after_tasks_for show ?thesis by blast
qed

lemma WDRun_loop_counts:
  "WDRun_loop rs (sch, w) f = Inr ((sch', w'), e) \<Longrightarrow> wd_counts p tol w \<Longrightarrow> tasks_for p sch \<Longrightarrow> list_all calm rs \<Longrightarrow>
   wd_counts p tol w' \<and> tasks_for p sch'"
proof (induction rs arbitrary: sch w f)
  case Nil
  then show ?case by (auto simp: WDRun_loop.simps [of "[]"] bindE_Inr_iff split: if_splits)
next
  case (Cons r rs)
  show ?case
  proof (cases "(sch', w') = (sch, w)")
    case False
    with Cons.prems(1) obtain sch1 w1 how where round: "wd_round_run r (sch, w) = Inr ((sch1, w1), how)"
      and tail: "(case how of None \<Rightarrow> Inr ((sch1, w1), Replaced) | Some Task_failed \<Rightarrow> WDRun_loop rs (sch1, w1) True
          | Some Task_lost \<Rightarrow> Inr ((sch1, w1), Ended FAILED_ALLOC) | Some Task_done \<Rightarrow> WDRun_loop rs (sch1, w1) f
          | Some Task_again \<Rightarrow> WDRun_loop rs (sch1, w1) f) = Inr ((sch', w'), e)"
      by (simp add: WDRun_loop.simps [of "r # rs"] bindE_Inr_iff split: if_splits) force+
    have rest: "(sch', w') = (sch1, w1) \<or> (\<exists>f. WDRun_loop rs (sch1, w1) f = Inr ((sch', w'), e))"
      using tail by (auto split: option.splits round_end.splits)
    have "wd_counts p tol w1" "tasks_for p sch1" using wd_round_counts [OF round] Cons.prems by auto
    with rest Cons.IH Cons.prems(4) show ?thesis by auto
  qed (use Cons.prems in simp)
qed

text \<open>
  Everything from the set-up on: the counter is what is unanswered, every check that revived the peer
  had more than \<open>tolerance\<close> heartbeats unanswered, every check that did not had not.
\<close>

lemma WDTasksInit_counts:
  assumes "WDTasksInit e (sch, w) iw peer interval tol ac av = Inr ((sch', w'), 0)" "in_ctx e \<noteq> Some NULL"
    "sc_tasks sch = Map.empty" "unanswered (w_log w) = 0" "honest tol (w_log w)"
  shows "wd_counts (g_ctx w') tol w' \<and> tasks_for (g_ctx w') sch'"
proof -
  from assms(1) obtain p sch1 where p: "in_ctx e = Some p"
    "wd_sched_add (in_add1 e) TaskSendHeartbeat_fn p 0 sch = Inr (sch1, False)"
    "wd_sched_add (in_add2 e) TaskCheckCounter_fn p 1 sch1 = Inr (sch', False)"
    "w' = wlog (Installed SIGUSR2) (wlog (Installed SIGUSR1) (put_ctx p \<lparr>peer_pid = peer, interval_sec = interval, tolerance = tol,
        counter = 0, stop_flag = 0, is_wd = iw, argc = ac, argv = av\<rparr> (w\<lparr>g_ctx := p\<rparr>)))"
    by (auto simp: WDTasksInit_def bindE_Inr_iff Let_def split: option.splits if_splits)
  have "tasks_for p sch" using assms(3) by (simp add: tasks_for_def)
  then have "tasks_for p sch'" using wd_sched_add_tasks_for p(2,3) by blast
  with p(1,4) assms(2,4,5) show ?thesis by (auto simp: wd_counts_def wlog_def put_ctx_def)
qed

lemma wd_run_log:
  assumes "WDTasksInit e (sch, w) iw peer interval tol ac av = Inr ((sch1, w1), 0)" "in_ctx e \<noteq> Some NULL"
    "sc_tasks sch = Map.empty" "unanswered (w_log w) = 0" "honest tol (w_log w)"
    "list_all calm rs" "WDRun rs (sch1, w1) = Inr ((sch2, w2), how)"
  shows "honest tol (w_log w2) \<and> (\<exists>c. w_ctxs w2 (g_ctx w2) = Some c \<and> counter c = int (unanswered (w_log w2)))"
proof -
  have c: "wd_counts (g_ctx w1) tol w1" "tasks_for (g_ctx w1) sch1" using WDTasksInit_counts [OF assms(1-5)] by auto
  have "tasks_for (g_ctx w1) (sch1\<lparr>sc_stop_flag := False\<rparr>)" using c(2) by (simp add: tasks_for_def)
  with c(1) have "wd_counts (g_ctx w1) tol w2" using WDRun_loop_counts assms(6,7) unfolding WDRun_def fst_conv snd_conv by blast
  then show ?thesis by (auto simp: wd_counts_def)
qed

end
