(* ===== verification/Watchdog_Runs.thy ===== *)
theory Watchdog_Runs
  imports Watchdog_Counts
begin

text \<open>
  Runs of a watching process whose system answers well: they do not fault (\<open>WDRun_loop_ok\<close>), silence is
  noticed after a bounded number of rounds (\<open>wd_run_silent\<close>), a stopped process ends (\<open>wd_run_stops\<close>),
  a watchdog takes over what its client was started with (\<open>wd_main_started\<close>, \<open>wd_revives_with\<close>);
  and the races that the code leaves: \<open>WDStop_overwritten\<close>, \<open>WDStart_without_watch\<close>,
  \<open>TaskSendHeartbeat_lost\<close>.
\<close>

section \<open>Runs do not fault\<close>

definition ctx_ok :: "wd_ctx_t \<Rightarrow> bool" where
  "ctx_ok c \<longleftrightarrow> 0 < interval_sec c \<and> interval_sec c < 2 ^ 32 \<and> 0 \<le> counter c \<and>
     (if is_wd c = 1 then 4 < length (argv c) else argc c \<le> length (argv c))"

text \<open>What never changes in a context.\<close>

definition same_job :: "wd_ctx_t \<Rightarrow> wd_ctx_t \<Rightarrow> bool" where
  "same_job c c' \<longleftrightarrow> interval_sec c' = interval_sec c \<and> tolerance c' = tolerance c \<and> is_wd c' = is_wd c \<and>
     argc c' = argc c \<and> argv c' = argv c"

lemma same_job_refl [simp]: "same_job c c"
  by (simp add: same_job_def)

lemma same_job_trans: "same_job c c' \<Longrightarrow> same_job c' c'' \<Longrightarrow> same_job c c''"
  by (simp add: same_job_def)

lemma same_job_ok: "ctx_ok c \<Longrightarrow> same_job c c' \<Longrightarrow> 0 \<le> counter c' \<Longrightarrow> ctx_ok c'"
  by (simp add: ctx_ok_def same_job_def)

text \<open>From \<open>w\<close> to \<open>w'\<close> the context at \<open>p\<close> keeps its job, the counter grows by at most \<open>n\<close>, the log only grows.\<close>

definition wd_goes :: "ptr \<Rightarrow> int \<Rightarrow> wd_proc \<Rightarrow> wd_proc \<Rightarrow> bool" where
  "wd_goes p n w w' \<longleftrightarrow> g_ctx w = p \<and> g_ctx w' = p \<and> (\<exists>es. w_log w' = es @ w_log w) \<and>
     (\<exists>c c'. w_ctxs w p = Some c \<and> w_ctxs w' p = Some c' \<and> same_job c c' \<and>
        (0 \<le> counter c \<longrightarrow> 0 \<le> counter c' \<and> counter c' \<le> counter c + n))"

lemma wd_goes_refl: "g_ctx w = p \<Longrightarrow> w_ctxs w p = Some c \<Longrightarrow> wd_goes p 0 w w"
  by (simp add: wd_goes_def)

lemma wd_goes_trans: "wd_goes p n w w' \<Longrightarrow> wd_goes p m w' w'' \<Longrightarrow> wd_goes p (n + m) w w''"
  by (auto simp: wd_goes_def intro: same_job_trans)

lemma wd_goes_log: "g_ctx w = p \<Longrightarrow> w_ctxs w p = Some c \<Longrightarrow> wd_goes p 0 w (wlog e w)"
  by (simp add: wd_goes_def wlog_def)

lemma wd_goesE:
  assumes "wd_goes p n w w'" "w_ctxs w p = Some c" "ctx_ok c"
  obtains c' where "w_ctxs w' p = Some c'" "same_job c c'" "ctx_ok c'" "counter c' \<le> counter c + n" "g_ctx w' = p"
proof -
  have "0 \<le> counter c" using assms(3) by (simp add: ctx_ok_def)
  with assms(1,2) obtain c' where c': "w_ctxs w' p = Some c'" "same_job c c'" "0 \<le> counter c'" "counter c' \<le> counter c + n" "g_ctx w' = p"
    by (auto simp: wd_goes_def)
  with same_job_ok [OF assms(3)] that show thesis by blast
qed

lemma interrupt_ok:
  "g_ctx w = p \<Longrightarrow> p \<noteq> NULL \<Longrightarrow> w_ctxs w p = Some c \<Longrightarrow> \<exists>w'. interrupt is w = Inr w' \<and> wd_goes p 0 w w'"
proof (induction "is" arbitrary: w c)
  case (Cons i "is")
  have "\<exists>w1. interrupt [i] w = Inr w1 \<and> wd_goes p 0 w w1"
    using Cons.prems
    by (cases i) (auto simp: SigUsr1Handler_def SigUsr2Handler_def WDTasksRequestStop_def load_ctx_def fetch_def wd_goes_def
        put_ctx_def wlog_def Let_def same_job_def)
  then obtain w1 where w1: "interrupt [i] w = Inr w1" "wd_goes p 0 w w1" by blast
  then obtain c1 where "g_ctx w1 = p" "w_ctxs w1 p = Some c1" by (auto simp: wd_goes_def)
  from Cons.IH [OF this(1) Cons.prems(2) this(2)] obtain w' where w': "interrupt is w1 = Inr w'" "wd_goes p 0 w1 w'" by blast
  have "interrupt (i # is) w = Inr w'" using w1(1) w'(1) by (auto simp: bindE_Inr_iff)
  with wd_goes_trans [OF w1(2) w'(2)] show ?case by simp
qed (simp add: wd_goes_refl)

lemma TaskSendHeartbeat_ok:
  assumes w: "g_ctx w = p" "p \<noteq> NULL" "w_ctxs w p = Some c" and ok: "ctx_ok c" "counter c + 1 < 2 ^ 31"
  shows "\<exists>w' v. TaskSendHeartbeat mid p w = Inr (w', v) \<and> wd_goes p 1 w w' \<and> (v = 0 \<or> v = int (interval_sec c))"
proof (cases "stop_flag c = 2")
  case True
  with w show ?thesis by (auto simp: TaskSendHeartbeat_def load_ctx_def fetch_def wd_goes_def)
next
  case False
  from interrupt_ok [OF w] obtain w1 where w1: "interrupt (mid 0) w = Inr w1" "wd_goes p 0 w w1" by blast
  obtain c1 where c1: "w_ctxs w1 p = Some c1" "same_job c c1" "ctx_ok c1" "counter c1 \<le> counter c" "g_ctx w1 = p"
    using wd_goesE [OF w1(2) w(3) ok(1)] by auto
  let ?w2 = "wlog (Heartbeat (peer_pid c1) (if stop_flag c1 = 0 then SIGUSR1 else SIGUSR2)) w1"
  have 2: "wd_goes p 0 w1 ?w2" "w_ctxs ?w2 p = Some c1" "g_ctx ?w2 = p" using c1 by (simp_all add: wd_goes_log) (simp_all add: wlog_def)
  from interrupt_ok [OF 2(3) w(2) 2(2)] obtain w3 where w3: "interrupt (mid 1) ?w2 = Inr w3" "wd_goes p 0 ?w2 w3" by blast
  obtain c3 where c3: "w_ctxs w3 p = Some c3" "same_job c1 c3" "ctx_ok c3" "counter c3 \<le> counter c1" "g_ctx w3 = p"
    using wd_goesE [OF w3(2) 2(2) c1(3)] by auto
  from interrupt_ok [OF c3(5) w(2) c3(1)] obtain w4 where w4: "interrupt (mid 2) w3 = Inr w4" "wd_goes p 0 w3 w4" by blast
  obtain c4 where c4: "w_ctxs w4 p = Some c4" "same_job c3 c4" "ctx_ok c4" "counter c4 \<le> counter c3" "g_ctx w4 = p"
    using wd_goesE [OF w4(2) c3(1,3)] by auto
  have v: "int32 (counter c3 + 1) = Inr (counter c3 + 1)" "0 \<le> counter c3"
    using ok(2) c1(4) c3(3,4) by (auto simp: int32_def ctx_ok_def)
  let ?w5 = "put_ctx p (c4\<lparr>counter := counter c3 + 1\<rparr>) w4"
  have run: "TaskSendHeartbeat mid p w = Inr (?w5, to_time (interval_sec c4))"
    using w False w1(1) c1(1) w3(1) c3(1) v(1) w4(1) c4(1) by (simp add: TaskSendHeartbeat_def load_ctx_def fetch_def Let_def)
  have job: "same_job c c4" using c1(2) c3(2) c4(2) by (blast intro: same_job_trans)
  have "wd_goes p 0 w w4" using wd_goes_trans [OF wd_goes_trans [OF wd_goes_trans [OF w1(2) 2(1)] w3(2)] w4(2)] by simp
  then have "wd_goes p 1 w ?w5"
    using w c4(1,5) job v(2) c1(4) c3(4) by (auto simp: wd_goes_def put_ctx_def same_job_def)
  moreover have "to_time (interval_sec c4) = int (interval_sec c)"
    using job ok(1) by (simp add: to_time_def same_job_def ctx_ok_def)
  ultimately show ?thesis using run by auto
qed

lemma wd_copy_args_ok: "set is \<subseteq> {..<length av} \<Longrightarrow> wd_copy_args av is acc = Inr (acc @ map ((!) av) is)"
  by (induction "is" arbitrary: acc) auto

lemma take_upt_nth: "n \<le> length xs \<Longrightarrow> map ((!) xs) [0..<n] = take n xs"
  by (auto intro: nth_equalityI)

lemma wd_child_ok:
  "ac \<le> length av \<Longrightarrow> wd_child ok ppid interval tol ac av =
     Inr (if ok then Some ([''./bin/debug/wd'', snprintf_int 32 ppid, snprintf_int 32 (int interval), snprintf_int 32 (int tol)] @ take ac av)
          else None)"
  using wd_copy_args_ok [of "[0..<ac]" av] take_upt_nth [of ac av] by (simp add: wd_child_def lessThan_atLeast0)

lemma ReviveProcess_ok:
  assumes w: "g_ctx w = p" "p \<noteq> NULL" "w_ctxs w p = Some c" and ok: "ctx_ok c"
  shows "\<exists>w' res. ReviveProcess r p w = Inr (w', res) \<and> wd_goes p 0 w w'"
  using assms
  by (auto simp: ReviveProcess_def load_ctx_def fetch_def Let_def ctx_ok_def wd_child_ok wd_goes_def wlog_def put_ctx_def same_job_def)

text \<open>
  Good rounds: enough budget and memory, a \<open>sleep\<close> that sleeps, and for a revival two new addresses, an
  interface for the identifiers and a counter of identifiers that has room.
\<close>

definition good_add :: "wd_add \<Rightarrow> sched_t \<Rightarrow> bool" where
  "good_add a sch \<longleftrightarrow> (\<exists>q ip. ad_task a = Some q \<and> q \<noteq> NULL \<and> sc_tasks sch q = None \<and> GetIPAddress (ad_ifs a) = Some ip)"

definition rd_env :: "wd_round \<Rightarrow> run_env" where
  "rd_env r = \<lparr>re_sleep = rd_sleep r, re_op = (\<lambda>f p now. (now, 0, False))\<rparr>"

definition good_round :: "nat \<Rightarrow> wd_round \<Rightarrow> sched_t \<Rightarrow> bool" where
  "good_round interval r sch \<longleftrightarrow> interval + 3 < rd_fuel r \<and> rd_pop r \<noteq> None \<and> env_ok (rd_env r) \<and> sleep_progress (rd_env r) \<and>
     good_add (rd_add1 r) sch \<and> good_add (rd_add2 r) sch \<and> ad_task (rd_add1 r) \<noteq> ad_task (rd_add2 r) \<and> sc_counter sch + 2 < 2 ^ 64"

definition task_ok :: "ptr \<Rightarrow> nat \<Rightarrow> int \<Rightarrow> task_t \<Rightarrow> bool" where
  "task_ok p interval now t \<longleftrightarrow> t_op_param t = p \<and> (t_op t = TaskSendHeartbeat_fn \<or> t_op t = TaskCheckCounter_fn) \<and>
     t_time t \<le> now + int interval"

lemma fn_addresses [simp]:
  "TaskSendHeartbeat_fn \<noteq> NULL" "TaskCheckCounter_fn \<noteq> NULL" "NoCleanup_fn \<noteq> NULL" "TaskSendHeartbeat_fn \<noteq> TaskCheckCounter_fn"
  "TaskCheckCounter_fn \<noteq> TaskSendHeartbeat_fn"
  by (simp_all add: TaskSendHeartbeat_fn_def TaskCheckCounter_fn_def NoCleanup_fn_def)

lemma wd_sched_add_ok:
  assumes "sched_out out s" "fn \<noteq> NULL" "good_add a s" "\<And>q. ad_task a = Some q \<Longrightarrow> q \<notin> out" "sc_counter s + 1 < 2 ^ 64"
    "card (dom (sc_tasks s) - out) < 8"
  shows "\<exists>s' q t. wd_sched_add a fn p delay s = Inr (s', False) \<and> sched_out out s' \<and> ad_task a = Some q \<and>
    sc_tasks s' = (sc_tasks s)(q \<mapsto> t) \<and> t_op t = fn \<and> t_op_param t = p \<and> t_time t = sc_now s + to_time delay \<and>
    sc_counter s' = sc_counter s + 1 \<and> sc_now s' = sc_now s \<and> sc_stop_flag s' = sc_stop_flag s"
proof -
  from assms(3) obtain q ip where q: "ad_task a = Some q" "q \<noteq> NULL" "sc_tasks s q = None" "GetIPAddress (ad_ifs a) = Some ip"
    by (auto simp: good_add_def)
  from SchedAdd_out [OF assms(1,2) _ q(4) assms(5) q(3) assms(4) [OF q(1)] q(2) assms(6), of NoCleanup_fn "ad_alloc a" "ad_pid a" p delay NULL]
  show ?thesis using q(1) by (auto simp: wd_sched_add_def)
qed

definition tasks_fit :: "ptr \<Rightarrow> nat \<Rightarrow> sched_t \<Rightarrow> bool" where
  "tasks_fit p interval sch \<longleftrightarrow> (\<forall>q t. sc_tasks sch q = Some t \<longrightarrow> task_ok p interval (sc_now sch) t)"

text \<open>The scheduler while the task at \<open>k\<close> runs.\<close>

definition busy :: "ptr \<Rightarrow> task_t \<Rightarrow> ptr \<Rightarrow> nat \<Rightarrow> sched_t \<Rightarrow> bool" where
  "busy k t p interval sch \<longleftrightarrow> sched_out {k} sch \<and> sc_tasks sch k = Some t \<and> tasks_fit p interval sch \<and>
     card (dom (sc_tasks sch) - {k}) \<le> 2 \<and> \<not> sc_stop_flag sch"

lemma busy_time: "busy k t p interval sch \<Longrightarrow> busy k t p interval (sch\<lparr>sc_now := sc_now sch + int n\<rparr>)"
  by (fastforce simp: busy_def tasks_fit_def task_ok_def sched_out_def sched_heap_def)

lemma wd_restart_ok:
  assumes out: "sched_out {k} sch" "sc_tasks sch = [k \<mapsto> t]" "task_ok p interval (sc_now sch) t" "\<not> sc_stop_flag sch"
    and add: "good_add (rd_add1 r) sch" "good_add (rd_add2 r) sch" "ad_task (rd_add1 r) \<noteq> ad_task (rd_add2 r)" "sc_counter sch + 2 < 2 ^ 64"
    and c: "w_ctxs w p = Some c" "interval_sec c = interval" "interval < 2 ^ 32"
  shows "\<exists>sch'. wd_restart r p (sch, w) = Inr ((sch', w), int interval) \<and> busy k t p interval sch' \<and>
    sc_now sch' = sc_now sch \<and> sc_counter sch' = sc_counter sch + 2"
proof -
  have k: "ad_task (rd_add1 r) \<noteq> Some k" "ad_task (rd_add2 r) \<noteq> Some k" using add(1,2) out(2) by (auto simp: good_add_def)
  have "card (dom (sc_tasks sch) - {k}) < 8" using out(2) by simp
  with wd_sched_add_ok [OF out(1) fn_addresses(1) add(1), of p 0] k add(4) obtain sch1 q1 t1 where
    1: "wd_sched_add (rd_add1 r) TaskSendHeartbeat_fn p 0 sch = Inr (sch1, False)" "sched_out {k} sch1" "ad_task (rd_add1 r) = Some q1"
      "sc_tasks sch1 = (sc_tasks sch)(q1 \<mapsto> t1)" "t_op t1 = TaskSendHeartbeat_fn" "t_op_param t1 = p" "t_time t1 = sc_now sch + to_time 0"
      "sc_counter sch1 = sc_counter sch + 1" "sc_now sch1 = sc_now sch" "sc_stop_flag sch1 = sc_stop_flag sch" by auto
  have qk: "q1 \<noteq> k" using k(1) 1(3) by auto
  have "good_add (rd_add2 r) sch1" using add(2,3) 1(3,4) by (auto simp: good_add_def)
  moreover have "card (dom (sc_tasks sch1) - {k}) < 8" using 1(4) out(2) by (simp add: insert_Diff_if)
  ultimately obtain sch2 q2 t2 where
    2: "wd_sched_add (rd_add2 r) TaskCheckCounter_fn p 0 sch1 = Inr (sch2, False)" "sched_out {k} sch2" "ad_task (rd_add2 r) = Some q2"
      "sc_tasks sch2 = (sc_tasks sch1)(q2 \<mapsto> t2)" "t_op t2 = TaskCheckCounter_fn" "t_op_param t2 = p" "t_time t2 = sc_now sch1 + to_time 0"
      "sc_counter sch2 = sc_counter sch1 + 1" "sc_now sch2 = sc_now sch1" "sc_stop_flag sch2 = sc_stop_flag sch1"
    using wd_sched_add_ok [OF 1(2) fn_addresses(2), of "rd_add2 r" p 0] k add(4) 1(8) by auto
  have "q2 \<noteq> k" using k(2) 2(3) by auto
  have zero: "to_time 0 = 0" by (simp add: to_time_def)
  have "tasks_fit p interval sch2"
    using 1 2 out(2,3) zero by (auto simp: tasks_fit_def task_ok_def split: if_splits)
  moreover have "card (dom (sc_tasks sch2) - {k}) \<le> 2"
    using 1(4) 2(4) out(2) by (simp add: insert_Diff_if card_insert_if)
  moreover have "sc_tasks sch2 k = Some t" using 1(4) 2(4) out(2) qk \<open>q2 \<noteq> k\<close> by simp
  ultimately have "busy k t p interval sch2" using 2(2,10) 1(10) out(4) by (simp add: busy_def)
  moreover have "wd_restart r p (sch, w) = Inr ((sch2, w), int interval)"
    using 1(1) 2(1) c by (simp add: wd_restart_def load_ctx_def fetch_def to_time_def)
  ultimately show ?thesis using 1(8,9) 2(8,9) by auto
qed

lemma TaskCheckCounter_ok:
  assumes w: "g_ctx w = p" "p \<noteq> NULL" "w_ctxs w p = Some c" and ok: "ctx_ok c"
    and b: "busy k t p (interval_sec c) sch" and good: "good_round (interval_sec c) r sch"
  shows "\<exists>sch' w' v. TaskCheckCounter r p (sch, w) = Inr ((sch', w'), v) \<and> wd_goes p 0 w w' \<and> busy k t p (interval_sec c) sch' \<and>
    sc_now sch' = sc_now sch \<and> sc_counter sch' \<le> sc_counter sch + 2 \<and> v \<in> {None, Some 0, Some (int (interval_sec c))}"
proof -
  obtain junk where junk: "rd_pop r = Some junk" using good by (auto simp: good_round_def)
  have "card (dom (sc_tasks sch) - {k}) < rd_fuel r" using b good by (simp add: busy_def good_round_def)
  with SchedClear_out [of "{k}" sch "rd_fuel r" junk] b junk obtain sch1 where
    clear: "SchedClear (rd_fuel r) (rd_pop r) sch = Inr sch1" "sched_out {k} sch1" "sc_tasks sch1 = [k \<mapsto> t]"
      "sc_now sch1 = sc_now sch" "sc_counter sch1 = sc_counter sch" "\<not> sc_stop_flag sch1"
    by (auto simp: busy_def restrict_map_def fun_eq_iff)
  have tok: "task_ok p (interval_sec c) (sc_now sch1) t" using b clear(4) by (auto simp: busy_def tasks_fit_def)
  have b1: "busy k t p (interval_sec c) sch1" using clear tok by (auto simp: busy_def tasks_fit_def)
  show ?thesis
  proof (cases "stop_flag c = 2")
    case True
    with w clear b1 show ?thesis by (auto simp: TaskCheckCounter_def load_ctx_def fetch_def wd_goes_refl)
  next
    case False
    from interrupt_ok [OF w] obtain w1 where w1: "interrupt (rd_mid r 0) w = Inr w1" "wd_goes p 0 w w1" by blast
    obtain c1 where c1: "w_ctxs w1 p = Some c1" "same_job c c1" "ctx_ok c1" "counter c1 \<le> counter c" "g_ctx w1 = p"
      using wd_goesE [OF w1(2) w(3) ok] by auto
    have time: "to_time (interval_sec c1) = int (interval_sec c)" "interval_sec c < 2 ^ 32"
      using c1(2) ok by (simp_all add: to_time_def same_job_def ctx_ok_def)
    show ?thesis
    proof (cases "to_size (counter c1) > tolerance c1")
      case False': False
      have "wd_goes p 0 w (wlog Check_passed w1)" using wd_goes_trans [OF w1(2) wd_goes_log [OF c1(5,1)]] by simp
      with False False' w w1(1) c1(1) time b show ?thesis by (simp add: TaskCheckCounter_def load_ctx_def fetch_def)
    next
      case True
      have l: "g_ctx (wlog Reviving w1) = p" "w_ctxs (wlog Reviving w1) p = Some c1" using c1 by (simp_all add: wlog_def)
      obtain w2 res where rev: "ReviveProcess r p (wlog Reviving w1) = Inr (w2, res)" "wd_goes p 0 (wlog Reviving w1) w2"
        using ReviveProcess_ok [OF l(1) w(2) l(2) c1(3)] by blast
      have g: "wd_goes p 0 w w2" using wd_goes_trans [OF wd_goes_trans [OF w1(2) wd_goes_log [OF c1(5,1)]] rev(2)] by simp
      obtain c2 where c2: "w_ctxs w2 p = Some c2" "same_job c1 c2" using wd_goesE [OF rev(2) l(2) c1(3)] by auto
      have run: "TaskCheckCounter r p (sch, w) = (case res of
          None \<Rightarrow> Inr ((sch1, w2), None)
        | Some st \<Rightarrow> if st \<noteq> 0 then Inr ((sch1, w2), Some 0) else bindE (wd_restart r p (sch1, w2)) (\<lambda>(sw', v). Inr (sw', Some v)))"
        using False True w w1(1) c1(1) clear(1) rev(1) by (simp add: TaskCheckCounter_def load_ctx_def fetch_def)
      show ?thesis
      proof (cases "res = Some 0")
        case True
        have i2: "interval_sec c2 = interval_sec c" using c1(2) c2(2) by (simp add: same_job_def)
        have "good_add a sch1" if "good_add a sch" for a
        proof -
          from that obtain q ip where q: "ad_task a = Some q" "q \<noteq> NULL" "sc_tasks sch q = None" "GetIPAddress (ad_ifs a) = Some ip"
            by (auto simp: good_add_def)
          moreover have "q \<noteq> k" using q(3) b by (auto simp: busy_def)
          ultimately show ?thesis using clear(3) by (simp add: good_add_def)
        qed
        then have "good_add (rd_add1 r) sch1" "good_add (rd_add2 r) sch1" "ad_task (rd_add1 r) \<noteq> ad_task (rd_add2 r)" "sc_counter sch1 + 2 < 2 ^ 64"
          using good clear(5) by (auto simp: good_round_def)
        from wd_restart_ok [OF clear(2,3) tok clear(6) this c2(1) i2 time(2)] obtain sch2 where
          "wd_restart r p (sch1, w2) = Inr ((sch2, w2), int (interval_sec c))" "busy k t p (interval_sec c) sch2"
          "sc_now sch2 = sc_now sch1" "sc_counter sch2 = sc_counter sch1 + 2" by blast
        with run True g clear(4,5) show ?thesis by simp
      next
        case False
        with run g b1 clear(4,5) show ?thesis by (auto split: option.splits)
      qed
    qed
  qed
qed

lemma wd_task_ok:
  assumes w: "g_ctx w = p" "p \<noteq> NULL" "w_ctxs w p = Some c" and ok: "ctx_ok c" "counter c + 1 < 2 ^ 31"
    and b: "busy k t p (interval_sec c) sch" and good: "good_round (interval_sec c) r sch"
  shows "\<exists>sch' w' v. wd_task r t (sch, w) = Inr ((sch', w'), v) \<and> wd_goes p 1 w w' \<and> busy k t p (interval_sec c) sch' \<and>
    sc_now sch' = sc_now sch + int (rd_took r) \<and> sc_counter sch' \<le> sc_counter sch + 2 \<and> v \<in> {None, Some 0, Some (int (interval_sec c))}"
proof -
  from interrupt_ok [OF w] obtain w1 where w1: "interrupt (rd_before r) w = Inr w1" "wd_goes p 0 w w1" by blast
  obtain c1 where c1: "w_ctxs w1 p = Some c1" "same_job c c1" "ctx_ok c1" "counter c1 \<le> counter c" "g_ctx w1 = p"
    using wd_goesE [OF w1(2) w(3) ok(1)] by auto
  have i1: "interval_sec c1 = interval_sec c" using c1(2) by (simp add: same_job_def)
  have t: "t_op_param t = p" "t_op t = TaskSendHeartbeat_fn \<or> t_op t = TaskCheckCounter_fn"
    using b by (auto simp: busy_def tasks_fit_def task_ok_def)
  from t(2) show ?thesis
  proof
    assume op: "t_op t = TaskSendHeartbeat_fn"
    from TaskSendHeartbeat_ok [OF c1(5) w(2) c1(1,3), of "rd_mid r"] ok(2) c1(4) obtain w2 v where
      "TaskSendHeartbeat (rd_mid r) p w1 = Inr (w2, v)" "wd_goes p 1 w1 w2" "v = 0 \<or> v = int (interval_sec c1)" by auto
    with op t(1) w1(1) wd_goes_trans [OF w1(2)] busy_time [OF b] i1 show ?thesis by (auto simp: wd_task_def)
  next
    assume op: "t_op t = TaskCheckCounter_fn"
    from TaskCheckCounter_ok [OF c1(5) w(2) c1(1,3), of k t sch r] b good i1 obtain sch2 w2 v where
      ch: "TaskCheckCounter r p (sch, w1) = Inr ((sch2, w2), v)" "wd_goes p 0 w1 w2" "busy k t p (interval_sec c) sch2"
      "sc_now sch2 = sc_now sch" "sc_counter sch2 \<le> sc_counter sch + 2" "v \<in> {None, Some 0, Some (int (interval_sec c))}" by auto
    have "wd_goes p 1 w w2" using wd_goes_trans [OF w1(2) ch(2)] by (auto simp: wd_goes_def) 
    with ch op t(1) w1(1) busy_time [OF ch(3)] show ?thesis by (auto simp: wd_task_def)
  qed
qed

lemma SchedRun_after_ok:
  assumes b: "busy k t p interval sch" and i: "0 < interval" "interval < 2 ^ 32"
  shows "\<exists>s. SchedRun_after a k sch 0 = Inr (s, Task_done) \<and> sched_inv s \<and> sc_tasks s = (sc_tasks sch)(k := None) \<and>
      sc_now s = sc_now sch \<and> sc_counter s = sc_counter sch \<and> sc_stop_flag s = sc_stop_flag sch"
    and "\<exists>s. SchedRun_after a k sch (int interval) = Inr (s, Task_again) \<and> sched_inv s \<and>
      sc_tasks s = (sc_tasks sch)(k \<mapsto> t\<lparr>t_time := sc_now sch + int interval\<rparr>) \<and>
      sc_now s = sc_now sch \<and> sc_counter s = sc_counter sch \<and> sc_stop_flag s = sc_stop_flag sch"
proof -
  have out: "sched_out {k} sch" "sc_tasks sch k = Some t" "card (dom (sc_tasks sch) - {k}) < 8" using b by (auto simp: busy_def)
  then have k: "k \<noteq> NULL" by (auto simp: sched_out_def)
  have null: "sc_tasks sch NULL = None" using out(1) by (auto simp: sched_out_def)
  let ?d = "sch\<lparr>sc_cleaned := sc_cleaned sch @ [(t_cleanup t, t_cleanup_param t)], sc_tasks := (sc_tasks sch)(k := None)\<rparr>"
  have d: "TaskDestroy sch k = Inr ?d" using TaskDestroy_ok [OF out(2) k] .
  have "sched_out {k} ?d" by (rule sched_out_tasks [OF out(1)]) (use null in auto)
  from sched_out_less [OF this, of k] have "sched_inv ?d" by (simp add: sched_out_inv)
  with d show "\<exists>s. SchedRun_after a k sch 0 = Inr (s, Task_done) \<and> sched_inv s \<and> sc_tasks s = (sc_tasks sch)(k := None) \<and>
      sc_now s = sc_now sch \<and> sc_counter s = sc_counter sch \<and> sc_stop_flag s = sc_stop_flag sch"
    by (auto simp: SchedRun_after_def)
  let ?t = "t\<lparr>t_time := sc_now sch + int interval\<rparr>"
  let ?s = "sch\<lparr>sc_tasks := (sc_tasks sch)(k \<mapsto> ?t)\<rparr>"
  have set: "TaskSetTimeToRun sch k interval = Inr ?s" using out(2) k i(2) by (simp add: TaskSetTimeToRun_def load_task_ok to_time_def)
  have out1: "sched_out {k} ?s" by (rule sched_out_tasks [OF out(1)]) (use null k in auto)
  have "dom (sc_tasks ?s) - {k} = dom (sc_tasks sch) - {k}" by auto
  with sched_push_out [OF out1, of k ?t a] out(3) obtain h where
    "HeapPush a (sched_heap ?s) k = Inr (h, 0)" "sched_inv (?s\<lparr>sc_heap := h\<rparr>)" by (auto simp: sched_out_inv)
  with set i(1) show "\<exists>s. SchedRun_after a k sch (int interval) = Inr (s, Task_again) \<and> sched_inv s \<and>
      sc_tasks s = (sc_tasks sch)(k \<mapsto> ?t) \<and> sc_now s = sc_now sch \<and> sc_counter s = sc_counter sch \<and> sc_stop_flag s = sc_stop_flag sch"
    by (intro exI [of _ "?s\<lparr>sc_heap := h\<rparr>"]) (simp add: SchedRun_after_def)
qed

text \<open>A process in its scheduler, between two rounds.\<close>

definition wd_live :: "ptr \<Rightarrow> wd_ctx_t \<Rightarrow> sched_t \<Rightarrow> wd_proc \<Rightarrow> bool" where
  "wd_live p c sch w \<longleftrightarrow> sched_inv sch \<and> \<not> sc_stop_flag sch \<and> card (dom (sc_tasks sch)) \<le> 3 \<and> tasks_fit p (interval_sec c) sch \<and>
     p \<noteq> NULL \<and> g_ctx w = p \<and> w_ctxs w p = Some c \<and> ctx_ok c"

lemma sched_inv_finite: "sched_inv s \<Longrightarrow> finite (dom (sc_tasks s))"
  by (metis sched_inv_def List.finite_set)

lemma wd_round_start:
  assumes live: "wd_live p c sch w" and some: "sc_tasks sch \<noteq> Map.empty" and good: "good_round (interval_sec c) r sch"
  shows "\<exists>k t s. sc_tasks sch k = Some t \<and> (\<forall>q u. sc_tasks sch q = Some u \<longrightarrow> t_time t \<le> t_time u) \<and>
    busy k t p (interval_sec c) s \<and> sc_tasks s = sc_tasks sch \<and> sc_counter s = sc_counter sch \<and>
    sc_now sch \<le> sc_now s \<and> t_time t \<le> sc_now s \<and>
    wd_round_run r (sch, w) = bindE (wd_task r t (s, w)) (\<lambda>((sch2, w), res).
      case res of
        None \<Rightarrow> Inr ((sch2, w), None)
      | Some result \<Rightarrow> bindE (SchedRun_after (rd_push r) k sch2 result) (\<lambda>(sch3, how). Inr ((sch3, w), Some how)))"
proof -
  obtain junk where junk: "rd_pop r = Some junk" using good by (auto simp: good_round_def)
  have inv: "sched_out {} sch" "NULL \<notin> dom (sc_tasks sch)" using live by (auto simp: wd_live_def sched_out_inv [symmetric] sched_inv_def)
  have "dom (sc_tasks sch) - {} \<noteq> {}" using some by simp
  from sched_pop_out [OF inv(1) this, of junk] obtain k t h where pop: "HeapPeek (sched_heap sch) = Inr k"
    "HeapPop (Some junk) (sched_heap sch) = Inr h" "sc_tasks sch k = Some t" "k \<noteq> NULL" "heap_inv h"
    "hp_compare h = WrapperTaskCmp (sc_tasks sch)" "distinct (heap_elems h)" "set (heap_elems h) = dom (sc_tasks sch) - insert k {}"
    "\<forall>q u. sc_tasks sch q = Some u \<longrightarrow> t_time t \<le> t_time u" by auto
  have out: "sched_out {k} (sch\<lparr>sc_heap := h\<rparr>)" using sched_out_pop [OF pop(5-8) inv(2)] .
  have tok: "task_ok p (interval_sec c) (sc_now sch) t" using live pop(3) by (auto simp: wd_live_def tasks_fit_def)
  let ?n = "TaskGetTimeToRun (sc_now sch) t"
  have n: "?n \<le> interval_sec c" "t_time t \<le> sc_now sch + int ?n" using tok by (auto simp: TaskGetTimeToRun_def Let_def task_ok_def)
  have i: "interval_sec c < 2 ^ 32" using live by (simp add: wd_live_def ctx_ok_def)
  have nn: "?n < 2 ^ 32" "?n < rd_fuel r" using n(1) i good by (auto simp: good_round_def)
  have env: "env_ok (rd_env r)" "sleep_progress (rd_env r)" using good by (auto simp: good_round_def)
  from sleep_loop_returns [OF env(2) nn] obtain now1 where sleep: "sleep_loop (rd_fuel r) (rd_env r) (sc_now sch) ?n = Inr now1" by blast
  from sleep_loop_wakes [OF env(1) nn(1) sleep] n(2) have wake: "sc_now sch \<le> now1" "t_time t \<le> now1" by linarith+
  let ?s = "sch\<lparr>sc_heap := h, sc_now := now1, sc_ran := sc_ran sch @ [(k, t_time t, now1)]\<rparr>"
  have "sched_out {k} ?s" using out by (simp add: sched_out_def sched_heap_def)
  moreover have "tasks_fit p (interval_sec c) ?s" using live wake(1) by (fastforce simp: wd_live_def tasks_fit_def task_ok_def)
  moreover have "card (dom (sc_tasks sch) - {k}) \<le> 2"
    using live sched_inv_finite [of sch] pop(3) by (auto simp: wd_live_def card_Diff_singleton [OF domI])
  ultimately have "busy k t p (interval_sec c) ?s" using live pop(3) by (simp add: busy_def wd_live_def)
  moreover have "wd_round_run r (sch, w) = bindE (wd_task r t (?s, w)) (\<lambda>((sch2, w), res).
      case res of
        None \<Rightarrow> Inr ((sch2, w), None)
      | Some result \<Rightarrow> bindE (SchedRun_after (rd_push r) k sch2 result) (\<lambda>(sch3, how). Inr ((sch3, w), Some how)))"
    using pop sleep junk by (simp add: wd_round_run_def SchedRun_round_def load_task_ok rd_env_def)
  ultimately show ?thesis using pop wake by (intro exI [of _ k] exI [of _ t] exI [of _ ?s]) simp
qed

lemma wd_round_ok:
  assumes live: "wd_live p c sch w" and some: "sc_tasks sch \<noteq> Map.empty" and good: "good_round (interval_sec c) r sch"
    and cnt: "counter c + 1 < 2 ^ 31"
  shows "\<exists>sch' w' how. wd_round_run r (sch, w) = Inr ((sch', w'), how) \<and> wd_goes p 1 w w' \<and> sc_counter sch' \<le> sc_counter sch + 2 \<and>
    how \<in> {None, Some Task_done, Some Task_again} \<and>
    (how \<noteq> None \<longrightarrow> (\<exists>c'. wd_live p c' sch' w' \<and> same_job c c' \<and> counter c' \<le> counter c + 1))"
proof -
  have w: "g_ctx w = p" "p \<noteq> NULL" "w_ctxs w p = Some c" "ctx_ok c" using live by (auto simp: wd_live_def)
  have i: "0 < interval_sec c" "interval_sec c < 2 ^ 32" using w(4) by (auto simp: ctx_ok_def)
  obtain k t s where s: "sc_tasks sch k = Some t" "busy k t p (interval_sec c) s" "sc_tasks s = sc_tasks sch" "sc_counter s = sc_counter sch"
    "wd_round_run r (sch, w) = bindE (wd_task r t (s, w)) (\<lambda>((sch2, w), res).
      case res of
        None \<Rightarrow> Inr ((sch2, w), None)
      | Some result \<Rightarrow> bindE (SchedRun_after (rd_push r) k sch2 result) (\<lambda>(sch3, how). Inr ((sch3, w), Some how)))"
    using wd_round_start [OF live some good] by blast
  have "good_round (interval_sec c) r s" using good s(3,4) by (simp add: good_round_def good_add_def)
  from wd_task_ok [OF w cnt s(2) this] obtain sch2 w2 v where act: "wd_task r t (s, w) = Inr ((sch2, w2), v)" "wd_goes p 1 w w2"
    "busy k t p (interval_sec c) sch2" "sc_counter sch2 \<le> sc_counter s + 2" "v \<in> {None, Some 0, Some (int (interval_sec c))}" by blast
  obtain c2 where c2: "w_ctxs w2 p = Some c2" "same_job c c2" "ctx_ok c2" "counter c2 \<le> counter c + 1" "g_ctx w2 = p"
    using wd_goesE [OF act(2) w(3,4)] by auto
  have i2: "interval_sec c2 = interval_sec c" using c2(2) by (simp add: same_job_def)
  have fin: "finite (dom (sc_tasks sch2) - {k})" using act(3) by (metis busy_def sched_out_def List.finite_set)
  consider "v = None" | "v = Some 0" | "v = Some (int (interval_sec c))" using act(5) by blast
  then show ?thesis
  proof cases
    case 1
    with s(5) act s(4) show ?thesis by auto
  next
    case 2
    obtain s3 where s3: "SchedRun_after (rd_push r) k sch2 0 = Inr (s3, Task_done)" "sched_inv s3" "sc_tasks s3 = (sc_tasks sch2)(k := None)"
      "sc_now s3 = sc_now sch2" "sc_counter s3 = sc_counter sch2" "sc_stop_flag s3 = sc_stop_flag sch2"
      using SchedRun_after_ok(1) [OF act(3) i] by blast
    have "dom (sc_tasks s3) = dom (sc_tasks sch2) - {k}" using s3(3) by auto
    then have "wd_live p c2 s3 w2" using s3 act(3) c2 w(2) i2 by (auto simp: wd_live_def busy_def tasks_fit_def split: if_splits)
    with 2 s(4,5) act s3(1,5) c2 show ?thesis by auto
  next
    case 3
    obtain s3 where s3: "SchedRun_after (rd_push r) k sch2 (int (interval_sec c)) = Inr (s3, Task_again)" "sched_inv s3"
      "sc_tasks s3 = (sc_tasks sch2)(k \<mapsto> t\<lparr>t_time := sc_now sch2 + int (interval_sec c)\<rparr>)"
      "sc_now s3 = sc_now sch2" "sc_counter s3 = sc_counter sch2" "sc_stop_flag s3 = sc_stop_flag sch2"
      using SchedRun_after_ok(2) [OF act(3) i] by blast
    have "dom (sc_tasks s3) = insert k (dom (sc_tasks sch2))" using s3(3) by auto
    then have "card (dom (sc_tasks s3)) = Suc (card (dom (sc_tasks sch2) - {k}))" using fin by (simp add: card.insert_remove)
    then have "card (dom (sc_tasks s3)) \<le> 3" using act(3) by (simp add: busy_def)
    moreover have "tasks_fit p (interval_sec c) s3" using s3(3,4) act(3) by (auto simp: busy_def tasks_fit_def task_ok_def)
    ultimately have "wd_live p c2 s3 w2" using s3 act(3) c2 w(2) i2 by (simp add: wd_live_def busy_def)
    with 3 s(4,5) act s3(1,5) c2 show ?thesis by auto
  qed
qed

text \<open>A run all of whose rounds are good for the state they find.\<close>

fun good_run :: "nat \<Rightarrow> wd_round list \<Rightarrow> sched_t \<times> wd_proc \<Rightarrow> bool" where
  "good_run interval [] sw = True"
| "good_run interval (r # rs) sw \<longleftrightarrow> good_round interval r (fst sw) \<and>
     (case wd_round_run r sw of Inl e \<Rightarrow> True | Inr (sw', how) \<Rightarrow> how = None \<or> good_run interval rs sw')"

lemma WDRun_loop_done: "wd_live p c sch w \<Longrightarrow> sc_tasks sch = Map.empty \<Longrightarrow>
  WDRun_loop rs (sch, w) f = Inr ((sch, w), Ended (if f then FAILED_TASKS_EMPTY_SCHED else SUCCESS))"
  by (simp add: WDRun_loop.simps [of rs] wd_live_def SchedIsEmpty_ok ComputeExitStatus_def)

lemma WDRun_loop_step:
  assumes "wd_live p c sch w" "sc_tasks sch \<noteq> Map.empty"
  shows "WDRun_loop [] (sch, w) f = Inr ((sch, w), Running)"
    and "WDRun_loop (r # rs) (sch, w) f = bindE (wd_round_run r (sch, w)) (\<lambda>(sw', how).
              case how of
                None \<Rightarrow> Inr (sw', Replaced)
              | Some Task_failed \<Rightarrow> WDRun_loop rs sw' True
              | Some Task_lost \<Rightarrow> Inr (sw', Ended FAILED_ALLOC)
              | Some Task_done \<Rightarrow> WDRun_loop rs sw' f
              | Some Task_again \<Rightarrow> WDRun_loop rs sw' f)"
  using assms by (simp_all add: WDRun_loop.simps [of "[]"] WDRun_loop.simps [of "r # rs"] wd_live_def SchedIsEmpty_ok)

lemma WDRun_loop_ok:
  "wd_live p c sch w \<Longrightarrow> good_run (interval_sec c) rs (sch, w) \<Longrightarrow> counter c + int (length rs) < 2 ^ 31 \<Longrightarrow>
   \<exists>sch' w' e. WDRun_loop rs (sch, w) f = Inr ((sch', w'), e) \<and> (\<exists>es. w_log w' = es @ w_log w) \<and>
     (e \<noteq> Replaced \<longrightarrow> (\<exists>c'. wd_live p c' sch' w'))"
proof (induction rs arbitrary: sch w c)
  case Nil
  show ?case
  proof (cases "sc_tasks sch = Map.empty")
    case True
    with WDRun_loop_done [OF Nil.prems(1)] Nil.prems(1) show ?thesis by auto
  next
    case False
    with WDRun_loop_step(1) [OF Nil.prems(1)] Nil.prems(1) show ?thesis by auto
  qed
next
  case (Cons r rs)
  show ?case
  proof (cases "sc_tasks sch = Map.empty")
    case True
    with WDRun_loop_done [OF Cons.prems(1)] Cons.prems(1) show ?thesis by auto
  next
    case False
    have good: "good_round (interval_sec c) r sch" using Cons.prems(2) by simp
    have cnt: "counter c + 1 < 2 ^ 31" using Cons.prems(3) by simp
    obtain sch1 w1 how where r: "wd_round_run r (sch, w) = Inr ((sch1, w1), how)" "wd_goes p 1 w w1" "how \<in> {None, Some Task_done, Some Task_again}"
      "how \<noteq> None \<longrightarrow> (\<exists>c'. wd_live p c' sch1 w1 \<and> same_job c c' \<and> counter c' \<le> counter c + 1)"
      using wd_round_ok [OF Cons.prems(1) False good cnt] by blast
    obtain es where es: "w_log w1 = es @ w_log w" using r(2) by (auto simp: wd_goes_def)
    show ?thesis
    proof (cases "how = None")
      case True
      with r(1) es show ?thesis by (simp add: WDRun_loop_step(2) [OF Cons.prems(1) False])
    next
      case how: False
      then obtain c1 where c1: "wd_live p c1 sch1 w1" "same_job c c1" "counter c1 \<le> counter c + 1" using r(4) by blast
      have "good_run (interval_sec c1) rs (sch1, w1)" "counter c1 + int (length rs) < 2 ^ 31"
        using Cons.prems(2,3) r(1) how c1(2,3) by (auto simp: same_job_def)
      from Cons.IH [OF c1(1) this] r(1,3) how es show ?thesis by (auto simp: WDRun_loop_step(2) [OF Cons.prems(1) False])
    qed
  qed
qed

section \<open>Silence is noticed\<close>

text \<open>Rounds in which nothing comes from the peer.\<close>

definition silent :: "wd_round \<Rightarrow> bool" where
  "silent r \<longleftrightarrow> set (rd_before r) \<subseteq> {Request_stop} \<and> (\<forall>k. set (rd_mid r k) \<subseteq> {Request_stop})"

lemma interrupt_silent:
  "interrupt is w = Inr w' \<Longrightarrow> set is \<subseteq> {Request_stop} \<Longrightarrow> g_ctx w = p \<Longrightarrow> w_ctxs w p = Some c \<Longrightarrow> stop_flag c \<noteq> 2 \<Longrightarrow>
   g_ctx w' = p \<and> (\<exists>c'. w_ctxs w' p = Some c' \<and> counter c' = counter c \<and> same_job c c' \<and> stop_flag c' \<noteq> 2)"
proof (induction "is" arbitrary: w c)
  case (Cons i "is")
  then have i: "i = Request_stop" by simp
  show ?case
  proof (cases "p = NULL")
    case True
    with Cons i show ?thesis by (auto simp: WDTasksRequestStop_def)
  next
    case False
    let ?w = "put_ctx p (c\<lparr>stop_flag := 1\<rparr>) w"
    have "interrupt is ?w = Inr w'" using Cons.prems i False by (simp add: WDTasksRequestStop_def load_ctx_def fetch_def)
    from Cons.IH [OF this, of "c\<lparr>stop_flag := 1\<rparr>"] Cons.prems show ?thesis by (auto simp: put_ctx_def same_job_def)
  qed
qed auto

lemma TaskSendHeartbeat_silent:
  assumes run: "TaskSendHeartbeat mid p w = Inr (w', v)" and sil: "\<forall>k. set (mid k) \<subseteq> {Request_stop}"
    and w: "g_ctx w = p" "p \<noteq> NULL" "w_ctxs w p = Some c" "stop_flag c \<noteq> 2" and i: "interval_sec c < 2 ^ 32"
  shows "v = int (interval_sec c) \<and> (\<exists>c'. w_ctxs w' p = Some c' \<and> counter c' = counter c + 1 \<and> stop_flag c' \<noteq> 2)"
proof -
  from run w obtain w1 c1 w3 c3 v' w4 c4 where s:
    "interrupt (mid 0) w = Inr w1" "w_ctxs w1 p = Some c1"
    "interrupt (mid 1) (wlog (Heartbeat (peer_pid c1) (if stop_flag c1 = 0 then SIGUSR1 else SIGUSR2)) w1) = Inr w3"
    "w_ctxs w3 p = Some c3" "int32 (counter c3 + 1) = Inr v'" "interrupt (mid 2) w3 = Inr w4" "w_ctxs w4 p = Some c4"
    "w' = put_ctx p (c4\<lparr>counter := v'\<rparr>) w4" "v = to_time (interval_sec c4)"
    by (auto simp: TaskSendHeartbeat_def Let_def bindE_Inr_iff load_ctx_def fetch_def split: option.splits)
  let ?w2 = "wlog (Heartbeat (peer_pid c1) (if stop_flag c1 = 0 then SIGUSR1 else SIGUSR2)) w1"
  have s': "set (mid k) \<subseteq> {Request_stop}" for k using sil by blast
  have 1: "g_ctx w1 = p" "counter c1 = counter c" "same_job c c1" "stop_flag c1 \<noteq> 2"
    using interrupt_silent [OF s(1) s' w(1,3,4)] s(2) by auto
  have 2: "g_ctx ?w2 = p" "w_ctxs ?w2 p = Some c1" using 1 s(2) by (simp_all add: wlog_def)
  have 3: "g_ctx w3 = p" "counter c3 = counter c" "same_job c1 c3" "stop_flag c3 \<noteq> 2"
    using interrupt_silent [OF s(3) s' 2 1(4)] s(4) 1(2) by auto
  have 4: "same_job c3 c4" "stop_flag c4 \<noteq> 2" using interrupt_silent [OF s(6) s' 3(1) s(4) 3(4)] s(7) by auto
  have "interval_sec c4 = interval_sec c" using 1(3) 3(3) 4(1) by (simp add: same_job_def)
  moreover have "v' = counter c + 1" using s(5) 3(2) by (simp add: int32_def split: if_splits)
  ultimately show ?thesis using s(8,9) 4(2) i by (simp add: put_ctx_def to_time_def)
qed

lemma TaskCheckCounter_silent:
  assumes run: "TaskCheckCounter r p (sch, w) = Inr ((sch', w'), v)" and sil: "silent r"
    and w: "g_ctx w = p" "p \<noteq> NULL" "w_ctxs w p = Some c" "stop_flag c \<noteq> 2" and ok: "ctx_ok c" "counter c < 2 ^ 31"
  shows "if int (tolerance c) < counter c then Reviving \<in> set (w_log w')
    else sch' = sch \<and> v = Some (int (interval_sec c)) \<and> (\<exists>c'. w_ctxs w' p = Some c' \<and> counter c' = counter c \<and> stop_flag c' \<noteq> 2)"
proof -
  from run w obtain w1 c1 where s: "interrupt (rd_mid r 0) w = Inr w1" "w_ctxs w1 p = Some c1"
    by (auto simp: TaskCheckCounter_def load_ctx_def fetch_def bindE_Inr_iff split: option.splits)
  have "set (rd_mid r 0) \<subseteq> {Request_stop}" using sil by (simp add: silent_def)
  from interrupt_silent [OF s(1) this w(1,3,4)] s(2) have
    1: "g_ctx w1 = p" "counter c1 = counter c" "same_job c c1" "stop_flag c1 \<noteq> 2" by auto
  have over: "to_size (counter c1) > tolerance c1 \<longleftrightarrow> int (tolerance c) < counter c"
    using 1(2,3) ok by (auto simp: to_size_def ctx_ok_def same_job_def)
  show ?thesis
  proof (cases "int (tolerance c) < counter c")
    case True
    with run w s over obtain sch1 w2 status where r: "SchedClear (rd_fuel r) (rd_pop r) sch = Inr sch1"
      "ReviveProcess r p (wlog Reviving w1) = Inr (w2, status)"
      "sch' = sch1 \<and> w' = w2 \<or> (\<exists>v. wd_restart r p (sch1, w2) = Inr ((sch', w'), v))"
      by (auto simp: TaskCheckCounter_def load_ctx_def bindE_Inr_iff split: option.splits if_splits)
    have "Reviving \<in> set (w_log w2)"
      using r(2) by (auto simp: ReviveProcess_def bindE_Inr_iff wlog_def put_ctx_def Let_def split: if_splits)
    with r(3) True show ?thesis using wd_restart_proc by fastforce
  next
    case False
    have "interval_sec c1 = interval_sec c" "interval_sec c < 2 ^ 63" using 1(3) ok(1) by (simp_all add: same_job_def ctx_ok_def)
    with False run w s over 1 show ?thesis
      by (auto simp: TaskCheckCounter_def load_ctx_def fetch_def wlog_def to_time_def)
  qed
qed

text \<open>The two tasks of a fresh process, with the times they are due.\<close>

definition duo :: "sched_t \<Rightarrow> int \<Rightarrow> int \<Rightarrow> bool" where
  "duo sch h c \<longleftrightarrow> (\<exists>kh th kc tc. sc_tasks sch = [kh \<mapsto> th, kc \<mapsto> tc] \<and> kh \<noteq> kc \<and>
     t_op th = TaskSendHeartbeat_fn \<and> t_op tc = TaskCheckCounter_fn \<and> t_time th = h \<and> t_time tc = c)"

text \<open>How often the other task may run before the one due at \<open>a\<close>; the rounds left before a revival.\<close>

definition others :: "int \<Rightarrow> int \<Rightarrow> nat" where
  "others a b = (if a < b then 0 else if a = b then 1 else 2)"

definition rounds_left :: "nat \<Rightarrow> int \<Rightarrow> int \<Rightarrow> int \<Rightarrow> nat" where
  "rounds_left tol cnt h c = (if cnt \<le> int tol then 3 * nat (int tol + 1 - cnt) + others h c + 3 else others c h + 1)"

lemma rounds_left_heartbeat:
  "h \<le> c \<Longrightarrow> cnt \<le> int tol \<Longrightarrow> rounds_left tol (cnt + 1) h' c < rounds_left tol cnt h c"
  "h \<le> c \<Longrightarrow> int tol < cnt \<Longrightarrow> c \<le> h' \<Longrightarrow> (h = c \<Longrightarrow> c < h') \<Longrightarrow> rounds_left tol (cnt + 1) h' c < rounds_left tol cnt h c"
  by (auto simp: rounds_left_def others_def nat_add_distrib [symmetric] split: if_splits)

lemma rounds_left_check:
  "c \<le> h \<Longrightarrow> cnt \<le> int tol \<Longrightarrow> h \<le> c' \<Longrightarrow> (h = c \<Longrightarrow> h < c') \<Longrightarrow> rounds_left tol cnt h c' < rounds_left tol cnt h c"
  by (auto simp: rounds_left_def others_def)

lemma duo_some: "duo sch h c \<Longrightarrow> sc_tasks sch \<noteq> Map.empty"
proof
  assume d: "duo sch h c" and e: "sc_tasks sch = Map.empty"
  from d obtain kh th kc tc where "sc_tasks sch = [kh \<mapsto> th, kc \<mapsto> tc]" by (auto simp: duo_def)
  then have "sc_tasks sch kc = Some tc" by simp
  with e show False by simp
qed

lemma duo_tasks:
  assumes "duo sch h c" "sc_tasks sch k = Some t" "\<forall>q u. sc_tasks sch q = Some u \<longrightarrow> t_time t \<le> t_time u"
  shows "t_op t = TaskSendHeartbeat_fn \<and> t_time t = h \<and> h \<le> c \<and> (\<forall>n sch'. sc_tasks sch' = (sc_tasks sch)(k \<mapsto> t\<lparr>t_time := n\<rparr>) \<longrightarrow> duo sch' n c) \<or>
    t_op t = TaskCheckCounter_fn \<and> t_time t = c \<and> c \<le> h \<and> (\<forall>n sch'. sc_tasks sch' = (sc_tasks sch)(k \<mapsto> t\<lparr>t_time := n\<rparr>) \<longrightarrow> duo sch' h n)"
proof -
  from assms(1) obtain kh th kc tc where d: "sc_tasks sch = [kh \<mapsto> th, kc \<mapsto> tc]" "kh \<noteq> kc" "t_op th = TaskSendHeartbeat_fn"
    "t_op tc = TaskCheckCounter_fn" "t_time th = h" "t_time tc = c" by (auto simp: duo_def)
  have le: "t_time t \<le> h" "t_time t \<le> c" using assms(3) [rule_format, of kh th] assms(3) [rule_format, of kc tc] d by auto
  have "k = kh \<and> t = th \<or> k = kc \<and> t = tc" using assms(2) d(1) by (auto split: if_splits)
  then show ?thesis
  proof
    assume k: "k = kh \<and> t = th"
    have "duo sch' n c" if "sc_tasks sch' = (sc_tasks sch)(k \<mapsto> t\<lparr>t_time := n\<rparr>)" for n sch'
      unfolding duo_def that using d k
      by (intro exI [of _ kh] exI [of _ "th\<lparr>t_time := n\<rparr>"] exI [of _ kc] exI [of _ tc]) (auto simp: fun_upd_twist)
    with d le k show ?thesis by blast
  next
    assume k: "k = kc \<and> t = tc"
    have "duo sch' h n" if "sc_tasks sch' = (sc_tasks sch)(k \<mapsto> t\<lparr>t_time := n\<rparr>)" for n sch'
      unfolding duo_def that using d k
      by (intro exI [of _ kh] exI [of _ th] exI [of _ kc] exI [of _ "tc\<lparr>t_time := n\<rparr>"]) auto
    with d le k show ?thesis by blast
  qed
qed

lemma wd_round_silent:
  assumes live: "wd_live p c sch w" and d: "duo sch h ch" and good: "good_round (interval_sec c) r sch" and cnt: "counter c + 1 < 2 ^ 31"
    and sil: "silent r" and stop: "stop_flag c \<noteq> 2" and round: "wd_round_run r (sch, w) = Inr ((sch', w'), how)"
  shows "Reviving \<in> set (w_log w') \<or>
    how = Some Task_again \<and> (\<exists>c' h' ch'. w_ctxs w' p = Some c' \<and> stop_flag c' \<noteq> 2 \<and> duo sch' h' ch' \<and>
      rounds_left (tolerance c) (counter c') h' ch' < rounds_left (tolerance c) (counter c) h ch)"
proof -
  have w: "g_ctx w = p" "p \<noteq> NULL" "w_ctxs w p = Some c" "ctx_ok c" using live by (auto simp: wd_live_def)
  have i: "0 < interval_sec c" "interval_sec c < 2 ^ 32" using w(4) by (auto simp: ctx_ok_def)
  from wd_round_start [OF live duo_some [OF d] good] obtain k t s where s: "sc_tasks sch k = Some t" "\<forall>q u. sc_tasks sch q = Some u \<longrightarrow> t_time t \<le> t_time u"
    "busy k t p (interval_sec c) s" "sc_tasks s = sc_tasks sch" "sc_now sch \<le> sc_now s" "t_time t \<le> sc_now s"
    "wd_round_run r (sch, w) = bindE (wd_task r t (s, w)) (\<lambda>((sch2, w), res).
      case res of
        None \<Rightarrow> Inr ((sch2, w), None)
      | Some result \<Rightarrow> bindE (SchedRun_after (rd_push r) k sch2 result) (\<lambda>(sch3, how). Inr ((sch3, w), Some how)))"
    by blast
  from round s(7) obtain sch2 res where act: "wd_task r t (s, w) = Inr ((sch2, w'), res)"
    "(case res of None \<Rightarrow> Inr ((sch2, w'), None)
      | Some result \<Rightarrow> bindE (SchedRun_after (rd_push r) k sch2 result) (\<lambda>(sch3, how). Inr ((sch3, w'), Some how))) = Inr ((sch', w'), how)"
    by (auto simp: bindE_Inr_iff split: option.splits)
  then obtain w1 where w1: "interrupt (rd_before r) w = Inr w1" by (auto simp: wd_task_def bindE_Inr_iff)
  have "set (rd_before r) \<subseteq> {Request_stop}" using sil by (simp add: silent_def)
  from interrupt_silent [OF w1 this w(1,3) stop] obtain c1 where c1: "g_ctx w1 = p" "w_ctxs w1 p = Some c1" "counter c1 = counter c"
    "same_job c c1" "stop_flag c1 \<noteq> 2" by blast
  have ok1: "ctx_ok c1" "interval_sec c1 = interval_sec c" "tolerance c1 = tolerance c"
    using same_job_ok [OF w(4) c1(4)] w(4) c1(3,4) by (auto simp: ctx_ok_def same_job_def)
  have due: "h \<le> sc_now sch + int (interval_sec c)" "ch \<le> sc_now sch + int (interval_sec c)"
    using d live by (auto simp: duo_def wd_live_def tasks_fit_def task_ok_def split: if_splits)
  have par: "t_op_param t = p" using s(3) by (auto simp: busy_def tasks_fit_def task_ok_def)
  have again: "how = Some Task_again \<and> sc_tasks sch' = (sc_tasks sch)(k \<mapsto> t\<lparr>t_time := sc_now sch2 + int (interval_sec c)\<rparr>)"
    if "res = Some (int (interval_sec c))" "sc_tasks sch2 = sc_tasks sch" "busy k t p (interval_sec c) sch2"
    using SchedRun_after_ok(2) [OF that(3) i, of "rd_push r"] act(2) that(1,2) by auto
  from duo_tasks [OF d s(1,2)] show ?thesis
  proof (elim disjE conjE)
    assume hb: "t_op t = TaskSendHeartbeat_fn" "t_time t = h" "h \<le> ch"
      "\<forall>n sch'. sc_tasks sch' = (sc_tasks sch)(k \<mapsto> t\<lparr>t_time := n\<rparr>) \<longrightarrow> duo sch' n ch"
    from act(1) hb(1) w1 par obtain v where v: "TaskSendHeartbeat (rd_mid r) p w1 = Inr (w', v)" "res = Some v"
      "sch2 = s\<lparr>sc_now := sc_now s + int (rd_took r)\<rparr>" by (auto simp: wd_task_def bindE_Inr_iff)
    have "\<forall>k. set (rd_mid r k) \<subseteq> {Request_stop}" using sil by (simp add: silent_def)
    from TaskSendHeartbeat_silent [OF v(1) this c1(1) w(2) c1(2,5)] ok1 i obtain c' where
      c': "v = int (interval_sec c)" "w_ctxs w' p = Some c'" "counter c' = counter c + 1" "stop_flag c' \<noteq> 2" using c1(3) by auto
    have "busy k t p (interval_sec c) sch2" using busy_time [OF s(3)] v(3) by simp
    with again v c'(1) s(4) have ag: "how = Some Task_again" "sc_tasks sch' = (sc_tasks sch)(k \<mapsto> t\<lparr>t_time := sc_now sch2 + int (interval_sec c)\<rparr>)"
      by auto
    have "ch \<le> sc_now sch2 + int (interval_sec c)" "h = ch \<Longrightarrow> ch < sc_now sch2 + int (interval_sec c)"
      using due s(5,6) hb(2) v(3) i(1) by auto
    then have "rounds_left (tolerance c) (counter c + 1) (sc_now sch2 + int (interval_sec c)) ch < rounds_left (tolerance c) (counter c) h ch"
      using rounds_left_heartbeat hb(3) by (cases "counter c \<le> int (tolerance c)") auto
    with ag c' hb(4) show ?thesis by auto
  next
    assume cc: "t_op t = TaskCheckCounter_fn" "t_time t = ch" "ch \<le> h"
      "\<forall>n sch'. sc_tasks sch' = (sc_tasks sch)(k \<mapsto> t\<lparr>t_time := n\<rparr>) \<longrightarrow> duo sch' h n"
    from act(1) cc(1) w1 par obtain sch1 where v: "TaskCheckCounter r p (s, w1) = Inr ((sch1, w'), res)"
      "sch2 = sch1\<lparr>sc_now := sc_now sch1 + int (rd_took r)\<rparr>" by (auto simp: wd_task_def bindE_Inr_iff)
    from TaskCheckCounter_silent [OF v(1) sil c1(1) w(2) c1(2,5) ok1(1)] cnt c1(3) ok1 have
      out: "if int (tolerance c) < counter c then Reviving \<in> set (w_log w')
        else sch1 = s \<and> res = Some (int (interval_sec c)) \<and> (\<exists>c'. w_ctxs w' p = Some c' \<and> counter c' = counter c \<and> stop_flag c' \<noteq> 2)"
      by auto
    show ?thesis
    proof (cases "int (tolerance c) < counter c")
      case True
      with out show ?thesis by simp
    next
      case False
      with out obtain c' where c': "sch1 = s" "res = Some (int (interval_sec c))" "w_ctxs w' p = Some c'" "counter c' = counter c" "stop_flag c' \<noteq> 2"
        by auto
      have "busy k t p (interval_sec c) sch2" using busy_time [OF s(3)] v(2) c'(1) by simp
      with again c'(1,2) v(2) s(4) have ag: "how = Some Task_again"
        "sc_tasks sch' = (sc_tasks sch)(k \<mapsto> t\<lparr>t_time := sc_now sch2 + int (interval_sec c)\<rparr>)" by auto
      have "h \<le> sc_now sch2 + int (interval_sec c)" "h = ch \<Longrightarrow> h < sc_now sch2 + int (interval_sec c)"
        using due s(5,6) cc(2) v(2) c'(1) i(1) by auto
      with rounds_left_check [OF cc(3)] False
      have "rounds_left (tolerance c) (counter c) h (sc_now sch2 + int (interval_sec c)) < rounds_left (tolerance c) (counter c) h ch" by auto
      with ag c' cc(4) show ?thesis by auto
    qed
  qed
qed

lemma wd_run_silent:
  "wd_live p c sch w \<Longrightarrow> duo sch h ch \<Longrightarrow> stop_flag c \<noteq> 2 \<Longrightarrow> list_all silent rs \<Longrightarrow> good_run (interval_sec c) rs (sch, w) \<Longrightarrow>
   counter c + int (length rs) < 2 ^ 31 \<Longrightarrow> rounds_left (tolerance c) (counter c) h ch \<le> length rs \<Longrightarrow>
   \<exists>sch' w' e. WDRun_loop rs (sch, w) f = Inr ((sch', w'), e) \<and> Reviving \<in> set (w_log w') \<and>
     (e \<noteq> Replaced \<longrightarrow> (\<exists>c'. wd_live p c' sch' w'))"
proof (induction rs arbitrary: sch w c h ch)
  case Nil
  then show ?case by (auto simp: rounds_left_def split: if_splits)
next
  case (Cons r rs)
  have ne: "sc_tasks sch \<noteq> Map.empty" by (rule duo_some [OF Cons.prems(2)])
  have good: "good_round (interval_sec c) r sch" and sil: "silent r" "list_all silent rs" using Cons.prems by simp_all
  have cnt: "counter c + 1 < 2 ^ 31" using Cons.prems(6) by simp
  obtain sch1 w1 how where r: "wd_round_run r (sch, w) = Inr ((sch1, w1), how)" "how \<in> {None, Some Task_done, Some Task_again}"
    "how \<noteq> None \<longrightarrow> (\<exists>c'. wd_live p c' sch1 w1 \<and> same_job c c' \<and> counter c' \<le> counter c + 1)"
    using wd_round_ok [OF Cons.prems(1) ne good cnt] by blast
  note step = WDRun_loop_step(2) [OF Cons.prems(1) ne, of r rs f]
  show ?case
  proof (cases "how = None")
    case True
    then show ?thesis using wd_round_silent [OF Cons.prems(1,2) good cnt sil(1) Cons.prems(3) r(1)] r(1) step by auto
  next
    case how: False
    then obtain c1 where c1: "wd_live p c1 sch1 w1" "same_job c c1" "counter c1 \<le> counter c + 1" using r(3) by blast
    have rest: "good_run (interval_sec c1) rs (sch1, w1)" "counter c1 + int (length rs) < 2 ^ 31"
      using Cons.prems(5,6) r(1) how c1(2,3) by (auto simp: same_job_def)
    have tail: "WDRun_loop (r # rs) (sch, w) f = WDRun_loop rs (sch1, w1) f" using step r(1,2) how by auto
    show ?thesis
    proof (cases "Reviving \<in> set (w_log w1)")
      case True
      from WDRun_loop_ok [OF c1(1) rest, of f] True tail show ?thesis by auto
    next
      case False
      with wd_round_silent [OF Cons.prems(1,2) good cnt sil(1) Cons.prems(3) r(1)] obtain c' h' ch' where
        n: "w_ctxs w1 p = Some c'" "stop_flag c' \<noteq> 2" "duo sch1 h' ch'"
          "rounds_left (tolerance c) (counter c') h' ch' < rounds_left (tolerance c) (counter c) h ch" by blast
      have "c' = c1" using n(1) c1(1) by (simp add: wd_live_def)
      with n c1(2) Cons.prems(7) have "rounds_left (tolerance c1) (counter c1) h' ch' \<le> length rs" by (simp add: same_job_def)
      with Cons.IH [OF c1(1) n(3) _ sil(2) rest] n(2) \<open>c' = c1\<close> tail show ?thesis by simp
    qed
  qed
qed

section \<open>A stopped process ends\<close>

text \<open>What a stopped process may still do: take signals, and pass the stop on to its peer.\<close>

fun only_signals :: "wd_event \<Rightarrow> bool" where
  "only_signals (Received sig) = True"
| "only_signals (Sent pid SIGUSR2) = True"
| "only_signals e = False"

definition stopped_to :: "ptr \<Rightarrow> wd_proc \<Rightarrow> wd_proc \<Rightarrow> bool" where
  "stopped_to p w w' \<longleftrightarrow> g_ctx w' = p \<and> (\<exists>c'. w_ctxs w' p = Some c' \<and> stop_flag c' = 2) \<and>
     (\<exists>es. w_log w' = es @ w_log w \<and> list_all only_signals es)"

lemma stopped_to_trans: "stopped_to p w w' \<Longrightarrow> stopped_to p w' w'' \<Longrightarrow> stopped_to p w w''"
  by (auto simp: stopped_to_def)

lemma interrupt_stopped:
  "interrupt is w = Inr w' \<Longrightarrow> Request_stop \<notin> set is \<Longrightarrow> g_ctx w = p \<Longrightarrow> w_ctxs w p = Some c \<Longrightarrow> stop_flag c = 2 \<Longrightarrow> stopped_to p w w'"
proof (induction "is" arbitrary: w c)
  case (Cons i "is")
  from Cons.prems(1) obtain w1 where w1: "interrupt [i] w = Inr w1" "interrupt is w1 = Inr w'" by (auto simp: bindE_Inr_iff)
  have 1: "stopped_to p w w1"
    using w1(1) Cons.prems(2-)
    by (cases i) (auto simp: SigUsr1Handler_def SigUsr2Handler_def stopped_to_def wd_simps Let_def split: if_splits)
  then obtain c1 where "g_ctx w1 = p" "w_ctxs w1 p = Some c1" "stop_flag c1 = 2" by (auto simp: stopped_to_def)
  with Cons.IH [OF w1(2)] Cons.prems(2) 1 stopped_to_trans show ?case by fastforce
qed (auto simp: stopped_to_def)

lemma wd_round_stopped:
  assumes live: "wd_live p c sch w" and some: "sc_tasks sch \<noteq> Map.empty" and good: "good_round (interval_sec c) r sch"
    and stop: "stop_flag c = 2" and req: "Request_stop \<notin> set (rd_before r)"
  shows "\<exists>sch' w' c'. wd_round_run r (sch, w) = Inr ((sch', w'), Some Task_done) \<and> wd_live p c' sch' w' \<and> same_job c c' \<and>
    stopped_to p w w' \<and> stop_flag c' = 2 \<and> card (dom (sc_tasks sch')) < card (dom (sc_tasks sch))"
proof -
  have w: "g_ctx w = p" "p \<noteq> NULL" "w_ctxs w p = Some c" "ctx_ok c" using live by (auto simp: wd_live_def)
  have i: "0 < interval_sec c" "interval_sec c < 2 ^ 32" using w(4) by (auto simp: ctx_ok_def)
  obtain k t s where s: "sc_tasks sch k = Some t" "busy k t p (interval_sec c) s" "sc_tasks s = sc_tasks sch" "sc_counter s = sc_counter sch"
    "wd_round_run r (sch, w) = bindE (wd_task r t (s, w)) (\<lambda>((sch2, w), res).
      case res of
        None \<Rightarrow> Inr ((sch2, w), None)
      | Some result \<Rightarrow> bindE (SchedRun_after (rd_push r) k sch2 result) (\<lambda>(sch3, how). Inr ((sch3, w), Some how)))"
    using wd_round_start [OF live some good] by blast
  obtain junk where junk: "rd_pop r = Some junk" using good by (auto simp: good_round_def)
  have "card (dom (sc_tasks s) - {k}) < rd_fuel r" using s(2) good by (simp add: busy_def good_round_def)
  with SchedClear_out [of "{k}" s "rd_fuel r" junk] s(2) junk obtain s1 where
    clear: "SchedClear (rd_fuel r) (rd_pop r) s = Inr s1" "sched_out {k} s1" "sc_tasks s1 = [k \<mapsto> t]"
      "sc_now s1 = sc_now s" "sc_counter s1 = sc_counter s" "\<not> sc_stop_flag s1"
    by (auto simp: busy_def restrict_map_def fun_eq_iff)
  have b1: "busy k t p (interval_sec c) s1" using clear s(2) by (auto simp: busy_def tasks_fit_def)
  obtain w1 where w1: "interrupt (rd_before r) w = Inr w1" "wd_goes p 0 w w1" using interrupt_ok [OF w(1-3)] by blast
  have st: "stopped_to p w w1" by (rule interrupt_stopped [OF w1(1) req w(1,3) stop])
  obtain c1 where c1: "w_ctxs w1 p = Some c1" "same_job c c1" "ctx_ok c1" "g_ctx w1 = p" using wd_goesE [OF w1(2) w(3,4)] by auto
  have stop1: "stop_flag c1 = 2" using st c1(1) by (auto simp: stopped_to_def)
  have t: "t_op_param t = p" "t_op t = TaskSendHeartbeat_fn \<or> t_op t = TaskCheckCounter_fn"
    using s(2) by (auto simp: busy_def tasks_fit_def task_ok_def)
  have "\<exists>s2. wd_task r t (s, w) = Inr ((s2, w1), Some 0) \<and> busy k t p (interval_sec c) s2 \<and> dom (sc_tasks s2) \<subseteq> dom (sc_tasks sch)"
    using t(2)
  proof
    assume "t_op t = TaskSendHeartbeat_fn"
    then have "wd_task r t (s, w) = Inr ((s\<lparr>sc_now := sc_now s + int (rd_took r)\<rparr>, w1), Some 0)"
      using t(1) w1(1) c1(1) w(2) stop1 by (simp add: wd_task_def TaskSendHeartbeat_def load_ctx_def fetch_def)
    with busy_time [OF s(2)] s(3) show ?thesis by auto
  next
    assume "t_op t = TaskCheckCounter_fn"
    then have "wd_task r t (s, w) = Inr ((s1\<lparr>sc_now := sc_now s1 + int (rd_took r)\<rparr>, w1), Some 0)"
      using t(1) w1(1) c1(1) w(2) stop1 clear(1) by (simp add: wd_task_def TaskCheckCounter_def load_ctx_def fetch_def)
    with busy_time [OF b1] clear(3) s(1) show ?thesis by auto
  qed
  then obtain s2 where s2: "wd_task r t (s, w) = Inr ((s2, w1), Some 0)" "busy k t p (interval_sec c) s2" "dom (sc_tasks s2) \<subseteq> dom (sc_tasks sch)" by blast
  obtain s3 where s3: "SchedRun_after (rd_push r) k s2 0 = Inr (s3, Task_done)" "sched_inv s3" "sc_tasks s3 = (sc_tasks s2)(k := None)"
    "sc_now s3 = sc_now s2" "sc_stop_flag s3 = sc_stop_flag s2"
    using SchedRun_after_ok(1) [OF s2(2) i] by blast
  have d3: "dom (sc_tasks s3) = dom (sc_tasks s2) - {k}" using s3(3) by auto
  have "dom (sc_tasks s3) \<subset> dom (sc_tasks sch)" using d3 s2(3) s(1) by auto
  then have "card (dom (sc_tasks s3)) < card (dom (sc_tasks sch))"
    using psubset_card_mono sched_inv_finite live by (metis wd_live_def)
  moreover have "interval_sec c1 = interval_sec c" using c1(2) by (simp add: same_job_def)
  then have "wd_live p c1 s3 w1" using s3 s2(2) c1 w(2) d3 by (auto simp: wd_live_def busy_def tasks_fit_def split: if_splits)
  ultimately show ?thesis using s(5) s2(1) s3(1) c1(2) st stop1 by auto
qed

lemma wd_run_stops:
  "wd_live p c sch w \<Longrightarrow> stop_flag c = 2 \<Longrightarrow> good_run (interval_sec c) rs (sch, w) \<Longrightarrow>
   \<forall>r \<in> set rs. Request_stop \<notin> set (rd_before r) \<Longrightarrow> card (dom (sc_tasks sch)) \<le> length rs \<Longrightarrow>
   \<exists>sch' w'. WDRun_loop rs (sch, w) f = Inr ((sch', w'), Ended (if f then FAILED_TASKS_EMPTY_SCHED else SUCCESS)) \<and>
     sched_inv sch' \<and> sc_tasks sch' = Map.empty \<and> stopped_to p w w'"
proof (induction rs arbitrary: sch w c)
  case Nil
  then have "sc_tasks sch = Map.empty" using sched_inv_finite [of sch] by (auto simp: wd_live_def)
  with WDRun_loop_done [OF Nil.prems(1)] Nil.prems show ?case by (auto simp: stopped_to_def wd_live_def)
next
  case (Cons r rs)
  show ?case
  proof (cases "sc_tasks sch = Map.empty")
    case True
    with WDRun_loop_done [OF Cons.prems(1)] Cons.prems show ?thesis by (auto simp: stopped_to_def wd_live_def)
  next
    case False
    have good: "good_round (interval_sec c) r sch" and req: "Request_stop \<notin> set (rd_before r)" using Cons.prems by simp_all
    obtain sch1 w1 c1 where r: "wd_round_run r (sch, w) = Inr ((sch1, w1), Some Task_done)" "wd_live p c1 sch1 w1" "same_job c c1"
      "stopped_to p w w1" "stop_flag c1 = 2" "card (dom (sc_tasks sch1)) < card (dom (sc_tasks sch))"
      using wd_round_stopped [OF Cons.prems(1) False good Cons.prems(2) req] by blast
    have "good_run (interval_sec c1) rs (sch1, w1)" using Cons.prems(3) r(1,3) by (simp add: same_job_def)
    moreover have "card (dom (sc_tasks sch1)) \<le> length rs" using r(6) Cons.prems(5) by simp
    ultimately obtain sch' w' where "WDRun_loop rs (sch1, w1) f = Inr ((sch', w'), Ended (if f then FAILED_TASKS_EMPTY_SCHED else SUCCESS))"
      "sched_inv sch'" "sc_tasks sch' = Map.empty" "stopped_to p w1 w'"
      using Cons.IH [OF r(2,5)] Cons.prems(4) by auto
    with r(1) stopped_to_trans [OF r(4)] show ?thesis by (auto simp: WDRun_loop_step(2) [OF Cons.prems(1) False])
  qed
qed

section \<open>Setting up\<close>

lemma WDTasksInit_ok:
  assumes sch: "sched_inv sch" "sc_tasks sch = Map.empty" "\<not> sc_stop_flag sch" "sc_counter sch + 2 < 2 ^ 64"
    and e: "in_ctx e = Some p" "p \<noteq> NULL" "in_usr1 e" "in_usr2 e" "good_add (in_add1 e) sch" "good_add (in_add2 e) sch"
      "ad_task (in_add1 e) \<noteq> ad_task (in_add2 e)"
    and c: "c = \<lparr>peer_pid = peer, interval_sec = interval, tolerance = tol, counter = 0, stop_flag = 0, is_wd = iw, argc = ac, argv = av\<rparr>"
    and ok: "ctx_ok c"
  shows "\<exists>sch' w'. WDTasksInit e (sch, w) iw peer interval tol ac av = Inr ((sch', w'), 0) \<and> wd_live p c sch' w' \<and>
    duo sch' (sc_now sch) (sc_now sch + 1) \<and> sc_counter sch' = sc_counter sch + 2 \<and>
    w_log w' = [Installed SIGUSR2, Installed SIGUSR1] @ w_log w \<and> sc_now sch' = sc_now sch"
proof -
  have out: "sched_out {} sch" using sch(1) by (simp add: sched_out_inv)
  have t01: "to_time 0 = 0" "to_time (Suc 0) = 1" by (simp_all add: to_time_def)
  from wd_sched_add_ok [OF out fn_addresses(1) e(5), of p 0] sch(2,4) obtain s1 q1 t1 where
    1: "wd_sched_add (in_add1 e) TaskSendHeartbeat_fn p 0 sch = Inr (s1, False)" "sched_out {} s1" "ad_task (in_add1 e) = Some q1"
      "sc_tasks s1 = (sc_tasks sch)(q1 \<mapsto> t1)" "t_op t1 = TaskSendHeartbeat_fn" "t_op_param t1 = p" "t_time t1 = sc_now sch + to_time 0"
      "sc_counter s1 = sc_counter sch + 1" "sc_now s1 = sc_now sch" "sc_stop_flag s1 = sc_stop_flag sch" by auto
  have "good_add (in_add2 e) s1" using e(6,7) 1(3,4) by (auto simp: good_add_def)
  from wd_sched_add_ok [OF 1(2) fn_addresses(2) this, of p 1] sch(2,4) 1(4,8) obtain s2 q2 t2 where
    2: "wd_sched_add (in_add2 e) TaskCheckCounter_fn p 1 s1 = Inr (s2, False)" "sched_out {} s2" "ad_task (in_add2 e) = Some q2"
      "sc_tasks s2 = (sc_tasks s1)(q2 \<mapsto> t2)" "t_op t2 = TaskCheckCounter_fn" "t_op_param t2 = p" "t_time t2 = sc_now s1 + to_time 1"
      "sc_counter s2 = sc_counter s1 + 1" "sc_now s2 = sc_now s1" "sc_stop_flag s2 = sc_stop_flag s1" by auto
  have q: "q1 \<noteq> q2" using e(7) 1(3) 2(3) by auto
  have tasks: "sc_tasks s2 = [q1 \<mapsto> t1, q2 \<mapsto> t2]" using 1(4) 2(4) sch(2) by simp
  let ?w = "wlog (Installed SIGUSR2) (wlog (Installed SIGUSR1) (put_ctx p c (w\<lparr>g_ctx := p\<rparr>)))"
  have "WDTasksInit e (sch, w) iw peer interval tol ac av = Inr ((s2, ?w), 0)"
    using e(1,3,4) 1(1) 2(1) by (simp add: WDTasksInit_def c)
  moreover have "duo s2 (sc_now sch) (sc_now sch + 1)"
    unfolding duo_def using tasks q 1(5,7,9) 2(5,7) t01
    by (intro exI [of _ q1] exI [of _ t1] exI [of _ q2] exI [of _ t2]) simp
  moreover have "tasks_fit p (interval_sec c) s2"
    using tasks 1(5-7,9) 2(5-7,9) t01 ok by (auto simp: tasks_fit_def task_ok_def ctx_ok_def split: if_splits)
  moreover have "card (dom (sc_tasks s2)) \<le> 3" using tasks by (simp add: card_insert_if)
  ultimately have "WDTasksInit e (sch, w) iw peer interval tol ac av = Inr ((s2, ?w), 0) \<and> duo s2 (sc_now sch) (sc_now sch + 1) \<and> wd_live p c s2 ?w"
    using 2(2,10) 1(10) sch(3) e(2) ok by (simp add: wd_live_def sched_out_inv wlog_def put_ctx_def)
  moreover have "w_log ?w = [Installed SIGUSR2, Installed SIGUSR1] @ w_log w" by (simp add: wlog_def put_ctx_def)
  ultimately show ?thesis using 1(8,9) 2(8,9) by auto
qed

section \<open>The two processes together\<close>

text \<open>Numbers survive the way through a program's arguments.\<close>

lemma dec_nat_digits: "c \<in> set (dec_nat n) \<Longrightarrow> 48 \<le> (of_char c :: nat) \<and> (of_char c :: nat) \<le> 57"
proof (induction n rule: dec_nat.induct)
  case (1 n)
  then show ?case
    by (subst (asm) dec_nat.simps) (auto split: if_splits)
qed

lemma dec_nat_length: "n < 10 ^ k \<Longrightarrow> 0 < k \<Longrightarrow> length (dec_nat n) \<le> k"
proof (induction n arbitrary: k rule: dec_nat.induct)
  case (1 n)
  show ?case
  proof (cases "n < 10")
    case True
    with 1 show ?thesis by (subst dec_nat.simps) simp
  next
    case False
    obtain j where j: "k = Suc j" using 1(3) by (cases k) auto
    have "j \<noteq> 0" using j False 1(2) by (cases j) auto
    moreover have "n div 10 < 10 ^ j" using 1(2) j by (simp add: div_less_iff_less_mult)
    ultimately have "length (dec_nat (n div 10)) \<le> j" using 1(1) False by simp
    with j False show ?thesis by (subst dec_nat.simps) simp
  qed
qed

lemma atoi_digits_dec: "atoi_digits 0 (dec_nat n @ cs) = atoi_digits (int n) cs"
proof (induction n arbitrary: cs rule: dec_nat.induct)
  case (1 n)
  show ?case
  proof (cases "n < 10")
    case True
    then show ?thesis by (subst dec_nat.simps) simp
  next
    case False
    have "atoi_digits 0 (dec_nat n @ cs) = atoi_digits 0 (dec_nat (n div 10) @ (char_of (48 + n mod 10) # cs))"
      using False by (subst dec_nat.simps) simp
    also have "\<dots> = atoi_digits (int (n div 10)) (char_of (48 + n mod 10) # cs)" using 1 False by blast
    also have "\<dots> = atoi_digits (int (n div 10) * 10 + int (n mod 10)) cs" using mod_less_divisor [of 10 n] by (simp add: Let_def less_Suc_eq_le [symmetric])
    also have "int (n div 10) * 10 + int (n mod 10) = int n" by presburger
    finally show ?thesis .
  qed
qed

lemma dec_nat_hd: "\<exists>c cs. dec_nat n = c # cs"
  by (cases "dec_nat n") (auto simp: dec_nat.simps [of n] split: if_splits)

lemma atoi_snprintf:
  assumes "0 \<le> v" "v < 2 ^ 31"
  shows "atoi (snprintf_int 32 v) = Inr v"
proof -
  have "length (dec_nat (nat v)) \<le> 10" using assms by (intro dec_nat_length) auto
  then have s: "snprintf_int 32 v = dec_nat (nat v)" using assms(1) by (simp add: snprintf_int_def)
  obtain c cs where c: "dec_nat (nat v) = c # cs" using dec_nat_hd by blast
  have d: "48 \<le> (of_char c :: nat)" "(of_char c :: nat) \<le> 57" using dec_nat_digits [of c "nat v"] c by auto
  have "\<not> atoi_space c" using d by (simp add: atoi_space_def Let_def)
  moreover have "c \<noteq> CHR ''-''" "c \<noteq> CHR ''+''" using d by auto
  moreover have "atoi_digits 0 (c # cs) = v" using atoi_digits_dec [of "nat v" "[]"] c assms(1) by simp
  ultimately show ?thesis using s c assms by (simp add: atoi_def int32_def)
qed

text \<open>Whatever the outside answers when a process is set up well.\<close>

definition good_init :: "wd_init_env \<Rightarrow> bool" where
  "good_init e \<longleftrightarrow> (\<exists>p. in_ctx e = Some p \<and> p \<noteq> NULL) \<and> in_usr1 e \<and> in_usr2 e \<and> ad_task (in_add1 e) \<noteq> ad_task (in_add2 e) \<and>
     (\<forall>a \<in> {in_add1 e, in_add2 e}. ad_task a \<noteq> None \<and> ad_task a \<noteq> Some NULL \<and> GetIPAddress (ad_ifs a) \<noteq> None)"

lemma good_init_add: "good_init e \<Longrightarrow> sc_tasks sch = Map.empty \<Longrightarrow> good_add (in_add1 e) sch \<and> good_add (in_add2 e) sch"
  by (auto simp: good_init_def good_add_def)

text \<open>
  The watchdog started with a client's arguments watches that client, at its pace, and will execute it
  with these arguments again.
\<close>

lemma wd_main_started:
  assumes prog: "wd_child True ppid interval tol ac av = Inr (Some prog)" and av: "ac = length av" "av \<noteq> []"
    and small: "0 \<le> ppid" "ppid < 2 ^ 31" "0 < interval" "interval < 2 ^ 31" "tol < 2 ^ 31"
    and e: "mn_ok e" "mn_heap_ok e" "mn_struct_ok e" "mn_alloc e = Some junk" "good_init (mn_init e)" "mn_sem_wd e" "mn_sem_client e"
  shows "\<exists>p sch w. wd_main e [] prog = Inr (w, Going (sch, w)) \<and>
    wd_live p \<lparr>peer_pid = ppid, interval_sec = interval, tolerance = tol, counter = 0, stop_flag = 0, is_wd = 1,
      argc = length prog, argv = prog\<rparr> sch w \<and> drop 4 prog = av"
proof -
  have pr: "prog = [''./bin/debug/wd'', snprintf_int 32 ppid, snprintf_int 32 (int interval), snprintf_int 32 (int tol)] @ av"
    using prog av by (simp add: wd_child_ok)
  have at: "atoi (snprintf_int 32 ppid) = Inr ppid" "atoi (snprintf_int 32 (int interval)) = Inr (int interval)"
    "atoi (snprintf_int 32 (int tol)) = Inr (int tol)" using small by (simp_all add: atoi_snprintf)
  have sz: "to_size (int interval) = interval" "to_size (int tol) = tol" using small by (simp_all add: to_size_def)
  obtain sch where sch: "SchedCreate True True True (Some junk) 0 (mn_now e) = Some sch" "sched_inv sch" "sc_tasks sch = Map.empty"
    "sc_counter sch = 0" "\<not> sc_stop_flag sch" using SchedCreate_ok by blast
  obtain p where p: "in_ctx (mn_init e) = Some p" "p \<noteq> NULL" using e(5) by (auto simp: good_init_def)
  let ?c = "\<lparr>peer_pid = ppid, interval_sec = interval, tolerance = tol, counter = 0, stop_flag = 0, is_wd = 1, argc = length prog, argv = prog\<rparr>"
  have "ctx_ok ?c" using small av pr by (simp add: ctx_ok_def)
  with WDTasksInit_ok [OF sch(2,3,5) _ p, where c = ?c and w = "WDTasksInstallStopHandler empty_proc" and peer = ppid and interval = interval and tol = tol
      and iw = 1 and ac = "length prog" and av = prog]
    sch(4) e(5) good_init_add [OF e(5) sch(3)]
  obtain sch1 w1 where init: "WDTasksInit (mn_init e) (sch, WDTasksInstallStopHandler empty_proc) 1 ppid interval tol (length prog) prog = Inr ((sch1, w1), 0)"
    "wd_live p ?c sch1 w1" "duo sch1 (sc_now sch) (sc_now sch + 1)" by (auto simp: good_init_def)
  let ?w = "wlog (Sem_wait ''/wd_ready_sem'') (wlog (Sem_post ''/client_ready_sem'') w1)"
  have live: "wd_live p ?c sch1 ?w" using init(2) by (simp add: wd_live_def wlog_def)
  have "sch1\<lparr>sc_stop_flag := False\<rparr> = sch1" using init(2) by (simp add: wd_live_def)
  then have "WDRun [] (sch1, ?w) = Inr ((sch1, ?w), Running)"
    using WDRun_loop_step(1) [OF live duo_some [OF init(3)]] by (simp add: WDRun_def)
  then have "wd_main e [] prog = Inr (?w, Going (sch1, ?w))"
    using e sch(1) at sz init(1) by (simp add: wd_main_def pr)
  with live pr show ?thesis by auto
qed

lemma wd_revives_with:
  assumes "wd_live p c sch w" "is_wd c = 1"
  shows "\<exists>w'. ReviveProcess r p w = Inr (w', if rd_exec r then None else Some (-1)) \<and> hd (w_log w') = Executed (drop 4 (argv c))"
  using assms by (simp add: ReviveProcess_def wd_live_def ctx_ok_def load_ctx_def fetch_def wlog_def Let_def)

text \<open>The watched program after a good start.\<close>

definition good_start :: "wd_start_env \<Rightarrow> bool" where
  "good_start e \<longleftrightarrow> st_sem e \<and> st_args e \<and> st_ok e \<and> st_heap_ok e \<and> st_struct_ok e \<and> st_alloc e \<noteq> None \<and>
     st_counter e + 2 < 2 ^ 64 \<and> 0 < st_fork e \<and> good_init (st_init e) \<and> st_thread e \<and> st_sem_wd e \<and> st_sem_client e \<and> st_wait e"

lemma WDStart_ok:
  assumes e: "good_start e" and a: "0 < tol" "0 < interval" "interval < 2 ^ 32" "ac \<le> length av"
  shows "\<exists>p sch w. WDStart e cl tol interval av ac =
      Inr (cl\<lparr>g_wd_pid := st_fork e, g_client_tid := True, cl_proc := w, cl_thread := Thread_runs sch\<rparr>, WD_SUCCESS) \<and>
    wd_live p \<lparr>peer_pid = st_fork e, interval_sec = interval, tolerance = tol, counter = 0, stop_flag = 0, is_wd = 0,
      argc = ac, argv = av\<rparr> sch w \<and> duo sch (st_now e) (st_now e + 1) \<and> sc_counter sch = st_counter e + 2"
proof -
  obtain junk where junk: "st_alloc e = Some junk" using e by (auto simp: good_start_def)
  obtain sch where sch: "SchedCreate True True True (Some junk) (st_counter e) (st_now e) = Some sch" "sched_inv sch" "sc_tasks sch = Map.empty"
    "sc_counter sch = st_counter e" "sc_now sch = st_now e" "\<not> sc_stop_flag sch" using SchedCreate_ok by blast
  have gi: "good_init (st_init e)" using e by (simp add: good_start_def)
  obtain p where p: "in_ctx (st_init e) = Some p" "p \<noteq> NULL" using gi by (auto simp: good_init_def)
  obtain w1 where w1: "SpawnWatchdog e interval tol ac av (cl_proc cl) = Inr (w1, st_fork e)"
    using e a(4) by (auto simp: SpawnWatchdog_def good_start_def wd_child_ok)
  let ?c = "\<lparr>peer_pid = st_fork e, interval_sec = interval, tolerance = tol, counter = 0, stop_flag = 0, is_wd = 0, argc = ac, argv = av\<rparr>"
  have "ctx_ok ?c" using a by (simp add: ctx_ok_def)
  with WDTasksInit_ok [OF sch(2,3,6) _ p, where c = ?c and w = w1 and peer = "st_fork e" and interval = interval and tol = tol
      and iw = 0 and ac = ac and av = av] sch(4) e gi good_init_add [OF gi sch(3)]
  obtain sch2 w2 where init: "WDTasksInit (st_init e) (sch, w1) 0 (st_fork e) interval tol ac av = Inr ((sch2, w2), 0)"
    "wd_live p ?c sch2 w2" "duo sch2 (sc_now sch) (sc_now sch + 1)" "sc_counter sch2 = sc_counter sch + 2"
    by (auto simp: good_init_def good_start_def)
  have "wd_live p ?c sch2 (SetHandshake w2)" using init(2) by (simp add: wd_live_def SetHandshake_def wlog_def)
  moreover have "WDStart e cl tol interval av ac =
      Inr (cl\<lparr>g_wd_pid := st_fork e, g_client_tid := True, cl_proc := SetHandshake w2, cl_thread := Thread_runs sch2\<rparr>, WD_SUCCESS)"
    using e a sch(1) junk w1 init(1) by (simp add: WDStart_def good_start_def ClientThread_def)
  ultimately show ?thesis using init(3,4) sch(4,5) by (intro exI [of _ p] exI [of _ sch2] exI [of _ "SetHandshake w2"]) simp
qed

lemma SchedDestroy_live: "wd_live p c sch w \<Longrightarrow> 3 < fuel \<Longrightarrow> \<exists>s. SchedDestroy fuel (Some junk) sch = Inr s"
proof -
  assume live: "wd_live p c sch w" and fuel: "3 < fuel"
  then have "sched_out {} sch" "card (dom (sc_tasks sch) - {}) < fuel" by (auto simp: wd_live_def sched_out_inv)
  from SchedClear_out [OF this, of junk] obtain s where s: "SchedClear fuel (Some junk) sch = Inr s" "sched_out {} s" by blast
  then have "hp_vector (sched_heap s) \<noteq> None" by (auto simp: sched_out_def heap_inv_def heap_wf_def)
  with s(1) show ?thesis by (auto simp: SchedDestroy_def HeapDestroy_def VectorDestroy_def)
qed

text \<open>
  \<open>WDStop\<close> signals the watchdog first and then sets the flag of the request. When the watchdog's answer
  comes in between, the request overwrites it: nobody tells the client's thread to stop any more, its
  heartbeats stay without answer, and it starts a new watchdog before it can end.
\<close>

lemma WDStop_overwritten:
  assumes live: "wd_live p c sch w" "duo sch h ch" "stop_flag c = 0" "counter c = 0" "is_wd c = 0"
    and cl: "cl_proc cl = w" "cl_thread cl = Thread_runs sch" "g_client_tid cl"
    and rs: "list_all silent rs" "good_run (interval_sec c) rs (sch, w')" "length rs < 2 ^ 31" "3 * tolerance c + 8 \<le> length rs" "3 < fuel"
    and w': "bindE (interrupt [Usr2] (if 0 < g_wd_pid cl then wlog (Sent (g_wd_pid cl) SIGUSR2) w else w)) WDTasksRequestStop = Inr w'"
  shows "\<exists>cl' ans. WDStop [Usr2] rs fuel (Some junk) cl = Inr (cl', ans) \<and> Reviving \<in> set (w_log (cl_proc cl'))"
proof -
  let ?w1 = "if 0 < g_wd_pid cl then wlog (Sent (g_wd_pid cl) SIGUSR2) w else w"
  have w: "g_ctx w = p" "p \<noteq> NULL" "w_ctxs w p = Some c" using live(1) by (auto simp: wd_live_def)
  have w1: "g_ctx ?w1 = p" "w_ctxs ?w1 p = Some c" using w by (simp_all add: wlog_def)
  define c' where "c' = c\<lparr>stop_flag := 1\<rparr>"
  have "g_ctx w' = p \<and> w_ctxs w' p = Some c'"
    using w' w(2) w1 live(5) by (auto simp: SigUsr2Handler_def WDTasksRequestStop_def load_ctx_def fetch_def put_ctx_def wlog_def Let_def c'_def)
  then have live': "wd_live p c' sch w'" using live(1) by (simp add: wd_live_def c'_def ctx_ok_def)
  have left: "rounds_left (tolerance c') (counter c') h ch \<le> length rs"
    using live(4) rs(4) by (simp add: rounds_left_def others_def c'_def nat_add_distrib)
  have "stop_flag c' \<noteq> 2" "good_run (interval_sec c') rs (sch, w')" "counter c' + int (length rs) < 2 ^ 31"
    using rs(2,3) live(4) by (simp_all add: c'_def)
  from wd_run_silent [OF live' live(2) this(1) rs(1) this(2,3) left, of False] obtain sch2 w2 e where
    run: "WDRun_loop rs (sch, w') False = Inr ((sch2, w2), e)" "Reviving \<in> set (w_log w2)" "e \<noteq> Replaced \<longrightarrow> (\<exists>c'. wd_live p c' sch2 w2)" by blast
  have "sch\<lparr>sc_stop_flag := False\<rparr> = sch" using live(1) by (simp add: wd_live_def)
  then have run': "WDRun rs (sch, w') = Inr ((sch2, w2), e)" using run(1) by (simp add: WDRun_def)
  from w' obtain x where x: "interrupt [Usr2] ?w1 = Inr x" "WDTasksRequestStop x = Inr w'"
    by (auto simp: bindE_Inr_iff simp del: interrupt.simps)
  have stop: "WDStop [Usr2] rs fuel (Some junk) cl = (case e of
      Ended st \<Rightarrow> bindE (SchedDestroy fuel (Some junk) sch2) (\<lambda>_. Inr (cl\<lparr>g_client_tid := False, g_wd_pid := 0,
          cl_proc := wlog (Sem_unlink ''/client_ready_sem'') (wlog (Sem_unlink ''/wd_ready_sem'') w2), cl_thread := No_thread\<rparr>, Some WD_SUCCESS))
    | _ \<Rightarrow> Inr (cl\<lparr>cl_proc := w2, cl_thread := Thread_runs sch2\<rparr>, None))"
    using x run' cl by (simp add: WDStop_def Let_def del: interrupt.simps)
  show ?thesis
  proof (cases e)
    case (Ended st)
    with run(3) obtain c2 where "wd_live p c2 sch2 w2" by blast
    from SchedDestroy_live [OF this rs(5)] obtain s where "SchedDestroy fuel (Some junk) sch2 = Inr s" by blast
    with stop Ended run(2) show ?thesis by (simp add: wlog_def)
  qed (use stop run(2) in simp_all)
qed

text \<open>
  The thread looks for the semaphores once, without creating them. When it is faster than the new
  watchdog it gives up, and \<open>WDStart\<close> still answers that all is well.
\<close>

lemma WDStart_without_watch:
  assumes e: "good_start (e\<lparr>st_sem_wd := True\<rparr>)" "\<not> st_sem_wd e" "3 < st_fuel e" and a: "0 < tol" "0 < interval" "interval < 2 ^ 32" "ac \<le> length av"
  shows "\<exists>w. WDStart e cl tol interval av ac =
      Inr (cl\<lparr>g_wd_pid := st_fork e, g_client_tid := True, cl_proc := w, cl_thread := Thread_returned\<rparr>, WD_SUCCESS)"
proof -
  obtain junk where junk: "st_alloc e = Some junk" using e by (auto simp: good_start_def)
  obtain sch where sch: "SchedCreate True True True (Some junk) (st_counter e) (st_now e) = Some sch" "sched_inv sch" "sc_tasks sch = Map.empty"
    "sc_counter sch = st_counter e" "sc_now sch = st_now e" "\<not> sc_stop_flag sch" using SchedCreate_ok by blast
  have gi: "good_init (st_init e)" using e by (simp add: good_start_def)
  obtain p where p: "in_ctx (st_init e) = Some p" "p \<noteq> NULL" using gi by (auto simp: good_init_def)
  obtain w1 where w1: "SpawnWatchdog e interval tol ac av (cl_proc cl) = Inr (w1, st_fork e)"
    using e a(4) by (auto simp: SpawnWatchdog_def good_start_def wd_child_ok)
  let ?c = "\<lparr>peer_pid = st_fork e, interval_sec = interval, tolerance = tol, counter = 0, stop_flag = 0, is_wd = 0, argc = ac, argv = av\<rparr>"
  have "ctx_ok ?c" using a by (simp add: ctx_ok_def)
  with WDTasksInit_ok [OF sch(2,3,6) _ p, where c = ?c and w = w1 and peer = "st_fork e" and interval = interval and tol = tol
      and iw = 0 and ac = ac and av = av] sch(4) e gi good_init_add [OF gi sch(3)]
  obtain sch2 w2 where init: "WDTasksInit (st_init e) (sch, w1) 0 (st_fork e) interval tol ac av = Inr ((sch2, w2), 0)"
    "wd_live p ?c sch2 w2" by (auto simp: good_init_def good_start_def)
  from SchedDestroy_live [OF init(2) e(3), of junk] obtain s where "SchedDestroy (st_fuel e) (Some junk) sch2 = Inr s" by blast
  with e a sch(1) junk w1 init(1) show ?thesis
    by (intro exI [of _ w2]) (simp add: WDStart_def good_start_def ClientThread_def)
qed

text \<open>
  The handler resets the counter that the task is incrementing: between load and store the reset is lost,
  and an answered heartbeat counts as unanswered.
\<close>

lemma TaskSendHeartbeat_lost:
  assumes w: "g_ctx w = p" "p \<noteq> NULL" "w_ctxs w p = Some c" and c: "stop_flag c = 0" "0 \<le> counter c" "counter c + 1 < 2 ^ 31"
  shows "\<exists>w' c' v. TaskSendHeartbeat (\<lambda>k. if k = 2 then [Usr1] else []) p w = Inr (w', v) \<and> w_ctxs w' p = Some c' \<and>
    counter c' = counter c + 1 \<and> unanswered (w_log w') = 0"
  using assms by (simp add: TaskSendHeartbeat_def SigUsr1Handler_def load_ctx_def fetch_def put_ctx_def wlog_def int32_def Let_def)

section \<open>There are good runs\<close>

text \<open>A system that answers well: two new addresses, one interface, a \<open>sleep\<close> that sleeps to the end.\<close>

definition easy_add :: "ptr \<Rightarrow> wd_add" where
  "easy_add q = \<lparr>ad_task = Some q, ad_alloc = Some (\<lambda>_. 0), ad_pid = 1, ad_ifs = Some [Some (True, Some ''10.0.0.1'')]\<rparr>"

definition easy_round :: "nat \<Rightarrow> wd_intr list \<Rightarrow> ptr \<Rightarrow> ptr \<Rightarrow> wd_round" where
  "easy_round interval before q1 q2 =
     \<lparr>rd_fuel = interval + 4, rd_sleep = (\<lambda>now n. (now + int n, 0)), rd_before = before, rd_mid = (\<lambda>k. []), rd_took = 0,
      rd_pop = Some (\<lambda>_. 0), rd_push = Some (\<lambda>_. 0), rd_add1 = easy_add q1, rd_add2 = easy_add q2, rd_fork = 77, rd_self = 5,
      rd_exec = True, rd_child = True, rd_sems = True\<rparr>"

lemma easy_add_ok: "q \<noteq> NULL \<Longrightarrow> sc_tasks sch q = None \<Longrightarrow> good_add (easy_add q) sch"
  by (simp add: good_add_def easy_add_def GetIPAddress_def)

lemma easy_round_ok:
  assumes "q1 \<noteq> q2" "q1 \<noteq> NULL" "q2 \<noteq> NULL" "sc_tasks sch q1 = None" "sc_tasks sch q2 = None" "sc_counter sch + 2 < 2 ^ 64"
  shows "good_round interval (easy_round interval before q1 q2) sch"
proof -
  have "ad_task (easy_add q1) \<noteq> ad_task (easy_add q2)" using assms(1) by (simp add: easy_add_def)
  with assms easy_add_ok show ?thesis
    by (simp add: good_round_def easy_round_def rd_env_def env_ok_def sleep_progress_def)
qed

lemma two_addresses: "finite A \<Longrightarrow> card A \<le> 3 \<Longrightarrow> \<exists>q1 q2 :: ptr. q1 \<noteq> q2 \<and> q1 \<noteq> NULL \<and> q2 \<noteq> NULL \<and> q1 \<notin> A \<and> q2 \<notin> A"
proof -
  assume A: "finite A" "card A \<le> 3"
  let ?U = "{1, 2, 3, 4, 5 :: ptr}"
  have "card ?U = 5" by simp
  then have "2 \<le> card (?U - A)" using A diff_card_le_card_Diff [OF A(1), of ?U] by linarith
  then obtain T where T: "T \<subseteq> ?U - A" "card T = 2" by (rule obtain_subset_with_card_n)
  from T(2) obtain q1 q2 where "T = {q1, q2}" "q1 \<noteq> q2" by (auto simp: card_2_iff)
  with T(1) have "q1 \<in> ?U - A" "q2 \<in> ?U - A" "q1 \<noteq> q2" by auto
  then show ?thesis by (intro exI [of _ q1] exI [of _ q2]) auto
qed

lemma good_rounds_exist:
  "wd_live p c sch w \<Longrightarrow> counter c + int n < 2 ^ 31 \<Longrightarrow> sc_counter sch + 2 * n < 2 ^ 64 \<Longrightarrow>
   \<exists>rs. length rs = n \<and> good_run (interval_sec c) rs (sch, w) \<and> (\<forall>r \<in> set rs. \<exists>q1 q2. r = easy_round (interval_sec c) before q1 q2)"
proof (induction n arbitrary: c sch w)
  case (Suc n)
  have "finite (dom (sc_tasks sch))" "card (dom (sc_tasks sch)) \<le> 3"
    using Suc.prems(1) sched_inv_finite by (auto simp: wd_live_def)
  from two_addresses [OF this] obtain q1 q2 where q: "q1 \<noteq> q2" "q1 \<noteq> NULL" "q2 \<noteq> NULL" "sc_tasks sch q1 = None" "sc_tasks sch q2 = None"
    by (auto simp: domIff)
  let ?r = "easy_round (interval_sec c) before q1 q2"
  have good: "good_round (interval_sec c) ?r sch" by (rule easy_round_ok [OF q]) (use Suc.prems(3) in simp)
  show ?case
  proof (cases "sc_tasks sch = Map.empty")
    case True
    have "\<exists>e. HeapPeek (sched_heap sch) = Inl e"
      using True Suc.prems(1) by (simp add: HeapPeek_def wd_live_def SchedIsEmpty_ok)
    then obtain e where "wd_round_run r (sch, w) = Inl e" for r by (auto simp: wd_round_run_def SchedRun_round_def)
    then have "good_run (interval_sec c) (replicate (Suc n) ?r) (sch, w)" using good by (cases n) auto
    then show ?thesis by (intro exI [of _ "replicate (Suc n) ?r"]) auto
  next
    case False
    have cnt: "counter c + 1 < 2 ^ 31" using Suc.prems(2) by simp
    obtain sch1 w1 how where r: "wd_round_run ?r (sch, w) = Inr ((sch1, w1), how)" "sc_counter sch1 \<le> sc_counter sch + 2"
      "how \<noteq> None \<longrightarrow> (\<exists>c'. wd_live p c' sch1 w1 \<and> same_job c c' \<and> counter c' \<le> counter c + 1)"
      using wd_round_ok [OF Suc.prems(1) False good cnt] by blast
    show ?thesis
    proof (cases "how = None")
      case True
      with good r(1) show ?thesis by (intro exI [of _ "replicate (Suc n) ?r"]) auto
    next
      case how: False
      then obtain c1 where c1: "wd_live p c1 sch1 w1" "same_job c c1" "counter c1 \<le> counter c + 1" using r(3) by blast
      obtain rs where "length rs = n" "good_run (interval_sec c1) rs (sch1, w1)"
        "\<forall>r \<in> set rs. \<exists>q1 q2. r = easy_round (interval_sec c1) before q1 q2"
        using Suc.IH [OF c1(1)] Suc.prems(2,3) c1(3) r(2) by auto
      with good r(1) c1(2) show ?thesis by (intro exI [of _ "?r # rs"]) (auto simp: same_job_def)
    qed
  qed
qed simp

lemma quiet_rounds_exist:
  assumes "wd_live p c sch w" "counter c + int n < 2 ^ 31" "sc_counter sch + 2 * n < 2 ^ 64"
  shows "\<exists>rs. length rs = n \<and> good_run (interval_sec c) rs (sch, w) \<and> list_all silent rs \<and> list_all calm rs \<and>
    (\<forall>r \<in> set rs. Request_stop \<notin> set (rd_before r))"
proof -
  from good_rounds_exist [OF assms, of "[]"] obtain rs where rs: "length rs = n" "good_run (interval_sec c) rs (sch, w)"
    "\<forall>r \<in> set rs. \<exists>q1 q2. r = easy_round (interval_sec c) [] q1 q2" by blast
  have "silent r \<and> calm r \<and> Request_stop \<notin> set (rd_before r)" if "r \<in> set rs" for r
  proof -
    from rs(3) that obtain q1 q2 where "r = easy_round (interval_sec c) [] q1 q2" by blast
    then show ?thesis by (simp add: silent_def calm_def easy_round_def)
  qed
  with rs(1,2) show ?thesis by (auto simp: list_all_iff)
qed

text \<open>A start that goes well.\<close>

definition easy_init :: wd_init_env where
  "easy_init = \<lparr>in_ctx = Some 64, in_usr1 = True, in_usr2 = True, in_add1 = easy_add 72, in_add2 = easy_add 80\<rparr>"

definition easy_start :: wd_start_env where
  "easy_start = \<lparr>st_sem = True, st_args = True, st_ok = True, st_heap_ok = True, st_struct_ok = True, st_alloc = Some (\<lambda>_. 0),
     st_counter = 0, st_now = 1000, st_fork = 77, st_self = 5, st_child = True, st_init = easy_init, st_fuel = 4, st_thread = True,
     st_sem_wd = True, st_sem_client = True, st_wait = True\<rparr>"

lemma easy_init_ok: "good_init easy_init"
  by (simp add: good_init_def easy_init_def easy_add_def GetIPAddress_def)

lemma easy_start_ok: "good_start easy_start"
  by (simp add: good_start_def easy_start_def easy_init_ok)

definition no_client :: wd_client where
  "no_client = \<lparr>g_client_tid = False, g_wd_pid = 0, cl_proc = empty_proc, cl_thread = No_thread\<rparr>"

end
