(* ===== verification/SLL.thy ===== *)
theory SLL
  imports Prelude
begin

text \<open>
  The singly linked list of \<open>ds/src/sll.c\<close> on an explicit store of nodes and list structs.
  A list owns its struct, its element nodes and one dummy node at the end whose \<open>data\<close>
  points back to the struct; insertion and removal copy the neighbour's contents, so an
  iterator (a node address) stays where it is while the data moves. The lemmas give the
  effect of every operation on the represented list and on every other list of the store.
\<close>

section \<open>Definitions\<close>

record sll_node =
  n_data :: ptr
  n_next :: ptr

record sll_t =
  l_head :: ptr
  l_tail :: ptr

text \<open>The store: which addresses hold a node, which hold a list struct.\<close>

record sll_mem =
  nodes :: "ptr \<Rightarrow> sll_node option"
  lists :: "ptr \<Rightarrow> sll_t option"

type_synonym sll_iter_t = ptr

definition load_node :: "sll_mem \<Rightarrow> ptr \<Rightarrow> sll_node result" where
  "load_node m p = (if p = NULL then Inl Bad_access else fetch (nodes m p))"

definition store_node :: "sll_mem \<Rightarrow> ptr \<Rightarrow> sll_node \<Rightarrow> sll_mem" where
  "store_node m p n = m\<lparr>nodes := (nodes m)(p := Some n)\<rparr>"

definition free_node :: "sll_mem \<Rightarrow> ptr \<Rightarrow> sll_mem result" where
  "free_node m p = (if nodes m p = None then Inl Bad_free else Inr (m\<lparr>nodes := (nodes m)(p := None)\<rparr>))"

definition load_list :: "sll_mem \<Rightarrow> ptr \<Rightarrow> sll_t result" where
  "load_list m l = (if l = NULL then Inl Bad_access else fetch (lists m l))"

definition set_tail :: "sll_mem \<Rightarrow> ptr \<Rightarrow> ptr \<Rightarrow> sll_mem result" where
  "set_tail m l z = bindE (load_list m l) (\<lambda>s. Inr (m\<lparr>lists := (lists m)(l := Some (s\<lparr>l_tail := z\<rparr>))\<rparr>))"

definition set_head :: "sll_mem \<Rightarrow> ptr \<Rightarrow> ptr \<Rightarrow> sll_mem result" where
  "set_head m l z = bindE (load_list m l) (\<lambda>s. Inr (m\<lparr>lists := (lists m)(l := Some (s\<lparr>l_head := z\<rparr>))\<rparr>))"

text \<open>\<open>al\<close> and \<open>ad\<close> are the answers of the two \<open>malloc\<close> calls: the struct, then the dummy.\<close>

definition SLLCreate :: "ptr option \<Rightarrow> ptr option \<Rightarrow> sll_mem \<Rightarrow> sll_mem \<times> ptr" where
  "SLLCreate al ad m =
     (case al of
        None \<Rightarrow> (m, NULL)
      | Some list \<Rightarrow>
          let m1 = m\<lparr>lists := (lists m)(list := Some \<lparr>l_head = NULL, l_tail = NULL\<rparr>)\<rparr>
          in case ad of
               None \<Rightarrow> (m1\<lparr>lists := (lists m1)(list := None)\<rparr>, NULL)
             | Some dummy \<Rightarrow>
                 let m2 = store_node m1 dummy \<lparr>n_data = list, n_next = NULL\<rparr>
                 in (m2\<lparr>lists := (lists m2)(list := Some \<lparr>l_head = dummy, l_tail = dummy\<rparr>)\<rparr>, list))"

definition SLLBegin :: "sll_mem \<Rightarrow> ptr \<Rightarrow> sll_iter_t result" where
  "SLLBegin m list = bindE (assertE (list \<noteq> NULL)) (\<lambda>_. bindE (load_list m list) (\<lambda>s. Inr (l_head s)))"

definition SLLEnd :: "sll_mem \<Rightarrow> ptr \<Rightarrow> sll_iter_t result" where
  "SLLEnd m list = bindE (assertE (list \<noteq> NULL)) (\<lambda>_. bindE (load_list m list) (\<lambda>s. Inr (l_tail s)))"

definition SLLNext :: "sll_mem \<Rightarrow> sll_iter_t \<Rightarrow> sll_iter_t result" where
  "SLLNext m iter = bindE (assertE (iter \<noteq> NULL)) (\<lambda>_. bindE (load_node m iter) (\<lambda>n. Inr (n_next n)))"

definition SLLIsEqual :: "sll_iter_t \<Rightarrow> sll_iter_t \<Rightarrow> bool result" where
  "SLLIsEqual iter1 iter2 =
     bindE (assertE (iter1 \<noteq> NULL)) (\<lambda>_. bindE (assertE (iter2 \<noteq> NULL)) (\<lambda>_. Inr (iter1 = iter2)))"

definition SLLGetData :: "sll_mem \<Rightarrow> sll_iter_t \<Rightarrow> ptr result" where
  "SLLGetData m iter = bindE (assertE (iter \<noteq> NULL)) (\<lambda>_. bindE (load_node m iter) (\<lambda>n. Inr (n_data n)))"

definition SLLSetData :: "sll_mem \<Rightarrow> sll_iter_t \<Rightarrow> ptr \<Rightarrow> sll_mem result" where
  "SLLSetData m iter data =
     bindE (assertE (iter \<noteq> NULL)) (\<lambda>_.
     bindE (load_node m iter) (\<lambda>n. Inr (store_node m iter (n\<lparr>n_data := data\<rparr>))))"

text \<open>\<open>SLLDestroy\<close>: the loop frees node after node up to the NULL behind the dummy.\<close>

fun SLLDestroy_loop :: "nat \<Rightarrow> sll_mem \<Rightarrow> sll_iter_t \<Rightarrow> sll_mem result" where
  "SLLDestroy_loop 0 m current_node = Inl Out_of_fuel"
| "SLLDestroy_loop (Suc fuel) m current_node =
     (if current_node = NULL then Inr m
      else bindE (SLLNext m current_node) (\<lambda>next.
           bindE (free_node m current_node) (\<lambda>m'. SLLDestroy_loop fuel m' next)))"

definition SLLDestroy :: "nat \<Rightarrow> sll_mem \<Rightarrow> ptr \<Rightarrow> sll_mem result" where
  "SLLDestroy fuel m list =
     bindE (assertE (list \<noteq> NULL)) (\<lambda>_.
     bindE (SLLBegin m list) (\<lambda>first.
     bindE (SLLDestroy_loop fuel m first) (\<lambda>m'.
     if lists m' list = None then Inl Bad_free else Inr (m'\<lparr>lists := (lists m')(list := None)\<rparr>))))"

text \<open>When \<open>malloc\<close> fails, \<open>SLLInsert\<close> walks to the dummy and returns it.\<close>

fun SLLInsert_walk :: "nat \<Rightarrow> sll_mem \<Rightarrow> sll_iter_t \<Rightarrow> sll_iter_t result" where
  "SLLInsert_walk 0 m where' = Inl Out_of_fuel"
| "SLLInsert_walk (Suc fuel) m where' =
     bindE (SLLNext m where') (\<lambda>next. if next = NULL then Inr where' else SLLInsert_walk fuel m next)"

definition SLLInsert :: "nat \<Rightarrow> ptr option \<Rightarrow> sll_mem \<Rightarrow> sll_iter_t \<Rightarrow> ptr \<Rightarrow> (sll_mem \<times> sll_iter_t) result" where
  "SLLInsert fuel a m where' data =
     bindE (assertE (where' \<noteq> NULL)) (\<lambda>_.
     case a of
       None \<Rightarrow> bindE (SLLInsert_walk fuel m where') (\<lambda>last. Inr (m, last))
     | Some node \<Rightarrow>
         bindE (SLLGetData m where') (\<lambda>d.
         bindE (SLLNext m where') (\<lambda>nx.
         let m1 = store_node m node \<lparr>n_data = d, n_next = nx\<rparr>
         in bindE (load_node m1 where') (\<lambda>w.
            let m2 = store_node m1 where' (w\<lparr>n_next := node\<rparr>)
            in bindE (SLLSetData m2 where' data) (\<lambda>m3.
               bindE (SLLNext m3 node) (\<lambda>nn.
               bindE (if nn = NULL
                      then bindE (SLLGetData m3 node) (\<lambda>l. set_tail m3 l node)
                      else Inr m3) (\<lambda>m4.
               Inr (m4, where'))))))))"

definition SLLRemove :: "sll_mem \<Rightarrow> sll_iter_t \<Rightarrow> (sll_mem \<times> sll_iter_t) result" where
  "SLLRemove m to_remove =
     bindE (SLLNext m to_remove) (\<lambda>tmp.
     bindE (assertE (tmp \<noteq> NULL)) (\<lambda>_.
     bindE (SLLGetData m tmp) (\<lambda>d.
     bindE (SLLNext m tmp) (\<lambda>nx.
     let m1 = store_node m to_remove \<lparr>n_data = d, n_next = nx\<rparr>
     in bindE (free_node m1 tmp) (\<lambda>m2.
        bindE (SLLNext m2 to_remove) (\<lambda>nn.
        bindE (if nn = NULL
               then bindE (SLLGetData m2 to_remove) (\<lambda>l. set_tail m2 l to_remove)
               else Inr m2) (\<lambda>m3.
        Inr (m3, to_remove))))))))"

definition SLLIsEmpty :: "sll_mem \<Rightarrow> ptr \<Rightarrow> bool result" where
  "SLLIsEmpty m list = bindE (SLLBegin m list) (\<lambda>b. bindE (SLLEnd m list) (SLLIsEqual b))"

text \<open>
  The action of \<open>SLLForEach\<close> is the caller's code: it maps the data pointer and the state
  behind \<open>param\<close> to the new state and a status.
\<close>

fun SLLForEach_loop :: "nat \<Rightarrow> sll_mem \<Rightarrow> sll_iter_t \<Rightarrow> sll_iter_t \<Rightarrow> (ptr \<Rightarrow> 's \<Rightarrow> 's \<times> int) \<Rightarrow> 's \<Rightarrow> int \<Rightarrow> ('s \<times> int) result" where
  "SLLForEach_loop 0 m from to action_func param rc = Inl Out_of_fuel"
| "SLLForEach_loop (Suc fuel) m from to action_func param rc =
     bindE (SLLIsEqual from to) (\<lambda>eq.
     if \<not> eq \<and> rc = 0
     then bindE (load_node m from) (\<lambda>n.
          let (param', rc') = action_func (n_data n) param
          in bindE (SLLNext m from) (\<lambda>next. SLLForEach_loop fuel m next to action_func param' rc'))
     else Inr (param, rc))"

definition SLLForEach :: "nat \<Rightarrow> sll_mem \<Rightarrow> sll_iter_t \<Rightarrow> sll_iter_t \<Rightarrow> (ptr \<Rightarrow> 's \<Rightarrow> 's \<times> int) \<Rightarrow> 's \<Rightarrow> ('s \<times> int) result" where
  "SLLForEach fuel m from to action_func param =
     bindE (assertE (from \<noteq> NULL)) (\<lambda>_.
     bindE (assertE (to \<noteq> NULL)) (\<lambda>_. SLLForEach_loop fuel m from to action_func param 0))"

definition SLL_CountAction :: "ptr \<Rightarrow> nat \<Rightarrow> nat \<times> int" where
  "SLL_CountAction data param = (param + 1, 0)"

definition SLLCount :: "nat \<Rightarrow> sll_mem \<Rightarrow> ptr \<Rightarrow> nat result" where
  "SLLCount fuel m list =
     (if list = NULL then Inr 0
      else bindE (SLLBegin m list) (\<lambda>b. bindE (SLLEnd m list) (\<lambda>e.
           bindE (SLLForEach fuel m b e SLL_CountAction 0) (\<lambda>(n, rc). Inr n))))"

fun SLLFind :: "nat \<Rightarrow> sll_mem \<Rightarrow> sll_iter_t \<Rightarrow> sll_iter_t \<Rightarrow> (ptr \<Rightarrow> ptr \<Rightarrow> int) \<Rightarrow> ptr \<Rightarrow> sll_iter_t result" where
  "SLLFind 0 m from to is_match param = Inl Out_of_fuel"
| "SLLFind (Suc fuel) m from to is_match param =
     bindE (SLLIsEqual from to) (\<lambda>eq.
     if eq then Inr to
     else bindE (load_node m from) (\<lambda>n.
          if is_match (n_data n) param \<noteq> 0 then Inr from
          else bindE (SLLNext m from) (\<lambda>next. SLLFind fuel m next to is_match param)))"

definition SLLAppend :: "sll_mem \<Rightarrow> ptr \<Rightarrow> ptr \<Rightarrow> (sll_mem \<times> ptr) result" where
  "SLLAppend m src dst =
     bindE (assertE (src \<noteq> NULL)) (\<lambda>_.
     bindE (assertE (dst \<noteq> NULL)) (\<lambda>_.
     bindE (SLLIsEmpty m src) (\<lambda>src_empty.
     if src_empty \<or> src = dst then Inr (m, dst)
     else bindE (SLLIsEmpty m dst) (\<lambda>dst_empty.
     if dst_empty then Inr (m, src)
     else bindE (SLLEnd m dst) (\<lambda>dst_end.
          bindE (SLLBegin m src) (\<lambda>src_begin.
          bindE (load_node m dst_end) (\<lambda>n.
          bindE (SLLRemove (store_node m dst_end (n\<lparr>n_next := src_begin\<rparr>)) dst_end) (\<lambda>(m1, it).
          bindE (SLLEnd m1 src) (\<lambda>e.
          bindE (set_tail m1 dst e) (\<lambda>m2.
          bindE (set_head m2 src e) (\<lambda>m3. Inr (m3, dst))))))))))))"

section \<open>Representation\<close>

text \<open>From \<open>p\<close>, the nodes \<open>xs\<close> (address and data) follow one another up to \<open>q\<close>.\<close>

fun chain :: "(ptr \<Rightarrow> sll_node option) \<Rightarrow> ptr \<Rightarrow> (ptr \<times> ptr) list \<Rightarrow> ptr \<Rightarrow> bool" where
  "chain h p [] q \<longleftrightarrow> p = q"
| "chain h p ((a, d) # xs) q \<longleftrightarrow>
     p = a \<and> a \<noteq> NULL \<and> (\<exists>b. h a = Some \<lparr>n_data = d, n_next = b\<rparr> \<and> chain h b xs q)"

definition sll_rep :: "sll_mem \<Rightarrow> ptr \<Rightarrow> (ptr \<times> ptr) list \<Rightarrow> ptr \<Rightarrow> bool" where
  "sll_rep m l xs z \<longleftrightarrow> l \<noteq> NULL \<and> z \<noteq> NULL \<and> distinct (l # map fst xs @ [z]) \<and>
     nodes m z = Some \<lparr>n_data = l, n_next = NULL\<rparr> \<and>
     (\<exists>p. lists m l = Some \<lparr>l_head = p, l_tail = z\<rparr> \<and> chain (nodes m) p xs z)"

text \<open>The addresses a list owns, and two stores that agree on a set of addresses.\<close>

definition sll_foot :: "ptr \<Rightarrow> (ptr \<times> ptr) list \<Rightarrow> ptr \<Rightarrow> ptr set" where
  "sll_foot l xs z = insert l (insert z (fst ` set xs))"

definition sll_agree :: "sll_mem \<Rightarrow> sll_mem \<Rightarrow> ptr set \<Rightarrow> bool" where
  "sll_agree m m' A \<longleftrightarrow> (\<forall>p \<in> A. nodes m' p = nodes m p \<and> lists m' p = lists m p)"

definition fresh :: "sll_mem \<Rightarrow> ptr \<Rightarrow> bool" where
  "fresh m p \<longleftrightarrow> p \<noteq> NULL \<and> nodes m p = None \<and> lists m p = None"

section \<open>Chains\<close>

lemma chain_append: "chain h p (xs @ ys) q \<longleftrightarrow> (\<exists>r. chain h p xs r \<and> chain h r ys q)"
proof (induction xs arbitrary: p)
  case (Cons x xs)
  then show ?case by (cases x) (simp, blast)
qed simp

lemma chain_upd [simp]: "a \<notin> fst ` set xs \<Longrightarrow> chain (h(a := v)) p xs q = chain h p xs q"
  by (induction xs arbitrary: p) auto

lemma chain_agree: "(\<forall>a \<in> fst ` set xs. h' a = h a) \<Longrightarrow> chain h' p xs q = chain h p xs q"
  by (induction xs arbitrary: p) auto

lemma chain_start: "chain h p xs z \<Longrightarrow> p = first_of xs z"
  by (cases xs) (auto simp: first_of_def)

lemma chain_not_null: "chain h p xs q \<Longrightarrow> (a, d) \<in> set xs \<Longrightarrow> a \<noteq> NULL \<and> h a \<noteq> None"
  by (induction xs arbitrary: p) auto

lemma chain_next:
  "chain h p (us @ (a, d) # vs) z \<Longrightarrow> h a = Some \<lparr>n_data = d, n_next = first_of vs z\<rparr> \<and> a \<noteq> NULL"
  by (auto simp: chain_append dest: chain_start)

section \<open>The representation\<close>

lemma sll_repD:
  assumes "sll_rep m l xs z"
  shows "l \<noteq> NULL" "z \<noteq> NULL" "distinct (l # map fst xs @ [z])"
    "nodes m z = Some \<lparr>n_data = l, n_next = NULL\<rparr>"
    "lists m l = Some \<lparr>l_head = first_of xs z, l_tail = z\<rparr>"
    "chain (nodes m) (first_of xs z) xs z"
  using assms by (auto simp: sll_rep_def dest: chain_start)

lemma sll_repI:
  "l \<noteq> NULL \<Longrightarrow> z \<noteq> NULL \<Longrightarrow> distinct (l # map fst xs @ [z]) \<Longrightarrow>
   nodes m z = Some \<lparr>n_data = l, n_next = NULL\<rparr> \<Longrightarrow>
   lists m l = Some \<lparr>l_head = first_of xs z, l_tail = z\<rparr> \<Longrightarrow>
   chain (nodes m) (first_of xs z) xs z \<Longrightarrow> sll_rep m l xs z"
  by (auto simp: sll_rep_def)

lemma sll_rep_node:
  assumes "sll_rep m l (us @ (a, d) # vs) z"
  shows "nodes m a = Some \<lparr>n_data = d, n_next = first_of vs z\<rparr>" "a \<noteq> NULL" "first_of vs z \<noteq> NULL" "a \<noteq> z"
proof -
  note R = sll_repD [OF assms]
  from chain_next [OF R(6)] show "nodes m a = Some \<lparr>n_data = d, n_next = first_of vs z\<rparr>" "a \<noteq> NULL" by auto
  show "first_of vs z \<noteq> NULL"
    using R(2) chain_not_null [OF R(6)] by (cases vs) (auto, blast)
  show "a \<noteq> z" using R(3) by auto
qed

text \<open>A list only depends on the addresses it owns.\<close>

lemma sll_rep_agree:
  assumes "sll_rep m l xs z" "sll_agree m m' (sll_foot l xs z)"
  shows "sll_rep m' l xs z"
proof -
  note R = sll_repD [OF assms(1)]
  have "chain (nodes m') (first_of xs z) xs z"
    using R(6) assms(2) by (subst chain_agree [where h = "nodes m"]) (auto simp: sll_agree_def sll_foot_def)
  with R assms(2) show ?thesis by (intro sll_repI) (auto simp: sll_agree_def sll_foot_def)
qed

lemma sll_fresh_not_owned:
  assumes "sll_rep m l xs z" "fresh m p"
  shows "p \<notin> sll_foot l xs z"
  using sll_repD [OF assms(1)] assms(2) chain_not_null
  by (fastforce simp: sll_foot_def fresh_def)

section \<open>Operations\<close>

lemmas sll_defs = SLLBegin_def SLLEnd_def SLLNext_def SLLIsEqual_def SLLGetData_def SLLSetData_def
  load_node_def load_list_def store_node_def free_node_def set_tail_def set_head_def

lemma SLLBegin_rep: "sll_rep m l xs z \<Longrightarrow> SLLBegin m l = Inr (first_of xs z)"
  using sll_repD [of m l xs z] by (simp add: sll_defs)

lemma SLLEnd_rep: "sll_rep m l xs z \<Longrightarrow> SLLEnd m l = Inr z"
  using sll_repD [of m l xs z] by (simp add: sll_defs)

lemma SLLNext_rep: "sll_rep m l (us @ (a, d) # vs) z \<Longrightarrow> SLLNext m a = Inr (first_of vs z)"
  using sll_rep_node [of m l us a d vs z] by (simp add: sll_defs)

lemma SLLGetData_rep: "sll_rep m l (us @ (a, d) # vs) z \<Longrightarrow> SLLGetData m a = Inr d"
  using sll_rep_node [of m l us a d vs z] by (simp add: sll_defs)

lemma first_of_eq_end:
  "sll_rep m l xs z \<Longrightarrow> first_of xs z = z \<longleftrightarrow> xs = []"
  using sll_repD(3) [of m l xs z] by (cases xs) auto

lemma SLLIsEmpty_rep: "sll_rep m l xs z \<Longrightarrow> SLLIsEmpty m l = Inr (xs = [])"
  using sll_repD(2) [of m l xs z] sll_rep_node(2) [of m l "[]" _ _ _ z] first_of_eq_end [of m l xs z]
  by (cases xs) (auto simp: SLLIsEmpty_def SLLBegin_rep SLLEnd_rep SLLIsEqual_def)

lemma SLLCreate_rep:
  assumes "fresh m l" "fresh m z" "l \<noteq> z"
  shows "\<exists>m'. SLLCreate (Some l) (Some z) m = (m', l) \<and> sll_rep m' l [] z \<and> sll_agree m m' (- {l, z})"
  using assms
  by (auto simp: SLLCreate_def Let_def sll_rep_def store_node_def fresh_def sll_agree_def)

lemma SLLCreate_fails:
  assumes "al = None \<or> ad = None" "\<forall>l. al = Some l \<longrightarrow> lists m l = None"
  shows "SLLCreate al ad m = (m, NULL)"
  using assms by (auto simp: SLLCreate_def Let_def fun_upd_idem split: option.splits)

lemma SLLInsert_middle:
  assumes rep: "sll_rep m l (us @ (a, d) # vs) z" and fr: "fresh m node"
  shows "\<exists>m'. SLLInsert fuel (Some node) m a x = Inr (m', a) \<and>
    sll_rep m' l (us @ (a, x) # (node, d) # vs) z \<and> sll_agree m m' (- {a, node})"
proof -
  note R = sll_repD [OF rep] and A = sll_rep_node [OF rep]
  have N: "node \<notin> sll_foot l (us @ (a, d) # vs) z" by (rule sll_fresh_not_owned [OF rep fr])
  let ?m' = "m\<lparr>nodes := (nodes m)(node := Some \<lparr>n_data = d, n_next = first_of vs z\<rparr>,
                             a := Some \<lparr>n_data = x, n_next = node\<rparr>)\<rparr>"
  have "SLLInsert fuel (Some node) m a x = Inr (?m', a)"
    using A N fr by (simp add: SLLInsert_def sll_defs sll_foot_def fresh_def)
  moreover have "sll_rep ?m' l (us @ (a, x) # (node, d) # vs) z"
    using R A N fr by (intro sll_repI) (auto simp: chain_append sll_foot_def fresh_def image_Un dest: chain_start)
  moreover have "sll_agree m ?m' (- {a, node})" by (simp add: sll_agree_def)
  ultimately show ?thesis by blast
qed

lemma SLLInsert_end:
  assumes rep: "sll_rep m l xs z" and fr: "fresh m node"
  shows "\<exists>m'. SLLInsert fuel (Some node) m z x = Inr (m', z) \<and>
    sll_rep m' l (xs @ [(z, x)]) node \<and> sll_agree m m' (- {z, node, l})"
proof -
  note R = sll_repD [OF rep]
  have N: "node \<notin> sll_foot l xs z" by (rule sll_fresh_not_owned [OF rep fr])
  let ?m' = "m\<lparr>nodes := (nodes m)(node := Some \<lparr>n_data = l, n_next = NULL\<rparr>,
                             z := Some \<lparr>n_data = x, n_next = node\<rparr>),
               lists := (lists m)(l := Some \<lparr>l_head = first_of xs z, l_tail = node\<rparr>)\<rparr>"
  have "SLLInsert fuel (Some node) m z x = Inr (?m', z)"
    using R N fr by (simp add: SLLInsert_def sll_defs sll_foot_def fresh_def)
  moreover have "sll_rep ?m' l (xs @ [(z, x)]) node"
    using R N fr by (intro sll_repI) (auto simp: chain_append sll_foot_def fresh_def)
  moreover have "sll_agree m ?m' (- {z, node, l})" by (simp add: sll_agree_def)
  ultimately show ?thesis by blast
qed

lemma SLLRemove_middle:
  assumes rep: "sll_rep m l (us @ (a, d) # (b, e) # vs) z"
  shows "\<exists>m'. SLLRemove m a = Inr (m', a) \<and>
    sll_rep m' l (us @ (a, e) # vs) z \<and> nodes m' b = None \<and> sll_agree m m' (- {a, b})"
proof -
  have rep2: "sll_rep m l ((us @ [(a, d)]) @ (b, e) # vs) z" using rep by simp
  note R = sll_repD [OF rep] and A = sll_rep_node [OF rep] and B = sll_rep_node [OF rep2]
  have ab: "a \<noteq> b" "a \<notin> fst ` set vs" "b \<notin> fst ` set vs" "a \<notin> fst ` set us" "b \<notin> fst ` set us"
    using R(3) by auto
  let ?m' = "m\<lparr>nodes := (nodes m)(a := Some \<lparr>n_data = e, n_next = first_of vs z\<rparr>, b := None)\<rparr>"
  have "SLLRemove m a = Inr (?m', a)"
    using A B ab by (simp add: SLLRemove_def sll_defs)
  moreover have "sll_rep ?m' l (us @ (a, e) # vs) z"
    using R A B ab by (intro sll_repI) (auto simp: chain_append dest: chain_start)
  moreover have "sll_agree m ?m' (- {a, b})" by (simp add: sll_agree_def)
  ultimately show ?thesis by auto
qed

lemma SLLRemove_last:
  assumes rep: "sll_rep m l (us @ [(a, d)]) z"
  shows "\<exists>m'. SLLRemove m a = Inr (m', a) \<and>
    sll_rep m' l us a \<and> nodes m' z = None \<and> sll_agree m m' (- {a, z, l})"
proof -
  note R = sll_repD [OF rep] and A = sll_rep_node [OF rep]
  have a: "a \<notin> fst ` set us" "z \<notin> fst ` set us" using R(3) by auto
  let ?m' = "m\<lparr>nodes := (nodes m)(a := Some \<lparr>n_data = l, n_next = NULL\<rparr>, z := None),
               lists := (lists m)(l := Some \<lparr>l_head = first_of us a, l_tail = a\<rparr>)\<rparr>"
  have "SLLRemove m a = Inr (?m', a)"
    using R A by (simp add: SLLRemove_def sll_defs)
  moreover have "sll_rep ?m' l us a"
    using R A a by (intro sll_repI) (auto simp: chain_append)
  moreover have "sll_agree m ?m' (- {a, z, l})" by (simp add: sll_agree_def)
  ultimately show ?thesis by auto
qed

text \<open>Removing the dummy is refused.\<close>

lemma SLLRemove_end: "sll_rep m l xs z \<Longrightarrow> SLLRemove m z = Inl Assert_failed"
  using sll_repD [of m l xs z] by (simp add: SLLRemove_def sll_defs)

text \<open>Insertion without memory changes nothing and answers the dummy.\<close>

lemma SLLInsert_walk_rep:
  assumes "sll_rep m l (us @ vs) z" "length vs < fuel"
  shows "SLLInsert_walk fuel m (first_of vs z) = Inr z"
  using assms
proof (induction vs arbitrary: us fuel)
  case Nil
  then show ?case using sll_repD [of m l us z] by (cases fuel) (simp_all add: sll_defs)
next
  case (Cons v vs)
  obtain a d where v: "v = (a, d)" by force
  obtain f where f: "fuel = Suc f" using Cons.prems(2) by (cases fuel) auto
  have "SLLInsert_walk f m (first_of vs z) = Inr z"
    using Cons.IH [of "us @ [v]" f] Cons.prems f by simp
  with Cons.prems f v show ?case
    using SLLNext_rep [of m l us a d vs z] sll_rep_node [of m l us a d vs z] by simp
qed


section \<open>Traversals\<close>

lemma SLLForEach_loop_stop:
  "rc \<noteq> 0 \<Longrightarrow> 0 < fuel \<Longrightarrow> p \<noteq> NULL \<Longrightarrow> z \<noteq> NULL \<Longrightarrow> SLLForEach_loop fuel m p z f s rc = Inr (s, rc)"
  by (cases fuel) (auto simp: SLLIsEqual_def)

lemma chain_first_not_null: "chain h p vs z \<Longrightarrow> z \<noteq> NULL \<Longrightarrow> p \<noteq> NULL"
  by (cases vs) auto

lemma SLLForEach_loop_chain:
  assumes "chain (nodes m) p vs z" "z \<noteq> NULL" "z \<notin> fst ` set vs" "length vs < fuel"
  shows "SLLForEach_loop fuel m p z f s 0 = Inr (each_spec f (map snd vs) s)"
  using assms
proof (induction vs arbitrary: p fuel s)
  case Nil
  then show ?case by (cases fuel) (auto simp: SLLIsEqual_def)
next
  case (Cons v vs)
  obtain a d where v: "v = (a, d)" by force
  obtain k where k: "fuel = Suc k" "length vs < k" using Cons.prems(4) by (cases fuel) auto
  from Cons.prems v obtain b where b: "p = a" "a \<noteq> NULL" "a \<noteq> z" "nodes m a = Some \<lparr>n_data = d, n_next = b\<rparr>"
    "chain (nodes m) b vs z" by auto
  obtain s' rc where act: "f d s = (s', rc)" by force
  have "SLLForEach_loop k m b z f s' 0 = Inr (each_spec f (map snd vs) s')"
    using Cons.IH [OF b(5)] Cons.prems k by simp
  moreover have "rc \<noteq> 0 \<Longrightarrow> SLLForEach_loop k m b z f s' rc = Inr (s', rc)"
    using SLLForEach_loop_stop [of rc k b z] k chain_first_not_null [OF b(5)] Cons.prems(2) by simp
  ultimately show ?case using v k b act Cons.prems(2) by (simp add: sll_defs)
qed

lemma SLLForEach_chain:
  assumes "chain (nodes m) p vs z" "z \<noteq> NULL" "z \<notin> fst ` set vs" "length vs < fuel"
  shows "SLLForEach fuel m p z f s = Inr (each_spec f (map snd vs) s)"
  using SLLForEach_loop_chain [OF assms] chain_first_not_null [OF assms(1,2)] assms(2)
  by (simp add: SLLForEach_def)

lemma each_spec_count: "each_spec SLL_CountAction ds n = (n + length ds, 0)"
  by (induction ds arbitrary: n) (simp_all add: SLL_CountAction_def)

lemma SLLCount_chain:
  assumes "lists m l = Some \<lparr>l_head = p, l_tail = z\<rparr>" "l \<noteq> NULL" "chain (nodes m) p vs z" "z \<noteq> NULL"
    "z \<notin> fst ` set vs" "length vs < fuel"
  shows "SLLCount fuel m l = Inr (length vs)"
  using SLLForEach_chain [OF assms(3-6), of SLL_CountAction 0] assms(1,2)
  by (simp add: SLLCount_def SLLBegin_def SLLEnd_def load_list_def each_spec_count)

lemma SLLCount_rep: "sll_rep m l xs z \<Longrightarrow> length xs < fuel \<Longrightarrow> SLLCount fuel m l = Inr (length xs)"
  using sll_repD [of m l xs z] by (intro SLLCount_chain [where z = z]) auto

lemma SLLFind_chain:
  assumes "chain (nodes m) p vs z" "z \<noteq> NULL" "z \<notin> fst ` set vs" "length vs < fuel"
  shows "SLLFind fuel m p z is_match param =
    Inr (first_of (dropWhile (\<lambda>(a, d). is_match d param = 0) vs) z)"
  using assms
proof (induction vs arbitrary: p fuel)
  case Nil
  then show ?case by (cases fuel) (auto simp: SLLIsEqual_def)
next
  case (Cons v vs)
  obtain a d where v: "v = (a, d)" by force
  obtain k where k: "fuel = Suc k" "length vs < k" using Cons.prems(4) by (cases fuel) auto
  from Cons.prems v obtain b where b: "p = a" "a \<noteq> NULL" "a \<noteq> z" "nodes m a = Some \<lparr>n_data = d, n_next = b\<rparr>"
    "chain (nodes m) b vs z" by auto
  with Cons.IH [OF b(5)] Cons.prems k v show ?case by (simp add: sll_defs)
qed

lemma SLLFind_rep:
  assumes "sll_rep m l (us @ vs) z" "length vs < fuel"
  shows "SLLFind fuel m (first_of vs z) z is_match param =
    Inr (first_of (dropWhile (\<lambda>(a, d). is_match d param = 0) vs) z)"
proof (rule SLLFind_chain)
  note R = sll_repD [OF assms(1)]
  show "chain (nodes m) (first_of vs z) vs z"
    using R(6) by (auto simp: chain_append dest: chain_start)
  show "z \<noteq> NULL" "z \<notin> fst ` set vs" "length vs < fuel" using R assms(2) by auto
qed

section \<open>Destruction\<close>

definition sll_erase :: "ptr set \<Rightarrow> (ptr \<Rightarrow> 'b option) \<Rightarrow> ptr \<Rightarrow> 'b option" where
  "sll_erase A h = (\<lambda>p. if p \<in> A then None else h p)"

lemma SLLDestroy_loop_chain:
  assumes "chain (nodes m) p vs z" "z \<noteq> NULL" "distinct (map fst vs @ [z])"
    "nodes m z = Some \<lparr>n_data = l, n_next = NULL\<rparr>" "Suc (length vs) < fuel"
  shows "SLLDestroy_loop fuel m p = Inr (m\<lparr>nodes := sll_erase (insert z (fst ` set vs)) (nodes m)\<rparr>)"
  using assms
proof (induction vs arbitrary: p fuel m)
  case Nil
  then obtain k where "fuel = Suc (Suc k)" by (cases fuel; cases "fuel - 1") auto
  moreover have "(nodes m)(z := None) = sll_erase {z} (nodes m)" by (auto simp: sll_erase_def)
  ultimately show ?case using Nil by (simp add: sll_defs)
next
  case (Cons v vs)
  obtain a d where v: "v = (a, d)" by force
  obtain k where k: "fuel = Suc k" "Suc (length vs) < k" using Cons.prems(5) by (cases fuel) auto
  from Cons.prems v obtain b where b: "p = a" "a \<noteq> NULL" "nodes m a = Some \<lparr>n_data = d, n_next = b\<rparr>"
    "chain (nodes m) b vs z" by auto
  let ?m1 = "m\<lparr>nodes := (nodes m)(a := None)\<rparr>"
  have "sll_erase (insert z (fst ` set vs)) ((nodes m)(a := None)) = sll_erase (insert z (fst ` set (v # vs))) (nodes m)"
    using v by (auto simp: sll_erase_def)
  moreover have "SLLDestroy_loop k ?m1 b = Inr (?m1\<lparr>nodes := sll_erase (insert z (fst ` set vs)) (nodes ?m1)\<rparr>)"
  proof (rule Cons.IH)
    show "chain (nodes ?m1) b vs z" using b(4) Cons.prems(3) v by simp
  qed (use Cons.prems v k in auto)
  ultimately show ?case using b k by (simp add: sll_defs)
qed

lemma SLLDestroy_rep:
  assumes "sll_rep m l xs z" "Suc (length xs) < fuel"
  shows "SLLDestroy fuel m l = Inr \<lparr>nodes = sll_erase (insert z (fst ` set xs)) (nodes m),
    lists = (lists m)(l := None)\<rparr>"
  using sll_repD [OF assms(1)] SLLBegin_rep [OF assms(1)] assms(2)
    SLLDestroy_loop_chain [of m "first_of xs z" xs z l fuel]
  by (simp add: SLLDestroy_def)

section \<open>Appending\<close>

text \<open>
  \<open>SLLAppend\<close> moves the nodes of \<open>src\<close> behind those of \<open>dst\<close>; the two lists then share the
  dummy of \<open>src\<close>, which still points to \<open>src\<close>.
\<close>

lemma SLLAppend_rep:
  assumes src: "sll_rep m src ((b, e) # ys) w" and dst: "sll_rep m dst (x # xs) z"
    and apart: "sll_foot src ((b, e) # ys) w \<inter> sll_foot dst (x # xs) z = {}"
  shows "\<exists>m'. SLLAppend m src dst = Inr (m', dst) \<and> sll_rep m' src [] w \<and>
    lists m' dst = Some \<lparr>l_head = fst x, l_tail = w\<rparr> \<and>
    chain (nodes m') (fst x) (x # xs @ (z, e) # ys) w \<and> distinct (map fst (x # xs @ (z, e) # ys) @ [w]) \<and>
    sll_agree m m' (- {z, b, src, dst})"
proof -
  note S = sll_repD [OF src] and D = sll_repD [OF dst]
  have B: "nodes m b = Some \<lparr>n_data = e, n_next = first_of ys w\<rparr>" "b \<noteq> NULL" "first_of ys w \<noteq> NULL"
    using sll_rep_node [of m src "[]" b e ys w] src by auto
  have F: "fst x = first_of (x # xs) z" by (cases x) simp
  have neq: "src \<noteq> dst" "b \<noteq> z" "w \<noteq> z" "w \<noteq> b"
    using apart S(3) by (auto simp: sll_foot_def)
  let ?m1 = "m\<lparr>nodes := (nodes m)(z := Some \<lparr>n_data = e, n_next = first_of ys w\<rparr>, b := None)\<rparr>"
  let ?m' = "?m1\<lparr>lists := (lists m)(dst := Some \<lparr>l_head = fst x, l_tail = w\<rparr>,
                                   src := Some \<lparr>l_head = w, l_tail = w\<rparr>)\<rparr>"
  have rm: "SLLRemove (store_node m z \<lparr>n_data = dst, n_next = b\<rparr>) z = Inr (?m1, z)"
    using B D neq by (simp add: SLLRemove_def sll_defs)
  have "SLLAppend m src dst = Inr (?m', dst)"
    using S(1) D(1,2,4) neq rm S(5) D(5) F
    by (simp add: SLLAppend_def SLLIsEmpty_rep [OF src] SLLIsEmpty_rep [OF dst]
        SLLEnd_rep [OF dst] SLLBegin_rep [OF src] load_node_def SLLEnd_def load_list_def set_tail_def set_head_def)
  moreover have "sll_rep ?m' src [] w" using S neq by (intro sll_repI) auto
  moreover have "chain (nodes ?m') (fst x) (x # xs @ (z, e) # ys) w"
  proof -
    have "z \<notin> fst ` set (x # xs)" "b \<notin> fst ` set (x # xs)" "z \<notin> fst ` set ys" "b \<notin> fst ` set ys"
      using D(3) S(3) apart by (auto simp: sll_foot_def)
    moreover have "chain (nodes m) (first_of ys w) ys w"
      using S(6) B by auto
    ultimately have "chain (nodes ?m') (fst x) ((x # xs) @ (z, e) # ys) w"
      using D(2,6) neq F unfolding chain_append by auto
    then show ?thesis by simp
  qed
  moreover have "distinct (map fst (x # xs @ (z, e) # ys) @ [w])"
    using S(3) D(3) apart by (auto simp: sll_foot_def)
  moreover have "sll_agree m ?m' (- {z, b, src, dst})" by (simp add: sll_agree_def)
  ultimately show ?thesis using neq(1) by auto
qed

text \<open>
  An element inserted at the end of the joined list is linked in, but the tail that moves is
  that of \<open>src\<close>: a traversal of \<open>dst\<close> up to its end never meets it.
\<close>

lemma SLLAppend_then_insert_lost:
  assumes src: "sll_rep m src ((b, e) # ys) w" and dst: "sll_rep m dst (x # xs) z"
    and apart: "sll_foot src ((b, e) # ys) w \<inter> sll_foot dst (x # xs) z = {}"
    and fr: "fresh m node" and fuel: "length xs + length ys + 2 < fuel"
  shows "\<exists>m1 m2. SLLAppend m src dst = Inr (m1, dst) \<and> SLLEnd m1 dst = Inr w \<and>
    SLLInsert fuel (Some node) m1 w v = Inr (m2, w) \<and>
    SLLCount fuel m2 dst = Inr (length xs + length ys + 2) \<and> SLLCount fuel m2 src = Inr 1"
proof -
  note S = sll_repD [OF src] and D = sll_repD [OF dst]
  from SLLAppend_rep [OF src dst apart] obtain m1 where
    m1: "SLLAppend m src dst = Inr (m1, dst)" "sll_rep m1 src [] w"
    "lists m1 dst = Some \<lparr>l_head = fst x, l_tail = w\<rparr>"
    "chain (nodes m1) (fst x) (x # xs @ (z, e) # ys) w" "distinct (map fst (x # xs @ (z, e) # ys) @ [w])"
    "sll_agree m m1 (- {z, b, src, dst})" by blast
  have "nodes m b \<noteq> None" "nodes m z \<noteq> None" using S(6) D(4) by auto
  then have "node \<notin> {z, b, src, dst}" using S(5) D(5) fr by (auto simp: fresh_def)
  then have fr1: "fresh m1 node" using m1(6) fr by (auto simp: fresh_def sll_agree_def)
  from SLLInsert_end [OF m1(2) fr1, of fuel v] obtain m2 where
    m2: "SLLInsert fuel (Some node) m1 w v = Inr (m2, w)" "sll_rep m2 src [(w, v)] node"
    "sll_agree m1 m2 (- {w, node, src})" by auto
  have off: "\<forall>a \<in> fst ` set (x # xs @ (z, e) # ys). nodes m2 a = nodes m1 a"
  proof
    fix a
    assume a: "a \<in> fst ` set (x # xs @ (z, e) # ys)"
    then obtain y where "(a, y) \<in> set (x # xs @ (z, e) # ys)" unfolding image_iff by (metis prod.collapse)
    then have "nodes m1 a \<noteq> None" using chain_not_null [OF m1(4)] by simp
    then have "a \<noteq> node" using fr1 by (auto simp: fresh_def)
    moreover have "a \<noteq> w" using a m1(5) by auto
    moreover have "a \<noteq> src" using a S(3) apart by (auto simp: sll_foot_def)
    ultimately show "nodes m2 a = nodes m1 a" using m2(3) by (auto simp: sll_agree_def)
  qed
  have ne: "src \<noteq> dst" "dst \<noteq> w" using apart by (auto simp: sll_foot_def)
  have ne': "dst \<noteq> node" using D(5) fr by (auto simp: fresh_def)
  have "chain (nodes m2) (fst x) (x # xs @ (z, e) # ys) w" using m1(4) chain_agree [OF off] by blast
  moreover have "lists m2 dst = lists m1 dst" using m2(3) ne ne' by (simp add: sll_agree_def)
  ultimately have "SLLCount fuel m2 dst = Inr (length (x # xs @ (z, e) # ys))"
    using m1(3,5) D(1) S(2) fuel
    by (intro SLLCount_chain [where z = w and p = "fst x"]) (simp_all add: image_Un, metis)
  moreover have "SLLCount fuel m2 src = Inr 1" using SLLCount_rep [OF m2(2), of fuel] fuel by simp
  moreover have "SLLEnd m1 dst = Inr w" using m1(3) D(1) by (simp add: SLLEnd_def load_list_def)
  ultimately show ?thesis using m1(1) m2(1) by auto
qed

section \<open>Lists in a common store\<close>

interpretation sll_framed: framed "\<lambda>m (l, xs, z). sll_rep m l xs z" "\<lambda>(l, xs, z). sll_foot l xs z"
  sll_agree "\<lambda>m. dom (nodes m) \<union> dom (lists m)"
proof
  show "sll_agree m m' A \<Longrightarrow> B \<subseteq> A \<Longrightarrow> sll_agree m m' B" for m m' A B
    by (auto simp: sll_agree_def)
  show "(case r of (l, xs, z) \<Rightarrow> sll_foot l xs z) \<subseteq> dom (nodes m) \<union> dom (lists m)"
    if "case r of (l, xs, z) \<Rightarrow> sll_rep m l xs z" for m r
    using that sll_repD(4-6) chain_not_null by (cases r) (fastforce simp: sll_foot_def)
qed (auto simp: sll_rep_agree)

section \<open>Insertion and removal at any place\<close>

text \<open>The same facts for clients that only care about the data and the owned addresses.\<close>

lemma SLLInsert_at:
  assumes rep: "sll_rep m l (us @ vs) z" and fr: "fresh m node"
  shows "\<exists>m' ys z'. SLLInsert fuel (Some node) m (first_of vs z) x = Inr (m', first_of vs z) \<and>
    sll_rep m' l ys z' \<and> map snd ys = map snd us @ x # map snd vs \<and> z' \<noteq> first_of vs z \<and>
    sll_foot l ys z' \<subseteq> sll_foot l (us @ vs) z \<union> {node} \<and>
    sll_agree m m' (- (sll_foot l (us @ vs) z \<union> {node}))"
proof (cases vs)
  case Nil
  with SLLInsert_end [of m l us z node fuel x] rep fr obtain m' where
    m': "SLLInsert fuel (Some node) m z x = Inr (m', z)" "sll_rep m' l (us @ [(z, x)]) node"
    "sll_agree m m' (- {z, node, l})" by auto
  then show ?thesis using Nil sll_repD(3) [OF m'(2)]
    by (intro exI [of _ m'] exI [of _ "us @ [(z, x)]"] exI [of _ node]) (auto simp: sll_foot_def sll_agree_def)
next
  case (Cons v ws)
  obtain a d where v: "v = (a, d)" by force
  with Cons SLLInsert_middle [of m l us a d ws z node fuel x] rep fr obtain m' where
    m': "SLLInsert fuel (Some node) m a x = Inr (m', a)" "sll_rep m' l (us @ (a, x) # (node, d) # ws) z"
    "sll_agree m m' (- {a, node})" by auto
  then show ?thesis using Cons v sll_repD(3) [OF m'(2)]
    by (intro exI [of _ m'] exI [of _ "us @ (a, x) # (node, d) # ws"] exI [of _ z])
      (auto simp: sll_foot_def sll_agree_def)
qed

lemma SLLRemove_at:
  assumes rep: "sll_rep m l (us @ (a, d) # vs) z"
  shows "\<exists>m' ys z'. SLLRemove m a = Inr (m', a) \<and> sll_rep m' l ys z' \<and> map snd ys = map snd us @ map snd vs \<and>
    sll_foot l ys z' \<subseteq> sll_foot l (us @ (a, d) # vs) z \<and>
    sll_agree m m' (- sll_foot l (us @ (a, d) # vs) z)"
proof (cases vs)
  case Nil
  with SLLRemove_last [of m l us a d z] rep obtain m' where
    "SLLRemove m a = Inr (m', a)" "sll_rep m' l us a" "sll_agree m m' (- {a, z, l})" by auto
  then show ?thesis using Nil
    by (intro exI [of _ m'] exI [of _ us] exI [of _ a]) (auto simp: sll_foot_def sll_agree_def)
next
  case (Cons v ws)
  obtain b e where v: "v = (b, e)" by force
  with Cons SLLRemove_middle [of m l us a d b e ws z] rep obtain m' where
    "SLLRemove m a = Inr (m', a)" "sll_rep m' l (us @ (a, e) # ws) z" "sll_agree m m' (- {a, b})" by auto
  then show ?thesis using Cons v
    by (intro exI [of _ m'] exI [of _ "us @ (a, e) # ws"] exI [of _ z]) (auto simp: sll_foot_def sll_agree_def)
qed

end
