(* ===== verification/FSQ.thy ===== *)
theory FSQ
  imports SLL
begin

text \<open>
  The bounded queue for several threads of \<open>system_programming/src/producer_consumer/fsq.c\<close>: a list
  with a lock for writers, a lock for readers and two semaphores. A thread's call is a sequence of
  steps between which other threads may run; \<open>fsq_reach_inv\<close> is the invariant of all interleavings in
  which memory is found and no address is reused under a waiting producer; \<open>fsq_lost_failure\<close> and
  \<open>fsq_lost_success\<close> are what happens otherwise.
\<close>

section \<open>Definitions\<close>

record fsq_t =
  q_list :: ptr
  q_capacity :: nat
  enqueue_sem :: nat
  dequeue_sem :: nat
  write_lock :: "nat option"
  read_lock :: "nat option"

text \<open>The three \<open>malloc\<close> answers: the struct, then those of \<open>SLLCreate\<close>.\<close>

definition FSQCreate :: "bool \<Rightarrow> ptr option \<Rightarrow> ptr option \<Rightarrow> sll_mem \<Rightarrow> nat \<Rightarrow> sll_mem \<times> fsq_t option" where
  "FSQCreate ok al ad m capacity =
     (if \<not> ok then (m, None)
      else let (m, list) = SLLCreate al ad m
           in if list = NULL then (m, None)
              else (m, Some \<lparr>q_list = list, q_capacity = capacity, enqueue_sem = capacity, dequeue_sem = 0,
                            write_lock = None, read_lock = None\<rparr>))"

definition FSQDestroy :: "nat \<Rightarrow> sll_mem \<Rightarrow> fsq_t option \<Rightarrow> sll_mem result" where
  "FSQDestroy fuel m fsq =
     bindE (assertE (fsq \<noteq> None)) (\<lambda>_. SLLDestroy fuel m (q_list (the fsq)))"

text \<open>
  Where a thread is in its call, with the values it holds: about to wait for the semaphore, to take
  the lock, to change the list, to release the lock, to look whether the insertion failed, to post.
\<close>

datatype fsq_pc =
    Idle
  | Enq_wait ptr | Enq_lock ptr | Enq_insert ptr | Enq_unlock ptr | Enq_check ptr | Enq_repost | Enq_post
  | Deq_wait | Deq_lock | Deq_test | Deq_lock_write | Deq_remove bool | Deq_unlock_write ptr | Deq_unlock ptr | Deq_post ptr
  | Ret_status int | Ret_data ptr

text \<open>The system: memory, queue, threads. \<open>fs_in\<close> and \<open>fs_out\<close> only record what went in and came out.\<close>

record fsq_sys =
  fs_mem :: sll_mem
  fs_q :: fsq_t
  fs_pcs :: "fsq_pc list"
  fs_in :: "ptr list"
  fs_out :: "ptr list"

definition set_fpc :: "nat \<Rightarrow> fsq_pc \<Rightarrow> fsq_sys \<Rightarrow> fsq_sys" where
  "set_fpc t p s = s\<lparr>fs_pcs := (fs_pcs s)[t := p]\<rparr>"

definition upd_q :: "(fsq_t \<Rightarrow> fsq_t) \<Rightarrow> fsq_sys \<Rightarrow> fsq_sys" where
  "upd_q f s = s\<lparr>fs_q := f (fs_q s)\<rparr>"

text \<open>One step of \<open>FSQEnqueue\<close>, \<open>None\<close> when the thread has to wait; \<open>a\<close> answers the \<open>malloc\<close> of \<open>SLLInsert\<close>.\<close>

definition FSQEnqueue_step :: "nat \<Rightarrow> ptr option \<Rightarrow> nat \<Rightarrow> fsq_sys \<Rightarrow> fsq_sys result option" where
  "FSQEnqueue_step fuel a t s =
     (let q = fs_q s in
      case fs_pcs s ! t of
        Enq_wait d \<Rightarrow>
          (if enqueue_sem q = 0 then None
           else Some (Inr (set_fpc t (Enq_lock d) (upd_q (\<lambda>q. q\<lparr>enqueue_sem := enqueue_sem q - 1\<rparr>) s))))
      | Enq_lock d \<Rightarrow>
          (if write_lock q \<noteq> None then None
           else Some (Inr (set_fpc t (Enq_insert d) (upd_q (\<lambda>q. q\<lparr>write_lock := Some t\<rparr>) s))))
      | Enq_insert d \<Rightarrow>
          Some (bindE (SLLEnd (fs_mem s) (q_list q)) (\<lambda>z.
                bindE (SLLInsert fuel a (fs_mem s) z d) (\<lambda>(m, new_node_iter).
                Inr (set_fpc t (Enq_unlock new_node_iter)
                  (s\<lparr>fs_mem := m, fs_in := (if a = None then fs_in s else fs_in s @ [d])\<rparr>)))))
      | Enq_unlock new_node_iter \<Rightarrow>
          Some (Inr (set_fpc t (Enq_check new_node_iter) (upd_q (\<lambda>q. q\<lparr>write_lock := None\<rparr>) s)))
      | Enq_check new_node_iter \<Rightarrow>
          Some (bindE (SLLEnd (fs_mem s) (q_list q)) (\<lambda>z.
                bindE (SLLIsEqual z new_node_iter) (\<lambda>same.
                Inr (set_fpc t (if same then Enq_repost else Enq_post) s))))
      | Enq_repost \<Rightarrow>
          Some (Inr (set_fpc t (Ret_status (-1)) (upd_q (\<lambda>q. q\<lparr>enqueue_sem := enqueue_sem q + 1\<rparr>) s)))
      | Enq_post \<Rightarrow>
          Some (Inr (set_fpc t (Ret_status 0) (upd_q (\<lambda>q. q\<lparr>dequeue_sem := dequeue_sem q + 1\<rparr>) s)))
      | _ \<Rightarrow> None)"

definition FSQDequeue_step :: "nat \<Rightarrow> fsq_sys \<Rightarrow> fsq_sys result option" where
  "FSQDequeue_step t s =
     (let q = fs_q s in
      case fs_pcs s ! t of
        Deq_wait \<Rightarrow>
          (if dequeue_sem q = 0 then None
           else Some (Inr (set_fpc t Deq_lock (upd_q (\<lambda>q. q\<lparr>dequeue_sem := dequeue_sem q - 1\<rparr>) s))))
      | Deq_lock \<Rightarrow>
          (if read_lock q \<noteq> None then None
           else Some (Inr (set_fpc t Deq_test (upd_q (\<lambda>q. q\<lparr>read_lock := Some t\<rparr>) s))))
      | Deq_test \<Rightarrow>
          Some (bindE (SLLBegin (fs_mem s) (q_list q)) (\<lambda>b.
                bindE (SLLNext (fs_mem s) b) (\<lambda>n.
                bindE (SLLEnd (fs_mem s) (q_list q)) (\<lambda>z.
                bindE (SLLIsEqual n z) (\<lambda>singleton.
                Inr (set_fpc t (if singleton then Deq_lock_write else Deq_remove False) s))))))
      | Deq_lock_write \<Rightarrow>
          (if write_lock q \<noteq> None then None
           else Some (Inr (set_fpc t (Deq_remove True) (upd_q (\<lambda>q. q\<lparr>write_lock := Some t\<rparr>) s))))
      | Deq_remove singleton \<Rightarrow>
          Some (bindE (SLLBegin (fs_mem s) (q_list q)) (\<lambda>head_iter.
                bindE (SLLGetData (fs_mem s) head_iter) (\<lambda>data.
                bindE (SLLRemove (fs_mem s) head_iter) (\<lambda>(m, _).
                Inr (set_fpc t (if singleton then Deq_unlock_write data else Deq_unlock data)
                  (s\<lparr>fs_mem := m, fs_out := fs_out s @ [data]\<rparr>))))))
      | Deq_unlock_write data \<Rightarrow>
          Some (Inr (set_fpc t (Deq_unlock data) (upd_q (\<lambda>q. q\<lparr>write_lock := None\<rparr>) s)))
      | Deq_unlock data \<Rightarrow>
          Some (Inr (set_fpc t (Deq_post data) (upd_q (\<lambda>q. q\<lparr>read_lock := None\<rparr>) s)))
      | Deq_post data \<Rightarrow>
          Some (Inr (set_fpc t (Ret_data data) (upd_q (\<lambda>q. q\<lparr>enqueue_sem := enqueue_sem q + 1\<rparr>) s)))
      | _ \<Rightarrow> None)"

definition FSQ_step :: "nat \<Rightarrow> ptr option \<Rightarrow> nat \<Rightarrow> fsq_sys \<Rightarrow> fsq_sys result option" where
  "FSQ_step fuel a t s =
     (case FSQEnqueue_step fuel a t s of None \<Rightarrow> FSQDequeue_step t s | Some r \<Rightarrow> Some r)"

text \<open>The three queries, each under the readers' lock.\<close>

definition FSQIsEmpty :: "sll_mem \<Rightarrow> fsq_t option \<Rightarrow> bool result" where
  "FSQIsEmpty m fsq =
     bindE (assertE (fsq \<noteq> None)) (\<lambda>_.
     bindE (SLLBegin m (q_list (the fsq))) (\<lambda>b. bindE (SLLEnd m (q_list (the fsq))) (\<lambda>z. SLLIsEqual b z)))"

definition FSQSize :: "nat \<Rightarrow> sll_mem \<Rightarrow> fsq_t option \<Rightarrow> nat result" where
  "FSQSize fuel m fsq = bindE (assertE (fsq \<noteq> None)) (\<lambda>_. SLLCount fuel m (q_list (the fsq)))"

definition FSQPeek :: "sll_mem \<Rightarrow> fsq_t option \<Rightarrow> ptr result" where
  "FSQPeek m fsq =
     bindE (assertE (fsq \<noteq> None)) (\<lambda>_.
     bindE (SLLBegin m (q_list (the fsq))) (\<lambda>b.
     bindE (SLLNext m b) (\<lambda>first_real_node.
     bindE (SLLEnd m (q_list (the fsq))) (\<lambda>z.
     bindE (SLLIsEqual first_real_node z) (\<lambda>same. if same then Inr NULL else SLLGetData m first_real_node)))))"

section \<open>The interleavings\<close>

fun between_calls :: "fsq_pc \<Rightarrow> bool" where
  "between_calls Idle = True"
| "between_calls (Ret_status r) = True"
| "between_calls (Ret_data d) = True"
| "between_calls p = False"

text \<open>The iterator a producer has not looked at yet.\<close>

fun pending :: "fsq_pc \<Rightarrow> ptr option" where
  "pending (Enq_unlock i) = Some i"
| "pending (Enq_check i) = Some i"
| "pending p = None"

text \<open>A memory allocator that always finds memory and does not hand out a pending address.\<close>

definition good_alloc :: "fsq_sys \<Rightarrow> ptr \<Rightarrow> bool" where
  "good_alloc s node \<longleftrightarrow> fresh (fs_mem s) node \<and> (\<forall>p \<in> set (fs_pcs s). pending p \<noteq> Some node)"

inductive fsq_step :: "fsq_sys \<Rightarrow> fsq_sys \<Rightarrow> bool" where
  enqueue: "t < length (fs_pcs s) \<Longrightarrow> between_calls (fs_pcs s ! t) \<Longrightarrow> fsq_step s (set_fpc t (Enq_wait d) s)"
| dequeue: "t < length (fs_pcs s) \<Longrightarrow> between_calls (fs_pcs s ! t) \<Longrightarrow> fsq_step s (set_fpc t Deq_wait s)"
| run: "t < length (fs_pcs s) \<Longrightarrow> good_alloc s node \<Longrightarrow> FSQ_step fuel (Some node) t s = Some (Inr s') \<Longrightarrow> fsq_step s s'"

inductive fsq_reach :: "fsq_sys \<Rightarrow> fsq_sys \<Rightarrow> bool" for s0 where
  start: "fsq_reach s0 s0"
| step: "fsq_reach s0 s \<Longrightarrow> fsq_step s s' \<Longrightarrow> fsq_reach s0 s'"

text \<open>The tokens of the semaphores that the threads hold, and the items in between.\<close>

fun holds_room :: "fsq_pc \<Rightarrow> nat" where
  "holds_room (Enq_lock d) = 1"
| "holds_room (Enq_insert d) = 1"
| "holds_room p = 0"

fun holds_new :: "fsq_pc \<Rightarrow> nat" where
  "holds_new (Enq_unlock i) = 1"
| "holds_new (Enq_check i) = 1"
| "holds_new Enq_post = 1"
| "holds_new p = 0"

fun holds_item :: "fsq_pc \<Rightarrow> nat" where
  "holds_item Deq_lock = 1"
| "holds_item Deq_test = 1"
| "holds_item Deq_lock_write = 1"
| "holds_item (Deq_remove b) = 1"
| "holds_item p = 0"

fun holds_gap :: "fsq_pc \<Rightarrow> nat" where
  "holds_gap (Deq_unlock_write d) = 1"
| "holds_gap (Deq_unlock d) = 1"
| "holds_gap (Deq_post d) = 1"
| "holds_gap p = 0"

fun holds_write :: "fsq_pc \<Rightarrow> bool" where
  "holds_write (Enq_insert d) = True"
| "holds_write (Enq_unlock i) = True"
| "holds_write (Deq_remove b) = b"
| "holds_write (Deq_unlock_write d) = True"
| "holds_write p = False"

fun holds_read :: "fsq_pc \<Rightarrow> bool" where
  "holds_read Deq_test = True"
| "holds_read Deq_lock_write = True"
| "holds_read (Deq_remove b) = True"
| "holds_read (Deq_unlock_write d) = True"
| "holds_read (Deq_unlock d) = True"
| "holds_read p = False"

definition tokens :: "(fsq_pc \<Rightarrow> nat) \<Rightarrow> fsq_sys \<Rightarrow> nat" where
  "tokens f s = sum_list (map f (fs_pcs s))"

definition locks_ok :: "fsq_sys \<Rightarrow> bool" where
  "locks_ok s \<longleftrightarrow> (\<forall>u < length (fs_pcs s). (holds_write (fs_pcs s ! u) \<longleftrightarrow> write_lock (fs_q s) = Some u) \<and>
       (holds_read (fs_pcs s ! u) \<longleftrightarrow> read_lock (fs_q s) = Some u)) \<and>
     (\<forall>u. write_lock (fs_q s) = Some u \<longrightarrow> u < length (fs_pcs s)) \<and>
     (\<forall>u. read_lock (fs_q s) = Some u \<longrightarrow> u < length (fs_pcs s))"

definition counts_ok :: "fsq_sys \<Rightarrow> nat \<Rightarrow> bool" where
  "counts_ok s n \<longleftrightarrow> n = dequeue_sem (fs_q s) + tokens holds_new s + tokens holds_item s \<and>
     enqueue_sem (fs_q s) + tokens holds_room s + n + tokens holds_gap s = q_capacity (fs_q s)"

definition content_ok :: "fsq_sys \<Rightarrow> (ptr \<times> ptr) list \<Rightarrow> ptr \<Rightarrow> bool" where
  "content_ok s xs z \<longleftrightarrow> sll_rep (fs_mem s) (q_list (fs_q s)) xs z \<and> fs_in s = fs_out s @ map snd xs \<and>
     (\<forall>p \<in> set (fs_pcs s). pending p \<noteq> Some z \<and> pending p \<noteq> Some NULL) \<and>
     (\<forall>p \<in> set (fs_pcs s). p = Deq_remove False \<longrightarrow> 2 \<le> length xs) \<and> Enq_repost \<notin> set (fs_pcs s)"

definition fsq_inv :: "fsq_sys \<Rightarrow> bool" where
  "fsq_inv s \<longleftrightarrow> locks_ok s \<and> (\<exists>xs z. content_ok s xs z \<and> counts_ok s (length xs))"

lemma tokens_set:
  "t < length (fs_pcs s) \<Longrightarrow> tokens f (set_fpc t p s) + f (fs_pcs s ! t) = tokens f s + f p"
  using sum_list_map_update [of t "fs_pcs s" f p] by (simp add: tokens_def set_fpc_def)

lemma tokens_upd [simp]: "tokens f (upd_q g s) = tokens f s" "tokens f (s\<lparr>fs_mem := m, fs_in := i\<rparr>) = tokens f s"
    "tokens f (s\<lparr>fs_mem := m, fs_out := i\<rparr>) = tokens f s"
  by (simp_all add: tokens_def upd_q_def)

lemma tokens_pos: "p \<in> set (fs_pcs s) \<Longrightarrow> f p \<le> tokens f s"
  unfolding tokens_def by (intro member_le_sum_list) auto

lemma set_fpc_simps [simp]:
  "fs_mem (set_fpc t p s) = fs_mem s" "fs_q (set_fpc t p s) = fs_q s" "fs_in (set_fpc t p s) = fs_in s"
  "fs_out (set_fpc t p s) = fs_out s" "fs_pcs (set_fpc t p s) = (fs_pcs s)[t := p]"
  "fs_mem (upd_q g s) = fs_mem s" "fs_q (upd_q g s) = g (fs_q s)" "fs_in (upd_q g s) = fs_in s"
  "fs_out (upd_q g s) = fs_out s" "fs_pcs (upd_q g s) = fs_pcs s"
  by (simp_all add: set_fpc_def upd_q_def)

lemma in_set_update: "p \<in> set (xs[t := q]) \<Longrightarrow> p = q \<or> p \<in> set xs"
  using set_update_subset_insert [of xs t q] by blast

text \<open>A thread moves on and the list stays.\<close>

lemma content_move:
  assumes "content_ok s xs z" "pending p \<noteq> Some z" "pending p \<noteq> Some NULL" "p = Deq_remove False \<longrightarrow> 2 \<le> length xs" "p \<noteq> Enq_repost"
    "q_list (g (fs_q s)) = q_list (fs_q s)"
  shows "content_ok (set_fpc t p (upd_q g s)) xs z"
  using assms by (auto simp: content_ok_def dest!: in_set_update)

lemma counts_move:
  assumes "counts_ok s n" "t < length (fs_pcs s)" "q_capacity (g (fs_q s)) = q_capacity (fs_q s)"
    "dequeue_sem (fs_q s) + holds_new (fs_pcs s ! t) + holds_item (fs_pcs s ! t) =
       dequeue_sem (g (fs_q s)) + holds_new p + holds_item p"
    "enqueue_sem (fs_q s) + holds_room (fs_pcs s ! t) + holds_gap (fs_pcs s ! t) =
       enqueue_sem (g (fs_q s)) + holds_room p + holds_gap p"
  shows "counts_ok (set_fpc t p (upd_q g s)) n"
  using assms tokens_set [of t s holds_new p] tokens_set [of t s holds_item p] tokens_set [of t s holds_room p]
    tokens_set [of t s holds_gap p]
  by (simp add: counts_ok_def tokens_def)

lemma locks_move:
  assumes "locks_ok s" "t < length (fs_pcs s)"
    "holds_write p \<longleftrightarrow> write_lock (g (fs_q s)) = Some t" "holds_read p \<longleftrightarrow> read_lock (g (fs_q s)) = Some t"
    "\<forall>u. u \<noteq> t \<longrightarrow> (write_lock (g (fs_q s)) = Some u \<longleftrightarrow> write_lock (fs_q s) = Some u) \<and>
       (read_lock (g (fs_q s)) = Some u \<longleftrightarrow> read_lock (fs_q s) = Some u)"
  shows "locks_ok (set_fpc t p (upd_q g s))"
  using assms unfolding locks_ok_def by (auto simp: nth_list_update)

lemma fsq_inv_move:
  assumes "locks_ok s" "content_ok s xs z" "counts_ok s (length xs)" "t < length (fs_pcs s)"
    and "q_list (g (fs_q s)) = q_list (fs_q s)" "q_capacity (g (fs_q s)) = q_capacity (fs_q s)"
    and "pending p \<noteq> Some z" "pending p \<noteq> Some NULL" "p = Deq_remove False \<longrightarrow> 2 \<le> length xs" "p \<noteq> Enq_repost"
    and "dequeue_sem (fs_q s) + holds_new (fs_pcs s ! t) + holds_item (fs_pcs s ! t) =
       dequeue_sem (g (fs_q s)) + holds_new p + holds_item p"
    and "enqueue_sem (fs_q s) + holds_room (fs_pcs s ! t) + holds_gap (fs_pcs s ! t) =
       enqueue_sem (g (fs_q s)) + holds_room p + holds_gap p"
    and "holds_write p \<longleftrightarrow> write_lock (g (fs_q s)) = Some t" "holds_read p \<longleftrightarrow> read_lock (g (fs_q s)) = Some t"
    and "\<forall>u. u \<noteq> t \<longrightarrow> (write_lock (g (fs_q s)) = Some u \<longleftrightarrow> write_lock (fs_q s) = Some u) \<and>
       (read_lock (g (fs_q s)) = Some u \<longleftrightarrow> read_lock (fs_q s) = Some u)"
  shows "fsq_inv (set_fpc t p (upd_q g s))"
  unfolding fsq_inv_def using assms content_move [of s xs z p g t] counts_move [of s "length xs" t g p] locks_move [of s t p g]
  by blast

lemma upd_q_id [simp]: "upd_q (\<lambda>q. q) s = s"
  by (simp add: upd_q_def)

definition goes_on :: "fsq_sys result option \<Rightarrow> bool" where
  "goes_on r \<longleftrightarrow> (case r of None \<Rightarrow> True | Some (Inl e) \<Rightarrow> False | Some (Inr s') \<Rightarrow> fsq_inv s')"

lemma FSQEnqueue_step_ok:
  assumes inv: "fsq_inv s" and t: "t < length (fs_pcs s)" and node: "good_alloc s node"
  shows "goes_on (FSQEnqueue_step fuel (Some node) t s)"
proof -
  obtain xs z where c: "content_ok s xs z" "counts_ok s (length xs)" and l: "locks_ok s" using inv by (auto simp: fsq_inv_def)
  have mem: "fs_pcs s ! t \<in> set (fs_pcs s)" using t by simp
  have rep: "sll_rep (fs_mem s) (q_list (fs_q s)) xs z" using c(1) by (simp add: content_ok_def)
  have z: "z \<noteq> NULL" using sll_repD [OF rep] by auto
  have wl: "holds_write (fs_pcs s ! t) \<longleftrightarrow> write_lock (fs_q s) = Some t" "holds_read (fs_pcs s ! t) \<longleftrightarrow> read_lock (fs_q s) = Some t"
    using l t by (auto simp: locks_ok_def)
  note move = fsq_inv_move [OF l c t]
  show ?thesis
  proof (cases "fs_pcs s ! t")
    case (Enq_wait d)
    then show ?thesis using wl by (auto simp: FSQEnqueue_step_def Let_def goes_on_def intro!: move)
  next
    case (Enq_lock d)
    then show ?thesis using wl by (auto simp: FSQEnqueue_step_def Let_def goes_on_def intro!: move)
  next
    case (Enq_unlock i)
    have "i \<noteq> z" "i \<noteq> NULL" using c(1) mem Enq_unlock by (auto simp: content_ok_def dest!: bspec)
    then show ?thesis using wl Enq_unlock by (auto simp: FSQEnqueue_step_def Let_def goes_on_def intro!: move)
  next
    case (Enq_check i)
    have "i \<noteq> z" "i \<noteq> NULL" using c(1) mem Enq_check by (auto simp: content_ok_def dest!: bspec)
    moreover have "fsq_inv (set_fpc t Enq_post (upd_q (\<lambda>q. q) s))" by (rule move) (use wl Enq_check in auto)
    ultimately show ?thesis using Enq_check SLLEnd_rep [OF rep] z
      by (auto simp: FSQEnqueue_step_def Let_def goes_on_def SLLIsEqual_def)
  next
    case Enq_repost
    then show ?thesis using c(1) mem by (auto simp: content_ok_def)
  next
    case Enq_post
    then show ?thesis using wl by (auto simp: FSQEnqueue_step_def Let_def goes_on_def intro!: move)
  next
    case (Enq_insert d)
    have fr: "fresh (fs_mem s) node" "\<forall>p \<in> set (fs_pcs s). pending p \<noteq> Some node" using node by (auto simp: good_alloc_def)
    obtain m' where m': "SLLInsert fuel (Some node) (fs_mem s) z d = Inr (m', z)"
      "sll_rep m' (q_list (fs_q s)) (xs @ [(z, d)]) node" using SLLInsert_end [OF rep fr(1)] by blast
    let ?s = "set_fpc t (Enq_unlock z) (s\<lparr>fs_mem := m', fs_in := fs_in s @ [d]\<rparr>)"
    have "node \<noteq> z" using m'(2) sll_repD(3) [OF m'(2)] by auto
    then have "content_ok ?s (xs @ [(z, d)]) node"
      using c(1) m'(2) fr(2) z by (auto simp: content_ok_def dest!: in_set_update)
    moreover have "counts_ok ?s (length (xs @ [(z, d)]))"
      using c(2) t Enq_insert tokens_set [of t s holds_new "Enq_unlock z"] tokens_set [of t s holds_item "Enq_unlock z"]
        tokens_set [of t s holds_room "Enq_unlock z"] tokens_set [of t s holds_gap "Enq_unlock z"]
      by (simp add: counts_ok_def tokens_def)
    moreover have "locks_ok ?s" using l t wl Enq_insert by (auto simp: locks_ok_def nth_list_update)
    ultimately have "fsq_inv ?s" unfolding fsq_inv_def by blast
    then show ?thesis using Enq_insert SLLEnd_rep [OF rep] m'(1) by (simp add: FSQEnqueue_step_def goes_on_def)
  qed (auto simp: FSQEnqueue_step_def goes_on_def)
qed

lemma FSQDequeue_step_ok:
  assumes inv: "fsq_inv s" and t: "t < length (fs_pcs s)"
  shows "goes_on (FSQDequeue_step t s)"
proof -
  obtain xs z where c: "content_ok s xs z" "counts_ok s (length xs)" and l: "locks_ok s" using inv by (auto simp: fsq_inv_def)
  have mem: "fs_pcs s ! t \<in> set (fs_pcs s)" using t by simp
  have rep: "sll_rep (fs_mem s) (q_list (fs_q s)) xs z" using c(1) by (simp add: content_ok_def)
  have z: "z \<noteq> NULL" using sll_repD [OF rep] by auto
  have wl: "holds_write (fs_pcs s ! t) \<longleftrightarrow> write_lock (fs_q s) = Some t" "holds_read (fs_pcs s ! t) \<longleftrightarrow> read_lock (fs_q s) = Some t"
    using l t by (auto simp: locks_ok_def)
  have item: "holds_item (fs_pcs s ! t) + tokens holds_new s \<le> length xs"
    using c(2) tokens_pos [OF mem, of holds_item] by (simp add: counts_ok_def)
  note move = fsq_inv_move [OF l c t]
  show ?thesis
  proof (cases "fs_pcs s ! t")
    case Deq_wait
    then show ?thesis using wl by (auto simp: FSQDequeue_step_def Let_def goes_on_def intro!: move)
  next
    case Deq_lock
    then show ?thesis using wl by (auto simp: FSQDequeue_step_def Let_def goes_on_def intro!: move)
  next
    case Deq_lock_write
    then show ?thesis using wl by (auto simp: FSQDequeue_step_def Let_def goes_on_def intro!: move)
  next
    case (Deq_unlock_write d)
    then show ?thesis using wl by (auto simp: FSQDequeue_step_def Let_def goes_on_def intro!: move)
  next
    case (Deq_unlock d)
    then show ?thesis using wl by (auto simp: FSQDequeue_step_def Let_def goes_on_def intro!: move)
  next
    case (Deq_post d)
    then show ?thesis using wl by (auto simp: FSQDequeue_step_def Let_def goes_on_def intro!: move)
  next
    case Deq_test
    then obtain a d ys where xs: "xs = (a, d) # ys" using item by (cases xs) auto
    have rep': "sll_rep (fs_mem s) (q_list (fs_q s)) ([] @ (a, d) # ys) z" using rep xs by simp
    have nx: "SLLNext (fs_mem s) a = Inr (first_of ys z)" by (rule SLLNext_rep [OF rep'])
    have first: "first_of ys z = z \<longleftrightarrow> ys = []" "first_of ys z \<noteq> NULL"
      using sll_repD [OF rep'] by (cases ys; auto)+
    let ?p = "if ys = [] then Deq_lock_write else Deq_remove False"
    have "fsq_inv (set_fpc t ?p (upd_q (\<lambda>q. q) s))"
      by (rule move) (use wl Deq_test xs in \<open>auto simp: Suc_le_eq\<close>)
    then show ?thesis using Deq_test SLLBegin_rep [OF rep] SLLEnd_rep [OF rep] nx first z xs
      by (auto simp: FSQDequeue_step_def Let_def goes_on_def SLLIsEqual_def)
  next
    case (Deq_remove b)
    then obtain a d ys where xs: "xs = (a, d) # ys" using item by (cases xs) auto
    let ?p = "if b then Deq_unlock_write d else Deq_unlock d"
    have data: "SLLGetData (fs_mem s) a = Inr d" using SLLGetData_rep [of "fs_mem s" "q_list (fs_q s)" "[]" a d ys z] rep xs by simp
    have alone: "p \<noteq> Deq_remove False" if "p \<in> set ((fs_pcs s)[t := ?p])" for p
    proof
      assume p: "p = Deq_remove False"
      obtain u where u: "u < length (fs_pcs s)" "(fs_pcs s)[t := ?p] ! u = p" using \<open>p \<in> _\<close> by (auto simp: in_set_conv_nth)
      then have "u \<noteq> t" using p t by (auto split: if_splits)
      then have "read_lock (fs_q s) = Some u" using u p l by (auto simp: locks_ok_def)
      then show False using wl(2) Deq_remove \<open>u \<noteq> t\<close> by simp
    qed
    obtain m' ys' z' where m': "SLLRemove (fs_mem s) a = Inr (m', a)" "sll_rep m' (q_list (fs_q s)) ys' z'"
      "map snd ys' = map snd ys" "\<forall>p \<in> set (fs_pcs s). pending p \<noteq> Some z'"
    proof (cases ys)
      case Nil
      obtain m' where "SLLRemove (fs_mem s) a = Inr (m', a)" "sll_rep m' (q_list (fs_q s)) [] a"
        using SLLRemove_last [of "fs_mem s" "q_list (fs_q s)" "[]" a d z] rep xs Nil by auto
      moreover have "pending p = None" if "p \<in> set (fs_pcs s)" for p
      proof -
        have "tokens holds_new s = 0" using item Deq_remove xs Nil by simp
        then have "holds_new p = 0" using tokens_pos [OF that, of holds_new] by simp
        then show ?thesis by (cases p) auto
      qed
      ultimately show thesis using that [of m' "[]" a] Nil by simp
    next
      case (Cons y vs)
      obtain b e where y: "y = (b, e)" by force
      obtain m' where "SLLRemove (fs_mem s) a = Inr (m', a)" "sll_rep m' (q_list (fs_q s)) ((a, e) # vs) z"
        using SLLRemove_middle [of "fs_mem s" "q_list (fs_q s)" "[]" a d b e vs z] rep xs Cons y by auto
      then show thesis using that [of m' "(a, e) # vs" z] c(1) Cons y by (auto simp: content_ok_def)
    qed
    let ?s = "set_fpc t ?p (s\<lparr>fs_mem := m', fs_out := fs_out s @ [d]\<rparr>)"
    have len: "length xs = Suc (length ys')" using m'(3) xs by (metis length_Cons length_map)
    have "content_ok ?s ys' z'"
      using c(1) m'(2-4) alone xs by (auto simp: content_ok_def dest!: in_set_update)
    moreover have "counts_ok ?s (length ys')"
      using c(2) t Deq_remove len tokens_set [of t s holds_new ?p] tokens_set [of t s holds_item ?p]
        tokens_set [of t s holds_room ?p] tokens_set [of t s holds_gap ?p]
      by (auto simp: counts_ok_def tokens_def)
    moreover have "locks_ok ?s" using l t wl Deq_remove by (auto simp: locks_ok_def nth_list_update)
    ultimately have "fsq_inv ?s" unfolding fsq_inv_def by blast
    then show ?thesis using Deq_remove SLLBegin_rep [OF rep] data m'(1) xs by (simp add: FSQDequeue_step_def goes_on_def)
  qed (auto simp: FSQDequeue_step_def goes_on_def)
qed

lemma FSQ_step_ok:
  "fsq_inv s \<Longrightarrow> t < length (fs_pcs s) \<Longrightarrow> good_alloc s node \<Longrightarrow> goes_on (FSQ_step fuel (Some node) t s)"
  using FSQEnqueue_step_ok [of s t node fuel] FSQDequeue_step_ok [of s t]
  by (auto simp: FSQ_step_def split: option.split)

lemma fsq_inv_call:
  assumes inv: "fsq_inv s" and t: "t < length (fs_pcs s)" "between_calls (fs_pcs s ! t)" and p: "p = Enq_wait d \<or> p = Deq_wait"
  shows "fsq_inv (set_fpc t p s)"
proof -
  obtain xs z where c: "content_ok s xs z" "counts_ok s (length xs)" and l: "locks_ok s" using inv by (auto simp: fsq_inv_def)
  have "holds_write (fs_pcs s ! t) \<longleftrightarrow> write_lock (fs_q s) = Some t" "holds_read (fs_pcs s ! t) \<longleftrightarrow> read_lock (fs_q s) = Some t"
    using l t by (auto simp: locks_ok_def)
  moreover have "fsq_inv (set_fpc t p (upd_q (\<lambda>q. q) s))"
    by (rule fsq_inv_move [OF l c t(1)]) (use t(2) p calculation in \<open>cases "fs_pcs s ! t"; auto\<close>)+
  ultimately show ?thesis by simp
qed

definition fsq_start :: "sll_mem \<Rightarrow> fsq_t \<Rightarrow> nat \<Rightarrow> fsq_sys" where
  "fsq_start m q n = \<lparr>fs_mem = m, fs_q = q, fs_pcs = replicate n Idle, fs_in = [], fs_out = []\<rparr>"

lemma tokens_start: "f Idle = 0 \<Longrightarrow> tokens f (fsq_start m q n) = 0"
  by (induction n) (simp_all add: tokens_def fsq_start_def)

lemma FSQCreate_ok:
  assumes "fresh m l" "fresh m z" "l \<noteq> z"
  shows "\<exists>m' q. FSQCreate True (Some l) (Some z) m capacity = (m', Some q) \<and> q_capacity q = capacity \<and> fsq_inv (fsq_start m' q n)"
proof -
  obtain m' where m': "SLLCreate (Some l) (Some z) m = (m', l)" "sll_rep m' l [] z" using SLLCreate_rep [OF assms] by blast
  let ?q = "\<lparr>q_list = l, q_capacity = capacity, enqueue_sem = capacity, dequeue_sem = 0, write_lock = None, read_lock = None\<rparr>"
  have "locks_ok (fsq_start m' ?q n)" by (simp add: locks_ok_def fsq_start_def)
  moreover have "content_ok (fsq_start m' ?q n) [] z" using m'(2) by (auto simp: content_ok_def fsq_start_def)
  moreover have "counts_ok (fsq_start m' ?q n) 0" by (simp add: counts_ok_def tokens_start) (simp add: fsq_start_def)
  ultimately have "fsq_inv (fsq_start m' ?q n)" unfolding fsq_inv_def by (metis list.size(3))
  then show ?thesis using m'(1) assms(1) by (auto simp: FSQCreate_def fresh_def)
qed

lemma FSQCreate_fails:
  "\<not> (ok \<and> al \<noteq> None \<and> ad \<noteq> None) \<Longrightarrow> \<forall>l. al = Some l \<longrightarrow> lists m l = None \<Longrightarrow> FSQCreate ok al ad m capacity = (m, None)"
  using SLLCreate_fails [of al ad m] by (auto simp: FSQCreate_def)

lemma fsq_step_inv: "fsq_step s s' \<Longrightarrow> fsq_inv s \<Longrightarrow> fsq_inv s'"
proof (induction rule: fsq_step.induct)
  case (run t s node fuel s')
  then show ?case using FSQ_step_ok [of s t node fuel] by (simp add: goes_on_def)
qed (auto intro: fsq_inv_call)

lemma fsq_reach_inv: "fsq_reach s0 s \<Longrightarrow> fsq_inv s0 \<Longrightarrow> fsq_inv s"
  by (induction rule: fsq_reach.induct) (auto intro: fsq_step_inv)

lemma FSQ_step_capacity: "FSQ_step fuel a t s = Some (Inr s') \<Longrightarrow> q_capacity (fs_q s') = q_capacity (fs_q s)"
  by (auto simp: FSQ_step_def FSQEnqueue_step_def FSQDequeue_step_def Let_def bindE_Inr_iff
      split: fsq_pc.splits if_splits option.splits)

lemma fsq_reach_capacity: "fsq_reach s0 s \<Longrightarrow> q_capacity (fs_q s) = q_capacity (fs_q s0)"
  by (induction rule: fsq_reach.induct) (auto elim!: fsq_step.cases dest: FSQ_step_capacity)

text \<open>In every interleaving the queue stays within its capacity and items leave in the order they came.\<close>

lemma fsq_fifo:
  assumes "fsq_reach s0 s" "fsq_inv s0"
  shows "\<exists>xs z. sll_rep (fs_mem s) (q_list (fs_q s)) xs z \<and> length xs \<le> q_capacity (fs_q s0) \<and> fs_in s = fs_out s @ map snd xs"
  using fsq_reach_inv [OF assms] fsq_reach_capacity [OF assms(1)]
  by (auto simp: fsq_inv_def content_ok_def counts_ok_def)

text \<open>
  When every thread has to wait, each of them is between calls or waits for room in a full queue or
  for an item of an empty one: nobody is stuck at a lock.
\<close>

lemma holder_runs: "t < length (fs_pcs s) \<Longrightarrow> holds_write (fs_pcs s ! t) \<Longrightarrow> FSQ_step fuel a t s \<noteq> None"
  by (cases "fs_pcs s ! t") (auto simp: FSQ_step_def FSQEnqueue_step_def FSQDequeue_step_def Let_def)

lemma reader_runs: "holds_read (fs_pcs s ! t) \<Longrightarrow> write_lock (fs_q s) = None \<Longrightarrow> FSQ_step fuel a t s \<noteq> None"
  by (cases "fs_pcs s ! t") (auto simp: FSQ_step_def FSQEnqueue_step_def FSQDequeue_step_def Let_def)

lemma waits_for: "FSQ_step fuel a t s = None \<Longrightarrow> write_lock (fs_q s) = None \<Longrightarrow> read_lock (fs_q s) = None \<Longrightarrow>
    between_calls (fs_pcs s ! t) \<or> (\<exists>d. fs_pcs s ! t = Enq_wait d) \<and> enqueue_sem (fs_q s) = 0 \<or>
    fs_pcs s ! t = Deq_wait \<and> dequeue_sem (fs_q s) = 0"
  by (cases "fs_pcs s ! t") (auto simp: FSQ_step_def FSQEnqueue_step_def FSQDequeue_step_def Let_def split: if_splits)

lemma fsq_waiting:
  assumes inv: "fsq_inv s" and stuck: "\<forall>t < length (fs_pcs s). FSQ_step fuel (Some node) t s = None" and p: "p \<in> set (fs_pcs s)"
  shows "between_calls p \<or> (\<exists>d. p = Enq_wait d) \<and> enqueue_sem (fs_q s) = 0 \<or> p = Deq_wait \<and> dequeue_sem (fs_q s) = 0"
proof -
  have l: "locks_ok s" using inv by (auto simp: fsq_inv_def)
  obtain t where t: "t < length (fs_pcs s)" "fs_pcs s ! t = p" using p by (auto simp: in_set_conv_nth)
  have none: "FSQ_step fuel (Some node) t s = None" using stuck t by blast
  have free: "write_lock (fs_q s) = None"
  proof (rule ccontr)
    assume "write_lock (fs_q s) \<noteq> None"
    then obtain u where "u < length (fs_pcs s)" "holds_write (fs_pcs s ! u)" using l by (auto simp: locks_ok_def)
    then show False using stuck holder_runs [of u s fuel "Some node"] by auto
  qed
  have "read_lock (fs_q s) = None"
  proof (rule ccontr)
    assume "read_lock (fs_q s) \<noteq> None"
    then obtain u where u: "u < length (fs_pcs s)" "holds_read (fs_pcs s ! u)" using l by (auto simp: locks_ok_def)
    then show False using stuck free reader_runs [of s u fuel "Some node"] by auto
  qed
  then show ?thesis using waits_for [OF none free] t(2) by simp
qed

lemma fsq_no_deadlock:
  assumes inv: "fsq_inv s" and stuck: "\<forall>t < length (fs_pcs s). FSQ_step fuel (Some node) t s = None"
  shows "\<exists>xs z. sll_rep (fs_mem s) (q_list (fs_q s)) xs z \<and>
    (\<forall>p \<in> set (fs_pcs s). between_calls p \<or> (\<exists>d. p = Enq_wait d) \<and> length xs = q_capacity (fs_q s) \<or> p = Deq_wait \<and> xs = [])"
proof -
  obtain xs z where c: "content_ok s xs z" "counts_ok s (length xs)" using inv by (auto simp: fsq_inv_def)
  have w: "p \<in> set (fs_pcs s) \<Longrightarrow> between_calls p \<or> (\<exists>d. p = Enq_wait d) \<and> enqueue_sem (fs_q s) = 0 \<or> p = Deq_wait \<and> dequeue_sem (fs_q s) = 0" for p
    by (rule fsq_waiting [OF inv stuck])
  have zero: "tokens f s = 0" if "\<And>p. between_calls p \<Longrightarrow> f p = 0" "\<And>d. f (Enq_wait d) = 0" "f Deq_wait = 0" for f
    using that w by (fastforce simp: tokens_def)
  have bc: "between_calls p \<Longrightarrow> holds_new p = 0 \<and> holds_item p = 0 \<and> holds_room p = 0 \<and> holds_gap p = 0" for p
    by (cases p) auto
  have "tokens holds_new s = 0" "tokens holds_item s = 0" "tokens holds_room s = 0" "tokens holds_gap s = 0"
    using bc by (auto intro!: zero)
  then have "length xs = dequeue_sem (fs_q s)" "enqueue_sem (fs_q s) + length xs = q_capacity (fs_q s)"
    using c(2) by (auto simp: counts_ok_def)
  then show ?thesis using c(1) w by (intro exI [of _ xs] exI [of _ z]) (fastforce simp: content_ok_def)
qed

section \<open>The queries\<close>

lemma FSQIsEmpty_ok: "sll_rep m (q_list q) xs z \<Longrightarrow> FSQIsEmpty m (Some q) = Inr (xs = [])"
  using SLLIsEmpty_rep [of m "q_list q" xs z] by (simp add: FSQIsEmpty_def SLLIsEmpty_def)

lemma FSQSize_ok: "sll_rep m (q_list q) xs z \<Longrightarrow> length xs < fuel \<Longrightarrow> FSQSize fuel m (Some q) = Inr (length xs)"
  using SLLCount_rep [of m "q_list q" xs z fuel] by (simp add: FSQSize_def)

text \<open>
  \<open>FSQPeek\<close> skips the first element as if it were a dummy: it answers the second item, NULL for a queue
  of one, and stops at an assertion for an empty one.
\<close>

lemma FSQPeek_eq:
  assumes "sll_rep m (q_list q) xs z"
  shows "FSQPeek m (Some q) = (case xs of [] \<Rightarrow> Inl Assert_failed | [x] \<Rightarrow> Inr NULL | x # y # ys \<Rightarrow> Inr (snd y))"
proof -
  note R = sll_repD [OF assms]
  note b = SLLBegin_rep [OF assms] SLLEnd_rep [OF assms]
  consider "xs = []" | a d where "xs = [(a, d)]" | a d c e ys where "xs = (a, d) # (c, e) # ys"
    by (cases xs rule: remdups_adj.cases) auto
  then show ?thesis
  proof cases
    case 1
    then show ?thesis using R b by (simp add: FSQPeek_def SLLNext_def load_node_def SLLIsEqual_def)
  next
    case 2
    then have "SLLNext m a = Inr z" using SLLNext_rep [of m "q_list q" "[]" a d "[]" z] assms by simp
    then show ?thesis using 2 R b by (simp add: FSQPeek_def SLLIsEqual_def)
  next
    case 3
    have "SLLNext m a = Inr c" using SLLNext_rep [of m "q_list q" "[]" a d "(c, e) # ys" z] assms 3 by simp
    moreover have "SLLGetData m c = Inr e" using SLLGetData_rep [of m "q_list q" "[(a, d)]" c e ys z] assms 3 by simp
    moreover have "c \<noteq> NULL" using sll_rep_node [of m "q_list q" "[(a, d)]" c e ys z] assms 3 by auto
    moreover have "c \<noteq> z" using R(3) 3 by auto
    ultimately show ?thesis using 3 R b by (simp add: FSQPeek_def SLLIsEqual_def)
  qed
qed

section \<open>Where it goes wrong\<close>

text \<open>A given interleaving: which thread begins which call, or does its next step with which answer of \<open>malloc\<close>.\<close>

datatype fsq_event = Begin_enqueue nat ptr | Begin_dequeue nat | Step nat "ptr option"

fun fsq_exec :: "fsq_event list \<Rightarrow> fsq_sys \<Rightarrow> fsq_sys result" where
  "fsq_exec [] s = Inr s"
| "fsq_exec (Begin_enqueue t d # es) s = fsq_exec es (set_fpc t (Enq_wait d) s)"
| "fsq_exec (Begin_dequeue t # es) s = fsq_exec es (set_fpc t Deq_wait s)"
| "fsq_exec (Step t a # es) s =
     (case FSQ_step (Suc (Suc 0)) a t s of None \<Rightarrow> fsq_exec es s | Some r \<Rightarrow> bindE r (fsq_exec es))"

definition fsq_demo :: fsq_sys where
  "fsq_demo = \<lparr>fs_mem = \<lparr>nodes = [16 \<mapsto> \<lparr>n_data = 8, n_next = 0\<rparr>], lists = [8 \<mapsto> \<lparr>l_head = 16, l_tail = 16\<rparr>]\<rparr>,
     fs_q = \<lparr>q_list = 8, q_capacity = 2, enqueue_sem = 2, dequeue_sem = 0, write_lock = None, read_lock = None\<rparr>,
     fs_pcs = [Idle, Idle, Idle], fs_in = [], fs_out = []\<rparr>"

lemma list_update_Cons_numeral: "(x # xs)[numeral k := v] = x # xs[pred_numeral k := v]"
  by (simp add: numeral_eq_Suc)

text \<open>A whole call of one thread.\<close>

definition whole_enqueue :: "nat \<Rightarrow> ptr \<Rightarrow> ptr option \<Rightarrow> fsq_event list" where
  "whole_enqueue t d a = [Begin_enqueue t d, Step t a, Step t a, Step t a, Step t a, Step t a, Step t a]"

definition whole_dequeue :: "nat \<Rightarrow> fsq_event list" where
  "whole_dequeue t = [Begin_dequeue t, Step t None, Step t None, Step t None, Step t None, Step t None, Step t None, Step t None, Step t None]"

text \<open>
  An insertion without memory is only noticed when its iterator is compared with the end of the
  list, outside the lock: when another thread inserts in between, the failed call reports success and
  posts an item that is not there, and the reader that comes for it stops at an assertion.
\<close>

lemmas fsq_run = whole_enqueue_def whole_dequeue_def fsq_demo_def list_update_Cons_numeral FSQ_step_def
  FSQEnqueue_step_def FSQDequeue_step_def set_fpc_def upd_q_def sll_defs SLLInsert_def SLLRemove_def Let_def

lemma fsq_lost_failure:
  "\<exists>s. fsq_exec ([Begin_enqueue 0 100, Step 0 None, Step 0 None, Step 0 None, Step 0 None] @ whole_enqueue 1 200 (Some 24) @
        [Step 0 None, Step 0 None]) fsq_demo = Inr s \<and>
     fs_pcs s ! 0 = Ret_status 0 \<and> fs_in s = [200] \<and> dequeue_sem (fs_q s) = 2 \<and>
     fsq_exec (whole_dequeue 2 @ whole_dequeue 2) s = Inl Assert_failed"
  by (simp add: fsq_run)

text \<open>
  The other way round, when an address is used again: thread 0 has inserted at a node that a reader then
  freed, the next insertion gets that address for its new end, and thread 0 takes its own insertion for a
  failure: it answers -1 although its item is in the queue, and a place too many is posted.
\<close>

lemma fsq_lost_success:
  "\<exists>s. fsq_exec (whole_enqueue 1 100 (Some 24) @ [Begin_enqueue 0 200, Step 0 (Some 32), Step 0 (Some 32), Step 0 (Some 32), Step 0 (Some 32)] @
        whole_dequeue 2 @ whole_enqueue 1 300 (Some 24) @ [Step 0 None, Step 0 None]) fsq_demo = Inr s \<and>
     fs_pcs s ! 0 = Ret_status (- 1) \<and> fs_in s = [100, 200, 300] \<and> fs_out s = [100] \<and> enqueue_sem (fs_q s) = 1"
  by (simp add: fsq_run)

end
