(* ===== verification/MT_Counting.thy ===== *)
theory MT_Counting
  imports Arrays
begin

text \<open>
  The counting sort of \<open>projects/sorting/src/mt_counting_sort.c\<close>: every thread counts the bytes of its
  segment in a table of its own and adds them, value by value, to the shared table under a lock. The
  threads run in any interleaving; \<open>mt_reach_inv\<close> gives the invariant of all of them, and
  \<open>MTCountingSort_ok\<close> that the array is sorted whatever the interleaving was.
\<close>

section \<open>Definitions\<close>

abbreviation (input) ASCII :: nat where "ASCII \<equiv> 256"

record thread_data_t =
  start_index :: nat
  end_index :: nat

definition thread_data :: "nat \<Rightarrow> nat \<Rightarrow> nat \<Rightarrow> thread_data_t" where
  "thread_data len num_of_threads i =
     (let segment = len div num_of_threads
      in \<lparr>start_index = i * segment, end_index = (if i = num_of_threads - 1 then len else (i + 1) * segment)\<rparr>)"

text \<open>The first loop of \<open>CountSegment\<close>: the thread's own table.\<close>

fun CountSegment_local :: "byte list \<Rightarrow> nat list \<Rightarrow> nat list \<Rightarrow> nat list result" where
  "CountSegment_local arr [] local_count = Inr local_count"
| "CountSegment_local arr (i # is) local_count =
     bindE (aget arr i) (\<lambda>c.
     bindE (aget local_count (unat c)) (\<lambda>v.
     bindE (aset local_count (unat c) (szadd v 1)) (\<lambda>local_count. CountSegment_local arr is local_count)))"

text \<open>
  The second loop, one shared access at a time. Where a thread is at value \<open>i\<close>: about to test its own
  count, about to take the lock, about to load the shared count, about to store the sum (the loaded
  value in hand), about to release the lock.
\<close>

datatype mt_pc = Testing nat | Entering nat | Loading nat | Storing nat nat | Leaving nat | Finished

record mt_thread =
  t_local :: "nat list"
  t_pc :: mt_pc

record mt_cfg =
  m_count :: "nat list"
  m_lock :: "nat option"
  m_threads :: "mt_thread list"

definition set_pc :: "mt_cfg \<Rightarrow> nat \<Rightarrow> mt_pc \<Rightarrow> mt_cfg" where
  "set_pc c t p = c\<lparr>m_threads := (m_threads c)[t := (m_threads c ! t)\<lparr>t_pc := p\<rparr>]\<rparr>"

text \<open>The next step of thread \<open>t\<close>, \<open>None\<close> when it waits for the lock or has returned.\<close>

definition CountSegment_step :: "nat \<Rightarrow> mt_cfg \<Rightarrow> mt_cfg option" where
  "CountSegment_step t c =
     (if length (m_threads c) \<le> t then None
      else case t_pc (m_threads c ! t) of
        Testing i \<Rightarrow>
          Some (if \<not> i < ASCII then set_pc c t Finished
                else if t_local (m_threads c ! t) ! i \<noteq> 0 then set_pc c t (Entering i)
                else set_pc c t (Testing (i + 1)))
      | Entering i \<Rightarrow>
          (if m_lock c = None then Some (set_pc (c\<lparr>m_lock := Some t\<rparr>) t (Loading i)) else None)
      | Loading i \<Rightarrow> Some (set_pc c t (Storing i (m_count c ! i)))
      | Storing i v \<Rightarrow>
          Some (set_pc (c\<lparr>m_count := (m_count c)[i := szadd v (t_local (m_threads c ! t) ! i)]\<rparr>) t (Leaving i))
      | Leaving i \<Rightarrow> Some (set_pc (c\<lparr>m_lock := None\<rparr>) t (Testing (i + 1)))
      | Finished \<Rightarrow> None)"

text \<open>What the scheduler of the system does: a list of the threads it picks, one step each.\<close>

fun mt_run :: "nat list \<Rightarrow> mt_cfg \<Rightarrow> mt_cfg" where
  "mt_run [] c = c"
| "mt_run (t # ts) c = mt_run ts (case CountSegment_step t c of None \<Rightarrow> c | Some c' \<Rightarrow> c')"

fun mt_start :: "byte list \<Rightarrow> nat \<Rightarrow> nat \<Rightarrow> nat list \<Rightarrow> mt_thread list result" where
  "mt_start arr len num_of_threads [] = Inr []"
| "mt_start arr len num_of_threads (i # is) =
     (let d = thread_data len num_of_threads i
      in bindE (CountSegment_local arr [start_index d..<end_index d] (replicate ASCII 0)) (\<lambda>local_count.
         bindE (mt_start arr len num_of_threads is) (\<lambda>ts. Inr (\<lparr>t_local = local_count, t_pc = Testing 0\<rparr> # ts))))"

definition mt_done :: "mt_cfg \<Rightarrow> bool" where
  "mt_done c \<longleftrightarrow> list_all (\<lambda>th. t_pc th = Finished) (m_threads c)"

fun MTCountingSort_run :: "byte \<Rightarrow> nat \<Rightarrow> byte list \<Rightarrow> nat \<Rightarrow> (byte list \<times> nat) result" where
  "MTCountingSort_run v 0 arr pos = Inr (arr, pos)"
| "MTCountingSort_run v (Suc k) arr pos = bindE (aset arr pos v) (\<lambda>arr. MTCountingSort_run v k arr (pos + 1))"

fun MTCountingSort_fill :: "nat list \<Rightarrow> nat list \<Rightarrow> byte list \<Rightarrow> nat \<Rightarrow> byte list result" where
  "MTCountingSort_fill global_count [] arr pos = Inr arr"
| "MTCountingSort_fill global_count (i # is) arr pos =
     bindE (aget global_count i) (\<lambda>k.
     bindE (MTCountingSort_run (of_nat i) k arr pos) (\<lambda>(arr, pos). MTCountingSort_fill global_count is arr pos))"

text \<open>
  The arguments: the answers of the two \<open>malloc\<close> calls and of each \<open>pthread_create\<close>, the interleaving,
  then the array (\<open>None\<close> for NULL), its length and the number of threads. The joins wait for all
  threads; an interleaving that stops before is not a run of the program. The division comes before
  the assertions. When a thread cannot be created the call returns at once, without waiting for those
  that run.
\<close>

definition MTCountingSort :: "bool \<Rightarrow> bool \<Rightarrow> (nat \<Rightarrow> bool) \<Rightarrow> nat list \<Rightarrow> byte list option \<Rightarrow> nat \<Rightarrow> nat \<Rightarrow>
    (byte list \<times> int) result" where
  "MTCountingSort ok1 ok2 created schedule arr len num_of_threads =
     (if num_of_threads = 0 then Inl Div_by_zero
      else case arr of
        None \<Rightarrow> Inl Assert_failed
      | Some arr \<Rightarrow>
          bindE (assertE (0 < len)) (\<lambda>_.
          if \<not> (ok1 \<and> ok2) then Inr (arr, -1)
          else if \<not> list_all created [0..<num_of_threads] then Inr (arr, -1)
          else bindE (mt_start arr len num_of_threads [0..<num_of_threads]) (\<lambda>threads.
               let c = mt_run schedule \<lparr>m_count = replicate ASCII 0, m_lock = None, m_threads = threads\<rparr>
               in if \<not> mt_done c then Inl Out_of_fuel
                  else bindE (MTCountingSort_fill (m_count c) [0..<ASCII] arr 0) (\<lambda>arr. Inr (arr, 0)))))"

text \<open>
  Reading the file to sort: its contents, what \<open>ftell\<close> says and how many bytes \<open>fread\<close> delivers belong
  to the system. The answer of \<open>ftell\<close> is not tested: -1 becomes the largest \<open>size_t\<close>, and the buffer
  asked for then has no byte at all. \<open>fread\<close> is called once and writes no byte past what it delivers.
\<close>

definition CountingReadDictionary :: "byte list option \<Rightarrow> int \<Rightarrow> bool \<Rightarrow> nat \<Rightarrow> nat \<Rightarrow> (nat \<times> byte list option) result" where
  "CountingReadDictionary file_data file_size ok bytes_read len =
     (case file_data of
        None \<Rightarrow> Inr (len, None)
      | Some contents \<Rightarrow>
          let len = nat (file_size mod 2 ^ 64)
          in if \<not> ok then Inr (len, None)
             else if szadd len 1 < bytes_read then Inl Bad_access
             else if bytes_read \<noteq> len then Inr (len, None)
             else Inr (len, Some (take len contents @ [0])))"

section \<open>The interleavings\<close>

inductive mt_step :: "mt_cfg \<Rightarrow> mt_cfg \<Rightarrow> bool" where
  thread: "CountSegment_step t c = Some c' \<Longrightarrow> mt_step c c'"

inductive mt_reach :: "mt_cfg \<Rightarrow> mt_cfg \<Rightarrow> bool" for c0 where
  start: "mt_reach c0 c0"
| step: "mt_reach c0 c \<Longrightarrow> mt_step c c' \<Longrightarrow> mt_reach c0 c'"

lemma mt_run_reach: "mt_reach c0 c \<Longrightarrow> mt_reach c0 (mt_run ts c)"
proof (induction ts arbitrary: c)
  case (Cons t ts)
  have "mt_reach c0 (case CountSegment_step t c of None \<Rightarrow> c | Some c' \<Rightarrow> c')"
    using Cons.prems by (auto split: option.split intro: mt_reach.step mt_step.thread)
  then show ?case using Cons.IH by simp
qed simp

text \<open>Which values a thread has added already, and which thread is between lock and unlock.\<close>

fun added :: "mt_pc \<Rightarrow> nat \<Rightarrow> bool" where
  "added (Testing k) i = (i < k)"
| "added (Entering k) i = (i < k)"
| "added (Loading k) i = (i < k)"
| "added (Storing k v) i = (i < k)"
| "added (Leaving k) i = (i \<le> k)"
| "added Finished i = True"

fun inside :: "mt_pc \<Rightarrow> bool" where
  "inside (Loading k) = True"
| "inside (Storing k v) = True"
| "inside (Leaving k) = True"
| "inside p = False"

fun pc_ok :: "nat list \<Rightarrow> mt_pc \<Rightarrow> bool" where
  "pc_ok cnt (Testing k) = (k \<le> 256)"
| "pc_ok cnt (Entering k) = (k < 256)"
| "pc_ok cnt (Loading k) = (k < 256)"
| "pc_ok cnt (Storing k v) = (k < 256 \<and> v = cnt ! k)"
| "pc_ok cnt (Leaving k) = (k < 256)"
| "pc_ok cnt Finished = True"

definition contribution :: "nat \<Rightarrow> mt_thread \<Rightarrow> nat" where
  "contribution i th = (if added (t_pc th) i then t_local th ! i else 0)"

definition mt_inv :: "nat list list \<Rightarrow> mt_cfg \<Rightarrow> bool" where
  "mt_inv locals c \<longleftrightarrow> map t_local (m_threads c) = locals \<and> length (m_count c) = 256 \<and>
     (\<forall>i < 256. m_count c ! i = sum_list (map (contribution i) (m_threads c))) \<and>
     (\<forall>t < length (m_threads c). inside (t_pc (m_threads c ! t)) \<longleftrightarrow> m_lock c = Some t) \<and>
     (\<forall>t < length (m_threads c). pc_ok (m_count c) (t_pc (m_threads c ! t))) \<and>
     (\<forall>h. m_lock c = Some h \<longrightarrow> h < length (m_threads c))"

definition locals_ok :: "nat list list \<Rightarrow> bool" where
  "locals_ok locals \<longleftrightarrow> (\<forall>l \<in> set locals. length l = 256) \<and> (\<forall>i < 256. sum_list (map (\<lambda>l. l ! i) locals) < 2 ^ 64)"

lemma contribution_set:
  "t < length ths \<Longrightarrow> sum_list (map (contribution i) (ths[t := th])) + contribution i (ths ! t) =
     sum_list (map (contribution i) ths) + contribution i th"
  by (rule sum_list_map_update)

lemma contribution_le: "sum_list (map (contribution i) ths) \<le> sum_list (map (\<lambda>l. l ! i) (map t_local ths))"
  by (induction ths) (auto simp: contribution_def intro: add_mono)

lemma locals_set: "t < length ths \<Longrightarrow> map t_local (ths[t := (ths ! t)\<lparr>t_pc := p\<rparr>]) = map t_local ths"
  by (simp add: map_update list_update_same_conv)

lemma pc_ok_outside: "\<not> inside p \<Longrightarrow> pc_ok cnt p = pc_ok cnt' p"
  by (cases p) simp_all

lemma mt_inv_move:
  assumes inv: "mt_inv locals c" and t: "t < length (m_threads c)" "th = m_threads c ! t"
    and cnt: "length cnt = 256" "\<forall>i < 256. cnt ! i + contribution i th = m_count c ! i + contribution i (th\<lparr>t_pc := q\<rparr>)"
    and lk: "inside q \<longleftrightarrow> lk = Some t" "\<forall>u < length (m_threads c). u \<noteq> t \<longrightarrow> m_lock c = Some u \<longleftrightarrow> lk = Some u"
      "\<forall>h. lk = Some h \<longrightarrow> h < length (m_threads c)"
    and ok: "pc_ok cnt q" "\<forall>u < length (m_threads c). u \<noteq> t \<longrightarrow> pc_ok cnt (t_pc (m_threads c ! u))"
  shows "mt_inv locals (set_pc (c\<lparr>m_count := cnt, m_lock := lk\<rparr>) t q)"
proof -
  let ?ths = "(m_threads c)[t := th\<lparr>t_pc := q\<rparr>]"
  have "cnt ! i = sum_list (map (contribution i) ?ths)" if "i < 256" for i
  proof -
    have "m_count c ! i = sum_list (map (contribution i) (m_threads c))" using inv that by (simp add: mt_inv_def)
    then show ?thesis using cnt(2) that t contribution_set [of t "m_threads c" i "th\<lparr>t_pc := q\<rparr>"] by force
  qed
  moreover have "map t_local ?ths = locals" using inv t locals_set [of t "m_threads c" q] by (simp add: mt_inv_def)
  ultimately show ?thesis using inv t cnt(1) lk ok by (auto simp: mt_inv_def set_pc_def nth_list_update)
qed

lemma mt_inv_step:
  assumes loc: "locals_ok locals" and inv: "mt_inv locals c" and step: "CountSegment_step t c = Some c'"
  shows "mt_inv locals c'"
proof -
  let ?th = "m_threads c ! t"
  have t: "t < length (m_threads c)" using step by (auto simp: CountSegment_step_def split: if_splits)
  have ok: "pc_ok (m_count c) (t_pc ?th)" and len: "length (m_count c) = 256"
    and others: "\<forall>u < length (m_threads c). u \<noteq> t \<longrightarrow> pc_ok (m_count c) (t_pc (m_threads c ! u))"
    and lock: "inside (t_pc ?th) \<longleftrightarrow> m_lock c = Some t"
    and lk: "\<forall>h. m_lock c = Some h \<longrightarrow> h < length (m_threads c)"
    using inv t by (auto simp: mt_inv_def)
  have here: "t_pc ?th = p \<Longrightarrow> contribution i ?th = (if added p i then t_local ?th ! i else 0)" for p i
    by (simp add: contribution_def)
  have there: "contribution i (?th\<lparr>t_pc := q\<rparr>) = (if added q i then t_local ?th ! i else 0)" for q i
    by (simp add: contribution_def)
  note move = mt_inv_move [OF inv t refl]
  show ?thesis
  proof (cases "t_pc ?th")
    case (Testing i)
    let ?q = "if \<not> i < 256 then Finished else if t_local ?th ! i \<noteq> 0 then Entering i else Testing (i + 1)"
    have "mt_inv locals (set_pc (c\<lparr>m_count := m_count c, m_lock := m_lock c\<rparr>) t ?q)"
      by (rule move) (use Testing ok len others lock lk in \<open>auto simp: here there less_Suc_eq\<close>)
    then show ?thesis using step t Testing by (auto simp: CountSegment_step_def split: if_splits)
  next
    case (Entering i)
    then have free: "m_lock c = None" using step t by (auto simp: CountSegment_step_def split: if_splits)
    have "mt_inv locals (set_pc (c\<lparr>m_count := m_count c, m_lock := Some t\<rparr>) t (Loading i))"
      by (rule move) (use Entering free ok len others t in \<open>auto simp: here there\<close>)
    then show ?thesis using step t Entering free by (auto simp: CountSegment_step_def)
  next
    case (Loading i)
    have "mt_inv locals (set_pc (c\<lparr>m_count := m_count c, m_lock := m_lock c\<rparr>) t (Storing i (m_count c ! i)))"
      by (rule move) (use Loading ok len others lock lk in \<open>auto simp: here there\<close>)
    then show ?thesis using step t Loading by (auto simp: CountSegment_step_def)
  next
    case (Storing i v)
    let ?l = "t_local ?th ! i"
    have i: "i < 256" "v = m_count c ! i" and held: "m_lock c = Some t" using ok lock Storing by auto
    have sum: "m_count c ! i = sum_list (map (contribution i) (m_threads c))" using inv i by (simp add: mt_inv_def)
    have "sum_list (map (contribution i) (m_threads c)) + ?l \<le> sum_list (map (\<lambda>l. l ! i) (map t_local (m_threads c)))"
      using contribution_set [OF t, of i "?th\<lparr>t_pc := Leaving i\<rparr>"] contribution_le [of i "(m_threads c)[t := ?th\<lparr>t_pc := Leaving i\<rparr>]"]
      unfolding locals_set [OF t] by (simp add: here [OF Storing] there)
    moreover have "map t_local (m_threads c) = locals" using inv by (simp add: mt_inv_def)
    ultimately have "v + ?l < 2 ^ 64" using loc i sum by (auto simp: locals_ok_def intro: le_less_trans)
    then have add: "szadd v ?l = v + ?l" by simp
    have out: "\<forall>u < length (m_threads c). u \<noteq> t \<longrightarrow> \<not> inside (t_pc (m_threads c ! u))"
      using inv held by (auto simp: mt_inv_def)
    have rest: "\<forall>u < length (m_threads c). u \<noteq> t \<longrightarrow> pc_ok ((m_count c)[i := v + ?l]) (t_pc (m_threads c ! u))"
      using others out pc_ok_outside by blast
    have "mt_inv locals (set_pc (c\<lparr>m_count := (m_count c)[i := v + ?l], m_lock := m_lock c\<rparr>) t (Leaving i))"
      by (rule move) (use Storing i held len lock lk rest in \<open>auto simp: here there nth_list_update\<close>)
    then show ?thesis using step t Storing add by (auto simp: CountSegment_step_def)
  next
    case (Leaving i)
    have out: "m_lock c = Some t" using lock Leaving by simp
    have "mt_inv locals (set_pc (c\<lparr>m_count := m_count c, m_lock := None\<rparr>) t (Testing (i + 1)))"
      by (rule move) (use Leaving ok len others out in \<open>auto simp: here there less_Suc_eq_le\<close>)
    then show ?thesis using step t Leaving by (auto simp: CountSegment_step_def)
  next
    case Finished
    then show ?thesis using step t by (auto simp: CountSegment_step_def)
  qed
qed

definition mt_initial :: "nat list list \<Rightarrow> mt_cfg" where
  "mt_initial locals = \<lparr>m_count = replicate 256 0, m_lock = None,
     m_threads = map (\<lambda>l. \<lparr>t_local = l, t_pc = Testing 0\<rparr>) locals\<rparr>"

lemma mt_inv_initial: "mt_inv locals (mt_initial locals)"
proof -
  have "sum_list (map (contribution i) (map (\<lambda>l. \<lparr>t_local = l, t_pc = Testing 0\<rparr>) locals)) = 0" for i
    by (simp add: contribution_def comp_def)
  then show ?thesis by (simp add: mt_inv_def mt_initial_def comp_def)
qed

lemma mt_reach_inv:
  assumes "mt_reach (mt_initial locals) c" "locals_ok locals"
  shows "mt_inv locals c"
  using assms(1)
proof induction
  case start
  then show ?case by (rule mt_inv_initial)
next
  case (step c c')
  then show ?case using mt_inv_step [OF assms(2)] by (auto elim: mt_step.cases)
qed

text \<open>When all threads have returned the shared table holds the sums, whatever the interleaving.\<close>

lemma mt_done_count:
  assumes "mt_inv locals c" "mt_done c" "i < 256"
  shows "m_count c ! i = sum_list (map (\<lambda>l. l ! i) locals)"
proof -
  have eq: "map (contribution i) (m_threads c) = map ((\<lambda>l. l ! i) \<circ> t_local) (m_threads c)"
    using assms(2) by (auto simp: mt_done_def list_all_iff contribution_def)
  have "m_count c ! i = sum_list (map (contribution i) (m_threads c))" "map t_local (m_threads c) = locals"
    using assms(1,3) by (auto simp: mt_inv_def)
  then show ?thesis using eq by (metis map_map)
qed

text \<open>No deadlock: while a thread has not returned, some thread can step; and the steps run out.\<close>

lemma mt_progress:
  assumes inv: "mt_inv locals c" and nd: "\<not> mt_done c"
  shows "\<exists>t c'. CountSegment_step t c = Some c'"
proof (cases "m_lock c")
  case (Some h)
  then have "h < length (m_threads c)" "inside (t_pc (m_threads c ! h))" using inv by (auto simp: mt_inv_def)
  then have "CountSegment_step h c \<noteq> None" by (cases "t_pc (m_threads c ! h)") (auto simp: CountSegment_step_def)
  then show ?thesis by auto
next
  case None
  obtain t where t: "t < length (m_threads c)" "t_pc (m_threads c ! t) \<noteq> Finished"
    using nd by (auto simp: mt_done_def list_all_length)
  then have "CountSegment_step t c \<noteq> None" using None by (cases "t_pc (m_threads c ! t)") (auto simp: CountSegment_step_def)
  then show ?thesis by auto
qed

fun work :: "mt_pc \<Rightarrow> nat" where
  "work (Testing i) = 5 * (256 - i) + 1"
| "work (Entering i) = 5 * (256 - i)"
| "work (Loading i) = 5 * (256 - i) - 1"
| "work (Storing i v) = 5 * (256 - i) - 2"
| "work (Leaving i) = 5 * (256 - i) - 3"
| "work Finished = 0"

definition total_work :: "mt_cfg \<Rightarrow> nat" where
  "total_work c = sum_list (map (\<lambda>th. work (t_pc th)) (m_threads c))"

lemma total_work_set:
  "t < length (m_threads c) \<Longrightarrow> work q < work (t_pc (m_threads c ! t)) \<Longrightarrow> total_work (set_pc c t q) < total_work c"
  using sum_list_map_update [of t "m_threads c" "\<lambda>th. work (t_pc th)" "(m_threads c ! t)\<lparr>t_pc := q\<rparr>"]
  by (simp add: total_work_def set_pc_def)

lemma total_work_step:
  assumes inv: "mt_inv locals c" and step: "CountSegment_step t c = Some c'"
  shows "total_work c' < total_work c"
proof -
  have t: "t < length (m_threads c)" using step by (auto simp: CountSegment_step_def split: if_splits)
  then have "pc_ok (m_count c) (t_pc (m_threads c ! t))" using inv by (simp add: mt_inv_def)
  moreover have "total_work (c\<lparr>m_count := x, m_lock := y\<rparr>) = total_work c" for x y by (simp add: total_work_def)
  moreover have "total_work (c\<lparr>m_count := x\<rparr>) = total_work c" "total_work (c\<lparr>m_lock := y\<rparr>) = total_work c" for x y
    by (simp_all add: total_work_def)
  ultimately show ?thesis
    using step t total_work_set [of t c] total_work_set [of t "c\<lparr>m_lock := Some t\<rparr>"] total_work_set [of t "c\<lparr>m_lock := None\<rparr>"]
      total_work_set [of t "c\<lparr>m_count := _\<rparr>"]
    by (cases "t_pc (m_threads c ! t)") (auto simp: CountSegment_step_def split: if_splits)
qed

text \<open>From every reachable configuration the threads can be run to their ends.\<close>

lemma mt_finishes:
  assumes "mt_inv locals c" "locals_ok locals"
  shows "\<exists>ts. length ts \<le> total_work c \<and> mt_done (mt_run ts c)"
  using assms(1)
proof (induction "total_work c" arbitrary: c rule: less_induct)
  case less
  show ?case
  proof (cases "mt_done c")
    case True
    then show ?thesis by (intro exI [of _ "[]"]) simp
  next
    case False
    then obtain t c' where step: "CountSegment_step t c = Some c'" using mt_progress [OF less.prems] by blast
    have dec: "total_work c' < total_work c" by (rule total_work_step [OF less.prems step])
    obtain ts where "length ts \<le> total_work c'" "mt_done (mt_run ts c')"
      using less.hyps [OF dec mt_inv_step [OF assms(2) less.prems step]] by blast
    then show ?thesis using step dec by (intro exI [of _ "t # ts"]) auto
  qed
qed

lemma mt_run_append: "mt_run (xs @ ys) c = mt_run ys (mt_run xs c)"
  by (induction xs arbitrary: c) simp_all

lemma mt_run_inv: "mt_inv locals c \<Longrightarrow> locals_ok locals \<Longrightarrow> mt_inv locals (mt_run ts c) \<and> total_work (mt_run ts c) \<le> total_work c"
proof (induction ts arbitrary: c)
  case (Cons t ts)
  show ?case
  proof (cases "CountSegment_step t c")
    case (Some c')
    then show ?thesis
      using Cons.IH [OF mt_inv_step [OF Cons.prems(2,1) Some] Cons.prems(2)] total_work_step [OF Cons.prems(1) Some] by simp
  qed (use Cons in simp)
qed simp

section \<open>Counting and filling\<close>

lemma CountSegment_local_ok:
  assumes "\<forall>i \<in> set is. i < length arr" "length cnt = 256" "\<forall>v < 256. cnt ! v + length is < 2 ^ 64"
  shows "\<exists>cnt'. CountSegment_local arr is cnt = Inr cnt' \<and> length cnt' = 256 \<and>
    (\<forall>v < 256. cnt' ! v = cnt ! v + count_list (map (\<lambda>i. unat (arr ! i)) is) v)"
  using assms
proof (induction "is" arbitrary: cnt)
  case (Cons i "is")
  let ?c = "unat (arr ! i)"
  have c: "?c < 256" using unsigned_less [of "arr ! i"] by simp
  let ?cnt = "cnt[?c := cnt ! ?c + 1]"
  have add: "szadd (cnt ! ?c) 1 = cnt ! ?c + 1" using Cons.prems(3) c by (intro szadd_small) fastforce
  have "\<forall>v < 256. ?cnt ! v + length is < 2 ^ 64" using Cons.prems(2,3) c by (auto simp: nth_list_update)
  with Cons.IH [of ?cnt] Cons.prems obtain cnt' where "CountSegment_local arr is ?cnt = Inr cnt'" "length cnt' = 256"
    "\<forall>v < 256. cnt' ! v = ?cnt ! v + count_list (map (\<lambda>i. unat (arr ! i)) is) v" by auto
  then show ?case using Cons.prems c add by (auto simp: nth_list_update)
qed simp

lemma map_nth_slice: "b \<le> length arr \<Longrightarrow> map ((!) arr) [a..<b] = slice arr a b"
  by (rule nth_equalityI) (auto simp: nth_slice)

definition value_count :: "byte list \<Rightarrow> nat \<Rightarrow> nat" where
  "value_count xs v = count_list (map unat xs) v"

lemma value_count_join:
  "a \<le> m \<Longrightarrow> m \<le> b \<Longrightarrow> value_count (slice arr a m) v + value_count (slice arr m b) v = value_count (slice arr a b) v"
  using slice_append [of a m b arr] by (simp add: value_count_def flip: count_list_append map_append)

lemma mt_start_ok:
  assumes "\<forall>i \<in> set is. end_index (thread_data len n i) \<le> length arr" "length arr < 2 ^ 64"
  shows "\<exists>locals. mt_start arr len n is = Inr (map (\<lambda>l. \<lparr>t_local = l, t_pc = Testing 0\<rparr>) locals) \<and>
    (\<forall>l \<in> set locals. length l = 256) \<and>
    (\<forall>v < 256. sum_list (map (\<lambda>l. l ! v) locals) =
       (\<Sum>i\<leftarrow>is. value_count (slice arr (start_index (thread_data len n i)) (end_index (thread_data len n i))) v))"
  using assms(1)
proof (induction "is")
  case (Cons i "is")
  let ?d = "thread_data len n i"
  have e: "end_index ?d \<le> length arr" using Cons.prems by simp
  obtain l where l: "CountSegment_local arr [start_index ?d..<end_index ?d] (replicate 256 0) = Inr l" "length l = 256"
    "\<forall>v < 256. l ! v = value_count (slice arr (start_index ?d) (end_index ?d)) v"
  proof -
    have "\<forall>j \<in> set [start_index ?d..<end_index ?d]. j < length arr" "length (replicate 256 (0 :: nat)) = 256"
      "\<forall>v < 256. replicate 256 (0 :: nat) ! v + length [start_index ?d..<end_index ?d] < 2 ^ 64"
      using e assms(2) by auto
    from CountSegment_local_ok [OF this] that show thesis
      by (auto simp: value_count_def map_nth_slice [OF e, symmetric] comp_def)
  qed
  obtain ls where "mt_start arr len n is = Inr (map (\<lambda>l. \<lparr>t_local = l, t_pc = Testing 0\<rparr>) ls)" "\<forall>l \<in> set ls. length l = 256"
    "\<forall>v < 256. sum_list (map (\<lambda>l. l ! v) ls) =
       (\<Sum>i\<leftarrow>is. value_count (slice arr (start_index (thread_data len n i)) (end_index (thread_data len n i))) v)"
    using Cons by auto
  with l show ?case by (intro exI [of _ "l # ls"]) (auto simp: Let_def)
qed simp

text \<open>The segments tile the first \<open>len\<close> elements, however many threads there are.\<close>

lemma segments_tile:
  assumes "0 < n" "len \<le> length arr"
  shows "(\<Sum>i\<leftarrow>[0..<n]. value_count (slice arr (start_index (thread_data len n i)) (end_index (thread_data len n i))) v) =
    value_count (take len arr) v"
proof -
  let ?s = "len div n"
  let ?part = "\<lambda>i. value_count (slice arr (start_index (thread_data len n i)) (end_index (thread_data len n i))) v"
  have le: "k * ?s \<le> len" if "k \<le> n" for k
    using that by (metis div_times_less_eq_dividend dual_order.trans mult.commute mult_le_mono1)
  have pre: "(\<Sum>i\<leftarrow>[0..<k]. ?part i) = value_count (slice arr 0 (k * ?s)) v" if "k < n" for k
    using that
  proof (induction k)
    case 0
    then show ?case by (simp add: value_count_def)
  next
    case (Suc k)
    then have "?part k = value_count (slice arr (k * ?s) (Suc k * ?s)) v" by (simp add: thread_data_def Let_def)
    then show ?case using Suc value_count_join [of 0 "k * ?s" "Suc k * ?s" arr v] by simp
  qed
  obtain m where m: "n = Suc m" using assms(1) by (cases n) auto
  have "?part m = value_count (slice arr (m * ?s) len) v" by (simp add: m thread_data_def Let_def)
  then show ?thesis using pre [of m] m value_count_join [of 0 "m * ?s" len arr v] le [of m]
    by (simp add: slice_def)
qed

lemma MTCountingSort_run_ok:
  "pos + k \<le> length arr \<Longrightarrow>
   MTCountingSort_run v k arr pos = Inr (take pos arr @ replicate k v @ drop (pos + k) arr, pos + k)"
proof (induction k arbitrary: arr pos)
  case (Suc k)
  have "take (Suc pos) (arr[pos := v]) = take pos arr @ [v]" using Suc.prems by (simp add: take_Suc_conv_app_nth)
  then show ?case using Suc.IH [of "pos + 1" "arr[pos := v]"] Suc.prems by simp
qed simp

definition run_of :: "nat list \<Rightarrow> nat list \<Rightarrow> byte list" where
  "run_of cnt is = concat (map (\<lambda>i. replicate (cnt ! i) (of_nat i)) is)"

lemma MTCountingSort_fill_ok:
  "\<forall>i \<in> set is. i < length cnt \<Longrightarrow> pos + length (run_of cnt is) \<le> length arr \<Longrightarrow>
   MTCountingSort_fill cnt is arr pos = Inr (take pos arr @ run_of cnt is @ drop (pos + length (run_of cnt is)) arr)"
proof (induction "is" arbitrary: arr pos)
  case (Cons i "is")
  let ?k = "cnt ! i" and ?v = "of_nat i :: byte"
  let ?arr = "take pos arr @ replicate ?k ?v @ drop (pos + ?k) arr"
  have len: "pos + ?k \<le> length arr" and run: "run_of cnt (i # is) = replicate ?k ?v @ run_of cnt is"
    using Cons.prems(2) by (auto simp: run_of_def)
  have "pos + ?k + length (run_of cnt is) \<le> length ?arr" using Cons.prems(2) len run by simp
  from Cons.IH [OF _ this] show ?case
    using Cons.prems(1) len by (simp add: MTCountingSort_run_ok run ac_simps)
qed (simp add: run_of_def)

lemma run_of_sorted:
  "n \<le> 256 \<Longrightarrow> sorted (run_of cnt [0..<n]) \<and> (\<forall>x \<in> set (run_of cnt [0..<n]). unat x < n)"
proof (induction n)
  case (Suc n)
  have v: "unat (of_nat n :: byte) = n" using Suc.prems by (simp add: unat_of_nat take_bit_nat_eq_self)
  have run: "run_of cnt [0..<Suc n] = run_of cnt [0..<n] @ replicate (cnt ! n) (of_nat n)" by (simp add: run_of_def)
  have "sorted (run_of cnt [0..<n])" and below: "\<And>x. x \<in> set (run_of cnt [0..<n]) \<Longrightarrow> unat x < n"
    using Suc by auto
  then have "sorted (run_of cnt [0..<Suc n])" unfolding run by (auto simp: sorted_append word_le_nat_alt v less_imp_le)
  moreover have "unat x < Suc n" if "x \<in> set (run_of cnt [0..<Suc n])" for x
    using that below [of x] v unfolding run by auto
  ultimately show ?case by blast
qed (simp add: run_of_def)

lemma count_replicate: "count_list (replicate k x) y = (if x = y then k else 0)"
  by (induction k) auto

lemma run_of_count:
  assumes "n \<le> 256"
  shows "value_count (run_of cnt [0..<n]) v = (if v < n then cnt ! v else 0)"
  using assms
proof (induction n)
  case (Suc n)
  have "unat (of_nat n :: byte) = n" using Suc.prems by (simp add: unat_of_nat take_bit_nat_eq_self)
  then show ?case using Suc by (auto simp: value_count_def run_of_def count_replicate)
qed (simp add: run_of_def value_count_def)

text \<open>Bytes are determined by their counts.\<close>

lemma value_count_mset:
  assumes "\<forall>v < 256. value_count xs v = value_count ys v"
  shows "mset xs = mset ys"
proof (rule multiset_eqI)
  fix b :: byte
  have "unat b < 256" using unsigned_less [of b] by simp
  moreover have "value_count zs (unat b) = count (mset zs) b" for zs
    by (induction zs) (auto simp: value_count_def word_unat_eq_iff)
  ultimately show "count (mset xs) b = count (mset ys) b" using assms by metis
qed

section \<open>The sort\<close>

lemma MTCountingSort_ok:
  assumes n: "0 < n" and len: "0 < len" "len \<le> length arr" "length arr < 2 ^ 64" and created: "\<forall>i < n. created i"
  shows "MTCountingSort True True created schedule (Some arr) len n \<in>
      {Inr (sort (take len arr) @ drop len arr, 0), Inl Out_of_fuel}"
    and "\<exists>rest. length rest \<le> 1281 * n \<and>
      MTCountingSort True True created (schedule @ rest) (Some arr) len n = Inr (sort (take len arr) @ drop len arr, 0)"
proof -
  have e: "end_index (thread_data len n i) \<le> length arr" if "i < n" for i
  proof -
    have "(i + 1) * (len div n) \<le> n * (len div n)" using that by (intro mult_le_mono1) simp
    also have "\<dots> \<le> len" by simp
    finally show ?thesis using len(2) by (simp add: thread_data_def Let_def)
  qed
  then have "\<forall>i \<in> set [0..<n]. end_index (thread_data len n i) \<le> length arr" by simp
  from mt_start_ok [OF this len(3)] segments_tile [OF n len(2)] obtain locals where
    start: "mt_start arr len n [0..<n] = Inr (map (\<lambda>l. \<lparr>t_local = l, t_pc = Testing 0\<rparr>) locals)"
    and l: "\<forall>l \<in> set locals. length l = 256"
    and total: "\<forall>v < 256. sum_list (map (\<lambda>l. l ! v) locals) = value_count (take len arr) v"
    by auto
  have "value_count (take len arr) v < 2 ^ 64" for v
    using count_le_length [of "map unat (take len arr)" v] len(3) by (simp add: value_count_def)
  then have loc: "locals_ok locals" using l total by (simp add: locals_ok_def)
  have nthreads: "length locals = n" 
  proof -
    have "length ths = length is" if "mt_start arr len n is = Inr ths" for "is" ths
      using that by (induction "is" arbitrary: ths) (auto simp: bindE_Inr_iff Let_def)
    then show ?thesis using start by force
  qed
  have outcome: "MTCountingSort True True created ts (Some arr) len n =
      (if mt_done (mt_run ts (mt_initial locals)) then Inr (sort (take len arr) @ drop len arr, 0) else Inl Out_of_fuel)" for ts
  proof -
    let ?c = "mt_run ts (mt_initial locals)"
    have inv: "mt_inv locals ?c" by (intro mt_reach_inv [OF _ loc] mt_run_reach mt_reach.start)
    have fill: "MTCountingSort_fill (m_count ?c) [0..<256] arr 0 = Inr (sort (take len arr) @ drop len arr)" if "mt_done ?c"
    proof -
      let ?r = "run_of (m_count ?c) [0..<256]"
      have "value_count ?r v = value_count (take len arr) v" if "v < 256" for v
        using mt_done_count [OF inv \<open>mt_done ?c\<close> that] that total by (simp add: run_of_count del: upt_Suc)
      then have ms: "mset ?r = mset (take len arr)" by (intro value_count_mset) blast
      then have "?r = sort (take len arr)" using run_of_sorted [of 256] by (intro properties_for_sort [symmetric]) simp_all
      moreover have "length ?r = len" using ms len(2) by (metis length_take min_absorb2 size_mset)
      ultimately show ?thesis
        using MTCountingSort_fill_ok [of "[0..<256]" "m_count ?c" 0 arr] inv len(2) by (simp add: mt_inv_def del: upt_Suc)
    qed
    show ?thesis using n len(1) created start fill
      by (simp add: MTCountingSort_def mt_initial_def list_all_length del: upt_Suc)
  qed
  then show "MTCountingSort True True created schedule (Some arr) len n \<in>
      {Inr (sort (take len arr) @ drop len arr, 0), Inl Out_of_fuel}" by simp
  let ?c = "mt_run schedule (mt_initial locals)"
  have c: "mt_inv locals ?c" "total_work ?c \<le> total_work (mt_initial locals)" using mt_run_inv [OF mt_inv_initial loc] by auto
  obtain ts where ts: "length ts \<le> total_work ?c" "mt_done (mt_run ts ?c)" using mt_finishes [OF c(1) loc] by blast
  have "total_work (mt_initial locals) = 1281 * n"
    by (simp add: total_work_def mt_initial_def comp_def sum_list_triv nthreads)
  then show "\<exists>rest. length rest \<le> 1281 * n \<and>
      MTCountingSort True True created (schedule @ rest) (Some arr) len n = Inr (sort (take len arr) @ drop len arr, 0)"
    using ts c(2) outcome by (intro exI [of _ ts]) (auto simp: mt_run_append)
qed

text \<open>
  Failures: without memory or without a thread the call answers -1 and leaves the array; no threads at
  all divides by zero before the assertion that forbids it.
\<close>

lemma MTCountingSort_fails:
  "0 < n \<Longrightarrow> 0 < len \<Longrightarrow> \<not> (ok1 \<and> ok2 \<and> (\<forall>i < n. created i)) \<Longrightarrow>
     MTCountingSort ok1 ok2 created schedule (Some arr) len n = Inr (arr, -1)"
  "MTCountingSort ok1 ok2 created schedule buf len 0 = Inl Div_by_zero"
  by (auto simp: MTCountingSort_def list_all_length)

text \<open>
  A file of known size that is read in full is answered with its terminator; a file that cannot be
  measured, as a terminal or a pipe, is read into a buffer without bytes.
\<close>

lemma CountingReadDictionary_cases:
  "length contents < 2 ^ 63 \<Longrightarrow>
     CountingReadDictionary (Some contents) (int (length contents)) True (length contents) len =
       Inr (length contents, Some (contents @ [0]))"
  "0 < bytes_read \<Longrightarrow> CountingReadDictionary (Some contents) (-1) True bytes_read len = Inl Bad_access"
  by (simp_all add: CountingReadDictionary_def szadd_def Let_def zmod_minus1)

end
