(* ===== verification/MT_Quick.thy ===== *)
theory MT_Quick
  imports Arrays
begin

text \<open>
  The sort of an array of strings in \<open>projects/sorting/src/mt_q_sort.c\<close>: threads sort the chunks of the
  array with \<open>qsort\<close>, then the sorted parts are merged bottom up; with the functions that build the
  array from a buffer of lines. \<open>MTQuickSort_ok\<close> shows that the array is sorted in whichever order the
  threads work, \<open>MTQuickSort_stuck\<close> that with more threads than strings the merging never ends.
\<close>

section \<open>Definitions\<close>

text \<open>
  The array holds pointers; \<open>str p\<close> is the string at \<open>p\<close>, without its terminator. \<open>strcmp\<close> is the
  standard library's: bytes compare unsigned, only the sign counts.
\<close>

fun strcmp :: "byte list \<Rightarrow> byte list \<Rightarrow> int" where
  "strcmp [] [] = 0"
| "strcmp [] (y # ys) = -1"
| "strcmp (x # xs) [] = 1"
| "strcmp (x # xs) (y # ys) = (if x = y then strcmp xs ys else if x < y then -1 else 1)"

definition StringCompare :: "(ptr \<Rightarrow> byte list) \<Rightarrow> ptr \<Rightarrow> ptr \<Rightarrow> int" where
  "StringCompare str a b = strcmp (str a) (str b)"

record sort_data_t =
  start_index :: nat
  end_index :: nat

definition sort_data :: "nat \<Rightarrow> nat \<Rightarrow> nat \<Rightarrow> sort_data_t" where
  "sort_data len num_of_threads i =
     (let chunk_size = len div num_of_threads
      in \<lparr>start_index = i * chunk_size, end_index = (if i = num_of_threads - 1 then len else (i + 1) * chunk_size)\<rparr>)"

text \<open>\<open>qsort\<close> of the standard library: its comparison and the window it works on.\<close>

type_synonym qsort_fun = "(ptr \<Rightarrow> ptr \<Rightarrow> int) \<Rightarrow> ptr list \<Rightarrow> ptr list"

definition ThreadSort :: "qsort_fun \<Rightarrow> (ptr \<Rightarrow> byte list) \<Rightarrow> sort_data_t \<Rightarrow> ptr list \<Rightarrow> ptr list result" where
  "ThreadSort qsort str d arr =
     (let chunk_length = szsub (end_index d) (start_index d)
      in if start_index d + chunk_length \<le> length arr
         then Inr (take (start_index d) arr @ qsort (StringCompare str) (slice arr (start_index d) (start_index d + chunk_length)) @
                   drop (start_index d + chunk_length) arr)
         else Inl Bad_access)"

text \<open>The threads touch disjoint chunks: a run of them is the order in which they do their work.\<close>

fun ThreadSort_all :: "qsort_fun \<Rightarrow> (ptr \<Rightarrow> byte list) \<Rightarrow> nat \<Rightarrow> nat \<Rightarrow> nat list \<Rightarrow> ptr list \<Rightarrow> ptr list result" where
  "ThreadSort_all qsort str len num_of_threads [] arr = Inr arr"
| "ThreadSort_all qsort str len num_of_threads (i # is) arr =
     bindE (ThreadSort qsort str (sort_data len num_of_threads i) arr) (ThreadSort_all qsort str len num_of_threads is)"

text \<open>The cells of \<open>temp\<close> written so far; a cell outside the allocated ones is a fault.\<close>

definition put_temp :: "nat \<Rightarrow> ptr list \<Rightarrow> ptr \<Rightarrow> ptr list result" where
  "put_temp cells temp x = (if length temp < cells then Inr (temp @ [x]) else Inl Bad_access)"

function Merge_rest :: "nat \<Rightarrow> ptr list \<Rightarrow> nat \<Rightarrow> nat \<Rightarrow> ptr list \<Rightarrow> ptr list result" where
  "Merge_rest cells arr i e temp =
     (if i < e
      then bindE (aget arr i) (\<lambda>x. bindE (put_temp cells temp x) (\<lambda>temp. Merge_rest cells arr (i + 1) e temp))
      else Inr temp)"
  by pat_completeness auto

termination
  by (relation "measure (\<lambda>(cells, arr, i, e, temp). e - i)") auto

function Merge_loop :: "(ptr \<Rightarrow> byte list) \<Rightarrow> nat \<Rightarrow> ptr list \<Rightarrow> nat \<Rightarrow> nat \<Rightarrow> nat \<Rightarrow> nat \<Rightarrow> ptr list \<Rightarrow> ptr list result" where
  "Merge_loop str cells arr i mid j e temp =
     (if i < mid \<and> j < e
      then bindE (aget arr i) (\<lambda>x. bindE (aget arr j) (\<lambda>y.
           if strcmp (str x) (str y) \<le> 0
           then bindE (put_temp cells temp x) (\<lambda>temp. Merge_loop str cells arr (i + 1) mid j e temp)
           else bindE (put_temp cells temp y) (\<lambda>temp. Merge_loop str cells arr i mid (j + 1) e temp)))
      else bindE (Merge_rest cells arr i mid temp) (Merge_rest cells arr j e))"
  by pat_completeness auto

termination
  by (relation "measure (\<lambda>(str, cells, arr, i, mid, j, e, temp). (mid - i) + (e - j))") auto

declare Merge_rest.simps [simp del]
declare Merge_loop.simps [simp del]

fun Merge_back :: "nat \<Rightarrow> ptr list \<Rightarrow> nat list \<Rightarrow> ptr list \<Rightarrow> ptr list result" where
  "Merge_back start temp [] arr = Inr arr"
| "Merge_back start temp (i # is) arr =
     bindE (aget temp i) (\<lambda>x. bindE (aset arr (start + i) x) (Merge_back start temp is))"

text \<open>\<open>ok\<close> is whether \<open>malloc\<close> found memory; if not, the parts stay as they are.\<close>

definition Merge :: "bool \<Rightarrow> (ptr \<Rightarrow> byte list) \<Rightarrow> ptr list \<Rightarrow> nat \<Rightarrow> nat \<Rightarrow> nat \<Rightarrow> ptr list result" where
  "Merge ok str arr start mid e =
     (if \<not> ok then Inr arr
      else bindE (Merge_loop str (szsub e start) arr start mid mid e []) (\<lambda>temp.
           Merge_back start temp [0..<szsub e start] arr))"

text \<open>The loops of \<open>MergeSortedParts\<close>; \<open>oks k\<close> answers the \<open>k\<close>-th \<open>malloc\<close> of the merging.\<close>

fun MergeSortedParts_for :: "nat \<Rightarrow> (nat \<Rightarrow> bool) \<Rightarrow> (ptr \<Rightarrow> byte list) \<Rightarrow> nat \<Rightarrow> nat \<Rightarrow> nat \<Rightarrow> nat \<Rightarrow> ptr list \<Rightarrow>
    (ptr list \<times> nat) result" where
  "MergeSortedParts_for 0 oks str len step i k arr = Inl Out_of_fuel"
| "MergeSortedParts_for (Suc fuel) oks str len step i k arr =
     (if szadd i step < len
      then let mid = szadd i step;
               e = (if szadd i (szmul 2 step) < len then szadd i (szmul 2 step) else len)
           in bindE (Merge (oks k) str arr i mid e)
                (MergeSortedParts_for fuel oks str len step (szadd i (szmul 2 step)) (k + 1))
      else Inr (arr, k))"

fun MergeSortedParts_while :: "nat \<Rightarrow> nat \<Rightarrow> (nat \<Rightarrow> bool) \<Rightarrow> (ptr \<Rightarrow> byte list) \<Rightarrow> nat \<Rightarrow> nat \<Rightarrow> nat \<Rightarrow> ptr list \<Rightarrow> ptr list result" where
  "MergeSortedParts_while rounds 0 oks str len step k arr = Inl Out_of_fuel"
| "MergeSortedParts_while rounds (Suc fuel) oks str len step k arr =
     (if step < len
      then bindE (MergeSortedParts_for rounds oks str len step 0 k arr) (\<lambda>(arr, k).
           MergeSortedParts_while rounds fuel oks str len (szmul step 2) k arr)
      else Inr arr)"

definition MergeSortedParts :: "nat \<Rightarrow> (nat \<Rightarrow> bool) \<Rightarrow> (ptr \<Rightarrow> byte list) \<Rightarrow> ptr list \<Rightarrow> nat \<Rightarrow> nat \<Rightarrow> ptr list result" where
  "MergeSortedParts fuel oks str arr len num_of_threads =
     bindE (assertE (0 < num_of_threads)) (\<lambda>_.
     if num_of_threads = 1 then Inr arr
     else MergeSortedParts_while fuel fuel oks str len (len div num_of_threads) 0 arr)"

text \<open>The answers of the two \<open>malloc\<close> calls and of each \<open>pthread_create\<close> are arguments.\<close>

definition MTQuickSort :: "nat \<Rightarrow> bool \<Rightarrow> bool \<Rightarrow> (nat \<Rightarrow> bool) \<Rightarrow> nat list \<Rightarrow> (nat \<Rightarrow> bool) \<Rightarrow> qsort_fun \<Rightarrow> (ptr \<Rightarrow> byte list) \<Rightarrow>
    ptr list option \<Rightarrow> nat \<Rightarrow> nat \<Rightarrow> (ptr list \<times> int) result" where
  "MTQuickSort fuel ok1 ok2 created order oks qsort str arr len num_of_threads =
     (case arr of
        None \<Rightarrow> Inl Assert_failed
      | Some arr \<Rightarrow>
          bindE (assertE (0 < num_of_threads)) (\<lambda>_. bindE (assertE (0 < len)) (\<lambda>_.
          if \<not> ok1 then Inr (arr, -1)
          else if \<not> ok2 then Inr (arr, -1)
          else if \<not> list_all created [0..<num_of_threads] then Inr (arr, -1)
          else bindE (ThreadSort_all qsort str len num_of_threads order arr) (\<lambda>arr.
               bindE (MergeSortedParts fuel oks str arr len num_of_threads) (\<lambda>arr. Inr (arr, 0))))))"

text \<open>
  Lines to strings: a pointer into the buffer is an offset, \<open>None\<close> stands for NULL. \<open>CreateArrayPointers\<close>
  takes and answers the buffer and the number of words (\<open>None\<close> when there is nowhere to put it), and
  answers the array.
\<close>

fun CreateArrayPointers_count :: "byte list \<Rightarrow> nat list \<Rightarrow> bool \<Rightarrow> nat \<Rightarrow> nat result" where
  "CreateArrayPointers_count buffer [] in_word cnt = Inr cnt"
| "CreateArrayPointers_count buffer (i # is) in_word cnt =
     bindE (aget buffer i) (\<lambda>c.
     if c \<noteq> 10
     then CreateArrayPointers_count buffer is True (if \<not> in_word then cnt + 1 else cnt)
     else CreateArrayPointers_count buffer is False cnt)"

fun CreateArrayPointers_fill :: "byte list \<Rightarrow> nat list \<Rightarrow> bool \<Rightarrow> nat option list \<Rightarrow> nat \<Rightarrow>
    (byte list \<times> nat option list \<times> nat) result" where
  "CreateArrayPointers_fill buffer [] in_word ptrs j = Inr (buffer, ptrs, j)"
| "CreateArrayPointers_fill buffer (i # is) in_word ptrs j =
     bindE (aget buffer i) (\<lambda>c.
     if c = 10
     then bindE (aset buffer i 0) (\<lambda>buffer. CreateArrayPointers_fill buffer is False ptrs j)
     else if \<not> in_word
     then bindE (aset ptrs j (Some i)) (\<lambda>ptrs. CreateArrayPointers_fill buffer is True ptrs (j + 1))
     else CreateArrayPointers_fill buffer is True ptrs j)"

definition CreateArrayPointers :: "bool \<Rightarrow> (nat \<Rightarrow> nat option) \<Rightarrow> byte list option \<Rightarrow> nat \<Rightarrow> nat option \<Rightarrow>
    (byte list option \<times> nat option \<times> nat option list option) result" where
  "CreateArrayPointers ok junk buffer len num_of_words =
     (case buffer of
        None \<Rightarrow> Inr (buffer, num_of_words, None)
      | Some buf \<Rightarrow>
          if num_of_words = None then Inr (buffer, num_of_words, None)
          else if len = 0 then Inr (buffer, Some 0, if ok then Some [None] else None)
          else bindE (CreateArrayPointers_count buf [0..<len] False 0) (\<lambda>cnt.
               if \<not> ok then Inr (buffer, Some 0, None)
               else bindE (CreateArrayPointers_fill buf [0..<len] False (map junk [0..<cnt + 1]) 0) (\<lambda>(buf, ptrs, j).
                    bindE (aset ptrs j None) (\<lambda>ptrs. Inr (Some buf, Some j, Some ptrs)))))"

fun DuplicatePointers_copy :: "ptr list \<Rightarrow> nat \<Rightarrow> nat list \<Rightarrow> ptr list \<Rightarrow> ptr list result" where
  "DuplicatePointers_copy original offset [] duplicated = Inr duplicated"
| "DuplicatePointers_copy original offset (i # is) duplicated =
     bindE (aget original i) (\<lambda>x.
     bindE (aset duplicated (szadd offset i) x) (DuplicatePointers_copy original offset is))"

fun DuplicatePointers_loop :: "ptr list \<Rightarrow> nat \<Rightarrow> nat list \<Rightarrow> ptr list \<Rightarrow> ptr list result" where
  "DuplicatePointers_loop original num_of_words [] duplicated = Inr duplicated"
| "DuplicatePointers_loop original num_of_words (copy # copies) duplicated =
     bindE (DuplicatePointers_copy original (szmul copy num_of_words) [0..<num_of_words] duplicated)
       (DuplicatePointers_loop original num_of_words copies)"

text \<open>\<open>malloc\<close> is asked for bytes: a request that wrapped gives fewer cells than are written.\<close>

definition DuplicatePointers :: "bool \<Rightarrow> (nat \<Rightarrow> ptr) \<Rightarrow> ptr list \<Rightarrow> nat \<Rightarrow> nat \<Rightarrow> (nat \<times> ptr list option) result" where
  "DuplicatePointers ok junk original num_of_words num_of_copies =
     bindE (assertE (0 < num_of_copies)) (\<lambda>_.
     let total_words = szmul num_of_words num_of_copies
     in if \<not> ok then Inr (total_words, None)
        else let cells = szmul (szadd total_words 1) 8 div 8
             in bindE (DuplicatePointers_loop original num_of_words [0..<num_of_copies] (map junk [0..<cells])) (\<lambda>duplicated.
                bindE (aset duplicated total_words NULL) (\<lambda>duplicated. Inr (total_words, Some duplicated))))"

text \<open>
  The file's contents, what \<open>ftell\<close> says and how many bytes \<open>fread\<close> delivers belong to the system.
\<close>

definition ReadDictionary :: "byte list option \<Rightarrow> int \<Rightarrow> bool \<Rightarrow> nat \<Rightarrow> nat \<Rightarrow> nat \<times> byte list option" where
  "ReadDictionary file_data file_size ok bytes_read num_of_words =
     (case file_data of
        None \<Rightarrow> (num_of_words, None)
      | Some contents \<Rightarrow>
          if file_size < 0 then (num_of_words, None)
          else let num_of_words = nat file_size
               in if \<not> ok then (num_of_words, None)
                  else if bytes_read \<noteq> num_of_words then (num_of_words, None)
                  else (num_of_words, Some (take num_of_words contents @ [0])))"

section \<open>The order of strings\<close>

lemma strcmp_self [simp]: "strcmp xs xs = 0"
  by (induction xs) simp_all

lemma strcmp_flip: "strcmp xs ys = - strcmp ys xs"
  by (induction xs ys rule: strcmp.induct) auto

lemma strcmp_Nil [simp]: "strcmp [] zs \<le> 0"
  by (cases zs) simp_all

lemma strcmp_trans: "strcmp xs ys \<le> 0 \<Longrightarrow> strcmp ys zs \<le> 0 \<Longrightarrow> strcmp xs zs \<le> 0"
proof (induction xs ys arbitrary: zs rule: strcmp.induct)
  case (4 x xs y ys)
  then show ?case by (cases zs) (auto split: if_splits)
qed (auto elim: strcmp.elims)

lemma strcmp_zero: "strcmp xs ys = 0 \<longleftrightarrow> xs = ys"
  by (induction xs ys rule: strcmp.induct) auto

definition sle :: "(ptr \<Rightarrow> byte list) \<Rightarrow> ptr \<Rightarrow> ptr \<Rightarrow> bool" where
  "sle str a b \<longleftrightarrow> strcmp (str a) (str b) \<le> 0"

lemma sle_trans: "sle str a b \<Longrightarrow> sle str b c \<Longrightarrow> sle str a c"
  unfolding sle_def by (rule strcmp_trans)

lemma sle_total: "\<not> sle str a b \<Longrightarrow> sle str b a"
  using strcmp_flip [of "str a" "str b"] by (simp add: sle_def)

text \<open>What \<open>qsort\<close> is documented to do with a consistent comparison: sort the window it is given.\<close>

definition qsort_sorts :: "qsort_fun \<Rightarrow> (ptr \<Rightarrow> byte list) \<Rightarrow> bool" where
  "qsort_sorts qsort str \<longleftrightarrow> (\<forall>xs. mset (qsort (StringCompare str) xs) = mset xs \<and>
     sorted_wrt (sle str) (qsort (StringCompare str) xs))"

section \<open>Merging\<close>

fun merge_by :: "(ptr \<Rightarrow> ptr \<Rightarrow> bool) \<Rightarrow> ptr list \<Rightarrow> ptr list \<Rightarrow> ptr list" where
  "merge_by le [] ys = ys"
| "merge_by le xs [] = xs"
| "merge_by le (x # xs) (y # ys) = (if le x y then x # merge_by le xs (y # ys) else y # merge_by le (x # xs) ys)"

lemma merge_by_mset: "mset (merge_by le xs ys) = mset xs + mset ys"
  by (induction le xs ys rule: merge_by.induct) auto

lemma merge_by_set: "set (merge_by le xs ys) = set xs \<union> set ys"
  by (induction le xs ys rule: merge_by.induct) auto

lemma merge_by_length: "length (merge_by le xs ys) = length xs + length ys"
  by (induction le xs ys rule: merge_by.induct) auto

lemma merge_by_sorted:
  assumes "sorted_wrt (sle str) xs" "sorted_wrt (sle str) ys"
  shows "sorted_wrt (sle str) (merge_by (sle str) xs ys)"
  using assms
proof (induction "sle str" xs ys rule: merge_by.induct)
  case (3 x xs y ys)
  then show ?case using sle_total [of str x y] by (auto simp: merge_by_set intro: sle_trans)
qed auto

lemma merge_by_Nil2 [simp]: "merge_by le xs [] = xs"
  by (cases xs) auto

lemma MT_Merge_rest_ok:
  "e \<le> length arr \<Longrightarrow> length temp + (e - i) \<le> cells \<Longrightarrow> Merge_rest cells arr i e temp = Inr (temp @ slice arr i e)"
proof (induction cells arr i e temp rule: Merge_rest.induct)
  case (1 cells arr i e temp)
  show ?case
  proof (cases "i < e")
    case True
    then have "Merge_rest cells arr (i + 1) e (temp @ [arr ! i]) = Inr ((temp @ [arr ! i]) @ slice arr (i + 1) e)"
      using 1 by (intro "1.IH") (auto simp: put_temp_def)
    then show ?thesis using True 1 by (simp add: Merge_rest.simps [of cells arr i] put_temp_def slice_Cons)
  qed (simp add: Merge_rest.simps [of cells arr i])
qed

lemma Merge_loop_ok:
  "mid \<le> length arr \<Longrightarrow> e \<le> length arr \<Longrightarrow> length temp + (mid - i) + (e - j) \<le> cells \<Longrightarrow>
   Merge_loop str cells arr i mid j e temp = Inr (temp @ merge_by (sle str) (slice arr i mid) (slice arr j e))"
proof (induction str cells arr i mid j e temp rule: Merge_loop.induct)
  case (1 str cells arr i mid j e temp)
  note step = Merge_loop.simps [of str cells arr i]
  show ?case
  proof (cases "i < mid \<and> j < e")
    case False
    then have "slice arr i mid = [] \<or> slice arr j e = []" using 1 by auto
    moreover have "Merge_loop str cells arr i mid j e temp = Inr (temp @ slice arr i mid @ slice arr j e)"
      using False 1 MT_Merge_rest_ok [of mid arr temp i cells] MT_Merge_rest_ok [of e arr "temp @ slice arr i mid" j cells]
      by (auto simp: step)
    ultimately show ?thesis by auto
  next
    case True
    have sl: "slice arr i mid = arr ! i # slice arr (i + 1) mid" "slice arr j e = arr ! j # slice arr (j + 1) e"
      using True 1 by (simp_all add: slice_Cons)
    have fit: "length temp < cells" "i < length arr" "j < length arr" using True "1.prems" by linarith+
    have cmp: "strcmp (str (arr ! i)) (str (arr ! j)) \<le> 0 \<longleftrightarrow> sle str (arr ! i) (arr ! j)" by (simp add: sle_def)
    show ?thesis
    proof (cases "sle str (arr ! i) (arr ! j)")
      case le: True
      have "Merge_loop str cells arr (i + 1) mid j e (temp @ [arr ! i]) =
          Inr ((temp @ [arr ! i]) @ merge_by (sle str) (slice arr (i + 1) mid) (slice arr j e))"
        using "1.prems" True le by (intro "1.IH"(1)) (auto simp: put_temp_def sle_def)
      then show ?thesis using True le fit by (simp add: step put_temp_def cmp sl)
    next
      case gt: False
      have "Merge_loop str cells arr i mid (j + 1) e (temp @ [arr ! j]) =
          Inr ((temp @ [arr ! j]) @ merge_by (sle str) (slice arr i mid) (slice arr (j + 1) e))"
        using "1.prems" True gt by (intro "1.IH"(2)) (auto simp: put_temp_def sle_def)
      then show ?thesis using True gt fit by (simp add: step put_temp_def cmp sl)
    qed
  qed
qed

lemma Merge_back_ok:
  "n \<le> length temp \<Longrightarrow> start + n \<le> length arr \<Longrightarrow>
   Merge_back start temp [0..<n] arr = Inr (take start arr @ take n temp @ drop (start + n) arr)"
proof (induction n)
  case (Suc n)
  have app: "Merge_back start temp (xs @ ys) a = bindE (Merge_back start temp xs a) (Merge_back start temp ys)" for xs ys a
    by (induction xs arbitrary: a) (simp_all add: bindE_assoc cong: bindE_cong)
  have "drop (start + n) arr = arr ! (start + n) # drop (start + Suc n) arr" using Suc.prems by (simp add: Cons_nth_drop_Suc)
  then show ?case using Suc by (simp add: app list_update_append take_Suc_conv_app_nth min_def)
qed simp

lemma MT_Merge_ok:
  assumes "start \<le> mid" "mid \<le> e" "e \<le> length arr"
  shows "Merge True str arr start mid e =
    Inr (take start arr @ merge_by (sle str) (slice arr start mid) (slice arr mid e) @ drop e arr)"
proof -
  let ?m = "merge_by (sle str) (slice arr start mid) (slice arr mid e)"
  have "Merge_loop str (e - start) arr start mid mid e [] = Inr ([] @ ?m)" using assms by (intro Merge_loop_ok) auto
  moreover have "length ?m = e - start" using assms by (simp add: merge_by_length)
  ultimately show ?thesis using Merge_back_ok [of "e - start" ?m start arr] assms by (simp add: Merge_def)
qed

text \<open>
  A window is in order; the elements are in blocks of \<open>s\<close> that are in order. Positions of one block
  have the same quotient by \<open>s\<close>.
\<close>

definition ordered :: "(ptr \<Rightarrow> byte list) \<Rightarrow> nat \<Rightarrow> nat \<Rightarrow> ptr list \<Rightarrow> bool" where
  "ordered str a b arr \<longleftrightarrow> sorted_wrt (sle str) (slice arr a b)"

definition blocks :: "(ptr \<Rightarrow> byte list) \<Rightarrow> nat \<Rightarrow> nat \<Rightarrow> nat \<Rightarrow> ptr list \<Rightarrow> bool" where
  "blocks str s a b arr \<longleftrightarrow> (\<forall>p q. a \<le> p \<and> p < q \<and> q < b \<and> p div s = q div s \<longrightarrow> sle str (arr ! p) (arr ! q))"

lemma ordered_iff:
  "b \<le> length arr \<Longrightarrow> ordered str a b arr \<longleftrightarrow> (\<forall>p q. a \<le> p \<and> p < q \<and> q < b \<longrightarrow> sle str (arr ! p) (arr ! q))"
proof -
  assume b: "b \<le> length arr"
  show ?thesis
  proof
    assume o: "ordered str a b arr"
    show "\<forall>p q. a \<le> p \<and> p < q \<and> q < b \<longrightarrow> sle str (arr ! p) (arr ! q)"
    proof (intro allI impI)
      fix p q assume pq: "a \<le> p \<and> p < q \<and> q < b"
      then have "sle str (slice arr a b ! (p - a)) (slice arr a b ! (q - a))"
        using o b by (intro sorted_wrt_nth_less [of "sle str"]) (auto simp: ordered_def)
      then show "sle str (arr ! p) (arr ! q)" using pq b by (simp add: nth_slice)
    qed
  next
    assume "\<forall>p q. a \<le> p \<and> p < q \<and> q < b \<longrightarrow> sle str (arr ! p) (arr ! q)"
    then show "ordered str a b arr" using b by (auto simp: ordered_def sorted_wrt_iff_nth_less nth_slice)
  qed
qed

lemma Merge_window:
  assumes "a \<le> mid" "mid \<le> e" "e \<le> length arr" "ordered str a mid arr" "ordered str mid e arr"
  shows "\<exists>arr'. Merge True str arr a mid e = Inr arr' \<and> perm_within a e arr arr' \<and> ordered str a e arr'"
proof -
  let ?m = "merge_by (sle str) (slice arr a mid) (slice arr mid e)"
  let ?arr = "take a arr @ ?m @ drop e arr"
  have len: "length ?m = e - a" "length ?arr = length arr" using assms by (simp_all add: merge_by_length)
  have "take a arr @ slice arr a e @ drop e arr = arr" using assms(1-3) by (intro split3) auto
  then have "mset arr = mset (take a arr @ slice arr a e @ drop e arr)" by (simp only:)
  moreover have "slice arr a e = slice arr a mid @ slice arr mid e" using slice_append [OF assms(1,2)] ..
  ultimately have "mset ?arr = mset arr" by (simp add: merge_by_mset)
  moreover have "?arr ! k = arr ! k" if "k < length arr" "k < a \<or> e \<le> k" for k
    using that assms len by (auto simp: nth_append min_def)
  moreover have "slice ?arr a e = ?m" using assms len by (simp add: slice_def min_def)
  then have "ordered str a e ?arr" using merge_by_sorted assms(4,5) by (simp add: ordered_def)
  ultimately show ?thesis using MT_Merge_ok [OF assms(1-3)] len by (auto simp: perm_within_def)
qed

lemma quotient_in: "a * s \<le> p \<Longrightarrow> p < a * s + s \<Longrightarrow> p div s = (a :: nat)"
  by (rule div_nat_eqI) (simp_all add: mult.commute)

lemma quotient_across: "p < m * t \<Longrightarrow> m * t \<le> q \<Longrightarrow> p div t \<noteq> q div (t :: nat)"
proof -
  assume p: "p < m * t" and q: "m * t \<le> q"
  have "0 < t" using p by (cases t) auto
  then have "m \<le> q div t" using div_le_mono [OF q, of t] by simp
  then show ?thesis using less_mult_imp_div_less [OF p] by simp
qed

lemma MergeSortedParts_for_ok:
  assumes "0 < s" "s < len" "len < 2 ^ 61" "\<forall>k. oks k"
  shows "len \<le> length arr \<Longrightarrow> i = m * (2 * s) \<Longrightarrow> i < len + 2 * s \<Longrightarrow> len - i < fuel \<Longrightarrow>
    blocks str (2 * s) 0 (min i len) arr \<Longrightarrow> blocks str s (min i len) len arr \<Longrightarrow>
    \<exists>arr' k'. MergeSortedParts_for fuel oks str len s i k arr = Inr (arr', k') \<and> perm_within 0 len arr arr' \<and>
      blocks str (2 * s) 0 len arr'"
proof (induction fuel arbitrary: i k m arr)
  case 0
  then show ?case by simp
next
  case (Suc fuel)
  have small: "szadd i s = i + s" "szmul 2 s = 2 * s" "szadd i (2 * s) = i + 2 * s"
    using assms(2,3) Suc.prems(3) by simp_all
  show ?case
  proof (cases "i + s < len")
    case False
    have "sle str (arr ! p) (arr ! q)" if "p < q" "q < len" "p div (2 * s) = q div (2 * s)" for p q
    proof -
      consider "q < i" | "p < i" "i \<le> q" | "i \<le> p" by linarith
      then show ?thesis
      proof cases
        case 1
        then show ?thesis using Suc.prems(5) that by (auto simp: blocks_def)
      next
        case 2
        then show ?thesis using quotient_across [of p m "2 * s" q] Suc.prems(2) that(3) by simp
      next
        case 3
        then have "p div s = 2 * m" "q div s = 2 * m" using that False Suc.prems(2) by (auto intro!: quotient_in)
        then show ?thesis using Suc.prems(6) 3 that by (auto simp: blocks_def)
      qed
    qed
    then show ?thesis using False small by (auto simp: blocks_def)
  next
    case True
    let ?e = "min (i + 2 * s) len"
    have elen: "?e \<le> length arr" using Suc.prems(1) by (simp add: min.coboundedI2)
    have "ordered str i (i + s) arr"
    proof (subst ordered_iff, use True Suc.prems(1) in simp, intro allI impI)
      fix p q assume pq: "i \<le> p \<and> p < q \<and> q < i + s"
      then have "p div s = 2 * m" "q div s = 2 * m" using Suc.prems(2) by (auto intro!: quotient_in)
      then show "sle str (arr ! p) (arr ! q)" using Suc.prems(6) pq True by (auto simp: blocks_def)
    qed
    moreover have "ordered str (i + s) ?e arr"
    proof (subst ordered_iff, use Suc.prems(1) in simp, intro allI impI)
      fix p q assume pq: "i + s \<le> p \<and> p < q \<and> q < ?e"
      then have "p div s = 2 * m + 1" "q div s = 2 * m + 1" using Suc.prems(2) by (auto intro!: quotient_in)
      then show "sle str (arr ! p) (arr ! q)" using Suc.prems(6) pq True by (auto simp: blocks_def)
    qed
    ultimately obtain arr1 where arr1: "Merge True str arr i (i + s) ?e = Inr arr1" "perm_within i ?e arr arr1" "ordered str i ?e arr1"
      using Merge_window [OF _ _ elen, of i "i + s" str] True by auto
    have len: "length arr1 = length arr" using arr1(2) by (rule perm_within_length)
    have same: "arr1 ! p = arr ! p" if "p < i \<or> ?e \<le> p" "p < len" for p
      using arr1(2) that Suc.prems(1) by (auto simp: perm_within_def)
    have o: "\<And>p q. i \<le> p \<Longrightarrow> p < q \<Longrightarrow> q < ?e \<Longrightarrow> sle str (arr1 ! p) (arr1 ! q)"
      using arr1(3) ordered_iff [of ?e arr1 str i] len Suc.prems(1) by auto
    have "blocks str (2 * s) 0 ?e arr1"
      unfolding blocks_def
    proof (intro allI impI, elim conjE)
      fix p q assume pq: "p < q" "q < ?e" "p div (2 * s) = q div (2 * s)"
      consider "q < i" | "p < i" "i \<le> q" | "i \<le> p" by linarith
      then show "sle str (arr1 ! p) (arr1 ! q)"
      proof cases
        case 1
        then show ?thesis using Suc.prems(5) pq same [of p] same [of q] by (auto simp: blocks_def)
      next
        case 2
        then show ?thesis using quotient_across [of p m "2 * s" q] Suc.prems(2) pq(3) by simp
      next
        case 3
        then show ?thesis using o pq by blast
      qed
    qed
    moreover have "blocks str s ?e len arr1"
      using Suc.prems(6) same True by (auto simp: blocks_def)
    moreover have "len - (i + 2 * s) < fuel" using Suc.prems(4) True assms(1) by linarith
    ultimately obtain arr2 k2 where "MergeSortedParts_for fuel oks str len s (i + 2 * s) (k + 1) arr1 = Inr (arr2, k2)"
      "perm_within 0 len arr1 arr2" "blocks str (2 * s) 0 len arr2"
      using Suc.IH [of arr1 "i + 2 * s" "m + 1" "k + 1"] Suc.prems True len assms(1) by auto
    moreover have "perm_within 0 len arr arr1" using arr1(2) by (rule perm_within_mono) auto
    moreover have "MergeSortedParts_for (Suc fuel) oks str len s i k arr = Inr (arr2, k2)"
    proof -
      have "(if i + 2 * s < len then i + 2 * s else len) = ?e" by (simp add: min_def)
      note m = arr1(1) [folded this]
      then show ?thesis using calculation(1) spec [OF assms(4), of k] True small
        by (cases "i + 2 * s < len") (simp_all add: Let_def)
    qed
    ultimately show ?thesis by (blast intro: perm_within_trans)
  qed
qed

lemma MergeSortedParts_while_ok:
  assumes "len < 2 ^ 61" "\<forall>k. oks k" "len < rounds"
  shows "0 < s \<Longrightarrow> len \<le> length arr \<Longrightarrow> len - s < fuel \<Longrightarrow> blocks str s 0 len arr \<Longrightarrow>
    \<exists>arr'. MergeSortedParts_while rounds fuel oks str len s k arr = Inr arr' \<and> perm_within 0 len arr arr' \<and> ordered str 0 len arr'"
proof (induction fuel arbitrary: s k arr)
  case 0
  then show ?case by simp
next
  case (Suc fuel)
  show ?case
  proof (cases "s < len")
    case True
    obtain arr1 k1 where a: "MergeSortedParts_for rounds oks str len s 0 k arr = Inr (arr1, k1)" "perm_within 0 len arr arr1"
      "blocks str (2 * s) 0 len arr1"
      using MergeSortedParts_for_ok [OF Suc.prems(1) True assms(1,2), of arr 0 0 rounds str k] Suc.prems assms(3)
      by (auto simp: blocks_def)
    have "szmul s 2 = 2 * s" using True assms(1) by simp
    moreover have "len - 2 * s < fuel" using True Suc.prems(1,3) by linarith
    moreover have "length arr1 = length arr" using a(2) by (rule perm_within_length)
    ultimately show ?thesis using Suc.IH [of "2 * s" arr1 k1] Suc.prems a True by (auto intro: perm_within_trans)
  next
    case False
    then have "ordered str 0 len arr" using Suc.prems(2,4) by (auto simp: ordered_iff blocks_def)
    then show ?thesis using False by simp
  qed
qed

section \<open>The threads\<close>

lemma sort_data_bounds:
  assumes "i < n"
  shows "start_index (sort_data len n i) \<le> end_index (sort_data len n i) \<and> end_index (sort_data len n i) \<le> len"
proof -
  have "(i + 1) * (len div n) \<le> n * (len div n)" using assms by (intro mult_le_mono1) simp
  also have "\<dots> \<le> len" by simp
  finally show ?thesis by (auto simp: sort_data_def Let_def)
qed

lemma sort_data_disjoint:
  "i < j \<Longrightarrow> j < n \<Longrightarrow> end_index (sort_data len n i) \<le> start_index (sort_data len n j)"
proof -
  assume "i < j" "j < n"
  then have "(i + 1) * (len div n) \<le> j * (len div n)" by (intro mult_le_mono1) simp
  then show ?thesis using \<open>i < j\<close> \<open>j < n\<close> by (auto simp: sort_data_def Let_def)
qed

lemma ThreadSort_ok:
  assumes q: "qsort_sorts qsort str" and d: "start_index d \<le> end_index d" "end_index d \<le> length arr"
  shows "\<exists>arr'. ThreadSort qsort str d arr = Inr arr' \<and> perm_within (start_index d) (end_index d) arr arr' \<and>
    ordered str (start_index d) (end_index d) arr'"
proof -
  let ?a = "start_index d" and ?b = "end_index d"
  let ?w = "qsort (StringCompare str) (slice arr ?a ?b)"
  let ?arr = "take ?a arr @ ?w @ drop ?b arr"
  have w: "mset ?w = mset (slice arr ?a ?b)" "sorted_wrt (sle str) ?w" using q by (auto simp: qsort_sorts_def)
  have len: "length ?w = ?b - ?a" using mset_eq_length [OF w(1)] d by simp
  have "mset ?arr = mset arr" using split3 [of ?a ?b arr] d w(1) by (metis mset_append)
  moreover have "?arr ! k = arr ! k" if "k < length arr" "k < ?a \<or> ?b \<le> k" for k
    using that d len by (auto simp: nth_append min_def)
  moreover have "slice ?arr ?a ?b = ?w" using d len by (simp add: slice_def min_def)
  ultimately show ?thesis using w(2) d len by (auto simp: ThreadSort_def perm_within_def ordered_def)
qed

lemma ordered_cong:
  "b \<le> length arr \<Longrightarrow> length arr' = length arr \<Longrightarrow> \<forall>k. a \<le> k \<and> k < b \<longrightarrow> arr' ! k = arr ! k \<Longrightarrow>
   ordered str a b arr' = ordered str a b arr"
  by (simp add: ordered_iff)

lemma ThreadSort_all_ok:
  assumes q: "qsort_sorts qsort str"
  shows "distinct (ds @ is) \<Longrightarrow> \<forall>i \<in> set (ds @ is). i < n \<Longrightarrow> len \<le> length arr \<Longrightarrow>
    \<forall>i \<in> set ds. ordered str (start_index (sort_data len n i)) (end_index (sort_data len n i)) arr \<Longrightarrow>
    \<exists>arr'. ThreadSort_all qsort str len n is arr = Inr arr' \<and> perm_within 0 len arr arr' \<and>
      (\<forall>i \<in> set (ds @ is). ordered str (start_index (sort_data len n i)) (end_index (sort_data len n i)) arr')"
proof (induction "is" arbitrary: ds arr)
  case Nil
  then show ?case by auto
next
  case (Cons i "is")
  let ?d = "sort_data len n i"
  have i: "i < n" using Cons.prems(2) by simp
  note b = sort_data_bounds [OF i, of len]
  obtain a1 where a1: "ThreadSort qsort str ?d arr = Inr a1" "perm_within (start_index ?d) (end_index ?d) arr a1"
    "ordered str (start_index ?d) (end_index ?d) a1"
    using ThreadSort_ok [OF q, of ?d arr] b Cons.prems(3) by auto
  have len: "length a1 = length arr" using a1(2) by (rule perm_within_length)
  have "ordered str (start_index (sort_data len n j)) (end_index (sort_data len n j)) a1" if "j \<in> set ds" for j
  proof -
    have j: "j < n" "j \<noteq> i" using that Cons.prems(1,2) by auto
    then have "end_index (sort_data len n j) \<le> start_index ?d \<or> end_index ?d \<le> start_index (sort_data len n j)"
      using sort_data_disjoint [of j i n len] sort_data_disjoint [of i j n len] i by linarith
    moreover note sort_data_bounds [OF j(1), of len]
    ultimately have "\<forall>k. start_index (sort_data len n j) \<le> k \<and> k < end_index (sort_data len n j) \<longrightarrow> a1 ! k = arr ! k"
      using a1(2) Cons.prems(3) by (auto simp: perm_within_def)
    then show ?thesis using ordered_cong [of "end_index (sort_data len n j)" arr a1] len sort_data_bounds [OF j(1), of len]
      Cons.prems(3,4) that by auto
  qed
  then have "\<forall>j \<in> set (ds @ [i]). ordered str (start_index (sort_data len n j)) (end_index (sort_data len n j)) a1"
    using a1(3) by auto
  with Cons.IH [of "ds @ [i]" a1] Cons.prems len obtain a2 where a2: "ThreadSort_all qsort str len n is a1 = Inr a2"
    "perm_within 0 len a1 a2" "\<forall>j \<in> set ((ds @ [i]) @ is). ordered str (start_index (sort_data len n j)) (end_index (sort_data len n j)) a2"
    by auto
  moreover have "perm_within 0 len arr a1" using a1(2) b by (auto intro: perm_within_mono)
  ultimately show ?case using a1(1) by (auto intro: perm_within_trans)
qed

section \<open>The sort\<close>

lemma chunks_blocks:
  assumes n: "0 < n" "n \<le> len" and len: "len \<le> length arr"
    and o: "\<forall>i < n. ordered str (start_index (sort_data len n i)) (end_index (sort_data len n i)) arr"
  shows "blocks str (len div n) 0 len arr"
  unfolding blocks_def
proof (intro allI impI, elim conjE)
  fix p q assume pq: "p < q" "q < len" "p div (len div n) = q div (len div n)"
  let ?c = "len div n" and ?d = "min (p div (len div n)) (n - 1)"
  have c: "0 < ?c" using n by (simp add: div_greater_zero_iff)
  have "?d < n" using n(1) by (simp add: min.strict_coboundedI2)
  then have d: "ordered str (start_index (sort_data len n ?d)) (end_index (sort_data len n ?d)) arr" using o by blast
  have "?d * ?c \<le> p div ?c * ?c" by (intro mult_le_mono1) simp
  also have "\<dots> \<le> p" by simp
  finally have "start_index (sort_data len n ?d) \<le> p" by (simp add: sort_data_def Let_def)
  moreover have "q < end_index (sort_data len n ?d)"
  proof (cases "?d = n - 1")
    case False
    then have "?d = q div ?c" using pq(3) by (simp add: min_def split: if_splits)
    moreover have "q < q div ?c * ?c + ?c" using c by (metis div_mult_mod_eq mod_less_divisor nat_add_left_cancel_less)
    ultimately show ?thesis using False pq(2) by (simp add: sort_data_def Let_def)
  qed (use pq(2) in \<open>simp add: sort_data_def Let_def\<close>)
  moreover have "end_index (sort_data len n ?d) \<le> length arr" using sort_data_bounds [OF \<open>?d < n\<close>, of len] len by linarith
  ultimately show "sle str (arr ! p) (arr ! q)" using d pq(1) by (auto simp: ordered_iff)
qed

lemma MTQuickSort_ok:
  assumes q: "qsort_sorts qsort str" and n: "0 < n" "n \<le> len" and len: "len \<le> length arr" "len < 2 ^ 61"
    and env: "\<forall>i < n. created i" "\<forall>k. oks k" and ord: "distinct order" "set order = {..<n}" and fuel: "len < fuel"
  shows "\<exists>arr'. MTQuickSort fuel True True created order oks qsort str (Some arr) len n = Inr (arr', 0) \<and>
    perm_within 0 len arr arr' \<and> sorted_wrt (sle str) (take len arr')"
proof -
  obtain a1 where a1: "ThreadSort_all qsort str len n order arr = Inr a1" "perm_within 0 len arr a1"
    "\<forall>i < n. ordered str (start_index (sort_data len n i)) (end_index (sort_data len n i)) a1"
    using ThreadSort_all_ok [OF q, of "[]" order n len arr] ord len(1) by auto
  have l1: "len \<le> length a1" using perm_within_length [OF a1(2)] len(1) by simp
  have "\<exists>a2. MergeSortedParts fuel oks str a1 len n = Inr a2 \<and> perm_within 0 len a1 a2 \<and> ordered str 0 len a2"
  proof (cases "n = 1")
    case True
    then have "ordered str 0 len a1" using a1(3) by (simp add: sort_data_def Let_def)
    then show ?thesis using True by (simp add: MergeSortedParts_def)
  next
    case False
    have "0 < len div n" using n by (simp add: div_greater_zero_iff)
    from MergeSortedParts_while_ok [OF len(2) env(2) fuel this l1 _ chunks_blocks [OF n l1 a1(3)]]
    show ?thesis using False n fuel by (auto simp: MergeSortedParts_def)
  qed
  then obtain a2 where a2: "MergeSortedParts fuel oks str a1 len n = Inr a2" "perm_within 0 len a1 a2" "ordered str 0 len a2"
    by blast
  have "MTQuickSort fuel True True created order oks qsort str (Some arr) len n = Inr (a2, 0)"
    using n env(1) a1(1) a2(1) by (simp add: MTQuickSort_def list_all_length)
  moreover have "perm_within 0 len arr a2" using a1(2) a2(2) by (rule perm_within_trans)
  ultimately show ?thesis using a2(3) by (auto simp: ordered_def slice_0)
qed

text \<open>With more threads than strings the chunks are empty and the merging makes no progress.\<close>

lemma Merge_empty: "Merge ok str arr 0 0 0 = Inr arr"
  by (simp add: Merge_def Merge_loop.simps [of _ _ _ 0] Merge_rest.simps [of _ _ 0])

lemma MergeSortedParts_for_stuck: "0 < len \<Longrightarrow> MergeSortedParts_for fuel oks str len 0 0 k arr = Inl Out_of_fuel"
  by (induction fuel arbitrary: k) (simp_all add: Merge_empty Let_def)

lemma MTQuickSort_stuck:
  assumes q: "qsort_sorts qsort str" and n: "0 < len" "len < n" and len: "len \<le> length arr"
    and env: "\<forall>i < n. created i" and ord: "distinct order" "set order = {..<n}"
  shows "MTQuickSort fuel True True created order oks qsort str (Some arr) len n = Inl Out_of_fuel"
proof -
  obtain a1 where a1: "ThreadSort_all qsort str len n order arr = Inr a1"
    using ThreadSort_all_ok [OF q, of "[]" order n len arr] ord len(1) by auto
  have "MergeSortedParts fuel oks str a1 len n = Inl Out_of_fuel"
    using n MergeSortedParts_for_stuck [OF n(1)] by (cases fuel) (simp_all add: MergeSortedParts_def)
  then show ?thesis using n env a1 by (simp add: MTQuickSort_def list_all_length)
qed

text \<open>
  When \<open>malloc\<close> has no memory for a merge, the parts are left as the threads sorted them, and the
  call still reports success.
\<close>

lemma MergeSortedParts_for_unmerged:
  assumes "0 < s" "len < 2 ^ 61" "\<forall>k. \<not> oks k"
  shows "s < len \<Longrightarrow> i < len + 2 * s \<Longrightarrow> len - i < fuel \<Longrightarrow> \<exists>k'. MergeSortedParts_for fuel oks str len s i k arr = Inr (arr, k')"
proof (induction fuel arbitrary: i k)
  case (Suc fuel)
  have "szadd i s = i + s" "szmul 2 s = 2 * s" "szadd i (2 * s) = i + 2 * s" using Suc.prems(1,2) assms(2) by simp_all
  moreover have "len - (i + 2 * s) < fuel" if "i + s < len" using Suc.prems(3) that assms(1) by linarith
  ultimately show ?case using Suc.IH [of "i + 2 * s" "k + 1"] Suc.prems(1) assms(3) by (auto simp: Merge_def Let_def)
qed simp

lemma MergeSortedParts_while_unmerged:
  assumes "len < 2 ^ 61" "\<forall>k. \<not> oks k" "len < rounds"
  shows "0 < s \<Longrightarrow> len - s < fuel \<Longrightarrow> MergeSortedParts_while rounds fuel oks str len s k arr = Inr arr"
proof (induction fuel arbitrary: s k)
  case (Suc fuel)
  show ?case
  proof (cases "s < len")
    case True
    obtain k' where "MergeSortedParts_for rounds oks str len s 0 k arr = Inr (arr, k')"
      using MergeSortedParts_for_unmerged [OF Suc.prems(1) assms(1,2) True, of 0 rounds str k arr] assms(3) Suc.prems(1) by auto
    moreover have "len - s * 2 < fuel" using True Suc.prems by linarith
    ultimately show ?thesis using Suc.IH [of "s * 2" k'] Suc.prems True assms(1) by simp
  qed simp
qed simp

section \<open>Lines to strings\<close>

definition word_start :: "byte list \<Rightarrow> nat \<Rightarrow> bool" where
  "word_start buf i \<longleftrightarrow> buf ! i \<noteq> 10 \<and> (i = 0 \<or> buf ! (i - 1) = 10)"

lemma CreateArrayPointers_count_ok:
  "k \<le> len \<Longrightarrow> len \<le> length buf \<Longrightarrow> in_word = (0 < k \<and> buf ! (k - 1) \<noteq> 10) \<Longrightarrow>
   CreateArrayPointers_count buf [k..<len] in_word cnt = Inr (cnt + length (filter (word_start buf) [k..<len]))"
proof (induction "len - k" arbitrary: k in_word cnt)
  case (Suc d)
  have u: "[k..<len] = k # [Suc k..<len]" using Suc.hyps(2) by (simp add: upt_conv_Cons)
  show ?case
    using Suc.prems Suc.hyps(2) Suc.hyps(1) [of "Suc k" True] Suc.hyps(1) [of "Suc k" False]
    by (cases "buf ! k = 10") (auto simp: u word_start_def simp del: upt_Suc)
qed simp

lemma CreateArrayPointers_fill_ok:
  "k \<le> len \<Longrightarrow> len \<le> length buf \<Longrightarrow> in_word = (0 < k \<and> buf ! (k - 1) \<noteq> 10) \<Longrightarrow>
   length b = length buf \<Longrightarrow> \<forall>i. k \<le> i \<and> i < len \<longrightarrow> b ! i = buf ! i \<Longrightarrow>
   j + length (filter (word_start buf) [k..<len]) \<le> length ptrs \<Longrightarrow>
   \<exists>b'. CreateArrayPointers_fill b [k..<len] in_word ptrs j =
      Inr (b', take j ptrs @ map Some (filter (word_start buf) [k..<len]) @ drop (j + length (filter (word_start buf) [k..<len])) ptrs,
           j + length (filter (word_start buf) [k..<len])) \<and> length b' = length buf \<and>
      (\<forall>i < length buf. b' ! i = (if k \<le> i \<and> i < len \<and> buf ! i = 10 then 0 else b ! i))"
proof (induction "len - k" arbitrary: k in_word b j ptrs)
  case 0
  then show ?case by simp
next
  case (Suc d)
  have u: "[k..<len] = k # [Suc k..<len]" and k: "k < len" "d = len - Suc k" using Suc.hyps(2) by (auto simp: upt_conv_Cons)
  have bk: "aget b k = Inr (buf ! k)" using Suc.prems k by simp
  consider "buf ! k = 10" | "buf ! k \<noteq> 10" "in_word" | "buf ! k \<noteq> 10" "\<not> in_word" by blast
  then show ?case
  proof cases
    case 1
    obtain b' where "CreateArrayPointers_fill (b[k := 0]) [Suc k..<len] False ptrs j =
        Inr (b', take j ptrs @ map Some (filter (word_start buf) [Suc k..<len]) @ drop (j + length (filter (word_start buf) [Suc k..<len])) ptrs,
           j + length (filter (word_start buf) [Suc k..<len]))" "length b' = length buf"
      "\<forall>i < length buf. b' ! i = (if Suc k \<le> i \<and> i < len \<and> buf ! i = 10 then 0 else b[k := 0] ! i)"
      using Suc.hyps(1) [OF k(2), of False "b[k := 0]" j ptrs] Suc.prems k 1 by (auto simp: u word_start_def simp del: upt_Suc)
    then show ?thesis using bk 1 k Suc.prems
      by (intro exI [of _ b']) (auto simp: u word_start_def nth_list_update simp del: upt_Suc)
  next
    case 2
    obtain b' where "CreateArrayPointers_fill b [Suc k..<len] True ptrs j =
        Inr (b', take j ptrs @ map Some (filter (word_start buf) [Suc k..<len]) @ drop (j + length (filter (word_start buf) [Suc k..<len])) ptrs,
           j + length (filter (word_start buf) [Suc k..<len]))" "length b' = length buf"
      "\<forall>i < length buf. b' ! i = (if Suc k \<le> i \<and> i < len \<and> buf ! i = 10 then 0 else b ! i)"
      using Suc.hyps(1) [OF k(2), of True b j ptrs] Suc.prems k 2 by (auto simp: u word_start_def simp del: upt_Suc)
    then show ?thesis using bk 2 k Suc.prems
      by (intro exI [of _ b']) (auto simp: u word_start_def le_Suc_eq Suc_le_eq le_less simp del: upt_Suc)
  next
    case 3
    then have w: "word_start buf k" using Suc.prems(3) by (auto simp: word_start_def)
    let ?p = "ptrs[j := Some k]"
    have p: "aset ptrs j (Some k) = Inr ?p" "take (Suc j) ?p = take j ptrs @ [Some k]"
      using Suc.prems(6) w by (simp_all add: u take_Suc_conv_app_nth del: upt_Suc)
    obtain b' where "CreateArrayPointers_fill b [Suc k..<len] True ?p (j + 1) =
        Inr (b', take (j + 1) ?p @ map Some (filter (word_start buf) [Suc k..<len]) @ drop (j + 1 + length (filter (word_start buf) [Suc k..<len])) ?p,
           j + 1 + length (filter (word_start buf) [Suc k..<len]))" "length b' = length buf"
      "\<forall>i < length buf. b' ! i = (if Suc k \<le> i \<and> i < len \<and> buf ! i = 10 then 0 else b ! i)"
      using Suc.hyps(1) [OF k(2), of True b "j + 1" ?p] Suc.prems k 3 w by (auto simp: u simp del: upt_Suc)
    moreover have f: "filter (word_start buf) [k..<len] = k # filter (word_start buf) [Suc k..<len]" using w by (simp add: u del: upt_Suc)
    moreover have "CreateArrayPointers_fill b [k..<len] in_word ptrs j = CreateArrayPointers_fill b [Suc k..<len] True ?p (j + 1)"
      using bk 3 p(1) by (simp add: u del: upt_Suc)
    moreover have "Suc k \<le> i \<and> i < len \<and> buf ! i = 10 \<longleftrightarrow> k \<le> i \<and> i < len \<and> buf ! i = 10" for i
      using 3(1) by (cases "i = k") auto
    ultimately show ?thesis using p(2) by (intro exI [of _ b']) simp
  qed
qed

text \<open>One pointer per word, in order, then NULL; every newline has become a terminator.\<close>

lemma CreateArrayPointers_ok:
  assumes "0 < len" "len \<le> length buf"
  shows "\<exists>buf'. CreateArrayPointers True junk (Some buf) len (Some old) =
      Inr (Some buf', Some (length (filter (word_start buf) [0..<len])),
           Some (map Some (filter (word_start buf) [0..<len]) @ [None])) \<and>
    length buf' = length buf \<and> (\<forall>i < length buf. buf' ! i = (if i < len \<and> buf ! i = 10 then 0 else buf ! i))"
proof -
  let ?w = "filter (word_start buf) [0..<len]"
  let ?p = "map junk [0..<length ?w + 1]"
  obtain b' where b': "CreateArrayPointers_fill buf [0..<len] False ?p 0 =
      Inr (b', take 0 ?p @ map Some ?w @ drop (0 + length ?w) ?p, 0 + length ?w)" "length b' = length buf"
    "\<forall>i < length buf. b' ! i = (if i < len \<and> buf ! i = 10 then 0 else buf ! i)"
    using CreateArrayPointers_fill_ok [of 0 len buf False buf 0 ?p] assms(2) by (auto simp del: upt_Suc)
  have cnt: "CreateArrayPointers_count buf [0..<len] False 0 = Inr (length ?w)"
    using CreateArrayPointers_count_ok [of 0 len buf False 0] assms(2) by simp
  obtain x where x: "drop (length ?w) ?p = [x]" by (simp add: drop_map)
  have "aset (map Some ?w @ [x]) (length ?w) None = Inr (map Some ?w @ [None])"
    by (simp add: aset_def list_update_append)
  then show ?thesis using b' cnt x assms by (simp add: CreateArrayPointers_def del: upt_Suc)
qed

lemma DuplicatePointers_copy_ok:
  "n \<le> length orig \<Longrightarrow> off + n \<le> length d \<Longrightarrow> off + n < 2 ^ 64 \<Longrightarrow>
   DuplicatePointers_copy orig off [0..<n] d = Inr (take off d @ take n orig @ drop (off + n) d)"
proof (induction n)
  case (Suc n)
  have app: "DuplicatePointers_copy orig off (xs @ ys) a = bindE (DuplicatePointers_copy orig off xs a) (DuplicatePointers_copy orig off ys)" for xs ys a
    by (induction xs arbitrary: a) (simp_all add: bindE_assoc cong: bindE_cong)
  have "drop (off + n) d = d ! (off + n) # drop (off + Suc n) d" using Suc.prems by (simp add: Cons_nth_drop_Suc)
  then show ?case using Suc by (simp add: app list_update_append take_Suc_conv_app_nth)
qed simp

lemma DuplicatePointers_loop_ok:
  assumes "n \<le> length orig"
  shows "c * n \<le> length d \<Longrightarrow> c * n < 2 ^ 64 \<Longrightarrow>
   DuplicatePointers_loop orig n [0..<c] d = Inr (concat (replicate c (take n orig)) @ drop (c * n) d)"
proof (induction c)
  case (Suc c)
  have app: "DuplicatePointers_loop orig n (xs @ ys) a = bindE (DuplicatePointers_loop orig n xs a) (DuplicatePointers_loop orig n ys)" for xs ys a
    by (induction xs arbitrary: a) (simp_all add: bindE_assoc cong: bindE_cong)
  let ?c = "concat (replicate c (take n orig))" and ?d = "concat (replicate c (take n orig)) @ drop (c * n) d"
  have len: "length ?c = c * n" using assms by (simp add: length_concat sum_list_replicate min_def)
  then have "length ?d = length d" using Suc.prems(1) by simp
  then have "DuplicatePointers_copy orig (c * n) [0..<n] ?d = Inr (take (c * n) ?d @ take n orig @ drop (c * n + n) ?d)"
    using assms Suc.prems by (intro DuplicatePointers_copy_ok) auto
  moreover have "concat (replicate (Suc c) (take n orig)) = ?c @ take n orig" by (simp add: replicate_append_same [symmetric])
  ultimately show ?case using Suc len by (simp add: app add.commute)
qed simp

text \<open>The array is repeated and closed with NULL, as long as the request for it does not wrap.\<close>

lemma DuplicatePointers_ok:
  assumes "n \<le> length orig" "0 < c" "n * c + 1 < 2 ^ 61"
  shows "DuplicatePointers True junk orig n c = Inr (n * c, Some (concat (replicate c (take n orig)) @ [NULL]))"
proof -
  have "szmul (szadd t 1) 8 div 8 = t + 1" if "t + 1 < 2 ^ 61" for t using that by simp
  from this [OF assms(3)] have "szmul n c = n * c" "szmul (szadd (n * c) 1) 8 div 8 = n * c + 1" using assms(3) by simp_all
  moreover obtain x where "drop (n * c) (map junk [0..<n * c + 1]) = [x]" by (simp add: drop_map)
  moreover have "DuplicatePointers_loop orig n [0..<c] (map junk [0..<n * c + 1]) =
      Inr (concat (replicate c (take n orig)) @ drop (c * n) (map junk [0..<n * c + 1]))"
    using assms by (intro DuplicatePointers_loop_ok) (auto simp: mult.commute)
  moreover have "length (concat (replicate c (take n orig))) = n * c"
    using assms(1) by (simp add: length_concat sum_list_replicate min_def mult.commute)
  ultimately show ?thesis using assms(2)
    by (simp add: DuplicatePointers_def mult.commute aset_def list_update_append del: upt_Suc)
qed

end
