(* ===== verification/Bit_Arr.thy ===== *)
theory Bit_Arr
  imports Prelude
begin

text \<open>
  The bit array of \<open>ds/src/bit_arr.c\<close>: a \<open>size_t\<close> seen as 64 bits. Every operation of the
  file is here, with the two lookup tables as an explicit state; the lemmas give each
  operation's effect on every bit, the population count behind the loop that clears the
  lowest set bit, and the agreement of the table-driven routines with the plain ones.
\<close>

unbundle bit_operations_syntax

section \<open>Definitions\<close>

type_synonym bit_arr_t = "64 word"

abbreviation (input) BITARR_BITS :: nat where
  "BITARR_BITS \<equiv> 64"

text \<open>The two static tables and the flag that says they are filled.\<close>

record luts =
  is_Init :: bool
  mirror_lut :: "byte list"
  counton_lut :: "byte list"

definition luts_static :: luts where
  "luts_static = \<lparr>is_Init = False, mirror_lut = replicate 256 0, counton_lut = replicate 256 0\<rparr>"

text \<open>The inner loop of \<open>InitLuts\<close> on one byte: \<open>n\<close> rounds left.\<close>

fun InitLuts_byte :: "nat \<Rightarrow> byte \<Rightarrow> byte \<Rightarrow> byte \<Rightarrow> byte \<times> byte" where
  "InitLuts_byte 0 original_byte reversed_byte ones_in_byte = (reversed_byte, ones_in_byte)"
| "InitLuts_byte (Suc n) original_byte reversed_byte ones_in_byte =
     InitLuts_byte n (drop_bit 1 original_byte)
       (push_bit 1 reversed_byte OR (original_byte AND 1))
       (ones_in_byte + (original_byte AND 1))"

definition InitLuts :: "luts \<Rightarrow> luts" where
  "InitLuts st =
     (if is_Init st then st
      else \<lparr>is_Init = True,
            mirror_lut = map (\<lambda>i. fst (InitLuts_byte 8 (of_nat i) 0 0)) [0..<256],
            counton_lut = map (\<lambda>i. snd (InitLuts_byte 8 (of_nat i) 0 0)) [0..<256]\<rparr>)"

fun BitArrMirrorLUT_loop :: "byte list \<Rightarrow> bit_arr_t \<Rightarrow> nat list \<Rightarrow> bit_arr_t \<Rightarrow> bit_arr_t" where
  "BitArrMirrorLUT_loop lut bit_arr [] mirrored = mirrored"
| "BitArrMirrorLUT_loop lut bit_arr (byte_index # rest) mirrored =
     (let curr_byte = ucast (drop_bit (8 * byte_index) bit_arr) :: byte;
          part_mirrored = lut ! unat curr_byte;
          dest_shift = 8 * (8 - 1 - byte_index)
      in BitArrMirrorLUT_loop lut bit_arr rest (mirrored OR push_bit dest_shift (ucast part_mirrored)))"

definition BitArrMirrorLUT :: "luts \<Rightarrow> bit_arr_t \<Rightarrow> luts \<times> bit_arr_t" where
  "BitArrMirrorLUT st bit_arr =
     (let st' = InitLuts st in (st', BitArrMirrorLUT_loop (mirror_lut st') bit_arr [0..<8] 0))"

fun BitArrCountOnLUT_loop :: "byte list \<Rightarrow> bit_arr_t \<Rightarrow> nat list \<Rightarrow> nat \<Rightarrow> nat" where
  "BitArrCountOnLUT_loop lut v [] ones_total = ones_total"
| "BitArrCountOnLUT_loop lut v (byte_index # rest) ones_total =
     (let curr_byte = ucast (drop_bit (8 * byte_index) v) :: byte
      in BitArrCountOnLUT_loop lut v rest (ones_total + unat (lut ! unat curr_byte)))"

definition BitArrCountOnLUT :: "luts \<Rightarrow> bit_arr_t \<Rightarrow> luts \<times> nat" where
  "BitArrCountOnLUT st v =
     (let st' = InitLuts st in (st', BitArrCountOnLUT_loop (counton_lut st') v [0..<8] 0))"

definition BitArrSetAllOn :: "bit_arr_t \<Rightarrow> bit_arr_t" where
  "BitArrSetAllOn bit_arr = NOT 0"

definition BitArrSetAllOff :: "bit_arr_t \<Rightarrow> bit_arr_t" where
  "BitArrSetAllOff bit_arr = 0"

definition BitArrSetBit :: "bit_arr_t \<Rightarrow> nat \<Rightarrow> int \<Rightarrow> bit_arr_t result" where
  "BitArrSetBit bit_arr index v =
     bindE (assertE (index < BITARR_BITS)) (\<lambda>_.
     bindE (assertE (v = 1 \<or> v = 0)) (\<lambda>_.
     let mask = push_bit index 1
     in Inr (if v \<noteq> 0 then bit_arr OR mask else bit_arr AND NOT mask)))"

definition BitArrGetBit :: "bit_arr_t \<Rightarrow> nat \<Rightarrow> int result" where
  "BitArrGetBit bit_arr index =
     bindE (assertE (index < BITARR_BITS)) (\<lambda>_.
     let mask = push_bit index 1 in Inr (if bit_arr AND mask \<noteq> 0 then 1 else 0))"

definition BitArrSetOn :: "bit_arr_t \<Rightarrow> nat \<Rightarrow> bit_arr_t result" where
  "BitArrSetOn bit_arr index =
     bindE (assertE (index < BITARR_BITS)) (\<lambda>_.
     let mask = push_bit index 1 in Inr (bit_arr OR mask))"

definition BitArrSetOff :: "bit_arr_t \<Rightarrow> nat \<Rightarrow> bit_arr_t result" where
  "BitArrSetOff bit_arr index =
     bindE (assertE (index < BITARR_BITS)) (\<lambda>_.
     let mask = push_bit index 1 in Inr (bit_arr AND NOT mask))"

definition BitArrRotateLeft :: "bit_arr_t \<Rightarrow> nat \<Rightarrow> bit_arr_t" where
  "BitArrRotateLeft bit_arr shift0 =
     (let shift = shift0 mod BITARR_BITS
      in if shift = 0 then bit_arr
         else let left_part = push_bit shift bit_arr;
                  wrap_part = drop_bit (BITARR_BITS - shift) bit_arr
              in left_part OR wrap_part)"

definition BitArrRotateRight :: "bit_arr_t \<Rightarrow> nat \<Rightarrow> bit_arr_t" where
  "BitArrRotateRight bit_arr shift0 =
     (let shift = shift0 mod BITARR_BITS
      in if shift = 0 then bit_arr
         else let right_part = drop_bit shift bit_arr;
                  wrap_part = push_bit (BITARR_BITS - shift) bit_arr
              in right_part OR wrap_part)"

definition BitArrFlipBit :: "bit_arr_t \<Rightarrow> nat \<Rightarrow> bit_arr_t result" where
  "BitArrFlipBit bit_arr index =
     bindE (assertE (index < BITARR_BITS)) (\<lambda>_.
     let mask = push_bit index 1 in Inr (bit_arr XOR mask))"

text \<open>The \<open>while\<close> loop: each round clears the lowest set bit.\<close>

function BitArrCountOn_loop :: "bit_arr_t \<Rightarrow> nat \<Rightarrow> nat" where
  "BitArrCountOn_loop bit_arr cnt =
     (if 0 < bit_arr then BitArrCountOn_loop (bit_arr AND (bit_arr - 1)) (cnt + 1) else cnt)"
  by pat_completeness auto
termination
proof (relation "measure (\<lambda>(b, c). unat b)")
  fix b :: bit_arr_t and c :: nat
  assume "0 < b"
  then have nz: "b \<noteq> 0" by auto
  have "b AND (b - 1) \<le> b - 1" by (rule word_and_le1)
  also have "b - 1 < b"
    using measure_unat [OF nz] by (simp add: word_less_nat_alt)
  finally show "((b AND (b - 1), c + 1), b, c) \<in> measure (\<lambda>(b, c). unat b)"
    by (simp add: word_less_nat_alt)
qed simp

definition BitArrCountOn :: "bit_arr_t \<Rightarrow> nat" where
  "BitArrCountOn bit_arr = BitArrCountOn_loop bit_arr 0"

definition BitArrCountOff :: "bit_arr_t \<Rightarrow> nat" where
  "BitArrCountOff bit_arr = BITARR_BITS - BitArrCountOn bit_arr"

fun BitArrMirror_loop :: "bit_arr_t \<Rightarrow> nat list \<Rightarrow> bit_arr_t \<Rightarrow> bit_arr_t result" where
  "BitArrMirror_loop bit_arr [] mirror_bit_arr = Inr mirror_bit_arr"
| "BitArrMirror_loop bit_arr (i # rest) mirror_bit_arr =
     bindE (BitArrGetBit bit_arr i) (\<lambda>b.
     if b \<noteq> 0
     then bindE (BitArrSetOn mirror_bit_arr (BITARR_BITS - 1 - i)) (BitArrMirror_loop bit_arr rest)
     else BitArrMirror_loop bit_arr rest mirror_bit_arr)"

definition BitArrMirror :: "bit_arr_t \<Rightarrow> bit_arr_t result" where
  "BitArrMirror bit_arr = BitArrMirror_loop bit_arr [0..<BITARR_BITS] 0"

text \<open>The caller's buffer is a list of characters, \<open>None\<close> for a NULL pointer.\<close>

fun BitArrToString_loop :: "bit_arr_t \<Rightarrow> nat list \<Rightarrow> string \<Rightarrow> string result" where
  "BitArrToString_loop bit_arr [] str = Inr str"
| "BitArrToString_loop bit_arr (i # rest) str =
     bindE (BitArrGetBit bit_arr i) (\<lambda>b.
     if BITARR_BITS - 1 - i < length str
     then BitArrToString_loop bit_arr rest
            (str[BITARR_BITS - 1 - i := (if b \<noteq> 0 then CHR ''1'' else CHR ''0'')])
     else Inl Bad_access)"

definition BitArrToString :: "bit_arr_t \<Rightarrow> string option \<Rightarrow> string option result" where
  "BitArrToString bit_arr str =
     (case str of
        None \<Rightarrow> Inr None
      | Some s \<Rightarrow>
          bindE (BitArrToString_loop bit_arr [0..<BITARR_BITS] s) (\<lambda>s'.
          if BITARR_BITS < length s' then Inr (Some (s'[BITARR_BITS := CHR 0x00])) else Inl Bad_access))"

section \<open>Specification\<close>

text \<open>The bits that are on, and the word read back to front.\<close>

definition ones :: "bit_arr_t \<Rightarrow> nat set" where
  "ones b = {i. bit b i}"

definition luts_ok :: "luts \<Rightarrow> bool" where
  "luts_ok st \<longleftrightarrow> (is_Init st \<longrightarrow> st = InitLuts luts_static)"

section \<open>One bit at a time\<close>

lemma bit_mask_iff_word [simp]: "n < 64 \<Longrightarrow> bit (2 ^ n :: 64 word) i \<longleftrightarrow> i = n"
  by (auto simp: bit_exp_iff)

lemma and_mask_nonzero: "n < 64 \<Longrightarrow> (b :: 64 word) AND push_bit n 1 \<noteq> 0 \<longleftrightarrow> bit b n"
proof
  assume n: "n < 64" and "b AND push_bit n 1 \<noteq> 0"
  then obtain i where "bit (b AND push_bit n 1) i"
    by (metis bit_0_eq bit_eqI bot_apply bot_bool_def)
  with n show "bit b n" by (auto simp: bit_and_iff)
next
  assume n: "n < 64" and "bit b n"
  then have "bit (b AND push_bit n 1) n" by (simp add: bit_and_iff)
  then show "b AND push_bit n 1 \<noteq> 0" by auto
qed

lemma BitArrGetBit_eq [simp]: "i < 64 \<Longrightarrow> BitArrGetBit b i = Inr (if bit b i then 1 else 0)"
  using and_mask_nonzero [of i b] by (simp add: BitArrGetBit_def)

lemma bit_below: "bit (b :: 64 word) i \<Longrightarrow> i < 64"
  using bit_imp_le_length [of b i] by simp

lemma BitArrSetOn_bits:
  "i < 64 \<Longrightarrow> \<exists>b'. BitArrSetOn b i = Inr b' \<and> ones b' = insert i (ones b)"
  by (auto simp: BitArrSetOn_def ones_def bit_or_iff)

lemma BitArrSetOff_bits:
  "i < 64 \<Longrightarrow> \<exists>b'. BitArrSetOff b i = Inr b' \<and> ones b' = ones b - {i}"
  by (auto simp: BitArrSetOff_def ones_def bit_and_iff bit_not_iff possible_bit_word dest: bit_below)

lemma BitArrFlipBit_bits:
  "i < 64 \<Longrightarrow> \<exists>b'. BitArrFlipBit b i = Inr b' \<and>
     ones b' = (if i \<in> ones b then ones b - {i} else insert i (ones b))"
  by (auto simp: BitArrFlipBit_def ones_def bit_xor_iff)

lemma BitArrSetBit_cases:
  "i < 64 \<Longrightarrow> BitArrSetBit b i 1 = BitArrSetOn b i \<and> BitArrSetBit b i 0 = BitArrSetOff b i"
  by (simp add: BitArrSetBit_def BitArrSetOn_def BitArrSetOff_def)

section \<open>Rotation\<close>

lemma rotate_index:
  assumes "i < 64"
  shows "(i + s) mod 64 = (if i + s mod 64 < 64 then i + s mod 64 else i + s mod 64 - (64 :: nat))"
proof -
  have "(i + s) mod 64 = (i + s mod 64) mod 64" by (simp add: mod_add_right_eq)
  moreover have "i + s mod 64 < 128" using assms mod_less_divisor [of 64 s] by linarith
  ultimately show ?thesis by (simp add: le_mod_geq)
qed

lemma BitArrRotateLeft_bit:
  assumes "i < 64"
  shows "bit (BitArrRotateLeft b s) ((i + s) mod 64) = bit b i"
proof -
  define r where "r = s mod 64"
  have "r < 64" by (simp add: r_def)
  with assms show ?thesis
    unfolding rotate_index [OF assms] BitArrRotateLeft_def r_def [symmetric]
    by (auto simp: Let_def bit_or_iff bit_push_bit_iff bit_drop_bit_eq dest: bit_below)
qed

lemma BitArrRotateRight_bit:
  assumes "i < 64"
  shows "bit (BitArrRotateRight b s) i = bit b ((i + s) mod 64)"
proof -
  define r where "r = s mod 64"
  have "r < 64" by (simp add: r_def)
  with assms show ?thesis
    unfolding rotate_index [OF assms] BitArrRotateRight_def r_def [symmetric]
    by (auto simp: Let_def bit_or_iff bit_push_bit_iff bit_drop_bit_eq add.commute dest: bit_below)
qed

lemma BitArrRotate_inverse: "BitArrRotateRight (BitArrRotateLeft b s) s = b"
proof (rule bit_word_eqI)
  fix i
  assume "i < LENGTH(64)"
  then have "i < 64" by simp
  then show "bit (BitArrRotateRight (BitArrRotateLeft b s) s) i = bit b i"
    by (simp add: BitArrRotateRight_bit BitArrRotateLeft_bit)
qed

section \<open>Population count\<close>

lemma ones_finite [simp]: "finite (ones b)"
  by (rule finite_subset [of _ "{..<64}"]) (auto simp: ones_def dest: bit_below)

lemma nat_bits_double: "{i. bit (2 * m + k) i} = (if odd k then insert 0 else id) (Suc ` {i. bit (m :: nat) i})"
  if "k < 2" for k :: nat
proof (rule set_eqI)
  fix i show "i \<in> {i. bit (2 * m + k) i} \<longleftrightarrow> i \<in> (if odd k then insert 0 else id) (Suc ` {i. bit m i})"
    using that by (cases i) (auto simp: bit_0 bit_Suc)
qed

lemma nat_bits_finite: "finite {i. bit (m :: nat) i}"
proof (rule finite_subset [of _ "{..m}"])
  show "{i. bit m i} \<subseteq> {..m}"
    by (auto simp: bit_iff_odd) (metis div_less even_zero leI less_exp order_less_trans)
qed simp

lemma clear_lowest_nat:
  "0 < m \<Longrightarrow> card {i. bit (m AND (m - 1)) i} = card {i. bit (m :: nat) i} - 1"
proof (induction m rule: nat_bit_induct)
  case zero
  then show ?case by simp
next
  case (even m)
  have half: "(2 * m - Suc 0) div 2 = m - Suc 0" by arith
  have "(2 * m) AND (2 * m - 1) = 2 * (m AND (m - 1))"
    by (simp add: and_nat_rec [of "2 * m"] half)
  then show ?case
    using even nat_bits_double [of 0 m] nat_bits_double [of 0 "m AND (m - 1)"]
    by (simp add: card_image)
next
  case (odd m)
  have "Suc (2 * m) AND (2 * m) = 2 * m"
    by (simp add: and_nat_rec [of "Suc (2 * m)"])
  then show ?case
    using nat_bits_double [of 0 m] nat_bits_double [of 1 m] nat_bits_finite [of m]
    by (simp add: card_insert_if image_iff)
qed

lemma ones_unat: "ones b = {i. bit (unat b) i}"
  by (auto simp: ones_def bit_unsigned_iff)

lemma ones_clear_lowest: "0 < b \<Longrightarrow> card (ones (b AND (b - 1))) = card (ones b) - 1 \<and> 0 < card (ones b)"
proof -
  assume "0 < b"
  then have nz: "b \<noteq> 0" "0 < unat b" by (auto simp: unat_gt_0)
  have "unat (b AND (b - 1)) = unat b AND (unat b - 1)"
    by (simp add: unsigned_and_eq unat_minus_one nz)
  moreover obtain i where "bit b i" using nz(1) by (metis bit_0_eq bit_eqI bot_apply bot_bool_def)
  then have "ones b \<noteq> {}" by (auto simp: ones_def)
  ultimately show ?thesis
    using clear_lowest_nat [OF nz(2)] ones_finite [of b] unfolding ones_unat by (simp add: card_gt_0_iff)
qed

declare BitArrCountOn_loop.simps [simp del]

lemma BitArrCountOn_loop_eq: "BitArrCountOn_loop b c = c + card (ones b)"
proof (induction b c rule: BitArrCountOn_loop.induct)
  case (1 b c)
  show ?case
  proof (cases "0 < b")
    case True
    with 1 ones_clear_lowest [OF True] show ?thesis
      by (simp add: BitArrCountOn_loop.simps [of b])
  next
    case False
    then have "b = 0" using word_gt_0 by blast
    then show ?thesis by (simp add: BitArrCountOn_loop.simps [of 0] ones_def)
  qed
qed

lemma BitArrCountOn_card: "BitArrCountOn b = card (ones b)"
  by (simp add: BitArrCountOn_def BitArrCountOn_loop_eq)

section \<open>Mirror\<close>

lemma BitArrMirror_loop_bits:
  assumes "\<forall>i \<in> set is. i < 64"
  shows "\<exists>m'. BitArrMirror_loop b is m = Inr m' \<and>
    (\<forall>j < 64. bit m' j \<longleftrightarrow> bit m j \<or> (63 - j \<in> set is \<and> bit b (63 - j)))"
  using assms
proof (induction "is" arbitrary: m)
  case Nil
  then show ?case by simp
next
  case (Cons i "is")
  then have i: "i < 64" "63 - i < 64" by simp_all
  define m1 where "m1 = (if bit b i then m OR 2 ^ (63 - i) else m)"
  have step: "BitArrMirror_loop b (i # is) m = BitArrMirror_loop b is m1"
    using i by (simp add: BitArrSetOn_def m1_def)
  have m1: "bit m1 j \<longleftrightarrow> bit m j \<or> (j = 63 - i \<and> bit b i)" for j
    using i by (auto simp: m1_def bit_or_iff)
  from Cons obtain m' where m': "BitArrMirror_loop b is m1 = Inr m'"
    "\<forall>j < 64. bit m' j \<longleftrightarrow> bit m1 j \<or> (63 - j \<in> set is \<and> bit b (63 - j))" by fastforce
  have "j = 63 - i \<longleftrightarrow> 63 - j = i" if "j < 64" for j using that i by auto
  with m' m1 step show ?case by (intro exI [of _ m']) auto
qed

lemma BitArrMirror_bits:
  "\<exists>m. BitArrMirror b = Inr m \<and> (\<forall>j < 64. bit m j = bit b (63 - j))"
  using BitArrMirror_loop_bits [of "[0..<64]" b 0] by (fastforce simp: BitArrMirror_def)

lemma shift_in_bit:
  "j < 8 \<Longrightarrow> bit (push_bit 1 r OR (c AND 1) :: byte) j = (if j = 0 then bit c 0 else bit r (j - 1))"
  unfolding bit_or_iff bit_push_bit_iff bit_and_iff bit_1_iff by (auto simp: possible_bit_word)

lemma InitLuts_byte_rev:
  "j < 8 \<Longrightarrow> bit (fst (InitLuts_byte n c r k)) j = (if j < n then bit c (n - 1 - j) else bit r (j - n))"
proof (induction n arbitrary: c r k)
  case 0
  then show ?case by simp
next
  case (Suc n)
  then show ?case
    using shift_in_bit [of "j - n" r c] by (auto simp del: push_bit_Suc_numeral simp: bit_drop_bit_eq Suc_diff_Suc)
qed

lemma low_bits_split: "{i. i < Suc n \<and> bit c i} =
    (if bit c 0 then {0} else {}) \<union> Suc ` {i. i < n \<and> bit (drop_bit 1 (c :: byte)) i}"
proof (rule set_eqI)
  fix i show "i \<in> {i. i < Suc n \<and> bit c i} \<longleftrightarrow>
      i \<in> (if bit c 0 then {0} else {}) \<union> Suc ` {i. i < n \<and> bit (drop_bit 1 c) i}"
    by (cases i) (auto simp: bit_drop_bit_eq)
qed

lemma InitLuts_byte_ones:
  "snd (InitLuts_byte n c r k) = k + of_nat (card {i. i < n \<and> bit c i})"
proof (induction n arbitrary: c r k)
  case 0
  then show ?case by simp
next
  case (Suc n)
  have fin: "finite {i. i < n \<and> bit (drop_bit 1 c) i}" by simp
  have "card {i. i < Suc n \<and> bit c i} =
      (if bit c 0 then 1 else 0) + card {i. i < n \<and> bit (drop_bit 1 c) i}"
    unfolding low_bits_split using fin by (subst card_Un_disjoint) (auto simp: card_image)
  moreover have "c AND 1 = (if bit c 0 then 1 else 0)" by (simp add: and_one_eq bit_0 odd_iff_mod_2_eq_one)
  ultimately show ?case by (simp add: Suc.IH)
qed

lemma byte_of_word_bit: "j < 8 \<Longrightarrow> bit (ucast (drop_bit n (v :: 64 word)) :: byte) j = bit v (n + j)"
  by (simp add: bit_unsigned_iff bit_drop_bit_eq)

lemma InitLuts_tables:
  assumes "luts_ok st"
  shows "mirror_lut (InitLuts st) ! unat c = fst (InitLuts_byte 8 c 0 0)"
    and "counton_lut (InitLuts st) ! unat c = snd (InitLuts_byte 8 c 0 0)"
    and "luts_ok (InitLuts st)"
proof -
  have c: "unat c < 256" using unsigned_less [of c] by simp
  have eq: "InitLuts st = InitLuts luts_static"
    using assms by (auto simp: luts_ok_def InitLuts_def luts_static_def)
  show "mirror_lut (InitLuts st) ! unat c = fst (InitLuts_byte 8 c 0 0)"
    "counton_lut (InitLuts st) ! unat c = snd (InitLuts_byte 8 c 0 0)"
    unfolding eq using c by (simp_all add: InitLuts_def luts_static_def del: InitLuts_byte.simps upt.simps)
  show "luts_ok (InitLuts st)" unfolding eq by (simp add: luts_ok_def)
qed

lemma BitArrMirrorLUT_loop_bits:
  assumes "luts_ok st" "\<forall>k \<in> set ks. k < 8" "j < 64"
  shows "bit (BitArrMirrorLUT_loop (mirror_lut (InitLuts st)) b ks m) j \<longleftrightarrow>
    bit m j \<or> (7 - j div 8 \<in> set ks \<and> bit b (63 - j))"
  using assms(2)
proof (induction ks arbitrary: m)
  case Nil
  then show ?case by simp
next
  case (Cons k ks)
  define c :: byte where "c = ucast (drop_bit (8 * k) b)"
  define m1 where "m1 = m OR push_bit (8 * (7 - k)) (ucast (fst (InitLuts_byte 8 c 0 0)))"
  have "bit m1 j \<longleftrightarrow> bit m j \<or> (k = 7 - j div 8 \<and> bit b (63 - j))"
  proof (cases "8 * (7 - k) \<le> j \<and> j - 8 * (7 - k) < 8")
    case True
    with Cons.prems have k: "k = 7 - j div 8" and idx: "8 * k + (7 - (j - 8 * (7 - k))) = 63 - j" by auto
    have lt: "7 - (j - 8 * (7 - k)) < 8" by linarith
    have "bit (fst (InitLuts_byte 8 c 0 0)) (j - 8 * (7 - k)) = bit c (7 - (j - 8 * (7 - k)))"
      using InitLuts_byte_rev [of "j - 8 * (7 - k)" 8 c 0 0] True by simp
    also have "\<dots> = bit b (63 - j)"
      unfolding c_def byte_of_word_bit [OF lt] idx ..
    finally have "bit (fst (InitLuts_byte 8 c 0 0)) (j - 8 * (7 - k)) = bit b (63 - j)" .
    with True assms(3) k show ?thesis
      unfolding m1_def bit_or_iff bit_push_bit_iff bit_unsigned_iff by (simp add: possible_bit_word)
  next
    case False
    with Cons.prems assms(3) have "k \<noteq> 7 - j div 8" by auto
    with False assms(3) bit_imp_le_length [of "fst (InitLuts_byte 8 c 0 0)" "j - 8 * (7 - k)"] show ?thesis
      by (auto simp: m1_def bit_or_iff bit_push_bit_iff bit_unsigned_iff)
  qed
  with Cons show ?case
    using InitLuts_tables(1) [OF assms(1), of c]
    by (auto simp: Let_def c_def m1_def simp del: InitLuts_byte.simps)
qed

lemma BitArrMirrorLUT_correct:
  assumes "luts_ok st"
  shows "BitArrMirror b = Inr (snd (BitArrMirrorLUT st b)) \<and> luts_ok (fst (BitArrMirrorLUT st b))"
proof -
  obtain m where m: "BitArrMirror b = Inr m" "\<forall>j < 64. bit m j = bit b (63 - j)"
    using BitArrMirror_bits by blast
  have "m = snd (BitArrMirrorLUT st b)"
  proof (rule bit_word_eqI)
    fix j
    assume "j < LENGTH(64)"
    then have "j < 64" by simp
    moreover have "7 - j div 8 < (8 :: nat)" by linarith
    ultimately show "bit m j = bit (snd (BitArrMirrorLUT st b)) j"
      using m(2) BitArrMirrorLUT_loop_bits [OF assms, of "[0..<8]" j b 0]
      by (simp add: BitArrMirrorLUT_def Let_def del: upt.simps)
  qed
  with m InitLuts_tables(3) [OF assms] show ?thesis by (simp add: BitArrMirrorLUT_def Let_def)
qed


lemma BitArrCountOnLUT_loop_snoc:
  "BitArrCountOnLUT_loop lut v (ks @ [k]) t =
   BitArrCountOnLUT_loop lut v ks t + unat (lut ! unat (ucast (drop_bit (8 * k) v) :: byte))"
  by (induction ks arbitrary: t) (simp_all add: Let_def)

lemma byte_ones:
  assumes "luts_ok st"
  shows "unat (counton_lut (InitLuts st) ! unat (ucast (drop_bit (8 * k) v) :: byte)) =
    card {i. i < 8 \<and> bit (v :: 64 word) (8 * k + i)}"
proof -
  let ?c = "ucast (drop_bit (8 * k) v) :: byte"
  have eq: "{i. i < 8 \<and> bit ?c i} = {i. i < 8 \<and> bit v (8 * k + i)}"
    using byte_of_word_bit [of _ "8 * k" v] by auto
  have "card {i. i < 8 \<and> bit ?c i} \<le> card {..<8 :: nat}" by (intro card_mono) auto
  then have "unat (of_nat (card {i. i < 8 \<and> bit ?c i}) :: byte) = card {i. i < 8 \<and> bit ?c i}"
    by (simp add: unat_of_nat)
  then show ?thesis
    unfolding InitLuts_tables(2) [OF assms] InitLuts_byte_ones eq by simp
qed

lemma ones_below_Suc_byte:
  "card {i. i < 8 * Suc n \<and> bit (v :: 64 word) i} =
   card {i. i < 8 * n \<and> bit v i} + card {i. i < 8 \<and> bit v (8 * n + i)}"
proof -
  have "{i. i < 8 * Suc n \<and> bit v i} =
      {i. i < 8 * n \<and> bit v i} \<union> (+) (8 * n) ` {i. i < 8 \<and> bit v (8 * n + i)}" (is "?L = ?A \<union> ?B")
  proof (rule set_eqI)
    fix i
    show "i \<in> ?L \<longleftrightarrow> i \<in> ?A \<union> ?B"
      by (cases "i < 8 * n") (auto simp: image_iff intro: exI [of _ "i - 8 * n"])
  qed
  moreover have "?A \<inter> ?B = {}" by auto
  ultimately show ?thesis
    by (simp add: card_Un_disjoint card_image)
qed

lemma BitArrCountOnLUT_loop_eq:
  assumes "luts_ok st"
  shows "BitArrCountOnLUT_loop (counton_lut (InitLuts st)) v [0..<n] 0 = card {i. i < 8 * n \<and> bit v i}"
proof (induction n)
  case 0
  then show ?case by simp
next
  case (Suc n)
  then show ?case
    unfolding ones_below_Suc_byte by (simp add: BitArrCountOnLUT_loop_snoc byte_ones [OF assms])
qed

lemma BitArrCountOnLUT_correct:
  assumes "luts_ok st"
  shows "snd (BitArrCountOnLUT st v) = BitArrCountOn v \<and> luts_ok (fst (BitArrCountOnLUT st v))"
proof -
  have "{i. i < 8 * 8 \<and> bit v i} = ones v" by (auto simp: ones_def dest: bit_below)
  then show ?thesis
    using BitArrCountOnLUT_loop_eq [OF assms, of v 8] InitLuts_tables(3) [OF assms]
    by (simp add: BitArrCountOnLUT_def Let_def BitArrCountOn_card del: upt.simps)
qed

lemma BitArrCount_partition: "BitArrCountOn b + BitArrCountOff b = 64"
proof -
  have "card (ones b) \<le> card {..<64 :: nat}" by (intro card_mono) (auto simp: ones_def dest: bit_below)
  then show ?thesis by (simp add: BitArrCountOff_def BitArrCountOn_card)
qed

section \<open>Printing\<close>

lemma BitArrToString_loop_eq:
  assumes "64 \<le> length s" "\<forall>i \<in> set is. i < 64"
  shows "\<exists>s'. BitArrToString_loop b is s = Inr s' \<and> length s' = length s \<and>
    (\<forall>j. s' ! j = (if j < 64 \<and> 63 - j \<in> set is then (if bit b (63 - j) then CHR ''1'' else CHR ''0'') else s ! j))"
  using assms
proof (induction "is" arbitrary: s)
  case Nil
  then show ?case by simp
next
  case (Cons i "is")
  define s1 where "s1 = s[63 - i := (if bit b i then CHR ''1'' else CHR ''0'')]"
  have i: "i < 64" "63 - i < length s" using Cons.prems by auto
  have step: "BitArrToString_loop b (i # is) s = BitArrToString_loop b is s1"
    using i by (simp add: s1_def)
  from Cons.IH [of s1] Cons.prems obtain s' where s': "BitArrToString_loop b is s1 = Inr s'"
    "length s' = length s"
    "\<forall>j. s' ! j = (if j < 64 \<and> 63 - j \<in> set is then (if bit b (63 - j) then CHR ''1'' else CHR ''0'') else s1 ! j)"
    by (auto simp: s1_def)
  have "s1 ! j = (if j < 64 \<and> 63 - j = i then (if bit b (63 - j) then CHR ''1'' else CHR ''0'') else s ! j)" for j
    using i by (auto simp: s1_def nth_list_update)
  with s' step show ?case by (intro exI [of _ s']) auto
qed


lemma BitArrToString_correct:
  assumes "64 < length s"
  shows "\<exists>s'. BitArrToString b (Some s) = Inr (Some s') \<and> s' ! 64 = CHR 0x00 \<and>
    take 64 s' = map (\<lambda>j. if bit b (63 - j) then CHR ''1'' else CHR ''0'') [0..<64]"
proof -
  have lt: "63 - j < (64 :: nat)" for j by linarith
  from BitArrToString_loop_eq [of s "[0..<64]" b] assms obtain s' where
    s': "BitArrToString_loop b [0..<64] s = Inr s'" "length s' = length s"
    "\<forall>j. s' ! j = (if j < 64 then (if bit b (63 - j) then CHR ''1'' else CHR ''0'') else s ! j)"
    by (auto simp: lt simp del: upt.simps)
  have "take 64 (s'[64 := CHR 0x00]) = map (\<lambda>j. if bit b (63 - j) then CHR ''1'' else CHR ''0'') [0..<64]"
    using assms s'(2,3) by (intro nth_equalityI) (auto simp del: upt.simps)
  with s' assms show ?thesis by (auto simp: BitArrToString_def simp del: upt.simps)
qed

end
