(* ===== verification/Knight_Tour.thy ===== *)
theory Knight_Tour
  imports Bit_Arr
begin

text \<open>
  The backtracking search of \<open>projects/knight_tour/src/knight_tour.c\<close> over the bit array of visited
  squares. \<open>KnightTour_ok\<close> shows that from every square of the board the search ends, and that it
  ends with a complete tour on the board or because the clock passed the limit: it never reports
  that there is no tour.
\<close>

section \<open>Definitions\<close>

abbreviation (input) CHESS_LEN :: nat where "CHESS_LEN \<equiv> 8"
abbreviation (input) NUM_OF_SQUARES :: nat where "NUM_OF_SQUARES \<equiv> 64"
abbreviation (input) NUM_KNIGHT_MOVES :: nat where "NUM_KNIGHT_MOVES \<equiv> 8"
abbreviation (input) NO_VALID_MOVE :: nat where "NO_VALID_MOVE \<equiv> 255"
abbreviation (input) TIMEOUT_TIME :: nat where "TIMEOUT_TIME \<equiv> 300"

datatype knight_tour_status_e = SUCCESS | FAIL | TIMEOUT

record chess_square_t =
  row :: nat
  column :: nat

record move_t =
  square_idx :: nat
  accessibility :: nat

text \<open>The file's static variables, and what the search updates: board, bits, clock readings so far.\<close>

record kt_static =
  precomputed_moves :: "nat list list"
  moves_table_ready :: bool

record kt_state =
  kt_board :: "nat list list"
  kt_visited :: bit_arr_t
  kt_ticks :: nat

definition kt_static_init :: kt_static where
  "kt_static_init = \<lparr>precomputed_moves = replicate NUM_OF_SQUARES (replicate NUM_KNIGHT_MOVES 0),
     moves_table_ready = False\<rparr>"

definition knight_moves_lut :: "(int \<times> int) list" where
  "knight_moves_lut = [(2, 1), (1, 2), (-1, 2), (-2, 1), (-2, -1), (-1, -2), (1, -2), (2, -1)]"

text \<open>Arrays: an access outside them is a fault.\<close>

definition cell_at :: "nat list list \<Rightarrow> nat \<Rightarrow> nat \<Rightarrow> nat result" where
  "cell_at t i j = (if i < length t \<and> j < length (t ! i) then Inr (t ! i ! j) else Inl Bad_access)"

definition put_cell :: "nat list list \<Rightarrow> nat \<Rightarrow> nat \<Rightarrow> nat \<Rightarrow> nat list list result" where
  "put_cell t i j v =
     (if i < length t \<and> j < length (t ! i) then Inr (t[i := (t ! i)[j := v]]) else Inl Bad_access)"

definition move_at :: "move_t list \<Rightarrow> nat \<Rightarrow> move_t result" where
  "move_at ms i = (if i < length ms then Inr (ms ! i) else Inl Bad_access)"

definition put_move :: "move_t list \<Rightarrow> nat \<Rightarrow> move_t \<Rightarrow> move_t list result" where
  "put_move ms i m = (if i < length ms then Inr (ms[i := m]) else Inl Bad_access)"

text \<open>\<open>time(NULL)\<close> belongs to the system: \<open>now k\<close> is what its \<open>k\<close>-th call answers.\<close>

definition StartTimer :: "(nat \<Rightarrow> 64 word) \<Rightarrow> nat \<Rightarrow> 64 word" where
  "StartTimer now k = now k"

definition EndTimer :: "(nat \<Rightarrow> 64 word) \<Rightarrow> nat \<Rightarrow> 64 word \<Rightarrow> nat" where
  "EndTimer now k start_timer = unat (now k - start_timer)"

definition ConvertSquareToIndex :: "chess_square_t \<Rightarrow> nat" where
  "ConvertSquareToIndex square = szadd (szmul CHESS_LEN (row square)) (column square)"

definition ConvertIndexToSquare :: "nat \<Rightarrow> chess_square_t" where
  "ConvertIndexToSquare idx = \<lparr>row = idx div CHESS_LEN, column = idx mod CHESS_LEN\<rparr>"

definition IsValidPosition :: "nat \<Rightarrow> nat \<Rightarrow> bool" where
  "IsValidPosition r c \<longleftrightarrow> r < CHESS_LEN \<and> c < CHESS_LEN"

text \<open>The cast of a possibly negative \<open>int\<close> to \<open>size_t\<close>.\<close>

definition size_of_int :: "int \<Rightarrow> nat" where
  "size_of_int x = nat (x mod 2 ^ 64)"

definition precomputed_move :: "nat \<Rightarrow> nat \<Rightarrow> nat" where
  "precomputed_move i j =
     (let current_square = ConvertIndexToSquare i;
          new_row = int (row current_square) + fst (knight_moves_lut ! j);
          new_col = int (column current_square) + snd (knight_moves_lut ! j)
      in if IsValidPosition (size_of_int new_row) (size_of_int new_col) \<and> 0 \<le> new_row \<and> 0 \<le> new_col
         then ConvertSquareToIndex \<lparr>row = size_of_int new_row, column = size_of_int new_col\<rparr>
         else NO_VALID_MOVE)"

fun PrecomputeValidMoves_row :: "nat \<Rightarrow> nat list \<Rightarrow> nat list list \<Rightarrow> nat list list result" where
  "PrecomputeValidMoves_row i [] t = Inr t"
| "PrecomputeValidMoves_row i (j # js) t =
     bindE (put_cell t i j (precomputed_move i j)) (PrecomputeValidMoves_row i js)"

fun PrecomputeValidMoves_loop :: "nat list \<Rightarrow> nat list list \<Rightarrow> nat list list result" where
  "PrecomputeValidMoves_loop [] t = Inr t"
| "PrecomputeValidMoves_loop (i # is) t =
     bindE (PrecomputeValidMoves_row i [0..<NUM_KNIGHT_MOVES] t) (PrecomputeValidMoves_loop is)"

definition PrecomputeValidMoves :: "nat list list \<Rightarrow> nat list list result" where
  "PrecomputeValidMoves t = PrecomputeValidMoves_loop [0..<NUM_OF_SQUARES] t"

fun CountAccessibleMoves_loop :: "nat list list \<Rightarrow> nat \<Rightarrow> bit_arr_t \<Rightarrow> nat list \<Rightarrow> nat \<Rightarrow> nat result" where
  "CountAccessibleMoves_loop t square_index visited [] cnt = Inr cnt"
| "CountAccessibleMoves_loop t square_index visited (i # is) cnt =
     bindE (cell_at t square_index i) (\<lambda>next_idx.
     if NO_VALID_MOVE \<noteq> next_idx
     then bindE (BitArrGetBit visited next_idx) (\<lambda>b.
          CountAccessibleMoves_loop t square_index visited is (if 0 = b then cnt + 1 else cnt))
     else CountAccessibleMoves_loop t square_index visited is cnt)"

definition CountAccessibleMoves :: "nat list list \<Rightarrow> nat \<Rightarrow> bit_arr_t \<Rightarrow> nat result" where
  "CountAccessibleMoves t square_index visited =
     CountAccessibleMoves_loop t square_index visited [0..<NUM_KNIGHT_MOVES] 0"

fun GetValidMoves_loop :: "nat list list \<Rightarrow> nat \<Rightarrow> bit_arr_t \<Rightarrow> nat list \<Rightarrow> move_t list \<Rightarrow> nat \<Rightarrow>
    (move_t list \<times> nat) result" where
  "GetValidMoves_loop t current_idx visited [] moves valid_moves = Inr (moves, valid_moves)"
| "GetValidMoves_loop t current_idx visited (i # is) moves valid_moves =
     bindE (cell_at t current_idx i) (\<lambda>next_idx.
     if next_idx \<noteq> NO_VALID_MOVE
     then bindE (BitArrGetBit visited next_idx) (\<lambda>b.
          if 0 = b
          then bindE (put_move moves valid_moves \<lparr>square_idx = next_idx, accessibility = 0\<rparr>) (\<lambda>moves'.
               GetValidMoves_loop t current_idx visited is moves' (valid_moves + 1))
          else GetValidMoves_loop t current_idx visited is moves valid_moves)
     else GetValidMoves_loop t current_idx visited is moves valid_moves)"

definition GetValidMoves :: "nat list list \<Rightarrow> nat \<Rightarrow> bit_arr_t \<Rightarrow> move_t list \<Rightarrow> (move_t list \<times> nat) result" where
  "GetValidMoves t current_idx visited moves =
     GetValidMoves_loop t current_idx visited [0..<NUM_KNIGHT_MOVES] moves 0"

text \<open>The inner loop of \<open>InsertionSortMoves\<close>: the array and the final \<open>j\<close>.\<close>

fun InsertionSortMoves_shift :: "move_t \<Rightarrow> move_t list \<Rightarrow> nat \<Rightarrow> (move_t list \<times> nat) result" where
  "InsertionSortMoves_shift key moves 0 = Inr (moves, 0)"
| "InsertionSortMoves_shift key moves (Suc j) =
     bindE (move_at moves j) (\<lambda>m.
     if accessibility m > accessibility key
     then bindE (put_move moves (Suc j) m) (\<lambda>moves'. InsertionSortMoves_shift key moves' j)
     else Inr (moves, Suc j))"

fun InsertionSortMoves_loop :: "nat list \<Rightarrow> move_t list \<Rightarrow> move_t list result" where
  "InsertionSortMoves_loop [] moves = Inr moves"
| "InsertionSortMoves_loop (i # is) moves =
     bindE (move_at moves i) (\<lambda>key.
     bindE (InsertionSortMoves_shift key moves i) (\<lambda>(moves', j).
     bindE (put_move moves' j key) (InsertionSortMoves_loop is)))"

definition InsertionSortMoves :: "move_t list \<Rightarrow> nat \<Rightarrow> move_t list result" where
  "InsertionSortMoves moves cnt = InsertionSortMoves_loop [1..<cnt] moves"

text \<open>The heuristic's loop of \<open>TryMoves\<close>: every move gets its accessibility.\<close>

fun TryMoves_rate :: "nat list list \<Rightarrow> nat list \<Rightarrow> move_t list \<Rightarrow> bit_arr_t \<Rightarrow> (move_t list \<times> bit_arr_t) result" where
  "TryMoves_rate t [] moves visited = Inr (moves, visited)"
| "TryMoves_rate t (i # is) moves visited =
     bindE (move_at moves i) (\<lambda>m.
     bindE (BitArrSetOn visited (square_idx m)) (\<lambda>visited.
     bindE (CountAccessibleMoves t (square_idx m) visited) (\<lambda>acc.
     bindE (put_move moves i (m\<lparr>accessibility := acc\<rparr>)) (\<lambda>moves.
     bindE (BitArrSetOff visited (square_idx m)) (\<lambda>visited.
     TryMoves_rate t is moves visited)))))"

definition TryMoves_order :: "nat list list \<Rightarrow> bool \<Rightarrow> nat \<Rightarrow> move_t list \<Rightarrow> bit_arr_t \<Rightarrow> (move_t list \<times> bit_arr_t) result" where
  "TryMoves_order t use_heuristic valid_moves moves visited =
     (if use_heuristic
      then bindE (TryMoves_rate t [0..<valid_moves] moves visited) (\<lambda>(moves, visited).
           bindE (InsertionSortMoves moves valid_moves) (\<lambda>moves. Inr (moves, visited)))
      else Inr (moves, visited))"

text \<open>
  The search. A round of the last loop of \<open>TryMoves\<close> is a step of \<open>TryMoves_loop\<close>, whose list
  holds the indices still to come. The move counter never passes 65, so it cannot wrap.
\<close>

function KnightTourRecursive :: "nat list list \<Rightarrow> (nat \<Rightarrow> 64 word) \<Rightarrow> 64 word \<Rightarrow> bool \<Rightarrow> kt_state \<Rightarrow> nat \<Rightarrow> nat \<Rightarrow>
    (kt_state \<times> knight_tour_status_e) result"
  and TryMoves :: "nat list list \<Rightarrow> (nat \<Rightarrow> 64 word) \<Rightarrow> 64 word \<Rightarrow> bool \<Rightarrow> kt_state \<Rightarrow> nat \<Rightarrow> nat \<Rightarrow>
    (kt_state \<times> knight_tour_status_e) result"
  and TryMoves_loop :: "nat list list \<Rightarrow> (nat \<Rightarrow> 64 word) \<Rightarrow> 64 word \<Rightarrow> bool \<Rightarrow> kt_state \<Rightarrow> nat list \<Rightarrow> move_t list \<Rightarrow>
    nat \<Rightarrow> (kt_state \<times> knight_tour_status_e) result" where
  "KnightTourRecursive t now start_time use_heuristic st current_idx move_count =
     (let elapsed = EndTimer now (kt_ticks st) start_time; st = st\<lparr>kt_ticks := kt_ticks st + 1\<rparr>
      in if elapsed > TIMEOUT_TIME then Inr (st, TIMEOUT)
         else if move_count > NUM_OF_SQUARES then Inr (st, SUCCESS)
         else TryMoves t now start_time use_heuristic st current_idx move_count)"
| "TryMoves t now start_time use_heuristic st current_idx move_count =
     bindE (GetValidMoves t current_idx (kt_visited st) (replicate NUM_KNIGHT_MOVES \<lparr>square_idx = 0, accessibility = 0\<rparr>))
       (\<lambda>(moves, valid_moves).
     bindE (TryMoves_order t use_heuristic valid_moves moves (kt_visited st)) (\<lambda>(moves, visited).
     TryMoves_loop t now start_time use_heuristic (st\<lparr>kt_visited := visited\<rparr>) [0..<valid_moves] moves move_count))"
| "TryMoves_loop t now start_time use_heuristic st [] moves move_count = Inr (st, FAIL)"
| "TryMoves_loop t now start_time use_heuristic st (i # is) moves move_count =
     bindE (move_at moves i) (\<lambda>m.
     let square = ConvertIndexToSquare (square_idx m) in
     bindE (put_cell (kt_board st) (row square) (column square) move_count) (\<lambda>board.
     bindE (BitArrSetOn (kt_visited st) (square_idx m)) (\<lambda>visited.
     bindE (KnightTourRecursive t now start_time use_heuristic (st\<lparr>kt_board := board, kt_visited := visited\<rparr>)
              (square_idx m) (move_count + 1)) (\<lambda>(st, result).
     if FAIL \<noteq> result then Inr (st, result)
     else bindE (put_cell (kt_board st) (row square) (column square) 0) (\<lambda>board.
          bindE (BitArrSetOff (kt_visited st) (square_idx m)) (\<lambda>visited.
          TryMoves_loop t now start_time use_heuristic (st\<lparr>kt_board := board, kt_visited := visited\<rparr>) is moves
            move_count))))))"
  by pat_completeness auto

termination
  by (relation "measures
      [\<lambda>c. case c of Inl (t, now, s, h, st, cur, mc) \<Rightarrow> 65 - mc
                   | Inr (Inl (t, now, s, h, st, cur, mc)) \<Rightarrow> 65 - mc
                   | Inr (Inr (t, now, s, h, st, is, ms, mc)) \<Rightarrow> 65 - mc,
       \<lambda>c. case c of Inl (t, now, s, h, st, cur, mc) \<Rightarrow> if 64 < mc then 0 else 3
                   | Inr (Inl (t, now, s, h, st, cur, mc)) \<Rightarrow> 2
                   | Inr (Inr (t, now, s, h, st, is, ms, mc)) \<Rightarrow> 1,
       \<lambda>c. case c of Inl (t, now, s, h, st, cur, mc) \<Rightarrow> 0
                   | Inr (Inl (t, now, s, h, st, cur, mc)) \<Rightarrow> 0
                   | Inr (Inr (t, now, s, h, st, is, ms, mc)) \<Rightarrow> length is]") auto

text \<open>The table is filled by the first call and kept; the answers are board, clock readings and status.\<close>

definition KnightTour :: "(nat \<Rightarrow> 64 word) \<Rightarrow> nat \<Rightarrow> kt_static \<Rightarrow> nat list list \<Rightarrow> chess_square_t \<Rightarrow> bool \<Rightarrow>
    (kt_static \<times> nat list list \<times> nat \<times> knight_tour_status_e) result" where
  "KnightTour now k s board start_square is_heuristic =
     (if \<not> IsValidPosition (row start_square) (column start_square) then Inr (s, board, k, FAIL)
      else bindE (if moves_table_ready s then Inr s
                  else bindE (PrecomputeValidMoves (precomputed_moves s)) (\<lambda>t.
                       Inr \<lparr>precomputed_moves = t, moves_table_ready = True\<rparr>)) (\<lambda>s.
           let start_idx = ConvertSquareToIndex start_square in
           bindE (put_cell board (row start_square) (column start_square) 1) (\<lambda>board.
           bindE (BitArrSetOn 0 start_idx) (\<lambda>visited.
           let start_time = StartTimer now k in
           bindE (KnightTourRecursive (precomputed_moves s) now start_time is_heuristic
                    \<lparr>kt_board = board, kt_visited = visited, kt_ticks = k + 1\<rparr> start_idx 2) (\<lambda>(st, result).
           Inr (s, kt_board st, kt_ticks st + 1, result))))))"

declare KnightTourRecursive.simps [simp del]
declare TryMoves.simps [simp del]

section \<open>Specification\<close>

text \<open>A knight's move between squares numbered row by row, and a tour: 64 distinct squares, one move apart.\<close>

definition knight_step :: "nat \<Rightarrow> nat \<Rightarrow> bool" where
  "knight_step a b \<longleftrightarrow>
     (let dr = \<bar>int (b div 8) - int (a div 8)\<bar>; dc = \<bar>int (b mod 8) - int (a mod 8)\<bar>
      in a < 64 \<and> b < 64 \<and> (dr = 1 \<and> dc = 2 \<or> dr = 2 \<and> dc = 1))"

definition tour_path :: "nat list \<Rightarrow> bool" where
  "tour_path ps \<longleftrightarrow> distinct ps \<and> set ps \<subseteq> {..<64} \<and> successively knight_step ps"

definition knight_tour :: "nat \<Rightarrow> nat list \<Rightarrow> bool" where
  "knight_tour start ps \<longleftrightarrow> tour_path ps \<and> length ps = 64 \<and> hd ps = start"

definition board_wf :: "nat list list \<Rightarrow> bool" where
  "board_wf b \<longleftrightarrow> length b = 8 \<and> (\<forall>r < 8. length (b ! r) = 8)"

text \<open>The board carries the numbers 1, 2, ... along the path.\<close>

definition board_shows :: "nat list list \<Rightarrow> nat list \<Rightarrow> bool" where
  "board_shows b ps \<longleftrightarrow> (\<forall>i < length ps. b ! (ps ! i div 8) ! (ps ! i mod 8) = i + 1)"

definition kt_table :: "nat list list" where
  "kt_table = map (\<lambda>i. map (precomputed_move i) [0..<8]) [0..<64]"

definition kt_static_ok :: "kt_static \<Rightarrow> bool" where
  "kt_static_ok s \<longleftrightarrow> (if moves_table_ready s then precomputed_moves s = kt_table
     else length (precomputed_moves s) = 64 \<and> (\<forall>r < 64. length (precomputed_moves s ! r) = 8))"

section \<open>The table of moves\<close>

lemma fill_row: "n \<le> length r \<Longrightarrow> fold (\<lambda>j r. r[j := f j]) [0..<n] r = map f [0..<n] @ drop n r"
proof (induction n)
  case (Suc n)
  have "drop n r = r ! n # drop (Suc n) r" using Suc.prems by (simp add: Cons_nth_drop_Suc)
  with Suc show ?case by (simp add: list_update_append)
qed simp

lemma PrecomputeValidMoves_row_eq:
  assumes "i < length t" "\<forall>j \<in> set js. j < length (t ! i)"
  shows "PrecomputeValidMoves_row i js t = Inr (t[i := fold (\<lambda>j r. r[j := precomputed_move i j]) js (t ! i)])"
  using assms by (induction js arbitrary: t) (simp_all add: put_cell_def)

lemma PrecomputeValidMoves_loop_append:
  "PrecomputeValidMoves_loop (xs @ ys) t = bindE (PrecomputeValidMoves_loop xs t) (PrecomputeValidMoves_loop ys)"
  by (induction xs arbitrary: t) (simp_all add: bindE_assoc cong: bindE_cong)

lemma PrecomputeValidMoves_loop_eq:
  assumes "n \<le> length t" "\<forall>r < length t. length (t ! r) = 8"
  shows "PrecomputeValidMoves_loop [0..<n] t = Inr (map (\<lambda>i. map (precomputed_move i) [0..<8]) [0..<n] @ drop n t)"
  using assms(1)
proof (induction n)
  case (Suc n)
  have len: "length (t ! n) = 8" using Suc.prems assms(2) by simp
  have "drop n t = t ! n # drop (Suc n) t" using Suc.prems by (simp add: Cons_nth_drop_Suc)
  then show ?case using Suc len fill_row [of 8 "t ! n" "precomputed_move n"]
    by (simp add: PrecomputeValidMoves_loop_append PrecomputeValidMoves_row_eq nth_append list_update_append
          del: upt_Suc add: upt_Suc_append)
qed simp

lemma PrecomputeValidMoves_eq:
  "length t = 64 \<Longrightarrow> \<forall>r < 64. length (t ! r) = 8 \<Longrightarrow> PrecomputeValidMoves t = Inr kt_table"
  using PrecomputeValidMoves_loop_eq [of 64 t] by (simp add: PrecomputeValidMoves_def kt_table_def del: upt_Suc)

lemma length_knight_moves_lut [simp]: "length knight_moves_lut = 8"
  by (simp add: knight_moves_lut_def)

lemma knight_lut_iff: "(dr, dc) \<in> set knight_moves_lut \<longleftrightarrow> \<bar>dr\<bar> = 1 \<and> \<bar>dc\<bar> = 2 \<or> \<bar>dr\<bar> = 2 \<and> \<bar>dc\<bar> = 1"
proof -
  have "\<bar>x\<bar> = n \<longleftrightarrow> x = n \<or> x = - n" if "0 \<le> n" for x n :: int using that by linarith
  then show ?thesis by (simp add: knight_moves_lut_def) blast
qed

lemma knight_lut_mem: "(dr, dc) = knight_moves_lut ! j \<Longrightarrow> j < 8 \<Longrightarrow> (dr, dc) \<in> set knight_moves_lut"
  by (metis length_knight_moves_lut nth_mem)

lemma size_of_int_small: "0 \<le> x \<Longrightarrow> x < 100 \<Longrightarrow> size_of_int x = nat x"
  by (simp add: size_of_int_def)

lemma precomputed_move_eq:
  assumes "i < 64" "(dr, dc) = knight_moves_lut ! j" "j < 8"
  shows "precomputed_move i j =
    (if int (i div 8) + dr \<in> {0..<8} \<and> int (i mod 8) + dc \<in> {0..<8}
     then nat (8 * (int (i div 8) + dr) + (int (i mod 8) + dc)) else 255)"
proof -
  have small: "\<bar>dr\<bar> \<le> 2" "\<bar>dc\<bar> \<le> 2" using knight_lut_mem [OF assms(2,3)] by (auto simp: knight_lut_iff)
  have eq: "fst (knight_moves_lut ! j) = dr" "snd (knight_moves_lut ! j) = dc" by (simp_all flip: assms(2))
  let ?r = "int (i div 8) + dr" and ?c = "int (i mod 8) + dc"
  have "i div 8 < 8" "i mod 8 < 8" using assms(1) by (simp_all add: less_mult_imp_div_less)
  then have lt: "?r < 100" "?c < 100" using small by linarith+
  show ?thesis
  proof (cases "0 \<le> ?r \<and> 0 \<le> ?c")
    case True
    then obtain r c where rc: "?r = int r" "?c = int c" by (metis zero_le_imp_eq_int)
    then have "size_of_int ?r = r" "size_of_int ?c = c" using lt by (simp_all add: size_of_int_small)
    moreover have "nat (8 * int r + int c) = 8 * r + c" by simp
    ultimately show ?thesis using rc
      by (simp add: precomputed_move_def eq ConvertIndexToSquare_def Let_def IsValidPosition_def ConvertSquareToIndex_def
            del: of_nat_mult of_nat_add)
  next
    case False
    then show ?thesis by (auto simp: precomputed_move_def eq ConvertIndexToSquare_def Let_def)
  qed
qed

lemma index_below: "r < 8 \<Longrightarrow> c < 8 \<Longrightarrow> 8 * r + c < (64 :: nat)"
  by simp

lemma index_split: "c < 8 \<Longrightarrow> (8 * r + c) div 8 = (r :: nat) \<and> (8 * r + c) mod 8 = c"
  by simp

text \<open>The table holds exactly the knight's moves.\<close>

lemma precomputed_moves_exact:
  assumes "i < 64"
  shows "{x. x \<in> precomputed_move i ` {..<8} \<and> x \<noteq> 255} = {x. knight_step i x}"
proof (intro set_eqI iffI; clarsimp)
  fix j :: nat
  assume j: "j < 8" and ne: "precomputed_move i j \<noteq> 255"
  obtain dr dc where d: "(dr, dc) = knight_moves_lut ! j" by (metis surj_pair)
  then have lut: "(dr, dc) \<in> set knight_moves_lut" using j by (rule knight_lut_mem)
  define r where "r = nat (int (i div 8) + dr)"
  define c where "c = nat (int (i mod 8) + dc)"
  have rc: "int r = int (i div 8) + dr" "int c = int (i mod 8) + dc" "r < 8" "c < 8"
    and "precomputed_move i j = nat (8 * int r + int c)"
    using precomputed_move_eq [OF assms d j] ne by (auto simp: r_def c_def nat_less_iff split: if_splits)
  then have "precomputed_move i j = 8 * r + c" by simp
  then show "knight_step i (precomputed_move i j)"
    using rc lut assms index_below [OF rc(3,4)] index_split [OF rc(4), of r]
    by (simp add: knight_step_def knight_lut_iff Let_def)
next
  fix x
  assume st: "knight_step i x"
  let ?dr = "int (x div 8) - int (i div 8)" and ?dc = "int (x mod 8) - int (i mod 8)"
  have x: "x < 64" and "(?dr, ?dc) \<in> set knight_moves_lut"
    using st by (auto simp: knight_step_def knight_lut_iff Let_def)
  then obtain j where j: "j < 8" "knight_moves_lut ! j = (?dr, ?dc)"
    by (auto simp: in_set_conv_nth)
  have "x div 8 < 8" "x mod 8 < 8" "8 * (x div 8) + x mod 8 = x" using x by (simp_all add: less_mult_imp_div_less)
  then have "precomputed_move i j = x"
    using precomputed_move_eq [OF assms j(2) [symmetric] j(1)] by (simp add: nat_add_distrib nat_mult_distrib)
  then show "x \<in> precomputed_move i ` {..<8} \<and> x \<noteq> 255" using j(1) x by force
qed

section \<open>Moves\<close>

lemma cell_at_table: "i < 64 \<Longrightarrow> j < 8 \<Longrightarrow> cell_at kt_table i j = Inr (precomputed_move i j)"
  by (simp add: cell_at_def kt_table_def del: upt_Suc)

lemma precomputed_move_below: "i < 64 \<Longrightarrow> j < 8 \<Longrightarrow> precomputed_move i j \<noteq> 255 \<Longrightarrow> precomputed_move i j < 64"
  using precomputed_moves_exact [of i] by (auto simp: knight_step_def Let_def set_eq_iff)

lemma BitArrSetOn_Off:
  assumes "i < 64" "i \<notin> ones b"
  shows "\<exists>b'. BitArrSetOn b i = Inr b' \<and> ones b' = insert i (ones b) \<and> BitArrSetOff b' i = Inr b"
proof -
  obtain b' where b': "BitArrSetOn b i = Inr b'" "ones b' = insert i (ones b)"
    using BitArrSetOn_bits [OF assms(1), of b] by blast
  obtain b'' where b'': "BitArrSetOff b' i = Inr b''" "ones b'' = ones b' - {i}"
    using BitArrSetOff_bits [OF assms(1), of b'] by blast
  have "ones b'' = ones b" using b' b'' assms(2) by auto
  then have "b'' = b" by (intro bit_word_eqI) (auto simp: ones_def set_eq_iff)
  then show ?thesis using b' b'' by blast
qed

lemma CountAccessibleMoves_loop_returns:
  assumes "a < 64" "\<forall>j \<in> set js. j < 8"
  shows "\<exists>n \<le> cnt + length js. CountAccessibleMoves_loop kt_table a v js cnt = Inr n"
  using assms(2)
proof (induction js arbitrary: cnt)
  case (Cons j js)
  have cell: "cell_at kt_table a j = Inr (precomputed_move a j)" using assms(1) Cons.prems by (simp add: cell_at_table)
  show ?case
  proof (cases "precomputed_move a j = 255")
    case True
    then show ?thesis using cell Cons.IH [of cnt] Cons.prems by force
  next
    case False
    then have "precomputed_move a j < 64" using precomputed_move_below assms(1) Cons.prems by simp
    then show ?thesis using cell False Cons.IH [of cnt] Cons.IH [of "cnt + 1"] Cons.prems by force
  qed
qed simp

lemma CountAccessibleMoves_returns: "a < 64 \<Longrightarrow> \<exists>n \<le> 8. CountAccessibleMoves kt_table a v = Inr n"
  using CountAccessibleMoves_loop_returns [of a "[0..<8]" 0 v] by (simp add: CountAccessibleMoves_def del: upt_Suc)

text \<open>The free squares among the moves with these indices.\<close>

definition free_moves :: "nat \<Rightarrow> bit_arr_t \<Rightarrow> nat list \<Rightarrow> nat list" where
  "free_moves a v js = filter (\<lambda>x. x \<noteq> 255 \<and> x \<notin> ones v) (map (precomputed_move a) js)"

lemma take_Suc_update: "n < length xs \<Longrightarrow> take (Suc n) (xs[n := x]) = take n xs @ [x]"
  by (simp add: take_Suc_conv_app_nth)

lemma GetValidMoves_loop_ok:
  assumes "a < 64" "\<forall>j \<in> set js. j < 8" "n + length js \<le> length ms"
  shows "\<exists>ms'. GetValidMoves_loop kt_table a v js ms n = Inr (ms', n + length (free_moves a v js)) \<and> length ms' = length ms \<and>
    take (n + length (free_moves a v js)) ms' =
      take n ms @ map (\<lambda>x. \<lparr>square_idx = x, accessibility = 0\<rparr>) (free_moves a v js)"
  using assms(2,3)
proof (induction js arbitrary: ms n)
  case (Cons j js)
  let ?x = "precomputed_move a j"
  have cell: "cell_at kt_table a j = Inr ?x" using assms(1) Cons.prems by (simp add: cell_at_table)
  have skip: ?case if "?x = 255 \<or> ?x \<in> ones v"
  proof -
    have "?x < 64" if "?x \<noteq> 255" using precomputed_move_below assms(1) Cons.prems that by simp
    then show ?thesis using that cell Cons.IH [of n ms] Cons.prems by (auto simp: free_moves_def ones_def)
  qed
  show ?case
  proof (cases "?x = 255 \<or> ?x \<in> ones v")
    case False
    then have x: "?x < 64" "\<not> bit v ?x" "?x \<noteq> 255"
      using precomputed_move_below assms(1) Cons.prems by (auto simp: ones_def)
    let ?ms = "ms[n := \<lparr>square_idx = ?x, accessibility = 0\<rparr>]"
    have "put_move ms n \<lparr>square_idx = ?x, accessibility = 0\<rparr> = Inr ?ms" using Cons.prems by (simp add: put_move_def)
    moreover have "take (Suc n) ?ms = take n ms @ [\<lparr>square_idx = ?x, accessibility = 0\<rparr>]"
      using Cons.prems by (intro take_Suc_update) simp
    ultimately show ?thesis using cell x False Cons.IH [of "n + 1" ?ms] Cons.prems by (auto simp: free_moves_def)
  qed (rule skip)
qed (simp add: free_moves_def)

lemma GetValidMoves_ok:
  assumes "a < 64" "length ms = 8"
  shows "\<exists>ms' n. GetValidMoves kt_table a v ms = Inr (ms', n) \<and> length ms' = 8 \<and> n \<le> 8 \<and>
    square_idx ` set (take n ms') = {x. knight_step a x} - ones v"
proof -
  let ?f = "free_moves a v [0..<8]"
  obtain ms' where ms': "GetValidMoves kt_table a v ms = Inr (ms', length ?f)" "length ms' = 8"
    "take (length ?f) ms' = map (\<lambda>x. \<lparr>square_idx = x, accessibility = 0\<rparr>) ?f"
    using GetValidMoves_loop_ok [OF assms(1), of "[0..<8]" 0 ms v] assms(2) by (auto simp: GetValidMoves_def simp del: upt_Suc)
  have "length ?f \<le> 8" using length_filter_le [of _ "map (precomputed_move a) [0..<8]"] by (simp add: free_moves_def del: upt_Suc)
  moreover have "square_idx ` set (take (length ?f) ms') = set ?f" by (force simp: ms'(3))
  moreover have "set ?f = {x. x \<in> precomputed_move a ` {..<8} \<and> x \<noteq> 255} - ones v"
    unfolding free_moves_def by (auto simp del: upt_Suc)
  ultimately show ?thesis using ms'(1,2) precomputed_moves_exact [OF assms(1)] by auto
qed

text \<open>The insertion sort orders the moves by accessibility and loses none.\<close>

lemma InsertionSortMoves_shift_ok:
  assumes "j < length ms"
  shows "\<exists>p \<le> j. InsertionSortMoves_shift key ms j =
      Inr (take (Suc p) ms @ take (j - p) (drop p ms) @ drop (Suc j) ms, p) \<and>
    (\<forall>m \<in> set (take (j - p) (drop p ms)). accessibility key < accessibility m) \<and>
    (p = 0 \<or> accessibility (ms ! (p - 1)) \<le> accessibility key)"
  using assms
proof (induction j arbitrary: ms)
  case 0
  then show ?case by (auto simp: Cons_nth_drop_Suc take_Suc_conv_app_nth)
next
  case (Suc j)
  have at: "move_at ms j = Inr (ms ! j)" using Suc.prems by (simp add: move_at_def)
  show ?case
  proof (cases "accessibility key < accessibility (ms ! j)")
    case True
    let ?ms = "ms[Suc j := ms ! j]"
    have put: "put_move ms (Suc j) (ms ! j) = Inr ?ms" using Suc.prems by (simp add: put_move_def)
    obtain p where p: "p \<le> j" and s: "InsertionSortMoves_shift key ?ms j =
        Inr (take (Suc p) ?ms @ take (j - p) (drop p ?ms) @ drop (Suc j) ?ms, p)"
      and big: "\<forall>m \<in> set (take (j - p) (drop p ?ms)). accessibility key < accessibility m"
      and stop: "p = 0 \<or> accessibility (?ms ! (p - 1)) \<le> accessibility key"
      using Suc.IH [of ?ms] Suc.prems by auto
    have front: "take (Suc p) ?ms = take (Suc p) ms" "take (j - p) (drop p ?ms) = take (j - p) (drop p ms)"
      using p by (simp_all add: drop_update_swap take_update_cancel)
    have grow: "take (Suc j - p) (drop p ms) = take (j - p) (drop p ms) @ [ms ! j]"
      using p Suc.prems by (simp add: Suc_diff_le take_Suc_conv_app_nth)
    have "drop (Suc j) ?ms = ms ! j # drop (Suc (Suc j)) ms"
      using Suc.prems by (simp add: drop_update_swap Cons_nth_drop_Suc [symmetric])
    then have "InsertionSortMoves_shift key ms (Suc j) =
        Inr (take (Suc p) ms @ take (Suc j - p) (drop p ms) @ drop (Suc (Suc j)) ms, p)"
      using at put s True by (simp add: front grow)
    moreover have "p = 0 \<or> accessibility (ms ! (p - 1)) \<le> accessibility key" using stop p by auto
    ultimately show ?thesis using p big True by (intro exI [of _ p]) (auto simp: front grow)
  next
    case False
    then show ?thesis using at Suc.prems by (intro exI [of _ "Suc j"]) simp
  qed
qed

lemma InsertionSortMoves_loop_append:
  "InsertionSortMoves_loop (xs @ ys) ms = bindE (InsertionSortMoves_loop xs ms) (InsertionSortMoves_loop ys)"
  by (induction xs arbitrary: ms) (simp_all add: bindE_assoc split_def cong: bindE_cong)

lemma InsertionSortMoves_round:
  assumes i: "i < length ms" and s: "sorted (map accessibility (take i ms))"
  shows "\<exists>ms'. InsertionSortMoves_loop [i] ms = Inr ms' \<and> length ms' = length ms \<and>
    sorted (map accessibility (take (Suc i) ms')) \<and> mset (take (Suc i) ms') = mset (take (Suc i) ms) \<and>
    drop (Suc i) ms' = drop (Suc i) ms"
proof -
  let ?key = "ms ! i"
  obtain p where p: "p \<le> i" and sh: "InsertionSortMoves_shift ?key ms i =
      Inr (take (Suc p) ms @ take (i - p) (drop p ms) @ drop (Suc i) ms, p)"
    and big: "\<forall>m \<in> set (take (i - p) (drop p ms)). accessibility ?key < accessibility m"
    and stop: "p = 0 \<or> accessibility (ms ! (p - 1)) \<le> accessibility ?key"
    using InsertionSortMoves_shift_ok [OF i, of ?key] by blast
  let ?mid = "take (i - p) (drop p ms)" and ?ms = "take p ms @ ?key # take (i - p) (drop p ms) @ drop (Suc i) ms"
  have "take (Suc p) ms = take p ms @ [ms ! p]" using p i by (simp add: take_Suc_conv_app_nth)
  then have "put_move (take (Suc p) ms @ ?mid @ drop (Suc i) ms) p ?key = Inr ?ms"
    using p i by (simp add: put_move_def list_update_append)
  then have loop: "InsertionSortMoves_loop [i] ms = Inr ?ms" using sh i by (simp add: move_at_def)
  have split: "take i ms = take p ms @ ?mid" using p by (metis add_diff_cancel_left' le_Suc_ex take_add)
  have sizes: "length (take p ms) = p" "length ?mid = i - p" using p i by auto
  have pre: "take (Suc i) ?ms = take p ms @ ?key # ?mid" using p sizes by (simp add: Suc_diff_le)
  have "mset (take (Suc i) ?ms) = mset (take (Suc i) ms)"
    unfolding pre using i split by (simp add: take_Suc_conv_app_nth)
  moreover have "sorted (map accessibility (take p ms @ ?key # ?mid))"
  proof -
    have srt: "sorted (map accessibility (take p ms))" "sorted (map accessibility ?mid)"
      and le: "\<forall>x \<in> set (take p ms). \<forall>y \<in> set ?mid. accessibility x \<le> accessibility y"
      using s by (auto simp: split sorted_append)
    have "accessibility x \<le> accessibility ?key" if "x \<in> set (take p ms)" for x
    proof -
      have "p \<noteq> 0" using that by (cases p) auto
      then obtain q where q: "p = Suc q" by (cases p) auto
      then have "take p ms = take q ms @ [ms ! q]" using p i by (simp add: take_Suc_conv_app_nth)
      then have "accessibility x \<le> accessibility (ms ! q)" using that srt(1) by (auto simp: sorted_append)
      then show ?thesis using stop q by simp
    qed
    then show ?thesis using srt le big by (auto simp: sorted_append less_imp_le)
  qed
  then have "sorted (map accessibility (take (Suc i) ?ms))" unfolding pre .
  moreover have "drop (Suc i) ?ms = drop (Suc i) ms" "length ?ms = length ms" using p i sizes by (auto simp: Suc_diff_le)
  ultimately show ?thesis using loop by blast
qed

lemma InsertionSortMoves_ok:
  assumes "n \<le> length ms"
  shows "\<exists>ms'. InsertionSortMoves ms n = Inr ms' \<and> length ms' = length ms \<and>
    sorted (map accessibility (take n ms')) \<and> mset (take n ms') = mset (take n ms)"
proof -
  have "\<exists>ms'. InsertionSortMoves_loop [1..<n] ms = Inr ms' \<and> length ms' = length ms \<and>
    sorted (map accessibility (take n ms')) \<and> mset (take n ms') = mset (take n ms) \<and> drop n ms' = drop n ms"
    using assms
  proof (induction n)
    case (Suc n)
    show ?case
    proof (cases "n = 0")
      case True
      then show ?thesis using Suc.prems by (cases ms) auto
    next
      case False
      obtain m1 where m1: "InsertionSortMoves_loop [1..<n] ms = Inr m1" "length m1 = length ms"
        "sorted (map accessibility (take n m1))" "mset (take n m1) = mset (take n ms)" "drop n m1 = drop n ms"
        using Suc by auto
      obtain m2 where m2: "InsertionSortMoves_loop [n] m1 = Inr m2" "length m2 = length m1"
        "sorted (map accessibility (take (Suc n) m2))" "mset (take (Suc n) m2) = mset (take (Suc n) m1)"
        "drop (Suc n) m2 = drop (Suc n) m1"
        using InsertionSortMoves_round [of n m1] m1 Suc.prems by auto
      have "m1 ! n = ms ! n" using m1(2,5) Suc.prems by (metis Suc_le_lessD hd_drop_conv_nth)
      then have "mset (take (Suc n) m1) = mset (take (Suc n) ms)"
        using m1(2,4) Suc.prems by (simp add: take_Suc_conv_app_nth)
      moreover have "drop (Suc n) m1 = drop (Suc n) ms" using m1(5) by (metis drop_Suc drop_tl)
      moreover have "[1..<Suc n] = [1..<n] @ [n]" using False by simp
      ultimately show ?thesis using m1(1,2) m2 by (simp add: InsertionSortMoves_loop_append del: upt_Suc)
    qed
  qed simp
  then show ?thesis by (auto simp: InsertionSortMoves_def)
qed

lemma TryMoves_rate_ok:
  assumes "\<forall>i \<in> set js. i < length ms \<and> square_idx (ms ! i) < 64 \<and> square_idx (ms ! i) \<notin> ones v"
  shows "\<exists>ms'. TryMoves_rate kt_table js ms v = Inr (ms', v) \<and> map square_idx ms' = map square_idx ms"
  using assms
proof (induction js arbitrary: ms)
  case (Cons i js)
  let ?q = "square_idx (ms ! i)"
  have i: "i < length ms" "?q < 64" "?q \<notin> ones v" using Cons.prems by auto
  obtain v' where v': "BitArrSetOn v ?q = Inr v'" "BitArrSetOff v' ?q = Inr v" using BitArrSetOn_Off [OF i(2,3)] by blast
  obtain n where n: "CountAccessibleMoves kt_table ?q v' = Inr n" using CountAccessibleMoves_returns [OF i(2)] by blast
  let ?ms = "ms[i := (ms ! i)\<lparr>accessibility := n\<rparr>]"
  have same: "map square_idx ?ms = map square_idx ms" using i(1) by (simp add: map_update list_update_same_conv)
  then have "square_idx (?ms ! k) = square_idx (ms ! k)" if "k < length ms" for k
    using that by (metis length_list_update nth_map)
  then have "\<forall>k \<in> set js. k < length ?ms \<and> square_idx (?ms ! k) < 64 \<and> square_idx (?ms ! k) \<notin> ones v"
    using Cons.prems by auto
  from Cons.IH [OF this] show ?case using i(1) v' n same by (auto simp: move_at_def put_move_def)
qed simp

lemma TryMoves_order_ok:
  assumes "n \<le> length ms" "\<forall>m \<in> set (take n ms). square_idx m < 64 \<and> square_idx m \<notin> ones v"
  shows "\<exists>ms'. TryMoves_order kt_table h n ms v = Inr (ms', v) \<and> length ms' = length ms \<and>
    square_idx ` set (take n ms') = square_idx ` set (take n ms)"
proof (cases h)
  case True
  have "\<forall>i \<in> set [0..<n]. i < length ms \<and> square_idx (ms ! i) < 64 \<and> square_idx (ms ! i) \<notin> ones v"
    using assms by (auto simp: set_conv_nth)
  then obtain m1 where m1: "TryMoves_rate kt_table [0..<n] ms v = Inr (m1, v)" "map square_idx m1 = map square_idx ms"
    using TryMoves_rate_ok by blast
  have len: "length m1 = length ms" using m1(2) map_eq_imp_length_eq by blast
  then obtain m2 where m2: "InsertionSortMoves m1 n = Inr m2" "length m2 = length m1" "mset (take n m2) = mset (take n m1)"
    using InsertionSortMoves_ok [of n m1] assms(1) by auto
  have "square_idx ` set (take n m2) = square_idx ` set (take n m1)" using m2(3) by (metis set_mset_mset)
  also have "\<dots> = square_idx ` set (take n ms)" using m1(2) by (metis list.set_map take_map)
  finally show ?thesis using True m1(1) m2 len by (simp add: TryMoves_order_def)
qed (simp add: TryMoves_order_def)

section \<open>The search\<close>

definition path_state :: "kt_state \<Rightarrow> nat list \<Rightarrow> bool" where
  "path_state st path \<longleftrightarrow> tour_path path \<and> path \<noteq> [] \<and> ones (kt_visited st) = set path \<and>
     board_wf (kt_board st) \<and> board_shows (kt_board st) path"

definition completes :: "nat list \<Rightarrow> nat list \<Rightarrow> bool" where
  "completes path ps \<longleftrightarrow> (\<exists>qs. ps = path @ qs) \<and> tour_path ps \<and> length ps = 64"

text \<open>
  What the search promises after a path: a tour that continues it, or the squares \<open>qs\<close> exhausted
  and everything as before, or a clock reading past the limit.
\<close>

definition search_answer :: "(nat \<Rightarrow> 64 word) \<Rightarrow> 64 word \<Rightarrow> nat list \<Rightarrow> nat \<Rightarrow> nat set \<Rightarrow> kt_state \<Rightarrow>
    knight_tour_status_e \<Rightarrow> bool" where
  "search_answer now start_time path k Q st r \<longleftrightarrow> board_wf (kt_board st) \<and> k \<le> kt_ticks st \<and>
     (case r of
        SUCCESS \<Rightarrow> \<exists>ps. completes path ps \<and> board_shows (kt_board st) ps
      | FAIL \<Rightarrow> path_state st path \<and> length path < 64 \<and> (\<forall>q \<in> Q. \<forall>ps. \<not> completes (path @ [q]) ps)
      | TIMEOUT \<Rightarrow> \<exists>j. k \<le> j \<and> j < kt_ticks st \<and> TIMEOUT_TIME < unat (now j - start_time))"

lemma put_cell_ok:
  assumes "board_wf b" "q < 64"
  shows "\<exists>b'. put_cell b (q div 8) (q mod 8) v = Inr b' \<and> board_wf b' \<and>
    (\<forall>x < 64. b' ! (x div 8) ! (x mod 8) = (if x = q then v else b ! (x div 8) ! (x mod 8)))"
proof -
  let ?b = "b[q div 8 := (b ! (q div 8))[q mod 8 := v]]"
  have q: "q div 8 < 8" "q mod 8 < 8" using assms(2) by (simp_all add: less_mult_imp_div_less)
  have "x = q" if "x div 8 = q div 8" "x mod 8 = q mod 8" for x using that by (metis div_mult_mod_eq)
  then show ?thesis using assms q by (intro exI [of _ ?b]) (auto simp: put_cell_def board_wf_def nth_list_update)
qed

lemma tour_path_snoc:
  "tour_path (path @ [q]) \<longleftrightarrow> tour_path path \<and> q < 64 \<and> q \<notin> set path \<and> (path = [] \<or> knight_step (last path) q)"
  by (auto simp: tour_path_def successively_append_iff)

lemma board_shows_cong:
  assumes "board_shows b path" "tour_path path" "\<forall>x \<in> set path. b' ! (x div 8) ! (x mod 8) = b ! (x div 8) ! (x mod 8)"
  shows "board_shows b' path"
  using assms by (auto simp: board_shows_def)

lemma path_state_step:
  assumes "path_state st path" "tour_path (path @ [q])"
  shows "\<exists>b v. put_cell (kt_board st) (q div 8) (q mod 8) (length path + 1) = Inr b \<and>
    BitArrSetOn (kt_visited st) q = Inr v \<and> path_state (st\<lparr>kt_board := b, kt_visited := v\<rparr>) (path @ [q])"
proof -
  have q: "q < 64" "q \<notin> set path" using assms(2) by (auto simp: tour_path_snoc)
  obtain v where v: "BitArrSetOn (kt_visited st) q = Inr v" "ones v = insert q (ones (kt_visited st))"
    using BitArrSetOn_bits [OF q(1)] by blast
  obtain b where b: "put_cell (kt_board st) (q div 8) (q mod 8) (length path + 1) = Inr b" "board_wf b"
    "\<forall>x < 64. b ! (x div 8) ! (x mod 8) = (if x = q then length path + 1 else kt_board st ! (x div 8) ! (x mod 8))"
    using put_cell_ok [OF _ q(1)] assms(1) unfolding path_state_def by blast
  have "board_shows b path"
    by (rule board_shows_cong [of "kt_board st"]) (use assms b(3) q in \<open>auto simp: path_state_def tour_path_def\<close>)
  then have "board_shows b (path @ [q])" using b(3) q by (auto simp: board_shows_def nth_append less_Suc_eq)
  then show ?thesis using assms b v by (auto simp: path_state_def)
qed

lemma path_state_back:
  assumes "path_state st (path @ [q])" "path \<noteq> []"
  shows "\<exists>b v. put_cell (kt_board st) (q div 8) (q mod 8) 0 = Inr b \<and>
    BitArrSetOff (kt_visited st) q = Inr v \<and> path_state (st\<lparr>kt_board := b, kt_visited := v\<rparr>) path"
proof -
  have q: "q < 64" "q \<notin> set path" "tour_path path" using assms by (auto simp: path_state_def tour_path_snoc)
  obtain v where v: "BitArrSetOff (kt_visited st) q = Inr v" "ones v = ones (kt_visited st) - {q}"
    using BitArrSetOff_bits [OF q(1)] by blast
  obtain b where b: "put_cell (kt_board st) (q div 8) (q mod 8) 0 = Inr b" "board_wf b"
    "\<forall>x < 64. b ! (x div 8) ! (x mod 8) = (if x = q then 0 else kt_board st ! (x div 8) ! (x mod 8))"
    using put_cell_ok [OF _ q(1)] assms(1) unfolding path_state_def by blast
  have "board_shows (kt_board st) path" using assms(1) by (auto simp: path_state_def board_shows_def nth_append split: if_splits)
  then have "board_shows b path"
    by (rule board_shows_cong) (use assms b(3) q in \<open>auto simp: path_state_def tour_path_def\<close>)
  moreover have "ones v = set path" using v(2) assms(1) q(2) by (auto simp: path_state_def)
  ultimately show ?thesis using assms(2) b v(1) q(3) by (auto simp: path_state_def)
qed

lemma completes_snocD: "completes (path @ [q]) ps \<Longrightarrow> completes path ps"
  by (auto simp: completes_def)

lemma tour_path_length: "tour_path path \<Longrightarrow> length path \<le> 64"
  using card_mono [of "{..<64}" "set path"] by (auto simp: tour_path_def distinct_card)

lemma tour_path_prefix: "tour_path (xs @ ys) \<Longrightarrow> tour_path xs"
  by (simp add: tour_path_def successively_append_iff)

lemma completes_next: "completes (path @ [q]) ps \<Longrightarrow> tour_path (path @ [q])"
  unfolding completes_def using tour_path_prefix by blast

lemma completes_extends:
  assumes "completes path ps" "length path < 64"
  shows "\<exists>q. completes (path @ [q]) ps"
proof -
  from assms(1) obtain qs where qs: "ps = path @ qs" "length ps = 64" "tour_path ps" by (auto simp: completes_def)
  then obtain q qs' where "qs = q # qs'" using assms(2) by (cases qs) auto
  then have "completes (path @ [q]) ps" using qs by (simp add: completes_def)
  then show ?thesis ..
qed

lemma search_answer_mono:
  assumes "search_answer now s path k Q st r" "k' \<le> k" "{q. tour_path (path @ [q])} \<inter> Q' \<subseteq> Q"
  shows "search_answer now s path k' Q' st r"
proof (cases r)
  case FAIL
  have "\<not> completes (path @ [q]) ps" if "q \<in> Q'" for q ps
    using completes_next [of path q ps] assms(1,3) that FAIL by (auto simp: search_answer_def)
  then show ?thesis using assms(1,2) FAIL by (auto simp: search_answer_def)
next
  case TIMEOUT
  then show ?thesis using assms(1,2) by (auto simp: search_answer_def intro: le_trans)
qed (use assms(1,2) in \<open>auto simp: search_answer_def\<close>)

lemma image_nth_take:
  assumes "n \<le> length xs"
  shows "(\<lambda>i. f (xs ! i)) ` set [0..<n] = f ` set (take n xs)"
proof -
  have "take n xs = map ((!) xs) [0..<n]" using assms by (intro nth_equalityI) auto
  then show ?thesis by (auto simp del: set_upt)
qed

lemma search_answers:
  fixes now :: "nat \<Rightarrow> 64 word" and start_time :: "64 word"
  shows "t = kt_table \<Longrightarrow> path_state st path \<Longrightarrow> last path = cur \<Longrightarrow> mc = length path + 1 \<Longrightarrow>
      \<exists>st' r. KnightTourRecursive t now start_time h st cur mc = Inr (st', r) \<and>
        search_answer now start_time path (kt_ticks st) UNIV st' r"
    and "t = kt_table \<Longrightarrow> path_state st path \<Longrightarrow> last path = cur \<Longrightarrow> mc = length path + 1 \<Longrightarrow> length path < 64 \<Longrightarrow>
      \<exists>st' r. TryMoves t now start_time h st cur mc = Inr (st', r) \<and>
        search_answer now start_time path (kt_ticks st) UNIV st' r"
    and "t = kt_table \<Longrightarrow> path_state st path \<Longrightarrow> mc = length path + 1 \<Longrightarrow> length path < 64 \<Longrightarrow>
      \<forall>i \<in> set is. i < length ms \<and> tour_path (path @ [square_idx (ms ! i)]) \<Longrightarrow>
      \<exists>st' r. TryMoves_loop t now start_time h st is ms mc = Inr (st', r) \<and>
        search_answer now start_time path (kt_ticks st) ((\<lambda>i. square_idx (ms ! i)) ` set is) st' r"
proof (induction t now start_time h st cur mc and t now start_time h st cur mc and t now start_time h st "is" ms mc
    arbitrary: path and path and path rule: KnightTourRecursive_TryMoves_TryMoves_loop.induct)
  case (1 t now start_time h st cur mc)
  let ?el = "EndTimer now (kt_ticks st) start_time" and ?st = "st\<lparr>kt_ticks := kt_ticks st + 1\<rparr>"
  have ps: "path_state ?st path" using "1.prems"(2) by (simp add: path_state_def)
  consider "300 < ?el" | "\<not> 300 < ?el" "64 < mc" | "\<not> 300 < ?el" "\<not> 64 < mc" by blast
  then show ?case
  proof cases
    case 1
    then show ?thesis using ps
      by (auto simp: KnightTourRecursive.simps Let_def search_answer_def path_state_def EndTimer_def)
  next
    case 2
    have "length path = 64" using 2 "1.prems"(4) tour_path_length [of path] ps by (auto simp: path_state_def)
    then have "completes path path" using ps by (auto simp: completes_def path_state_def)
    then show ?thesis using 2 ps by (auto simp: KnightTourRecursive.simps Let_def search_answer_def path_state_def)
  next
    case 3
    have "length path < 64" using 3 "1.prems"(4) by simp
    from "1.IH" [OF refl refl 3 "1.prems"(1) ps "1.prems"(3,4) this] obtain st' r where
      s: "TryMoves t now start_time h ?st cur mc = Inr (st', r)"
         "search_answer now start_time path (kt_ticks ?st) UNIV st' r" by blast
    have "KnightTourRecursive t now start_time h st cur mc = Inr (st', r)"
      using 3 s(1) by (simp add: KnightTourRecursive.simps Let_def)
    moreover have "search_answer now start_time path (kt_ticks st) UNIV st' r"
      by (rule search_answer_mono [OF s(2)]) auto
    ultimately show ?thesis by blast
  qed
next
  case (2 t now start_time h st cur mc)
  let ?ms0 = "replicate 8 \<lparr>square_idx = 0, accessibility = 0\<rparr>"
  have tp: "tour_path path" "path \<noteq> []" "ones (kt_visited st) = set path" using "2.prems"(2) by (auto simp: path_state_def)
  then have cur: "cur < 64" using "2.prems"(3) last_in_set [of path] by (auto simp: tour_path_def)
  obtain m1 n where m1: "GetValidMoves t cur (kt_visited st) ?ms0 = Inr (m1, n)" "length m1 = 8" "n \<le> 8"
    "square_idx ` set (take n m1) = {x. knight_step cur x} - set path"
    using GetValidMoves_ok [OF cur, of ?ms0 "kt_visited st"] tp(3) "2.prems"(1) by auto
  have "\<forall>m \<in> set (take n m1). square_idx m < 64 \<and> square_idx m \<notin> ones (kt_visited st)"
    using m1(4) tp(3) by (auto simp: knight_step_def Let_def image_iff set_eq_iff)
  then obtain m2 where m2: "TryMoves_order t h n m1 (kt_visited st) = Inr (m2, kt_visited st)" "length m2 = 8"
    "square_idx ` set (take n m2) = {x. knight_step cur x} - set path"
    using TryMoves_order_ok [of n m1 "kt_visited st" h] m1 "2.prems"(1) by auto
  have sq: "(\<lambda>i. square_idx (m2 ! i)) ` set [0..<n] = {x. knight_step cur x} - set path"
    unfolding m2(3) [symmetric] using m1(3) m2(2) by (intro image_nth_take) simp
  have "tour_path (path @ [square_idx (m2 ! i)])" if "i \<in> set [0..<n]" for i
  proof -
    have "square_idx (m2 ! i) \<in> {x. knight_step cur x} - set path" unfolding sq [symmetric] using that by (rule imageI)
    then show ?thesis using tp "2.prems"(3) by (auto simp: tour_path_snoc knight_step_def Let_def)
  qed
  then have "\<forall>i \<in> set [0..<n]. i < length m2 \<and> tour_path (path @ [square_idx (m2 ! i)])" using m1(3) m2(2) by auto
  from "2.IH" [OF m1(1) refl m2(1) refl "2.prems"(1) _ "2.prems"(4,5) this] "2.prems"(2)
  obtain st' r where s: "TryMoves_loop t now start_time h st [0..<n] m2 mc = Inr (st', r)"
    "search_answer now start_time path (kt_ticks st) ({x. knight_step cur x} - set path) st' r"
    unfolding sq by auto
  have "search_answer now start_time path (kt_ticks st) UNIV st' r"
    by (rule search_answer_mono [OF s(2)]) (use tp(2) "2.prems"(3) in \<open>auto simp: tour_path_snoc\<close>)
  then show ?case using m1(1) m2(1) s(1) by (auto simp: TryMoves.simps)
next
  case (3 t now start_time h st ms mc)
  then show ?case by (auto simp: search_answer_def path_state_def)
next
  case (4 t now start_time h st i "is" ms mc)
  let ?q = "square_idx (ms ! i)"
  let ?Q = "(\<lambda>i. square_idx (ms ! i)) ` set (i # is)"
  have i: "i < length ms" "tour_path (path @ [?q])" and rest: "\<forall>i \<in> set is. i < length ms \<and> tour_path (path @ [square_idx (ms ! i)])"
    using "4.prems"(5) by auto
  have at: "move_at ms i = Inr (ms ! i)" using i(1) by (simp add: move_at_def)
  obtain b v where bv: "put_cell (kt_board st) (?q div 8) (?q mod 8) mc = Inr b" "BitArrSetOn (kt_visited st) ?q = Inr v"
    and ps: "path_state (st\<lparr>kt_board := b, kt_visited := v\<rparr>) (path @ [?q])"
    using path_state_step [OF "4.prems"(2) i(2)] "4.prems"(3) by auto
  note sq = ConvertIndexToSquare_def [of ?q]
  let ?st = "st\<lparr>kt_board := b, kt_visited := v\<rparr>"
  have "\<exists>st' r. KnightTourRecursive t now start_time h ?st ?q (mc + 1) = Inr (st', r) \<and>
      search_answer now start_time (path @ [?q]) (kt_ticks ?st) UNIV st' r"
    using "4.IH"(1) [OF at refl _ bv(2) "4.prems"(1) ps] bv(1) "4.prems"(3) by (simp add: sq)
  then obtain s1 r1 where s1: "KnightTourRecursive t now start_time h ?st ?q (mc + 1) = Inr (s1, r1)"
    "search_answer now start_time (path @ [?q]) (kt_ticks st) UNIV s1 r1" by auto
  show ?case
  proof (cases "r1 = FAIL")
    case False
    have "search_answer now start_time path (kt_ticks st) ?Q s1 r1"
      using s1(2) False completes_snocD [of path ?q] by (auto simp: search_answer_def split: knight_tour_status_e.splits)
    then show ?thesis using at bv s1(1) False by (auto simp: sq Let_def)
  next
    case True
    then have f: "path_state s1 (path @ [?q])" "length (path @ [?q]) < 64" "kt_ticks st \<le> kt_ticks s1"
      "\<And>q ps. \<not> completes ((path @ [?q]) @ [q]) ps"
      using s1(2) by (auto simp: search_answer_def)
    have none: "\<not> completes (path @ [?q]) ps" for ps using completes_extends [OF _ f(2)] f(4) by blast
    obtain b' v' where bv': "put_cell (kt_board s1) (?q div 8) (?q mod 8) 0 = Inr b'" "BitArrSetOff (kt_visited s1) ?q = Inr v'"
      and ps': "path_state (s1\<lparr>kt_board := b', kt_visited := v'\<rparr>) path"
      using path_state_back [OF f(1)] "4.prems"(2) by (auto simp: path_state_def)
    let ?s = "s1\<lparr>kt_board := b', kt_visited := v'\<rparr>"
    have "\<exists>st' r. TryMoves_loop t now start_time h ?s is ms mc = Inr (st', r) \<and>
        search_answer now start_time path (kt_ticks ?s) ((\<lambda>i. square_idx (ms ! i)) ` set is) st' r"
      using "4.IH"(2) [OF at refl _ bv(2) s1(1) refl _ _ bv'(2) "4.prems"(1) ps' "4.prems"(3,4) rest] bv(1) bv'(1) True
      by (simp add: sq)
    then obtain s2 r2 where s2: "TryMoves_loop t now start_time h ?s is ms mc = Inr (s2, r2)"
      "search_answer now start_time path (kt_ticks s1) ((\<lambda>i. square_idx (ms ! i)) ` set is) s2 r2" by auto
    have "search_answer now start_time path (kt_ticks st) ?Q s2 r2"
      using s2(2) f(3) none by (auto simp: search_answer_def split: knight_tour_status_e.splits intro: le_trans)
    then show ?thesis using at bv s1(1) True bv' s2(1) by (auto simp: sq Let_def)
  qed
qed

section \<open>The whole call\<close>

text \<open>One closed tour gives a tour from every square: it is entered at that square.\<close>

definition closed_tour :: "nat list" where
  "closed_tour =
     [0, 17, 32, 49, 59, 53, 63, 46, 61, 55, 38, 23, 6, 12, 2, 8, 25, 40, 57, 51, 34, 24, 9, 3, 13, 7, 22, 39, 54, 44,
      29, 19, 4, 14, 31, 21, 15, 5, 11, 1, 18, 28, 45, 62, 47, 30, 36, 42, 48, 58, 52, 35, 41, 56, 50, 60, 43, 37, 27,
      33, 16, 26, 20, 10]"

lemma closed_tour_ok: "tour_path closed_tour \<and> length closed_tour = 64 \<and> knight_step (last closed_tour) (hd closed_tour)"
  by (simp add: closed_tour_def tour_path_def knight_step_def)

lemma tour_from_everywhere:
  assumes "s < 64"
  shows "\<exists>ps. knight_tour s ps"
proof -
  have "card (set closed_tour) = card {..<64::nat}" using closed_tour_ok by (simp add: tour_path_def distinct_card)
  then have "set closed_tour = {..<64}" using closed_tour_ok by (intro card_subset_eq) (auto simp: tour_path_def)
  then have "s \<in> set closed_tour" using assms by simp
  then obtain xs ys where split: "closed_tour = xs @ s # ys" using split_list by fast
  have "successively knight_step (xs @ s # ys)" using closed_tour_ok by (simp add: tour_path_def split)
  then have "successively knight_step xs" "successively knight_step (s # ys)" by (simp_all only: successively_append_iff)
  then have "successively knight_step ((s # ys) @ xs)"
    unfolding successively_append_iff using closed_tour_ok by (auto simp: split hd_append split: if_splits)
  then have "knight_tour s ((s # ys) @ xs)"
    using closed_tour_ok by (auto simp: knight_tour_def tour_path_def split simp del: successively.simps)
  then show ?thesis ..
qed

lemma KnightTour_ok:
  assumes s: "kt_static_ok s" and b: "board_wf board" and sq: "row sq < 8" "column sq < 8"
  shows "\<exists>s' board' k' r. KnightTour now k s board sq h = Inr (s', board', k', r) \<and> kt_static_ok s' \<and> board_wf board' \<and>
    (r = SUCCESS \<and> (\<exists>ps. knight_tour (8 * row sq + column sq) ps \<and> board_shows board' ps) \<or>
     r = TIMEOUT \<and> (\<exists>j. k < j \<and> j < k' \<and> 300 < unat (now j - now k)))"
proof -
  let ?q = "8 * row sq + column sq"
  let ?s = "\<lparr>precomputed_moves = kt_table, moves_table_ready = True\<rparr>"
  have q: "?q < 64" "?q div 8 = row sq" "?q mod 8 = column sq" using sq by simp_all
  then have idx: "ConvertSquareToIndex sq = ?q" by (simp add: ConvertSquareToIndex_def)
  have tab: "(if moves_table_ready s then Inr s
      else bindE (PrecomputeValidMoves (precomputed_moves s)) (\<lambda>t. Inr \<lparr>precomputed_moves = t, moves_table_ready = True\<rparr>)) = Inr ?s"
    using s PrecomputeValidMoves_eq [of "precomputed_moves s"] by (cases s) (auto simp: kt_static_ok_def)
  obtain b1 where b1: "put_cell board (row sq) (column sq) 1 = Inr b1" "board_wf b1" "b1 ! row sq ! column sq = 1"
    using put_cell_ok [OF b q(1), of 1] q by auto
  obtain v where v: "BitArrSetOn 0 ?q = Inr v" "ones v = {?q}"
    using BitArrSetOn_bits [OF q(1), of 0] by (auto simp: ones_def)
  let ?st = "\<lparr>kt_board = b1, kt_visited = v, kt_ticks = k + 1\<rparr>"
  have ps: "path_state ?st [?q]" using b1 v q by (simp add: path_state_def tour_path_def board_shows_def)
  obtain st r where r: "KnightTourRecursive kt_table now (now k) h ?st ?q 2 = Inr (st, r)"
    "search_answer now (now k) [?q] (k + 1) UNIV st r"
    using search_answers(1) [OF refl ps, of ?q 2 now "now k" h] by auto
  have res: "KnightTour now k s board sq h = Inr (?s, kt_board st, kt_ticks st + 1, r)"
    using sq tab b1(1) v(1) r(1) by (simp add: KnightTour_def IsValidPosition_def idx StartTimer_def)
  have tour: "completes [?q] ps \<longleftrightarrow> knight_tour ?q ps" for ps
    by (cases ps) (auto simp: completes_def knight_tour_def)
  have "r \<noteq> FAIL"
  proof
    assume "r = FAIL"
    then have "\<not> completes ([?q] @ [x]) ps" for x ps using r(2) by (auto simp: search_answer_def)
    then have "\<not> knight_tour ?q ps" for ps using completes_extends [of "[?q]" ps] tour by auto
    then show False using tour_from_everywhere [OF q(1)] by blast
  qed
  then have "(r = SUCCESS \<and> (\<exists>ps. knight_tour ?q ps \<and> board_shows (kt_board st) ps) \<or>
     r = TIMEOUT \<and> (\<exists>j. k < j \<and> j < kt_ticks st + 1 \<and> 300 < unat (now j - now k)))"
    using r(2) by (cases r) (auto simp: search_answer_def tour less_SucI Suc_le_eq)
  moreover have "board_wf (kt_board st)" "kt_static_ok ?s" using r(2) by (auto simp: search_answer_def kt_static_ok_def)
  ultimately show ?thesis using res by blast
qed

lemma kt_static_init_ok: "kt_static_ok kt_static_init"
  by (simp add: kt_static_ok_def kt_static_init_def)

text \<open>A start outside the board is refused and nothing is written.\<close>

lemma KnightTour_outside: "8 \<le> row sq \<or> 8 \<le> column sq \<Longrightarrow> KnightTour now k s board sq h = Inr (s, board, k, FAIL)"
  by (auto simp: KnightTour_def IsValidPosition_def)

end
