(* ===== verification/Stack.thy ===== *)
theory Stack
  imports Prelude
begin

text \<open>
  The bounded stack of \<open>ds/src/stack.c\<close>: \<open>capacity\<close> slots of \<open>element_size\<close> bytes and the
  index of the first free one. \<open>stack_refines\<close> shows that it is a list with push and pop
  at the end. The calculator and the recursion exercises are its clients.
\<close>

section \<open>Definitions\<close>

record stack_t =
  s_top :: nat
  s_element_size :: nat
  s_capacity :: nat
  s_elements :: "byte list"

definition StackCreate :: "bool \<Rightarrow> alloc \<Rightarrow> nat \<Rightarrow> nat \<Rightarrow> stack_t option" where
  "StackCreate struct_ok a capacity element_size =
     (if capacity = 0 \<or> element_size = 0 then None
      else if \<not> struct_ok then None
      else case malloc_block a (szmul capacity element_size) of
             None \<Rightarrow> None
           | Some buffer \<Rightarrow> Some \<lparr>s_top = 0, s_element_size = element_size,
                                s_capacity = capacity, s_elements = buffer\<rparr>)"

text \<open>Both branches leave no stack behind: NULL is ignored, anything else is freed.\<close>

definition StackDestroy :: "stack_t option \<Rightarrow> stack_t option" where
  "StackDestroy stack = None"

definition StackPush :: "stack_t \<Rightarrow> byte list \<Rightarrow> stack_t result" where
  "StackPush stack element =
     bindE (assertE (s_top stack < s_capacity stack)) (\<lambda>_.
     let byte_offset = szmul (s_top stack) (s_element_size stack)
     in bindE (read_bytes element 0 (s_element_size stack)) (\<lambda>bs.
        bindE (write_bytes (s_elements stack) byte_offset bs) (\<lambda>elements.
        Inr (stack\<lparr>s_elements := elements, s_top := s_top stack + 1\<rparr>))))"

definition StackPop :: "stack_t \<Rightarrow> stack_t result" where
  "StackPop stack =
     bindE (assertE (s_top stack > 0)) (\<lambda>_. Inr (stack\<lparr>s_top := s_top stack - 1\<rparr>))"

text \<open>The pointer \<open>StackPeek\<close> returns is an offset in \<open>elements\<close>; \<open>stack_load\<close> reads through it.\<close>

definition StackPeek :: "stack_t \<Rightarrow> nat result" where
  "StackPeek stack =
     bindE (assertE (s_top stack > 0)) (\<lambda>_. Inr (szmul (s_top stack - 1) (s_element_size stack)))"

definition stack_load :: "stack_t \<Rightarrow> nat \<Rightarrow> nat \<Rightarrow> byte list result" where
  "stack_load stack off n = read_bytes (s_elements stack) off n"

definition StackSize :: "stack_t \<Rightarrow> nat" where
  "StackSize stack = s_top stack"

definition StackIsEmpty :: "stack_t \<Rightarrow> bool" where
  "StackIsEmpty stack \<longleftrightarrow> 0 = s_top stack"

definition StackCapacity :: "stack_t \<Rightarrow> nat" where
  "StackCapacity stack = s_capacity stack"

section \<open>Specification\<close>

definition stack_wf :: "stack_t \<Rightarrow> bool" where
  "stack_wf s \<longleftrightarrow> 0 < s_element_size s \<and> s_top s \<le> s_capacity s \<and>
     length (s_elements s) = s_capacity s * s_element_size s \<and>
     s_capacity s * s_element_size s < 2 ^ 64"

definition stack_elems :: "stack_t \<Rightarrow> byte list list" where
  "stack_elems s = chunks (s_element_size s) (s_elements s) (s_top s)"

text \<open>The abstract stack: element width, capacity, elements from bottom to top.\<close>

type_synonym stack_abs = "nat \<times> nat \<times> byte list list"

definition stack_abs :: "stack_t \<Rightarrow> stack_abs" where
  "stack_abs s = (s_element_size s, s_capacity s, stack_elems s)"

datatype stack_call = S_Push "byte list" | S_Pop | S_Peek | S_Size | S_IsEmpty | S_Capacity

datatype stack_out = S_Done | S_Bytes "byte list" | S_Nat nat | S_Bool bool

fun stack_step :: "stack_call \<Rightarrow> stack_t \<Rightarrow> (stack_t \<times> stack_out) result" where
  "stack_step (S_Push e) s = bindE (StackPush s e) (\<lambda>s'. Inr (s', S_Done))"
| "stack_step S_Pop s = bindE (StackPop s) (\<lambda>s'. Inr (s', S_Done))"
| "stack_step S_Peek s =
     bindE (StackPeek s) (\<lambda>off. bindE (stack_load s off (s_element_size s)) (\<lambda>bs. Inr (s, S_Bytes bs)))"
| "stack_step S_Size s = Inr (s, S_Nat (StackSize s))"
| "stack_step S_IsEmpty s = Inr (s, S_Bool (StackIsEmpty s))"
| "stack_step S_Capacity s = Inr (s, S_Nat (StackCapacity s))"

fun stack_spec :: "stack_call \<Rightarrow> stack_abs \<Rightarrow> stack_abs \<times> stack_out" where
  "stack_spec (S_Push e) (es, cap, xs) = ((es, cap, xs @ [take es e]), S_Done)"
| "stack_spec S_Pop (es, cap, xs) = ((es, cap, butlast xs), S_Done)"
| "stack_spec S_Peek (es, cap, xs) = ((es, cap, xs), S_Bytes (last xs))"
| "stack_spec S_Size (es, cap, xs) = ((es, cap, xs), S_Nat (length xs))"
| "stack_spec S_IsEmpty (es, cap, xs) = ((es, cap, xs), S_Bool (xs = []))"
| "stack_spec S_Capacity (es, cap, xs) = ((es, cap, xs), S_Nat cap)"

fun stack_pre :: "stack_call \<Rightarrow> stack_abs \<Rightarrow> bool" where
  "stack_pre (S_Push e) (es, cap, xs) = (length xs < cap \<and> es \<le> length e)"
| "stack_pre S_Pop (es, cap, xs) = (xs \<noteq> [])"
| "stack_pre S_Peek (es, cap, xs) = (xs \<noteq> [])"
| "stack_pre c a = True"

section \<open>Correctness\<close>

lemma StackPush_ok:
  assumes "stack_wf s" "s_top s < s_capacity s" "s_element_size s \<le> length e"
  shows "\<exists>s'. StackPush s e = Inr s' \<and> stack_wf s' \<and>
    stack_abs s' = (s_element_size s, s_capacity s, stack_elems s @ [take (s_element_size s) e])"
proof -
  let ?es = "s_element_size s" and ?n = "s_top s" and ?buf = "s_elements s"
  let ?bs = "take ?es e"
  let ?new = "take (?n * ?es) ?buf @ ?bs @ drop (?n * ?es + ?es) ?buf"
  have "?n * ?es + ?es \<le> s_capacity s * ?es" using assms(2) by (rule chunk_bound)
  with assms(1) have len: "?n * ?es + ?es \<le> length ?buf" and small: "?n * ?es < 2 ^ 64"
    by (auto simp: stack_wf_def)
  have bs: "length ?bs = ?es" using assms(3) by simp
  have "StackPush s e = Inr (s\<lparr>s_elements := ?new, s_top := Suc ?n\<rparr>)"
    using assms(2,3) len small
    by (simp add: StackPush_def read_bytes_ok write_bytes_ok min_absorb2)
  moreover have "stack_wf (s\<lparr>s_elements := ?new, s_top := Suc ?n\<rparr>)"
    using assms len by (auto simp: stack_wf_def)
  moreover have "chunks ?es ?new (Suc ?n) = (chunks ?es ?buf (Suc ?n))[?n := ?bs]"
    by (rule chunks_write [OF bs len])
  then have "chunks ?es ?new (Suc ?n) = stack_elems s @ [?bs]"
    by (simp add: chunks_Suc [of ?es ?buf] list_update_append stack_elems_def)
  ultimately show ?thesis by (simp add: stack_abs_def stack_elems_def)
qed

lemma StackPop_ok:
  assumes "stack_wf s" "0 < s_top s"
  shows "\<exists>s'. StackPop s = Inr s' \<and> stack_wf s' \<and>
    stack_abs s' = (s_element_size s, s_capacity s, butlast (stack_elems s))"
  using assms by (auto simp: StackPop_def stack_wf_def stack_abs_def stack_elems_def butlast_chunks)

lemma StackPeek_ok:
  assumes "stack_wf s" "0 < s_top s"
  shows "bindE (StackPeek s) (\<lambda>off. stack_load s off (s_element_size s)) = Inr (last (stack_elems s))"
proof -
  let ?i = "s_top s - 1"
  have i: "?i < s_top s" using assms(2) by simp
  have "?i * s_element_size s + s_element_size s \<le> s_capacity s * s_element_size s"
    using assms by (intro chunk_bound) (auto simp: stack_wf_def)
  with assms have "?i * s_element_size s < 2 ^ 64"
    "?i * s_element_size s + s_element_size s \<le> length (s_elements s)"
    by (auto simp: stack_wf_def)
  moreover have "last (stack_elems s) = chunk (s_element_size s) (s_elements s) ?i"
    using assms(2) i by (simp add: stack_elems_def last_conv_nth)
  ultimately show ?thesis
    using assms(2) by (simp add: StackPeek_def stack_load_def read_bytes_ok chunk_def)
qed

lemma StackIsEmpty_iff: "StackIsEmpty s \<longleftrightarrow> stack_elems s = []"
  by (auto simp: StackIsEmpty_def stack_elems_def)

lemma StackSize_length: "StackSize s = length (stack_elems s)"
  by (simp add: StackSize_def stack_elems_def)

interpretation stack_refines: data_refinement stack_wf stack_abs stack_step stack_spec stack_pre
proof
  fix s c
  assume wf: "stack_wf s" and pre: "stack_pre c (stack_abs s)"
  show "\<exists>s' out. stack_step c s = Inr (s', out) \<and> stack_wf s' \<and>
    stack_spec c (stack_abs s) = (stack_abs s', out)"
  proof (cases c)
    case (S_Push e)
    with pre have "s_top s < s_capacity s" "s_element_size s \<le> length e"
      by (auto simp: stack_abs_def stack_elems_def)
    from StackPush_ok [OF wf this] S_Push show ?thesis by (auto simp: stack_abs_def)
  next
    case S_Pop
    with pre have "0 < s_top s" by (auto simp: stack_abs_def stack_elems_def)
    from StackPop_ok [OF wf this] S_Pop show ?thesis by (auto simp: stack_abs_def)
  next
    case S_Peek
    with pre have "0 < s_top s" by (auto simp: stack_abs_def stack_elems_def)
    from StackPeek_ok [OF wf this] S_Peek wf show ?thesis by (auto simp: stack_abs_def bindE_Inr_iff)
  qed (use wf in \<open>simp_all add: stack_abs_def StackSize_length StackIsEmpty_iff StackCapacity_def\<close>)
qed

lemma StackCreate_ok:
  assumes "0 < cap" "0 < es" "cap * es < 2 ^ 64"
  shows "\<exists>s. StackCreate True (Some junk) cap es = Some s \<and> stack_wf s \<and> stack_abs s = (es, cap, [])"
  using assms by (simp add: StackCreate_def malloc_block_def stack_wf_def stack_abs_def stack_elems_def)

text \<open>Outside its contract the stack stops at its assertions and writes nothing.\<close>

lemma stack_guards:
  "s_top s = s_capacity s \<Longrightarrow> StackPush s e = Inl Assert_failed"
  "stack_elems s = [] \<Longrightarrow> StackPop s = Inl Assert_failed \<and> StackPeek s = Inl Assert_failed"
  by (simp_all add: StackPush_def StackPop_def StackPeek_def stack_elems_def)

end
