(* ===== verification/Recursion.thy ===== *)
theory Recursion
  imports Stack Memory_Words Arrays
begin

text \<open>
  The exercises of \<open>projects/recursion/src/recursion.c\<close>: three ways to compute Fibonacci numbers
  in an \<open>int\<close>, the reversal of a linked list, the string functions and the sorting of a stack of
  integers, each shown equal to its mathematical counterpart within the range where it is defined.
\<close>

section \<open>Fibonacci numbers\<close>

fun Fibonacci_loop :: "nat \<Rightarrow> int \<Rightarrow> int \<Rightarrow> int \<Rightarrow> int result" where
  "Fibonacci_loop 0 previous__previous_number previous_number current_number = Inr current_number"
| "Fibonacci_loop (Suc rounds) previous__previous_number previous_number current_number =
     bindE (int32 (previous_number + previous__previous_number)) (\<lambda>current_number.
     Fibonacci_loop rounds previous_number current_number current_number)"

text \<open>The loop counts from 2 to \<open>n\<close>: \<open>n - 1\<close> rounds.\<close>

definition Fibonacci :: "nat \<Rightarrow> int result" where
  "Fibonacci n =
     (if n = 0 then Inr 0 else if n = 1 then Inr 1 else Fibonacci_loop (n - 1) 0 1 0)"

fun RecFibonacci :: "nat \<Rightarrow> int result" where
  "RecFibonacci n =
     (if n \<le> 1 then Inr (int n)
      else bindE (RecFibonacci (n - 1)) (\<lambda>a. bindE (RecFibonacci (n - 2)) (\<lambda>b. int32 (a + b))))"

text \<open>The static table of \<open>RecFibonacciMemo\<close> and its flag.\<close>

abbreviation (input) MAX_FIB :: nat where "MAX_FIB \<equiv> 93"

record fib_static =
  g_fib_memo :: "int list"
  memo_ready :: bool

definition fib_static_init :: fib_static where
  "fib_static_init = \<lparr>g_fib_memo = replicate MAX_FIB 0, memo_ready = False\<rparr>"

fun FibMemoInit_loop :: "nat list \<Rightarrow> int list \<Rightarrow> int list result" where
  "FibMemoInit_loop [] memo = Inr memo"
| "FibMemoInit_loop (i # is) memo = bindE (aset memo i (-1)) (FibMemoInit_loop is)"

definition FibMemoInit :: "fib_static \<Rightarrow> fib_static result" where
  "FibMemoInit st = bindE (FibMemoInit_loop [0..<MAX_FIB] (g_fib_memo st)) (\<lambda>memo. Inr (st\<lparr>g_fib_memo := memo\<rparr>))"

fun RecFibonacciMemo :: "nat \<Rightarrow> fib_static \<Rightarrow> (fib_static \<times> int) result" where
  "RecFibonacciMemo n st =
     bindE (if \<not> memo_ready st then bindE (FibMemoInit st) (\<lambda>st. Inr (st\<lparr>memo_ready := True\<rparr>)) else Inr st) (\<lambda>st.
     bindE (aget (g_fib_memo st) n) (\<lambda>v.
     if -1 \<noteq> v then Inr (st, v)
     else if n \<le> 1
     then bindE (aset (g_fib_memo st) n (int n)) (\<lambda>memo. Inr (st\<lparr>g_fib_memo := memo\<rparr>, int n))
     else bindE (RecFibonacciMemo (n - 1) st) (\<lambda>(st, a).
          bindE (RecFibonacciMemo (n - 2) st) (\<lambda>(st, b).
          bindE (int32 (a + b)) (\<lambda>s.
          bindE (aset (g_fib_memo st) n s) (\<lambda>memo. Inr (st\<lparr>g_fib_memo := memo\<rparr>, s)))))))"

declare RecFibonacci.simps [simp del]
declare RecFibonacciMemo.simps [simp del]

section \<open>Reversal of a linked list\<close>

record rec_node_t =
  rn_data :: "32 word"
  rn_next :: ptr

type_synonym rec_mem = "ptr \<Rightarrow> rec_node_t option"

definition load_rec :: "rec_mem \<Rightarrow> ptr \<Rightarrow> rec_node_t result" where
  "load_rec m p = (if p = NULL then Inl Bad_access else fetch (m p))"

definition set_rec_next :: "rec_mem \<Rightarrow> ptr \<Rightarrow> ptr \<Rightarrow> rec_mem result" where
  "set_rec_next m p q = bindE (load_rec m p) (\<lambda>n. Inr (m(p \<mapsto> n\<lparr>rn_next := q\<rparr>)))"

fun FlipNode :: "nat \<Rightarrow> rec_mem \<Rightarrow> ptr \<Rightarrow> (rec_mem \<times> ptr) result" where
  "FlipNode 0 m head = Inl Out_of_fuel"
| "FlipNode (Suc fuel) m head =
     (if head = NULL then Inr (m, head)
      else bindE (load_rec m head) (\<lambda>h.
           if rn_next h = NULL then Inr (m, head)
           else bindE (FlipNode fuel m (rn_next h)) (\<lambda>(m, new_head).
                bindE (load_rec m head) (\<lambda>h.
                bindE (set_rec_next m (rn_next h) head) (\<lambda>m.
                bindE (set_rec_next m head NULL) (\<lambda>m. Inr (m, new_head)))))))"

section \<open>Strings\<close>

text \<open>
  A \<open>char *\<close> is a buffer and an offset in it; reading past the buffer is a fault, so every walk
  is over after at most the rest of the buffer. Source and destination of a copy are different
  buffers.
\<close>

function StrLenRec :: "byte list \<Rightarrow> nat \<Rightarrow> nat result" where
  "StrLenRec str i =
     (if i < length str
      then if str ! i = 0 then Inr 0 else bindE (StrLenRec str (i + 1)) (\<lambda>n. Inr (1 + n))
      else Inl Bad_access)"
  by pat_completeness auto

termination
  by (relation "measure (\<lambda>(str, i). length str - i)") auto

function StrCmpRec :: "byte list \<Rightarrow> nat \<Rightarrow> byte list \<Rightarrow> nat \<Rightarrow> int result" where
  "StrCmpRec s1 i s2 j =
     (if i < length s1 \<and> j < length s2
      then if s1 ! i = 0 \<and> s2 ! j = 0 then Inr 0
           else if s1 ! i \<noteq> s2 ! j then Inr (uint (s1 ! i) - uint (s2 ! j))
           else StrCmpRec s1 (i + 1) s2 (j + 1)
      else Inl Bad_access)"
  by pat_completeness auto

termination
  by (relation "measure (\<lambda>(s1, i, s2, j). length s1 - i)") auto

text \<open>The pointers \<open>StrCpyRec\<close> and \<open>StrCatRec\<close> return are their first arguments.\<close>

function StrCpyRec :: "byte list \<Rightarrow> nat \<Rightarrow> byte list \<Rightarrow> nat \<Rightarrow> (byte list \<times> nat) result" where
  "StrCpyRec dst i src j =
     (if j < length src
      then bindE (aset dst i (src ! j)) (\<lambda>dst.
           if src ! j = 0 then Inr (dst, i)
           else bindE (StrCpyRec dst (i + 1) src (j + 1)) (\<lambda>(dst, _). Inr (dst, i)))
      else Inl Bad_access)"
  by pat_completeness auto

termination
  by (relation "measure (\<lambda>(dst, i, src, j). length src - j)") auto

function StrCatRec :: "byte list \<Rightarrow> nat \<Rightarrow> byte list \<Rightarrow> nat \<Rightarrow> (byte list \<times> nat) result" where
  "StrCatRec dst i src j =
     (if i < length dst
      then if dst ! i = 0 then bindE (StrCpyRec dst i src j) (\<lambda>(dst, _). Inr (dst, i))
           else bindE (StrCatRec dst (i + 1) src j) (\<lambda>(dst, _). Inr (dst, i))
      else Inl Bad_access)"
  by pat_completeness auto

termination
  by (relation "measure (\<lambda>(dst, i, src, j). length dst - i)") auto

text \<open>What the standard library's \<open>strncmp\<close> answers to "are the first \<open>n\<close> characters equal".\<close>

fun strncmp_eq :: "byte list \<Rightarrow> nat \<Rightarrow> byte list \<Rightarrow> nat \<Rightarrow> nat \<Rightarrow> bool result" where
  "strncmp_eq a i b j 0 = Inr True"
| "strncmp_eq a i b j (Suc n) =
     bindE (aget a i) (\<lambda>x. bindE (aget b j) (\<lambda>y.
     if x \<noteq> y then Inr False else if x = 0 then Inr True else strncmp_eq a (i + 1) b (j + 1) n))"

text \<open>\<open>strlen\<close> is the standard library's; it answers what \<open>StrLenRec\<close> answers.\<close>

function StrStrRec :: "byte list \<Rightarrow> nat \<Rightarrow> byte list \<Rightarrow> nat \<Rightarrow> nat option result" where
  "StrStrRec haystack i needle j =
     bindE (StrLenRec needle j) (\<lambda>needle_len.
     if needle ! j = 0 then Inr (Some i)
     else if length haystack \<le> i then Inl Bad_access
     else if haystack ! i = 0 then Inr None
     else bindE (strncmp_eq haystack i needle j needle_len) (\<lambda>same.
          if same then Inr (Some i) else StrStrRec haystack (i + 1) needle j))"
  by pat_completeness auto

termination
  by (relation "measure (\<lambda>(haystack, i, needle, j). length haystack - i)") auto

declare StrLenRec.simps [simp del]
declare StrCmpRec.simps [simp del]
declare StrCpyRec.simps [simp del]
declare StrCatRec.simps [simp del]
declare StrStrRec.simps [simp del]

section \<open>Sorting a stack of integers\<close>

definition bytes_of_int :: "int \<Rightarrow> byte list" where
  "bytes_of_int v = bytes_of 4 (ucast (word_of_int v :: 32 word))"

definition int_of_bytes :: "byte list \<Rightarrow> int" where
  "int_of_bytes bs = sint (ucast (ptr_of_bytes bs) :: 32 word)"

definition PeekInt :: "stack_t \<Rightarrow> int result" where
  "PeekInt s = bindE (StackPeek s) (\<lambda>off. bindE (stack_load s off 4) (\<lambda>bs. Inr (int_of_bytes bs)))"

definition PopInts :: "stack_t \<Rightarrow> (stack_t \<times> int) result" where
  "PopInts s = bindE (PeekInt s) (\<lambda>v. bindE (StackPop s) (\<lambda>s. Inr (s, v)))"

definition PushInt :: "stack_t \<Rightarrow> int \<Rightarrow> stack_t result" where
  "PushInt s val = StackPush s (bytes_of_int val)"

lemma PopInts_top: "PopInts s = Inr (s', v) \<Longrightarrow> s_top s' < s_top s"
  by (auto simp: PopInts_def StackPop_def bindE_Inr_iff)

function InsertSorted :: "stack_t \<Rightarrow> int \<Rightarrow> stack_t result" where
  "InsertSorted s val =
     bindE (if StackIsEmpty s then Inr True else bindE (PeekInt s) (\<lambda>v. Inr (val \<ge> v))) (\<lambda>here.
     if here then PushInt s val
     else bindE (PopInts s) (\<lambda>(s, temp). bindE (InsertSorted s val) (\<lambda>s. PushInt s temp)))"
  by pat_completeness auto

termination
  by (relation "measure (\<lambda>(s, val). s_top s)") (auto dest: PopInts_top)

text \<open>The answer is the stack and whether the returned pointer is the stack (else it is NULL).\<close>

function SortedStack :: "stack_t \<Rightarrow> (stack_t \<times> bool) result" where
  "SortedStack s =
     (if StackIsEmpty s then Inr (s, False)
      else bindE (PopInts s) (\<lambda>(s, temp).
           bindE (SortedStack s) (\<lambda>(s, _).
           bindE (InsertSorted s temp) (\<lambda>s. Inr (s, True)))))"
  by pat_completeness auto

termination
  by (relation "measure s_top") (auto dest: PopInts_top)

declare InsertSorted.simps [simp del]
declare SortedStack.simps [simp del]

section \<open>The three Fibonacci functions agree\<close>

fun fib :: "nat \<Rightarrow> int" where
  "fib 0 = 0"
| "fib (Suc 0) = 1"
| "fib (Suc (Suc n)) = fib (Suc n) + fib n"

lemma fib_nonneg: "0 \<le> fib n"
  by (induction n rule: fib.induct) simp_all

lemma fib_mono_Suc: "fib n \<le> fib (Suc n)"
  by (cases n rule: fib.cases) (use fib_nonneg in simp_all)

lemma fib_mono: "a \<le> b \<Longrightarrow> fib a \<le> fib b"
  by (rule lift_Suc_mono_le [of fib]) (auto intro: fib_mono_Suc)

fun fib_iter :: "nat \<Rightarrow> int \<Rightarrow> int \<Rightarrow> int" where
  "fib_iter 0 a b = a"
| "fib_iter (Suc n) a b = fib_iter n b (a + b)"

lemma fib_iter_fib: "fib_iter r (fib n) (fib (Suc n)) = fib (n + r)"
proof (induction r arbitrary: n)
  case (Suc r)
  have "fib n + fib (Suc n) = fib (Suc (Suc n))" by simp
  then show ?case using Suc [of "Suc n"] by (simp del: fib.simps(3))
qed simp

lemma fib_46: "fib 46 = 1836311903" "fib 47 = 2971215073"
proof -
  have "fib_iter 46 0 1 = 1836311903" "fib_iter 47 0 1 = 2971215073" by code_simp+
  then show "fib 46 = 1836311903" "fib 47 = 2971215073"
    using fib_iter_fib [of 46 0] fib_iter_fib [of 47 0] by simp_all
qed

lemma int32_fib: "int32 (fib n) = (if n \<le> 46 then Inr (fib n) else Inl Int_overflow)"
proof (cases "n \<le> 46")
  case True
  then show ?thesis using fib_mono [of n 46] fib_nonneg [of n] fib_46 by (simp add: int32_def)
next
  case False
  then show ?thesis using fib_mono [of 47 n] fib_46 by (simp add: int32_def)
qed

lemma Fibonacci_loop_fib:
  "Fibonacci_loop r (fib n) (fib (Suc n)) c =
     (if r = 0 then Inr c else if n + 1 + r \<le> 46 then Inr (fib (n + 1 + r)) else Inl Int_overflow)"
proof (induction r arbitrary: n c)
  case (Suc r)
  have "fib (Suc n) + fib n = fib (Suc (Suc n))" by simp
  then show ?case using Suc [of "Suc n"] int32_fib [of "Suc (Suc n)"] by (auto simp del: fib.simps)
qed simp

lemma Fibonacci_eq: "Fibonacci n = (if n \<le> 46 then Inr (fib n) else Inl Int_overflow)"
proof -
  consider "n = 0" | "n = 1" | k where "n = Suc (Suc k)" by (cases n rule: fib.cases) auto
  then show ?thesis
    by cases (use Fibonacci_loop_fib [of "Suc _" 0 0] in \<open>simp_all add: Fibonacci_def del: Fibonacci_loop.simps fib.simps(3)\<close>)
qed

lemma RecFibonacci_eq: "RecFibonacci n = (if n \<le> 46 then Inr (fib n) else Inl Int_overflow)"
proof (induction n rule: fib.induct)
  case (3 n)
  then show ?case using int32_fib [of "Suc (Suc n)"] by (subst RecFibonacci.simps) (simp add: add.commute)
qed (simp_all add: RecFibonacci.simps)

text \<open>What the table holds between calls.\<close>

definition fib_static_ok :: "fib_static \<Rightarrow> bool" where
  "fib_static_ok st \<longleftrightarrow> length (g_fib_memo st) = 93 \<and>
     (memo_ready st \<longrightarrow> (\<forall>k < 93. g_fib_memo st ! k = -1 \<or> k \<le> 46 \<and> g_fib_memo st ! k = fib k))"

lemma FibMemoInit_loop_eq:
  "n \<le> length memo \<Longrightarrow> FibMemoInit_loop [0..<n] memo = Inr (replicate n (-1) @ drop n memo)"
proof (induction n)
  case (Suc n)
  have app: "FibMemoInit_loop (xs @ ys) m = bindE (FibMemoInit_loop xs m) (FibMemoInit_loop ys)" for xs ys m
    by (induction xs arbitrary: m) (simp_all add: bindE_assoc cong: bindE_cong)
  have "drop n memo = memo ! n # drop (Suc n) memo" using Suc.prems by (simp add: Cons_nth_drop_Suc)
  then show ?case using Suc by (simp add: app list_update_append replicate_append_same)
qed simp

lemma memo_prepare:
  assumes "fib_static_ok st"
  shows "\<exists>st'. (if \<not> memo_ready st then bindE (FibMemoInit st) (\<lambda>st. Inr (st\<lparr>memo_ready := True\<rparr>)) else Inr st) = Inr st' \<and>
    fib_static_ok st' \<and> memo_ready st'"
proof (cases "memo_ready st")
  case False
  then have "FibMemoInit st = Inr (st\<lparr>g_fib_memo := replicate 93 (-1)\<rparr>)"
    using assms FibMemoInit_loop_eq [of 93 "g_fib_memo st"] by (simp add: FibMemoInit_def fib_static_ok_def del: upt_Suc)
  then show ?thesis using False by (auto simp: fib_static_ok_def)
qed (use assms in auto)

lemma RecFibonacciMemo_eq:
  assumes "fib_static_ok st"
  shows "(n \<le> 46 \<longrightarrow> (\<exists>st'. RecFibonacciMemo n st = Inr (st', fib n) \<and> fib_static_ok st')) \<and>
    (46 < n \<and> n < 93 \<longrightarrow> RecFibonacciMemo n st = Inl Int_overflow) \<and>
    (93 \<le> n \<longrightarrow> RecFibonacciMemo n st = Inl Bad_access)"
  using assms
proof (induction n arbitrary: st rule: less_induct)
  case (less n)
  obtain s where s: "(if \<not> memo_ready st then bindE (FibMemoInit st) (\<lambda>st. Inr (st\<lparr>memo_ready := True\<rparr>)) else Inr st) = Inr s"
    "fib_static_ok s" "memo_ready s" using memo_prepare [OF less.prems] by blast
  note step = RecFibonacciMemo.simps [of n st, unfolded s(1) bindE_simps]
  have len: "length (g_fib_memo s) = 93" using s(2) by (simp add: fib_static_ok_def)
  consider "93 \<le> n" | "n < 93" "g_fib_memo s ! n \<noteq> -1" | "n \<le> 1" "g_fib_memo s ! n = -1"
    | "n < 93" "1 < n" "g_fib_memo s ! n = -1" by linarith
  then show ?case
  proof cases
    case 1
    then show ?thesis using len by (simp add: step aget_def)
  next
    case 2
    then have "n \<le> 46 \<and> g_fib_memo s ! n = fib n" using s(2,3) by (auto simp: fib_static_ok_def)
    then show ?thesis using 2 len s(2) by (simp add: step)
  next
    case 3
    then have "int n = fib n" by (cases n rule: fib.cases) auto
    moreover from this have "fib_static_ok (s\<lparr>g_fib_memo := (g_fib_memo s)[n := int n]\<rparr>)"
      using s(2) 3 by (auto simp: fib_static_ok_def nth_list_update)
    ultimately show ?thesis using 3 len by (simp add: step)
  next
    case 4
    then obtain k where k: "n = Suc (Suc k)" by (cases n rule: fib.cases) auto
    note step = step [unfolded k]
    show ?thesis
    proof (cases "Suc k \<le> 46")
      case False
      then show ?thesis using less.IH [of "Suc k" s] s(2) 4 len unfolding k by (auto simp: step)
    next
      case True
      then obtain s1 where s1: "RecFibonacciMemo (Suc k) s = Inr (s1, fib (Suc k))" "fib_static_ok s1"
        using less.IH [of "Suc k" s] s(2) True by (auto simp: k)
      then obtain s2 where s2: "RecFibonacciMemo k s1 = Inr (s2, fib k)" "fib_static_ok s2"
        using less.IH [of k s1] True by (auto simp: k)
      have "length (g_fib_memo s2) = 93" using s2(2) by (simp add: fib_static_ok_def)
      moreover have "fib_static_ok (s2\<lparr>g_fib_memo := (g_fib_memo s2)[n := fib n]\<rparr>)" if "n \<le> 46"
        using s2(2) that by (auto simp: fib_static_ok_def nth_list_update)
      ultimately show ?thesis using s1(1) s2(1) 4 len int32_fib [of n] unfolding k by (auto simp: step)
    qed
  qed
qed

lemma fib_static_init_ok: "fib_static_ok fib_static_init"
  by (simp add: fib_static_ok_def fib_static_init_def)

section \<open>Reversal\<close>

text \<open>The nodes from \<open>p\<close> on are, in this order, at these addresses, up to the NULL pointer.\<close>

fun rec_list :: "rec_mem \<Rightarrow> ptr \<Rightarrow> ptr list \<Rightarrow> bool" where
  "rec_list m p [] = (p = NULL)"
| "rec_list m p (a # as) = (p = a \<and> a \<noteq> NULL \<and> (\<exists>n. m a = Some n \<and> rec_list m (rn_next n) as))"

lemma rec_list_cong: "\<forall>a \<in> set as. m' a = m a \<Longrightarrow> rec_list m' p as = rec_list m p as"
  by (induction as arbitrary: p) auto

lemma rec_list_snoc:
  "rec_list m p as \<Longrightarrow> as \<noteq> [] \<Longrightarrow> distinct as \<Longrightarrow> b \<notin> set as \<Longrightarrow> b \<noteq> NULL \<Longrightarrow> m (last as) = Some x \<Longrightarrow>
   rec_list (m(last as \<mapsto> x\<lparr>rn_next := b\<rparr>, b \<mapsto> y\<lparr>rn_next := NULL\<rparr>)) p (as @ [b])"
proof (induction as arbitrary: p)
  case (Cons a as)
  show ?case
  proof (cases "as = []")
    case False
    then have "last as \<in> set as" by simp
    then show ?thesis using Cons False by auto
  qed (use Cons.prems in auto)
qed simp

lemma FlipNode_ok:
  assumes "rec_list m head as" "distinct as" "length as < fuel"
  shows "\<exists>m'. FlipNode fuel m head = Inr (m', if as = [] then NULL else last as) \<and>
    rec_list m' (if as = [] then NULL else last as) (rev as) \<and>
    (\<forall>a. map_option rn_data (m' a) = map_option rn_data (m a)) \<and> (\<forall>a. a \<notin> set as \<longrightarrow> m' a = m a)"
  using assms
proof (induction as arbitrary: head fuel m)
  case Nil
  then show ?case by (cases fuel) auto
next
  case (Cons a as)
  then obtain f n where f: "fuel = Suc f" "length as < f" and n: "head = a" "a \<noteq> NULL" "m a = Some n" "rec_list m (rn_next n) as"
    by (cases fuel) auto
  have load: "load_rec m a = Inr n" using n by (simp add: load_rec_def)
  show ?case
  proof (cases "as = []")
    case True
    then show ?thesis using n f load by auto
  next
    case False
    then obtain b bs where as: "as = b # bs" by (cases as) auto
    have nx: "rn_next n = b" "b \<noteq> NULL" using n(4) as by auto
    obtain m1 where m1: "FlipNode f m b = Inr (m1, last as)" "rec_list m1 (last as) (rev as)"
      "\<forall>x. map_option rn_data (m1 x) = map_option rn_data (m x)" "\<forall>x. x \<notin> set as \<longrightarrow> m1 x = m x"
      using Cons.IH [OF n(4) _ f(2)] Cons.prems(2) False nx(1) by auto
    have a1: "m1 a = Some n" using m1(4) n(3) Cons.prems(2) by simp
    have "m b \<noteq> None" using n(4) as nx by auto
    then obtain x where x: "m1 b = Some x" using m1(3) by (metis map_option_is_None not_Some_eq)
    let ?m = "m1(b \<mapsto> x\<lparr>rn_next := a\<rparr>, a \<mapsto> n\<lparr>rn_next := NULL\<rparr>)"
    have "b \<noteq> a" using Cons.prems(2) as by auto
    then have "FlipNode fuel m head = Inr (?m, last as)"
      using f(1) n(1,2) load nx m1(1) a1 x by (simp add: load_rec_def set_rec_next_def)
    moreover have "rec_list ?m (last as) (rev as @ [a])"
      using rec_list_snoc [OF m1(2), of a x n] as x Cons.prems(2) n(2) by simp
    moreover have "\<forall>y. map_option rn_data (?m y) = map_option rn_data (m y)"
      using spec [OF m1(3), of a] spec [OF m1(3), of b] m1(3) x a1 n(3) by (simp flip: m1(3)[THEN spec])
    moreover have "\<forall>y. y \<notin> set (a # as) \<longrightarrow> ?m y = m y" using m1(4) as by auto
    ultimately show ?thesis using False by auto
  qed
qed

section \<open>Strings\<close>

text \<open>The buffer holds this string at this offset, terminator included.\<close>

fun cstr :: "byte list \<Rightarrow> nat \<Rightarrow> byte list \<Rightarrow> bool" where
  "cstr buf i [] = (i < length buf \<and> buf ! i = 0)"
| "cstr buf i (c # s) = (i < length buf \<and> buf ! i = c \<and> c \<noteq> 0 \<and> cstr buf (Suc i) s)"

lemma cstr_cong: "cstr buf i s \<Longrightarrow> \<forall>k. i \<le> k \<and> k \<le> i + length s \<longrightarrow> k < length buf' \<and> buf' ! k = buf ! k \<Longrightarrow> cstr buf' i s"
  by (induction s arbitrary: i) auto

lemma StrLenRec_ok: "cstr str i s \<Longrightarrow> StrLenRec str i = Inr (length s)"
  by (induction s arbitrary: i) (simp_all add: StrLenRec.simps)

lemma StrCmpRec_ok:
  "cstr s1 i a \<Longrightarrow> cstr s2 j b \<Longrightarrow>
   \<exists>r. StrCmpRec s1 i s2 j = Inr r \<and> (r = 0 \<longleftrightarrow> a = b) \<and> (r < 0 \<longleftrightarrow> (a, b) \<in> lexord {(x, y). x < y})"
proof (induction a arbitrary: i j b)
  case Nil
  then show ?case by (cases b) (auto simp: StrCmpRec.simps [of s1 i] word_neq_0_conv word_less_def)
next
  case (Cons x a)
  then show ?case
  proof (cases b)
    case Nil
    then show ?thesis using Cons.prems by (auto simp: StrCmpRec.simps [of s1 i] word_less_def uint_0_iff)
  next
    case (Cons y b')
    then show ?thesis using Cons.prems Cons.IH [of "Suc i" "Suc j" b']
      by (cases "x = y") (auto simp: StrCmpRec.simps [of s1 i] word_less_def word_uint_eq_iff)
  qed
qed

lemma StrCpyRec_ok:
  "cstr src j s \<Longrightarrow> i \<le> length dst \<Longrightarrow>
   StrCpyRec dst i src j =
     (if i + length s < length dst then Inr (take i dst @ s @ 0 # drop (i + length s + 1) dst, i) else Inl Bad_access)"
proof (induction s arbitrary: i j dst)
  case Nil
  then show ?case by (auto simp: StrCpyRec.simps [of dst i] aset_def upd_conv_take_nth_drop)
next
  case (Cons c s)
  show ?case
  proof (cases "i < length dst")
    case True
    have "take (Suc i) (dst[i := c]) = take i dst @ [c]" using True by (simp add: take_Suc_conv_app_nth)
    then show ?thesis using True Cons.prems Cons.IH [of "Suc j" "Suc i" "dst[i := c]"]
      by (auto simp: StrCpyRec.simps [of dst i])
  qed (use Cons.prems in \<open>auto simp: StrCpyRec.simps [of dst] aset_def\<close>)
qed

lemma StrCatRec_eq:
  "cstr dst i s \<Longrightarrow> cstr src j t \<Longrightarrow>
   StrCatRec dst i src j =
     (if i + length s + length t < length dst
      then Inr (take (i + length s) dst @ t @ 0 # drop (i + length s + length t + 1) dst, i) else Inl Bad_access)"
proof (induction s arbitrary: i)
  case Nil
  then show ?case using StrCpyRec_ok [of src j t i dst] by (simp add: StrCatRec.simps [of dst i])
qed (simp add: StrCatRec.simps [of dst])

lemma cstr_bound: "cstr buf i s \<Longrightarrow> i + length s < length buf \<and> buf ! (i + length s) = 0 \<and> 0 \<notin> set s \<and>
    take (length s) (drop i buf) = s"
  by (induction s arbitrary: i) (force simp: Cons_nth_drop_Suc [symmetric])+

lemma cstr_intro:
  "i + length s < length buf \<Longrightarrow> buf ! (i + length s) = 0 \<Longrightarrow> 0 \<notin> set s \<Longrightarrow> take (length s) (drop i buf) = s \<Longrightarrow> cstr buf i s"
proof (induction s arbitrary: i)
  case (Cons c s)
  then have "drop i buf = buf ! i # drop (Suc i) buf" by (intro Cons_nth_drop_Suc [symmetric]) simp
  with Cons show ?case by simp
qed simp

lemma cstr_iff: "cstr buf i s \<longleftrightarrow> i + length s < length buf \<and> buf ! (i + length s) = 0 \<and> 0 \<notin> set s \<and>
    take (length s) (drop i buf) = s"
  using cstr_bound cstr_intro by blast

text \<open>Concatenation: the destination is the joined string if it has room, else the copy runs out of it.\<close>

lemma StrCatRec_ok:
  assumes "cstr dst i s" "cstr src j t"
  shows "if i + length s + length t < length dst
    then \<exists>dst'. StrCatRec dst i src j = Inr (dst', i) \<and> length dst' = length dst \<and> cstr dst' i (s @ t) \<and>
           (\<forall>k < length dst. k < i \<or> i + length s + length t < k \<longrightarrow> dst' ! k = dst ! k)
    else StrCatRec dst i src j = Inl Bad_access"
proof (cases "i + length s + length t < length dst")
  case True
  let ?n = "i + length s"
  let ?d = "take ?n dst @ t @ 0 # drop (?n + length t + 1) dst"
  have len: "length ?d = length dst" using True by simp
  have s: "take (length s) (drop i dst) = s" "0 \<notin> set s" and t: "0 \<notin> set t" using assms cstr_bound by blast+
  have "drop i ?d = s @ t @ 0 # drop (?n + length t + 1) dst"
    using True s(1) by (simp add: drop_take)
  moreover have "?d ! (i + length (s @ t)) = 0" using True by (simp add: nth_append min_def add.assoc)
  ultimately have "cstr ?d i (s @ t)" using True s t len by (simp add: cstr_iff)
  moreover have "?d ! k = dst ! k" if "k < length dst" "k < i \<or> ?n + length t < k" for k
    using that True by (auto simp: nth_append min_def)
  ultimately show ?thesis using True StrCatRec_eq [OF assms] len by auto
qed (use StrCatRec_eq [OF assms] in auto)

lemma strncmp_eq_ok: "cstr a i s \<Longrightarrow> cstr b j t \<Longrightarrow> strncmp_eq a i b j (length t) = Inr (take (length t) s = t)"
proof (induction t arbitrary: i j s)
  case (Cons c t)
  then show ?case by (cases s) auto
qed simp

lemma StrStrRec_ok:
  "cstr haystack i h \<Longrightarrow> cstr needle j n \<Longrightarrow>
   StrStrRec haystack i needle j =
     Inr (if \<exists>k \<le> length h. take (length n) (drop k h) = n then Some (i + (LEAST k. take (length n) (drop k h) = n)) else None)"
proof (induction h arbitrary: i)
  case Nil
  have "(LEAST k. take (length n) (drop k []) = n) = 0" if "n = []" by (rule Least_equality) (use that in auto)
  then show ?case using Nil StrLenRec_ok [OF Nil.prems(2)] strncmp_eq_ok [OF Nil.prems]
    by (cases n) (auto simp: StrStrRec.simps [of haystack i])
next
  case (Cons c h)
  let ?here = "take (length n) (c # h) = n"
  have len: "StrLenRec needle j = Inr (length n)" using StrLenRec_ok [OF Cons.prems(2)] .
  have cmp: "strncmp_eq haystack i needle j (length n) = Inr ?here" by (rule strncmp_eq_ok [OF Cons.prems])
  show ?case
  proof (cases ?here)
    case True
    then have "(LEAST k. take (length n) (drop k (c # h)) = n) = 0" by (intro Least_equality) auto
    moreover have "\<exists>k \<le> length (c # h). take (length n) (drop k (c # h)) = n" using True by (intro exI [of _ 0]) simp
    ultimately show ?thesis using True Cons.prems len cmp
      by (cases n) (auto simp: StrStrRec.simps [of haystack i])
  next
    case False
    then have n: "n \<noteq> []" by auto
    have ex: "(\<exists>k \<le> length (c # h). take (length n) (drop k (c # h)) = n) \<longleftrightarrow> (\<exists>k \<le> length h. take (length n) (drop k h) = n)"
      using False by (metis (no_types, lifting) Suc_le_mono drop0 drop_Suc_Cons length_Cons not0_implies_Suc)
    have least: "(LEAST k. take (length n) (drop k (c # h)) = n) = Suc (LEAST k. take (length n) (drop k h) = n)"
      if "take (length n) (drop k h) = n" for k
      using Least_Suc [of "\<lambda>k. take (length n) (drop k (c # h)) = n" "Suc k"] that False by simp
    have "StrStrRec haystack i needle j = StrStrRec haystack (i + 1) needle j"
      using False n Cons.prems len cmp by (cases n) (auto simp: StrStrRec.simps [of haystack i])
    then show ?thesis using Cons.IH [of "i + 1"] Cons.prems ex least by auto
  qed
qed

section \<open>The sorted stack\<close>

lemma length_bytes_of_int [simp]: "length (bytes_of_int v) = 4"
  by (simp add: bytes_of_int_def del: bytes_of.simps)

lemma int_of_bytes_of: "- (2 ^ 31) \<le> v \<Longrightarrow> v < 2 ^ 31 \<Longrightarrow> int_of_bytes (bytes_of_int v) = v"
proof -
  assume v: "- (2 ^ 31) \<le> v" "v < 2 ^ 31"
  let ?w = "word_of_int v :: 32 word"
  have "ptr_of_bytes (bytes_of_int v) = take_bit 32 (ucast ?w)"
    using ptr_of_bytes_take [of 4 "ucast ?w"] by (simp add: bytes_of_int_def del: bytes_of.simps)
  moreover have "(ucast (take_bit 32 (ucast ?w :: ptr)) :: 32 word) = ?w"
    by (rule bit_word_eqI) (auto simp: bit_simps)
  ultimately have "int_of_bytes (bytes_of_int v) = sint ?w" by (simp add: int_of_bytes_def)
  also have "\<dots> = v" using v by (simp add: sint_sbintrunc' signed_take_bit_int_eq_self)
  finally show ?thesis .
qed

lemma int_of_bytes_range: "- (2 ^ 31) \<le> int_of_bytes bs \<and> int_of_bytes bs < 2 ^ 31"
  using sint_range_size [of "ucast (ptr_of_bytes bs) :: 32 word"] by (simp add: int_of_bytes_def word_size)

text \<open>A stack of four-byte elements, as the integers it holds from bottom to top.\<close>

definition int_stack :: "stack_t \<Rightarrow> nat \<Rightarrow> int list \<Rightarrow> bool" where
  "int_stack s cap xs \<longleftrightarrow> stack_wf s \<and> s_element_size s = 4 \<and> s_capacity s = cap \<and> map int_of_bytes (stack_elems s) = xs"

lemma int_stack_range: "int_stack s cap xs \<Longrightarrow> x \<in> set xs \<Longrightarrow> - (2 ^ 31) \<le> x \<and> x < 2 ^ 31"
  using int_of_bytes_range by (auto simp: int_stack_def)

lemma int_stack_length: "int_stack s cap xs \<Longrightarrow> length xs = s_top s \<and> length xs \<le> cap"
  by (auto simp: int_stack_def stack_wf_def stack_elems_def)

lemma int_stack_empty: "int_stack s cap xs \<Longrightarrow> StackIsEmpty s \<longleftrightarrow> xs = []"
  by (auto simp: int_stack_def StackIsEmpty_iff)

lemma PeekInt_ok:
  assumes "int_stack s cap (xs @ [x])"
  shows "PeekInt s = Inr x"
proof -
  have s: "stack_wf s" "s_element_size s = 4" "map int_of_bytes (stack_elems s) = xs @ [x]" "0 < s_top s"
    using assms int_stack_length [OF assms] by (auto simp: int_stack_def)
  obtain off where "StackPeek s = Inr off" "stack_load s off 4 = Inr (last (stack_elems s))"
    using StackPeek_ok [OF s(1,4)] s(2) by (auto simp: bindE_Inr_iff)
  moreover have "int_of_bytes (last (stack_elems s)) = x" using s(3) by (metis last_map last_snoc list.map_disc_iff snoc_eq_iff_butlast)
  ultimately show ?thesis by (simp add: PeekInt_def)
qed

lemma PopInts_ok:
  assumes "int_stack s cap (xs @ [x])"
  shows "\<exists>s'. PopInts s = Inr (s', x) \<and> int_stack s' cap xs"
proof -
  have s: "stack_wf s" "0 < s_top s" using assms int_stack_length [OF assms] by (auto simp: int_stack_def)
  obtain s' where s': "StackPop s = Inr s'" "stack_wf s'" "stack_abs s' = (s_element_size s, s_capacity s, butlast (stack_elems s))"
    using StackPop_ok [OF s] by blast
  have "map int_of_bytes (butlast (stack_elems s)) = xs" using assms by (simp add: int_stack_def map_butlast)
  then have "int_stack s' cap xs" using s'(2,3) assms by (simp add: int_stack_def stack_abs_def)
  then show ?thesis using PeekInt_ok [OF assms] s'(1) by (simp add: PopInts_def)
qed

lemma PushInt_ok:
  assumes "int_stack s cap xs" "length xs < cap" "- (2 ^ 31) \<le> v" "v < 2 ^ 31"
  shows "\<exists>s'. PushInt s v = Inr s' \<and> int_stack s' cap (xs @ [v])"
proof -
  have "stack_wf s" "s_top s < s_capacity s" "s_element_size s \<le> length (bytes_of_int v)"
    using assms(1,2) int_stack_length [OF assms(1)] by (auto simp: int_stack_def)
  from StackPush_ok [OF this] assms int_of_bytes_of [OF assms(3,4)] show ?thesis
    by (auto simp: PushInt_def int_stack_def stack_abs_def)
qed

lemma insort_before_last: "\<forall>y \<in> set ys. y \<le> x \<Longrightarrow> v < x \<Longrightarrow> insort v (ys @ [x]) = insort v ys @ [x]" for x v :: int
  by (induction ys) auto

lemma InsertSorted_ok:
  assumes "int_stack s cap xs" "length xs < cap" "- (2 ^ 31) \<le> v" "v < 2 ^ 31" "sorted xs"
  shows "\<exists>s'. InsertSorted s v = Inr s' \<and> int_stack s' cap (insort v xs)"
  using assms(1,2,5)
proof (induction xs arbitrary: s rule: rev_induct)
  case Nil
  then show ?case using PushInt_ok [OF Nil.prems(1,2) assms(3,4)] int_stack_empty [OF Nil.prems(1)]
    by (simp add: InsertSorted.simps [of s])
next
  case (snoc x xs)
  have ne: "\<not> StackIsEmpty s" using int_stack_empty [OF snoc.prems(1)] by simp
  have pk: "PeekInt s = Inr x" by (rule PeekInt_ok [OF snoc.prems(1)])
  show ?case
  proof (cases "x \<le> v")
    case True
    then have "insort v (xs @ [x]) = (xs @ [x]) @ [v]" using snoc.prems(3) by (intro sorted_insort_is_snoc) (auto simp: sorted_append)
    then show ?thesis using PushInt_ok [OF snoc.prems(1,2) assms(3,4)] ne pk True by (simp add: InsertSorted.simps [of s])
  next
    case False
    obtain s1 where s1: "PopInts s = Inr (s1, x)" "int_stack s1 cap xs" using PopInts_ok [OF snoc.prems(1)] by blast
    obtain s2 where s2: "InsertSorted s1 v = Inr s2" "int_stack s2 cap (insort v xs)"
      using snoc.IH [OF s1(2)] snoc.prems by (auto simp: sorted_append)
    have "- (2 ^ 31) \<le> x" "x < 2 ^ 31" using int_stack_range [OF snoc.prems(1), of x] by auto
    then obtain s3 where s3: "PushInt s2 x = Inr s3" "int_stack s3 cap (insort v xs @ [x])"
      using PushInt_ok [OF s2(2)] snoc.prems(2) by auto
    have "insort v (xs @ [x]) = insort v xs @ [x]" using insort_before_last False snoc.prems(3) by (auto simp: sorted_append)
    then show ?thesis using ne pk False s1(1) s2(1) s3 by (simp add: InsertSorted.simps [of s])
  qed
qed

lemma sort_snoc: "sort (xs @ [x]) = insort x (sort xs)" for x :: int
  by (rule properties_for_sort) (simp_all add: sorted_insort)

lemma SortedStack_ok:
  assumes "int_stack s cap xs"
  shows "\<exists>s'. SortedStack s = Inr (s', xs \<noteq> []) \<and> int_stack s' cap (sort xs)"
  using assms
proof (induction xs arbitrary: s rule: rev_induct)
  case Nil
  then show ?case using int_stack_empty [OF Nil] by (simp add: SortedStack.simps [of s])
next
  case (snoc x xs)
  obtain s1 where s1: "PopInts s = Inr (s1, x)" "int_stack s1 cap xs" using PopInts_ok [OF snoc.prems] by blast
  obtain s2 where s2: "SortedStack s1 = Inr (s2, xs \<noteq> [])" "int_stack s2 cap (sort xs)" using snoc.IH [OF s1(2)] by blast
  have "- (2 ^ 31) \<le> x" "x < 2 ^ 31" using int_stack_range [OF snoc.prems, of x] by auto
  then obtain s3 where "InsertSorted s2 x = Inr s3" "int_stack s3 cap (insort x (sort xs))"
    using InsertSorted_ok [OF s2(2)] int_stack_length [OF snoc.prems] by auto
  then show ?case using int_stack_empty [OF snoc.prems] s1(1) s2(1) by (simp add: SortedStack.simps [of s] sort_snoc)
qed

end
