(* ===== verification/Calc_Grammar.thy ===== *)
theory Calc_Grammar
  imports Calculator
begin

text \<open>
  What texts mean: the grammar of expressions with the usual precedences, as a relation between a text
  and a tree, and the theorem that the calculator answers the value of the tree. A sign before a number
  belongs to the number; a sign before a parenthesis changes the first number inside and not the value
  of the group, which is what the code does. Spaces may stand before every symbol.
\<close>

unbundle bit_operations_syntax

section \<open>Numerals inside a text\<close>

definition stop :: "byte \<Rightarrow> bool" where
  "stop c \<longleftrightarrow> is_space c \<or> is_binop c \<or> c \<in> {ch CHR '')'', ch CHR '']'', ch CHR ''}'', 0}"

abbreviation stops :: "byte list \<Rightarrow> bool" where
  "stops rest \<equiv> rest = [] \<or> stop (hd rest)"

lemma stop_char:
  assumes "stop c"
  shows "\<not> is_digit c" "\<not> is_xdigit c" "c \<noteq> ch CHR ''.''" "c \<noteq> ch CHR ''x''" "c \<noteq> ch CHR ''X''"
    "c \<noteq> ch CHR ''e''" "c \<noteq> ch CHR ''E''" "c \<noteq> ch CHR ''p''" "c \<noteq> ch CHR ''P''"
  using assms by (auto simp: stop_def is_space_def is_binop_def is_xdigit_def is_digit_def)

lemma span_le: "span P u \<le> length u"
  by (simp add: span_def length_takeWhile_le)

lemma span_append: "rest = [] \<or> \<not> P (hd rest) \<Longrightarrow> span P (u @ rest) = span P u"
proof -
  assume r: "rest = [] \<or> \<not> P (hd rest)"
  show ?thesis
  proof (cases "\<forall>x \<in> set u. P x")
    case True
    then have "takeWhile P u = u" by (simp add: takeWhile_eq_all_conv)
    moreover have "takeWhile P (u @ rest) = u @ takeWhile P rest" using True by (simp add: takeWhile_append2)
    moreover have "takeWhile P rest = []" using r by (cases rest) auto
    ultimately show ?thesis by (simp only: span_def append_Nil2)
  next
    case False
    then show ?thesis by (auto simp: span_def takeWhile_append)
  qed
qed

lemma mantissa_append:
  assumes "rest = [] \<or> \<not> dig (hd rest) \<and> hd rest \<noteq> ch CHR ''.''"
  shows "mantissa_length dig (u @ rest) = mantissa_length dig u"
proof -
  have n: "span dig (u @ rest) = span dig u" using assms by (intro span_append) auto
  have d: "drop (span dig u) (u @ rest) = drop (span dig u) u @ rest" using span_le [of dig u] by simp
  show ?thesis
  proof (cases "drop (span dig u) u")
    case Nil
    then have "span dig u = length u" using span_le [of dig u] by simp
    then show ?thesis using assms n by (auto simp: mantissa_length_def Let_def)
  next
    case (Cons x xs)
    have "span dig (xs @ rest) = span dig xs" using assms by (intro span_append) auto
    then show ?thesis unfolding mantissa_length_def n d Cons Let_def by simp
  qed
qed

lemma mantissa_le: "mantissa_length dig u \<le> length u"
proof -
  have "span dig u + Suc (span dig (tl (drop (span dig u) u))) \<le> length u" if "drop (span dig u) u \<noteq> []"
    using span_le [of dig "tl (drop (span dig u) u)"] span_le [of dig u] that by simp
  then show ?thesis using span_le [of dig u] by (auto simp: mantissa_length_def Let_def)
qed

lemma exponent_le: "exponent_length e1 e2 u \<le> length u"
proof (cases u)
  case (Cons c s)
  have "k + span is_digit (drop k s) \<le> length s" if "s \<noteq> [] \<or> k = 0" "k \<le> 1" for k
    using span_le [of is_digit "drop k s"] that by (cases s) auto
  from this [of 0] this [of 1] show ?thesis by (auto simp: Cons exponent_length_def Let_def)
qed (simp add: exponent_length_def)

lemma exponent_append:
  assumes "exponent_length e1 e2 u = length u" "rest = [] \<or> \<not> is_digit (hd rest) \<and> hd rest \<noteq> e1 \<and> hd rest \<noteq> e2"
  shows "exponent_length e1 e2 (u @ rest) = length u"
proof (cases u)
  case Nil
  then show ?thesis using assms(2) by (cases rest) (auto simp: exponent_length_def)
next
  case (Cons c s)
  define k where "k = (if s \<noteq> [] \<and> (hd s = ch CHR ''+'' \<or> hd s = ch CHR ''-'') then 1 else 0 :: nat)"
  have "exponent_length e1 e2 u = (if c \<noteq> e1 \<and> c \<noteq> e2 \<or> span is_digit (drop k s) = 0 then 0 else 1 + k + span is_digit (drop k s))"
    by (simp add: Cons exponent_length_def k_def Let_def)
  then have u: "\<not> (c \<noteq> e1 \<and> c \<noteq> e2)" "span is_digit (drop k s) \<noteq> 0" "k + span is_digit (drop k s) = length s"
    using assms(1) Cons by (auto split: if_splits)
  then have "s \<noteq> []" by (auto simp: span_def)
  then have k: "drop k (s @ rest) = drop k s @ rest" "(if s @ rest \<noteq> [] \<and> (hd (s @ rest) = ch CHR ''+'' \<or> hd (s @ rest) = ch CHR ''-'') then 1 else 0) = k"
    by (cases s; simp add: k_def)+
  have "span is_digit (drop k s @ rest) = span is_digit (drop k s)" using assms(2) by (intro span_append) auto
  then show ?thesis using u k Cons by (simp add: exponent_length_def Let_def)
qed

lemma numeral_cases:
  obtains "numeral_length w = 0"
  | h where "h = mantissa_length is_xdigit (drop 2 w)" "2 \<le> length w" "0 < h"
      "numeral_length w = 2 + h + exponent_length (ch CHR ''p'') (ch CHR ''P'') (drop (2 + h) w)"
  | n where "n = mantissa_length is_digit w" "numeral_length w = n + exponent_length (ch CHR ''e'') (ch CHR ''E'') (drop n w)"
  by (cases "numeral_length w = 0") (auto simp: numeral_length_def Let_def split: if_splits)

lemma numeral_le: "numeral_length u \<le> length u"
proof -
  let ?h = "mantissa_length is_xdigit (drop 2 u)" and ?n = "mantissa_length is_digit u"
  have "2 + ?h + exponent_length (ch CHR ''p'') (ch CHR ''P'') (drop (2 + ?h) u) \<le> length u" if "2 \<le> length u"
    using that mantissa_le [of is_xdigit "drop 2 u"] exponent_le [of "ch CHR ''p''" "ch CHR ''P''" "drop (2 + ?h) u"] by simp
  moreover have "?n + exponent_length (ch CHR ''e'') (ch CHR ''E'') (drop ?n u) \<le> length u"
    using mantissa_le [of is_digit u] exponent_le [of "ch CHR ''e''" "ch CHR ''E''" "drop ?n u"] by simp
  ultimately show ?thesis by (simp add: numeral_length_def Let_def)
qed

lemma numeral_append:
  assumes "numeral_length u = length u" "u \<noteq> []" "stops rest"
  shows "numeral_length (u @ rest) = length u"
proof -
  let ?hex = "\<lambda>u. 2 \<le> length u \<and> u ! 0 = ch CHR ''0'' \<and> (u ! 1 = ch CHR ''x'' \<or> u ! 1 = ch CHR ''X'') \<and>
    0 < mantissa_length is_xdigit (drop 2 u)"
  have m: "mantissa_length is_digit (v @ rest) = mantissa_length is_digit v" "mantissa_length is_xdigit (v @ rest) = mantissa_length is_xdigit v" for v
    using assms(3) stop_char [of "hd rest"] by (auto intro!: mantissa_append)
  have hex: "?hex (u @ rest) = ?hex u"
  proof (cases "2 \<le> length u")
    case True
    then have "u \<noteq> []" "drop 2 (u @ rest) = drop 2 u @ rest" by auto
    then show ?thesis using True m(2) [of "drop 2 u"] by (simp add: nth_append)
  next
    case False
    then obtain c where "u = [c]" using assms(2) by (cases u; cases "tl u") auto
    then show ?thesis using assms(3) stop_char [of "hd rest"] by (cases rest) auto
  qed
  show ?thesis
  proof (cases "?hex u")
    case True
    let ?h = "mantissa_length is_xdigit (drop 2 u)"
    have h: "2 + ?h \<le> length u" using conjunct1 [OF True] mantissa_le [of is_xdigit "drop 2 u"] by simp
    have "exponent_length (ch CHR ''p'') (ch CHR ''P'') (drop (2 + ?h) u) = length (drop (2 + ?h) u)"
      using assms(1) True h by (simp add: numeral_length_def Let_def)
    then have "exponent_length (ch CHR ''p'') (ch CHR ''P'') (drop (2 + ?h) u @ rest) = length (drop (2 + ?h) u)"
      using assms(3) stop_char [of "hd rest"] by (intro exponent_append) auto
    moreover have "drop 2 (u @ rest) = drop 2 u @ rest" "drop (2 + ?h) (u @ rest) = drop (2 + ?h) u @ rest" using h by simp_all
    ultimately show ?thesis using True hex h m(2) [of "drop 2 u"] unfolding numeral_length_def Let_def by simp
  next
    case False
    let ?n = "mantissa_length is_digit u"
    have n: "?n \<le> length u" by (rule mantissa_le)
    have u: "numeral_length u = (if ?n = 0 then 0 else ?n + exponent_length (ch CHR ''e'') (ch CHR ''E'') (drop ?n u))"
      using False unfolding numeral_length_def Let_def by (simp only: if_False)
    have n0: "?n \<noteq> 0"
    proof
      assume "?n = 0"
      then have "numeral_length u = 0" using u by simp
      then show False using assms(1,2) by simp
    qed
    then have "exponent_length (ch CHR ''e'') (ch CHR ''E'') (drop ?n u) = length (drop ?n u)" using assms(1) u n by simp
    then have "exponent_length (ch CHR ''e'') (ch CHR ''E'') (drop ?n u @ rest) = length (drop ?n u)"
      using assms(3) stop_char [of "hd rest"] by (intro exponent_append) auto
    moreover have "drop ?n (u @ rest) = drop ?n u @ rest" using n by simp
    moreover have "numeral_length (u @ rest) =
        (if mantissa_length is_digit (u @ rest) = 0 then 0
         else mantissa_length is_digit (u @ rest) + exponent_length (ch CHR ''e'') (ch CHR ''E'') (drop (mantissa_length is_digit (u @ rest)) (u @ rest)))"
      using False hex unfolding numeral_length_def Let_def by (simp only: if_False)
    ultimately show ?thesis using n n0 m(1) by simp
  qed
qed

lemma numeral_hd:
  assumes "0 < numeral_length u"
  shows "u \<noteq> [] \<and> (is_digit (hd u) \<or> hd u = ch CHR ''.'')"
proof (cases u)
  case Nil
  then show ?thesis using assms numeral_le [of u] by simp
next
  case (Cons c s)
  have "is_digit (ch CHR ''0'')" by (simp add: is_digit_def)
  moreover have "c = ch CHR ''.'' \<or> is_digit c" if "0 < mantissa_length is_digit u"
    using that Cons by (auto simp: mantissa_length_def span_def Let_def split: if_splits)
  ultimately show ?thesis using assms Cons by (auto simp: numeral_length_def Let_def split: if_splits)
qed

text \<open>The terminating zero is not part of a numeral.\<close>

lemma numeral_zero: "numeral_length (u @ [0]) \<le> length u"
proof -
  have m: "mantissa_length dig (v @ [0]) = mantissa_length dig v" if "\<not> dig 0" for dig v
    using that by (intro mantissa_append) simp
  have x: "\<not> is_digit 0" "\<not> is_xdigit 0" by (simp_all add: is_digit_def is_xdigit_def)
  have e: "exponent_length e1 e2 (v @ [0]) \<le> length v" if "e1 \<noteq> 0" "e2 \<noteq> 0" for e1 e2 v
  proof (cases v)
    case (Cons c s)
    have "k + span is_digit (drop k (s @ [0])) \<le> length s" if "s \<noteq> [] \<or> k = 0" "k \<le> 1" for k
    proof -
      have "k \<le> length s" using that by (cases s) auto
      then have "drop k (s @ [0]) = drop k s @ [0]" by simp
      then have "span is_digit (drop k (s @ [0])) = span is_digit (drop k s)" using x(1) span_append [of "[0]" is_digit "drop k s"] by simp
      then show ?thesis using span_le [of is_digit "drop k s"] that by (cases s) auto
    qed
    moreover define k where "k = (if hd (s @ [0]) = ch CHR ''+'' \<or> hd (s @ [0]) = ch CHR ''-'' then 1 else 0 :: nat)"
    moreover have "s \<noteq> [] \<or> k = 0" "k \<le> 1" by (cases s; simp add: k_def)+
    moreover have "exponent_length e1 e2 (v @ [0]) =
        (if c \<noteq> e1 \<and> c \<noteq> e2 \<or> span is_digit (drop k (s @ [0])) = 0 then 0 else 1 + k + span is_digit (drop k (s @ [0])))"
      by (simp add: Cons exponent_length_def k_def Let_def)
    ultimately show ?thesis using Cons by simp
  qed (use that in \<open>simp add: exponent_length_def\<close>)
  show ?thesis
  proof (cases "u @ [0]" rule: numeral_cases)
    case (2 h)
    have "2 \<le> length u"
    proof (rule ccontr)
      assume "\<not> 2 \<le> length u"
      then have d: "drop 2 (u @ [0]) = []" by simp
      have "h = 0" unfolding 2(1) d by (simp add: mantissa_length_def span_def)
      then show False using 2(3) by simp
    qed
    then have d: "drop 2 (u @ [0]) = drop 2 u @ [0]" by simp
    have "h = mantissa_length is_xdigit (drop 2 u)" unfolding 2(1) d using m [of is_xdigit "drop 2 u"] x(2) by blast
    then have "2 + h \<le> length u" using \<open>2 \<le> length u\<close> mantissa_le [of is_xdigit "drop 2 u"] by simp
    then show ?thesis using 2(4) e [of "ch CHR ''p''" "ch CHR ''P''" "drop (2 + h) u"] by simp
  next
    case (3 n)
    then have "n \<le> length u" using m [of is_digit u] x(1) mantissa_le [of is_digit u] by simp
    then show ?thesis using 3(2) e [of "ch CHR ''e''" "ch CHR ''E''" "drop n u"] by simp
  qed simp
qed


section \<open>Expressions and their texts\<close>

datatype expr = Num bool "byte list" | Bin byte expr expr

primrec eval :: "fpu \<Rightarrow> expr \<Rightarrow> dbl option" where
  "eval fpu (Num negative n) = Some (fp_mul fpu (fp_of_numeral fpu n) (fp_of_sign (if negative then - 1 else 1)))"
| "eval fpu (Bin op a b) =
     (case eval fpu a of None \<Rightarrow> None
      | Some x \<Rightarrow> (case eval fpu b of None \<Rightarrow> None | Some y \<Rightarrow> binop fpu op x y))"

text \<open>What a pending minus does to an expression: it reaches the first number only.\<close>

primrec flip :: "expr \<Rightarrow> expr" where
  "flip (Num negative n) = Num (\<not> negative) n"
| "flip (Bin op a b) = Bin op (flip a) b"

definition signed :: "bool \<Rightarrow> expr \<Rightarrow> expr" where
  "signed negative e = (if negative then flip e else e)"

abbreviation minuses :: "byte list \<Rightarrow> nat" where
  "minuses u \<equiv> count_list u (ch CHR ''-'')"

text \<open>Powers group to the right, the other operators to the left.\<close>

definition left_level :: "byte \<Rightarrow> nat" where
  "left_level op = (if level op = 3 then 4 else level op)"

definition right_level :: "byte \<Rightarrow> nat" where
  "right_level op = (if level op = 3 then 3 else level op + 1)"

abbreviation spaces :: "byte list \<Rightarrow> bool" where
  "spaces w \<equiv> \<forall>c \<in> set w. is_space c"

abbreviation signs :: "byte list \<Rightarrow> bool" where
  "signs u \<equiv> \<forall>c \<in> set u. is_space c \<or> c = ch CHR ''+'' \<or> c = ch CHR ''-''"

inductive expr_text :: "nat \<Rightarrow> byte list \<Rightarrow> expr \<Rightarrow> bool" where
  num: "signs u \<Longrightarrow> n \<noteq> [] \<Longrightarrow> numeral_length n = length n \<Longrightarrow> expr_text 4 (u @ n) (Num (odd (minuses u)) n)"
| group: "signs u \<Longrightarrow> is_open c \<Longrightarrow> expr_text 1 t e \<Longrightarrow> spaces w \<Longrightarrow>
     expr_text 4 (u @ c # t @ w @ [closing c]) (signed (odd (minuses u)) e)"
| bin: "expr_text (left_level op) t1 e1 \<Longrightarrow> spaces w \<Longrightarrow> is_binop op \<Longrightarrow> expr_text (right_level op) t2 e2 \<Longrightarrow>
     expr_text (level op) (t1 @ w @ op # t2) (Bin op e1 e2)"
| lift: "expr_text m t e \<Longrightarrow> l \<le> m \<Longrightarrow> expr_text l t e"

section \<open>Steps\<close>

text \<open>A run of the loop that reads text and comes back, and one that stops with a status.\<close>

definition goes :: "fpu \<Rightarrow> byte list \<Rightarrow> calc_data \<Rightarrow> state_e \<Rightarrow> calc_data \<Rightarrow> state_e \<Rightarrow> bool" where
  "goes fpu tx ctx st ctx' st' \<longleftrightarrow> calc_out ctx' = calc_out ctx \<and>
     (\<exists>k. \<forall>fuel. Calculate_loop (k + fuel) fpu lut tx ctx st SUCCESS = Calculate_loop fuel fpu lut tx ctx' st' SUCCESS)"

definition stops_with :: "fpu \<Rightarrow> byte list \<Rightarrow> calc_data \<Rightarrow> state_e \<Rightarrow> calculator_status \<Rightarrow> bool" where
  "stops_with fpu tx ctx st status \<longleftrightarrow>
     (\<exists>k ctx'. calc_out ctx' = calc_out ctx \<and> (\<forall>fuel. Calculate_loop (k + Suc fuel) fpu lut tx ctx st SUCCESS = Inr (ctx', status)))"

lemma goes_refl: "goes fpu tx ctx st ctx st"
  by (auto simp: goes_def intro: exI [of _ 0])

lemma goes_trans:
  assumes "goes fpu tx a st b st'" "goes fpu tx b st' c st''"
  shows "goes fpu tx a st c st''"
proof -
  obtain k where k: "\<And>fuel. Calculate_loop (k + fuel) fpu lut tx a st SUCCESS = Calculate_loop fuel fpu lut tx b st' SUCCESS"
    using assms(1) by (auto simp: goes_def)
  obtain l where l: "\<And>fuel. Calculate_loop (l + fuel) fpu lut tx b st' SUCCESS = Calculate_loop fuel fpu lut tx c st'' SUCCESS"
    using assms(2) by (auto simp: goes_def)
  have "Calculate_loop (k + l + fuel) fpu lut tx a st SUCCESS = Calculate_loop fuel fpu lut tx c st'' SUCCESS" for fuel
    using k [of "l + fuel"] l [of fuel] by (simp add: add.assoc)
  then show ?thesis using assms unfolding goes_def by (intro conjI exI [of _ "k + l"]) auto
qed

lemma goes_stops:
  assumes "goes fpu tx a st b st'" "stops_with fpu tx b st' status"
  shows "stops_with fpu tx a st status"
proof -
  obtain k where k: "\<And>fuel. Calculate_loop (k + fuel) fpu lut tx a st SUCCESS = Calculate_loop fuel fpu lut tx b st' SUCCESS"
    using assms(1) by (auto simp: goes_def)
  obtain l c where l: "calc_out c = calc_out b" "\<And>fuel. Calculate_loop (l + Suc fuel) fpu lut tx b st' SUCCESS = Inr (c, status)"
    using assms(2) unfolding stops_with_def by blast
  have "Calculate_loop (k + l + Suc fuel) fpu lut tx a st SUCCESS = Inr (c, status)" for fuel
    using k [of "l + Suc fuel"] l(2) [of fuel] by (simp add: add.assoc)
  moreover have "calc_out c = calc_out a" using assms(1) l(1) by (simp add: goes_def)
  ultimately show ?thesis unfolding stops_with_def by blast
qed

lemma step_goes:
  assumes "FsmStep fpu lut tx ctx st = Inr (ctx', st', SUCCESS)" "\<not> finish ctx" "calc_out ctx' = calc_out ctx"
  shows "goes fpu tx ctx st ctx' st'"
  unfolding goes_def using assms by (intro conjI exI [of _ 1]) auto

lemma step_stops:
  assumes "FsmStep fpu lut tx ctx st = Inr (ctx', st', status)" "\<not> finish ctx" "calc_out ctx' = calc_out ctx" "status \<noteq> SUCCESS"
  shows "stops_with fpu tx ctx st status"
  unfolding stops_with_def using assms by (intro exI [of _ 1] exI [of _ ctx']) auto

text \<open>The character under the cursor decides.\<close>

lemma FsmStep_at:
  assumes "tx = pre @ c # rest" "cursor ctx = length pre"
  shows "FsmStep fpu lut tx ctx st =
    (let (next_state, action) = g_trans_LUT st (event c)
     in bindE (call_action fpu lut tx action ctx) (\<lambda>(ctx, status). Inr (ctx, next_state, status)))"
  using assms by (simp add: FsmStep_def read_bytes_def)

text \<open>A state of the machine in the middle of a text.\<close>

definition at :: "nat \<Rightarrow> nat \<Rightarrow> int \<Rightarrow> dbl list \<Rightarrow> byte list \<Rightarrow> calc_data \<Rightarrow> bool" where
  "at N pos sign vs os ctx \<longleftrightarrow> calc_rep N ctx vs os \<and> cursor ctx = pos \<and> unary_sign ctx = sign \<and> \<not> finish ctx"

lemma at_same: "same_ctx ctx ctx' \<Longrightarrow> at N pos sign vs os ctx \<Longrightarrow> calc_rep N ctx' vs' os' \<Longrightarrow> at N pos sign vs' os' ctx'"
  by (simp add: at_def same_ctx_def)

lemma calc_rep_update [simp]:
  "calc_rep N (ctx\<lparr>cursor := a\<rparr>) vs os = calc_rep N ctx vs os"
  "calc_rep N (ctx\<lparr>unary_sign := i\<rparr>) vs os = calc_rep N ctx vs os"
  "calc_rep N (ctx\<lparr>calc_out := x\<rparr>) vs os = calc_rep N ctx vs os"
  "calc_rep N (ctx\<lparr>finish := b\<rparr>) vs os = calc_rep N ctx vs os"
  by (simp_all add: calc_rep_def)

lemma read_space:
  assumes "tx = pre @ c # rest" "is_space c" "at N (length pre) sign vs os ctx"
  shows "\<exists>ctx'. goes fpu tx ctx st ctx' st \<and> at N (length (pre @ [c])) sign vs os ctx'"
proof -
  have "c \<noteq> 0" "\<not> is_digit c" "c \<noteq> ch CHR ''.''" using assms(2) by (auto simp: is_space_def is_digit_def)
  then have e: "event c = EV_SPACE" using assms(2) by (simp add: event_cases)
  let ?c = "ctx\<lparr>cursor := cursor ctx + 1\<rparr>"
  have "FsmStep fpu lut tx ctx st = Inr (?c, st, SUCCESS)"
    using FsmStep_at [OF assms(1)] assms(3) e by (cases st) (auto simp: at_def ActSpace_def)
  then have "goes fpu tx ctx st ?c st" using assms(3) by (intro step_goes) (auto simp: at_def)
  then show ?thesis using assms(3) by (intro exI [of _ ?c]) (simp add: at_def)
qed

lemma read_spaces:
  "tx = pre @ w @ rest \<Longrightarrow> spaces w \<Longrightarrow> at N (length pre) sign vs os ctx \<Longrightarrow>
   \<exists>ctx'. goes fpu tx ctx st ctx' st \<and> at N (length (pre @ w)) sign vs os ctx'"
proof (induction w arbitrary: pre ctx)
  case Nil
  then show ?case by (intro exI [of _ ctx]) (simp add: goes_refl)
next
  case (Cons c w)
  then obtain c1 where c1: "goes fpu tx ctx st c1 st" "at N (length (pre @ [c])) sign vs os c1"
    using read_space [of tx pre c "w @ rest" N sign vs os ctx fpu st] by auto
  then show ?case using Cons.IH [of "pre @ [c]" c1] Cons.prems goes_trans by fastforce
qed

text \<open>Signs multiply up.\<close>

lemma read_signs:
  "tx = pre @ u @ rest \<Longrightarrow> signs u \<Longrightarrow> at N (length pre) sign vs os ctx \<Longrightarrow>
   \<exists>ctx'. goes fpu tx ctx WAITING_FOR_NUM ctx' WAITING_FOR_NUM \<and>
     at N (length (pre @ u)) (if odd (minuses u) then - sign else sign) vs os ctx'"
proof (induction u arbitrary: pre ctx sign)
  case Nil
  then show ?case by (intro exI [of _ ctx]) (simp add: goes_refl)
next
  case (Cons c u)
  define sg where "sg = (if c = ch CHR ''-'' then - sign else sign)"
  have "\<exists>c1. goes fpu tx ctx WAITING_FOR_NUM c1 WAITING_FOR_NUM \<and> at N (length (pre @ [c])) sg vs os c1"
  proof (cases "is_space c")
    case True
    then have "sg = sign" by (auto simp: sg_def is_space_def)
    then show ?thesis using True read_space [of tx pre c "u @ rest" N sign vs os ctx fpu WAITING_FOR_NUM] Cons.prems by auto
  next
    case False
    then have c: "c = ch CHR ''+'' \<or> c = ch CHR ''-''" using Cons.prems(2) by auto
    let ?c = "ctx\<lparr>unary_sign := sg, cursor := cursor ctx + 1\<rparr>"
    have "event c = (if c = ch CHR ''+'' then EV_PLUS else EV_MINUS)" using c by (auto simp: event_cases is_digit_def is_space_def)
    then have "FsmStep fpu lut tx ctx WAITING_FOR_NUM = Inr (?c, WAITING_FOR_NUM, SUCCESS)"
      using FsmStep_at [of tx pre c "u @ rest" ctx fpu WAITING_FOR_NUM] Cons.prems(1,3) c
      by (auto simp: at_def ActUnaryPlus_def ActUnaryMinus_def sg_def)
    then have "goes fpu tx ctx WAITING_FOR_NUM ?c WAITING_FOR_NUM" using Cons.prems(3) by (intro step_goes) (auto simp: at_def)
    then show ?thesis using Cons.prems(3) by (intro exI [of _ ?c]) (simp add: at_def)
  qed
  then obtain c1 where c1: "goes fpu tx ctx WAITING_FOR_NUM c1 WAITING_FOR_NUM" "at N (length (pre @ [c])) sg vs os c1" by blast
  obtain c2 where c2: "goes fpu tx c1 WAITING_FOR_NUM c2 WAITING_FOR_NUM"
     "at N (length ((pre @ [c]) @ u)) (if odd (minuses u) then - sg else sg) vs os c2"
    using Cons.IH [of "pre @ [c]" sg c1] Cons.prems(1,2) c1(2) by auto
  have "(if odd (minuses u) then - sg else sg) = (if odd (minuses (c # u)) then - sign else sign)"
    by (simp add: sg_def)
  then show ?case using goes_trans [OF c1(1) c2(1)] c2(2) by auto
qed


lemma read_number:
  assumes "tx = pre @ n @ rest" "n \<noteq> []" "numeral_length n = length n" "stops rest" "at N (length pre) sign vs os ctx" "length vs < N"
  shows "\<exists>ctx'. goes fpu tx ctx WAITING_FOR_NUM ctx' WAITING_FOR_OP \<and>
    at N (length (pre @ n)) 1 (fp_mul fpu (fp_of_numeral fpu n) (fp_of_sign sign) # vs) os ctx'"
proof -
  have len: "numeral_length (n @ rest) = length n" using numeral_append [OF assms(3,2,4)] .
  obtain c n' where n: "n = c # n'" using assms(2) by (cases n) auto
  have "is_digit c \<or> c = ch CHR ''.''" using numeral_hd [of n] assms(2,3) n by auto
  then have e: "event c = EV_NUM" by (simp add: event_cases)
  have rep: "calc_rep N ctx vs os" "cursor ctx = length pre" "unary_sign ctx = sign" "\<not> finish ctx" using assms(5) by (simp_all add: at_def)
  let ?v = "fp_mul fpu (fp_of_numeral fpu n) (fp_of_sign sign)"
  obtain c1 where c1: "ValueStackPush ctx ?v = Inr c1" "calc_rep N c1 (?v # vs) os" "same_ctx ctx c1"
    using push_value [OF rep(1) assms(6)] by blast
  let ?c = "c1\<lparr>unary_sign := 1, cursor := cursor c1 + length n\<rparr>"
  have "strtod fpu (drop (cursor ctx) tx) = (fp_of_numeral fpu n, length n)"
    using assms(1,2) rep(2) len by (simp add: strtod_def Let_def)
  then have "FsmStep fpu lut tx ctx WAITING_FOR_NUM = Inr (?c, WAITING_FOR_OP, SUCCESS)"
    using FsmStep_at [of tx pre c "n' @ rest" ctx fpu WAITING_FOR_NUM] assms(1,2) n rep e c1(1) by (simp add: ActPushNumber_def)
  then have "goes fpu tx ctx WAITING_FOR_NUM ?c WAITING_FOR_OP" using rep c1(3) by (intro step_goes) (auto simp: same_ctx_def)
  then show ?thesis using c1 rep by (intro exI [of _ ?c]) (auto simp: at_def same_ctx_def)
qed

lemma read_open:
  assumes "tx = pre @ c # rest" "is_open c" "at N (length pre) sign vs os ctx" "length os < N"
  shows "\<exists>ctx'. goes fpu tx ctx WAITING_FOR_NUM ctx' WAITING_FOR_NUM \<and> at N (length (pre @ [c])) sign vs (c # os) ctx'"
proof -
  have rep: "calc_rep N ctx vs os" "cursor ctx = length pre" "unary_sign ctx = sign" "\<not> finish ctx" using assms(3) by (simp_all add: at_def)
  obtain c1 where c1: "OpStackPush ctx c = Inr c1" "calc_rep N c1 vs (c # os)" "same_ctx ctx c1" using push_op [OF rep(1) assms(4)] by blast
  let ?c = "c1\<lparr>cursor := cursor c1 + 1\<rparr>"
  have "FsmStep fpu lut tx ctx WAITING_FOR_NUM = Inr (?c, WAITING_FOR_NUM, SUCCESS)"
    using FsmStep_at [OF assms(1) rep(2)] assms(2) c1(1)
    by (auto simp: is_open_def event_cases is_digit_def is_space_def ActLParen_def ActLBracket_def ActLBrace_def)
  then have "goes fpu tx ctx WAITING_FOR_NUM ?c WAITING_FOR_NUM" using rep c1(3) by (intro step_goes) (auto simp: same_ctx_def)
  then show ?thesis using c1 rep by (intro exI [of _ ?c]) (auto simp: at_def same_ctx_def)
qed

lemma binop_action:
  assumes "is_binop op"
  shows "\<exists>act. g_trans_LUT WAITING_FOR_OP (event op) = (WAITING_FOR_NUM, act) \<and> call_action fpu lut tx act ctx = ActPushBinaryOp fpu lut ctx op"
  using assms
  by (auto simp: is_binop_def event_cases is_digit_def is_space_def ActPlus_def ActMinus_def ActMul_def ActDiv_def ActPow_def)

text \<open>What the two reductions leave: a state, or the end with \<open>MATH_ERROR\<close>.\<close>

lemma read_binop:
  assumes "tx = pre @ op # rest" "is_binop op" "at N (length pre) sign (W @ vs) (P @ os) ctx" "length P < length W" "length os < N"
    "\<forall>x \<in> set P. \<not> stays op x" "os = [] \<or> stays op (hd os)"
  shows "case flush fpu P W of
      None \<Rightarrow> stops_with fpu tx ctx WAITING_FOR_OP MATH_ERROR
    | Some W' \<Rightarrow> \<exists>ctx'. goes fpu tx ctx WAITING_FOR_OP ctx' WAITING_FOR_NUM \<and> at N (length (pre @ [op])) sign (W' @ vs) (op # os) ctx'"
proof -
  have rep: "calc_rep N ctx (W @ vs) (P @ os)" "cursor ctx = length pre" "unary_sign ctx = sign" "\<not> finish ctx" using assms(3) by (simp_all add: at_def)
  obtain act where act: "g_trans_LUT WAITING_FOR_OP (event op) = (WAITING_FOR_NUM, act)"
    "call_action fpu lut tx act ctx = ActPushBinaryOp fpu lut ctx op" using binop_action [OF assms(2)] by blast
  have op0: "op \<noteq> 0" using assms(2) by (auto simp: is_binop_def)
  obtain c where c: "same_ctx ctx c"
    "if flush fpu P W = None then ReduceOperators fpu lut ctx op = Inr (c, MATH_ERROR) \<and> room N c
     else ReduceOperators fpu lut ctx op = Inr (c, SUCCESS) \<and> calc_rep N c (the (flush fpu P W) @ vs) os"
    using ReduceOperators_ok [OF rep(1) assms(4,6,7), of fpu] op0 unfolding outcome_def by auto
  have step: "FsmStep fpu lut tx ctx WAITING_FOR_OP = bindE (ActPushBinaryOp fpu lut ctx op) (\<lambda>(ctx, status). Inr (ctx, WAITING_FOR_NUM, status))"
    using FsmStep_at [OF assms(1) rep(2)] act by simp
  show ?thesis
  proof (cases "flush fpu P W")
    case None
    then have r: "ReduceOperators fpu lut ctx op = Inr (c, MATH_ERROR)" "room N c" using c(2) by auto
    then obtain vs' os' where "calc_rep N c vs' os'" "length os' < N" by (auto simp: room_def)
    then obtain c1 where c1: "OpStackPush c op = Inr c1" "same_ctx c c1" using push_op by blast
    have "FsmStep fpu lut tx ctx WAITING_FOR_OP = Inr (c1\<lparr>cursor := cursor c1 + 1\<rparr>, WAITING_FOR_NUM, MATH_ERROR)"
      using step r(1) c1(1) by (simp add: ActPushBinaryOp_def)
    then have "stops_with fpu tx ctx WAITING_FOR_OP MATH_ERROR"
      by (rule step_stops) (use rep(4) c(1) c1(2) in \<open>auto simp: same_ctx_def\<close>)
    then show ?thesis using None by simp
  next
    case (Some W')
    then have r: "ReduceOperators fpu lut ctx op = Inr (c, SUCCESS)" "calc_rep N c (W' @ vs) os" using c(2) by auto
    obtain c1 where c1: "OpStackPush c op = Inr c1" "calc_rep N c1 (W' @ vs) (op # os)" "same_ctx c c1" using push_op [OF r(2) assms(5)] by blast
    let ?c = "c1\<lparr>cursor := cursor c1 + 1\<rparr>"
    have "FsmStep fpu lut tx ctx WAITING_FOR_OP = Inr (?c, WAITING_FOR_NUM, SUCCESS)"
      using step r(1) c1(1) by (simp add: ActPushBinaryOp_def)
    then have "goes fpu tx ctx WAITING_FOR_OP ?c WAITING_FOR_NUM" using rep c(1) c1(3) by (intro step_goes) (auto simp: same_ctx_def)
    moreover have "at N (length (pre @ [op])) sign (W' @ vs) (op # os) ?c" using c1 c(1) rep by (auto simp: at_def same_ctx_def)
    ultimately show ?thesis using Some by auto
  qed
qed

lemma close_action:
  assumes "is_open opening"
  shows "\<exists>act. g_trans_LUT WAITING_FOR_OP (event (closing opening)) = (WAITING_FOR_OP, act) \<and>
    call_action fpu lut tx act ctx = bindE (ReduceUntilOpen fpu lut ctx opening) (\<lambda>(ctx, status).
     if status \<noteq> SUCCESS then Inr (ctx, status) else Inr (ctx\<lparr>cursor := cursor ctx + 1\<rparr>, SUCCESS))"
  using assms by (auto simp: is_open_def event_cases is_digit_def is_space_def ActRParen_def ActRBracket_def ActRBrace_def)

lemma read_close:
  assumes "tx = pre @ closing opening # rest" "is_open opening" "at N (length pre) sign (W @ vs) (P @ opening # os) ctx"
    "length P < length W" "\<forall>x \<in> set P. is_binop x"
  shows "case flush fpu P W of
      None \<Rightarrow> stops_with fpu tx ctx WAITING_FOR_OP MATH_ERROR
    | Some W' \<Rightarrow> \<exists>ctx'. goes fpu tx ctx WAITING_FOR_OP ctx' WAITING_FOR_OP \<and> at N (length (pre @ [closing opening])) sign (W' @ vs) os ctx'"
proof -
  have rep: "calc_rep N ctx (W @ vs) (P @ opening # os)" "cursor ctx = length pre" "unary_sign ctx = sign" "\<not> finish ctx"
    using assms(3) by (simp_all add: at_def)
  obtain act where act: "g_trans_LUT WAITING_FOR_OP (event (closing opening)) = (WAITING_FOR_OP, act)"
    "call_action fpu lut tx act ctx = bindE (ReduceUntilOpen fpu lut ctx opening) (\<lambda>(ctx, status).
     if status \<noteq> SUCCESS then Inr (ctx, status) else Inr (ctx\<lparr>cursor := cursor ctx + 1\<rparr>, SUCCESS))"
    using close_action [OF assms(2)] by blast
  obtain c where c: "same_ctx ctx c"
    "if flush fpu P W = None then ReduceUntilOpen fpu lut ctx opening = Inr (c, MATH_ERROR) \<and> room N c
     else ReduceUntilOpen fpu lut ctx opening = Inr (c, SUCCESS) \<and> calc_rep N c (the (flush fpu P W) @ vs) os"
    using ReduceUntilOpen_ok [OF rep(1) assms(4,5) _ assms(2), of fpu] assms(2) unfolding outcome_def list.sel by auto
  have step: "FsmStep fpu lut tx ctx WAITING_FOR_OP = bindE (bindE (ReduceUntilOpen fpu lut ctx opening) (\<lambda>(ctx, status).
     if status \<noteq> SUCCESS then Inr (ctx, status) else Inr (ctx\<lparr>cursor := cursor ctx + 1\<rparr>, SUCCESS))) (\<lambda>(ctx, status). Inr (ctx, WAITING_FOR_OP, status))"
    using FsmStep_at [OF assms(1) rep(2)] act by simp
  show ?thesis
  proof (cases "flush fpu P W")
    case None
    then have "FsmStep fpu lut tx ctx WAITING_FOR_OP = Inr (c, WAITING_FOR_OP, MATH_ERROR)" using c(2) step by auto
    then have "stops_with fpu tx ctx WAITING_FOR_OP MATH_ERROR"
      by (rule step_stops) (use rep(4) c(1) in \<open>auto simp: same_ctx_def\<close>)
    then show ?thesis using None by simp
  next
    case (Some W')
    let ?c = "c\<lparr>cursor := cursor c + 1\<rparr>"
    have "FsmStep fpu lut tx ctx WAITING_FOR_OP = Inr (?c, WAITING_FOR_OP, SUCCESS)" using c(2) step Some by auto
    then have "goes fpu tx ctx WAITING_FOR_OP ?c WAITING_FOR_OP" using rep c(1) by (intro step_goes) (auto simp: same_ctx_def)
    moreover have "at N (length (pre @ [closing opening])) sign (W' @ vs) os ?c" using c rep Some by (auto simp: at_def same_ctx_def)
    ultimately show ?thesis using Some by auto
  qed
qed


section \<open>Reading an expression\<close>

text \<open>The operator below an expression of some level does not take its first operand away.\<close>

definition fits :: "nat \<Rightarrow> byte list \<Rightarrow> bool" where
  "fits lvl os \<longleftrightarrow> os = [] \<or> is_open (hd os) \<or> is_binop (hd os) \<and> (level (hd os) < lvl \<or> level (hd os) = 3 \<and> lvl = 3)"

text \<open>
  After the text of an expression: the operators \<open>P\<close> and numbers \<open>W\<close> on top of what was there compute
  its value, and none of the operators binds less than the level of the expression.
\<close>

definition reads :: "fpu \<Rightarrow> byte list \<Rightarrow> calc_data \<Rightarrow> nat \<Rightarrow> nat \<Rightarrow> nat \<Rightarrow> dbl list \<Rightarrow> byte list \<Rightarrow> dbl option \<Rightarrow> bool" where
  "reads fpu tx ctx N lvl pos vs os v \<longleftrightarrow>
     (v = None \<and> stops_with fpu tx ctx WAITING_FOR_NUM MATH_ERROR) \<or>
     (\<exists>P W ctx'. length W = Suc (length P) \<and> (\<forall>x \<in> set P. is_binop x \<and> lvl \<le> level x) \<and> length (W @ vs) \<le> pos \<and> length (P @ os) \<le> pos \<and>
        goes fpu tx ctx WAITING_FOR_NUM ctx' WAITING_FOR_OP \<and> at N pos 1 (W @ vs) (P @ os) ctx' \<and> flush fpu P W = map_option (\<lambda>x. [x]) v)"

lemma flush_append_ops: "length P < length W \<Longrightarrow> flush fpu (P @ Q) W = Option.bind (flush fpu P W) (flush fpu Q)"
proof (induction P arbitrary: W)
  case (Cons op P)
  obtain b a W2 where "W = b # a # W2" using Cons.prems by (cases W; cases "tl W") auto
  then show ?case using Cons.IH [of "the (binop fpu op a b) # W2"] Cons.prems by (auto split: option.splits)
qed simp

lemma stays_level: "stays op x \<longleftrightarrow> level x = 0 \<or> level x < level op \<or> (level x = level op \<and> level op = 3)"
  by (simp add: stays_def prec_level)

lemma level_le: "level x \<le> 3" "is_binop x \<Longrightarrow> 0 < level x" "is_open x \<Longrightarrow> level x = 0"
  by (auto simp: level_def is_binop_def is_open_def)

lemma reads_mono:
  assumes "reads fpu tx ctx N m pos vs os v" "l \<le> m"
  shows "reads fpu tx ctx N l pos vs os v"
  using assms unfolding reads_def by (meson order_trans)

lemma goes_reads:
  assumes "goes fpu tx ctx WAITING_FOR_NUM c WAITING_FOR_NUM" "reads fpu tx c N l pos vs os v"
  shows "reads fpu tx ctx N l pos vs os v"
  using assms goes_trans goes_stops unfolding reads_def by blast

lemma stops_spaces: "spaces w \<Longrightarrow> stop c \<Longrightarrow> stops (w @ c # rest)"
  by (cases w) (auto simp: stop_def)

lemma closing_stop: "stop (closing c)" "is_binop op \<Longrightarrow> stop op"
  by (auto simp: stop_def)

lemma signed_simps:
  "signed p (Num q n) = Num (p \<noteq> q) n" "signed p (Bin op a b) = Bin op (signed p a) b"
  by (auto simp: signed_def)

lemma flip_flip [simp]: "flip (flip e) = e"
  by (induction e) auto

lemma signed_signed: "signed p (signed q e) = signed (p \<noteq> q) e"
  by (auto simp: signed_def)

lemma sign_odd: "(if q then - sign else sign) = (if p \<noteq> q then - 1 else 1 :: int)" if "sign = (if p then - 1 else 1)"
  using that by auto

lemma run_num:
  assumes "signs u" "n \<noteq> []" "numeral_length n = length n" "sign = (if p then - 1 else 1)"
    "tx = pre @ (u @ n) @ rest" "stops rest" "at N (length pre) sign vs os ctx" "length tx \<le> N" "length vs \<le> length pre" "length os \<le> length pre"
  shows "reads fpu tx ctx N 4 (length (pre @ u @ n)) vs os (eval fpu (signed p (Num (odd (minuses u)) n)))"
proof -
  let ?neg = "p \<noteq> odd (minuses u)"
  obtain c1 where c1: "goes fpu tx ctx WAITING_FOR_NUM c1 WAITING_FOR_NUM" "at N (length (pre @ u)) (if ?neg then - 1 else 1) vs os c1"
    using read_signs [of tx pre u "n @ rest" N sign vs os ctx fpu] assms(1,5,7) unfolding sign_odd [OF assms(4)] by auto
  have len: "0 < length n" using assms(2) by simp
  have "length tx = length pre + length u + length n + length rest" using assms(5) by simp
  then have room: "length vs < N" using len assms(8,9) by linarith
  let ?v = "fp_mul fpu (fp_of_numeral fpu n) (fp_of_sign (if ?neg then - 1 else 1))"
  obtain c2 where c2: "goes fpu tx c1 WAITING_FOR_NUM c2 WAITING_FOR_OP" "at N (length ((pre @ u) @ n)) 1 (?v # vs) os c2"
    using read_number [of tx "pre @ u" n rest N "if ?neg then - 1 else 1" vs os c1 fpu] assms(2,3,5,6) room c1(2) by auto
  have "Suc (length vs) \<le> length (pre @ u @ n)" using len assms(9) unfolding length_append by linarith
  then show ?thesis unfolding reads_def
    using goes_trans [OF c1(1) c2(1)] c2(2) assms(10)
    by (intro disjI2 exI [of _ "[]"] exI [of _ "[?v]"] exI [of _ c2]) (auto simp: signed_simps)
qed

lemma run_close:
  assumes "tx = pre @ t @ w @ closing c # rest" "spaces w" "is_open c" "reads fpu tx ctx N 1 (length (pre @ t)) vs (c # os) v"
    "length vs < length pre" "length os < length pre"
  shows "reads fpu tx ctx N 4 (length (pre @ t @ w @ [closing c])) vs os v"
proof (cases "v = None \<and> stops_with fpu tx ctx WAITING_FOR_NUM MATH_ERROR")
  case False
  then obtain P W c1 where p: "length W = Suc (length P)" "\<forall>x \<in> set P. is_binop x" "goes fpu tx ctx WAITING_FOR_NUM c1 WAITING_FOR_OP"
    "at N (length (pre @ t)) 1 (W @ vs) (P @ c # os) c1" "flush fpu P W = map_option (\<lambda>x. [x]) v"
    using assms(4) unfolding reads_def by blast
  obtain c2 where c2: "goes fpu tx c1 WAITING_FOR_OP c2 WAITING_FOR_OP" "at N (length ((pre @ t) @ w)) 1 (W @ vs) (P @ c # os) c2"
    using read_spaces [of tx "pre @ t" w "closing c # rest" N 1 "W @ vs" "P @ c # os" c1 fpu WAITING_FOR_OP] assms(1,2) p(4) by auto
  have r: "case flush fpu P W of
      None \<Rightarrow> stops_with fpu tx c2 WAITING_FOR_OP MATH_ERROR
    | Some W' \<Rightarrow> \<exists>ctx'. goes fpu tx c2 WAITING_FOR_OP ctx' WAITING_FOR_OP \<and> at N (length (((pre @ t) @ w) @ [closing c])) 1 (W' @ vs) os ctx'"
    using read_close [OF _ assms(3) c2(2), of tx rest fpu] assms(1) p(1,2) by simp
  note before = goes_trans [OF p(3) c2(1)]
  show ?thesis
  proof (cases v)
    case None
    then show ?thesis using r p(5) goes_stops [OF before] by (auto simp: reads_def)
  next
    case (Some x)
    then obtain c3 where c3: "goes fpu tx c2 WAITING_FOR_OP c3 WAITING_FOR_OP" "at N (length (((pre @ t) @ w) @ [closing c])) 1 ([x] @ vs) os c3"
      using r p(5) by auto
    show ?thesis unfolding reads_def
      using goes_trans [OF before c3(1)] c3(2) Some assms(5,6)
      by (intro disjI2 exI [of _ "[]"] exI [of _ "[x]"] exI [of _ c3]) auto
  qed
qed (simp add: reads_def)

text \<open>Between the operands of an operator.\<close>

lemma run_operator:
  assumes "tx = pre @ t @ w @ op # rest" "spaces w" "is_binop op" "reads fpu tx ctx N (left_level op) (length (pre @ t)) vs os v"
    "fits (level op) os" "length os < N"
  shows "(v = None \<and> stops_with fpu tx ctx WAITING_FOR_NUM MATH_ERROR) \<or>
    (\<exists>x c. v = Some x \<and> goes fpu tx ctx WAITING_FOR_NUM c WAITING_FOR_NUM \<and> at N (length (pre @ t @ w @ [op])) 1 (x # vs) (op # os) c)"
proof (cases "v = None \<and> stops_with fpu tx ctx WAITING_FOR_NUM MATH_ERROR")
  case False
  then obtain P W c1 where p: "length W = Suc (length P)" "\<forall>x \<in> set P. is_binop x \<and> left_level op \<le> level x"
    "goes fpu tx ctx WAITING_FOR_NUM c1 WAITING_FOR_OP" "at N (length (pre @ t)) 1 (W @ vs) (P @ os) c1" "flush fpu P W = map_option (\<lambda>x. [x]) v"
    using assms(4) unfolding reads_def by blast
  obtain c2 where c2: "goes fpu tx c1 WAITING_FOR_OP c2 WAITING_FOR_OP" "at N (length ((pre @ t) @ w)) 1 (W @ vs) (P @ os) c2"
    using read_spaces [of tx "pre @ t" w "op # rest" N 1 "W @ vs" "P @ os" c1 fpu WAITING_FOR_OP] assms(1,2) p(4) by auto
  have "\<forall>x \<in> set P. \<not> stays op x"
  proof
    fix x
    assume "x \<in> set P"
    then have "left_level op \<le> level x" "0 < level x" using p(2) level_le(2) by auto
    then show "\<not> stays op x" using level_le(1) [of x] by (auto simp: stays_level left_level_def split: if_splits)
  qed
  moreover have "os = [] \<or> stays op (hd os)" using assms(5) level_le(3) by (auto simp: fits_def stays_level)
  ultimately have r: "case flush fpu P W of
      None \<Rightarrow> stops_with fpu tx c2 WAITING_FOR_OP MATH_ERROR
    | Some W' \<Rightarrow> \<exists>ctx'. goes fpu tx c2 WAITING_FOR_OP ctx' WAITING_FOR_NUM \<and> at N (length (((pre @ t) @ w) @ [op])) 1 (W' @ vs) (op # os) ctx'"
    using read_binop [OF _ assms(3) c2(2), of tx rest fpu] assms(1,6) p(1) by simp
  note before = goes_trans [OF p(3) c2(1)]
  show ?thesis
  proof (cases v)
    case None
    then show ?thesis using r p(5) goes_stops [OF before] by auto
  next
    case (Some x)
    then obtain c3 where c3: "goes fpu tx c2 WAITING_FOR_OP c3 WAITING_FOR_NUM" "at N (length (((pre @ t) @ w) @ [op])) 1 ([x] @ vs) (op # os) c3"
      using r p(5) by auto
    then show ?thesis using goes_trans [OF before c3(1)] Some by (intro disjI2 exI [of _ x] exI [of _ c3]) simp
  qed
qed simp

lemma run_operands:
  assumes "reads fpu tx c N (right_level op) pos (x # vs) (op # os) v" "is_binop op" "goes fpu tx ctx WAITING_FOR_NUM c WAITING_FOR_NUM"
  shows "reads fpu tx ctx N (level op) pos vs os (case v of None \<Rightarrow> None | Some y \<Rightarrow> binop fpu op x y)"
proof (cases "v = None \<and> stops_with fpu tx c WAITING_FOR_NUM MATH_ERROR")
  case True
  then show ?thesis using goes_stops [OF assms(3)] by (simp add: reads_def)
next
  case False
  then obtain P W c1 where p: "length W = Suc (length P)" "\<forall>x \<in> set P. is_binop x \<and> right_level op \<le> level x"
    "length (W @ x # vs) \<le> pos" "length (P @ op # os) \<le> pos"
    "goes fpu tx c WAITING_FOR_NUM c1 WAITING_FOR_OP" "at N pos 1 (W @ x # vs) (P @ op # os) c1" "flush fpu P W = map_option (\<lambda>x. [x]) v"
    using assms(1) unfolding reads_def by blast
  have "flush fpu (P @ [op]) (W @ [x]) = Option.bind (map_option (\<lambda>W'. W' @ [x]) (flush fpu P W)) (flush fpu [op])"
    using p(1) flush_append [of P W fpu "[x]"] flush_append_ops [of P "W @ [x]" fpu "[op]"] by simp
  also have "\<dots> = map_option (\<lambda>x. [x]) (case v of None \<Rightarrow> None | Some y \<Rightarrow> binop fpu op x y)"
    by (cases v) (auto simp: p(7) split: option.splits)
  finally have f: "flush fpu (P @ [op]) (W @ [x]) = map_option (\<lambda>x. [x]) (case v of None \<Rightarrow> None | Some y \<Rightarrow> binop fpu op x y)" .
  have "level op \<le> right_level op" by (simp add: right_level_def)
  then have l: "\<forall>x \<in> set (P @ [op]). is_binop x \<and> level op \<le> level x" using p(2) assms(2) by auto
  show ?thesis unfolding reads_def
    by (intro disjI2 exI [of _ "P @ [op]"] exI [of _ "W @ [x]"] exI [of _ c1] conjI l f)
      (use p goes_trans [OF assms(3) p(5)] in simp_all)
qed


lemma expr_text_nonempty: "expr_text l u e \<Longrightarrow> u \<noteq> []"
  by (induction rule: expr_text.induct) auto

lemma expr_run:
  "expr_text l u e \<Longrightarrow> sign = (if p then - 1 else 1) \<Longrightarrow> tx = pre @ u @ rest \<Longrightarrow> stops rest \<Longrightarrow> at N (length pre) sign vs os ctx \<Longrightarrow>
   length tx \<le> N \<Longrightarrow> length vs \<le> length pre \<Longrightarrow> length os \<le> length pre \<Longrightarrow> fits l os \<Longrightarrow>
   reads fpu tx ctx N l (length (pre @ u)) vs os (eval fpu (signed p e))"
proof (induction arbitrary: pre rest vs os ctx sign p rule: expr_text.induct)
  case (num u n)
  then show ?case using run_num [of u n sign p tx pre rest N vs os ctx fpu] by simp
next
  case (group u c t e w)
  let ?pre = "(pre @ u) @ [c]" and ?rest = "w @ closing c # rest" and ?p = "p \<noteq> odd (minuses u)"
  obtain c1 where c1: "goes fpu tx ctx WAITING_FOR_NUM c1 WAITING_FOR_NUM" "at N (length (pre @ u)) (if ?p then - 1 else 1) vs os c1"
    using read_signs [of tx pre u "c # t @ ?rest" N sign vs os ctx fpu] group unfolding sign_odd [OF group.prems(1)] by auto
  have "length os < N" using group.prems by simp
  then obtain c2 where c2: "goes fpu tx c1 WAITING_FOR_NUM c2 WAITING_FOR_NUM" "at N (length ?pre) (if ?p then - 1 else 1) vs (c # os) c2"
    using read_open [of tx "pre @ u" c "t @ ?rest" N "if ?p then - 1 else 1" vs os c1 fpu] group c1(2) by auto
  have "reads fpu tx c2 N 1 (length (?pre @ t)) vs (c # os) (eval fpu (signed ?p e))"
  proof (rule group.IH [OF refl])
    show "stops ?rest" using group by (intro stops_spaces closing_stop(1)) auto
    show "at N (length ?pre) (if ?p then - 1 else 1) vs (c # os) c2" by (rule c2(2))
  qed (use group in \<open>auto simp: fits_def\<close>)
  then have "reads fpu tx c2 N 4 (length (?pre @ t @ w @ [closing c])) vs os (eval fpu (signed ?p e))"
    using group by (intro run_close [of tx ?pre t w c rest]) auto
  then show ?case using goes_reads [OF goes_trans [OF c1(1) c2(1)]] by (simp add: signed_signed)
next
  case (bin op t1 e1 w t2 e2)
  let ?pre = "pre @ t1 @ w @ [op]"
  have t1: "fits (left_level op) os" using bin.prems(8) level_le(1) [of "hd os"] by (auto simp: fits_def left_level_def)
  have "reads fpu tx ctx N (left_level op) (length (pre @ t1)) vs os (eval fpu (signed p e1))"
    using bin t1 by (intro bin.IH(1) [of sign p pre "w @ op # t2 @ rest"] stops_spaces closing_stop(2)) auto
  then have "(eval fpu (signed p e1) = None \<and> stops_with fpu tx ctx WAITING_FOR_NUM MATH_ERROR) \<or>
    (\<exists>x c. eval fpu (signed p e1) = Some x \<and> goes fpu tx ctx WAITING_FOR_NUM c WAITING_FOR_NUM \<and> at N (length ?pre) 1 (x # vs) (op # os) c)"
    using bin by (intro run_operator [of tx pre t1 w op "t2 @ rest"]) auto
  then show ?case
  proof (elim disjE exE conjE)
    fix x c
    assume x: "eval fpu (signed p e1) = Some x" "goes fpu tx ctx WAITING_FOR_NUM c WAITING_FOR_NUM" "at N (length ?pre) 1 (x # vs) (op # os) c"
    have "fits (right_level op) (op # os)" using bin by (auto simp: fits_def right_level_def)
    then have "reads fpu tx c N (right_level op) (length (?pre @ t2)) (x # vs) (op # os) (eval fpu (signed False e2))"
      using bin x(3) by (intro bin.IH(2) [of 1 False ?pre rest]) auto
    from run_operands [OF this bin.hyps(3) x(2)] show ?case using x(1) by (simp add: signed_simps) (simp add: signed_def)
  qed (simp add: reads_def signed_simps)
next
  case (lift m t e l)
  have "fits m os" using lift.prems(8) lift.hyps(2) level_le(1) [of "hd os"] by (auto simp: fits_def)
  from reads_mono [OF lift.IH [OF lift.prems(1-7) this] lift.hyps(2)] show ?case .
qed

section \<open>The end of the text\<close>

lemma ReduceOperators_end:
  assumes "calc_rep N ctx W P" "length W = Suc (length P)" "\<forall>x \<in> set P. is_binop x"
  shows "outcome N ctx (\<lambda>ctx'. calc_rep N ctx' (the (flush fpu P W)) []) (flush fpu P W) SUCCESS (ReduceOperators fpu lut ctx 0)"
proof -
  have "\<forall>x \<in> set P. \<not> stays 0 x" using assms(3) level_le(2) by (fastforce simp: stays_level level_def [of 0])
  then show ?thesis using ReduceOperators_ok [of N ctx W "[]" P "[]" 0 fpu] assms by simp
qed

lemma read_end:
  assumes "tx = pre @ [0]" "at N (length pre) sign W P ctx" "length W = Suc (length P)" "\<forall>x \<in> set P. is_binop x" "flush fpu P W = map_option (\<lambda>x. [x]) v"
  shows "\<exists>ctx'. \<forall>fuel. Calculate_loop (Suc (Suc fuel)) fpu lut tx ctx WAITING_FOR_OP SUCCESS =
      Inr (ctx', case v of None \<Rightarrow> MATH_ERROR | Some x \<Rightarrow> SUCCESS) \<and> calc_out ctx' = (case v of None \<Rightarrow> calc_out ctx | Some x \<Rightarrow> x)"
proof -
  have rep: "calc_rep N ctx W P" "cursor ctx = length pre" "\<not> finish ctx" using assms(2) by (simp_all add: at_def)
  obtain c where c: "same_ctx ctx c"
    "if flush fpu P W = None then ReduceOperators fpu lut ctx 0 = Inr (c, MATH_ERROR) \<and> room N c
     else ReduceOperators fpu lut ctx 0 = Inr (c, SUCCESS) \<and> calc_rep N c (the (flush fpu P W)) []"
    using ReduceOperators_end [OF rep(1) assms(3,4), of fpu] unfolding outcome_def by auto
  have e: "g_trans_LUT WAITING_FOR_OP (event 0) = (WAITING_FOR_OP, fn_ActEnd)" by (simp add: event_cases is_digit_def)
  have step: "FsmStep fpu lut tx ctx WAITING_FOR_OP = bindE (ActEnd fpu lut ctx) (\<lambda>(ctx, status). Inr (ctx, WAITING_FOR_OP, status))"
    using FsmStep_at [of tx pre 0 "[]" ctx fpu WAITING_FOR_OP] assms(1) rep(2) e by simp
  show ?thesis
  proof (cases v)
    case None
    then have "ActEnd fpu lut ctx = Inr (c, MATH_ERROR)" using c(2) assms(5) by (simp add: ActEnd_def)
    then show ?thesis using step rep(3) None c(1) by (intro exI [of _ c]) (auto simp: same_ctx_def)
  next
    case (Some x)
    then have r: "ReduceOperators fpu lut ctx 0 = Inr (c, SUCCESS)" "calc_rep N c [x] []" using c(2) assms(5) by auto
    obtain a where a: "StackPeek (values_stack c) = Inr a" "stack_load (values_stack c) a 8 = Inr (bytes_of 8 x)" using peek_value [OF r(2)] by blast
    have "ActEnd fpu lut ctx = Inr (c\<lparr>calc_out := x, finish := True\<rparr>, SUCCESS)"
      using r(1) a rep_tops(3,4) [OF r(2)] by (simp add: ActEnd_def ptr_of_bytes_of del: bytes_of.simps)
    then show ?thesis using step rep(3) Some by (intro exI [of _ "c\<lparr>calc_out := x, finish := True\<rparr>"]) simp
  qed
qed


section \<open>Every text\<close>

text \<open>
  What holds between steps, whatever the text: numbers and operators balance, and the stacks are never
  longer than the text read so far.
\<close>

definition calc_inv :: "byte list \<Rightarrow> calc_data \<Rightarrow> state_e \<Rightarrow> bool" where
  "calc_inv s ctx st \<longleftrightarrow>
     (\<exists>vs os. calc_rep (length s + 1) ctx vs os \<and> (\<forall>x \<in> set os. is_binop x \<or> is_open x) \<and>
        length vs = length (filter is_binop os) + (if st = WAITING_FOR_OP then 1 else 0) \<and>
        length vs \<le> cursor ctx \<and> length os \<le> cursor ctx \<and> cursor ctx \<le> length s \<and> \<not> finish ctx)"

lemma at_inv:
  assumes "at (length s + 1) pos sign vs os ctx" "\<forall>x \<in> set os. is_binop x \<or> is_open x"
    "length vs = length (filter is_binop os) + (if st = WAITING_FOR_OP then 1 else 0)" "length vs \<le> pos" "length os \<le> pos" "pos \<le> length s"
  shows "calc_inv s ctx st"
  using assms unfolding calc_inv_def at_def by blast

text \<open>A step stops with an error, finishes, or goes on further right.\<close>

definition step_fine :: "byte list \<Rightarrow> calc_data \<Rightarrow> (calc_data \<times> state_e \<times> calculator_status) result \<Rightarrow> bool" where
  "step_fine s ctx r \<longleftrightarrow>
     (\<exists>ctx' st' status. r = Inr (ctx', st', status) \<and>
        ((status = MATH_ERROR \<or> status = SYNTAX_ERROR) \<and> calc_out ctx' = calc_out ctx \<or>
         status = SUCCESS \<and> finish ctx' \<or>
         status = SUCCESS \<and> calc_inv s ctx' st' \<and> calc_out ctx' = calc_out ctx \<and> cursor ctx < cursor ctx'))"

lemma flush_one: "length W = Suc (length P) \<Longrightarrow> flush fpu P W = Some W' \<Longrightarrow> \<exists>v. W' = [v]"
  using flush_length [of fpu P W W'] by (cases W'; cases "tl W'") auto

lemma filter_binop_takeWhile: "\<forall>x \<in> set P. is_binop x \<Longrightarrow> length (filter is_binop (P @ os)) = length P + length (filter is_binop os)"
  by (induction P) auto

text \<open>Numbers enough for the operators that a reduction takes.\<close>

lemma split_stacks:
  assumes "length vs = Suc (length (filter is_binop os))" "os = P @ R" "\<forall>x \<in> set P. is_binop x"
  obtains W V where "vs = W @ V" "length W = Suc (length P)" "length V = length (filter is_binop R)"
proof
  show "vs = take (Suc (length P)) vs @ drop (Suc (length P)) vs" by simp
  show "length (take (Suc (length P)) vs) = Suc (length P)" "length (drop (Suc (length P)) vs) = length (filter is_binop R)"
    using assms filter_binop_takeWhile [OF assms(3), of R] by auto
qed


lemma same_ctxD: "same_ctx a b \<Longrightarrow> cursor b = cursor a \<and> calc_out b = calc_out a \<and> unary_sign b = unary_sign a \<and> finish b = finish a"
  by (simp add: same_ctx_def)

lemma stays_binop: "\<not> stays op x \<Longrightarrow> is_binop x"
  by (auto simp: stays_def simp flip: prec_binop)

lemma reduce_total:
  assumes "calc_rep N ctx vs os" "length vs = Suc (length (filter is_binop os))" "\<forall>x \<in> set os. is_binop x \<or> is_open x"
  shows "\<exists>c P R. os = P @ R \<and> same_ctx ctx c \<and>
    (ReduceOperators fpu lut ctx op = Inr (c, MATH_ERROR) \<and> room N c \<or>
     (\<exists>vs'. ReduceOperators fpu lut ctx op = Inr (c, if op = 0 \<and> R \<noteq> [] then SYNTAX_ERROR else SUCCESS) \<and>
        calc_rep N c vs' R \<and> length vs' = Suc (length (filter is_binop R)) \<and> length vs' \<le> length vs))"
proof -
  let ?P = "takeWhile (\<lambda>x. \<not> stays op x) os" and ?R = "dropWhile (\<lambda>x. \<not> stays op x) os"
  have P: "\<forall>x \<in> set ?P. \<not> stays op x" using set_takeWhileD by fastforce
  then have bin: "\<forall>x \<in> set ?P. is_binop x" using stays_binop by blast
  have R: "?R = [] \<or> stays op (hd ?R)" using hd_dropWhile [of "\<lambda>x. \<not> stays op x" os] by auto
  have os: "os = ?P @ ?R" by simp
  obtain W V where w: "vs = W @ V" "length W = Suc (length ?P)" "length V = length (filter is_binop ?R)"
    by (rule split_stacks [OF assms(2) os bin])
  have rep: "calc_rep N ctx (W @ V) (?P @ ?R)" using assms(1) w(1) by simp
  have "length ?P < length W" using w(2) by simp
  from ReduceOperators_ok [OF rep this P R, of fpu] obtain c where c: "same_ctx ctx c"
    "if flush fpu ?P W = None then ReduceOperators fpu lut ctx op = Inr (c, MATH_ERROR) \<and> room N c
     else ReduceOperators fpu lut ctx op = Inr (c, if op = 0 \<and> ?R \<noteq> [] then SYNTAX_ERROR else SUCCESS) \<and> calc_rep N c (the (flush fpu ?P W) @ V) ?R"
    unfolding outcome_def by blast
  show ?thesis
  proof (cases "flush fpu ?P W")
    case None
    then show ?thesis using c os by (intro exI [of _ c] exI [of _ ?P] exI [of _ ?R]) simp
  next
    case (Some W')
    obtain v where "W' = [v]" using flush_one [OF w(2) Some] by blast
    then have l: "length (W' @ V) = Suc (length (filter is_binop ?R))" "length (W' @ V) \<le> length vs" using w by simp_all
    show ?thesis using c os Some l
      by (intro exI [of _ c] exI [of _ ?P] exI [of _ ?R] conjI disjI2 exI [of _ "W' @ V"]) simp_all
  qed
qed

lemma until_total:
  assumes "calc_rep N ctx vs os" "length vs = Suc (length (filter is_binop os))" "\<forall>x \<in> set os. is_binop x \<or> is_open x" "is_open opening"
  shows "\<exists>c P R. os = P @ R \<and> same_ctx ctx c \<and>
    (ReduceUntilOpen fpu lut ctx opening = Inr (c, MATH_ERROR) \<or> ReduceUntilOpen fpu lut ctx opening = Inr (c, SYNTAX_ERROR) \<or>
     (\<exists>vs'. ReduceUntilOpen fpu lut ctx opening = Inr (c, SUCCESS) \<and> R \<noteq> [] \<and>
        calc_rep N c vs' (tl R) \<and> length vs' = Suc (length (filter is_binop (tl R))) \<and> length vs' \<le> length vs))"
proof -
  let ?P = "takeWhile is_binop os" and ?R = "dropWhile is_binop os"
  have P: "\<forall>x \<in> set ?P. is_binop x" using set_takeWhileD by fastforce
  have os: "os = ?P @ ?R" by simp
  have R: "?R = [] \<or> is_open (hd ?R)"
  proof (cases "?R = []")
    case False
    then have "hd ?R \<in> set os" "\<not> is_binop (hd ?R)" using hd_dropWhile [of is_binop os] set_dropWhileD [of "hd ?R" is_binop os] by auto
    then show ?thesis using assms(3) by blast
  qed simp
  obtain W V where w: "vs = W @ V" "length W = Suc (length ?P)" "length V = length (filter is_binop ?R)"
    by (rule split_stacks [OF assms(2) os P])
  have rep: "calc_rep N ctx (W @ V) (?P @ ?R)" using assms(1) w(1) by simp
  have "length ?P < length W" using w(2) by simp
  from ReduceUntilOpen_ok [OF rep this P R assms(4), of fpu] obtain c where c: "same_ctx ctx c"
    "if flush fpu ?P W = None then ReduceUntilOpen fpu lut ctx opening = Inr (c, MATH_ERROR) \<and> room N c
     else ReduceUntilOpen fpu lut ctx opening = Inr (c, if ?R \<noteq> [] \<and> hd ?R = opening then SUCCESS else SYNTAX_ERROR) \<and>
       (?R \<noteq> [] \<and> hd ?R = opening \<longrightarrow> calc_rep N c (the (flush fpu ?P W) @ V) (tl ?R))"
    unfolding outcome_def by blast
  show ?thesis
  proof (cases "flush fpu ?P W")
    case None
    then show ?thesis using c os by (intro exI [of _ c] exI [of _ ?P] exI [of _ ?R]) simp
  next
    case (Some W')
    show ?thesis
    proof (cases "?R \<noteq> [] \<and> hd ?R = opening")
      case True
      obtain v where v: "W' = [v]" using flush_one [OF w(2) Some] by blast
      have "filter is_binop ?R = filter is_binop (tl ?R)" using R True open_binop by (cases ?R) auto
      then have l: "length (W' @ V) = Suc (length (filter is_binop (tl ?R)))" "length (W' @ V) \<le> length vs" using w v by simp_all
      have r: "ReduceUntilOpen fpu lut ctx opening = Inr (c, SUCCESS)" "calc_rep N c (W' @ V) (tl ?R)" using c(2) Some True by auto
      show ?thesis
        by (intro exI [of _ c] exI [of _ ?P] exI [of _ ?R] conjI disjI2 exI [of _ "W' @ V"] os c(1) r l) (use True in simp)
    next
      case False
      then have "ReduceUntilOpen fpu lut ctx opening = Inr (c, SYNTAX_ERROR)" using c(2) Some by auto
      then show ?thesis using os c(1) by blast
    qed
  qed
qed

lemma invD:
  assumes "calc_inv s ctx st"
  obtains vs os where "calc_rep (length s + 1) ctx vs os" "\<forall>x \<in> set os. is_binop x \<or> is_open x"
    "length vs = length (filter is_binop os) + (if st = WAITING_FOR_OP then 1 else 0)"
    "length vs \<le> cursor ctx" "length os \<le> cursor ctx" "cursor ctx \<le> length s" "\<not> finish ctx"
  using assms unfolding calc_inv_def by blast

lemma invI:
  assumes "calc_rep (length s + 1) ctx vs os" "\<forall>x \<in> set os. is_binop x \<or> is_open x"
    "length vs = length (filter is_binop os) + (if st = WAITING_FOR_OP then 1 else 0)"
    "length vs \<le> cursor ctx" "length os \<le> cursor ctx" "cursor ctx \<le> length s" "\<not> finish ctx"
  shows "calc_inv s ctx st"
  using assms unfolding calc_inv_def by blast

lemma fine_error: "calc_out ctx' = calc_out ctx \<Longrightarrow> status = MATH_ERROR \<or> status = SYNTAX_ERROR \<Longrightarrow> step_fine s ctx (Inr (ctx', st', status))"
  by (auto simp: step_fine_def)

lemma fine_on: "calc_inv s ctx' st' \<Longrightarrow> calc_out ctx' = calc_out ctx \<Longrightarrow> cursor ctx < cursor ctx' \<Longrightarrow> step_fine s ctx (Inr (ctx', st', SUCCESS))"
  by (auto simp: step_fine_def)

text \<open>The actions, one by one, where there is another character to read.\<close>

lemma fine_skip:
  assumes "calc_inv s ctx st" "cursor ctx < length s"
  shows "step_fine s ctx (Inr (ctx\<lparr>unary_sign := i, cursor := cursor ctx + 1\<rparr>, st, SUCCESS))"
proof (rule fine_on)
  show "calc_inv s (ctx\<lparr>unary_sign := i, cursor := cursor ctx + 1\<rparr>) st"
    using assms by (elim invD, intro invI) auto
qed simp_all

lemma fine_open:
  assumes "calc_inv s ctx WAITING_FOR_NUM" "cursor ctx < length s" "is_open c"
  shows "step_fine s ctx (bindE (bindE (OpStackPush ctx c) (\<lambda>ctx. Inr (ctx\<lparr>cursor := cursor ctx + 1\<rparr>, SUCCESS)))
    (\<lambda>(ctx, status). Inr (ctx, WAITING_FOR_NUM, status)))"
proof -
  obtain vs os where i: "calc_rep (length s + 1) ctx vs os" "\<forall>x \<in> set os. is_binop x \<or> is_open x" "length vs = length (filter is_binop os)"
    "length vs \<le> cursor ctx" "length os \<le> cursor ctx" "cursor ctx \<le> length s" "\<not> finish ctx" using assms(1) by (rule invD) auto
  have "length os < length s + 1" using i(5,6) by simp
  from push_op [OF i(1) this] obtain c1 where c1: "OpStackPush ctx c = Inr c1" "calc_rep (length s + 1) c1 vs (c # os)" "same_ctx ctx c1" by blast
  have "calc_inv s (c1\<lparr>cursor := cursor c1 + 1\<rparr>) WAITING_FOR_NUM"
    by (rule invI [of _ _ vs "c # os"]) (use c1 i assms(2,3) open_binop [OF assms(3)] same_ctxD [OF c1(3)] in auto)
  then show ?thesis using c1 same_ctxD [OF c1(3)] by (auto intro!: fine_on)
qed

lemma fine_number:
  assumes "calc_inv s ctx WAITING_FOR_NUM" "cursor ctx < length s"
  shows "step_fine s ctx (bindE (ActPushNumber fpu (s @ [0]) ctx) (\<lambda>(ctx, status). Inr (ctx, WAITING_FOR_OP, status)))"
proof -
  obtain vs os where i: "calc_rep (length s + 1) ctx vs os" "\<forall>x \<in> set os. is_binop x \<or> is_open x" "length vs = length (filter is_binop os)"
    "length vs \<le> cursor ctx" "length os \<le> cursor ctx" "cursor ctx \<le> length s" "\<not> finish ctx" using assms(1) by (rule invD) auto
  let ?rest = "drop (cursor ctx) s" and ?n = "numeral_length (drop (cursor ctx) s @ [0])"
  have d: "drop (cursor ctx) (s @ [0]) = ?rest @ [0]" using i(6) by simp
  have n: "cursor ctx + ?n \<le> length s" using numeral_zero [of ?rest] i(6) by simp
  show ?thesis
  proof (cases "?n = 0")
    case True
    then have "ActPushNumber fpu (s @ [0]) ctx = Inr (ctx, SYNTAX_ERROR)" unfolding ActPushNumber_def strtod_def d by simp
    then show ?thesis by (auto intro!: fine_error)
  next
    case False
    have "length vs < length s + 1" using i(4,6) by simp
    from push_value [OF i(1) this] obtain c1 where
      c1: "ValueStackPush ctx (fp_mul fpu (fp_of_numeral fpu (take ?n (?rest @ [0]))) (fp_of_sign (unary_sign ctx))) = Inr c1"
        "calc_rep (length s + 1) c1 (fp_mul fpu (fp_of_numeral fpu (take ?n (?rest @ [0]))) (fp_of_sign (unary_sign ctx)) # vs) os" "same_ctx ctx c1"
      by blast
    let ?c = "c1\<lparr>unary_sign := 1, cursor := cursor c1 + ?n\<rparr>"
    have "ActPushNumber fpu (s @ [0]) ctx = Inr (?c, SUCCESS)"
      unfolding ActPushNumber_def strtod_def d using False c1(1) by (simp add: Let_def)
    moreover have "calc_inv s ?c WAITING_FOR_OP"
      by (rule invI) (use c1 i n False same_ctxD [OF c1(3)] in auto)
    ultimately show ?thesis using False same_ctxD [OF c1(3)] by (auto intro!: fine_on)
  qed
qed

lemma fine_binop:
  assumes "calc_inv s ctx WAITING_FOR_OP" "cursor ctx < length s" "is_binop op"
  shows "step_fine s ctx (bindE (ActPushBinaryOp fpu lut ctx op) (\<lambda>(ctx, status). Inr (ctx, WAITING_FOR_NUM, status)))"
proof -
  obtain vs os where i: "calc_rep (length s + 1) ctx vs os" "\<forall>x \<in> set os. is_binop x \<or> is_open x" "length vs = Suc (length (filter is_binop os))"
    "length vs \<le> cursor ctx" "length os \<le> cursor ctx" "cursor ctx \<le> length s" "\<not> finish ctx" using assms(1) by (rule invD) auto
  have op0: "op \<noteq> 0" using assms(3) by (auto simp: is_binop_def)
  obtain c P R where c: "os = P @ R" "same_ctx ctx c"
    "ReduceOperators fpu lut ctx op = Inr (c, MATH_ERROR) \<and> room (length s + 1) c \<or>
     (\<exists>vs'. ReduceOperators fpu lut ctx op = Inr (c, SUCCESS) \<and> calc_rep (length s + 1) c vs' R \<and>
        length vs' = Suc (length (filter is_binop R)) \<and> length vs' \<le> length vs)"
    using reduce_total [OF i(1,3,2), of fpu op] op0 by auto
  show ?thesis
  proof (cases "ReduceOperators fpu lut ctx op = Inr (c, MATH_ERROR) \<and> room (length s + 1) c")
    case True
    then obtain vs' os' where "calc_rep (length s + 1) c vs' os'" "length os' < length s + 1" by (auto simp: room_def)
    then obtain c1 where "OpStackPush c op = Inr c1" "same_ctx c c1" using push_op by blast
    then show ?thesis using True same_ctxD [OF c(2)] same_ctxD [of c c1] by (auto simp: ActPushBinaryOp_def intro!: fine_error)
  next
    case False
    then obtain vs' where r: "ReduceOperators fpu lut ctx op = Inr (c, SUCCESS)" "calc_rep (length s + 1) c vs' R"
      "length vs' = Suc (length (filter is_binop R))" "length vs' \<le> length vs" using c(3) by blast
    have R: "length R \<le> cursor ctx" using i(5) c(1) by simp
    then have "length R < length s + 1" using i(6) by simp
    from push_op [OF r(2) this] obtain c1 where c1: "OpStackPush c op = Inr c1" "calc_rep (length s + 1) c1 vs' (op # R)" "same_ctx c c1" by blast
    let ?c = "c1\<lparr>cursor := cursor c1 + 1\<rparr>"
    note same = same_ctxD [OF c(2)] same_ctxD [OF c1(3)]
    have "calc_inv s ?c WAITING_FOR_NUM"
      by (rule invI [of _ _ vs' "op # R"]) (use c1 c(1) r i R assms(2,3) same in auto)
    then show ?thesis using r(1) c1(1) same by (auto simp: ActPushBinaryOp_def intro!: fine_on)
  qed
qed

lemma fine_close:
  assumes "calc_inv s ctx WAITING_FOR_OP" "cursor ctx < length s" "is_open opening"
  shows "step_fine s ctx (bindE (bindE (ReduceUntilOpen fpu lut ctx opening) (\<lambda>(ctx, status).
     if status \<noteq> SUCCESS then Inr (ctx, status) else Inr (ctx\<lparr>cursor := cursor ctx + 1\<rparr>, SUCCESS)))
     (\<lambda>(ctx, status). Inr (ctx, WAITING_FOR_OP, status)))"
proof -
  obtain vs os where i: "calc_rep (length s + 1) ctx vs os" "\<forall>x \<in> set os. is_binop x \<or> is_open x" "length vs = Suc (length (filter is_binop os))"
    "length vs \<le> cursor ctx" "length os \<le> cursor ctx" "cursor ctx \<le> length s" "\<not> finish ctx" using assms(1) by (rule invD) auto
  obtain c P R where c: "os = P @ R" "same_ctx ctx c"
    "ReduceUntilOpen fpu lut ctx opening = Inr (c, MATH_ERROR) \<or> ReduceUntilOpen fpu lut ctx opening = Inr (c, SYNTAX_ERROR) \<or>
     (\<exists>vs'. ReduceUntilOpen fpu lut ctx opening = Inr (c, SUCCESS) \<and> R \<noteq> [] \<and> calc_rep (length s + 1) c vs' (tl R) \<and>
        length vs' = Suc (length (filter is_binop (tl R))) \<and> length vs' \<le> length vs)"
    using until_total [OF i(1,3,2) assms(3), of fpu] by blast
  note same = same_ctxD [OF c(2)]
  from c(3) show ?thesis
  proof (elim disjE exE conjE)
    fix vs'
    assume r: "ReduceUntilOpen fpu lut ctx opening = Inr (c, SUCCESS)" "R \<noteq> []" "calc_rep (length s + 1) c vs' (tl R)"
        "length vs' = Suc (length (filter is_binop (tl R)))" "length vs' \<le> length vs"
    have tl: "set (tl R) \<subseteq> set os" "length (tl R) \<le> length os" using c(1) r(2) by (cases R; auto)+
    have "calc_inv s (c\<lparr>cursor := cursor c + 1\<rparr>) WAITING_FOR_OP"
      by (rule invI [of _ _ vs' "tl R"]) (use r i tl assms(2) same in auto)
    then show ?thesis using r(1) same by (auto intro!: fine_on)
  qed (use same in \<open>auto intro!: fine_error\<close>)
qed

lemma fine_end:
  assumes "calc_inv s ctx WAITING_FOR_OP"
  shows "step_fine s ctx (bindE (ActEnd fpu lut ctx) (\<lambda>(ctx, status). Inr (ctx, WAITING_FOR_OP, status)))"
proof -
  obtain vs os where i: "calc_rep (length s + 1) ctx vs os" "\<forall>x \<in> set os. is_binop x \<or> is_open x" "length vs = Suc (length (filter is_binop os))"
    using assms by (rule invD) auto
  obtain c P R where c: "os = P @ R" "same_ctx ctx c"
    "ReduceOperators fpu lut ctx 0 = Inr (c, MATH_ERROR) \<and> room (length s + 1) c \<or>
     (\<exists>vs'. ReduceOperators fpu lut ctx 0 = Inr (c, if R \<noteq> [] then SYNTAX_ERROR else SUCCESS) \<and> calc_rep (length s + 1) c vs' R \<and>
        length vs' = Suc (length (filter is_binop R)))"
    using reduce_total [OF i(1,3,2), of fpu 0] by auto
  note same = same_ctxD [OF c(2)]
  from c(3) show ?thesis
  proof (elim disjE exE conjE)
    fix vs'
    assume r: "ReduceOperators fpu lut ctx 0 = Inr (c, if R \<noteq> [] then SYNTAX_ERROR else SUCCESS)" "calc_rep (length s + 1) c vs' R"
      "length vs' = Suc (length (filter is_binop R))"
    show ?thesis
    proof (cases "R = []")
      case True
      then obtain v where v: "vs' = [v]" using r(3) by (cases vs') auto
      then have rep: "calc_rep (length s + 1) c [v] []" using r(2) True by simp
      obtain a where a: "StackPeek (values_stack c) = Inr a" "stack_load (values_stack c) a 8 = Inr (bytes_of 8 v)" using peek_value [OF rep] by blast
      have "ActEnd fpu lut ctx = Inr (c\<lparr>calc_out := v, finish := True\<rparr>, SUCCESS)"
        using r(1) True a rep_tops(3,4) [OF rep] by (simp add: ActEnd_def ptr_of_bytes_of del: bytes_of.simps)
      then show ?thesis by (simp add: step_fine_def)
    next
      case False
      then have "ActEnd fpu lut ctx = Inr (c, SYNTAX_ERROR)" using r(1) by (simp add: ActEnd_def)
      then show ?thesis using same by (auto intro!: fine_error)
    qed
  qed (use same in \<open>auto simp: ActEnd_def intro!: fine_error\<close>)
qed


lemma FsmStep_fine:
  assumes "calc_inv s ctx st"
  shows "step_fine s ctx (FsmStep fpu lut (s @ [0]) ctx st)"
proof -
  have pos: "cursor ctx \<le> length s" using assms by (auto elim: invD)
  define c where "c = (s @ [0]) ! cursor ctx"
  have tx: "s @ [0] = take (cursor ctx) (s @ [0]) @ c # drop (Suc (cursor ctx)) (s @ [0])"
    unfolding c_def using pos by (intro id_take_nth_drop) simp
  have step: "FsmStep fpu lut (s @ [0]) ctx st =
    (let (next_state, action) = g_trans_LUT st (event c)
     in bindE (call_action fpu lut (s @ [0]) action ctx) (\<lambda>(ctx, status). Inr (ctx, next_state, status)))"
    using pos by (intro FsmStep_at [OF tx]) simp
  have lt: "event c = EV_END \<or> cursor ctx < length s"
  proof (cases "cursor ctx = length s")
    case True
    then have "c = 0" by (simp add: c_def)
    then show ?thesis by (simp add: event_cases is_digit_def)
  qed (use pos in simp)
  have err: "step_fine s ctx (Inr (ctx, st', SYNTAX_ERROR))" for st' by (rule fine_error) simp_all
  have chars: "is_binop (ch CHR ''+'')" "is_binop (ch CHR ''-'')" "is_binop (ch CHR ''*'')" "is_binop (ch CHR ''/'')" "is_binop (ch CHR ''^'')"
    "is_open (ch CHR ''('')" "is_open (ch CHR ''['')" "is_open (ch CHR ''{'')"
    by (simp_all add: is_binop_def is_open_def)
  show ?thesis
  proof (cases st)
    case WAITING_FOR_NUM
    then have inv: "calc_inv s ctx WAITING_FOR_NUM" using assms by simp
    have open': "cursor ctx < length s \<Longrightarrow> is_open b \<Longrightarrow>
        step_fine s ctx (bindE (bindE (OpStackPush ctx b) (\<lambda>ctx. Inr (ctx\<lparr>cursor := cursor ctx + 1\<rparr>, SUCCESS))) (\<lambda>(ctx, status). Inr (ctx, WAITING_FOR_NUM, status)))" for b
      using fine_open [OF inv] by blast
    show ?thesis unfolding WAITING_FOR_NUM step [unfolded WAITING_FOR_NUM]
      using lt err open' [OF _ chars(6)] open' [OF _ chars(7)] open' [OF _ chars(8)] fine_number [OF inv, of fpu] fine_skip [OF inv]
        fine_skip [OF inv, of "unary_sign ctx"]
      by (cases "event c") (simp_all add: ActSpace_def ActUnaryPlus_def ActUnaryMinus_def ActError_def ActLParen_def ActLBracket_def ActLBrace_def)
  next
    case WAITING_FOR_OP
    then have inv: "calc_inv s ctx WAITING_FOR_OP" using assms by simp
    note bin = fine_binop [OF inv] and close' = fine_close [OF inv]
    show ?thesis unfolding WAITING_FOR_OP step [unfolded WAITING_FOR_OP]
      using lt err bin [OF _ chars(1), of fpu] bin [OF _ chars(2), of fpu] bin [OF _ chars(3), of fpu] bin [OF _ chars(4), of fpu]
        bin [OF _ chars(5), of fpu] close' [OF _ chars(6), of fpu] close' [OF _ chars(7), of fpu] close' [OF _ chars(8), of fpu]
        fine_end [OF inv, of fpu] fine_skip [OF inv, of "unary_sign ctx"]
      by (cases "event c") (simp_all add: ActSpace_def ActError_def ActPlus_def ActMinus_def ActMul_def ActDiv_def ActPow_def
          ActRParen_def ActRBracket_def ActRBrace_def)
  qed
qed

lemma loop_stop [simp]:
  "finish ctx \<Longrightarrow> Calculate_loop (Suc fuel) fpu g tx ctx st status = Inr (ctx, status)"
  "status \<noteq> SUCCESS \<Longrightarrow> Calculate_loop (Suc fuel) fpu g tx ctx st status = Inr (ctx, status)"
  by simp_all

lemma Calculate_loop_returns:
  "calc_inv s ctx st \<Longrightarrow> length s - cursor ctx + 2 \<le> fuel \<Longrightarrow>
   \<exists>ctx' status. Calculate_loop fuel fpu lut (s @ [0]) ctx st SUCCESS = Inr (ctx', status) \<and> status \<noteq> ALLOC_ERROR \<and>
     (status \<noteq> SUCCESS \<longrightarrow> calc_out ctx' = calc_out ctx)"
proof (induction fuel arbitrary: ctx st)
  case (Suc fuel)
  obtain f where f: "fuel = Suc f" using Suc.prems(2) by (cases fuel) auto
  have fin: "\<not> finish ctx" using Suc.prems(1) by (auto elim: invD)
  obtain c st' status where r: "FsmStep fpu lut (s @ [0]) ctx st = Inr (c, st', status)"
    "(status = MATH_ERROR \<or> status = SYNTAX_ERROR) \<and> calc_out c = calc_out ctx \<or> status = SUCCESS \<and> finish c \<or>
     status = SUCCESS \<and> calc_inv s c st' \<and> calc_out c = calc_out ctx \<and> cursor ctx < cursor c"
    using FsmStep_fine [OF Suc.prems(1), of fpu] unfolding step_fine_def by blast
  have step: "Calculate_loop (Suc fuel) fpu lut (s @ [0]) ctx st SUCCESS = Calculate_loop fuel fpu lut (s @ [0]) c st' status"
    using r(1) fin by simp
  from r(2) show ?case
  proof (elim disjE conjE)
    assume o: "status = SUCCESS" "calc_inv s c st'" "calc_out c = calc_out ctx" "cursor ctx < cursor c"
    then have "cursor c \<le> length s" by (auto elim: invD)
    then have "length s - cursor c + 2 \<le> fuel" using Suc.prems(2) o(4) by simp
    from Suc.IH [OF o(2) this] show ?thesis unfolding step using o(1,3) by simp
  qed (simp_all add: step [unfolded f] f del: Calculate_loop.simps)
qed simp

lemma Calculate_loop_mono:
  "Calculate_loop fuel fpu g tx ctx st status = Inr r \<Longrightarrow> Calculate_loop (fuel + m) fpu g tx ctx st status = Inr r"
proof (induction fuel arbitrary: ctx st status)
  case (Suc fuel)
  then show ?case by (cases "\<not> finish ctx \<and> status = SUCCESS") (auto simp: bindE_Inr_iff)
qed simp

section \<open>The calculator\<close>

definition tables_ok :: "tables \<Rightarrow> bool" where
  "tables_ok g \<longleftrightarrow> g = static_tables \<or> g = lut"

lemma tables_init: "tables_ok g \<Longrightarrow> InitTablesOnce g = lut"
  by (auto simp: tables_ok_def lut_again) (simp add: lut_def)

lemma span_text: "0 \<notin> set s \<Longrightarrow> span (\<lambda>c. c \<noteq> 0) (s @ [0]) = length s"
  by (induction s) (auto simp: span_def)

lemma strlen_ok: "0 \<notin> set s \<Longrightarrow> strlen (s @ [0]) = Inr (length s)"
  by (simp add: strlen_def span_text)

lemma InitStacks_ok:
  assumes "(n + 1) * 8 < 2 ^ 64"
  shows "case InitStacks ok1 a1 ok2 a2 n of None \<Rightarrow> \<not> (ok1 \<and> a1 \<noteq> None \<and> ok2 \<and> a2 \<noteq> None)
    | Some (v, os) \<Rightarrow> (ok1 \<and> a1 \<noteq> None \<and> ok2 \<and> a2 \<noteq> None) \<and>
        stack_wf v \<and> stack_abs v = (8, n + 1, []) \<and> stack_wf os \<and> stack_abs os = (1, n + 1, [])"
proof -
  have n: "szadd n 1 = n + 1" using assms by (intro szadd_small) simp
  have "ok1 \<and> a1 \<noteq> None \<Longrightarrow> \<exists>v. StackCreate ok1 a1 (n + 1) 8 = Some v \<and> stack_wf v \<and> stack_abs v = (8, n + 1, [])"
    using StackCreate_ok [of "n + 1" 8 "the a1"] assms by auto
  moreover have "ok2 \<and> a2 \<noteq> None \<Longrightarrow> \<exists>v. StackCreate ok2 a2 (n + 1) 1 = Some v \<and> stack_wf v \<and> stack_abs v = (1, n + 1, [])"
    using StackCreate_ok [of "n + 1" 1 "the a2"] assms by auto
  moreover have "\<not> (ok1 \<and> a1 \<noteq> None) \<Longrightarrow> StackCreate ok1 a1 (n + 1) 8 = None" by (auto simp: StackCreate_def malloc_block_def)
  moreover have "\<not> (ok2 \<and> a2 \<noteq> None) \<Longrightarrow> StackCreate ok2 a2 (n + 1) 1 = None" by (auto simp: StackCreate_def malloc_block_def)
  ultimately show ?thesis unfolding InitStacks_def n
    by (cases "ok1 \<and> a1 \<noteq> None"; cases "ok2 \<and> a2 \<noteq> None") (auto split: option.splits)
qed

definition start_data :: "stack_t \<Rightarrow> stack_t \<Rightarrow> dbl \<Rightarrow> calc_data" where
  "start_data v os res = \<lparr>cursor = 0, values_stack = v, ops_stack = os, calc_out = res, unary_sign = 1, finish = False\<rparr>"

lemma start_at:
  assumes "stack_wf v" "stack_abs v = (8, N, [])" "stack_wf os" "stack_abs os = (1, N, [])"
  shows "at N 0 1 [] [] (start_data v os res)"
  using assms by (simp add: at_def calc_rep_def start_data_def)

lemma start_inv: "at (length s + 1) 0 1 [] [] ctx \<Longrightarrow> calc_inv s ctx WAITING_FOR_NUM"
  using at_inv [of s 0 1 "[]" "[]" ctx WAITING_FOR_NUM] by simp

lemma Calculate_start:
  assumes "0 \<notin> set s" "tables_ok g"
  shows "Calculate fuel fpu ok1 a1 ok2 a2 g (s @ [0]) res =
    (case InitStacks ok1 a1 ok2 a2 (length s) of None \<Rightarrow> Inr (lut, res, ALLOC_ERROR)
     | Some (v, os) \<Rightarrow> bindE (Calculate_loop fuel fpu lut (s @ [0]) (start_data v os res) WAITING_FOR_NUM SUCCESS)
         (\<lambda>(ctx, status). Inr (lut, calc_out ctx, status)))"
  using assms by (simp add: Calculate_def tables_init strlen_ok start_data_def Let_def split: option.split prod.split)

text \<open>The calculator returns on every text, without a fault, and writes the result only if it succeeds.\<close>

lemma Calculate_returns:
  assumes "0 \<notin> set s" "tables_ok g" "(length s + 1) * 8 < 2 ^ 64" "length s + 2 \<le> fuel"
  shows "\<exists>res' status. Calculate fuel fpu ok1 a1 ok2 a2 g (s @ [0]) res = Inr (lut, res', status) \<and>
    (status = ALLOC_ERROR) = (\<not> (ok1 \<and> a1 \<noteq> None \<and> ok2 \<and> a2 \<noteq> None)) \<and> (status = SUCCESS \<or> res' = res)"
proof (cases "InitStacks ok1 a1 ok2 a2 (length s)")
  case None
  then show ?thesis using InitStacks_ok [OF assms(3), of ok1 a1 ok2 a2] by (simp add: Calculate_start [OF assms(1,2)])
next
  case (Some p)
  obtain v os where p: "p = (v, os)" by (cases p)
  then have st: "ok1 \<and> a1 \<noteq> None \<and> ok2 \<and> a2 \<noteq> None" "stack_wf v" "stack_abs v = (8, length s + 1, [])" "stack_wf os" "stack_abs os = (1, length s + 1, [])"
    using InitStacks_ok [OF assms(3), of ok1 a1 ok2 a2] Some by auto
  have fuel: "length s - cursor (start_data v os res) + 2 \<le> fuel" using assms(4) by (simp add: start_data_def)
  from Calculate_loop_returns [OF start_inv [OF start_at [OF st(2-5), of res]] fuel, of fpu] obtain c status where
    "Calculate_loop fuel fpu lut (s @ [0]) (start_data v os res) WAITING_FOR_NUM SUCCESS = Inr (c, status)" "status \<noteq> ALLOC_ERROR"
    "status \<noteq> SUCCESS \<longrightarrow> calc_out c = calc_out (start_data v os res)" by blast
  then show ?thesis using Some p st(1) by (auto simp: Calculate_start [OF assms(1,2)] start_data_def)
qed

text \<open>The loop reaches the end of a well-formed text.\<close>

lemma expr_loop:
  assumes "expr_text 1 t e" "spaces w" "at (length (t @ w) + 1) 0 1 [] [] c0"
  shows "\<exists>K c. Calculate_loop K fpu lut (t @ w @ [0]) c0 WAITING_FOR_NUM SUCCESS = Inr (c, case eval fpu e of None \<Rightarrow> MATH_ERROR | Some x \<Rightarrow> SUCCESS) \<and>
      calc_out c = (case eval fpu e of None \<Rightarrow> calc_out c0 | Some x \<Rightarrow> x)"
proof -
  let ?s = "t @ w" and ?tx = "t @ w @ [0]"
  have "stops (w @ [0])" by (rule stops_spaces [OF assms(2)]) (simp add: stop_def)
  then have "reads fpu ?tx c0 (length ?s + 1) 1 (length ([] @ t)) [] [] (eval fpu e)"
    using assms(3) expr_run [OF assms(1), of 1 False ?tx "[]" "w @ [0]" "length ?s + 1" "[]" "[]" c0 fpu] by (auto simp: fits_def signed_def)
  then show ?thesis
    unfolding reads_def
  proof (elim disjE exE conjE)
    assume n: "eval fpu e = None" "stops_with fpu ?tx c0 WAITING_FOR_NUM MATH_ERROR"
    then obtain k c where "calc_out c = calc_out c0" "\<And>fuel. Calculate_loop (k + Suc fuel) fpu lut ?tx c0 WAITING_FOR_NUM SUCCESS = Inr (c, MATH_ERROR)"
      unfolding stops_with_def by blast
    then have "calc_out c = calc_out c0 \<and> Calculate_loop (k + Suc 0) fpu lut ?tx c0 WAITING_FOR_NUM SUCCESS = Inr (c, MATH_ERROR)" by blast
    then show ?thesis unfolding n(1) option.case by blast
  next
    fix P W c1
    assume p: "length W = Suc (length P)" "\<forall>x \<in> set P. is_binop x \<and> 1 \<le> level x" "goes fpu ?tx c0 WAITING_FOR_NUM c1 WAITING_FOR_OP"
      "at (length ?s + 1) (length ([] @ t)) 1 (W @ []) (P @ []) c1" "flush fpu P W = map_option (\<lambda>x. [x]) (eval fpu e)"
    obtain c2 where c2: "goes fpu ?tx c1 WAITING_FOR_OP c2 WAITING_FOR_OP" "at (length ?s + 1) (length ?s) 1 W P c2"
      using read_spaces [of ?tx t w "[0]" "length ?s + 1" 1 W P c1 fpu WAITING_FOR_OP] assms(2) p(4) by auto
    obtain k where k: "calc_out c2 = calc_out c0" "\<And>fuel. Calculate_loop (k + fuel) fpu lut ?tx c0 WAITING_FOR_NUM SUCCESS = Calculate_loop fuel fpu lut ?tx c2 WAITING_FOR_OP SUCCESS"
      using goes_trans [OF p(3) c2(1)] by (auto simp: goes_def)
    obtain c3 where c3: "\<And>fuel. Calculate_loop (Suc (Suc fuel)) fpu lut ?tx c2 WAITING_FOR_OP SUCCESS =
      Inr (c3, case eval fpu e of None \<Rightarrow> MATH_ERROR | Some x \<Rightarrow> SUCCESS) \<and> calc_out c3 = (case eval fpu e of None \<Rightarrow> calc_out c2 | Some x \<Rightarrow> x)"
      using read_end [of ?tx ?s "length ?s + 1" 1 W P c2 fpu "eval fpu e"] c2(2) p(1,2,5) by auto
    show ?thesis using k(2) [of "Suc (Suc 0)"] c3 [of 0, unfolded k(1)]
      by (intro exI [of _ "k + Suc (Suc 0)"] exI [of _ c3]) (simp del: Calculate_loop.simps)
  qed
qed

text \<open>A well-formed expression is answered with its value, or with \<open>MATH_ERROR\<close> when it has none.\<close>

lemma Calculate_value:
  assumes "expr_text 1 t e" "spaces w" "0 \<notin> set t" "tables_ok g" "(length (t @ w) + 1) * 8 < 2 ^ 64" "length (t @ w) + 2 \<le> fuel"
  shows "Calculate fuel fpu True (Some j1) True (Some j2) g (t @ w @ [0]) res =
    Inr (lut, case eval fpu e of None \<Rightarrow> (res, MATH_ERROR) | Some x \<Rightarrow> (x, SUCCESS))"
proof -
  let ?s = "t @ w" and ?tx = "t @ w @ [0]"
  have s0: "0 \<notin> set ?s" using assms(2,3) by (auto simp: is_space_def)
  obtain v os where st: "InitStacks True (Some j1) True (Some j2) (length ?s) = Some (v, os)"
    "stack_wf v" "stack_abs v = (8, length ?s + 1, [])" "stack_wf os" "stack_abs os = (1, length ?s + 1, [])"
    using InitStacks_ok [OF assms(5), of True "Some j1" True "Some j2"] by (auto split: option.splits)
  let ?c0 = "start_data v os res"
  have at0: "at (length ?s + 1) 0 1 [] [] ?c0" by (rule start_at [OF st(2-5)])
  have out0: "calc_out ?c0 = res" by (simp add: start_data_def)
  obtain K c where K: "Calculate_loop K fpu lut ?tx ?c0 WAITING_FOR_NUM SUCCESS = Inr (c, case eval fpu e of None \<Rightarrow> MATH_ERROR | Some x \<Rightarrow> SUCCESS)"
    "calc_out c = (case eval fpu e of None \<Rightarrow> res | Some x \<Rightarrow> x)"
    using expr_loop [OF assms(1,2) at0, of fpu, unfolded out0] by blast
  have fuel: "length ?s - cursor ?c0 + 2 \<le> fuel" using assms(6) by (simp add: start_data_def)
  from Calculate_loop_returns [OF start_inv [OF at0] fuel, of fpu] obtain c' status where
    r: "Calculate_loop fuel fpu lut ?tx ?c0 WAITING_FOR_NUM SUCCESS = Inr (c', status)" by auto
  have "Inr (c', status) = (Inr (c, case eval fpu e of None \<Rightarrow> MATH_ERROR | Some x \<Rightarrow> SUCCESS) :: (calc_data \<times> calculator_status) result)"
    using Calculate_loop_mono [OF r, of K] Calculate_loop_mono [OF K(1), of fuel] by (simp add: add.commute)
  then have "Calculate_loop fuel fpu lut ?tx ?c0 WAITING_FOR_NUM SUCCESS = Inr (c, case eval fpu e of None \<Rightarrow> MATH_ERROR | Some x \<Rightarrow> SUCCESS)"
    using r by simp
  then show ?thesis using Calculate_start [OF s0 assms(4), of fuel fpu True "Some j1" True "Some j2" res] st(1) K(2)
    by (auto split: option.splits)
qed

end
