(* ===== verification/CBuff.thy ===== *)
theory CBuff
  imports Prelude
begin

text \<open>
  The circular byte buffer of \<open>ds/src/cbuff.c\<close>. Its contents are the \<open>size\<close> bytes from
  \<open>front\<close> on, wrapping at \<open>capacity\<close>; \<open>CBuffWrite\<close> and \<open>CBuffRead\<close> move them in at most two
  chunks. \<open>cbuff_refines\<close> shows that it is a FIFO of bytes that accepts and delivers as
  many bytes as fit.
\<close>

section \<open>Definitions\<close>

abbreviation (input) DEFAULT_SIZE :: nat where
  "DEFAULT_SIZE \<equiv> 8"

text \<open>
  \<open>sizeof(cbuff_t)\<close> is 32 (three words, one byte, padding) and \<open>buffer\<close> starts at byte 24,
  so a struct of \<open>n\<close> bytes has \<open>n - 24\<close> bytes behind \<open>buffer\<close>.
\<close>

abbreviation (input) sizeof_cbuff :: nat where
  "sizeof_cbuff \<equiv> 32"

abbreviation (input) offsetof_buffer :: nat where
  "offsetof_buffer \<equiv> 24"

record cbuff_t =
  c_front :: nat
  c_size :: nat
  c_capacity :: nat
  c_buffer :: "byte list"

definition CBuffCreate :: "alloc \<Rightarrow> nat \<Rightarrow> cbuff_t option" where
  "CBuffCreate a capacity0 =
     (let capacity = (if DEFAULT_SIZE < capacity0 then capacity0 else DEFAULT_SIZE)
      in case malloc_block a (szadd sizeof_cbuff (capacity - DEFAULT_SIZE)) of
           None \<Rightarrow> None
         | Some block \<Rightarrow> Some \<lparr>c_front = 0, c_size = 0, c_capacity = capacity,
                             c_buffer = drop offsetof_buffer block\<rparr>)"

definition CBuffDestroy :: "cbuff_t \<Rightarrow> cbuff_t option" where
  "CBuffDestroy cbuff = None"

definition CBuffSize :: "cbuff_t \<Rightarrow> nat" where
  "CBuffSize cbuff = c_size cbuff"

definition CBuffFreeSpace :: "cbuff_t \<Rightarrow> nat" where
  "CBuffFreeSpace cbuff = szsub (c_capacity cbuff) (c_size cbuff)"

definition CBuffIsEmpty :: "cbuff_t \<Rightarrow> bool" where
  "CBuffIsEmpty cbuff \<longleftrightarrow> CBuffSize cbuff = 0"

definition CBuffWrite :: "cbuff_t \<Rightarrow> byte list \<Rightarrow> nat \<Rightarrow> (cbuff_t \<times> int) result" where
  "CBuffWrite cbuff src bytes =
     (let bytes_to_write = min bytes (CBuffFreeSpace cbuff)
      in if bytes_to_write = 0 then Inr (cbuff, 0)
         else let write_index = szadd (c_front cbuff) (c_size cbuff) mod c_capacity cbuff;
                  first_chunk = min bytes_to_write (c_capacity cbuff - write_index);
                  second_chunk = bytes_to_write - first_chunk
              in bindE (read_bytes src 0 first_chunk) (\<lambda>bs1.
                 bindE (write_bytes (c_buffer cbuff) write_index bs1) (\<lambda>buf1.
                 bindE (if second_chunk > 0
                        then bindE (read_bytes src first_chunk second_chunk) (write_bytes buf1 0)
                        else Inr buf1) (\<lambda>buf2.
                 Inr (cbuff\<lparr>c_buffer := buf2, c_size := c_size cbuff + bytes_to_write\<rparr>,
                      int bytes_to_write)))))"

text \<open>\<open>dst\<close> is the caller's buffer; the result carries its new contents.\<close>

definition CBuffRead :: "cbuff_t \<Rightarrow> byte list \<Rightarrow> nat \<Rightarrow> (cbuff_t \<times> byte list \<times> int) result" where
  "CBuffRead cbuff dst bytes0 =
     (let available = c_size cbuff
      in if available = 0 then Inr (cbuff, dst, 0)
         else let bytes = (if bytes0 > available then available else bytes0)
              in if bytes = 0 then Inr (cbuff, dst, 0)
                 else let chunk = min bytes (c_capacity cbuff - c_front cbuff)
                      in bindE (read_bytes (c_buffer cbuff) (c_front cbuff) chunk) (\<lambda>bs1.
                         bindE (write_bytes dst 0 bs1) (\<lambda>dst1.
                         bindE (if bytes \<noteq> chunk
                                then bindE (read_bytes (c_buffer cbuff) 0 (bytes - chunk)) (write_bytes dst1 chunk)
                                else Inr dst1) (\<lambda>dst2.
                         Inr (cbuff\<lparr>c_front := (szadd (c_front cbuff) bytes) mod c_capacity cbuff,
                                    c_size := c_size cbuff - bytes\<rparr>, dst2, int bytes)))))"

section \<open>Specification\<close>

definition cbuff_wf :: "cbuff_t \<Rightarrow> bool" where
  "cbuff_wf c \<longleftrightarrow> 0 < c_capacity c \<and> c_size c \<le> c_capacity c \<and> c_front c < c_capacity c \<and>
     length (c_buffer c) = c_capacity c \<and> 2 * c_capacity c < 2 ^ 64"

definition cbuff_bytes :: "cbuff_t \<Rightarrow> byte list" where
  "cbuff_bytes c = map (\<lambda>i. c_buffer c ! ((c_front c + i) mod c_capacity c)) [0..<c_size c]"

type_synonym cbuff_abs = "nat \<times> byte list"

definition cbuff_abs :: "cbuff_t \<Rightarrow> cbuff_abs" where
  "cbuff_abs c = (c_capacity c, cbuff_bytes c)"

datatype cbuff_call = C_Write "byte list" nat | C_Read "byte list" nat | C_Size | C_FreeSpace | C_IsEmpty

datatype cbuff_out = C_Count int | C_Data "byte list" int | C_Nat nat | C_Bool bool

fun cbuff_step :: "cbuff_call \<Rightarrow> cbuff_t \<Rightarrow> (cbuff_t \<times> cbuff_out) result" where
  "cbuff_step (C_Write src n) c = bindE (CBuffWrite c src n) (\<lambda>(c', r). Inr (c', C_Count r))"
| "cbuff_step (C_Read dst n) c = bindE (CBuffRead c dst n) (\<lambda>(c', dst', r). Inr (c', C_Data dst' r))"
| "cbuff_step C_Size c = Inr (c, C_Nat (CBuffSize c))"
| "cbuff_step C_FreeSpace c = Inr (c, C_Nat (CBuffFreeSpace c))"
| "cbuff_step C_IsEmpty c = Inr (c, C_Bool (CBuffIsEmpty c))"

fun cbuff_spec :: "cbuff_call \<Rightarrow> cbuff_abs \<Rightarrow> cbuff_abs \<times> cbuff_out" where
  "cbuff_spec (C_Write src n) (cap, xs) =
     (let k = min n (cap - length xs) in ((cap, xs @ take k src), C_Count (int k)))"
| "cbuff_spec (C_Read dst n) (cap, xs) =
     (let k = min n (length xs) in ((cap, drop k xs), C_Data (take k xs @ drop k dst) (int k)))"
| "cbuff_spec C_Size (cap, xs) = ((cap, xs), C_Nat (length xs))"
| "cbuff_spec C_FreeSpace (cap, xs) = ((cap, xs), C_Nat (cap - length xs))"
| "cbuff_spec C_IsEmpty (cap, xs) = ((cap, xs), C_Bool (xs = []))"

text \<open>The caller's buffers hold at least the bytes that are moved.\<close>

fun cbuff_pre :: "cbuff_call \<Rightarrow> cbuff_abs \<Rightarrow> bool" where
  "cbuff_pre (C_Write src n) (cap, xs) = (min n (cap - length xs) \<le> length src)"
| "cbuff_pre (C_Read dst n) (cap, xs) = (min n (length xs) \<le> length dst)"
| "cbuff_pre c a = True"

section \<open>Correctness\<close>

lemma wrap_index:
  assumes "f < cap" "i \<le> cap"
  shows "(f + i) mod cap = (if f + i < cap then f + i else f + i - (cap :: nat))"
  using assms by (simp add: le_mod_geq)

lemma length_cbuff_bytes [simp]: "length (cbuff_bytes c) = c_size c"
  by (simp add: cbuff_bytes_def)

lemma nth_cbuff_bytes:
  "i < c_size c \<Longrightarrow> cbuff_bytes c ! i = c_buffer c ! ((c_front c + i) mod c_capacity c)"
  by (simp add: cbuff_bytes_def)

text \<open>What the two \<open>memcpy\<close> calls of a write leave at every position of the ring.\<close>

lemma CBuffWrite_ring:
  assumes wf: "cbuff_wf c" and n: "n = min bytes (c_capacity c - c_size c)" "0 < n" "n \<le> length src"
  shows "\<exists>buf. CBuffWrite c src bytes = Inr (c\<lparr>c_buffer := buf, c_size := c_size c + n\<rparr>, int n) \<and>
    length buf = c_capacity c \<and>
    (\<forall>k < n. buf ! ((c_front c + c_size c + k) mod c_capacity c) = src ! k) \<and>
    (\<forall>i < c_size c. buf ! ((c_front c + i) mod c_capacity c) = c_buffer c ! ((c_front c + i) mod c_capacity c))"
proof -
  let ?cap = "c_capacity c" and ?f = "c_front c" and ?s = "c_size c" and ?b = "c_buffer c"
  define w where "w = (?f + ?s) mod ?cap"
  define m where "m = min n (?cap - w)"
  have cap: "?f < ?cap" "?s < ?cap" "length ?b = ?cap" "?f + ?s < 2 ^ 64" "n \<le> ?cap - ?s"
    using wf n by (auto simp: cbuff_wf_def)
  have w: "w = (if ?f + ?s < ?cap then ?f + ?s else ?f + ?s - ?cap)" "w < ?cap"
    using cap wrap_index [of ?f ?cap ?s] by (auto simp: w_def)
  define b1 where "b1 = take w ?b @ take m src @ drop (w + m) ?b"
  define b2 where "b2 = (if n - m > 0 then take (n - m) (drop m src) @ drop (n - m) b1 else b1)"
  have m: "m \<le> n" "w + m \<le> ?cap" "0 < m" using n(2) w(2) by (auto simp: m_def min_def)
  have m_src: "m \<le> length src" using m(1) n(3) by simp
  have l1: "length b1 = ?cap" using m(1,2) cap(3) n(3) by (simp add: b1_def)
  have l2: "length b2 = ?cap" using m(1,2) cap(5) n(3) l1 by (auto simp: b2_def)
  have free: "min bytes (CBuffFreeSpace c) = n" using cap(2) n(1) by (simp add: CBuffFreeSpace_def)
  have widx: "szadd ?f ?s mod ?cap = w" using cap(4) by (simp add: w_def)
  have call: "CBuffWrite c src bytes = Inr (c\<lparr>c_buffer := b2, c_size := ?s + n\<rparr>, int n)"
    using cap(3,5) m n(2,3) l1 unfolding CBuffWrite_def free widx Let_def m_def [symmetric]
    by (simp add: read_bytes_ok write_bytes_ok min_absorb2 b2_def b1_def [symmetric])
  have n1: "b1 ! p = (if w \<le> p \<and> p < w + m then src ! (p - w) else ?b ! p)" if "p < ?cap" for p
    using that cap(3) m(2) m_src w(2) by (auto simp: b1_def nth_append min_absorb2)
  have n2: "b2 ! p = (if p < n - m then src ! (m + p) else b1 ! p)" if "p < ?cap" for p
    using that m(1) n(3) l1 by (auto simp: b2_def nth_append min_absorb2 diff_le_mono)
  have nowrap: "n - m = 0 \<or> w + m = ?cap" using w(2) by (auto simp: m_def min_def)
  have "b2 ! ((?f + ?s + k) mod ?cap) = src ! k" if "k < n" for k
  proof -
    have q: "(?f + ?s + k) mod ?cap = (if w + k < ?cap then w + k else w + k - ?cap)"
      using that cap(5) w(2) wrap_index [of w ?cap k] by (simp add: w_def mod_add_left_eq)
    show ?thesis
    proof (cases "w + k < ?cap")
      case True
      moreover from this have "\<not> w + k < n - m" "k < m" using that nowrap m n cap(5) by auto
      ultimately show ?thesis using n1 [of "w + k"] n2 [of "w + k"] unfolding q by simp
    next
      case False
      with that nowrap m have k: "w + k - ?cap = k - m" "m \<le> k" "w + m = ?cap" by auto
      with that cap(5) have "k - m < n - m" "k - m < ?cap" by linarith+
      with k False show ?thesis using n2 [of "k - m"] unfolding q by simp
    qed
  qed
  moreover have "b2 ! ((?f + i) mod ?cap) = ?b ! ((?f + i) mod ?cap)" if "i < ?s" for i
  proof -
    have eq: "(?f + i) mod ?cap = (if ?f + i < ?cap then ?f + i else ?f + i - ?cap)"
      using that cap wrap_index [of ?f ?cap i] by simp
    then show ?thesis using that n1 [of "(?f + i) mod ?cap"] n2 [of "(?f + i) mod ?cap"]
        cap w m n(2,3) nowrap by (auto split: if_splits)
  qed
  ultimately show ?thesis using call l2 by blast
qed

lemma CBuffWrite_ok:
  assumes wf: "cbuff_wf c" and "min bytes (c_capacity c - c_size c) \<le> length src"
  shows "\<exists>c'. CBuffWrite c src bytes = Inr (c', int (min bytes (c_capacity c - c_size c))) \<and> cbuff_wf c' \<and>
    cbuff_abs c' = (c_capacity c, cbuff_bytes c @ take (min bytes (c_capacity c - c_size c)) src)"
proof (cases "min bytes (c_capacity c - c_size c) = 0")
  case True
  with wf show ?thesis
    unfolding CBuffWrite_def CBuffFreeSpace_def Let_def by (simp add: cbuff_wf_def cbuff_abs_def)
next
  case False
  define n where "n = min bytes (c_capacity c - c_size c)"
  from False have "0 < n" by (simp add: n_def)
  have "n \<le> length src" using assms(2) by (simp add: n_def)
  from CBuffWrite_ring [OF wf n_def \<open>0 < n\<close> this] obtain buf where
    buf: "CBuffWrite c src bytes = Inr (c\<lparr>c_buffer := buf, c_size := c_size c + n\<rparr>, int n)"
    "length buf = c_capacity c"
    "\<forall>k < n. buf ! ((c_front c + c_size c + k) mod c_capacity c) = src ! k"
    "\<forall>i < c_size c. buf ! ((c_front c + i) mod c_capacity c) = c_buffer c ! ((c_front c + i) mod c_capacity c)"
    by blast
  let ?c' = "c\<lparr>c_buffer := buf, c_size := c_size c + n\<rparr>"
  have "cbuff_wf ?c'" using wf buf(2) by (auto simp: cbuff_wf_def n_def)
  moreover have "cbuff_bytes ?c' = cbuff_bytes c @ take n src"
  proof (rule nth_equalityI)
    show "length (cbuff_bytes ?c') = length (cbuff_bytes c @ take n src)"
      using assms(2) by (simp add: n_def)
    fix i
    assume "i < length (cbuff_bytes ?c')"
    then have i: "i < c_size c + n" by simp
    show "cbuff_bytes ?c' ! i = (cbuff_bytes c @ take n src) ! i"
    proof (cases "i < c_size c")
      case True
      with i buf(4) show ?thesis by (simp add: nth_cbuff_bytes nth_append)
    next
      case False
      with i have "i - c_size c < n" by linarith
      with buf(3) have "buf ! ((c_front c + c_size c + (i - c_size c)) mod c_capacity c) = src ! (i - c_size c)"
        by blast
      with False i show ?thesis by (simp add: nth_cbuff_bytes nth_append)
    qed
  qed
  ultimately show ?thesis using buf(1) by (simp add: cbuff_abs_def n_def)
qed

lemma CBuffRead_ok:
  assumes wf: "cbuff_wf c" and "min bytes (c_size c) \<le> length dst"
  shows "\<exists>c'. CBuffRead c dst bytes =
      Inr (c', take (min bytes (c_size c)) (cbuff_bytes c) @ drop (min bytes (c_size c)) dst,
           int (min bytes (c_size c))) \<and>
    cbuff_wf c' \<and> cbuff_abs c' = (c_capacity c, drop (min bytes (c_size c)) (cbuff_bytes c))"
proof (cases "min bytes (c_size c) = 0")
  case True
  with wf show ?thesis by (auto simp: CBuffRead_def Let_def cbuff_abs_def cbuff_bytes_def min_def)
next
  case False
  let ?cap = "c_capacity c" and ?f = "c_front c" and ?b = "c_buffer c"
  define n where "n = min bytes (c_size c)"
  define m where "m = min n (?cap - ?f)"
  have n: "0 < n" "n \<le> c_size c" "n \<le> length dst" using False assms(2) by (auto simp: n_def)
  have cap: "?f < ?cap" "c_size c \<le> ?cap" "length ?b = ?cap" "?f + n < 2 ^ 64"
    using wf n by (auto simp: cbuff_wf_def)
  have m: "m \<le> n" "?f + m \<le> ?cap" "n - m \<le> ?cap" using cap n by (auto simp: m_def)
  let ?out = "take m (drop ?f ?b) @ take (n - m) ?b @ drop n dst"
  let ?c' = "c\<lparr>c_front := (?f + n) mod ?cap, c_size := c_size c - n\<rparr>"
  have sel: "(if bytes > c_size c then c_size c else bytes) = n" by (simp add: n_def min_def)
  have call: "CBuffRead c dst bytes = Inr (?c', ?out, int n)"
    using cap m n unfolding CBuffRead_def Let_def sel
    by (auto simp: m_def [symmetric] read_bytes_ok write_bytes_ok min_absorb2)
  have "take n (cbuff_bytes c) = take m (drop ?f ?b) @ take (n - m) ?b"
  proof (rule nth_equalityI)
    show "length (take n (cbuff_bytes c)) = length (take m (drop ?f ?b) @ take (n - m) ?b)"
      using cap m n by simp
    fix i
    assume "i < length (take n (cbuff_bytes c))"
    then have i: "i < n" by simp
    have "(?f + i) mod ?cap = (if ?f + i < ?cap then ?f + i else ?f + i - ?cap)"
      using i n cap wrap_index [of ?f ?cap i] by simp
    with i n cap m show "take n (cbuff_bytes c) ! i = (take m (drop ?f ?b) @ take (n - m) ?b) ! i"
      by (auto simp: nth_cbuff_bytes nth_append m_def min_def ac_simps split: if_splits)
  qed
  moreover have "cbuff_bytes ?c' = drop n (cbuff_bytes c)"
  proof (rule nth_equalityI)
    fix i
    assume "i < length (cbuff_bytes ?c')"
    then have "n + i < c_size c" by simp
    then show "cbuff_bytes ?c' ! i = drop n (cbuff_bytes c) ! i"
      by (simp add: nth_cbuff_bytes mod_add_left_eq add.assoc)
  qed simp
  moreover have "cbuff_wf ?c'" using wf by (auto simp: cbuff_wf_def)
  ultimately show ?thesis using call by (simp add: cbuff_abs_def n_def)
qed

interpretation cbuff_refines: data_refinement cbuff_wf cbuff_abs cbuff_step cbuff_spec cbuff_pre
proof
  fix s c
  assume wf: "cbuff_wf s" and pre: "cbuff_pre c (cbuff_abs s)"
  show "\<exists>s' out. cbuff_step c s = Inr (s', out) \<and> cbuff_wf s' \<and>
    cbuff_spec c (cbuff_abs s) = (cbuff_abs s', out)"
  proof (cases c)
    case (C_Write src n)
    with CBuffWrite_ok [OF wf, of n src] pre show ?thesis by (auto simp: cbuff_abs_def Let_def)
  next
    case (C_Read dst n)
    with CBuffRead_ok [OF wf, of n dst] pre show ?thesis by (auto simp: cbuff_abs_def Let_def)
  qed (use wf in \<open>auto simp: cbuff_abs_def CBuffSize_def CBuffFreeSpace_def CBuffIsEmpty_def
        cbuff_wf_def cbuff_bytes_def\<close>)
qed

text \<open>The struct is allocated so that exactly \<open>capacity\<close> bytes lie behind \<open>buffer\<close>.\<close>

lemma CBuffCreate_ok:
  assumes "max 8 n < 2 ^ 63"
  shows "\<exists>c. CBuffCreate (Some junk) n = Some c \<and> cbuff_wf c \<and> cbuff_abs c = (max 8 n, [])"
proof -
  have cap: "(if 8 < n then n else 8) = max 8 n" by simp
  show ?thesis
    using assms unfolding CBuffCreate_def cap Let_def
    by (simp add: malloc_block_def cbuff_wf_def cbuff_abs_def cbuff_bytes_def)
qed

end
