(* ===== verification/Queue.thy ===== *)
theory Queue
  imports SLL
begin

text \<open>
  The FIFO queue of \<open>ds/src/queue.c\<close>: a struct that points to a list of \<open>sll.c\<close>. Elements go
  in at the end of the list and come out at its beginning.
\<close>

section \<open>Definitions\<close>

record queue_t =
  q_list :: ptr

text \<open>A queue argument is NULL (\<open>None\<close>) or a struct.\<close>

definition IsQueueInvalid :: "queue_t option \<Rightarrow> bool" where
  "IsQueueInvalid queue = (case queue of None \<Rightarrow> True | Some q \<Rightarrow> q_list q = NULL)"

definition QueueCreate :: "bool \<Rightarrow> ptr option \<Rightarrow> ptr option \<Rightarrow> sll_mem \<Rightarrow> sll_mem \<times> queue_t option" where
  "QueueCreate struct_ok al ad m =
     (if \<not> struct_ok then (m, None)
      else let (m', list) = SLLCreate al ad m
           in if list = NULL then (m', None) else (m', Some \<lparr>q_list = list\<rparr>))"

definition QueueDestroy :: "nat \<Rightarrow> sll_mem \<Rightarrow> queue_t option \<Rightarrow> sll_mem result" where
  "QueueDestroy fuel m queue =
     (case queue of
        Some q \<Rightarrow> if \<not> IsQueueInvalid (Some q) then SLLDestroy fuel m (q_list q) else Inr m
      | None \<Rightarrow> Inr m)"

definition QueueEnqueue :: "nat \<Rightarrow> ptr option \<Rightarrow> sll_mem \<Rightarrow> queue_t \<Rightarrow> ptr \<Rightarrow> (sll_mem \<times> int) result" where
  "QueueEnqueue fuel a m queue data =
     bindE (assertE (\<not> IsQueueInvalid (Some queue))) (\<lambda>_.
     bindE (SLLEnd m (q_list queue)) (\<lambda>tail_it.
     bindE (SLLInsert fuel a m tail_it data) (\<lambda>(m', new_node_it).
     Inr (m', if new_node_it = tail_it then 1 else 0))))"

definition QueueDequeue :: "sll_mem \<Rightarrow> queue_t \<Rightarrow> sll_mem result" where
  "QueueDequeue m queue =
     bindE (assertE (\<not> IsQueueInvalid (Some queue))) (\<lambda>_.
     bindE (SLLBegin m (q_list queue)) (\<lambda>b.
     bindE (SLLRemove m b) (\<lambda>(m', it). Inr m')))"

definition QueueIsEmpty :: "sll_mem \<Rightarrow> queue_t \<Rightarrow> bool result" where
  "QueueIsEmpty m queue =
     bindE (assertE (\<not> IsQueueInvalid (Some queue))) (\<lambda>_. SLLIsEmpty m (q_list queue))"

definition QueueSize :: "nat \<Rightarrow> sll_mem \<Rightarrow> queue_t \<Rightarrow> nat result" where
  "QueueSize fuel m queue =
     bindE (assertE (\<not> IsQueueInvalid (Some queue))) (\<lambda>_. SLLCount fuel m (q_list queue))"

definition QueuePeek :: "sll_mem \<Rightarrow> queue_t \<Rightarrow> ptr result" where
  "QueuePeek m queue =
     bindE (assertE (\<not> IsQueueInvalid (Some queue))) (\<lambda>_.
     bindE (QueueIsEmpty m queue) (\<lambda>empty.
     if empty then Inr NULL
     else bindE (SLLBegin m (q_list queue)) (SLLGetData m)))"

definition QueueAppend :: "sll_mem \<Rightarrow> queue_t \<Rightarrow> queue_t \<Rightarrow> (sll_mem \<times> queue_t) result" where
  "QueueAppend m src dst =
     bindE (SLLAppend m (q_list src) (q_list dst)) (\<lambda>(m', list). Inr (m', dst\<lparr>q_list := list\<rparr>))"

section \<open>Specification\<close>

text \<open>The queue \<open>q\<close> holds the data \<open>ds\<close>, front first.\<close>

definition queue_rep :: "sll_mem \<Rightarrow> queue_t \<Rightarrow> ptr list \<Rightarrow> bool" where
  "queue_rep m q ds \<longleftrightarrow> (\<exists>xs z. sll_rep m (q_list q) xs z \<and> map snd xs = ds)"

text \<open>
  A state of a client of one queue: the store, the queue and its contents. Calls carry the
  address that \<open>malloc\<close> answers.
\<close>

datatype queue_call = Q_Enqueue ptr ptr | Q_Dequeue | Q_Peek | Q_IsEmpty | Q_Size nat

datatype queue_out = Q_Done | Q_Data ptr | Q_Bool bool | Q_Nat nat

fun queue_step :: "queue_call \<Rightarrow> sll_mem \<times> queue_t \<Rightarrow> ((sll_mem \<times> queue_t) \<times> queue_out) result" where
  "queue_step (Q_Enqueue a d) (m, q) =
     bindE (QueueEnqueue 0 (Some a) m q d) (\<lambda>(m', rc). Inr ((m', q), Q_Done))"
| "queue_step Q_Dequeue (m, q) = bindE (QueueDequeue m q) (\<lambda>m'. Inr ((m', q), Q_Done))"
| "queue_step Q_Peek (m, q) = bindE (QueuePeek m q) (\<lambda>d. Inr ((m, q), Q_Data d))"
| "queue_step Q_IsEmpty (m, q) = bindE (QueueIsEmpty m q) (\<lambda>b. Inr ((m, q), Q_Bool b))"
| "queue_step (Q_Size fuel) (m, q) = bindE (QueueSize fuel m q) (\<lambda>n. Inr ((m, q), Q_Nat n))"


text \<open>The abstract queue is the list of its data.\<close>

fun queue_spec :: "queue_call \<Rightarrow> ptr list \<Rightarrow> ptr list \<times> queue_out" where
  "queue_spec (Q_Enqueue a d) ds = (ds @ [d], Q_Done)"
| "queue_spec Q_Dequeue ds = (tl ds, Q_Done)"
| "queue_spec Q_Peek ds = (ds, Q_Data (if ds = [] then NULL else hd ds))"
| "queue_spec Q_IsEmpty ds = (ds, Q_Bool (ds = []))"
| "queue_spec (Q_Size fuel) ds = (ds, Q_Nat (length ds))"

fun queue_ok :: "queue_call \<Rightarrow> sll_mem \<times> queue_t \<Rightarrow> ptr list \<Rightarrow> bool" where
  "queue_ok (Q_Enqueue a d) (m, q) ds = fresh m a"
| "queue_ok Q_Dequeue (m, q) ds = (ds \<noteq> [])"
| "queue_ok (Q_Size fuel) (m, q) ds = (length ds < fuel)"
| "queue_ok c s ds = True"

section \<open>Correctness\<close>

lemma queue_rep_valid: "queue_rep m q ds \<Longrightarrow> \<not> IsQueueInvalid (Some q)"
  by (auto simp: queue_rep_def IsQueueInvalid_def dest: sll_repD(1))

lemma QueueEnqueue_rep:
  assumes "queue_rep m q ds" "fresh m a"
  shows "\<exists>m'. QueueEnqueue fuel (Some a) m q d = Inr (m', 1) \<and> queue_rep m' q (ds @ [d])"
proof -
  from assms(1) obtain xs z where xs: "sll_rep m (q_list q) xs z" "map snd xs = ds"
    by (auto simp: queue_rep_def)
  from SLLInsert_end [OF xs(1) assms(2), of fuel d] obtain m' where
    m': "SLLInsert fuel (Some a) m z d = Inr (m', z)" "sll_rep m' (q_list q) (xs @ [(z, d)]) a" by blast
  have "QueueEnqueue fuel (Some a) m q d = Inr (m', 1)"
    using queue_rep_valid [OF assms(1)] m'(1) by (simp add: QueueEnqueue_def SLLEnd_rep [OF xs(1)])
  moreover have "queue_rep m' q (ds @ [d])"
    unfolding queue_rep_def using m'(2) xs(2) by (intro exI [of _ "xs @ [(z, d)]"] exI [of _ a]) simp
  ultimately show ?thesis by blast
qed

lemma QueueEnqueue_no_memory:
  assumes "queue_rep m q ds" "0 < fuel"
  shows "QueueEnqueue fuel None m q d = Inr (m, 1)"
proof -
  from assms(1) obtain xs z where xs: "sll_rep m (q_list q) xs z" by (auto simp: queue_rep_def)
  have "SLLInsert fuel None m z d = Inr (m, z)"
    using SLLInsert_walk_rep [of m "q_list q" xs "[]" z fuel] xs assms(2) sll_repD(2) [OF xs]
    by (simp add: SLLInsert_def)
  then show ?thesis
    using queue_rep_valid [OF assms(1)] by (simp add: QueueEnqueue_def SLLEnd_rep [OF xs])
qed

lemma QueueDequeue_rep:
  assumes "queue_rep m q ds" "ds \<noteq> []"
  shows "\<exists>m'. QueueDequeue m q = Inr m' \<and> queue_rep m' q (tl ds)"
proof -
  from assms(1) obtain xs z where xs: "sll_rep m (q_list q) xs z" "map snd xs = ds"
    by (auto simp: queue_rep_def)
  with assms(2) obtain a d vs where vs: "xs = (a, d) # vs" by (cases xs) auto
  from SLLRemove_at [of m "q_list q" "[]" a d vs z] xs(1) vs obtain m' ys z' where
    "SLLRemove m a = Inr (m', a)" "sll_rep m' (q_list q) ys z'" "map snd ys = map snd vs" by auto
  with queue_rep_valid [OF assms(1)] SLLBegin_rep [OF xs(1)] xs(2) vs show ?thesis
    by (auto simp: QueueDequeue_def queue_rep_def)
qed

lemma QueuePeek_rep:
  assumes "queue_rep m q ds"
  shows "QueuePeek m q = Inr (if ds = [] then NULL else hd ds)"
proof -
  from assms obtain xs z where xs: "sll_rep m (q_list q) xs z" "map snd xs = ds"
    by (auto simp: queue_rep_def)
  then show ?thesis
    using queue_rep_valid [OF assms] SLLGetData_rep [of m "q_list q" "[]"]
    by (cases xs) (auto simp: QueuePeek_def QueueIsEmpty_def SLLIsEmpty_rep SLLBegin_rep)
qed

interpretation queue_refines: rel_refinement "\<lambda>s. queue_rep (fst s) (snd s)" queue_step queue_spec queue_ok
proof
  fix s ds c
  assume rep: "queue_rep (fst s) (snd s) ds" and ok: "queue_ok c s ds"
  obtain m q where s: "s = (m, q)" by force
  from rep s obtain xs z where xs: "sll_rep m (q_list q) xs z" "map snd xs = ds" and r: "queue_rep m q ds"
    by (auto simp: queue_rep_def)
  show "\<exists>s'. queue_step c s = Inr (s', snd (queue_spec c ds)) \<and>
      queue_rep (fst s') (snd s') (fst (queue_spec c ds))"
  proof (cases c)
    case (Q_Enqueue a d)
    with s ok QueueEnqueue_rep [OF r, of a 0 d] show ?thesis by auto
  next
    case Q_Dequeue
    with s ok QueueDequeue_rep [OF r] show ?thesis by auto
  next
    case Q_Peek
    with s r QueuePeek_rep [OF r] show ?thesis by simp
  next
    case Q_IsEmpty
    with s r queue_rep_valid [OF r] SLLIsEmpty_rep [OF xs(1)] xs(2) show ?thesis
      by (auto simp: QueueIsEmpty_def)
  next
    case (Q_Size fuel)
    with s r ok queue_rep_valid [OF r] SLLCount_rep [OF xs(1), of fuel] xs(2) show ?thesis
      by (auto simp: QueueSize_def)
  qed
qed

lemma QueueCreate_rep:
  assumes "fresh m l" "fresh m z" "l \<noteq> z"
  shows "\<exists>m' q. QueueCreate True (Some l) (Some z) m = (m', Some q) \<and> queue_rep m' q []"
proof -
  from SLLCreate_rep [OF assms] obtain m' where
    "SLLCreate (Some l) (Some z) m = (m', l)" "sll_rep m' l [] z" by blast
  then show ?thesis using assms(1)
    by (auto simp: QueueCreate_def queue_rep_def fresh_def)
qed

text \<open>
  Appending to an empty queue makes both queues the same list, so what is enqueued in one is
  also in the other.
\<close>

lemma QueueAppend_empty_aliases:
  assumes "queue_rep m src ds" "ds \<noteq> []" "queue_rep m dst []"
  shows "QueueAppend m src dst = Inr (m, dst\<lparr>q_list := q_list src\<rparr>)"
proof -
  from assms obtain xs z w where r: "sll_rep m (q_list src) xs z" "xs \<noteq> []" "sll_rep m (q_list dst) [] w"
    by (auto simp: queue_rep_def)
  moreover have "q_list src \<noteq> q_list dst"
    using sll_repD(5) [OF r(1)] sll_repD(5) [OF r(3)] first_of_eq_end [OF r(1)] r(2) by auto
  ultimately show ?thesis
    using sll_repD(1) [OF r(1)] sll_repD(1) [OF r(3)]
    by (simp add: QueueAppend_def SLLAppend_def SLLIsEmpty_rep)
qed

end
