(* ===== verification/Hash_Table.thy ===== *)
theory Hash_Table
  imports SLL
begin

text \<open>
  The hash table of \<open>ds/src/hash_table.c\<close>: an array of lists of \<open>sll.c\<close>, each key in the list
  its hash selects. The hash function and the match function are callbacks. The
  table implements a finite map from keys to data (\<open>hash_refines\<close>), creation releases
  everything when an allocation fails, and destruction frees every list.
\<close>

section \<open>Definitions\<close>

record hash_table_t =
  h_capacity :: nat
  h_func :: "ptr \<Rightarrow> nat"
  h_is_match :: "ptr \<Rightarrow> ptr \<Rightarrow> int"
  h_buckets :: "ptr list"

definition HashIndex :: "hash_table_t \<Rightarrow> ptr \<Rightarrow> nat result" where
  "HashIndex table key =
     bindE (assertE (key \<noteq> NULL)) (\<lambda>_.
     let hash_code = h_func table key; index = hash_code mod h_capacity table in Inr index)"

definition HashFindInBucket :: "nat \<Rightarrow> sll_mem \<Rightarrow> hash_table_t \<Rightarrow> ptr \<Rightarrow> ptr \<Rightarrow> sll_iter_t result" where
  "HashFindInBucket fuel m table bucket key =
     bindE (assertE (bucket \<noteq> NULL)) (\<lambda>_.
     bindE (assertE (key \<noteq> NULL)) (\<lambda>_.
     bindE (SLLBegin m bucket) (\<lambda>b. bindE (SLLEnd m bucket) (\<lambda>e.
     SLLFind fuel m b e (h_is_match table) key))))"

definition HashForEachBucket :: "nat \<Rightarrow> sll_mem \<Rightarrow> ptr \<Rightarrow> (ptr \<Rightarrow> 's \<Rightarrow> 's \<times> int) \<Rightarrow> 's \<Rightarrow> ('s \<times> int) result" where
  "HashForEachBucket fuel m bucket action_func param =
     bindE (assertE (bucket \<noteq> NULL)) (\<lambda>_.
     bindE (SLLBegin m bucket) (\<lambda>b. bindE (SLLEnd m bucket) (\<lambda>e.
     SLLForEach fuel m b e action_func param)))"

text \<open>The loop over \<open>is\<close> frees every list that is there and clears its slot.\<close>

fun HashFreeBuckets_loop :: "nat \<Rightarrow> sll_mem \<Rightarrow> ptr list \<Rightarrow> nat list \<Rightarrow> (sll_mem \<times> ptr list) result" where
  "HashFreeBuckets_loop fuel m buckets [] = Inr (m, buckets)"
| "HashFreeBuckets_loop fuel m buckets (i # is) =
     (if i < length buckets
      then if buckets ! i \<noteq> NULL
           then bindE (SLLDestroy fuel m (buckets ! i)) (\<lambda>m'.
                HashFreeBuckets_loop fuel m' (buckets[i := NULL]) is)
           else HashFreeBuckets_loop fuel m buckets is
      else Inl Bad_access)"

definition HashFreeBucketsUpTo :: "nat \<Rightarrow> sll_mem \<Rightarrow> ptr list \<Rightarrow> nat \<Rightarrow> (sll_mem \<times> ptr list) result" where
  "HashFreeBucketsUpTo fuel m buckets cnt = HashFreeBuckets_loop fuel m buckets [0..<cnt]"

text \<open>
  Creation: \<open>struct_ok\<close> and \<open>array_ok\<close> are the answers of the allocations of the struct and of
  the array, \<open>al i\<close> and \<open>ad i\<close> those of the two allocations of the list \<open>i\<close>.
\<close>

fun HashTableCreate_loop :: "nat \<Rightarrow> (nat \<Rightarrow> ptr option) \<Rightarrow> (nat \<Rightarrow> ptr option) \<Rightarrow> sll_mem \<Rightarrow> ptr list \<Rightarrow>
    nat list \<Rightarrow> (sll_mem \<times> ptr list option) result" where
  "HashTableCreate_loop fuel al ad m buckets [] = Inr (m, Some buckets)"
| "HashTableCreate_loop fuel al ad m buckets (i # is) =
     (let (m1, l) = SLLCreate (al i) (ad i) m; buckets1 = buckets[i := l]
      in if l = NULL
         then bindE (HashFreeBucketsUpTo fuel m1 buckets1 i) (\<lambda>(m2, _). Inr (m2, None))
         else HashTableCreate_loop fuel al ad m1 buckets1 is)"

definition HashTableCreate :: "nat \<Rightarrow> bool \<Rightarrow> bool \<Rightarrow> (nat \<Rightarrow> ptr option) \<Rightarrow> (nat \<Rightarrow> ptr option) \<Rightarrow> sll_mem \<Rightarrow>
    (ptr \<Rightarrow> nat) \<Rightarrow> nat \<Rightarrow> (ptr \<Rightarrow> ptr \<Rightarrow> int) \<Rightarrow> (sll_mem \<times> hash_table_t option) result" where
  "HashTableCreate fuel struct_ok array_ok al ad m hash_func sz is_match =
     (if sz = 0 then Inr (m, None)
      else if \<not> struct_ok then Inr (m, None)
      else if \<not> array_ok then Inr (m, None)
      else bindE (HashTableCreate_loop fuel al ad m (replicate sz NULL) [0..<sz]) (\<lambda>(m', b).
           case b of
             None \<Rightarrow> Inr (m', None)
           | Some buckets \<Rightarrow> Inr (m', Some \<lparr>h_capacity = sz, h_func = hash_func,
                                           h_is_match = is_match, h_buckets = buckets\<rparr>)))"

definition HashTableDestroy :: "nat \<Rightarrow> sll_mem \<Rightarrow> hash_table_t \<Rightarrow> sll_mem result" where
  "HashTableDestroy fuel m table =
     bindE (HashFreeBuckets_loop fuel m (h_buckets table) [0..<h_capacity table]) (\<lambda>(m', _). Inr m')"

definition bucket_at :: "hash_table_t \<Rightarrow> nat \<Rightarrow> ptr result" where
  "bucket_at table i = (if i < length (h_buckets table) then Inr (h_buckets table ! i) else Inl Bad_access)"

definition HashTableInsert :: "nat \<Rightarrow> ptr option \<Rightarrow> sll_mem \<Rightarrow> hash_table_t \<Rightarrow> ptr \<Rightarrow> (sll_mem \<times> int) result" where
  "HashTableInsert fuel a m table data =
     bindE (assertE (data \<noteq> NULL)) (\<lambda>_.
     bindE (HashIndex table data) (\<lambda>bucket_index.
     bindE (bucket_at table bucket_index) (\<lambda>bucket.
     bindE (assertE (bucket \<noteq> NULL)) (\<lambda>_.
     bindE (HashFindInBucket fuel m table bucket data) (\<lambda>found_iter.
     bindE (bindE (SLLEnd m bucket) (SLLIsEqual found_iter)) (\<lambda>absent.
     bindE (assertE absent) (\<lambda>_.
     bindE (SLLBegin m bucket) (\<lambda>where_iter.
     bindE (SLLInsert fuel a m where_iter data) (\<lambda>(m', new_iter).
     bindE (bindE (SLLEnd m' bucket) (SLLIsEqual new_iter)) (\<lambda>at_end.
     Inr (m', if at_end then 1 else 0)))))))))))"

definition HashTableFind :: "nat \<Rightarrow> sll_mem \<Rightarrow> hash_table_t \<Rightarrow> ptr \<Rightarrow> ptr result" where
  "HashTableFind fuel m table key =
     bindE (assertE (key \<noteq> NULL)) (\<lambda>_.
     bindE (HashIndex table key) (\<lambda>bucket_index.
     bindE (bucket_at table bucket_index) (\<lambda>bucket.
     bindE (assertE (bucket \<noteq> NULL)) (\<lambda>_.
     bindE (HashFindInBucket fuel m table bucket key) (\<lambda>iter.
     bindE (bindE (SLLEnd m bucket) (SLLIsEqual iter)) (\<lambda>at_end.
     if \<not> at_end then SLLGetData m iter else Inr NULL))))))"

definition HashTableRemove :: "nat \<Rightarrow> sll_mem \<Rightarrow> hash_table_t \<Rightarrow> ptr \<Rightarrow> sll_mem result" where
  "HashTableRemove fuel m table key =
     bindE (assertE (key \<noteq> NULL)) (\<lambda>_.
     bindE (HashIndex table key) (\<lambda>bucket_index.
     bindE (bucket_at table bucket_index) (\<lambda>bucket.
     bindE (assertE (bucket \<noteq> NULL)) (\<lambda>_.
     bindE (HashFindInBucket fuel m table bucket key) (\<lambda>iter.
     bindE (bindE (SLLEnd m bucket) (SLLIsEqual iter)) (\<lambda>at_end.
     if \<not> at_end then bindE (SLLRemove m iter) (\<lambda>(m', _). Inr m') else Inr m))))))"

fun HashTableSize_loop :: "nat \<Rightarrow> sll_mem \<Rightarrow> ptr list \<Rightarrow> nat \<Rightarrow> nat result" where
  "HashTableSize_loop fuel m [] acc = Inr acc"
| "HashTableSize_loop fuel m (b # bs) acc =
     (if b \<noteq> NULL
      then bindE (SLLCount fuel m b) (\<lambda>n. HashTableSize_loop fuel m bs (acc + n))
      else HashTableSize_loop fuel m bs acc)"

definition HashTableSize :: "nat \<Rightarrow> sll_mem \<Rightarrow> hash_table_t \<Rightarrow> nat result" where
  "HashTableSize fuel m table = HashTableSize_loop fuel m (h_buckets table) 0"

fun HashTableIsEmpty_loop :: "sll_mem \<Rightarrow> ptr list \<Rightarrow> bool result" where
  "HashTableIsEmpty_loop m [] = Inr True"
| "HashTableIsEmpty_loop m (b # bs) =
     bindE (SLLIsEmpty m b) (\<lambda>empty. if \<not> empty then Inr False else HashTableIsEmpty_loop m bs)"

definition HashTableIsEmpty :: "sll_mem \<Rightarrow> hash_table_t \<Rightarrow> bool result" where
  "HashTableIsEmpty m table = HashTableIsEmpty_loop m (h_buckets table)"

fun HashTableForEach_loop :: "nat \<Rightarrow> sll_mem \<Rightarrow> ptr list \<Rightarrow> (ptr \<Rightarrow> 's \<Rightarrow> 's \<times> int) \<Rightarrow> 's \<Rightarrow> ('s \<times> int) result" where
  "HashTableForEach_loop fuel m [] action_func param = Inr (param, 0)"
| "HashTableForEach_loop fuel m (bucket # bs) action_func param =
     bindE (assertE (bucket \<noteq> NULL)) (\<lambda>_.
     bindE (HashForEachBucket fuel m bucket action_func param) (\<lambda>(param', rc).
     if rc \<noteq> 0 then Inr (param', 1) else HashTableForEach_loop fuel m bs action_func param'))"

definition HashTableForEach :: "nat \<Rightarrow> sll_mem \<Rightarrow> hash_table_t \<Rightarrow> (ptr \<Rightarrow> 's \<Rightarrow> 's \<times> int) \<Rightarrow> 's \<Rightarrow> ('s \<times> int) result" where
  "HashTableForEach fuel m table action_func param =
     HashTableForEach_loop fuel m (h_buckets table) action_func param"

section \<open>Specification\<close>

text \<open>
  The contract of the callbacks: matching is an equivalence, and matching data have the same
  hash.
\<close>

definition hash_contract :: "hash_table_t \<Rightarrow> bool" where
  "hash_contract t \<longleftrightarrow> (\<forall>x. h_is_match t x x \<noteq> 0) \<and>
     (\<forall>x y. h_is_match t x y \<noteq> 0 \<longrightarrow> h_is_match t y x \<noteq> 0 \<and> h_func t x = h_func t y) \<and>
     (\<forall>x y z. h_is_match t x y \<noteq> 0 \<longrightarrow> h_is_match t y z \<noteq> 0 \<longrightarrow> h_is_match t x z \<noteq> 0)"

text \<open>The lists of the table: struct address, nodes, dummy.\<close>

type_synonym sll_shape = "ptr \<times> (ptr \<times> ptr) list \<times> ptr"

definition shape_data :: "sll_shape \<Rightarrow> ptr list" where
  "shape_data r = map snd (fst (snd r))"

definition hash_rep :: "sll_mem \<Rightarrow> hash_table_t \<Rightarrow> sll_shape list \<Rightarrow> bool" where
  "hash_rep m t rs \<longleftrightarrow> 0 < h_capacity t \<and> length rs = h_capacity t \<and> h_buckets t = map fst rs \<and>
     sll_framed.family m rs \<and> hash_contract t \<and>
     (\<forall>i < length rs. (\<forall>d \<in> set (shape_data (rs ! i)). d \<noteq> NULL \<and> h_func t d mod h_capacity t = i) \<and>
        sorted_wrt (\<lambda>x y. h_is_match t x y = 0) (shape_data (rs ! i)))"

definition hash_lookup :: "hash_table_t \<Rightarrow> sll_shape list \<Rightarrow> ptr \<Rightarrow> ptr option" where
  "hash_lookup t rs k = find (\<lambda>d. h_is_match t d k \<noteq> 0) (shape_data (rs ! (h_func t k mod h_capacity t)))"

definition hash_data :: "sll_shape list \<Rightarrow> ptr list" where
  "hash_data rs = concat (map shape_data rs)"


text \<open>The abstract table: what each key finds, and how many elements there are.\<close>

type_synonym hash_abs = "(ptr \<Rightarrow> ptr option) \<times> nat"

datatype hash_call = H_Insert ptr ptr | H_Remove ptr | H_Find ptr | H_Size | H_IsEmpty

datatype hash_out = H_Status int | H_Done | H_Ptr ptr | H_Nat nat | H_Bool bool

fun hash_step :: "nat \<Rightarrow> hash_call \<Rightarrow> sll_mem \<times> hash_table_t \<Rightarrow> ((sll_mem \<times> hash_table_t) \<times> hash_out) result" where
  "hash_step fuel (H_Insert a d) (m, t) =
     bindE (HashTableInsert fuel (Some a) m t d) (\<lambda>(m', rc). Inr ((m', t), H_Status rc))"
| "hash_step fuel (H_Remove k) (m, t) = bindE (HashTableRemove fuel m t k) (\<lambda>m'. Inr ((m', t), H_Done))"
| "hash_step fuel (H_Find k) (m, t) = bindE (HashTableFind fuel m t k) (\<lambda>d. Inr ((m, t), H_Ptr d))"
| "hash_step fuel H_Size (m, t) = bindE (HashTableSize fuel m t) (\<lambda>n. Inr ((m, t), H_Nat n))"
| "hash_step fuel H_IsEmpty (m, t) = bindE (HashTableIsEmpty m t) (\<lambda>b. Inr ((m, t), H_Bool b))"

fun hash_spec :: "(ptr \<Rightarrow> ptr \<Rightarrow> int) \<Rightarrow> hash_call \<Rightarrow> hash_abs \<Rightarrow> hash_abs \<times> hash_out" where
  "hash_spec mt (H_Insert a d) (f, n) = ((\<lambda>k. if mt d k \<noteq> 0 then Some d else f k, n + 1), H_Status 0)"
| "hash_spec mt (H_Remove k0) (f, n) =
     ((\<lambda>k. if mt k0 k \<noteq> 0 then None else f k, if f k0 = None then n else n - 1), H_Done)"
| "hash_spec mt (H_Find k) (f, n) = ((f, n), H_Ptr (case f k of None \<Rightarrow> NULL | Some d \<Rightarrow> d))"
| "hash_spec mt H_Size (f, n) = ((f, n), H_Nat n)"
| "hash_spec mt H_IsEmpty (f, n) = ((f, n), H_Bool (n = 0))"

text \<open>A key is inserted once; the budget covers the longest list.\<close>

fun hash_ok :: "nat \<Rightarrow> hash_call \<Rightarrow> sll_mem \<times> hash_table_t \<Rightarrow> hash_abs \<Rightarrow> bool" where
  "hash_ok fuel (H_Insert a d) (m, t) (f, n) = (d \<noteq> NULL \<and> f d = None \<and> fresh m a \<and> n < fuel)"
| "hash_ok fuel (H_Remove k) (m, t) (f, n) = (k \<noteq> NULL \<and> n < fuel)"
| "hash_ok fuel (H_Find k) (m, t) (f, n) = (k \<noteq> NULL \<and> n < fuel)"
| "hash_ok fuel H_Size (m, t) (f, n) = (n < fuel)"
| "hash_ok fuel H_IsEmpty (m, t) (f, n) = True"

definition hash_rel :: "(ptr \<Rightarrow> ptr \<Rightarrow> int) \<Rightarrow> sll_mem \<times> hash_table_t \<Rightarrow> hash_abs \<Rightarrow> bool" where
  "hash_rel mt s a \<longleftrightarrow> h_is_match (snd s) = mt \<and>
     (\<exists>rs. hash_rep (fst s) (snd s) rs \<and> a = (hash_lookup (snd s) rs, length (hash_data rs)))"

section \<open>Lookup\<close>

lemma dropWhile_find:
  "(dropWhile (\<lambda>(a, d). P d) xs = [] \<and> (\<forall>d \<in> set (map snd xs). P d) \<and> find (\<lambda>d. \<not> P d) (map snd xs) = None) \<or>
   (\<exists>us a d vs. xs = us @ (a, d) # vs \<and> dropWhile (\<lambda>(a, d). P d) xs = (a, d) # vs \<and>
      (\<forall>e \<in> set (map snd us). P e) \<and> \<not> P d \<and> find (\<lambda>d. \<not> P d) (map snd xs) = Some d)"
proof (induction xs)
  case Nil
  then show ?case by simp
next
  case (Cons x xs)
  obtain a d where x: "x = (a, d)" by force
  show ?case
  proof (cases "P d")
    case False
    with x show ?thesis by (intro disjI2 exI [of _ "[]"]) auto
  next
    case True
    from Cons show ?thesis
    proof
      assume "\<exists>us a d vs. xs = us @ (a, d) # vs \<and> dropWhile (\<lambda>(a, d). P d) xs = (a, d) # vs \<and>
        (\<forall>e \<in> set (map snd us). P e) \<and> \<not> P d \<and> find (\<lambda>d. \<not> P d) (map snd xs) = Some d"
      then obtain us b e vs where "xs = us @ (b, e) # vs" "dropWhile (\<lambda>(a, d). P d) xs = (b, e) # vs"
        "\<forall>e \<in> set (map snd us). P e" "\<not> P e" "find (\<lambda>d. \<not> P d) (map snd xs) = Some e" by blast
      with True x show ?thesis by (intro disjI2 exI [of _ "x # us"]) auto
    qed (use True x in auto)
  qed
qed

lemma hash_rep_nth:
  assumes "hash_rep m t rs" "i < length rs" "rs ! i = (l, xs, z)"
  shows "bucket_at t i = Inr l" "sll_rep m l xs z" "l \<noteq> NULL" "length xs \<le> length (hash_data rs)"
    "\<forall>x \<in> set (map snd xs). x \<noteq> NULL \<and> h_func t x mod h_capacity t = i"
    "sorted_wrt (\<lambda>x y. h_is_match t x y = 0) (map snd xs)"
proof -
  have "(\<forall>d \<in> set (shape_data (rs ! i)). d \<noteq> NULL \<and> h_func t d mod h_capacity t = i) \<and>
      sorted_wrt (\<lambda>x y. h_is_match t x y = 0) (shape_data (rs ! i))"
    using assms(1,2) by (simp add: hash_rep_def)
  with assms(3) show "\<forall>x \<in> set (map snd xs). x \<noteq> NULL \<and> h_func t x mod h_capacity t = i"
    "sorted_wrt (\<lambda>x y. h_is_match t x y = 0) (map snd xs)"
    by (simp_all add: shape_data_def)
  show "bucket_at t i = Inr l" using assms by (simp add: hash_rep_def bucket_at_def)
  show rep: "sll_rep m l xs z" using assms by (auto simp: hash_rep_def sll_framed.family_def)
  show "l \<noteq> NULL" by (rule sll_repD(1) [OF rep])
  have "length (shape_data (rs ! i)) \<le> sum_list (map (length \<circ> shape_data) rs)"
    using elem_le_sum_list [of i "map (length \<circ> shape_data) rs"] assms(2) by simp
  then show "length xs \<le> length (hash_data rs)"
    using assms(3) by (simp add: shape_data_def hash_data_def length_concat comp_def)
qed

text \<open>What the search of a bucket answers, in the two cases.\<close>

lemma HashFindInBucket_rep:
  assumes "sll_rep m l xs z" "k \<noteq> NULL" "length xs < fuel"
  shows "HashFindInBucket fuel m t l k = Inr (first_of (dropWhile (\<lambda>(a, d). h_is_match t d k = 0) xs) z)"
  using SLLFind_rep [of m l "[]" xs z fuel] assms sll_repD(1) [OF assms(1)]
  by (simp add: HashFindInBucket_def SLLBegin_rep SLLEnd_rep)


lemma SLLIsEqual_end:
  assumes "sll_rep m l (us @ vs) z"
  shows "bindE (SLLEnd m l) (SLLIsEqual (first_of vs z)) = Inr (vs = [])"
proof -
  have "first_of vs z \<noteq> NULL"
    using sll_repD(2) [OF assms] sll_rep_node(2) [of m l us] assms by (cases vs) auto
  moreover have "first_of vs z = z \<longleftrightarrow> vs = []" using sll_repD(3) [OF assms] by (cases vs) auto
  ultimately show ?thesis using sll_repD(2) [OF assms] by (simp add: SLLEnd_rep [OF assms] SLLIsEqual_def)
qed

lemma hash_index:
  assumes "hash_rep m t rs"
  shows "h_func t k mod h_capacity t < length rs"
  using assms by (simp add: hash_rep_def)

lemma HashTableFind_rep:
  assumes rep: "hash_rep m t rs" and k: "k \<noteq> NULL" and fuel: "length (hash_data rs) < fuel"
  shows "HashTableFind fuel m t k = Inr (case hash_lookup t rs k of None \<Rightarrow> NULL | Some d \<Rightarrow> d)"
proof -
  let ?i = "h_func t k mod h_capacity t"
  obtain l xs z where r: "rs ! ?i = (l, xs, z)" by (cases "rs ! ?i") auto
  note B = hash_rep_nth [OF rep hash_index [OF rep] r]
  have find: "HashFindInBucket fuel m t l k = Inr (first_of (dropWhile (\<lambda>(a, d). h_is_match t d k = 0) xs) z)"
    using B k fuel by (intro HashFindInBucket_rep) auto
  have lk: "hash_lookup t rs k = find (\<lambda>d. h_is_match t d k \<noteq> 0) (map snd xs)"
    by (simp add: hash_lookup_def r shape_data_def)
  from dropWhile_find [of "\<lambda>d. h_is_match t d k = 0" xs] show ?thesis
  proof
    assume "dropWhile (\<lambda>(a, d). h_is_match t d k = 0) xs = [] \<and> (\<forall>d \<in> set (map snd xs). h_is_match t d k = 0) \<and>
      find (\<lambda>d. h_is_match t d k \<noteq> 0) (map snd xs) = None"
    with B k find lk SLLIsEqual_end [of m l xs "[]" z] show ?thesis
      by (simp add: HashTableFind_def HashIndex_def)
  next
    assume "\<exists>us a d vs. xs = us @ (a, d) # vs \<and> dropWhile (\<lambda>(a, d). h_is_match t d k = 0) xs = (a, d) # vs \<and>
      (\<forall>e \<in> set (map snd us). h_is_match t e k = 0) \<and> h_is_match t d k \<noteq> 0 \<and>
      find (\<lambda>d. h_is_match t d k \<noteq> 0) (map snd xs) = Some d"
    then obtain us a d vs where v: "xs = us @ (a, d) # vs"
      "dropWhile (\<lambda>(a, d). h_is_match t d k = 0) xs = (a, d) # vs"
      "find (\<lambda>d. h_is_match t d k \<noteq> 0) (map snd xs) = Some d" by blast
    with B k find lk SLLIsEqual_end [of m l us "(a, d) # vs" z] SLLGetData_rep [of m l us a d vs z] show ?thesis
      by (simp add: HashTableFind_def HashIndex_def)
  qed
qed

section \<open>Updates\<close>

lemma hash_rep_update:
  assumes rep: "hash_rep m t rs" and i: "i < length rs" and r: "rs ! i = (l, xs, z)"
    and new: "sll_rep m' l ys z'" "sll_foot l ys z' \<subseteq> sll_foot l xs z \<union> A" "A \<inter> (dom (nodes m) \<union> dom (lists m)) = {}"
      "sll_agree m m' (- (sll_foot l xs z \<union> A))"
    and data: "\<forall>d \<in> set (map snd ys). d \<noteq> NULL \<and> h_func t d mod h_capacity t = i"
      "sorted_wrt (\<lambda>x y. h_is_match t x y = 0) (map snd ys)"
  shows "hash_rep m' t (rs[i := (l, ys, z')])"
proof -
  have "sll_framed.family m' (rs[i := (l, ys, z')])"
    using rep i r new by (intro sll_framed.family_update [where new = A and m = m]) (auto simp: hash_rep_def)
  moreover have "map fst (rs[i := (l, ys, z')]) = map fst rs"
    using r i by (simp add: map_update list_update_same_conv)
  moreover have "(\<forall>d \<in> set (shape_data (rs[i := (l, ys, z')] ! j)). d \<noteq> NULL \<and> h_func t d mod h_capacity t = j) \<and>
      sorted_wrt (\<lambda>x y. h_is_match t x y = 0) (shape_data (rs[i := (l, ys, z')] ! j))" if "j < length rs" for j
    using that rep data i by (cases "j = i") (simp_all add: hash_rep_def shape_data_def)
  ultimately show ?thesis
    using rep unfolding hash_rep_def by simp
qed

lemma hash_lookup_update:
  assumes "i < length rs"
  shows "hash_lookup t (rs[i := r]) k =
    (if h_func t k mod h_capacity t = i then find (\<lambda>d. h_is_match t d k \<noteq> 0) (shape_data r) else hash_lookup t rs k)"
  using assms by (simp add: hash_lookup_def)

lemma length_hash_data_update:
  "i < length rs \<Longrightarrow> length (hash_data (rs[i := r])) + length (shape_data (rs ! i)) =
     length (hash_data rs) + length (shape_data r)"
proof -
  assume i: "i < length rs"
  let ?f = "length \<circ> shape_data"
  have "sum_list ((map ?f rs)[i := ?f r]) = sum_list (map ?f rs) + ?f r - ?f (rs ! i)"
    using i by (subst sum_list_update) simp_all
  moreover have "?f (rs ! i) \<le> sum_list (map ?f rs)"
    using elem_le_sum_list [of i "map ?f rs"] i by simp
  ultimately show ?thesis
    by (simp add: hash_data_def length_concat map_update)
qed

lemma hash_contract_sym:
  "hash_rep m t rs \<Longrightarrow> h_is_match t x y \<noteq> 0 \<Longrightarrow> h_is_match t y x \<noteq> 0 \<and> h_func t y = h_func t x"
  unfolding hash_rep_def hash_contract_def by metis

lemma hash_contract_trans:
  "hash_rep m t rs \<Longrightarrow> h_is_match t x y \<noteq> 0 \<Longrightarrow> h_is_match t y z \<noteq> 0 \<Longrightarrow> h_is_match t x z \<noteq> 0"
  unfolding hash_rep_def hash_contract_def by metis

lemma HashTableInsert_rep:
  assumes rep: "hash_rep m t rs" and d: "d \<noteq> NULL" "hash_lookup t rs d = None"
    and fr: "fresh m a" and fuel: "length (hash_data rs) < fuel"
  shows "\<exists>m' r. HashTableInsert fuel (Some a) m t d = Inr (m', 0) \<and>
    hash_rep m' t (rs[h_func t d mod h_capacity t := r]) \<and>
    shape_data r = d # shape_data (rs ! (h_func t d mod h_capacity t))"
proof -
  let ?i = "h_func t d mod h_capacity t"
  obtain l xs z where r: "rs ! ?i = (l, xs, z)" by (cases "rs ! ?i") auto
  note i = hash_index [OF rep, of d]
  note B = hash_rep_nth [OF rep i r]
  have lk: "find (\<lambda>x. h_is_match t x d \<noteq> 0) (map snd xs) = None"
    using d(2) by (simp add: hash_lookup_def r shape_data_def)
  then have none: "\<forall>x \<in> set (map snd xs). h_is_match t x d = 0" by (simp add: find_None_iff)
  have "HashFindInBucket fuel m t l d = Inr z"
    using B d fuel none HashFindInBucket_rep [of m l xs z d fuel t]
      dropWhile_find [of "\<lambda>x. h_is_match t x d = 0" xs] lk by (elim disjE conjE exE) auto
  moreover from SLLInsert_at [of m l "[]" xs z a fuel d] B(2) fr obtain m' ys z' where
    ins: "SLLInsert fuel (Some a) m (first_of xs z) d = Inr (m', first_of xs z)" "sll_rep m' l ys z'"
      "map snd ys = d # map snd xs" "z' \<noteq> first_of xs z"
      "sll_foot l ys z' \<subseteq> sll_foot l xs z \<union> {a}" "sll_agree m m' (- (sll_foot l xs z \<union> {a}))" by auto
  moreover have "first_of xs z \<noteq> NULL" using chain_first_not_null sll_repD(2,6) [OF B(2)] by blast
  ultimately have call: "HashTableInsert fuel (Some a) m t d = Inr (m', 0)"
    using B d SLLIsEqual_end [of m l xs "[]" z] sll_repD(2) [OF ins(2)]
    by (simp add: HashTableInsert_def HashIndex_def SLLBegin_rep [OF B(2)] SLLEnd_rep [OF ins(2)] SLLIsEqual_def)
  have "hash_rep m' t (rs[?i := (l, ys, z')])"
  proof (rule hash_rep_update [OF rep i r ins(2) ins(5) _ ins(6)])
    show "{a} \<inter> (dom (nodes m) \<union> dom (lists m)) = {}" using fr by (auto simp: fresh_def)
    show "\<forall>x \<in> set (map snd ys). x \<noteq> NULL \<and> h_func t x mod h_capacity t = ?i"
      using B(5) d unfolding ins(3) by simp
    have "h_is_match t d x = 0" if "x \<in> set (map snd xs)" for x
      using hash_contract_sym [OF rep, of d x] none that by auto
    with B(6) show "sorted_wrt (\<lambda>x y. h_is_match t x y = 0) (map snd ys)"
      unfolding ins(3) by simp
  qed
  with call show ?thesis
    using ins(3) r by (intro exI [of _ m'] exI [of _ "(l, ys, z')"]) (simp add: shape_data_def)
qed

lemma HashTableRemove_rep:
  assumes rep: "hash_rep m t rs" and k: "k \<noteq> NULL" and fuel: "length (hash_data rs) < fuel"
  shows "(hash_lookup t rs k = None \<and> HashTableRemove fuel m t k = Inr m) \<or>
    (\<exists>m' r us d vs. hash_lookup t rs k = Some d \<and> h_is_match t d k \<noteq> 0 \<and> HashTableRemove fuel m t k = Inr m' \<and>
      hash_rep m' t (rs[h_func t k mod h_capacity t := r]) \<and>
      shape_data (rs ! (h_func t k mod h_capacity t)) = us @ d # vs \<and> shape_data r = us @ vs)"
proof -
  let ?i = "h_func t k mod h_capacity t" and ?P = "\<lambda>d. h_is_match t d k = 0"
  obtain l xs z where r: "rs ! ?i = (l, xs, z)" by (cases "rs ! ?i") auto
  note i = hash_index [OF rep, of k]
  note B = hash_rep_nth [OF rep i r]
  have lk: "hash_lookup t rs k = find (\<lambda>d. \<not> ?P d) (map snd xs)"
    by (simp add: hash_lookup_def r shape_data_def)
  have find: "HashFindInBucket fuel m t l k = Inr (first_of (dropWhile (\<lambda>(a, d). ?P d) xs) z)"
    using B k fuel by (intro HashFindInBucket_rep) auto
  consider "dropWhile (\<lambda>(a, d). ?P d) xs = []" "find (\<lambda>d. \<not> ?P d) (map snd xs) = None"
    | us a d vs where "xs = us @ (a, d) # vs" "dropWhile (\<lambda>(a, d). ?P d) xs = (a, d) # vs" "\<not> ?P d"
      "find (\<lambda>d. \<not> ?P d) (map snd xs) = Some d"
    using dropWhile_find [of ?P xs] by (elim disjE conjE exE) auto
  then show ?thesis
  proof cases
    case 1
    with B k find lk SLLIsEqual_end [of m l xs "[]" z] show ?thesis
      by (simp add: HashTableRemove_def HashIndex_def)
  next
    case (2 us a d vs)
    from SLLRemove_at [of m l us a d vs z] B(2) 2(1) obtain m' ys z' where
      rm: "SLLRemove m a = Inr (m', a)" "sll_rep m' l ys z'" "map snd ys = map snd us @ map snd vs"
      "sll_foot l ys z' \<subseteq> sll_foot l xs z \<union> {}" "sll_agree m m' (- (sll_foot l xs z \<union> {}))" by auto
    have "HashTableRemove fuel m t k = Inr m'"
      using B k find 2 rm(1) SLLIsEqual_end [of m l us "(a, d) # vs" z]
      by (simp add: HashTableRemove_def HashIndex_def)
    moreover have "hash_rep m' t (rs[?i := (l, ys, z')])"
    proof (rule hash_rep_update [OF rep i r rm(2) rm(4) _ rm(5)])
      show "\<forall>x \<in> set (map snd ys). x \<noteq> NULL \<and> h_func t x mod h_capacity t = ?i"
        "sorted_wrt (\<lambda>x y. h_is_match t x y = 0) (map snd ys)"
        using B(5,6) unfolding rm(3) 2(1) by (auto simp: sorted_wrt_append)
    qed simp
    ultimately show ?thesis using lk 2 r rm(3)
      by (intro disjI2 exI [of _ m'] exI [of _ "(l, ys, z')"] exI [of _ "map snd us"] exI [of _ d] exI [of _ "map snd vs"])
        (simp add: shape_data_def)
  qed
qed


section \<open>Traversals\<close>

lemma HashTableSize_loop_rep:
  "list_all (\<lambda>(l, xs, z). sll_rep m l xs z \<and> length xs < fuel) rs \<Longrightarrow>
   HashTableSize_loop fuel m (map fst rs) n = Inr (n + length (hash_data rs))"
proof (induction rs arbitrary: n)
  case (Cons r rs)
  obtain l xs z where r: "r = (l, xs, z)" by (cases r)
  with Cons show ?case
    by (auto simp: SLLCount_rep hash_data_def shape_data_def dest: sll_repD(1))
qed (simp add: hash_data_def)

lemma HashTableIsEmpty_loop_rep:
  "list_all (\<lambda>(l, xs, z). sll_rep m l xs z) rs \<Longrightarrow>
   HashTableIsEmpty_loop m (map fst rs) = Inr (hash_data rs = [])"
proof (induction rs)
  case (Cons r rs)
  obtain l xs z where r: "r = (l, xs, z)" by (cases r)
  with Cons show ?case by (auto simp: SLLIsEmpty_rep hash_data_def shape_data_def)
qed (simp add: hash_data_def)

lemma HashTableForEach_loop_rep:
  "list_all (\<lambda>(l, xs, z). sll_rep m l xs z \<and> length xs < fuel) rs \<Longrightarrow>
   HashTableForEach_loop fuel m (map fst rs) f s =
     Inr (case each_spec f (hash_data rs) s of (s', rc) \<Rightarrow> (s', if rc = 0 then 0 else 1))"
proof (induction rs arbitrary: s)
  case (Cons r rs)
  obtain l xs z where r: "r = (l, xs, z)" by (cases r)
  with Cons.prems have rep: "sll_rep m l xs z" "length xs < fuel" by simp_all
  note R = sll_repD [OF rep(1)]
  have "HashForEachBucket fuel m l f s = Inr (each_spec f (map snd xs) s)"
    using SLLForEach_chain [OF R(6) R(2) _ rep(2)] R(1,3)
    by (simp add: HashForEachBucket_def SLLBegin_rep [OF rep(1)] SLLEnd_rep [OF rep(1)])
  with Cons r R(1) show ?case
    by (auto simp: hash_data_def shape_data_def each_spec_append split: prod.splits)
qed (simp add: hash_data_def)

lemma hash_rep_all:
  assumes "hash_rep m t rs" "length (hash_data rs) < fuel"
  shows "list_all (\<lambda>(l, xs, z). sll_rep m l xs z \<and> length xs < fuel) rs"
  unfolding list_all_length
proof (intro allI impI)
  fix i
  assume "i < length rs"
  with hash_rep_nth [OF assms(1), of i] assms(2) show "case rs ! i of (l, xs, z) \<Rightarrow> sll_rep m l xs z \<and> length xs < fuel"
    by (cases "rs ! i") fastforce
qed

lemma hash_rep_buckets: "hash_rep m t rs \<Longrightarrow> h_buckets t = map fst rs"
  by (simp add: hash_rep_def)

lemma HashTableSize_rep:
  "hash_rep m t rs \<Longrightarrow> length (hash_data rs) < fuel \<Longrightarrow> HashTableSize fuel m t = Inr (length (hash_data rs))"
  using HashTableSize_loop_rep [OF hash_rep_all] by (simp add: HashTableSize_def hash_rep_buckets)

lemma HashTableIsEmpty_rep:
  assumes "hash_rep m t rs"
  shows "HashTableIsEmpty m t = Inr (hash_data rs = [])"
proof -
  have "list_all (\<lambda>(l, xs, z). sll_rep m l xs z) rs"
    using hash_rep_all [OF assms lessI] by (auto simp: list_all_iff)
  with assms show ?thesis using HashTableIsEmpty_loop_rep by (simp add: HashTableIsEmpty_def hash_rep_buckets)
qed

lemma HashTableForEach_rep:
  "hash_rep m t rs \<Longrightarrow> length (hash_data rs) < fuel \<Longrightarrow> HashTableForEach fuel m t f s =
     Inr (case each_spec f (hash_data rs) s of (s', rc) \<Rightarrow> (s', if rc = 0 then 0 else 1))"
  using HashTableForEach_loop_rep [OF hash_rep_all] by (simp add: HashTableForEach_def hash_rep_buckets)

section \<open>Refinement\<close>

lemma hash_remove_class:
  assumes rep: "hash_rep m t rs" and i: "h_func t k mod h_capacity t = i"
    and old: "shape_data (rs ! i) = us @ d # vs" and d: "h_is_match t d k \<noteq> 0"
  shows "find (\<lambda>x. h_is_match t x k' \<noteq> 0) (us @ vs) =
    (if h_is_match t k k' \<noteq> 0 then None else find (\<lambda>x. h_is_match t x k' \<noteq> 0) (us @ d # vs))"
proof (cases "h_is_match t k k' = 0")
  case True
  then have "h_is_match t d k' = 0"
    using hash_contract_sym [OF rep d] hash_contract_trans [OF rep, of k d k'] by blast
  with True show ?thesis by (induction us) simp_all
next
  case False
  have "i < length rs" using hash_index [OF rep, of k] i by simp
  then have uniq: "sorted_wrt (\<lambda>x y. h_is_match t x y = 0) (us @ d # vs)"
    using rep old by (auto simp: hash_rep_def)
  have dk: "h_is_match t d k' \<noteq> 0" using hash_contract_trans [OF rep d False] .
  have "h_is_match t x k' = 0" if x: "x \<in> set (us @ vs)" for x
  proof (rule ccontr)
    assume "h_is_match t x k' \<noteq> 0"
    then have "h_is_match t x d \<noteq> 0" "h_is_match t d x \<noteq> 0"
      using hash_contract_sym [OF rep] hash_contract_trans [OF rep] dk by blast+
    with x uniq show False by (auto simp: sorted_wrt_append)
  qed
  with False show ?thesis by (auto simp: find_None_iff)
qed

lemma hash_insert_sim:
  assumes rep: "hash_rep m t rs" and ok: "d \<noteq> NULL" "hash_lookup t rs d = None" "fresh m a"
    "length (hash_data rs) < fuel"
  shows "\<exists>m' rs'. HashTableInsert fuel (Some a) m t d = Inr (m', 0) \<and> hash_rep m' t rs' \<and>
    hash_lookup t rs' = (\<lambda>k. if h_is_match t d k \<noteq> 0 then Some d else hash_lookup t rs k) \<and>
    length (hash_data rs') = Suc (length (hash_data rs))"
proof -
  let ?i = "h_func t d mod h_capacity t"
  from HashTableInsert_rep [OF rep ok] obtain m' r where
    m': "HashTableInsert fuel (Some a) m t d = Inr (m', 0)" "hash_rep m' t (rs[?i := r])"
    "shape_data r = d # shape_data (rs ! ?i)" by blast
  note i = hash_index [OF rep, of d]
  have "hash_lookup t (rs[?i := r]) k = (if h_is_match t d k \<noteq> 0 then Some d else hash_lookup t rs k)" for k
    using hash_contract_sym [OF rep, of d k] m'(3) i
    by (cases "h_func t k mod h_capacity t = ?i") (auto simp: hash_lookup_update [OF i] hash_lookup_def)
  moreover have "length (hash_data (rs[?i := r])) = Suc (length (hash_data rs))"
    using length_hash_data_update [OF i, of r] m'(3) by simp
  ultimately show ?thesis using m' by blast
qed

lemma hash_remove_sim:
  assumes rep: "hash_rep m t rs" and ok: "k0 \<noteq> NULL" "length (hash_data rs) < fuel"
  shows "\<exists>m' rs'. HashTableRemove fuel m t k0 = Inr m' \<and> hash_rep m' t rs' \<and>
    hash_lookup t rs' = (\<lambda>k. if h_is_match t k0 k \<noteq> 0 then None else hash_lookup t rs k) \<and>
    length (hash_data rs') = (if hash_lookup t rs k0 = None then length (hash_data rs) else length (hash_data rs) - 1)"
proof -
  let ?i = "h_func t k0 mod h_capacity t"
  note i = hash_index [OF rep, of k0]
  consider "hash_lookup t rs k0 = None" "HashTableRemove fuel m t k0 = Inr m"
    | m' r us d vs where "hash_lookup t rs k0 = Some d" "h_is_match t d k0 \<noteq> 0" "HashTableRemove fuel m t k0 = Inr m'"
      "hash_rep m' t (rs[?i := r])" "shape_data (rs ! ?i) = us @ d # vs" "shape_data r = us @ vs"
    using HashTableRemove_rep [OF rep ok] by (elim disjE conjE exE) auto
  then show ?thesis
  proof cases
    case 1
    have "hash_lookup t rs k = None" if "h_is_match t k0 k \<noteq> 0" for k
    proof -
      have "h_func t k = h_func t k0" using hash_contract_sym [OF rep that] by simp
      moreover have "h_is_match t x k = 0" if "h_is_match t x k0 = 0" for x
        using hash_contract_sym [OF rep \<open>h_is_match t k0 k \<noteq> 0\<close>] hash_contract_trans [OF rep, of x k k0] that by blast
      ultimately show ?thesis using 1(1) by (auto simp: hash_lookup_def find_None_iff)
    qed
    then have "hash_lookup t rs = (\<lambda>k. if h_is_match t k0 k \<noteq> 0 then None else hash_lookup t rs k)" by auto
    with 1 rep show ?thesis by auto
  next
    case (2 m' r us d vs)
    have "hash_lookup t (rs[?i := r]) k = (if h_is_match t k0 k \<noteq> 0 then None else hash_lookup t rs k)" for k
    proof (cases "h_func t k mod h_capacity t = ?i")
      case True
      with hash_remove_class [OF rep refl 2(5,2), of k] show ?thesis
        using i by (simp add: hash_lookup_def 2(5,6))
    next
      case False
      then show ?thesis using hash_contract_sym [OF rep, of k0 k] by (auto simp: hash_lookup_update [OF i])
    qed
    moreover have "length (hash_data (rs[?i := r])) = length (hash_data rs) - 1"
      using length_hash_data_update [OF i, of r] 2(5,6) by simp
    ultimately show ?thesis using 2(1,3,4) by (intro exI [of _ m'] exI [of _ "rs[?i := r]"]) auto
  qed
qed

text \<open>For every pair of callbacks the table implements the finite map.\<close>

interpretation hash_refines: rel_refinement "hash_rel mt" "hash_step fuel" "hash_spec mt" "hash_ok fuel" for mt fuel
proof
  fix s a c
  assume rel: "hash_rel mt s a" and ok: "hash_ok fuel c s a"
  obtain m t where s: "s = (m, t)" by force
  from rel s obtain rs where rs: "hash_rep m t rs" "a = (hash_lookup t rs, length (hash_data rs))" "h_is_match t = mt"
    by (auto simp: hash_rel_def)
  show "\<exists>s'. hash_step fuel c s = Inr (s', snd (hash_spec mt c a)) \<and> hash_rel mt s' (fst (hash_spec mt c a))"
  proof (cases c)
    case (H_Insert p d)
    with hash_insert_sim [OF rs(1), of d p fuel] ok s rs(2) obtain m' rs' where
      "HashTableInsert fuel (Some p) m t d = Inr (m', 0)" "hash_rep m' t rs'"
      "hash_lookup t rs' = (\<lambda>k. if h_is_match t d k \<noteq> 0 then Some d else hash_lookup t rs k)"
      "length (hash_data rs') = Suc (length (hash_data rs))" by auto
    with H_Insert s rs show ?thesis by (auto simp: hash_rel_def intro!: exI [of _ rs'])
  next
    case (H_Remove k0)
    with hash_remove_sim [OF rs(1), of k0 fuel] ok s rs(2) obtain m' rs' where
      "HashTableRemove fuel m t k0 = Inr m'" "hash_rep m' t rs'"
      "hash_lookup t rs' = (\<lambda>k. if h_is_match t k0 k \<noteq> 0 then None else hash_lookup t rs k)"
      "length (hash_data rs') = (if hash_lookup t rs k0 = None then length (hash_data rs) else length (hash_data rs) - 1)"
      by auto
    with H_Remove s rs show ?thesis by (auto simp: hash_rel_def intro!: exI [of _ rs'])
  next
    case (H_Find k)
    with HashTableFind_rep [OF rs(1), of k fuel] ok s rs rel show ?thesis by simp
  next
    case H_Size
    with HashTableSize_rep [OF rs(1), of fuel] ok s rs rel show ?thesis by simp
  next
    case H_IsEmpty
    with HashTableIsEmpty_rep [OF rs(1)] ok s rs rel show ?thesis by simp
  qed
qed

section \<open>Creation and destruction\<close>

definition node_foot :: "sll_shape \<Rightarrow> ptr set" where
  "node_foot r = (case r of (l, xs, z) \<Rightarrow> insert z (fst ` set xs))"

lemma sll_erase_comp: "sll_erase A (sll_erase B h) = sll_erase (B \<union> A) h"
  by (auto simp: sll_erase_def)

lemma sll_erase_single: "h(a := None) = sll_erase {a} h"
  by (auto simp: sll_erase_def)

lemma HashFreeBuckets_loop_rep:
  assumes "distinct is" "\<forall>i \<in> set is. i < length buckets \<and> buckets ! i = fst (R i) \<and>
      (case R i of (l, xs, z) \<Rightarrow> sll_rep m l xs z \<and> Suc (length xs) < fuel)"
    "\<forall>i \<in> set is. \<forall>j \<in> set is. i \<noteq> j \<longrightarrow>
      (case R i of (l, xs, z) \<Rightarrow> sll_foot l xs z) \<inter> (case R j of (l, xs, z) \<Rightarrow> sll_foot l xs z) = {}"
  shows "\<exists>bs. HashFreeBuckets_loop fuel m buckets is =
    Inr (\<lparr>nodes = sll_erase (\<Union>i \<in> set is. node_foot (R i)) (nodes m),
          lists = sll_erase ((\<lambda>i. fst (R i)) ` set is) (lists m)\<rparr>, bs)"
  using assms
proof (induction "is" arbitrary: m buckets)
  case Nil
  then show ?case by (simp add: sll_erase_def)
next
  case (Cons i "is")
  obtain l xs z where r: "R i = (l, xs, z)" by (cases "R i")
  with Cons.prems(2) have i: "i < length buckets" "buckets ! i = l" "sll_rep m l xs z" "Suc (length xs) < fuel"
    by auto
  let ?m1 = "\<lparr>nodes = sll_erase (insert z (fst ` set xs)) (nodes m), lists = (lists m)(l := None)\<rparr>"
  have other: "case R j of (l, xs, z) \<Rightarrow> sll_rep ?m1 l xs z" if "j \<in> set is" for j
  proof -
    obtain l' xs' z' where rj: "R j = (l', xs', z')" by (cases "R j")
    have "j \<noteq> i" using that Cons.prems(1) by auto
    moreover have "i \<noteq> j \<longrightarrow> (case R i of (l, xs, z) \<Rightarrow> sll_foot l xs z) \<inter> (case R j of (l, xs, z) \<Rightarrow> sll_foot l xs z) = {}"
      using Cons.prems(3) that by simp
    ultimately have "sll_foot l xs z \<inter> sll_foot l' xs' z' = {}" using r rj by simp
    then have "sll_agree m ?m1 (sll_foot l' xs' z')"
      by (auto simp: sll_agree_def sll_erase_def sll_foot_def)
    moreover have "sll_rep m l' xs' z'" using Cons.prems(2) that rj by auto
    ultimately show ?thesis using rj sll_rep_agree by auto
  qed
  have "\<exists>bs. HashFreeBuckets_loop fuel ?m1 (buckets[i := NULL]) is =
      Inr (\<lparr>nodes = sll_erase (\<Union>i \<in> set is. node_foot (R i)) (nodes ?m1),
            lists = sll_erase ((\<lambda>i. fst (R i)) ` set is) (lists ?m1)\<rparr>, bs)"
  proof (rule Cons.IH)
    show "distinct is" using Cons.prems(1) by simp
    show "\<forall>j \<in> set is. j < length (buckets[i := NULL]) \<and> buckets[i := NULL] ! j = fst (R j) \<and>
        (case R j of (l, xs, z) \<Rightarrow> sll_rep ?m1 l xs z \<and> Suc (length xs) < fuel)"
      using Cons.prems(1,2) other by (fastforce simp: nth_list_update)
    show "\<forall>i \<in> set is. \<forall>j \<in> set is. i \<noteq> j \<longrightarrow>
        (case R i of (l, xs, z) \<Rightarrow> sll_foot l xs z) \<inter> (case R j of (l, xs, z) \<Rightarrow> sll_foot l xs z) = {}"
      using Cons.prems(3) by simp
  qed
  then show ?case
    using i r SLLDestroy_rep [OF i(3,4)] sll_repD(1) [OF i(3)]
    by (simp add: sll_erase_single sll_erase_comp node_foot_def)
qed

text \<open>Destroying a table frees its lists, and nothing else.\<close>

lemma HashTableDestroy_rep:
  assumes rep: "hash_rep m t rs" and fuel: "Suc (length (hash_data rs)) < fuel"
  shows "HashTableDestroy fuel m t = Inr
    \<lparr>nodes = sll_erase (\<Union> (node_foot ` set rs)) (nodes m), lists = sll_erase (fst ` set rs) (lists m)\<rparr>"
proof -
  have len: "length rs = h_capacity t" "length (h_buckets t) = h_capacity t" using rep by (auto simp: hash_rep_def)
  have sets: "(\<Union>i < h_capacity t. node_foot (rs ! i)) = \<Union> (node_foot ` set rs)"
    "(\<lambda>i. fst (rs ! i)) ` {..<h_capacity t} = fst ` set rs"
    using len by (auto simp: set_conv_nth image_iff)
  have "case rs ! i of (l, xs, z) \<Rightarrow> sll_rep m l xs z \<and> Suc (length xs) < fuel" if "i < h_capacity t" for i
    using hash_rep_all [OF rep, of "fuel - 1"] that len fuel
    by (auto simp: list_all_length split: prod.splits) fastforce+
  then have "\<exists>bs. HashFreeBuckets_loop fuel m (h_buckets t) [0..<h_capacity t] =
    Inr (\<lparr>nodes = sll_erase (\<Union>i \<in> set [0..<h_capacity t]. node_foot (rs ! i)) (nodes m),
          lists = sll_erase ((\<lambda>i. fst (rs ! i)) ` set [0..<h_capacity t]) (lists m)\<rparr>, bs)"
    using rep len by (intro HashFreeBuckets_loop_rep) (auto simp: hash_rep_def sll_framed.family_def)
  then show ?thesis using sets by (auto simp: HashTableDestroy_def atLeast0LessThan)
qed


text \<open>
  Creation: after \<open>k\<close> lists the store is the initial one with \<open>k\<close> empty lists at the
  addresses the allocator gave.
\<close>

definition create_inv :: "sll_mem \<Rightarrow> (nat \<Rightarrow> ptr) \<Rightarrow> (nat \<Rightarrow> ptr) \<Rightarrow> nat \<Rightarrow> sll_mem \<Rightarrow> bool" where
  "create_inv m0 L Z k m \<longleftrightarrow>
     (\<forall>p. p \<notin> Z ` {..<k} \<longrightarrow> nodes m p = nodes m0 p) \<and> (\<forall>p. p \<notin> L ` {..<k} \<longrightarrow> lists m p = lists m0 p) \<and>
     (\<forall>j < k. nodes m (Z j) = Some \<lparr>n_data = L j, n_next = NULL\<rparr> \<and>
              lists m (L j) = Some \<lparr>l_head = Z j, l_tail = Z j\<rparr>)"

text \<open>The allocator hands out fresh addresses, all different.\<close>

definition fresh_answers :: "sll_mem \<Rightarrow> (nat \<Rightarrow> ptr) \<Rightarrow> (nat \<Rightarrow> ptr) \<Rightarrow> nat \<Rightarrow> bool" where
  "fresh_answers m L Z n \<longleftrightarrow> (\<forall>i < n. fresh m (L i) \<and> fresh m (Z i)) \<and>
     (\<forall>i < n. \<forall>j < n. L i \<noteq> Z j \<and> (i \<noteq> j \<longrightarrow> L i \<noteq> L j \<and> Z i \<noteq> Z j))"

lemma create_inv_step:
  assumes "create_inv m0 L Z k m" "fresh_answers m0 L Z (Suc k)"
  shows "\<exists>m'. SLLCreate (Some (L k)) (Some (Z k)) m = (m', L k) \<and> create_inv m0 L Z (Suc k) m'"
  using assms
  by (auto simp: SLLCreate_def store_node_def create_inv_def fresh_answers_def less_Suc_eq Let_def lessThan_Suc)

lemma fresh_answers_mono: "fresh_answers m L Z n \<Longrightarrow> k \<le> n \<Longrightarrow> fresh_answers m L Z k"
  by (simp add: fresh_answers_def)

lemma HashTableCreate_loop_run:
  assumes "create_inv m0 L Z i m" "fresh_answers m0 L Z k" "i \<le> k" "k \<le> n" "length buckets = n"
    "\<forall>j < i. buckets ! j = L j" "\<forall>j < k. al j = Some (L j) \<and> ad j = Some (Z j)"
  shows "\<exists>m' bs. HashTableCreate_loop fuel al ad m buckets [i..<n] = HashTableCreate_loop fuel al ad m' bs [k..<n] \<and>
    create_inv m0 L Z k m' \<and> length bs = n \<and> (\<forall>j < k. bs ! j = L j)"
  using assms
proof (induction "k - i" arbitrary: i m buckets)
  case 0
  then have "i = k" by simp
  with 0 show ?case by blast
next
  case (Suc d)
  then have i: "i < k" "i < n" by linarith+
  from create_inv_step [OF Suc.prems(1)] fresh_answers_mono [OF Suc.prems(2)] i obtain m1 where
    m1: "SLLCreate (Some (L i)) (Some (Z i)) m = (m1, L i)" "create_inv m0 L Z (Suc i) m1" by (meson Suc_leI)
  have "L i \<noteq> NULL" using Suc.prems(2) i by (auto simp: fresh_answers_def fresh_def)
  then have step: "HashTableCreate_loop fuel al ad m buckets [i..<n] =
      HashTableCreate_loop fuel al ad m1 (buckets[i := L i]) [Suc i..<n]"
    using m1(1) i Suc.prems(7) by (simp add: upt_conv_Cons)
  have "\<exists>m' bs. HashTableCreate_loop fuel al ad m1 (buckets[i := L i]) [Suc i..<n] =
      HashTableCreate_loop fuel al ad m' bs [k..<n] \<and>
      create_inv m0 L Z k m' \<and> length bs = n \<and> (\<forall>j < k. bs ! j = L j)"
  proof (rule Suc.hyps(1))
    show "\<forall>j < Suc i. buckets[i := L i] ! j = L j"
      using Suc.prems(5,6) i by (auto simp: less_Suc_eq nth_list_update)
  qed (use Suc m1(2) i in auto)
  with step show ?case by simp
qed

lemma create_inv_rep:
  assumes "create_inv m0 L Z k m" "fresh_answers m0 L Z k" "j < k"
  shows "sll_rep m (L j) [] (Z j)"
  using assms by (auto simp: create_inv_def fresh_answers_def sll_rep_def fresh_def)

lemma create_inv_erase:
  assumes inv: "create_inv m0 L Z k m" and fr: "fresh_answers m0 L Z k"
  shows "sll_erase (\<Union>i < k. node_foot (L i, [], Z i)) (nodes m) = nodes m0"
    "sll_erase ((\<lambda>i. fst (L i, [] :: (ptr \<times> ptr) list, Z i)) ` {..<k}) (lists m) = lists m0"
proof -
  have "nodes m0 p = None" if "p \<in> Z ` {..<k}" for p using that fr by (auto simp: fresh_answers_def fresh_def)
  moreover have "lists m0 p = None" if "p \<in> L ` {..<k}" for p
    using that fr by (auto simp: fresh_answers_def fresh_def)
  ultimately show "sll_erase (\<Union>i < k. node_foot (L i, [], Z i)) (nodes m) = nodes m0"
    "sll_erase ((\<lambda>i. fst (L i, [] :: (ptr \<times> ptr) list, Z i)) ` {..<k}) (lists m) = lists m0"
    using inv by (auto simp: sll_erase_def create_inv_def node_foot_def fun_eq_iff image_iff)
qed

lemma HashTableCreate_ok:
  assumes "0 < n" "fresh_answers m L Z n" "\<forall>j < n. al j = Some (L j) \<and> ad j = Some (Z j)"
    "hash_contract \<lparr>h_capacity = n, h_func = hf, h_is_match = mt, h_buckets = map L [0..<n]\<rparr>"
  shows "\<exists>m' t. HashTableCreate fuel True True al ad m hf n mt = Inr (m', Some t) \<and>
    hash_rel mt (m', t) (\<lambda>k. None, 0) \<and> h_func t = hf"
proof -
  have "create_inv m L Z 0 m" by (simp add: create_inv_def)
  from HashTableCreate_loop_run [OF this assms(2), of n "replicate n NULL" al ad fuel] assms(3) obtain m' bs where
    loop: "HashTableCreate_loop fuel al ad m (replicate n NULL) [0..<n] = Inr (m', Some bs)"
    "create_inv m L Z n m'" "length bs = n" "\<forall>j < n. bs ! j = L j" by auto
  then have bs: "bs = map L [0..<n]" by (simp add: list_eq_iff_nth_eq)
  let ?t = "\<lparr>h_capacity = n, h_func = hf, h_is_match = mt, h_buckets = bs\<rparr>"
  let ?rs = "map (\<lambda>j. (L j, [], Z j)) [0..<n]"
  have "sll_framed.family m' ?rs"
    using create_inv_rep [OF loop(2) assms(2)] assms(2)
    unfolding sll_framed.family_def by (auto simp: sll_foot_def fresh_answers_def)
  with assms(1,4) bs have "hash_rep m' ?t ?rs" by (simp add: hash_rep_def shape_data_def comp_def)
  moreover have "hash_lookup ?t ?rs = (\<lambda>k. None)" "hash_data ?rs = []"
    using assms(1) by (auto simp: hash_lookup_def hash_data_def shape_data_def)
  ultimately have "hash_rel mt (m', ?t) (\<lambda>k. None, 0)" by (auto simp: hash_rel_def intro!: exI [of _ ?rs])
  with loop(1) assms(1) show ?thesis by (simp add: HashTableCreate_def)
qed

text \<open>When the allocation for list \<open>k\<close> fails, everything allocated before it is released.\<close>

lemma HashTableCreate_no_leak:
  assumes "k < n" "fresh_answers m L Z k" "\<forall>j < k. al j = Some (L j) \<and> ad j = Some (Z j)"
    "al k = None \<or> ad k = None" "\<forall>l. al k = Some l \<longrightarrow> fresh m l \<and> l \<notin> L ` {..<k}" "1 < fuel"
  shows "HashTableCreate fuel True True al ad m hf n mt = Inr (m, None)"
proof -
  have "create_inv m L Z 0 m" by (simp add: create_inv_def)
  from HashTableCreate_loop_run [OF this assms(2), of n "replicate n NULL" al ad fuel] assms(1,3) obtain m1 bs where
    run: "HashTableCreate_loop fuel al ad m (replicate n NULL) [0..<n] = HashTableCreate_loop fuel al ad m1 bs [k..<n]"
    "create_inv m L Z k m1" "length bs = n" "\<forall>j < k. bs ! j = L j" by auto
  have "SLLCreate (al k) (ad k) m1 = (m1, NULL)"
    using assms(4,5) run(2) by (intro SLLCreate_fails) (auto simp: create_inv_def fresh_def)
  moreover have "\<exists>bs'. HashFreeBuckets_loop fuel m1 (bs[k := NULL]) [0..<k] =
      Inr (\<lparr>nodes = sll_erase (\<Union>i \<in> set [0..<k]. node_foot (L i, [], Z i)) (nodes m1),
            lists = sll_erase ((\<lambda>i. fst (L i, [] :: (ptr \<times> ptr) list, Z i)) ` set [0..<k]) (lists m1)\<rparr>, bs')"
    using create_inv_rep [OF run(2) assms(2)] run(3,4) assms(1,2,6)
    by (intro HashFreeBuckets_loop_rep [where R = "\<lambda>i. (L i, [], Z i)"])
      (auto simp: sll_foot_def fresh_answers_def)
  then have "\<exists>bs'. HashFreeBucketsUpTo fuel m1 (bs[k := NULL]) k = Inr (m, bs')"
    unfolding HashFreeBucketsUpTo_def set_upt atLeast0LessThan create_inv_erase [OF run(2) assms(2)] by (cases m) simp
  ultimately show ?thesis
    using run(1) assms(1) by (auto simp: HashTableCreate_def upt_conv_Cons)
qed

end
