(* ===== verification/DLL.thy ===== *)
theory DLL
  imports Prelude
begin

text \<open>
  The doubly linked list of \<open>ds/src/dll.c\<close> on a store of nodes. The struct of a list holds its
  two sentinel nodes: the head at the address of the struct, the tail behind it. The lemmas
  give the effect of every operation on the represented list and show that only nodes next to
  the operation change.
\<close>

section \<open>Definitions\<close>

record dll_node =
  d_data :: ptr
  d_next :: ptr
  d_prev :: ptr

type_synonym dll_mem = "ptr \<Rightarrow> dll_node option"
type_synonym dll_iter_t = ptr

text \<open>\<open>&list->head\<close> and \<open>&list->tail\<close>: a node takes three words.\<close>

definition dll_head :: "ptr \<Rightarrow> ptr" where
  "dll_head list = list"

definition dll_tail :: "ptr \<Rightarrow> ptr" where
  "dll_tail list = list + 24"

definition load_dnode :: "dll_mem \<Rightarrow> ptr \<Rightarrow> dll_node result" where
  "load_dnode m p = (if p = NULL then Inl Bad_access else fetch (m p))"

definition JoinNode :: "dll_mem \<Rightarrow> ptr \<Rightarrow> ptr \<Rightarrow> dll_mem result" where
  "JoinNode m left right =
     bindE (assertE (left \<noteq> NULL \<and> right \<noteq> NULL)) (\<lambda>_.
     bindE (load_dnode m left) (\<lambda>l.
     let m1 = m(left \<mapsto> l\<lparr>d_next := right\<rparr>)
     in bindE (load_dnode m1 right) (\<lambda>r. Inr (m1(right \<mapsto> r\<lparr>d_prev := left\<rparr>)))))"

definition InsertBetween :: "dll_mem \<Rightarrow> ptr \<Rightarrow> ptr \<Rightarrow> ptr \<Rightarrow> dll_mem result" where
  "InsertBetween m left right new_node =
     bindE (JoinNode m left new_node) (\<lambda>m1. JoinNode m1 new_node right)"

definition dll_free :: "dll_mem \<Rightarrow> ptr \<Rightarrow> dll_mem result" where
  "dll_free m p = (if m p = None then Inl Bad_free else Inr (m(p := None)))"

definition RemoveNode :: "dll_mem \<Rightarrow> ptr \<Rightarrow> (dll_mem \<times> dll_iter_t) result" where
  "RemoveNode m node =
     bindE (load_dnode m node) (\<lambda>n.
     let next = d_next n
     in bindE (JoinNode m (d_prev n) (d_next n)) (\<lambda>m1.
        bindE (dll_free m1 node) (\<lambda>m2. Inr (m2, next))))"

definition IsHead :: "dll_mem \<Rightarrow> dll_iter_t \<Rightarrow> bool result" where
  "IsHead m iter = bindE (load_dnode m iter) (\<lambda>n. Inr (NULL = d_prev n))"

definition IsTail :: "dll_mem \<Rightarrow> dll_iter_t \<Rightarrow> bool result" where
  "IsTail m iter = bindE (load_dnode m iter) (\<lambda>n. Inr (NULL = d_next n))"

text \<open>The three assertions on an iterator that must point to an element.\<close>

definition assert_element :: "dll_mem \<Rightarrow> dll_iter_t \<Rightarrow> unit result" where
  "assert_element m iter =
     bindE (assertE (iter \<noteq> NULL)) (\<lambda>_.
     bindE (IsHead m iter) (\<lambda>h. bindE (assertE (\<not> h)) (\<lambda>_.
     bindE (IsTail m iter) (\<lambda>t. assertE (\<not> t)))))"

text \<open>The sentinels' unset fields hold whatever \<open>malloc\<close> returned until \<open>JoinNode\<close> sets them.\<close>

definition DLLCreate :: "ptr option \<Rightarrow> ptr \<Rightarrow> dll_mem \<Rightarrow> (dll_mem \<times> ptr) result" where
  "DLLCreate a junk m =
     (case a of
        None \<Rightarrow> Inr (m, NULL)
      | Some list \<Rightarrow>
          let m1 = m(dll_head list \<mapsto> \<lparr>d_data = NULL, d_next = junk, d_prev = NULL\<rparr>,
                     dll_tail list \<mapsto> \<lparr>d_data = NULL, d_next = NULL, d_prev = junk\<rparr>)
          in bindE (JoinNode m1 (dll_head list) (dll_tail list)) (\<lambda>m2. Inr (m2, list)))"

definition DLLBegin :: "dll_mem \<Rightarrow> ptr \<Rightarrow> dll_iter_t result" where
  "DLLBegin m list =
     bindE (assertE (list \<noteq> NULL)) (\<lambda>_. bindE (load_dnode m (dll_head list)) (\<lambda>h. Inr (d_next h)))"

definition DLLEnd :: "ptr \<Rightarrow> dll_iter_t result" where
  "DLLEnd list = bindE (assertE (list \<noteq> NULL)) (\<lambda>_. Inr (dll_tail list))"

definition DLLNext :: "dll_mem \<Rightarrow> dll_iter_t \<Rightarrow> dll_iter_t result" where
  "DLLNext m iter = bindE (assertE (iter \<noteq> NULL)) (\<lambda>_. bindE (load_dnode m iter) (\<lambda>n. Inr (d_next n)))"

definition DLLPrev :: "dll_mem \<Rightarrow> dll_iter_t \<Rightarrow> dll_iter_t result" where
  "DLLPrev m iter = bindE (assertE (iter \<noteq> NULL)) (\<lambda>_. bindE (load_dnode m iter) (\<lambda>n. Inr (d_prev n)))"

definition DLLIsEqual :: "dll_iter_t \<Rightarrow> dll_iter_t \<Rightarrow> bool result" where
  "DLLIsEqual iter1 iter2 =
     bindE (assertE (iter1 \<noteq> NULL)) (\<lambda>_. bindE (assertE (iter2 \<noteq> NULL)) (\<lambda>_. Inr (iter1 = iter2)))"

definition DLLGetData :: "dll_mem \<Rightarrow> dll_iter_t \<Rightarrow> ptr result" where
  "DLLGetData m iter = bindE (assert_element m iter) (\<lambda>_. bindE (load_dnode m iter) (\<lambda>n. Inr (d_data n)))"

definition DLLSetData :: "dll_mem \<Rightarrow> dll_iter_t \<Rightarrow> ptr \<Rightarrow> dll_mem result" where
  "DLLSetData m iter data =
     bindE (assert_element m iter) (\<lambda>_. bindE (load_dnode m iter) (\<lambda>n. Inr (m(iter \<mapsto> n\<lparr>d_data := data\<rparr>))))"

text \<open>\<open>CreateNode\<close> with the answer of \<open>malloc\<close>; NULL when there is no memory.\<close>

definition CreateNode :: "ptr option \<Rightarrow> dll_mem \<Rightarrow> ptr \<Rightarrow> dll_mem \<times> ptr" where
  "CreateNode a m data =
     (case a of
        None \<Rightarrow> (m, NULL)
      | Some new_node \<Rightarrow> (m(new_node \<mapsto> \<lparr>d_data = data, d_next = NULL, d_prev = NULL\<rparr>), new_node))"

definition DLLInsert :: "ptr option \<Rightarrow> dll_mem \<Rightarrow> ptr \<Rightarrow> dll_iter_t \<Rightarrow> ptr \<Rightarrow> (dll_mem \<times> dll_iter_t) result" where
  "DLLInsert a m list where' data =
     bindE (assertE (list \<noteq> NULL)) (\<lambda>_.
     bindE (assertE (where' \<noteq> NULL)) (\<lambda>_.
     bindE (IsHead m where') (\<lambda>h.
     bindE (assertE (\<not> h)) (\<lambda>_.
     let (m1, to_insert) = CreateNode a m data
     in if to_insert = NULL then bindE (DLLEnd list) (\<lambda>e. Inr (m1, e))
        else bindE (load_dnode m1 where') (\<lambda>w.
             bindE (InsertBetween m1 (d_prev w) where' to_insert) (\<lambda>m2. Inr (m2, to_insert)))))))"

definition DLLRemove :: "dll_mem \<Rightarrow> dll_iter_t \<Rightarrow> (dll_mem \<times> dll_iter_t) result" where
  "DLLRemove m to_remove = bindE (assert_element m to_remove) (\<lambda>_. RemoveNode m to_remove)"

definition DLLIsEmpty :: "dll_mem \<Rightarrow> ptr \<Rightarrow> bool result" where
  "DLLIsEmpty m list = bindE (DLLBegin m list) (\<lambda>b. bindE (DLLEnd list) (DLLIsEqual b))"

definition DLLPushFront :: "ptr option \<Rightarrow> dll_mem \<Rightarrow> ptr \<Rightarrow> ptr \<Rightarrow> (dll_mem \<times> dll_iter_t) result" where
  "DLLPushFront a m list data = bindE (DLLBegin m list) (\<lambda>b. DLLInsert a m list b data)"

definition DLLPushBack :: "ptr option \<Rightarrow> dll_mem \<Rightarrow> ptr \<Rightarrow> ptr \<Rightarrow> (dll_mem \<times> dll_iter_t) result" where
  "DLLPushBack a m list data = bindE (DLLEnd list) (\<lambda>e. DLLInsert a m list e data)"

definition DLLPopFront :: "dll_mem \<Rightarrow> ptr \<Rightarrow> (dll_mem \<times> ptr) result" where
  "DLLPopFront m list =
     bindE (DLLIsEmpty m list) (\<lambda>empty. bindE (assertE (\<not> empty)) (\<lambda>_.
     bindE (DLLBegin m list) (\<lambda>b.
     bindE (DLLGetData m b) (\<lambda>data.
     bindE (DLLRemove m b) (\<lambda>(m', _). Inr (m', data))))))"

definition DLLPopBack :: "dll_mem \<Rightarrow> ptr \<Rightarrow> (dll_mem \<times> ptr) result" where
  "DLLPopBack m list =
     bindE (DLLIsEmpty m list) (\<lambda>empty. bindE (assertE (\<not> empty)) (\<lambda>_.
     bindE (bindE (DLLEnd list) (DLLPrev m)) (\<lambda>back.
     bindE (DLLGetData m back) (\<lambda>data.
     bindE (DLLRemove m back) (\<lambda>(m', _). Inr (m', data))))))"

fun DLLDestroy_loop :: "nat \<Rightarrow> dll_mem \<Rightarrow> ptr \<Rightarrow> dll_mem result" where
  "DLLDestroy_loop 0 m list = Inl Out_of_fuel"
| "DLLDestroy_loop (Suc fuel) m list =
     bindE (DLLIsEmpty m list) (\<lambda>empty.
     if \<not> empty
     then bindE (DLLBegin m list) (\<lambda>b. bindE (DLLRemove m b) (\<lambda>(m', _). DLLDestroy_loop fuel m' list))
     else Inr m)"

text \<open>Freeing the struct frees both sentinels.\<close>

definition DLLDestroy :: "nat \<Rightarrow> dll_mem \<Rightarrow> ptr \<Rightarrow> dll_mem result" where
  "DLLDestroy fuel m list =
     bindE (assertE (list \<noteq> NULL)) (\<lambda>_.
     bindE (DLLDestroy_loop fuel m list) (\<lambda>m'.
     if m' (dll_head list) = None then Inl Bad_free
     else Inr (m'(dll_head list := None, dll_tail list := None))))"

fun DLLFind_loop :: "nat \<Rightarrow> dll_mem \<Rightarrow> dll_iter_t \<Rightarrow> dll_iter_t \<Rightarrow> (ptr \<Rightarrow> 'p \<Rightarrow> int) \<Rightarrow> 'p \<Rightarrow> dll_iter_t result" where
  "DLLFind_loop 0 m from to is_match param = Inl Out_of_fuel"
| "DLLFind_loop (Suc fuel) m from to is_match param =
     bindE (DLLIsEqual from to) (\<lambda>eq.
     if eq then Inr from
     else bindE (DLLGetData m from) (\<lambda>d.
          if is_match d param \<noteq> 0 then Inr from
          else bindE (DLLNext m from) (\<lambda>next. DLLFind_loop fuel m next to is_match param)))"

definition DLLFind :: "nat \<Rightarrow> dll_mem \<Rightarrow> dll_iter_t \<Rightarrow> dll_iter_t \<Rightarrow> (ptr \<Rightarrow> 'p \<Rightarrow> int) \<Rightarrow> 'p \<Rightarrow> dll_iter_t result" where
  "DLLFind fuel m from to is_match param =
     bindE (assertE (from \<noteq> NULL)) (\<lambda>_. bindE (assertE (to \<noteq> NULL)) (\<lambda>_.
     DLLFind_loop fuel m from to is_match param))"

text \<open>\<open>a n\<close> is what \<open>malloc\<close> answers to the insertion number \<open>n\<close>.\<close>

fun DLLMultiFind_loop :: "nat \<Rightarrow> (nat \<Rightarrow> ptr option) \<Rightarrow> dll_mem \<Rightarrow> dll_iter_t \<Rightarrow> dll_iter_t \<Rightarrow>
    (ptr \<Rightarrow> 'p \<Rightarrow> int) \<Rightarrow> 'p \<Rightarrow> ptr \<Rightarrow> nat \<Rightarrow> (dll_mem \<times> int) result" where
  "DLLMultiFind_loop 0 a m from to is_match param output cnt = Inl Out_of_fuel"
| "DLLMultiFind_loop (Suc fuel) a m from to is_match param output cnt =
     bindE (DLLIsEqual from to) (\<lambda>eq.
     if eq then Inr (m, 0)
     else bindE (DLLGetData m from) (\<lambda>d.
          if is_match d param \<noteq> 0
          then bindE (DLLPushBack (a cnt) m output d) (\<lambda>(m1, iter).
               bindE (bindE (DLLEnd output) (DLLIsEqual iter)) (\<lambda>failed.
               if failed then Inr (m1, if cnt = 0 then -1 else -2)
               else bindE (DLLNext m1 from) (\<lambda>next.
                    DLLMultiFind_loop fuel a m1 next to is_match param output (cnt + 1))))
          else bindE (DLLNext m from) (\<lambda>next.
               DLLMultiFind_loop fuel a m next to is_match param output cnt)))"

definition DLLMultiFind :: "nat \<Rightarrow> (nat \<Rightarrow> ptr option) \<Rightarrow> dll_mem \<Rightarrow> dll_iter_t \<Rightarrow> dll_iter_t \<Rightarrow>
    (ptr \<Rightarrow> 'p \<Rightarrow> int) \<Rightarrow> 'p \<Rightarrow> ptr \<Rightarrow> (dll_mem \<times> int) result" where
  "DLLMultiFind fuel a m from to is_match param output =
     bindE (assertE (output \<noteq> NULL)) (\<lambda>_.
     bindE (assertE (from \<noteq> NULL)) (\<lambda>_. bindE (assertE (to \<noteq> NULL)) (\<lambda>_.
     DLLMultiFind_loop fuel a m from to is_match param output 0)))"

fun DLLForEach_loop :: "nat \<Rightarrow> dll_mem \<Rightarrow> dll_iter_t \<Rightarrow> dll_iter_t \<Rightarrow> (ptr \<Rightarrow> 's \<Rightarrow> 's \<times> int) \<Rightarrow> 's \<Rightarrow> int \<Rightarrow> ('s \<times> int) result" where
  "DLLForEach_loop 0 m from to action_func param status = Inl Out_of_fuel"
| "DLLForEach_loop (Suc fuel) m from to action_func param status =
     bindE (DLLIsEqual from to) (\<lambda>eq.
     if \<not> eq \<and> 0 = status
     then bindE (load_dnode m from) (\<lambda>n.
          let (param', status') = action_func (d_data n) param
          in bindE (DLLNext m from) (\<lambda>next. DLLForEach_loop fuel m next to action_func param' status'))
     else Inr (param, status))"

definition DLLForEach :: "nat \<Rightarrow> dll_mem \<Rightarrow> dll_iter_t \<Rightarrow> dll_iter_t \<Rightarrow> (ptr \<Rightarrow> 's \<Rightarrow> 's \<times> int) \<Rightarrow> 's \<Rightarrow> ('s \<times> int) result" where
  "DLLForEach fuel m from to action_func param =
     bindE (assertE (from \<noteq> NULL)) (\<lambda>_. bindE (assertE (to \<noteq> NULL)) (\<lambda>_.
     DLLForEach_loop fuel m from to action_func param 0))"

definition DLL_CountAction :: "ptr \<Rightarrow> nat \<Rightarrow> nat \<times> int" where
  "DLL_CountAction data param = (param + 1, 0)"

definition DLLCount :: "nat \<Rightarrow> dll_mem \<Rightarrow> ptr \<Rightarrow> nat result" where
  "DLLCount fuel m list =
     bindE (DLLBegin m list) (\<lambda>b. bindE (DLLEnd list) (\<lambda>e.
     bindE (DLLForEach fuel m b e DLL_CountAction 0) (\<lambda>(n, _). Inr n)))"

definition DLLSplice :: "dll_mem \<Rightarrow> dll_iter_t \<Rightarrow> dll_iter_t \<Rightarrow> dll_iter_t \<Rightarrow> (dll_mem \<times> dll_iter_t) result" where
  "DLLSplice m where' from to =
     bindE (assertE (where' \<noteq> NULL)) (\<lambda>_.
     bindE (DLLIsEqual from to) (\<lambda>eq.
     bindE (assertE (\<not> eq)) (\<lambda>_.
     bindE (DLLPrev m to) (\<lambda>last.
     bindE (bindE (DLLPrev m from) (\<lambda>p. JoinNode m p to)) (\<lambda>m1.
     bindE (bindE (DLLPrev m1 where') (\<lambda>p. JoinNode m1 p from)) (\<lambda>m2.
     bindE (JoinNode m2 last where') (\<lambda>m3. Inr (m3, where'))))))))"

section \<open>Representation\<close>

text \<open>The fields of the nodes, and a path of nodes linked in both directions.\<close>

definition dnext :: "dll_mem \<Rightarrow> ptr \<Rightarrow> ptr option" where
  "dnext m p = map_option d_next (m p)"

definition dprev :: "dll_mem \<Rightarrow> ptr \<Rightarrow> ptr option" where
  "dprev m p = map_option d_prev (m p)"

definition ddata :: "dll_mem \<Rightarrow> ptr \<Rightarrow> ptr option" where
  "ddata m p = map_option d_data (m p)"

fun linked :: "dll_mem \<Rightarrow> ptr list \<Rightarrow> bool" where
  "linked m (a # b # as) \<longleftrightarrow> dnext m a = Some b \<and> dprev m b = Some a \<and> linked m (b # as)"
| "linked m as \<longleftrightarrow> True"

definition dll_addrs :: "ptr \<Rightarrow> (ptr \<times> ptr) list \<Rightarrow> ptr list" where
  "dll_addrs l xs = dll_head l # map fst xs @ [dll_tail l]"

definition dll_rep :: "dll_mem \<Rightarrow> ptr \<Rightarrow> (ptr \<times> ptr) list \<Rightarrow> bool" where
  "dll_rep m l xs \<longleftrightarrow> NULL \<notin> set (dll_addrs l xs) \<and> distinct (dll_addrs l xs) \<and> linked m (dll_addrs l xs) \<and>
     dprev m (dll_head l) = Some NULL \<and> dnext m (dll_tail l) = Some NULL \<and>
     (\<forall>(a, d) \<in> set xs. ddata m a = Some d)"

text \<open>The address before the end of \<open>us\<close>: its last node, or the head.\<close>

definition last_of :: "(ptr \<times> ptr) list \<Rightarrow> ptr \<Rightarrow> ptr" where
  "last_of us l = (if us = [] then l else fst (last us))"

definition dll_agree :: "dll_mem \<Rightarrow> dll_mem \<Rightarrow> ptr set \<Rightarrow> bool" where
  "dll_agree m m' A \<longleftrightarrow> (\<forall>p \<in> A. m' p = m p)"


section \<open>Links\<close>

lemma linked_append: "linked m (us @ a # vs) \<longleftrightarrow> linked m (us @ [a]) \<and> linked m (a # vs)"
  by (induction us rule: induct_list012) (cases vs; auto)+

lemma linked_cong:
  "(\<forall>a \<in> set (butlast as). dnext m' a = dnext m a) \<Longrightarrow> (\<forall>a \<in> set (tl as). dprev m' a = dprev m a) \<Longrightarrow>
   linked m' as = linked m as"
  by (induction m as rule: linked.induct) auto

lemma linked_join: "linked m (us @ [a]) \<Longrightarrow> linked m (b # vs) \<Longrightarrow> dnext m a = Some b \<Longrightarrow> dprev m b = Some a \<Longrightarrow>
    linked m (us @ a # b # vs)"
  by (simp add: linked_append [of m us a "b # vs"])

lemma linked_alloc: "linked m as \<Longrightarrow> 1 < length as \<Longrightarrow> a \<in> set as \<Longrightarrow> m a \<noteq> None"
proof (induction m as rule: linked.induct)
  case (1 m a b as)
  then show ?case by (cases as) (auto simp: dnext_def dprev_def)
qed auto

lemma JoinNode_ok:
  assumes "m a \<noteq> None" "m b \<noteq> None" "a \<noteq> NULL" "b \<noteq> NULL" "a \<noteq> b"
  shows "\<exists>m'. JoinNode m a b = Inr m' \<and> dnext m' = (dnext m)(a := Some b) \<and> dprev m' = (dprev m)(b := Some a) \<and>
    ddata m' = ddata m \<and> dom m' = dom m \<and> dll_agree m m' (- {a, b})"
proof -
  obtain na nb where n: "m a = Some na" "m b = Some nb" using assms by blast
  let ?m' = "m(a \<mapsto> na\<lparr>d_next := b\<rparr>, b \<mapsto> nb\<lparr>d_prev := a\<rparr>)"
  have "JoinNode m a b = Inr ?m'" using n assms by (simp add: JoinNode_def load_dnode_def)
  moreover have "dnext ?m' = (dnext m)(a := Some b)" "dprev ?m' = (dprev m)(b := Some a)" "ddata ?m' = ddata m"
    "dom ?m' = dom m" "dll_agree m ?m' (- {a, b})"
    using n assms(5) by (auto simp: dnext_def dprev_def ddata_def dll_agree_def fun_eq_iff)
  ultimately show ?thesis by blast
qed

lemma dom_not_None: "p \<in> dom m \<longleftrightarrow> m p \<noteq> None"
  by auto

lemma prefix_last: "\<exists>ps. dll_head l # map fst us = ps @ [last_of us (dll_head l)]"
proof (cases us rule: rev_cases)
  case (snoc ys y)
  then show ?thesis by (intro exI [of _ "dll_head l # map fst ys"]) (simp add: last_of_def)
qed (simp add: last_of_def)

lemma suffix_first: "\<exists>ss. map fst vs @ [t] = first_of vs t # ss"
  by (cases vs) auto

lemma dll_addrs_split:
  obtains ps ss where "dll_addrs l (us @ vs) = ps @ last_of us (dll_head l) # first_of vs (dll_tail l) # ss"
    "dll_head l # map fst us = ps @ [last_of us (dll_head l)]"
    "map fst vs @ [dll_tail l] = first_of vs (dll_tail l) # ss"
proof -
  obtain ps where ps: "dll_head l # map fst us = ps @ [last_of us (dll_head l)]" using prefix_last by blast
  obtain ss where ss: "map fst vs @ [dll_tail l] = first_of vs (dll_tail l) # ss" using suffix_first by blast
  have "dll_addrs l (us @ vs) = (dll_head l # map fst us) @ (map fst vs @ [dll_tail l])" by (simp add: dll_addrs_def)
  with ps ss have "dll_addrs l (us @ vs) = ps @ last_of us (dll_head l) # first_of vs (dll_tail l) # ss" by simp
  with ps ss that show ?thesis by blast
qed

text \<open>Around any place of the list: what the two neighbours hold.\<close>

lemma dll_rep_gap:
  assumes "dll_rep m l (us @ vs)"
  defines "p \<equiv> last_of us (dll_head l)" and "q \<equiv> first_of vs (dll_tail l)"
  shows "dnext m p = Some q" "dprev m q = Some p" "p \<noteq> NULL" "q \<noteq> NULL" "p \<noteq> q"
    "p \<in> set (dll_addrs l (us @ vs))" "q \<in> set (dll_addrs l (us @ vs))"
proof -
  obtain ps ss where sp: "dll_addrs l (us @ vs) = ps @ p # q # ss"
    unfolding p_def q_def by (rule dll_addrs_split)
  show "dnext m p = Some q" "dprev m q = Some p" "p \<noteq> NULL" "q \<noteq> NULL" "p \<noteq> q"
    using assms(1) unfolding dll_rep_def sp linked_append [of m ps p "q # ss"] by auto
  show "p \<in> set (dll_addrs l (us @ vs))" "q \<in> set (dll_addrs l (us @ vs))" unfolding sp by auto
qed

lemma dll_rep_alloc: "dll_rep m l xs \<Longrightarrow> a \<in> set (dll_addrs l xs) \<Longrightarrow> m a \<noteq> None \<and> a \<noteq> NULL"
  using linked_alloc [of m "dll_addrs l xs" a] by (auto simp: dll_rep_def dll_addrs_def)

lemma dll_rep_agree: 
  assumes "dll_rep m l xs" "dll_agree m m' (set (dll_addrs l xs))"
  shows "dll_rep m' l xs"
proof -
  have same: "dnext m' a = dnext m a" "dprev m' a = dprev m a" "ddata m' a = ddata m a" if "a \<in> set (dll_addrs l xs)" for a
    using assms(2) that by (auto simp: dll_agree_def dnext_def dprev_def ddata_def)
  have "linked m' (dll_addrs l xs) = linked m (dll_addrs l xs)"
    by (rule linked_cong) (auto simp: same in_set_butlastD dll_addrs_def)
  moreover have "dll_head l \<in> set (dll_addrs l xs)" "dll_tail l \<in> set (dll_addrs l xs)"
    "(a, d) \<in> set xs \<Longrightarrow> a \<in> set (dll_addrs l xs)" for a d
    by (force simp: dll_addrs_def)+
  ultimately show ?thesis using assms(1) same unfolding dll_rep_def by (auto simp: split_beta)
qed

interpretation dll_framed: framed "\<lambda>m (l, xs). dll_rep m l xs" "\<lambda>(l, xs). set (dll_addrs l xs)" dll_agree dom
  by unfold_locales (auto simp: dll_rep_agree dll_agree_def dest: dll_rep_alloc)

section \<open>Operations\<close>

lemma field_load: "dnext m p = Some q \<Longrightarrow> \<exists>n. m p = Some n \<and> d_next n = q"
  "dprev m p = Some q \<Longrightarrow> \<exists>n. m p = Some n \<and> d_prev n = q"
  "ddata m p = Some q \<Longrightarrow> \<exists>n. m p = Some n \<and> d_data n = q"
  by (auto simp: dnext_def dprev_def ddata_def)

lemma DLLNext_field: "dnext m p = Some q \<Longrightarrow> p \<noteq> NULL \<Longrightarrow> DLLNext m p = Inr q"
  using field_load(1) by (fastforce simp: DLLNext_def load_dnode_def)

lemma DLLPrev_field: "dprev m p = Some q \<Longrightarrow> p \<noteq> NULL \<Longrightarrow> DLLPrev m p = Inr q"
  using field_load(2) by (fastforce simp: DLLPrev_def load_dnode_def)

lemma DLLBegin_rep: "dll_rep m l xs \<Longrightarrow> DLLBegin m l = Inr (first_of xs (dll_tail l))"
  using dll_rep_gap [of m l "[]" xs] field_load(1) [of m l]
  by (auto simp: DLLBegin_def load_dnode_def last_of_def dll_head_def)

lemma DLLEnd_rep: "dll_rep m l xs \<Longrightarrow> DLLEnd l = Inr (dll_tail l)"
  using dll_rep_gap(3) [of m l "[]" xs] by (simp add: DLLEnd_def last_of_def dll_head_def)

lemma dll_rep_null: "dll_rep m l xs \<Longrightarrow> l \<noteq> NULL \<and> dll_tail l \<noteq> NULL"
  by (auto simp: dll_rep_def dll_addrs_def dll_head_def)

lemma dll_first_end: "dll_rep m l xs \<Longrightarrow> first_of xs (dll_tail l) = dll_tail l \<longleftrightarrow> xs = []"
  by (cases xs) (auto simp: dll_rep_def dll_addrs_def)

lemma DLLIsEmpty_rep: "dll_rep m l xs \<Longrightarrow> DLLIsEmpty m l = Inr (xs = [])"
  using dll_rep_gap(4) [of m l "[]" xs] dll_rep_null [of m l xs] dll_first_end [of m l xs]
  by (simp add: DLLIsEmpty_def DLLBegin_rep DLLEnd_rep DLLIsEqual_def)

lemma dll_element:
  assumes "dll_rep m l (us @ (a, d) # vs)"
  shows "assert_element m a = Inr ()" "DLLGetData m a = Inr d" "DLLNext m a = Inr (first_of vs (dll_tail l))"
    "dnext m a = Some (first_of vs (dll_tail l))" "dprev m a = Some (last_of us (dll_head l))" "a \<noteq> NULL"
    "first_of vs (dll_tail l) \<noteq> NULL"
proof -
  have assms2: "dll_rep m l ((us @ [(a, d)]) @ vs)" using assms by simp
  note G1 = dll_rep_gap [OF assms] and G2 = dll_rep_gap [OF assms2]
  show n: "dnext m a = Some (first_of vs (dll_tail l))" and p: "dprev m a = Some (last_of us (dll_head l))"
    and a: "a \<noteq> NULL" and f: "first_of vs (dll_tail l) \<noteq> NULL"
    using G1 G2 by (simp_all add: last_of_def)
  have data: "ddata m a = Some d" using assms by (auto simp: dll_rep_def)
  obtain n where n': "m a = Some n" "d_next n = first_of vs (dll_tail l)" "d_prev n = last_of us (dll_head l)" "d_data n = d"
    using n p data by (auto simp: dnext_def dprev_def ddata_def)
  then show "assert_element m a = Inr ()"
    using a f G1(3) by (simp add: assert_element_def IsHead_def IsTail_def load_dnode_def)
  with n' a show "DLLGetData m a = Inr d" "DLLNext m a = Inr (first_of vs (dll_tail l))"
    by (simp_all add: DLLGetData_def DLLNext_def load_dnode_def)
qed

lemma DLLCreate_rep:
  assumes "l \<noteq> NULL" "dll_tail l \<noteq> NULL"
  shows "\<exists>m'. DLLCreate (Some l) junk m = Inr (m', l) \<and> dll_rep m' l [] \<and> dll_agree m m' (- {l, dll_tail l})"
proof -
  have ne: "dll_head l \<noteq> dll_tail l" by (simp add: dll_head_def dll_tail_def)
  let ?m1 = "m(dll_head l \<mapsto> \<lparr>d_data = NULL, d_next = junk, d_prev = NULL\<rparr>,
    dll_tail l \<mapsto> \<lparr>d_data = NULL, d_next = NULL, d_prev = junk\<rparr>)"
  have "?m1 (dll_head l) \<noteq> None" "?m1 (dll_tail l) \<noteq> None" using ne by auto
  from JoinNode_ok [OF this] assms ne obtain m' where
    m': "JoinNode ?m1 (dll_head l) (dll_tail l) = Inr m'" "dnext m' = (dnext ?m1)(dll_head l := Some (dll_tail l))"
    "dprev m' = (dprev ?m1)(dll_tail l := Some (dll_head l))" "dll_agree ?m1 m' (- {dll_head l, dll_tail l})"
    unfolding dll_head_def by blast
  have "dll_rep m' l []"
    using assms ne m'(2,3) by (simp add: dll_rep_def dll_addrs_def dll_head_def dnext_def dprev_def)
  moreover have "dll_agree m m' (- {l, dll_tail l})" using m'(4) by (auto simp: dll_agree_def dll_head_def)
  ultimately show ?thesis using m'(1) by (simp add: DLLCreate_def Let_def)
qed


lemma fields_agree:
  assumes "dll_agree m m' A" "p \<in> A"
  shows "dnext m' p = dnext m p" "dprev m' p = dprev m p" "ddata m' p = ddata m p"
  using assms by (simp_all add: dll_agree_def dnext_def dprev_def ddata_def)

lemma DLLInsert_at:
  assumes rep: "dll_rep m l (us @ vs)" and fr: "m node = None" "node \<noteq> NULL"
  shows "\<exists>m'. DLLInsert (Some node) m l (first_of vs (dll_tail l)) x = Inr (m', node) \<and>
    dll_rep m' l (us @ (node, x) # vs) \<and>
    dll_agree m m' (- {last_of us (dll_head l), first_of vs (dll_tail l), node})"
proof -
  define p q where "p = last_of us (dll_head l)" and "q = first_of vs (dll_tail l)"
  note G = dll_rep_gap [OF rep, folded p_def q_def]
  obtain ps ss where sp: "dll_addrs l (us @ vs) = ps @ p # q # ss" "dll_head l # map fst us = ps @ [p]"
    "map fst vs @ [dll_tail l] = q # ss"
    unfolding p_def q_def by (rule dll_addrs_split)
  have new: "node \<notin> set (dll_addrs l (us @ vs))" using dll_rep_alloc [OF rep] fr(1) by blast
  let ?m1 = "m(node \<mapsto> \<lparr>d_data = x, d_next = NULL, d_prev = NULL\<rparr>)"
  have al: "m p \<noteq> None" "m q \<noteq> None" using dll_rep_alloc [OF rep] G(6,7) by blast+
  have ne: "p \<noteq> node" "q \<noteq> node" using new sp(1) by auto
  from JoinNode_ok [of ?m1 p node] al ne G fr obtain m2 where
    m2: "JoinNode ?m1 p node = Inr m2" "dnext m2 = (dnext ?m1)(p := Some node)" "dprev m2 = (dprev ?m1)(node := Some p)"
    "ddata m2 = ddata ?m1" "dom m2 = dom ?m1" "dll_agree ?m1 m2 (- {p, node})" by auto
  have al2: "m2 node \<noteq> None" "m2 q \<noteq> None" using m2(5) al ne by (auto simp: dom_def)
  from JoinNode_ok [OF al2] ne G fr obtain m3 where
    m3: "JoinNode m2 node q = Inr m3" "dnext m3 = (dnext m2)(node := Some q)" "dprev m3 = (dprev m2)(q := Some node)"
    "ddata m3 = ddata m2" "dll_agree m2 m3 (- {node, q})" by auto
  have call: "DLLInsert (Some node) m l q x = Inr (m3, node)"
  proof -
    obtain n where n: "m q = Some n" "d_prev n = p" using field_load(2) [OF G(2)] by blast
    show ?thesis
      using n G dll_rep_null [OF rep] fr(2) ne m2(1) m3(1)
      by (simp add: DLLInsert_def IsHead_def load_dnode_def CreateNode_def InsertBetween_def)
  qed
  have nx: "dnext m3 = (dnext m)(p := Some node, node := Some q)" and pv: "dprev m3 = (dprev m)(node := Some p, q := Some node)"
    and da: "ddata m3 = (ddata m)(node := Some x)"
    using m2 m3 ne by (auto simp: dnext_def dprev_def ddata_def fun_eq_iff)
  have addrs: "dll_addrs l (us @ (node, x) # vs) = ps @ p # node # q # ss"
    using sp(2,3) by (simp add: dll_addrs_def)
  have dist: "distinct (ps @ p # q # ss)" "linked m (ps @ [p])" "linked m (q # ss)" "node \<notin> set (ps @ p # q # ss)"
    using rep new unfolding dll_rep_def sp(1) linked_append [of m ps p "q # ss"] by auto
  have "linked m3 (ps @ [p]) = linked m (ps @ [p])"
  proof (rule linked_cong)
    show "\<forall>a \<in> set (butlast (ps @ [p])). dnext m3 a = dnext m a" using dist(1,4) by (auto simp: nx)
    show "\<forall>a \<in> set (tl (ps @ [p])). dprev m3 a = dprev m a" using dist(1,4) by (cases ps) (auto simp: pv)
  qed
  moreover have "linked m3 (q # ss) = linked m (q # ss)"
  proof (rule linked_cong)
    show "\<forall>a \<in> set (butlast (q # ss)). dnext m3 a = dnext m a"
      using dist(1,4) by (auto simp: nx split: if_splits dest: in_set_butlastD)
    show "\<forall>a \<in> set (tl (q # ss)). dprev m3 a = dprev m a" using dist(1,4) by (auto simp: pv)
  qed
  ultimately have "linked m3 (ps @ p # node # q # ss)"
    using dist nx pv by (intro linked_join) auto
  moreover have "dprev m3 (dll_head l) = Some NULL" "dnext m3 (dll_tail l) = Some NULL"
  proof -
    have "dll_head l \<noteq> q" "dll_head l \<noteq> node" "dll_tail l \<noteq> p" "dll_tail l \<noteq> node"
    proof -
      show "dll_head l \<noteq> q" using rep sp(2) dist(1) by (cases ps) (auto simp: dll_rep_def)
      show "dll_tail l \<noteq> p" using sp(3) dist(1) by (cases ss rule: rev_cases) auto
      show "dll_head l \<noteq> node" "dll_tail l \<noteq> node" using new by (auto simp: dll_addrs_def)
    qed
    then show "dprev m3 (dll_head l) = Some NULL" "dnext m3 (dll_tail l) = Some NULL"
      using rep nx pv by (auto simp: dll_rep_def)
  qed
  moreover have "\<forall>(a, d) \<in> set (us @ (node, x) # vs). ddata m3 a = Some d"
  proof -
    have "ddata m3 a = Some d" if "(a, d) \<in> set (us @ vs)" for a d
    proof -
      have "ddata m a = Some d" using rep that unfolding dll_rep_def by blast
      moreover have "a \<noteq> node" using new that by (force simp: dll_addrs_def)
      ultimately show ?thesis by (simp add: da)
    qed
    then show ?thesis by (auto simp: da)
  qed
  ultimately have "dll_rep m3 l (us @ (node, x) # vs)"
    using rep dist(1,4) fr(2) unfolding dll_rep_def addrs sp(1) by auto
  moreover have "dll_agree m m3 (- {p, q, node})"
    using m2(6) m3(5) by (auto simp: dll_agree_def)
  ultimately show ?thesis using call unfolding p_def q_def by blast
qed

lemma DLLInsert_no_memory:
  assumes rep: "dll_rep m l (us @ vs)"
  shows "DLLInsert None m l (first_of vs (dll_tail l)) x = Inr (m, dll_tail l)"
proof -
  note G = dll_rep_gap [OF rep]
  obtain n where "m (first_of vs (dll_tail l)) = Some n" "d_prev n = last_of us (dll_head l)"
    using field_load(2) [OF G(2)] by blast
  then show ?thesis
    using G dll_rep_null [OF rep] DLLEnd_rep [OF rep] by (simp add: DLLInsert_def IsHead_def load_dnode_def CreateNode_def)
qed


lemma DLLRemove_at:
  assumes rep: "dll_rep m l (us @ (a, d) # vs)"
  shows "\<exists>m'. DLLRemove m a = Inr (m', first_of vs (dll_tail l)) \<and> dll_rep m' l (us @ vs) \<and> m' a = None \<and>
    dll_agree m m' (- {last_of us (dll_head l), a, first_of vs (dll_tail l)})"
proof -
  define p q where "p = last_of us (dll_head l)" and "q = first_of vs (dll_tail l)"
  obtain ps ss where sp: "dll_head l # map fst us = ps @ [p]" "map fst vs @ [dll_tail l] = q # ss"
    unfolding p_def q_def by (rule dll_addrs_split)
  have addrs: "dll_addrs l (us @ (a, d) # vs) = ps @ p # a # q # ss" "dll_addrs l (us @ vs) = ps @ p # q # ss"
    using sp by (simp_all add: dll_addrs_def)
  have dist: "distinct (ps @ p # a # q # ss)" "linked m (ps @ [p])" "linked m (q # ss)"
    using rep unfolding dll_rep_def addrs(1) linked_append [of m ps p "a # q # ss"] by auto
  have nn: "NULL \<notin> set (ps @ p # a # q # ss)" using rep unfolding dll_rep_def addrs(1) by simp
  note E = dll_element [OF rep, folded p_def q_def]
  have al: "m p \<noteq> None" "m q \<noteq> None" "m a \<noteq> None" using dll_rep_alloc [OF rep] unfolding addrs(1) by auto
  from JoinNode_ok [OF al(1,2)] nn dist(1) obtain m2 where
    m2: "JoinNode m p q = Inr m2" "dnext m2 = (dnext m)(p := Some q)" "dprev m2 = (dprev m)(q := Some p)"
    "ddata m2 = ddata m" "dom m2 = dom m" "dll_agree m m2 (- {p, q})" by auto
  let ?m3 = "m2(a := None)"
  have nx: "dnext ?m3 = (dnext m)(p := Some q, a := None)" and pv: "dprev ?m3 = (dprev m)(q := Some p, a := None)"
    and da: "ddata ?m3 = (ddata m)(a := None)"
    using m2(2-4) by (auto simp: dnext_def dprev_def ddata_def fun_eq_iff)
  obtain n where n: "m a = Some n" "d_next n = q" "d_prev n = p"
    using E(4,5) by (auto simp: dnext_def dprev_def)
  have call: "DLLRemove m a = Inr (?m3, q)"
    using E(1,6) n m2(1,5) al(3)
    by (auto simp: DLLRemove_def RemoveNode_def load_dnode_def dll_free_def dom_def)
  have "linked ?m3 (ps @ [p]) = linked m (ps @ [p])"
  proof (rule linked_cong)
    show "\<forall>b \<in> set (butlast (ps @ [p])). dnext ?m3 b = dnext m b" using dist(1) by (auto simp: nx)
    show "\<forall>b \<in> set (tl (ps @ [p])). dprev ?m3 b = dprev m b" using dist(1) by (cases ps) (auto simp: pv)
  qed
  moreover have "linked ?m3 (q # ss) = linked m (q # ss)"
  proof (rule linked_cong)
    show "\<forall>b \<in> set (butlast (q # ss)). dnext ?m3 b = dnext m b"
      using dist(1) by (auto simp: nx split: if_splits dest: in_set_butlastD)
    show "\<forall>b \<in> set (tl (q # ss)). dprev ?m3 b = dprev m b" using dist(1) by (auto simp: pv)
  qed
  ultimately have "linked ?m3 (ps @ p # q # ss)" using dist nx pv by (intro linked_join) auto
  moreover have "dprev ?m3 (dll_head l) = Some NULL" "dnext ?m3 (dll_tail l) = Some NULL"
  proof -
    have "dll_head l \<noteq> q" "dll_head l \<noteq> a" using sp(1) dist(1) by (cases ps; auto)+
    moreover have "dll_tail l \<noteq> p" "dll_tail l \<noteq> a" using sp(2) dist(1) by (cases ss rule: rev_cases; auto)+
    ultimately show "dprev ?m3 (dll_head l) = Some NULL" "dnext ?m3 (dll_tail l) = Some NULL"
      using rep nx pv by (auto simp: dll_rep_def)
  qed
  moreover have "\<forall>(b, e) \<in> set (us @ vs). ddata ?m3 b = Some e"
  proof -
    have "ddata ?m3 b = Some e" if "(b, e) \<in> set (us @ vs)" for b e
    proof -
      have "ddata m b = Some e" using rep that unfolding dll_rep_def by auto
      moreover have "b \<in> set (ps @ [p]) \<union> set (q # ss)"
        using that unfolding sp [symmetric] by (force simp: image_iff)
      then have "b \<noteq> a" using dist(1) by auto
      ultimately show ?thesis by (simp add: da)
    qed
    then show ?thesis by auto
  qed
  ultimately have "dll_rep ?m3 l (us @ vs)" using dist(1) nn unfolding dll_rep_def addrs(2) by auto
  moreover have "dll_agree m ?m3 (- {p, a, q})" using m2(6) by (auto simp: dll_agree_def)
  ultimately show ?thesis using call unfolding p_def q_def by auto
qed

lemma DLLPushFront_rep:
  assumes "dll_rep m l xs" "m node = None" "node \<noteq> NULL"
  shows "\<exists>m'. DLLPushFront (Some node) m l x = Inr (m', node) \<and> dll_rep m' l ((node, x) # xs)"
  using DLLInsert_at [of m l "[]" xs node x] assms by (auto simp: DLLPushFront_def DLLBegin_rep)

lemma DLLPushBack_rep:
  assumes "dll_rep m l xs" "m node = None" "node \<noteq> NULL"
  shows "\<exists>m'. DLLPushBack (Some node) m l x = Inr (m', node) \<and> dll_rep m' l (xs @ [(node, x)]) \<and>
    dll_agree m m' (- (set (dll_addrs l xs) \<union> {node}))"
proof -
  from DLLInsert_at [of m l xs "[]" node x] assms obtain m' where
    "DLLInsert (Some node) m l (dll_tail l) x = Inr (m', node)" "dll_rep m' l (xs @ [(node, x)])"
    "dll_agree m m' (- {last_of xs (dll_head l), dll_tail l, node})" by auto
  moreover have "last_of xs (dll_head l) \<in> set (dll_addrs l xs)" "dll_tail l \<in> set (dll_addrs l xs)"
    by (auto simp: last_of_def dll_addrs_def)
  ultimately show ?thesis by (auto simp: DLLPushBack_def DLLEnd_rep [OF assms(1)] dll_agree_def)
qed

lemma DLLPopFront_rep:
  assumes "dll_rep m l ((a, d) # xs)"
  shows "\<exists>m'. DLLPopFront m l = Inr (m', d) \<and> dll_rep m' l xs"
  using DLLRemove_at [of m l "[]" a d xs] dll_element(2) [of m l "[]" a d xs] assms
  by (auto simp: DLLPopFront_def DLLIsEmpty_rep DLLBegin_rep)

lemma DLLPopBack_rep:
  assumes "dll_rep m l (xs @ [(a, d)])"
  shows "\<exists>m'. DLLPopBack m l = Inr (m', d) \<and> dll_rep m' l xs"
proof -
  have "DLLPrev m (dll_tail l) = Inr a"
    using dll_rep_gap(2,4) [of m l "xs @ [(a, d)]" "[]"] assms
    by (simp add: DLLPrev_field last_of_def)
  then show ?thesis
    using DLLRemove_at [of m l xs a d "[]"] dll_element(2) [of m l xs a d "[]"] assms
    by (auto simp: DLLPopBack_def DLLIsEmpty_rep DLLEnd_rep)
qed

lemma dll_pop_empty:
  "dll_rep m l [] \<Longrightarrow> DLLPopFront m l = Inl Assert_failed \<and> DLLPopBack m l = Inl Assert_failed"
  by (simp add: DLLPopFront_def DLLPopBack_def DLLIsEmpty_rep)

section \<open>Traversals and destruction\<close>

lemma dll_suffix_end:
  assumes "dll_rep m l (us @ vs)"
  shows "first_of vs (dll_tail l) = dll_tail l \<longleftrightarrow> vs = []"
  using assms by (cases vs) (auto simp: dll_rep_def dll_addrs_def)

lemma DLLFind_loop_rep:
  assumes "dll_rep m l (us @ vs)" "length vs < fuel"
  shows "DLLFind_loop fuel m (first_of vs (dll_tail l)) (dll_tail l) mt param =
    Inr (first_of (dropWhile (\<lambda>(a, d). mt d param = 0) vs) (dll_tail l))"
  using assms
proof (induction vs arbitrary: us fuel)
  case Nil
  then show ?case using dll_rep_null [of m l us] by (cases fuel) (auto simp: DLLIsEqual_def)
next
  case (Cons v vs)
  obtain a d where v: "v = (a, d)" by force
  obtain k where k: "fuel = Suc k" "length vs < k" using Cons.prems(2) by (cases fuel) auto
  have rep: "dll_rep m l (us @ (a, d) # vs)" using Cons.prems(1) v by simp
  have "DLLFind_loop k m (first_of vs (dll_tail l)) (dll_tail l) mt param =
      Inr (first_of (dropWhile (\<lambda>(a, d). mt d param = 0) vs) (dll_tail l))"
    using Cons.IH [of "us @ [v]" k] Cons.prems(1) k by simp
  moreover have "a \<noteq> dll_tail l" using dll_suffix_end [OF rep] by simp
  ultimately show ?case
    using v k dll_element [OF rep] dll_rep_null [OF rep] by (simp add: DLLIsEqual_def)
qed

lemma DLLFind_rep:
  assumes "dll_rep m l (us @ vs)" "length vs < fuel"
  shows "DLLFind fuel m (first_of vs (dll_tail l)) (dll_tail l) mt param =
    Inr (first_of (dropWhile (\<lambda>(a, d). mt d param = 0) vs) (dll_tail l))"
  using DLLFind_loop_rep [OF assms] dll_rep_gap(4) [OF assms(1)] dll_rep_null [OF assms(1)]
  by (simp add: DLLFind_def)

lemma DLLForEach_loop_rep:
  assumes "dll_rep m l (us @ vs)" "length vs < fuel"
  shows "DLLForEach_loop fuel m (first_of vs (dll_tail l)) (dll_tail l) f s 0 = Inr (each_spec f (map snd vs) s)"
  using assms
proof (induction vs arbitrary: us fuel s)
  case Nil
  then show ?case using dll_rep_null [of m l us] by (cases fuel) (auto simp: DLLIsEqual_def)
next
  case (Cons v vs)
  obtain a d where v: "v = (a, d)" by force
  obtain k where k: "fuel = Suc k" "length vs < k" using Cons.prems(2) by (cases fuel) auto
  have rep: "dll_rep m l (us @ (a, d) # vs)" using Cons.prems(1) v by simp
  note E = dll_element [OF rep]
  obtain n where n: "m a = Some n" "d_data n = d" using E(2,6) by (auto simp: DLLGetData_def bindE_Inr_iff load_dnode_def)
  obtain s' rc where act: "f d s = (s', rc)" by force
  have "DLLForEach_loop k m (first_of vs (dll_tail l)) (dll_tail l) f s' 0 = Inr (each_spec f (map snd vs) s')"
    using Cons.IH [of "us @ [v]" k] Cons.prems(1) k by simp
  moreover have "DLLForEach_loop k m (first_of vs (dll_tail l)) (dll_tail l) f s' rc = Inr (s', rc)" if "rc \<noteq> 0"
    using that k E(7) dll_rep_null [OF rep] by (cases k) (auto simp: DLLIsEqual_def)
  moreover have "a \<noteq> dll_tail l" using dll_suffix_end [OF rep] by simp
  ultimately show ?case
    using v k n act E dll_rep_null [OF rep] by (simp add: DLLIsEqual_def load_dnode_def)
qed

lemma DLLForEach_rep:
  assumes "dll_rep m l (us @ vs)" "length vs < fuel"
  shows "DLLForEach fuel m (first_of vs (dll_tail l)) (dll_tail l) f s = Inr (each_spec f (map snd vs) s)"
  using DLLForEach_loop_rep [OF assms] dll_rep_gap(4) [OF assms(1)] dll_rep_null [OF assms(1)]
  by (simp add: DLLForEach_def)

lemma each_spec_DLL_count: "each_spec DLL_CountAction ds n = (n + length ds, 0)"
  by (induction ds arbitrary: n) (simp_all add: DLL_CountAction_def)

lemma DLLCount_rep: "dll_rep m l xs \<Longrightarrow> length xs < fuel \<Longrightarrow> DLLCount fuel m l = Inr (length xs)"
  using DLLForEach_rep [of m l "[]" xs fuel DLL_CountAction 0]
  by (simp add: DLLCount_def DLLBegin_rep DLLEnd_rep each_spec_DLL_count)

lemma DLLDestroy_loop_rep:
  assumes "dll_rep m l xs" "length xs < fuel"
  shows "\<exists>m'. DLLDestroy_loop fuel m l = Inr m' \<and> dll_rep m' l [] \<and> (\<forall>a \<in> fst ` set xs. m' a = None) \<and>
    dll_agree m m' (- set (dll_addrs l xs))"
  using assms
proof (induction xs arbitrary: m fuel)
  case Nil
  then show ?case by (cases fuel) (auto simp: DLLIsEmpty_rep dll_agree_def)
next
  case (Cons x xs)
  obtain a d where x: "x = (a, d)" by force
  obtain k where k: "fuel = Suc k" "length xs < k" using Cons.prems(2) by (cases fuel) auto
  from DLLRemove_at [of m l "[]" a d xs] Cons.prems(1) x obtain m1 where
    m1: "DLLRemove m a = Inr (m1, first_of xs (dll_tail l))" "dll_rep m1 l xs" "m1 a = None"
    "dll_agree m m1 (- {dll_head l, a, first_of xs (dll_tail l)})" by (auto simp: last_of_def)
  from Cons.IH [OF m1(2) k(2)] obtain m2 where
    m2: "DLLDestroy_loop k m1 l = Inr m2" "dll_rep m2 l []" "\<forall>a \<in> fst ` set xs. m2 a = None"
    "dll_agree m1 m2 (- set (dll_addrs l xs))" by blast
  have "a \<notin> set (dll_addrs l xs)" using Cons.prems(1) x by (auto simp: dll_rep_def dll_addrs_def)
  with m1(3) m2(4) have "m2 a = None" by (simp add: dll_agree_def)
  moreover have "first_of xs (dll_tail l) \<in> set (dll_addrs l xs)" by (cases xs) (auto simp: dll_addrs_def)
  then have "dll_agree m m2 (- set (dll_addrs l (x # xs)))"
    using m1(4) m2(4) x by (auto simp: dll_agree_def dll_addrs_def)
  ultimately show ?case
    using m1(1) m2 k x Cons.prems(1) by (auto simp: DLLIsEmpty_rep DLLBegin_rep)
qed

text \<open>Destruction frees exactly what the list owns.\<close>

lemma DLLDestroy_rep:
  assumes "dll_rep m l xs" "length xs < fuel"
  shows "\<exists>m'. DLLDestroy fuel m l = Inr m' \<and> (\<forall>a \<in> set (dll_addrs l xs). m' a = None) \<and>
    dll_agree m m' (- set (dll_addrs l xs))"
proof -
  from DLLDestroy_loop_rep [OF assms] obtain m1 where
    m1: "DLLDestroy_loop fuel m l = Inr m1" "dll_rep m1 l []" "\<forall>a \<in> fst ` set xs. m1 a = None"
    "dll_agree m m1 (- set (dll_addrs l xs))" by blast
  have "m1 (dll_head l) \<noteq> None" using dll_rep_alloc [OF m1(2)] by (auto simp: dll_addrs_def)
  with m1 dll_rep_null [OF assms(1)] show ?thesis
    by (auto simp: DLLDestroy_def dll_addrs_def dll_agree_def)
qed


section \<open>Splicing\<close>

lemma linked_middle: "linked m (us @ vs @ ws) \<Longrightarrow> linked m vs"
proof (induction us)
  case Nil
  then show ?case by (induction vs rule: induct_list012) (cases ws; auto)+
next
  case (Cons u us)
  then show ?case by (cases "us @ vs @ ws") auto
qed

text \<open>
  Moving the nodes \<open>ys\<close> of one list in front of \<open>vs1\<close> of another one: three joins.
\<close>

lemma DLLSplice_links:
  assumes one: "dll_rep m l1 (us1 @ vs1)" and two: "dll_rep m l2 (us2 @ ys @ vs2)" and ne: "ys \<noteq> []"
    and apart: "set (dll_addrs l1 (us1 @ vs1)) \<inter> set (dll_addrs l2 (us2 @ ys @ vs2)) = {}"
  defines "p1 \<equiv> last_of us1 (dll_head l1)" and "q1 \<equiv> first_of vs1 (dll_tail l1)"
    and "p2 \<equiv> last_of us2 (dll_head l2)" and "q2 \<equiv> first_of vs2 (dll_tail l2)"
    and "f \<equiv> fst (hd ys)" and "e \<equiv> fst (last ys)"
  shows "\<exists>m'. DLLSplice m q1 f q2 = Inr (m', q1) \<and>
    dnext m' = (dnext m)(p2 := Some q2, p1 := Some f, e := Some q1) \<and>
    dprev m' = (dprev m)(q2 := Some p2, f := Some p1, q1 := Some e) \<and> ddata m' = ddata m \<and>
    dll_agree m m' (- {p1, q1, p2, q2, f, e})"
proof -
  note G1 = dll_rep_gap [OF one, folded p1_def q1_def]
  have two': "dll_rep m l2 ((us2 @ ys) @ vs2)" using two by simp
  have fy: "first_of (ys @ vs2) (dll_tail l2) = f" "last_of (us2 @ ys) (dll_head l2) = e"
    using ne by (cases ys; auto simp: f_def e_def last_of_def)+
  note G2 = dll_rep_gap [OF two, folded p2_def, unfolded fy] and G3 = dll_rep_gap [OF two', folded q2_def, unfolded fy]
  obtain a as where as: "map fst ys = a # as" using ne by (cases ys) auto
  have dist: "p2 \<noteq> q2" "f \<noteq> q2" "e \<noteq> p2"
  proof -
    obtain ps ss where "dll_head l2 # map fst us2 = ps @ [p2]" "map fst vs2 @ [dll_tail l2] = q2 # ss"
      unfolding p2_def q2_def by (rule dll_addrs_split)
    moreover have "dll_addrs l2 (us2 @ ys @ vs2) = (dll_head l2 # map fst us2) @ map fst ys @ map fst vs2 @ [dll_tail l2]"
      by (simp add: dll_addrs_def)
    ultimately have "dll_addrs l2 (us2 @ ys @ vs2) = ps @ p2 # map fst ys @ q2 # ss" by simp
    with two have "distinct (ps @ p2 # map fst ys @ q2 # ss)" by (simp add: dll_rep_def)
    moreover have "f \<in> set (map fst ys)" "e \<in> set (map fst ys)" using ne by (auto simp: f_def e_def)
    ultimately show "p2 \<noteq> q2" "f \<noteq> q2" "e \<noteq> p2" by auto
  qed
  have far: "x \<noteq> y" if "x \<in> {p1, q1}" "y \<in> {p2, q2, f, e}" for x y
    using that apart G1(6,7) G2(6,7) G3(6,7) by auto
  have al: "m p1 \<noteq> None" "m q1 \<noteq> None" "m p2 \<noteq> None" "m q2 \<noteq> None" "m f \<noteq> None" "m e \<noteq> None"
    using dll_rep_alloc [OF one] dll_rep_alloc [OF two] dll_rep_alloc [OF two'] G1(6,7) G2(6,7) G3(6,7) by blast+
  note nn = G1(3,4) G2(3,4) G3(3,4)
  from JoinNode_ok [OF al(3,4) nn(3) nn(6) dist(1)] obtain m1 where
    m1: "JoinNode m p2 q2 = Inr m1" "dnext m1 = (dnext m)(p2 := Some q2)" "dprev m1 = (dprev m)(q2 := Some p2)"
    "ddata m1 = ddata m" "dom m1 = dom m" "dll_agree m m1 (- {p2, q2})" by blast
  have al1: "m1 p1 \<noteq> None" "m1 f \<noteq> None" using al m1(5) by (auto simp: dom_def)
  from JoinNode_ok [OF al1 nn(1) nn(4)] far obtain m2 where
    m2: "JoinNode m1 p1 f = Inr m2" "dnext m2 = (dnext m1)(p1 := Some f)" "dprev m2 = (dprev m1)(f := Some p1)"
    "ddata m2 = ddata m1" "dom m2 = dom m1" "dll_agree m1 m2 (- {p1, f})" by blast
  have al2: "m2 e \<noteq> None" "m2 q1 \<noteq> None" using al m1(5) m2(5) by (auto simp: dom_def)
  from JoinNode_ok [OF al2 nn(5) nn(2)] far obtain m3 where
    m3: "JoinNode m2 e q1 = Inr m3" "dnext m3 = (dnext m2)(e := Some q1)" "dprev m3 = (dprev m2)(q1 := Some e)"
    "ddata m3 = ddata m2" "dll_agree m2 m3 (- {e, q1})" by blast
  have prevs: "DLLPrev m q2 = Inr e" "DLLPrev m f = Inr p2" "DLLPrev m1 q1 = Inr p1"
    using G1 G2 G3 nn m1(3) far [of q1 q2] by (auto intro: DLLPrev_field)
  have "DLLIsEqual f q2 = Inr False" using nn dist by (simp add: DLLIsEqual_def)
  then have "DLLSplice m q1 f q2 = Inr (m3, q1)"
    using prevs m1(1) m2(1) m3(1) nn by (simp add: DLLSplice_def)
  moreover have "dll_agree m m3 (- {p1, q1, p2, q2, f, e})" using m1(6) m2(6) m3(5) by (auto simp: dll_agree_def)
  ultimately show ?thesis using m1(2-4) m2(2-4) m3(2-4) by auto
qed

lemma linked_change:
  assumes "linked m as" "dnext m' = (dnext m)(a1 := x1, a2 := x2, a3 := x3)" "dprev m' = (dprev m)(b1 := y1, b2 := y2, b3 := y3)"
    "a1 \<notin> set (butlast as)" "a2 \<notin> set (butlast as)" "a3 \<notin> set (butlast as)"
    "b1 \<notin> set (tl as)" "b2 \<notin> set (tl as)" "b3 \<notin> set (tl as)"
  shows "linked m' as"
proof -
  have "linked m' as = linked m as"
    using assms(2-9) by (intro linked_cong) auto
  with assms(1) show ?thesis by simp
qed

lemma DLLSplice_rep:
  assumes one: "dll_rep m l1 (us1 @ vs1)" and two: "dll_rep m l2 (us2 @ ys @ vs2)" and ne: "ys \<noteq> []"
    and apart: "set (dll_addrs l1 (us1 @ vs1)) \<inter> set (dll_addrs l2 (us2 @ ys @ vs2)) = {}"
  defines "q1 \<equiv> first_of vs1 (dll_tail l1)"
  shows "\<exists>m'. DLLSplice m q1 (fst (hd ys)) (first_of vs2 (dll_tail l2)) = Inr (m', q1) \<and>
    dll_rep m' l1 (us1 @ ys @ vs1) \<and> dll_rep m' l2 (us2 @ vs2) \<and>
    dll_agree m m' (- (set (dll_addrs l1 (us1 @ vs1)) \<union> set (dll_addrs l2 (us2 @ ys @ vs2))))"
proof -
  define p1 p2 q2 f e where d: "p1 = last_of us1 (dll_head l1)" "p2 = last_of us2 (dll_head l2)"
    "q2 = first_of vs2 (dll_tail l2)" "f = fst (hd ys)" "e = fst (last ys)"
  obtain ps1 ss1 where s1: "dll_head l1 # map fst us1 = ps1 @ [p1]" "map fst vs1 @ [dll_tail l1] = q1 # ss1"
    unfolding d q1_def by (rule dll_addrs_split)
  obtain ps2 ss2 where s2: "dll_head l2 # map fst us2 = ps2 @ [p2]" "map fst vs2 @ [dll_tail l2] = q2 # ss2"
    unfolding d by (rule dll_addrs_split)
  let ?Y = "map fst ys"
  have A: "dll_addrs l1 (us1 @ vs1) = ps1 @ p1 # q1 # ss1" "dll_addrs l2 (us2 @ ys @ vs2) = ps2 @ p2 # ?Y @ q2 # ss2"
    "dll_addrs l1 (us1 @ ys @ vs1) = ps1 @ p1 # ?Y @ q1 # ss1" "dll_addrs l2 (us2 @ vs2) = ps2 @ p2 # q2 # ss2"
    using s1 s2 by (simp_all add: dll_addrs_def)
  have Y: "?Y = f # tl ?Y" "?Y = butlast ?Y @ [e]" "f \<in> set ?Y" "e \<in> set ?Y"
  proof -
    show "?Y = f # tl ?Y" using ne by (cases ys) (auto simp: d)
    show "?Y = butlast ?Y @ [e]" unfolding d(5) last_map [OF ne, symmetric] using ne by (intro append_butlast_last_id [symmetric]) simp
    show "f \<in> set ?Y" "e \<in> set ?Y" using ne by (simp_all add: d)
  qed
  from DLLSplice_links [OF one two ne apart, folded q1_def d] obtain m' where
    m': "DLLSplice m q1 f q2 = Inr (m', q1)"
    "dnext m' = (dnext m)(p2 := Some q2, p1 := Some f, e := Some q1)"
    "dprev m' = (dprev m)(q2 := Some p2, f := Some p1, q1 := Some e)" "ddata m' = ddata m"
    "dll_agree m m' (- {p1, q1, p2, q2, f, e})" by blast
  have D: "distinct (ps1 @ p1 # q1 # ss1 @ ps2 @ p2 # ?Y @ q2 # ss2)"
    using one two apart unfolding dll_rep_def A by auto
  have L: "linked m (ps1 @ [p1])" "linked m (q1 # ss1)" "linked m (ps2 @ [p2])" "linked m ?Y" "linked m (q2 # ss2)"
  proof -
    have l1: "linked m (ps1 @ p1 # q1 # ss1)" and l2: "linked m (ps2 @ p2 # ?Y @ q2 # ss2)"
      using one two unfolding dll_rep_def A by auto
    then show "linked m (ps1 @ [p1])" "linked m (q1 # ss1)" "linked m (ps2 @ [p2])"
      by (auto simp: linked_append [of m ps1 p1 "q1 # ss1"] linked_append [of m ps2 p2 "?Y @ q2 # ss2"])
    show "linked m ?Y" using linked_middle [of m "ps2 @ [p2]" ?Y "q2 # ss2"] l2 by simp
    show "linked m (q2 # ss2)" using linked_middle [of m "ps2 @ p2 # ?Y" "q2 # ss2" "[]"] l2 by simp
  qed
  have eY: "e \<notin> set (butlast ?Y)" "f \<notin> set (tl ?Y)"
    using D Y(1,2) by (metis distinct_append distinct.simps(2) not_distinct_conv_prefix distinct_butlast append_is_Nil_conv)+
  note change = linked_change [OF _ m'(2,3)]
  have L': "linked m' (ps1 @ [p1])" "linked m' (q1 # ss1)" "linked m' (ps2 @ [p2])" "linked m' ?Y" "linked m' (q2 # ss2)"
  proof -
    show "linked m' (ps1 @ [p1])" using D Y(3,4) by (intro change [OF L(1)]) (cases ps1; auto)+
    show "linked m' (q1 # ss1)" using D Y(3,4) by (intro change [OF L(2)]) (auto dest: in_set_butlastD split: if_splits)
    show "linked m' (ps2 @ [p2])" using D Y(3,4) by (intro change [OF L(3)]) (cases ps2; auto)+
    have "set (tl ?Y) \<subseteq> set ?Y" "set (butlast ?Y) \<subseteq> set ?Y"
      by (metis Y(1) set_subset_Cons, auto dest: in_set_butlastD)
    then show "linked m' ?Y" using D eY by (intro change [OF L(4)]) auto
    show "linked m' (q2 # ss2)" using D Y(3,4) by (intro change [OF L(5)]) (auto dest: in_set_butlastD split: if_splits)
  qed
  have "linked m' (butlast ?Y @ e # q1 # ss1)"
    using L'(2,4) Y(2) m'(2,3) D Y(3,4) by (intro linked_join) auto
  then have "linked m' (f # tl ?Y @ q1 # ss1)" using Y(1,2) by (metis append_Cons append_assoc append_Nil)
  then have "linked m' (ps1 @ p1 # f # tl ?Y @ q1 # ss1)"
    using L'(1) m'(2,3) D Y(3,4) by (intro linked_join) auto
  then have "linked m' (ps1 @ p1 # ?Y @ q1 # ss1)" using Y(1) by (metis append_Cons)
  moreover have "linked m' (ps2 @ p2 # q2 # ss2)"
    using L'(3,5) m'(2,3) D Y(3,4) by (intro linked_join) auto
  moreover have "dprev m' (dll_head l1) = Some NULL" "dnext m' (dll_tail l1) = Some NULL"
    "dprev m' (dll_head l2) = Some NULL" "dnext m' (dll_tail l2) = Some NULL"
  proof -
    have "set (ps1 @ [p1]) \<inter> {q2, f, q1} = {}" "set (q1 # ss1) \<inter> {p2, p1, e} = {}"
      "set (ps2 @ [p2]) \<inter> {q2, f, q1} = {}" "set (q2 # ss2) \<inter> {p2, p1, e} = {}"
      using D Y(3,4) by auto
    moreover have "dll_head l1 \<in> set (ps1 @ [p1])" "dll_tail l1 \<in> set (q1 # ss1)" "dll_head l2 \<in> set (ps2 @ [p2])"
      "dll_tail l2 \<in> set (q2 # ss2)"
      unfolding s1 [symmetric] s2 [symmetric] by auto
    ultimately have "dll_head l1 \<notin> {q2, f, q1}" "dll_tail l1 \<notin> {p2, p1, e}" "dll_head l2 \<notin> {q2, f, q1}" "dll_tail l2 \<notin> {p2, p1, e}"
      by blast+
    then show "dprev m' (dll_head l1) = Some NULL" "dnext m' (dll_tail l1) = Some NULL"
      "dprev m' (dll_head l2) = Some NULL" "dnext m' (dll_tail l2) = Some NULL"
      using one two m'(2,3) by (auto simp: dll_rep_def)
  qed
  moreover have "NULL \<notin> set (ps1 @ p1 # ?Y @ q1 # ss1)" "NULL \<notin> set (ps2 @ p2 # q2 # ss2)"
    using one two unfolding dll_rep_def A by simp_all
  moreover have "distinct (ps1 @ p1 # ?Y @ q1 # ss1)" "distinct (ps2 @ p2 # q2 # ss2)" using D by auto
  moreover have "\<forall>(a, d) \<in> set (us1 @ ys @ vs1). ddata m' a = Some d" "\<forall>(a, d) \<in> set (us2 @ vs2). ddata m' a = Some d"
    using one two m'(4) unfolding dll_rep_def by (simp_all add: ball_Un)
  ultimately have "dll_rep m' l1 (us1 @ ys @ vs1)" "dll_rep m' l2 (us2 @ vs2)"
    unfolding dll_rep_def A by blast+
  moreover have "dll_agree m m' (- (set (dll_addrs l1 (us1 @ vs1)) \<union> set (dll_addrs l2 (us2 @ ys @ vs2))))"
    using m'(5) Y(3,4) unfolding A by (auto simp: dll_agree_def)
  ultimately show ?thesis using m'(1) unfolding d by blast
qed

end
