(* ===== verification/Sorted_List.thy ===== *)
theory Sorted_List
  imports DLL
begin

text \<open>
  The sorted list of \<open>ds/src/sortedl.c\<close>: a doubly linked list kept in order by a comparison
  callback. Insertion finds the first element that is not smaller, merging splices the nodes
  of one list into another one.
\<close>

section \<open>Definitions\<close>

text \<open>\<open>sl_self\<close> is the address of the struct, which debug iterators carry.\<close>

record sortedl_t =
  sl_self :: ptr
  sl_list :: ptr
  sl_cmp :: "ptr \<Rightarrow> ptr \<Rightarrow> int"

record sorted_iter_t =
  si_iter :: dll_iter_t
  si_list :: ptr

record cmp_wrapper_t =
  cw_cmp :: "ptr \<Rightarrow> ptr \<Rightarrow> int"
  cw_data :: ptr

definition SortedIterToDLLIter :: "sorted_iter_t \<Rightarrow> dll_iter_t" where
  "SortedIterToDLLIter s_iter = si_iter s_iter"

definition DLLIterToSortedIter :: "dll_iter_t \<Rightarrow> sortedl_t \<Rightarrow> sorted_iter_t" where
  "DLLIterToSortedIter iter list = \<lparr>si_iter = iter, si_list = sl_self list\<rparr>"

definition IsNotLessThanInsertValue :: "ptr \<Rightarrow> cmp_wrapper_t \<Rightarrow> int" where
  "IsNotLessThanInsertValue data_in_list param =
     (if cw_cmp param data_in_list (cw_data param) \<ge> 0 then 1 else 0)"

definition GetSortedPosition :: "nat \<Rightarrow> dll_mem \<Rightarrow> sortedl_t \<Rightarrow> sorted_iter_t \<Rightarrow> sorted_iter_t \<Rightarrow> ptr \<Rightarrow> sorted_iter_t result" where
  "GetSortedPosition fuel m list from to data =
     (let param = \<lparr>cw_cmp = sl_cmp list, cw_data = data\<rparr>
      in bindE (DLLFind fuel m (si_iter from) (si_iter to) IsNotLessThanInsertValue param) (\<lambda>where'.
         Inr (DLLIterToSortedIter where' list)))"

definition SortedLCreate :: "ptr option \<Rightarrow> ptr option \<Rightarrow> ptr \<Rightarrow> dll_mem \<Rightarrow> (ptr \<Rightarrow> ptr \<Rightarrow> int) option \<Rightarrow>
    (dll_mem \<times> sortedl_t option) result" where
  "SortedLCreate a al junk m cmp_func =
     (case cmp_func of
        None \<Rightarrow> Inr (m, None)
      | Some cmp \<Rightarrow>
          (case a of
             None \<Rightarrow> Inr (m, None)
           | Some self \<Rightarrow>
               bindE (DLLCreate al junk m) (\<lambda>(m', l).
               if l = NULL then Inr (m', None)
               else Inr (m', Some \<lparr>sl_self = self, sl_list = l, sl_cmp = cmp\<rparr>))))"

definition SortedLDestroy :: "nat \<Rightarrow> dll_mem \<Rightarrow> sortedl_t \<Rightarrow> dll_mem result" where
  "SortedLDestroy fuel m list = DLLDestroy fuel m (sl_list list)"

definition SortedLBegin :: "dll_mem \<Rightarrow> sortedl_t \<Rightarrow> sorted_iter_t result" where
  "SortedLBegin m list = bindE (DLLBegin m (sl_list list)) (\<lambda>i. Inr (DLLIterToSortedIter i list))"

definition SortedLEnd :: "sortedl_t \<Rightarrow> sorted_iter_t result" where
  "SortedLEnd list = bindE (DLLEnd (sl_list list)) (\<lambda>i. Inr (DLLIterToSortedIter i list))"

definition SortedLNext :: "dll_mem \<Rightarrow> sorted_iter_t \<Rightarrow> sorted_iter_t result" where
  "SortedLNext m iter = bindE (DLLNext m (si_iter iter)) (\<lambda>i. Inr (iter\<lparr>si_iter := i\<rparr>))"

definition SortedLPrev :: "dll_mem \<Rightarrow> sorted_iter_t \<Rightarrow> sorted_iter_t result" where
  "SortedLPrev m iter = bindE (DLLPrev m (si_iter iter)) (\<lambda>i. Inr (iter\<lparr>si_iter := i\<rparr>))"

definition SortedLIsEqual :: "sorted_iter_t \<Rightarrow> sorted_iter_t \<Rightarrow> bool" where
  "SortedLIsEqual iter1 iter2 \<longleftrightarrow> SortedIterToDLLIter iter1 = SortedIterToDLLIter iter2"

definition SortedLGetData :: "dll_mem \<Rightarrow> sorted_iter_t \<Rightarrow> ptr result" where
  "SortedLGetData m iter = DLLGetData m (SortedIterToDLLIter iter)"

definition SortedLInsert :: "nat \<Rightarrow> ptr option \<Rightarrow> dll_mem \<Rightarrow> sortedl_t \<Rightarrow> ptr \<Rightarrow> (dll_mem \<times> sorted_iter_t) result" where
  "SortedLInsert fuel a m list data =
     bindE (SortedLBegin m list) (\<lambda>b. bindE (SortedLEnd list) (\<lambda>e.
     bindE (GetSortedPosition fuel m list b e data) (\<lambda>pos.
     bindE (DLLInsert a m (sl_list list) (si_iter pos) data) (\<lambda>(m', new_dll_iter).
     Inr (m', DLLIterToSortedIter new_dll_iter list)))))"

definition SortedLRemove :: "dll_mem \<Rightarrow> sorted_iter_t \<Rightarrow> (dll_mem \<times> sorted_iter_t) result" where
  "SortedLRemove m to_remove =
     bindE (assertE (si_iter to_remove \<noteq> NULL)) (\<lambda>_.
     bindE (assertE (si_list to_remove \<noteq> NULL)) (\<lambda>_.
     bindE (SortedLNext m to_remove) (\<lambda>after_iter.
     bindE (DLLRemove m (si_iter to_remove)) (\<lambda>(m', _). Inr (m', after_iter)))))"

definition SortedLSize :: "nat \<Rightarrow> dll_mem \<Rightarrow> sortedl_t \<Rightarrow> nat result" where
  "SortedLSize fuel m list = DLLCount fuel m (sl_list list)"

definition SortedLIsEmpty :: "dll_mem \<Rightarrow> sortedl_t \<Rightarrow> bool result" where
  "SortedLIsEmpty m list = DLLIsEmpty m (sl_list list)"

text \<open>The assertions \<open>SortedLFind\<close> and \<open>SortedLFindIf\<close> make about their iterators.\<close>

definition assert_range :: "sorted_iter_t \<Rightarrow> sorted_iter_t \<Rightarrow> unit result" where
  "assert_range from to =
     bindE (assertE (si_iter from \<noteq> NULL)) (\<lambda>_. bindE (assertE (si_list from \<noteq> NULL)) (\<lambda>_.
     bindE (assertE (si_iter to \<noteq> NULL)) (\<lambda>_. assertE (si_list to \<noteq> NULL))))"

definition SortedLFind :: "nat \<Rightarrow> dll_mem \<Rightarrow> sortedl_t \<Rightarrow> sorted_iter_t \<Rightarrow> sorted_iter_t \<Rightarrow> ptr \<Rightarrow> sorted_iter_t result" where
  "SortedLFind fuel m list from0 to target =
     bindE (assert_range from0 to) (\<lambda>_.
     bindE (GetSortedPosition fuel m list from0 to target) (\<lambda>from.
     if SortedLIsEqual from to then Inr to
     else bindE (DLLGetData m (SortedIterToDLLIter from)) (\<lambda>d.
          if 0 = sl_cmp list target d then Inr from else Inr to)))"

definition SortedLFindIf :: "nat \<Rightarrow> dll_mem \<Rightarrow> sorted_iter_t \<Rightarrow> sorted_iter_t \<Rightarrow> (ptr \<Rightarrow> 'p \<Rightarrow> int) \<Rightarrow> 'p \<Rightarrow> sorted_iter_t result" where
  "SortedLFindIf fuel m from to is_match_func param =
     bindE (assert_range from to) (\<lambda>_.
     bindE (DLLFind fuel m (si_iter from) (si_iter to) is_match_func param) (\<lambda>i. Inr (from\<lparr>si_iter := i\<rparr>)))"

definition SortedLPopFront :: "dll_mem \<Rightarrow> sortedl_t \<Rightarrow> (dll_mem \<times> ptr) result" where
  "SortedLPopFront m list = DLLPopFront m (sl_list list)"

definition SortedLPopBack :: "dll_mem \<Rightarrow> sortedl_t \<Rightarrow> (dll_mem \<times> ptr) result" where
  "SortedLPopBack m list = DLLPopBack m (sl_list list)"

definition SortedLForEach :: "nat \<Rightarrow> dll_mem \<Rightarrow> sorted_iter_t \<Rightarrow> sorted_iter_t \<Rightarrow> (ptr \<Rightarrow> 's \<Rightarrow> 's \<times> int) \<Rightarrow> 's \<Rightarrow> ('s \<times> int) result" where
  "SortedLForEach fuel m from to action_func param =
     bindE (assertE (si_list from = si_list to)) (\<lambda>_. DLLForEach fuel m (si_iter from) (si_iter to) action_func param)"

text \<open>The two loops of \<open>SortedLMerge\<close>: skip the smaller elements of \<open>dest\<close>, splice one node.\<close>

fun SortedLMerge_skip :: "nat \<Rightarrow> dll_mem \<Rightarrow> sortedl_t \<Rightarrow> sorted_iter_t \<Rightarrow> sorted_iter_t \<Rightarrow> sorted_iter_t \<Rightarrow> sorted_iter_t result" where
  "SortedLMerge_skip 0 m dest d end_d s = Inl Out_of_fuel"
| "SortedLMerge_skip (Suc fuel) m dest d end_d s =
     (if SortedLIsEqual d end_d then Inr d
      else bindE (SortedLGetData m d) (\<lambda>x. bindE (SortedLGetData m s) (\<lambda>y.
           if sl_cmp dest x y < 0
           then bindE (SortedLNext m d) (\<lambda>d'. SortedLMerge_skip fuel m dest d' end_d s)
           else Inr d)))"

fun SortedLMerge_loop :: "nat \<Rightarrow> dll_mem \<Rightarrow> sortedl_t \<Rightarrow> sorted_iter_t \<Rightarrow> sorted_iter_t \<Rightarrow> sorted_iter_t \<Rightarrow> sorted_iter_t \<Rightarrow> dll_mem result" where
  "SortedLMerge_loop 0 m dest d end_d s end_s = Inl Out_of_fuel"
| "SortedLMerge_loop (Suc fuel) m dest d end_d s end_s =
     (if SortedLIsEqual s end_s then Inr m
      else bindE (SortedLMerge_skip fuel m dest d end_d s) (\<lambda>d'.
           bindE (SortedLNext m s) (\<lambda>next_s.
           bindE (DLLSplice m (si_iter d') (si_iter s) (si_iter next_s)) (\<lambda>(m', _).
           SortedLMerge_loop fuel m' dest d' end_d next_s end_s))))"

text \<open>The assertion that both lists have the same callback is the first argument.\<close>

definition SortedLMerge :: "bool \<Rightarrow> nat \<Rightarrow> dll_mem \<Rightarrow> sortedl_t \<Rightarrow> sortedl_t \<Rightarrow> dll_mem result" where
  "SortedLMerge same_cmp fuel m dest src =
     bindE (assertE same_cmp) (\<lambda>_.
     bindE (SortedLBegin m dest) (\<lambda>d. bindE (SortedLEnd dest) (\<lambda>end_d.
     bindE (SortedLBegin m src) (\<lambda>s. bindE (SortedLEnd src) (\<lambda>end_s.
     SortedLMerge_loop fuel m dest d end_d s end_s)))))"

section \<open>Correctness\<close>

definition sortedl_rep :: "dll_mem \<Rightarrow> sortedl_t \<Rightarrow> (ptr \<times> ptr) list \<Rightarrow> bool" where
  "sortedl_rep m sl xs \<longleftrightarrow> dll_rep m (sl_list sl) xs \<and> cmp_order (sl_cmp sl) \<and> sl_self sl \<noteq> NULL \<and>
     sorted_wrt (\<lambda>x y. sl_cmp sl x y \<le> 0) (map snd xs)"

definition iter_at :: "sortedl_t \<Rightarrow> (ptr \<times> ptr) list \<Rightarrow> sorted_iter_t" where
  "iter_at sl vs = \<lparr>si_iter = first_of vs (dll_tail (sl_list sl)), si_list = sl_self sl\<rparr>"

definition not_less_from :: "(ptr \<Rightarrow> ptr \<Rightarrow> int) \<Rightarrow> ptr \<Rightarrow> (ptr \<times> ptr) list \<Rightarrow> (ptr \<times> ptr) list" where
  "not_less_from cmp x vs = dropWhile (\<lambda>(a, d). cmp d x < 0) vs"

lemma SortedLBegin_rep: "sortedl_rep m sl xs \<Longrightarrow> SortedLBegin m sl = Inr (iter_at sl xs)"
  by (auto simp: sortedl_rep_def SortedLBegin_def DLLBegin_rep DLLIterToSortedIter_def iter_at_def)

lemma SortedLEnd_rep: "sortedl_rep m sl xs \<Longrightarrow> SortedLEnd sl = Inr (iter_at sl [])"
  by (auto simp: sortedl_rep_def SortedLEnd_def DLLEnd_rep DLLIterToSortedIter_def iter_at_def)

lemma GetSortedPosition_rep:
  assumes "sortedl_rep m sl (us @ vs)" "length vs < fuel"
  shows "GetSortedPosition fuel m sl (iter_at sl vs) (iter_at sl []) x = Inr (iter_at sl (not_less_from (sl_cmp sl) x vs))"
proof -
  have eq: "(\<lambda>(a, d). IsNotLessThanInsertValue d \<lparr>cw_cmp = sl_cmp sl, cw_data = x\<rparr> = 0) = (\<lambda>(a, d). sl_cmp sl d x < 0)"
    by (auto simp: IsNotLessThanInsertValue_def)
  show ?thesis
    using DLLFind_rep [of m "sl_list sl" us vs fuel IsNotLessThanInsertValue "\<lparr>cw_cmp = sl_cmp sl, cw_data = x\<rparr>"] assms
    by (simp add: GetSortedPosition_def sortedl_rep_def iter_at_def DLLIterToSortedIter_def not_less_from_def eq)
qed

text \<open>In a sorted list everything from the found position on is not smaller, before it smaller.\<close>

lemma sorted_position:
  assumes ord: "cmp_order cmp" and sorted: "sorted_wrt (\<lambda>x y. cmp x y \<le> 0) (map snd xs)"
  obtains us where "xs = us @ not_less_from cmp x xs" "\<forall>d \<in> set (map snd us). cmp d x < 0"
    "\<forall>d \<in> set (map snd (not_less_from cmp x xs)). cmp x d \<le> 0"
proof
  let ?P = "\<lambda>(a, d). cmp d x < 0" and ?vs = "not_less_from cmp x xs"
  show split: "xs = takeWhile ?P xs @ ?vs" by (simp add: not_less_from_def)
  show "\<forall>d \<in> set (map snd (takeWhile ?P xs)). cmp d x < 0" by (auto dest: set_takeWhileD)
  show "\<forall>d \<in> set (map snd ?vs). cmp x d \<le> 0"
  proof (cases ?vs)
    case (Cons v ws)
    then have "\<not> ?P v" by (metis hd_dropWhile list.distinct(1) list.sel(1) not_less_from_def)
    then have xv: "cmp x (snd v) \<le> 0" using cmp_order.cmp_le_swap [OF ord, of x "snd v"] by (simp add: split_beta)
    have "sorted_wrt (\<lambda>x y. cmp x y \<le> 0) (map snd (takeWhile ?P xs) @ map snd ?vs)"
      using sorted split by (metis map_append)
    then have "\<forall>d \<in> set (map snd ws). cmp (snd v) d \<le> 0" unfolding Cons by (simp add: sorted_wrt_append)
    then show ?thesis unfolding Cons using xv cmp_order.cmp_trans [OF ord xv] by auto
  qed simp
qed

lemma SortedLInsert_rep:
  assumes rep: "sortedl_rep m sl xs" and fr: "m node = None" "node \<noteq> NULL" and fuel: "length xs < fuel"
  shows "\<exists>m' us vs. SortedLInsert fuel (Some node) m sl x = Inr (m', iter_at sl ((node, x) # vs)) \<and> xs = us @ vs \<and>
    sortedl_rep m' sl (us @ (node, x) # vs)"
proof -
  let ?vs = "not_less_from (sl_cmp sl) x xs"
  have ord: "cmp_order (sl_cmp sl)" and sorted: "sorted_wrt (\<lambda>x y. sl_cmp sl x y \<le> 0) (map snd xs)"
    using rep by (simp_all add: sortedl_rep_def)
  from sorted_position [OF ord sorted] obtain us where
    us: "xs = us @ ?vs" "\<forall>d \<in> set (map snd us). sl_cmp sl d x < 0" "\<forall>d \<in> set (map snd ?vs). sl_cmp sl x d \<le> 0" .
  have "dll_rep m (sl_list sl) (us @ ?vs)" using rep us(1) by (simp add: sortedl_rep_def)
  from DLLInsert_at [OF this fr, of x] obtain m' where
    m': "DLLInsert (Some node) m (sl_list sl) (first_of ?vs (dll_tail (sl_list sl))) x = Inr (m', node)"
    "dll_rep m' (sl_list sl) (us @ (node, x) # ?vs)" by blast
  have "sorted_wrt (\<lambda>x y. sl_cmp sl x y \<le> 0) (map snd (us @ (node, x) # ?vs))"
    using sorted us(2,3) cmp_order.cmp_trans [OF ord] less_imp_le
    by (subst (asm) us(1)) (fastforce simp: sorted_wrt_append)
  with m' rep have "sortedl_rep m' sl (us @ (node, x) # ?vs)" by (simp add: sortedl_rep_def)
  moreover have "SortedLInsert fuel (Some node) m sl x = Inr (m', iter_at sl ((node, x) # ?vs))"
    using m'(1) GetSortedPosition_rep [of m sl "[]" xs fuel x] rep fuel
    by (simp add: SortedLInsert_def SortedLBegin_rep [OF rep] SortedLEnd_rep [OF rep] DLLIterToSortedIter_def)
      (simp add: iter_at_def)
  ultimately show ?thesis using us(1) by blast
qed

text \<open>The search finds an element that compares equal, exactly when there is one.\<close>

lemma SortedLFind_rep:
  assumes rep: "sortedl_rep m sl xs" and fuel: "length xs < fuel"
  shows "\<exists>us vs. xs = us @ vs \<and> SortedLFind fuel m sl (iter_at sl xs) (iter_at sl []) x = Inr (iter_at sl vs) \<and>
    (case vs of [] \<Rightarrow> \<forall>d \<in> set (map snd xs). sl_cmp sl x d \<noteq> 0 | v # _ \<Rightarrow> sl_cmp sl x (snd v) = 0)"
proof -
  let ?vs = "not_less_from (sl_cmp sl) x xs" and ?t = "dll_tail (sl_list sl)"
  have ord: "cmp_order (sl_cmp sl)" and sorted: "sorted_wrt (\<lambda>x y. sl_cmp sl x y \<le> 0) (map snd xs)"
    and dll: "dll_rep m (sl_list sl) xs" and self: "sl_self sl \<noteq> NULL" using rep by (simp_all add: sortedl_rep_def)
  from sorted_position [OF ord sorted] obtain us where
    us: "xs = us @ ?vs" "\<forall>d \<in> set (map snd us). sl_cmp sl d x < 0" "\<forall>d \<in> set (map snd ?vs). sl_cmp sl x d \<le> 0" .
  have below: "\<forall>d \<in> set (map snd us). sl_cmp sl x d \<noteq> 0"
    using us(2) cmp_order.cmp_eq_sym [OF ord] by (metis less_irrefl)
  have dll': "dll_rep m (sl_list sl) (us @ ?vs)" using dll us(1) by simp
  have ra: "assert_range (iter_at sl xs) (iter_at sl []) = Inr ()"
    using self dll_rep_gap(4) [of m "sl_list sl" "[]" xs] dll dll_rep_null [OF dll] by (simp add: assert_range_def iter_at_def)
  have pos: "GetSortedPosition fuel m sl (iter_at sl xs) (iter_at sl []) x = Inr (iter_at sl ?vs)"
    using GetSortedPosition_rep [of m sl "[]" xs fuel x] rep fuel by simp
  have eq: "SortedLIsEqual (iter_at sl ?vs) (iter_at sl []) \<longleftrightarrow> ?vs = []"
    using dll_suffix_end [OF dll'] by (simp add: SortedLIsEqual_def SortedIterToDLLIter_def iter_at_def)
  show ?thesis
  proof (cases ?vs)
    case Nil
    have "SortedLFind fuel m sl (iter_at sl xs) (iter_at sl []) x = Inr (iter_at sl [])"
      using ra pos eq Nil by (simp add: SortedLFind_def)
    moreover have "\<forall>d \<in> set (map snd xs). sl_cmp sl x d \<noteq> 0" using below us(1) Nil by simp
    ultimately show ?thesis by (intro exI [of _ xs] exI [of _ "[]"]) simp
  next
    case (Cons v ws)
    obtain a d where v: "v = (a, d)" by force
    have get: "DLLGetData m a = Inr d" using dll_element(2) [of m "sl_list sl" us a d ws] dll' Cons v by simp
    have run: "SortedLFind fuel m sl (iter_at sl xs) (iter_at sl []) x =
        (if sl_cmp sl x d = 0 then Inr (iter_at sl ?vs) else Inr (iter_at sl []))"
      using ra pos eq Cons v get by (simp add: SortedLFind_def SortedIterToDLLIter_def) (simp add: iter_at_def)
    show ?thesis
    proof (cases "sl_cmp sl x d = 0")
      case True
      with run us(1) Cons v show ?thesis by (intro exI [of _ us] exI [of _ ?vs]) simp
    next
      case False
      then have lt: "sl_cmp sl x d < 0" using us(3) Cons v by auto
      have "sl_cmp sl d y \<le> 0" if "y \<in> set (map snd ws)" for y
        using sorted that v by (subst (asm) us(1)) (auto simp: Cons sorted_wrt_append)
      then have "\<forall>y \<in> set (map snd ?vs). sl_cmp sl x y \<noteq> 0"
        using lt cmp_order.cmp_less_trans [OF ord lt] unfolding Cons v by fastforce
      with below us(1) have "\<forall>y \<in> set (map snd xs). sl_cmp sl x y \<noteq> 0" by (metis UnE map_append set_append)
      with run False show ?thesis by (intro exI [of _ xs] exI [of _ "[]"]) simp
    qed
  qed
qed


section \<open>Merging\<close>

lemma SortedLMerge_skip_rep:
  assumes "dll_rep m (sl_list dest) (us @ vs)" "SortedLGetData m s = Inr y" "length vs < fuel"
  shows "SortedLMerge_skip fuel m dest (iter_at dest vs) (iter_at dest []) s =
    Inr (iter_at dest (not_less_from (sl_cmp dest) y vs))"
  using assms
proof (induction vs arbitrary: us fuel)
  case Nil
  then show ?case by (cases fuel) (auto simp: SortedLIsEqual_def not_less_from_def)
next
  case (Cons v vs)
  obtain a d where v: "v = (a, d)" by force
  obtain k where k: "fuel = Suc k" "length vs < k" using Cons.prems(3) by (cases fuel) auto
  have rep: "dll_rep m (sl_list dest) (us @ (a, d) # vs)" using Cons.prems(1) v by simp
  note E = dll_element [OF rep]
  have "SortedLMerge_skip k m dest (iter_at dest vs) (iter_at dest []) s =
      Inr (iter_at dest (not_less_from (sl_cmp dest) y vs))"
    using Cons.IH [of "us @ [v]" k] Cons.prems k by simp
  moreover have "a \<noteq> dll_tail (sl_list dest)" using dll_suffix_end [OF rep] by simp
  moreover have "SortedLNext m (iter_at dest (v # vs)) = Inr (iter_at dest vs)"
    using E(3) v by (simp add: SortedLNext_def iter_at_def)
  ultimately show ?case
    using v k E(2) Cons.prems(2)
    by (simp add: SortedLIsEqual_def SortedLGetData_def SortedIterToDLLIter_def not_less_from_def)
      (simp add: iter_at_def)
qed

lemma SortedLMerge_loop_rep:
  assumes "dll_rep m (sl_list dest) (us @ vs)" "dll_rep m (sl_list src) zs"
    "set (dll_addrs (sl_list dest) (us @ vs)) \<inter> set (dll_addrs (sl_list src) zs) = {}"
    "cmp_order (sl_cmp dest)" "sorted_wrt (\<lambda>x y. sl_cmp dest x y \<le> 0) (map snd (us @ vs))"
    "sorted_wrt (\<lambda>x y. sl_cmp dest x y \<le> 0) (map snd zs)"
    "\<forall>u \<in> set (map snd us). \<forall>z \<in> set (map snd zs). sl_cmp dest u z \<le> 0" "length vs + length zs < fuel"
  shows "\<exists>m' ws. SortedLMerge_loop fuel m dest (iter_at dest vs) (iter_at dest []) (iter_at src zs) (iter_at src []) = Inr m' \<and>
    dll_rep m' (sl_list dest) ws \<and> dll_rep m' (sl_list src) [] \<and>
    sorted_wrt (\<lambda>x y. sl_cmp dest x y \<le> 0) (map snd ws) \<and> mset ws = mset (us @ vs) + mset zs"
  using assms
proof (induction zs arbitrary: m us vs fuel)
  case Nil
  then show ?case by (cases fuel) (auto simp: SortedLIsEqual_def)
next
  case (Cons z zs)
  let ?cmp = "sl_cmp dest" and ?ld = "sl_list dest" and ?ls = "sl_list src"
  obtain b y where z: "z = (b, y)" by force
  obtain k where k: "fuel = Suc k" "length vs + length zs < k" using Cons.prems(8) by (cases fuel) auto
  let ?ws = "not_less_from ?cmp y vs"
  have sorted: "sorted_wrt (\<lambda>x y. ?cmp x y \<le> 0) (map snd vs)" using Cons.prems(5) by (simp add: sorted_wrt_append)
  from sorted_position [OF Cons.prems(4) sorted] obtain ks where
    ks: "vs = ks @ ?ws" "\<forall>d \<in> set (map snd ks). ?cmp d y < 0" "\<forall>d \<in> set (map snd ?ws). ?cmp y d \<le> 0" .
  have src: "dll_rep m ?ls ([] @ (b, y) # zs)" using Cons.prems(2) z by simp
  note E = dll_element [OF src]
  have get: "SortedLGetData m (iter_at src (z # zs)) = Inr y"
    using E(2) z by (simp add: SortedLGetData_def SortedIterToDLLIter_def iter_at_def)
  have skip: "SortedLMerge_skip k m dest (iter_at dest vs) (iter_at dest []) (iter_at src (z # zs)) = Inr (iter_at dest ?ws)"
    by (rule SortedLMerge_skip_rep [OF Cons.prems(1) get]) (use k in simp)
  have next_s: "SortedLNext m (iter_at src (z # zs)) = Inr (iter_at src zs)"
    using E(3) z by (simp add: SortedLNext_def iter_at_def)
  have neq: "\<not> SortedLIsEqual (iter_at src (z # zs)) (iter_at src [])"
    using dll_suffix_end [OF src] z by (simp add: SortedLIsEqual_def SortedIterToDLLIter_def iter_at_def)
  have one: "dll_rep m ?ld ((us @ ks) @ ?ws)" using Cons.prems(1) ks(1) by simp
  have two: "dll_rep m ?ls ([] @ [z] @ zs)" using src z by simp
  have apart: "set (dll_addrs ?ld ((us @ ks) @ ?ws)) \<inter> set (dll_addrs ?ls ([] @ [z] @ zs)) = {}"
    using Cons.prems(3) ks(1) by simp
  from DLLSplice_rep [OF one two _ apart] z obtain m1 where
    m1: "DLLSplice m (first_of ?ws (dll_tail ?ld)) b (first_of zs (dll_tail ?ls)) = Inr (m1, first_of ?ws (dll_tail ?ld))"
    "dll_rep m1 ?ld ((us @ ks) @ [z] @ ?ws)" "dll_rep m1 ?ls zs" by auto
  have vs: "map snd vs = map snd ks @ map snd ?ws" using ks(1) by (metis map_append)
  have zrest: "\<forall>x \<in> set (map snd zs). ?cmp y x \<le> 0" using Cons.prems(6) z by simp
  have low: "\<forall>u \<in> set (map snd us @ map snd ks @ [y]). ?cmp u y \<le> 0"
    using Cons.prems(7) ks(2) z cmp_order.cmp_refl [OF Cons.prems(4)] by (auto simp: less_imp_le)
  have "\<exists>m' ws. SortedLMerge_loop k m1 dest (iter_at dest ?ws) (iter_at dest []) (iter_at src zs) (iter_at src []) = Inr m' \<and>
      dll_rep m' ?ld ws \<and> dll_rep m' ?ls [] \<and> sorted_wrt (\<lambda>x y. ?cmp x y \<le> 0) (map snd ws) \<and>
      mset ws = mset ((us @ ks @ [z]) @ ?ws) + mset zs"
  proof (rule Cons.IH)
    show "dll_rep m1 ?ld ((us @ ks @ [z]) @ ?ws)" "dll_rep m1 ?ls zs" using m1 by simp_all
    have "b \<notin> set (dll_addrs ?ls zs)" using Cons.prems(2) z by (auto simp: dll_rep_def dll_addrs_def)
    then show "set (dll_addrs ?ld ((us @ ks @ [z]) @ ?ws)) \<inter> set (dll_addrs ?ls zs) = {}"
      using apart z by (auto simp: dll_addrs_def)
    have "sorted_wrt (\<lambda>x y. ?cmp x y \<le> 0) (map snd us @ map snd ks @ map snd ?ws)" using Cons.prems(5) vs by simp
    then show "sorted_wrt (\<lambda>x y. ?cmp x y \<le> 0) (map snd ((us @ ks @ [z]) @ ?ws))"
      using low ks(3) z by (auto simp: sorted_wrt_append)
    have "?cmp u x \<le> 0" if "u \<in> set (map snd us @ map snd ks @ [y])" "x \<in> set (map snd zs)" for u x
      using cmp_order.cmp_trans [OF Cons.prems(4), of u y x] low zrest that by blast
    then show "\<forall>u \<in> set (map snd (us @ ks @ [z])). \<forall>x \<in> set (map snd zs). ?cmp u x \<le> 0"
      using z by simp
    show "length ?ws + length zs < k" using k(2) arg_cong [OF ks(1), of length] by simp
  qed (use Cons.prems in auto)
  moreover have "mset ((us @ ks @ [z]) @ ?ws) + mset zs = mset (us @ vs) + mset (z # zs)"
    using arg_cong [OF ks(1), of mset] by simp
  moreover have "SortedLMerge_loop fuel m dest (iter_at dest vs) (iter_at dest []) (iter_at src (z # zs)) (iter_at src []) =
      SortedLMerge_loop k m1 dest (iter_at dest ?ws) (iter_at dest []) (iter_at src zs) (iter_at src [])"
    using k(1) neq skip next_s m1(1) z by simp (simp add: iter_at_def)
  ultimately show ?case by simp
qed

text \<open>Merging empties \<open>src\<close> into \<open>dest\<close>; the nodes themselves move, in order.\<close>

lemma SortedLMerge_rep:
  assumes dest: "sortedl_rep m dest xs" and src: "sortedl_rep m src zs" and same: "sl_cmp src = sl_cmp dest"
    and apart: "set (dll_addrs (sl_list dest) xs) \<inter> set (dll_addrs (sl_list src) zs) = {}"
    and fuel: "length xs + length zs < fuel"
  shows "\<exists>m' ws. SortedLMerge True fuel m dest src = Inr m' \<and> sortedl_rep m' dest ws \<and> sortedl_rep m' src [] \<and>
    mset ws = mset xs + mset zs"
proof -
  from SortedLMerge_loop_rep [of m dest "[]" xs src zs fuel] assms obtain m' ws where
    "SortedLMerge_loop fuel m dest (iter_at dest xs) (iter_at dest []) (iter_at src zs) (iter_at src []) = Inr m'"
    "dll_rep m' (sl_list dest) ws" "dll_rep m' (sl_list src) []"
    "sorted_wrt (\<lambda>x y. sl_cmp dest x y \<le> 0) (map snd ws)" "mset ws = mset xs + mset zs"
    by (auto simp: sortedl_rep_def)
  then show ?thesis using dest src same
    by (intro exI [of _ m'] exI [of _ ws])
      (simp add: SortedLMerge_def SortedLBegin_rep [OF dest] SortedLEnd_rep [OF dest] SortedLBegin_rep [OF src]
        SortedLEnd_rep [OF src], simp add: sortedl_rep_def)
qed

lemma SortedLPopFront_rep:
  assumes "sortedl_rep m sl ((a, d) # xs)"
  shows "\<exists>m'. SortedLPopFront m sl = Inr (m', d) \<and> sortedl_rep m' sl xs \<and> (\<forall>e \<in> set (map snd xs). sl_cmp sl d e \<le> 0)"
  using DLLPopFront_rep [of m "sl_list sl" a d xs] assms by (auto simp: SortedLPopFront_def sortedl_rep_def)

lemma SortedLPopBack_rep:
  assumes "sortedl_rep m sl (xs @ [(a, d)])"
  shows "\<exists>m'. SortedLPopBack m sl = Inr (m', d) \<and> sortedl_rep m' sl xs \<and> (\<forall>e \<in> set (map snd xs). sl_cmp sl e d \<le> 0)"
  using DLLPopBack_rep [of m "sl_list sl" xs a d] assms by (auto simp: SortedLPopBack_def sortedl_rep_def sorted_wrt_append)

lemma SortedLRemove_rep:
  assumes "sortedl_rep m sl (us @ (a, d) # vs)"
  shows "\<exists>m'. SortedLRemove m (iter_at sl ((a, d) # vs)) = Inr (m', iter_at sl vs) \<and> sortedl_rep m' sl (us @ vs)"
proof -
  have rep: "dll_rep m (sl_list sl) (us @ (a, d) # vs)" using assms by (simp add: sortedl_rep_def)
  from DLLRemove_at [OF rep] obtain m' where
    "DLLRemove m a = Inr (m', first_of vs (dll_tail (sl_list sl)))" "dll_rep m' (sl_list sl) (us @ vs)" by blast
  with assms dll_element [OF rep] show ?thesis
    by (auto simp: SortedLRemove_def SortedLNext_def iter_at_def sortedl_rep_def sorted_wrt_append)
qed

end
