(* ===== verification/BST.thy ===== *)
theory BST
  imports Prelude "HOL-Library.Tree"
begin

text \<open>
  The binary search tree of \<open>ds/src/bst.c\<close>: nodes with parent and child links in a store indexed by
  address. The tree struct starts with a stub node, so that the address of the struct is the address of
  the stub; the root is the stub's left child and the stub is the position after the last element. The
  lemmas tie the store to a tree of (address, data) pairs and that tree to the sorted list of its pairs.
\<close>

section \<open>Data\<close>

datatype child_node_pos = LEFT | RIGHT

record bst_node =
  bn_parent :: ptr
  bn_children :: "child_node_pos \<Rightarrow> ptr"
  bn_data :: ptr

type_synonym bst_store = "ptr \<rightharpoonup> bst_node"

record bst =
  b_stub :: ptr
  b_cmp :: "ptr \<Rightarrow> ptr \<Rightarrow> int"

definition node_at :: "bst_store \<Rightarrow> ptr \<Rightarrow> bst_node result" where
  "node_at m p = (if p = NULL then Inl Bad_access else fetch (m p))"

definition free_node :: "bst_store \<Rightarrow> ptr \<Rightarrow> bst_store result" where
  "free_node m p = (if p = NULL then Inr m else if m p = None then Inl Bad_free else Inr (m(p := None)))"

text \<open>The assignments \<open>p->children[side] = v\<close> and \<open>p->parent = v\<close>.\<close>

definition set_child :: "bst_store \<Rightarrow> ptr \<Rightarrow> child_node_pos \<Rightarrow> ptr \<Rightarrow> bst_store result" where
  "set_child m p side v = bindE (node_at m p) (\<lambda>n. Inr (m(p \<mapsto> n\<lparr>bn_children := (bn_children n)(side := v)\<rparr>)))"

definition set_parent :: "bst_store \<Rightarrow> ptr \<Rightarrow> ptr \<Rightarrow> bst_store result" where
  "set_parent m p v = bindE (node_at m p) (\<lambda>n. Inr (m(p \<mapsto> n\<lparr>bn_parent := v\<rparr>)))"

definition get_child :: "bst_store \<Rightarrow> ptr \<Rightarrow> child_node_pos \<Rightarrow> ptr result" where
  "get_child m p side = bindE (node_at m p) (\<lambda>n. Inr (bn_children n side))"

definition get_parent :: "bst_store \<Rightarrow> ptr \<Rightarrow> ptr result" where
  "get_parent m p = bindE (node_at m p) (\<lambda>n. Inr (bn_parent n))"

section \<open>The code\<close>

text \<open>What \<open>malloc\<close> answers is an argument, the address or \<open>None\<close>. An iterator is the address of its node.\<close>

definition BSTCreate :: "ptr option \<Rightarrow> (ptr \<Rightarrow> ptr \<Rightarrow> int) \<Rightarrow> bst_store \<Rightarrow> bst_store \<times> bst option" where
  "BSTCreate alloc cmp_func m =
     (case alloc of None \<Rightarrow> (m, None)
      | Some a \<Rightarrow> (m(a \<mapsto> \<lparr>bn_parent = NULL, bn_children = (\<lambda>side. case side of RIGHT \<Rightarrow> a | LEFT \<Rightarrow> NULL), bn_data = NULL\<rparr>),
                   Some \<lparr>b_stub = a, b_cmp = cmp_func\<rparr>))"

definition Root :: "bst_store \<Rightarrow> bst \<Rightarrow> ptr result" where
  "Root m tree = get_child m (b_stub tree) LEFT"

definition BSTIsEmpty :: "bst_store \<Rightarrow> bst \<Rightarrow> bool result" where
  "BSTIsEmpty m tree = bindE (Root m tree) (\<lambda>r. Inr (r = NULL))"

definition NodeToIter :: "ptr \<Rightarrow> ptr result" where
  "NodeToIter node = bindE (assertE (node \<noteq> NULL)) (\<lambda>_. Inr node)"

definition BSTEnd :: "bst_store \<Rightarrow> bst \<Rightarrow> ptr result" where
  "BSTEnd m tree = bindE (get_child m (b_stub tree) RIGHT) NodeToIter"

primrec extreme :: "nat \<Rightarrow> bst_store \<Rightarrow> child_node_pos \<Rightarrow> ptr \<Rightarrow> ptr result" where
  "extreme 0 m side node = Inl Out_of_fuel"
| "extreme (Suc fuel) m side node =
     (if node = NULL then Inr node
      else bindE (get_child m node side) (\<lambda>c.
           if c \<noteq> NULL \<and> c \<noteq> node then extreme fuel m side c else Inr node))"

definition Leftmost :: "nat \<Rightarrow> bst_store \<Rightarrow> ptr \<Rightarrow> ptr result" where
  "Leftmost fuel m node = extreme fuel m LEFT node"

definition Rightmost :: "nat \<Rightarrow> bst_store \<Rightarrow> ptr \<Rightarrow> ptr result" where
  "Rightmost fuel m node = extreme fuel m RIGHT node"

definition BSTBegin :: "nat \<Rightarrow> bst_store \<Rightarrow> bst \<Rightarrow> ptr result" where
  "BSTBegin fuel m tree =
     bindE (Root m tree) (\<lambda>node. if node \<noteq> NULL then bindE (Leftmost fuel m node) NodeToIter else BSTEnd m tree)"

primrec StepInOrder_climb :: "nat \<Rightarrow> bst_store \<Rightarrow> child_node_pos \<Rightarrow> ptr \<Rightarrow> ptr result" where
  "StepInOrder_climb 0 m first_dir node = Inl Out_of_fuel"
| "StepInOrder_climb (Suc fuel) m first_dir node =
     bindE (get_parent m node) (\<lambda>p.
     if p = NULL then NodeToIter node
     else bindE (get_child m p first_dir) (\<lambda>c.
          if node = c then StepInOrder_climb fuel m first_dir p else NodeToIter p))"

definition StepInOrder :: "nat \<Rightarrow> bst_store \<Rightarrow> ptr \<Rightarrow> child_node_pos \<Rightarrow> child_node_pos \<Rightarrow> ptr result" where
  "StepInOrder fuel m iter first_dir second_dir =
     bindE (assertE (iter \<noteq> NULL)) (\<lambda>_.
     bindE (get_child m iter first_dir) (\<lambda>c.
     if c \<noteq> NULL
     then bindE (if second_dir = LEFT then Leftmost fuel m c else Rightmost fuel m c) NodeToIter
     else StepInOrder_climb fuel m first_dir iter))"

primrec IsBegin_loop :: "nat \<Rightarrow> bst_store \<Rightarrow> ptr \<Rightarrow> int result" where
  "IsBegin_loop 0 m node = Inl Out_of_fuel"
| "IsBegin_loop (Suc fuel) m node =
     bindE (get_parent m node) (\<lambda>p.
     if p = NULL then Inr 1
     else bindE (get_child m p RIGHT) (\<lambda>c. if node = c then Inr 0 else IsBegin_loop fuel m p))"

definition IsBegin :: "nat \<Rightarrow> bst_store \<Rightarrow> ptr \<Rightarrow> int result" where
  "IsBegin fuel m node = bindE (get_child m node LEFT) (\<lambda>c. if c \<noteq> NULL then Inr 0 else IsBegin_loop fuel m node)"

definition BSTPrev :: "nat \<Rightarrow> bst_store \<Rightarrow> ptr \<Rightarrow> ptr result" where
  "BSTPrev fuel m iter =
     bindE (IsBegin fuel m iter) (\<lambda>b. bindE (assertE (b = 0)) (\<lambda>_. StepInOrder fuel m iter LEFT RIGHT))"

definition BSTNext :: "nat \<Rightarrow> bst_store \<Rightarrow> ptr \<Rightarrow> ptr result" where
  "BSTNext fuel m iter =
     bindE (get_parent m iter) (\<lambda>p. bindE (assertE (p \<noteq> NULL)) (\<lambda>_. StepInOrder fuel m iter RIGHT LEFT))"

definition BSTIterIsSame :: "ptr \<Rightarrow> ptr \<Rightarrow> bool" where
  "BSTIterIsSame iter1 iter2 = (iter1 = iter2)"

definition BSTGetData :: "bst_store \<Rightarrow> ptr \<Rightarrow> ptr result" where
  "BSTGetData m iter = bindE (assertE (iter \<noteq> NULL)) (\<lambda>_. bindE (node_at m iter) (\<lambda>n. Inr (bn_data n)))"

definition CreateNode :: "ptr option \<Rightarrow> bst_store \<Rightarrow> ptr \<Rightarrow> bst_store \<times> ptr" where
  "CreateNode alloc m d =
     (case alloc of None \<Rightarrow> (m, NULL)
      | Some a \<Rightarrow> (m(a \<mapsto> \<lparr>bn_parent = NULL, bn_children = (\<lambda>_. NULL), bn_data = d\<rparr>), a))"

primrec BSTInsert_loop :: "nat \<Rightarrow> bst_store \<Rightarrow> (ptr \<Rightarrow> ptr \<Rightarrow> int) \<Rightarrow> ptr \<Rightarrow> ptr \<Rightarrow> ptr \<Rightarrow> int \<Rightarrow> (ptr \<times> int) result" where
  "BSTInsert_loop 0 m cmpf d current par cmp_result = Inl Out_of_fuel"
| "BSTInsert_loop (Suc fuel) m cmpf d current par cmp_result =
     (if current = NULL then Inr (par, cmp_result)
      else bindE (node_at m current) (\<lambda>n.
           let cmp_result' = cmpf d (bn_data n)
           in bindE (assertE (cmp_result' \<noteq> 0)) (\<lambda>_.
              BSTInsert_loop fuel m cmpf d (if cmp_result' > 0 then bn_children n RIGHT else bn_children n LEFT) current cmp_result')))"

definition BSTInsert :: "nat \<Rightarrow> ptr option \<Rightarrow> bst_store \<Rightarrow> bst \<Rightarrow> ptr \<Rightarrow> (bst_store \<times> ptr) result" where
  "BSTInsert fuel alloc m tree d =
     bindE (assertE (d \<noteq> NULL)) (\<lambda>_.
     bindE (Root m tree) (\<lambda>current.
     let par = b_stub tree;
         (m1, new_node) = CreateNode alloc m d
     in if new_node = NULL then bindE (BSTEnd m1 tree) (\<lambda>e. Inr (m1, e))
        else bindE (BSTIsEmpty m1 tree) (\<lambda>empty.
             if empty
             then bindE (set_child m1 par LEFT new_node) (\<lambda>m2.
                  bindE (set_parent m2 new_node par) (\<lambda>m3.
                  bindE (NodeToIter new_node) (\<lambda>i. Inr (m3, i))))
             else bindE (BSTInsert_loop fuel m1 (b_cmp tree) d current par 0) (\<lambda>(par', cmp_result).
                  bindE (set_parent m1 new_node par') (\<lambda>m2.
                  bindE (if cmp_result < 0 then set_child m2 par' LEFT new_node else set_child m2 par' RIGHT new_node) (\<lambda>m3.
                  bindE (NodeToIter new_node) (\<lambda>i. Inr (m3, i))))))))"

definition IsLeftChild :: "bst_store \<Rightarrow> ptr \<Rightarrow> bool result" where
  "IsLeftChild m node =
     bindE (assertE (node \<noteq> NULL)) (\<lambda>_.
     bindE (get_parent m node) (\<lambda>p.
     if p = NULL then Inr False else bindE (get_child m p LEFT) (\<lambda>c. Inr (c = node))))"

definition SetChildLink :: "bst_store \<Rightarrow> ptr \<Rightarrow> child_node_pos \<Rightarrow> ptr \<Rightarrow> bst_store result" where
  "SetChildLink m par side child =
     bindE (set_child m par side child) (\<lambda>m1. if child \<noteq> NULL then set_parent m1 child par else Inr m1)"

definition ReplaceInParent :: "bst_store \<Rightarrow> ptr \<Rightarrow> ptr \<Rightarrow> bst_store result" where
  "ReplaceInParent m u v =
     bindE (get_parent m u) (\<lambda>par.
     bindE (get_parent m par) (\<lambda>pp.
     if pp = NULL then SetChildLink m par LEFT v
     else bindE (IsLeftChild m u) (\<lambda>l. SetChildLink m par (if l then LEFT else RIGHT) v)))"

definition BSTRemove :: "nat \<Rightarrow> bst_store \<Rightarrow> ptr \<Rightarrow> bst_store result" where
  "BSTRemove fuel m to_remove =
     bindE (assertE (to_remove \<noteq> NULL)) (\<lambda>_.
     bindE (get_parent m to_remove) (\<lambda>p.
     bindE (assertE (p \<noteq> NULL)) (\<lambda>_.
     bindE (node_at m to_remove) (\<lambda>n.
     if bn_children n LEFT = NULL
     then bindE (ReplaceInParent m to_remove (bn_children n RIGHT)) (\<lambda>m1. free_node m1 to_remove)
     else if bn_children n RIGHT = NULL
     then bindE (ReplaceInParent m to_remove (bn_children n LEFT)) (\<lambda>m1. free_node m1 to_remove)
     else bindE (NodeToIter to_remove) (\<lambda>i.
          bindE (BSTNext fuel m i) (\<lambda>nxt.
          bindE (get_parent m nxt) (\<lambda>np.
          bindE (if np \<noteq> to_remove
                 then bindE (get_child m nxt RIGHT) (\<lambda>nr.
                      bindE (ReplaceInParent m nxt nr) (\<lambda>m1.
                      bindE (get_child m1 to_remove RIGHT) (\<lambda>r. SetChildLink m1 nxt RIGHT r)))
                 else Inr m) (\<lambda>m2.
          bindE (ReplaceInParent m2 to_remove nxt) (\<lambda>m3.
          bindE (get_child m3 to_remove LEFT) (\<lambda>l.
          bindE (SetChildLink m3 nxt LEFT l) (\<lambda>m4. free_node m4 to_remove)))))))))))"

primrec FindNode_loop :: "nat \<Rightarrow> bst_store \<Rightarrow> (ptr \<Rightarrow> ptr \<Rightarrow> int) \<Rightarrow> ptr \<Rightarrow> ptr \<Rightarrow> ptr result" where
  "FindNode_loop 0 m cmpf key current_node = Inl Out_of_fuel"
| "FindNode_loop (Suc fuel) m cmpf key current_node =
     (if current_node = NULL then Inr NULL
      else bindE (node_at m current_node) (\<lambda>n.
           let cmp_result = cmpf key (bn_data n)
           in if cmp_result = 0 then Inr current_node
              else FindNode_loop fuel m cmpf key (bn_children n (if cmp_result > 0 then RIGHT else LEFT))))"

definition FindNode :: "nat \<Rightarrow> bst_store \<Rightarrow> bst \<Rightarrow> ptr \<Rightarrow> ptr result" where
  "FindNode fuel m tree key =
     bindE (assertE (key \<noteq> NULL)) (\<lambda>_. bindE (Root m tree) (\<lambda>r. FindNode_loop fuel m (b_cmp tree) key r))"

definition BSTFind :: "nat \<Rightarrow> bst_store \<Rightarrow> bst \<Rightarrow> ptr \<Rightarrow> ptr result" where
  "BSTFind fuel m tree to_find =
     bindE (assertE (to_find \<noteq> NULL)) (\<lambda>_.
     bindE (FindNode fuel m tree to_find) (\<lambda>node. if node \<noteq> NULL then NodeToIter node else BSTEnd m tree))"

primrec BSTForEach_loop :: "nat \<Rightarrow> bst_store \<Rightarrow> ptr \<Rightarrow> ptr \<Rightarrow> (ptr \<Rightarrow> 's \<Rightarrow> 's \<times> int) \<Rightarrow> 's \<Rightarrow> ('s \<times> int) result" where
  "BSTForEach_loop 0 m it to action_func param = Inl Out_of_fuel"
| "BSTForEach_loop (Suc fuel) m it to action_func param =
     (if BSTIterIsSame it to then Inr (param, 0)
      else bindE (BSTGetData m it) (\<lambda>d.
           let (param', status) = action_func d param
           in if status \<noteq> 0 then Inr (param', status)
              else bindE (BSTNext fuel m it) (\<lambda>nxt. BSTForEach_loop fuel m nxt to action_func param')))"

definition BSTForEach :: "nat \<Rightarrow> bst_store \<Rightarrow> ptr \<Rightarrow> ptr \<Rightarrow> (ptr \<Rightarrow> 's \<Rightarrow> 's \<times> int) \<Rightarrow> 's \<Rightarrow> ('s \<times> int) result" where
  "BSTForEach fuel m from_it to_it action_func param =
     bindE (assertE (from_it \<noteq> NULL)) (\<lambda>_. bindE (assertE (to_it \<noteq> NULL)) (\<lambda>_.
     BSTForEach_loop fuel m from_it to_it action_func param))"

definition AddOne :: "ptr \<Rightarrow> nat \<Rightarrow> nat \<times> int" where
  "AddOne d param = (szadd param 1, 0)"

definition BSTSize :: "nat \<Rightarrow> bst_store \<Rightarrow> bst \<Rightarrow> nat result" where
  "BSTSize fuel m tree =
     bindE (BSTBegin fuel m tree) (\<lambda>b. bindE (BSTEnd m tree) (\<lambda>e.
     bindE (BSTForEach fuel m b e AddOne 0) (\<lambda>(n, rc). Inr n)))"

primrec BSTDestroy_loop :: "nat \<Rightarrow> bst_store \<Rightarrow> bst \<Rightarrow> ptr \<Rightarrow> bst_store result" where
  "BSTDestroy_loop 0 m tree node = Inl Out_of_fuel"
| "BSTDestroy_loop (Suc fuel) m tree node =
     bindE (BSTIsEmpty m tree) (\<lambda>empty.
     if empty then Inr m
     else bindE (node_at m node) (\<lambda>n.
          if bn_children n LEFT \<noteq> NULL then BSTDestroy_loop fuel m tree (bn_children n LEFT)
          else if bn_children n RIGHT \<noteq> NULL then BSTDestroy_loop fuel m tree (bn_children n RIGHT)
          else let par = bn_parent n
               in bindE (if par \<noteq> NULL
                         then bindE (get_child m par LEFT) (\<lambda>c. if c = node then set_child m par LEFT NULL else set_child m par RIGHT NULL)
                         else Inr m) (\<lambda>m1.
                  bindE (free_node m1 node) (\<lambda>m2. BSTDestroy_loop fuel m2 tree par))))"

definition BSTDestroy :: "nat \<Rightarrow> bst_store \<Rightarrow> bst \<Rightarrow> bst_store result" where
  "BSTDestroy fuel m tree =
     bindE (Root m tree) (\<lambda>node. bindE (BSTDestroy_loop fuel m tree node) (\<lambda>m1. free_node m1 (b_stub tree)))"

section \<open>Trees in the store\<close>

type_synonym atree = "(ptr \<times> ptr) tree"

fun addr :: "atree \<Rightarrow> ptr" where
  "addr Leaf = NULL"
| "addr (Node l x r) = fst x"

definition addrs :: "atree \<Rightarrow> ptr set" where
  "addrs t = fst ` set_tree t"

fun other :: "child_node_pos \<Rightarrow> child_node_pos" where
  "other LEFT = RIGHT"
| "other RIGHT = LEFT"

text \<open>
  The subtree \<open>t\<close> hangs below \<open>par\<close>. The side that holds the first subtree is an argument, so that
  statements about one direction also give the other one, through \<open>mirror\<close>.
\<close>

fun btree :: "bst_store \<Rightarrow> child_node_pos \<Rightarrow> ptr \<Rightarrow> atree \<Rightarrow> bool" where
  "btree m sd par Leaf = True"
| "btree m sd par (Node l x r) =
     (fst x \<noteq> NULL \<and>
      m (fst x) = Some \<lparr>bn_parent = par, bn_children = (\<lambda>s. if s = sd then addr l else addr r), bn_data = snd x\<rparr> \<and>
      btree m sd (fst x) l \<and> btree m sd (fst x) r)"

text \<open>No address occurs twice.\<close>

fun once :: "atree \<Rightarrow> bool" where
  "once Leaf = True"
| "once (Node l x r) = (fst x \<notin> addrs l \<and> fst x \<notin> addrs r \<and> addrs l \<inter> addrs r = {} \<and> once l \<and> once r)"

definition bst_rep :: "bst_store \<Rightarrow> ptr \<Rightarrow> atree \<Rightarrow> bool" where
  "bst_rep m stub t \<longleftrightarrow>
     stub \<noteq> NULL \<and> m stub = Some \<lparr>bn_parent = NULL, bn_children = (\<lambda>s. if s = LEFT then addr t else stub), bn_data = NULL\<rparr> \<and>
     btree m LEFT stub t \<and> stub \<notin> addrs t \<and> once t"

lemma other_simps [simp]: "other sd \<noteq> sd" "sd \<noteq> other sd" "other (other sd) = sd"
  by (cases sd; simp)+

lemma side_cases: "s = sd \<or> s = other sd"
  by (cases s; cases sd) auto

lemma side_not [simp]: "s \<noteq> RIGHT \<longleftrightarrow> s = LEFT" "s \<noteq> LEFT \<longleftrightarrow> s = RIGHT"
  by (cases s; simp)+

lemma addrs_simps [simp]: "addrs Leaf = {}" "addrs (Node l x r) = insert (fst x) (addrs l \<union> addrs r)"
  by (auto simp: addrs_def)

lemma addrs_inorder: "addrs t = fst ` set (inorder t)"
  by (simp add: addrs_def)

lemma once_distinct: "once t = distinct (map fst (inorder t))"
  by (induction t) (auto simp: addrs_def)

lemma addrs_mirror [simp]: "addrs (mirror t) = addrs t"
  by (induction t) auto

lemma once_mirror [simp]: "once (mirror t) = once t"
  by (induction t) auto

lemma addr_mirror [simp]: "addr (mirror t) = addr t"
  by (cases t) auto

lemma addr_NULL: "btree m sd par t \<Longrightarrow> addr t = NULL \<longleftrightarrow> t = Leaf"
  by (cases t) auto

lemma addr_in: "t \<noteq> Leaf \<Longrightarrow> addr t \<in> addrs t"
  by (cases t) auto

lemma btree_nonnull: "btree m sd par t \<Longrightarrow> a \<in> addrs t \<Longrightarrow> a \<noteq> NULL"
  by (induction t arbitrary: par) auto

lemma btree_mirror: "btree m (other sd) par (mirror t) = btree m sd par t"
proof (induction t arbitrary: par)
  case (Node l x r)
  have "(\<lambda>s. if s = other sd then addr (mirror r) else addr (mirror l)) = (\<lambda>s. if s = sd then addr l else addr r)"
    by (rule ext) (metis addr_mirror other_simps(1) side_cases)
  with Node show ?case by auto
qed simp

text \<open>Only the nodes of the tree matter.\<close>

lemma btree_frame: "btree m sd par t \<Longrightarrow> (\<And>a. a \<in> addrs t \<Longrightarrow> m' a = m a) \<Longrightarrow> btree m' sd par t"
  by (induction t arbitrary: par) auto

lemma btree_allocated: "btree m sd par t \<Longrightarrow> a \<in> addrs t \<Longrightarrow> m a \<noteq> None"
  by (induction t arbitrary: par) auto

lemmas access = node_at_def get_child_def get_parent_def set_child_def set_parent_def

section \<open>Iteration\<close>

lemma extreme_ok:
  "btree m sd par t \<Longrightarrow> t \<noteq> Leaf \<Longrightarrow> once t \<Longrightarrow> size t < fuel \<Longrightarrow>
   extreme fuel m sd (addr t) = Inr (fst (hd (inorder t)))"
proof (induction t arbitrary: par fuel)
  case (Node l x r)
  obtain f where f: "fuel = Suc f" "size l < f" using Node.prems(4) by (cases fuel) auto
  have acc: "get_child m (fst x) sd = Inr (addr l)" using Node.prems(1) by (simp add: access)
  show ?case
  proof (cases "l = Leaf")
    case True
    then show ?thesis using acc Node.prems(1) f(1) by simp
  next
    case False
    have "addr l \<noteq> fst x" using Node.prems(3) addr_in [OF False] by auto
    moreover have "addr l \<noteq> NULL" using False Node.prems(1) addr_NULL by auto
    ultimately have "extreme fuel m sd (addr (Node l x r)) = extreme f m sd (addr l)" using acc Node.prems(1) f(1) by simp
    also have "\<dots> = Inr (fst (hd (inorder l)))" using Node.IH(1) Node.prems False f(2) by auto
    finally show ?thesis using False by (cases "inorder l") (auto simp: inorder.simps)
  qed
qed simp

text \<open>Climbing from the last node of a subtree passes through its root.\<close>

lemma climb_last:
  assumes "btree m sd par t" "inorder t = xs @ [x]" "once t"
  shows "\<exists>f' \<ge> fuel. StepInOrder_climb (size t + fuel) m (other sd) (fst x) = StepInOrder_climb f' m (other sd) (addr t)"
  using assms
proof (induction t arbitrary: par xs fuel)
  case (Node l y r)
  show ?case
  proof (cases "r = Leaf")
    case True
    then show ?thesis using Node.prems(2) by (intro exI [of _ "size (Node l y r) + fuel"]) auto
  next
    case False
    then obtain ys where ys: "inorder r = ys @ [x]" using Node.prems(2) by (cases "inorder r" rule: rev_cases) auto
    have "\<exists>f' \<ge> Suc (size l + fuel). StepInOrder_climb (size r + Suc (size l + fuel)) m (other sd) (fst x) = StepInOrder_climb f' m (other sd) (addr r)"
      using Node.IH(2) [of "fst y" ys "Suc (size l + fuel)"] Node.prems(1,3) ys by auto
    then obtain f' where f': "f' \<ge> Suc (size l + fuel)"
      "StepInOrder_climb (size (Node l y r) + fuel) m (other sd) (fst x) = StepInOrder_climb f' m (other sd) (addr r)"
      by (auto simp: ac_simps)
    obtain g where g: "f' = Suc g" using f'(1) by (cases f') auto
    obtain rl z rr where r: "r = Node rl z rr" using False by (cases r) auto
    have "get_parent m (addr r) = Inr (fst y)" using Node.prems(1) r by (auto simp: access)
    moreover have "get_child m (fst y) (other sd) = Inr (addr r)" using Node.prems(1) by (simp add: access)
    ultimately have "StepInOrder_climb f' m (other sd) (addr r) = StepInOrder_climb g m (other sd) (fst y)"
      using Node.prems(1) g by simp
    with f' g show ?thesis by (intro exI [of _ g]) simp
  qed
qed simp

lemma last_no_child:
  "btree m sd par t \<Longrightarrow> inorder t = xs @ [x] \<Longrightarrow> get_child m (fst x) (other sd) = Inr NULL"
proof (induction t arbitrary: par xs)
  case (Node l y r)
  show ?case
  proof (cases "inorder r" rule: rev_cases)
    case Nil
    then show ?thesis using Node.prems by (auto simp: access)
  next
    case (snoc ys z)
    then show ?thesis using Node.IH(2) [of "fst y" ys] Node.prems by auto
  qed
qed simp

lemma split_around:
  assumes "as @ y # bs = xs @ x # ys"
  obtains ys' where "as = xs @ x # ys'" "ys = ys' @ y # bs"
    | "xs = as" "x = y" "ys = bs"
    | xs' where "bs = xs' @ x # ys" "xs = as @ y # xs'"
proof -
  from assms obtain us where "as = xs @ us \<and> us @ y # bs = x # ys \<or> as @ us = xs \<and> y # bs = us @ x # ys"
    by (auto simp: append_eq_append_conv2)
  then show thesis using that by (cases us) auto
qed

lemma StepInOrder_eq:
  "iter \<noteq> NULL \<Longrightarrow> get_child m iter d1 = Inr c \<Longrightarrow>
   StepInOrder fuel m iter d1 d2 = (if c \<noteq> NULL then bindE (extreme fuel m d2 c) NodeToIter else StepInOrder_climb fuel m d1 iter)"
  by (cases d2) (simp_all add: StepInOrder_def Leftmost_def Rightmost_def)

lemma hd_nonnull: "btree m sd par t \<Longrightarrow> t \<noteq> Leaf \<Longrightarrow> fst (hd (inorder t)) \<noteq> NULL"
proof -
  assume t: "btree m sd par t" "t \<noteq> Leaf"
  then have "hd (inorder t) \<in> set (inorder t)" by (intro hd_in_set) (cases t, auto)
  then show ?thesis using btree_nonnull [OF t(1)] by (simp add: addrs_inorder)
qed

lemma child_of_root: "btree m sd par t \<Longrightarrow> t \<noteq> Leaf \<Longrightarrow> get_parent m (addr t) = Inr par"
  by (cases t) (auto simp: access)

text \<open>One step inside a subtree, towards the side \<open>other sd\<close>.\<close>

lemma step_inside:
  assumes "btree m sd par t" "once t" "inorder t = xs @ x # ys" "ys \<noteq> []" "size t < fuel"
  shows "StepInOrder fuel m (fst x) (other sd) sd = Inr (fst (hd ys))"
  using assms
proof (induction t arbitrary: par xs ys)
  case (Node l y r)
  have yr: "get_child m (fst y) (other sd) = Inr (addr r)" "fst y \<noteq> NULL" using Node.prems(1) by (auto simp: access)
  from Node.prems(3) have "inorder l @ y # inorder r = xs @ x # ys" by simp
  then show ?case
  proof (cases rule: split_around)
    case (1 ys')
    show ?thesis
    proof (cases "ys' = []")
      case False
      then show ?thesis using Node.IH(1) [of "fst y" xs ys'] Node.prems 1 by auto
    next
      case True
      have l: "btree m sd (fst y) l" "inorder l = xs @ [x]" "once l" "l \<noteq> Leaf" using Node.prems 1 True by auto
      have x: "fst x \<in> addrs l" using 1(1) by (simp add: addrs_inorder)
      have "get_child m (fst x) (other sd) = Inr NULL" using last_no_child l(1,2) .
      moreover obtain f' where f': "f' \<ge> fuel - size l"
        "StepInOrder_climb (size l + (fuel - size l)) m (other sd) (fst x) = StepInOrder_climb f' m (other sd) (addr l)"
        using climb_last [OF l(1,2,3)] by blast
      obtain g where g: "f' = Suc g" using f'(1) Node.prems(5) by (cases f') auto
      have "addr l \<noteq> addr r"
        using Node.prems(2) addr_in [OF l(4)] addr_in [of r] btree_nonnull [OF l(1) addr_in [OF l(4)]] by (cases "r = Leaf") auto
      ultimately have "StepInOrder fuel m (fst x) (other sd) sd = NodeToIter (fst y)"
        using f'(2) g child_of_root [OF l(1,4)] yr Node.prems(5) btree_nonnull [OF l(1) x] by (simp add: StepInOrder_eq)
      then show ?thesis using yr(2) 1 True by (simp add: NodeToIter_def)
    qed
  next
    case 2
    then have "r \<noteq> Leaf" using Node.prems(4) by auto
    moreover have "btree m sd (fst y) r" "once r" "size r < fuel" using Node.prems by auto
    ultimately show ?thesis using extreme_ok [of m sd "fst y" r fuel] yr hd_nonnull [of m sd "fst y" r] addr_NULL [of m sd "fst y" r] 2
      by (simp add: StepInOrder_eq NodeToIter_def)
  next
    case (3 xs')
    then show ?thesis using Node.IH(2) [of "fst y" xs' ys] Node.prems by auto
  qed
qed simp

lemma bst_rep_stub:
  assumes "bst_rep m stub t"
  shows "get_parent m stub = Inr NULL" "get_child m stub LEFT = Inr (addr t)" "get_child m stub RIGHT = Inr stub" "stub \<noteq> NULL"
    "btree m LEFT stub t" "once t" "stub \<notin> addrs t"
  using assms by (auto simp: bst_rep_def access)

lemma btree_parent: "btree m sd par t \<Longrightarrow> a \<in> addrs t \<Longrightarrow> \<exists>p. get_parent m a = Inr p \<and> p \<in> insert par (addrs t)"
  by (induction t arbitrary: par) (fastforce simp: access)+

lemma BSTNext_ok:
  assumes rep: "bst_rep m stub t" and at: "inorder t = xs @ x # ys" and fuel: "size t < fuel"
  shows "BSTNext fuel m (fst x) = Inr (first_of ys stub)"
proof -
  note st = bst_rep_stub [OF rep]
  have x: "fst x \<in> addrs t" using at by (simp add: addrs_inorder)
  obtain p where p: "get_parent m (fst x) = Inr p" "p \<noteq> NULL"
    using btree_parent [OF st(5) x] st(4) btree_nonnull [OF st(5)] by auto
  have "StepInOrder fuel m (fst x) RIGHT LEFT = Inr (first_of ys stub)"
  proof (cases ys)
    case Nil
    have l: "inorder t = xs @ [x]" using at Nil by simp
    have "t \<noteq> Leaf" using at by auto
    obtain f' where f': "f' \<ge> fuel - size t" "StepInOrder_climb (size t + (fuel - size t)) m (other LEFT) (fst x) = StepInOrder_climb f' m (other LEFT) (addr t)"
      using climb_last [OF st(5) l st(6)] by blast
    obtain g where g: "f' = Suc g" using f'(1) fuel by (cases f') auto
    have "addr t \<noteq> stub" using st(7) addr_in [OF \<open>t \<noteq> Leaf\<close>] by auto
    then show ?thesis
      using f'(2) g child_of_root [OF st(5) \<open>t \<noteq> Leaf\<close>] st(3,4) last_no_child [OF st(5) l] btree_nonnull [OF st(5) x] fuel Nil
      by (simp add: StepInOrder_eq NodeToIter_def)
  next
    case (Cons y ys')
    then show ?thesis using step_inside [OF st(5,6) at _ fuel] by (cases y) simp
  qed
  with p show ?thesis by (simp add: BSTNext_def)
qed

lemma IsBegin_first:
  assumes "btree m LEFT par t" "once t" "inorder t = x # ys"
  shows "get_child m (fst x) LEFT = Inr NULL \<and>
    (\<exists>f' \<ge> fuel. IsBegin_loop (size t + fuel) m (fst x) = IsBegin_loop f' m (addr t))"
  using assms
proof (induction t arbitrary: par ys fuel)
  case (Node l y r)
  show ?case
  proof (cases "l = Leaf")
    case True
    then show ?thesis using Node.prems(1,3) by (auto simp: access intro!: exI [of _ "Suc (size r + fuel)"])
  next
    case False
    then obtain zs where zs: "inorder l = x # zs" using Node.prems(3) by (cases "inorder l") auto
    have "get_child m (fst x) LEFT = Inr NULL \<and>
      (\<exists>f' \<ge> Suc (size r + fuel). IsBegin_loop (size l + Suc (size r + fuel)) m (fst x) = IsBegin_loop f' m (addr l))"
      using Node.IH(1) [of "fst y" zs "Suc (size r + fuel)"] Node.prems(1,2) zs by auto
    then obtain f' where f': "f' \<ge> Suc (size r + fuel)" "get_child m (fst x) LEFT = Inr NULL"
      "IsBegin_loop (size (Node l y r) + fuel) m (fst x) = IsBegin_loop f' m (addr l)" by (auto simp: ac_simps)
    obtain g where g: "f' = Suc g" using f'(1) by (cases f') auto
    have l: "btree m LEFT (fst y) l" using Node.prems(1) by simp
    have "addr l \<noteq> addr r"
      using Node.prems(2) addr_in [OF False] addr_in [of r] btree_nonnull [OF l addr_in [OF False]] by (cases "r = Leaf") auto
    moreover have "get_child m (fst y) RIGHT = Inr (addr r)" "fst y \<noteq> NULL" using Node.prems(1) by (auto simp: access)
    ultimately have "IsBegin_loop f' m (addr l) = IsBegin_loop g m (fst y)" using g child_of_root [OF l False] by simp
    with f' g show ?thesis by (auto intro!: exI [of _ g])
  qed
qed simp

lemma IsBegin_inside:
  assumes "btree m LEFT par t" "once t" "inorder t = xs @ x # ys" "xs \<noteq> []" "size t < fuel"
  shows "IsBegin fuel m (fst x) = Inr 0"
  using assms
proof (induction t arbitrary: par xs ys)
  case (Node l y r)
  from Node.prems(3) have "inorder l @ y # inorder r = xs @ x # ys" by simp
  then show ?case
  proof (cases rule: split_around)
    case (1 ys')
    then show ?thesis using Node.IH(1) [of "fst y" xs ys'] Node.prems by auto
  next
    case 2
    then have "addr l \<noteq> NULL" using Node.prems(1,4) addr_NULL by auto
    then show ?thesis using 2 Node.prems(1) by (simp add: IsBegin_def access)
  next
    case (3 xs')
    show ?thesis
    proof (cases "xs' = []")
      case False
      then show ?thesis using Node.IH(2) [of "fst y" xs' ys] Node.prems 3 by auto
    next
      case True
      have r: "btree m LEFT (fst y) r" "once r" "inorder r = x # ys" "r \<noteq> Leaf" using Node.prems 3 True by auto
      obtain f' where f': "f' \<ge> fuel - size r" "get_child m (fst x) LEFT = Inr NULL"
        "IsBegin_loop (size r + (fuel - size r)) m (fst x) = IsBegin_loop f' m (addr r)"
        using IsBegin_first [OF r(1-3)] by blast
      obtain g where g: "f' = Suc g" using f'(1) Node.prems(5) by (cases f') auto
      have "get_child m (fst y) RIGHT = Inr (addr r)" "fst y \<noteq> NULL" using Node.prems(1) by (auto simp: access)
      then show ?thesis using f'(2,3) g child_of_root [OF r(1,4)] Node.prems(5) by (simp add: IsBegin_def)
    qed
  qed
qed simp

lemma BSTPrev_ok:
  assumes rep: "bst_rep m stub t" and at: "inorder t = xs @ x # ys" and fuel: "size t < fuel" and xs: "xs \<noteq> []"
  shows "BSTPrev fuel m (fst x) = Inr (fst (last xs))"
proof -
  note st = bst_rep_stub [OF rep]
  have m: "btree m RIGHT stub (mirror t)" using btree_mirror [of m LEFT stub t] st(5) by simp
  have "inorder (mirror t) = rev ys @ x # rev xs" using at by (simp add: inorder_mirror)
  from step_inside [OF m _ this] have "StepInOrder fuel m (fst x) LEFT RIGHT = Inr (fst (last xs))"
    using st(6) xs fuel by (simp add: hd_rev)
  then show ?thesis using IsBegin_inside [OF st(5,6) at xs fuel] by (simp add: BSTPrev_def)
qed

lemma BSTPrev_end:
  assumes rep: "bst_rep m stub t" and fuel: "size t < fuel" and t: "t \<noteq> Leaf"
  shows "BSTPrev fuel m stub = Inr (fst (last (inorder t)))"
proof -
  note st = bst_rep_stub [OF rep]
  have m: "btree m RIGHT stub (mirror t)" using btree_mirror [of m LEFT stub t] st(5) by simp
  have ne: "addr t \<noteq> NULL" "mirror t \<noteq> Leaf" using addr_NULL [OF st(5)] t by (auto simp: mirror_Leaf)
  have "extreme fuel m RIGHT (addr t) = Inr (fst (last (inorder t)))"
    using extreme_ok [OF m ne(2)] st(6) fuel by (simp add: inorder_mirror hd_rev)
  moreover have "fst (last (inorder t)) \<noteq> NULL" using hd_nonnull [OF m ne(2)] by (simp add: inorder_mirror hd_rev)
  ultimately show ?thesis using st(2,4) ne(1) by (simp add: BSTPrev_def IsBegin_def StepInOrder_eq NodeToIter_def)
qed

lemma BSTEnd_ok: "bst_rep m (b_stub tree) t \<Longrightarrow> BSTEnd m tree = Inr (b_stub tree)"
  using bst_rep_stub [of m "b_stub tree" t] by (simp add: BSTEnd_def NodeToIter_def)

lemma BSTBegin_ok:
  assumes rep: "bst_rep m (b_stub tree) t" and fuel: "size t < fuel"
  shows "BSTBegin fuel m tree = Inr (first_of (inorder t) (b_stub tree))"
proof (cases t)
  case Leaf
  then show ?thesis using BSTEnd_ok [OF rep] bst_rep_stub(2) [OF rep] by (simp add: BSTBegin_def Root_def)
next
  case (Node l x r)
  note st = bst_rep_stub [OF rep]
  have "t \<noteq> Leaf" "addr t \<noteq> NULL" using Node addr_NULL [OF st(5)] by auto
  moreover obtain z zs where z: "inorder t = z # zs" using Node by (cases "inorder t") auto
  ultimately show ?thesis
    using st(2) extreme_ok [OF st(5) _ st(6) fuel] hd_nonnull [OF st(5)]
    by (cases z) (simp add: BSTBegin_def Root_def Leftmost_def NodeToIter_def)
qed

lemma btree_data: "btree m sd par t \<Longrightarrow> x \<in> set (inorder t) \<Longrightarrow> BSTGetData m (fst x) = Inr (snd x)"
  by (induction t arbitrary: par) (auto simp: BSTGetData_def node_at_def)

lemma BSTForEach_loop_ok:
  assumes rep: "bst_rep m stub t"
  shows "inorder t = xs @ ys @ zs \<Longrightarrow> size t + length ys < fuel \<Longrightarrow>
    BSTForEach_loop fuel m (first_of (ys @ zs) stub) (first_of zs stub) f s = Inr (each_spec f (map snd ys) s)"
proof (induction ys arbitrary: xs fuel s)
  case Nil
  then show ?case by (cases fuel) (simp_all add: BSTIterIsSame_def)
next
  case (Cons y ys)
  note st = bst_rep_stub [OF rep]
  obtain g where g: "fuel = Suc g" "size t + length ys < g" using Cons.prems(2) by (cases fuel) auto
  have in_t: "y \<in> set (inorder t)" using Cons.prems(1) by simp
  have "fst y \<noteq> first_of zs stub"
  proof (cases zs)
    case Nil
    then show ?thesis using in_t st(7) by (auto simp: addrs_inorder)
  next
    case (Cons z zs')
    then show ?thesis using Cons.prems(1) st(6) by (cases z) (auto simp: once_distinct)
  qed
  moreover have "BSTNext g m (fst y) = Inr (first_of (ys @ zs) stub)"
    using BSTNext_ok [OF rep, of xs y "ys @ zs" g] Cons.prems(1) g(2) by simp
  ultimately show ?case
    using Cons.IH [of "xs @ [y]" g] Cons.prems(1) g btree_data [OF st(5) in_t]
    by (cases y; cases "f (snd y) s") (simp add: BSTIterIsSame_def Let_def)
qed

lemma BSTForEach_ok:
  assumes rep: "bst_rep m stub t" and at: "inorder t = xs @ ys @ zs" and fuel: "size t + length ys < fuel"
  shows "BSTForEach fuel m (first_of (ys @ zs) stub) (first_of zs stub) f s = Inr (each_spec f (map snd ys) s)"
proof -
  have "first_of ws stub \<noteq> NULL" if "set ws \<subseteq> set (inorder t)" for ws
    using that bst_rep_stub(4) [OF rep] btree_nonnull [OF bst_rep_stub(5) [OF rep]] by (cases ws) (force simp: addrs_inorder)+
  moreover have "set (ys @ zs) \<subseteq> set (inorder t)" "set zs \<subseteq> set (inorder t)" using at by auto
  ultimately have "first_of (ys @ zs) stub \<noteq> NULL" "first_of zs stub \<noteq> NULL" by blast+
  then show ?thesis using BSTForEach_loop_ok [OF rep at fuel] by (simp add: BSTForEach_def)
qed

lemma each_AddOne: "n + length xs < 2 ^ 64 \<Longrightarrow> each_spec AddOne xs n = (n + length xs, 0)"
  by (induction xs arbitrary: n) (auto simp: AddOne_def)

lemma BSTSize_ok:
  assumes rep: "bst_rep m (b_stub tree) t" and fuel: "2 * size t < fuel" and small: "size t < 2 ^ 64"
  shows "BSTSize fuel m tree = Inr (size t)"
  using BSTBegin_ok [OF rep] BSTEnd_ok [OF rep] fuel small each_AddOne [of 0 "map snd (inorder t)"]
    BSTForEach_ok [OF rep, of "[]" "inorder t" "[]" fuel AddOne 0] by (simp add: BSTSize_def)

section \<open>Search and insertion\<close>

lemma find_append: "List.find P (xs @ ys) = (case List.find P xs of None \<Rightarrow> List.find P ys | Some x \<Rightarrow> Some x)"
  by (induction xs) auto

primrec bins :: "(ptr \<Rightarrow> ptr \<Rightarrow> int) \<Rightarrow> ptr \<times> ptr \<Rightarrow> atree \<Rightarrow> atree" where
  "bins cmpf x Leaf = Node Leaf x Leaf"
| "bins cmpf x (Node l y r) = (if cmpf (snd x) (snd y) > 0 then Node l y (bins cmpf x r) else Node (bins cmpf x l) y r)"

lemma addr_bins: "addr (bins cmpf x t) = (if t = Leaf then fst x else addr t)"
  by (cases t) auto

lemma addrs_bins [simp]: "addrs (bins cmpf x t) = insert (fst x) (addrs t)"
  by (induction t) auto

lemma once_bins: "once t \<Longrightarrow> fst x \<notin> addrs t \<Longrightarrow> once (bins cmpf x t)"
  by (induction t) auto

definition key_sorted :: "(ptr \<Rightarrow> ptr \<Rightarrow> int) \<Rightarrow> (ptr \<times> ptr) list \<Rightarrow> bool" where
  "key_sorted cmpf xs = sorted_wrt (\<lambda>x y. cmpf (snd x) (snd y) < 0) xs"

lemma key_sorted_node:
  "key_sorted cmpf (xs @ y # zs) \<longleftrightarrow> key_sorted cmpf xs \<and> key_sorted cmpf zs \<and>
     (\<forall>x \<in> set xs. cmpf (snd x) (snd y) < 0) \<and> (\<forall>z \<in> set zs. cmpf (snd y) (snd z) < 0) \<and>
     (\<forall>x \<in> set xs. \<forall>z \<in> set zs. cmpf (snd x) (snd z) < 0)"
  by (auto simp: key_sorted_def sorted_wrt_append)

context cmp_order
begin

lemma above_every:
  assumes "0 < cmp k y" "cmp x y < 0"
  shows "0 < cmp k x"
  using cmp_less_trans [OF assms(2), of k] cmp_gt_le [OF assms(1)] cmp_swap [of k x] by simp

lemma below_every:
  assumes "cmp k y < 0" "cmp y z < 0"
  shows "cmp k z < 0"
  using cmp_less_trans [OF assms(1), of z] assms(2) by simp

lemma equal_split:
  assumes "cmp k y = 0"
  shows "cmp x y < 0 \<Longrightarrow> 0 < cmp k x" "cmp y z < 0 \<Longrightarrow> cmp k z < 0"
proof -
  assume "cmp x y < 0"
  moreover have "cmp y k \<le> 0" using assms cmp_eq_sym [of k y] by simp
  ultimately show "0 < cmp k x" using cmp_less_trans [of x y k] cmp_swap [of k x] by simp
next
  assume "cmp y z < 0"
  then show "cmp k z < 0" using cmp_le_less_trans [of k y z] assms by simp
qed

end

text \<open>In a sorted list an element on one side of the key excludes everything beyond it.\<close>

lemma find_node:
  assumes ord: "cmp_order cmpf" and srt: "key_sorted cmpf (xs @ y # zs)"
  shows "List.find (\<lambda>x. cmpf k (snd x) = 0) (xs @ y # zs) =
    (if cmpf k (snd y) = 0 then Some y
     else List.find (\<lambda>x. cmpf k (snd x) = 0) (if cmpf k (snd y) > 0 then zs else xs))"
proof -
  have left: "List.find (\<lambda>x. cmpf k (snd x) = 0) xs = None" if "0 \<le> cmpf k (snd y)"
    using that srt cmp_order.above_every [OF ord] cmp_order.equal_split(1) [OF ord]
    by (fastforce simp: find_None_iff key_sorted_node order_le_less)
  have right: "List.find (\<lambda>x. cmpf k (snd x) = 0) zs = None" if "cmpf k (snd y) < 0"
    using that srt cmp_order.below_every [OF ord] by (fastforce simp: find_None_iff key_sorted_node)
  show ?thesis using left right by (auto simp: find_append split: option.splits)
qed

lemma FindNode_loop_ok:
  assumes "cmp_order cmpf" "btree m LEFT par t" "key_sorted cmpf (inorder t)" "size t < fuel"
  shows "FindNode_loop fuel m cmpf key (addr t) =
    Inr (case List.find (\<lambda>x. cmpf key (snd x) = 0) (inorder t) of None \<Rightarrow> NULL | Some x \<Rightarrow> fst x)"
  using assms(2-4)
proof (induction t arbitrary: par fuel)
  case Leaf
  then show ?case by (cases fuel) auto
next
  case (Node l x r)
  obtain f where f: "fuel = Suc f" "size l < f" "size r < f" using Node.prems(3) by (cases fuel) auto
  have srt: "key_sorted cmpf (inorder l)" "key_sorted cmpf (inorder r)" using Node.prems(2) by (auto simp: key_sorted_node)
  have node: "node_at m (fst x) = Inr \<lparr>bn_parent = par, bn_children = \<lambda>s. if s = LEFT then addr l else addr r, bn_data = snd x\<rparr>"
    using Node.prems(1) by (simp add: node_at_def)
  have find: "List.find (\<lambda>x. cmpf key (snd x) = 0) (inorder (Node l x r)) =
    (if cmpf key (snd x) = 0 then Some x
     else List.find (\<lambda>x. cmpf key (snd x) = 0) (if cmpf key (snd x) > 0 then inorder r else inorder l))"
    using find_node [OF assms(1)] Node.prems(2) by simp
  have loop: "FindNode_loop fuel m cmpf key (addr (Node l x r)) =
    (if cmpf key (snd x) = 0 then Inr (fst x) else FindNode_loop f m cmpf key (if cmpf key (snd x) > 0 then addr r else addr l))"
    using Node.prems(1) f(1) node by simp
  show ?case unfolding loop find
    using Node.IH(1) [of "fst x" f] Node.IH(2) [of "fst x" f] Node.prems(1) f(2,3) srt by simp
qed

lemma BSTFind_ok:
  assumes ord: "cmp_order (b_cmp tree)" and rep: "bst_rep m (b_stub tree) t" and srt: "key_sorted (b_cmp tree) (inorder t)"
    and fuel: "size t < fuel" and key: "key \<noteq> NULL"
  shows "BSTFind fuel m tree key =
    Inr (case List.find (\<lambda>x. b_cmp tree key (snd x) = 0) (inorder t) of None \<Rightarrow> b_stub tree | Some x \<Rightarrow> fst x)"
proof -
  note st = bst_rep_stub [OF rep]
  have "fst x \<noteq> NULL" if "List.find (\<lambda>x. b_cmp tree key (snd x) = 0) (inorder t) = Some x" for x
  proof -
    from that have "x \<in> set (inorder t)" by (metis find_Some_iff nth_mem)
    then show ?thesis using btree_nonnull [OF st(5), of "fst x"] by (simp add: addrs_inorder)
  qed
  then show ?thesis
    using FindNode_loop_ok [OF ord st(5) srt fuel] st(2) key BSTEnd_ok [OF rep]
    by (auto simp: BSTFind_def FindNode_def Root_def NodeToIter_def split: option.splits)
qed

lemma inorder_bins:
  assumes "cmp_order cmpf" "key_sorted cmpf (inorder t)" "\<forall>y \<in> set (inorder t). cmpf (snd x) (snd y) \<noteq> 0"
  shows "inorder (bins cmpf x t) =
    filter (\<lambda>y. 0 < cmpf (snd x) (snd y)) (inorder t) @ x # filter (\<lambda>y. \<not> 0 < cmpf (snd x) (snd y)) (inorder t)"
  using assms(2,3)
proof (induction t)
  case (Node l y r)
  have srt: "key_sorted cmpf (inorder l)" "key_sorted cmpf (inorder r)" and ly: "\<forall>z \<in> set (inorder l). cmpf (snd z) (snd y) < 0"
    and yr: "\<forall>z \<in> set (inorder r). cmpf (snd y) (snd z) < 0" using Node.prems(1) by (auto simp: key_sorted_node)
  have ih: "inorder (bins cmpf x t) =
    filter (\<lambda>y. 0 < cmpf (snd x) (snd y)) (inorder t) @ x # filter (\<lambda>y. \<not> 0 < cmpf (snd x) (snd y)) (inorder t)" if "t = l \<or> t = r" for t
    using that Node.IH srt Node.prems(2) by auto
  show ?case
  proof (cases "0 < cmpf (snd x) (snd y)")
    case True
    then have "\<forall>z \<in> set (inorder l). 0 < cmpf (snd x) (snd z)" using ly cmp_order.above_every [OF assms(1)] by blast
    then have "filter (\<lambda>y. 0 < cmpf (snd x) (snd y)) (inorder l) = inorder l" "filter (\<lambda>y. \<not> 0 < cmpf (snd x) (snd y)) (inorder l) = []"
      by (simp_all add: filter_id_conv filter_empty_conv)
    with True ih [of r] show ?thesis by simp
  next
    case False
    with Node.prems(2) have "cmpf (snd x) (snd y) < 0" by (simp add: order_less_le)
    then have "\<forall>z \<in> set (inorder r). \<not> 0 < cmpf (snd x) (snd z)" using yr cmp_order.below_every [OF assms(1)] by (meson order_less_asym)
    then have "filter (\<lambda>y. 0 < cmpf (snd x) (snd y)) (inorder r) = []" "filter (\<lambda>y. \<not> 0 < cmpf (snd x) (snd y)) (inorder r) = inorder r"
      by (simp_all add: filter_id_conv filter_empty_conv)
    with False ih [of l] show ?thesis by simp
  qed
qed simp

text \<open>
  The descent ends at the node \<open>q\<close> below which the new one belongs; linking the new node there, and
  changing nothing else in the tree, inserts it.
\<close>

definition insert_at :: "bst_store \<Rightarrow> (ptr \<Rightarrow> ptr \<Rightarrow> int) \<Rightarrow> ptr \<times> ptr \<Rightarrow> ptr \<Rightarrow> atree \<Rightarrow> ptr \<Rightarrow> int \<Rightarrow> bst_node \<Rightarrow> bool" where
  "insert_at m cmpf x par t q c n \<longleftrightarrow>
     c \<noteq> 0 \<and> q \<in> addrs t \<and> m q = Some n \<and>
     (\<forall>m'. (\<forall>a \<in> addrs t - {q}. m' a = m a) \<longrightarrow>
       m' q = Some (n\<lparr>bn_children := (bn_children n)((if c < 0 then LEFT else RIGHT) := fst x)\<rparr>) \<longrightarrow>
       fst x \<noteq> NULL \<longrightarrow> m' (fst x) = Some \<lparr>bn_parent = q, bn_children = \<lambda>_. NULL, bn_data = snd x\<rparr> \<longrightarrow>
       btree m' LEFT par (bins cmpf x t))"

lemma insert_here:
  assumes t: "btree m LEFT par (Node l y r)" "once (Node l y r)" and c: "cmpf (snd x) (snd y) \<noteq> 0"
    and free: "(if 0 < cmpf (snd x) (snd y) then r else l) = Leaf"
  shows "insert_at m cmpf x par (Node l y r) (fst y) (cmpf (snd x) (snd y)) (the (m (fst y)))"
proof -
  have "btree m' LEFT (fst y) l \<and> btree m' LEFT (fst y) r" if "\<forall>a \<in> addrs (Node l y r) - {fst y}. m' a = m a" for m'
  proof -
    have "m' a = m a" if "a \<in> addrs l \<union> addrs r" for a
      using that t(2) \<open>\<forall>a \<in> addrs (Node l y r) - {fst y}. m' a = m a\<close> by auto
    then show ?thesis using t(1) by (auto intro: btree_frame)
  qed
  then show ?thesis using t(1) c free by (auto simp: insert_at_def fun_eq_iff split: if_splits)
qed

lemma insert_below:
  assumes t: "btree m LEFT par (Node l y r)" "once (Node l y r)"
    and s: "s = (if 0 < cmpf (snd x) (snd y) then r else l)" "s \<noteq> Leaf" and ins: "insert_at m cmpf x (fst y) s q c n"
  shows "insert_at m cmpf x par (Node l y r) q c n"
proof -
  let ?o = "if 0 < cmpf (snd x) (snd y) then l else r"
  have q: "c \<noteq> 0" "q \<in> addrs s" "m q = Some n" using ins by (auto simp: insert_at_def)
  have sets: "q \<notin> addrs ?o" "q \<noteq> fst y" "addrs s \<subseteq> addrs (Node l y r)" "addrs ?o \<subseteq> addrs (Node l y r)"
    using q(2) t(2) s(1) by (auto split: if_splits)
  have "btree m' LEFT par (bins cmpf x (Node l y r))"
    if a: "\<forall>a \<in> addrs (Node l y r) - {q}. m' a = m a"
      and b: "m' q = Some (n\<lparr>bn_children := (bn_children n)((if c < 0 then LEFT else RIGHT) := fst x)\<rparr>)"
      "fst x \<noteq> NULL" "m' (fst x) = Some \<lparr>bn_parent = q, bn_children = \<lambda>_. NULL, bn_data = snd x\<rparr>" for m'
  proof -
    have "btree m' LEFT (fst y) (bins cmpf x s)" using ins a b sets(3) unfolding insert_at_def by blast
    moreover have "btree m LEFT (fst y) ?o" using t(1) by simp
    then have "btree m' LEFT (fst y) ?o" by (rule btree_frame) (use a sets(1,4) in blast)
    moreover have "m' (fst y) = m (fst y)" using a sets(2) by simp
    ultimately show ?thesis using t(1) s by (auto simp: addr_bins split: if_splits)
  qed
  then show ?thesis using q sets(3) unfolding insert_at_def by blast
qed

lemma BSTInsert_loop_ok:
  assumes "btree m LEFT par t" "t \<noteq> Leaf" "once t" "\<forall>y \<in> set (inorder t). cmpf (snd x) (snd y) \<noteq> 0" "size t < fuel"
  shows "\<exists>q c n. BSTInsert_loop fuel m cmpf (snd x) (addr t) p0 c0 = Inr (q, c) \<and> insert_at m cmpf x par t q c n"
  using assms
proof (induction t arbitrary: par fuel p0 c0)
  case (Node l y r)
  obtain f where f: "fuel = Suc f" "size l < f" "size r < f" using Node.prems(5) by (cases fuel) auto
  let ?c = "cmpf (snd x) (snd y)" and ?s = "if 0 < cmpf (snd x) (snd y) then r else l"
  have c: "?c \<noteq> 0" using Node.prems(4) by simp
  have loop: "BSTInsert_loop fuel m cmpf (snd x) (addr (Node l y r)) p0 c0 = BSTInsert_loop f m cmpf (snd x) (addr ?s) (fst y) ?c"
    using Node.prems(1) c f(1) by (simp add: node_at_def)
  show ?case
  proof (cases "?s = Leaf")
    case True
    have "BSTInsert_loop f m cmpf (snd x) (addr ?s) (fst y) ?c = Inr (fst y, ?c)" using True f by (cases f) auto
    then show ?thesis using insert_here [of m par l y r cmpf x] Node.prems(1,3) c True loop by metis
  next
    case False
    have "\<exists>q c n. BSTInsert_loop f m cmpf (snd x) (addr ?s) (fst y) ?c = Inr (q, c) \<and> insert_at m cmpf x (fst y) ?s q c n"
      using Node.IH(1) [of "fst y" f "fst y" ?c] Node.IH(2) [of "fst y" f "fst y" ?c] Node.prems f False by (cases "0 < ?c") auto
    then show ?thesis using insert_below [OF Node.prems(1,3), of ?s cmpf x] False loop by metis
  qed
qed simp

lemma BSTInsert_ok:
  assumes rep: "bst_rep m (b_stub tree) t" and new: "a \<noteq> NULL" "m a = None" and d: "d \<noteq> NULL"
    and keys: "\<forall>y \<in> set (inorder t). b_cmp tree d (snd y) \<noteq> 0" and fuel: "size t < fuel"
  shows "\<exists>m'. BSTInsert fuel (Some a) m tree d = Inr (m', a) \<and> bst_rep m' (b_stub tree) (bins (b_cmp tree) (a, d) t) \<and>
    (\<forall>b. b \<notin> insert (b_stub tree) (insert a (addrs t)) \<longrightarrow> m' b = m b)"
proof -
  note st = bst_rep_stub [OF rep]
  let ?n = "\<lparr>bn_parent = NULL, bn_children = \<lambda>_. NULL, bn_data = d\<rparr>" and ?m1 = "m(a \<mapsto> \<lparr>bn_parent = NULL, bn_children = \<lambda>_. NULL, bn_data = d\<rparr>)"
  have a: "a \<noteq> b_stub tree" "a \<notin> addrs t" using new rep btree_allocated [OF st(5), of a] by (auto simp: bst_rep_def)
  have rep1: "bst_rep ?m1 (b_stub tree) t" using rep a by (auto simp: bst_rep_def intro: btree_frame)
  note st1 = bst_rep_stub [OF rep1]
  show ?thesis
  proof (cases "t = Leaf")
    case True
    have "(\<lambda>s. if s = LEFT then addr Leaf else b_stub tree)(LEFT := a) = (\<lambda>s. if s = LEFT then addr (Node Leaf (a, d) Leaf) else b_stub tree)"
      by (auto simp: fun_eq_iff)
    then show ?thesis using True rep st(2,4) st1(2) a new d
      by (auto simp: BSTInsert_def CreateNode_def Root_def BSTIsEmpty_def NodeToIter_def Let_def access bst_rep_def)
  next
    case False
    obtain q c n where q: "BSTInsert_loop fuel ?m1 (b_cmp tree) d (addr t) (b_stub tree) 0 = Inr (q, c)"
      "insert_at ?m1 (b_cmp tree) (a, d) (b_stub tree) t q c n"
      using BSTInsert_loop_ok [OF st1(5) False st(6), of "b_cmp tree" "(a, d)" fuel "b_stub tree" 0] keys fuel by auto
    have qt: "q \<in> addrs t" "c \<noteq> 0" "m q = Some n" "q \<noteq> NULL" "q \<noteq> a" "q \<noteq> b_stub tree"
      using q(2) a st(7) btree_nonnull [OF st(5)] by (auto simp: insert_at_def split: if_splits)
    let ?side = "if c < 0 then LEFT else RIGHT"
    let ?m2 = "?m1(a \<mapsto> ?n\<lparr>bn_parent := q\<rparr>)" let ?m3 = "?m2(q \<mapsto> n\<lparr>bn_children := (bn_children n)(?side := a)\<rparr>)"
    have "btree ?m3 LEFT (b_stub tree) (bins (b_cmp tree) (a, d) t)"
      using q(2) qt(5) new(1) a(2) unfolding insert_at_def by auto
    moreover have "addr t \<noteq> NULL" using addr_NULL [OF st(5)] False by simp
    ultimately have "bst_rep ?m3 (b_stub tree) (bins (b_cmp tree) (a, d) t)"
      using rep qt(6) a False by (auto simp: bst_rep_def addr_bins once_bins)
    moreover have "BSTInsert fuel (Some a) m tree d = Inr (?m3, a)"
      using q(1) qt(3,4,5) \<open>addr t \<noteq> NULL\<close> st(2) st1(2) new(1) d
      by (auto simp: BSTInsert_def CreateNode_def Root_def BSTIsEmpty_def NodeToIter_def access fun_upd_twist)
    ultimately show ?thesis using qt(1) by auto
  qed
qed

section \<open>Removal\<close>

text \<open>The subtree below an address, and the tree with another one in its place.\<close>

primrec subtree_at :: "ptr \<Rightarrow> atree \<Rightarrow> atree" where
  "subtree_at a Leaf = Leaf"
| "subtree_at a (Node l y r) = (if fst y = a then Node l y r else if a \<in> addrs l then subtree_at a l else subtree_at a r)"

primrec graft :: "ptr \<Rightarrow> atree \<Rightarrow> atree \<Rightarrow> atree" where
  "graft a s Leaf = Leaf"
| "graft a s (Node l y r) = (if fst y = a then s else Node (graft a s l) y (graft a s r))"

lemma graft_id [simp]: "a \<notin> addrs t \<Longrightarrow> graft a s t = t"
  by (induction t) auto

lemma addr_graft: "t \<noteq> Leaf \<Longrightarrow> addr (graft a s t) = (if addr t = a then addr s else addr t)"
  by (cases t) auto

lemma subtree_inorder:
  "once t \<Longrightarrow> a \<in> addrs t \<Longrightarrow>
   \<exists>pre post. inorder t = pre @ inorder (subtree_at a t) @ post \<and> (\<forall>s. inorder (graft a s t) = pre @ inorder s @ post)"
proof (induction t)
  case (Node l y r)
  consider "fst y = a" | "fst y \<noteq> a" "a \<in> addrs l" "a \<notin> addrs r" | "fst y \<noteq> a" "a \<notin> addrs l" "a \<in> addrs r"
    using Node.prems by auto
  then show ?case
  proof cases
    case 1
    then show ?thesis by (intro exI [of _ "[]"]) simp
  next
    case 2
    with Node obtain pre post where "inorder l = pre @ inorder (subtree_at a l) @ post" "\<forall>s. inorder (graft a s l) = pre @ inorder s @ post" by auto
    then show ?thesis using 2 by (intro exI [of _ pre] exI [of _ "post @ y # inorder r"]) simp
  next
    case 3
    with Node obtain pre post where "inorder r = pre @ inorder (subtree_at a r) @ post" "\<forall>s. inorder (graft a s r) = pre @ inorder s @ post" by auto
    then show ?thesis using 3 by (intro exI [of _ "inorder l @ y # pre"] exI [of _ post]) simp
  qed
qed simp

lemma addrs_subtree: "addrs (subtree_at a t) \<subseteq> addrs t"
  by (induction t) auto

lemma subtree_addr: "a \<in> addrs t \<Longrightarrow> addr (subtree_at a t) = a \<and> subtree_at a t \<noteq> Leaf"
  by (induction t) auto

lemma addrs_graft:
  assumes "once t" "a \<in> addrs t" 
  shows "addrs (graft a s t) = addrs s \<union> (addrs t - addrs (subtree_at a t))"
proof -
  obtain pre post where i: "inorder t = pre @ inorder (subtree_at a t) @ post" "inorder (graft a s t) = pre @ inorder s @ post"
    using subtree_inorder [OF assms] by blast
  have "distinct (map fst (pre @ inorder (subtree_at a t) @ post))" using assms(1) i(1) once_distinct by metis
  then show ?thesis unfolding addrs_inorder i by auto
qed

lemma once_graft:
  assumes t: "once t" "a \<in> addrs t" and s: "once s" "addrs s \<inter> (addrs t - addrs (subtree_at a t)) = {}"
  shows "once (graft a s t)"
proof -
  obtain pre post where i: "inorder t = pre @ inorder (subtree_at a t) @ post" "inorder (graft a s t) = pre @ inorder s @ post"
    using subtree_inorder [OF t] by blast
  have d: "distinct (map fst (pre @ inorder (subtree_at a t) @ post))" using t(1) i(1) once_distinct by metis
  moreover have "addrs t - addrs (subtree_at a t) = fst ` (set pre \<union> set post)"
    using d unfolding addrs_inorder i(1) by auto
  ultimately show ?thesis using s unfolding once_distinct i(2) by (auto simp: addrs_inorder)
qed

lemma subtree_ok: "btree m sd par t \<Longrightarrow> once t \<Longrightarrow> a \<in> addrs t \<Longrightarrow> \<exists>p. btree m sd p (subtree_at a t) \<and> once (subtree_at a t)"
  by (induction t arbitrary: par) auto

text \<open>What links a node below its parent: the side the code computes.\<close>

definition side_of :: "bst_node \<Rightarrow> ptr \<Rightarrow> child_node_pos" where
  "side_of n a = (if bn_children n LEFT = a then LEFT else RIGHT)"

definition with_child :: "bst_node \<Rightarrow> child_node_pos \<Rightarrow> ptr \<Rightarrow> bst_node" where
  "with_child n side v = n\<lparr>bn_children := (bn_children n)(side := v)\<rparr>"

definition hangs :: "bst_store \<Rightarrow> ptr \<Rightarrow> atree \<Rightarrow> ptr \<Rightarrow> ptr \<Rightarrow> bst_node \<Rightarrow> bool" where
  "hangs m par t a p n \<longleftrightarrow>
     get_parent m a = Inr p \<and> m p = Some n \<and> p \<in> addrs t - addrs (subtree_at a t) \<and> bn_children n (side_of n a) = a \<and>
     (\<forall>m' s'. (\<forall>b \<in> addrs t - addrs (subtree_at a t) - {p}. m' b = m b) \<longrightarrow> m' p = Some (with_child n (side_of n a) (addr s')) \<longrightarrow>
       btree m' LEFT p s' \<longrightarrow> btree m' LEFT par (graft a s' t))"

lemma subtree_self: "t \<noteq> Leaf \<Longrightarrow> subtree_at (addr t) t = t \<and> graft (addr t) s t = s"
  by (cases t) auto

lemma hangs_child:
  assumes t: "btree m LEFT par (Node l y r)" "once (Node l y r)" and s: "s = l \<or> s = r" "s \<noteq> Leaf"
  shows "hangs m par (Node l y r) (addr s) (fst y) (the (m (fst y)))"
proof -
  let ?n = "\<lparr>bn_parent = par, bn_children = \<lambda>s. if s = LEFT then addr l else addr r, bn_data = snd y\<rparr>"
  have y: "fst y \<noteq> NULL" "m (fst y) = Some ?n" "btree m LEFT (fst y) l" "btree m LEFT (fst y) r" using t(1) by auto
  have s_in: "addr s \<in> addrs s" "addr s \<noteq> NULL" using addr_in [OF s(2)] addr_NULL [of m LEFT "fst y" s] s y(3,4) by auto
  have par: "get_parent m (addr s) = Inr (fst y)" using child_of_root [of m LEFT "fst y" s] s y(3,4) by auto
  have noty: "addr s \<noteq> fst y" using s_in(1) t(2) s(1) by auto
  show ?thesis
  proof (cases "s = l")
    case True
    have "addr s \<notin> addrs r" using s_in(1) t(2) True by auto
    then have sub: "subtree_at (addr s) (Node l y r) = l" "graft (addr s) s' (Node l y r) = Node s' y r" for s'
      using True s_in(1) noty subtree_self [OF s(2)] by auto
    have "btree m' LEFT (fst y) r" if "\<forall>b \<in> addrs (Node l y r) - addrs l - {fst y}. m' b = m b" for m'
      using y(4) by (rule btree_frame) (use that t(2) in auto)
    moreover have "(\<lambda>s. if s = LEFT then addr l else addr r)(LEFT := v) = (\<lambda>s. if s = LEFT then v else addr r)" for v by auto
    ultimately show ?thesis
      using par y t(2) True unfolding hangs_def sub by (auto simp: side_of_def with_child_def)
  next
    case False
    then have sr: "s = r" using s(1) by simp
    have "addr s \<notin> addrs l" using s_in(1) t(2) sr by auto
    then have sub: "subtree_at (addr s) (Node l y r) = r" "graft (addr s) s' (Node l y r) = Node l y s'" for s'
      using sr noty subtree_self [OF s(2)] by auto
    have "addr l \<noteq> addr s" using \<open>addr s \<notin> addrs l\<close> s_in(2) addr_in [of l] by (cases "l = Leaf") auto
    moreover have "btree m' LEFT (fst y) l" if "\<forall>b \<in> addrs (Node l y r) - addrs r - {fst y}. m' b = m b" for m'
      using y(3) by (rule btree_frame) (use that t(2) in auto)
    moreover have "(\<lambda>s. if s = LEFT then addr l else addr r)(RIGHT := v) = (\<lambda>s. if s = LEFT then addr l else v)" for v by auto
    ultimately show ?thesis
      using par y t(2) sr unfolding hangs_def sub by (auto simp: side_of_def with_child_def)
  qed
qed

lemma hangs_deeper:
  assumes t: "btree m LEFT par (Node l y r)" "once (Node l y r)" and s: "s = l \<or> s = r" "a \<in> addrs s" "a \<noteq> addr s"
    and h: "hangs m (fst y) s a p n"
  shows "hangs m par (Node l y r) a p n"
proof -
  have sub: "subtree_at a (Node l y r) = subtree_at a s" using t(2) s(1,2) by auto
  have p: "p \<in> addrs s" "p \<notin> addrs (subtree_at a s)" "p \<noteq> fst y" using h t(2) s(1) by (auto simp: hangs_def)
  have ne: "s \<noteq> Leaf" using s(2) by auto
  have in_s: "addrs (subtree_at a s) \<subseteq> addrs s" by (rule addrs_subtree)
  have "btree m' LEFT par (graft a s' (Node l y r))"
    if a: "\<forall>b \<in> addrs (Node l y r) - addrs (subtree_at a s) - {p}. m' b = m b"
      and b: "m' p = Some (with_child n (side_of n a) (addr s'))" "btree m' LEFT p s'" for m' s'
  proof -
    have g: "btree m' LEFT (fst y) (graft a s' s)" using h a b s(1) unfolding hangs_def by auto
    have o: "btree m' LEFT (fst y) u" if u: "u = l \<or> u = r" "u \<noteq> s" for u
    proof (rule btree_frame)
      show "btree m LEFT (fst y) u" using t(1) u by auto
      show "m' b = m b" if "b \<in> addrs u" for b using a that u s(1) t(2) p(1) in_s by auto
    qed
    have "m' (fst y) = m (fst y)" using a p(3) in_s t(2) s(1) by auto
    then show ?thesis
    proof (cases "s = l")
      case True
      then have "a \<notin> addrs r" using s(2) t(2) by auto
      then have "graft a s' (Node l y r) = Node (graft a s' l) y r" using s(2) t(2) True by auto
      moreover have "btree m' LEFT (fst y) r" using o [of r] True t(2) s(2) by (cases "r = l") auto
      ultimately show ?thesis using g True t(1) s(3) ne \<open>m' (fst y) = m (fst y)\<close> by (simp add: addr_graft cong: if_cong)
    next
      case False
      then have "s = r" "a \<notin> addrs l" using s t(2) by auto
      then have "graft a s' (Node l y r) = Node l y (graft a s' r)" "s = r" using s t(2) by auto
      moreover have "btree m' LEFT (fst y) l" using o [of l] False by auto
      ultimately show ?thesis using g t(1) s(3) ne \<open>m' (fst y) = m (fst y)\<close> by (simp add: addr_graft cong: if_cong)
    qed
  qed
  then show ?thesis using h sub s(1) unfolding hangs_def by auto
qed

lemma hangs_ok:
  "btree m LEFT par t \<Longrightarrow> once t \<Longrightarrow> a \<in> addrs t \<Longrightarrow> a \<noteq> addr t \<Longrightarrow> \<exists>p n. hangs m par t a p n"
proof (induction t arbitrary: par)
  case (Node l y r)
  define s where "s = (if a \<in> addrs l then l else r)"
  have s: "s = l \<or> s = r" "a \<in> addrs s" "s \<noteq> Leaf" using Node.prems(3,4) by (auto simp: s_def)
  show ?case
  proof (cases "a = addr s")
    case True
    then show ?thesis using hangs_child [OF Node.prems(1,2) s(1,3)] by blast
  next
    case False
    have "\<exists>p n. hangs m (fst y) s a p n" using Node.IH [of "fst y"] Node.prems(1,2) s(1,2) False by auto
    then show ?thesis using hangs_deeper [OF Node.prems(1,2) s(1,2) False] by blast
  qed
qed simp

lemma rep_graft:
  assumes rep: "bst_rep m stub t" and a: "a \<in> addrs t"
  shows "\<exists>p n. get_parent m a = Inr p \<and> m p = Some n \<and> p \<noteq> NULL \<and> p \<in> insert stub (addrs t) - addrs (subtree_at a t) \<and>
    bn_children n (side_of n a) = a \<and> (p = stub \<longrightarrow> side_of n a = LEFT) \<and>
    (\<forall>m' s'. (\<forall>b \<in> insert stub (addrs t) - addrs (subtree_at a t) - {p}. m' b = m b) \<longrightarrow>
       m' p = Some (with_child n (side_of n a) (addr s')) \<longrightarrow> btree m' LEFT p s' \<longrightarrow> once s' \<longrightarrow> addrs s' \<subseteq> addrs (subtree_at a t) \<longrightarrow>
       bst_rep m' stub (graft a s' t))"
proof -
  note st = bst_rep_stub [OF rep]
  let ?s = "subtree_at a t"
  have sub: "addrs ?s \<subseteq> addrs t" by (rule addrs_subtree)
  have fin: "stub \<notin> addrs (graft a s' t) \<and> once (graft a s' t)" if "once s'" "addrs s' \<subseteq> addrs ?s" for s'
    using that st(6,7) a sub addrs_graft [OF st(6) a, of s'] by (auto intro!: once_graft)
  have ne: "t \<noteq> Leaf" using a by auto
  show ?thesis
  proof (cases "a = addr t")
    case True
    let ?n = "\<lparr>bn_parent = NULL, bn_children = \<lambda>s. if s = LEFT then addr t else stub, bn_data = NULL\<rparr>"
    have "(\<lambda>s. if s = LEFT then addr t else stub)(LEFT := v) = (\<lambda>s. if s = LEFT then v else stub)" for v by auto
    then have "bst_rep m' stub (graft a s' t)"
      if "m' stub = Some (with_child ?n LEFT (addr s'))" "btree m' LEFT stub s'" "once s'" "addrs s' \<subseteq> addrs ?s" for m' s'
      using that fin [OF that(3,4)] st(4) True subtree_self [OF ne] by (simp add: bst_rep_def with_child_def)
    moreover have "get_parent m a = Inr stub" "m stub = Some ?n" using child_of_root [OF st(5) ne] True rep by (auto simp: bst_rep_def)
    moreover have "side_of ?n a = LEFT" using True by (simp add: side_of_def)
    ultimately show ?thesis using st(4,7) sub True by (intro exI [of _ stub] exI [of _ ?n]) auto
  next
    case False
    obtain p n where h: "hangs m stub t a p n" using hangs_ok [OF st(5,6) a False] by blast
    have p: "p \<in> addrs t" "p \<notin> addrs ?s" "p \<noteq> stub" "p \<noteq> NULL" using h st(7) btree_nonnull [OF st(5)] by (auto simp: hangs_def)
    have "bst_rep m' stub (graft a s' t)"
      if q: "\<forall>b \<in> insert stub (addrs t) - addrs ?s - {p}. m' b = m b" "m' p = Some (with_child n (side_of n a) (addr s'))"
        "btree m' LEFT p s'" "once s'" "addrs s' \<subseteq> addrs ?s" for m' s'
    proof -
      have "btree m' LEFT stub (graft a s' t)" using h q(1-3) unfolding hangs_def by auto
      moreover have "m' stub = m stub" using q(1) p(3) sub st(7) by auto
      ultimately show ?thesis using fin [OF q(4,5)] rep False ne by (auto simp: bst_rep_def addr_graft)
    qed
    then show ?thesis using h p unfolding hangs_def by (intro exI [of _ p] exI [of _ n]) auto
  qed
qed

text \<open>The store after \<open>SetChildLink\<close>.\<close>

definition link :: "bst_store \<Rightarrow> ptr \<Rightarrow> child_node_pos \<Rightarrow> ptr \<Rightarrow> bst_store" where
  "link m p side c =
     (let m1 = m(p \<mapsto> with_child (the (m p)) side c)
      in if c = NULL then m1 else m1(c \<mapsto> (the (m1 c))\<lparr>bn_parent := p\<rparr>))"

lemma SetChildLink_eq:
  "p \<noteq> NULL \<Longrightarrow> m p \<noteq> None \<Longrightarrow> c = NULL \<or> m c \<noteq> None \<Longrightarrow> SetChildLink m p side c = Inr (link m p side c)"
  by (auto simp: SetChildLink_def link_def access with_child_def Let_def)

lemma link_other: "b \<noteq> p \<Longrightarrow> (c \<noteq> NULL \<Longrightarrow> b \<noteq> c) \<Longrightarrow> link m p side c b = m b"
  by (auto simp: link_def Let_def)

lemma link_parent: "c \<noteq> p \<Longrightarrow> link m p side c p = Some (with_child (the (m p)) side c)"
  by (auto simp: link_def Let_def)

lemma link_child: "c \<noteq> p \<Longrightarrow> c \<noteq> NULL \<Longrightarrow> link m p side c c = Some ((the (m c))\<lparr>bn_parent := p\<rparr>)"
  by (auto simp: link_def Let_def)

lemma link_subtree:
  assumes "btree m sd q t" "once t" "p \<notin> addrs t"
  shows "btree (link m p side (addr t)) sd p t"
proof (cases t)
  case (Node l x r)
  have x: "fst x \<noteq> p" using assms(3) Node by auto
  have "btree (link m p side (fst x)) sd (fst x) s" if "s = l \<or> s = r" for s
  proof (rule btree_frame)
    show "btree m sd (fst x) s" using assms(1) Node that by auto
    show "link m p side (fst x) b = m b" if "b \<in> addrs s" for b
      using that assms(2,3) Node \<open>s = l \<or> s = r\<close> by (intro link_other) auto
  qed
  then show ?thesis using assms(1) Node link_child [OF x] by auto
qed simp

lemma ReplaceInParent_eq:
  assumes a: "a \<noteq> NULL" "get_parent m a = Inr p" and p: "p \<noteq> NULL" "m p = Some n" "side_of n a = LEFT \<or> bn_parent n \<noteq> NULL"
    and v: "v = NULL \<or> m v \<noteq> None"
  shows "ReplaceInParent m a v = Inr (link m p (side_of n a) v)"
proof -
  have np: "node_at m p = Inr n" "get_parent m p = Inr (bn_parent n)" using p by (auto simp: access)
  moreover have "IsLeftChild m a = Inr (bn_children n LEFT = a)" using a np p(1) by (simp add: IsLeftChild_def get_child_def)
  ultimately show ?thesis
    using p SetChildLink_eq [of p m v] v a(2) by (auto simp: ReplaceInParent_def side_of_def split: if_splits)
qed

text \<open>Everything a replacement of the subtree at \<open>a\<close> needs to know about the place it hangs at.\<close>

definition place :: "bst_store \<Rightarrow> ptr \<Rightarrow> atree \<Rightarrow> ptr \<Rightarrow> ptr \<Rightarrow> bst_node \<Rightarrow> bool" where
  "place m stub t a p n \<longleftrightarrow>
     get_parent m a = Inr p \<and> m p = Some n \<and> p \<noteq> NULL \<and> p \<in> insert stub (addrs t) - addrs (subtree_at a t) \<and>
     (side_of n a = LEFT \<or> bn_parent n \<noteq> NULL) \<and>
     (\<forall>m' s'. (\<forall>b \<in> insert stub (addrs t) - addrs (subtree_at a t) - {p}. m' b = m b) \<longrightarrow>
       m' p = Some (with_child n (side_of n a) (addr s')) \<longrightarrow> btree m' LEFT p s' \<longrightarrow> once s' \<longrightarrow> addrs s' \<subseteq> addrs (subtree_at a t) \<longrightarrow>
       bst_rep m' stub (graft a s' t))"

lemma place_ok:
  assumes rep: "bst_rep m stub t" and a: "a \<in> addrs t"
  shows "\<exists>p n. place m stub t a p n"
proof -
  note st = bst_rep_stub [OF rep]
  obtain p n where p: "get_parent m a = Inr p" "m p = Some n" "p \<noteq> NULL" "p \<in> insert stub (addrs t) - addrs (subtree_at a t)"
    "p = stub \<longrightarrow> side_of n a = LEFT"
    "\<forall>m' s'. (\<forall>b \<in> insert stub (addrs t) - addrs (subtree_at a t) - {p}. m' b = m b) \<longrightarrow>
       m' p = Some (with_child n (side_of n a) (addr s')) \<longrightarrow> btree m' LEFT p s' \<longrightarrow> once s' \<longrightarrow> addrs s' \<subseteq> addrs (subtree_at a t) \<longrightarrow>
       bst_rep m' stub (graft a s' t)"
    using rep_graft [OF rep a] by blast
  have "bn_parent n \<noteq> NULL" if "p \<noteq> stub"
  proof -
    have "p \<in> addrs t" using p(4) that by simp
    from btree_parent [OF st(5) this] show ?thesis using p(2,3) st(4) btree_nonnull [OF st(5)] by (auto simp: access)
  qed
  then have "place m stub t a p n" using p by (auto simp: place_def)
  then show ?thesis by blast
qed

lemma place_replace:
  assumes "place m stub t a p n" "a \<noteq> NULL" "m2 a = m a" "m2 p = m p" "v = NULL \<or> m2 v \<noteq> None"
  shows "ReplaceInParent m2 a v = Inr (link m2 p (side_of n a) v)"
proof (rule ReplaceInParent_eq)
  show "get_parent m2 a = Inr p" using assms(1-3) by (auto simp: place_def access)
qed (use assms in \<open>auto simp: place_def\<close>)

lemma split_same:
  assumes "as @ x # bs = as' @ x' # bs'" "distinct (map fst (as @ x # bs))" "fst x = fst x'"
  shows "as = as' \<and> x = x' \<and> bs = bs'"
  using assms(1)
proof (cases rule: split_around)
  case (1 ys')
  then show ?thesis using assms by auto
next
  case (3 xs')
  then show ?thesis using assms by auto
qed simp

text \<open>A node with at most one child gives its place to that child.\<close>

lemma remove_one_child:
  assumes rep: "bst_rep m stub t" and a: "a \<in> addrs t" and sub: "subtree_at a t = Node l x r"
    and u: "l = Leaf \<and> u = r \<or> l \<noteq> Leaf \<and> r = Leaf \<and> u = l"
  shows "\<exists>m'. BSTRemove fuel m a = Inr m' \<and> bst_rep m' stub (graft a u t) \<and> m' a = None \<and> (\<forall>b. b \<notin> insert stub (addrs t) \<longrightarrow> m' b = m b)"
proof -
  note st = bst_rep_stub [OF rep]
  obtain p n where pl: "place m stub t a p n" using place_ok [OF rep a] by blast
  have xa: "fst x = a" using subtree_addr [OF a] sub by simp
  obtain q where bt: "btree m LEFT q (Node l x r)" "once (Node l x r)" using subtree_ok [OF st(5,6) a] sub by auto
  have p: "get_parent m a = Inr p" "m p = Some n" "p \<noteq> NULL" "p \<notin> addrs (Node l x r)" using pl sub by (auto simp: place_def)
  have a0: "a \<noteq> NULL" using btree_nonnull [OF st(5) a] .
  have u': "btree m LEFT a u" "once u" "addrs u \<subseteq> addrs (Node l x r)" "a \<notin> addrs u" "p \<notin> addrs u"
    using bt u xa p(4) by (auto simp: subset_iff)
  then have up: "addr u \<noteq> p" "addr u \<noteq> a" using p(3) a0 addr_in [of u] by (cases "u = Leaf"; auto)+
  have al: "addr u = NULL \<or> m (addr u) \<noteq> None" using btree_allocated [OF u'(1) addr_in] by (cases "u = Leaf") auto
  have rp: "ReplaceInParent m a (addr u) = Inr (link m p (side_of n a) (addr u))" by (rule place_replace [OF pl a0 refl refl al])
  let ?m1 = "link m p (side_of n a) (addr u)" let ?m2 = "?m1(a := None)"
  have ap: "a \<noteq> p" using p(4) xa by auto
  have "btree ?m1 LEFT p u" by (rule link_subtree [OF u'(1,2,5)])
  then have "btree ?m2 LEFT p u" by (rule btree_frame) (use u'(4) in auto)
  moreover have "?m2 p = Some (with_child n (side_of n a) (addr u))" using link_parent [OF up(1)] ap p(2) by simp
  moreover have "?m2 b = m b" if "b \<in> insert stub (addrs t) - addrs (subtree_at a t) - {p}" for b
    using that sub xa u'(3) addr_in [of u] link_other [of b p "addr u" m] st(4) btree_nonnull [OF st(5)] by (cases "u = Leaf") auto
  ultimately have rep': "bst_rep ?m2 stub (graft a u t)" using pl u'(2,3) sub unfolding place_def by auto
  have "?m1 a = m a" using link_other [of a p "addr u" m] ap up(2) by simp
  moreover have "m a \<noteq> None" using btree_allocated [OF st(5) a] .
  ultimately have "free_node ?m1 a = Inr ?m2" using a0 by (simp add: free_node_def)
  moreover have "node_at m a = Inr \<lparr>bn_parent = q, bn_children = \<lambda>s. if s = LEFT then addr l else addr r, bn_data = snd x\<rparr>"
    using bt(1) xa a0 by (auto simp: node_at_def)
  moreover have "addr l = NULL \<longleftrightarrow> l = Leaf" "addr r = NULL \<longleftrightarrow> r = Leaf" using bt(1) addr_NULL by auto
  ultimately have "BSTRemove fuel m a = Inr ?m2" using u rp p(1,3) a0 by (auto simp: BSTRemove_def)
  moreover have "?m2 b = m b" if "b \<notin> insert stub (addrs t)" for b
  proof -
    have "b \<noteq> p" "b \<noteq> addr u \<or> addr u = NULL" "b \<noteq> a"
      using that pl a u'(3) addr_in [of u] sub addrs_subtree [of a t] by (cases "u = Leaf"; auto simp: place_def)+
    then show ?thesis using link_other [of b p "addr u" m] by (auto simp: link_def Let_def)
  qed
  ultimately show ?thesis using rep' by auto
qed

text \<open>The successor is taken out of the right subtree and put on top of what is left of it.\<close>

lemma leftmost_subtree:
  "inorder r = y # ys \<Longrightarrow> once r \<Longrightarrow> \<exists>ry. subtree_at (fst y) r = Node Leaf y ry \<and> inorder (graft (fst y) ry r) = ys"
proof (induction r arbitrary: ys)
  case (Node l z r)
  show ?case
  proof (cases "inorder l")
    case Nil
    then show ?thesis using Node.prems by (auto simp: inorder.simps eq_Nil_appendI)
  next
    case (Cons w ws)
    then have w: "w = y" "ys = ws @ z # inorder r" using Node.prems(1) by auto
    obtain ry where ry: "subtree_at (fst y) l = Node Leaf y ry" "inorder (graft (fst y) ry l) = ws"
      using Node.IH(1) [of ws] Cons w(1) Node.prems(2) by auto
    have "fst y \<in> addrs l" using Cons w(1) by (simp add: addrs_inorder)
    then have "fst y \<noteq> fst z" "fst y \<notin> addrs r" using Node.prems(2) by auto
    then show ?thesis using ry w(2) \<open>fst y \<in> addrs l\<close> by auto
  qed
qed simp

definition detach :: "bst_store \<Rightarrow> ptr \<Rightarrow> ptr \<Rightarrow> bst_store result" where
  "detach m a nxt =
     bindE (get_parent m nxt) (\<lambda>np.
     if np \<noteq> a
     then bindE (get_child m nxt RIGHT) (\<lambda>nr.
          bindE (ReplaceInParent m nxt nr) (\<lambda>m1.
          bindE (get_child m1 a RIGHT) (\<lambda>r. SetChildLink m1 nxt RIGHT r)))
     else Inr m)"

definition detached :: "bst_store \<Rightarrow> atree \<Rightarrow> ptr \<times> ptr \<Rightarrow> bst_store \<Rightarrow> atree \<Rightarrow> bool" where
  "detached m r y m2 r' \<longleftrightarrow>
     inorder r = y # inorder r' \<and> btree m2 LEFT (fst y) r' \<and> (\<forall>b. b \<notin> addrs r \<longrightarrow> m2 b = m b) \<and>
     (\<exists>n. m2 (fst y) = Some n \<and> bn_children n RIGHT = addr r' \<and> bn_data n = snd y)"

lemma detach_first:
  assumes "btree m LEFT a (Node Leaf y rr)" "once (Node Leaf y rr)"
  shows "detach m a (fst y) = Inr m \<and> detached m (Node Leaf y rr) y m rr"
  using assms by (auto simp: detach_def detached_def access)

lemma detach_deeper:
  assumes rep: "bst_rep m stub t" and r: "btree m LEFT a r" "once r" "inorder r = y # ys" "fst y \<noteq> addr r"
    and a: "a \<noteq> NULL" "m a = Some na" "bn_children na RIGHT = addr r" "a \<notin> addrs r" "addrs r \<subseteq> addrs t" "stub \<notin> addrs r"
  shows "\<exists>m2 r'. detach m a (fst y) = Inr m2 \<and> detached m r y m2 r'"
proof -
  obtain ry where ry: "subtree_at (fst y) r = Node Leaf y ry" "inorder (graft (fst y) ry r) = ys"
    using leftmost_subtree [OF r(3,2)] by blast
  let ?r = "graft (fst y) ry r"
  have y: "fst y \<in> addrs r" using r(3) by (simp add: addrs_inorder)
  have y0: "fst y \<noteq> NULL" using btree_nonnull [OF r(1) y] .
  obtain p n where h: "hangs m a r (fst y) p n" using hangs_ok [OF r(1,2) y r(4)] by blast
  obtain q where sub: "btree m LEFT q (Node Leaf y ry)" "once (Node Leaf y ry)" using subtree_ok [OF r(1,2) y] ry(1) by auto
  have p: "get_parent m (fst y) = Inr p" "m p = Some n" "p \<in> addrs r" "p \<notin> addrs (Node Leaf y ry)" using h ry(1) by (auto simp: hangs_def)
  obtain p' n' where pl: "place m stub t (fst y) p' n'" using place_ok [OF rep] y a(5) by blast
  then have same: "p' = p" "n' = n" using p by (auto simp: place_def)
  have sin: "addrs (Node Leaf y ry) \<subseteq> addrs r" using addrs_subtree [of "fst y" r] ry(1) by simp
  have ryp: "addr ry \<noteq> p" "addr ry \<noteq> fst y" "addr ry \<noteq> a" "p \<noteq> NULL" "p \<noteq> fst y" "p \<noteq> a"
    using p(3,4) sub(2) y0 a(1,4) btree_nonnull [OF r(1)] addr_in [of ry] sin by (cases "ry = Leaf"; auto)+
  let ?m1 = "link m p (side_of n (fst y)) (addr ry)"
  have "addr ry = NULL \<or> m (addr ry) \<noteq> None" using btree_allocated [of m LEFT "fst y" ry "addr ry"] sub(1) addr_in [of ry] by (cases "ry = Leaf") auto
  then have rp: "ReplaceInParent m (fst y) (addr ry) = Inr ?m1" using place_replace [OF pl y0 refl refl] same by simp
  have m1: "?m1 (fst y) = m (fst y)" "?m1 a = m a" "?m1 p = Some (with_child n (side_of n (fst y)) (addr ry))"
    using link_other [of "fst y" p "addr ry" m] link_other [of a p "addr ry" m] link_parent [of "addr ry" p m] ryp p(2) by auto
  have "btree ?m1 LEFT p ry" using sub p(4) by (intro link_subtree [of m LEFT "fst y"]) auto
  moreover have "?m1 b = m b" if "b \<in> addrs r - addrs (subtree_at (fst y) r) - {p}" for b
    using that ry(1) addr_in [of ry] btree_nonnull [OF r(1), of b] by (intro link_other) (cases "ry = Leaf"; auto)+
  ultimately have r1: "btree ?m1 LEFT a ?r" using h m1(3) unfolding hangs_def by blast
  have d: "distinct (map fst (y # ys))" using r(2) unfolding once_distinct r(3) .
  have rne: "r \<noteq> Leaf" using r(3) by auto
  have add: "addr ?r = addr r" "addrs ?r = addrs r - {fst y}" "once ?r"
    subgoal using addr_graft [OF rne, of "fst y" ry] r(4) by simp
    subgoal unfolding addrs_inorder ry(2) r(3) using d by auto
    subgoal unfolding once_distinct ry(2) using d by simp
    done
  let ?m2 = "link ?m1 (fst y) RIGHT (addr ?r)"
  have "btree ?m2 LEFT (fst y) ?r" using r1 add(2,3) by (intro link_subtree [of ?m1 LEFT a]) auto
  moreover have "?m2 (fst y) = Some (with_child (the (m (fst y))) RIGHT (addr ?r))" using link_parent [of "addr ?r" "fst y" ?m1 RIGHT] r(4) add(1) m1(1) by simp
  moreover have "m (fst y) = Some \<lparr>bn_parent = q, bn_children = \<lambda>s. if s = LEFT then addr Leaf else addr ry, bn_data = snd y\<rparr>" using sub(1) by simp
  moreover have "?m2 b = m b" if "b \<notin> addrs r" for b
  proof -
    have "addr r \<in> addrs r" using rne by (rule addr_in)
    moreover have "addr ry \<in> addrs r" if "addr ry \<noteq> NULL" using addr_in [of ry] sin that by (cases ry) auto
    ultimately have ne: "b \<noteq> addr ?r" "b \<noteq> fst y" "b \<noteq> p" "addr ry \<noteq> NULL \<Longrightarrow> b \<noteq> addr ry" using that y p(3) add(1) by auto
    have "?m2 b = ?m1 b" using ne(1,2) by (rule link_other [rotated])
    also have "\<dots> = m b" using ne(3,4) by (rule link_other)
    finally show ?thesis .
  qed
  ultimately have "detached m r y ?m2 ?r" using r(3) ry(2) by (auto simp: detached_def with_child_def)
  moreover have "?m1 (addr r) \<noteq> None" using btree_allocated [OF r1, of "addr r"] add(1) addr_in [of ?r] r1 addr_NULL [OF r1] addr_NULL [OF r(1)] r(3) by auto
  then have "SetChildLink ?m1 (fst y) RIGHT (addr r) = Inr ?m2" using SetChildLink_eq [of "fst y" ?m1 "addr r"] y0 m1(1) sub(1) add(1) by simp
  moreover have "get_child m (fst y) RIGHT = Inr (addr ry)" "get_child ?m1 a RIGHT = Inr (addr r)"
    using sub(1) m1(2) a(1-3) by (simp_all add: access)
  ultimately show ?thesis using p(1) ryp(6) rp by (auto simp: detach_def)
qed

lemma remove_finish:
  assumes rep: "bst_rep m stub t" and a: "a \<in> addrs t" and sub: "subtree_at a t = Node l x r" and l: "l \<noteq> Leaf"
    and det: "detached m r y m2 r'"
  shows "\<exists>m5. bindE (ReplaceInParent m2 a (fst y)) (\<lambda>m3. bindE (get_child m3 a LEFT) (\<lambda>c.
      bindE (SetChildLink m3 (fst y) LEFT c) (\<lambda>m4. free_node m4 a))) = Inr m5 \<and>
    bst_rep m5 stub (graft a (Node l y r') t) \<and> m5 a = None \<and> (\<forall>b. b \<notin> insert stub (addrs t) \<longrightarrow> m5 b = m b)"
proof -
  note st = bst_rep_stub [OF rep]
  obtain p n where pl: "place m stub t a p n" using place_ok [OF rep a] by blast
  have xa: "fst x = a" using subtree_addr [OF a] sub by simp
  obtain q where bt: "btree m LEFT q (Node l x r)" "once (Node l x r)" using subtree_ok [OF st(5,6) a] sub by auto
  have p: "m p = Some n" "p \<noteq> NULL" "p \<notin> addrs (Node l x r)" using pl sub by (auto simp: place_def)
  obtain ny where d: "inorder r = y # inorder r'" "btree m2 LEFT (fst y) r'" "\<And>b. b \<notin> addrs r \<Longrightarrow> m2 b = m b"
    "m2 (fst y) = Some ny" "bn_children ny RIGHT = addr r'" "bn_data ny = snd y" using det by (auto simp: detached_def)
  have dist: "distinct (map fst (y # inorder r'))" using bt(2) unfolding d(1) [symmetric] by (simp add: once_distinct)
  have ra: "addrs r = insert (fst y) (addrs r')" "fst y \<notin> addrs r'" "once r'" using d(1) dist by (auto simp: addrs_inorder once_distinct)
  have la: "addr l \<in> addrs l" using addr_in [OF l] .
  have sin: "addrs (Node l x r) \<subseteq> addrs t" using addrs_subtree [of a t] sub by simp
  have nn: "a \<noteq> NULL" "fst y \<noteq> NULL" "addr l \<noteq> NULL" using btree_nonnull [OF st(5)] sin ra(1) xa la by auto
  have ne: "a \<noteq> p" "fst y \<noteq> p" "addr l \<noteq> p" "fst y \<noteq> a" "addr l \<noteq> fst y" "addr l \<noteq> a" "a \<notin> addrs r" "p \<notin> addrs r" "addr l \<notin> addrs r"
    "a \<notin> addrs l" "fst y \<notin> addrs l"
    using p(3) bt(2) ra(1) xa la by auto
  let ?m3 = "link m2 p (side_of n a) (fst y)" let ?m4 = "link ?m3 (fst y) LEFT (addr l)" let ?m5 = "?m4(a := None)"
  have rp: "ReplaceInParent m2 a (fst y) = Inr ?m3" using d(3,4) ne(7,8) nn by (intro place_replace [OF pl]) auto
  have m3: "?m3 a = m a" "?m3 p = Some (with_child n (side_of n a) (fst y))" "?m3 (fst y) = Some (ny\<lparr>bn_parent := p\<rparr>)"
    subgoal using link_other [of a p "fst y" m2] ne(1,4,7) d(3) by simp
    subgoal using link_parent [of "fst y" p m2] ne(2,8) d(3) p(1) by simp
    subgoal using link_child [of "fst y" p m2] ne(2) nn(2) d(4) by simp
    done
  have m3o: "?m3 b = m b" if "b \<notin> addrs r" "b \<noteq> p" for b
    using link_other [of b p "fst y" m2] d(3) [OF that(1)] that ra(1) by auto
  have m4: "?m4 (fst y) = Some (with_child (ny\<lparr>bn_parent := p\<rparr>) LEFT (addr l))" "?m4 p = ?m3 p" "?m4 a = m a"
    subgoal using link_parent [of "addr l" "fst y" ?m3] ne(5) m3(3) by simp
    subgoal using link_other [of p "fst y" "addr l" ?m3] ne(2,3) by simp
    subgoal using link_other [of a "fst y" "addr l" ?m3] ne(4,6) m3(1) by simp
    done
  have m4o: "?m4 b = m b" if "b \<notin> addrs (Node l x r)" "b \<noteq> p" for b
    using link_other [of b "fst y" "addr l" ?m3] m3o [of b] that ra(1) la by auto
  have "btree ?m3 LEFT a l" by (rule btree_frame [of m]) (use bt xa m3o p(3) in auto)
  then have "btree ?m4 LEFT (fst y) l" using bt(2) ne(11) by (intro link_subtree) auto
  then have L: "btree ?m5 LEFT (fst y) l" by (rule btree_frame) (use ne(10) in auto)
  have "btree ?m3 LEFT (fst y) r'" by (rule btree_frame [OF d(2)]) (use ra ne(8) in \<open>auto intro!: link_other\<close>)
  then have "btree ?m4 LEFT (fst y) r'" by (rule btree_frame) (use ra ne(9) in \<open>auto intro!: link_other\<close>)
  then have R: "btree ?m5 LEFT (fst y) r'" by (rule btree_frame) (use ra(1) ne(7) in auto)
  have "with_child (ny\<lparr>bn_parent := p\<rparr>) LEFT (addr l) =
    \<lparr>bn_parent = p, bn_children = \<lambda>s. if s = LEFT then addr l else addr r', bn_data = snd y\<rparr>"
    using d(5,6) by (cases ny) (auto simp: with_child_def fun_eq_iff)
  then have tree: "btree ?m5 LEFT p (Node l y r')" using L R m4(1) nn(2) ne(4) by simp
  have "?m5 b = m b" if "b \<in> insert stub (addrs t) - addrs (subtree_at a t) - {p}" for b
    using that sub xa m4o [of b] by auto
  moreover have "?m5 p = Some (with_child n (side_of n a) (addr (Node l y r')))" using m4(2) m3(2) ne(1) by simp
  moreover have "once (Node l y r')" "addrs (Node l y r') \<subseteq> addrs (subtree_at a t)" using bt(2) ra sub by auto
  ultimately have "bst_rep ?m5 stub (graft a (Node l y r') t)" using pl tree unfolding place_def by blast
  moreover have "get_child ?m3 a LEFT = Inr (addr l)" using m3(1) bt(1) xa nn(1) by (auto simp: access)
  moreover have "?m3 (addr l) \<noteq> None" using m3o [OF ne(9,3)] btree_allocated [of m LEFT "fst x" l "addr l"] bt(1) la by simp
  then have "SetChildLink ?m3 (fst y) LEFT (addr l) = Inr ?m4" using SetChildLink_eq [of "fst y" ?m3 "addr l"] nn(2) m3(3) by simp
  moreover have "free_node ?m4 a = Inr ?m5" using m4(3) btree_allocated [OF st(5) a] nn(1) by (simp add: free_node_def)
  moreover have "?m5 b = m b" if "b \<notin> insert stub (addrs t)" for b using that m4o [of b] sin xa pl a by (auto simp: place_def)
  ultimately show ?thesis using rp by auto
qed

lemma BSTRemove_two:
  assumes rep: "bst_rep m stub t" and at: "inorder t = xs @ x # ys" and fuel: "size t < fuel"
    and sub: "subtree_at (fst x) t = Node l x r" and lr: "l \<noteq> Leaf" "r \<noteq> Leaf"
  shows "\<exists>m' y r'. BSTRemove fuel m (fst x) = Inr m' \<and> inorder r = y # inorder r' \<and> bst_rep m' stub (graft (fst x) (Node l y r') t) \<and>
    m' (fst x) = None \<and> (\<forall>b. b \<notin> insert stub (addrs t) \<longrightarrow> m' b = m b)"
proof -
  note st = bst_rep_stub [OF rep]
  have a: "fst x \<in> addrs t" using at by (simp add: addrs_inorder)
  have a0: "fst x \<noteq> NULL" using btree_nonnull [OF st(5) a] .
  obtain q where bt: "btree m LEFT q (Node l x r)" "once (Node l x r)" using subtree_ok [OF st(5,6) a] sub by auto
  obtain y ys' where y: "inorder r = y # ys'" using lr(2) by (cases "inorder r") auto
  let ?na = "\<lparr>bn_parent = q, bn_children = \<lambda>s. if s = LEFT then addr l else addr r, bn_data = snd x\<rparr>"
  have na: "m (fst x) = Some ?na" "node_at m (fst x) = Inr ?na" using bt(1) by (auto simp: node_at_def)
  obtain m2 r' where det: "detach m (fst x) (fst y) = Inr m2" "detached m r y m2 r'"
  proof (cases "fst y = addr r")
    case True
    obtain rl z rr where r: "r = Node rl z rr" using lr(2) by (cases r) auto
    have "rl = Leaf"
    proof (rule ccontr)
      assume "rl \<noteq> Leaf"
      then obtain w ws where w: "inorder rl = w # ws" by (cases "inorder rl") auto
      then have "w = y" "w \<in> set (inorder rl)" using y r by auto
      then have "fst y \<in> addrs rl" by (simp add: addrs_inorder)
      then show False using True r bt(2) by auto
    qed
    then show ?thesis using that detach_first [of m "fst x" y rr] bt y r by auto
  next
    case False
    have "addrs r \<subseteq> addrs t" using addrs_subtree [of "fst x" t] sub by auto
    then show ?thesis using that detach_deeper [OF rep _ _ y False a0 na(1)] bt st(7) by auto
  qed
  obtain pre post where i: "inorder t = pre @ inorder (Node l x r) @ post" using subtree_inorder [OF st(6) a] sub by auto
  have "BSTNext fuel m (fst x) = Inr (fst y)"
    using BSTNext_ok [OF rep _ fuel, of "pre @ inorder l" x "inorder r @ post"] i y by (cases y) simp
  moreover have "addr l \<noteq> NULL" "addr r \<noteq> NULL" using bt(1) addr_NULL lr by auto
  moreover have "q \<noteq> NULL" using btree_parent [OF st(5) a] na a0 st(4) btree_nonnull [OF st(5)] by (auto simp: access)
  moreover have "get_parent m (fst x) = Inr q" using na(2) by (simp add: get_parent_def)
  moreover obtain p where "get_parent m (fst y) = Inr p" using btree_parent [of m LEFT "fst x" r "fst y"] bt(1) y by (auto simp: addrs_inorder)
  ultimately have "BSTRemove fuel m (fst x) = bindE (ReplaceInParent m2 (fst x) (fst y)) (\<lambda>m3. bindE (get_child m3 (fst x) LEFT) (\<lambda>c.
      bindE (SetChildLink m3 (fst y) LEFT c) (\<lambda>m4. free_node m4 (fst x))))"
    using a0 na(2) det(1) by (simp add: BSTRemove_def NodeToIter_def detach_def)
  then show ?thesis using remove_finish [OF rep a sub lr(1) det(2)] det(2) by (auto simp: detached_def)
qed

lemma BSTRemove_ok:
  assumes rep: "bst_rep m stub t" and at: "inorder t = xs @ x # ys" and fuel: "size t < fuel"
  shows "\<exists>m' t'. BSTRemove fuel m (fst x) = Inr m' \<and> bst_rep m' stub t' \<and> inorder t' = xs @ ys \<and>
    m' (fst x) = None \<and> (\<forall>b. b \<notin> insert stub (addrs t) \<longrightarrow> m' b = m b)"
proof -
  note st = bst_rep_stub [OF rep]
  have a: "fst x \<in> addrs t" using at by (simp add: addrs_inorder)
  obtain l x' r where sub': "subtree_at (fst x) t = Node l x' r" "fst x' = fst x" using subtree_addr [OF a] by (cases "subtree_at (fst x) t") auto
  obtain pre post where i: "inorder t = pre @ inorder (Node l x' r) @ post" "\<And>s. inorder (graft (fst x) s t) = pre @ inorder s @ post"
    using subtree_inorder [OF st(6) a] sub'(1) by auto
  have "distinct (map fst (xs @ x # ys))" using st(6) unfolding once_distinct at .
  moreover have "xs @ x # ys = (pre @ inorder l) @ x' # (inorder r @ post)" using i(1) unfolding at by simp
  ultimately have same: "xs = pre @ inorder l \<and> x = x' \<and> ys = inorder r @ post" using sub'(2) by (intro split_same) simp_all
  then have sub: "subtree_at (fst x) t = Node l x r" using sub'(1) by simp
  show ?thesis
  proof (cases "l = Leaf \<or> r = Leaf")
    case True
    define u where "u = (if l = Leaf then r else l)"
    have u: "l = Leaf \<and> u = r \<or> l \<noteq> Leaf \<and> r = Leaf \<and> u = l" "inorder u = inorder l @ inorder r" using True by (auto simp: u_def)
    have "inorder (graft (fst x) u t) = xs @ ys" using i(2) [of u] same u(2) by simp
    then show ?thesis using remove_one_child [OF rep a sub u(1), of fuel] by blast
  next
    case False
    then obtain m' y r' where "BSTRemove fuel m (fst x) = Inr m'" "inorder r = y # inorder r'" "bst_rep m' stub (graft (fst x) (Node l y r') t)"
      "m' (fst x) = None" "\<forall>b. b \<notin> insert stub (addrs t) \<longrightarrow> m' b = m b" using BSTRemove_two [OF rep at fuel sub] by blast
    moreover have "inorder (graft (fst x) (Node l y r') t) = xs @ ys" using i(2) [of "Node l y r'"] same calculation(2) by simp
    ultimately show ?thesis by blast
  qed
qed

section \<open>Destruction\<close>

text \<open>The store without the nodes of \<open>t\<close> and without the link from \<open>par\<close> to it.\<close>

definition pruned :: "bst_store \<Rightarrow> ptr \<Rightarrow> atree \<Rightarrow> bst_store" where
  "pruned m par t =
     (\<lambda>b. if b \<in> addrs t then None
          else if b = par \<and> t \<noteq> Leaf then map_option (\<lambda>n. with_child n (side_of n (addr t)) NULL) (m b) else m b)"

lemma pruned_Leaf [simp]: "pruned m par Leaf = m"
  by (auto simp: pruned_def)

lemma BSTIsEmpty_False: "m (b_stub tree) = Some n \<Longrightarrow> b_stub tree \<noteq> NULL \<Longrightarrow> bn_children n LEFT \<noteq> NULL \<Longrightarrow> BSTIsEmpty m tree = Inr False"
  by (simp add: BSTIsEmpty_def Root_def access)

lemma BSTDestroy_subtree:
  assumes "btree m LEFT par t" "once t" "t \<noteq> Leaf" "par \<noteq> NULL" "par \<notin> addrs t" "m par \<noteq> None"
    and "b_stub tree \<noteq> NULL" "b_stub tree \<notin> addrs t" "m (b_stub tree) = Some sn" "bn_children sn LEFT \<noteq> NULL"
  shows "\<exists>f' > f. BSTDestroy_loop (2 * size t + f) m tree (addr t) = BSTDestroy_loop f' (pruned m par t) tree par"
  using assms(1-6,8,9)
proof (induction t arbitrary: m par f)
  case (Node l y r)
  let ?a = "fst y"
  note stub = assms(7,10)
  have a: "?a \<noteq> NULL" "m ?a = Some \<lparr>bn_parent = par, bn_children = \<lambda>s. if s = LEFT then addr l else addr r, bn_data = snd y\<rparr>"
    "btree m LEFT ?a l" "btree m LEFT ?a r" "?a \<noteq> b_stub tree" "?a \<noteq> par" using Node.prems(1,5,7) by auto
  have busy: "BSTIsEmpty mm tree = Inr False" if "mm (b_stub tree) = Some sn" for mm
    using BSTIsEmpty_False [of mm tree sn] that stub by simp
  note emp = busy [of m, OF Node.prems(8)]
  have lr: "addr l \<noteq> addr r" if "l \<noteq> Leaf"
    using that Node.prems(2) addr_in [OF that] addr_in [of r] addr_NULL [OF a(3)] by (cases "r = Leaf") auto
  let ?m1 = "pruned m ?a l"
  have "\<exists>f1 \<ge> 2 * size r + 2 + f. BSTDestroy_loop (2 * size (Node l y r) + f) m tree ?a = BSTDestroy_loop f1 ?m1 tree ?a"
  proof (cases "l = Leaf")
    case False
    have "BSTDestroy_loop (2 * size (Node l y r) + f) m tree ?a = BSTDestroy_loop (2 * size l + (2 * size r + 1 + f)) m tree (addr l)"
      using emp a(1,2) addr_NULL [OF a(3)] False by (simp add: node_at_def add.assoc)
    moreover have "\<exists>f' > 2 * size r + 1 + f. BSTDestroy_loop (2 * size l + (2 * size r + 1 + f)) m tree (addr l) = BSTDestroy_loop f' ?m1 tree ?a"
      using Node.prems a False by (intro Node.IH(1)) auto
    ultimately obtain f' where "f' > 2 * size r + 1 + f"
      "BSTDestroy_loop (2 * size (Node l y r) + f) m tree ?a = BSTDestroy_loop f' ?m1 tree ?a" by auto
    then show ?thesis by (intro exI [of _ f']) simp
  qed auto
  then obtain f1 where f1: "f1 \<ge> 2 * size r + 2 + f" "BSTDestroy_loop (2 * size (Node l y r) + f) m tree ?a = BSTDestroy_loop f1 ?m1 tree ?a" by blast
  have m1: "?m1 ?a = Some \<lparr>bn_parent = par, bn_children = \<lambda>s. if s = LEFT then NULL else addr r, bn_data = snd y\<rparr>"
    "btree ?m1 LEFT ?a r" "?m1 (b_stub tree) = Some sn"
    subgoal using a(2) Node.prems(2) by (auto simp: pruned_def with_child_def side_of_def fun_eq_iff)
    subgoal using a(4) Node.prems(2) by (auto simp: pruned_def intro!: btree_frame [OF a(4)])
    subgoal using a(5) Node.prems(7,8) by (auto simp: pruned_def)
    done
  let ?m2 = "pruned ?m1 ?a r"
  have "\<exists>f2 \<ge> f + 2. BSTDestroy_loop f1 ?m1 tree ?a = BSTDestroy_loop f2 ?m2 tree ?a"
  proof (cases "r = Leaf")
    case False
    obtain g where g: "f1 = Suc (2 * size r + g)" "f + 1 \<le> g"
      by (rule that [of "f1 - Suc (2 * size r)"]) (use f1(1) in linarith)+
    have "BSTDestroy_loop f1 ?m1 tree ?a = BSTDestroy_loop (2 * size r + g) ?m1 tree (addr r)"
      using busy [of ?m1, OF m1(3)] a(1) m1(1) addr_NULL [OF a(4)] False g(1) by (simp add: node_at_def)
    moreover have "\<exists>f' > g. BSTDestroy_loop (2 * size r + g) ?m1 tree (addr r) = BSTDestroy_loop f' ?m2 tree ?a"
      using Node.prems a(1) m1 False by (intro Node.IH(2)) auto
    ultimately obtain f' where "f' > g" "BSTDestroy_loop f1 ?m1 tree ?a = BSTDestroy_loop f' ?m2 tree ?a" by auto
    then show ?thesis using g(2) by (intro exI [of _ f']) simp
  qed (use f1(1) in auto)
  then obtain f2 where f2: "f2 \<ge> f + 2" "BSTDestroy_loop f1 ?m1 tree ?a = BSTDestroy_loop f2 ?m2 tree ?a" by blast
  obtain g where f2g: "f < g" "f2 = Suc g" using f2(1) by (cases f2) auto
  then have g: "f < g" "BSTDestroy_loop f1 ?m1 tree ?a = BSTDestroy_loop (Suc g) ?m2 tree ?a" using f2(2) by (simp_all only:)
  have m2: "?m2 ?a = Some \<lparr>bn_parent = par, bn_children = \<lambda>s. NULL, bn_data = snd y\<rparr>" "?m2 (b_stub tree) = Some sn" "?m2 par = m par"
    subgoal using m1(1) Node.prems(2) addr_NULL [OF a(4)] by (auto simp: pruned_def with_child_def side_of_def fun_eq_iff)
    subgoal using m1(3) a(5) Node.prems(7) by (auto simp: pruned_def)
    subgoal using a(6) Node.prems(5) by (auto simp: pruned_def)
    done
  obtain np where np: "m par = Some np" using Node.prems(6) by auto
  have "BSTDestroy_loop (Suc g) ?m2 tree ?a = BSTDestroy_loop g ((?m2(par \<mapsto> with_child np (side_of np ?a) NULL))(?a := None)) tree par"
    using busy [of ?m2, OF m2(2)] a(1,6) m2(1,3) np Node.prems(4)
    by (simp add: access free_node_def with_child_def side_of_def Let_def)
  moreover have "(?m2(par \<mapsto> with_child np (side_of np ?a) NULL))(?a := None) = pruned m par (Node l y r)"
    using Node.prems(2,5) np by (auto simp: pruned_def fun_eq_iff)
  ultimately have "BSTDestroy_loop (2 * size (Node l y r) + f) m tree ?a = BSTDestroy_loop g (pruned m par (Node l y r)) tree par"
    using f1(2) g(2) by (simp only:)
  then show ?case using g(1) by (intro exI [of _ g]) simp
qed simp

lemma BSTDestroy_ok:
  assumes rep: "bst_rep m (b_stub tree) t" and fuel: "2 * size t < fuel"
  shows "BSTDestroy fuel m tree = Inr (\<lambda>b. if b \<in> insert (b_stub tree) (addrs t) then None else m b)"
proof -
  note st = bst_rep_stub [OF rep]
  let ?m = "pruned m (b_stub tree) t"
  have stub: "?m (b_stub tree) \<noteq> None" "get_child ?m (b_stub tree) LEFT = Inr NULL"
    using rep by (cases "t = Leaf"; auto simp: bst_rep_def pruned_def access with_child_def side_of_def)+
  then have emp: "BSTIsEmpty ?m tree = Inr True" by (simp add: BSTIsEmpty_def Root_def)
  have "BSTDestroy_loop fuel m tree (addr t) = Inr ?m"
  proof (cases "t = Leaf")
    case True
    then show ?thesis using emp fuel by (cases fuel) auto
  next
    case False
    have "addr t \<noteq> NULL" using addr_NULL [OF st(5)] False by simp
    then obtain f' where "f' > fuel - 2 * size t" "BSTDestroy_loop (2 * size t + (fuel - 2 * size t)) m tree (addr t) = BSTDestroy_loop f' ?m tree (b_stub tree)"
      using BSTDestroy_subtree [OF st(5,6) False st(4,7), of tree _ "fuel - 2 * size t"] rep by (auto simp: bst_rep_def)
    moreover have "2 * size t + (fuel - 2 * size t) = fuel" using fuel by simp
    ultimately show ?thesis using emp by (cases f') auto
  qed
  moreover have "free_node ?m (b_stub tree) = Inr (\<lambda>b. if b \<in> insert (b_stub tree) (addrs t) then None else m b)"
    using stub(1) st(4) by (auto simp: free_node_def pruned_def fun_eq_iff)
  ultimately show ?thesis using st(2) by (simp add: BSTDestroy_def Root_def)
qed

lemma BSTCreate_ok:
  assumes "a \<noteq> NULL"
  shows "\<exists>m'. BSTCreate (Some a) cmpf m = (m', Some \<lparr>b_stub = a, b_cmp = cmpf\<rparr>) \<and> bst_rep m' a Leaf \<and> (\<forall>b. b \<noteq> a \<longrightarrow> m' b = m b)"
proof -
  have "(\<lambda>side. case side of RIGHT \<Rightarrow> a | LEFT \<Rightarrow> NULL) = (\<lambda>s. if s = LEFT then addr Leaf else a)"
    by (auto simp: fun_eq_iff split: child_node_pos.splits)
  then show ?thesis using assms by (auto simp: BSTCreate_def bst_rep_def)
qed

section \<open>A client of the tree\<close>

datatype bst_call = B_Insert ptr ptr | B_Remove ptr | B_Find ptr | B_Begin | B_Next ptr | B_Prev ptr | B_Get ptr | B_Size | B_IsEmpty

datatype bst_out = B_Ptr ptr | B_Done | B_Num nat | B_Bool bool

fun bst_step :: "nat \<Rightarrow> bst \<Rightarrow> bst_call \<Rightarrow> bst_store \<Rightarrow> (bst_store \<times> bst_out) result" where
  "bst_step fuel tree (B_Insert a d) m = bindE (BSTInsert fuel (Some a) m tree d) (\<lambda>(m', p). Inr (m', B_Ptr p))"
| "bst_step fuel tree (B_Remove p) m = bindE (BSTRemove fuel m p) (\<lambda>m'. Inr (m', B_Done))"
| "bst_step fuel tree (B_Find d) m = bindE (BSTFind fuel m tree d) (\<lambda>p. Inr (m, B_Ptr p))"
| "bst_step fuel tree B_Begin m = bindE (BSTBegin fuel m tree) (\<lambda>p. Inr (m, B_Ptr p))"
| "bst_step fuel tree (B_Next p) m = bindE (BSTNext fuel m p) (\<lambda>q. Inr (m, B_Ptr q))"
| "bst_step fuel tree (B_Prev p) m = bindE (BSTPrev fuel m p) (\<lambda>q. Inr (m, B_Ptr q))"
| "bst_step fuel tree (B_Get p) m = bindE (BSTGetData m p) (\<lambda>d. Inr (m, B_Ptr d))"
| "bst_step fuel tree B_Size m = bindE (BSTSize fuel m tree) (\<lambda>n. Inr (m, B_Num n))"
| "bst_step fuel tree B_IsEmpty m = bindE (BSTIsEmpty m tree) (\<lambda>b. Inr (m, B_Bool b))"

text \<open>The abstract tree is the list of its nodes, address and data, in ascending order of data.\<close>

fun bst_spec :: "bst \<Rightarrow> bst_call \<Rightarrow> (ptr \<times> ptr) list \<Rightarrow> (ptr \<times> ptr) list \<times> bst_out" where
  "bst_spec tree (B_Insert a d) xs =
     (filter (\<lambda>y. 0 < b_cmp tree d (snd y)) xs @ (a, d) # filter (\<lambda>y. \<not> 0 < b_cmp tree d (snd y)) xs, B_Ptr a)"
| "bst_spec tree (B_Remove p) xs = (filter (\<lambda>y. fst y \<noteq> p) xs, B_Done)"
| "bst_spec tree (B_Find d) xs = (xs, B_Ptr (case List.find (\<lambda>y. b_cmp tree d (snd y) = 0) xs of None \<Rightarrow> b_stub tree | Some y \<Rightarrow> fst y))"
| "bst_spec tree B_Begin xs = (xs, B_Ptr (first_of xs (b_stub tree)))"
| "bst_spec tree (B_Next p) xs = (xs, B_Ptr (first_of (tl (dropWhile (\<lambda>y. fst y \<noteq> p) xs)) (b_stub tree)))"
| "bst_spec tree (B_Prev p) xs = (xs, B_Ptr (fst (last (takeWhile (\<lambda>y. fst y \<noteq> p) xs))))"
| "bst_spec tree (B_Get p) xs = (xs, B_Ptr (snd (hd (dropWhile (\<lambda>y. fst y \<noteq> p) xs))))"
| "bst_spec tree B_Size xs = (xs, B_Num (length xs))"
| "bst_spec tree B_IsEmpty xs = (xs, B_Bool (xs = []))"

text \<open>
  A new node gets an unused address and a key the tree does not have; positions are those of
  elements, or for the previous one also the end, and never the first for the previous one.
\<close>

fun bst_ok :: "nat \<Rightarrow> bst \<Rightarrow> bst_call \<Rightarrow> bst_store \<Rightarrow> (ptr \<times> ptr) list \<Rightarrow> bool" where
  "bst_ok fuel tree (B_Insert a d) m xs =
     (length xs < fuel \<and> a \<noteq> NULL \<and> m a = None \<and> d \<noteq> NULL \<and> (\<forall>y \<in> set xs. b_cmp tree d (snd y) \<noteq> 0))"
| "bst_ok fuel tree (B_Remove p) m xs = (length xs < fuel \<and> p \<in> fst ` set xs)"
| "bst_ok fuel tree (B_Find d) m xs = (length xs < fuel \<and> d \<noteq> NULL)"
| "bst_ok fuel tree B_Begin m xs = (length xs < fuel)"
| "bst_ok fuel tree (B_Next p) m xs = (length xs < fuel \<and> p \<in> fst ` set xs)"
| "bst_ok fuel tree (B_Prev p) m xs = (length xs < fuel \<and> xs \<noteq> [] \<and> p \<noteq> fst (hd xs) \<and> (p = b_stub tree \<or> p \<in> fst ` set xs))"
| "bst_ok fuel tree (B_Get p) m xs = (p \<in> fst ` set xs)"
| "bst_ok fuel tree B_Size m xs = (2 * length xs < fuel \<and> length xs < 2 ^ 64)"
| "bst_ok fuel tree B_IsEmpty m xs = True"

definition bst_rel :: "bst \<Rightarrow> bst_store \<Rightarrow> (ptr \<times> ptr) list \<Rightarrow> bool" where
  "bst_rel tree m xs \<longleftrightarrow>
     cmp_order (b_cmp tree) \<and> key_sorted (b_cmp tree) xs \<and> (\<exists>t. bst_rep m (b_stub tree) t \<and> inorder t = xs)"

lemma addr_split:
  assumes "p \<in> fst ` set xs" "distinct (map fst xs)"
  obtains x ys zs where "xs = ys @ x # zs" "fst x = p" "takeWhile (\<lambda>y. fst y \<noteq> p) xs = ys" "dropWhile (\<lambda>y. fst y \<noteq> p) xs = x # zs"
    "filter (\<lambda>y. fst y \<noteq> p) xs = ys @ zs"
proof -
  from assms(1) obtain x where "x \<in> set xs" "fst x = p" by auto
  then obtain ys zs where s: "xs = ys @ x # zs" by (meson split_list)
  then have "p \<notin> fst ` set ys" "p \<notin> fst ` set zs" using assms(2) \<open>fst x = p\<close> by auto
  then have "\<forall>y \<in> set ys. fst y \<noteq> p" "\<forall>y \<in> set zs. fst y \<noteq> p" by blast+
  then show thesis using that [of ys x zs] s \<open>fst x = p\<close> by (simp add: takeWhile_append2 dropWhile_append2)
qed

lemma key_sorted_insert:
  assumes ord: "cmp_order cmpf" and xs: "key_sorted cmpf xs" and new: "\<forall>y \<in> set xs. cmpf (snd x) (snd y) \<noteq> 0"
  shows "key_sorted cmpf (filter (\<lambda>y. 0 < cmpf (snd x) (snd y)) xs @ x # filter (\<lambda>y. \<not> 0 < cmpf (snd x) (snd y)) xs)"
proof -
  let ?P = "\<lambda>y. 0 < cmpf (snd x) (snd y)"
  have parts: "key_sorted cmpf (filter Q xs)" for Q using xs by (simp add: key_sorted_def sorted_wrt_filter)
  have low: "cmpf (snd y) (snd x) < 0" if "y \<in> set (filter ?P xs)" for y using that cmp_order.cmp_swap [OF ord] by auto
  have high: "cmpf (snd x) (snd y) < 0" if "y \<in> set (filter (\<lambda>y. \<not> ?P y) xs)" for y using that new by (auto simp: order_less_le)
  have "cmpf (snd y) (snd z) < 0" if "y \<in> set (filter ?P xs)" "z \<in> set (filter (\<lambda>y. \<not> ?P y) xs)" for y z
    using cmp_order.cmp_less_trans [OF ord low [OF that(1)], of "snd z"] high [OF that(2)] by simp
  then show ?thesis using parts low high by (simp add: key_sorted_node)
qed

lemma bst_sim_insert:
  assumes rel: "bst_rel tree m xs" and ok: "bst_ok fuel tree (B_Insert a d) m xs"
  shows "\<exists>m'. bst_step fuel tree (B_Insert a d) m = Inr (m', snd (bst_spec tree (B_Insert a d) xs)) \<and>
    bst_rel tree m' (fst (bst_spec tree (B_Insert a d) xs))"
proof -
  obtain t where t: "bst_rep m (b_stub tree) t" "inorder t = xs" using rel by (auto simp: bst_rel_def)
  have ord: "cmp_order (b_cmp tree)" "key_sorted (b_cmp tree) xs" using rel by (auto simp: bst_rel_def)
  have new: "\<forall>y \<in> set xs. b_cmp tree (snd (a, d)) (snd y) \<noteq> 0" using ok by simp
  have "size t < fuel" using ok t(2) by (metis bst_ok.simps(1) length_inorder)
  then obtain m' where "BSTInsert fuel (Some a) m tree d = Inr (m', a)" "bst_rep m' (b_stub tree) (bins (b_cmp tree) (a, d) t)"
    using BSTInsert_ok [OF t(1), of a d fuel] ok t(2) by auto
  moreover have "inorder (bins (b_cmp tree) (a, d) t) = fst (bst_spec tree (B_Insert a d) xs)"
    using inorder_bins [OF ord(1), of t "(a, d)"] ord(2) new t(2) by simp
  ultimately show ?thesis using ord(1) key_sorted_insert [OF ord new] by (auto simp: bst_rel_def)
qed

lemma bst_sim_remove:
  assumes rel: "bst_rel tree m xs" and ok: "bst_ok fuel tree (B_Remove p) m xs"
  shows "\<exists>m'. bst_step fuel tree (B_Remove p) m = Inr (m', snd (bst_spec tree (B_Remove p) xs)) \<and>
    bst_rel tree m' (fst (bst_spec tree (B_Remove p) xs))"
proof -
  obtain t where t: "bst_rep m (b_stub tree) t" "inorder t = xs" using rel by (auto simp: bst_rel_def)
  have "distinct (map fst xs)" using bst_rep_stub(6) [OF t(1)] t(2) by (simp add: once_distinct)
  moreover have p_in: "p \<in> fst ` set xs" using ok by simp
  ultimately obtain x ys zs where x: "xs = ys @ x # zs" "fst x = p" "filter (\<lambda>y. fst y \<noteq> p) xs = ys @ zs"
    using addr_split [OF p_in, of thesis] by blast
  have "size t < fuel" using ok t(2) by (metis bst_ok.simps(2) length_inorder)
  then obtain m' t' where "BSTRemove fuel m p = Inr m'" "bst_rep m' (b_stub tree) t'" "inorder t' = ys @ zs"
    using BSTRemove_ok [OF t(1), of ys x zs fuel] t(2) x by auto
  moreover have "key_sorted (b_cmp tree) (ys @ zs)" using rel x(1) by (auto simp: bst_rel_def key_sorted_def sorted_wrt_append)
  ultimately show ?thesis using rel x(3) by (auto simp: bst_rel_def)
qed

lemma bst_sim_prev:
  assumes rep: "bst_rep m (b_stub tree) t" and fuel: "size t < fuel"
    and p: "inorder t \<noteq> []" "p \<noteq> fst (hd (inorder t))" "p = b_stub tree \<or> p \<in> fst ` set (inorder t)"
  shows "BSTPrev fuel m p = Inr (fst (last (takeWhile (\<lambda>y. fst y \<noteq> p) (inorder t))))"
proof (cases "p = b_stub tree")
  case True
  have "p \<notin> fst ` set (inorder t)" using bst_rep_stub(7) [OF rep] unfolding addrs_inorder True .
  then have "\<forall>y \<in> set (inorder t). fst y \<noteq> p" by blast
  then have "takeWhile (\<lambda>y. fst y \<noteq> p) (inorder t) = inorder t" unfolding takeWhile_eq_all_conv .
  moreover have "t \<noteq> Leaf" using p(1) by auto
  ultimately show ?thesis using BSTPrev_end [OF rep fuel \<open>t \<noteq> Leaf\<close>] True by (simp only:)
next
  case False
  have "distinct (map fst (inorder t))" using bst_rep_stub(6) [OF rep] by (simp add: once_distinct)
  then obtain x ys zs where x: "inorder t = ys @ x # zs" "fst x = p" "takeWhile (\<lambda>y. fst y \<noteq> p) (inorder t) = ys"
    using addr_split [of p "inorder t" thesis] p(3) False by blast
  then have "ys \<noteq> []" using p(2) by auto
  then show ?thesis using BSTPrev_ok [OF rep x(1) fuel] x(2,3) by simp
qed

interpretation bst_refines: rel_refinement "bst_rel tree" "bst_step fuel tree" "bst_spec tree" "bst_ok fuel tree" for tree fuel
proof
  fix m xs c
  assume rel: "bst_rel tree m xs" and ok: "bst_ok fuel tree c m xs"
  obtain t where t: "bst_rep m (b_stub tree) t" "inorder t = xs" using rel by (auto simp: bst_rel_def)
  have ord: "cmp_order (b_cmp tree)" "key_sorted (b_cmp tree) (inorder t)" using rel t(2) by (auto simp: bst_rel_def)
  have len: "length xs = size t" using t(2) by (metis length_inorder)
  have dist: "distinct (map fst xs)" using bst_rep_stub(6) [OF t(1)] t(2) by (simp add: once_distinct)
  show "\<exists>s'. bst_step fuel tree c m = Inr (s', snd (bst_spec tree c xs)) \<and> bst_rel tree s' (fst (bst_spec tree c xs))"
  proof (cases c)
    case (B_Insert a d)
    then show ?thesis using bst_sim_insert [OF rel] ok by blast
  next
    case (B_Remove p)
    then show ?thesis using bst_sim_remove [OF rel] ok by blast
  next
    case (B_Find d)
    then show ?thesis using BSTFind_ok [OF ord(1) t(1) ord(2)] ok rel len t(2) by simp
  next
    case B_Begin
    then show ?thesis using BSTBegin_ok [OF t(1)] ok rel len t(2) by simp
  next
    case (B_Next p)
    then have "p \<in> fst ` set xs" using ok by simp
    from addr_split [OF this dist] obtain x ys zs where x: "xs = ys @ x # zs" "fst x = p" "dropWhile (\<lambda>y. fst y \<noteq> p) xs = x # zs" by blast
    have "BSTNext fuel m p = Inr (first_of zs (b_stub tree))" using BSTNext_ok [OF t(1), of ys x zs fuel] B_Next ok len t(2) x(1,2) by simp
    then show ?thesis using B_Next rel x(3) by (simp del: split_paired_Ex)
  next
    case (B_Prev p)
    then show ?thesis using bst_sim_prev [OF t(1)] ok rel len t(2) by simp
  next
    case (B_Get p)
    then have "p \<in> fst ` set xs" using ok by simp
    from addr_split [OF this dist] obtain x ys zs where x: "xs = ys @ x # zs" "fst x = p" "dropWhile (\<lambda>y. fst y \<noteq> p) xs = x # zs" by blast
    have "BSTGetData m p = Inr (snd x)" using btree_data [OF bst_rep_stub(5) [OF t(1)], of x] t(2) x(1,2) by simp
    then show ?thesis using B_Get rel x(3) by simp
  next
    case B_Size
    then show ?thesis using BSTSize_ok [OF t(1)] ok rel len by simp
  next
    case B_IsEmpty
    have "addr t = NULL \<longleftrightarrow> xs = []" using addr_NULL [OF bst_rep_stub(5) [OF t(1)]] t(2) by auto
    then show ?thesis using B_IsEmpty rel bst_rep_stub(2) [OF t(1)] by (simp add: BSTIsEmpty_def Root_def)
  qed
qed

end
