(* ===== verification/AVL.thy ===== *)
theory AVL
  imports Prelude
begin

text \<open>
  The AVL tree of \<open>ds/src/avl.c\<close>. Every node is owned by one parent and the code rebuilds the
  path it walks (each recursive call returns the new subtree), so a tree is a datatype; NULL is
  \<open>Null\<close> and a dereference of it is \<open>Bad_access\<close>. The lemmas show that no operation on a
  tree with correct heights dereferences NULL, that insertion keeps order and balance, and
  that removal keeps order (but not always balance).
\<close>

section \<open>Definitions\<close>

datatype avl_node_t = Null | Node (height: nat) (data: ptr) (LEFT_CHILD: avl_node_t) (RIGHT_CHILD: avl_node_t)

record avl_t =
  avl_root :: avl_node_t
  avl_cmp :: "ptr \<Rightarrow> ptr \<Rightarrow> int"

definition NodeHeight :: "avl_node_t \<Rightarrow> nat" where
  "NodeHeight n = (case n of Null \<Rightarrow> 0 | Node h d l r \<Rightarrow> h)"

definition FixHeight :: "avl_node_t \<Rightarrow> avl_node_t result" where
  "FixHeight n =
     (case n of Null \<Rightarrow> Inl Bad_access
      | Node h d l r \<Rightarrow> Inr (Node (1 + max (NodeHeight l) (NodeHeight r)) d l r))"

definition BalanceFactor :: "avl_node_t \<Rightarrow> int result" where
  "BalanceFactor node =
     (case node of Null \<Rightarrow> Inl Bad_access
      | Node h d l r \<Rightarrow> Inr (int (NodeHeight l) - int (NodeHeight r)))"

definition RotateLeft :: "avl_node_t \<Rightarrow> avl_node_t result" where
  "RotateLeft unbalanced_node =
     (case unbalanced_node of
        Node h d l (Node rh rd rl rr) \<Rightarrow>
          bindE (FixHeight (Node h d l rl)) (\<lambda>unbalanced. FixHeight (Node rh rd unbalanced rr))
      | _ \<Rightarrow> Inl Bad_access)"

definition RotateRight :: "avl_node_t \<Rightarrow> avl_node_t result" where
  "RotateRight unbalanced_node =
     (case unbalanced_node of
        Node h d (Node lh ld ll lr) r \<Rightarrow>
          bindE (FixHeight (Node h d lr r)) (\<lambda>unbalanced. FixHeight (Node lh ld ll unbalanced))
      | _ \<Rightarrow> Inl Bad_access)"

definition Rebalance :: "avl_node_t \<Rightarrow> avl_node_t result" where
  "Rebalance node =
     (case node of
        Null \<Rightarrow> Inl Bad_access
      | Node h d l r \<Rightarrow>
          bindE (BalanceFactor node) (\<lambda>balance.
          if balance > 1
          then bindE (BalanceFactor l) (\<lambda>b.
               bindE (if b < 0 then RotateLeft l else Inr l) (\<lambda>l'. RotateRight (Node h d l' r)))
          else if balance < -1
          then bindE (BalanceFactor r) (\<lambda>b.
               bindE (if b > 0 then RotateRight r else Inr r) (\<lambda>r'. RotateLeft (Node h d l r')))
          else Inr node))"

text \<open>\<open>ok\<close> is whether \<open>malloc\<close> finds memory for the new node.\<close>

definition CreateNode :: "bool \<Rightarrow> ptr \<Rightarrow> avl_node_t" where
  "CreateNode ok d = (if ok then Node 1 d Null Null else Null)"

fun InsertRec :: "bool \<Rightarrow> avl_node_t \<Rightarrow> ptr \<Rightarrow> (ptr \<Rightarrow> ptr \<Rightarrow> int) \<Rightarrow> (avl_node_t \<times> int) result" where
  "InsertRec ok Null x cmp =
     (let sub_root = CreateNode ok x in Inr (sub_root, if sub_root \<noteq> Null then 0 else -1))"
| "InsertRec ok (Node h d l r) x cmp =
     (let cmp_res = cmp x d
      in bindE (assertE (cmp_res \<noteq> 0)) (\<lambda>_.
         bindE (if cmp_res < 0
                then bindE (InsertRec ok l x cmp) (\<lambda>(l', status). Inr (Node h d l' r, status))
                else bindE (InsertRec ok r x cmp) (\<lambda>(r', status). Inr (Node h d l r', status)))
         (\<lambda>(sub_root, status).
         bindE (FixHeight sub_root) (\<lambda>sub_root1.
         bindE (Rebalance sub_root1) (\<lambda>sub_root2. Inr (sub_root2, status))))))"

text \<open>\<open>PopMin\<close> returns the rest and the detached minimum (\<open>None\<close> for NULL).\<close>

fun PopMin :: "avl_node_t \<Rightarrow> (avl_node_t \<times> ptr option) result" where
  "PopMin Null = Inr (Null, None)"
| "PopMin (Node h d l r) =
     (if l = Null then Inr (r, Some d)
      else bindE (PopMin l) (\<lambda>(l', min_out).
           bindE (FixHeight (Node h d l' r)) (\<lambda>sub_root. Inr (sub_root, min_out))))"

fun RemoveRec :: "avl_node_t \<Rightarrow> ptr \<Rightarrow> (ptr \<Rightarrow> ptr \<Rightarrow> int) \<Rightarrow> avl_node_t result" where
  "RemoveRec Null x cmp = Inr Null"
| "RemoveRec (Node h d l r) x cmp =
     (let cmp_res = cmp x d
      in if cmp_res < 0
         then bindE (RemoveRec l x cmp) (\<lambda>l'. bindE (FixHeight (Node h d l' r)) Rebalance)
         else if cmp_res > 0
         then bindE (RemoveRec r x cmp) (\<lambda>r'. bindE (FixHeight (Node h d l r')) Rebalance)
         else if l = Null then Inr r
         else if r = Null then Inr l
         else bindE (PopMin r) (\<lambda>(r', successor).
              bindE (fetch successor) (\<lambda>s.
              bindE (FixHeight (Node h s l r')) Rebalance)))"

fun FindRec :: "avl_node_t \<Rightarrow> ptr \<Rightarrow> (ptr \<Rightarrow> ptr \<Rightarrow> int) \<Rightarrow> ptr" where
  "FindRec Null x cmp = NULL"
| "FindRec (Node h d l r) x cmp =
     (let cmp_res = cmp x d
      in if 0 = cmp_res then d else if cmp_res < 0 then FindRec l x cmp else FindRec r x cmp)"

text \<open>\<open>DestroyRec\<close> as the sequence of nodes it frees (by their data).\<close>

fun DestroyRec :: "avl_node_t \<Rightarrow> ptr list" where
  "DestroyRec Null = []"
| "DestroyRec (Node h d l r) = DestroyRec l @ DestroyRec r @ [d]"

fun PreTraversalOrder :: "avl_node_t \<Rightarrow> (ptr \<Rightarrow> 's \<Rightarrow> 's \<times> int) \<Rightarrow> 's \<Rightarrow> 's \<times> int" where
  "PreTraversalOrder Null action param = (param, 0)"
| "PreTraversalOrder (Node h d l r) action param =
     (let (param1, status1) = action d param
      in if 0 \<noteq> status1 then (param1, status1)
         else let (param2, status2) = PreTraversalOrder l action param1
              in if 0 \<noteq> status2 then (param2, status2) else PreTraversalOrder r action param2)"

fun InTraversalOrder :: "avl_node_t \<Rightarrow> (ptr \<Rightarrow> 's \<Rightarrow> 's \<times> int) \<Rightarrow> 's \<Rightarrow> 's \<times> int" where
  "InTraversalOrder Null action param = (param, 0)"
| "InTraversalOrder (Node h d l r) action param =
     (let (param1, status1) = InTraversalOrder l action param
      in if 0 \<noteq> status1 then (param1, status1)
         else let (param2, status2) = action d param1
              in if 0 \<noteq> status2 then (param2, status2) else InTraversalOrder r action param2)"

fun PostTraversalOrder :: "avl_node_t \<Rightarrow> (ptr \<Rightarrow> 's \<Rightarrow> 's \<times> int) \<Rightarrow> 's \<Rightarrow> 's \<times> int" where
  "PostTraversalOrder Null action param = (param, 0)"
| "PostTraversalOrder (Node h d l r) action param =
     (let (param1, status1) = PostTraversalOrder l action param
      in if 0 \<noteq> status1 then (param1, status1)
         else let (param2, status2) = PostTraversalOrder r action param1
              in if 0 \<noteq> status2 then (param2, status2) else action d param2)"

definition AVLCreate :: "bool \<Rightarrow> (ptr \<Rightarrow> ptr \<Rightarrow> int) \<Rightarrow> avl_t option" where
  "AVLCreate ok cmp = (if \<not> ok then None else Some \<lparr>avl_root = Null, avl_cmp = cmp\<rparr>)"

definition AVLDestroy :: "avl_t \<Rightarrow> ptr list" where
  "AVLDestroy tree = DestroyRec (avl_root tree)"

definition AVLInsert :: "bool \<Rightarrow> avl_t \<Rightarrow> ptr \<Rightarrow> (avl_t \<times> int) result" where
  "AVLInsert ok tree x =
     bindE (assertE (x \<noteq> NULL)) (\<lambda>_.
     bindE (InsertRec ok (avl_root tree) x (avl_cmp tree)) (\<lambda>(root, status). Inr (tree\<lparr>avl_root := root\<rparr>, status)))"

definition AVLRemove :: "avl_t \<Rightarrow> ptr \<Rightarrow> avl_t result" where
  "AVLRemove tree x =
     bindE (assertE (x \<noteq> NULL)) (\<lambda>_.
     bindE (RemoveRec (avl_root tree) x (avl_cmp tree)) (\<lambda>root. Inr (tree\<lparr>avl_root := root\<rparr>)))"

definition AVLHeight :: "avl_t \<Rightarrow> nat" where
  "AVLHeight tree = (case avl_root tree of Null \<Rightarrow> 0 | Node h d l r \<Rightarrow> h)"

definition AVLIsEmpty :: "avl_t \<Rightarrow> bool" where
  "AVLIsEmpty tree \<longleftrightarrow> avl_root tree = Null"

definition AVLFind :: "avl_t \<Rightarrow> ptr \<Rightarrow> ptr result" where
  "AVLFind tree x = bindE (assertE (x \<noteq> NULL)) (\<lambda>_. Inr (FindRec (avl_root tree) x (avl_cmp tree)))"

text \<open>\<open>traversal_lut[traversal_type]\<close>.\<close>

definition AVLForEach :: "avl_t \<Rightarrow> int \<Rightarrow> (ptr \<Rightarrow> 's \<Rightarrow> 's \<times> int) \<Rightarrow> 's \<Rightarrow> ('s \<times> int) result" where
  "AVLForEach tree traversal_type action param =
     (if traversal_type = 0 then Inr (PreTraversalOrder (avl_root tree) action param)
      else if traversal_type = 1 then Inr (InTraversalOrder (avl_root tree) action param)
      else if traversal_type = 2 then Inr (PostTraversalOrder (avl_root tree) action param)
      else Inl Bad_access)"

definition AddOne :: "ptr \<Rightarrow> nat \<Rightarrow> nat \<times> int" where
  "AddOne d param = (param + 1, 0)"

definition AVLCount :: "avl_t \<Rightarrow> nat result" where
  "AVLCount tree = bindE (AVLForEach tree 0 AddOne 0) (\<lambda>(n, _). Inr n)"

section \<open>Specification\<close>

fun inorder :: "avl_node_t \<Rightarrow> ptr list" where
  "inorder Null = []"
| "inorder (Node h d l r) = inorder l @ d # inorder r"

fun preorder :: "avl_node_t \<Rightarrow> ptr list" where
  "preorder Null = []"
| "preorder (Node h d l r) = d # preorder l @ preorder r"

fun postorder :: "avl_node_t \<Rightarrow> ptr list" where
  "postorder Null = []"
| "postorder (Node h d l r) = postorder l @ postorder r @ [d]"

text \<open>The real height, and trees whose nodes store it.\<close>

fun real_height :: "avl_node_t \<Rightarrow> nat" where
  "real_height Null = 0"
| "real_height (Node h d l r) = 1 + max (real_height l) (real_height r)"

fun heights_ok :: "avl_node_t \<Rightarrow> bool" where
  "heights_ok Null = True"
| "heights_ok (Node h d l r) = (h = 1 + max (real_height l) (real_height r) \<and> heights_ok l \<and> heights_ok r)"

fun balanced :: "avl_node_t \<Rightarrow> bool" where
  "balanced Null = True"
| "balanced (Node h d l r) =
     (real_height l \<le> real_height r + 1 \<and> real_height r \<le> real_height l + 1 \<and> balanced l \<and> balanced r)"

definition tree_ordered :: "(ptr \<Rightarrow> ptr \<Rightarrow> int) \<Rightarrow> avl_node_t \<Rightarrow> bool" where
  "tree_ordered cmp t \<longleftrightarrow> sorted_wrt (\<lambda>x y. cmp x y < 0) (inorder t)"

section \<open>Balancing\<close>

lemma NodeHeight_ok [simp]: "heights_ok t \<Longrightarrow> NodeHeight t = real_height t"
  by (cases t) (simp_all add: NodeHeight_def)

definition mk :: "ptr \<Rightarrow> avl_node_t \<Rightarrow> avl_node_t \<Rightarrow> avl_node_t" where
  "mk d l r = Node (1 + max (real_height l) (real_height r)) d l r"

lemma mk_simps [simp]:
  "heights_ok (mk d l r) \<longleftrightarrow> heights_ok l \<and> heights_ok r" "inorder (mk d l r) = inorder l @ d # inorder r"
  "real_height (mk d l r) = 1 + max (real_height l) (real_height r)"
  "balanced (mk d l r) \<longleftrightarrow> real_height l \<le> real_height r + 1 \<and> real_height r \<le> real_height l + 1 \<and> balanced l \<and> balanced r"
  "mk d l r \<noteq> Null"
  by (auto simp: mk_def)

lemma heights_ok_mk: "heights_ok t \<Longrightarrow> t \<noteq> Null \<Longrightarrow> \<exists>d l r. t = mk d l r \<and> heights_ok l \<and> heights_ok r"
  by (cases t) (auto simp: mk_def)

lemma FixHeight_mk: "heights_ok l \<Longrightarrow> heights_ok r \<Longrightarrow> FixHeight (Node h d l r) = Inr (mk d l r)"
  by (simp add: FixHeight_def mk_def)

lemma RotateRight_mk:
  "heights_ok ll \<Longrightarrow> heights_ok lr \<Longrightarrow> heights_ok r \<Longrightarrow>
   RotateRight (Node h d (mk ld ll lr) r) = Inr (mk ld ll (mk d lr r))"
  by (simp add: RotateRight_def FixHeight_mk mk_def [of ld ll lr])

lemma RotateLeft_mk:
  "heights_ok l \<Longrightarrow> heights_ok rl \<Longrightarrow> heights_ok rr \<Longrightarrow>
   RotateLeft (Node h d l (mk rd rl rr)) = Inr (mk rd (mk d l rl) rr)"
  by (simp add: RotateLeft_def FixHeight_mk mk_def [of rd rl rr])

lemma BalanceFactor_mk:
  "heights_ok l \<Longrightarrow> heights_ok r \<Longrightarrow> BalanceFactor (mk d l r) = Inr (int (real_height l) - int (real_height r))"
  by (simp add: BalanceFactor_def mk_def)

text \<open>Rebalancing never dereferences NULL, whatever the imbalance, and what it returns.\<close>

lemma Rebalance_left_heavy:
  assumes "heights_ok l" "heights_ok r" "real_height r + 1 < real_height l"
  obtains ld ll lr where "l = mk ld ll lr" "heights_ok ll" "heights_ok lr" "real_height lr \<le> real_height ll"
      "Rebalance (mk d l r) = Inr (mk ld ll (mk d lr r))"
    | ld ll lrd lrl lrr where "l = mk ld ll (mk lrd lrl lrr)" "heights_ok ll" "heights_ok lrl" "heights_ok lrr"
      "real_height ll < real_height (mk lrd lrl lrr)"
      "Rebalance (mk d l r) = Inr (mk lrd (mk ld ll lrl) (mk d lrr r))"
proof -
  have "l \<noteq> Null" using assms(3) by auto
  with assms(1) obtain ld ll lr where l: "l = mk ld ll lr" "heights_ok ll" "heights_ok lr"
    using heights_ok_mk by blast
  have heavy: "int (real_height l) - int (real_height r) > 1" using assms(3) by linarith
  have go: "Rebalance (mk d l r) = bindE (BalanceFactor l) (\<lambda>b.
      bindE (if b < 0 then RotateLeft l else Inr l) (\<lambda>l'. RotateRight (Node (1 + max (real_height l) (real_height r)) d l' r)))"
    using assms(1,2) heavy by (simp add: Rebalance_def mk_def BalanceFactor_def)
  show ?thesis
  proof (cases "real_height ll < real_height lr")
    case False
    then have "Rebalance (mk d l r) = Inr (mk ld ll (mk d lr r))"
      unfolding go using l assms(2) by (simp add: BalanceFactor_mk RotateRight_mk)
    with l False that(1) show ?thesis by simp
  next
    case True
    then have "lr \<noteq> Null" by auto
    with l(3) obtain lrd lrl lrr where lr: "lr = mk lrd lrl lrr" "heights_ok lrl" "heights_ok lrr"
      using heights_ok_mk by blast
    have "RotateLeft l = Inr (mk lrd (mk ld ll lrl) lrr)"
      unfolding l(1) lr(1) using RotateLeft_mk [OF l(2) lr(2,3)] by (subst mk_def)
    then have "Rebalance (mk d l r) = Inr (mk lrd (mk ld ll lrl) (mk d lrr r))"
      unfolding go using True l lr assms(2) by (simp add: BalanceFactor_mk RotateRight_mk)
    with l lr True that(2) show ?thesis by simp
  qed
qed

lemma Rebalance_right_heavy:
  assumes "heights_ok l" "heights_ok r" "real_height l + 1 < real_height r"
  obtains rd rl rr where "r = mk rd rl rr" "heights_ok rl" "heights_ok rr" "real_height rl \<le> real_height rr"
      "Rebalance (mk d l r) = Inr (mk rd (mk d l rl) rr)"
    | rd rr rld rll rlr where "r = mk rd (mk rld rll rlr) rr" "heights_ok rr" "heights_ok rll" "heights_ok rlr"
      "real_height rr < real_height (mk rld rll rlr)"
      "Rebalance (mk d l r) = Inr (mk rld (mk d l rll) (mk rd rlr rr))"
proof -
  have "r \<noteq> Null" using assms(3) by auto
  with assms(2) obtain rd rl rr where r: "r = mk rd rl rr" "heights_ok rl" "heights_ok rr"
    using heights_ok_mk by blast
  have heavy: "int (real_height l) - int (real_height r) < -1" using assms(3) by linarith
  have go: "Rebalance (mk d l r) = bindE (BalanceFactor r) (\<lambda>b.
      bindE (if b > 0 then RotateRight r else Inr r) (\<lambda>r'. RotateLeft (Node (1 + max (real_height l) (real_height r)) d l r')))"
    using assms(1,2) heavy by (simp add: Rebalance_def mk_def BalanceFactor_def)
  show ?thesis
  proof (cases "real_height rr < real_height rl")
    case False
    then have "Rebalance (mk d l r) = Inr (mk rd (mk d l rl) rr)"
      unfolding go using r assms(1) by (simp add: BalanceFactor_mk RotateLeft_mk)
    with r False that(1) show ?thesis by simp
  next
    case True
    then have "rl \<noteq> Null" by auto
    with r(2) obtain rld rll rlr where rl: "rl = mk rld rll rlr" "heights_ok rll" "heights_ok rlr"
      using heights_ok_mk by blast
    have "RotateRight r = Inr (mk rld rll (mk rd rlr rr))"
      unfolding r(1) rl(1) using RotateRight_mk [OF rl(2,3) r(3)] by (subst mk_def)
    then have "Rebalance (mk d l r) = Inr (mk rld (mk d l rll) (mk rd rlr rr))"
      unfolding go using True r rl assms(1) by (simp add: BalanceFactor_mk RotateLeft_mk)
    with r rl True that(2) show ?thesis by simp
  qed
qed

lemma Rebalance_even:
  assumes "heights_ok l" "heights_ok r" "real_height l \<le> real_height r + 1" "real_height r \<le> real_height l + 1"
  shows "Rebalance (mk d l r) = Inr (mk d l r)"
  using assms by (simp add: Rebalance_def mk_def BalanceFactor_def)

lemma Rebalance_ok:
  assumes "heights_ok l" "heights_ok r"
  shows "\<exists>t. Rebalance (mk d l r) = Inr t \<and> heights_ok t \<and> inorder t = inorder l @ d # inorder r"
proof -
  consider "real_height r + 1 < real_height l" | "real_height l + 1 < real_height r"
    | "real_height l \<le> real_height r + 1" "real_height r \<le> real_height l + 1" by linarith
  then show ?thesis
  proof cases
    case 1
    from assms 1 show ?thesis by (rule Rebalance_left_heavy [of _ _ d]) (use assms in auto)
  next
    case 2
    from assms 2 show ?thesis by (rule Rebalance_right_heavy [of _ _ d]) (use assms in auto)
  next
    case 3
    with assms show ?thesis by (simp add: Rebalance_even)
  qed
qed

text \<open>One rotation repairs an imbalance of two.\<close>

lemma Rebalance_balanced:
  assumes ok: "heights_ok l" "heights_ok r" and bal: "balanced l" "balanced r"
    and two: "real_height l \<le> real_height r + 2" "real_height r \<le> real_height l + 2"
  shows "\<exists>t. Rebalance (mk d l r) = Inr t \<and> balanced t \<and>
    (if real_height l \<le> real_height r + 1 \<and> real_height r \<le> real_height l + 1
     then real_height t = 1 + max (real_height l) (real_height r)
     else real_height t = max (real_height l) (real_height r) \<or> real_height t = 1 + max (real_height l) (real_height r))"
proof -
  consider "real_height r + 1 < real_height l" | "real_height l + 1 < real_height r"
    | "real_height l \<le> real_height r + 1" "real_height r \<le> real_height l + 1" by linarith
  then show ?thesis
  proof cases
    case 1
    from ok 1 show ?thesis by (rule Rebalance_left_heavy [of _ _ d]) (use bal 1 two in \<open>auto simp: max_def split: if_splits\<close>)
  next
    case 2
    from ok 2 show ?thesis by (rule Rebalance_right_heavy [of _ _ d]) (use bal 2 two in \<open>auto simp: max_def split: if_splits\<close>)
  next
    case 3
    with ok bal show ?thesis by (simp add: Rebalance_even)
  qed
qed


section \<open>Insertion\<close>

text \<open>Where a new element goes in an ordered list.\<close>

definition insert_ordered :: "(ptr \<Rightarrow> ptr \<Rightarrow> int) \<Rightarrow> ptr \<Rightarrow> ptr list \<Rightarrow> ptr list" where
  "insert_ordered cmp x xs = takeWhile (\<lambda>y. cmp x y > 0) xs @ x # dropWhile (\<lambda>y. cmp x y > 0) xs"

lemma insert_ordered_left:
  "\<forall>y \<in> set (d # ys). \<not> cmp x y > 0 \<Longrightarrow> insert_ordered cmp x (xs @ d # ys) = insert_ordered cmp x xs @ d # ys"
  by (induction xs) (auto simp: insert_ordered_def)

lemma insert_ordered_right:
  "\<forall>y \<in> set (xs @ [d]). cmp x y > 0 \<Longrightarrow> insert_ordered cmp x (xs @ d # ys) = xs @ d # insert_ordered cmp x ys"
  by (induction xs) (auto simp: insert_ordered_def)

lemma tree_ordered_Node:
  assumes "cmp_order cmp" "tree_ordered cmp (Node h d l r)"
  shows "tree_ordered cmp l" "tree_ordered cmp r" "\<forall>y \<in> set (inorder l). cmp y d < 0" "\<forall>y \<in> set (inorder r). cmp d y < 0"
  using assms(2) by (auto simp: tree_ordered_def sorted_wrt_append)

lemma order_left:
  assumes "cmp_order cmp" "tree_ordered cmp (Node h d l r)" "cmp x d < 0"
  shows "\<forall>y \<in> set (d # inorder r). cmp x y < 0"
proof -
  have "cmp x y < 0" if "y \<in> set (inorder r)" for y
    using tree_ordered_Node(4) [OF assms(1,2)] that cmp_order.cmp_less_trans [OF assms(1,3), of y] by (simp add: less_imp_le)
  with assms(3) show ?thesis by simp
qed

lemma order_right:
  assumes "cmp_order cmp" "tree_ordered cmp (Node h d l r)" "cmp x d > 0"
  shows "\<forall>y \<in> set (inorder l @ [d]). cmp x y > 0"
proof -
  have dx: "cmp d x < 0" using assms(3) cmp_order.cmp_swap [OF assms(1)] by blast
  have "cmp y x < 0" if "y \<in> set (inorder l)" for y
    using tree_ordered_Node(3) [OF assms(1,2)] that dx cmp_order.cmp_le_less_trans [OF assms(1), of y d x] by (simp add: less_imp_le)
  then show ?thesis using assms(3) cmp_order.cmp_swap [OF assms(1)] by auto
qed

lemma InsertRec_ok:
  assumes ord: "cmp_order cmp"
  shows "heights_ok t \<Longrightarrow> tree_ordered cmp t \<Longrightarrow> \<forall>y \<in> set (inorder t). cmp x y \<noteq> 0 \<Longrightarrow>
    \<exists>t'. InsertRec True t x cmp = Inr (t', 0) \<and> heights_ok t' \<and> inorder t' = insert_ordered cmp x (inorder t)"
proof (induction t)
  case Null
  then show ?case by (simp add: CreateNode_def insert_ordered_def)
next
  case (Node h d l r)
  note parts = tree_ordered_Node [OF ord Node.prems(2)]
  have ne: "cmp x d \<noteq> 0" using Node.prems(3) by simp
  show ?case
  proof (cases "cmp x d < 0")
    case True
    from Node.IH(1) parts(1) Node.prems obtain l' where
      l': "InsertRec True l x cmp = Inr (l', 0)" "heights_ok l'" "inorder l' = insert_ordered cmp x (inorder l)" by auto
    from Rebalance_ok [OF l'(2), of r d] Node.prems(1) obtain t where
      "Rebalance (mk d l' r) = Inr t" "heights_ok t" "inorder t = inorder l' @ d # inorder r" by auto
    moreover have "\<forall>y \<in> set (d # inorder r). \<not> cmp x y > 0"
      using order_left [OF ord Node.prems(2) True] by (meson less_asym)
    ultimately show ?thesis using True ne l' Node.prems(1) by (simp add: FixHeight_mk insert_ordered_left)
  next
    case False
    with ne have gt: "cmp x d > 0" by simp
    from Node.IH(2) parts(2) Node.prems obtain r' where
      r': "InsertRec True r x cmp = Inr (r', 0)" "heights_ok r'" "inorder r' = insert_ordered cmp x (inorder r)" by auto
    from Rebalance_ok [OF _ r'(2), of l d] Node.prems(1) obtain t where
      "Rebalance (mk d l r') = Inr t" "heights_ok t" "inorder t = inorder l @ d # inorder r'" by auto
    with False ne r' Node.prems(1) order_right [OF ord Node.prems(2) gt] show ?thesis
      by (simp add: FixHeight_mk insert_ordered_right)
  qed
qed

lemma insert_ordered_sorted:
  assumes ord: "cmp_order cmp" and sorted: "sorted_wrt (\<lambda>x y. cmp x y < 0) xs" and new: "\<forall>y \<in> set xs. cmp x y \<noteq> 0"
  shows "sorted_wrt (\<lambda>x y. cmp x y < 0) (insert_ordered cmp x xs)"
  using sorted new
proof (induction xs)
  case (Cons a xs)
  show ?case
  proof (cases "cmp x a > 0")
    case True
    then have "cmp a x < 0" using cmp_order.cmp_swap [OF ord] by blast
    moreover have "set (insert_ordered cmp x xs) \<subseteq> insert x (set xs)"
      by (auto simp: insert_ordered_def dest: set_takeWhileD set_dropWhileD)
    ultimately show ?thesis using Cons True by (auto simp: insert_ordered_def)
  next
    case False
    then have "cmp x a < 0" using Cons.prems(2) by force
    with Cons.prems False show ?thesis
      using cmp_order.cmp_less_trans [OF ord, of x a] by (fastforce simp: insert_ordered_def less_imp_le)
  qed
qed (simp add: insert_ordered_def)

lemma mset_insert_ordered: "mset (insert_ordered cmp x xs) = add_mset x (mset xs)"
proof -
  have "mset xs = mset (takeWhile (\<lambda>y. cmp x y > 0) xs) + mset (dropWhile (\<lambda>y. cmp x y > 0) xs)"
    by (simp flip: mset_append)
  then show ?thesis by (simp add: insert_ordered_def)
qed

text \<open>Insertion keeps the balance and grows the height by at most one.\<close>

lemma InsertRec_balanced:
  "heights_ok t \<Longrightarrow> balanced t \<Longrightarrow> InsertRec True t x cmp = Inr (t', s) \<Longrightarrow>
   heights_ok t' \<and> balanced t' \<and> (real_height t' = real_height t \<or> real_height t' = real_height t + 1)"
proof (induction t arbitrary: t' s)
  case Null
  then show ?case by (auto simp: CreateNode_def)
next
  case (Node h d l r)
  have ne: "cmp x d \<noteq> 0" using Node.prems(3) by (auto simp: Let_def bindE_Inr_iff)
  show ?case
  proof (cases "cmp x d < 0")
    case True
    then obtain l' where l': "InsertRec True l x cmp = Inr (l', s)" "bindE (FixHeight (Node h d l' r)) Rebalance = Inr t'"
      using Node.prems(3) ne by (auto simp: bindE_Inr_iff Let_def)
    have ok: "heights_ok l'" "balanced l'" "real_height l' = real_height l \<or> real_height l' = real_height l + 1"
      using Node.IH(1) [OF _ _ l'(1)] Node.prems(1,2) by simp_all
    have bal: "real_height l \<le> real_height r + 1" "real_height r \<le> real_height l + 1" "balanced r" "heights_ok r"
      using Node.prems by auto
    with ok Rebalance_balanced [of l' r d] Rebalance_ok [of l' r d] l'(2) show ?thesis
      by (auto simp: FixHeight_mk max_def split: if_splits)
  next
    case False
    then obtain r' where r': "InsertRec True r x cmp = Inr (r', s)" "bindE (FixHeight (Node h d l r')) Rebalance = Inr t'"
      using Node.prems(3) ne by (auto simp: bindE_Inr_iff Let_def)
    have ok: "heights_ok r'" "balanced r'" "real_height r' = real_height r \<or> real_height r' = real_height r + 1"
      using Node.IH(2) [OF _ _ r'(1)] Node.prems(1,2) by simp_all
    have bal: "real_height l \<le> real_height r + 1" "real_height r \<le> real_height l + 1" "balanced l" "heights_ok l"
      using Node.prems by auto
    with ok Rebalance_balanced [of l r' d] Rebalance_ok [of l r' d] r'(2) show ?thesis
      by (auto simp: FixHeight_mk max_def split: if_splits)
  qed
qed

text \<open>A duplicate stops at the assertion; without memory the tree keeps its elements.\<close>

lemma InsertRec_duplicate:
  assumes ord: "cmp_order cmp"
  shows "heights_ok t \<Longrightarrow> tree_ordered cmp t \<Longrightarrow> y \<in> set (inorder t) \<Longrightarrow> cmp x y = 0 \<Longrightarrow>
    InsertRec ok t x cmp = Inl Assert_failed"
proof (induction t)
  case (Node h d l r)
  note parts = tree_ordered_Node [OF ord Node.prems(2)]
  have "cmp x d = 0 \<or> (cmp x d < 0 \<and> y \<in> set (inorder l)) \<or> (cmp x d > 0 \<and> y \<in> set (inorder r))"
    using order_left [OF ord Node.prems(2), of x] order_right [OF ord Node.prems(2), of x] Node.prems(3,4)
    by (cases "cmp x d" "0 :: int" rule: linorder_cases) auto
  with Node parts show ?case by (auto simp: Let_def)
qed simp

section \<open>Removal\<close>

lemma PopMin_ok:
  "heights_ok t \<Longrightarrow> t \<noteq> Null \<Longrightarrow>
   \<exists>t' m. PopMin t = Inr (t', Some m) \<and> heights_ok t' \<and> inorder t = m # inorder t'"
proof (induction t)
  case (Node h d l r)
  show ?case
  proof (cases "l = Null")
    case False
    with Node obtain l' m where "PopMin l = Inr (l', Some m)" "heights_ok l'" "inorder l = m # inorder l'" by auto
    with Node.prems False show ?thesis by (simp add: FixHeight_mk)
  qed (use Node.prems in simp)
qed simp

lemma RemoveRec_ok:
  assumes ord: "cmp_order cmp"
  shows "heights_ok t \<Longrightarrow> tree_ordered cmp t \<Longrightarrow>
    \<exists>t'. RemoveRec t x cmp = Inr t' \<and> heights_ok t' \<and> inorder t' = filter (\<lambda>y. cmp x y \<noteq> 0) (inorder t)"
proof (induction t)
  case (Node h d l r)
  note parts = tree_ordered_Node [OF ord Node.prems(2)]
  have ok: "heights_ok l" "heights_ok r" using Node.prems(1) by simp_all
  consider "cmp x d < 0" | "cmp x d > 0" | "cmp x d = 0" by linarith
  then show ?case
  proof cases
    case 1
    from Node.IH(1) parts(1) ok obtain l' where
      l': "RemoveRec l x cmp = Inr l'" "heights_ok l'" "inorder l' = filter (\<lambda>y. cmp x y \<noteq> 0) (inorder l)" by auto
    from Rebalance_ok [OF l'(2) ok(2), of d] obtain t where
      "Rebalance (mk d l' r) = Inr t" "heights_ok t" "inorder t = inorder l' @ d # inorder r" by blast
    moreover have "filter (\<lambda>y. cmp x y \<noteq> 0) (d # inorder r) = d # inorder r"
      using order_left [OF ord Node.prems(2) 1] by (intro filter_True) auto
    ultimately show ?thesis using 1 l' ok by (simp add: FixHeight_mk)
  next
    case 2
    from Node.IH(2) parts(2) ok obtain r' where
      r': "RemoveRec r x cmp = Inr r'" "heights_ok r'" "inorder r' = filter (\<lambda>y. cmp x y \<noteq> 0) (inorder r)" by auto
    from Rebalance_ok [OF ok(1) r'(2), of d] obtain t where
      "Rebalance (mk d l r') = Inr t" "heights_ok t" "inorder t = inorder l @ d # inorder r'" by blast
    moreover have "filter (\<lambda>y. cmp x y \<noteq> 0) (inorder l) = inorder l"
      using order_right [OF ord Node.prems(2) 2] by (intro filter_True) auto
    ultimately show ?thesis using 2 r' ok by (simp add: FixHeight_mk)
  next
    case 3
    have dx: "cmp d x = 0" using 3 cmp_order.cmp_eq_sym [OF ord] by blast
    have "cmp x y < 0" if "y \<in> set (inorder r)" for y
      using parts(4) that 3 cmp_order.cmp_le_less_trans [OF ord, of x d y] by auto
    moreover have "cmp y x < 0" if "y \<in> set (inorder l)" for y
      using parts(3) that dx cmp_order.cmp_less_trans [OF ord, of y d x] by auto
    ultimately have keep: "filter (\<lambda>y. cmp x y \<noteq> 0) (inorder l) = inorder l" "filter (\<lambda>y. cmp x y \<noteq> 0) (inorder r) = inorder r"
      using cmp_order.cmp_eq_sym [OF ord] by (intro filter_True; force)+
    show ?thesis
    proof (cases "l = Null \<or> r = Null")
      case True
      with 3 ok keep show ?thesis by auto
    next
      case False
      with PopMin_ok [OF ok(2)] obtain r' m where
        m: "PopMin r = Inr (r', Some m)" "heights_ok r'" "inorder r = m # inorder r'" by blast
      from Rebalance_ok [OF ok(1) m(2), of m] obtain t where
        "Rebalance (mk m l r') = Inr t" "heights_ok t" "inorder t = inorder l @ m # inorder r'" by blast
      with 3 False m ok keep show ?thesis by (simp add: FixHeight_mk)
    qed
  qed
qed simp

section \<open>Search and traversal\<close>

lemma FindRec_ok:
  assumes ord: "cmp_order cmp"
  shows "tree_ordered cmp t \<Longrightarrow> NULL \<notin> set (inorder t) \<Longrightarrow>
    FindRec t x cmp = (case find (\<lambda>y. cmp x y = 0) (inorder t) of None \<Rightarrow> NULL | Some y \<Rightarrow> y)"
proof (induction t)
  case (Node h d l r)
  note parts = tree_ordered_Node [OF ord Node.prems(1)]
  have app: "find P (us @ vs) = (case find P us of None \<Rightarrow> find P vs | Some y \<Rightarrow> Some y)" for P and us vs :: "ptr list"
    by (induction us) auto
  have none: "find P us = None" if "\<forall>y \<in> set us. \<not> P y" for P and us :: "ptr list"
    using that by (simp add: find_None_iff)
  consider "cmp x d < 0" | "cmp x d > 0" | "cmp x d = 0" by linarith
  then show ?case
  proof cases
    case 1
    then have "find (\<lambda>y. cmp x y = 0) (d # inorder r) = None"
      using order_left [OF ord Node.prems(1) 1] by (intro none) auto
    with 1 Node parts show ?thesis by (simp add: app split: option.splits)
  next
    case 2
    then have "find (\<lambda>y. cmp x y = 0) (inorder l) = None"
      using order_right [OF ord Node.prems(1) 2] by (intro none) auto
    with 2 Node parts show ?thesis by (simp add: app)
  next
    case 3
    have dx: "cmp d x = 0" using 3 cmp_order.cmp_eq_sym [OF ord] by blast
    have "cmp y x < 0" if "y \<in> set (inorder l)" for y
      using parts(3) that dx cmp_order.cmp_less_trans [OF ord, of y d x] by auto
    then have "find (\<lambda>y. cmp x y = 0) (inorder l) = None"
      using cmp_order.cmp_eq_sym [OF ord] by (intro none) force
    with 3 show ?thesis by (simp add: app)
  qed
qed simp

lemma traversals:
  "PreTraversalOrder t f s = each_spec f (preorder t) s"
  "InTraversalOrder t f s = each_spec f (inorder t) s"
  "PostTraversalOrder t f s = each_spec f (postorder t) s"
  by (induction t arbitrary: s) (auto simp: each_spec_append Let_def split: prod.splits)

lemma orders_same: "mset (preorder t) = mset (inorder t)" "mset (postorder t) = mset (inorder t)"
  "length (preorder t) = length (inorder t)"
  by (induction t) auto

lemma each_spec_AddOne: "each_spec AddOne ds n = (n + length ds, 0)"
  by (induction ds arbitrary: n) (simp_all add: AddOne_def)

lemma AVLCount_ok: "AVLCount t = Inr (length (inorder (avl_root t)))"
  by (simp add: AVLCount_def AVLForEach_def traversals each_spec_AddOne orders_same)

lemma DestroyRec_eq: "DestroyRec t = postorder t"
  by (induction t) auto


section \<open>The tree as a whole\<close>

definition avl_inv :: "avl_t \<Rightarrow> bool" where
  "avl_inv t \<longleftrightarrow> cmp_order (avl_cmp t) \<and> heights_ok (avl_root t) \<and> tree_ordered (avl_cmp t) (avl_root t) \<and>
     NULL \<notin> set (inorder (avl_root t))"

definition avl_elems :: "avl_t \<Rightarrow> ptr list" where
  "avl_elems t = inorder (avl_root t)"

lemma AVLInsert_ok:
  assumes inv: "avl_inv t" and x: "x \<noteq> NULL" "\<forall>y \<in> set (avl_elems t). avl_cmp t x y \<noteq> 0"
  shows "\<exists>t'. AVLInsert True t x = Inr (t', 0) \<and> avl_inv t' \<and> avl_cmp t' = avl_cmp t \<and>
    mset (avl_elems t') = add_mset x (mset (avl_elems t)) \<and> (balanced (avl_root t) \<longrightarrow> balanced (avl_root t'))"
proof -
  have parts: "cmp_order (avl_cmp t)" "heights_ok (avl_root t)" "tree_ordered (avl_cmp t) (avl_root t)"
    "NULL \<notin> set (inorder (avl_root t))" using inv by (simp_all add: avl_inv_def)
  from InsertRec_ok [OF parts(1-3)] x(2) obtain r where
    r: "InsertRec True (avl_root t) x (avl_cmp t) = Inr (r, 0)" "heights_ok r"
    "inorder r = insert_ordered (avl_cmp t) x (inorder (avl_root t))" by (auto simp: avl_elems_def)
  have "tree_ordered (avl_cmp t) r"
    using insert_ordered_sorted [OF parts(1)] parts(3) x(2) unfolding tree_ordered_def r(3) avl_elems_def by blast
  moreover have "mset (inorder r) = add_mset x (mset (inorder (avl_root t)))" unfolding r(3) by (rule mset_insert_ordered)
  moreover from this have "set (inorder r) = insert x (set (inorder (avl_root t)))" by (metis set_mset_add_mset_insert set_mset_mset)
  moreover have "balanced (avl_root t) \<longrightarrow> balanced r" using InsertRec_balanced [OF parts(2) _ r(1)] by blast
  ultimately show ?thesis using r parts x(1) by (simp add: AVLInsert_def avl_inv_def avl_elems_def)
qed

lemma AVLRemove_ok:
  assumes inv: "avl_inv t" and x: "x \<noteq> NULL"
  shows "\<exists>t'. AVLRemove t x = Inr t' \<and> avl_inv t' \<and> avl_cmp t' = avl_cmp t \<and>
    avl_elems t' = filter (\<lambda>y. avl_cmp t x y \<noteq> 0) (avl_elems t)"
proof -
  have parts: "cmp_order (avl_cmp t)" "heights_ok (avl_root t)" "tree_ordered (avl_cmp t) (avl_root t)"
    "NULL \<notin> set (inorder (avl_root t))" using inv by (simp_all add: avl_inv_def)
  from RemoveRec_ok [OF parts(1-3), of x] obtain r where
    r: "RemoveRec (avl_root t) x (avl_cmp t) = Inr r" "heights_ok r"
    "inorder r = filter (\<lambda>y. avl_cmp t x y \<noteq> 0) (inorder (avl_root t))" by blast
  have "tree_ordered (avl_cmp t) r"
    using parts(3) unfolding tree_ordered_def r(3) by (rule sorted_wrt_filter)
  with r parts x show ?thesis by (auto simp: AVLRemove_def avl_inv_def avl_elems_def)
qed

lemma AVLFind_ok:
  assumes "avl_inv t" "x \<noteq> NULL"
  shows "AVLFind t x = Inr (case find (\<lambda>y. avl_cmp t x y = 0) (avl_elems t) of None \<Rightarrow> NULL | Some y \<Rightarrow> y)"
  using FindRec_ok [of "avl_cmp t" "avl_root t" x] assms by (simp add: AVLFind_def avl_inv_def avl_elems_def)

text \<open>A balanced tree is logarithmically high.\<close>

lemma balanced_height: "balanced t \<Longrightarrow> 2 ^ (real_height t div 2) \<le> length (inorder t) + 1"
proof (induction t)
  case (Node h d l r)
  let ?k = "max (real_height l) (real_height r)"
  have small: "?k - 1 \<le> real_height l" "?k - 1 \<le> real_height r" using Node.prems by auto
  have half: "(?k - 1) div 2 \<le> real_height l div 2" "(?k - 1) div 2 \<le> real_height r div 2"
    using small div_le_mono by blast+
  have pow: "(2 :: nat) ^ ((?k - 1) div 2) \<le> 2 ^ (real_height l div 2)" "(2 :: nat) ^ ((?k - 1) div 2) \<le> 2 ^ (real_height r div 2)"
    using half by (simp_all add: power_increasing)
  have "real_height (Node h d l r) div 2 \<le> Suc ((?k - 1) div 2)" by auto
  then have "(2 :: nat) ^ (real_height (Node h d l r) div 2) \<le> 2 ^ Suc ((?k - 1) div 2)" by (rule power_increasing) simp
  also have "\<dots> = 2 ^ ((?k - 1) div 2) + 2 ^ ((?k - 1) div 2)" by simp
  also have "\<dots> \<le> (length (inorder l) + 1) + (length (inorder r) + 1)"
    using Node pow by (intro add_mono) (meson balanced.simps(2) order_trans)+
  finally show ?case by simp
qed simp

text \<open>
  \<open>PopMin\<close> only corrects heights: removing a node with two children can leave its right subtree
  unbalanced.
\<close>

definition ptr_cmp :: "ptr \<Rightarrow> ptr \<Rightarrow> int" where
  "ptr_cmp x y = uint x - uint y"

definition leaf :: "ptr \<Rightarrow> avl_node_t" where
  "leaf d = Node 1 d Null Null"

definition lopsided :: avl_t where
  "lopsided = \<lparr>avl_root = Node 4 4 (Node 2 2 (leaf 1) Null) (Node 3 7 (leaf 5) (Node 2 8 Null (leaf 9))),
     avl_cmp = ptr_cmp\<rparr>"

interpretation ptr_order: cmp_order ptr_cmp
  by unfold_locales (auto simp: ptr_cmp_def)

lemma AVLRemove_unbalances:
  "avl_inv lopsided \<and> balanced (avl_root lopsided) \<and>
   (\<exists>t'. AVLRemove lopsided 4 = Inr t' \<and> \<not> balanced (avl_root t'))"
proof -
  have "avl_inv lopsided"
    using ptr_order.cmp_order_axioms by (simp add: avl_inv_def lopsided_def leaf_def tree_ordered_def ptr_cmp_def)
  moreover have "balanced (avl_root lopsided)" by (simp add: lopsided_def leaf_def)
  moreover have "\<exists>t'. AVLRemove lopsided 4 = Inr t' \<and> \<not> balanced (avl_root t')"
    by (simp add: AVLRemove_def lopsided_def leaf_def ptr_cmp_def FixHeight_def Rebalance_def BalanceFactor_def NodeHeight_def)
  ultimately show ?thesis by blast
qed

end
