(* ===== verification/Cmp_Sorting.thy ===== *)
theory Cmp_Sorting
  imports Arrays
begin

text \<open>
  The quadratic sorts of \<open>projects/sorting/src/cmp_sorting.c\<close>. \<open>None\<close> is a null array; the size
  is a separate argument, as in the code, and may be smaller than the array.
\<close>

section \<open>The code\<close>

definition Swap :: "int list \<Rightarrow> nat \<Rightarrow> nat \<Rightarrow> int list result" where
  "Swap arr a b =
     bindE (aget arr a) (\<lambda>temp.
     bindE (aget arr b) (\<lambda>vb.
     bindE (aset arr a vb) (\<lambda>arr1. aset arr1 b temp)))"

text \<open>The inner loop of \<open>BubbleSort\<close>, from index \<open>j\<close> to \<open>limit\<close>.\<close>

function BubbleSort_inner :: "int list \<Rightarrow> nat \<Rightarrow> nat \<Rightarrow> bool \<Rightarrow> (int list \<times> bool) result" where
  "BubbleSort_inner arr limit j is_swap =
     (if j < limit
      then bindE (aget arr j) (\<lambda>x.
           bindE (aget arr (j + 1)) (\<lambda>y.
           if x > y then bindE (Swap arr j (j + 1)) (\<lambda>arr'. BubbleSort_inner arr' limit (j + 1) True)
           else BubbleSort_inner arr limit (j + 1) is_swap))
      else Inr (arr, is_swap))"
  by pat_completeness auto
termination by (relation "measure (\<lambda>(arr, limit, j, is_swap). limit - j)") auto

function BubbleSort_outer :: "int list \<Rightarrow> nat \<Rightarrow> nat \<Rightarrow> bool \<Rightarrow> int list result" where
  "BubbleSort_outer arr size' i is_swap =
     (if i < size' - 1 \<and> is_swap
      then bindE (BubbleSort_inner arr (size' - i - 1) 0 False) (\<lambda>(arr', sw). BubbleSort_outer arr' size' (i + 1) sw)
      else Inr arr)"
  by pat_completeness auto
termination by (relation "measure (\<lambda>(arr, size', i, is_swap). size' - i)") auto

definition BubbleSort :: "int list option \<Rightarrow> nat \<Rightarrow> int list option result" where
  "BubbleSort arr size' =
     (case arr of None \<Rightarrow> Inr None
      | Some xs \<Rightarrow> if size' < 2 then Inr (Some xs)
                  else bindE (BubbleSort_outer xs size' 0 True) (\<lambda>ys. Inr (Some ys)))"

text \<open>The inner loop of \<open>SelectionSort\<close>: the index of the minimum.\<close>

function SelectionSort_inner :: "int list \<Rightarrow> nat \<Rightarrow> nat \<Rightarrow> nat \<Rightarrow> nat result" where
  "SelectionSort_inner arr size' j min_index =
     (if j < size'
      then bindE (aget arr j) (\<lambda>x.
           bindE (aget arr min_index) (\<lambda>m.
           SelectionSort_inner arr size' (j + 1) (if x < m then j else min_index)))
      else Inr min_index)"
  by pat_completeness auto
termination by (relation "measure (\<lambda>(arr, size', j, m). size' - j)") auto

function SelectionSort_outer :: "int list \<Rightarrow> nat \<Rightarrow> nat \<Rightarrow> int list result" where
  "SelectionSort_outer arr size' i =
     (if i < size' - 1
      then bindE (SelectionSort_inner arr size' (i + 1) i) (\<lambda>min_index.
           bindE (if min_index \<noteq> i then Swap arr i min_index else Inr arr) (\<lambda>arr'.
           SelectionSort_outer arr' size' (i + 1)))
      else Inr arr)"
  by pat_completeness auto
termination by (relation "measure (\<lambda>(arr, size', i). size' - i)") auto

definition SelectionSort :: "int list option \<Rightarrow> nat \<Rightarrow> int list option result" where
  "SelectionSort arr size' =
     (case arr of None \<Rightarrow> Inr None
      | Some xs \<Rightarrow> if size' < 2 then Inr (Some xs)
                  else bindE (SelectionSort_outer xs size' 0) (\<lambda>ys. Inr (Some ys)))"

text \<open>The \<open>while\<close> of \<open>InsertionSort\<close>: it shifts the larger elements and answers the free index.\<close>

fun InsertionSort_shift :: "int list \<Rightarrow> int \<Rightarrow> nat \<Rightarrow> (int list \<times> nat) result" where
  "InsertionSort_shift arr key 0 = Inr (arr, 0)"
| "InsertionSort_shift arr key (Suc j) =
     bindE (aget arr j) (\<lambda>x.
     if x > key then bindE (aset arr (Suc j) x) (\<lambda>arr'. InsertionSort_shift arr' key j)
     else Inr (arr, Suc j))"

function InsertionSort_outer :: "int list \<Rightarrow> nat \<Rightarrow> nat \<Rightarrow> int list result" where
  "InsertionSort_outer arr size' i =
     (if i < size'
      then bindE (aget arr i) (\<lambda>key.
           bindE (InsertionSort_shift arr key i) (\<lambda>(arr1, j).
           bindE (aset arr1 j key) (\<lambda>arr2. InsertionSort_outer arr2 size' (i + 1))))
      else Inr arr)"
  by pat_completeness auto
termination by (relation "measure (\<lambda>(arr, size', i). size' - i)") auto

definition InsertionSort :: "int list option \<Rightarrow> nat \<Rightarrow> int list option result" where
  "InsertionSort arr size' =
     (case arr of None \<Rightarrow> Inr None
      | Some xs \<Rightarrow> if size' < 2 then Inr (Some xs)
                  else bindE (InsertionSort_outer xs size' 1) (\<lambda>ys. Inr (Some ys)))"

declare BubbleSort_inner.simps [simp del] BubbleSort_outer.simps [simp del] SelectionSort_inner.simps [simp del]
  SelectionSort_outer.simps [simp del] InsertionSort_outer.simps [simp del]

section \<open>Bubble sort\<close>

lemma Swap_ok: "a < length arr \<Longrightarrow> b < length arr \<Longrightarrow> Swap arr a b = Inr (arr[a := arr ! b, b := arr ! a])"
  by (simp add: Swap_def)

lemma BubbleSort_inner_ok:
  "limit < length xs \<Longrightarrow> j \<le> limit \<Longrightarrow> (\<And>k. k < j \<Longrightarrow> xs ! k \<le> xs ! j) \<Longrightarrow>
   \<exists>ys sw'. BubbleSort_inner xs limit j sw = Inr (ys, sw') \<and> perm_within 0 (Suc limit) xs ys \<and>
     (\<forall>k < limit. ys ! k \<le> ys ! limit) \<and>
     (\<not> sw' \<longrightarrow> \<not> sw \<and> ys = xs \<and> (\<forall>k. j \<le> k \<longrightarrow> k < limit \<longrightarrow> xs ! k \<le> xs ! Suc k))"
proof (induction xs limit j sw rule: BubbleSort_inner.induct)
  case (1 xs limit j sw)
  show ?case
  proof (cases "j < limit")
    case False
    then have "BubbleSort_inner xs limit j sw = Inr (xs, sw)" by (simp add: BubbleSort_inner.simps [of xs limit j sw])
    with "1.prems" False show ?thesis by (intro exI [of _ xs] exI [of _ sw]) auto
  next
    case True
    then have len: "j < length xs" "Suc j < length xs" using "1.prems" by auto
    show ?thesis
    proof (cases "xs ! j > xs ! Suc j")
      case swap: True
      let ?ys = "xs[j := xs ! Suc j, Suc j := xs ! j]"
      have "k < Suc j \<Longrightarrow> ?ys ! k \<le> ?ys ! Suc j" for k
        using "1.prems"(3) [of k] swap len by (cases "k = j") (auto simp: nth_list_update)
      with "1.IH"(1) [of "xs ! j" "xs ! Suc j" ?ys] True len swap "1.prems"(1) obtain zs sw' where
        z: "BubbleSort_inner ?ys limit (Suc j) True = Inr (zs, sw')" "perm_within 0 (Suc limit) ?ys zs"
          "\<forall>k < limit. zs ! k \<le> zs ! limit" "sw'"
        by (auto simp: Swap_ok)
      have "perm_within 0 (Suc limit) xs ?ys" using True len by (intro perm_within_swap) auto
      with z have "perm_within 0 (Suc limit) xs zs" by (blast intro: perm_within_trans)
      with z True len swap show ?thesis by (auto simp: BubbleSort_inner.simps [of xs limit j sw] Swap_ok)
    next
      case noswap: False
      have "k < Suc j \<Longrightarrow> xs ! k \<le> xs ! Suc j" for k
        using "1.prems"(3) [of k] noswap by (cases "k = j") auto
      with "1.IH"(2) [of "xs ! j" "xs ! Suc j"] True len noswap "1.prems"(1) obtain zs sw' where
        z: "BubbleSort_inner xs limit (Suc j) sw = Inr (zs, sw')" "perm_within 0 (Suc limit) xs zs"
          "\<forall>k < limit. zs ! k \<le> zs ! limit"
          "\<not> sw' \<longrightarrow> \<not> sw \<and> zs = xs \<and> (\<forall>k. Suc j \<le> k \<longrightarrow> k < limit \<longrightarrow> xs ! k \<le> xs ! Suc k)"
        by auto
      have "\<not> sw' \<longrightarrow> (\<forall>k. j \<le> k \<longrightarrow> k < limit \<longrightarrow> xs ! k \<le> xs ! Suc k)"
        using z(4) noswap by (metis Suc_leI le_neq_implies_less linorder_not_le order.order_iff_strict)
      with z True len noswap show ?thesis by (auto simp: BubbleSort_inner.simps [of xs limit j sw])
    qed
  qed
qed

text \<open>After \<open>i\<close> passes the last \<open>i\<close> elements are in place.\<close>

lemma BubbleSort_outer_ok:
  "n \<le> length xs \<Longrightarrow> 0 < n \<Longrightarrow> (\<And>a b. a < b \<Longrightarrow> n - i \<le> b \<Longrightarrow> b < n \<Longrightarrow> xs ! a \<le> xs ! b) \<Longrightarrow> i \<le> n - 1 \<Longrightarrow>
   (\<not> sw \<Longrightarrow> sorted_in 0 n xs) \<Longrightarrow>
   \<exists>ys. BubbleSort_outer xs n i sw = Inr ys \<and> perm_within 0 n xs ys \<and> sorted_in 0 n ys"
proof (induction xs n i sw rule: BubbleSort_outer.induct)
  case (1 xs n i sw)
  show ?case
  proof (cases "i < n - 1 \<and> sw")
    case False
    then have "sorted_in 0 n xs" using "1.prems"(3-5) by (cases sw) (auto simp: sorted_in_def)
    moreover have "BubbleSort_outer xs n i sw = Inr xs" using False by (auto simp: BubbleSort_outer.simps [of xs n i sw])
    ultimately show ?thesis by simp
  next
    case True
    let ?l = "n - i - 1"
    have l: "?l < length xs" "Suc ?l \<le> n" "Suc ?l = n - i" using True "1.prems"(1) by auto
    obtain ys sw' where y: "BubbleSort_inner xs ?l 0 False = Inr (ys, sw')" "perm_within 0 (Suc ?l) xs ys"
      "\<forall>k < ?l. ys ! k \<le> ys ! ?l" "\<not> sw' \<longrightarrow> ys = xs \<and> (\<forall>k < ?l. xs ! k \<le> xs ! Suc k)"
      using BubbleSort_inner_ok [of ?l xs 0 False] l(1) by auto
    have len: "length ys = length xs" using y(2) by (rule perm_within_length)
    have pn: "perm_within 0 n xs ys" using y(2) l(2) by (rule perm_within_mono [OF _ order_refl])
    have place: "ys ! a \<le> ys ! b" if ab: "a < b" "n - (i + 1) \<le> b" "b < n" for a b
    proof (cases "b = ?l")
      case True
      then show ?thesis using y(3) ab(1) by simp
    next
      case False
      then have b: "Suc ?l \<le> b" using ab l(3) by simp
      then have yb: "ys ! b = xs ! b" using perm_within_outside [OF y(2), of b] ab(3) "1.prems"(1) by simp
      show ?thesis
      proof (cases "a < Suc ?l")
        case True
        then have "ys ! a \<le> xs ! b"
          using "1.prems"(3) [of _ b] b l ab(3) "1.prems"(1)
          by (intro perm_within_all [OF y(2), of a "\<lambda>v. v \<le> xs ! b"]) auto
        with yb show ?thesis by simp
      next
        case False
        then have "ys ! a = xs ! a" using perm_within_outside [OF y(2), of a] ab "1.prems"(1) by simp
        with yb "1.prems"(3) [of a b] ab b l(3) show ?thesis by simp
      qed
    qed
    have fin: "sorted_in 0 n ys" if "\<not> sw'"
    proof (rule sorted_in_adjacent)
      fix k
      assume "Suc k < n"
      then show "ys ! k \<le> ys ! Suc k" using y(4) that place [of k "Suc k"] by (cases "k < ?l") auto
    qed
    have "\<exists>zs. BubbleSort_outer ys n (i + 1) sw' = Inr zs \<and> perm_within 0 n ys zs \<and> sorted_in 0 n zs"
      using "1.IH" [OF True y(1) refl] "1.prems"(1,2) True len place fin by auto
    then obtain zs where z: "BubbleSort_outer ys n (i + 1) sw' = Inr zs" "perm_within 0 n ys zs" "sorted_in 0 n zs" by blast
    have "perm_within 0 n xs zs" using pn z(2) by (rule perm_within_trans)
    moreover have "BubbleSort_outer xs n i sw = Inr zs" using z(1) y(1) True by (subst BubbleSort_outer.simps) simp
    ultimately show ?thesis using z(3) by blast
  qed
qed

lemma BubbleSort_ok:
  assumes "n \<le> length xs"
  shows "BubbleSort (Some xs) n = Inr (Some (sort (take n xs) @ drop n xs))"
proof (cases "n < 2")
  case True
  then have "sorted_in 0 n xs" by simp
  from sorts_prefix [OF _ this assms] have "sort (take n xs) @ drop n xs = xs" by simp
  with True show ?thesis by (simp add: BubbleSort_def)
next
  case False
  then obtain ys where "BubbleSort_outer xs n 0 True = Inr ys" "perm_within 0 n xs ys" "sorted_in 0 n ys"
    using BubbleSort_outer_ok [of n xs 0 True] assms by auto
  with sorts_prefix [OF this(2,3) assms] False show ?thesis by (simp add: BubbleSort_def)
qed


section \<open>Selection sort\<close>

lemma SelectionSort_inner_ok:
  "n \<le> length xs \<Longrightarrow> lo \<le> m \<Longrightarrow> m < j \<Longrightarrow> j \<le> n \<Longrightarrow> (\<And>k. lo \<le> k \<Longrightarrow> k < j \<Longrightarrow> xs ! m \<le> xs ! k) \<Longrightarrow>
   \<exists>r. SelectionSort_inner xs n j m = Inr r \<and> lo \<le> r \<and> r < n \<and> (\<forall>k. lo \<le> k \<longrightarrow> k < n \<longrightarrow> xs ! r \<le> xs ! k)"
proof (induction xs n j m rule: SelectionSort_inner.induct)
  case (1 xs n j m)
  show ?case
  proof (cases "j < n")
    case False
    then have "SelectionSort_inner xs n j m = Inr m" by (simp add: SelectionSort_inner.simps [of xs n j m])
    with False "1.prems" show ?thesis by auto
  next
    case True
    let ?m = "if xs ! j < xs ! m then j else m"
    have len: "j < length xs" "m < length xs" using True "1.prems" by auto
    have "xs ! ?m \<le> xs ! k" if "lo \<le> k" "k < j + 1" for k
      using "1.prems"(5) [of k] that by (cases "k = j") auto
    moreover have "lo \<le> ?m" "?m < j + 1" using "1.prems" by auto
    ultimately obtain r where "SelectionSort_inner xs n (j + 1) ?m = Inr r" "lo \<le> r" "r < n"
      "\<forall>k. lo \<le> k \<longrightarrow> k < n \<longrightarrow> xs ! r \<le> xs ! k"
      using "1.IH" [OF True, of "xs ! j" "xs ! m"] len "1.prems"(1) True by auto
    with True len show ?thesis by (simp add: SelectionSort_inner.simps [of xs n j m])
  qed
qed

lemma SelectionSort_outer_ok:
  "n \<le> length xs \<Longrightarrow> (\<And>a b. a < i \<Longrightarrow> a < b \<Longrightarrow> b < n \<Longrightarrow> xs ! a \<le> xs ! b) \<Longrightarrow>
   \<exists>ys. SelectionSort_outer xs n i = Inr ys \<and> perm_within 0 n xs ys \<and> sorted_in 0 n ys"
proof (induction xs n i rule: SelectionSort_outer.induct)
  case (1 xs n i)
  show ?case
  proof (cases "i < n - 1")
    case False
    then have "SelectionSort_outer xs n i = Inr xs" by (simp add: SelectionSort_outer.simps [of xs n i])
    moreover have "sorted_in 0 n xs" using "1.prems"(2) False by (auto simp: sorted_in_def)
    ultimately show ?thesis by simp
  next
    case True
    obtain r where r: "SelectionSort_inner xs n (i + 1) i = Inr r" "i \<le> r" "r < n"
      "\<forall>k. i \<le> k \<longrightarrow> k < n \<longrightarrow> xs ! r \<le> xs ! k"
      using SelectionSort_inner_ok [of n xs i i "i + 1"] "1.prems"(1) True by (fastforce simp: le_less_Suc_eq)
    define ys where "ys = (if r \<noteq> i then xs[i := xs ! r, r := xs ! i] else xs)"
    have step: "(if r \<noteq> i then Swap xs i r else Inr xs) = Inr ys"
      using r "1.prems"(1) by (simp add: Swap_ok ys_def)
    have perm: "perm_within i n xs ys"
      using r "1.prems"(1) by (auto simp: ys_def intro!: perm_within_swap)
    have len: "length ys = length xs" using perm by (rule perm_within_length)
    have yi: "ys ! i = xs ! r" using r "1.prems"(1) by (auto simp: ys_def nth_list_update)
    have place: "ys ! a \<le> ys ! b" if ab: "a < i + 1" "a < b" "b < n" for a b
    proof (cases "a = i")
      case True
      then have "xs ! r \<le> ys ! b"
        using r(4) ab "1.prems"(1) by (intro perm_within_all [OF perm, of b "\<lambda>v. xs ! r \<le> v"]) auto
      with yi True show ?thesis by simp
    next
      case False
      then have ya: "ys ! a = xs ! a" using perm_within_outside [OF perm, of a] ab "1.prems"(1) by simp
      show ?thesis
      proof (cases "b < i")
        case True
        then have "ys ! b = xs ! b" using perm_within_outside [OF perm, of b] ab "1.prems"(1) by simp
        with ya "1.prems"(2) [of a b] ab False show ?thesis by simp
      next
        case b: False
        have "xs ! a \<le> ys ! b"
          using "1.prems" False ab b by (intro perm_within_all [OF perm, of b "\<lambda>v. xs ! a \<le> v"]) auto
        with ya show ?thesis by simp
      qed
    qed
    obtain zs where z: "SelectionSort_outer ys n (i + 1) = Inr zs" "perm_within 0 n ys zs" "sorted_in 0 n zs"
      using "1.IH" [OF True r(1) step] "1.prems"(1) len place by auto
    have "perm_within 0 n xs ys" using perm by (rule perm_within_mono) simp_all
    with z(2) have "perm_within 0 n xs zs" by (rule perm_within_trans [rotated])
    with z True r(1) step show ?thesis by (auto simp: SelectionSort_outer.simps [of xs n i])
  qed
qed

lemma SelectionSort_ok:
  assumes "n \<le> length xs"
  shows "SelectionSort (Some xs) n = Inr (Some (sort (take n xs) @ drop n xs))"
proof (cases "n < 2")
  case True
  then have "sorted_in 0 n xs" by simp
  from sorts_prefix [OF _ this assms] have "sort (take n xs) @ drop n xs = xs" by simp
  with True show ?thesis by (simp add: SelectionSort_def)
next
  case False
  then obtain ys where "SelectionSort_outer xs n 0 = Inr ys" "perm_within 0 n xs ys" "sorted_in 0 n ys"
    using SelectionSort_outer_ok [of n xs 0] assms by auto
  with sorts_prefix [OF this(2,3) assms] False show ?thesis by (simp add: SelectionSort_def)
qed

section \<open>Insertion sort\<close>

text \<open>The shift moves the free cell down: with the key in it, the array is always the same multiset.\<close>

lemma InsertionSort_shift_ok:
  "j < length xs \<Longrightarrow> \<exists>ys r. InsertionSort_shift xs key j = Inr (ys, r) \<and> r \<le> j \<and>
     perm_within 0 (Suc j) (xs[j := key]) (ys[r := key]) \<and>
     (\<forall>k < r. ys ! k = xs ! k) \<and> (\<forall>k. r < k \<longrightarrow> k \<le> j \<longrightarrow> ys ! k = xs ! (k - 1) \<and> key < ys ! k) \<and>
     (r = 0 \<or> xs ! (r - 1) \<le> key)"
proof (induction j arbitrary: xs)
  case 0
  then show ?case by simp
next
  case (Suc j)
  show ?case
  proof (cases "xs ! j > key")
    case False
    with Suc.prems show ?thesis by simp
  next
    case True
    let ?xs = "xs[Suc j := xs ! j]"
    obtain ys r where y: "InsertionSort_shift ?xs key j = Inr (ys, r)" "r \<le> j"
      "perm_within 0 (Suc j) (?xs[j := key]) (ys[r := key])" "\<forall>k < r. ys ! k = ?xs ! k"
      "\<forall>k. r < k \<longrightarrow> k \<le> j \<longrightarrow> ys ! k = ?xs ! (k - 1) \<and> key < ys ! k" "r = 0 \<or> ?xs ! (r - 1) \<le> key"
      using Suc.IH [of ?xs] Suc.prems by (elim meta_impE exE conjE) (simp, rule that, assumption+)
    have eq: "?xs[j := key] = (xs[Suc j := key])[j := (xs[Suc j := key]) ! Suc j, Suc j := (xs[Suc j := key]) ! j]"
      using Suc.prems by (simp add: list_update_swap)
    have "perm_within 0 (Suc (Suc j)) (xs[Suc j := key]) (?xs[j := key])"
      unfolding eq using Suc.prems by (intro perm_within_swap) auto
    moreover have "perm_within 0 (Suc (Suc j)) (?xs[j := key]) (ys[r := key])"
      using y(3) by (rule perm_within_mono) simp_all
    ultimately have perm: "perm_within 0 (Suc (Suc j)) (xs[Suc j := key]) (ys[r := key])" by (rule perm_within_trans)
    have "(ys[r := key]) ! Suc j = (?xs[j := key]) ! Suc j"
      using perm_within_outside [OF y(3), of "Suc j"] Suc.prems by simp
    then have top: "ys ! Suc j = xs ! j" using Suc.prems y(2) by simp
    have moved: "\<forall>k. r < k \<longrightarrow> k \<le> Suc j \<longrightarrow> ys ! k = xs ! (k - 1) \<and> key < ys ! k"
    proof (intro allI impI)
      fix k
      assume "r < k" "k \<le> Suc j"
      then show "ys ! k = xs ! (k - 1) \<and> key < ys ! k" using y(5) top True by (cases "k = Suc j") auto
    qed
    have low: "\<forall>k < r. ys ! k = xs ! k" "r = 0 \<or> xs ! (r - 1) \<le> key" using y(2,4,6) by auto
    have "InsertionSort_shift xs key (Suc j) = Inr (ys, r)" using y(1) True Suc.prems by simp
    moreover have "r \<le> Suc j" using y(2) by simp
    ultimately show ?thesis using perm moved low by blast
  qed
qed

lemma InsertionSort_insert_ok:
  assumes i: "i < length xs" and s: "sorted_in 0 i xs"
  shows "\<exists>ys r. InsertionSort_shift xs (xs ! i) i = Inr (ys, r) \<and> r < length ys \<and>
    perm_within 0 (Suc i) xs (ys[r := xs ! i]) \<and> sorted_in 0 (Suc i) (ys[r := xs ! i])"
proof -
  let ?key = "xs ! i"
  obtain ys r where y: "InsertionSort_shift xs ?key i = Inr (ys, r)" "r \<le> i"
    "perm_within 0 (Suc i) xs (ys[r := ?key])" "\<forall>k < r. ys ! k = xs ! k"
    "\<forall>k. r < k \<longrightarrow> k \<le> i \<longrightarrow> ys ! k = xs ! (k - 1) \<and> ?key < ys ! k" "r = 0 \<or> xs ! (r - 1) \<le> ?key"
    using InsertionSort_shift_ok [OF i, of ?key] by auto
  have len: "r < length ys" using perm_within_length [OF y(3)] y(2) i by simp
  have "sorted_in 0 (Suc i) (ys[r := ?key])"
  proof (rule sorted_in_adjacent)
    fix k
    assume k: "Suc k < Suc i"
    consider "Suc k < r" | "Suc k = r" | "k = r" | "r < k" by linarith
    then show "(ys[r := ?key]) ! k \<le> (ys[r := ?key]) ! Suc k"
    proof cases
      case 1
      then show ?thesis using y(2,4) s k by (simp add: sorted_in_def)
    next
      case 2
      then have "xs ! k \<le> ?key" "ys ! k = xs ! k" using y(4,6) by auto
      with 2 len show ?thesis by simp
    next
      case 3
      then have "?key < ys ! Suc k" using y(5) k by auto
      with 3 len show ?thesis by simp
    next
      case 4
      then have "ys ! k = xs ! (k - 1)" "ys ! Suc k = xs ! k" using y(5) k by auto
      with 4 s k show ?thesis by (simp add: sorted_in_def)
    qed
  qed
  with y len show ?thesis by blast
qed

lemma InsertionSort_outer_ok:
  "n \<le> length xs \<Longrightarrow> sorted_in 0 i xs \<Longrightarrow> i \<le> n \<Longrightarrow>
   \<exists>ys. InsertionSort_outer xs n i = Inr ys \<and> perm_within 0 n xs ys \<and> sorted_in 0 n ys"
proof (induction xs n i rule: InsertionSort_outer.induct)
  case (1 xs n i)
  show ?case
  proof (cases "i < n")
    case False
    then have "InsertionSort_outer xs n i = Inr xs" by (simp add: InsertionSort_outer.simps [of xs n i])
    with "1.prems" False show ?thesis by simp
  next
    case True
    then have i: "i < length xs" using "1.prems"(1) by simp
    obtain ys r where y: "InsertionSort_shift xs (xs ! i) i = Inr (ys, r)" "r < length ys"
      "perm_within 0 (Suc i) xs (ys[r := xs ! i])" "sorted_in 0 (Suc i) (ys[r := xs ! i])"
      using InsertionSort_insert_ok [OF i "1.prems"(2)] by blast
    let ?ys = "ys[r := xs ! i]"
    have len: "length ?ys = length xs" using y(3) by (rule perm_within_length)
    obtain zs where z: "InsertionSort_outer ?ys n (i + 1) = Inr zs" "perm_within 0 n ?ys zs" "sorted_in 0 n zs"
      using "1.IH" [OF True, of "xs ! i" "(ys, r)" ys r ?ys] i y "1.prems"(1) True len by auto
    have "perm_within 0 n xs ?ys" using y(3) True by (intro perm_within_mono [OF y(3)]) auto
    then have "perm_within 0 n xs zs" using z(2) by (rule perm_within_trans)
    with z True i y show ?thesis by (auto simp: InsertionSort_outer.simps [of xs n i])
  qed
qed

lemma InsertionSort_ok:
  assumes "n \<le> length xs"
  shows "InsertionSort (Some xs) n = Inr (Some (sort (take n xs) @ drop n xs))"
proof (cases "n < 2")
  case True
  then have "sorted_in 0 n xs" by simp
  from sorts_prefix [OF _ this assms] have "sort (take n xs) @ drop n xs = xs" by simp
  with True show ?thesis by (simp add: InsertionSort_def)
next
  case False
  then obtain ys where "InsertionSort_outer xs n 1 = Inr ys" "perm_within 0 n xs ys" "sorted_in 0 n ys"
    using InsertionSort_outer_ok [of n xs 1] assms by auto
  with sorts_prefix [OF this(2,3) assms] False show ?thesis by (simp add: InsertionSort_def)
qed

end
