(* ===== verification/Sorts.thy ===== *)
theory Sorts
  imports Arrays
begin

text \<open>
  The searches and sorts of \<open>projects/sorting/src/sorts.c\<close>: binary search (with the code's
  unsigned arithmetic), merge sort (recursive and bottom-up, through a temporary array) and
  quick sort on raw bytes with a comparison callback.
\<close>

section \<open>Binary search\<close>

text \<open>\<open>(size_t)-1\<close>.\<close>

definition NOT_FOUND :: nat where
  "NOT_FOUND = 2 ^ 64 - 1"

primrec IterBinarySearch_loop :: "nat \<Rightarrow> int list \<Rightarrow> nat \<Rightarrow> nat \<Rightarrow> int \<Rightarrow> nat result" where
  "IterBinarySearch_loop 0 arr low high target = Inl Out_of_fuel"
| "IterBinarySearch_loop (Suc fuel) arr low high target =
     (if low \<le> high
      then let mid = szadd low (szsub high low div 2)
           in bindE (aget arr mid) (\<lambda>v.
              if target = v then Inr mid
              else if target < v then IterBinarySearch_loop fuel arr low (szsub mid 1) target
              else IterBinarySearch_loop fuel arr (szadd mid 1) high target)
      else Inr NOT_FOUND)"

definition IterBinarySearch :: "nat \<Rightarrow> int list \<Rightarrow> nat \<Rightarrow> int \<Rightarrow> nat result" where
  "IterBinarySearch fuel arr size' target = IterBinarySearch_loop fuel arr 0 (szsub size' 1) target"

primrec RecBinarySearchHelper :: "nat \<Rightarrow> int list \<Rightarrow> nat \<Rightarrow> nat \<Rightarrow> int \<Rightarrow> nat result" where
  "RecBinarySearchHelper 0 arr low high target = Inl Out_of_fuel"
| "RecBinarySearchHelper (Suc fuel) arr low high target =
     (if low > high then Inr NOT_FOUND
      else let mid = szadd low (szsub high low div 2)
           in bindE (aget arr mid) (\<lambda>v.
              if target = v then Inr mid
              else if target < v then RecBinarySearchHelper fuel arr low (szsub mid 1) target
              else RecBinarySearchHelper fuel arr (szadd mid 1) high target))"

definition RecBinarySearch :: "nat \<Rightarrow> int list option \<Rightarrow> nat \<Rightarrow> int \<Rightarrow> nat result" where
  "RecBinarySearch fuel arr size' target =
     (case arr of None \<Rightarrow> Inr NOT_FOUND
      | Some xs \<Rightarrow> if 0 = size' then Inr NOT_FOUND else RecBinarySearchHelper fuel xs 0 (szsub size' 1) target)"

section \<open>Merge sort\<close>

text \<open>Indices are below the length of an array of four-byte elements, so they do not wrap.\<close>

function Merge_both :: "int list \<Rightarrow> nat \<Rightarrow> nat \<Rightarrow> nat \<Rightarrow> nat \<Rightarrow> nat \<Rightarrow> int list \<Rightarrow> (nat \<times> nat \<times> nat \<times> int list) result" where
  "Merge_both arr mid right i j k tmp =
     (if i \<le> mid \<and> j \<le> right
      then bindE (aget arr i) (\<lambda>x.
           bindE (aget arr j) (\<lambda>y.
           if x < y
           then bindE (aset tmp k x) (\<lambda>tmp'. Merge_both arr mid right (i + 1) j (k + 1) tmp')
           else bindE (aset tmp k y) (\<lambda>tmp'. Merge_both arr mid right i (j + 1) (k + 1) tmp')))
      else Inr (i, j, k, tmp))"
  by pat_completeness auto
termination by (relation "measure (\<lambda>(arr, mid, right, i, j, k, tmp). (Suc mid - i) + (Suc right - j))") auto

function Merge_rest :: "int list \<Rightarrow> nat \<Rightarrow> nat \<Rightarrow> nat \<Rightarrow> int list \<Rightarrow> (nat \<times> int list) result" where
  "Merge_rest arr till i k tmp =
     (if i \<le> till
      then bindE (aget arr i) (\<lambda>x. bindE (aset tmp k x) (\<lambda>tmp'. Merge_rest arr till (i + 1) (k + 1) tmp'))
      else Inr (k, tmp))"
  by pat_completeness auto
termination by (relation "measure (\<lambda>(arr, till, i, k, tmp). Suc till - i)") auto

text \<open>\<open>memcpy(arr + left, tmp, k * sizeof(int))\<close>.\<close>

definition copy_back :: "int list \<Rightarrow> nat \<Rightarrow> int list \<Rightarrow> nat \<Rightarrow> int list result" where
  "copy_back arr left tmp k =
     (if k \<le> length tmp \<and> left + k \<le> length arr
      then Inr (take left arr @ take k tmp @ drop (left + k) arr) else Inl Bad_access)"

definition Merge :: "int list \<Rightarrow> nat \<Rightarrow> nat \<Rightarrow> nat \<Rightarrow> int list \<Rightarrow> (int list \<times> int list) result" where
  "Merge arr left mid right tmp =
     bindE (Merge_both arr mid right left (mid + 1) 0 tmp) (\<lambda>(i, j, k, tmp1).
     bindE (Merge_rest arr mid i k tmp1) (\<lambda>(k2, tmp2).
     bindE (Merge_rest arr right j k2 tmp2) (\<lambda>(k3, tmp3).
     bindE (copy_back arr left tmp3 k3) (\<lambda>arr'. Inr (arr', tmp3)))))"

abbreviation (input) MS_OK :: int where "MS_OK \<equiv> 0"
abbreviation (input) MS_ERR :: int where "MS_ERR \<equiv> -1"

function RecMergeSortHelper :: "int list \<Rightarrow> nat \<Rightarrow> nat \<Rightarrow> int list \<Rightarrow> (int list \<times> int list \<times> int) result" where
  "RecMergeSortHelper arr left right tmp =
     (if left < right
      then let mid = left + (right - left) div 2
           in bindE (RecMergeSortHelper arr left mid tmp) (\<lambda>(arr1, tmp1, st1).
              if st1 \<noteq> MS_OK then Inr (arr1, tmp1, MS_ERR)
              else bindE (RecMergeSortHelper arr1 (mid + 1) right tmp1) (\<lambda>(arr2, tmp2, st2).
                   if st2 \<noteq> MS_OK then Inr (arr2, tmp2, MS_ERR)
                   else bindE (Merge arr2 left mid right tmp2) (\<lambda>(arr3, tmp3). Inr (arr3, tmp3, MS_OK))))
      else Inr (arr, tmp, MS_OK))"
  by pat_completeness auto
termination by (relation "measure (\<lambda>(arr, left, right, tmp). right - left)") auto

text \<open>What \<open>malloc\<close> answers to \<open>malloc(n * sizeof(int))\<close>.\<close>

definition alloc_ints :: "(nat \<Rightarrow> int) option \<Rightarrow> nat \<Rightarrow> int list option" where
  "alloc_ints a n = map_option (\<lambda>junk. map junk [0..<szmul n 4 div 4]) a"

definition RecMergeSort :: "(nat \<Rightarrow> int) option \<Rightarrow> int list option \<Rightarrow> nat \<Rightarrow> (int list option \<times> int) result" where
  "RecMergeSort a arr n =
     (case arr of None \<Rightarrow> Inr (None, MS_ERR)
      | Some xs \<Rightarrow>
          if n < 2 then Inr (Some xs, MS_ERR)
          else case alloc_ints a n of None \<Rightarrow> Inr (Some xs, MS_ERR)
               | Some tmp \<Rightarrow> bindE (RecMergeSortHelper xs 0 (n - 1) tmp) (\<lambda>(ys, _, ret). Inr (Some ys, ret)))"

text \<open>The two loops of \<open>IMergeSort\<close>. A step of 0 would never end.\<close>

function IMergeSort_inner :: "int list \<Rightarrow> nat \<Rightarrow> nat \<Rightarrow> nat \<Rightarrow> int list \<Rightarrow> (int list \<times> int list) result" where
  "IMergeSort_inner arr n step i tmp =
     (if i + step < n
      then if step = 0 then Inl Out_of_fuel
           else let left = i; mid = i + step - 1;
                    right = (if i + 2 * step - 1 < n then i + 2 * step - 1 else n - 1)
                in bindE (Merge arr left mid right tmp) (\<lambda>(arr', tmp').
                   IMergeSort_inner arr' n step (i + 2 * step) tmp')
      else Inr (arr, tmp))"
  by pat_completeness auto
termination by (relation "measure (\<lambda>(arr, n, step, i, tmp). n - i)") auto

function IMergeSort_outer :: "int list \<Rightarrow> nat \<Rightarrow> nat \<Rightarrow> int list \<Rightarrow> (int list \<times> int list) result" where
  "IMergeSort_outer arr n step tmp =
     (if step < n
      then if step = 0 then Inl Out_of_fuel
           else bindE (IMergeSort_inner arr n step 0 tmp) (\<lambda>(arr', tmp'). IMergeSort_outer arr' n (step * 2) tmp')
      else Inr (arr, tmp))"
  by pat_completeness auto
termination by (relation "measure (\<lambda>(arr, n, step, tmp). n - step)") auto

definition IMergeSort :: "(nat \<Rightarrow> int) option \<Rightarrow> int list option \<Rightarrow> nat \<Rightarrow> int list option result" where
  "IMergeSort a arr n =
     (case arr of None \<Rightarrow> Inr None
      | Some xs \<Rightarrow>
          if n < 2 then Inr (Some xs)
          else case alloc_ints a n of None \<Rightarrow> Inr (Some xs)
               | Some tmp \<Rightarrow> bindE (IMergeSort_outer xs n 1 tmp) (\<lambda>(ys, _). Inr (Some ys)))"

section \<open>Quick sort\<close>

text \<open>The pointers are offsets into the bytes of \<open>base\<close>; the callback gets the two elements' bytes.\<close>

function SwapBytes_loop :: "byte list \<Rightarrow> nat \<Rightarrow> nat \<Rightarrow> nat \<Rightarrow> nat \<Rightarrow> byte list result" where
  "SwapBytes_loop base a b n i =
     (if i < n
      then bindE (aget base (a + i)) (\<lambda>tmp_byte.
           bindE (aget base (b + i)) (\<lambda>y.
           bindE (aset base (a + i) y) (\<lambda>base1.
           bindE (aset base1 (b + i) tmp_byte) (\<lambda>base2. SwapBytes_loop base2 a b n (i + 1)))))
      else Inr base)"
  by pat_completeness auto
termination by (relation "measure (\<lambda>(base, a, b, n, i). n - i)") auto

definition SwapBytes :: "byte list \<Rightarrow> nat \<Rightarrow> nat \<Rightarrow> nat \<Rightarrow> byte list result" where
  "SwapBytes base a b n = (if a = b then Inr base else SwapBytes_loop base a b n 0)"

function Partition_loop :: "byte list \<Rightarrow> nat \<Rightarrow> nat \<Rightarrow> (byte list \<Rightarrow> byte list \<Rightarrow> int) \<Rightarrow> nat \<Rightarrow> nat \<Rightarrow> (byte list \<times> nat) result" where
  "Partition_loop base right n cmp i store =
     (if i < right
      then bindE (read_bytes base (i * n) n) (\<lambda>x.
           bindE (read_bytes base (right * n) n) (\<lambda>p.
           if cmp x p < 0
           then bindE (SwapBytes base (i * n) (store * n) n) (\<lambda>base'. Partition_loop base' right n cmp (i + 1) (store + 1))
           else Partition_loop base right n cmp (i + 1) store))
      else Inr (base, store))"
  by pat_completeness auto
termination by (relation "measure (\<lambda>(base, right, n, cmp, i, store). right - i)") auto

definition Partition :: "byte list \<Rightarrow> nat \<Rightarrow> nat \<Rightarrow> nat \<Rightarrow> (byte list \<Rightarrow> byte list \<Rightarrow> int) \<Rightarrow> (byte list \<times> nat) result" where
  "Partition base left right n cmp =
     bindE (Partition_loop base right n cmp left left) (\<lambda>(base1, store).
     bindE (SwapBytes base1 (store * n) (right * n) n) (\<lambda>base2. Inr (base2, store)))"

declare Partition_loop.simps [simp del]

lemma Partition_loop_bounds:
  "Partition_loop base right n cmp i store = Inr (base', st) \<Longrightarrow> store \<le> i \<Longrightarrow> i \<le> right \<Longrightarrow> store \<le> st \<and> st \<le> right"
proof (induction base right n cmp i store rule: Partition_loop.induct)
  case (1 base right n cmp i store)
  show ?case
  proof (cases "i < right")
    case False
    with "1.prems" show ?thesis by (simp add: Partition_loop.simps [of base right n cmp i store])
  next
    case True
    with "1.prems"(1) obtain x p where xp: "read_bytes base (i * n) n = Inr x" "read_bytes base (right * n) n = Inr p"
      by (auto simp: Partition_loop.simps [of base right n cmp i store] bindE_Inr_iff)
    show ?thesis
    proof (cases "cmp x p < 0")
      case c: True
      with True xp "1.prems"(1) obtain b2 where b2: "SwapBytes base (i * n) (store * n) n = Inr b2"
        "Partition_loop b2 right n cmp (i + 1) (store + 1) = Inr (base', st)"
        by (auto simp: Partition_loop.simps [of base right n cmp i store] bindE_Inr_iff)
      from "1.IH"(1) [OF True xp c b2] "1.prems"(2) True show ?thesis by simp
    next
      case c: False
      with True xp "1.prems"(1) have "Partition_loop base right n cmp (i + 1) store = Inr (base', st)"
        by (simp add: Partition_loop.simps [of base right n cmp i store])
      from "1.IH"(2) [OF True xp c this] "1.prems"(2) True show ?thesis by simp
    qed
  qed
qed

lemma Partition_bounds: "Partition base left right n cmp = Inr (base', p) \<Longrightarrow> left \<le> right \<Longrightarrow> left \<le> p \<and> p \<le> right"
  by (auto simp: Partition_def bindE_Inr_iff dest!: Partition_loop_bounds)

function QuickSortRec :: "byte list \<Rightarrow> nat \<Rightarrow> nat \<Rightarrow> nat \<Rightarrow> (byte list \<Rightarrow> byte list \<Rightarrow> int) \<Rightarrow> byte list result" where
  "QuickSortRec base left right n cmp =
     (if left \<ge> right then Inr base
      else bindE (Partition base left right n cmp) (\<lambda>(base1, pivot).
           bindE (if pivot > 0 then QuickSortRec base1 left (pivot - 1) n cmp else Inr base1) (\<lambda>base2.
           QuickSortRec base2 (pivot + 1) right n cmp)))"
  by pat_completeness auto
termination
  by (relation "measure (\<lambda>(base, left, right, n, cmp). right - left)") (auto dest!: Partition_bounds)

definition QuickSort :: "byte list option \<Rightarrow> nat \<Rightarrow> nat \<Rightarrow> (byte list \<Rightarrow> byte list \<Rightarrow> int) option \<Rightarrow> byte list option result" where
  "QuickSort base n_items elem_size cmp =
     (case (base, cmp) of
        (Some b, Some f) \<Rightarrow>
          if n_items \<le> 2 \<or> 0 = elem_size then Inr (Some b)
          else bindE (QuickSortRec b 0 (n_items - 1) elem_size f) (\<lambda>b'. Inr (Some b'))
      | _ \<Rightarrow> Inr base)"

declare Merge_both.simps [simp del] Merge_rest.simps [simp del] RecMergeSortHelper.simps [simp del]
  IMergeSort_inner.simps [simp del] IMergeSort_outer.simps [simp del] SwapBytes_loop.simps [simp del]
  QuickSortRec.simps [simp del]

section \<open>Searching\<close>

lemma RecBinarySearchHelper_same: "RecBinarySearchHelper fuel arr low high target = IterBinarySearch_loop fuel arr low high target"
  by (induction fuel arbitrary: low high) (auto simp: Let_def intro!: bindE_cong)

text \<open>
  While the target is at least the first element of the range, \<open>mid - 1\<close> does not wrap and the
  search ends with the right answer.
\<close>

lemma IterBinarySearch_loop_ok:
  "sorted_in 0 n xs \<Longrightarrow> n \<le> length xs \<Longrightarrow> n < 2 ^ 63 \<Longrightarrow> high < n \<Longrightarrow> low \<le> Suc high \<Longrightarrow> xs ! 0 \<le> target \<Longrightarrow>
   (\<And>k. k < low \<Longrightarrow> xs ! k \<noteq> target) \<Longrightarrow> (\<And>k. high < k \<Longrightarrow> k < n \<Longrightarrow> xs ! k \<noteq> target) \<Longrightarrow> Suc high - low < fuel \<Longrightarrow>
   \<exists>r. IterBinarySearch_loop fuel xs low high target = Inr r \<and>
     (if \<exists>k < n. xs ! k = target then r < n \<and> xs ! r = target else r = NOT_FOUND)"
proof (induction fuel arbitrary: low high)
  case (Suc fuel)
  show ?case
  proof (cases "low \<le> high")
    case False
    then have "\<not> (\<exists>k < n. xs ! k = target)" using Suc.prems(5,7,8) by (metis linorder_not_less less_Suc_eq_le order.strict_trans1)
    with False show ?thesis by auto
  next
    case True
    define mid where "mid = low + (high - low) div 2"
    have mid: "low \<le> mid" "mid \<le> high" "mid < length xs" "mid < n"
      using True Suc.prems(2,4) by (auto simp: mid_def)
    have sz: "szadd low (szsub high low div 2) = mid" using True mid Suc.prems(3,4) by (simp add: mid_def)
    have szp: "szadd mid 1 = Suc mid" using mid Suc.prems(3) by simp
    have srt: "xs ! a \<le> xs ! b" if "a \<le> b" "b < n" for a b
      using Suc.prems(1) that by (cases "a = b") (auto simp: sorted_in_def)
    consider "target = xs ! mid" | "target < xs ! mid" | "xs ! mid < target" by linarith
    then show ?thesis
    proof cases
      case 1
      with True mid sz show ?thesis by (auto simp: Let_def)
    next
      case 2
      then have m0: "0 < mid" using Suc.prems(6) by (cases mid) auto
      have "xs ! k \<noteq> target" if "mid - 1 < k" "k < n" for k using srt [of mid k] that 2 m0 by (cases "mid \<le> k") auto
      then have "\<exists>r. IterBinarySearch_loop fuel xs low (mid - 1) target = Inr r \<and>
          (if \<exists>k < n. xs ! k = target then r < n \<and> xs ! r = target else r = NOT_FOUND)"
        using Suc.prems mid m0 by (intro Suc.IH) auto
      with 2 True mid sz m0 show ?thesis by (simp add: Let_def)
    next
      case 3
      have "xs ! k \<noteq> target" if "k < Suc mid" for k using srt [of k mid] that 3 mid by auto
      then have "\<exists>r. IterBinarySearch_loop fuel xs (Suc mid) high target = Inr r \<and>
          (if \<exists>k < n. xs ! k = target then r < n \<and> xs ! r = target else r = NOT_FOUND)"
        using Suc.prems mid by (intro Suc.IH) auto
      with 3 True mid sz szp show ?thesis by (simp add: Let_def)
    qed
  qed
qed simp

text \<open>A target below every element: the upper bound wraps around and the next read is out of bounds.\<close>

lemma IterBinarySearch_loop_below:
  "length xs < 2 ^ 63 \<Longrightarrow> high < length xs \<Longrightarrow> (\<And>k. k < length xs \<Longrightarrow> target < xs ! k) \<Longrightarrow> Suc high < fuel \<Longrightarrow>
   IterBinarySearch_loop fuel xs 0 high target = Inl Bad_access"
proof (induction fuel arbitrary: high)
  case (Suc fuel)
  define mid where "mid = high div 2"
  have sz: "szadd 0 (szsub high 0 div 2) = mid" using Suc.prems(1,2) by (simp add: mid_def)
  have mid: "mid < length xs" using Suc.prems(2) by (simp add: mid_def)
  then have below: "target < xs ! mid" by (rule Suc.prems(3))
  show ?case
  proof (cases "mid = 0")
    case False
    then have "IterBinarySearch_loop fuel xs 0 (mid - 1) target = Inl Bad_access"
      using Suc.prems mid by (intro Suc.IH) (auto simp: mid_def)
    with False sz mid below show ?thesis by (auto simp: Let_def)
  next
    case True
    from Suc.prems(4) obtain f where f: "fuel = Suc f" by (cases fuel) auto
    have "szsub 0 1 = 2 ^ 64 - 1" "szadd 0 (szsub (2 ^ 64 - 1) 0 div 2) = 2 ^ 63 - 1"
      by (simp_all add: szsub_def szadd_def)
    then have "IterBinarySearch_loop fuel xs 0 (szsub mid 1) target = Inl Bad_access"
      using Suc.prems(1) True f by (simp add: Let_def aget_def)
    with sz mid below show ?thesis by (auto simp: Let_def)
  qed
qed simp


section \<open>Merging\<close>

text \<open>What the loops of \<open>Merge\<close> put into the temporary array: on a tie the right run goes first.\<close>

fun merged :: "int list \<Rightarrow> int list \<Rightarrow> int list" where
  "merged [] ys = ys"
| "merged xs [] = xs"
| "merged (x # xs) (y # ys) = (if x < y then x # merged xs (y # ys) else y # merged (x # xs) ys)"

lemma merged_Nil2 [simp]: "merged xs [] = xs"
  by (cases xs) simp_all

lemma merged_mset: "mset (merged xs ys) = mset xs + mset ys"
  by (induction xs ys rule: merged.induct) auto

lemma merged_set: "set (merged xs ys) = set xs \<union> set ys"
  by (metis merged_mset set_mset_mset set_mset_union)

lemma merged_sorted: "sorted xs \<Longrightarrow> sorted ys \<Longrightarrow> sorted (merged xs ys)"
  by (induction xs ys rule: merged.induct) (fastforce simp: merged_set)+

lemma take_snoc_update: "k < length tmp \<Longrightarrow> take (Suc k) (tmp[k := x]) = take k tmp @ [x]"
  by (simp add: take_Suc_conv_app_nth)

lemma Merge_rest_ok:
  "till < length arr \<Longrightarrow> k + (Suc till - i) \<le> length tmp \<Longrightarrow>
   \<exists>tmp'. Merge_rest arr till i k tmp = Inr (k + (Suc till - i), tmp') \<and> length tmp' = length tmp \<and>
     take (k + (Suc till - i)) tmp' = take k tmp @ slice arr i (Suc till)"
proof (induction arr till i k tmp rule: Merge_rest.induct)
  case (1 arr till i k tmp)
  show ?case
  proof (cases "i \<le> till")
    case False
    then show ?thesis by (simp add: Merge_rest.simps [of arr till i k tmp])
  next
    case True
    then have b: "i < length arr" "k < length tmp" using "1.prems" by auto
    have "k + 1 + (Suc till - (i + 1)) \<le> length (tmp[k := arr ! i])" using "1.prems" True by simp
    from "1.IH" [OF True, of "arr ! i" "tmp[k := arr ! i]"] this b "1.prems"(1) obtain tmp' where
      t: "Merge_rest arr till (i + 1) (k + 1) (tmp[k := arr ! i]) = Inr (k + 1 + (Suc till - (i + 1)), tmp')"
        "length tmp' = length tmp"
        "take (k + 1 + (Suc till - (i + 1))) tmp' = take (k + 1) (tmp[k := arr ! i]) @ slice arr (i + 1) (Suc till)"
      by auto
    have n: "k + 1 + (Suc till - (i + 1)) = k + (Suc till - i)" using True by simp
    have "slice arr i (Suc till) = arr ! i # slice arr (i + 1) (Suc till)"
      using slice_Cons [of i "Suc till" arr] True "1.prems"(1) by simp
    with t True b n show ?thesis by (simp add: Merge_rest.simps [of arr till i k tmp] take_snoc_update)
  qed
qed

lemma Merge_both_ok:
  "right < length arr \<Longrightarrow> mid \<le> right \<Longrightarrow> k + (Suc mid - i) + (Suc right - j) \<le> length tmp \<Longrightarrow>
   \<exists>i' j' k' tmp'. Merge_both arr mid right i j k tmp = Inr (i', j', k', tmp') \<and> length tmp' = length tmp \<and>
     k' + (Suc mid - i') + (Suc right - j') = k + (Suc mid - i) + (Suc right - j) \<and> (mid < i' \<or> right < j') \<and>
     take k' tmp' @ merged (slice arr i' (Suc mid)) (slice arr j' (Suc right)) =
       take k tmp @ merged (slice arr i (Suc mid)) (slice arr j (Suc right))"
proof (induction arr mid right i j k tmp rule: Merge_both.induct)
  case (1 arr mid right i j k tmp)
  show ?case
  proof (cases "i \<le> mid \<and> j \<le> right")
    case False
    then have "Merge_both arr mid right i j k tmp = Inr (i, j, k, tmp)"
      by (subst Merge_both.simps) auto
    with False show ?thesis by auto
  next
    case True
    then have b: "i < length arr" "j < length arr" "k < length tmp" using "1.prems" by auto
    have si: "slice arr i (Suc mid) = arr ! i # slice arr (i + 1) (Suc mid)"
      using slice_Cons [of i "Suc mid" arr] True "1.prems"(1,2) by simp
    have sj: "slice arr j (Suc right) = arr ! j # slice arr (j + 1) (Suc right)"
      using slice_Cons [of j "Suc right" arr] True "1.prems"(1) by simp
    show ?thesis
    proof (cases "arr ! i < arr ! j")
      case lt: True
      have "k + 1 + (Suc mid - (i + 1)) + (Suc right - j) \<le> length (tmp[k := arr ! i])" using "1.prems"(3) True unfolding length_list_update by linarith
      from "1.IH"(1) [OF True, of "arr ! i" "arr ! j" "tmp[k := arr ! i]"] this b lt "1.prems"(1,2)
      obtain i' j' k' tmp' where r: "Merge_both arr mid right (i + 1) j (k + 1) (tmp[k := arr ! i]) = Inr (i', j', k', tmp')"
        "length tmp' = length tmp" "k' + (Suc mid - i') + (Suc right - j') = k + 1 + (Suc mid - (i + 1)) + (Suc right - j)"
        "mid < i' \<or> right < j'" "take k' tmp' @ merged (slice arr i' (Suc mid)) (slice arr j' (Suc right)) =
          take (k + 1) (tmp[k := arr ! i]) @ merged (slice arr (i + 1) (Suc mid)) (slice arr j (Suc right))"
        by auto
      have "Merge_both arr mid right i j k tmp = Inr (i', j', k', tmp')"
        using r(1) True lt b by (subst Merge_both.simps) simp
      moreover have "k' + (Suc mid - i') + (Suc right - j') = k + (Suc mid - i) + (Suc right - j)" using r(3) True by linarith
      moreover have "take k' tmp' @ merged (slice arr i' (Suc mid)) (slice arr j' (Suc right)) =
          take k tmp @ merged (slice arr i (Suc mid)) (slice arr j (Suc right))"
        using r(5) lt b unfolding si sj by (simp add: take_snoc_update)
      ultimately show ?thesis using r(2,4) by blast
    next
      case ge: False
      have "k + 1 + (Suc mid - i) + (Suc right - (j + 1)) \<le> length (tmp[k := arr ! j])" using "1.prems"(3) True unfolding length_list_update by linarith
      from "1.IH"(2) [OF True, of "arr ! i" "arr ! j" "tmp[k := arr ! j]"] this b ge "1.prems"(1,2)
      obtain i' j' k' tmp' where r: "Merge_both arr mid right i (j + 1) (k + 1) (tmp[k := arr ! j]) = Inr (i', j', k', tmp')"
        "length tmp' = length tmp" "k' + (Suc mid - i') + (Suc right - j') = k + 1 + (Suc mid - i) + (Suc right - (j + 1))"
        "mid < i' \<or> right < j'" "take k' tmp' @ merged (slice arr i' (Suc mid)) (slice arr j' (Suc right)) =
          take (k + 1) (tmp[k := arr ! j]) @ merged (slice arr i (Suc mid)) (slice arr (j + 1) (Suc right))"
        by auto
      have "Merge_both arr mid right i j k tmp = Inr (i', j', k', tmp')"
        using r(1) True ge b by (subst Merge_both.simps) simp
      moreover have "k' + (Suc mid - i') + (Suc right - j') = k + (Suc mid - i) + (Suc right - j)" using r(3) True by linarith
      moreover have "take k' tmp' @ merged (slice arr i' (Suc mid)) (slice arr j' (Suc right)) =
          take k tmp @ merged (slice arr i (Suc mid)) (slice arr j (Suc right))"
        using r(5) ge b unfolding si sj by (simp add: take_snoc_update)
      ultimately show ?thesis using r(2,4) by blast
    qed
  qed
qed

text \<open>On two sorted neighbouring runs, \<open>Merge\<close> sorts the window they span.\<close>

lemma Merge_ok:
  assumes b: "left \<le> mid" "mid \<le> right" "right < length arr" "Suc right - left \<le> length tmp"
    and s: "sorted_in left (Suc mid) arr" "sorted_in (Suc mid) (Suc right) arr"
  shows "\<exists>arr' tmp'. Merge arr left mid right tmp = Inr (arr', tmp') \<and> length tmp' = length tmp \<and>
    perm_within left (Suc right) arr arr' \<and> sorted_in left (Suc right) arr'"
proof -
  let ?A = "slice arr left (Suc mid)" and ?B = "slice arr (Suc mid) (Suc right)" and ?n = "Suc right - left"
  have n: "0 + (Suc mid - left) + (Suc right - (mid + 1)) = ?n" using b by simp
  obtain i j k t1 where both: "Merge_both arr mid right left (mid + 1) 0 tmp = Inr (i, j, k, t1)" "length t1 = length tmp"
    "k + (Suc mid - i) + (Suc right - j) = ?n" "mid < i \<or> right < j"
    "take k t1 @ merged (slice arr i (Suc mid)) (slice arr j (Suc right)) = merged ?A ?B"
    using Merge_both_ok [OF b(3,2), of 0 left "mid + 1" tmp] n b(4) by auto
  obtain t2 where rest1: "Merge_rest arr mid i k t1 = Inr (k + (Suc mid - i), t2)" "length t2 = length t1"
    "take (k + (Suc mid - i)) t2 = take k t1 @ slice arr i (Suc mid)"
    using Merge_rest_ok [of mid arr k i t1] b both(2,3) by auto
  obtain t3 where rest2: "Merge_rest arr right j (k + (Suc mid - i)) t2 = Inr (?n, t3)" "length t3 = length t2"
    "take ?n t3 = take (k + (Suc mid - i)) t2 @ slice arr j (Suc right)"
    using Merge_rest_ok [of right arr "k + (Suc mid - i)" j t2] b both(2,3) rest1(2) by auto
  have "merged (slice arr i (Suc mid)) (slice arr j (Suc right)) = slice arr i (Suc mid) @ slice arr j (Suc right)"
    using both(4) by auto
  with rest1(3) rest2(3) both(5) have top: "take ?n t3 = merged ?A ?B" by simp
  let ?arr = "take left arr @ merged ?A ?B @ drop (Suc right) arr"
  have len3: "length t3 = length tmp" using both(2) rest1(2) rest2(2) by simp
  have "copy_back arr left t3 ?n = Inr ?arr" using b len3 top by (simp add: copy_back_def)
  then have run: "Merge arr left mid right tmp = Inr (?arr, t3)" using both(1) rest1(1) rest2(1) by (simp add: Merge_def)
  have lenM: "length (merged ?A ?B) = ?n" using top b(4) len3 by (metis length_take min.absorb2)
  have "mset (merged ?A ?B) = mset (slice arr left (Suc right))"
    using slice_append [of left "Suc mid" "Suc right" arr] b by (metis le_SucI mset_append merged_mset Suc_le_mono)
  moreover have "mset arr = mset (take left arr @ slice arr left (Suc right) @ drop (Suc right) arr)"
    using b by (subst split3) auto
  ultimately have ms: "mset ?arr = mset arr" by simp
  have la: "length ?arr = length arr" using ms by (metis size_mset)
  have out: "?arr ! p = arr ! p" if "p < length arr" "p < left \<or> Suc right \<le> p" for p
    using that b lenM by (auto simp: nth_append)
  have "sorted (merged ?A ?B)" using s b by (intro merged_sorted) (simp_all add: sorted_in_slice)
  moreover have "slice ?arr left (Suc right) = merged ?A ?B" using b lenM by (simp add: slice_def)
  ultimately have "sorted_in left (Suc right) ?arr" using la b(3) by (metis Suc_leI sorted_in_slice)
  moreover have "perm_within left (Suc right) arr ?arr" using ms la out by (simp add: perm_within_def)
  ultimately show ?thesis using run len3 by blast
qed

lemma sorted_in_perm:
  assumes "perm_within lo hi xs ys" "b \<le> lo \<or> hi \<le> a" "b \<le> length xs" "sorted_in a b xs"
  shows "sorted_in a b ys"
  unfolding sorted_in_def
proof (intro allI impI)
  fix i j
  assume "a \<le> i" "i < j" "j < b"
  moreover from this have "ys ! i = xs ! i" "ys ! j = xs ! j"
    using assms(2,3) by (auto intro!: perm_within_outside [OF assms(1)])
  ultimately show "ys ! i \<le> ys ! j" using assms(4) by (simp add: sorted_in_def)
qed

lemma RecMergeSortHelper_ok:
  "right < length arr \<Longrightarrow> Suc right \<le> length tmp \<Longrightarrow>
   \<exists>arr' tmp'. RecMergeSortHelper arr left right tmp = Inr (arr', tmp', 0) \<and> length tmp' = length tmp \<and>
     perm_within left (Suc right) arr arr' \<and> sorted_in left (Suc right) arr'"
proof (induction arr left right tmp rule: RecMergeSortHelper.induct)
  case (1 arr left right tmp)
  show ?case
  proof (cases "left < right")
    case False
    then show ?thesis by (simp add: RecMergeSortHelper.simps [of arr left right tmp])
  next
    case True
    define mid where "mid = left + (right - left) div 2"
    have m: "left \<le> mid" "mid < right" using True by (auto simp: mid_def)
    obtain a1 t1 where r1: "RecMergeSortHelper arr left mid tmp = Inr (a1, t1, 0)" "length t1 = length tmp"
      "perm_within left (Suc mid) arr a1" "sorted_in left (Suc mid) a1"
      using "1.IH"(1) [OF True mid_def] m "1.prems" by auto
    have l1: "length a1 = length arr" using r1(3) by (rule perm_within_length)
    obtain a2 t2 where r2: "RecMergeSortHelper a1 (mid + 1) right t1 = Inr (a2, t2, 0)" "length t2 = length t1"
      "perm_within (mid + 1) (Suc right) a1 a2" "sorted_in (mid + 1) (Suc right) a2"
      using "1.IH"(2) [OF True mid_def r1(1), of a1 "(t1, 0)" t1 0] l1 r1(2) "1.prems" by auto
    have l2: "length a2 = length arr" using r2(3) l1 by (metis perm_within_length)
    have s1: "sorted_in left (Suc mid) a2"
      using m l1 "1.prems"(1) by (intro sorted_in_perm [OF r2(3) _ _ r1(4)]) auto
    have room: "Suc right - left \<le> length t2" using r1(2) r2(2) "1.prems"(2) by linarith
    obtain a3 t3 where r3: "Merge a2 left mid right t2 = Inr (a3, t3)" "length t3 = length t2"
      "perm_within left (Suc right) a2 a3" "sorted_in left (Suc right) a3"
      using Merge_ok [OF m(1) less_imp_le [OF m(2)] _ room, of a2] l2 r2(4) s1 "1.prems" by auto
    have run: "RecMergeSortHelper arr left right tmp = Inr (a3, t3, 0)"
      using True r1(1) r2(1) r3(1) by (subst RecMergeSortHelper.simps) (simp add: mid_def Let_def)
    have "perm_within left (Suc right) arr a1" "perm_within left (Suc right) a1 a2"
      using r1(3) r2(3) m by (auto intro: perm_within_mono)
    with r3(3) have "perm_within left (Suc right) arr a3" by (blast intro: perm_within_trans)
    with run r1(2) r2(2) r3(2,4) show ?thesis by auto
  qed
qed

lemma RecMergeSort_ok:
  assumes "2 \<le> n" "n \<le> length xs" "4 * n < 2 ^ 64"
  shows "RecMergeSort (Some junk) (Some xs) n = Inr (Some (sort (take n xs) @ drop n xs), 0)"
proof -
  let ?tmp = "map junk [0..<n]"
  have tmp: "alloc_ints (Some junk) n = Some ?tmp" using assms(3) by (simp add: alloc_ints_def mult.commute)
  obtain ys tmp' where r: "RecMergeSortHelper xs 0 (n - 1) ?tmp = Inr (ys, tmp', 0)" "perm_within 0 n xs ys" "sorted_in 0 n ys"
    using RecMergeSortHelper_ok [of "n - 1" xs ?tmp 0] assms by fastforce
  with sorts_prefix [OF r(2,3) assms(2)] tmp assms(1) show ?thesis by (simp add: RecMergeSort_def)
qed


text \<open>Bottom-up merge sort: runs of width \<open>w\<close> that start at or after \<open>lo\<close>, or before \<open>hi\<close>, are sorted.\<close>

definition runs_from :: "nat \<Rightarrow> nat \<Rightarrow> nat \<Rightarrow> int list \<Rightarrow> bool" where
  "runs_from w lo n xs \<longleftrightarrow> (\<forall>b. lo \<le> b * w \<longrightarrow> sorted_in (b * w) (min (b * w + w) n) xs)"

definition runs_below :: "nat \<Rightarrow> nat \<Rightarrow> nat \<Rightarrow> int list \<Rightarrow> bool" where
  "runs_below w hi n xs \<longleftrightarrow> (\<forall>b. b * w < hi \<longrightarrow> sorted_in (b * w) (min (b * w + w) n) xs)"

lemma IMergeSort_step:
  assumes n: "n \<le> length arr" "n \<le> length tmp" and i: "i = c * (2 * step)" "i + step < n" "0 < step"
    and a: "runs_from step i n arr" and b: "runs_below (2 * step) i n arr"
  defines "right \<equiv> if i + 2 * step - 1 < n then i + 2 * step - 1 else n - 1"
  shows "\<exists>arr' tmp'. Merge arr i (i + step - 1) right tmp = Inr (arr', tmp') \<and> length tmp' = length tmp \<and>
    perm_within 0 n arr arr' \<and> runs_from step (i + 2 * step) n arr' \<and> runs_below (2 * step) (i + 2 * step) n arr'"
proof -
  have r: "Suc right = min (i + 2 * step) n" "i + step \<le> right" using i(2,3) by (auto simp: right_def)
  have mid: "Suc (i + step - 1) = i + step" "i \<le> i + step - 1" "i + step - 1 \<le> right" using i(3) r by auto
  have s1: "sorted_in i (i + step) arr"
    using a [unfolded runs_from_def, rule_format, of "2 * c"] i by (simp add: mult.commute mult.left_commute)
  have s2: "sorted_in (i + step) (Suc right) arr"
    using a [unfolded runs_from_def, rule_format, of "2 * c + 1"] i r(1) by (simp add: algebra_simps)
  have "right < length arr" "Suc right - i \<le> length tmp" using r n by auto
  from Merge_ok [OF mid(2,3) this, unfolded mid(1), OF s1 s2] obtain arr' tmp' where
    m: "Merge arr i (i + step - 1) right tmp = Inr (arr', tmp')" "length tmp' = length tmp"
      "perm_within i (Suc right) arr arr'" "sorted_in i (Suc right) arr'" by blast
  have "perm_within 0 n arr arr'" using r by (intro perm_within_mono [OF m(3)]) auto
  moreover have "runs_from step (i + 2 * step) n arr'"
    unfolding runs_from_def
  proof (intro allI impI)
    fix k
    assume k: "i + 2 * step \<le> k * step"
    with a have "sorted_in (k * step) (min (k * step + step) n) arr" by (simp add: runs_from_def)
    with k r n show "sorted_in (k * step) (min (k * step + step) n) arr'"
      by (intro sorted_in_perm [OF m(3)]) auto
  qed
  moreover have "runs_below (2 * step) (i + 2 * step) n arr'"
    unfolding runs_below_def
  proof (intro allI impI)
    fix k
    assume k: "k * (2 * step) < i + 2 * step"
    then have "k * (2 * step) < Suc c * (2 * step)" by (simp add: i(1))
    then have "k < Suc c" by (rule mult_less_cancel2 [THEN iffD1, THEN conjunct2])
    then consider "k = c" | "k < c" by linarith
    then show "sorted_in (k * (2 * step)) (min (k * (2 * step) + 2 * step) n) arr'"
    proof cases
      case 1
      with m(4) r(1) i(1) show ?thesis by simp
    next
      case 2
      then have "Suc k * (2 * step) \<le> c * (2 * step)" by (intro mult_le_mono1) simp
      then have le: "k * (2 * step) + 2 * step \<le> i" by (simp add: i(1))
      with b i(3) have "sorted_in (k * (2 * step)) (min (k * (2 * step) + 2 * step) n) arr" by (simp add: runs_below_def)
      with le n show ?thesis by (intro sorted_in_perm [OF m(3)]) auto
    qed
  qed
  ultimately show ?thesis using m(1,2) by blast
qed

lemma runs_join:
  assumes "runs_from step i n arr" "runs_below (2 * step) i n arr" "n \<le> i + step"
  shows "runs_from (2 * step) 0 n arr"
  unfolding runs_from_def
proof (intro allI impI)
  fix b
  show "sorted_in (b * (2 * step)) (min (b * (2 * step) + 2 * step) n) arr"
  proof (cases "b * (2 * step) < i")
    case True
    with assms(2) show ?thesis by (simp add: runs_below_def)
  next
    case False
    then have "sorted_in (2 * b * step) (min (2 * b * step + step) n) arr"
      using assms(1) [unfolded runs_from_def, rule_format, of "2 * b"] by (simp add: mult.assoc mult.left_commute)
    moreover have "min (2 * b * step + step) n = n" using False assms(3) by (simp add: min_def mult.assoc mult.left_commute)
    ultimately have "sorted_in (b * (2 * step)) n arr" by (simp add: mult.assoc mult.left_commute)
    then show ?thesis by (rule sorted_in_mono) auto
  qed
qed

lemma IMergeSort_inner_ok:
  "n \<le> length arr \<Longrightarrow> n \<le> length tmp \<Longrightarrow> i = c * (2 * step) \<Longrightarrow> 0 < step \<Longrightarrow>
   runs_from step i n arr \<Longrightarrow> runs_below (2 * step) i n arr \<Longrightarrow>
   \<exists>arr' tmp'. IMergeSort_inner arr n step i tmp = Inr (arr', tmp') \<and> length tmp' = length tmp \<and>
     perm_within 0 n arr arr' \<and> runs_from (2 * step) 0 n arr'"
proof (induction arr n step i tmp arbitrary: c rule: IMergeSort_inner.induct)
  case (1 arr n step i tmp)
  show ?case
  proof (cases "i + step < n")
    case False
    then have "IMergeSort_inner arr n step i tmp = Inr (arr, tmp)" by (simp add: IMergeSort_inner.simps [of arr n step i tmp])
    with runs_join [OF "1.prems"(5,6)] False show ?thesis by simp
  next
    case True
    define right where "right = (if i + 2 * step - 1 < n then i + 2 * step - 1 else n - 1)"
    obtain a1 t1 where m: "Merge arr i (i + step - 1) right tmp = Inr (a1, t1)" "length t1 = length tmp"
      "perm_within 0 n arr a1" "runs_from step (i + 2 * step) n a1" "runs_below (2 * step) (i + 2 * step) n a1"
      using IMergeSort_step [OF "1.prems"(1,2,3) True "1.prems"(4,5,6)] unfolding right_def by blast
    have "length a1 = length arr" using m(3) by (rule perm_within_length)
    moreover have "i + 2 * step = Suc c * (2 * step)" using "1.prems"(3) by simp
    ultimately have "\<exists>arr' tmp'. IMergeSort_inner a1 n step (i + 2 * step) t1 = Inr (arr', tmp') \<and> length tmp' = length t1 \<and>
        perm_within 0 n a1 arr' \<and> runs_from (2 * step) 0 n arr'"
      using "1.IH" [OF True _ refl refl right_def m(1) refl, of "Suc c"] "1.prems" m by simp
    then obtain a2 t2 where r: "IMergeSort_inner a1 n step (i + 2 * step) t1 = Inr (a2, t2)" "length t2 = length t1"
      "perm_within 0 n a1 a2" "runs_from (2 * step) 0 n a2" by blast
    have "IMergeSort_inner arr n step i tmp = Inr (a2, t2)"
      using True "1.prems"(4) m(1) r(1) by (subst IMergeSort_inner.simps) (simp add: right_def Let_def)
    with r m show ?thesis by (auto intro: perm_within_trans)
  qed
qed

lemma IMergeSort_outer_ok:
  "n \<le> length arr \<Longrightarrow> n \<le> length tmp \<Longrightarrow> 0 < step \<Longrightarrow> runs_from step 0 n arr \<Longrightarrow>
   \<exists>arr' tmp'. IMergeSort_outer arr n step tmp = Inr (arr', tmp') \<and> perm_within 0 n arr arr' \<and> sorted_in 0 n arr'"
proof (induction arr n step tmp rule: IMergeSort_outer.induct)
  case (1 arr n step tmp)
  show ?case
  proof (cases "step < n")
    case False
    then have "IMergeSort_outer arr n step tmp = Inr (arr, tmp)" by (simp add: IMergeSort_outer.simps [of arr n step tmp])
    moreover have "sorted_in 0 n arr"
      using "1.prems"(4) [unfolded runs_from_def, rule_format, of 0] False by (auto simp: min_def split: if_splits)
    ultimately show ?thesis by simp
  next
    case True
    have "runs_below (2 * step) 0 n arr" by (simp add: runs_below_def)
    then obtain a1 t1 where m: "IMergeSort_inner arr n step 0 tmp = Inr (a1, t1)" "length t1 = length tmp"
      "perm_within 0 n arr a1" "runs_from (2 * step) 0 n a1"
      using IMergeSort_inner_ok [of n arr tmp 0 0 step] "1.prems" by auto
    have "length a1 = length arr" using m(3) by (rule perm_within_length)
    then obtain a2 t2 where r: "IMergeSort_outer a1 n (step * 2) t1 = Inr (a2, t2)" "perm_within 0 n a1 a2" "sorted_in 0 n a2"
      using "1.IH" [OF True _ m(1) refl] "1.prems" m by (auto simp: mult.commute)
    have "IMergeSort_outer arr n step tmp = Inr (a2, t2)"
      using True "1.prems"(3) m(1) r(1) by (subst IMergeSort_outer.simps) simp
    with r m(3) show ?thesis by (auto intro: perm_within_trans)
  qed
qed

lemma IMergeSort_ok:
  assumes "n \<le> length xs" "4 * n < 2 ^ 64"
  shows "IMergeSort (Some junk) (Some xs) n = Inr (Some (sort (take n xs) @ drop n xs))"
proof (cases "n < 2")
  case True
  then have "sorted_in 0 n xs" by simp
  from sorts_prefix [OF _ this assms(1)] have "sort (take n xs) @ drop n xs = xs" by simp
  with True show ?thesis by (simp add: IMergeSort_def)
next
  case False
  let ?tmp = "map junk [0..<n]"
  have tmp: "alloc_ints (Some junk) n = Some ?tmp" using assms(2) by (simp add: alloc_ints_def mult.commute)
  have "runs_from 1 0 n xs" by (simp add: runs_from_def)
  then obtain ys tmp' where r: "IMergeSort_outer xs n 1 ?tmp = Inr (ys, tmp')" "perm_within 0 n xs ys" "sorted_in 0 n ys"
    using IMergeSort_outer_ok [of n xs ?tmp 1] assms by auto
  with sorts_prefix [OF r(2,3) assms(1)] tmp False show ?thesis by (simp add: IMergeSort_def)
qed


section \<open>Quick sort of bytes\<close>

lemma SwapBytes_loop_ok:
  "a + n \<le> length xs \<Longrightarrow> b + n \<le> length xs \<Longrightarrow> a + n \<le> b \<or> b + n \<le> a \<Longrightarrow> i \<le> n \<Longrightarrow>
   \<exists>ys. SwapBytes_loop xs a b n i = Inr ys \<and> length ys = length xs \<and>
     (\<forall>p < length xs. ys ! p = (if a + i \<le> p \<and> p < a + n then xs ! (b + (p - a))
        else if b + i \<le> p \<and> p < b + n then xs ! (a + (p - b)) else xs ! p))"
proof (induction xs a b n i rule: SwapBytes_loop.induct)
  case (1 xs a b n i)
  show ?case
  proof (cases "i < n")
    case False
    then have "SwapBytes_loop xs a b n i = Inr xs" by (simp add: SwapBytes_loop.simps [of xs a b n i])
    with False "1.prems"(4) show ?thesis by auto
  next
    case True
    let ?ys = "xs[a + i := xs ! (b + i), b + i := xs ! (a + i)]"
    have r: "a + i < length xs" "b + i < length xs" using "1.prems" True by auto
    from "1.IH" [OF True, of "xs ! (a + i)" "xs ! (b + i)" "xs[a + i := xs ! (b + i)]" ?ys] r "1.prems" True
    obtain ys where y: "SwapBytes_loop ?ys a b n (i + 1) = Inr ys" "length ys = length xs"
      "\<forall>p < length xs. ys ! p = (if a + (i + 1) \<le> p \<and> p < a + n then ?ys ! (b + (p - a))
        else if b + (i + 1) \<le> p \<and> p < b + n then ?ys ! (a + (p - b)) else ?ys ! p)"
      by auto
    have "SwapBytes_loop xs a b n i = Inr ys" using y(1) r True by (subst SwapBytes_loop.simps) simp
    moreover have "ys ! p = (if a + i \<le> p \<and> p < a + n then xs ! (b + (p - a))
        else if b + i \<le> p \<and> p < b + n then xs ! (a + (p - b)) else xs ! p)" if "p < length xs" for p
    proof -
      have away: "p = a + i \<longrightarrow> p \<noteq> b + i" using "1.prems"(3) True by auto
      consider "p = a + i" | "p = b + i" | "p \<noteq> a + i" "p \<noteq> b + i" by blast
      then show ?thesis
      proof cases
        case 1
        then have "\<not> (b + (i + 1) \<le> p \<and> p < b + n)" "p \<noteq> b + i" using "1.prems"(3) True by auto
        with y(3) [rule_format, OF that] 1 r True show ?thesis by auto
      next
        case 2
        then have "\<not> (a + i \<le> p \<and> p < a + n)" "p \<noteq> a + i" using "1.prems"(3) True by auto
        with y(3) [rule_format, OF that] 2 r True show ?thesis by auto
      next
        case 3
        define zs where "zs = ?ys"
        have keep: "zs ! q = xs ! q" if "q \<noteq> a + i" "q \<noteq> b + i" for q using that by (simp add: zs_def)
        have "zs ! (b + (p - a)) = xs ! (b + (p - a))" if "a + (i + 1) \<le> p" "p < a + n"
          using that "1.prems"(3) True by (intro keep) auto
        moreover have "zs ! (a + (p - b)) = xs ! (a + (p - b))" if "b + (i + 1) \<le> p" "p < b + n"
          using that "1.prems"(3) True by (intro keep) auto
        moreover have "(a + (i + 1) \<le> p) = (a + i \<le> p)" "(b + (i + 1) \<le> p) = (b + i \<le> p)" using 3 by auto
        ultimately show ?thesis
          using y(3) [rule_format, OF that, folded zs_def] keep [OF 3] by (auto split: if_splits)
      qed
    qed
    ultimately show ?thesis using y(2) by blast
  qed
qed

text \<open>The elements of a buffer, and what a step may change of it.\<close>

definition elems_of :: "nat \<Rightarrow> nat \<Rightarrow> byte list \<Rightarrow> byte list list" where
  "elems_of es m buf = chunks es buf m"

definition same_rest :: "nat \<Rightarrow> nat \<Rightarrow> byte list \<Rightarrow> byte list \<Rightarrow> bool" where
  "same_rest es m buf buf' \<longleftrightarrow> length buf' = length buf \<and> drop (m * es) buf' = drop (m * es) buf"

lemma same_rest_refl [simp]: "same_rest es m buf buf"
  by (simp add: same_rest_def)

lemma same_rest_trans: "same_rest es m a b \<Longrightarrow> same_rest es m b c \<Longrightarrow> same_rest es m a c"
  by (simp add: same_rest_def)

lemma length_elems_of [simp]: "length (elems_of es m buf) = m"
  by (simp add: elems_of_def)

lemma elem_read:
  "m * es \<le> length buf \<Longrightarrow> i < m \<Longrightarrow> read_bytes buf (i * es) es = Inr (elems_of es m buf ! i)"
  using chunk_bound [of i m es] by (simp add: read_bytes_ok elems_of_def chunk_def)

lemma SwapBytes_ok:
  assumes m: "m * es \<le> length buf" "0 < es" and ij: "i < m" "j < m"
  shows "\<exists>buf'. SwapBytes buf (i * es) (j * es) es = Inr buf' \<and> same_rest es m buf buf' \<and>
    elems_of es m buf' = (elems_of es m buf)[i := elems_of es m buf ! j, j := elems_of es m buf ! i]"
proof (cases "i = j")
  case True
  then show ?thesis by (auto simp: SwapBytes_def)
next
  case False
  have apart: "i * es + es \<le> j * es \<or> j * es + es \<le> i * es"
    using False chunk_bound [of i j es] chunk_bound [of j i es] by linarith
  have bi: "i * es + es \<le> m * es" and bj: "j * es + es \<le> m * es" using ij chunk_bound by auto
  obtain buf' where y: "SwapBytes_loop buf (i * es) (j * es) es 0 = Inr buf'" "length buf' = length buf"
    "\<forall>p < length buf. buf' ! p = (if i * es \<le> p \<and> p < i * es + es then buf ! (j * es + (p - i * es))
        else if j * es \<le> p \<and> p < j * es + es then buf ! (i * es + (p - j * es)) else buf ! p)"
    using SwapBytes_loop_ok [of "i * es" es buf "j * es" 0] apart bi bj m(1) by fastforce
  have ne: "i * es \<noteq> j * es" using False m(2) by simp
  have chunk: "chunk es buf' k = (if k = j then chunk es buf i else if k = i then chunk es buf j else chunk es buf k)"
    if k: "k < m" for k
  proof (rule nth_equalityI)
    have bk: "k * es + es \<le> length buf" using chunk_bound [OF k, of es] m(1) by linarith
    show "length (chunk es buf' k) = length (if k = j then chunk es buf i else if k = i then chunk es buf j else chunk es buf k)"
      using bk bi bj m(1) y(2) by (auto simp: chunk_def)
    fix q
    assume "q < length (chunk es buf' k)"
    then have q: "q < es" by (simp add: chunk_def)
    have far: "k \<noteq> l \<Longrightarrow> k * es + q < l * es \<or> l * es + es \<le> k * es + q" for l
      using chunk_bound [of k l es] chunk_bound [of l k es] q by (cases "k < l") auto
    have "chunk es buf' k ! q = buf' ! (k * es + q)" using q bk y(2) by (simp add: chunk_def)
    also have "\<dots> = (if k = i then buf ! (j * es + q) else if k = j then buf ! (i * es + q) else buf ! (k * es + q))"
      using y(3) q bk far [of i] far [of j] False by (auto simp: add.commute)
    finally show "chunk es buf' k ! q = (if k = j then chunk es buf i else if k = i then chunk es buf j else chunk es buf k) ! q"
      using q bk bi bj m(1) False by (auto simp: chunk_def)
  qed
  have "elems_of es m buf' = (elems_of es m buf)[i := elems_of es m buf ! j, j := elems_of es m buf ! i]"
    using ij by (intro nth_equalityI) (auto simp: elems_of_def chunk nth_list_update)
  moreover have "same_rest es m buf buf'"
    unfolding same_rest_def
  proof (intro conjI nth_equalityI)
    fix p
    assume "p < length (drop (m * es) buf')"
    then have "m * es + p < length buf" using y(2) by simp
    with y(2,3) bi bj show "drop (m * es) buf' ! p = drop (m * es) buf ! p" by auto
  qed (use y(2) in simp_all)
  ultimately show ?thesis using y(1) ne by (auto simp: SwapBytes_def)
qed


definition sorted_cmp :: "('a \<Rightarrow> 'a \<Rightarrow> int) \<Rightarrow> nat \<Rightarrow> nat \<Rightarrow> 'a list \<Rightarrow> bool" where
  "sorted_cmp cmp lo hi xs \<longleftrightarrow> (\<forall>i j. lo \<le> i \<longrightarrow> i < j \<longrightarrow> j < hi \<longrightarrow> cmp (xs ! i) (xs ! j) \<le> 0)"

lemma sorted_cmp_small [simp]: "hi \<le> Suc lo \<Longrightarrow> sorted_cmp cmp lo hi xs"
  by (auto simp: sorted_cmp_def)

lemma sorted_cmp_perm:
  assumes "perm_within lo hi xs ys" "b \<le> lo \<or> hi \<le> a" "b \<le> length xs" "sorted_cmp cmp a b xs"
  shows "sorted_cmp cmp a b ys"
  unfolding sorted_cmp_def
proof (intro allI impI)
  fix i j
  assume "a \<le> i" "i < j" "j < b"
  moreover from this have "ys ! i = xs ! i" "ys ! j = xs ! j"
    using assms(2,3) by (auto intro!: perm_within_outside [OF assms(1)])
  ultimately show "cmp (ys ! i) (ys ! j) \<le> 0" using assms(4) by (simp add: sorted_cmp_def)
qed

text \<open>The loop keeps the elements below the pivot in front of the others.\<close>

lemma Partition_loop_ok:
  "m * es \<le> length buf \<Longrightarrow> 0 < es \<Longrightarrow> right < m \<Longrightarrow> lo \<le> store \<Longrightarrow> store \<le> i \<Longrightarrow> i \<le> right \<Longrightarrow>
   elems_of es m buf ! right = pv \<Longrightarrow>
   (\<And>k. lo \<le> k \<Longrightarrow> k < store \<Longrightarrow> cmp (elems_of es m buf ! k) pv < 0) \<Longrightarrow>
   (\<And>k. store \<le> k \<Longrightarrow> k < i \<Longrightarrow> 0 \<le> cmp (elems_of es m buf ! k) pv) \<Longrightarrow>
   \<exists>buf' st. Partition_loop buf right es cmp i store = Inr (buf', st) \<and> same_rest es m buf buf' \<and>
     perm_within lo right (elems_of es m buf) (elems_of es m buf') \<and> lo \<le> st \<and> st \<le> right \<and>
     (\<forall>k. lo \<le> k \<longrightarrow> k < st \<longrightarrow> cmp (elems_of es m buf' ! k) pv < 0) \<and>
     (\<forall>k. st \<le> k \<longrightarrow> k < right \<longrightarrow> 0 \<le> cmp (elems_of es m buf' ! k) pv)"
proof (induction buf right es cmp i store rule: Partition_loop.induct)
  case (1 buf right es cmp i store)
  let ?L = "elems_of es m buf"
  show ?case
  proof (cases "i < right")
    case False
    then have "Partition_loop buf right es cmp i store = Inr (buf, store)"
      by (simp add: Partition_loop.simps [of buf right es cmp i store])
    moreover have "i = right" using False "1.prems"(6) by simp
    ultimately show ?thesis using "1.prems" by (intro exI [of _ buf] exI [of _ store]) auto
  next
    case True
    have im: "i < m" and sm: "store < m" using True "1.prems" by auto
    note rd = elem_read [OF "1.prems"(1) im] elem_read [OF "1.prems"(1,3)]
    show ?thesis
    proof (cases "cmp (?L ! i) pv < 0")
      case c: True
      obtain b2 where b2: "SwapBytes buf (i * es) (store * es) es = Inr b2" "same_rest es m buf b2"
        "elems_of es m b2 = ?L[i := ?L ! store, store := ?L ! i]"
        using SwapBytes_ok [OF "1.prems"(1,2) im sm] by blast
      have len: "m * es \<le> length b2" using b2(2) "1.prems"(1) by (simp add: same_rest_def)
      have perm: "perm_within lo right ?L (elems_of es m b2)"
        unfolding b2(3) using True "1.prems" im sm by (intro perm_within_swap) auto
      have pv: "elems_of es m b2 ! right = pv" unfolding b2(3) using True "1.prems" by simp
      have low: "cmp (elems_of es m b2 ! k) pv < 0" if "lo \<le> k" "k < store + 1" for k
        using that c "1.prems"(5,8) im sm unfolding b2(3) by (cases "k = store") (auto simp: nth_list_update)
      have high: "0 \<le> cmp (elems_of es m b2 ! k) pv" if "store + 1 \<le> k" "k < i + 1" for k
        using that "1.prems"(9) [of k] "1.prems"(9) [of store] im sm unfolding b2(3)
        by (cases "k = i") (auto simp: nth_list_update)
      have "\<exists>buf' st. Partition_loop b2 right es cmp (i + 1) (store + 1) = Inr (buf', st) \<and> same_rest es m b2 buf' \<and>
         perm_within lo right (elems_of es m b2) (elems_of es m buf') \<and> lo \<le> st \<and> st \<le> right \<and>
         (\<forall>k. lo \<le> k \<longrightarrow> k < st \<longrightarrow> cmp (elems_of es m buf' ! k) pv < 0) \<and>
         (\<forall>k. st \<le> k \<longrightarrow> k < right \<longrightarrow> 0 \<le> cmp (elems_of es m buf' ! k) pv)"
        using "1.prems"(2-6) True pv c low high
        by (intro "1.IH"(1) [OF True rd _ b2(1) len]) (simp_all add: "1.prems"(7))
      then obtain b3 st where b3: "Partition_loop b2 right es cmp (i + 1) (store + 1) = Inr (b3, st)" "same_rest es m b2 b3"
        "perm_within lo right (elems_of es m b2) (elems_of es m b3)" "lo \<le> st" "st \<le> right"
        "\<forall>k. lo \<le> k \<longrightarrow> k < st \<longrightarrow> cmp (elems_of es m b3 ! k) pv < 0"
        "\<forall>k. st \<le> k \<longrightarrow> k < right \<longrightarrow> 0 \<le> cmp (elems_of es m b3 ! k) pv" by blast
      have "Partition_loop buf right es cmp i store = Inr (b3, st)"
        using True rd c b2(1) b3(1) "1.prems"(7) by (subst Partition_loop.simps) simp
      moreover have "same_rest es m buf b3" using b2(2) b3(2) by (rule same_rest_trans)
      moreover have "perm_within lo right ?L (elems_of es m b3)" using perm b3(3) by (rule perm_within_trans)
      ultimately show ?thesis using b3(4-7) by blast
    next
      case c: False
      have high: "0 \<le> cmp (?L ! k) pv" if "store \<le> k" "k < i + 1" for k
        using that "1.prems"(9) c by (cases "k = i") auto
      have "\<exists>buf' st. Partition_loop buf right es cmp (i + 1) store = Inr (buf', st) \<and> same_rest es m buf buf' \<and>
         perm_within lo right ?L (elems_of es m buf') \<and> lo \<le> st \<and> st \<le> right \<and>
         (\<forall>k. lo \<le> k \<longrightarrow> k < st \<longrightarrow> cmp (elems_of es m buf' ! k) pv < 0) \<and>
         (\<forall>k. st \<le> k \<longrightarrow> k < right \<longrightarrow> 0 \<le> cmp (elems_of es m buf' ! k) pv)"
        using "1.prems"(2-8) True c high
        by (intro "1.IH"(2) [OF True rd _ "1.prems"(1)]) simp_all
      moreover have "Partition_loop buf right es cmp i store = Partition_loop buf right es cmp (i + 1) store"
        using True rd c "1.prems"(7) by (subst Partition_loop.simps) simp
      ultimately show ?thesis by simp
    qed
  qed
qed

lemma Partition_ok:
  assumes m: "m * es \<le> length buf" "0 < es" and lr: "left < right" "right < m" and ord: "cmp_order cmp"
  shows "\<exists>buf' p. Partition buf left right es cmp = Inr (buf', p) \<and> same_rest es m buf buf' \<and> left \<le> p \<and> p \<le> right \<and>
    perm_within left (Suc right) (elems_of es m buf) (elems_of es m buf') \<and>
    (\<forall>k. left \<le> k \<longrightarrow> k < p \<longrightarrow> cmp (elems_of es m buf' ! k) (elems_of es m buf' ! p) \<le> 0) \<and>
    (\<forall>k. p < k \<longrightarrow> k \<le> right \<longrightarrow> cmp (elems_of es m buf' ! p) (elems_of es m buf' ! k) \<le> 0)"
proof -
  let ?L = "elems_of es m buf" and ?pv = "elems_of es m buf ! right"
  obtain b1 st where l: "Partition_loop buf right es cmp left left = Inr (b1, st)" "same_rest es m buf b1"
    "perm_within left right ?L (elems_of es m b1)" "left \<le> st" "st \<le> right"
    "\<forall>k. left \<le> k \<longrightarrow> k < st \<longrightarrow> cmp (elems_of es m b1 ! k) ?pv < 0"
    "\<forall>k. st \<le> k \<longrightarrow> k < right \<longrightarrow> 0 \<le> cmp (elems_of es m b1 ! k) ?pv"
    using Partition_loop_ok [OF m lr(2), of left left left ?pv cmp] lr by auto
  let ?L1 = "elems_of es m b1"
  have m1: "m * es \<le> length b1" using l(2) m(1) by (simp add: same_rest_def)
  have sm: "st < m" using l(5) lr(2) by simp
  have pv: "?L1 ! right = ?pv" using perm_within_outside [OF l(3), of right] lr(2) by simp
  obtain b2 where b2: "SwapBytes b1 (st * es) (right * es) es = Inr b2" "same_rest es m b1 b2"
    "elems_of es m b2 = ?L1[st := ?L1 ! right, right := ?L1 ! st]"
    using SwapBytes_ok [OF m1 m(2) sm lr(2)] by blast
  have run: "Partition buf left right es cmp = Inr (b2, st)" using l(1) b2(1) by (simp add: Partition_def)
  have at: "elems_of es m b2 ! st = ?pv" using b2(3) pv sm lr(2) by (auto simp: nth_list_update)
  have "perm_within left (Suc right) ?L1 (elems_of es m b2)"
    unfolding b2(3) using l(4,5) lr by (intro perm_within_swap) auto
  moreover have "perm_within left (Suc right) ?L ?L1" using l(3) by (rule perm_within_mono) simp_all
  ultimately have perm: "perm_within left (Suc right) ?L (elems_of es m b2)" by (blast intro: perm_within_trans)
  have low: "cmp (elems_of es m b2 ! k) ?pv \<le> 0" if "left \<le> k" "k < st" for k
  proof -
    have "elems_of es m b2 ! k = ?L1 ! k" using that l(5) unfolding b2(3) by simp
    with l(6) that show ?thesis by force
  qed
  have high: "cmp ?pv (elems_of es m b2 ! k) \<le> 0" if "st < k" "k \<le> right" for k
  proof -
    have "elems_of es m b2 ! k = (if k = right then ?L1 ! st else ?L1 ! k)" using that lr(2) unfolding b2(3) by auto
    moreover have "0 \<le> cmp (if k = right then ?L1 ! st else ?L1 ! k) ?pv" using l(7) that by auto
    ultimately show ?thesis using cmp_order.cmp_le_swap [OF ord] by metis
  qed
  have "same_rest es m buf b2" using l(2) b2(2) by (rule same_rest_trans)
  with run l(4,5) perm low high show ?thesis unfolding at [symmetric] by blast
qed

lemma sorted_cmp_join:
  assumes ord: "cmp_order cmp" and "sorted_cmp cmp lo p xs" "sorted_cmp cmp (Suc p) hi xs"
    and low: "\<And>k. lo \<le> k \<Longrightarrow> k < p \<Longrightarrow> cmp (xs ! k) (xs ! p) \<le> 0"
    and high: "\<And>k. p < k \<Longrightarrow> k < hi \<Longrightarrow> cmp (xs ! p) (xs ! k) \<le> 0"
  shows "sorted_cmp cmp lo hi xs"
  unfolding sorted_cmp_def
proof (intro allI impI)
  fix i j
  assume ij: "lo \<le> i" "i < j" "j < hi"
  consider "j < p" | "j = p" | "i = p" | "p < i" | "i < p" "p < j" using ij(2) by linarith
  then show "cmp (xs ! i) (xs ! j) \<le> 0"
  proof cases
    case 5
    then show ?thesis using cmp_order.cmp_trans [OF ord low [OF ij(1)] high] ij by blast
  qed (use assms(2,3) low high ij in \<open>auto simp: sorted_cmp_def\<close>)
qed

lemma QuickSortRec_ok:
  "m * es \<le> length buf \<Longrightarrow> 0 < es \<Longrightarrow> right < m \<Longrightarrow> cmp_order cmp \<Longrightarrow>
   \<exists>buf'. QuickSortRec buf left right es cmp = Inr buf' \<and> same_rest es m buf buf' \<and>
     perm_within left (Suc right) (elems_of es m buf) (elems_of es m buf') \<and> sorted_cmp cmp left (Suc right) (elems_of es m buf')"
proof (induction buf left right es cmp rule: QuickSortRec.induct)
  case (1 buf left right es cmp)
  show ?case
  proof (cases "left \<ge> right")
    case True
    then show ?thesis by (simp add: QuickSortRec.simps [of buf left right es cmp])
  next
    case False
    then have lr: "left < right" by simp
    obtain b1 p where p: "Partition buf left right es cmp = Inr (b1, p)" "same_rest es m buf b1" "left \<le> p" "p \<le> right"
      "perm_within left (Suc right) (elems_of es m buf) (elems_of es m b1)"
      "\<forall>k. left \<le> k \<longrightarrow> k < p \<longrightarrow> cmp (elems_of es m b1 ! k) (elems_of es m b1 ! p) \<le> 0"
      "\<forall>k. p < k \<longrightarrow> k \<le> right \<longrightarrow> cmp (elems_of es m b1 ! p) (elems_of es m b1 ! k) \<le> 0"
      using Partition_ok [OF "1.prems"(1,2) lr "1.prems"(3,4)] by blast
    let ?L1 = "elems_of es m b1"
    have m1: "m * es \<le> length b1" using p(2) "1.prems"(1) by (simp add: same_rest_def)
    obtain b2 where q: "(if p > 0 then QuickSortRec b1 left (p - 1) es cmp else Inr b1) = Inr b2" "same_rest es m b1 b2"
      "perm_within left p ?L1 (elems_of es m b2)" "sorted_cmp cmp left p (elems_of es m b2)"
    proof (cases "p > 0")
      case True
      have "p - 1 < m" "Suc (p - 1) = p" using True p(4) "1.prems"(3) by auto
      with "1.IH"(1) [OF False p(1) refl True m1 "1.prems"(2) _ "1.prems"(4)] True that show ?thesis by auto
    qed (use that in auto)
    let ?L2 = "elems_of es m b2"
    have m2: "m * es \<le> length b2" using q(2) m1 by (simp add: same_rest_def)
    obtain b3 where r: "QuickSortRec b2 (p + 1) right es cmp = Inr b3" "same_rest es m b2 b3"
      "perm_within (Suc p) (Suc right) ?L2 (elems_of es m b3)" "sorted_cmp cmp (Suc p) (Suc right) (elems_of es m b3)"
      using "1.IH"(2) [OF False p(1) refl q(1) m2 "1.prems"(2,3,4)] by auto
    let ?L3 = "elems_of es m b3"
    have pm: "p < m" using p(4) "1.prems"(3) by simp
    have piv: "?L2 ! p = ?L1 ! p" "?L3 ! p = ?L1 ! p"
      using perm_within_outside [OF q(3), of p] perm_within_outside [OF r(3), of p] pm by auto
    have low: "cmp (?L3 ! k) (?L3 ! p) \<le> 0" if "left \<le> k" "k < p" for k
    proof -
      have "?L3 ! k = ?L2 ! k" using perm_within_outside [OF r(3), of k] that pm by simp
      moreover have "cmp (?L2 ! k) (?L1 ! p) \<le> 0"
        using p(6) that pm by (intro perm_within_all [OF q(3), of k "\<lambda>v. cmp v (?L1 ! p) \<le> 0"]) auto
      ultimately show ?thesis using piv by simp
    qed
    have high: "cmp (?L3 ! p) (?L3 ! k) \<le> 0" if "p < k" "k < Suc right" for k
    proof -
      have "cmp (?L1 ! p) (?L2 ! j) \<le> 0" if "Suc p \<le> j" "j < Suc right" for j
        using perm_within_outside [OF q(3), of j] that p(7) "1.prems"(3) by auto
      then have "cmp (?L1 ! p) (?L3 ! k) \<le> 0"
        using that "1.prems"(3) by (intro perm_within_all [OF r(3), of k "\<lambda>v. cmp (?L1 ! p) v \<le> 0"]) auto
      then show ?thesis using piv by simp
    qed
    have "sorted_cmp cmp left p ?L3" using pm by (intro sorted_cmp_perm [OF r(3) _ _ q(4)]) auto
    then have sorted: "sorted_cmp cmp left (Suc right) ?L3" using sorted_cmp_join [OF "1.prems"(4) _ r(4) low high] by blast
    have "perm_within left (Suc right) ?L1 ?L2" "perm_within left (Suc right) ?L2 ?L3"
      using q(3) r(3) p(3,4) by (auto intro: perm_within_mono)
    with p(5) have perm: "perm_within left (Suc right) (elems_of es m buf) ?L3" by (blast intro: perm_within_trans)
    have "QuickSortRec buf left right es cmp = Inr b3" using False p(1) q(1) r(1) by (subst QuickSortRec.simps) simp
    moreover have "same_rest es m buf b3" using p(2) q(2) r(2) by (blast intro: same_rest_trans)
    ultimately show ?thesis using perm sorted by blast
  qed
qed

lemma QuickSort_ok:
  assumes "n * es \<le> length buf" "0 < es" "n \<noteq> 2" "cmp_order cmp"
  shows "\<exists>buf'. QuickSort (Some buf) n es (Some cmp) = Inr (Some buf') \<and> same_rest es n buf buf' \<and>
    mset (elems_of es n buf') = mset (elems_of es n buf) \<and> sorted_cmp cmp 0 n (elems_of es n buf')"
proof (cases "n \<le> 2")
  case True
  with assms(3) show ?thesis by (auto simp: QuickSort_def)
next
  case False
  with QuickSortRec_ok [OF assms(1,2) _ assms(4), of "n - 1" 0] assms(2) show ?thesis
    by (auto simp: QuickSort_def perm_within_def)
qed

text \<open>Two items are left as they are, whatever their order.\<close>

lemma QuickSort_two: "QuickSort (Some buf) 2 es (Some cmp) = Inr (Some buf)"
  by (simp add: QuickSort_def)


section \<open>The searches as called\<close>

lemma IterBinarySearch_ok:
  assumes "sorted_in 0 n xs" "0 < n" "n \<le> length xs" "n < 2 ^ 63" "xs ! 0 \<le> target" "n < fuel"
  shows "\<exists>r. IterBinarySearch fuel xs n target = Inr r \<and> RecBinarySearch fuel (Some xs) n target = Inr r \<and>
    (if \<exists>k < n. xs ! k = target then r < n \<and> xs ! r = target else r = NOT_FOUND)"
proof -
  have sz: "szsub n 1 = n - 1" using assms(2) by simp
  have "\<exists>r. IterBinarySearch_loop fuel xs 0 (n - 1) target = Inr r \<and>
      (if \<exists>k < n. xs ! k = target then r < n \<and> xs ! r = target else r = NOT_FOUND)"
    using assms by (intro IterBinarySearch_loop_ok) auto
  with sz assms(2) show ?thesis by (simp add: IterBinarySearch_def RecBinarySearch_def RecBinarySearchHelper_same)
qed

lemma IterBinarySearch_below:
  assumes "0 < length xs" "length xs < 2 ^ 63" "\<And>k. k < length xs \<Longrightarrow> target < xs ! k" "length xs < fuel"
  shows "IterBinarySearch fuel xs (length xs) target = Inl Bad_access \<and>
    RecBinarySearch fuel (Some xs) (length xs) target = Inl Bad_access"
proof -
  have sz: "szsub (length xs) 1 = length xs - 1" using assms(1) by (intro szsub_le) linarith
  have "IterBinarySearch_loop fuel xs 0 (length xs - 1) target = Inl Bad_access"
    using assms by (intro IterBinarySearch_loop_below) auto
  with assms(1) show ?thesis unfolding IterBinarySearch_def RecBinarySearch_def RecBinarySearchHelper_same sz by simp
qed

end
