(* ===== verification/Linear_Sorting.thy ===== *)
theory Linear_Sorting
  imports Arrays
begin

text \<open>
  Counting sort and radix sort of \<open>projects/sorting/src/linear_sorting.c\<close>. Both make counting
  passes: occurrences of each key, prefix sums, then placing the elements from the back. The
  passes are shown to be stable sorts by the key, which is what radix sort needs.
\<close>

section \<open>The code\<close>

text \<open>An index computed as a signed number.\<close>

definition iget :: "int list \<Rightarrow> int \<Rightarrow> int result" where
  "iget xs k = (if k < 0 then Inl Bad_access else aget xs (nat k))"

definition iset :: "int list \<Rightarrow> int \<Rightarrow> int \<Rightarrow> int list result" where
  "iset xs k v = (if k < 0 then Inl Bad_access else aset xs (nat k) v)"

text \<open>\<open>for (i = 0; i < size; ++i) ++count_arr[key(arr[i])];\<close> over the indices still to visit.\<close>

primrec count_keys :: "(int \<Rightarrow> int) \<Rightarrow> int list \<Rightarrow> nat list \<Rightarrow> int list \<Rightarrow> int list result" where
  "count_keys key arr [] count_arr = Inr count_arr"
| "count_keys key arr (i # is) count_arr =
     bindE (aget arr i) (\<lambda>x.
     bindE (iget count_arr (key x)) (\<lambda>c.
     bindE (int32 (c + 1)) (\<lambda>c'.
     bindE (iset count_arr (key x) c') (count_keys key arr is))))"

text \<open>\<open>for (i = 1; i < range; ++i) count_arr[i] += count_arr[i - 1];\<close>\<close>

primrec prefix_sums :: "nat list \<Rightarrow> int list \<Rightarrow> int list result" where
  "prefix_sums [] count_arr = Inr count_arr"
| "prefix_sums (i # is) count_arr =
     bindE (aget count_arr i) (\<lambda>c.
     bindE (aget count_arr (i - 1)) (\<lambda>p.
     bindE (int32 (c + p)) (\<lambda>s.
     bindE (aset count_arr i s) (prefix_sums is))))"

text \<open>\<open>for (i = size; i > 0; --i) out_put[--count_arr[key(arr[i - 1])]] = arr[i - 1];\<close>\<close>

primrec place_from_back :: "(int \<Rightarrow> int) \<Rightarrow> int list \<Rightarrow> nat \<Rightarrow> int list \<Rightarrow> int list \<Rightarrow> int list result" where
  "place_from_back key arr 0 count_arr out_put = Inr out_put"
| "place_from_back key arr (Suc i) count_arr out_put =
     bindE (aget arr i) (\<lambda>x.
     bindE (iget count_arr (key x)) (\<lambda>c.
     bindE (int32 (c - 1)) (\<lambda>c'.
     bindE (iset count_arr (key x) c') (\<lambda>count_arr'.
     bindE (iset out_put c' x) (place_from_back key arr i count_arr')))))"

text \<open>\<open>for (i = 0; i < size; ++i) arr[i] = out_put[i];\<close>\<close>

primrec copy_out :: "nat list \<Rightarrow> int list \<Rightarrow> int list \<Rightarrow> int list result" where
  "copy_out [] arr out_put = Inr arr"
| "copy_out (i # is) arr out_put =
     bindE (aget out_put i) (\<lambda>x. bindE (aset arr i x) (\<lambda>arr'. copy_out is arr' out_put))"

definition counting_pass :: "(int \<Rightarrow> int) \<Rightarrow> nat \<Rightarrow> int list \<Rightarrow> nat \<Rightarrow> int list \<Rightarrow> int list result" where
  "counting_pass key width arr size' out_put =
     bindE (count_keys key arr [0..<size'] (replicate width 0)) (\<lambda>count1.
     bindE (prefix_sums [1..<width] count1) (\<lambda>count2.
     bindE (place_from_back key arr size' count2 out_put) (\<lambda>out'.
     copy_out [0..<size'] arr out')))"

text \<open>The loop that finds the largest and the smallest element.\<close>

primrec max_min :: "int list \<Rightarrow> nat list \<Rightarrow> int \<Rightarrow> int \<Rightarrow> (int \<times> int) result" where
  "max_min arr [] mx mn = Inr (mx, mn)"
| "max_min arr (i # is) mx mn =
     bindE (aget arr i) (\<lambda>x. max_min arr is (if x > mx then x else mx) (if x < mn then x else mn))"

text \<open>What \<open>malloc\<close> answers for \<open>out_put\<close>; \<open>calloc\<close> answers zeros or fails.\<close>

definition CountingSort :: "bool \<Rightarrow> (nat \<Rightarrow> int) option \<Rightarrow> int list \<Rightarrow> nat \<Rightarrow> int list result" where
  "CountingSort calloc_ok a arr size' =
     bindE (aget arr 0) (\<lambda>x0.
     bindE (max_min arr [1..<size'] x0 x0) (\<lambda>(mx, mn).
     let width = nat (mx - mn + 1)
     in case (calloc_ok, a) of
          (True, Some junk) \<Rightarrow> counting_pass (\<lambda>x. x - mn) width arr size' (map junk [0..<szmul size' 4 div 4])
        | _ \<Rightarrow> Inr arr))"

primrec GetMax_loop :: "int list \<Rightarrow> nat list \<Rightarrow> int \<Rightarrow> int result" where
  "GetMax_loop arr [] mx = Inr mx"
| "GetMax_loop arr (i # is) mx = bindE (aget arr i) (\<lambda>x. GetMax_loop arr is (if x > mx then x else mx))"

definition GetMax :: "int list \<Rightarrow> nat \<Rightarrow> int result" where
  "GetMax arr size' = bindE (aget arr 0) (\<lambda>x0. GetMax_loop arr [1..<size'] x0)"

text \<open>\<open>/\<close> and \<open>%\<close> of C round towards zero.\<close>

definition cdiv :: "int \<Rightarrow> int \<Rightarrow> int" where
  "cdiv x y = sgn x * sgn y * (\<bar>x\<bar> div \<bar>y\<bar>)"

definition cmod :: "int \<Rightarrow> int \<Rightarrow> int" where
  "cmod x y = x - cdiv x y * y"

abbreviation (input) BASE :: int where "BASE \<equiv> 10"

definition CountingSortDigit :: "(nat \<Rightarrow> int) option \<Rightarrow> int list \<Rightarrow> nat \<Rightarrow> int \<Rightarrow> int list result" where
  "CountingSortDigit a arr size' exp =
     (case a of
        None \<Rightarrow> Inr arr
      | Some junk \<Rightarrow> counting_pass (\<lambda>x. cmod (cdiv x exp) BASE) 10 arr size' (map junk [0..<szmul size' 4 div 4]))"

primrec RadixSort_loop :: "nat \<Rightarrow> (nat \<Rightarrow> int) option \<Rightarrow> int list \<Rightarrow> nat \<Rightarrow> int \<Rightarrow> int \<Rightarrow> int list result" where
  "RadixSort_loop 0 a arr size' mx exp = Inl Out_of_fuel"
| "RadixSort_loop (Suc fuel) a arr size' mx exp =
     (if cdiv mx exp > 0
      then bindE (CountingSortDigit a arr size' exp) (\<lambda>arr'.
           bindE (int32 (exp * BASE)) (RadixSort_loop fuel a arr' size' mx))
      else Inr arr)"

definition RadixSort :: "nat \<Rightarrow> (nat \<Rightarrow> int) option \<Rightarrow> int list \<Rightarrow> nat \<Rightarrow> int list result" where
  "RadixSort fuel a arr size' = bindE (GetMax arr size') (\<lambda>mx. RadixSort_loop fuel a arr size' mx 1)"

section \<open>A counting pass is a stable sort by key\<close>

text \<open>How many elements have a key below \<open>v\<close>; how many of the first \<open>i\<close> have key \<open>v\<close>.\<close>

definition below :: "(int \<Rightarrow> int) \<Rightarrow> int list \<Rightarrow> int \<Rightarrow> nat" where
  "below key xs v = length (filter (\<lambda>x. key x < v) xs)"

definition equal_upto :: "(int \<Rightarrow> int) \<Rightarrow> int list \<Rightarrow> int \<Rightarrow> nat \<Rightarrow> nat" where
  "equal_upto key xs v i = length (filter (\<lambda>x. key x = v) (take i xs))"

lemma below_Suc: "below key xs (v + 1) = below key xs v + equal_upto key xs v (length xs)"
  unfolding below_def equal_upto_def by (induction xs) auto

lemma below_mono: "v \<le> w \<Longrightarrow> below key xs v \<le> below key xs w"
  unfolding below_def by (induction xs) auto

lemma below_le: "below key xs v \<le> length xs"
  by (simp add: below_def)

lemma below_all: "(\<And>x. x \<in> set xs \<Longrightarrow> key x < v) \<Longrightarrow> below key xs v = length xs"
  by (simp add: below_def)

lemma below_none: "(\<And>x. x \<in> set xs \<Longrightarrow> v \<le> key x) \<Longrightarrow> below key xs v = 0"
  unfolding below_def by (induction xs) force+

lemma equal_upto_Suc:
  "i < length xs \<Longrightarrow> equal_upto key xs v (Suc i) = equal_upto key xs v i + (if key (xs ! i) = v then 1 else 0)"
  by (simp add: equal_upto_def take_Suc_conv_app_nth)

lemma equal_upto_le: "equal_upto key xs v i \<le> length xs"
  unfolding equal_upto_def by (metis length_filter_le le_trans length_take min.cobounded1)

lemma equal_upto_le_index: "equal_upto key xs v i \<le> i"
  unfolding equal_upto_def by (metis length_filter_le le_trans length_take min.cobounded2)

lemma equal_upto_mono: "i \<le> j \<Longrightarrow> equal_upto key xs v i \<le> equal_upto key xs v j"
proof -
  assume "i \<le> j"
  then have "take j xs = take i xs @ take (j - i) (drop i xs)" by (metis le_add_diff_inverse take_add)
  then show ?thesis by (simp add: equal_upto_def)
qed

definition keys_ok :: "(int \<Rightarrow> int) \<Rightarrow> nat \<Rightarrow> int list \<Rightarrow> bool" where
  "keys_ok key r xs \<longleftrightarrow> (\<forall>x \<in> set xs. 0 \<le> key x \<and> key x < int r)"

lemma iget_ok: "0 \<le> k \<Longrightarrow> k < int (length xs) \<Longrightarrow> iget xs k = Inr (xs ! nat k)"
  by (simp add: iget_def nat_less_iff)

lemma iset_ok: "0 \<le> k \<Longrightarrow> k < int (length xs) \<Longrightarrow> iset xs k v = Inr (xs[nat k := v])"
  by (simp add: iset_def nat_less_iff)

lemma int32_ok: "- (2 ^ 31) \<le> v \<Longrightarrow> v < 2 ^ 31 \<Longrightarrow> int32 v = Inr v"
  by (simp add: int32_def)

lemma slice_update_outside: "p < lo \<or> hi \<le> p \<Longrightarrow> slice (xs[p := v]) lo hi = slice xs lo hi"
  by (cases "p < lo") (auto simp: slice_def drop_update_swap)

lemma count_keys_ok:
  assumes keys: "keys_ok key r (take n arr)" and n: "n \<le> length arr" "n < 2 ^ 31"
  shows "i \<le> n \<Longrightarrow> length c = r \<Longrightarrow> (\<And>v. v < r \<Longrightarrow> c ! v = int (equal_upto key (take n arr) (int v) i)) \<Longrightarrow>
    \<exists>c'. count_keys key arr [i..<n] c = Inr c' \<and> length c' = r \<and>
      (\<forall>v < r. c' ! v = int (equal_upto key (take n arr) (int v) n))"
proof (induction "n - i" arbitrary: i c)
  case 0
  then show ?case by simp
next
  case (Suc d)
  then have i: "i < n" by simp
  have x: "arr ! i \<in> set (take n arr)" using i n(1) by (auto simp: in_set_conv_nth)
  let ?k = "key (arr ! i)" and ?xs = "take n arr"
  have k: "0 \<le> ?k" "?k < int r" using keys x by (auto simp: keys_ok_def)
  have ck: "c ! nat ?k = int (equal_upto key ?xs ?k i)" using Suc.prems(3) [of "nat ?k"] k by (simp add: nat_less_iff)
  have ov: "int32 (c ! nat ?k + 1) = Inr (c ! nat ?k + 1)"
    using i n(2) equal_upto_le_index [of key ?xs ?k i] ck by (intro int32_ok) auto
  let ?c = "c[nat ?k := c ! nat ?k + 1]"
  have "?c ! v = int (equal_upto key ?xs (int v) (Suc i))" if "v < r" for v
    using that Suc.prems(2,3) k ck i n(1) by (auto simp: equal_upto_Suc nth_list_update nat_eq_iff)
  moreover have "d = n - Suc i" using Suc.hyps(2) by simp
  ultimately obtain c' where
    "count_keys key arr [Suc i..<n] ?c = Inr c'" "length c' = r" "\<forall>v < r. c' ! v = int (equal_upto key ?xs (int v) n)"
    using Suc.hyps(1) [of "Suc i" ?c] i Suc.prems(2) by auto
  with i n(1) k Suc.prems(2) ov show ?case by (simp add: upt_rec [of i n] iget_ok iset_ok)
qed


lemma prefix_sums_ok:
  assumes keys: "keys_ok key r xs" and n: "length xs < 2 ^ 31"
  shows "1 \<le> i \<Longrightarrow> i \<le> r \<Longrightarrow> length c = r \<Longrightarrow> (\<And>v. v < i \<Longrightarrow> c ! v = int (below key xs (int v + 1))) \<Longrightarrow>
    (\<And>v. i \<le> v \<Longrightarrow> v < r \<Longrightarrow> c ! v = int (equal_upto key xs (int v) (length xs))) \<Longrightarrow>
    \<exists>c'. prefix_sums [i..<r] c = Inr c' \<and> length c' = r \<and> (\<forall>v < r. c' ! v = int (below key xs (int v + 1)))"
proof (induction "r - i" arbitrary: i c)
  case 0
  then show ?case by simp
next
  case (Suc d)
  then have i: "i < r" "0 < i" and d: "d = r - Suc i" by simp_all
  have ci: "c ! i = int (equal_upto key xs (int i) (length xs))" "c ! (i - 1) = int (below key xs (int i))"
    using Suc.prems(4) [of "i - 1"] Suc.prems(5) [of i] i by simp_all
  then have sum: "c ! i + c ! (i - 1) = int (below key xs (int i + 1))" using below_Suc [of key xs "int i"] by simp
  then have ov: "int32 (c ! i + c ! (i - 1)) = Inr (c ! i + c ! (i - 1))"
    using below_le [of key xs "int i + 1"] n by (intro int32_ok) auto
  let ?c = "c[i := c ! i + c ! (i - 1)]"
  have "?c ! v = int (below key xs (int v + 1))" if "v < Suc i" for v
    using that Suc.prems(3,4) sum i by (cases "v = i") auto
  moreover have "?c ! v = int (equal_upto key xs (int v) (length xs))" if "Suc i \<le> v" "v < r" for v
    using that Suc.prems(5) by simp
  ultimately obtain c' where "prefix_sums [Suc i..<r] ?c = Inr c'" "length c' = r" "\<forall>v < r. c' ! v = int (below key xs (int v + 1))"
    using Suc.hyps(1) [of "Suc i" ?c, OF d] i Suc.prems(3) by auto
  with i Suc.prems(3) ov show ?case by (simp add: upt_rec [of i r])
qed

text \<open>
  While placing from the back, the tail of each bucket's window holds the elements with that key
  among those already placed, in their original order.
\<close>

lemma place_from_back_ok:
  assumes keys: "keys_ok key r (take n arr)" and n: "n \<le> length arr" "n < 2 ^ 31"
  defines "xs \<equiv> take n arr"
  shows "i \<le> n \<Longrightarrow> length c = r \<Longrightarrow> (\<And>v. v < r \<Longrightarrow> c ! v = int (below key xs (int v) + equal_upto key xs (int v) i)) \<Longrightarrow>
    n \<le> length out \<Longrightarrow>
    (\<And>v. v < r \<Longrightarrow> slice out (below key xs (int v) + equal_upto key xs (int v) i) (below key xs (int v + 1)) =
       filter (\<lambda>x. key x = int v) (drop i xs)) \<Longrightarrow>
    \<exists>out'. place_from_back key arr i c out = Inr out' \<and> length out' = length out \<and>
      (\<forall>v < r. slice out' (below key xs (int v)) (below key xs (int v + 1)) = filter (\<lambda>x. key x = int v) xs)"
proof (induction i arbitrary: c out)
  case 0
  then show ?case by (simp add: equal_upto_def)
next
  case (Suc i)
  then have i: "i < n" "i < length xs" using n(1) by (auto simp: xs_def)
  have xi: "arr ! i = xs ! i" using i by (simp add: xs_def)
  have len: "length xs = n" using n(1) by (simp add: xs_def)
  have "xs ! i \<in> set xs" using i by simp
  then have k: "0 \<le> key (xs ! i)" "key (xs ! i) < int r" using keys by (auto simp: keys_ok_def xs_def)
  define w where "w = nat (key (xs ! i))"
  have w: "w < r" "int w = key (xs ! i)" using k by (simp_all add: w_def nat_less_iff)
  let ?L = "\<lambda>v. below key xs (int v)" and ?E = "\<lambda>v i. equal_upto key xs (int v) i"
  define p where "p = ?L w + ?E w i"
  have cw: "c ! w = int p + 1" using Suc.prems(3) [OF w(1)] i w(2) by (simp add: equal_upto_Suc p_def)
  have top: "?L w + ?E w (Suc i) \<le> below key xs (int w + 1)"
    using below_Suc [of key xs "int w"] equal_upto_mono [of "Suc i" "length xs" key xs "int w"] i by simp
  then have pn: "p < below key xs (int w + 1)" "p < n"
    using i w(2) below_le [of key xs "int w + 1"] len by (auto simp: equal_upto_Suc p_def)
  let ?c = "c[w := int p]" and ?out = "out[p := xs ! i]"
  have ov: "int32 (int p) = Inr (int p)" using pn(2) n(2) by (intro int32_ok) auto
  have c': "?c ! v = int (?L v + ?E v i)" if "v < r" for v
    using that Suc.prems(2,3) w i by (cases "v = w") (auto simp: p_def equal_upto_Suc)
  have slices: "slice ?out (?L v + ?E v i) (below key xs (int v + 1)) = filter (\<lambda>x. key x = int v) (drop i xs)" if v: "v < r" for v
  proof (cases "v = w")
    case True
    have "slice ?out p (below key xs (int w + 1)) = ?out ! p # slice ?out (Suc p) (below key xs (int w + 1))"
      using pn Suc.prems(4) below_le [of key xs "int w + 1"] len by (intro slice_Cons) auto
    also have "slice ?out (Suc p) (below key xs (int w + 1)) = slice out (Suc p) (below key xs (int w + 1))"
      by (simp add: slice_def)
    also have "\<dots> = filter (\<lambda>x. key x = int w) (drop (Suc i) xs)"
      using Suc.prems(5) [OF w(1)] i w(2) by (simp add: equal_upto_Suc p_def)
    finally show ?thesis
      using True i w(2) pn Suc.prems(4) by (simp add: p_def Cons_nth_drop_Suc [symmetric])
  next
    case False
    have far: "p < ?L v \<or> below key xs (int v + 1) \<le> p"
    proof (cases "v < w")
      case True
      then have "below key xs (int v + 1) \<le> ?L w" by (intro below_mono) simp
      then show ?thesis by (simp add: p_def)
    next
      case f: False
      then have "below key xs (int w + 1) \<le> ?L v" using False by (intro below_mono) simp
      with pn(1) show ?thesis by simp
    qed
    have "slice ?out (?L v + ?E v i) (below key xs (int v + 1)) = slice out (?L v + ?E v i) (below key xs (int v + 1))"
      using far by (intro slice_update_outside) auto
    also have "\<dots> = filter (\<lambda>x. key x = int v) (drop (Suc i) xs)"
      using Suc.prems(5) [OF v] i w(2) False by (simp add: equal_upto_Suc)
    finally show ?thesis using i w(2) False by (simp add: Cons_nth_drop_Suc [symmetric])
  qed
  obtain out' where o: "place_from_back key arr i ?c ?out = Inr out'" "length out' = length ?out"
    "\<forall>v < r. slice out' (below key xs (int v)) (below key xs (int v + 1)) = filter (\<lambda>x. key x = int v) xs"
    using Suc.IH [of ?c ?out] i Suc.prems(2,4) c' slices by auto
  have "iget c (key (xs ! i)) = Inr (int p + 1)" using k Suc.prems(2) cw by (simp add: iget_ok w_def)
  moreover have "iset c (key (xs ! i)) (int p) = Inr ?c" using k Suc.prems(2) by (simp add: iset_ok w_def)
  moreover have "iset out (int p) (xs ! i) = Inr ?out" using pn(2) Suc.prems(4) by (simp add: iset_ok)
  moreover have "i < length arr" using i n(1) by simp
  ultimately have "place_from_back key arr (Suc i) c out = Inr out'" using o(1) ov xi by simp
  with o(2,3) show ?case by simp
qed


section \<open>Buckets\<close>

definition buckets :: "(int \<Rightarrow> int) \<Rightarrow> nat \<Rightarrow> int list \<Rightarrow> int list" where
  "buckets key r xs = concat (map (\<lambda>v. filter (\<lambda>x. key x = int v) xs) [0..<r])"

lemma buckets_Suc: "buckets key (Suc r) xs = buckets key r xs @ filter (\<lambda>x. key x = int r) xs"
  by (simp add: buckets_def)

lemma filter_buckets:
  "filter (\<lambda>x. key x = int w) (buckets key r xs) = (if w < r then filter (\<lambda>x. key x = int w) xs else [])"
proof (induction r)
  case 0
  then show ?case by (simp add: buckets_def)
next
  case (Suc r)
  have "filter (\<lambda>x. key x = int w) (filter (\<lambda>x. key x = int r) xs) = (if w = r then filter (\<lambda>x. key x = int w) xs else [])"
    by (induction xs) auto
  with Suc show ?case by (simp add: buckets_Suc)
qed

lemma mset_buckets: "keys_ok key s xs \<Longrightarrow> mset (buckets key r xs) = filter_mset (\<lambda>x. key x < int r) (mset xs)"
proof (induction r)
  case 0
  then have "filter (\<lambda>x. key x < 0) xs = []" by (auto simp: keys_ok_def filter_empty_conv not_less)
  then show ?case by (simp add: buckets_def mset_filter [symmetric])
next
  case (Suc r)
  have "filter_mset (\<lambda>x. key x < int (Suc r)) M = filter_mset (\<lambda>x. key x < int r) M + filter_mset (\<lambda>x. key x = int r) M" for M
    by (induction M) auto
  with Suc show ?case by (simp add: buckets_Suc mset_filter)
qed

lemma sorted_buckets: "sorted (map key (buckets key r xs))"
proof (induction r)
  case (Suc r)
  have "x \<in> set (buckets key r xs) \<Longrightarrow> key x < int r" for x by (auto simp: buckets_def)
  moreover have "sorted (map key (filter (\<lambda>x. key x = int r) xs))" by (induction xs) auto
  ultimately show ?case using Suc by (fastforce simp: buckets_Suc sorted_append)
qed (simp add: buckets_def)

lemma buckets_sort_key:
  assumes "keys_ok key r xs"
  shows "buckets key r xs = sort_key key xs"
proof (rule properties_for_sort_key [symmetric])
  have "filter_mset (\<lambda>x. key x < int r) (mset xs) = mset xs"
    using assms by (auto simp: keys_ok_def filter_mset_eq_conv)
  then show m: "mset (buckets key r xs) = mset xs" using mset_buckets [OF assms, of r] by simp
  fix k
  assume "k \<in> set (buckets key r xs)"
  then have "k \<in> set xs" by (metis m mset_eq_setD)
  then have "0 \<le> key k" "key k < int r" using assms by (auto simp: keys_ok_def)
  then have "nat (key k) < r" "int (nat (key k)) = key k" by auto
  with filter_buckets [of key "nat (key k)" r xs]
  have "filter (\<lambda>x. key x = key k) (buckets key r xs) = filter (\<lambda>x. key x = key k) xs" by simp
  then show "filter (\<lambda>x. key k = key x) (buckets key r xs) = filter (\<lambda>x. key k = key x) xs" by (simp add: eq_commute)
qed (rule sorted_buckets)

lemma buckets_slices:
  assumes "keys_ok key r xs" "\<And>v. v < s \<Longrightarrow> slice out (below key xs (int v)) (below key xs (int v + 1)) = filter (\<lambda>x. key x = int v) xs"
  shows "take (below key xs (int s)) out = buckets key s xs"
  using assms(2)
proof (induction s)
  case 0
  have "below key xs 0 = 0" using assms(1) by (intro below_none) (auto simp: keys_ok_def)
  then show ?case by (simp add: buckets_def)
next
  case (Suc s)
  have le: "below key xs (int s) \<le> below key xs (int s + 1)" by (rule below_mono) simp
  have "slice out 0 (below key xs (int s)) @ slice out (below key xs (int s)) (below key xs (int s + 1)) =
      slice out 0 (below key xs (int s + 1))" by (rule slice_append) (simp_all add: le)
  with Suc show ?case by (simp add: slice_0 buckets_Suc add.commute)
qed

lemma copy_out_ok:
  "n \<le> length arr \<Longrightarrow> n \<le> length out \<Longrightarrow> i \<le> n \<Longrightarrow> copy_out [i..<n] (take i out @ drop i arr) out = Inr (take n out @ drop n arr)"
proof (induction "n - i" arbitrary: i)
  case (Suc d)
  then have i: "i < n" and d: "d = n - Suc i" by simp_all
  have "(take i out @ drop i arr)[i := out ! i] = take (Suc i) out @ drop (Suc i) arr"
    using i Suc.prems by (simp add: list_update_append take_Suc_conv_app_nth Cons_nth_drop_Suc [symmetric, of i arr])
  with Suc.hyps(1) [OF d] Suc.prems i show ?case by (simp add: upt_rec [of i n])
qed simp

lemma counting_pass_ok:
  assumes keys: "keys_ok key r (take n arr)" and n: "n \<le> length arr" "n < 2 ^ 31" "n \<le> length out" and r: "1 \<le> r"
  shows "counting_pass key r arr n out = Inr (sort_key key (take n arr) @ drop n arr)"
proof -
  let ?xs = "take n arr"
  have len: "length ?xs = n" using n(1) by simp
  obtain c1 where c1: "count_keys key arr [0..<n] (replicate r 0) = Inr c1" "length c1 = r"
    "\<forall>v < r. c1 ! v = int (equal_upto key ?xs (int v) n)"
    using count_keys_ok [OF keys n(1,2), of 0 "replicate r 0"] by (auto simp: equal_upto_def)
  have b0: "below key ?xs 0 = 0" using keys by (intro below_none) (auto simp: keys_ok_def)
  have "c1 ! v = int (below key ?xs (int v + 1))" if "v < 1" for v
    using that c1(3) r b0 below_Suc [of key ?xs 0] len by simp
  then obtain c2 where c2: "prefix_sums [1..<r] c1 = Inr c2" "length c2 = r" "\<forall>v < r. c2 ! v = int (below key ?xs (int v + 1))"
    using prefix_sums_ok [OF keys, of 1 c1] c1 r n(2) len by auto
  obtain out' where o: "place_from_back key arr n c2 out = Inr out'" "length out' = length out"
    "\<forall>v < r. slice out' (below key ?xs (int v)) (below key ?xs (int v + 1)) = filter (\<lambda>x. key x = int v) ?xs"
    using place_from_back_ok [OF keys n(1,2), of n c2 out] c2 n(3) below_Suc [of key ?xs] len by auto
  have "below key ?xs (int r) = n" using below_all [of ?xs key "int r"] keys len by (auto simp: keys_ok_def)
  with buckets_slices [OF keys, of r out'] o(3) have "take n out' = sort_key key ?xs"
    using buckets_sort_key [OF keys] by simp
  with copy_out_ok [of n arr out' 0] n o c1(1) c2(1) show ?thesis by (simp add: counting_pass_def)
qed

section \<open>Counting sort\<close>

lemma max_min_ok:
  "set is \<subseteq> {..<length arr} \<Longrightarrow> \<exists>mx' mn'. max_min arr is mx mn = Inr (mx', mn') \<and> mx \<le> mx' \<and> mn' \<le> mn \<and>
     (\<forall>i \<in> set is. mn' \<le> arr ! i \<and> arr ! i \<le> mx')"
proof (induction "is" arbitrary: mx mn)
  case (Cons i "is")
  from Cons.IH [of "if arr ! i > mx then arr ! i else mx" "if arr ! i < mn then arr ! i else mn"] Cons.prems
  obtain mx' mn' where "max_min arr is (if arr ! i > mx then arr ! i else mx) (if arr ! i < mn then arr ! i else mn) = Inr (mx', mn')"
    "(if arr ! i > mx then arr ! i else mx) \<le> mx'" "mn' \<le> (if arr ! i < mn then arr ! i else mn)"
    "\<forall>i \<in> set is. mn' \<le> arr ! i \<and> arr ! i \<le> mx'" by auto
  with Cons.prems show ?case by (auto split: if_splits)
qed simp

lemma CountingSort_ok:
  assumes "0 < n" "n \<le> length arr" "n < 2 ^ 31"
  shows "CountingSort True (Some junk) arr n = Inr (sort (take n arr) @ drop n arr)"
proof -
  have "set [1..<n] \<subseteq> {..<length arr}" using assms by auto
  then obtain mx mn where m: "max_min arr [1..<n] (arr ! 0) (arr ! 0) = Inr (mx, mn)" "arr ! 0 \<le> mx" "mn \<le> arr ! 0"
    "\<forall>i \<in> set [1..<n]. mn \<le> arr ! i \<and> arr ! i \<le> mx"
    using max_min_ok [of "[1..<n]" arr "arr ! 0" "arr ! 0"] by blast
  have all: "mn \<le> x \<and> x \<le> mx" if "x \<in> set (take n arr)" for x
  proof -
    from that obtain i where "i < n" "x = arr ! i" using assms(2) by (auto simp: in_set_conv_nth)
    then show ?thesis using m(2-4) by (cases "i = 0") auto
  qed
  let ?r = "nat (mx - mn + 1)"
  have "keys_ok (\<lambda>x. x - mn) ?r (take n arr)" using all by (force simp: keys_ok_def)
  moreover have "1 \<le> ?r" using m(2,3) by simp
  moreover have "length (map junk [0..<szmul n 4 div 4]) = n" using assms(3) by simp
  ultimately have pass: "counting_pass (\<lambda>x. x - mn) ?r arr n (map junk [0..<szmul n 4 div 4]) =
      Inr (sort_key (\<lambda>x. x - mn) (take n arr) @ drop n arr)"
    using assms by (intro counting_pass_ok) auto
  have "sort_key (\<lambda>x. x - mn) (take n arr) = sort (take n arr)"
  proof (rule properties_for_sort [symmetric])
    show "sorted (sort_key (\<lambda>x. x - mn) (take n arr))"
      using sorted_sort_key [of "\<lambda>x. x - mn" "take n arr"] by (simp add: sorted_map)
  qed simp
  moreover have "0 < length arr" using assms(1,2) by linarith
  ultimately show ?thesis using pass m(1) assms by (simp add: CountingSort_def)
qed


section \<open>Radix sort\<close>

lemma cdiv_pos: "0 \<le> x \<Longrightarrow> 0 < y \<Longrightarrow> cdiv x y = x div y"
  by (cases "x = 0") (auto simp: cdiv_def sgn_if)

lemma cmod_pos: "0 \<le> x \<Longrightarrow> 0 < y \<Longrightarrow> cmod x y = x mod y"
  by (simp add: cmod_def cdiv_pos minus_div_mult_eq_mod)

text \<open>A stable pass by the next digit extends the sorting by the digits below.\<close>

lemma sorted_combine:
  assumes "sorted (map g zs)" "\<And>v. sorted (map f (filter (\<lambda>x. g x = v) zs))"
    "\<And>x. x \<in> set zs \<Longrightarrow> 0 \<le> f x \<and> f x < B"
  shows "sorted (map (\<lambda>x. g x * B + f x :: int) zs)"
  using assms
proof (induction zs)
  case (Cons z zs)
  have "g z * B + f z \<le> g y * B + f y" if y: "y \<in> set zs" for y
  proof (cases "g y = g z")
    case True
    then have "f z \<le> f y" using Cons.prems(2) [of "g z"] y by auto
    with True show ?thesis by simp
  next
    case False
    then have "g z < g y" using Cons.prems(1) y by fastforce
    then have "(g z + 1) * B \<le> g y * B" using Cons.prems(3) [of z] by (intro mult_right_mono) auto
    then show ?thesis using Cons.prems(3) [of z] Cons.prems(3) [of y] y by (auto simp: algebra_simps)
  qed
  moreover have "sorted (map (\<lambda>x. g x * B + f x) zs)"
  proof (rule Cons.IH)
    fix v
    have "filter (\<lambda>x. g x = v) (z # zs) = (if g z = v then z # filter (\<lambda>x. g x = v) zs else filter (\<lambda>x. g x = v) zs)" by simp
    with Cons.prems(2) [of v] show "sorted (map f (filter (\<lambda>x. g x = v) zs))" by (auto split: if_splits)
  qed (use Cons.prems in auto)
  ultimately show ?case by simp
qed simp

lemma filter_sort_key: "filter (\<lambda>x. h x = v) (sort_key h xs) = filter (\<lambda>x. h x = v) xs"
  by (metis stable_sort_key_def stable_sort_key_sort_key)

lemma insort_key_agree: "f x = g x \<Longrightarrow> (\<And>y. y \<in> set ys \<Longrightarrow> f y = g y) \<Longrightarrow> insort_key f x ys = insort_key g x ys"
  by (induction ys) auto

lemma sort_key_agree: "(\<And>x. x \<in> set xs \<Longrightarrow> f x = g x) \<Longrightarrow> sort_key f xs = sort_key g xs"
  by (induction xs) (auto intro: insort_key_agree)

lemma sort_key_combine:
  assumes "\<And>x. x \<in> set xs \<Longrightarrow> 0 \<le> f x \<and> f x < (B :: int)"
  shows "sort_key g (sort_key f xs) = sort_key (\<lambda>x. g x * B + f x) xs"
proof (rule properties_for_sort_key [symmetric])
  let ?ys = "sort_key f xs" and ?zs = "sort_key g (sort_key f xs)"
  show "mset ?zs = mset xs" by simp
  fix k
  assume "k \<in> set ?zs"
  then have k: "k \<in> set xs" by simp
  have split: "(g k * B + f k = g x * B + f x) = (g x = g k \<and> f x = f k)" if "x \<in> set xs" for x
  proof
    assume eq: "g k * B + f k = g x * B + f x"
    have b: "0 \<le> f k" "f k < B" "0 \<le> f x" "f x < B" using assms k that by auto
    have "g k = (g k * B + f k) div B" "g x = (g x * B + f x) div B" using b by simp_all
    then have "g k = g x" using eq by simp
    with eq show "g x = g k \<and> f x = f k" by simp
  qed simp
  have "filter (\<lambda>x. g k * B + f k = g x * B + f x) ?zs = filter (\<lambda>x. f x = f k) (filter (\<lambda>x. g x = g k) ?zs)"
    unfolding filter_filter using split by (intro filter_cong) auto
  also have "\<dots> = filter (\<lambda>x. f x = f k) (filter (\<lambda>x. g x = g k) ?ys)" by (subst filter_sort_key) (rule refl)
  also have "\<dots> = filter (\<lambda>x. g x = g k) (filter (\<lambda>x. f x = f k) ?ys)" by (simp add: conj_commute)
  also have "\<dots> = filter (\<lambda>x. g x = g k) (filter (\<lambda>x. f x = f k) xs)" by (subst filter_sort_key) (rule refl)
  also have "\<dots> = filter (\<lambda>x. g k * B + f k = g x * B + f x) xs"
    unfolding filter_filter using split by (intro filter_cong) auto
  finally show "filter (\<lambda>x. g k * B + f k = g x * B + f x) ?zs = filter (\<lambda>x. g k * B + f k = g x * B + f x) xs" .
next
  let ?zs = "sort_key g (sort_key f xs)"
  show "sorted (map (\<lambda>x. g x * B + f x) ?zs)"
  proof (rule sorted_combine)
    fix v
    have "filter (\<lambda>x. g x = v) ?zs = filter (\<lambda>x. g x = v) (sort_key f xs)"
      by (rule filter_sort_key)
    then show "sorted (map f (filter (\<lambda>x. g x = v) ?zs))" by (simp add: sorted_filter)
  qed (use assms in auto)
qed

lemma CountingSortDigit_ok:
  assumes "n \<le> length arr" "n < 2 ^ 31" "\<And>x. x \<in> set (take n arr) \<Longrightarrow> 0 \<le> x" "0 < e"
  shows "CountingSortDigit (Some junk) arr n e = Inr (sort_key (\<lambda>x. x div e mod 10) (take n arr) @ drop n arr)"
proof -
  have key: "cmod (cdiv x e) 10 = x div e mod 10" if "x \<in> set (take n arr)" for x
    using assms(3) [OF that] assms(4) by (simp add: cdiv_pos cmod_pos pos_imp_zdiv_nonneg_iff)
  then have "keys_ok (\<lambda>x. cmod (cdiv x e) 10) 10 (take n arr)" by (auto simp: keys_ok_def)
  then have "CountingSortDigit (Some junk) arr n e = Inr (sort_key (\<lambda>x. cmod (cdiv x e) 10) (take n arr) @ drop n arr)"
    unfolding CountingSortDigit_def using assms by (simp add: counting_pass_ok)
  moreover have "sort_key (\<lambda>x. cmod (cdiv x e) 10) (take n arr) = sort_key (\<lambda>x. x div e mod 10) (take n arr)"
    using key by (intro sort_key_agree) auto
  ultimately show ?thesis by simp
qed

lemma exp_step:
  assumes "d < 9"
  shows "int32 (10 ^ d * 10) = Inr (10 ^ Suc d)"
proof -
  have le: "(10 :: int) ^ Suc d \<le> 10 ^ 9" using assms by (intro power_increasing) auto
  have pos: "0 \<le> (10 :: int) ^ Suc d" by (rule zero_le_power) simp
  have "(10 :: int) ^ 9 < 2 ^ 31" by simp
  with le have "(10 :: int) ^ Suc d < 2 ^ 31" by (rule le_less_trans)
  moreover have "- (2 ^ 31) \<le> (10 :: int) ^ Suc d" using pos by (rule order_trans [rotated]) simp
  ultimately show ?thesis using int32_ok [of "10 ^ Suc d"] by (simp only: power_Suc mult.commute)
qed

lemma RadixSort_loop_ok:
  assumes n: "n \<le> length arr" "n < 2 ^ 31" and el: "\<And>x. x \<in> set (take n arr) \<Longrightarrow> 0 \<le> x \<and> x \<le> mx" and mx: "0 \<le> mx" "mx < 10 ^ 9"
  shows "d \<le> 9 \<Longrightarrow> 10 - d < fuel \<Longrightarrow>
    RadixSort_loop fuel (Some junk) (sort_key (\<lambda>x. x mod 10 ^ d) (take n arr) @ drop n arr) n mx (10 ^ d) =
    Inr (sort (take n arr) @ drop n arr)"
proof (induction fuel arbitrary: d)
  case (Suc fuel)
  let ?xs = "take n arr" and ?ys = "sort_key (\<lambda>x. x mod 10 ^ d) (take n arr)"
  have len: "length ?ys = n" "take n (?ys @ drop n arr) = ?ys" "drop n (?ys @ drop n arr) = drop n arr" using n(1) by simp_all
  show ?case
  proof (cases "mx div 10 ^ d > 0")
    case False
    then have "mx < 10 ^ d" using mx(1) by (meson leI pos_imp_zdiv_pos_iff zero_less_numeral zero_less_power)
    then have id: "x mod 10 ^ d = x" if "x \<in> set ?xs" for x using el [OF that] by simp
    have "?ys = sort ?xs" by (intro sort_key_agree) (auto simp: id)
    with False mx(1) show ?thesis by (simp add: cdiv_pos)
  next
    case True
    then have big: "10 ^ d \<le> mx" by (simp add: pos_imp_zdiv_pos_iff)
    have d: "d < 9"
    proof (rule ccontr)
      assume "\<not> d < 9"
      then have "(10 :: int) ^ 9 \<le> 10 ^ d" by (intro power_increasing) auto
      with big mx(2) show False by linarith
    qed
    have nn: "\<And>x. x \<in> set (take n (?ys @ drop n arr)) \<Longrightarrow> 0 \<le> x" using len el by auto
    have pass: "CountingSortDigit (Some junk) (?ys @ drop n arr) n (10 ^ d) = Inr (sort_key (\<lambda>x. x div 10 ^ d mod 10) ?ys @ drop n arr)"
      using CountingSortDigit_ok [where arr = "?ys @ drop n arr", OF _ n(2) nn, where e = "10 ^ d" and junk = junk] len n(1) by simp
    have "sort_key (\<lambda>x. x div 10 ^ d mod 10) ?ys = sort_key (\<lambda>x. x div 10 ^ d mod 10 * 10 ^ d + x mod 10 ^ d) ?xs"
      by (rule sort_key_combine) simp
    also have "\<dots> = sort_key (\<lambda>x. x mod 10 ^ Suc d) ?xs"
    proof (intro sort_key_agree)
      fix x :: int
      show "x div 10 ^ d mod 10 * 10 ^ d + x mod 10 ^ d = x mod 10 ^ Suc d"
        using mod_mult2_eq' [of x "10 ^ d" 10] by (simp add: mult.commute)
    qed
    finally have step: "sort_key (\<lambda>x. x div 10 ^ d mod 10) ?ys = sort_key (\<lambda>x. x mod 10 ^ Suc d) ?xs" .
    from exp_step [OF d] pass step True mx(1) Suc.IH [of "Suc d"] Suc.prems d show ?thesis by (simp add: cdiv_pos mult.commute)
  qed
qed simp


lemma GetMax_loop_ok:
  "set is \<subseteq> {..<length arr} \<Longrightarrow> \<exists>m. GetMax_loop arr is mx = Inr m \<and> mx \<le> m \<and> (m = mx \<or> m \<in> (!) arr ` set is) \<and>
     (\<forall>i \<in> set is. arr ! i \<le> m)"
proof (induction "is" arbitrary: mx)
  case (Cons i "is")
  from Cons.IH [of "if arr ! i > mx then arr ! i else mx"] Cons.prems obtain m where
    "GetMax_loop arr is (if arr ! i > mx then arr ! i else mx) = Inr m" "(if arr ! i > mx then arr ! i else mx) \<le> m"
    "m = (if arr ! i > mx then arr ! i else mx) \<or> m \<in> (!) arr ` set is" "\<forall>i \<in> set is. arr ! i \<le> m" by auto
  with Cons.prems show ?case by (auto split: if_splits)
qed simp

lemma GetMax_ok:
  assumes "0 < n" "n \<le> length arr"
  shows "\<exists>m. GetMax arr n = Inr m \<and> m \<in> set (take n arr) \<and> (\<forall>x \<in> set (take n arr). x \<le> m)"
proof -
  have "set [1..<n] \<subseteq> {..<length arr}" using assms by auto
  then obtain m where m: "GetMax_loop arr [1..<n] (arr ! 0) = Inr m" "arr ! 0 \<le> m" "m = arr ! 0 \<or> m \<in> (!) arr ` set [1..<n]"
    "\<forall>i \<in> set [1..<n]. arr ! i \<le> m" using GetMax_loop_ok by blast
  have a0: "0 < length arr" using assms by linarith
  have "x \<le> m" if "x \<in> set (take n arr)" for x
  proof -
    from that obtain i where "i < n" "x = arr ! i" using assms(2) by (auto simp: in_set_conv_nth)
    then show ?thesis using m(2,4) by (cases "i = 0") auto
  qed
  moreover have "arr ! i \<in> set (take n arr)" if "i < n" for i
    using that assms(2) by (metis length_take min.absorb2 nth_mem nth_take)
  then have "m \<in> set (take n arr)" using m(3) assms(1) by auto
  ultimately show ?thesis using m(1) a0 by (auto simp: GetMax_def)
qed

lemma sort_key_const: "sort_key (\<lambda>x. c) xs = xs"
proof (induction xs)
  case (Cons x xs)
  then show ?case by (cases xs) simp_all
qed simp

lemma RadixSort_ok:
  assumes "0 < n" "n \<le> length arr" "n < 2 ^ 31" "\<And>x. x \<in> set (take n arr) \<Longrightarrow> 0 \<le> x \<and> x < 10 ^ 9" "10 < fuel"
  shows "RadixSort fuel (Some junk) arr n = Inr (sort (take n arr) @ drop n arr)"
proof -
  obtain m where m: "GetMax arr n = Inr m" "m \<in> set (take n arr)" "\<forall>x \<in> set (take n arr). x \<le> m"
    using GetMax_ok [OF assms(1,2)] by blast
  have "RadixSort_loop fuel (Some junk) (sort_key (\<lambda>x. x mod 10 ^ 0) (take n arr) @ drop n arr) n m (10 ^ 0) =
      Inr (sort (take n arr) @ drop n arr)"
    using assms m by (intro RadixSort_loop_ok) auto
  then have "RadixSort_loop fuel (Some junk) arr n m 1 = Inr (sort (take n arr) @ drop n arr)" by (simp add: sort_key_const)
  with m(1) show ?thesis by (simp add: RadixSort_def)
qed

text \<open>From \<open>10 ^ 9\<close> on, the factor leaves the range of \<open>int\<close> before the loop can end.\<close>

lemma RadixSort_loop_overflow:
  "n \<le> length arr \<Longrightarrow> n < 2 ^ 31 \<Longrightarrow> (\<And>x. x \<in> set (take n arr) \<Longrightarrow> 0 \<le> x) \<Longrightarrow> 10 ^ 9 \<le> mx \<Longrightarrow> d \<le> 9 \<Longrightarrow> 9 - d < fuel \<Longrightarrow>
   RadixSort_loop fuel (Some junk) arr n mx (10 ^ d) = Inl Int_overflow"
proof (induction fuel arbitrary: d arr)
  case (Suc fuel)
  let ?arr = "sort_key (\<lambda>x. x div 10 ^ d mod 10) (take n arr) @ drop n arr"
  have pass: "CountingSortDigit (Some junk) arr n (10 ^ d) = Inr ?arr"
    using CountingSortDigit_ok [OF Suc.prems(1,2,3), where e = "10 ^ d"] by simp
  have "(10 :: int) ^ d \<le> 10 ^ 9" using Suc.prems(5) by (intro power_increasing) auto
  then have "10 ^ d \<le> mx" using Suc.prems(4) by linarith
  then have go: "cdiv mx (10 ^ d) > 0" using Suc.prems(4) by (simp add: cdiv_pos pos_imp_zdiv_pos_iff)
  show ?case
  proof (cases "d = 9")
    case True
    then have "int32 (10 ^ d * 10) = Inl Int_overflow" by (simp add: int32_def)
    with pass go show ?thesis by simp
  next
    case False
    then have d: "Suc d \<le> 9" "9 - Suc d < fuel" using Suc.prems(5,6) by auto
    have "int32 (10 ^ d * 10) = Inr (10 ^ Suc d)" using d(1) by (intro exp_step) simp
    moreover have "RadixSort_loop fuel (Some junk) ?arr n mx (10 ^ Suc d) = Inl Int_overflow"
      using Suc.prems d by (intro Suc.IH) auto
    ultimately show ?thesis using pass go by simp
  qed
qed simp

lemma RadixSort_overflow:
  assumes "0 < n" "n \<le> length arr" "n < 2 ^ 31" "\<And>x. x \<in> set (take n arr) \<Longrightarrow> 0 \<le> x"
    "\<exists>x \<in> set (take n arr). 10 ^ 9 \<le> x" "9 < fuel"
  shows "RadixSort fuel (Some junk) arr n = Inl Int_overflow"
proof -
  obtain m where m: "GetMax arr n = Inr m" "\<forall>x \<in> set (take n arr). x \<le> m" using GetMax_ok [OF assms(1,2)] by blast
  then have "10 ^ 9 \<le> m" using assms(5) by force
  then have "RadixSort_loop fuel (Some junk) arr n m (10 ^ 0) = Inl Int_overflow"
    using assms by (intro RadixSort_loop_overflow) auto
  with m(1) show ?thesis by (simp add: RadixSort_def)
qed

end
