(* ===== verification/FSA.thy ===== *)
theory FSA
  imports Memory_Words
begin

text \<open>
  The fixed size allocator of \<open>projects/fsa/src/fsa.c\<close>. The pool is its bytes and pointers into it are
  offsets; offset 0 holds the only field of the struct, the offset of the first free block. The
  lemmas tie the bytes to the list of free blocks; the interpretation of \<open>rel_refinement\<close> covers a
  client that allocates, frees, counts and writes into its own blocks.
\<close>

section \<open>The code\<close>

abbreviation (input) OFF_NULL :: nat where "OFF_NULL \<equiv> 0"
abbreviation (input) sizeof_fsa :: nat where "sizeof_fsa \<equiv> 8"

definition FSASuggestSize :: "nat \<Rightarrow> nat \<Rightarrow> nat" where
  "FSASuggestSize block_amount block_size =
     (if 0 = block_amount \<or> 0 = block_size then 0
      else let aligned_block = ALIGN_UP block_size; meta_byte = ALIGN_UP sizeof_fsa
           in szadd meta_byte (szmul block_amount aligned_block))"

text \<open>A block pointer and the offset of the block are the same here.\<close>

definition GetBlockFromOffset :: "nat \<Rightarrow> nat" where
  "GetBlockFromOffset off = off"

definition PtrToOffset :: "nat \<Rightarrow> nat" where
  "PtrToOffset p = p"

definition SetNextFree :: "byte list \<Rightarrow> nat \<Rightarrow> nat \<Rightarrow> byte list result" where
  "SetNextFree pool block_ptr next_offset = store_word pool block_ptr next_offset"

primrec FSAInit_loop :: "nat \<Rightarrow> byte list \<Rightarrow> nat \<Rightarrow> nat \<Rightarrow> nat \<Rightarrow> (byte list \<times> nat) result" where
  "FSAInit_loop 0 pool pool_size aligned_block off = Inl Out_of_fuel"
| "FSAInit_loop (Suc fuel) pool pool_size aligned_block off =
     (if szadd off aligned_block < pool_size
      then bindE (SetNextFree pool (GetBlockFromOffset off) (szadd off aligned_block)) (\<lambda>pool'.
           FSAInit_loop fuel pool' pool_size aligned_block (szadd off aligned_block))
      else Inr (pool, off))"

definition FSAInit :: "nat \<Rightarrow> byte list \<Rightarrow> nat \<Rightarrow> nat \<Rightarrow> byte list result" where
  "FSAInit fuel pool pool_size block_size =
     bindE (assertE (pool_size > 0)) (\<lambda>_.
     bindE (assertE (block_size > 0)) (\<lambda>_.
     let aligned_block = ALIGN_UP block_size
     in bindE (SetNextFree pool 0 sizeof_fsa) (\<lambda>pool1.
        bindE (FSAInit_loop fuel pool1 pool_size aligned_block sizeof_fsa) (\<lambda>(pool2, off).
        bindE (SetNextFree pool2 (GetBlockFromOffset off) OFF_NULL) (\<lambda>pool3.
        store_word pool3 0 sizeof_fsa)))))"

definition FSAAlloc :: "byte list \<Rightarrow> (byte list \<times> nat option) result" where
  "FSAAlloc pool =
     bindE (load_word pool 0) (\<lambda>head_offset.
     if OFF_NULL = head_offset then Inr (pool, None)
     else let block = head_offset
          in bindE (load_word pool block) (\<lambda>nxt.
             bindE (store_word pool 0 nxt) (\<lambda>pool'. Inr (pool', Some block))))"

definition FSAFree :: "byte list \<Rightarrow> nat option \<Rightarrow> byte list result" where
  "FSAFree pool block =
     (case block of
        None \<Rightarrow> Inr pool
      | Some b \<Rightarrow>
          bindE (load_word pool 0) (\<lambda>old_head.
          bindE (store_word pool b old_head) (\<lambda>pool1. store_word pool1 0 (PtrToOffset b))))"

primrec FSACountFree_loop :: "nat \<Rightarrow> byte list \<Rightarrow> nat \<Rightarrow> nat \<Rightarrow> nat result" where
  "FSACountFree_loop 0 pool off n = Inl Out_of_fuel"
| "FSACountFree_loop (Suc fuel) pool off n =
     (if off \<noteq> OFF_NULL then bindE (load_word pool off) (\<lambda>off'. FSACountFree_loop fuel pool off' (n + 1)) else Inr n)"

definition FSACountFree :: "nat \<Rightarrow> byte list \<Rightarrow> nat result" where
  "FSACountFree fuel pool = bindE (load_word pool 0) (\<lambda>off. FSACountFree_loop fuel pool off 0)"

section \<open>The free list\<close>

text \<open>The offsets of the blocks of a pool with \<open>n\<close> blocks of \<open>w\<close> bytes.\<close>

definition blocks :: "nat \<Rightarrow> nat \<Rightarrow> nat set" where
  "blocks w n = (\<lambda>k. 8 + k * w) ` {..<n}"

primrec free_chain :: "byte list \<Rightarrow> nat \<Rightarrow> nat list \<Rightarrow> bool" where
  "free_chain pool at [] \<longleftrightarrow> load_word pool at = Inr 0"
| "free_chain pool at (f # fs) \<longleftrightarrow> load_word pool at = Inr f \<and> free_chain pool f fs"

definition fsa_rep :: "nat \<Rightarrow> nat \<Rightarrow> byte list \<Rightarrow> nat list \<Rightarrow> bool" where
  "fsa_rep w n pool fs \<longleftrightarrow> 8 \<le> w \<and> 8 + n * w \<le> length pool \<and> length pool < 2 ^ 64 \<and>
     distinct fs \<and> set fs \<subseteq> blocks w n \<and> free_chain pool 0 fs"

text \<open>Distinct blocks do not overlap, none overlaps the struct, and all lie inside the pool.\<close>

lemma blocks_apart:
  assumes "a \<in> blocks w n" "b \<in> blocks w n" "a \<noteq> b"
  shows "a + w \<le> b \<or> b + w \<le> a"
proof -
  obtain i j where ij: "a = 8 + i * w" "b = 8 + j * w" using assms(1,2) by (auto simp: blocks_def)
  with assms(3) consider "i < j" | "j < i" by (cases i j rule: linorder_cases) auto
  then show ?thesis using chunk_bound [of i j w] chunk_bound [of j i w] ij by cases linarith+
qed

lemma block_inside: "a \<in> blocks w n \<Longrightarrow> 8 \<le> a \<and> a + w \<le> 8 + n * w"
  using chunk_bound by (fastforce simp: blocks_def)

lemma free_chain_same:
  assumes "free_chain pool at fs" "load_word pool' at = load_word pool at" "\<And>f. f \<in> set fs \<Longrightarrow> load_word pool' f = load_word pool f"
  shows "free_chain pool' at fs"
  using assms by (induction fs arbitrary: at) auto

text \<open>Writing into allocated blocks does not change the free list.\<close>

lemma fsa_rep_write:
  assumes rep: "fsa_rep w n pool fs" and b: "b \<in> blocks w n" "b \<notin> set fs" and k: "i + length bs \<le> w"
  shows "\<exists>pool'. write_bytes pool (b + i) bs = Inr pool' \<and> fsa_rep w n pool' fs"
proof -
  have w: "8 \<le> w" and len: "8 + n * w \<le> length pool" using rep by (auto simp: fsa_rep_def)
  have ib: "8 \<le> b" "b + w \<le> length pool" using block_inside [OF b(1)] len by auto
  let ?p = "take (b + i) pool @ bs @ drop (b + i + length bs) pool"
  have wr: "write_bytes pool (b + i) bs = Inr ?p" using ib k by (intro write_bytes_ok) simp
  have l: "length ?p = length pool" using write_bytes_length [OF wr] .
  have out: "?p ! q = pool ! q" if "q < length pool" "q < b \<or> b + w \<le> q" for q
    using write_bytes_nth [OF wr that(1)] that k by auto
  have "load_word ?p 0 = load_word pool 0" using ib by (intro load_word_same [OF l]) (auto intro!: out)
  moreover have "load_word ?p f = load_word pool f" if "f \<in> set fs" for f
  proof -
    have "f \<in> blocks w n" "f \<noteq> b" using that rep b(2) by (auto simp: fsa_rep_def)
    then have "f + w \<le> b \<or> b + w \<le> f" using blocks_apart b(1) by blast
    with w show ?thesis by (intro load_word_same [OF l]) (auto intro!: out)
  qed
  ultimately have "free_chain ?p 0 fs" using rep by (auto simp: fsa_rep_def intro: free_chain_same)
  with rep l wr show ?thesis by (auto simp: fsa_rep_def)
qed

lemma FSAAlloc_empty: "fsa_rep w n pool [] \<Longrightarrow> FSAAlloc pool = Inr (pool, None)"
  by (simp add: FSAAlloc_def fsa_rep_def)

lemma FSAAlloc_ok:
  assumes rep: "fsa_rep w n pool (f # fs)"
  shows "\<exists>pool'. FSAAlloc pool = Inr (pool', Some f) \<and> fsa_rep w n pool' fs \<and> length pool' = length pool \<and>
    (\<forall>p < length pool. 8 \<le> p \<longrightarrow> pool' ! p = pool ! p)"
proof -
  have f: "f \<in> blocks w n" "f \<notin> set fs" "free_chain pool f fs" "load_word pool 0 = Inr f" and w: "8 \<le> w" using rep by (auto simp: fsa_rep_def)
  have f8: "8 \<le> f" using block_inside [OF f(1)] by simp
  obtain nxt where nxt: "load_word pool f = Inr nxt" "nxt = (case fs of [] \<Rightarrow> 0 | g # _ \<Rightarrow> g)"
    using f(3) by (cases fs) simp_all
  have "0 + 8 \<le> length pool" "nxt < 2 ^ 64" using rep load_word_Inr [OF nxt(1)] by (auto simp: fsa_rep_def)
  then obtain pool' where p: "store_word pool 0 nxt = Inr pool'" "length pool' = length pool" "load_word pool' 0 = Inr nxt"
    "\<forall>p < length pool. p < 0 \<or> 0 + 8 \<le> p \<longrightarrow> pool' ! p = pool ! p"
    using store_word_ok by blast
  have same: "load_word pool' g = load_word pool g" if "g \<in> blocks w n" for g
    using block_inside [OF that] p(2,4) by (intro load_word_same) auto
  have "free_chain pool' 0 fs"
  proof (cases fs)
    case Nil
    with p(3) nxt show ?thesis by simp
  next
    case (Cons g gs)
    have mem: "x \<in> set fs \<Longrightarrow> x \<in> blocks w n" for x using rep by (auto simp: fsa_rep_def)
    have "free_chain pool g gs" using f(3) Cons by simp
    then have "free_chain pool' g gs" by (rule free_chain_same) (rule same, rule mem, simp add: Cons)+
    with Cons p(3) nxt show ?thesis by simp
  qed
  then have "fsa_rep w n pool' fs" using rep p(2) by (auto simp: fsa_rep_def)
  moreover have "FSAAlloc pool = Inr (pool', Some f)" using f(4) f8 nxt(1) p(1) by (simp add: FSAAlloc_def)
  ultimately show ?thesis using p(2,4) by auto
qed

lemma FSAFree_ok:
  assumes rep: "fsa_rep w n pool fs" and b: "b \<in> blocks w n" "b \<notin> set fs"
  shows "\<exists>pool'. FSAFree pool (Some b) = Inr pool' \<and> fsa_rep w n pool' (b # fs) \<and> length pool' = length pool \<and>
    (\<forall>p < length pool. 8 \<le> p \<longrightarrow> p < b \<or> b + 8 \<le> p \<longrightarrow> pool' ! p = pool ! p)"
proof -
  have w: "8 \<le> w" and len: "8 + n * w \<le> length pool" "length pool < 2 ^ 64" using rep by (auto simp: fsa_rep_def)
  have ib: "8 \<le> b" "b + w \<le> length pool" using block_inside [OF b(1)] len by auto
  obtain h where h: "load_word pool 0 = Inr h" "h = (case fs of [] \<Rightarrow> 0 | g # _ \<Rightarrow> g)"
    using rep by (cases fs) (simp_all add: fsa_rep_def)
  obtain p1 where p1: "store_word pool b h = Inr p1" "length p1 = length pool" "load_word p1 b = Inr h"
    "\<forall>p < length pool. p < b \<or> b + 8 \<le> p \<longrightarrow> p1 ! p = pool ! p"
    using store_word_ok [of b pool h] ib w load_word_Inr [OF h(1)] by auto
  obtain p2 where p2: "store_word p1 0 b = Inr p2" "length p2 = length p1" "load_word p2 0 = Inr b"
    "\<forall>p < length p1. p < 0 \<or> 0 + 8 \<le> p \<longrightarrow> p2 ! p = p1 ! p"
    using store_word_ok [of 0 p1 b] p1(2) ib len w by auto
  have lb: "load_word p2 b = Inr h"
    using p1(3) p2(2,4) ib by (subst load_word_same [of p2 p1 b]) auto
  have same: "load_word p2 g = load_word pool g" if "g \<in> set fs" for g
  proof -
    have g: "g \<in> blocks w n" "g \<noteq> b" using that rep b(2) by (auto simp: fsa_rep_def)
    then have "g + w \<le> b \<or> b + w \<le> g" using blocks_apart b(1) by blast
    with block_inside [OF g(1)] p1(2,4) p2(2,4) w show ?thesis by (intro load_word_same) auto
  qed
  have "free_chain p2 b fs"
  proof (cases fs)
    case Nil
    with lb h show ?thesis by simp
  next
    case (Cons g gs)
    have "free_chain pool g gs" using rep Cons by (simp add: fsa_rep_def)
    then have "free_chain p2 g gs" by (rule free_chain_same) (rule same, simp add: Cons)+
    with Cons lb h show ?thesis by simp
  qed
  then have "fsa_rep w n p2 (b # fs)" using rep p1(2) p2(2,3) b by (auto simp: fsa_rep_def)
  moreover have "FSAFree pool (Some b) = Inr p2" using h(1) p1(1) p2(1) by (simp add: FSAFree_def PtrToOffset_def)
  ultimately show ?thesis using p1(2,4) p2(2,4) by auto
qed

lemma FSACountFree_loop_ok:
  "free_chain pool f fs \<Longrightarrow> 0 \<notin> set (f # fs) \<Longrightarrow> length (f # fs) < fuel \<Longrightarrow> FSACountFree_loop fuel pool f n = Inr (n + length (f # fs))"
proof (induction fs arbitrary: f n fuel)
  case Nil
  then obtain k where "fuel = Suc (Suc k)" by (metis Suc_less_eq2 length_Cons list.size(3) less_imp_Suc_add add_Suc)
  with Nil show ?case by simp
next
  case (Cons g gs)
  then obtain k where k: "fuel = Suc k" by (cases fuel) auto
  with Cons.IH [of g k "n + 1"] Cons.prems show ?case by simp
qed

lemma FSACountFree_ok:
  assumes "fsa_rep w n pool fs" "length fs < fuel"
  shows "FSACountFree fuel pool = Inr (length fs)"
proof (cases fs)
  case Nil
  with assms obtain k where "fuel = Suc k" by (cases fuel) auto
  with Nil assms show ?thesis by (simp add: FSACountFree_def fsa_rep_def)
next
  case (Cons f gs)
  have "0 \<notin> set fs" using assms(1) block_inside by (fastforce simp: fsa_rep_def)
  with Cons assms FSACountFree_loop_ok [of pool f gs fuel 0] show ?thesis by (simp add: FSACountFree_def fsa_rep_def)
qed


section \<open>Initialisation\<close>

lemma FSASuggestSize_eq:
  assumes "0 < n" "0 < bs" "8 + n * ALIGN_UP bs < 2 ^ 64"
  shows "FSASuggestSize n bs = 8 + n * ALIGN_UP bs"
  using assms by (simp add: FSASuggestSize_def ALIGN_UP_def [of 8])

text \<open>The loop links the blocks up to the last one that starts before the end of the pool.\<close>

lemma FSAInit_loop_ok:
  assumes w: "8 \<le> w" and small: "8 + (m + 1) * w < 2 ^ 64"
    and go: "\<And>j. j < m \<Longrightarrow> 8 + (j + 1) * w < psz" and stop: "\<not> 8 + (m + 1) * w < psz"
  shows "k \<le> m \<Longrightarrow> m - k < fuel \<Longrightarrow> 8 + m * w \<le> length pool \<Longrightarrow>
    \<exists>pool'. FSAInit_loop fuel pool psz w (8 + k * w) = Inr (pool', 8 + m * w) \<and> length pool' = length pool \<and>
      (\<forall>p < length pool. p < 8 + k * w \<longrightarrow> pool' ! p = pool ! p) \<and>
      (\<forall>j. k \<le> j \<longrightarrow> j < m \<longrightarrow> load_word pool' (8 + j * w) = Inr (8 + (j + 1) * w))"
proof (induction fuel arbitrary: k pool)
  case (Suc fuel)
  have mono: "8 + (j + 1) * w \<le> 8 + (m + 1) * w" if "j \<le> m" for j using that by (intro add_left_mono mult_le_mono1) simp
  have next_eq: "8 + k * w + w = 8 + (k + 1) * w" by simp
  have "8 + k * w + w < 2 ^ 64" using mono [OF Suc.prems(1)] small unfolding next_eq by linarith
  then have sz: "szadd (8 + k * w) w = 8 + (k + 1) * w" unfolding next_eq [symmetric] by (rule szadd_small)
  show ?case
  proof (cases "k = m")
    case True
    then have "FSAInit_loop (Suc fuel) pool psz w (8 + k * w) = Inr (pool, 8 + m * w)" using stop sz by simp
    with True show ?thesis by auto
  next
    case False
    then have k: "k < m" using Suc.prems(1) by simp
    have fuel': "m - (k + 1) < fuel" using k Suc.prems(2) by linarith
    have room: "8 + k * w + 8 \<le> length pool" using chunk_bound [OF k, of w] w Suc.prems(3) by linarith
    have "8 + (k + 1) * w < 2 ^ 64" using mono [OF Suc.prems(1)] small by linarith
    from store_word_ok [OF room this] obtain p1 where p1: "store_word pool (8 + k * w) (8 + (k + 1) * w) = Inr p1"
      "length p1 = length pool" "load_word p1 (8 + k * w) = Inr (8 + (k + 1) * w)"
      "\<forall>p < length pool. p < 8 + k * w \<or> 8 + k * w + 8 \<le> p \<longrightarrow> p1 ! p = pool ! p" by blast
    obtain p2 where p2: "FSAInit_loop fuel p1 psz w (8 + (k + 1) * w) = Inr (p2, 8 + m * w)" "length p2 = length p1"
      "\<forall>p < length p1. p < 8 + (k + 1) * w \<longrightarrow> p2 ! p = p1 ! p"
      "\<forall>j. k + 1 \<le> j \<longrightarrow> j < m \<longrightarrow> load_word p2 (8 + j * w) = Inr (8 + (j + 1) * w)"
      using Suc.IH [of "k + 1" p1] k fuel' Suc.prems(3) p1(2) by auto
    have "load_word p2 (8 + k * w) = load_word p1 (8 + k * w)" using p2(2,3) w by (intro load_word_same) auto
    then have "load_word p2 (8 + j * w) = Inr (8 + (j + 1) * w)" if "k \<le> j" "j < m" for j
      using that p1(3) p2(4) by (cases "j = k") auto
    moreover have "FSAInit_loop (Suc fuel) pool psz w (8 + k * w) = Inr (p2, 8 + m * w)"
      using go [OF k] sz p1(1) p2(1) by (simp add: SetNextFree_def GetBlockFromOffset_def)
    moreover have "p2 ! p = pool ! p" if "p < length pool" "p < 8 + k * w" for p using that p1(2,4) p2(3) by simp
    ultimately show ?thesis using p1(2) p2(2) by auto
  qed
qed simp

lemma free_chain_all:
  assumes "\<And>j. k \<le> j \<Longrightarrow> j + 1 < n \<Longrightarrow> load_word pool (8 + j * w) = Inr (8 + (j + 1) * w)"
    "load_word pool (8 + (n - 1) * w) = Inr 0" "k < n"
  shows "free_chain pool (8 + k * w) (map (\<lambda>j. 8 + j * w) [k + 1..<n])"
  using assms
proof (induction "n - k" arbitrary: k)
  case (Suc d)
  show ?case
  proof (cases "k + 1 < n")
    case True
    then have "free_chain pool (8 + (k + 1) * w) (map (\<lambda>j. 8 + j * w) [k + 1 + 1..<n])"
      using Suc.hyps(2) Suc.prems by (intro Suc.hyps(1)) auto
    with True Suc.prems(1) [of k] show ?thesis by (simp add: upt_rec [of "Suc k" n])
  next
    case False
    with Suc.prems have "k = n - 1" "[k + 1..<n] = []" by auto
    with Suc.prems(2) show ?thesis by simp
  qed
qed simp

lemma FSAInit_ok:
  assumes n: "0 < n" "n < fuel" and bs: "0 < bs" "bs + 7 < 2 ^ 64" and len: "length pool = 8 + n * ALIGN_UP bs" "length pool < 2 ^ 64"
  shows "FSASuggestSize n bs = length pool \<and>
    (\<exists>pool'. FSAInit fuel pool (length pool) bs = Inr pool' \<and> fsa_rep (ALIGN_UP bs) n pool' (map (\<lambda>k. 8 + k * ALIGN_UP bs) [0..<n]))"
proof -
  let ?w = "ALIGN_UP bs"
  have w: "8 \<le> ?w" using ALIGN_UP_ok [OF bs] by blast
  have meta: "ALIGN_UP 8 = 8" by (simp add: ALIGN_UP_def)
  have sug: "FSASuggestSize n bs = length pool" using n(1) bs(1) len meta by (simp add: FSASuggestSize_def Let_def)
  obtain m where m: "n = m + 1" using n(1) by (cases n) auto
  have mw: "8 + m * ?w + 8 \<le> length pool" using len(1) w m by simp
  obtain p1 where p1: "store_word pool 0 8 = Inr p1" "length p1 = length pool" using store_word_ok [of 0 pool 8] mw by auto
  have go: "8 + (j + 1) * ?w < length pool" if "j < m" for j
    using chunk_bound [of "j + 1" n ?w] that m w len(1) by simp
  obtain p2 where p2: "FSAInit_loop fuel p1 (length pool) ?w (8 + 0 * ?w) = Inr (p2, 8 + m * ?w)" "length p2 = length p1"
    "\<forall>j. 0 \<le> j \<longrightarrow> j < m \<longrightarrow> load_word p2 (8 + j * ?w) = Inr (8 + (j + 1) * ?w)"
    using FSAInit_loop_ok [OF w _ go, of m 0 fuel p1] len m n(2) p1(2) mw by auto
  obtain p3 where p3: "store_word p2 (8 + m * ?w) 0 = Inr p3" "length p3 = length p2" "load_word p3 (8 + m * ?w) = Inr 0"
    "\<forall>p < length p2. p < 8 + m * ?w \<or> 8 + m * ?w + 8 \<le> p \<longrightarrow> p3 ! p = p2 ! p"
    using store_word_ok [of "8 + m * ?w" p2 0] mw p1(2) p2(2) by auto
  obtain p4 where p4: "store_word p3 0 8 = Inr p4" "length p4 = length p3" "load_word p4 0 = Inr 8"
    "\<forall>p < length p3. p < 0 \<or> 0 + 8 \<le> p \<longrightarrow> p4 ! p = p3 ! p"
    using store_word_ok [of 0 p3 8] mw p1(2) p2(2) p3(2) by auto
  have same4: "load_word p4 x = load_word p3 x" if "8 \<le> x" for x using that p4(2,4) by (intro load_word_same) auto
  have nxt: "load_word p4 (8 + j * ?w) = Inr (8 + (j + 1) * ?w)" if j: "j < m" for j
  proof -
    have "load_word p3 (8 + j * ?w) = load_word p2 (8 + j * ?w)"
      using p3(2,4) chunk_bound [OF j, of ?w] w by (intro load_word_same) auto
    with p2(3) j same4 [of "8 + j * ?w"] show ?thesis by simp
  qed
  have "free_chain p4 (8 + 0 * ?w) (map (\<lambda>j. 8 + j * ?w) [0 + 1..<n])"
    using nxt same4 [of "8 + m * ?w"] p3(3) m by (intro free_chain_all) auto
  moreover have "map (\<lambda>k. 8 + k * ?w) [0..<n] = 8 # map (\<lambda>k. 8 + k * ?w) [1..<n]" using m by (simp add: upt_rec [of 0])
  ultimately have chain: "free_chain p4 0 (map (\<lambda>k. 8 + k * ?w) [0..<n])" using p4(3) by simp
  have "distinct (map (\<lambda>k. 8 + k * ?w) [0..<n])" using w by (auto simp: distinct_map inj_on_def)
  moreover have "set (map (\<lambda>k. 8 + k * ?w) [0..<n]) \<subseteq> blocks ?w n" by (auto simp: blocks_def)
  ultimately have rep: "fsa_rep ?w n p4 (map (\<lambda>k. 8 + k * ?w) [0..<n])"
    using w len chain p1(2) p2(2) p3(2) p4(2) by (simp add: fsa_rep_def)
  have "FSAInit fuel pool (length pool) bs = Inr p4"
    using bs(1) len p1(1) p2(1) p3(1) p4(1) mw by (simp add: FSAInit_def SetNextFree_def GetBlockFromOffset_def Let_def)
  with rep sug show ?thesis by blast
qed

text \<open>A pool that is a few bytes larger than suggested: the last link is written past its end.\<close>

lemma FSAInit_overrun:
  assumes bs: "0 < bs" "bs + 7 < 2 ^ 64" and len: "length pool = 8 + n * ALIGN_UP bs + r" "0 < r" "r < 8"
    and small: "8 + (n + 1) * ALIGN_UP bs < 2 ^ 64" and fuel: "n < fuel"
  shows "FSAInit fuel pool (length pool) bs = Inl Bad_access"
proof -
  let ?w = "ALIGN_UP bs"
  have w: "8 \<le> ?w" using ALIGN_UP_ok [OF bs] by blast
  obtain p1 where p1: "store_word pool 0 8 = Inr p1" "length p1 = length pool"
    using store_word_ok [of 0 pool 8] len(1) by auto
  have go: "8 + (j + 1) * ?w < length pool" if "j < n" for j
    using chunk_bound [of j n ?w] that len by simp
  have "\<not> 8 + (n + 1) * ?w < length pool" using len w by simp
  with FSAInit_loop_ok [OF w small go, of 0 fuel p1] fuel p1(2) len(1) obtain p2 where
    p2: "FSAInit_loop fuel p1 (length pool) ?w 8 = Inr (p2, 8 + n * ?w)" "length p2 = length pool" by auto
  have "store_word p2 (8 + n * ?w) 0 = Inl Bad_access"
    using p2(2) len by (simp add: store_word_def write_bytes_def del: bytes_of.simps)
  with bs(1) len p1(1) p2(1) show ?thesis by (simp add: FSAInit_def SetNextFree_def GetBlockFromOffset_def Let_def)
qed

section \<open>A client of the allocator\<close>

datatype fsa_call = F_Alloc | F_Free nat | F_Count | F_Write nat nat "byte list"

datatype fsa_out = F_Block "nat option" | F_Done | F_Num nat

fun fsa_step :: "nat \<Rightarrow> fsa_call \<Rightarrow> byte list \<Rightarrow> (byte list \<times> fsa_out) result" where
  "fsa_step fuel F_Alloc pool = bindE (FSAAlloc pool) (\<lambda>(pool', b). Inr (pool', F_Block b))"
| "fsa_step fuel (F_Free b) pool = bindE (FSAFree pool (Some b)) (\<lambda>pool'. Inr (pool', F_Done))"
| "fsa_step fuel F_Count pool = bindE (FSACountFree fuel pool) (\<lambda>k. Inr (pool, F_Num k))"
| "fsa_step fuel (F_Write b i bs) pool = bindE (write_bytes pool (b + i) bs) (\<lambda>pool'. Inr (pool', F_Done))"

fun fsa_spec :: "fsa_call \<Rightarrow> nat list \<Rightarrow> nat list \<times> fsa_out" where
  "fsa_spec F_Alloc fs = (case fs of [] \<Rightarrow> ([], F_Block None) | f # fs' \<Rightarrow> (fs', F_Block (Some f)))"
| "fsa_spec (F_Free b) fs = (b # fs, F_Done)"
| "fsa_spec F_Count fs = (fs, F_Num (length fs))"
| "fsa_spec (F_Write b i bs) fs = (fs, F_Done)"

text \<open>The client frees and writes only blocks it holds, and stays inside them.\<close>

fun fsa_ok :: "nat \<Rightarrow> nat \<Rightarrow> nat \<Rightarrow> fsa_call \<Rightarrow> byte list \<Rightarrow> nat list \<Rightarrow> bool" where
  "fsa_ok w n fuel (F_Free b) pool fs = (b \<in> blocks w n \<and> b \<notin> set fs)"
| "fsa_ok w n fuel (F_Write b i bs) pool fs = (b \<in> blocks w n \<and> b \<notin> set fs \<and> i + length bs \<le> w)"
| "fsa_ok w n fuel F_Count pool fs = (length fs < fuel)"
| "fsa_ok w n fuel F_Alloc pool fs = True"

interpretation fsa_refines: rel_refinement "fsa_rep w n" "fsa_step fuel" fsa_spec "fsa_ok w n fuel" for w n fuel
proof
  fix pool fs c
  assume rep: "fsa_rep w n pool fs" and ok: "fsa_ok w n fuel c pool fs"
  show "\<exists>s'. fsa_step fuel c pool = Inr (s', snd (fsa_spec c fs)) \<and> fsa_rep w n s' (fst (fsa_spec c fs))"
  proof (cases c)
    case F_Alloc
    then show ?thesis using rep FSAAlloc_empty FSAAlloc_ok by (cases fs) fastforce+
  next
    case (F_Free b)
    then obtain pool' where "FSAFree pool (Some b) = Inr pool'" "fsa_rep w n pool' (b # fs)"
      using FSAFree_ok [OF rep, of b] ok by auto
    with F_Free show ?thesis by auto
  next
    case F_Count
    then show ?thesis using FSACountFree_ok [OF rep] ok rep by auto
  next
    case (F_Write b i bs)
    then obtain pool' where "write_bytes pool (b + i) bs = Inr pool'" "fsa_rep w n pool' fs"
      using fsa_rep_write [OF rep, of b i bs] ok by auto
    with F_Write show ?thesis by auto
  qed
qed

end
