(* ===== verification/VSA.thy ===== *)
theory VSA
  imports Memory_Words
begin

text \<open>
  The variable size allocator of \<open>projects/vsa/src/vsa.c\<close>, in its debug build (headers carry a magic
  number). The memory is the list of its bytes and a pointer is an index into it; the pool is the part
  of it that \<open>VSAInit\<close> is given. Every block starts with a header of sixteen bytes: a \<open>long\<close>, positive
  for a free block and negative for a block in use, and the magic number. Blocks tile the pool; the
  refinement at the end is against the list of those blocks, a block in use carrying what its owner
  wrote into it.
\<close>

section \<open>The code\<close>

abbreviation (input) sizeof_header :: nat where "sizeof_header \<equiv> 16"
abbreviation (input) sizeof_vsa :: nat where "sizeof_vsa \<equiv> 8"
abbreviation (input) MIN_SPLIT_BYTES :: nat where "MIN_SPLIT_BYTES \<equiv> 24"

definition VSA_MAGIC_NUMBER :: nat where
  "VSA_MAGIC_NUMBER = 3735928559"

definition ALIGN_DOWN :: "nat \<Rightarrow> nat" where
  "ALIGN_DOWN x = x div WORD_SIZE * WORD_SIZE"

text \<open>The \<open>long\<close> a \<open>size_t\<close> is converted to, and computations on \<open>long\<close> that must stay in range.\<close>

definition to_long :: "nat \<Rightarrow> int" where
  "to_long v = (if v < 2 ^ 63 then int v else int v - 2 ^ 64)"

definition chk_long :: "int \<Rightarrow> int result" where
  "chk_long z = (if - (2 ^ 63) \<le> z \<and> z < 2 ^ 63 then Inr z else Inl Int_overflow)"

text \<open>The fields of a header: the size at offset 0 and the magic number at offset 8.\<close>

definition get_block_size :: "byte list \<Rightarrow> nat \<Rightarrow> int result" where
  "get_block_size mem h = bindE (load_word mem h) (\<lambda>v. Inr (to_long v))"

definition set_block_size :: "byte list \<Rightarrow> nat \<Rightarrow> int \<Rightarrow> byte list result" where
  "set_block_size mem h z = store_word mem h (nat (z mod 2 ^ 64))"

definition set_magic :: "byte list \<Rightarrow> nat \<Rightarrow> byte list result" where
  "set_magic mem h = store_word mem (h + 8) VSA_MAGIC_NUMBER"

definition VSAInit :: "byte list \<Rightarrow> nat \<Rightarrow> nat \<Rightarrow> (byte list \<times> nat option) result" where
  "VSAInit mem memory_pool total_size =
     (let vsa = ALIGN_UP memory_pool;
          alignment_offset = szsub vsa memory_pool
      in if total_size \<le> alignment_offset then Inr (mem, None)
         else let aligned_pool_size = ALIGN_DOWN (szsub total_size alignment_offset)
              in if aligned_pool_size < sizeof_vsa + sizeof_header + WORD_SIZE then Inr (mem, None)
                 else let first_block = vsa + sizeof_vsa;
                          available_space = szsub aligned_pool_size sizeof_vsa
                      in bindE (store_word mem vsa (szadd vsa aligned_pool_size)) (\<lambda>mem1.
                         bindE (set_block_size mem1 first_block (to_long (szsub available_space sizeof_header))) (\<lambda>mem2.
                         bindE (set_magic mem2 first_block) (\<lambda>mem3. Inr (mem3, Some vsa)))))"

definition FirstHdr :: "nat \<Rightarrow> nat" where
  "FirstHdr vsa = vsa + sizeof_vsa"

text \<open>\<open>ABS\<close> negates a \<open>long\<close>; addresses are computed modulo \<open>2 ^ 64\<close>, as the machine does.\<close>

definition NextHdr :: "byte list \<Rightarrow> nat \<Rightarrow> nat result" where
  "NextHdr mem h =
     bindE (get_block_size mem h) (\<lambda>z.
     bindE (chk_long (if z < 0 then - z else z)) (\<lambda>d. Inr (szadd (szadd h sizeof_header) (nat d))))"

definition InBounds :: "byte list \<Rightarrow> nat \<Rightarrow> nat \<Rightarrow> bool result" where
  "InBounds mem vsa p =
     bindE (load_word mem vsa) (\<lambda>end_pool. Inr (FirstHdr vsa \<le> p \<and> p < end_pool))"

definition CommitAlloc :: "byte list \<Rightarrow> nat \<Rightarrow> nat \<Rightarrow> nat \<Rightarrow> (byte list \<times> nat) result" where
  "CommitAlloc mem block run_total_bytes request_size =
     (let full_payload = szsub run_total_bytes sizeof_header
      in bindE (chk_long (to_long full_payload - to_long request_size)) (\<lambda>remaining.
         bindE (if int MIN_SPLIT_BYTES \<le> remaining
                then let new_free = szadd (szadd block sizeof_header) request_size
                     in bindE (chk_long (remaining - int sizeof_header)) (\<lambda>left.
                        bindE (set_block_size mem new_free left) (\<lambda>mem1.
                        bindE (set_magic mem1 new_free) (\<lambda>mem2.
                        bindE (chk_long (- to_long request_size)) (\<lambda>z. set_block_size mem2 block z))))
                else bindE (chk_long (- to_long full_payload)) (\<lambda>z. set_block_size mem block z)) (\<lambda>mem3.
         bindE (set_magic mem3 block) (\<lambda>mem4. Inr (mem4, block)))))"

primrec FindFitAndCommit_loop :: "nat \<Rightarrow> byte list \<Rightarrow> nat \<Rightarrow> nat \<Rightarrow> nat \<Rightarrow> nat \<Rightarrow> nat \<Rightarrow> (byte list \<times> nat option) result" where
  "FindFitAndCommit_loop 0 mem vsa request_size cur run_start run_total_bytes = Inl Out_of_fuel"
| "FindFitAndCommit_loop (Suc fuel) mem vsa request_size cur run_start run_total_bytes =
     bindE (InBounds mem vsa cur) (\<lambda>inside.
     if \<not> inside then Inr (mem, None)
     else bindE (get_block_size mem cur) (\<lambda>z.
          if z > 0
          then let part_total_bytes = szadd sizeof_header (nat z);
                   run_start' = (if 0 = run_total_bytes then cur else run_start);
                   run_total_bytes' = szadd run_total_bytes part_total_bytes
               in if szadd request_size MIN_SPLIT_BYTES \<le> run_total_bytes'
                  then bindE (CommitAlloc mem run_start' run_total_bytes' request_size) (\<lambda>(mem', b). Inr (mem', Some b))
                  else bindE (NextHdr mem cur) (\<lambda>nxt.
                       FindFitAndCommit_loop fuel mem vsa request_size nxt run_start' run_total_bytes')
          else bindE (NextHdr mem cur) (\<lambda>nxt. FindFitAndCommit_loop fuel mem vsa request_size nxt 0 0)))"

definition FindFitAndCommit :: "nat \<Rightarrow> byte list \<Rightarrow> nat \<Rightarrow> nat \<Rightarrow> (byte list \<times> nat option) result" where
  "FindFitAndCommit fuel mem vsa request_size = FindFitAndCommit_loop fuel mem vsa request_size (FirstHdr vsa) 0 0"

definition VSAAlloc :: "nat \<Rightarrow> byte list \<Rightarrow> nat \<Rightarrow> nat \<Rightarrow> (byte list \<times> nat option) result" where
  "VSAAlloc fuel mem vsa block_size =
     (let block_size' = ALIGN_UP block_size
      in if 0 = block_size' then Inr (mem, None)
         else bindE (FindFitAndCommit fuel mem vsa block_size') (\<lambda>(mem', block_allocated).
              Inr (mem', case block_allocated of None \<Rightarrow> None | Some b \<Rightarrow> Some (b + sizeof_header))))"

definition VSAFree :: "byte list \<Rightarrow> nat option \<Rightarrow> byte list result" where
  "VSAFree mem block =
     (case block of None \<Rightarrow> Inr mem
      | Some b \<Rightarrow>
          let header = szsub b sizeof_header
          in bindE (get_block_size mem header) (\<lambda>z.
             bindE (assertE (z < 0)) (\<lambda>_.
             bindE (load_word mem (header + 8)) (\<lambda>magic.
             bindE (assertE (magic = VSA_MAGIC_NUMBER)) (\<lambda>_.
             bindE (chk_long (- z)) (\<lambda>z'.
             bindE (set_block_size mem header z') (\<lambda>mem1. set_magic mem1 header)))))))"

primrec Defrag_merge :: "nat \<Rightarrow> byte list \<Rightarrow> nat \<Rightarrow> nat \<Rightarrow> nat \<Rightarrow> byte list result" where
  "Defrag_merge 0 mem vsa cur nxt = Inl Out_of_fuel"
| "Defrag_merge (Suc fuel) mem vsa cur nxt =
     bindE (InBounds mem vsa nxt) (\<lambda>inside.
     if \<not> inside then Inr mem
     else bindE (get_block_size mem nxt) (\<lambda>z.
          if \<not> z > 0 then Inr mem
          else bindE (get_block_size mem cur) (\<lambda>c.
               bindE (chk_long (int sizeof_header + z)) (\<lambda>d.
               bindE (chk_long (c + d)) (\<lambda>c'.
               bindE (set_block_size mem cur c') (\<lambda>mem1.
               bindE (NextHdr mem1 nxt) (\<lambda>nxt'. Defrag_merge fuel mem1 vsa cur nxt')))))))"

primrec Defrag_loop :: "nat \<Rightarrow> byte list \<Rightarrow> nat \<Rightarrow> nat \<Rightarrow> byte list result" where
  "Defrag_loop 0 mem vsa cur = Inl Out_of_fuel"
| "Defrag_loop (Suc fuel) mem vsa cur =
     bindE (InBounds mem vsa cur) (\<lambda>inside.
     if \<not> inside then Inr mem
     else bindE (get_block_size mem cur) (\<lambda>z.
          bindE (if z > 0 then bindE (NextHdr mem cur) (\<lambda>nxt. Defrag_merge fuel mem vsa cur nxt) else Inr mem) (\<lambda>mem1.
          bindE (NextHdr mem1 cur) (\<lambda>nxt. Defrag_loop fuel mem1 vsa nxt))))"

definition Defrag :: "nat \<Rightarrow> byte list \<Rightarrow> nat \<Rightarrow> byte list result" where
  "Defrag fuel mem vsa = Defrag_loop fuel mem vsa (FirstHdr vsa)"

primrec Largest_loop :: "nat \<Rightarrow> byte list \<Rightarrow> nat \<Rightarrow> nat \<Rightarrow> nat \<Rightarrow> nat result" where
  "Largest_loop 0 mem vsa cur largest = Inl Out_of_fuel"
| "Largest_loop (Suc fuel) mem vsa cur largest =
     bindE (InBounds mem vsa cur) (\<lambda>inside.
     if \<not> inside then Inr largest
     else bindE (get_block_size mem cur) (\<lambda>z.
          let largest' = (if z > 0 \<and> nat z > largest then nat z else largest)
          in bindE (NextHdr mem cur) (\<lambda>nxt. Largest_loop fuel mem vsa nxt largest')))"

definition VSALargestChunkAvailable :: "nat \<Rightarrow> byte list \<Rightarrow> nat \<Rightarrow> (byte list \<times> nat) result" where
  "VSALargestChunkAvailable fuel mem vsa =
     bindE (Defrag fuel mem vsa) (\<lambda>mem1.
     bindE (Largest_loop fuel mem1 vsa (FirstHdr vsa) 0) (\<lambda>largest. Inr (mem1, largest)))"

section \<open>Blocks tile the pool\<close>

text \<open>
  A block in use carries what its owner can rely on: the bytes written into it so far.
\<close>

datatype vblock = Free nat | Used "byte option list"

fun bsize :: "vblock \<Rightarrow> nat" where
  "bsize (Free n) = n"
| "bsize (Used c) = length c"

fun bval :: "vblock \<Rightarrow> int" where
  "bval (Free n) = int n"
| "bval (Used c) = - int (length c)"

fun is_free :: "vblock \<Rightarrow> bool" where
  "is_free (Free n) = True"
| "is_free (Used c) = False"

definition extent :: "vblock list \<Rightarrow> nat" where
  "extent bs = sum_list (map (\<lambda>b. 16 + bsize b) bs)"

fun holds :: "byte list \<Rightarrow> nat \<Rightarrow> vblock \<Rightarrow> bool" where
  "holds mem p (Free n) = True"
| "holds mem p (Used c) = (\<forall>i < length c. \<forall>x. c ! i = Some x \<longrightarrow> mem ! (p + i) = x)"

fun tiled :: "byte list \<Rightarrow> nat \<Rightarrow> vblock list \<Rightarrow> bool" where
  "tiled mem a [] = True"
| "tiled mem a (b # bs) =
     (get_block_size mem a = Inr (bval b) \<and> load_word mem (a + 8) = Inr VSA_MAGIC_NUMBER \<and>
      8 \<le> bsize b \<and> 8 dvd bsize b \<and> holds mem (a + 16) b \<and> tiled mem (a + 16 + bsize b) bs)"

definition vsa_rep :: "byte list \<Rightarrow> nat \<Rightarrow> vblock list \<Rightarrow> bool" where
  "vsa_rep mem vsa bs \<longleftrightarrow>
     load_word mem vsa = Inr (vsa + 8 + extent bs) \<and> vsa + 8 + extent bs \<le> length mem \<and> length mem < 2 ^ 63 \<and>
     8 dvd vsa \<and> tiled mem (vsa + 8) bs"

lemma extent_simps [simp]:
  "extent [] = 0" "extent (b # bs) = 16 + bsize b + extent bs" "extent (xs @ ys) = extent xs + extent ys"
  by (simp_all add: extent_def)

lemma tiled_append [simp]: "tiled mem a (xs @ ys) \<longleftrightarrow> tiled mem a xs \<and> tiled mem (a + extent xs) ys"
  by (induction xs arbitrary: a) (auto simp: add.assoc)

definition same_bytes :: "byte list \<Rightarrow> byte list \<Rightarrow> nat \<Rightarrow> nat \<Rightarrow> bool" where
  "same_bytes mem mem' lo hi \<longleftrightarrow> (\<forall>p. lo \<le> p \<longrightarrow> p < hi \<longrightarrow> mem' ! p = mem ! p)"

lemma same_bytes_mono: "same_bytes mem mem' lo hi \<Longrightarrow> lo \<le> lo' \<Longrightarrow> hi' \<le> hi \<Longrightarrow> same_bytes mem mem' lo' hi'"
  by (simp add: same_bytes_def)

lemma load_word_frame:
  "length mem' = length mem \<Longrightarrow> same_bytes mem mem' lo hi \<Longrightarrow> lo \<le> a \<Longrightarrow> a + 8 \<le> hi \<Longrightarrow> load_word mem' a = load_word mem a"
  by (intro load_word_same) (auto simp: same_bytes_def)

lemma get_block_size_frame:
  "length mem' = length mem \<Longrightarrow> same_bytes mem mem' lo hi \<Longrightarrow> lo \<le> a \<Longrightarrow> a + 8 \<le> hi \<Longrightarrow> get_block_size mem' a = get_block_size mem a"
  using load_word_frame [of mem' mem lo hi a] by (simp add: get_block_size_def)

lemma holds_frame: "same_bytes mem mem' p (p + bsize b) \<Longrightarrow> holds mem p b \<Longrightarrow> holds mem' p b"
  by (cases b) (auto simp: same_bytes_def)

lemma tiled_frame:
  "tiled mem a bs \<Longrightarrow> length mem' = length mem \<Longrightarrow> same_bytes mem mem' a (a + extent bs) \<Longrightarrow> tiled mem' a bs"
proof (induction bs arbitrary: a)
  case (Cons b bs)
  note frame = Cons.prems(2,3)
  have "get_block_size mem' a = get_block_size mem a" by (rule get_block_size_frame [OF frame]) simp_all
  moreover have "load_word mem' (a + 8) = load_word mem (a + 8)" by (rule load_word_frame [OF frame]) simp_all
  moreover have "holds mem' (a + 16) b"
    by (rule holds_frame [OF same_bytes_mono [OF frame(2)]]) (use Cons.prems(1) in simp_all)
  moreover have "tiled mem' (a + 16 + bsize b) bs"
    by (rule Cons.IH [OF _ frame(1) same_bytes_mono [OF frame(2)]]) (use Cons.prems(1) in simp_all)
  ultimately show ?case using Cons.prems(1) by simp
qed simp

text \<open>Rewriting the blocks in the middle of the pool.\<close>

lemma vsa_rep_update:
  assumes rep: "vsa_rep mem vsa (pre @ mid @ post)" and len: "length mem' = length mem"
    and same: "same_bytes mem mem' 0 (vsa + 8 + extent pre)"
      "same_bytes mem mem' (vsa + 8 + extent pre + extent mid) (length mem)"
    and new: "tiled mem' (vsa + 8 + extent pre) mid'" "extent mid' = extent mid"
  shows "vsa_rep mem' vsa (pre @ mid' @ post)"
proof -
  have "load_word mem' vsa = load_word mem vsa"
    by (rule load_word_frame [OF len same(1)]) simp_all
  moreover have "tiled mem' (vsa + 8) pre"
    by (rule tiled_frame [OF _ len same_bytes_mono [OF same(1)]]) (use rep in \<open>simp_all add: vsa_rep_def\<close>)
  moreover have "tiled mem' (vsa + 8 + extent pre + extent mid) post"
    by (rule tiled_frame [OF _ len same_bytes_mono [OF same(2)]]) (use rep in \<open>simp_all add: vsa_rep_def add.assoc\<close>)
  ultimately show ?thesis using rep len new by (simp add: vsa_rep_def add.assoc)
qed

section \<open>Headers\<close>

lemma same_bytes_refl [simp]: "same_bytes mem mem lo hi"
  by (simp add: same_bytes_def)

lemma same_bytes_trans: "same_bytes m1 m2 lo hi \<Longrightarrow> same_bytes m2 m3 lo hi \<Longrightarrow> same_bytes m1 m3 lo hi"
  by (simp add: same_bytes_def)

lemma to_long_wrap: "- (2 ^ 63) \<le> z \<Longrightarrow> z < 2 ^ 63 \<Longrightarrow> to_long (nat (z mod 2 ^ 64)) = z"
proof (cases "0 \<le> z")
  case False
  assume lo: "- (2 ^ 63) \<le> z"
  have "(z + 2 ^ 64) mod 2 ^ 64 = z + 2 ^ 64" using False lo by (intro mod_pos_pos_trivial) simp_all
  then have "z mod 2 ^ 64 = z + 2 ^ 64" by simp
  then show ?thesis using False lo by (simp add: to_long_def nat_less_iff)
qed (simp add: to_long_def nat_less_iff)

lemma to_long_small [simp]: "n < 2 ^ 63 \<Longrightarrow> to_long n = int n"
  by (simp add: to_long_def)

lemma chk_long_ok [simp]: "- (2 ^ 63) \<le> z \<Longrightarrow> z < 2 ^ 63 \<Longrightarrow> chk_long z = Inr z"
  by (simp add: chk_long_def)

lemma store_word_same:
  assumes "off + 8 \<le> length mem" "v < 2 ^ 64"
  shows "\<exists>mem'. store_word mem off v = Inr mem' \<and> length mem' = length mem \<and> load_word mem' off = Inr v \<and>
    same_bytes mem mem' 0 off \<and> same_bytes mem mem' (off + 8) (length mem)"
proof -
  obtain mem' where "store_word mem off v = Inr mem'" "length mem' = length mem" "load_word mem' off = Inr v"
    "\<forall>p < length mem. p < off \<or> off + 8 \<le> p \<longrightarrow> mem' ! p = mem ! p" using store_word_ok [OF assms] by blast
  moreover have "same_bytes mem mem' 0 off" "same_bytes mem mem' (off + 8) (length mem)"
    using calculation(4) assms(1) by (simp_all add: same_bytes_def)
  ultimately show ?thesis by blast
qed

lemma set_block_size_ok:
  assumes "h + 8 \<le> length mem" "- (2 ^ 63) \<le> z" "z < 2 ^ 63"
  shows "\<exists>mem'. set_block_size mem h z = Inr mem' \<and> length mem' = length mem \<and> get_block_size mem' h = Inr z \<and>
    same_bytes mem mem' 0 h \<and> same_bytes mem mem' (h + 8) (length mem)"
proof -
  have "nat (z mod 2 ^ 64) < 2 ^ 64" by (simp add: nat_less_iff)
  from store_word_same [OF assms(1) this] show ?thesis
    using to_long_wrap [OF assms(2,3)] by (auto simp: set_block_size_def get_block_size_def)
qed

text \<open>A whole header, size first.\<close>

lemma set_header_ok:
  assumes h: "h + 16 \<le> length mem" and z: "- (2 ^ 63) \<le> z" "z < 2 ^ 63"
  shows "\<exists>mem1 mem2. set_block_size mem h z = Inr mem1 \<and> set_magic mem1 h = Inr mem2 \<and> length mem1 = length mem \<and> length mem2 = length mem \<and>
    get_block_size mem2 h = Inr z \<and> load_word mem2 (h + 8) = Inr VSA_MAGIC_NUMBER \<and>
    same_bytes mem mem2 0 h \<and> same_bytes mem mem2 (h + 16) (length mem)"
proof -
  have h8: "h + 8 \<le> length mem" using h by simp
  obtain mem1 where m1: "set_block_size mem h z = Inr mem1" "length mem1 = length mem" "get_block_size mem1 h = Inr z"
    "same_bytes mem mem1 0 h" "same_bytes mem mem1 (h + 8) (length mem)" using set_block_size_ok [OF h8 z] by blast
  have room: "h + 8 + 8 \<le> length mem1" "VSA_MAGIC_NUMBER < 2 ^ 64" using h m1(2) by (simp_all add: VSA_MAGIC_NUMBER_def)
  obtain mem2 where m2: "set_magic mem1 h = Inr mem2" "length mem2 = length mem1" "load_word mem2 (h + 8) = Inr VSA_MAGIC_NUMBER"
    "same_bytes mem1 mem2 0 (h + 8)" "same_bytes mem1 mem2 (h + 8 + 8) (length mem1)"
    using store_word_same [OF room] unfolding set_magic_def by blast
  have "get_block_size mem2 h = get_block_size mem1 h" using m2(2,4) by (rule get_block_size_frame) simp_all
  moreover have "same_bytes mem mem2 0 h" using m1(4) m2(4) by (auto simp: same_bytes_def)
  moreover have "same_bytes mem mem2 (h + 16) (length mem)" using m1(2,5) m2(5) by (auto simp: same_bytes_def)
  ultimately show ?thesis using m1(1,2,3) m2(1,2,3) by auto
qed

lemma VSA_rep_parts:
  assumes "vsa_rep mem vsa (pre @ b # post)"
  shows "get_block_size mem (vsa + 8 + extent pre) = Inr (bval b)" "load_word mem (vsa + 8 + extent pre + 8) = Inr VSA_MAGIC_NUMBER"
    "8 \<le> bsize b" "8 dvd bsize b" "holds mem (vsa + 8 + extent pre + 16) b"
    "vsa + 8 + extent pre + 16 + bsize b + extent post \<le> length mem" "length mem < 2 ^ 63"
  using assms by (simp_all add: vsa_rep_def add.assoc)

lemma bval_abs [simp]: "\<bar>bval b\<bar> = int (bsize b)" "(0 < bval b) = (is_free b \<and> 0 < bsize b)"
  by (cases b; simp)+

lemma NextHdr_at:
  assumes rep: "vsa_rep mem vsa (pre @ b # post)"
  shows "NextHdr mem (vsa + 8 + extent pre) = Inr (vsa + 8 + extent (pre @ [b]))"
proof -
  note parts = VSA_rep_parts [OF rep]
  have "(if bval b < 0 then - bval b else bval b) = int (bsize b)" by (cases b) auto
  moreover have "chk_long (int (bsize b)) = Inr (int (bsize b))" using parts(6,7) by (intro chk_long_ok) simp_all
  moreover have "szadd (vsa + 8 + extent pre) 16 = vsa + 8 + extent pre + 16" using parts(6,7) by (intro szadd_small) simp
  moreover have "szadd (vsa + 8 + extent pre + 16) (bsize b) = vsa + 8 + extent pre + 16 + bsize b"
    using parts(6,7) by (intro szadd_small) simp
  ultimately show ?thesis using parts(1) by (simp add: NextHdr_def)
qed

lemma InBounds_at:
  assumes rep: "vsa_rep mem vsa (pre @ rest)"
  shows "InBounds mem vsa (vsa + 8 + extent pre) = Inr (rest \<noteq> [])"
  using rep by (cases rest) (simp_all add: InBounds_def FirstHdr_def vsa_rep_def)

section \<open>Allocation\<close>

definition commit :: "nat \<Rightarrow> nat \<Rightarrow> vblock list" where
  "commit need all =
     (if need + 40 \<le> all then [Used (replicate need None), Free (all - 32 - need)]
      else [Used (replicate (all - 16) None)])"

lemma extent_commit: "need + 24 \<le> all \<Longrightarrow> extent (commit need all) = all"
  by (auto simp: commit_def)

lemma CommitAlloc_split:
  assumes room: "s + all \<le> length mem" "length mem < 2 ^ 63" and need: "8 \<le> need" "8 dvd need" "need + 40 \<le> all" and div8: "8 dvd all"
  shows "\<exists>mem'. CommitAlloc mem s all need = Inr (mem', s) \<and> tiled mem' s (commit need all) \<and> length mem' = length mem \<and>
    same_bytes mem mem' 0 s \<and> same_bytes mem mem' (s + all) (length mem)"
proof -
  let ?n = "s + 16 + need"
  have "?n + 16 \<le> length mem" "- (2 ^ 63) \<le> int all - 32 - int need" "int all - 32 - int need < 2 ^ 63" using need(3) room by simp_all
  then obtain mem1 mem2 where m: "set_block_size mem ?n (int all - 32 - int need) = Inr mem1" "set_magic mem1 ?n = Inr mem2"
    "length mem2 = length mem" "get_block_size mem2 ?n = Inr (int all - 32 - int need)" "load_word mem2 (?n + 8) = Inr VSA_MAGIC_NUMBER"
    "same_bytes mem mem2 0 ?n" "same_bytes mem mem2 (?n + 16) (length mem)" using set_header_ok by blast
  have "s + 16 \<le> length mem2" "- (2 ^ 63) \<le> - int need" "- int need < 2 ^ 63" using room m(3) need(1,3) by simp_all
  from set_header_ok [OF this] obtain mem3 mem4 where m': "set_block_size mem2 s (- int need) = Inr mem3" "set_magic mem3 s = Inr mem4"
    "length mem4 = length mem2" "get_block_size mem4 s = Inr (- int need)" "load_word mem4 (s + 8) = Inr VSA_MAGIC_NUMBER"
    "same_bytes mem2 mem4 0 s" "same_bytes mem2 mem4 (s + 16) (length mem2)" by blast
  have keep: "same_bytes mem2 mem4 ?n (length mem)" using m'(7) m(3) by (auto intro: same_bytes_mono)
  have "get_block_size mem4 ?n = get_block_size mem2 ?n" "load_word mem4 (?n + 8) = load_word mem2 (?n + 8)"
    using get_block_size_frame [OF m'(3) keep] load_word_frame [OF m'(3) keep] need(3) room by simp_all
  moreover have "8 dvd all - 32 - need" using div8 need by (intro dvd_diff_nat) simp_all
  ultimately have "tiled mem4 s (commit need all)"
    using m(4,5) m'(4,5) need by (simp add: commit_def of_nat_diff ac_simps)
  moreover have "szsub all 16 = all - 16" "to_long (all - 16) = int all - 16" "to_long need = int need"
    using need(3) room by (auto simp: of_nat_diff)
  moreover have "szadd (szadd s 16) need = ?n" using need(3) room by (simp add: szadd_def)
  moreover have "chk_long (int all - 16 - int need) = Inr (int all - 16 - int need)"
    "chk_long (int all - 16 - int need - 16) = Inr (int all - 32 - int need)" "chk_long (- int need) = Inr (- int need)"
    using need(3) room by (simp_all add: chk_long_def)
  moreover have "same_bytes mem mem4 0 s" "same_bytes mem mem4 (s + all) (length mem)"
    using m(3,6,7) m'(6,7) need(3) by (auto simp: same_bytes_def)
  ultimately show ?thesis using m(1-3) m'(1-3) need(3) by (simp add: CommitAlloc_def Let_def)
qed

lemma CommitAlloc_whole:
  assumes room: "s + all \<le> length mem" "length mem < 2 ^ 63" and need: "8 \<le> need" "need + 24 \<le> all" "\<not> need + 40 \<le> all" and div8: "8 dvd all"
  shows "\<exists>mem'. CommitAlloc mem s all need = Inr (mem', s) \<and> tiled mem' s (commit need all) \<and> length mem' = length mem \<and>
    same_bytes mem mem' 0 s \<and> same_bytes mem mem' (s + all) (length mem)"
proof -
  have "s + 16 \<le> length mem" "- (2 ^ 63) \<le> - (int all - 16)" "- (int all - 16) < 2 ^ 63" using room need by simp_all
  from set_header_ok [OF this] obtain mem1 mem2 where m: "set_block_size mem s (- (int all - 16)) = Inr mem1" "set_magic mem1 s = Inr mem2"
    "length mem2 = length mem" "get_block_size mem2 s = Inr (- (int all - 16))" "load_word mem2 (s + 8) = Inr VSA_MAGIC_NUMBER"
    "same_bytes mem mem2 0 s" "same_bytes mem mem2 (s + 16) (length mem)" by blast
  have "8 dvd all - 16" using div8 by (intro dvd_diff_nat) simp_all
  then have "tiled mem2 s (commit need all)" using m(4,5) need by (simp add: commit_def of_nat_diff)
  moreover have "szsub all 16 = all - 16" "to_long (all - 16) = int all - 16" "to_long need = int need"
    using need room by (auto simp: of_nat_diff)
  moreover have "chk_long (int all - 16 - int need) = Inr (int all - 16 - int need)" "chk_long (- (int all - 16)) = Inr (- (int all - 16))"
    using need room by (simp_all add: chk_long_def)
  moreover have "same_bytes mem mem2 (s + all) (length mem)" using need by (auto intro: same_bytes_mono [OF m(7)])
  ultimately show ?thesis using m(1-3,6) need(3) by (simp add: CommitAlloc_def Let_def)
qed

lemma CommitAlloc_ok:
  assumes rep: "vsa_rep mem vsa (pre @ run @ post)" and need: "8 \<le> need" "8 dvd need" "need + 24 \<le> extent run"
    and div8: "8 dvd extent run"
  shows "\<exists>mem'. CommitAlloc mem (vsa + 8 + extent pre) (extent run) need = Inr (mem', vsa + 8 + extent pre) \<and>
    vsa_rep mem' vsa (pre @ commit need (extent run) @ post) \<and> length mem' = length mem \<and>
    same_bytes mem mem' 0 (vsa + 8 + extent pre) \<and> same_bytes mem mem' (vsa + 8 + extent pre + extent run) (length mem)"
proof -
  let ?s = "vsa + 8 + extent pre" and ?t = "extent run"
  have room: "?s + ?t \<le> length mem" "length mem < 2 ^ 63" using rep by (auto simp: vsa_rep_def)
  obtain mem' where m: "CommitAlloc mem ?s ?t need = Inr (mem', ?s)" "tiled mem' ?s (commit need ?t)" "length mem' = length mem"
    "same_bytes mem mem' 0 ?s" "same_bytes mem mem' (?s + ?t) (length mem)"
    using CommitAlloc_split [OF room need(1,2) _ div8] CommitAlloc_whole [OF room need(1,3) _ div8] by (cases "need + 40 \<le> ?t") blast+
  from vsa_rep_update [OF rep m(3-5,2) extent_commit [OF need(3)]] m show ?thesis by blast
qed

text \<open>The first run of neighbouring free blocks that is large enough, with what is before and after it.\<close>

primrec vs_fit :: "nat \<Rightarrow> vblock list \<Rightarrow> vblock list \<Rightarrow> vblock list \<Rightarrow> (vblock list \<times> vblock list \<times> vblock list) option" where
  "vs_fit need pre run [] = None"
| "vs_fit need pre run (b # bs) =
     (if is_free b
      then if need + 24 \<le> extent (run @ [b]) then Some (pre, run @ [b], bs) else vs_fit need pre (run @ [b]) bs
      else vs_fit need (pre @ run @ [b]) [] bs)"

lemma vs_fit_Some:
  assumes "vs_fit need pre run bs = Some (p, r, q)" "\<forall>b \<in> set run. is_free b"
  shows "pre @ run @ bs = p @ r @ q \<and> (\<forall>b \<in> set r. is_free b) \<and> need + 24 \<le> extent r"
  using assms
proof (induction bs arbitrary: pre run)
  case (Cons b bs)
  then show ?case
  proof (cases "is_free b \<and> \<not> need + 24 \<le> extent (run @ [b])")
    case True
    then show ?thesis using Cons.IH [of pre "run @ [b]"] Cons.prems by auto
  next
    case False
    then show ?thesis using Cons.IH [of "pre @ run @ [b]" "[]"] Cons.prems by (auto split: if_splits)
  qed
qed simp

lemma run_beside:
  assumes "run @ b # bs = p @ r @ q" "b \<notin> set r"
  shows "(\<exists>q1. run = p @ r @ q1) \<or> (\<exists>p1. bs = p1 @ r @ q)"
proof -
  have "length p + length r \<le> length run \<or> length run < length p"
  proof (rule ccontr)
    assume "\<not> ?thesis"
    then have k: "length p \<le> length run" "length run - length p < length r" by auto
    have "(run @ b # bs) ! length run = b" by simp
    moreover have "(p @ r @ q) ! length run = r ! (length run - length p)" using k by (simp add: nth_append)
    ultimately show False using assms k(2) by (metis nth_mem)
  qed
  then show ?thesis
  proof
    assume "length p + length r \<le> length run"
    then have "take (length p + length r) (p @ r @ q) = take (length p + length r) run" using assms(1) [symmetric] by simp
    then have "p @ r = take (length p + length r) run" by simp
    then show ?thesis by (metis append.assoc append_take_drop_id)
  next
    assume "length run < length p"
    then have "drop (Suc (length run)) (p @ r @ q) = drop (Suc (length run)) p @ r @ q" by simp
    moreover have "drop (Suc (length run)) (run @ b # bs) = bs" by simp
    ultimately show ?thesis using assms(1) by metis
  qed
qed

lemma vs_fit_None:
  assumes "vs_fit need pre run bs = None" "extent run < need + 24" "run @ bs = p @ r @ q" "\<forall>b \<in> set r. is_free b"
  shows "extent r < need + 24"
  using assms
proof (induction bs arbitrary: pre run p)
  case Nil
  then show ?case by auto
next
  case (Cons b bs)
  show ?case
  proof (cases "is_free b")
    case True
    then show ?thesis using Cons.IH [of pre "run @ [b]" p] Cons.prems by (auto split: if_splits)
  next
    case False
    with Cons.prems(4) have "b \<notin> set r" by auto
    from run_beside [OF Cons.prems(3) this] show ?thesis
    proof
      assume "\<exists>q1. run = p @ r @ q1"
      then show ?thesis using Cons.prems(2) by auto
    next
      assume "\<exists>p1. bs = p1 @ r @ q"
      then show ?thesis using Cons.IH [of "pre @ run @ [b]" "[]"] Cons.prems(1,4) False by auto
    qed
  qed
qed

lemma FindFit_loop_eq:
  assumes "vsa_rep mem vsa (pre @ run @ rest)" "extent run < need + 24" "length rest < fuel" "need < 2 ^ 63"
    "run \<noteq> [] \<Longrightarrow> rs = vsa + 8 + extent pre"
  shows "FindFitAndCommit_loop fuel mem vsa need (vsa + 8 + extent (pre @ run)) rs (extent run) =
    (case vs_fit need pre run rest of None \<Rightarrow> Inr (mem, None)
     | Some (p, r, q) \<Rightarrow> bindE (CommitAlloc mem (vsa + 8 + extent p) (extent r) need) (\<lambda>(mem', b). Inr (mem', Some b)))"
  using assms
proof (induction rest arbitrary: pre run rs fuel)
  case Nil
  then obtain f where "fuel = Suc f" by (cases fuel) auto
  moreover have "InBounds mem vsa (vsa + 8 + extent (pre @ run)) = Inr False"
    using InBounds_at [of mem vsa "pre @ run" "[]"] Nil.prems(1) by simp
  ultimately show ?case by simp
next
  case (Cons b rest)
  obtain f where f: "fuel = Suc f" "length rest < f" using Cons.prems(3) by (cases fuel) auto
  have rep: "vsa_rep mem vsa ((pre @ run) @ b # rest)" using Cons.prems(1) by simp
  note parts = VSA_rep_parts [OF rep] and inb = InBounds_at [OF rep] and nxt = NextHdr_at [OF rep]
  have small: "szadd need 24 = need + 24" using Cons.prems(4) by (intro szadd_small) simp
  show ?case
  proof (cases "is_free b")
    case True
    then obtain n where b: "b = Free n" by (cases b) auto
    have tot: "szadd (extent run) (szadd 16 (nat (bval b))) = extent (run @ [b])"
      using parts(6,7) b by (simp add: szadd_def)
    have start: "(if 0 = extent run then vsa + 8 + extent (pre @ run) else rs) = vsa + 8 + extent pre"
      using Cons.prems(5) by (cases run) auto
    have pos: "0 < bval b" using parts(3) True by simp
    have "FindFitAndCommit_loop fuel mem vsa need (vsa + 8 + extent (pre @ run)) rs (extent run) =
      (if need + 24 \<le> extent (run @ [b])
       then bindE (CommitAlloc mem (vsa + 8 + extent pre) (extent (run @ [b])) need) (\<lambda>(mem', b). Inr (mem', Some b))
       else FindFitAndCommit_loop f mem vsa need (vsa + 8 + extent ((pre @ run) @ [b])) (vsa + 8 + extent pre) (extent (run @ [b])))"
      unfolding f(1) FindFitAndCommit_loop.simps(2) inb parts(1) nxt bindE_simps Let_def tot start small using pos by simp
    then show ?thesis
      using Cons.IH [of pre "run @ [b]" f "vsa + 8 + extent pre"] Cons.prems(1,4) f True by simp
  next
    case False
    then obtain c where b: "b = Used c" by (cases b) auto
    show ?thesis
      using Cons.IH [of "pre @ run @ [b]" "[]" f 0] Cons.prems(1,4) f b parts(1) inb nxt by simp
  qed
qed

lemma extent_dvd: "tiled mem a bs \<Longrightarrow> 8 dvd extent bs"
  by (induction bs arbitrary: a) (auto intro!: dvd_add)

definition vs_alloc :: "nat \<Rightarrow> nat \<Rightarrow> vblock list \<Rightarrow> vblock list \<times> nat option" where
  "vs_alloc a n bs =
     (if n = 0 then (bs, None)
      else case vs_fit (ALIGN_UP n) [] [] bs of None \<Rightarrow> (bs, None)
           | Some (p, r, q) \<Rightarrow> (p @ commit (ALIGN_UP n) (extent r) @ q, Some (a + extent p + 16)))"

lemma VSAAlloc_ok:
  assumes rep: "vsa_rep mem vsa bs" and n: "n + 7 < 2 ^ 63" and fuel: "length bs < fuel"
  shows "\<exists>mem'. VSAAlloc fuel mem vsa n = Inr (mem', snd (vs_alloc (vsa + 8) n bs)) \<and>
    vsa_rep mem' vsa (fst (vs_alloc (vsa + 8) n bs)) \<and> length mem' = length mem \<and>
    same_bytes mem mem' 0 (vsa + 8) \<and> same_bytes mem mem' (vsa + 8 + extent bs) (length mem)"
proof (cases "n = 0")
  case True
  then show ?thesis using rep by (auto simp: VSAAlloc_def vs_alloc_def ALIGN_UP_def szadd_def)
next
  case False
  let ?w = "ALIGN_UP n"
  have w: "?w < n + 8" "8 dvd ?w" "8 \<le> ?w" using ALIGN_UP_ok [of n] False n by auto
  then have w63: "?w < 2 ^ 63" using n by simp
  have loop: "FindFitAndCommit fuel mem vsa ?w =
    (case vs_fit ?w [] [] bs of None \<Rightarrow> Inr (mem, None)
     | Some (p, r, q) \<Rightarrow> bindE (CommitAlloc mem (vsa + 8 + extent p) (extent r) ?w) (\<lambda>(mem', b). Inr (mem', Some b)))"
    using FindFit_loop_eq [of mem vsa "[]" "[]" bs ?w fuel 0] rep fuel w63 by (simp add: FindFitAndCommit_def FirstHdr_def)
  show ?thesis
  proof (cases "vs_fit ?w [] [] bs")
    case None
    then show ?thesis using loop rep False w(3) by (simp add: VSAAlloc_def vs_alloc_def)
  next
    case (Some t)
    obtain p r q where t: "t = (p, r, q)" by (cases t)
    have fit: "bs = p @ r @ q" "?w + 24 \<le> extent r" using vs_fit_Some [of ?w "[]" "[]" bs p r q] Some t by auto
    have "8 dvd extent r" using rep fit(1) by (auto simp: vsa_rep_def dest: extent_dvd)
    then obtain mem' where "CommitAlloc mem (vsa + 8 + extent p) (extent r) ?w = Inr (mem', vsa + 8 + extent p)"
      "vsa_rep mem' vsa (p @ commit ?w (extent r) @ q)" "length mem' = length mem"
      "same_bytes mem mem' 0 (vsa + 8 + extent p)" "same_bytes mem mem' (vsa + 8 + extent p + extent r) (length mem)"
      using CommitAlloc_ok [of mem vsa p r q ?w] rep fit w by auto
    moreover from this have "same_bytes mem mem' 0 (vsa + 8)" "same_bytes mem mem' (vsa + 8 + extent bs) (length mem)"
      using fit(1) by (simp_all add: same_bytes_def)
    ultimately show ?thesis using loop Some t False w(3) by (simp add: VSAAlloc_def vs_alloc_def)
  qed
qed

section \<open>Initialisation and release\<close>

lemma ALIGN_DOWN_ok: "ALIGN_DOWN x \<le> x" "8 dvd ALIGN_DOWN x" "x < ALIGN_DOWN x + 8"
proof -
  have "x div 8 * 8 + x mod 8 = x" "x mod 8 < 8" by simp_all
  then show "ALIGN_DOWN x \<le> x" "x < ALIGN_DOWN x + 8" unfolding ALIGN_DOWN_def by linarith+
qed (simp add: ALIGN_DOWN_def)

lemma VSAInit_small:
  assumes "0 < pool" "pool + len \<le> length mem" "length mem < 2 ^ 63" "pool + len < ALIGN_UP pool + 32"
  shows "VSAInit mem pool len = Inr (mem, None)"
proof -
  have al: "pool \<le> ALIGN_UP pool" using ALIGN_UP_ok [of pool] assms by auto
  have "ALIGN_DOWN (len - (ALIGN_UP pool - pool)) < 32"
    using ALIGN_DOWN_ok(1) [of "len - (ALIGN_UP pool - pool)"] assms(4) al by linarith
  then show ?thesis using al by (simp add: VSAInit_def Let_def)
qed

lemma VSAInit_ok:
  assumes pool: "0 < pool" "pool + len \<le> length mem" "length mem < 2 ^ 63" "ALIGN_UP pool + 32 \<le> pool + len"
  shows "\<exists>mem'. VSAInit mem pool len = Inr (mem', Some (ALIGN_UP pool)) \<and>
    vsa_rep mem' (ALIGN_UP pool) [Free (ALIGN_DOWN (len - (ALIGN_UP pool - pool)) - 24)] \<and> length mem' = length mem \<and>
    same_bytes mem mem' 0 pool \<and> same_bytes mem mem' (pool + len) (length mem)"
proof -
  let ?v = "ALIGN_UP pool"
  define sz where "sz = ALIGN_DOWN (len - (?v - pool))"
  have v: "pool \<le> ?v" "8 dvd ?v" using ALIGN_UP_ok [of pool] pool by auto
  have "(32 :: nat) = 4 * 8" by simp
  have sz: "?v + sz \<le> pool + len" "8 dvd sz" "pool + len < ?v + sz + 8"
    using ALIGN_DOWN_ok [of "len - (?v - pool)"] pool(4) v(1) by (auto simp: sz_def)
  have "24 < sz" using sz(3) pool(4) by linarith
  with sz(2) have sz32: "32 \<le> sz" by (auto elim!: dvdE)
  have end_ok: "?v + 8 \<le> length mem" "?v + sz < 2 ^ 64" "szadd ?v sz = ?v + sz"
    using sz(1) sz32 pool by (auto intro!: szadd_small)
  obtain m1 where m1: "store_word mem ?v (?v + sz) = Inr m1" "length m1 = length mem" "load_word m1 ?v = Inr (?v + sz)"
    "same_bytes mem m1 0 ?v" "same_bytes mem m1 (?v + 8) (length mem)" using store_word_same [OF end_ok(1,2)] by blast
  have "?v + 8 + 16 \<le> length m1" "- (2 ^ 63) \<le> int (sz - 24)" "int (sz - 24) < 2 ^ 63" using sz(1) sz32 pool m1(2) by auto
  from set_header_ok [OF this] obtain m2 m3 where m3: "set_block_size m1 (?v + 8) (int (sz - 24)) = Inr m2" "set_magic m2 (?v + 8) = Inr m3"
    "length m3 = length m1" "get_block_size m3 (?v + 8) = Inr (int (sz - 24))" "load_word m3 (?v + 8 + 8) = Inr VSA_MAGIC_NUMBER"
    "same_bytes m1 m3 0 (?v + 8)" "same_bytes m1 m3 (?v + 8 + 16) (length m1)" by blast
  have "load_word m3 ?v = load_word m1 ?v" by (rule load_word_frame [OF m3(3,6)]) simp_all
  moreover have "8 dvd sz - 24" using sz(2) by (intro dvd_diff_nat) simp_all
  ultimately have rep: "vsa_rep m3 ?v [Free (sz - 24)]"
    using m1(2,3) m3(3-5) sz32 sz(1) pool v(2) by (simp add: vsa_rep_def)
  have conv: "to_long (szsub (szsub sz 8) 16) = int (sz - 24)" "szsub ?v pool = ?v - pool" "szsub len (?v - pool) = len - (?v - pool)"
    using sz(1) sz32 pool v(1) by auto
  have "VSAInit mem pool len = Inr (m3, Some ?v)"
    unfolding VSAInit_def Let_def conv(2,3) sz_def [symmetric] conv(1) using m1(1) m3(1,2) end_ok(3) sz32 pool(4) v(1) by simp
  moreover have "same_bytes mem m3 0 pool" "same_bytes mem m3 (pool + len) (length mem)"
    using m1(2,4,5) m3(6,7) v(1) sz(1) sz32 by (auto simp: same_bytes_def)
  ultimately show ?thesis using rep m1(2) m3(3) unfolding sz_def by auto
qed

lemma VSAFree_ok:
  assumes rep: "vsa_rep mem vsa (pre @ Used c # post)"
  shows "\<exists>mem'. VSAFree mem (Some (vsa + 8 + extent pre + 16)) = Inr mem' \<and> vsa_rep mem' vsa (pre @ Free (length c) # post) \<and>
    length mem' = length mem \<and> same_bytes mem mem' 0 (vsa + 8 + extent pre) \<and> same_bytes mem mem' (vsa + 8 + extent pre + 16) (length mem)"
proof -
  let ?s = "vsa + 8 + extent pre"
  note parts = VSA_rep_parts [OF rep]
  have z: "?s + 16 \<le> length mem" "- (2 ^ 63) \<le> int (length c)" "int (length c) < 2 ^ 63" using parts(6,7) by auto
  from set_header_ok [OF this] obtain m1 m2 where m: "set_block_size mem ?s (int (length c)) = Inr m1" "set_magic m1 ?s = Inr m2"
    "length m2 = length mem" "get_block_size m2 ?s = Inr (int (length c))" "load_word m2 (?s + 8) = Inr VSA_MAGIC_NUMBER"
    "same_bytes mem m2 0 ?s" "same_bytes mem m2 (?s + 16) (length mem)" by blast
  have "tiled m2 ?s [Free (length c)]" using m(4,5) parts(3,4) by simp
  moreover have "same_bytes mem m2 (?s + extent [Used c]) (length mem)" using m(7) by (rule same_bytes_mono) simp_all
  ultimately have "vsa_rep m2 vsa (pre @ [Free (length c)] @ post)"
    using vsa_rep_update [of mem vsa pre "[Used c]" post m2 "[Free (length c)]"] rep m(3,6) by simp
  moreover have ne: "c \<noteq> []" using parts(3) by auto
  have hdr: "szsub (?s + 16) 16 = ?s" by (simp only: szsub_le le_add2 add_diff_cancel_right')
  have "VSAFree mem (Some (?s + 16)) = Inr m2"
    unfolding VSAFree_def Let_def option.case hdr using parts(1,2) ne m(1,2) chk_long_ok [OF z(2,3)] by simp
  ultimately show ?thesis using m(3,6,7) by auto
qed

section \<open>Coalescing\<close>

fun vs_defrag :: "vblock list \<Rightarrow> vblock list" where
  "vs_defrag [] = []"
| "vs_defrag (Used c # bs) = Used c # vs_defrag bs"
| "vs_defrag (Free n # bs) = (case vs_defrag bs of Free m # r \<Rightarrow> Free (n + 16 + m) # r | r \<Rightarrow> Free n # r)"

fun vs_merge :: "nat \<Rightarrow> vblock list \<Rightarrow> nat \<times> vblock list" where
  "vs_merge n (Free m # bs) = vs_merge (n + 16 + m) bs"
| "vs_merge n bs = (n, bs)"

lemma vs_merge_defrag: "vs_merge n bs = (n', r) \<Longrightarrow> vs_defrag (Free n # bs) = Free n' # vs_defrag r \<and> length r \<le> length bs"
proof (induction n bs arbitrary: n' r rule: vs_merge.induct)
  case (1 n m bs)
  then have "vs_defrag (Free (n + 16 + m) # bs) = Free n' # vs_defrag r \<and> length r \<le> length bs" by simp
  then show ?case by (auto split: list.splits vblock.splits)
qed auto

lemma Defrag_merge_ok:
  assumes "vsa_rep mem vsa (pre @ Free n # rest)" "length rest < fuel" "vs_merge n rest = (n', r)"
  shows "\<exists>mem'. Defrag_merge fuel mem vsa (vsa + 8 + extent pre) (vsa + 8 + extent (pre @ [Free n])) = Inr mem' \<and>
    vsa_rep mem' vsa (pre @ Free n' # r) \<and> length mem' = length mem \<and>
    same_bytes mem mem' 0 (vsa + 8 + extent pre) \<and> same_bytes mem mem' (vsa + 8 + extent pre + 8) (length mem)"
  using assms
proof (induction rest arbitrary: fuel n mem)
  case Nil
  then obtain f where "fuel = Suc f" by (cases fuel) auto
  then show ?case using Nil InBounds_at [of mem vsa "pre @ [Free n]" "[]"] by simp
next
  case (Cons b rest)
  obtain f where f: "fuel = Suc f" "length rest < f" using Cons.prems(2) by (cases fuel) auto
  let ?s = "vsa + 8 + extent pre" and ?x = "vsa + 8 + extent (pre @ [Free n])"
  have rep: "vsa_rep mem vsa ((pre @ [Free n]) @ b # rest)" using Cons.prems(1) by simp
  note inb = InBounds_at [OF rep] and parts = VSA_rep_parts [OF rep] and here = VSA_rep_parts [OF Cons.prems(1)]
  show ?case
  proof (cases b)
    case (Used c)
    then show ?thesis using Cons.prems(1,3) f(1) inb parts(1) by auto
  next
    case (Free m)
    have sum: "?s + 8 \<le> length mem" "- (2 ^ 63) \<le> int (n + 16 + m)" "int (n + 16 + m) < 2 ^ 63" using parts(6,7) Free by auto
    from set_block_size_ok [OF this] obtain m1 where m1: "set_block_size mem ?s (int (n + 16 + m)) = Inr m1" "length m1 = length mem"
      "get_block_size m1 ?s = Inr (int (n + 16 + m))" "same_bytes mem m1 0 ?s" "same_bytes mem m1 (?s + 8) (length mem)" by blast
    have fr: "load_word m1 (?s + 8) = load_word mem (?s + 8)" "get_block_size m1 ?x = get_block_size mem ?x"
      using load_word_frame [OF m1(2,5)] get_block_size_frame [OF m1(2,5)] here(6) by auto
    have "tiled m1 ?s [Free (n + 16 + m)]"
      using m1(3) fr(1) here(2-4) parts(3,4) Free by (auto intro!: dvd_add)
    moreover have "same_bytes mem m1 (?s + extent [Free n, Free m]) (length mem)" by (rule same_bytes_mono [OF m1(5)]) simp_all
    ultimately have rep1: "vsa_rep m1 vsa (pre @ Free (n + 16 + m) # rest)"
      using vsa_rep_update [of mem vsa pre "[Free n, Free m]" rest m1 "[Free (n + 16 + m)]"] Cons.prems(1) m1(2,4) Free by simp
    have "chk_long (int m) = Inr (int m)" "chk_long (16 + int m) = Inr (16 + int m)" "chk_long (int n + (16 + int m)) = Inr (int (n + 16 + m))"
      using sum by (auto simp: chk_long_def)
    moreover have "szadd (szadd ?x 16) m = vsa + 8 + extent (pre @ [Free (n + 16 + m)])"
      using parts(6,7) Free by (simp add: szadd_def)
    ultimately have "Defrag_merge fuel mem vsa ?s ?x = Defrag_merge f m1 vsa ?s (vsa + 8 + extent (pre @ [Free (n + 16 + m)]))"
      unfolding f(1) Defrag_merge.simps(2) inb parts(1) here(1) using Free parts(1,3) m1(1) fr(2)
      by (simp add: NextHdr_def del: extent_simps)
    moreover obtain m2 where "Defrag_merge f m1 vsa ?s (vsa + 8 + extent (pre @ [Free (n + 16 + m)])) = Inr m2"
      "vsa_rep m2 vsa (pre @ Free n' # r)" "length m2 = length m1" "same_bytes m1 m2 0 ?s" "same_bytes m1 m2 (?s + 8) (length m1)"
      using Cons.IH [OF rep1 f(2)] Cons.prems(3) Free by auto
    ultimately show ?thesis using m1(2,4,5) same_bytes_trans by metis
  qed
qed

lemma Defrag_loop_ok:
  assumes "vsa_rep mem vsa (pre @ rest)" "length rest < fuel"
  shows "\<exists>mem'. Defrag_loop fuel mem vsa (vsa + 8 + extent pre) = Inr mem' \<and> vsa_rep mem' vsa (pre @ vs_defrag rest) \<and>
    length mem' = length mem \<and> same_bytes mem mem' 0 (vsa + 8) \<and> same_bytes mem mem' (vsa + 8 + extent (pre @ rest)) (length mem)"
  using assms
proof (induction "length rest" arbitrary: rest pre mem fuel rule: less_induct)
  case less
  obtain f where f: "fuel = Suc f" using less.prems(2) by (cases fuel) auto
  note inb = InBounds_at [OF less.prems(1)]
  show ?case
  proof (cases rest)
    case Nil
    then show ?thesis using inb f less.prems(1) by simp
  next
    case (Cons b bs)
    have rep: "vsa_rep mem vsa (pre @ b # bs)" using less.prems(1) Cons by simp
    note parts = VSA_rep_parts [OF rep]
    show ?thesis
    proof (cases b)
      case (Used c)
      have "Defrag_loop fuel mem vsa (vsa + 8 + extent pre) = Defrag_loop f mem vsa (vsa + 8 + extent (pre @ [b]))"
        using inb parts(1) NextHdr_at [OF rep] f Cons Used by simp
      then show ?thesis using less.hyps [of bs mem "pre @ [b]" f] less.prems Cons Used f by simp
    next
      case (Free n)
      obtain n' r where nr: "vs_merge n bs = (n', r)" by (cases "vs_merge n bs")
      note merged = vs_merge_defrag [OF nr]
      have lens: "length bs < f" "length r < f" "length r < length rest" using less.prems(2) f Cons merged by auto
      obtain m1 where m1: "Defrag_merge f mem vsa (vsa + 8 + extent pre) (vsa + 8 + extent (pre @ [Free n])) = Inr m1"
        "vsa_rep m1 vsa (pre @ Free n' # r)" "length m1 = length mem"
        "same_bytes mem m1 0 (vsa + 8 + extent pre)" "same_bytes mem m1 (vsa + 8 + extent pre + 8) (length mem)"
        using Defrag_merge_ok [OF rep [unfolded Free] lens(1) nr] by blast
      have "load_word m1 vsa = load_word mem vsa" by (rule load_word_frame [OF m1(3,4)]) simp_all
      then have ext: "extent ((pre @ [Free n']) @ r) = extent (pre @ rest)"
        using m1(2) less.prems(1) unfolding vsa_rep_def by simp
      have rep1: "vsa_rep m1 vsa ((pre @ [Free n']) @ r)" using m1(2) by simp
      have pos: "0 < bval b" "bval b = int n" using parts(3) Free by auto
      have "Defrag_loop fuel mem vsa (vsa + 8 + extent pre) = Defrag_loop f m1 vsa (vsa + 8 + extent (pre @ [Free n']))"
        unfolding f Defrag_loop.simps(2) inb parts(1) bindE_simps NextHdr_at [OF rep] using pos Free m1(1) NextHdr_at [OF m1(2)] Cons by simp
      moreover obtain m2 where "Defrag_loop f m1 vsa (vsa + 8 + extent (pre @ [Free n'])) = Inr m2"
        "vsa_rep m2 vsa ((pre @ [Free n']) @ vs_defrag r)" "length m2 = length m1" "same_bytes m1 m2 0 (vsa + 8)"
        "same_bytes m1 m2 (vsa + 8 + extent (pre @ rest)) (length m1)"
        using less.hyps [OF lens(3) rep1 lens(2), unfolded ext] by blast
      moreover have "same_bytes mem m1 0 (vsa + 8)" by (rule same_bytes_mono [OF m1(4)]) simp_all
      moreover have "same_bytes mem m1 (vsa + 8 + extent (pre @ rest)) (length mem)"
        by (rule same_bytes_mono [OF m1(5)]) (simp_all add: Cons)
      moreover have "vs_defrag rest = Free n' # vs_defrag r" using merged Cons Free by simp
      ultimately show ?thesis
        using m1(3) ext same_bytes_trans [of mem m1 0 "vsa + 8" m2] same_bytes_trans [of mem m1 "vsa + 8 + extent (pre @ rest)" "length mem" m2]
        by (intro exI [of _ m2]) simp
    qed
  qed
qed

definition free_sizes :: "vblock list \<Rightarrow> nat list" where
  "free_sizes bs = map bsize (filter is_free bs)"

lemma Largest_loop_ok:
  "vsa_rep mem vsa (pre @ rest) \<Longrightarrow> length rest < fuel \<Longrightarrow>
   Largest_loop fuel mem vsa (vsa + 8 + extent pre) acc = Inr (fold max (free_sizes rest) acc)"
proof (induction rest arbitrary: pre fuel acc)
  case Nil
  then show ?case using InBounds_at [of mem vsa pre "[]"] by (cases fuel) (auto simp: free_sizes_def)
next
  case (Cons b rest)
  then obtain f where f: "fuel = Suc f" "length rest < f" by (cases fuel) auto
  note parts = VSA_rep_parts [OF Cons.prems(1)] and inb = InBounds_at [OF Cons.prems(1)] and nxt = NextHdr_at [OF Cons.prems(1)]
  have "Largest_loop fuel mem vsa (vsa + 8 + extent pre) acc =
    Largest_loop f mem vsa (vsa + 8 + extent (pre @ [b])) (if is_free b then max (bsize b) acc else acc)"
    unfolding f(1) Largest_loop.simps(2) inb parts(1) nxt using parts(3) by (cases b) (auto simp: Let_def max_def)
  then show ?case using Cons.IH [of "pre @ [b]" f] Cons.prems(1) f(2) by (simp add: free_sizes_def)
qed

lemma length_defrag: "length (vs_defrag bs) \<le> length bs"
  by (induction bs rule: vs_defrag.induct) (auto split: list.splits vblock.splits)

lemma VSALargestChunkAvailable_ok:
  assumes rep: "vsa_rep mem vsa bs" and fuel: "length bs < fuel"
  shows "\<exists>mem'. VSALargestChunkAvailable fuel mem vsa = Inr (mem', fold max (free_sizes (vs_defrag bs)) 0) \<and>
    vsa_rep mem' vsa (vs_defrag bs) \<and> length mem' = length mem \<and> same_bytes mem mem' 0 (vsa + 8) \<and>
    same_bytes mem mem' (vsa + 8 + extent bs) (length mem)"
proof -
  obtain m1 where m1: "Defrag fuel mem vsa = Inr m1" "vsa_rep m1 vsa (vs_defrag bs)" "length m1 = length mem"
    "same_bytes mem m1 0 (vsa + 8)" "same_bytes mem m1 (vsa + 8 + extent bs) (length mem)" using Defrag_loop_ok [of mem vsa "[]" bs fuel] rep fuel by (auto simp: Defrag_def FirstHdr_def)
  then show ?thesis using length_defrag [of bs] m1 Largest_loop_ok [of m1 vsa "[]" "vs_defrag bs" fuel 0] fuel
    by (simp add: VSALargestChunkAvailable_def FirstHdr_def)
qed

section \<open>How large a request can be\<close>

lemma defrag_apart: "successively (\<lambda>x y. \<not> (is_free x \<and> is_free y)) (vs_defrag bs)"
proof (induction bs rule: vs_defrag.induct)
  case (2 c bs)
  then show ?case by (cases "vs_defrag bs") auto
next
  case (3 n bs)
  then show ?case by (auto split: list.splits vblock.splits simp: successively_Cons)
qed simp

lemma defrag_run:
  assumes "vs_defrag bs = p @ r @ q" "\<forall>b \<in> set r. is_free b"
  shows "r = [] \<or> (\<exists>b. r = [b])"
proof (cases r)
  case (Cons b r')
  have "successively (\<lambda>x y. \<not> (is_free x \<and> is_free y)) r"
    using defrag_apart [of bs] assms(1) by (simp add: successively_append_iff)
  with Cons assms(2) show ?thesis by (cases r') auto
qed simp

lemma fold_max_least: "fold max xs acc < (k :: nat) \<longleftrightarrow> acc < k \<and> (\<forall>x \<in> set xs. x < k)"
  by (induction xs arbitrary: acc) auto

text \<open>A request is served exactly when it leaves eight bytes of the largest free block.\<close>

lemma vs_alloc_iff_largest:
  assumes n: "0 < n"
  shows "snd (vs_alloc a n (vs_defrag bs)) \<noteq> None \<longleftrightarrow> ALIGN_UP n + 8 \<le> fold max (free_sizes (vs_defrag bs)) 0"
proof -
  let ?d = "vs_defrag bs" and ?w = "ALIGN_UP n"
  have "snd (vs_alloc a n ?d) = None \<longleftrightarrow> vs_fit ?w [] [] ?d = None"
    using n by (simp add: vs_alloc_def split: option.splits)
  also have "\<dots> \<longleftrightarrow> (\<forall>b \<in> set ?d. is_free b \<longrightarrow> bsize b < ?w + 8)"
  proof
    assume none: "vs_fit ?w [] [] ?d = None"
    show "\<forall>b \<in> set ?d. is_free b \<longrightarrow> bsize b < ?w + 8"
    proof (intro ballI impI)
      fix b
      assume b: "b \<in> set ?d" "is_free b"
      then obtain p q where "?d = p @ [b] @ q" by (metis split_list append_Cons append_Nil)
      then show "bsize b < ?w + 8" using vs_fit_None [OF none, of p "[b]" q] b(2) by simp
    qed
  next
    assume small: "\<forall>b \<in> set ?d. is_free b \<longrightarrow> bsize b < ?w + 8"
    show "vs_fit ?w [] [] ?d = None"
    proof (rule ccontr)
      assume "vs_fit ?w [] [] ?d \<noteq> None"
      then obtain p r q where "vs_fit ?w [] [] ?d = Some (p, r, q)" by auto
      then have fit: "?d = p @ r @ q" "\<forall>b \<in> set r. is_free b" "?w + 24 \<le> extent r" using vs_fit_Some by fastforce+
      from defrag_run [OF fit(1,2)] fit(3) obtain b where "r = [b]" by auto
      with fit small show False by auto
    qed
  qed
  also have "\<dots> \<longleftrightarrow> fold max (free_sizes ?d) 0 < ?w + 8" by (auto simp: fold_max_least free_sizes_def)
  finally show ?thesis by auto
qed

lemma VSA_largest_alloc:
  assumes rep: "vsa_rep mem vsa bs" and fuel: "length bs < fuel" and n: "0 < n" "n + 7 < 2 ^ 63"
  shows "\<exists>mem1 L mem2 p. VSALargestChunkAvailable fuel mem vsa = Inr (mem1, L) \<and> VSAAlloc fuel mem1 vsa n = Inr (mem2, p) \<and>
    (p \<noteq> None \<longleftrightarrow> ALIGN_UP n + 8 \<le> L)"
proof -
  obtain mem1 where m1: "VSALargestChunkAvailable fuel mem vsa = Inr (mem1, fold max (free_sizes (vs_defrag bs)) 0)"
    "vsa_rep mem1 vsa (vs_defrag bs)" using VSALargestChunkAvailable_ok [OF rep fuel] by blast
  have "length (vs_defrag bs) < fuel" using length_defrag [of bs] fuel by simp
  then obtain mem2 where "VSAAlloc fuel mem1 vsa n = Inr (mem2, snd (vs_alloc (vsa + 8) n (vs_defrag bs)))"
    using VSAAlloc_ok [OF m1(2) n(2)] by blast
  with m1(1) vs_alloc_iff_largest [OF n(1), of "vsa + 8" bs] show ?thesis by auto
qed

text \<open>
  A request close to the top of \<open>size_t\<close>: the sum that is compared with the run wraps around to 16, and
  the first free block is handed out.
\<close>

lemma VSAAlloc_wraps:
  assumes rep: "vsa_rep mem vsa (Free n # bs)"
  shows "\<exists>mem'. VSAAlloc (Suc fuel) mem vsa (2 ^ 64 - 8) = Inr (mem', Some (vsa + 24))"
proof -
  have rep': "vsa_rep mem vsa ([] @ Free n # bs)" using rep by simp
  note parts = VSA_rep_parts [OF rep', simplified] and inb = InBounds_at [OF rep', simplified]
  have al: "ALIGN_UP (2 ^ 64 - 8) = 2 ^ 64 - 8" by (simp add: ALIGN_UP_def szadd_def)
  have n: "8 \<le> n" "vsa + 24 + n < 2 ^ 63" using parts(3,6,7) by auto
  have sums: "szadd (2 ^ 64 - 8) 24 = 16" "szadd 0 (szadd 16 (nat (int n))) = 16 + n" "szsub (16 + n) 16 = n"
    "to_long (2 ^ 64 - 8) = - 8" "to_long n = int n"
    using n by (simp_all add: szadd_def to_long_def)
  have "szadd (vsa + 24) (2 ^ 64 - 8) = (2 ^ 64 + (vsa + 16)) mod 2 ^ 64" by (simp add: szadd_def)
  also have "\<dots> = vsa + 16" using n by (simp only: mod_add_self1) simp
  finally have wrap: "szadd (szadd (vsa + 8) 16) (2 ^ 64 - 8) = vsa + 16" using n by (simp add: add.commute [of 24])
  have commit: "\<exists>mem'. CommitAlloc mem (vsa + 8) (16 + n) (2 ^ 64 - 8) = Inr (mem', vsa + 8)"
  proof (cases "16 \<le> n")
    case True
    have a: "vsa + 16 + 16 \<le> length mem" "- (2 ^ 63) \<le> int n - 8" "int n - 8 < 2 ^ 63" using parts(6,7) True by auto
    from set_header_ok [OF a] obtain m1 m2 where m: "set_block_size mem (vsa + 16) (int n - 8) = Inr m1"
      "set_magic m1 (vsa + 16) = Inr m2" "length m2 = length mem" by blast
    have b: "vsa + 8 + 16 \<le> length m2" "- (2 ^ 63) \<le> (8 :: int)" "(8 :: int) < 2 ^ 63" using a m(3) by auto
    from set_header_ok [OF b] obtain m3 m4 where m': "set_block_size m2 (vsa + 8) 8 = Inr m3" "set_magic m3 (vsa + 8) = Inr m4" by blast
    have "chk_long (int n - - 8) = Inr (int n + 8)" "chk_long (int n + 8 - 16) = Inr (int n - 8)" "chk_long (- (- 8)) = Inr 8"
      using n True by (auto simp: chk_long_def)
    then show ?thesis unfolding CommitAlloc_def Let_def sums wrap using True m(1,2) m' by simp
  next
    case False
    have a: "vsa + 8 + 16 \<le> length mem" "- (2 ^ 63) \<le> - int n" "- int n < 2 ^ 63" using parts(6,7) by auto
    from set_header_ok [OF a] obtain m1 m2 where m: "set_block_size mem (vsa + 8) (- int n) = Inr m1" "set_magic m1 (vsa + 8) = Inr m2" by blast
    have "chk_long (int n - - 8) = Inr (int n + 8)" "chk_long (- int n) = Inr (- int n)" using n False by (auto simp: chk_long_def)
    then show ?thesis unfolding CommitAlloc_def Let_def sums using False m by simp
  qed
  then obtain mem' where "CommitAlloc mem (vsa + 8) (16 + n) (2 ^ 64 - 8) = Inr (mem', vsa + 8)" by blast
  moreover have "0 < int n" using n(1) by simp
  ultimately show ?thesis
    unfolding VSAAlloc_def Let_def al FindFitAndCommit_def FirstHdr_def FindFitAndCommit_loop.simps(2) inb parts(1) bindE_simps sums
    by simp
qed

section \<open>A client of the allocator\<close>

fun held :: "nat \<Rightarrow> nat \<Rightarrow> vblock list \<Rightarrow> byte option list option" where
  "held a p [] = None"
| "held a p (b # bs) = (if p = a + 16 then (case b of Used c \<Rightarrow> Some c | Free n \<Rightarrow> None) else held (a + 16 + bsize b) p bs)"

fun put_block :: "nat \<Rightarrow> nat \<Rightarrow> vblock \<Rightarrow> vblock list \<Rightarrow> vblock list" where
  "put_block a p x [] = []"
| "put_block a p x (b # bs) = (if p = a + 16 then x # bs else b # put_block (a + 16 + bsize b) p x bs)"

lemma held_Some: "held a p bs = Some c \<Longrightarrow> \<exists>pre post. bs = pre @ Used c # post \<and> p = a + extent pre + 16"
proof (induction bs arbitrary: a)
  case (Cons b bs)
  show ?case
  proof (cases "p = a + 16")
    case True
    with Cons.prems have "b # bs = [] @ Used c # bs" "p = a + extent [] + 16" by (auto split: vblock.splits)
    then show ?thesis by blast
  next
    case False
    with Cons obtain pre post where "bs = pre @ Used c # post" "p = a + 16 + bsize b + extent pre + 16" by fastforce
    then have "b # bs = (b # pre) @ Used c # post" "p = a + extent (b # pre) + 16" by simp_all
    then show ?thesis by blast
  qed
qed simp

lemma put_block_at: "put_block a (a + extent pre + 16) x (pre @ b # post) = pre @ x # post"
proof (induction pre arbitrary: a)
  case (Cons d pre)
  have "a + extent (d # pre) + 16 = a + 16 + bsize d + extent pre + 16" by simp
  then show ?case using Cons.IH [of "a + 16 + bsize d"] by simp
qed simp

datatype vsa_call = A_Alloc nat | A_Free nat | A_Write nat nat "byte list" | A_Read nat nat nat | A_Largest

datatype vsa_out = A_Ptr "nat option" | A_Done | A_Bytes "byte list" | A_Num nat

fun vsa_step :: "nat \<Rightarrow> nat \<Rightarrow> vsa_call \<Rightarrow> byte list \<Rightarrow> (byte list \<times> vsa_out) result" where
  "vsa_step fuel vsa (A_Alloc n) mem = bindE (VSAAlloc fuel mem vsa n) (\<lambda>(mem', p). Inr (mem', A_Ptr p))"
| "vsa_step fuel vsa (A_Free p) mem = bindE (VSAFree mem (Some p)) (\<lambda>mem'. Inr (mem', A_Done))"
| "vsa_step fuel vsa (A_Write p i xs) mem = bindE (write_bytes mem (p + i) xs) (\<lambda>mem'. Inr (mem', A_Done))"
| "vsa_step fuel vsa (A_Read p i n) mem = bindE (read_bytes mem (p + i) n) (\<lambda>xs. Inr (mem, A_Bytes xs))"
| "vsa_step fuel vsa A_Largest mem = bindE (VSALargestChunkAvailable fuel mem vsa) (\<lambda>(mem', n). Inr (mem', A_Num n))"

fun vsa_spec :: "nat \<Rightarrow> vsa_call \<Rightarrow> vblock list \<Rightarrow> vblock list \<times> vsa_out" where
  "vsa_spec a (A_Alloc n) bs = (let (bs', p) = vs_alloc a n bs in (bs', A_Ptr p))"
| "vsa_spec a (A_Free p) bs = (put_block a p (Free (length (the (held a p bs)))) bs, A_Done)"
| "vsa_spec a (A_Write p i xs) bs =
     (let c = the (held a p bs) in (put_block a p (Used (take i c @ map Some xs @ drop (i + length xs) c)) bs, A_Done))"
| "vsa_spec a (A_Read p i n) bs = (bs, A_Bytes (map the (take n (drop i (the (held a p bs))))))"
| "vsa_spec a A_Largest bs = (vs_defrag bs, A_Num (fold max (free_sizes (vs_defrag bs)) 0))"

text \<open>The client uses pointers it got and has not freed, stays inside them and reads what it wrote.\<close>

fun vsa_ok :: "nat \<Rightarrow> nat \<Rightarrow> vsa_call \<Rightarrow> byte list \<Rightarrow> vblock list \<Rightarrow> bool" where
  "vsa_ok fuel a (A_Alloc n) mem bs = (n + 7 < 2 ^ 63 \<and> length bs < fuel)"
| "vsa_ok fuel a (A_Free p) mem bs = (held a p bs \<noteq> None)"
| "vsa_ok fuel a (A_Write p i xs) mem bs = (case held a p bs of None \<Rightarrow> False | Some c \<Rightarrow> i + length xs \<le> length c)"
| "vsa_ok fuel a (A_Read p i n) mem bs =
     (case held a p bs of None \<Rightarrow> False | Some c \<Rightarrow> i + n \<le> length c \<and> None \<notin> set (take n (drop i c)))"
| "vsa_ok fuel a A_Largest mem bs = (length bs < fuel)"

lemma vsa_write_ok:
  assumes rep: "vsa_rep mem vsa (pre @ Used c # post)" and i: "i + length xs \<le> length c"
  shows "\<exists>mem'. write_bytes mem (vsa + 8 + extent pre + 16 + i) xs = Inr mem' \<and>
    vsa_rep mem' vsa (pre @ Used (take i c @ map Some xs @ drop (i + length xs) c) # post)"
proof -
  let ?s = "vsa + 8 + extent pre" and ?c = "take i c @ map Some xs @ drop (i + length xs) c"
  note parts = VSA_rep_parts [OF rep]
  have room: "?s + 16 + i + length xs \<le> length mem" using parts(6) i by simp
  then obtain mem' where w: "write_bytes mem (?s + 16 + i) xs = Inr mem'" using write_bytes_ok by blast
  note nth = write_bytes_nth [OF w] and len = write_bytes_length [OF w]
  have same: "same_bytes mem mem' 0 (?s + 16)" "same_bytes mem mem' (?s + extent [Used c]) (length mem)"
    using nth parts(6) i by (auto simp: same_bytes_def)
  have lc: "length ?c = length c" using i by simp
  have "mem' ! (?s + 16 + j) = x" if j: "j < length ?c" "?c ! j = Some x" for j x
  proof (cases "i \<le> j \<and> j < i + length xs")
    case True
    then have "j - i < length xs" by linarith
    then have "?c ! j = Some (xs ! (j - i))" using True i by (simp add: nth_append)
    then show ?thesis using True that(2) nth [of "?s + 16 + j"] room by simp
  next
    case False
    then have "?c ! j = c ! j" using i j(1) by (auto simp: nth_append)
    then have "mem ! (?s + 16 + j) = x" using parts(5) j lc by auto
    then show ?thesis using False nth [of "?s + 16 + j"] j(1) lc parts(6) by auto
  qed
  moreover have "get_block_size mem' ?s = get_block_size mem ?s" "load_word mem' (?s + 8) = load_word mem (?s + 8)"
    using get_block_size_frame [OF len same(1)] load_word_frame [OF len same(1)] by simp_all
  ultimately have "tiled mem' ?s [Used ?c]" using parts(1-4) lc by simp
  moreover have "same_bytes mem mem' 0 ?s" by (rule same_bytes_mono [OF same(1)]) simp_all
  ultimately have "vsa_rep mem' vsa (pre @ [Used ?c] @ post)"
    using vsa_rep_update [of mem vsa pre "[Used c]" post mem' "[Used ?c]"] rep len same(2) lc by simp
  with w show ?thesis by simp
qed

lemma vsa_read_ok:
  assumes rep: "vsa_rep mem vsa (pre @ Used c # post)" and i: "i + n \<le> length c" "None \<notin> set (take n (drop i c))"
  shows "read_bytes mem (vsa + 8 + extent pre + 16 + i) n = Inr (map the (take n (drop i c)))"
proof -
  note parts = VSA_rep_parts [OF rep]
  have "take n (drop (vsa + 8 + extent pre + 16 + i) mem) = map the (take n (drop i c))"
  proof (rule nth_equalityI)
    show "length (take n (drop (vsa + 8 + extent pre + 16 + i) mem)) = length (map the (take n (drop i c)))" using parts(6) i(1) by simp
    fix j
    assume "j < length (take n (drop (vsa + 8 + extent pre + 16 + i) mem))"
    then have j: "j < n" by simp
    then have "take n (drop i c) ! j \<in> set (take n (drop i c))" using i(1) by (intro nth_mem) simp
    with i j have "c ! (i + j) \<noteq> None" by (metis add.commute less_diff_conv nth_drop nth_take order_less_le_trans le_add1 add_leD1)
    then obtain x where x: "c ! (i + j) = Some x" by auto
    then have "mem ! (vsa + 8 + extent pre + 16 + (i + j)) = x" using parts(5) i(1) j by simp
    then show "take n (drop (vsa + 8 + extent pre + 16 + i) mem) ! j = map the (take n (drop i c)) ! j"
      using x j i(1) parts(6) by (simp add: add.assoc)
  qed
  then show ?thesis using parts(6) i(1) by (simp add: read_bytes_def)
qed

interpretation vsa_refines: rel_refinement "\<lambda>mem bs. vsa_rep mem vsa bs" "vsa_step fuel vsa" "vsa_spec (vsa + 8)" "vsa_ok fuel (vsa + 8)"
  for fuel vsa
proof
  fix mem bs c
  assume rep: "vsa_rep mem vsa bs" and ok: "vsa_ok fuel (vsa + 8) c mem bs"
  have at: "\<exists>pre post. bs = pre @ Used d # post \<and> p = vsa + 8 + extent pre + 16" if "held (vsa + 8) p bs = Some d" for p d
    using held_Some [OF that] .
  show "\<exists>s'. vsa_step fuel vsa c mem = Inr (s', snd (vsa_spec (vsa + 8) c bs)) \<and> vsa_rep s' vsa (fst (vsa_spec (vsa + 8) c bs))"
  proof (cases c)
    case (A_Alloc n)
    then obtain mem' where "VSAAlloc fuel mem vsa n = Inr (mem', snd (vs_alloc (vsa + 8) n bs))" "vsa_rep mem' vsa (fst (vs_alloc (vsa + 8) n bs))"
      using VSAAlloc_ok [OF rep, of n fuel] ok by auto
    then show ?thesis using A_Alloc by (auto simp: case_prod_unfold Let_def)
  next
    case (A_Free p)
    then obtain d where d: "held (vsa + 8) p bs = Some d" using ok by auto
    from at [OF d] obtain pre post where split: "bs = pre @ Used d # post" "p = vsa + 8 + extent pre + 16" by blast
    have rep': "vsa_rep mem vsa (pre @ Used d # post)" using rep split(1) by simp
    from VSAFree_ok [OF this] obtain mem' where "VSAFree mem (Some p) = Inr mem'" "vsa_rep mem' vsa (pre @ Free (length d) # post)"
      using split(2) by blast
    then show ?thesis using A_Free d split put_block_at [of "vsa + 8" pre "Free (length d)" "Used d" post] by auto
  next
    case (A_Write p i xs)
    then obtain d where d: "held (vsa + 8) p bs = Some d" "i + length xs \<le> length d" using ok by (auto split: option.splits)
    from at [OF d(1)] obtain pre post where split: "bs = pre @ Used d # post" "p = vsa + 8 + extent pre + 16" by blast
    have rep': "vsa_rep mem vsa (pre @ Used d # post)" using rep split(1) by simp
    from vsa_write_ok [OF this d(2)] obtain mem' where "write_bytes mem (p + i) xs = Inr mem'"
      "vsa_rep mem' vsa (pre @ Used (take i d @ map Some xs @ drop (i + length xs) d) # post)" using split(2) by blast
    then show ?thesis
      using A_Write d(1) split put_block_at [of "vsa + 8" pre "Used (take i d @ map Some xs @ drop (i + length xs) d)" "Used d" post]
      by (auto simp: Let_def)
  next
    case (A_Read p i n)
    then obtain d where d: "held (vsa + 8) p bs = Some d" "i + n \<le> length d" "None \<notin> set (take n (drop i d))"
      using ok by (auto split: option.splits)
    from at [OF d(1)] obtain pre post where split: "bs = pre @ Used d # post" "p = vsa + 8 + extent pre + 16" by blast
    have rep': "vsa_rep mem vsa (pre @ Used d # post)" using rep split(1) by simp
    from vsa_read_ok [OF this d(2,3)] show ?thesis using A_Read d(1) split(2) rep by simp
  next
    case A_Largest
    then show ?thesis using VSALargestChunkAvailable_ok [OF rep, of fuel] ok by auto
  qed
qed

end
