(* ===== verification/DHCP_Trie.thy ===== *)
theory DHCP_Trie
  imports Prelude
begin

text \<open>
  The address pool of \<open>projects/dhcp/src/trie.c\<close> and \<open>dhcp.c\<close>. Nodes of the trie are owned by their
  parents and never move, so the trie is a datatype and a pointer to one of its nodes is the path from
  the root. The lemmas relate the trie to the set of bit strings that are taken and the manager to the
  set of hosts that are leased.
\<close>

unbundle bit_operations_syntax

section \<open>Nodes and pointers\<close>

datatype trie_node = TNull | TNode (left_child: trie_node) (right_child: trie_node) (is_leaf: bool) (has_free_in_subtree: bool)

datatype trie_status_e = TRIE_SUCCESS | TRIE_ALLOC_FAILURE | TRIE_IP_OCCUPIED_ALLOCATED_ANOTHER
  | TRIE_NO_IP_AVAILABLE | TRIE_DOUBLE_FREE | TRIE_IP_NOT_FOUND

type_synonym node_ptr = "bool list"

definition child_of :: "trie_node \<Rightarrow> bool \<Rightarrow> trie_node" where
  "child_of node direction = (if direction then right_child node else left_child node)"

primrec at_path :: "node_ptr \<Rightarrow> trie_node \<Rightarrow> trie_node" where
  "at_path [] t = t"
| "at_path (b # p) t = (case t of TNull \<Rightarrow> TNull | TNode l r lf hf \<Rightarrow> at_path p (if b then r else l))"

primrec set_path :: "node_ptr \<Rightarrow> trie_node \<Rightarrow> trie_node \<Rightarrow> trie_node" where
  "set_path [] s t = s"
| "set_path (b # p) s t =
     (case t of TNull \<Rightarrow> TNull
      | TNode l r lf hf \<Rightarrow> if b then TNode l (set_path p s r) lf hf else TNode (set_path p s l) r lf hf)"

text \<open>Dereferencing a node pointer.\<close>

definition node_at :: "trie_node \<Rightarrow> node_ptr \<Rightarrow> trie_node result" where
  "node_at t p = (if at_path p t = TNull then Inl Bad_access else Inr (at_path p t))"

text \<open>The \<open>int\<close> computation \<open>1 << n\<close>, undefined when the result is not an \<open>int\<close>.\<close>

definition shl1 :: "nat \<Rightarrow> nat result" where
  "shl1 n = (if n < 31 then Inr (2 ^ n) else Inl Int_overflow)"

section \<open>The trie code\<close>

text \<open>Whether \<open>malloc\<close> answers is an argument: for the root a flag, on a path one per bit position.\<close>

definition TRIECreate :: "bool \<Rightarrow> trie_node" where
  "TRIECreate malloc_ok = (if malloc_ok then TNode TNull TNull False True else TNull)"

definition TRIECreateNode :: "bool \<Rightarrow> trie_node" where
  "TRIECreateNode malloc_ok = (if malloc_ok then TNode TNull TNull False True else TNull)"

definition IsBitSet :: "32 word \<Rightarrow> nat \<Rightarrow> bool" where
  "IsBitSet value bit_index \<longleftrightarrow> drop_bit bit_index value AND 1 \<noteq> 0"

definition HasChildWithFreeSpace :: "trie_node \<Rightarrow> bool" where
  "HasChildWithFreeSpace node \<longleftrightarrow>
     (left_child node \<noteq> TNull \<and> has_free_in_subtree (left_child node)) \<or>
     (right_child node \<noteq> TNull \<and> has_free_in_subtree (right_child node))"

primrec TRIEUpdateMetadata_loop :: "node_ptr list \<Rightarrow> trie_node \<Rightarrow> trie_node result" where
  "TRIEUpdateMetadata_loop [] t = Inr t"
| "TRIEUpdateMetadata_loop (p # ps) t =
     bindE (node_at t p) (\<lambda>n.
     let free = (\<not> is_leaf n \<or> left_child n = TNull \<or> right_child n = TNull \<or> HasChildWithFreeSpace n)
     in TRIEUpdateMetadata_loop ps (set_path p (TNode (left_child n) (right_child n) (is_leaf n) free) t))"

definition TRIEUpdateMetadata :: "node_ptr list \<Rightarrow> trie_node \<Rightarrow> trie_node result" where
  "TRIEUpdateMetadata path_nodes t = TRIEUpdateMetadata_loop (rev path_nodes) t"

text \<open>The array \<open>path_nodes\<close> has room for 32 nodes.\<close>

definition push_path :: "node_ptr list \<Rightarrow> node_ptr \<Rightarrow> node_ptr list result" where
  "push_path path_nodes p = (if length path_nodes < 32 then Inr (path_nodes @ [p]) else Inl Bad_access)"

primrec TraversePath :: "nat \<Rightarrow> trie_node \<Rightarrow> node_ptr \<Rightarrow> 32 word \<Rightarrow> node_ptr option result" where
  "TraversePath 0 t current_node ip = Inr (Some current_node)"
| "TraversePath (Suc bit_position) t current_node ip =
     bindE (node_at t current_node) (\<lambda>n.
     let direction = IsBitSet ip bit_position
     in if child_of n direction = TNull then Inr None
        else TraversePath bit_position t (current_node @ [direction]) ip)"

definition TRIESearch :: "trie_node \<Rightarrow> 32 word \<Rightarrow> nat \<Rightarrow> int result" where
  "TRIESearch t ip depth =
     bindE (TraversePath depth t [] ip) (\<lambda>target.
     case target of None \<Rightarrow> Inr 0 | Some p \<Rightarrow> bindE (node_at t p) (\<lambda>n. Inr (of_bool (is_leaf n))))"

primrec AllocateAtTarget_loop :: "nat \<Rightarrow> (nat \<Rightarrow> bool) \<Rightarrow> trie_node \<Rightarrow> node_ptr \<Rightarrow> 32 word \<Rightarrow> (trie_node \<times> node_ptr option) result" where
  "AllocateAtTarget_loop 0 alloc t traverse_node target_ip = Inr (t, Some traverse_node)"
| "AllocateAtTarget_loop (Suc bit_position) alloc t traverse_node target_ip =
     bindE (node_at t traverse_node) (\<lambda>n.
     let direction = IsBitSet target_ip bit_position
     in if child_of n direction = TNull
        then let new = TRIECreateNode (alloc bit_position);
                 t' = set_path traverse_node
                   (if direction then TNode (left_child n) new (is_leaf n) (has_free_in_subtree n)
                    else TNode new (right_child n) (is_leaf n) (has_free_in_subtree n)) t
             in if new = TNull then Inr (t', None)
                else AllocateAtTarget_loop bit_position alloc t' (traverse_node @ [direction]) target_ip
        else AllocateAtTarget_loop bit_position alloc t (traverse_node @ [direction]) target_ip)"

text \<open>The node at \<open>p\<close> becomes a leaf or stops being one.\<close>

definition set_leaf :: "trie_node \<Rightarrow> node_ptr \<Rightarrow> bool \<Rightarrow> trie_node result" where
  "set_leaf t p v =
     bindE (node_at t p) (\<lambda>n. Inr (set_path p (TNode (left_child n) (right_child n) v (has_free_in_subtree n)) t))"

definition AllocateAtTarget :: "(nat \<Rightarrow> bool) \<Rightarrow> trie_node \<Rightarrow> node_ptr \<Rightarrow> node_ptr list \<Rightarrow> 32 word \<Rightarrow> nat \<Rightarrow> 32 word
    \<Rightarrow> (trie_node \<times> 32 word \<times> trie_status_e) result" where
  "AllocateAtTarget alloc t current_node path_nodes target_ip remaining_depth allocated_ip =
     bindE (AllocateAtTarget_loop remaining_depth alloc t current_node target_ip) (\<lambda>(t1, target).
     case target of None \<Rightarrow> Inr (t1, allocated_ip, TRIE_ALLOC_FAILURE)
     | Some p \<Rightarrow>
         bindE (set_leaf t1 p True) (\<lambda>t2.
         bindE (TRIEUpdateMetadata path_nodes t2) (\<lambda>t3. Inr (t3, target_ip, TRIE_SUCCESS))))"

text \<open>
  How the descent of \<open>TRIEInsertHelper\<close> ends: at a missing child (with the node, the path so far and
  the bits left), at an occupied place (with the last pivot, if any), or at a free leaf.
\<close>

datatype descent = Missing node_ptr "node_ptr list" nat | Occupied "(node_ptr \<times> nat) option" | Arrived node_ptr "node_ptr list"

primrec TRIEInsertHelper_loop :: "nat \<Rightarrow> trie_node \<Rightarrow> node_ptr \<Rightarrow> node_ptr list \<Rightarrow> (node_ptr \<times> nat) option \<Rightarrow> 32 word \<Rightarrow> descent result" where
  "TRIEInsertHelper_loop 0 t current_node path_nodes pivot ip =
     bindE (node_at t current_node) (\<lambda>n. Inr (if is_leaf n then Occupied pivot else Arrived current_node path_nodes))"
| "TRIEInsertHelper_loop (Suc bit_position) t current_node path_nodes pivot ip =
     bindE (node_at t current_node) (\<lambda>n.
     bindE (push_path path_nodes current_node) (\<lambda>path_nodes'.
     let direction = IsBitSet ip bit_position;
         child = child_of n direction;
         pivot' = (if \<not> direction \<and> right_child n \<noteq> TNull \<and> has_free_in_subtree (right_child n)
                   then Some (current_node, bit_position) else pivot)
     in if child = TNull then Inr (Missing current_node path_nodes' (bit_position + 1))
        else if \<not> has_free_in_subtree child then Inr (Occupied pivot')
        else TRIEInsertHelper_loop bit_position t (current_node @ [direction]) path_nodes' pivot' ip))"

text \<open>The recursive call is the argument \<open>insert_helper\<close>.\<close>

definition FindAndAllocateNextFree :: "(trie_node \<Rightarrow> node_ptr \<Rightarrow> 32 word \<Rightarrow> 32 word \<Rightarrow> nat \<Rightarrow> (trie_node \<times> 32 word \<times> trie_status_e) result)
    \<Rightarrow> trie_node \<Rightarrow> (node_ptr \<times> nat) option \<Rightarrow> 32 word \<Rightarrow> 32 word \<Rightarrow> (trie_node \<times> 32 word \<times> trie_status_e) result" where
  "FindAndAllocateNextFree insert_helper t pivot base_ip allocated_ip =
     (case pivot of None \<Rightarrow> Inr (t, allocated_ip, TRIE_NO_IP_AVAILABLE)
      | Some (pivot_node, pivot_depth) \<Rightarrow>
          bindE (shl1 pivot_depth) (\<lambda>b.
          let next_ip = base_ip OR of_nat b
          in bindE (insert_helper t pivot_node allocated_ip next_ip (pivot_depth + 1)) (\<lambda>(t', ip', status).
             Inr (t', ip', if status = TRIE_SUCCESS then TRIE_IP_OCCUPIED_ALLOCATED_ANOTHER else status))))"

primrec TRIEInsertHelper :: "nat \<Rightarrow> (nat \<Rightarrow> bool) \<Rightarrow> trie_node \<Rightarrow> node_ptr \<Rightarrow> 32 word \<Rightarrow> 32 word \<Rightarrow> nat
    \<Rightarrow> (trie_node \<times> 32 word \<times> trie_status_e) result" where
  "TRIEInsertHelper 0 = (\<lambda>alloc t root allocated_ip requested_ip depth. Inl Out_of_fuel)"
| "TRIEInsertHelper (Suc fuel) = (\<lambda>alloc t root allocated_ip requested_ip depth.
     bindE (TRIEInsertHelper_loop depth t root [] None requested_ip) (\<lambda>d.
     case d of
       Missing current_node path_nodes remaining \<Rightarrow>
         AllocateAtTarget alloc t current_node path_nodes requested_ip remaining allocated_ip
     | Occupied pivot \<Rightarrow> FindAndAllocateNextFree (TRIEInsertHelper fuel alloc) t pivot requested_ip allocated_ip
     | Arrived current_node path_nodes \<Rightarrow>
         bindE (set_leaf t current_node True) (\<lambda>t1.
         bindE (TRIEUpdateMetadata path_nodes t1) (\<lambda>t2. Inr (t2, requested_ip, TRIE_SUCCESS)))))"

definition TRIEInsert :: "nat \<Rightarrow> (nat \<Rightarrow> bool) \<Rightarrow> trie_node \<Rightarrow> 32 word \<Rightarrow> 32 word \<Rightarrow> nat \<Rightarrow> (trie_node \<times> 32 word \<times> trie_status_e) result" where
  "TRIEInsert fuel alloc t allocated_ip requested_ip depth =
     (if t = TNull then Inr (t, allocated_ip, TRIE_ALLOC_FAILURE)
      else if \<not> has_free_in_subtree t then Inr (t, allocated_ip, TRIE_NO_IP_AVAILABLE)
      else TRIEInsertHelper fuel alloc t [] allocated_ip requested_ip depth)"

primrec TRIEFree_path :: "nat \<Rightarrow> trie_node \<Rightarrow> node_ptr \<Rightarrow> node_ptr list \<Rightarrow> 32 word \<Rightarrow> node_ptr list result" where
  "TRIEFree_path 0 t current_node path_nodes ip = Inr path_nodes"
| "TRIEFree_path (Suc bit_position) t current_node path_nodes ip =
     bindE (push_path path_nodes current_node) (\<lambda>path_nodes'.
     bindE (node_at t current_node) (\<lambda>n.
     TRIEFree_path bit_position t (current_node @ [IsBitSet ip bit_position]) path_nodes' ip))"

definition TRIEFree :: "trie_node \<Rightarrow> 32 word \<Rightarrow> nat \<Rightarrow> (trie_node \<times> trie_status_e) result" where
  "TRIEFree t ip depth =
     bindE (TraversePath depth t [] ip) (\<lambda>target.
     case target of None \<Rightarrow> Inr (t, TRIE_IP_NOT_FOUND)
     | Some p \<Rightarrow>
         bindE (node_at t p) (\<lambda>n.
         if \<not> is_leaf n then Inr (t, TRIE_DOUBLE_FREE)
         else bindE (set_leaf t p False) (\<lambda>t1.
              bindE (TRIEFree_path depth t1 [] [] ip) (\<lambda>path_nodes.
              bindE (TRIEUpdateMetadata path_nodes t1) (\<lambda>t2. Inr (t2, TRIE_SUCCESS))))))"

text \<open>The nodes \<open>TRIEDestroy\<close> frees, in the order in which it frees them.\<close>

primrec TRIEDestroy :: "trie_node \<Rightarrow> node_ptr \<Rightarrow> node_ptr list" where
  "TRIEDestroy TNull root = []"
| "TRIEDestroy (TNode l r lf hf) root = TRIEDestroy l (root @ [False]) @ TRIEDestroy r (root @ [True]) @ [root]"

fun TRIECountFree :: "trie_node \<Rightarrow> nat \<Rightarrow> nat result" where
  "TRIECountFree TNull depth = Inr 0"
| "TRIECountFree (TNode l r lf hf) 0 = Inr (if \<not> lf then 1 else 0)"
| "TRIECountFree (TNode l r lf hf) (Suc d) =
     bindE (if l \<noteq> TNull then TRIECountFree l d else shl1 d) (\<lambda>a.
     bindE (if r \<noteq> TNull then TRIECountFree r d else shl1 d) (\<lambda>b.
     Inr (szsub (szadd a b) (if lf then 1 else 0))))"

section \<open>Taken addresses\<close>

text \<open>The \<open>n\<close> low bits of an address, highest first: the path to its leaf.\<close>

primrec bits :: "nat \<Rightarrow> 32 word \<Rightarrow> node_ptr" where
  "bits 0 ip = []"
| "bits (Suc n) ip = bit ip n # bits n ip"

definition taken :: "trie_node \<Rightarrow> node_ptr \<Rightarrow> bool" where
  "taken t p \<longleftrightarrow> at_path p t \<noteq> TNull \<and> is_leaf (at_path p t)"

text \<open>The shape the code maintains: leaves only at the bottom, nothing below them, and the flag always set.\<close>

fun trie_wf :: "nat \<Rightarrow> trie_node \<Rightarrow> bool" where
  "trie_wf n TNull = True"
| "trie_wf 0 (TNode l r lf hf) = (l = TNull \<and> r = TNull \<and> hf)"
| "trie_wf (Suc n) (TNode l r lf hf) = (\<not> lf \<and> hf \<and> trie_wf n l \<and> trie_wf n r)"

lemma length_bits [simp]: "length (bits n ip) = n"
  by (induction n) auto

lemma IsBitSet_bit: "IsBitSet ip n = bit ip n"
proof -
  have "drop_bit n ip AND 1 = of_bool (bit ip n)" by (rule bit_word_eqI) (auto simp: bit_simps)
  then show ?thesis by (simp add: IsBitSet_def)
qed

lemma bits_eq_iff: "bits n x = bits n y \<longleftrightarrow> (\<forall>i < n. bit x i = bit y i)"
  by (induction n) (auto simp: less_Suc_eq)

lemma at_path_TNull [simp]: "at_path p TNull = TNull"
  by (cases p) auto

lemma at_path_append: "at_path (p @ q) t = at_path q (at_path p t)"
  by (induction p arbitrary: t) (auto split: trie_node.splits)

lemma at_path_prefix: "at_path (p @ q) t \<noteq> TNull \<Longrightarrow> at_path p t \<noteq> TNull"
  by (auto simp: at_path_append)

lemma at_path_child: "at_path (p @ [b]) t = (if at_path p t = TNull then TNull else child_of (at_path p t) b)"
  by (cases "at_path p t") (auto simp: at_path_append child_of_def)

lemma trie_wf_at: "trie_wf n t \<Longrightarrow> length p \<le> n \<Longrightarrow> trie_wf (n - length p) (at_path p t)"
proof (induction p arbitrary: n t)
  case (Cons b p)
  then show ?case by (cases n; cases t) auto
qed simp

lemma trie_wf_deep: "trie_wf n t \<Longrightarrow> n < length p \<Longrightarrow> at_path p t = TNull"
proof (induction p arbitrary: n t)
  case (Cons b p)
  then show ?case by (cases n; cases t) auto
qed simp

lemma trie_wf_set:
  "trie_wf n t \<Longrightarrow> length p \<le> n \<Longrightarrow> trie_wf (n - length p) s \<Longrightarrow> trie_wf n (set_path p s t)"
proof (induction p arbitrary: n t)
  case (Cons b p)
  then show ?case by (cases n; cases t) auto
qed simp

lemma at_set_below: "at_path p t \<noteq> TNull \<Longrightarrow> at_path (p @ r) (set_path p s t) = at_path r s"
  by (induction p arbitrary: t) (auto split: trie_node.splits)

lemma at_set_same: "at_path p t \<noteq> TNull \<Longrightarrow> at_path p (set_path p s t) = s"
  using at_set_below [of p t "[]" s] by simp

lemma at_set_aside:
  "(\<And>r. q \<noteq> p @ r) \<Longrightarrow>
   (at_path q (set_path p s t) \<noteq> TNull \<longleftrightarrow> at_path q t \<noteq> TNull) \<and> is_leaf (at_path q (set_path p s t)) = is_leaf (at_path q t) \<and>
   has_free_in_subtree (at_path q (set_path p s t)) = has_free_in_subtree (at_path q t)"
proof (induction p arbitrary: q t)
  case (Cons b p)
  show ?case
  proof (cases q)
    case (Cons c q')
    then have "(\<forall>r. q' \<noteq> p @ r) \<or> c \<noteq> b" using Cons.prems by auto
    then show ?thesis using Cons.IH [of q'] Cons by (cases t) auto
  qed (cases t; simp)
qed auto

lemma taken_set_aside: "(\<And>r. q \<noteq> p @ r) \<Longrightarrow> taken (set_path p s t) q = taken t q"
  using at_set_aside [of q p s t] by (simp add: taken_def)

text \<open>
  Replacing a node by one whose children include the old ones: what is taken elsewhere stays, and
  no node disappears.
\<close>

lemma keeps_nodes:
  assumes "at_path p t \<noteq> TNull" "s \<noteq> TNull" "\<And>b. child_of (at_path p t) b = TNull \<or> child_of s b = child_of (at_path p t) b"
    "at_path q t \<noteq> TNull"
  shows "at_path q (set_path p s t) \<noteq> TNull"
proof (cases "\<exists>r. q = p @ r")
  case True
  then obtain r where q: "q = p @ r" by blast
  show ?thesis
  proof (cases r)
    case (Cons b r')
    have "child_of (at_path p t) b \<noteq> TNull" using assms(1,4) Cons q by (cases "at_path p t") (auto simp: at_path_append child_of_def)
    then have "child_of s b = child_of (at_path p t) b" using assms(3) by blast
    then have "at_path r s = at_path r (at_path p t)" using Cons assms(1,2) by (cases s; cases "at_path p t") (auto simp: child_of_def)
    moreover have "at_path r (at_path p t) \<noteq> TNull" using assms(4) q by (simp add: at_path_append)
    ultimately show ?thesis unfolding q at_set_below [OF assms(1)] by simp
  qed (use q assms in \<open>simp add: at_set_same\<close>)
next
  case False
  then show ?thesis using at_set_aside [of q p s t] assms(4) by blast
qed

lemma node_at_ok [simp]: "at_path p t \<noteq> TNull \<Longrightarrow> node_at t p = Inr (at_path p t)"
  by (simp add: node_at_def)

lemma trie_wf_inner:
  assumes "trie_wf d t" "at_path p t \<noteq> TNull" "length p < d"
  shows "\<not> is_leaf (at_path p t) \<and> has_free_in_subtree (at_path p t)"
  using trie_wf_at [OF assms(1), of p] assms(2,3) by (cases "d - length p"; cases "at_path p t") auto

lemma trie_wf_free: "trie_wf d t \<Longrightarrow> at_path p t \<noteq> TNull \<Longrightarrow> length p \<le> d \<Longrightarrow> has_free_in_subtree (at_path p t)"
  using trie_wf_at [of d t p] by (cases "d - length p"; cases "at_path p t") auto

text \<open>The flags are already right, so updating them changes nothing.\<close>

lemma set_path_same: "set_path p (at_path p t) t = t"
  by (induction p arbitrary: t) (auto split: trie_node.splits)

lemma TRIEUpdateMetadata_loop_same:
  "trie_wf d t \<Longrightarrow> (\<And>p. p \<in> set ps \<Longrightarrow> at_path p t \<noteq> TNull \<and> length p < d) \<Longrightarrow> TRIEUpdateMetadata_loop ps t = Inr t"
proof (induction ps)
  case (Cons p ps)
  have p: "at_path p t \<noteq> TNull" "\<not> is_leaf (at_path p t)" "has_free_in_subtree (at_path p t)"
    using Cons.prems trie_wf_inner [OF Cons.prems(1), of p] by auto
  then obtain l r where n: "at_path p t = TNode l r False True" by (cases "at_path p t") auto
  have "set_path p (TNode l r False True) t = t" using set_path_same [of p t] n by simp
  then show ?case using Cons n by simp
qed simp

lemma TRIEUpdateMetadata_same:
  "trie_wf d t \<Longrightarrow> (\<And>p. p \<in> set ps \<Longrightarrow> at_path p t \<noteq> TNull \<and> length p < d) \<Longrightarrow> TRIEUpdateMetadata ps t = Inr t"
  unfolding TRIEUpdateMetadata_def by (rule TRIEUpdateMetadata_loop_same [of d]) auto

section \<open>Search\<close>

lemma TraversePath_ok:
  "at_path p t \<noteq> TNull \<Longrightarrow>
   TraversePath n t p ip = Inr (if at_path (p @ bits n ip) t = TNull then None else Some (p @ bits n ip))"
proof (induction n arbitrary: p)
  case (Suc n)
  let ?q = "p @ [bit ip n]"
  have child: "child_of (at_path p t) (bit ip n) = at_path ?q t" using Suc.prems by (simp add: at_path_child)
  show ?case
  proof (cases "at_path ?q t = TNull")
    case True
    then have "at_path (p @ bits (Suc n) ip) t = TNull" using at_path_append [of ?q "bits n ip" t] by simp
    then show ?thesis using True child Suc.prems by (simp add: Let_def IsBitSet_bit)
  next
    case False
    then show ?thesis using Suc.IH [OF False] child Suc.prems by (simp add: Let_def IsBitSet_bit)
  qed
qed simp

lemma TRIESearch_ok: "t \<noteq> TNull \<Longrightarrow> TRIESearch t ip d = Inr (of_bool (taken t (bits d ip)))"
  using TraversePath_ok [of "[]" t d ip] by (simp add: TRIESearch_def taken_def)

section \<open>Insertion\<close>

lemma add_child:
  assumes wf: "trie_wf D t" and p: "at_path p t = TNode l r lf hf" "length p + Suc n = D" and new: "child_of (at_path p t) b = TNull"
    and s: "s = (if b then TNode l (TNode TNull TNull False True) lf hf else TNode (TNode TNull TNull False True) r lf hf)"
  shows "trie_wf D (set_path p s t) \<and> (\<forall>q. taken (set_path p s t) q = taken t q) \<and>
    (\<forall>q. at_path q t \<noteq> TNull \<longrightarrow> at_path q (set_path p s t) \<noteq> TNull) \<and> at_path (p @ [b]) (set_path p s t) \<noteq> TNull"
proof -
  have pn: "at_path p t \<noteq> TNull" using p(1) by simp
  have "D - length p = Suc n" using p(2) by simp
  with trie_wf_at [OF wf, of p] p have sub: "\<not> lf \<and> hf \<and> trie_wf n l \<and> trie_wf n r" by simp
  then have "trie_wf (D - length p) s" using s \<open>D - length p = Suc n\<close> by (cases n) auto
  then have 1: "trie_wf D (set_path p s t)" using p(2) by (intro trie_wf_set [OF wf]) simp_all
  have 2: "taken (set_path p s t) q = taken t q" for q
  proof (cases "\<exists>x. q = p @ x")
    case True
    then obtain x where x: "q = p @ x" by blast
    have "taken s x = taken (at_path p t) x"
    proof (cases x)
      case (Cons c y)
      then show ?thesis using p(1) s new by (cases y) (auto simp: taken_def child_of_def split: if_splits)
    qed (use p(1) s in \<open>simp add: taken_def\<close>)
    then show ?thesis using x at_set_below [OF pn, of x s] by (simp add: taken_def at_path_append)
  qed (use taken_set_aside [of q p s t] in blast)
  have "s \<noteq> TNull" "child_of (at_path p t) c = TNull \<or> child_of s c = child_of (at_path p t) c" for c
    using p(1) s new by (auto simp: child_of_def split: if_splits)
  then have 3: "at_path q (set_path p s t) \<noteq> TNull" if "at_path q t \<noteq> TNull" for q using keeps_nodes [OF pn _ _ that] by blast
  have "at_path (p @ [b]) (set_path p s t) \<noteq> TNull" using s at_set_below [OF pn, of "[b]" s] by auto
  with 1 2 3 show ?thesis by blast
qed

lemma AllocateAtTarget_loop_ok:
  "trie_wf D t \<Longrightarrow> at_path p t \<noteq> TNull \<Longrightarrow> length p + n = D \<Longrightarrow>
   \<exists>t' r. AllocateAtTarget_loop n alloc t p ip = Inr (t', r) \<and> trie_wf D t' \<and> (\<forall>q. taken t' q = taken t q) \<and>
     (\<forall>q. at_path q t \<noteq> TNull \<longrightarrow> at_path q t' \<noteq> TNull) \<and>
     (case r of None \<Rightarrow> \<exists>i < n. \<not> alloc i | Some q \<Rightarrow> q = p @ bits n ip \<and> at_path q t' \<noteq> TNull)"
proof (induction n arbitrary: t p)
  case (Suc n)
  obtain l r lf hf where node: "at_path p t = TNode l r lf hf" using Suc.prems(2) by (cases "at_path p t") auto
  let ?b = "bit ip n"
  have len: "length (p @ [?b]) + n = D" using Suc.prems(3) by simp
  show ?case
  proof (cases "child_of (at_path p t) ?b = TNull")
    case False
    then have "at_path (p @ [?b]) t \<noteq> TNull" using Suc.prems(2) by (simp add: at_path_child)
    then obtain t' r' where "AllocateAtTarget_loop n alloc t (p @ [?b]) ip = Inr (t', r')" "trie_wf D t'" "\<forall>q. taken t' q = taken t q"
      "\<forall>q. at_path q t \<noteq> TNull \<longrightarrow> at_path q t' \<noteq> TNull"
      "case r' of None \<Rightarrow> \<exists>i < n. \<not> alloc i | Some q \<Rightarrow> q = (p @ [?b]) @ bits n ip \<and> at_path q t' \<noteq> TNull"
      using Suc.IH [OF Suc.prems(1) _ len] by blast
    then show ?thesis using False Suc.prems(2)
      by (intro exI [of _ t'] exI [of _ r']) (auto simp: Let_def IsBitSet_bit less_Suc_eq split: option.splits)
  next
    case True
    show ?thesis
    proof (cases "alloc n")
      case False
      have "set_path p (if ?b then TNode l TNull lf hf else TNode TNull r lf hf) t = t"
        using set_path_same [of p t] True node by (auto simp: child_of_def split: if_splits)
      then show ?thesis using True False node Suc.prems by (auto simp: Let_def IsBitSet_bit TRIECreateNode_def)
    next
      case alloc: True
      let ?s = "if ?b then TNode l (TNode TNull TNull False True) lf hf else TNode (TNode TNull TNull False True) r lf hf"
      let ?t = "set_path p ?s t"
      note add = add_child [OF Suc.prems(1) node Suc.prems(3) True refl]
      then obtain t' r' where "AllocateAtTarget_loop n alloc ?t (p @ [?b]) ip = Inr (t', r')" "trie_wf D t'" "\<forall>q. taken t' q = taken ?t q"
        "\<forall>q. at_path q ?t \<noteq> TNull \<longrightarrow> at_path q t' \<noteq> TNull"
        "case r' of None \<Rightarrow> \<exists>i < n. \<not> alloc i | Some q \<Rightarrow> q = (p @ [?b]) @ bits n ip \<and> at_path q t' \<noteq> TNull"
        using Suc.IH [of ?t "p @ [?b]"] len by blast
      then show ?thesis using True alloc node add
        by (intro exI [of _ t'] exI [of _ r']) (auto simp: Let_def IsBitSet_bit TRIECreateNode_def less_Suc_eq split: option.splits)
    qed
  qed
qed simp

lemma set_leaf_ok:
  assumes wf: "trie_wf D t" and q: "at_path q t \<noteq> TNull" "length q = D"
  shows "\<exists>t'. set_leaf t q v = Inr t' \<and> trie_wf D t' \<and> (\<forall>x. taken t' x = (if x = q then v else taken t x)) \<and>
    (\<forall>x. at_path x t \<noteq> TNull \<longrightarrow> at_path x t' \<noteq> TNull)"
proof -
  obtain l r lf hf where node: "at_path q t = TNode l r lf hf" using q(1) by (cases "at_path q t") auto
  have sub: "l = TNull" "r = TNull" "hf" using trie_wf_at [OF wf, of q] q(2) node by auto
  let ?s = "TNode l r v hf"
  have "trie_wf D (set_path q ?s t)" using q(2) sub by (intro trie_wf_set [OF wf]) simp_all
  moreover have "taken (set_path q ?s t) x = (if x = q then v else taken t x)" for x
  proof (cases "\<exists>y. x = q @ y")
    case True
    then obtain y where x: "x = q @ y" by blast
    show ?thesis
    proof (cases y)
      case (Cons c z)
      then have "at_path x t = TNull" using x trie_wf_deep [OF wf, of x] q(2) by simp
      then show ?thesis using x Cons at_set_below [OF q(1), of y ?s] sub by (cases c) (simp_all add: taken_def)
    qed (use x at_set_same [OF q(1), of ?s] in \<open>simp add: taken_def\<close>)
  next
    case False
    then show ?thesis using taken_set_aside [of x q ?s t] by (metis append_Nil2)
  qed
  moreover have "at_path x (set_path q ?s t) \<noteq> TNull" if "at_path x t \<noteq> TNull" for x
    using that node by (intro keeps_nodes [OF q(1)]) (auto simp: child_of_def)
  ultimately show ?thesis using node q(1) by (intro exI [of _ "set_path q ?s t"]) (simp add: set_leaf_def)
qed

text \<open>A path whose nodes all exist above the leaves.\<close>

definition inner_path :: "nat \<Rightarrow> trie_node \<Rightarrow> node_ptr list \<Rightarrow> bool" where
  "inner_path D t ps \<longleftrightarrow> (\<forall>p \<in> set ps. at_path p t \<noteq> TNull \<and> length p < D)"

lemma inner_path_same: "trie_wf D t \<Longrightarrow> inner_path D t ps \<Longrightarrow> TRIEUpdateMetadata ps t = Inr t"
  by (rule TRIEUpdateMetadata_same) (auto simp: inner_path_def)

lemma inner_path_mono:
  "inner_path D t ps \<Longrightarrow> (\<And>q. at_path q t \<noteq> TNull \<Longrightarrow> at_path q t' \<noteq> TNull) \<Longrightarrow> inner_path D t' ps"
  by (auto simp: inner_path_def)

definition keeps :: "trie_node \<Rightarrow> trie_node \<Rightarrow> bool" where
  "keeps t t' \<longleftrightarrow> (\<forall>q. at_path q t \<noteq> TNull \<longrightarrow> at_path q t' \<noteq> TNull)"

lemma AllocateAtTarget_ok:
  assumes "trie_wf D t" "at_path c t \<noteq> TNull" "length c + n = D" "inner_path D t ps"
  shows "\<exists>t' aip st. AllocateAtTarget alloc t c ps ip n a0 = Inr (t', aip, st) \<and> trie_wf D t' \<and> keeps t t' \<and>
    (st = TRIE_SUCCESS \<and> aip = ip \<and> (\<forall>x. taken t' x = (x = c @ bits n ip \<or> taken t x)) \<or>
     st = TRIE_ALLOC_FAILURE \<and> aip = a0 \<and> (\<exists>i. \<not> alloc i) \<and> (\<forall>x. taken t' x = taken t x))"
proof -
  obtain t1 r where t1: "AllocateAtTarget_loop n alloc t c ip = Inr (t1, r)" "trie_wf D t1" "\<forall>q. taken t1 q = taken t q"
    "\<forall>q. at_path q t \<noteq> TNull \<longrightarrow> at_path q t1 \<noteq> TNull"
    "case r of None \<Rightarrow> \<exists>i < n. \<not> alloc i | Some q \<Rightarrow> q = c @ bits n ip \<and> at_path q t1 \<noteq> TNull"
    using AllocateAtTarget_loop_ok [OF assms(1-3)] by blast
  show ?thesis
  proof (cases r)
    case None
    then show ?thesis using t1 by (auto simp: AllocateAtTarget_def keeps_def)
  next
    case (Some q)
    then have q: "q = c @ bits n ip" "at_path q t1 \<noteq> TNull" "length q = D" using t1(5) assms(3) by auto
    obtain t2 where t2: "set_leaf t1 q True = Inr t2" "trie_wf D t2" "\<forall>x. taken t2 x = (if x = q then True else taken t1 x)"
      "\<forall>x. at_path x t1 \<noteq> TNull \<longrightarrow> at_path x t2 \<noteq> TNull" using set_leaf_ok [OF t1(2) q(2,3)] by blast
    have "TRIEUpdateMetadata ps t2 = Inr t2" using inner_path_same [OF t2(2)] inner_path_mono [OF assms(4)] t1(4) t2(4) by blast
    then show ?thesis using Some t1(1,3,4) t2 q(1) by (auto simp: AllocateAtTarget_def keeps_def)
  qed
qed

text \<open>The pivot is a node, not above the height \<open>h\<close>, on the path \<open>P\<close>, where the path goes left although there is a right child.\<close>

definition pivot_ok :: "nat \<Rightarrow> nat \<Rightarrow> trie_node \<Rightarrow> node_ptr \<Rightarrow> (node_ptr \<times> nat) option \<Rightarrow> bool" where
  "pivot_ok h D t P pivot \<longleftrightarrow>
     (case pivot of None \<Rightarrow> True
      | Some (p, k) \<Rightarrow> h \<le> length p \<and> length p + Suc k = D \<and> at_path p t \<noteq> TNull \<and> at_path (p @ [True]) t \<noteq> TNull \<and> (\<exists>y. P = p @ False # y))"

lemma TRIEInsertHelper_loop_ok:
  assumes "trie_wf D t" "D \<le> 32"
  shows "at_path c t \<noteq> TNull \<Longrightarrow> length c + n = D \<Longrightarrow> P = c @ bits n ip \<Longrightarrow> length ps + n \<le> D \<Longrightarrow> inner_path D t ps \<Longrightarrow>
    h \<le> length c \<Longrightarrow> pivot_ok h D t P pivot \<Longrightarrow>
    \<exists>d. TRIEInsertHelper_loop n t c ps pivot ip = Inr d \<and>
      (case d of Missing c' ps' k \<Rightarrow> at_path c' t \<noteq> TNull \<and> length c' + k = D \<and> c' @ bits k ip = P \<and> inner_path D t ps' \<and> \<not> taken t P
       | Occupied pivot' \<Rightarrow> taken t P \<and> pivot_ok h D t P pivot'
       | Arrived c' ps' \<Rightarrow> c' = P \<and> at_path P t \<noteq> TNull \<and> \<not> taken t P \<and> inner_path D t ps')"
proof (induction n arbitrary: c ps pivot)
  case 0
  then show ?case by (auto simp: taken_def)
next
  case (Suc n)
  let ?b = "bit ip n" and ?ps = "ps @ [c]"
  let ?piv = "if \<not> ?b \<and> right_child (at_path c t) \<noteq> TNull \<and> has_free_in_subtree (right_child (at_path c t)) then Some (c, n) else pivot"
  have push: "push_path ps c = Inr ?ps" using Suc.prems(4) assms(2) by (simp add: push_path_def)
  have ps: "inner_path D t ?ps" using Suc.prems(1,2,5) by (auto simp: inner_path_def)
  have child: "child_of (at_path c t) ?b = at_path (c @ [?b]) t" using Suc.prems(1) by (simp add: at_path_child)
  have right: "right_child (at_path c t) = at_path (c @ [True]) t" using Suc.prems(1) by (simp add: at_path_child child_of_def)
  have piv: "pivot_ok h D t P ?piv" using Suc.prems right by (auto simp: pivot_ok_def)
  show ?case
  proof (cases "at_path (c @ [?b]) t = TNull")
    case True
    then have "at_path P t = TNull" using Suc.prems(3) at_path_append [of "c @ [?b]" "bits n ip" t] by simp
    then show ?thesis using True child push ps Suc.prems(1-3) by (simp add: Let_def IsBitSet_bit taken_def)
  next
    case False
    have "has_free_in_subtree (at_path (c @ [?b]) t)" using trie_wf_free [OF assms(1) False] Suc.prems(2) by simp
    then have "TRIEInsertHelper_loop (Suc n) t c ps pivot ip = TRIEInsertHelper_loop n t (c @ [?b]) ?ps ?piv ip"
      using False child push Suc.prems(1) by (simp add: Let_def IsBitSet_bit)
    then show ?thesis using Suc.IH [OF False _ _ _ ps _ piv] Suc.prems(2,3,4,6) by simp
  qed
qed

lemma bits_add: "bits (m + k) x = bits m (drop_bit k x) @ bits k x"
  by (induction m) (simp_all add: bit_drop_bit_eq add.commute)

text \<open>Setting the pivot's bit leads from the pivot into its right subtree.\<close>

lemma retry_path:
  assumes "bits D ip = p @ False # y" "length p + Suc k = D" "D \<le> 32"
  shows "bits D (ip OR of_nat (2 ^ k)) = p @ bits (Suc k) (ip OR of_nat (2 ^ k))"
proof -
  have "drop_bit (Suc k) (ip OR of_nat (2 ^ k)) = drop_bit (Suc k) ip"
    by (rule bit_word_eqI) (auto simp: bit_simps)
  moreover have D: "D = length p + Suc k" using assms(2) by simp
  have "bits D ip = bits (length p) (drop_bit (Suc k) ip) @ bits (Suc k) ip" unfolding D by (rule bits_add)
  then have "p = bits (length p) (drop_bit (Suc k) ip)" using assms(1) by (metis append_eq_append_conv length_bits)
  ultimately show ?thesis using bits_add [of "length p" "Suc k" "ip OR of_nat (2 ^ k)"] unfolding D by simp
qed

text \<open>What an insertion did, in terms of what is taken.\<close>

definition insert_outcome :: "nat \<Rightarrow> (nat \<Rightarrow> bool) \<Rightarrow> trie_node \<Rightarrow> trie_node \<Rightarrow> 32 word \<Rightarrow> 32 word \<Rightarrow> 32 word \<Rightarrow> trie_status_e \<Rightarrow> bool" where
  "insert_outcome D alloc t t' a0 ip aip st \<longleftrightarrow>
     trie_wf D t' \<and> keeps t t' \<and>
     (case st of
        TRIE_SUCCESS \<Rightarrow> aip = ip \<and> \<not> taken t (bits D ip) \<and> (\<forall>x. taken t' x = (x = bits D ip \<or> taken t x))
      | TRIE_IP_OCCUPIED_ALLOCATED_ANOTHER \<Rightarrow>
          taken t (bits D ip) \<and> \<not> taken t (bits D aip) \<and> (\<forall>i \<ge> D. bit aip i = bit ip i) \<and> (\<forall>x. taken t' x = (x = bits D aip \<or> taken t x))
      | TRIE_NO_IP_AVAILABLE \<Rightarrow> taken t (bits D ip) \<and> aip = a0 \<and> t' = t
      | TRIE_ALLOC_FAILURE \<Rightarrow> (\<exists>i. \<not> alloc i) \<and> aip = a0 \<and> (\<forall>x. taken t' x = taken t x)
      | _ \<Rightarrow> False)"

lemma outcome_retry:
  assumes "insert_outcome D alloc t t' a0 ip' aip st" "taken t (bits D ip)" "\<forall>i \<ge> D. bit ip' i = bit ip i"
  shows "insert_outcome D alloc t t' a0 ip aip (if st = TRIE_SUCCESS then TRIE_IP_OCCUPIED_ALLOCATED_ANOTHER else st)"
  using assms by (cases st) (auto simp: insert_outcome_def)

text \<open>Every retry works on a pivot that is lower, or the same one with its bit set.\<close>

definition retries :: "nat \<Rightarrow> 32 word \<Rightarrow> nat" where
  "retries n ip = (if 0 < n \<and> bit ip (n - 1) then n - 1 else n)"

lemma bits_nth: "i < n \<Longrightarrow> bits n ip ! i = bit ip (n - 1 - i)"
proof (induction n arbitrary: i)
  case (Suc n)
  then show ?case by (cases i) auto
qed simp

lemma retries_less:
  assumes "bits D ip = p @ False # y" "length p + Suc k = D" "D \<le> 32" "h + n = D" "h \<le> length p"
  shows "retries (Suc k) (ip OR of_nat (2 ^ k)) < retries n ip"
proof -
  have "bits D ip ! length p = bit ip (D - 1 - length p)" using assms(2) by (intro bits_nth) simp
  moreover have "D - 1 - length p = k" using assms(2) by simp
  ultimately have k: "\<not> bit ip k" using assms(1) by simp
  have "k < 32" using assms(2,3) by simp
  then have "bit (ip OR of_nat (2 ^ k)) k" by (simp add: bit_simps)
  moreover have "k < n" using assms(2,4,5) by simp
  ultimately show ?thesis using k by (cases "k = n - 1") (auto simp: retries_def)
qed

lemma TRIEInsertHelper_ok:
  "trie_wf D t \<Longrightarrow> D \<le> 31 \<Longrightarrow> at_path root t \<noteq> TNull \<Longrightarrow> length root + n = D \<Longrightarrow> bits D ip = root @ bits n ip \<Longrightarrow> retries n ip < fuel \<Longrightarrow>
   \<exists>t' aip st. TRIEInsertHelper fuel alloc t root a0 ip n = Inr (t', aip, st) \<and> insert_outcome D alloc t t' a0 ip aip st"
proof (induction fuel arbitrary: root ip n)
  case (Suc fuel)
  note wf = Suc.prems(1) and D = Suc.prems(2)
  let ?P = "bits D ip"
  have D32: "D \<le> 32" using D by simp
  obtain d where d: "TRIEInsertHelper_loop n t root [] None ip = Inr d"
    "case d of Missing c' ps' k \<Rightarrow> at_path c' t \<noteq> TNull \<and> length c' + k = D \<and> c' @ bits k ip = ?P \<and> inner_path D t ps' \<and> \<not> taken t ?P
       | Occupied pivot' \<Rightarrow> taken t ?P \<and> pivot_ok (length root) D t ?P pivot'
       | Arrived c' ps' \<Rightarrow> c' = ?P \<and> at_path ?P t \<noteq> TNull \<and> \<not> taken t ?P \<and> inner_path D t ps'"
    using TRIEInsertHelper_loop_ok [OF wf D32 Suc.prems(3,4), of ?P ip "[]" "length root" None] Suc.prems(4,5)
    by (auto simp: inner_path_def pivot_ok_def)
  show ?case
  proof (cases d)
    case (Missing c ps k)
    then have m: "at_path c t \<noteq> TNull" "length c + k = D" "c @ bits k ip = ?P" "inner_path D t ps" "\<not> taken t ?P" using d(2) by auto
    from AllocateAtTarget_ok [OF wf m(1,2,4), of alloc ip a0] show ?thesis
      using d(1) Missing m(3,5) by (auto simp: insert_outcome_def)
  next
    case (Arrived c ps)
    then have m: "c = ?P" "at_path ?P t \<noteq> TNull" "\<not> taken t ?P" "inner_path D t ps" using d(2) by auto
    obtain t1 where t1: "set_leaf t ?P True = Inr t1" "trie_wf D t1" "\<forall>x. taken t1 x = (if x = ?P then True else taken t x)" "keeps t t1"
      using set_leaf_ok [OF wf m(2), of True] by (auto simp: keeps_def)
    have "TRIEUpdateMetadata ps t1 = Inr t1" using inner_path_same [OF t1(2)] inner_path_mono [OF m(4)] t1(4) by (auto simp: keeps_def)
    then show ?thesis using d(1) Arrived m(1,3) t1 by (auto simp: insert_outcome_def)
  next
    case (Occupied pivot)
    then have m: "taken t ?P" "pivot_ok (length root) D t ?P pivot" using d(2) by auto
    show ?thesis
    proof (cases pivot)
      case None
      then show ?thesis using d(1) Occupied m(1) wf by (auto simp: FindAndAllocateNextFree_def insert_outcome_def keeps_def)
    next
      case (Some pk)
      obtain p k where pk: "pk = (p, k)" by (cases pk)
      then obtain y where y: "length p + Suc k = D" "at_path p t \<noteq> TNull" "?P = p @ False # y" "length root \<le> length p"
        using m(2) Some by (auto simp: pivot_ok_def)
      let ?next = "ip OR of_nat (2 ^ k)"
      have path: "bits D ?next = p @ bits (Suc k) ?next" using retry_path [OF y(3,1) D32] .
      have "retries (Suc k) ?next < fuel" using retries_less [OF y(3,1) D32 Suc.prems(4) y(4)] Suc.prems(6) by simp
      from Suc.IH [OF wf D y(2,1) path this] obtain t' aip st where
        r: "TRIEInsertHelper fuel alloc t p a0 ?next (Suc k) = Inr (t', aip, st)" "insert_outcome D alloc t t' a0 ?next aip st" by blast
      have "shl1 k = Inr (2 ^ k)" using y(1) D by (simp add: shl1_def)
      moreover have "\<forall>i \<ge> D. bit ?next i = bit ip i" using y(1) by (auto simp: bit_simps)
      ultimately show ?thesis using d(1) Occupied Some pk r(1) outcome_retry [OF r(2) m(1)]
        by (simp add: FindAndAllocateNextFree_def)
    qed
  qed
qed simp

lemma TRIEInsert_ok:
  assumes "trie_wf D t" "t \<noteq> TNull" "D \<le> 31" "D < fuel"
  shows "\<exists>t' aip st. TRIEInsert fuel alloc t a0 ip D = Inr (t', aip, st) \<and> insert_outcome D alloc t t' a0 ip aip st"
proof -
  have "has_free_in_subtree t" using trie_wf_free [OF assms(1), of "[]"] assms(2) by simp
  moreover have "retries D ip < fuel" using assms(4) by (auto simp: retries_def)
  ultimately show ?thesis using TRIEInsertHelper_ok [OF assms(1,3), of "[]" D ip fuel alloc a0] assms(2) by (simp add: TRIEInsert_def)
qed

section \<open>Release and counting\<close>

lemma TRIEFree_path_ok:
  "trie_wf D t \<Longrightarrow> at_path (c @ bits n ip) t \<noteq> TNull \<Longrightarrow> length c + n = D \<Longrightarrow> length ps + n \<le> 32 \<Longrightarrow> inner_path D t ps \<Longrightarrow>
   \<exists>ps'. TRIEFree_path n t c ps ip = Inr ps' \<and> inner_path D t ps'"
proof (induction n arbitrary: c ps)
  case (Suc n)
  have c: "at_path c t \<noteq> TNull" using at_path_prefix [OF Suc.prems(2)] .
  moreover have "inner_path D t (ps @ [c])" using Suc.prems(3,5) c by (auto simp: inner_path_def)
  ultimately show ?case using Suc.IH [of "c @ [bit ip n]" "ps @ [c]"] Suc.prems by (simp add: push_path_def IsBitSet_bit)
qed simp

lemma TRIEFree_ok:
  assumes "trie_wf D t" "t \<noteq> TNull" "D \<le> 32"
  shows "\<exists>t' st. TRIEFree t ip D = Inr (t', st) \<and> trie_wf D t' \<and> keeps t t' \<and>
    (taken t (bits D ip) \<and> st = TRIE_SUCCESS \<and> (\<forall>x. taken t' x = (x \<noteq> bits D ip \<and> taken t x)) \<or>
     \<not> taken t (bits D ip) \<and> st = (if at_path (bits D ip) t = TNull then TRIE_IP_NOT_FOUND else TRIE_DOUBLE_FREE) \<and> t' = t)"
proof -
  let ?P = "bits D ip"
  have tr: "TraversePath D t [] ip = Inr (if at_path ?P t = TNull then None else Some ?P)" using TraversePath_ok [of "[]" t D ip] assms(2) by simp
  show ?thesis
  proof (cases "taken t ?P")
    case False
    then show ?thesis using tr assms(1) by (auto simp: TRIEFree_def taken_def keeps_def)
  next
    case True
    then have P: "at_path ?P t \<noteq> TNull" "is_leaf (at_path ?P t)" by (auto simp: taken_def)
    obtain t1 where t1: "set_leaf t ?P False = Inr t1" "trie_wf D t1" "\<forall>x. taken t1 x = (if x = ?P then False else taken t x)" "keeps t t1"
      using set_leaf_ok [OF assms(1) P(1), of False] by (auto simp: keeps_def)
    have "at_path ([] @ ?P) t1 \<noteq> TNull" using t1(4) P(1) by (simp add: keeps_def)
    then obtain ps where "TRIEFree_path D t1 [] [] ip = Inr ps" "inner_path D t1 ps"
      using TRIEFree_path_ok [OF t1(2), of "[]" D ip "[]"] assms(3) by (auto simp: inner_path_def)
    then show ?thesis using tr P t1 True inner_path_same [OF t1(2)] by (auto simp: TRIEFree_def)
  qed
qed

text \<open>The free addresses of a subtree of height \<open>d\<close>.\<close>

definition free_paths :: "nat \<Rightarrow> trie_node \<Rightarrow> node_ptr set" where
  "free_paths d t = {p. length p = d \<and> \<not> taken t p}"

lemma finite_paths: "finite {p :: bool list. length p = d} \<and> card {p :: bool list. length p = d} = 2 ^ d"
  using finite_lists_length_eq [of "UNIV :: bool set" d] card_lists_length_eq [of "UNIV :: bool set" d] by (simp add: card_UNIV_bool)

lemma free_paths_Suc:
  "free_paths (Suc d) (TNode l r lf hf) = (#) False ` free_paths d l \<union> (#) True ` free_paths d r"
proof (rule set_eqI)
  fix p
  show "p \<in> free_paths (Suc d) (TNode l r lf hf) \<longleftrightarrow> p \<in> (#) False ` free_paths d l \<union> (#) True ` free_paths d r"
  proof (cases p)
    case (Cons b q)
    then show ?thesis by (cases b) (auto simp: free_paths_def taken_def)
  qed (auto simp: free_paths_def)
qed

lemma card_free_paths_Suc:
  "card (free_paths (Suc d) (TNode l r lf hf)) = card (free_paths d l) + card (free_paths d r)"
proof -
  have fin: "finite (free_paths d t)" for t by (rule finite_subset [OF _ conjunct1 [OF finite_paths [of d]]]) (auto simp: free_paths_def)
  have "card ((#) False ` free_paths d l \<union> (#) True ` free_paths d r) = card ((#) False ` free_paths d l) + card ((#) True ` free_paths d r)"
    using fin by (intro card_Un_disjoint) auto
  then show ?thesis using fin by (simp add: free_paths_Suc card_image)
qed

lemma card_free_paths_TNull: "card (free_paths d TNull) = 2 ^ d"
  using finite_paths [of d] by (simp add: free_paths_def taken_def)

lemma card_free_paths_le: "card (free_paths d t) \<le> 2 ^ d"
  using card_mono [OF conjunct1 [OF finite_paths [of d]], of "free_paths d t"] finite_paths [of d] by (auto simp: free_paths_def)

lemma TRIECountFree_ok: "trie_wf d t \<Longrightarrow> t \<noteq> TNull \<Longrightarrow> d \<le> 31 \<Longrightarrow> TRIECountFree t d = Inr (card (free_paths d t))"
proof (induction t d rule: TRIECountFree.induct)
  case (2 l r lf hf)
  have "free_paths 0 (TNode l r lf hf) = (if lf then {} else {[]})" by (auto simp: free_paths_def taken_def)
  then show ?case by simp
next
  case (3 l r lf hf d)
  have l: "(if l \<noteq> TNull then TRIECountFree l d else shl1 d) = Inr (card (free_paths d l))"
    using 3 by (auto simp: shl1_def card_free_paths_TNull)
  have r: "(if r \<noteq> TNull then TRIECountFree r d else shl1 d) = Inr (card (free_paths d r))"
    using 3(2) [OF l] 3(3,5) by (auto simp: shl1_def card_free_paths_TNull)
  have "card (free_paths d l) + card (free_paths d r) \<le> 2 ^ Suc d" using card_free_paths_le [of d l] card_free_paths_le [of d r] by simp
  also have "\<dots> \<le> 2 ^ 32" using 3(5) by (intro power_increasing) simp_all
  finally have "szadd (card (free_paths d l)) (card (free_paths d r)) = card (free_paths d l) + card (free_paths d r)" by (intro szadd_small) simp
  then show ?case using l r 3(3) by (simp add: card_free_paths_Suc)
qed simp

text \<open>Destruction frees every node once, children before their parent.\<close>

lemma TRIEDestroy_ok:
  "set (TRIEDestroy t root) = {root @ p |p. at_path p t \<noteq> TNull} \<and> distinct (TRIEDestroy t root)"
proof (induction t arbitrary: root)
  case (TNode l r lf hf)
  have "{root @ p |p. at_path p (TNode l r lf hf) \<noteq> TNull} =
    {(root @ [False]) @ p |p. at_path p l \<noteq> TNull} \<union> {(root @ [True]) @ p |p. at_path p r \<noteq> TNull} \<union> {root}" (is "?A = ?B")
  proof (rule set_eqI)
    fix x
    show "x \<in> ?A \<longleftrightarrow> x \<in> ?B"
    proof
      assume "x \<in> ?A"
      then obtain p where "x = root @ p" "at_path p (TNode l r lf hf) \<noteq> TNull" by blast
      then show "x \<in> ?B" by (cases p) (auto split: if_splits)
    next
      assume "x \<in> ?B"
      then show "x \<in> ?A"
        by (elim UnE) (force intro: exI [of _ "False # _"] exI [of _ "True # _"] exI [of _ "[]"])+
    qed
  qed
  then show ?case using TNode.IH(1) [of "root @ [False]"] TNode.IH(2) [of "root @ [True]"] by auto
qed simp

end
