(* ===== verification/DHCP.thy ===== *)
theory DHCP
  imports DHCP_Trie
begin

text \<open>
  The address manager of \<open>projects/dhcp/src/dhcp.c\<close> over the trie. Addresses are four bytes, most
  significant first; a host is the low \<open>depth\<close> bits of an address. The inductive relation at the end is
  the life of a manager together with the set of addresses its clients hold.
\<close>

unbundle bit_operations_syntax

section \<open>The code\<close>

datatype dhcp_status_e = SUCCESS | ALLOC_FAILURE | IP_OCCUPIED_ALLOCATED_ANOTHER | NO_IP_AVAILABLE | DOUBLE_FREE | IP_NOT_FOUND

record dhcp =
  d_trie :: trie_node
  d_network :: "32 word"
  d_depth :: nat

abbreviation (input) IPv4_BITS :: nat where "IPv4_BITS \<equiv> 32"
abbreviation (input) NETWORK_ADDRESS_HOST :: "32 word" where "NETWORK_ADDRESS_HOST \<equiv> 0"
abbreviation (input) GATEWAY_ADDRESS_HOST :: "32 word" where "GATEWAY_ADDRESS_HOST \<equiv> 1"
abbreviation (input) FIRST_ALLOCATABLE_HOST :: "32 word" where "FIRST_ALLOCATABLE_HOST \<equiv> 2"
abbreviation (input) RESERVED_IP_COUNT :: nat where "RESERVED_IP_COUNT \<equiv> 3"

text \<open>The loop that both conversions run over the four bytes.\<close>

definition bytes_to_uint :: "byte list \<Rightarrow> 32 word result" where
  "bytes_to_uint ip = bindE (read_bytes ip 0 4) (\<lambda>bs. Inr (foldl (\<lambda>acc b. push_bit 8 acc OR ucast b) 0 bs))"

text \<open>\<open>~0 << n\<close> is computed as the machine does: the complement of the low \<open>n\<close> bits.\<close>

definition ConvertSubnetToUInt :: "byte list \<Rightarrow> nat \<Rightarrow> 32 word result" where
  "ConvertSubnetToUInt netip mask_bits =
     bindE (bytes_to_uint netip) (\<lambda>full_ip_number.
     if mask_bits = 0 then Inr 0
     else let subnet_mask = push_bit (IPv4_BITS - mask_bits) (- 1) in Inr (full_ip_number AND subnet_mask))"

definition ExtractHostFromIp :: "byte list \<Rightarrow> nat \<Rightarrow> 32 word result" where
  "ExtractHostFromIp ip mask_bits =
     (let host_bits = szsub IPv4_BITS mask_bits
      in bindE (bytes_to_uint ip) (\<lambda>ip_address.
         if IPv4_BITS \<le> host_bits then Inr ip_address
         else bindE (shl1 host_bits) (\<lambda>b. Inr (ip_address AND (of_nat b - 1)))))"

primrec BuildFullIp_loop :: "nat list \<Rightarrow> byte list \<Rightarrow> 32 word \<Rightarrow> byte list result" where
  "BuildFullIp_loop [] out full = Inr out"
| "BuildFullIp_loop (i # is) out full =
     bindE (write_bytes out (4 - 1 - i) [ucast (full AND 255)]) (\<lambda>out'. BuildFullIp_loop is out' (drop_bit 8 full))"

definition BuildFullIp :: "byte list \<Rightarrow> 32 word \<Rightarrow> 32 word \<Rightarrow> byte list result" where
  "BuildFullIp out network ip_address = BuildFullIp_loop [0..<4] out (network OR ip_address)"

definition IsReservedHost :: "32 word \<Rightarrow> nat \<Rightarrow> bool result" where
  "IsReservedHost ip_address depth =
     bindE (shl1 depth) (\<lambda>b.
     let broadcast = of_nat b - 1
     in Inr (ip_address = NETWORK_ADDRESS_HOST \<or> ip_address = GATEWAY_ADDRESS_HOST \<or> ip_address = broadcast))"

fun ConvertTrieStatus :: "trie_status_e \<Rightarrow> dhcp_status_e" where
  "ConvertTrieStatus TRIE_SUCCESS = SUCCESS"
| "ConvertTrieStatus TRIE_IP_OCCUPIED_ALLOCATED_ANOTHER = IP_OCCUPIED_ALLOCATED_ANOTHER"
| "ConvertTrieStatus TRIE_NO_IP_AVAILABLE = NO_IP_AVAILABLE"
| "ConvertTrieStatus TRIE_ALLOC_FAILURE = ALLOC_FAILURE"
| "ConvertTrieStatus TRIE_DOUBLE_FREE = DOUBLE_FREE"
| "ConvertTrieStatus TRIE_IP_NOT_FOUND = IP_NOT_FOUND"

text \<open>The nodes that \<open>CleanupDhcp\<close> and \<open>DHCPDestroy\<close> free before the manager itself.\<close>

definition CleanupDhcp :: "dhcp \<Rightarrow> node_ptr list" where
  "CleanupDhcp dhcp = TRIEDestroy (d_trie dhcp) []"

definition DHCPDestroy :: "dhcp \<Rightarrow> node_ptr list result" where
  "DHCPDestroy dhcp = bindE (assertE (d_trie dhcp \<noteq> TNull)) (\<lambda>_. Inr (TRIEDestroy (d_trie dhcp) []))"

text \<open>
  The answers of \<open>malloc\<close>: for the struct, for the root, and for the nodes of each insertion. When an
  insertion fails, the result carries the nodes that are freed.
\<close>

definition DHCPCreate :: "nat \<Rightarrow> bool \<Rightarrow> bool \<Rightarrow> (nat \<Rightarrow> nat \<Rightarrow> bool) \<Rightarrow> byte list \<Rightarrow> nat \<Rightarrow> (node_ptr list + dhcp) result" where
  "DHCPCreate fuel struct_ok root_ok alloc netip mask_bits =
     bindE (assertE (mask_bits \<le> 31)) (\<lambda>_.
     bindE (assertE (2 \<le> szsub IPv4_BITS mask_bits)) (\<lambda>_.
     if \<not> struct_ok then Inr (Inl [])
     else bindE (ConvertSubnetToUInt netip mask_bits) (\<lambda>network.
          let depth = IPv4_BITS - mask_bits; trie = TRIECreate root_ok
          in if trie = TNull then Inr (Inl [])
             else bindE (TRIEInsert fuel (alloc 0) trie 0 NETWORK_ADDRESS_HOST depth) (\<lambda>(t1, dummy1, st1).
                  let dhcp = \<lparr>d_trie = t1, d_network = network, d_depth = depth\<rparr>
                  in if st1 \<noteq> TRIE_SUCCESS then Inr (Inl (CleanupDhcp dhcp))
                     else bindE (TRIEInsert fuel (alloc 1) t1 dummy1 GATEWAY_ADDRESS_HOST depth) (\<lambda>(t2, dummy2, st2).
                          if st2 \<noteq> TRIE_SUCCESS then Inr (Inl (CleanupDhcp (dhcp\<lparr>d_trie := t2\<rparr>)))
                          else bindE (shl1 depth) (\<lambda>b.
                               bindE (TRIEInsert fuel (alloc 2) t2 dummy2 (of_nat b - 1) depth) (\<lambda>(t3, dummy3, st3).
                               if st3 \<noteq> TRIE_SUCCESS then Inr (Inl (CleanupDhcp (dhcp\<lparr>d_trie := t3\<rparr>)))
                               else Inr (Inr (dhcp\<lparr>d_trie := t3\<rparr>)))))))))"

definition AllocateNextAvailable :: "nat \<Rightarrow> (nat \<Rightarrow> bool) \<Rightarrow> dhcp \<Rightarrow> 32 word \<Rightarrow> (dhcp \<times> 32 word \<times> dhcp_status_e) result" where
  "AllocateNextAvailable fuel alloc dhcp allocated_ip_address =
     bindE (TRIEInsert fuel alloc (d_trie dhcp) allocated_ip_address FIRST_ALLOCATABLE_HOST (d_depth dhcp)) (\<lambda>(t, ip, trie_status).
     Inr (dhcp\<lparr>d_trie := t\<rparr>, ip,
          if trie_status = TRIE_SUCCESS \<or> trie_status = TRIE_IP_OCCUPIED_ALLOCATED_ANOTHER
          then IP_OCCUPIED_ALLOCATED_ANOTHER else ConvertTrieStatus trie_status))"

definition DHCPAllocateIP :: "nat \<Rightarrow> (nat \<Rightarrow> nat \<Rightarrow> bool) \<Rightarrow> dhcp \<Rightarrow> byte list \<Rightarrow> byte list \<Rightarrow> (dhcp \<times> byte list \<times> dhcp_status_e) result" where
  "DHCPAllocateIP fuel alloc dhcp allocated_ip requested_ip =
     bindE (assertE (d_trie dhcp \<noteq> TNull)) (\<lambda>_.
     bindE (read_bytes requested_ip 0 4) (\<lambda>req.
     let ip_zero = (req = [0, 0, 0, 0])
     in bindE (ExtractHostFromIp requested_ip (IPv4_BITS - d_depth dhcp)) (\<lambda>requested_ip_address.
        bindE (if ip_zero then Inr True else IsReservedHost requested_ip_address (d_depth dhcp)) (\<lambda>any.
        bindE (if any then AllocateNextAvailable fuel (alloc 0) dhcp 0
               else bindE (TRIEInsert fuel (alloc 0) (d_trie dhcp) 0 requested_ip_address (d_depth dhcp)) (\<lambda>(t, ip, trie_status).
                    let status = ConvertTrieStatus trie_status; dhcp1 = dhcp\<lparr>d_trie := t\<rparr>
                    in if status = IP_OCCUPIED_ALLOCATED_ANOTHER \<or> status = ALLOC_FAILURE
                       then AllocateNextAvailable fuel (alloc 1) dhcp1 ip
                       else Inr (dhcp1, ip, status))) (\<lambda>(dhcp', allocated_ip_address, status).
        if status = SUCCESS \<or> status = IP_OCCUPIED_ALLOCATED_ANOTHER
        then bindE (BuildFullIp allocated_ip (d_network dhcp') allocated_ip_address) (\<lambda>out. Inr (dhcp', out, status))
        else Inr (dhcp', allocated_ip, status))))))"

definition DHCPFreeIP :: "dhcp \<Rightarrow> byte list \<Rightarrow> (dhcp \<times> dhcp_status_e) result" where
  "DHCPFreeIP dhcp ip =
     bindE (assertE (d_trie dhcp \<noteq> TNull)) (\<lambda>_.
     bindE (ExtractHostFromIp ip (IPv4_BITS - d_depth dhcp)) (\<lambda>ip_address.
     bindE (IsReservedHost ip_address (d_depth dhcp)) (\<lambda>reserved.
     if reserved then Inr (dhcp, DOUBLE_FREE)
     else bindE (TRIEFree (d_trie dhcp) ip_address (d_depth dhcp)) (\<lambda>(t, trie_status).
          Inr (dhcp\<lparr>d_trie := t\<rparr>, ConvertTrieStatus trie_status)))))"

definition DHCPCountFree :: "dhcp \<Rightarrow> nat result" where
  "DHCPCountFree dhcp =
     bindE (assertE (d_trie dhcp \<noteq> TNull)) (\<lambda>_.
     bindE (TRIECountFree (d_trie dhcp) (d_depth dhcp)) (\<lambda>trie_free.
     Inr (if RESERVED_IP_COUNT < trie_free then trie_free - RESERVED_IP_COUNT else 0)))"

section \<open>Addresses\<close>

definition quad :: "32 word \<Rightarrow> byte list" where
  "quad w = [ucast (drop_bit 24 w), ucast (drop_bit 16 w), ucast (drop_bit 8 w), ucast w]"

lemma quad_uint: "bytes_to_uint (quad w) = Inr w"
proof -
  have "push_bit 8 (push_bit 8 (push_bit 8 (push_bit 8 0 OR (ucast (ucast (drop_bit 24 w) :: byte) :: 32 word)) OR ucast (ucast (drop_bit 16 w) :: byte)) OR
      ucast (ucast (drop_bit 8 w) :: byte)) OR ucast (ucast w :: byte) = w"
  proof (rule bit_word_eqI)
    fix n
    assume "n < LENGTH(32)"
    then have "n < 8 \<or> (8 \<le> n \<and> n < 16) \<or> (16 \<le> n \<and> n < 24) \<or> (24 \<le> n \<and> n < 32)" by auto
    then show "bit (push_bit 8 (push_bit 8 (push_bit 8 (push_bit 8 0 OR (ucast (ucast (drop_bit 24 w) :: byte) :: 32 word)) OR ucast (ucast (drop_bit 16 w) :: byte)) OR
      ucast (ucast (drop_bit 8 w) :: byte)) OR ucast (ucast w :: byte)) n = bit w n"
      by (elim disjE) (auto simp: bit_simps)
  qed
  then show ?thesis by (simp add: bytes_to_uint_def quad_def read_bytes_def)
qed

lemma host_mask: "x AND (2 ^ n - 1) = take_bit n (x :: 32 word)"
  by (simp add: take_bit_eq_mask mask_eq_exp_minus_1)

lemma Extract_quad: "2 \<le> D \<Longrightarrow> D \<le> 30 \<Longrightarrow> ExtractHostFromIp (quad w) (32 - D) = Inr (take_bit D w)"
  by (simp add: ExtractHostFromIp_def quad_uint shl1_def host_mask)

lemma BuildFullIp_quad:
  assumes "length out = 4"
  shows "BuildFullIp out network h = Inr (quad (network OR h))"
proof -
  obtain a b c d where out: "out = [a, b, c, d]" using assms by (auto simp: numeral_eq_Suc length_Suc_conv)
  have low: "(ucast (w AND 255) :: byte) = ucast w" for w :: "32 word"
  proof (rule bit_word_eqI)
    fix n
    assume "n < LENGTH(8)"
    moreover have "(255 :: 32 word) = mask 8" by (simp add: mask_eq_exp_minus_1)
    then have "w AND 255 = take_bit 8 w" by (simp add: take_bit_eq_mask)
    ultimately show "bit (ucast (w AND 255) :: byte) n = bit (ucast w :: byte) n" by (auto simp: bit_simps)
  qed
  show ?thesis
    by (simp add: BuildFullIp_def out upt_rec [of 0] upt_rec [of 1] upt_rec [of 2] upt_rec [of 3] write_bytes_def low quad_def drop_bit_drop_bit
        numeral_eq_Suc)
qed


lemma quad_nth: "length (quad w) = 4"
  by (simp add: quad_def)

lemma quad_inj: "quad x = quad y \<longleftrightarrow> x = y"
  using quad_uint [of x] quad_uint [of y] by (metis sum.inject(2))

lemma quad_zero: "(quad w = [0, 0, 0, 0]) = (w = 0)"
proof -
  have "quad 0 = [0, 0, 0, 0]" by (simp add: quad_def)
  then show ?thesis using quad_inj [of w 0] by simp
qed

lemma quad_surj:
  assumes "length ip = 4"
  shows "\<exists>w. ip = quad w"
proof -
  obtain a b c d where ip: "ip = [a, b, c, d]" using assms by (auto simp: numeral_eq_Suc length_Suc_conv)
  let ?w = "push_bit 24 (ucast a) OR push_bit 16 (ucast b) OR push_bit 8 (ucast c) OR ucast d :: 32 word"
  have "ucast (drop_bit 24 ?w) = a" "ucast (drop_bit 16 ?w) = b" "ucast (drop_bit 8 ?w) = c" "ucast ?w = d"
    by (rule bit_word_eqI; auto simp: bit_simps dest: bit_imp_le_length)+
  then show ?thesis unfolding ip quad_def by (intro exI [of _ ?w]) simp
qed

section \<open>Hosts\<close>

definition host_taken :: "dhcp \<Rightarrow> 32 word \<Rightarrow> bool" where
  "host_taken d h = taken (d_trie d) (bits (d_depth d) h)"

definition is_host :: "dhcp \<Rightarrow> 32 word \<Rightarrow> bool" where
  "is_host d h \<longleftrightarrow> take_bit (d_depth d) h = h"

definition reserved_host :: "dhcp \<Rightarrow> 32 word \<Rightarrow> bool" where
  "reserved_host d h \<longleftrightarrow> h = 0 \<or> h = 1 \<or> h = of_nat (2 ^ d_depth d) - 1"

definition host_addr :: "dhcp \<Rightarrow> 32 word \<Rightarrow> byte list" where
  "host_addr d h = quad (d_network d OR h)"

definition dhcp_wf :: "dhcp \<Rightarrow> bool" where
  "dhcp_wf d \<longleftrightarrow> 2 \<le> d_depth d \<and> d_depth d \<le> 30 \<and> d_trie d \<noteq> TNull \<and> trie_wf (d_depth d) (d_trie d) \<and>
     take_bit (d_depth d) (d_network d) = 0 \<and> (\<forall>h. reserved_host d h \<longrightarrow> host_taken d h)"

lemma bits_take_bit: "bits n (take_bit n x) = bits n x"
  by (simp add: bits_eq_iff bit_simps)

lemma bits_host_eq: "take_bit n x = x \<Longrightarrow> take_bit n y = y \<Longrightarrow> bits n x = bits n y \<longleftrightarrow> x = y"
proof -
  assume x: "take_bit n x = x" and y: "take_bit n y = y"
  have "bits n x = bits n y \<Longrightarrow> take_bit n x = take_bit n y"
    by (rule bit_word_eqI) (auto simp: bits_eq_iff bit_simps)
  then show ?thesis using x y by auto
qed

lemma is_host_high: "is_host d h \<longleftrightarrow> (\<forall>i \<ge> d_depth d. \<not> bit h i)"
proof
  assume "is_host d h"
  then show "\<forall>i \<ge> d_depth d. \<not> bit h i" unfolding is_host_def by (metis bit_take_bit_iff not_less)
next
  assume "\<forall>i \<ge> d_depth d. \<not> bit h i"
  then show "is_host d h" unfolding is_host_def by (intro bit_word_eqI) (auto simp: bit_simps not_le)
qed

lemma is_host_take [simp]: "is_host d (take_bit (d_depth d) w)"
  by (simp add: is_host_def)

lemma is_host_2: "2 \<le> d_depth d \<Longrightarrow> is_host d 2"
proof -
  assume D: "2 \<le> d_depth d"
  have "bit (2 :: 32 word) i \<longleftrightarrow> i = 1" for i using bit_exp_iff [of 1 i, where ?'a = "32 word"] by auto
  then show ?thesis using D by (auto simp: is_host_high)
qed

lemma take_bit_network:
  assumes "take_bit n net = 0" "take_bit n h = h"
  shows "take_bit n (net OR h) = (h :: 32 word)"
  using assms by (simp add: take_bit_or)

lemma IsReservedHost_ok: "dhcp_wf d \<Longrightarrow> IsReservedHost h (d_depth d) = Inr (reserved_host d h)"
  by (simp add: IsReservedHost_def shl1_def dhcp_wf_def reserved_host_def Let_def)

lemma Extract_ok: "dhcp_wf d \<Longrightarrow> ExtractHostFromIp (quad w) (32 - d_depth d) = Inr (take_bit (d_depth d) w)"
  by (simp add: Extract_quad dhcp_wf_def)

lemma not_reserved_nonzero: "\<not> reserved_host d (take_bit (d_depth d) w) \<Longrightarrow> w \<noteq> 0"
  by (auto simp: reserved_host_def)


section \<open>The operations on hosts\<close>

text \<open>What an insertion on behalf of the manager does to its hosts.\<close>

definition host_outcome :: "(nat \<Rightarrow> bool) \<Rightarrow> dhcp \<Rightarrow> dhcp \<Rightarrow> 32 word \<Rightarrow> 32 word \<Rightarrow> trie_status_e \<Rightarrow> bool" where
  "host_outcome alloc d d' h a st \<longleftrightarrow>
     dhcp_wf d' \<and> d_depth d' = d_depth d \<and> d_network d' = d_network d \<and>
     (case st of
        TRIE_SUCCESS \<Rightarrow> a = h \<and> \<not> host_taken d h \<and> (\<forall>x. is_host d x \<longrightarrow> host_taken d' x = (x = h \<or> host_taken d x))
      | TRIE_IP_OCCUPIED_ALLOCATED_ANOTHER \<Rightarrow>
          host_taken d h \<and> is_host d a \<and> \<not> host_taken d a \<and> (\<forall>x. is_host d x \<longrightarrow> host_taken d' x = (x = a \<or> host_taken d x))
      | TRIE_NO_IP_AVAILABLE \<Rightarrow> host_taken d h \<and> d' = d
      | TRIE_ALLOC_FAILURE \<Rightarrow> (\<exists>i. \<not> alloc i) \<and> (\<forall>x. host_taken d' x = host_taken d x)
      | _ \<Rightarrow> False)"

lemma is_host_reserved: "2 \<le> d_depth d \<Longrightarrow> reserved_host d h \<Longrightarrow> is_host d h"
proof -
  assume D: "2 \<le> d_depth d" and r: "reserved_host d h"
  have "is_host d (of_nat (2 ^ d_depth d) - 1)" by (simp add: is_host_def flip: mask_eq_exp_minus_1)
  moreover have "is_host d 1" using D by (auto simp: is_host_high bit_1_iff)
  ultimately show ?thesis using r by (auto simp: reserved_host_def is_host_def)
qed

lemma insert_host:
  assumes "dhcp_wf d" "is_host d h" "d_depth d < fuel"
  shows "\<exists>t' a st. TRIEInsert fuel alloc (d_trie d) a0 h (d_depth d) = Inr (t', a, st) \<and> host_outcome alloc d (d\<lparr>d_trie := t'\<rparr>) h a st"
proof -
  have wf: "trie_wf (d_depth d) (d_trie d)" "d_trie d \<noteq> TNull" "d_depth d \<le> 31" "2 \<le> d_depth d" using assms(1) by (auto simp: dhcp_wf_def)
  obtain t' a st where r: "TRIEInsert fuel alloc (d_trie d) a0 h (d_depth d) = Inr (t', a, st)"
    and o: "insert_outcome (d_depth d) alloc (d_trie d) t' a0 h a st"
    using TRIEInsert_ok [OF wf(1-3) assms(3)] by blast
  let ?d = "d\<lparr>d_trie := t'\<rparr>"
  have t': "trie_wf (d_depth d) t'" "t' \<noteq> TNull" using o wf(2) by (auto simp: insert_outcome_def keeps_def dest: spec [of _ "[]"])
  have mono: "host_taken ?d x" if "host_taken d x" for x
    using o that by (cases st) (auto simp: insert_outcome_def host_taken_def)
  have wf': "dhcp_wf ?d" using assms(1) t' mono by (auto simp: dhcp_wf_def reserved_host_def)
  have eq: "bits (d_depth d) x = bits (d_depth d) y \<longleftrightarrow> x = y" if "is_host d x" "is_host d y" for x y
    using that bits_host_eq by (auto simp: is_host_def)
  have "host_outcome alloc d ?d h a st"
  proof (cases st)
    case TRIE_IP_OCCUPIED_ALLOCATED_ANOTHER
    then have a: "is_host d a" using o assms(2) by (auto simp: insert_outcome_def is_host_high)
    then show ?thesis using o wf' eq [OF _ a] TRIE_IP_OCCUPIED_ALLOCATED_ANOTHER by (auto simp: insert_outcome_def host_outcome_def host_taken_def)
  qed (use o wf' eq [OF _ assms(2)] in \<open>auto simp: insert_outcome_def host_outcome_def host_taken_def\<close>)
  then show ?thesis using r by blast
qed

lemma AllocateNextAvailable_ok:
  assumes "dhcp_wf d" "d_depth d < fuel"
  shows "\<exists>d' a st. AllocateNextAvailable fuel alloc d a0 = Inr (d', a, st) \<and> dhcp_wf d' \<and> d_depth d' = d_depth d \<and> d_network d' = d_network d \<and>
    (case st of
       IP_OCCUPIED_ALLOCATED_ANOTHER \<Rightarrow> is_host d a \<and> \<not> host_taken d a \<and> (\<forall>x. is_host d x \<longrightarrow> host_taken d' x = (x = a \<or> host_taken d x))
     | NO_IP_AVAILABLE \<Rightarrow> host_taken d 2 \<and> d' = d
     | ALLOC_FAILURE \<Rightarrow> (\<exists>i. \<not> alloc i) \<and> (\<forall>x. host_taken d' x = host_taken d x)
     | _ \<Rightarrow> False)"
proof -
  have h2: "is_host d 2" using assms(1) by (auto simp: dhcp_wf_def intro: is_host_2)
  obtain t' a st where "TRIEInsert fuel alloc (d_trie d) a0 2 (d_depth d) = Inr (t', a, st)" "host_outcome alloc d (d\<lparr>d_trie := t'\<rparr>) 2 a st"
    using insert_host [OF assms(1) h2 assms(2)] by blast
  then show ?thesis using h2 by (cases st) (auto simp: AllocateNextAvailable_def host_outcome_def)
qed

text \<open>What a request did. The host \<open>h\<close> of the answer was free before.\<close>

definition granted :: "dhcp_status_e \<Rightarrow> bool" where
  "granted st \<longleftrightarrow> st = SUCCESS \<or> st = IP_OCCUPIED_ALLOCATED_ANOTHER"

definition request_outcome :: "(nat \<Rightarrow> nat \<Rightarrow> bool) \<Rightarrow> dhcp \<Rightarrow> dhcp \<Rightarrow> 32 word \<Rightarrow> byte list \<Rightarrow> byte list \<Rightarrow> dhcp_status_e \<Rightarrow> bool" where
  "request_outcome alloc d d' req out out' st \<longleftrightarrow>
     dhcp_wf d' \<and> d_depth d' = d_depth d \<and> d_network d' = d_network d \<and> (\<forall>x. is_host d x \<and> host_taken d x \<longrightarrow> host_taken d' x) \<and>
     (case st of
        SUCCESS \<Rightarrow> (let h = take_bit (d_depth d) req in
            out' = host_addr d h \<and> \<not> host_taken d h \<and> (\<forall>x. is_host d x \<longrightarrow> host_taken d' x = (x = h \<or> host_taken d x)))
      | IP_OCCUPIED_ALLOCATED_ANOTHER \<Rightarrow>
          (\<exists>h. is_host d h \<and> out' = host_addr d h \<and> \<not> host_taken d h \<and> host_taken d' h) \<and>
          (req = 0 \<or> host_taken d (take_bit (d_depth d) req) \<or> (\<exists>i j. \<not> alloc i j))
      | NO_IP_AVAILABLE \<Rightarrow> out' = out \<and> (req = 0 \<or> host_taken d (take_bit (d_depth d) req) \<or> (\<exists>i j. \<not> alloc i j))
      | ALLOC_FAILURE \<Rightarrow> out' = out \<and> (\<exists>i j. \<not> alloc i j)
      | _ \<Rightarrow> False)"

lemma BuildFullIp_ok: "length out = 4 \<Longrightarrow> BuildFullIp out (d_network d) h = Inr (host_addr d h)"
  by (simp add: BuildFullIp_quad host_addr_def)

lemma read_quad: "read_bytes (quad w) 0 4 = Inr (quad w)"
  by (simp add: read_bytes_def quad_def)

text \<open>The part of the request after the host has been read.\<close>

definition serve :: "nat \<Rightarrow> (nat \<Rightarrow> nat \<Rightarrow> bool) \<Rightarrow> dhcp \<Rightarrow> 32 word \<Rightarrow> (dhcp \<times> 32 word \<times> dhcp_status_e) result" where
  "serve fuel alloc d h =
     bindE (TRIEInsert fuel (alloc 0) (d_trie d) 0 h (d_depth d)) (\<lambda>(t, ip, trie_status).
       let status = ConvertTrieStatus trie_status; dhcp1 = d\<lparr>d_trie := t\<rparr>
       in if status = IP_OCCUPIED_ALLOCATED_ANOTHER \<or> status = ALLOC_FAILURE
          then AllocateNextAvailable fuel (alloc 1) dhcp1 ip
          else Inr (dhcp1, ip, status))"

lemma DHCPAllocateIP_serve:
  assumes "dhcp_wf d" "length out = 4"
  shows "DHCPAllocateIP fuel alloc d out (quad req) =
    bindE (if req = 0 \<or> reserved_host d (take_bit (d_depth d) req) then AllocateNextAvailable fuel (alloc 0) d 0
           else serve fuel alloc d (take_bit (d_depth d) req)) (\<lambda>(d', a, st).
      Inr (d', if granted st then host_addr d' a else out, st))"
  using assms Extract_ok [OF assms(1)]
  by (auto simp: DHCPAllocateIP_def read_quad quad_zero IsReservedHost_ok serve_def Let_def granted_def dhcp_wf_def BuildFullIp_ok
      intro!: bindE_cong)


lemma is_host_same_depth: "d_depth d' = d_depth d \<Longrightarrow> is_host d' = is_host d"
  by (auto simp: is_host_def fun_eq_iff)

lemma host_addr_same: "d_network d' = d_network d \<Longrightarrow> host_addr d' = host_addr d"
  by (auto simp: host_addr_def fun_eq_iff)

lemma request_next:
  assumes "dhcp_wf d" "d_depth d < fuel" "length out = 4" "req = 0 \<or> host_taken d (take_bit (d_depth d) req) \<or> (\<exists>i j. \<not> alloc i j)"
  shows "\<exists>d' a st. AllocateNextAvailable fuel (alloc k) d a0 = Inr (d', a, st) \<and>
    request_outcome alloc d d' req out (if granted st then host_addr d' a else out) st"
proof -
  obtain d' a st where r: "AllocateNextAvailable fuel (alloc k) d a0 = Inr (d', a, st)"
    and o: "dhcp_wf d'" "d_depth d' = d_depth d" "d_network d' = d_network d"
      "case st of
         IP_OCCUPIED_ALLOCATED_ANOTHER \<Rightarrow> is_host d a \<and> \<not> host_taken d a \<and> (\<forall>x. is_host d x \<longrightarrow> host_taken d' x = (x = a \<or> host_taken d x))
       | NO_IP_AVAILABLE \<Rightarrow> host_taken d 2 \<and> d' = d
       | ALLOC_FAILURE \<Rightarrow> (\<exists>i. \<not> alloc k i) \<and> (\<forall>x. host_taken d' x = host_taken d x)
       | _ \<Rightarrow> False"
    using AllocateNextAvailable_ok [OF assms(1,2), of "alloc k" a0] by blast
  have "request_outcome alloc d d' req out (if granted st then host_addr d' a else out) st"
    using o assms(3,4) host_addr_same [OF o(3)] by (cases st) (auto simp: request_outcome_def granted_def)
  then show ?thesis using r by blast
qed

text \<open>A failed or redirected first attempt leaves the hosts taken and lets the second one answer.\<close>

lemma request_outcome_trans:
  assumes "request_outcome alloc d1 d' req out out' st" "dhcp_wf d" "d_depth d1 = d_depth d" "d_network d1 = d_network d"
    "\<forall>x. is_host d x \<and> host_taken d x \<longrightarrow> host_taken d1 x"
    "req = 0 \<or> host_taken d (take_bit (d_depth d) req) \<or> (\<exists>i j. \<not> alloc i j)" "st \<noteq> SUCCESS"
  shows "request_outcome alloc d d' req out out' st"
  using assms is_host_same_depth [OF assms(3)] host_addr_same [OF assms(4)] by (cases st) (auto simp: request_outcome_def)

lemma next_not_success:
  "dhcp_wf d \<Longrightarrow> d_depth d < fuel \<Longrightarrow> AllocateNextAvailable fuel alloc d a0 = Inr (d', a, st) \<Longrightarrow> st \<noteq> SUCCESS"
  using AllocateNextAvailable_ok [of d fuel alloc a0] by fastforce

lemma serve_ok:
  assumes "dhcp_wf d" "d_depth d < fuel" "length out = 4"
  shows "\<exists>d' a st. serve fuel alloc d (take_bit (d_depth d) req) = Inr (d', a, st) \<and>
    request_outcome alloc d d' req out (if granted st then host_addr d' a else out) st"
proof -
  let ?h = "take_bit (d_depth d) req"
  obtain t a st where r: "TRIEInsert fuel (alloc 0) (d_trie d) 0 ?h (d_depth d) = Inr (t, a, st)"
    and o: "host_outcome (alloc 0) d (d\<lparr>d_trie := t\<rparr>) ?h a st"
    using insert_host [OF assms(1) is_host_take assms(2)] by blast
  let ?d = "d\<lparr>d_trie := t\<rparr>"
  have d1: "dhcp_wf ?d" "d_depth ?d < fuel" using o assms(2) by (auto simp: host_outcome_def)
  show ?thesis
  proof (cases "st = TRIE_IP_OCCUPIED_ALLOCATED_ANOTHER \<or> st = TRIE_ALLOC_FAILURE")
    case True
    have why: "req = 0 \<or> host_taken d ?h \<or> (\<exists>i j. \<not> alloc i j)" using True o by (auto simp: host_outcome_def)
    have mono: "\<forall>x. is_host d x \<and> host_taken d x \<longrightarrow> host_taken ?d x" using True o by (auto simp: host_outcome_def)
    have "is_host d ?h" by simp
    then have "req = 0 \<or> host_taken ?d (take_bit (d_depth ?d) req) \<or> (\<exists>i j. \<not> alloc i j)" using why mono by auto
    from request_next [OF d1 assms(3) this, of 1 a] obtain d' a' st' where
      n: "AllocateNextAvailable fuel (alloc 1) ?d a = Inr (d', a', st')"
        "request_outcome alloc ?d d' req out (if granted st' then host_addr d' a' else out) st'" by blast
    have "request_outcome alloc d d' req out (if granted st' then host_addr d' a' else out) st'"
      by (rule request_outcome_trans [OF n(2) assms(1) _ _ mono why next_not_success [OF d1 n(1)]]) simp_all
    then show ?thesis using r n(1) True by (auto simp: serve_def Let_def)
  next
    case False
    then have "serve fuel alloc d ?h = Inr (?d, a, ConvertTrieStatus st)" using r by (cases st) (auto simp: serve_def Let_def)
    moreover have "request_outcome alloc d ?d req out (if granted (ConvertTrieStatus st) then host_addr ?d a else out) (ConvertTrieStatus st)"
      using False o assms(3) host_addr_same [of ?d d] by (cases st) (auto simp: host_outcome_def request_outcome_def granted_def Let_def)
    ultimately show ?thesis by blast
  qed
qed

lemma DHCPAllocateIP_ok:
  assumes "dhcp_wf d" "d_depth d < fuel" "length out = 4"
  shows "\<exists>d' out' st. DHCPAllocateIP fuel alloc d out (quad req) = Inr (d', out', st) \<and> request_outcome alloc d d' req out out' st"
proof (cases "req = 0 \<or> reserved_host d (take_bit (d_depth d) req)")
  case True
  then have "req = 0 \<or> host_taken d (take_bit (d_depth d) req) \<or> (\<exists>i j. \<not> alloc i j)" using assms(1) by (auto simp: dhcp_wf_def)
  from request_next [OF assms this, of 0 0] show ?thesis using True by (auto simp: DHCPAllocateIP_serve [OF assms(1,3)])
next
  case False
  from serve_ok [OF assms, of alloc req] show ?thesis using False by (auto simp: DHCPAllocateIP_serve [OF assms(1,3)])
qed

text \<open>A release frees the host of the address, whatever network the address names.\<close>

lemma DHCPFreeIP_ok:
  assumes "dhcp_wf d"
  shows "\<exists>d' st. DHCPFreeIP d (quad w) = Inr (d', st) \<and> dhcp_wf d' \<and> d_depth d' = d_depth d \<and> d_network d' = d_network d \<and>
    (let h = take_bit (d_depth d) w
     in if reserved_host d h then st = DOUBLE_FREE \<and> d' = d
        else if host_taken d h then st = SUCCESS \<and> (\<forall>x. is_host d x \<longrightarrow> host_taken d' x = (x \<noteq> h \<and> host_taken d x))
        else (st = DOUBLE_FREE \<or> st = IP_NOT_FOUND) \<and> d' = d)"
proof -
  let ?h = "take_bit (d_depth d) w"
  have wf: "trie_wf (d_depth d) (d_trie d)" "d_trie d \<noteq> TNull" "d_depth d \<le> 32" "2 \<le> d_depth d" using assms by (auto simp: dhcp_wf_def)
  obtain t st where r: "TRIEFree (d_trie d) ?h (d_depth d) = Inr (t, st)" "trie_wf (d_depth d) t" "keeps (d_trie d) t"
    and o: "host_taken d ?h \<and> st = TRIE_SUCCESS \<and> (\<forall>x. taken t x = (x \<noteq> bits (d_depth d) ?h \<and> taken (d_trie d) x)) \<or>
     \<not> host_taken d ?h \<and> (st = TRIE_IP_NOT_FOUND \<or> st = TRIE_DOUBLE_FREE) \<and> t = d_trie d"
    using TRIEFree_ok [OF wf(1-3), of ?h] by (auto simp: host_taken_def)
  have t: "t \<noteq> TNull" using r(3) wf(2) by (auto simp: keeps_def dest: spec [of _ "[]"])
  have code: "DHCPFreeIP d (quad w) = (if reserved_host d ?h then Inr (d, DOUBLE_FREE) else Inr (d\<lparr>d_trie := t\<rparr>, ConvertTrieStatus st))"
    using wf(2) r(1) by (simp add: DHCPFreeIP_def Extract_ok [OF assms] IsReservedHost_ok [OF assms])
  show ?thesis
  proof (cases "\<not> reserved_host d ?h \<and> host_taken d ?h")
    case True
    have eq: "bits (d_depth d) x = bits (d_depth d) ?h \<longleftrightarrow> x = ?h" if "is_host d x" for x
      using that bits_host_eq [of "d_depth d" x ?h] by (auto simp: is_host_def)
    have taken: "is_host d x \<Longrightarrow> host_taken (d\<lparr>d_trie := t\<rparr>) x = (x \<noteq> ?h \<and> host_taken d x)" for x
      using o True eq by (auto simp: host_taken_def)
    have "host_taken (d\<lparr>d_trie := t\<rparr>) x" if "reserved_host (d\<lparr>d_trie := t\<rparr>) x" for x
    proof -
      have x: "reserved_host d x" using that by (simp add: reserved_host_def)
      then have "is_host d x" "host_taken d x" using is_host_reserved [OF wf(4)] assms by (auto simp: dhcp_wf_def)
      then show ?thesis using taken x True by auto
    qed
    then have "dhcp_wf (d\<lparr>d_trie := t\<rparr>)" using assms r(2) t by (simp add: dhcp_wf_def)
    then show ?thesis using code True taken o by (auto simp: Let_def)
  next
    case False
    then show ?thesis using code o assms by (auto simp: Let_def)
  qed
qed


section \<open>Creation, destruction, counting\<close>

lemma create_insert:
  assumes "trie_wf D t" "t \<noteq> TNull" "D \<le> 31" "D < fuel" "\<not> taken t (bits D h)"
  shows "\<exists>t' a st. TRIEInsert fuel alloc t a0 h D = Inr (t', a, st) \<and> trie_wf D t' \<and> t' \<noteq> TNull \<and>
    (st = TRIE_SUCCESS \<and> (\<forall>x. taken t' x = (x = bits D h \<or> taken t x)) \<or> st = TRIE_ALLOC_FAILURE \<and> (\<exists>i. \<not> alloc i))"
proof -
  obtain t' a st where r: "TRIEInsert fuel alloc t a0 h D = Inr (t', a, st)" and o: "insert_outcome D alloc t t' a0 h a st"
    using TRIEInsert_ok [OF assms(1-4)] by blast
  have "t' \<noteq> TNull" using o assms(2) by (auto simp: insert_outcome_def keeps_def dest: spec [of _ "[]"])
  then show ?thesis using r o assms(5) by (cases st) (auto simp: insert_outcome_def)
qed

lemma subnet_ok:
  assumes "2 \<le> m" "m \<le> 30"
  shows "\<exists>net. ConvertSubnetToUInt (quad w) m = Inr net \<and> take_bit (32 - m) net = 0 \<and> drop_bit (32 - m) net = drop_bit (32 - m) w"
proof -
  let ?net = "w AND push_bit (32 - m) (- 1)"
  have "take_bit (32 - m) ?net = 0" by (rule bit_word_eqI) (auto simp: bit_simps)
  moreover have "drop_bit (32 - m) ?net = drop_bit (32 - m) w"
    by (rule bit_word_eqI) (auto simp: bit_simps dest: bit_imp_le_length)
  ultimately show ?thesis using assms by (auto simp: ConvertSubnetToUInt_def quad_uint)
qed

lemma three_hosts:
  assumes "2 \<le> D" "D \<le> 31"
  shows "bits D 1 \<noteq> bits D 0" "bits D (of_nat (2 ^ D) - 1) \<noteq> bits D 0" "bits D (of_nat (2 ^ D) - 1) \<noteq> bits D 1"
proof -
  have m: "bit (of_nat (2 ^ D) - 1 :: 32 word) i \<longleftrightarrow> i < D" for i
    using assms(2) by (auto simp: bit_mask_iff dest: bit_imp_le_length simp flip: mask_eq_exp_minus_1)
  show "bits D 1 \<noteq> bits D 0" using assms by (auto simp: bits_eq_iff intro: exI [of _ 0])
  show "bits D (of_nat (2 ^ D) - 1) \<noteq> bits D 0" using assms m by (auto simp: bits_eq_iff intro: exI [of _ 0])
  have "1 < D \<and> bit (of_nat (2 ^ D) - 1 :: 32 word) 1 \<noteq> bit (1 :: 32 word) 1" using assms(1) m by (simp add: bit_1_iff)
  then show "bits D (of_nat (2 ^ D) - 1) \<noteq> bits D 1" unfolding bits_eq_iff by blast
qed

lemma root_trie: "trie_wf (Suc D) (TRIECreate True)" "TRIECreate True \<noteq> TNull" "\<not> taken (TRIECreate True) (bits (Suc D) h)"
  by (simp_all add: TRIECreate_def taken_def)

lemma created_ok:
  assumes "2 \<le> D" "D \<le> 30" "trie_wf D t" "t \<noteq> TNull" "take_bit D net = 0"
    "\<And>h. taken t (bits D h) = (bits D h = bits D (of_nat (2 ^ D) - 1) \<or> bits D h = bits D 1 \<or> bits D h = bits D 0)"
  shows "dhcp_wf \<lparr>d_trie = t, d_network = net, d_depth = D\<rparr> \<and>
    (\<forall>h. is_host \<lparr>d_trie = t, d_network = net, d_depth = D\<rparr> h \<longrightarrow>
       host_taken \<lparr>d_trie = t, d_network = net, d_depth = D\<rparr> h = reserved_host \<lparr>d_trie = t, d_network = net, d_depth = D\<rparr> h)"
proof -
  let ?d = "\<lparr>d_trie = t, d_network = net, d_depth = D\<rparr>"
  have eq: "bits D x = bits D y \<longleftrightarrow> x = y" if "is_host ?d x" "is_host ?d y" for x y
    using that bits_host_eq [of D x y] by (simp add: is_host_def)
  have res: "is_host ?d 0" "is_host ?d 1" "is_host ?d (of_nat (2 ^ D) - 1)"
    by (rule is_host_reserved; simp add: reserved_host_def assms(1))+
  have "host_taken ?d h = reserved_host ?d h" if "is_host ?d h" for h
    using assms(6) [of h] eq [OF that res(1)] eq [OF that res(2)] eq [OF that res(3)]
    by (simp add: host_taken_def reserved_host_def) blast
  moreover have "dhcp_wf ?d" using assms by (auto simp: dhcp_wf_def reserved_host_def host_taken_def)
  ultimately show ?thesis by blast
qed

lemma DHCPCreate_ok:
  assumes "2 \<le> m" "m \<le> 30" "32 - m < fuel"
  shows "\<exists>r. DHCPCreate fuel struct_ok root_ok alloc (quad w) m = Inr r \<and>
    (case r of
       Inl freed \<Rightarrow> \<not> struct_ok \<or> \<not> root_ok \<or> (\<exists>k i. \<not> alloc k i)
     | Inr d \<Rightarrow> dhcp_wf d \<and> d_depth d = 32 - m \<and> drop_bit (32 - m) (d_network d) = drop_bit (32 - m) w \<and>
         (\<forall>h. is_host d h \<longrightarrow> host_taken d h = reserved_host d h))"
proof -
  let ?D = "32 - m"
  have D: "2 \<le> ?D" "?D \<le> 30" "?D \<le> 31" using assms by simp_all
  obtain net where net: "ConvertSubnetToUInt (quad w) m = Inr net" "take_bit ?D net = 0" "drop_bit ?D net = drop_bit ?D w"
    using subnet_ok [OF assms(1,2)] by blast
  note three = three_hosts [OF D(1,3)]
  show ?thesis
  proof (cases "struct_ok \<and> root_ok")
    case False
    then show ?thesis using assms D(1) net(1) by (auto simp: DHCPCreate_def Let_def TRIECreate_def)
  next
    case True
    let ?t0 = "TRIECreate True"
    obtain n where n: "?D = Suc n" using D(1) by (cases ?D) auto
    have t0: "trie_wf ?D ?t0" "?t0 \<noteq> TNull" "\<And>x. \<not> taken ?t0 (bits ?D x)" unfolding n using root_trie by auto
    obtain t1 a1 s1 where 1: "TRIEInsert fuel (alloc 0) ?t0 0 0 ?D = Inr (t1, a1, s1)" "trie_wf ?D t1" "t1 \<noteq> TNull"
      "s1 = TRIE_SUCCESS \<and> (\<forall>x. taken t1 x = (x = bits ?D 0 \<or> taken ?t0 x)) \<or> s1 = TRIE_ALLOC_FAILURE \<and> (\<exists>i. \<not> alloc 0 i)"
      using create_insert [OF t0(1,2) D(3) assms(3) t0(3) [of 0], of "alloc 0" 0] by blast
    show ?thesis
    proof (cases "s1 = TRIE_SUCCESS")
      case False
      then have "\<exists>f. DHCPCreate fuel struct_ok root_ok alloc (quad w) m = Inr (Inl f)"
        using 1(1) True net(1) assms(1-2) D(1) t0(2) by (simp add: DHCPCreate_def Let_def)
      moreover have "\<exists>k i. \<not> alloc k i" using False 1(4) by blast
      ultimately show ?thesis by (elim exE) (simp, blast)
    next
      case s1: True
      then have x1: "\<And>x. taken t1 x = (x = bits ?D 0 \<or> taken ?t0 x)" using 1(4) by auto
      then have f1: "\<not> taken t1 (bits ?D 1)" using three(1) t0(3) by auto
      obtain t2 a2 s2 where 2: "TRIEInsert fuel (alloc 1) t1 a1 1 ?D = Inr (t2, a2, s2)" "trie_wf ?D t2" "t2 \<noteq> TNull"
        "s2 = TRIE_SUCCESS \<and> (\<forall>x. taken t2 x = (x = bits ?D 1 \<or> taken t1 x)) \<or> s2 = TRIE_ALLOC_FAILURE \<and> (\<exists>i. \<not> alloc 1 i)"
        using create_insert [OF 1(2,3) D(3) assms(3) f1, of "alloc 1" a1] by blast
      show ?thesis
      proof (cases "s2 = TRIE_SUCCESS")
        case False
        then have "\<exists>f. DHCPCreate fuel struct_ok root_ok alloc (quad w) m = Inr (Inl f)"
          using 1(1) 2(1) s1 True net(1) assms(1-2) D(1) t0(2) by (simp add: DHCPCreate_def Let_def)
        moreover have "\<exists>k i. \<not> alloc k i" using False 2(4) by blast
        ultimately show ?thesis by (elim exE) (simp, blast)
      next
        case s2: True
        then have x2: "\<And>x. taken t2 x = (x = bits ?D 1 \<or> x = bits ?D 0 \<or> taken ?t0 x)" using 2(4) x1 by auto
        then have f2: "\<not> taken t2 (bits ?D (of_nat (2 ^ ?D) - 1))" using three(2,3) t0(3) by auto
        obtain t3 a3 s3 where 3: "TRIEInsert fuel (alloc 2) t2 a2 (of_nat (2 ^ ?D) - 1) ?D = Inr (t3, a3, s3)" "trie_wf ?D t3" "t3 \<noteq> TNull"
          "s3 = TRIE_SUCCESS \<and> (\<forall>x. taken t3 x = (x = bits ?D (of_nat (2 ^ ?D) - 1) \<or> taken t2 x)) \<or> s3 = TRIE_ALLOC_FAILURE \<and> (\<exists>i. \<not> alloc 2 i)"
          using create_insert [OF 2(2,3) D(3) assms(3) f2, of "alloc 2" a2] by blast
        have sh: "shl1 ?D = Inr (2 ^ ?D)" using D(2) by (simp add: shl1_def)
        let ?d = "\<lparr>d_trie = t3, d_network = net, d_depth = ?D\<rparr>"
        have code: "DHCPCreate fuel struct_ok root_ok alloc (quad w) m =
            (if s3 \<noteq> TRIE_SUCCESS then Inr (Inl (CleanupDhcp ?d)) else Inr (Inr ?d))"
          using 1(1) 2(1) 3(1) sh s1 s2 True net(1) assms(1-2) D(1) t0(2) by (simp add: DHCPCreate_def Let_def)
        have "s3 = TRIE_SUCCESS \<Longrightarrow> dhcp_wf ?d \<and> (\<forall>h. is_host ?d h \<longrightarrow> host_taken ?d h = reserved_host ?d h)"
          using 3(4) x2 t0(3) by (intro created_ok D(1,2) 3(2,3) net(2)) auto
        moreover have "s3 \<noteq> TRIE_SUCCESS \<Longrightarrow> \<exists>k i. \<not> alloc k i" using 3(4) by blast
        ultimately show ?thesis using code net(3) by (cases "s3 = TRIE_SUCCESS") auto
      qed
    qed
  qed
qed


text \<open>With a mask of one bit the code shifts \<open>1\<close> out of an \<open>int\<close>.\<close>

lemma DHCPCreate_mask_1:
  assumes "31 < fuel"
  shows "DHCPCreate fuel True True (\<lambda>_ _. True) (quad w) 1 = Inl Int_overflow"
proof -
  have three: "bits 31 (1 :: 32 word) \<noteq> bits 31 0" using three_hosts(1) [of 31] by simp
  have t0: "trie_wf 31 (TRIECreate True)" "TRIECreate True \<noteq> TNull" "\<And>x. \<not> taken (TRIECreate True) (bits 31 x)"
    using root_trie(1) [of 30] root_trie(2) root_trie(3) [of 30] by simp_all
  obtain t1 a1 s1 where 1: "TRIEInsert fuel (\<lambda>_. True) (TRIECreate True) 0 0 31 = Inr (t1, a1, s1)" "trie_wf 31 t1" "t1 \<noteq> TNull"
    "s1 = TRIE_SUCCESS \<and> (\<forall>x. taken t1 x = (x = bits 31 0 \<or> taken (TRIECreate True) x))"
    using create_insert [OF t0(1,2) _ assms t0(3) [of 0], of "\<lambda>_. True" 0] by auto
  have f1: "\<not> taken t1 (bits 31 1)" using 1(4) three t0(3) [of 1] by blast
  obtain t2 a2 s2 where 2: "TRIEInsert fuel (\<lambda>_. True) t1 a1 1 31 = Inr (t2, a2, s2)" "s2 = TRIE_SUCCESS"
    using create_insert [OF 1(2,3) _ assms f1, of "\<lambda>_. True" a1] by auto
  show ?thesis using 1(1,4) 2 t0(2) by (simp add: DHCPCreate_def Let_def ConvertSubnetToUInt_def quad_uint shl1_def)
qed

text \<open>The free hosts and the free paths of the trie are the same number.\<close>

lemma bits_onto: "n \<le> 32 \<Longrightarrow> length p = n \<Longrightarrow> \<exists>h. take_bit n h = h \<and> bits n h = p"
proof (induction n arbitrary: p)
  case (Suc n)
  obtain b q where p: "p = b # q" "length q = n" using Suc.prems(2) by (cases p) auto
  obtain h where h: "take_bit n h = h" "bits n h = q" using Suc.IH [of q] Suc.prems(1) p(2) by auto
  let ?h = "if b then set_bit n h else h"
  have hi: "\<not> bit h i" if "n \<le> i" for i using h(1) that by (metis bit_take_bit_iff not_less)
  have low: "bit ?h i = (if i = n then b else bit h i)" for i
    using Suc.prems(1) hi by (auto simp: bit_simps)
  have "bit (take_bit (Suc n) ?h) i = bit ?h i" for i
    using hi [of i] by (cases "i < Suc n") (auto simp: bit_take_bit_iff low)
  then have "take_bit (Suc n) ?h = ?h" by (intro bit_word_eqI) blast
  moreover have "bits (Suc n) ?h = p" using h(2) low by (simp add: p(1) bits_eq_iff flip: h(2))
  ultimately show ?case by blast
qed simp

lemma free_hosts_card:
  assumes "dhcp_wf d"
  shows "card {h. is_host d h \<and> \<not> host_taken d h} = card (free_paths (d_depth d) (d_trie d))"
proof -
  have "inj_on (bits (d_depth d)) {h. is_host d h \<and> \<not> host_taken d h}"
    using bits_host_eq by (auto simp: inj_on_def is_host_def)
  moreover have "bits (d_depth d) ` {h. is_host d h \<and> \<not> host_taken d h} = free_paths (d_depth d) (d_trie d)"
  proof (rule set_eqI, rule iffI)
    fix p
    assume "p \<in> free_paths (d_depth d) (d_trie d)"
    then have p: "length p = d_depth d" "\<not> taken (d_trie d) p" by (auto simp: free_paths_def)
    obtain h where "take_bit (d_depth d) h = h" "bits (d_depth d) h = p" using bits_onto [OF _ p(1)] assms by (auto simp: dhcp_wf_def)
    then show "p \<in> bits (d_depth d) ` {h. is_host d h \<and> \<not> host_taken d h}" using p(2) by (auto simp: is_host_def host_taken_def)
  qed (auto simp: free_paths_def host_taken_def)
  ultimately show ?thesis by (metis card_image)
qed

lemma DHCPCountFree_ok:
  assumes "dhcp_wf d"
  shows "DHCPCountFree d = Inr (card {h. is_host d h \<and> \<not> host_taken d h} - 3)"
proof -
  have "TRIECountFree (d_trie d) (d_depth d) = Inr (card (free_paths (d_depth d) (d_trie d)))"
    using assms by (intro TRIECountFree_ok) (auto simp: dhcp_wf_def)
  then show ?thesis using assms by (simp add: DHCPCountFree_def dhcp_wf_def flip: free_hosts_card [OF assms])
qed

section \<open>The life of a manager\<close>

text \<open>The manager and the addresses its clients hold: whatever a request grants, until it is given back.\<close>

inductive dhcp_run :: "dhcp \<Rightarrow> byte list set \<Rightarrow> bool" where
  start: "DHCPCreate fuel struct_ok root_ok alloc netip m = Inr (Inr d) \<Longrightarrow> length netip = 4 \<Longrightarrow> 2 \<le> m \<Longrightarrow> m \<le> 30 \<Longrightarrow> 32 - m < fuel \<Longrightarrow>
     dhcp_run d {}"
| request: "dhcp_run d H \<Longrightarrow> DHCPAllocateIP fuel alloc d out req = Inr (d', out', st) \<Longrightarrow> length out = 4 \<Longrightarrow> length req = 4 \<Longrightarrow> d_depth d < fuel \<Longrightarrow>
     dhcp_run d' (if granted st then insert out' H else H)"
| release: "dhcp_run d H \<Longrightarrow> ip \<in> H \<Longrightarrow> DHCPFreeIP d ip = Inr (d', st) \<Longrightarrow> dhcp_run d' (H - {ip})"

definition held :: "dhcp \<Rightarrow> byte list \<Rightarrow> bool" where
  "held d ip \<longleftrightarrow> (\<exists>h. is_host d h \<and> \<not> reserved_host d h \<and> host_taken d h \<and> ip = host_addr d h)"

lemma take_addr:
  assumes "dhcp_wf d" "is_host d h"
  shows "take_bit (d_depth d) (d_network d OR h) = h"
  using assms take_bit_network by (auto simp: dhcp_wf_def is_host_def)

lemma host_addr_inj: "dhcp_wf d \<Longrightarrow> is_host d x \<Longrightarrow> is_host d y \<Longrightarrow> host_addr d x = host_addr d y \<longleftrightarrow> x = y"
  by (metis take_addr host_addr_def quad_inj)

lemma granted_host:
  assumes "request_outcome alloc d d' req out out' st" "granted st" "dhcp_wf d"
  shows "\<exists>h. is_host d h \<and> \<not> host_taken d h \<and> \<not> reserved_host d h \<and> host_taken d' h \<and> out' = host_addr d h"
proof -
  have "\<exists>h. is_host d h \<and> \<not> host_taken d h \<and> host_taken d' h \<and> out' = host_addr d h"
  proof (cases "st = SUCCESS")
    case True
    then show ?thesis using assms(1) by (intro exI [of _ "take_bit (d_depth d) req"]) (auto simp: request_outcome_def Let_def)
  next
    case False
    then show ?thesis using assms(1,2) by (auto simp: request_outcome_def granted_def)
  qed
  then show ?thesis using assms(3) by (auto simp: dhcp_wf_def)
qed

lemma held_same: "d_depth d' = d_depth d \<Longrightarrow> d_network d' = d_network d \<Longrightarrow>
    held d' ip \<longleftrightarrow> (\<exists>h. is_host d h \<and> \<not> reserved_host d h \<and> host_taken d' h \<and> ip = host_addr d h)"
  by (simp add: held_def is_host_def reserved_host_def host_addr_def)

lemma dhcp_run_inv: "dhcp_run d H \<Longrightarrow> dhcp_wf d \<and> (\<forall>ip \<in> H. held d ip)"
proof (induction rule: dhcp_run.induct)
  case (start fuel struct_ok root_ok alloc netip m d)
  obtain w where "netip = quad w" using quad_surj [OF start(2)] by blast
  then show ?case using DHCPCreate_ok [OF start(3-5), of struct_ok root_ok alloc w] start(1) by auto
next
  case (request d H fuel alloc out req d' out' st)
  obtain w where w: "req = quad w" using quad_surj [OF request(4)] by blast
  have o: "request_outcome alloc d d' w out out' st"
    using DHCPAllocateIP_ok [of d fuel out alloc w] request w by auto
  then have same: "d_depth d' = d_depth d" "d_network d' = d_network d" "dhcp_wf d'" "\<forall>x. is_host d x \<and> host_taken d x \<longrightarrow> host_taken d' x"
    by (auto simp: request_outcome_def)
  have "held d' ip" if "ip \<in> H" for ip
    using request.IH that same(4) unfolding held_same [OF same(1,2)] held_def [of d] by blast
  moreover have "granted st \<Longrightarrow> held d' out'"
    using granted_host [OF o] request.IH by (auto simp: held_same [OF same(1,2)])
  ultimately show ?case using same(3) by auto
next
  case (release d H ip d' st)
  then have wf: "dhcp_wf d" by blast
  obtain h where h: "is_host d h" "\<not> reserved_host d h" "host_taken d h" "ip = host_addr d h" using release by (auto simp: held_def)
  have th: "take_bit (d_depth d) (d_network d OR h) = h" by (rule take_addr [OF wf h(1)])
  have d': "dhcp_wf d'" "d_depth d' = d_depth d" "d_network d' = d_network d" "\<forall>x. is_host d x \<longrightarrow> host_taken d' x = (x \<noteq> h \<and> host_taken d x)"
    using DHCPFreeIP_ok [OF wf, of "d_network d OR h"] release(3) h th by (auto simp: host_addr_def Let_def)
  have "held d' x" if x: "x \<in> H - {ip}" for x
  proof -
    obtain k where "is_host d k" "\<not> reserved_host d k" "host_taken d k" "x = host_addr d k" using x release.IH by (auto simp: held_def)
    moreover have "k \<noteq> h" using x h(4) calculation(4) by auto
    ultimately show ?thesis using d'(4) by (auto simp: held_same [OF d'(2,3)])
  qed
  then show ?case using d'(1) by blast
qed


text \<open>An address given out is new to its clients and names a host of the subnet that is not reserved.\<close>

lemma dhcp_request:
  assumes "dhcp_run d H" "d_depth d < fuel" "length out = 4" "length req = 4"
  shows "\<exists>d' out' st. DHCPAllocateIP fuel alloc d out req = Inr (d', out', st) \<and>
    dhcp_run d' (if granted st then insert out' H else H) \<and>
    (if granted st then out' \<notin> H \<and> held d' out' else out' = out \<and> (st = NO_IP_AVAILABLE \<or> st = ALLOC_FAILURE))"
proof -
  have inv: "dhcp_wf d" "\<forall>ip \<in> H. held d ip" using dhcp_run_inv [OF assms(1)] by blast+
  obtain w where w: "req = quad w" using quad_surj [OF assms(4)] by blast
  obtain d' out' st where r: "DHCPAllocateIP fuel alloc d out req = Inr (d', out', st)" and o: "request_outcome alloc d d' w out out' st"
    using DHCPAllocateIP_ok [OF inv(1) assms(2,3), of alloc w] w by blast
  have run: "dhcp_run d' (if granted st then insert out' H else H)" by (rule request [OF assms(1) r assms(3,4,2)])
  show ?thesis
  proof (cases "granted st")
    case True
    obtain h where h: "is_host d h" "\<not> host_taken d h" "out' = host_addr d h" using granted_host [OF o True inv(1)] by blast
    have "out' \<notin> H" using inv h host_addr_inj [OF inv(1) h(1)] by (auto simp: held_def)
    moreover have "held d' out'" using dhcp_run_inv [OF run] True by auto
    ultimately show ?thesis using r run True by auto
  next
    case False
    then show ?thesis using r run o by (cases st) (auto simp: granted_def request_outcome_def)
  qed
qed

lemma DHCPAllocateIP_keeps_depth:
  assumes "dhcp_run d H" "d_depth d < fuel" "length out = 4" "length req = 4" "DHCPAllocateIP fuel alloc d out req = Inr (d', out', st)"
  shows "d_depth d' = d_depth d"
proof -
  have "dhcp_wf d" using dhcp_run_inv [OF assms(1)] by blast
  moreover obtain w where "req = quad w" using quad_surj [OF assms(4)] by blast
  ultimately show ?thesis using DHCPAllocateIP_ok [of d fuel out alloc w] assms(2,3,5) by (auto simp: request_outcome_def)
qed

text \<open>Giving an address back succeeds, and asking for it again gets it again.\<close>

lemma dhcp_release:
  assumes "dhcp_run d H" "ip \<in> H" "d_depth d < fuel" "length out = 4" "\<forall>i. alloc 0 i"
  shows "\<exists>d'. DHCPFreeIP d ip = Inr (d', SUCCESS) \<and> dhcp_run d' (H - {ip}) \<and>
    (\<exists>d''. DHCPAllocateIP fuel alloc d' out ip = Inr (d'', ip, SUCCESS))"
proof -
  have wf: "dhcp_wf d" and "held d ip" using dhcp_run_inv [OF assms(1)] assms(2) by blast+
  then obtain h where h: "is_host d h" "\<not> reserved_host d h" "host_taken d h" "ip = host_addr d h" by (auto simp: held_def)
  let ?w = "d_network d OR h"
  have th: "take_bit (d_depth d) ?w = h" by (rule take_addr [OF wf h(1)])
  obtain d' where d': "DHCPFreeIP d ip = Inr (d', SUCCESS)" "dhcp_wf d'" "d_depth d' = d_depth d" "d_network d' = d_network d"
    "\<forall>x. is_host d x \<longrightarrow> host_taken d' x = (x \<noteq> h \<and> host_taken d x)"
    using DHCPFreeIP_ok [OF wf, of ?w] h th by (auto simp: host_addr_def Let_def)
  have free: "\<not> host_taken d' h" "is_host d' h" "\<not> reserved_host d' h" "take_bit (d_depth d') ?w = h"
    using d'(3-5) h(1,2) th by (auto simp: is_host_def reserved_host_def)
  have fuel: "d_depth d' < fuel" using d'(3) assms(3) by simp
  obtain t a st where t: "TRIEInsert fuel (alloc 0) (d_trie d') 0 h (d_depth d') = Inr (t, a, st)"
    "host_outcome (alloc 0) d' (d'\<lparr>d_trie := t\<rparr>) h a st"
    using insert_host [OF d'(2) free(2) fuel] by blast
  have "st = TRIE_SUCCESS" "a = h" using t(2) free(1) assms(5) by (cases st; simp add: host_outcome_def)+
  then have "serve fuel alloc d' h = Inr (d'\<lparr>d_trie := t\<rparr>, h, SUCCESS)" using t(1) by (simp add: serve_def)
  moreover have "?w \<noteq> 0" using not_reserved_nonzero [of d' ?w] free(3,4) by simp
  ultimately have "DHCPAllocateIP fuel alloc d' out ip = Inr (d'\<lparr>d_trie := t\<rparr>, ip, SUCCESS)"
    using DHCPAllocateIP_serve [OF d'(2) assms(4), of fuel alloc ?w] free(3,4) d'(4) h(4) by (simp add: granted_def host_addr_def)
  moreover have "dhcp_run d' (H - {ip})" by (rule release [OF assms(1,2) d'(1)])
  ultimately show ?thesis using d'(1) by blast
qed

text \<open>A sequence of requests, with the answers.\<close>

primrec requests :: "dhcp \<Rightarrow> byte list list \<Rightarrow> (dhcp \<times> (byte list \<times> dhcp_status_e) list) result" where
  "requests d [] = Inr (d, [])"
| "requests d (req # reqs) =
     bindE (DHCPAllocateIP 33 (\<lambda>_ _. True) d [0, 0, 0, 0] req) (\<lambda>(d', out, st).
     bindE (requests d' reqs) (\<lambda>(d'', answers). Inr (d'', (out, st) # answers)))"

definition pool_29 :: "byte list list \<Rightarrow> ((byte list \<times> dhcp_status_e) list \<times> 32 word list) result" where
  "pool_29 reqs =
     bindE (DHCPCreate 33 True True (\<lambda>_ _. True) [192, 168, 1, 0] 29) (\<lambda>r.
     case r of Inl freed \<Rightarrow> Inr ([], [])
     | Inr d \<Rightarrow> bindE (requests d reqs) (\<lambda>(d', answers). Inr (answers, filter (host_taken d') [0, 1, 2, 3, 4, 5, 6, 7])))"

text \<open>
  In a pool of eight hosts the third request finds no address while three hosts are free, and a request
  for an address that is held takes a host that nobody is given.
\<close>

lemma pool_29_starves:
  "pool_29 [[0, 0, 0, 0], [0, 0, 0, 0], [0, 0, 0, 0]] =
     Inr ([([192, 168, 1, 2], IP_OCCUPIED_ALLOCATED_ANOTHER), ([192, 168, 1, 6], IP_OCCUPIED_ALLOCATED_ANOTHER),
           ([0, 0, 0, 0], NO_IP_AVAILABLE)], [0, 1, 2, 6, 7])"
  by code_simp

lemma pool_29_leaks:
  "pool_29 [[192, 168, 1, 2], [192, 168, 1, 2]] =
     Inr ([([192, 168, 1, 2], SUCCESS), ([0, 0, 0, 0], NO_IP_AVAILABLE)], [0, 1, 2, 6, 7])"
  by code_simp

end
