(* ===== verification/Spec2Isabelle.thy ===== *)
theory Spec2Isabelle
  imports Watchdog_Runs FSQ MT_Counting MT_Quick Knight_Tour Recursion Calc_Grammar Bit_Arr Vector Stack CBuff Queue Hash_Table Heap_PQ Sorted_List BST AVL Sched Cmp_Sorting Sorts Linear_Sorting FSA VSA DHCP
begin

text \<open>
  A verification development for the C code of InfinityLabs: the data structures of \<open>src/ds\<close>, the
  projects of \<open>src/projects\<close> and the bounded queue of \<open>src/system_programming\<close>.

  \<^bold>\<open>How C is modelled.\<close> A C function is a HOL function with the same name. Its result type is
  \<open>'a result\<close> (theory \<open>Prelude\<close>): \<open>Inl\<close> a fault (a failed \<open>assert\<close>, an access outside an object or
  through a dangling pointer, a bad \<open>free\<close>, a signed overflow, a spent budget) or \<open>Inr\<close> the value.
  Functions that cannot fault return a plain value. Structs are records. Memory is explicit where the
  code works on it: byte buffers with checked reads and writes (vector, stack, circular buffer, heap,
  quick sort), stores of nodes indexed by address (singly and doubly linked lists and what is built on
  them), arrays of \<open>int\<close> with checked accesses (sorting). Trees whose nodes are owned by their parents are
  datatypes (AVL, the address trie). Pointers are 64-bit words and 0 is NULL; \<open>size_t\<close> values are naturals, with
  \<open>szadd\<close>, \<open>szsub\<close> and \<open>szmul\<close> where the code's arithmetic can wrap. What \<open>malloc\<close>, \<open>calloc\<close> and
  \<open>realloc\<close> answer, success or not and what the new bytes hold, is an argument of the caller; so are
  callbacks, the clock, \<open>sleep\<close> and the network interfaces.

  \<^bold>\<open>Budgets.\<close> A loop over a linked structure that could be cyclic, and a loop whose end depends on the
  outside, takes a budget \<open>fuel\<close>; its lemmas state which budget is enough (the length of the list, the
  number of tasks plus the longest wait, the size of the array, the number of decimal digits). All other
  loops are total functions with a termination proof.

  \<^bold>\<open>Theories.\<close>
  \<^item> \<open>Prelude\<close>: faults, machine arithmetic, byte buffers, and the interfaces: \<open>cmp_order\<close> (what a
    comparison callback must be), \<open>data_refinement\<close> and \<open>rel_refinement\<close> (calls that follow an abstract
    machine, with the consequence for whole call sequences), \<open>framed\<close> (structures that live side by side
    in one store).
  \<^item> \<open>Bit_Arr\<close> (\<open>ds/src/bit_arr.c\<close>): 64-bit arrays, lookup tables included.
  \<^item> \<open>Vector\<close>, \<open>Stack\<close>, \<open>CBuff\<close> (\<open>vector.c\<close>, \<open>stack.c\<close>, \<open>cbuff.c\<close>): buffers, each with an interpretation
    of \<open>data_refinement\<close>.
  \<^item> \<open>SLL\<close>, \<open>Queue\<close>, \<open>Hash_Table\<close> (\<open>sll.c\<close>, \<open>queue.c\<close>, \<open>hash_table.c\<close>): lists in a store; the hash table
    is a family of lists with disjoint footprints; interpretations of \<open>framed\<close> and \<open>rel_refinement\<close>.
  \<^item> \<open>DLL\<close>, \<open>Sorted_List\<close> (\<open>dll.c\<close>, \<open>sortedl.c\<close>).
  \<^item> \<open>Heap_PQ\<close> (\<open>heap.c\<close>, \<open>pq.c\<close>): the heap works on the bytes of a vector.
  \<^item> \<open>AVL\<close> (\<open>avl.c\<close>).
  \<^item> \<open>Sched\<close> (\<open>ds/src/uid.c\<close>, \<open>projects/sched/src/task.c\<close>, \<open>sched.c\<close>): identifiers, tasks, and the
    scheduler over the heap; its comparison callback interprets \<open>cmp_order\<close>.
  \<^item> \<open>Arrays\<close>, \<open>Cmp_Sorting\<close>, \<open>Sorts\<close>, \<open>Linear_Sorting\<close> (\<open>projects/sorting/src\<close>): the vocabulary of windows
    and rearrangements, and every single-threaded sort and search.
  \<^item> \<open>Memory_Words\<close>, \<open>FSA\<close> and \<open>VSA\<close> (\<open>projects/fsa/src/fsa.c\<close>, \<open>projects/vsa/src/vsa.c\<close>): eight-byte
    numbers in byte buffers, and the two allocators: one chains its free blocks inside the pool, the
    other puts a header before every block; each interprets \<open>rel_refinement\<close>.
  \<^item> \<open>BST\<close> (\<open>ds/src/bst.c\<close>): the search tree on a store of nodes with parent links.
  \<^item> \<open>DHCP_Trie\<close>, \<open>DHCP\<close> (\<open>projects/dhcp/src/trie.c\<close>, \<open>dhcp.c\<close>): the trie of taken addresses and the
    address manager; \<open>dhcp_run\<close> is the life of a manager with the addresses its clients hold.
  \<^item> \<open>Calculator\<close>, \<open>Calc_Grammar\<close> (\<open>projects/calculator/src/calculator.c\<close>): the state machine over two
    stacks; the grammar of the texts it accepts and their values. The floating point unit is an
    argument (\<open>fpu\<close>), numbers are bit patterns.
  \<^item> \<open>Knight_Tour\<close> (\<open>projects/knight_tour/src/knight_tour.c\<close>): the table of moves, the heuristic and the
    backtracking search; \<open>search_answers\<close> says what each of its three mutually recursive functions promises.
  \<^item> \<open>Recursion\<close> (\<open>projects/recursion/src/recursion.c\<close>): Fibonacci numbers, list reversal, strings as
    offsets in buffers, the sorting of a stack.
  \<^item> \<open>MT_Counting\<close>, \<open>MT_Quick\<close> (\<open>projects/sorting/src/mt_counting_sort.c\<close>, \<open>mt_q_sort.c\<close>): the sorts that
    share their work among threads. In the first, threads meet at a lock: a run is a sequence of single
    steps, \<open>mt_reach_inv\<close> holds in all of them. In the second they work on disjoint chunks.
  \<^item> \<open>FSQ\<close> (\<open>system_programming/src/producer_consumer/fsq.c\<close>): the bounded queue for several producers and
    consumers, two locks and two semaphores around the list of \<open>SLL\<close>; \<open>fsq_inv\<close> accounts for every token.
  \<^item> \<open>Watchdog\<close>, \<open>Watchdog_Counts\<close>, \<open>Watchdog_Runs\<close> (\<open>utils/src/wd_lib.c\<close>, \<open>wd.c\<close>, \<open>wd_client.c\<close>): two processes
    that send each other heartbeats from tasks of the scheduler; rounds of \<open>SchedRun\<close> whose tasks clear it
    and add to it. A run is the list of what the outside does in each round, signals included; \<open>w_log\<close>
    records what the process did. \<open>good_run\<close> says that the system answers well, \<open>good_rounds_exist\<close> that
    such runs exist.

  \<^bold>\<open>What is shown.\<close> This theory lists the guarantees and, for the places where the code does not do what
  its header says, what it does instead.
  C1 to C9: the containers implement their abstract counterparts or keep their invariants. C10 to C13:
  the scheduler. C14 to C16: linked lists. C17: a removal that unbalances a tree. C18 to C21: sorting and
  searching. C22 and C23: the allocators. C24: the search tree. C25 to C27: the address pool. C28 and C29:
  the calculator. C30: the knight's tour. C31: Fibonacci numbers. C32 and C33: the threaded sorts. C34 and
  C35: the queue between threads. C36 to C40: the watchdog. The theories prove more than these: the
  lookup tables of \<open>Bit_Arr\<close>, the quadratic sorts (\<open>Cmp_Sorting\<close>), identifiers (\<open>uid_run_distinct\<close>),
  a pool that refuses addresses it has (\<open>pool_29_starves\<close>), the rest of \<open>Recursion\<close>, reading and
  splitting of files (\<open>MT_Quick\<close>).

  \<^bold>\<open>Not modelled.\<close> Printing and debugging helpers (\<open>HashDebugPrint\<close>); the exercises under \<open>c\<close>, \<open>cpp\<close>, \<open>quizzes\<close> and \<open>system_programming\<close> (single
  programs around input, output and system calls), the queue aside; \<open>Shuffle\<close> of the threaded quick sort
  (it gives \<open>qsort\<close> a random comparison, which C leaves undefined);
  the C++ framework of \<open>projects/final_project\<close> and the web application under \<open>bank-project\<close> (other
  languages); the tests.
\<close>

section \<open>Containers\<close>

text \<open>
  C1: the hash table implements a finite map. Whatever sequence of insertions (each key once, under
  a fresh node address), removals, lookups, size and emptiness queries a client makes, the code
  runs without a fault and answers what the map answers, provided the match callback is an
  equivalence that the hash callback respects.
\<close>

theorem hash_run_refines:
  assumes "hash_rel mt s a" "run_ok (hash_ok fuel) (hash_step fuel) (hash_spec mt) cs s a"
  shows "\<exists>s'. run_calls (hash_step fuel) cs s = Inr (s', snd (run_spec (hash_spec mt) cs a)) \<and>
    hash_rel mt s' (fst (run_spec (hash_spec mt) cs a))"
  using assms by (rule hash_refines.run_simulates)

definition empty_store :: sll_mem where
  "empty_store = \<lparr>nodes = Map.empty, lists = Map.empty\<rparr>"

definition eq_match :: "ptr \<Rightarrow> ptr \<Rightarrow> int" where
  "eq_match x y = (if x = y then 1 else 0)"

lemma small_table_fresh:
  "HashTableCreate 9 True True (\<lambda>j. Some (if j = 0 then 8 else 16)) (\<lambda>j. Some (if j = 0 then 24 else 32))
       empty_store unat 2 eq_match = Inr (m, Some t) \<Longrightarrow> fresh m 40"
  by (auto simp: HashTableCreate_def SLLCreate_def fresh_def empty_store_def store_node_def
      Let_def upt_rec [of 0 2] upt_rec [of "Suc 0" 2])

lemma small_table:
  "\<exists>m t. HashTableCreate 9 True True (\<lambda>j. Some (if j = 0 then 8 else 16)) (\<lambda>j. Some (if j = 0 then 24 else 32))
       empty_store unat 2 eq_match = Inr (m, Some t) \<and> hash_rel eq_match (m, t) (\<lambda>k. None, 0)"
proof -
  have "fresh_answers empty_store (\<lambda>j. if j = 0 then 8 else 16) (\<lambda>j. if j = 0 then 24 else 32) 2"
    by (auto simp: fresh_answers_def fresh_def empty_store_def less_2_cases_iff)
  moreover have "hash_contract \<lparr>h_capacity = 2, h_func = unat, h_is_match = eq_match, h_buckets = map (\<lambda>j. if j = 0 then 8 else 16) [0..<2]\<rparr>"
    by (simp add: hash_contract_def eq_match_def)
  ultimately show ?thesis
    using HashTableCreate_ok [of 2 empty_store "\<lambda>j. if j = 0 then 8 else 16" "\<lambda>j. if j = 0 then 24 else 32"
        "\<lambda>j. Some (if j = 0 then 8 else 16)" "\<lambda>j. Some (if j = 0 then 24 else 32)" unat eq_match 9] by auto
qed

theorem hash_run_refines_witness:
  "\<exists>m t s'. HashTableCreate 9 True True (\<lambda>j. Some (if j = 0 then 8 else 16)) (\<lambda>j. Some (if j = 0 then 24 else 32))
       empty_store unat 2 eq_match = Inr (m, Some t) \<and>
     run_calls (hash_step 9) [H_Insert 40 5, H_Find 5, H_Size] (m, t) = Inr (s', [H_Status 0, H_Ptr 5, H_Nat 1])"
proof -
  obtain m t where t: "HashTableCreate 9 True True (\<lambda>j. Some (if j = 0 then 8 else 16)) (\<lambda>j. Some (if j = 0 then 24 else 32))
       empty_store unat 2 eq_match = Inr (m, Some t)" "hash_rel eq_match (m, t) (\<lambda>k. None, 0)"
    using small_table by blast
  have "run_ok (hash_ok 9) (hash_step 9) (hash_spec eq_match) [H_Insert 40 5, H_Find 5, H_Size] (m, t) (\<lambda>k. None, 0)"
    using small_table_fresh [OF t(1)] by (auto split: sum.splits prod.splits simp: bindE_def)
  from hash_run_refines [OF t(2) this] t(1) show ?thesis by (auto simp: eq_match_def)
qed









text \<open>C5: the stack implements a bounded stack: pushes, pops and peeks answer last-in first-out.\<close>

theorem stack_run_refines:
  assumes "stack_wf s" "run_legal stack_pre stack_spec cs (stack_abs s)"
  shows "\<exists>s' outs. run_calls stack_step cs s = Inr (s', outs) \<and> stack_wf s' \<and>
    run_spec stack_spec cs (stack_abs s) = (stack_abs s', outs)"
  using assms by (rule stack_refines.run_refines)

definition stack_sample :: stack_t where
  "stack_sample = \<lparr>s_top = 1, s_element_size = 2, s_capacity = 2, s_elements = [1, 2, 0, 0]\<rparr>"

theorem stack_run_refines_witness:
  "\<exists>s' outs. run_calls stack_step [S_Push [3, 4], S_Peek, S_Pop, S_Size] stack_sample = Inr (s', outs) \<and> stack_wf s' \<and>
     run_spec stack_spec [S_Push [3, 4], S_Peek, S_Pop, S_Size] (stack_abs stack_sample) = (stack_abs s', outs)"
  by (rule stack_run_refines)
    (simp_all add: stack_sample_def stack_wf_def stack_abs_def stack_elems_def chunks_def chunk_def)


text \<open>
  C6: dequeuing until the priority queue is empty yields every stored element exactly once, in
  order of the comparison callback, and faults nowhere.
\<close>

theorem pq_drains_in_order:
  assumes "pq_inv pq"
  shows "\<exists>pq' ps. pq_drain (size (pq_data pq)) (Some junk) pq = Inr (pq', ps) \<and> pq_inv pq' \<and>
    pq_data pq' = {#} \<and> mset ps = pq_data pq \<and> sorted_wrt (\<lambda>x y. hp_compare (pq_heap pq) y x \<le> 0) ps"
  using assms by (rule pq_drain_ok)

theorem pq_drains_in_order_witness:
  "\<exists>pq pq1 pq2 pq' ps. PQCreate True True True (Some (\<lambda>_. 0)) ptr_cmp = Some pq \<and>
     PQEnqueue (Some (\<lambda>_. 0)) pq 5 = Inr (pq1, 0) \<and> PQEnqueue (Some (\<lambda>_. 0)) pq1 9 = Inr (pq2, 0) \<and>
     pq_drain 2 (Some (\<lambda>_. 0)) pq2 = Inr (pq', ps) \<and> mset ps = {#5, 9#}"
proof -
  obtain pq where pq: "PQCreate True True True (Some (\<lambda>_. 0)) ptr_cmp = Some pq" "pq_inv pq" "pq_data pq = {#}"
    using PQCreate_ok [OF ptr_order.cmp_order_axioms] by blast
  have cap: "heap_capacity (pq_heap pq) = 128"
    using pq(1) by (auto simp: PQCreate_def HeapCreate_def VectorCreate_def malloc_block_def heap_capacity_def
        split: option.splits if_splits)
  obtain pq1 where 1: "PQEnqueue (Some (\<lambda>_. 0)) pq 5 = Inr (pq1, 0)" "pq_inv pq1" "pq_data pq1 = {#5#}"
    using PQEnqueue_ok [OF pq(2), of "Some (\<lambda>_. 0)" 5] pq(3) cap by auto
  have "heap_capacity (pq_heap pq1) = 128 \<or> size (pq_data pq1) \<noteq> heap_capacity (pq_heap pq1) \<or> heap_capacity (pq_heap pq1) \<le> 1"
    using 1(3) by auto
  then have room: "size (pq_data pq1) = heap_capacity (pq_heap pq1) \<longrightarrow> 16 * heap_capacity (pq_heap pq1) < 2 ^ 64"
    by auto
  then obtain pq2 where 2: "PQEnqueue (Some (\<lambda>_. 0)) pq1 9 = Inr (pq2, 0)" "pq_inv pq2" "pq_data pq2 = {#5, 9#}"
    using PQEnqueue_ok [OF 1(2), of "Some (\<lambda>_. 0)" 9] 1(3) by (auto simp: add_mset_commute)
  from pq_drains_in_order [OF 2(2), of "\<lambda>_. 0"] pq(1) 1(1) 2 show ?thesis by (auto simp: numeral_2_eq_2)
qed

text \<open>
  C7: inserting a new element into an AVL tree keeps the search order, the stored heights and the
  balance, and adds exactly that element.
\<close>

theorem avl_insert_keeps_balance:
  assumes "avl_inv t" "x \<noteq> NULL" "\<forall>y \<in> set (avl_elems t). avl_cmp t x y \<noteq> 0"
  shows "\<exists>t'. AVLInsert True t x = Inr (t', 0) \<and> avl_inv t' \<and> avl_cmp t' = avl_cmp t \<and>
    mset (avl_elems t') = add_mset x (mset (avl_elems t)) \<and> (balanced (avl_root t) \<longrightarrow> balanced (avl_root t'))"
  using assms by (rule AVLInsert_ok)

definition avl_sample :: avl_t where
  "avl_sample = \<lparr>avl_root = Node 2 4 (leaf 2) Null, avl_cmp = ptr_cmp\<rparr>"

lemma avl_sample_inv: "avl_inv avl_sample"
  by (simp add: avl_sample_def avl_inv_def leaf_def tree_ordered_def ptr_cmp_def ptr_order.cmp_order_axioms)

theorem avl_insert_keeps_balance_witness:
  "\<exists>t'. AVLInsert True avl_sample 1 = Inr (t', 0) \<and> avl_inv t' \<and> mset (avl_elems t') = {#1, 2, 4#} \<and> balanced (avl_root t')"
  using avl_insert_keeps_balance [OF avl_sample_inv, of 1]
  by (auto simp: avl_sample_def avl_elems_def leaf_def ptr_cmp_def)

text \<open>
  C8: removing from an AVL tree takes out exactly the element the callback matches, if any, and
  keeps the search order and the stored heights.
\<close>

theorem avl_remove_takes_out:
  assumes "avl_inv t" "x \<noteq> NULL"
  shows "\<exists>t'. AVLRemove t x = Inr t' \<and> avl_inv t' \<and> avl_cmp t' = avl_cmp t \<and>
    avl_elems t' = filter (\<lambda>y. avl_cmp t x y \<noteq> 0) (avl_elems t)"
  using assms by (rule AVLRemove_ok)

theorem avl_remove_takes_out_witness:
  "\<exists>t'. AVLRemove avl_sample 4 = Inr t' \<and> avl_inv t' \<and> avl_cmp t' = avl_cmp avl_sample \<and>
    avl_elems t' = filter (\<lambda>y. avl_cmp avl_sample 4 y \<noteq> 0) (avl_elems avl_sample)"
  by (rule avl_remove_takes_out [OF avl_sample_inv]) simp

text \<open>C9: a lookup in an AVL tree answers the stored element that the callback matches, or NULL.\<close>

theorem avl_find_answers:
  assumes "avl_inv t" "x \<noteq> NULL"
  shows "AVLFind t x = Inr (case find (\<lambda>y. avl_cmp t x y = 0) (avl_elems t) of None \<Rightarrow> NULL | Some y \<Rightarrow> y)"
  using assms by (rule AVLFind_ok)

theorem avl_find_answers_witness:
  "AVLFind avl_sample 2 = Inr (case find (\<lambda>y. avl_cmp avl_sample 2 y = 0) (avl_elems avl_sample) of None \<Rightarrow> NULL | Some y \<Rightarrow> y)"
  by (rule avl_find_answers [OF avl_sample_inv]) simp

section \<open>Scheduler\<close>


definition calm_env :: run_env where
  "calm_env = \<lparr>re_sleep = (\<lambda>now n. (now + int n, 0)), re_op = (\<lambda>f p now. (now + 1, 0, False))\<rparr>"

lemma calm_env_ok: "env_ok calm_env" "sleep_progress calm_env" "one_shot calm_env"
  by (simp_all add: calm_env_def env_ok_def sleep_progress_def one_shot_def)

definition eth0 :: "ifaddr list option" where
  "eth0 = Some [None, Some (True, Some ''127.0.0.1''), Some (True, Some ''10.0.0.7'')]"

lemma new_sched:
  "\<exists>s. SchedCreate True True True (Some (\<lambda>_. 0)) 0 100 = Some s \<and> sched_inv s \<and> sc_counter s = 0 \<and> sc_now s = 100 \<and>
     sc_tasks s = Map.empty \<and> sc_cleaned s = [] \<and> heap_capacity (sc_heap s) = 128"
proof -
  obtain s where s: "SchedCreate True True True (Some (\<lambda>_. 0)) 0 100 = Some s" "sched_inv s" "sc_tasks s = Map.empty"
    "sc_counter s = 0" "sc_now s = 100" "sc_cleaned s = []"
    using SchedCreate_ok [of "\<lambda>_. 0" 0 100] by blast
  moreover have "heap_capacity (sc_heap s) = 128"
    using s(1) by (auto simp: SchedCreate_def HeapCreate_def VectorCreate_def malloc_block_def heap_capacity_def
        split: option.splits if_splits)
  ultimately show ?thesis by blast
qed

lemma eth0_ip: "GetIPAddress eth0 = Some ''10.0.0.7''"
  by (simp add: GetIPAddress_def eth0_def)

text \<open>A scheduler at time 100 with one task, due at 105.\<close>

lemma one_task:
  "\<exists>s t. sched_inv s \<and> sc_tasks s = [64 \<mapsto> t] \<and> t_cleanup t = 16 \<and> t_cleanup_param t = 24 \<and> t_time t = 105 \<and>
     sc_cleaned s = [] \<and> sc_now s = 100"
proof -
  obtain s where s: "sched_inv s" "sc_tasks s = Map.empty" "sc_counter s = 0" "sc_cleaned s = []" "heap_capacity (sc_heap s) = 128"
    "sc_now s = 100"
    using new_sched by blast
  have "sc_counter s + 1 < 2 ^ 64" "sc_tasks s 64 = None"
    "card (dom (sc_tasks s)) = heap_capacity (sc_heap s) \<longrightarrow> None \<noteq> None \<and> 16 * heap_capacity (sc_heap s) < 2 ^ 64"
    using s by simp_all
  from SchedAdd_ok [OF s(1) _ _ eth0_ip this(1,2) _ this(3), of 8 16 77 0 5 24] obtain s' t where
    "sched_inv s'" "sc_tasks s' = (sc_tasks s)(64 \<mapsto> t)" "t_time t = sc_now s + to_time 5" "t_cleanup t = 16"
    "t_cleanup_param t = 24" "sc_cleaned s' = sc_cleaned s" "sc_now s' = sc_now s" by auto
  with s show ?thesis by (intro exI [of _ s'] exI [of _ t]) (simp add: to_time_def)
qed


text \<open>
  C11: when no task asks to run again and \<open>sleep\<close> makes progress, the run returns: the number of
  tasks plus the longest wait is budget enough.
\<close>

theorem sched_run_returns:
  assumes "sched_inv s" "env_ok env" "near_future s" "sleep_progress env" "one_shot env"
    "card (dom (sc_tasks s)) + 2 ^ 32 < fuel"
  shows "\<exists>s' st. SchedRun fuel env (Some junk) apush s = Inr (s', st)"
  using assms by (rule SchedRun_returns)

theorem sched_run_returns_witness:
  "\<exists>s t s' st. sched_inv s \<and> sc_tasks s = [64 \<mapsto> t] \<and> SchedRun (2 ^ 33) calm_env (Some (\<lambda>_. 0)) None s = Inr (s', st)"
proof -
  obtain s t where s: "sched_inv s" "sc_tasks s = [64 \<mapsto> t]" "t_time t = 105" "sc_now s = 100" using one_task by blast
  then have "near_future s" "card (dom (sc_tasks s)) + 2 ^ 32 < 2 ^ 33" by (simp_all add: near_future_def)
  from sched_run_returns [OF s(1) calm_env_ok(1) this(1) calm_env_ok(2,3) this(2)] s show ?thesis by blast
qed

text \<open>
  C12: clearing the scheduler runs every task's cleanup function exactly once, frees every task and
  leaves an empty scheduler.
\<close>

theorem sched_clear_cleans_once:
  assumes "sched_inv s" "card (dom (sc_tasks s)) < fuel"
  shows "\<exists>s'. SchedClear fuel (Some junk) s = Inr s' \<and> sched_inv s' \<and> sc_tasks s' = Map.empty \<and>
    mset (sc_cleaned s') = mset (sc_cleaned s) + image_mset (cleanup_call s) (mset_set (dom (sc_tasks s)))"
  using assms by (rule SchedClear_ok)

theorem sched_clear_cleans_once_witness:
  "\<exists>s s'. sched_inv s \<and> card (dom (sc_tasks s)) = 1 \<and> SchedClear 3 (Some (\<lambda>_. 0)) s = Inr s' \<and> sc_tasks s' = Map.empty \<and>
     sc_cleaned s' = [(16, 24)]"
proof -
  obtain s t where s: "sched_inv s" "sc_tasks s = [64 \<mapsto> t]" "t_cleanup t = 16" "t_cleanup_param t = 24" "sc_cleaned s = []"
    using one_task by blast
  have "card (dom (sc_tasks s)) < 3" by (simp add: s(2))
  from sched_clear_cleans_once [OF s(1) this, of "\<lambda>_. 0"] obtain s' where
    s': "SchedClear 3 (Some (\<lambda>_. 0)) s = Inr s'" "sc_tasks s' = Map.empty"
      "mset (sc_cleaned s') = {#(16, 24)#}" using s(2-5) by (auto simp: cleanup_call_def task_at_def)
  then have "sc_cleaned s' = [(16, 24)]" by simp
  with s' s show ?thesis by (intro exI [of _ s] exI [of _ s']) (simp add: s(2))
qed

text \<open>
  C13: \<open>SchedRemove\<close> never removes the task with the given identifier: if some task has another
  identifier, such a task is destroyed and 0 is returned; if every task has the given identifier,
  nothing is removed and 1 is returned.
\<close>

theorem sched_remove_takes_another:
  assumes "sched_inv s"
  shows "(\<forall>p t. sc_tasks s p = Some t \<longrightarrow> UIDIsSame (t_uid t) uid \<noteq> 0) \<and>
      SchedRemove (Some junk) s uid = Inr (s\<lparr>sc_heap := sched_heap s\<rparr>, 1) \<or>
    (\<exists>p t s'. sc_tasks s p = Some t \<and> UIDIsSame (t_uid t) uid = 0 \<and> SchedRemove (Some junk) s uid = Inr (s', 0) \<and>
      sc_tasks s' = (sc_tasks s)(p := None) \<and> sched_inv s')"
  using assms by (rule SchedRemove_wrong)

theorem sched_remove_takes_another_witness:
  "\<exists>s t s' r. sched_inv s \<and> sc_tasks s = [64 \<mapsto> t] \<and> SchedRemove (Some (\<lambda>_. 0)) s (t_uid t) = Inr (s', r) \<and> r = 1 \<and>
     sc_tasks s' = [64 \<mapsto> t]"
proof -
  obtain s t where s: "sched_inv s" "sc_tasks s = [64 \<mapsto> t]" using one_task by blast
  have "UIDIsSame (t_uid t) (t_uid t) = 1" by (simp add: UIDIsSame_def)
  with sched_remove_takes_another [OF s(1), of "t_uid t" "\<lambda>_. 0"] s(2) have
    "SchedRemove (Some (\<lambda>_. 0)) s (t_uid t) = Inr (s\<lparr>sc_heap := sched_heap s\<rparr>, 1)" by (auto split: if_splits)
  with s show ?thesis by (intro exI [of _ s] exI [of _ t] exI [of _ "s\<lparr>sc_heap := sched_heap s\<rparr>"]) simp
qed


section \<open>Linked lists\<close>

text \<open>
  C14: inserting into a sorted list puts the new node at a place that keeps the list sorted, leaves
  the other nodes in their order and answers an iterator to the new node.
\<close>

theorem sortedl_insert_keeps_order:
  assumes "sortedl_rep m sl xs" "m node = None" "node \<noteq> NULL" "length xs < fuel"
  shows "\<exists>m' us vs. SortedLInsert fuel (Some node) m sl x = Inr (m', iter_at sl ((node, x) # vs)) \<and> xs = us @ vs \<and>
    sortedl_rep m' sl (us @ (node, x) # vs)"
  using assms by (rule SortedLInsert_rep)

text \<open>A list at \<open>l\<close> with one node \<open>a\<close>.\<close>

definition dll_one_at :: "ptr \<Rightarrow> ptr \<Rightarrow> ptr \<Rightarrow> dll_mem" where
  "dll_one_at l a d = [l \<mapsto> \<lparr>d_data = 0, d_next = a, d_prev = 0\<rparr>, a \<mapsto> \<lparr>d_data = d, d_next = l + 24, d_prev = l\<rparr>,
     l + 24 \<mapsto> \<lparr>d_data = 0, d_next = 0, d_prev = a\<rparr>]"

definition sl_sample :: "ptr \<Rightarrow> sortedl_t" where
  "sl_sample l = \<lparr>sl_self = l + 100, sl_list = l, sl_cmp = ptr_cmp\<rparr>"

lemma two_lists_rep:
  "sortedl_rep (dll_one_at 800 900 5 ++ dll_one_at 400 500 7) (sl_sample 800) [(900, 5)]"
  "sortedl_rep (dll_one_at 800 900 5 ++ dll_one_at 400 500 7) (sl_sample 400) [(500, 7)]"
  by (simp_all add: sortedl_rep_def sl_sample_def dll_rep_def dll_addrs_def dll_head_def dll_tail_def dll_one_at_def
      dnext_def dprev_def ddata_def ptr_order.cmp_order_axioms)

theorem sortedl_insert_keeps_order_witness:
  "\<exists>m' us vs. SortedLInsert 5 (Some 40) (dll_one_at 800 900 5 ++ dll_one_at 400 500 7) (sl_sample 800) 3 =
       Inr (m', iter_at (sl_sample 800) ((40, 3) # vs)) \<and> [(900, 5)] = us @ vs \<and>
     sortedl_rep m' (sl_sample 800) (us @ (40, 3) # vs)"
  by (rule sortedl_insert_keeps_order [OF two_lists_rep(1)]) (simp_all add: dll_one_at_def)

text \<open>
  C15: merging two sorted lists with the same callback moves every node of the source into the
  destination, keeps it sorted and leaves the source empty; no element is lost or copied.
\<close>

theorem sortedl_merge_moves_all:
  assumes "sortedl_rep m dest xs" "sortedl_rep m src zs" "sl_cmp src = sl_cmp dest"
    "set (dll_addrs (sl_list dest) xs) \<inter> set (dll_addrs (sl_list src) zs) = {}"
    "length xs + length zs < fuel"
  shows "\<exists>m' ws. SortedLMerge True fuel m dest src = Inr m' \<and> sortedl_rep m' dest ws \<and> sortedl_rep m' src [] \<and>
    mset ws = mset xs + mset zs"
  using assms by (rule SortedLMerge_rep)

theorem sortedl_merge_moves_all_witness:
  "\<exists>m' ws. SortedLMerge True 5 (dll_one_at 800 900 5 ++ dll_one_at 400 500 7) (sl_sample 800) (sl_sample 400) = Inr m' \<and>
     sortedl_rep m' (sl_sample 800) ws \<and> sortedl_rep m' (sl_sample 400) [] \<and> mset ws = mset [(900, 5)] + mset [(500, 7)]"
  by (rule sortedl_merge_moves_all [OF two_lists_rep])
    (simp_all add: sl_sample_def dll_addrs_def dll_head_def dll_tail_def)

text \<open>
  C16: splicing cuts a non-empty run of nodes out of one list and links it into another before the
  given place; both lists stay well linked and no other address is written.
\<close>

theorem dll_splice_moves_run:
  assumes "dll_rep m l1 (us1 @ vs1)" "dll_rep m l2 (us2 @ ys @ vs2)" "ys \<noteq> []"
    "set (dll_addrs l1 (us1 @ vs1)) \<inter> set (dll_addrs l2 (us2 @ ys @ vs2)) = {}"
  shows "\<exists>m'. DLLSplice m (first_of vs1 (dll_tail l1)) (fst (hd ys)) (first_of vs2 (dll_tail l2)) =
      Inr (m', first_of vs1 (dll_tail l1)) \<and>
    dll_rep m' l1 (us1 @ ys @ vs1) \<and> dll_rep m' l2 (us2 @ vs2) \<and>
    dll_agree m m' (- (set (dll_addrs l1 (us1 @ vs1)) \<union> set (dll_addrs l2 (us2 @ ys @ vs2))))"
  using assms by (rule DLLSplice_rep)

theorem dll_splice_moves_run_witness:
  "\<exists>m'. DLLSplice (dll_one_at 800 900 5 ++ dll_one_at 400 500 7) (dll_tail 800) 500 (dll_tail 400) = Inr (m', dll_tail 800) \<and>
     dll_rep m' 800 [(900, 5), (500, 7)] \<and> dll_rep m' 400 []"
proof -
  let ?m = "dll_one_at 800 900 5 ++ dll_one_at 400 500 7"
  have "dll_rep ?m 800 ([(900, 5)] @ [])" "dll_rep ?m 400 ([] @ [(500, 7)] @ [])"
    using two_lists_rep by (simp_all add: sortedl_rep_def sl_sample_def)
  from dll_splice_moves_run [OF this] show ?thesis by (auto simp: dll_addrs_def dll_head_def dll_tail_def)
qed

section \<open>AVL removal\<close>


section \<open>Sorting\<close>

text \<open>
  C18: recursive and bottom-up merge sort, when the temporary array is allocated, sort the first \<open>n\<close>
  elements and leave the rest untouched; no access is out of bounds.
\<close>

theorem merge_sorts_sort:
  assumes "2 \<le> n" "n \<le> length xs" "4 * n < 2 ^ 64"
  shows "RecMergeSort (Some junk) (Some xs) n = Inr (Some (sort (take n xs) @ drop n xs), 0) \<and>
    IMergeSort (Some junk) (Some xs) n = Inr (Some (sort (take n xs) @ drop n xs))"
  using assms by (simp add: RecMergeSort_ok IMergeSort_ok)

theorem merge_sorts_sort_witness:
  "RecMergeSort (Some (\<lambda>_. 7)) (Some [3, -1, 2, 0]) 3 = Inr (Some [-1, 2, 3, 0], 0) \<and>
    IMergeSort (Some (\<lambda>_. 7)) (Some [3, -1, 2, 0]) 3 = Inr (Some [-1, 2, 3, 0])"
  using merge_sorts_sort [of 3 "[3, -1, 2, 0]" "\<lambda>_. 7"] by simp

text \<open>
  C19: quick sort on raw bytes leaves the same elements in the order of the callback and does not touch
  the bytes behind them, except that exactly two items are never sorted.
\<close>

theorem quick_sort_sorts:
  assumes "n * es \<le> length buf" "0 < es" "cmp_order cmp"
  shows "QuickSort (Some buf) 2 es (Some cmp) = Inr (Some buf) \<and>
    (n = 2 \<or> (\<exists>buf'. QuickSort (Some buf) n es (Some cmp) = Inr (Some buf') \<and> same_rest es n buf buf' \<and>
      mset (elems_of es n buf') = mset (elems_of es n buf) \<and> sorted_cmp cmp 0 n (elems_of es n buf')))"
  using QuickSort_ok [OF assms(1,2) _ assms(3)] QuickSort_two by blast

definition byte_cmp :: "byte list \<Rightarrow> byte list \<Rightarrow> int" where
  "byte_cmp x y = uint (hd x) - uint (hd y)"

lemma byte_cmp_order: "cmp_order byte_cmp"
  by unfold_locales (auto simp: byte_cmp_def)

theorem quick_sort_sorts_witness:
  "QuickSort (Some [3, 1, 2, 9]) 2 1 (Some byte_cmp) = Inr (Some [3, 1, 2, 9]) \<and>
    (\<exists>buf'. QuickSort (Some [3, 1, 2, 9]) 3 1 (Some byte_cmp) = Inr (Some buf') \<and> same_rest 1 3 [3, 1, 2, 9] buf' \<and>
      mset (elems_of 1 3 buf') = mset (elems_of 1 3 [3, 1, 2, 9]) \<and> sorted_cmp byte_cmp 0 3 (elems_of 1 3 buf'))"
  using quick_sort_sorts [of 3 1 "[3, 1, 2, 9]", OF _ _ byte_cmp_order] by simp

text \<open>
  C20: on a sorted array whose first element is not above the target, the iterative and the recursive
  binary search return within \<open>n\<close> rounds, agree, and answer an index of the target or \<open>(size_t)-1\<close>.
\<close>

theorem binary_search_finds:
  assumes "sorted_in 0 n xs" "0 < n" "n \<le> length xs" "n < 2 ^ 63" "xs ! 0 \<le> target" "n < fuel"
  shows "\<exists>r. IterBinarySearch fuel xs n target = Inr r \<and> RecBinarySearch fuel (Some xs) n target = Inr r \<and>
    (if \<exists>k < n. xs ! k = target then r < n \<and> xs ! r = target else r = NOT_FOUND)"
  using assms by (rule IterBinarySearch_ok)

theorem binary_search_finds_witness:
  "\<exists>r. IterBinarySearch 4 [1, 4, 6] 3 6 = Inr r \<and> RecBinarySearch 4 (Some [1, 4, 6]) 3 6 = Inr r \<and> r < 3 \<and> [1, 4, 6] ! r = (6 :: int)"
proof -
  have "sorted_in 0 3 [1, 4, 6 :: int]" using sorted_in_slice [of 3 "[1, 4, 6 :: int]" 0] by (simp add: slice_def)
  moreover have "\<exists>k < 3. [1, 4, 6] ! k = (6 :: int)" by (intro exI [of _ 2]) simp
  ultimately show ?thesis using binary_search_finds [of 3 "[1, 4, 6]" 6 4] by auto
qed

text \<open>
  C21: counting sort sorts any integers, and radix sort any integers from 0 up to \<open>10 ^ 9 - 1\<close>, in the
  first \<open>n\<close> places, provided the allocations succeed and \<open>n\<close> fits into an \<open>int\<close>.
\<close>

theorem linear_sorts_sort:
  assumes "0 < n" "n \<le> length arr" "n < 2 ^ 31" "10 < fuel"
  shows "CountingSort True (Some junk) arr n = Inr (sort (take n arr) @ drop n arr) \<and>
    ((\<forall>x \<in> set (take n arr). 0 \<le> x \<and> x < 10 ^ 9) \<longrightarrow>
      RadixSort fuel (Some junk) arr n = Inr (sort (take n arr) @ drop n arr))"
  using CountingSort_ok [OF assms(1-3)] RadixSort_ok [OF assms(1-3) _ assms(4)] by blast

theorem linear_sorts_sort_witness:
  "CountingSort True (Some (\<lambda>_. 7)) [3, 1, 22, 0] 3 = Inr [1, 3, 22, 0] \<and> RadixSort 11 (Some (\<lambda>_. 7)) [3, 1, 22, 0] 3 = Inr [1, 3, 22, 0]"
  using linear_sorts_sort [of 3 "[3, 1, 22, 0]" 11 "\<lambda>_. 7"] by simp

section \<open>Allocators\<close>

text \<open>
  C22: the fixed size allocator implements a stack of free blocks kept inside the pool: from a freshly
  initialised pool of exactly the suggested size, a client that frees and writes only blocks it holds
  gets exactly the blocks of that stack, whatever it writes into its own blocks, and the pool never
  hands out a block twice.
\<close>

theorem fsa_run_refines:
  assumes "0 < n" "n < fuel" "0 < bs" "bs + 7 < 2 ^ 64" "length pool = FSASuggestSize n bs" "8 + n * ALIGN_UP bs < 2 ^ 64"
  shows "\<exists>pool1. FSAInit fuel pool (length pool) bs = Inr pool1 \<and>
    (\<forall>cs. run_ok (fsa_ok (ALIGN_UP bs) n fuel) (fsa_step fuel) fsa_spec cs pool1 (map (\<lambda>k. 8 + k * ALIGN_UP bs) [0..<n]) \<longrightarrow>
      (\<exists>pool2. run_calls (fsa_step fuel) cs pool1 = Inr (pool2, snd (run_spec fsa_spec cs (map (\<lambda>k. 8 + k * ALIGN_UP bs) [0..<n]))) \<and>
        fsa_rep (ALIGN_UP bs) n pool2 (fst (run_spec fsa_spec cs (map (\<lambda>k. 8 + k * ALIGN_UP bs) [0..<n])))))"
proof -
  have "length pool = 8 + n * ALIGN_UP bs" using FSASuggestSize_eq assms by simp
  then obtain pool1 where p: "FSAInit fuel pool (length pool) bs = Inr pool1"
      "fsa_rep (ALIGN_UP bs) n pool1 (map (\<lambda>k. 8 + k * ALIGN_UP bs) [0..<n])"
    using FSAInit_ok [of n fuel bs pool] assms by auto
  then show ?thesis using fsa_refines.run_simulates [OF p(2)] by blast
qed

theorem fsa_run_refines_witness:
  "\<exists>pool1 pool2. FSAInit 5 (replicate 24 0) 24 5 = Inr pool1 \<and>
     run_calls (fsa_step 5) [F_Alloc, F_Write 8 2 [1, 2, 3], F_Alloc, F_Alloc, F_Free 8, F_Count, F_Alloc] pool1 =
       Inr (pool2, [F_Block (Some 8), F_Done, F_Block (Some 16), F_Block None, F_Done, F_Num 1, F_Block (Some 8)])"
proof -
  let ?cs = "[F_Alloc, F_Write 8 2 [1, 2, 3], F_Alloc, F_Alloc, F_Free 8, F_Count, F_Alloc]"
  have al: "ALIGN_UP 5 = 8" by (simp add: ALIGN_UP_def)
  obtain pool1 where p: "FSAInit 5 (replicate 24 0) 24 5 = Inr pool1"
    "\<forall>cs. run_ok (fsa_ok 8 2 5) (fsa_step 5) fsa_spec cs pool1 [8, 16] \<longrightarrow>
      (\<exists>pool2. run_calls (fsa_step 5) cs pool1 = Inr (pool2, snd (run_spec fsa_spec cs [8, 16])) \<and>
        fsa_rep 8 2 pool2 (fst (run_spec fsa_spec cs [8, 16])))"
    using fsa_run_refines [of 2 5 5 "replicate 24 0"] by (auto simp: al FSASuggestSize_def ALIGN_UP_def upt_rec [of 0] upt_rec [of "Suc 0"])
  have "run_ok (fsa_ok 8 2 5) (fsa_step 5) fsa_spec ?cs pool1 [8, 16]"
    by (auto split: sum.splits simp: bindE_def blocks_def)
  with p show ?thesis by fastforce
qed

text \<open>
  C23: the variable size allocator implements a row of blocks that tile the pool: from a freshly
  initialised pool (whose alignment is taken care of), a client that uses pointers it holds, stays
  inside them and reads only what it wrote gets the blocks of the first run of free blocks that is large
  enough, reads back what it wrote whatever else happens, and the code never faults nor writes outside
  the pool.
\<close>

theorem vsa_run_refines:
  assumes "0 < pool" "pool + len \<le> length mem" "length mem < 2 ^ 63" "ALIGN_UP pool + 32 \<le> pool + len"
    "bs = [Free (ALIGN_DOWN (len - (ALIGN_UP pool - pool)) - 24)]"
  shows "\<exists>mem1. VSAInit mem pool len = Inr (mem1, Some (ALIGN_UP pool)) \<and>
    (\<forall>cs. run_ok (vsa_ok fuel (ALIGN_UP pool + 8)) (vsa_step fuel (ALIGN_UP pool)) (vsa_spec (ALIGN_UP pool + 8)) cs mem1 bs \<longrightarrow>
      (\<exists>mem2. run_calls (vsa_step fuel (ALIGN_UP pool)) cs mem1 = Inr (mem2, snd (run_spec (vsa_spec (ALIGN_UP pool + 8)) cs bs)) \<and>
        vsa_rep mem2 (ALIGN_UP pool) (fst (run_spec (vsa_spec (ALIGN_UP pool + 8)) cs bs))))"
proof -
  obtain mem1 where m: "VSAInit mem pool len = Inr (mem1, Some (ALIGN_UP pool))" "vsa_rep mem1 (ALIGN_UP pool) bs"
    using VSAInit_ok [OF assms(1-4)] assms(5) by blast
  then show ?thesis using vsa_refines.run_simulates [OF m(2)] by blast
qed

theorem vsa_run_refines_witness:
  "\<exists>mem1 mem2. VSAInit (replicate 200 0) 8 104 = Inr (mem1, Some 8) \<and>
     run_calls (vsa_step 9 8) [A_Alloc 5, A_Write 32 0 [1, 2], A_Alloc 16, A_Free 56, A_Read 32 1 1, A_Largest, A_Alloc 56] mem1 =
       Inr (mem2, [A_Ptr (Some 32), A_Done, A_Ptr (Some 56), A_Done, A_Bytes [2], A_Num 56, A_Ptr None])"
proof -
  let ?cs = "[A_Alloc 5, A_Write 32 0 [1, 2], A_Alloc 16, A_Free 56, A_Read 32 1 1, A_Largest, A_Alloc 56]"
  have al: "ALIGN_UP 8 = 8" "ALIGN_UP 5 = 8" "ALIGN_UP 16 = 16" "ALIGN_UP 56 = 56" "ALIGN_DOWN 104 = 104"
    by (simp_all add: ALIGN_UP_def ALIGN_DOWN_def)
  obtain mem1 where m: "VSAInit (replicate 200 0) 8 104 = Inr (mem1, Some 8)"
    "\<forall>cs. run_ok (vsa_ok 9 16) (vsa_step 9 8) (vsa_spec 16) cs mem1 [Free 80] \<longrightarrow>
      (\<exists>mem2. run_calls (vsa_step 9 8) cs mem1 = Inr (mem2, snd (run_spec (vsa_spec 16) cs [Free 80])) \<and>
        vsa_rep mem2 8 (fst (run_spec (vsa_spec 16) cs [Free 80])))"
    using vsa_run_refines [of 8 104 "replicate 200 0" "[Free 80]" 9] by (auto simp: al)
  have "run_ok (vsa_ok 9 16) (vsa_step 9 8) (vsa_spec 16) ?cs mem1 [Free 80]"
    by (rule run_ok_abstract) (simp add: vs_alloc_def al commit_def)
  with m(2) have "\<exists>mem2. run_calls (vsa_step 9 8) ?cs mem1 = Inr (mem2, snd (run_spec (vsa_spec 16) ?cs [Free 80]))" by blast
  moreover have "snd (run_spec (vsa_spec 16) ?cs [Free 80]) =
    [A_Ptr (Some 32), A_Done, A_Ptr (Some 56), A_Done, A_Bytes [2], A_Num 56, A_Ptr None]" 
    by (simp add: vs_alloc_def al commit_def free_sizes_def)
  ultimately show ?thesis using m(1) by auto
qed

section \<open>Search trees\<close>

text \<open>
  C24: the binary search tree implements a sorted collection: insertion, removal, lookup, iteration in
  both directions, size and emptiness answer what the sorted list of its nodes answers, whatever the
  shape of the tree, and nothing outside the tree is touched.
\<close>

theorem bst_run_refines:
  assumes "bst_rel tree m xs" "run_ok (bst_ok fuel tree) (bst_step fuel tree) (bst_spec tree) cs m xs"
  shows "\<exists>m'. run_calls (bst_step fuel tree) cs m = Inr (m', snd (run_spec (bst_spec tree) cs xs)) \<and>
    bst_rel tree m' (fst (run_spec (bst_spec tree) cs xs))"
  using assms by (rule bst_refines.run_simulates)

definition addr_cmp :: "ptr \<Rightarrow> ptr \<Rightarrow> int" where
  "addr_cmp x y = int (unat x) - int (unat y)"

lemma addr_cmp_order: "cmp_order addr_cmp"
  by unfold_locales (auto simp: addr_cmp_def)

lemma sample_tree:
  obtains m where "BSTCreate (Some 8) addr_cmp Map.empty = (m, Some \<lparr>b_stub = 8, b_cmp = addr_cmp\<rparr>)" "bst_rep m 8 Leaf" "m 16 = None"
  using BSTCreate_ok [of 8 addr_cmp Map.empty] by auto

theorem bst_run_refines_witness:
  "\<exists>m tree m'. BSTCreate (Some 8) addr_cmp Map.empty = (m, Some tree) \<and>
     run_calls (bst_step 9 tree) [B_Insert 16 5, B_Find 5, B_Next 16, B_Prev 8, B_Remove 16, B_Size] m =
       Inr (m', [B_Ptr 16, B_Ptr 16, B_Ptr 8, B_Ptr 16, B_Done, B_Num 0])"
proof -
  let ?tree = "\<lparr>b_stub = 8, b_cmp = addr_cmp\<rparr>" and ?cs = "[B_Insert 16 5, B_Find 5, B_Next 16, B_Prev 8, B_Remove 16, B_Size]"
  obtain m where m: "BSTCreate (Some 8) addr_cmp Map.empty = (m, Some ?tree)" "bst_rep m 8 Leaf" "m 16 = None" by (rule sample_tree)
  have rel: "bst_rel ?tree m []" using m(2) addr_cmp_order by (auto simp: bst_rel_def key_sorted_def)
  have "run_ok (bst_ok 9 ?tree) (bst_step 9 ?tree) (bst_spec ?tree) ?cs m []"
    using m(3) by (auto simp: bindE_def addr_cmp_def split: sum.splits)
  from bst_run_refines [OF rel this] m(1) show ?thesis by (force simp: addr_cmp_def)
qed

section \<open>Address pool\<close>

text \<open>
  C25: whatever its clients did before, a request to the address manager returns, and an address it
  grants is held by no client, lies in the subnet and is not one of the three reserved addresses; a
  refused request leaves the client's buffer alone.
\<close>

theorem dhcp_request_safe:
  assumes "dhcp_run d H" "d_depth d < fuel" "length out = 4" "length req = 4"
  shows "\<exists>d' out' st. DHCPAllocateIP fuel alloc d out req = Inr (d', out', st) \<and>
    dhcp_run d' (if granted st then insert out' H else H) \<and>
    (if granted st then out' \<notin> H \<and> held d' out' else out' = out \<and> (st = NO_IP_AVAILABLE \<or> st = ALLOC_FAILURE))"
  using assms by (rule dhcp_request)

lemma fresh_pool:
  obtains d where "DHCPCreate 33 True True (\<lambda>_ _. True) [192, 168, 1, 0] 29 = Inr (Inr d)" "dhcp_run d {}" "d_depth d = 3"
    "DHCPAllocateIP 33 (\<lambda>_ _. True) d [0, 0, 0, 0] [10, 0, 0, 5] =
       Inr (fst (projr (DHCPAllocateIP 33 (\<lambda>_ _. True) d [0, 0, 0, 0] [10, 0, 0, 5])), [192, 168, 1, 5], SUCCESS)"
proof -
  let ?d = "projr (projr (DHCPCreate 33 True True (\<lambda>_ _. True) [192, 168, 1, 0] 29))"
  have c: "DHCPCreate 33 True True (\<lambda>_ _. True) [192, 168, 1, 0] 29 = Inr (Inr ?d)" by code_simp
  have "d_depth ?d = 3" by code_simp
  moreover have "DHCPAllocateIP 33 (\<lambda>_ _. True) ?d [0, 0, 0, 0] [10, 0, 0, 5] =
       Inr (fst (projr (DHCPAllocateIP 33 (\<lambda>_ _. True) ?d [0, 0, 0, 0] [10, 0, 0, 5])), [192, 168, 1, 5], SUCCESS)" by code_simp
  ultimately show thesis using that [OF c] dhcp_run.start [OF c] by simp
qed

theorem dhcp_request_safe_witness:
  "\<exists>d d' out st. DHCPCreate 33 True True (\<lambda>_ _. True) [192, 168, 1, 0] 29 = Inr (Inr d) \<and>
     DHCPAllocateIP 33 (\<lambda>_ _. True) d [0, 0, 0, 0] [10, 0, 0, 5] = Inr (d', out, st) \<and>
     out = [192, 168, 1, 5] \<and> dhcp_run d' {out} \<and> held d' out"
proof -
  obtain d where d: "DHCPCreate 33 True True (\<lambda>_ _. True) [192, 168, 1, 0] 29 = Inr (Inr d)" "dhcp_run d {}" "d_depth d = 3"
    "DHCPAllocateIP 33 (\<lambda>_ _. True) d [0, 0, 0, 0] [10, 0, 0, 5] =
       Inr (fst (projr (DHCPAllocateIP 33 (\<lambda>_ _. True) d [0, 0, 0, 0] [10, 0, 0, 5])), [192, 168, 1, 5], SUCCESS)"
    by (rule fresh_pool)
  with dhcp_request_safe [OF d(2), of 33 "[0, 0, 0, 0]" "[10, 0, 0, 5]" "\<lambda>_ _. True"] show ?thesis
    by (auto simp: granted_def)
qed

text \<open>
  C26: an address that a client holds can be given back exactly as the client got it; after that a
  request for it, given memory, gets that very address again.
\<close>

theorem dhcp_release_round_trip:
  assumes "dhcp_run d H" "ip \<in> H" "d_depth d < fuel" "length out = 4" "\<forall>i. alloc 0 i"
  shows "\<exists>d'. DHCPFreeIP d ip = Inr (d', SUCCESS) \<and> dhcp_run d' (H - {ip}) \<and>
    (\<exists>d''. DHCPAllocateIP fuel alloc d' out ip = Inr (d'', ip, SUCCESS))"
  using assms by (rule dhcp_release)

theorem dhcp_release_round_trip_witness:
  "\<exists>d d' d''. DHCPCreate 33 True True (\<lambda>_ _. True) [192, 168, 1, 0] 29 = Inr (Inr d) \<and>
     DHCPAllocateIP 33 (\<lambda>_ _. True) d [0, 0, 0, 0] [10, 0, 0, 5] = Inr (d', [192, 168, 1, 5], SUCCESS) \<and>
     DHCPFreeIP d' [192, 168, 1, 5] = Inr (d'', SUCCESS)"
proof -
  obtain d where d: "DHCPCreate 33 True True (\<lambda>_ _. True) [192, 168, 1, 0] 29 = Inr (Inr d)" "dhcp_run d {}" "d_depth d = 3"
    "DHCPAllocateIP 33 (\<lambda>_ _. True) d [0, 0, 0, 0] [10, 0, 0, 5] =
       Inr (fst (projr (DHCPAllocateIP 33 (\<lambda>_ _. True) d [0, 0, 0, 0] [10, 0, 0, 5])), [192, 168, 1, 5], SUCCESS)"
    by (rule fresh_pool)
  let ?d' = "fst (projr (DHCPAllocateIP 33 (\<lambda>_ _. True) d [0, 0, 0, 0] [10, 0, 0, 5]))"
  have "dhcp_run ?d' {[192, 168, 1, 5]}" "d_depth ?d' = 3"
    using dhcp_request [OF d(2), of 33 "[0, 0, 0, 0]" "[10, 0, 0, 5]" "\<lambda>_ _. True"] d(3,4)
      DHCPAllocateIP_keeps_depth [OF d(2), of 33 "[0, 0, 0, 0]" "[10, 0, 0, 5]" "\<lambda>_ _. True"] by (auto simp: granted_def)
  with dhcp_release_round_trip [of ?d' "{[192, 168, 1, 5]}" "[192, 168, 1, 5]" 33 "[0, 0, 0, 0]" "\<lambda>_ _. True"] d(1,4)
  show ?thesis by auto
qed

text \<open>
  C27: the count of free addresses is the number of untaken hosts of the subnet less three, in every
  state of a manager: the three reserved hosts, which are taken from the start, are subtracted once more.
\<close>

theorem dhcp_count_free:
  assumes "dhcp_run d H"
  shows "DHCPCountFree d = Inr (card {h. is_host d h \<and> \<not> host_taken d h} - 3)"
  using dhcp_run_inv [OF assms] DHCPCountFree_ok by blast

theorem dhcp_count_free_witness:
  "\<exists>d. DHCPCreate 33 True True (\<lambda>_ _. True) [192, 168, 1, 0] 29 = Inr (Inr d) \<and>
     DHCPCountFree d = Inr (card {h. is_host d h \<and> \<not> host_taken d h} - 3)"
proof -
  obtain d where d: "DHCPCreate 33 True True (\<lambda>_ _. True) [192, 168, 1, 0] 29 = Inr (Inr d)" "dhcp_run d {}"
    by (rule fresh_pool)
  from dhcp_count_free [OF d(2)] d(1) show ?thesis by blast
qed

section \<open>Calculator\<close>



text \<open>An arithmetic for examples: the bits as integers.\<close>

definition word_fpu :: fpu where
  "word_fpu = \<lparr>fp_add = (+), fp_sub = (-), fp_mul = (\<lambda>x y. if y = fp_of_sign (- 1) then - x else x),
     fp_div = (\<lambda>x y. x div y), fp_pow = (\<lambda>x y. x ^ unat y), fp_floor = (\<lambda>x. x),
     fp_of_numeral = (\<lambda>s. foldl (\<lambda>acc c. 10 * acc + ucast (c - 48)) 0 s)\<rparr>"


text \<open>
  C29: on every text whatsoever the calculator returns after at most two steps more than there are
  characters, without a fault; it reports \<open>ALLOC_ERROR\<close> exactly when one of its allocations fails, and
  it leaves the result alone unless it succeeds.
\<close>

theorem calc_returns:
  assumes "0 \<notin> set s" "tables_ok g" "(length s + 1) * 8 < 2 ^ 64" "length s + 2 \<le> fuel"
  shows "\<exists>res' status. Calculate fuel fpu ok1 a1 ok2 a2 g (s @ [0]) res = Inr (lut, res', status) \<and>
    (status = ALLOC_ERROR) = (\<not> (ok1 \<and> a1 \<noteq> None \<and> ok2 \<and> a2 \<noteq> None)) \<and> (status = calculator_status.SUCCESS \<or> res' = res)"
  using assms by (rule Calculate_returns)

theorem calc_returns_witness:
  "\<exists>res' status. Calculate 6 word_fpu True (Some (\<lambda>_. 0)) True (Some (\<lambda>_. 0)) lut (map of_char ''1/(]'' @ [0]) 7 = Inr (lut, res', status) \<and>
    (status = calculator_status.SUCCESS \<or> res' = 7)"
  using calc_returns [of "map of_char ''1/(]''" lut 6 word_fpu True "Some (\<lambda>_. 0)" True "Some (\<lambda>_. 0)" 7]
  by (auto simp: tables_ok_def)

section \<open>Searches and recursions\<close>

text \<open>
  C30: from every square of the board the knight's search ends without a fault, with or without
  the heuristic, whatever the clock answers. It ends either with \<open>SUCCESS\<close> and on the board the
  numbers 1 to 64 along a knight's tour from that square, or with \<open>TIMEOUT\<close> after a clock reading
  more than 300 seconds past the start; it never answers that there is no tour.
\<close>

theorem knight_tour_solves:
  assumes "kt_static_ok s" "board_wf board" "row sq < 8" "column sq < 8"
  shows "\<exists>s' board' k' r. KnightTour now k s board sq h = Inr (s', board', k', r) \<and> kt_static_ok s' \<and> board_wf board' \<and>
    (r = knight_tour_status_e.SUCCESS \<and> (\<exists>ps. knight_tour (8 * row sq + column sq) ps \<and> board_shows board' ps) \<or>
     r = TIMEOUT \<and> (\<exists>j. k < j \<and> j < k' \<and> 300 < unat (now j - now k)))"
  using assms by (rule KnightTour_ok)

theorem knight_tour_solves_witness:
  "\<exists>s' board' k'. KnightTour (\<lambda>_. 0) 0 kt_static_init (replicate 8 (replicate 8 0)) \<lparr>row = 3, column = 5\<rparr> True =
     Inr (s', board', k', knight_tour_status_e.SUCCESS) \<and> (\<exists>ps. knight_tour 29 ps \<and> board_shows board' ps)"
proof -
  have "board_wf (replicate 8 (replicate 8 0))" by (simp add: board_wf_def)
  from knight_tour_solves [OF kt_static_init_ok this, of "\<lparr>row = 3, column = 5\<rparr>" "\<lambda>_. 0" 0 True] show ?thesis by auto
qed

text \<open>
  C31: the loop, the plain recursion and the memoised recursion all compute the \<open>n\<close>-th Fibonacci
  number for every \<open>n\<close> up to 46, whatever earlier calls left in the table. The next one does not fit an
  \<open>int\<close>: from 47 on the first two overflow, and so does the third up to 92, although its table has 93
  entries; from 93 on it reads past the table.
\<close>

theorem fibonacci_agree:
  assumes "fib_static_ok st"
  shows "Fibonacci n = (if n \<le> 46 then Inr (fib n) else Inl Int_overflow) \<and> RecFibonacci n = Fibonacci n \<and>
    (if n \<le> 46 then \<exists>st'. RecFibonacciMemo n st = Inr (st', fib n) \<and> fib_static_ok st'
     else RecFibonacciMemo n st = Inl (if n < 93 then Int_overflow else Bad_access))"
  using RecFibonacciMemo_eq [OF assms, of n] by (simp add: Fibonacci_eq RecFibonacci_eq not_le)

theorem fibonacci_agree_witness:
  "Fibonacci 10 = Inr 55 \<and> RecFibonacci 10 = Inr 55 \<and> Fibonacci 50 = Inl Int_overflow \<and>
   (\<exists>st'. RecFibonacciMemo 10 fib_static_init = Inr (st', 55)) \<and> RecFibonacciMemo 92 fib_static_init = Inl Int_overflow"
proof -
  have "fib 10 = 55" by code_simp
  with fibonacci_agree [OF fib_static_init_ok, of 10] fibonacci_agree [OF fib_static_init_ok, of 50]
    fibonacci_agree [OF fib_static_init_ok, of 92]
  show ?thesis by auto
qed

section \<open>Threads\<close>

text \<open>
  C32: in every interleaving of its threads, however many there are, the threaded counting sort sorts the
  first \<open>len\<close> bytes and leaves the rest: an interleaving in which all threads return gives the sorted
  array and 0, and every interleaving so far can be continued, by at most 1281 steps for each thread,
  until they all have returned.
\<close>

theorem mt_counting_sorts:
  assumes "0 < n" "0 < len" "len \<le> length arr" "length arr < 2 ^ 64" "\<forall>i < n. created i"
  shows "MTCountingSort True True created schedule (Some arr) len n \<in>
      {Inr (sort (take len arr) @ drop len arr, 0), Inl Out_of_fuel} \<and>
    (\<exists>rest. length rest \<le> 1281 * n \<and>
      MTCountingSort True True created (schedule @ rest) (Some arr) len n = Inr (sort (take len arr) @ drop len arr, 0))"
  by (intro conjI MTCountingSort_ok [OF assms])

theorem mt_counting_sorts_witness:
  "\<exists>rest. MTCountingSort True True (\<lambda>_. True) ([0, 1, 1, 0] @ rest) (Some [3, 200, 1, 2, 7]) 4 3 = Inr ([1, 2, 3, 200, 7], 0)"
proof -
  have "sort (take 4 [3, 200, 1, 2, 7]) @ drop 4 [3, 200, 1, 2, 7] = [1, 2, 3, 200, 7 :: byte]" by (simp add: word_le_nat_alt)
  with mt_counting_sorts [of 3 4 "[3, 200, 1, 2, 7]" "\<lambda>_. True" "[0, 1, 1, 0]"] show ?thesis by auto
qed

text \<open>
  C33: the threaded sort of an array of strings. With at most as many threads as strings it sorts the
  first \<open>len\<close> pointers by the strings they point to and keeps the others, in whichever order the
  threads work, when \<open>qsort\<close> sorts and memory is found. With more threads than strings it never
  returns.
\<close>

theorem mt_quick_sort_sorts:
  assumes "qsort_sorts qsort str" "0 < n" "0 < len" "len \<le> length arr" "len < 2 ^ 61"
    "\<forall>i < n. created i" "\<forall>k. oks k" "distinct order" "set order = {..<n}"
  shows "if n \<le> len
    then len < fuel \<longrightarrow> (\<exists>arr'. MTQuickSort fuel True True created order oks qsort str (Some arr) len n = Inr (arr', 0) \<and>
           perm_within 0 len arr arr' \<and> sorted_wrt (sle str) (take len arr'))
    else MTQuickSort fuel True True created order oks qsort str (Some arr) len n = Inl Out_of_fuel"
  using MTQuickSort_ok [OF assms(1,2) _ assms(4,5,6,7,8,9)] MTQuickSort_stuck [OF assms(1,3) _ assms(4,6,8,9)] by simp

fun insert_by :: "(ptr \<Rightarrow> ptr \<Rightarrow> int) \<Rightarrow> ptr \<Rightarrow> ptr list \<Rightarrow> ptr list" where
  "insert_by cmp x [] = [x]"
| "insert_by cmp x (y # ys) = (if cmp x y \<le> 0 then x # y # ys else y # insert_by cmp x ys)"

definition insertion_qsort :: qsort_fun where
  "insertion_qsort cmp xs = foldr (insert_by cmp) xs []"

lemma insert_by_set: "mset (insert_by cmp x ys) = add_mset x (mset ys)" "set (insert_by cmp x ys) = insert x (set ys)"
  by (induction ys) auto

lemma insert_by_sorted: "sorted_wrt (sle str) ys \<Longrightarrow> sorted_wrt (sle str) (insert_by (StringCompare str) x ys)"
proof (induction ys)
  case (Cons y ys)
  have cmp: "StringCompare str x y \<le> 0 \<longleftrightarrow> sle str x y" by (simp add: StringCompare_def sle_def)
  show ?case using Cons sle_total [of str x y] by (auto simp: cmp insert_by_set intro: sle_trans)
qed simp

lemma insertion_qsort_sorts: "qsort_sorts insertion_qsort str"
  unfolding qsort_sorts_def
proof (intro allI conjI)
  fix xs
  show "mset (insertion_qsort (StringCompare str) xs) = mset xs"
    by (induction xs) (simp_all add: insertion_qsort_def insert_by_set)
  show "sorted_wrt (sle str) (insertion_qsort (StringCompare str) xs)"
    by (induction xs) (simp_all add: insertion_qsort_def insert_by_sorted)
qed

theorem mt_quick_sort_sorts_witness:
  "(\<exists>arr'. MTQuickSort 6 True True (\<lambda>_. True) [1, 0] (\<lambda>_. True) insertion_qsort (\<lambda>p. [ucast p]) (Some [30, 10, 20, 50, 40]) 5 2 = Inr (arr', 0) \<and>
     mset arr' = {#10, 20, 30, 40, 50#} \<and> sorted_wrt (sle (\<lambda>p. [ucast p])) arr') \<and>
   MTQuickSort 6 True True (\<lambda>_. True) [1, 0] (\<lambda>_. True) insertion_qsort (\<lambda>p. [ucast p]) (Some [30]) 1 2 = Inl Out_of_fuel"
proof -
  have o: "distinct [1, 0 :: nat]" "set [1, 0 :: nat] = {..<2}" by auto
  have "mset [30, 10, 20, 50, 40 :: ptr] = {#10, 20, 30, 40, 50#}" by (simp add: add_mset_commute)
  then show ?thesis
    using mt_quick_sort_sorts [of insertion_qsort "\<lambda>p. [ucast p]" 2 5 "[30, 10, 20, 50, 40]" "\<lambda>_. True" "\<lambda>_. True" "[1, 0]" 6]
      mt_quick_sort_sorts [of insertion_qsort "\<lambda>p. [ucast p]" 2 1 "[30]" "\<lambda>_. True" "\<lambda>_. True" "[1, 0]" 6] insertion_qsort_sorts o
    by (fastforce simp: perm_within_def)
qed





section \<open>The watchdog\<close>

text \<open>
  C36: the watchdog revives its peer exactly when it should. In every run of either process, whatever
  signals arrive and whatever fails, as long as the peer's heartbeat does not hit the increment of the
  counter: each check that revived the peer came when more than \<open>tolerance\<close> heartbeats had gone
  unanswered, each check that did not came when at most that many had.
\<close>

theorem wd_revives_exactly:
  assumes "WDTasksInit e (sch, w) iw peer interval tol ac av = Inr ((sch1, w1), 0)" "in_ctx e \<noteq> Some NULL"
    "sc_tasks sch = Map.empty" "unanswered (w_log w) = 0" "honest tol (w_log w)"
    "list_all calm rs" "WDRun rs (sch1, w1) = Inr ((sch2, w2), how)"
  shows "honest tol (w_log w2) \<and> (\<exists>c. w_ctxs w2 (g_ctx w2) = Some c \<and> counter c = int (unanswered (w_log w2)))"
  by (rule wd_run_log [OF assms])

theorem wd_revives_exactly_witness:
  "\<exists>sch1 w1 rs sch2 w2 how. WDTasksInit easy_init (the (SchedCreate True True True (Some (\<lambda>_. 0)) 0 1000), empty_proc) 0 77 2 1 1 [''client''] = Inr ((sch1, w1), 0) \<and>
     length rs = 12 \<and> WDRun rs (sch1, w1) = Inr ((sch2, w2), how) \<and> honest 1 (w_log w2) \<and> Reviving \<in> set (w_log w2)"
proof -
  let ?c = "\<lparr>peer_pid = 77, interval_sec = 2, tolerance = 1, counter = 0, stop_flag = 0, is_wd = 0, argc = 1, argv = [''client'']\<rparr>"
  obtain sch where sch: "SchedCreate True True True (Some (\<lambda>_. 0)) 0 1000 = Some sch" "sched_inv sch" "sc_tasks sch = Map.empty"
    "sc_counter sch = 0" "\<not> sc_stop_flag sch" using SchedCreate_ok by blast
  have p: "in_ctx easy_init = Some 64" "(64 :: ptr) \<noteq> NULL" by (simp_all add: easy_init_def)
  have "ctx_ok ?c" by (simp add: ctx_ok_def)
  with WDTasksInit_ok [OF sch(2,3,5) _ p, where c = ?c and w = empty_proc and peer = 77 and interval = 2 and tol = 1
      and iw = 0 and ac = 1 and av = "[''client'']"] sch(4) easy_init_ok good_init_add [OF easy_init_ok sch(3)]
  obtain sch1 w1 where init: "WDTasksInit easy_init (sch, empty_proc) 0 77 2 1 1 [''client''] = Inr ((sch1, w1), 0)"
    "wd_live 64 ?c sch1 w1" "duo sch1 (sc_now sch) (sc_now sch + 1)" "sc_counter sch1 = 2" by (auto simp: good_init_def)
  have "counter ?c + int 12 < 2 ^ 31" "sc_counter sch1 + 2 * 12 < 2 ^ 64" using init(4) by simp_all
  from quiet_rounds_exist [OF init(2) this] obtain rs where rs: "length rs = 12" "good_run (interval_sec ?c) rs (sch1, w1)"
    and q: "list_all calm rs" "list_all silent rs" by blast
  from wd_run_silent [OF init(2,3) _ q(2), of False] rs obtain sch2 w2 how where
    run: "WDRun_loop rs (sch1, w1) False = Inr ((sch2, w2), how)" "Reviving \<in> set (w_log w2)"
    by (auto simp: rounds_left_def others_def)
  have "sch1\<lparr>sc_stop_flag := False\<rparr> = sch1" using init(2) by (simp add: wd_live_def)
  with run(1) have run': "WDRun rs (sch1, w1) = Inr ((sch2, w2), how)" by (simp add: WDRun_def)
  have "honest 1 (w_log w2)"
    using wd_revives_exactly [OF init(1) _ sch(3) _ _ q(1) run'] p by (simp add: empty_proc_def)
  with init(1) sch(1) rs(1) run' run(2) show ?thesis by auto
qed

text \<open>
  C37: silence is noticed. After a good start, while nothing is heard from the watchdog, the client
  decides to revive it after at most three rounds of its scheduler for each heartbeat tolerated and six
  more, and the run does not fault.
\<close>

theorem wd_silence_noticed:
  assumes "good_start e" "0 < tol" "0 < interval" "interval < 2 ^ 32" "ac \<le> length av"
    "WDStart e cl tol interval av ac = Inr (cl1, st)" "cl_thread cl1 = Thread_runs sch"
    "list_all silent rs" "good_run interval rs (sch, cl_proc cl1)" "3 * tol + 6 \<le> length rs" "length rs < 2 ^ 31"
  shows "st = WD_SUCCESS \<and> (\<exists>sch' w' how. WDRun rs (sch, cl_proc cl1) = Inr ((sch', w'), how) \<and> Reviving \<in> set (w_log w'))"
proof -
  let ?c = "\<lparr>peer_pid = st_fork e, interval_sec = interval, tolerance = tol, counter = 0, stop_flag = 0, is_wd = 0, argc = ac, argv = av\<rparr>"
  obtain p where s: "st = WD_SUCCESS" "wd_live p ?c sch (cl_proc cl1)" "duo sch (st_now e) (st_now e + 1)"
    using WDStart_ok [OF assms(1-5), of cl] assms(6,7) by auto
  have "sch\<lparr>sc_stop_flag := False\<rparr> = sch" using s(2) by (simp add: wd_live_def)
  with wd_run_silent [OF s(2,3) _ assms(8), of False] assms(9-11) s(1) show ?thesis
    by (auto simp: WDRun_def rounds_left_def others_def nat_add_distrib)
qed

theorem wd_silence_noticed_witness:
  "\<exists>cl1 sch rs sch' w' how. WDStart easy_start no_client 1 2 [''client''] 1 = Inr (cl1, WD_SUCCESS) \<and> cl_thread cl1 = Thread_runs sch \<and>
     length rs = 9 \<and> WDRun rs (sch, cl_proc cl1) = Inr ((sch', w'), how) \<and> Reviving \<in> set (w_log w')"
proof -
  have a: "0 < (1 :: nat)" "0 < (2 :: nat)" "(2 :: nat) < 2 ^ 32" "1 \<le> length [''client'']" by simp_all
  let ?c = "\<lparr>peer_pid = 77, interval_sec = 2, tolerance = 1, counter = 0, stop_flag = 0, is_wd = 0, argc = 1, argv = [''client'']\<rparr>"
  obtain cl1 sch p where s: "WDStart easy_start no_client 1 2 [''client''] 1 = Inr (cl1, WD_SUCCESS)" "cl_thread cl1 = Thread_runs sch"
    "wd_live p ?c sch (cl_proc cl1)" "sc_counter sch = 2"
    using WDStart_ok [OF easy_start_ok a, of no_client] by (auto simp: easy_start_def)
  have "counter ?c + int 9 < 2 ^ 31" "sc_counter sch + 2 * 9 < 2 ^ 64" using s(4) by simp_all
  from quiet_rounds_exist [OF s(3) this] obtain rs where rs: "length rs = 9" "good_run 2 rs (sch, cl_proc cl1)" "list_all silent rs" by auto
  from wd_silence_noticed [OF easy_start_ok a s(1,2) rs(3,2)] rs(1) s(1,2) show ?thesis by auto
qed

text \<open>
  C38: a stopped process ends. Once the stop signal has been taken, and unless a stop request of the
  client comes after it, the scheduler's run ends with success after at most one round for each task;
  until then no heartbeat is sent and nobody is revived.
\<close>

theorem wd_stop_ends:
  assumes "wd_live p c sch w" "stop_flag c = 2" "good_run (interval_sec c) rs (sch, w)"
    "\<forall>r \<in> set rs. Request_stop \<notin> set (rd_before r)" "card (dom (sc_tasks sch)) \<le> length rs"
  shows "\<exists>sch' w'. WDRun rs (sch, w) = Inr ((sch', w'), Ended run_status_e.SUCCESS) \<and> sc_tasks sch' = Map.empty \<and>
    (\<exists>es. w_log w' = es @ w_log w \<and> list_all only_signals es)"
proof -
  have "sch\<lparr>sc_stop_flag := False\<rparr> = sch" using assms(1) by (simp add: wd_live_def)
  with wd_run_stops [OF assms, of False] show ?thesis by (auto simp: WDRun_def stopped_to_def)
qed

theorem wd_stop_ends_witness:
  "\<exists>cl1 sch w rs sch' w'. WDStart easy_start no_client 1 2 [''client''] 1 = Inr (cl1, WD_SUCCESS) \<and> cl_thread cl1 = Thread_runs sch \<and>
     interrupt [Usr2] (cl_proc cl1) = Inr w \<and> length rs = 3 \<and> WDRun rs (sch, w) = Inr ((sch', w'), Ended run_status_e.SUCCESS)"
proof -
  have a: "0 < (1 :: nat)" "0 < (2 :: nat)" "(2 :: nat) < 2 ^ 32" "1 \<le> length [''client'']" by simp_all
  let ?c = "\<lparr>peer_pid = 77, interval_sec = 2, tolerance = 1, counter = 0, stop_flag = 0, is_wd = 0, argc = 1, argv = [''client'']\<rparr>"
  obtain cl1 sch p where s: "WDStart easy_start no_client 1 2 [''client''] 1 = Inr (cl1, WD_SUCCESS)" "cl_thread cl1 = Thread_runs sch"
    "wd_live p ?c sch (cl_proc cl1)" "sc_counter sch = 2"
    using WDStart_ok [OF easy_start_ok a, of no_client] by (auto simp: easy_start_def)
  obtain w where w: "interrupt [Usr2] (cl_proc cl1) = Inr w" "wd_live p (?c\<lparr>stop_flag := 2\<rparr>) sch w"
    using s(3) by (simp add: SigUsr2Handler_def load_ctx_def fetch_def put_ctx_def wlog_def wd_live_def ctx_ok_def)
  have "counter (?c\<lparr>stop_flag := 2\<rparr>) + int 3 < 2 ^ 31" "sc_counter sch + 2 * 3 < 2 ^ 64" using s(4) by simp_all
  from quiet_rounds_exist [OF w(2) this] obtain rs where rs: "length rs = 3" "good_run (interval_sec (?c\<lparr>stop_flag := 2\<rparr>)) rs (sch, w)"
    "\<forall>r \<in> set rs. Request_stop \<notin> set (rd_before r)" by blast
  have "stop_flag (?c\<lparr>stop_flag := 2\<rparr>) = 2" "card (dom (sc_tasks sch)) \<le> length rs" using w(2) rs(1) by (simp_all add: wd_live_def)
  from wd_stop_ends [OF w(2) this(1) rs(2,3) this(2)] rs(1) s(1,2) w(1) show ?thesis by blast
qed

text \<open>
  C39: the arguments go round. The watchdog that a client starts reads back the client's process, the
  interval and the tolerance from its own arguments, and what it executes to revive the client are the
  client's arguments.
\<close>

theorem wd_arguments_survive:
  assumes "wd_child True ppid interval tol ac av = Inr (Some prog)" "ac = length av" "av \<noteq> []"
    "0 \<le> ppid" "ppid < 2 ^ 31" "0 < interval" "interval < 2 ^ 31" "tol < 2 ^ 31"
    "mn_ok e" "mn_heap_ok e" "mn_struct_ok e" "mn_alloc e = Some junk" "good_init (mn_init e)" "mn_sem_wd e" "mn_sem_client e"
  shows "\<exists>sch w c. wd_main e [] prog = Inr (w, Going (sch, w)) \<and> w_ctxs w (g_ctx w) = Some c \<and>
    peer_pid c = ppid \<and> interval_sec c = interval \<and> tolerance c = tol \<and>
    (\<forall>r. \<exists>w'. ReviveProcess r (g_ctx w) w = Inr (w', if rd_exec r then None else Some (-1)) \<and> hd (w_log w') = Executed av)"
proof -
  let ?c = "\<lparr>peer_pid = ppid, interval_sec = interval, tolerance = tol, counter = 0, stop_flag = 0, is_wd = 1, argc = length prog, argv = prog\<rparr>"
  obtain p sch w where m: "wd_main e [] prog = Inr (w, Going (sch, w))" "wd_live p ?c sch w" "drop 4 prog = av"
    using wd_main_started [OF assms] by blast
  have p: "g_ctx w = p" "w_ctxs w p = Some ?c" using m(2) by (simp_all add: wd_live_def)
  have "\<exists>w'. ReviveProcess r p w = Inr (w', if rd_exec r then None else Some (-1)) \<and> hd (w_log w') = Executed av" for r
    using wd_revives_with [OF m(2), of r] m(3) by simp
  with m(1) p show ?thesis by auto
qed

theorem wd_arguments_survive_witness:
  "\<exists>sch w c. wd_main \<lparr>mn_ok = True, mn_heap_ok = True, mn_struct_ok = True, mn_alloc = Some (\<lambda>_. 0), mn_now = 1000, mn_init = easy_init,
       mn_fuel = 4, mn_sem_wd = True, mn_sem_client = True\<rparr> []
       [''./bin/debug/wd'', ''4711'', ''5'', ''3'', ''client'', ''-v''] = Inr (w, Going (sch, w)) \<and>
     w_ctxs w (g_ctx w) = Some c \<and> peer_pid c = 4711 \<and> interval_sec c = 5 \<and> tolerance c = 3"
proof -
  have prog: "wd_child True 4711 5 3 2 [''client'', ''-v''] = Inr (Some [''./bin/debug/wd'', ''4711'', ''5'', ''3'', ''client'', ''-v''])"
    by (simp add: wd_child_ok snprintf_int_def dec_nat.simps char_of_def bit_0)
  show ?thesis
    using wd_arguments_survive [OF prog, of "\<lparr>mn_ok = True, mn_heap_ok = True, mn_struct_ok = True, mn_alloc = Some (\<lambda>_. 0), mn_now = 1000,
        mn_init = easy_init, mn_fuel = 4, mn_sem_wd = True, mn_sem_client = True\<rparr>" "\<lambda>_. 0"] easy_init_ok by auto
qed

text \<open>
  C40: stopping can start a new watchdog. \<open>WDStop\<close> signals the watchdog and then sets the request flag;
  when the watchdog's answer comes in between, the flag overwrites it. Nothing tells the client's thread
  to end any more, so that it sends heartbeats until it revives a watchdog.
\<close>

theorem wd_stop_overwritten:
  assumes "wd_live p c sch w" "duo sch hb chk" "stop_flag c = 0" "counter c = 0" "is_wd c = 0"
    "cl_proc cl = w" "cl_thread cl = Thread_runs sch" "g_client_tid cl"
    "list_all silent rs" "good_run (interval_sec c) rs (sch, w')" "length rs < 2 ^ 31" "3 * tolerance c + 8 \<le> length rs" "3 < fuel"
    "bindE (interrupt [Usr2] (if 0 < g_wd_pid cl then wlog (Sent (g_wd_pid cl) SIGUSR2) w else w)) WDTasksRequestStop = Inr w'"
  shows "\<exists>cl' ans. WDStop [Usr2] rs fuel (Some junk) cl = Inr (cl', ans) \<and> Reviving \<in> set (w_log (cl_proc cl'))"
  by (rule WDStop_overwritten [OF assms])

theorem wd_stop_overwritten_witness:
  "\<exists>cl1 rs cl' ans. WDStart easy_start no_client 1 2 [''client''] 1 = Inr (cl1, WD_SUCCESS) \<and> length rs = 11 \<and>
     WDStop [Usr2] rs 4 (Some (\<lambda>_. 0)) cl1 = Inr (cl', ans) \<and> Reviving \<in> set (w_log (cl_proc cl'))"
proof -
  have a: "0 < (1 :: nat)" "0 < (2 :: nat)" "(2 :: nat) < 2 ^ 32" "1 \<le> length [''client'']" by simp_all
  let ?c = "\<lparr>peer_pid = 77, interval_sec = 2, tolerance = 1, counter = 0, stop_flag = 0, is_wd = 0, argc = 1, argv = [''client'']\<rparr>"
  obtain cl1 sch p where s: "WDStart easy_start no_client 1 2 [''client''] 1 = Inr (cl1, WD_SUCCESS)" "cl_thread cl1 = Thread_runs sch"
    "wd_live p ?c sch (cl_proc cl1)" "sc_counter sch = 2" "g_client_tid cl1" "duo sch 1000 1001"
    "g_wd_pid cl1 = 77"
    using WDStart_ok [OF easy_start_ok a, of no_client] by (auto simp: easy_start_def)
  obtain w' where w': "bindE (interrupt [Usr2] (if 0 < g_wd_pid cl1 then wlog (Sent (g_wd_pid cl1) SIGUSR2) (cl_proc cl1) else cl_proc cl1))
      WDTasksRequestStop = Inr w'" "wd_live p (?c\<lparr>stop_flag := 1\<rparr>) sch w'"
    using s(3,7) by (simp add: SigUsr2Handler_def WDTasksRequestStop_def load_ctx_def fetch_def put_ctx_def wlog_def wd_live_def ctx_ok_def)
  have "counter (?c\<lparr>stop_flag := 1\<rparr>) + int 11 < 2 ^ 31" "sc_counter sch + 2 * 11 < 2 ^ 64" using s(4) by simp_all
  from quiet_rounds_exist [OF w'(2) this] obtain rs where rs: "length rs = 11" "good_run (interval_sec ?c) rs (sch, w')" "list_all silent rs" by auto
  have side: "stop_flag ?c = 0" "counter ?c = 0" "is_wd ?c = 0" "length rs < 2 ^ 31" "3 * tolerance ?c + 8 \<le> length rs" "(3 :: nat) < 4"
    using rs(1) by simp_all
  from wd_stop_overwritten [OF s(3,6) side(1-3) refl s(2,5) rs(3,2) side(4-6) w'(1), of "\<lambda>_. 0"] rs(1) s(1) show ?thesis by blast
qed

end
